(* ===== verification/LaTTe_Prelude.thy ===== *)
theory LaTTe_Prelude
  imports Main "HOL-Library.Word"
begin

text \<open>
  Shared material of the LaTTe development: the names of the machine types (the build is
  the 32-bit big-endian SPARC one, so \<open>int\<close>, pointers and \<open>uint32\<close> are 32 bits wide and
  \<open>jlong\<close> is 64), the result type of operations that may throw, generic facts on lists,
  words and association of bits with positions, and the interface of a fixed-capacity bit
  set, which two components of the program implement separately.
\<close>

unbundle bit_operations_syntax

section \<open>Machine types\<close>

type_synonym uint8 = "8 word"
type_synonym uint16 = "16 word"
type_synonym uint32 = "32 word"
type_synonym jint = "32 word"
type_synonym jlong = "64 word"

text \<open>
  Java exceptions the modelled code throws with \<open>throwException\<close>, and the two ways in which
  the C program itself stops: \<open>ABORT()\<close> and \<open>EXIT()\<close>. \<open>C_undefined\<close> marks the inputs on
  which the C text has no meaning (an access out of bounds, a NULL dereference, a division
  whose quotient is not representable). An operation that may raise one of them returns \<open>Inl\<close>
  of it.
\<close>

datatype vm_error =
    NegativeArraySizeException
  | ClassCastException
  | ArrayStoreException
  | ArrayIndexOutOfBoundsException
  | NullPointerException
  | ArithmeticException
  | NoSuchMethodError
  | AbstractMethodError
  | IllegalAccessError
  | IncompatibleClassChangeError
  | IllegalMonitorStateException
  | ClassFormatError
  | NoSuchFieldError
  | ClassNotFoundException
  | NoClassDefFoundError
  | ClassCircularityError
  | LinkageError
  | OutOfMemoryError
  | ThreadDeath
  | VM_abort
  | VM_exit
  | C_undefined

type_synonym 'a result = "vm_error + 'a"

text \<open>Sequencing of operations that may fail.\<close>

definition bind_result :: "'a result \<Rightarrow> ('a \<Rightarrow> 'b result) \<Rightarrow> 'b result" where
  "bind_result r f = (case r of Inl e \<Rightarrow> Inl e | Inr x \<Rightarrow> f x)"

lemma bind_result_simps [simp]:
  "bind_result (Inl e) f = Inl e" "bind_result (Inr x) f = f x"
  by (simp_all add: bind_result_def)

lemma bind_result_cong [fundef_cong]:
  "r = r' \<Longrightarrow> (\<And>x. r' = Inr x \<Longrightarrow> f x = g x) \<Longrightarrow> bind_result r f = bind_result r' g"
  by (cases r') simp_all

lemma bind_result_Inr: "bind_result r f = Inr y \<longleftrightarrow> (\<exists>x. r = Inr x \<and> f x = Inr y)"
  by (cases r) simp_all

section \<open>Loops\<close>

text \<open>A loop whose body may run out of fuel (\<open>None\<close>) or raise.\<close>

fun each :: "('a \<Rightarrow> 'w \<Rightarrow> 'w result option) \<Rightarrow> 'a list \<Rightarrow> 'w \<Rightarrow> 'w result option" where
  "each f [] w = Some (Inr w)"
| "each f (x # xs) w =
     (case f x w of None \<Rightarrow> None | Some (Inl e) \<Rightarrow> Some (Inl e) | Some (Inr w) \<Rightarrow> each f xs w)"

definition and_then :: "'a result option \<Rightarrow> ('a \<Rightarrow> 'b result option) \<Rightarrow> 'b result option" where
  "and_then r f = (case r of None \<Rightarrow> None | Some (Inl e) \<Rightarrow> Some (Inl e) | Some (Inr x) \<Rightarrow> f x)"

lemma and_then_simps [simp]:
  "and_then None f = None" "and_then (Some (Inl e)) f = Some (Inl e)" "and_then (Some (Inr x)) f = f x"
  by (simp_all add: and_then_def)

lemma each_append: "each f (xs @ ys) w = and_then (each f xs w) (each f ys)"
  by (induction xs arbitrary: w) (auto split: option.splits sum.splits)

section \<open>Collections of facts\<close>

named_theorems wordbits \<open>bits of words and of rows of words\<close>
named_theorems frame \<open>fields an operation leaves alone\<close>

section \<open>Lists\<close>

lemma fold_invariant:
  assumes "P s" and "\<And>x s. x \<in> set xs \<Longrightarrow> P s \<Longrightarrow> P (f x s)"
  shows "P (fold f xs s)"
  using assms by (induction xs arbitrary: s) auto

lemma fold_list_update:
  assumes "length r = n"
  shows "fold (\<lambda>j r. r[j := g j (r ! j)]) [0..<n] r = map (\<lambda>j. g j (r ! j)) [0..<n]"
proof -
  have "fold (\<lambda>j r. r[j := g j (r ! j)]) [0..<k] r
          = map (\<lambda>j. g j (r ! j)) [0..<k] @ drop k r" if "k \<le> n" for k
    using that
  proof (induction k)
    case 0
    then show ?case by simp
  next
    case (Suc k)
    then have "k < length r" using assms by simp
    then have "drop k r = r ! k # drop (Suc k) r"
      by (rule Cons_nth_drop_Suc [symmetric])
    with Suc show ?case
      by (simp add: list_update_append nth_append)
  qed
  from this [of n] assms show ?thesis by simp
qed

section \<open>Words\<close>

lemma and_push_bit_one [wordbits]:
  fixes w :: "'a::len word"
  shows "(w AND push_bit n 1 \<noteq> 0) \<longleftrightarrow> bit w n"
  by (rule bit_iff_and_push_bit_not_eq_0 [symmetric])

lemma nonneg_sint:
  fixes w :: "'a::len word"
  assumes "0 \<le> sint w"
  shows "sint w = uint w" and "nat (sint w) = unat w"
proof -
  have "(2 :: int) ^ (LENGTH('a) - 1) \<le> 2 ^ LENGTH('a)" by (simp add: power_increasing)
  then have "sint w < 2 ^ LENGTH('a)" using sint_lt [of w] by linarith
  moreover have "uint w = uint (word_of_int (sint w) :: 'a word)" by simp
  ultimately show *: "sint w = uint w"
    using assms by (simp only: uint_word_of_int_eq take_bit_eq_mod) simp
  show "nat (sint w) = unat w" by (simp add: *)
qed

text \<open>Signed 32-bit arithmetic on integers, as the C compiler for SPARC evaluates \<open>int\<close>.\<close>

definition wrap32 :: "int \<Rightarrow> int" where
  "wrap32 x = sint (word_of_int x :: 32 word)"

lemma sint_in_range:
  assumes "- (2 ^ (LENGTH('a::len) - 1)) \<le> x" and "x < 2 ^ (LENGTH('a) - 1)"
  shows "sint (word_of_int x :: 'a word) = x"
  using assms by (simp add: sint_sbintrunc' signed_take_bit_int_eq_self)

lemma wrap32_id [simp]: "- (2 ^ 31) \<le> x \<Longrightarrow> x < 2 ^ 31 \<Longrightarrow> wrap32 x = x"
  unfolding wrap32_def by (rule sint_in_range) simp_all

lemma wrap32_bounds: "- (2 ^ 31) \<le> wrap32 x \<and> wrap32 x < 2 ^ 31"
  using sint_ge [of "word_of_int x :: 32 word"] sint_lt [of "word_of_int x :: 32 word"]
  by (simp add: wrap32_def)

section \<open>The interface of a bit set over rows of words\<close>

text \<open>
  Both the class inclusion test of the runtime and the bit vectors of the translator keep a
  set of small numbers in an array of words. What their clients rely on is the locale below:
  a capacity, a test and a setter.
\<close>

locale bitset =
  fixes cap :: "'r \<Rightarrow> nat"
    and isset :: "'r \<Rightarrow> nat \<Rightarrow> bool"
    and setb :: "'r \<Rightarrow> nat \<Rightarrow> 'r"
  assumes cap_setb: "cap (setb r q) = cap r"
    and isset_setb: "p < cap r \<Longrightarrow> q < cap r \<Longrightarrow> isset (setb r q) p \<longleftrightarrow> p = q \<or> isset r p"
begin

definition members :: "'r \<Rightarrow> nat set" where
  "members r = {p. p < cap r \<and> isset r p}"

lemma members_setb: "q < cap r \<Longrightarrow> members (setb r q) = insert q (members r)"
  by (auto simp: members_def cap_setb isset_setb)

lemma cap_fold: "cap (fold (\<lambda>q r. setb r q) qs r) = cap r"
  by (induction qs arbitrary: r) (simp_all add: cap_setb)

lemma members_fold:
  "\<forall>q \<in> set qs. q < cap r \<Longrightarrow> members (fold (\<lambda>q r. setb r q) qs r) = set qs \<union> members r"
  by (induction qs arbitrary: r) (auto simp: members_setb cap_setb)

end

end
