(* ===== verification/Class_Inclusion.thy ===== *)
theory Class_Inclusion
  imports LaTTe_Prelude
begin

text \<open>
  The class inclusion test of \<^verbatim>\<open>runtime/class_inclusion_test.c\<close>: every linked class owns a
  column (its position) and a row of bits, and class \<open>c\<close> is a subclass of class \<open>d\<close> when
  the bit of \<open>d\<close>'s column is set in \<open>c\<close>'s row. The matrix is grown when a class is linked.
\<close>

section \<open>Classes\<close>

text \<open>
  A class object is named by its address. The fields are those of \<open>Hjava_lang_Class\<close> the
  test reads: an array class keeps its component type, its element type and its dimension
  in the fields \<open>methods\<close>, \<open>fields\<close> and \<open>nfields\<close>; a primitive class is one whose dispatch
  table is \<open>_PRIMITIVE_DTABLE\<close>.
\<close>

type_synonym cid = nat

record jclass =
  cname :: string
  superclass :: "cid option"
  interfaces :: "cid list"
  primitive :: bool
  has_dtable :: bool
  component :: cid
  element :: cid
  dimension :: nat
  cstate :: nat

type_synonym class_table = "cid \<Rightarrow> jclass"

definition Class_IsArrayType :: "jclass \<Rightarrow> bool" where
  "Class_IsArrayType c = (case cname c of [] \<Rightarrow> False | ch # _ \<Rightarrow> ch = CHR ''['')"

section \<open>Rows\<close>

definition set_ith_bit :: "uint32 list \<Rightarrow> nat \<Rightarrow> uint32 list" where
  "set_ith_bit row pos =
     row[pos div 32 := row ! (pos div 32) OR push_bit (31 - pos mod 32) 1]"

definition is_ith_bit_set :: "uint32 list \<Rightarrow> nat \<Rightarrow> bool" where
  "is_ith_bit_set row pos \<longleftrightarrow> row ! (pos div 32) AND push_bit (31 - pos mod 32) 1 \<noteq> 0"

text \<open>
  The state: the static variables of the file, and the part of the heap it owns. Rows are
  arrays reached through two pointers, \<open>type_rep.row\<close> of the class and \<open>row\<close> of its dispatch
  table, so they live in a store and the two fields hold addresses in it.
\<close>

record cit =
  column_idx :: nat
  bitvec_size :: nat
  NormalHead :: "cid list"
  ArrayHead :: "cid list"
  row_store :: "nat \<Rightarrow> uint32 list"
  next_row :: nat
  type_pos :: "cid \<Rightarrow> nat"
  type_row :: "cid \<Rightarrow> nat"
  dtable_row :: "cid \<Rightarrow> nat option"
  encoding :: "cid \<Rightarrow> nat"

definition INITIAL_BITVEC_SIZE :: nat where "INITIAL_BITVEC_SIZE = 5"
definition EXPAND_BITVEC_SIZE :: nat where "EXPAND_BITVEC_SIZE = 5"

definition cit_init :: cit where
  "cit_init = \<lparr>column_idx = 0, bitvec_size = INITIAL_BITVEC_SIZE, NormalHead = [],
     ArrayHead = [], row_store = (\<lambda>_. []), next_row = 1, type_pos = (\<lambda>_. 0),
     type_row = (\<lambda>_. 0), dtable_row = (\<lambda>_. None), encoding = (\<lambda>_. 0)\<rparr>"

text \<open>\<open>CIT_MALLOC\<close> of a row: the fixed heap hands out zeroed memory. Address 0 is NULL.\<close>

definition alloc_row :: "cit \<Rightarrow> cit \<times> nat" where
  "alloc_row s =
     (s\<lparr>row_store := (row_store s)(next_row s := replicate (bitvec_size s) 0),
        next_row := Suc (next_row s)\<rparr>, next_row s)"

definition row_of :: "cit \<Rightarrow> cid \<Rightarrow> uint32 list" where
  "row_of s c = row_store s (type_row s c)"

definition write_row :: "cid \<Rightarrow> uint32 list \<Rightarrow> cit \<Rightarrow> cit" where
  "write_row c r s = s\<lparr>row_store := (row_store s)(type_row s c := r)\<rparr>"

definition set_dtable_row :: "class_table \<Rightarrow> cid \<Rightarrow> cit \<Rightarrow> cit" where
  "set_dtable_row ct c s =
     (if has_dtable (ct c) then s\<lparr>dtable_row := (dtable_row s)(c := Some (type_row s c))\<rparr>
      else s)"

text \<open>\<open>memcpy(dest, src, n * sizeof(uint32))\<close>.\<close>

definition memcpy_row :: "uint32 list \<Rightarrow> uint32 list \<Rightarrow> nat \<Rightarrow> uint32 list" where
  "memcpy_row dest src n = take n src @ drop n dest"

section \<open>Growing the matrix\<close>

definition expand_class :: "class_table \<Rightarrow> nat \<Rightarrow> cid \<Rightarrow> cit \<Rightarrow> cit" where
  "expand_class ct prev_size c s =
     (let prev_row = row_of s c;
          (s, a) = alloc_row s;
          s = s\<lparr>type_row := (type_row s)(c := a)\<rparr>;
          s = write_row c (memcpy_row (row_of s c) prev_row prev_size) s
      in set_dtable_row ct c s)"

definition expand_binary_matrix_in_class_list ::
    "class_table \<Rightarrow> cid list \<Rightarrow> nat \<Rightarrow> cit \<Rightarrow> cit" where
  "expand_binary_matrix_in_class_list ct cl prev_size s = fold (expand_class ct prev_size) cl s"

definition expand_binary_matrix :: "class_table \<Rightarrow> cit \<Rightarrow> cit" where
  "expand_binary_matrix ct s =
     (let prev_size = bitvec_size s;
          s = s\<lparr>bitvec_size := bitvec_size s + EXPAND_BITVEC_SIZE\<rparr>;
          s = expand_binary_matrix_in_class_list ct (NormalHead s) prev_size s
      in expand_binary_matrix_in_class_list ct (ArrayHead s) prev_size s)"

definition make_encoding :: "nat \<Rightarrow> nat" where
  "make_encoding pos = push_bit 8 (drop_bit 3 pos) OR push_bit (7 - pos mod 8) 1"

section \<open>Linking a class\<close>

definition update_array_step ::
    "class_table \<Rightarrow> cid \<Rightarrow> cid \<Rightarrow> cid \<Rightarrow> cit \<Rightarrow> cit" where
  "update_array_step ct ObjectClass c tmp s =
     (let elem_type = element (ct c); dim = dimension (ct c);
          tmp_elem_type = element (ct tmp); tmp_dim = dimension (ct tmp)
      in if elem_type = ObjectClass then
           (if tmp_dim \<ge> dim then write_row tmp (set_ith_bit (row_of s tmp) (type_pos s c)) s
            else s)
         else if tmp_elem_type = ObjectClass then
           (if dim \<ge> tmp_dim then write_row c (set_ith_bit (row_of s c) (type_pos s tmp)) s
            else s)
         else if dim = tmp_dim then
           (if primitive (ct elem_type) \<or> primitive (ct tmp_elem_type) then s
            else if is_ith_bit_set (row_of s elem_type) (type_pos s tmp_elem_type)
            then write_row c (set_ith_bit (row_of s c) (type_pos s tmp)) s
            else if is_ith_bit_set (row_of s tmp_elem_type) (type_pos s elem_type)
            then write_row tmp (set_ith_bit (row_of s tmp) (type_pos s c)) s
            else s)
         else s)"

definition update_array_class_hierarchy :: "class_table \<Rightarrow> cid \<Rightarrow> cid \<Rightarrow> cit \<Rightarrow> cit" where
  "update_array_class_hierarchy ct ObjectClass c s =
     (let s = (if \<not> primitive (ct (component (ct c)))
               then s\<lparr>encoding :=
                        (encoding s)(c := make_encoding (type_pos s (component (ct c))))\<rparr>
               else s);
          s = fold (update_array_step ct ObjectClass c) (ArrayHead s) s
      in s\<lparr>ArrayHead := c # ArrayHead s\<rparr>)"

definition or_rows :: "uint32 list \<Rightarrow> uint32 list \<Rightarrow> nat \<Rightarrow> uint32 list" where
  "or_rows dest src n = fold (\<lambda>j r. r[j := r ! j OR src ! j]) [0..<n] dest"

definition update_normal_class_hierarchy :: "class_table \<Rightarrow> cid \<Rightarrow> cit \<Rightarrow> cit" where
  "update_normal_class_hierarchy ct c s =
     (let s = fold (\<lambda>i s. write_row c (or_rows (row_of s c) (row_of s i) (bitvec_size s)) s)
                   (interfaces (ct c)) s
      in s\<lparr>NormalHead := c # NormalHead s\<rparr>)"

definition CIT_update_class_hierarchy :: "class_table \<Rightarrow> cid \<Rightarrow> cid \<Rightarrow> cit \<Rightarrow> cit" where
  "CIT_update_class_hierarchy ct ObjectClass c s =
     (let s = (if column_idx s \<ge> bitvec_size s * 32 then expand_binary_matrix ct s else s);
          s = s\<lparr>type_pos := (type_pos s)(c := column_idx s), column_idx := column_idx s + 1\<rparr>;
          (s, a) = alloc_row s;
          s = set_dtable_row ct c (s\<lparr>type_row := (type_row s)(c := a)\<rparr>);
          s = (case superclass (ct c) of None \<Rightarrow> s
               | Some sc \<Rightarrow> write_row c (memcpy_row (row_of s c) (row_of s sc) (bitvec_size s)) s);
          s = write_row c (set_ith_bit (row_of s c) (type_pos s c)) s
      in if Class_IsArrayType (ct c) then update_array_class_hierarchy ct ObjectClass c s
         else update_normal_class_hierarchy ct c s)"

definition CIT_is_subclass :: "cit \<Rightarrow> cid \<Rightarrow> cid \<Rightarrow> bool" where
  "CIT_is_subclass s c1 c2 \<longleftrightarrow> is_ith_bit_set (row_of s c1) (type_pos s c2)"

section \<open>Rows as sets of positions\<close>

definition row_cap :: "uint32 list \<Rightarrow> nat" where
  "row_cap r = 32 * length r"

lemma div_32_less [wordbits]: "p div 32 < n \<longleftrightarrow> (p :: nat) < 32 * n"
  by (simp add: div_less_iff_less_mult mult.commute)

lemma is_ith_bit_set_iff [wordbits]:
  "is_ith_bit_set row pos \<longleftrightarrow> bit (row ! (pos div 32)) (31 - pos mod 32)"
  unfolding is_ith_bit_set_def by (rule and_push_bit_one)

lemma same_bit_index:
  fixes p q :: nat
  assumes "p div 32 = q div 32" and "31 - p mod 32 = 31 - q mod 32"
  shows "p = q"
proof -
  have "p mod 32 \<le> 31" and "q mod 32 \<le> 31" by simp_all
  with assms(2) have "p mod 32 = q mod 32" by arith
  with assms(1) show ?thesis by (metis div_mult_mod_eq)
qed

interpretation cit_row: bitset row_cap is_ith_bit_set set_ith_bit
proof
  show "row_cap (set_ith_bit r q) = row_cap r" for r q
    by (simp add: set_ith_bit_def row_cap_def)
next
  fix p q and r :: "uint32 list"
  assume "p < row_cap r" and "q < row_cap r"
  then have idx: "p div 32 < length r" "q div 32 < length r"
    by (simp_all add: row_cap_def div_32_less)
  show "is_ith_bit_set (set_ith_bit r q) p \<longleftrightarrow> p = q \<or> is_ith_bit_set r p"
  proof (cases "p div 32 = q div 32")
    case True
    with idx show ?thesis
      by (auto simp: is_ith_bit_set_iff set_ith_bit_def bit_simps dest: same_bit_index)
  next
    case False
    then have "p \<noteq> q" by auto
    with False idx show ?thesis by (simp add: is_ith_bit_set_iff set_ith_bit_def)
  qed
qed

lemma in_members [wordbits]:
  "p \<in> cit_row.members r \<longleftrightarrow> p div 32 < length r \<and> bit (r ! (p div 32)) (31 - p mod 32)"
  by (simp add: cit_row.members_def is_ith_bit_set_iff row_cap_def div_32_less)

lemma length_set_ith_bit [simp]: "length (set_ith_bit r q) = length r"
  by (simp add: set_ith_bit_def)

lemma members_replicate_0 [simp]: "cit_row.members (replicate n 0) = {}"
  by (auto simp: in_members)

lemma or_rows_eq:
  "length dest = n \<Longrightarrow> or_rows dest src n = map (\<lambda>j. dest ! j OR src ! j) [0..<n]"
  unfolding or_rows_def by (rule fold_list_update [where g = "\<lambda>j x. x OR src ! j"])

lemma length_or_rows [simp]: "length dest = n \<Longrightarrow> length (or_rows dest src n) = n"
  by (simp add: or_rows_eq)

lemma members_or_rows:
  assumes "length dest = n" and "length src = n"
  shows "cit_row.members (or_rows dest src n) = cit_row.members dest \<union> cit_row.members src"
  using assms by (auto simp: in_members or_rows_eq bit_simps)

lemma memcpy_row_same [simp]:
  "length dest = n \<Longrightarrow> length src = n \<Longrightarrow> memcpy_row dest src n = src"
  by (simp add: memcpy_row_def)

lemma memcpy_row_grow:
  assumes "length src = n" and "n \<le> m"
  shows "length (memcpy_row (replicate m 0) src n) = m"
    and "cit_row.members (memcpy_row (replicate m 0) src n) = cit_row.members src"
  using assms by (auto simp: in_members memcpy_row_def nth_append split: if_splits)

section \<open>The row store\<close>

definition row_set :: "cit \<Rightarrow> cid \<Rightarrow> nat set" where
  "row_set s c = cit_row.members (row_of s c)"

text \<open>
  Every class linked so far owns a row of its own, of the current length, and the dispatch
  table points at the same row.
\<close>

definition rows_ok :: "class_table \<Rightarrow> cit \<Rightarrow> cid set \<Rightarrow> bool" where
  "rows_ok ct s A \<longleftrightarrow> inj_on (type_row s) A \<and>
     (\<forall>c\<in>A. 0 < type_row s c \<and> type_row s c < next_row s \<and> length (row_of s c) = bitvec_size s
        \<and> (has_dtable (ct c) \<longrightarrow> dtable_row s c = Some (type_row s c)))"

lemma row_of_write_row:
  assumes "rows_ok ct s A" and "c \<in> A" and "d \<in> A"
  shows "row_of (write_row c r s) d = (if d = c then r else row_of s d)"
  using assms by (auto simp: row_of_def write_row_def rows_ok_def inj_on_def)

lemma rows_ok_write_row:
  assumes "rows_ok ct s A" and "c \<in> A" and "length r = bitvec_size s"
  shows "rows_ok ct (write_row c r s) A"
  using assms row_of_write_row [OF assms(1,2), of _ r]
  by (simp add: rows_ok_def) (auto simp: write_row_def)

lemma write_row_frame [frame]:
  "column_idx (write_row c r s) = column_idx s"
  "bitvec_size (write_row c r s) = bitvec_size s"
  "NormalHead (write_row c r s) = NormalHead s"
  "ArrayHead (write_row c r s) = ArrayHead s"
  "type_pos (write_row c r s) = type_pos s"
  "type_row (write_row c r s) = type_row s"
  "next_row (write_row c r s) = next_row s"
  "dtable_row (write_row c r s) = dtable_row s"
  "encoding (write_row c r s) = encoding s"
  by (simp_all add: write_row_def)

lemma row_set_write_row:
  assumes "rows_ok ct s A" and "c \<in> A" and "d \<in> A"
  shows "row_set (write_row c r s) d = (if d = c then cit_row.members r else row_set s d)"
  using row_of_write_row [OF assms] by (simp add: row_set_def)

text \<open>Setting one bit in the row of \<open>c\<close>.\<close>

lemma row_set_set_bit:
  assumes "rows_ok ct s A" and "c \<in> A" and "d \<in> A" and "p < 32 * bitvec_size s"
  shows "row_set (write_row c (set_ith_bit (row_of s c) p) s) d
           = (if d = c then insert p (row_set s d) else row_set s d)"
proof -
  have "p < row_cap (row_of s c)" using assms by (simp add: rows_ok_def row_cap_def)
  then show ?thesis
    using row_set_write_row [OF assms(1-3)] by (simp add: cit_row.members_setb row_set_def)
qed

lemma rows_ok_set_bit:
  assumes "rows_ok ct s A" and "c \<in> A"
  shows "rows_ok ct (write_row c (set_ith_bit (row_of s c) p) s) A"
  using assms by (intro rows_ok_write_row) (auto simp: rows_ok_def)

lemma is_subclass_row_set:
  assumes "rows_ok ct s A" and "c \<in> A" and "type_pos s d < 32 * bitvec_size s"
  shows "CIT_is_subclass s c d \<longleftrightarrow> type_pos s d \<in> row_set s c"
  using assms
  by (simp add: CIT_is_subclass_def row_set_def cit_row.members_def rows_ok_def row_cap_def)

section \<open>Growing the matrix keeps every row's content\<close>

lemma expand_class_facts:
  fixes ct :: class_table
  assumes "type_row s d < next_row s" and "length (row_of s c) = n" and "n \<le> bitvec_size s"
  defines "t \<equiv> expand_class ct n c s"
  shows "row_set t d = (if d = c then row_set s c else row_set s d)"
    and "length (row_of t d) = (if d = c then bitvec_size s else length (row_of s d))"
    and "type_row t d = (if d = c then next_row s else type_row s d)"
    and "dtable_row t d = (if d = c \<and> has_dtable (ct c) then Some (next_row s) else dtable_row s d)"
    and "next_row t = Suc (next_row s)" and "bitvec_size t = bitvec_size s"
    and "column_idx t = column_idx s" and "NormalHead t = NormalHead s"
    and "ArrayHead t = ArrayHead s" and "type_pos t = type_pos s"
  using assms memcpy_row_grow [OF assms(2,3)]
  by (auto simp: expand_class_def alloc_row_def set_dtable_row_def write_row_def row_of_def
      row_set_def Let_def)

text \<open>
  Halfway through the growth some classes have rows of the new length \<open>m\<close> and the others,
  still to be visited, have rows of the old length.
\<close>

definition growing :: "class_table \<Rightarrow> cit \<Rightarrow> cid set \<Rightarrow> cid set \<Rightarrow> nat \<Rightarrow> bool" where
  "growing ct s A B n \<longleftrightarrow> inj_on (type_row s) A \<and>
     (\<forall>c\<in>A. 0 < type_row s c \<and> type_row s c < next_row s
        \<and> length (row_of s c) = (if c \<in> B then n else bitvec_size s)
        \<and> (has_dtable (ct c) \<longrightarrow> dtable_row s c = Some (type_row s c)))"

lemma expand_class_growing:
  assumes g: "growing ct s A B n" and "c \<in> A" and "c \<in> B" and "n \<le> bitvec_size s"
  shows "growing ct (expand_class ct n c s) A (B - {c}) n"
    and "d \<in> A \<Longrightarrow> row_set (expand_class ct n c s) d = row_set s d"
proof -
  have len: "length (row_of s c) = n" using g assms(2,3) by (simp add: growing_def)
  have lt: "type_row s d < next_row s" if "d \<in> A" for d using g that by (simp add: growing_def)
  note f = expand_class_facts [OF lt len assms(4), of _ ct]
  have inj: "inj_on (type_row (expand_class ct n c s)) A"
  proof (rule inj_onI)
    fix x y
    assume x: "x \<in> A" and y: "y \<in> A"
      and eq: "type_row (expand_class ct n c s) x = type_row (expand_class ct n c s) y"
    from eq lt [OF x] lt [OF y] have "x = y \<or> type_row s x = type_row s y"
      by (auto simp: f(3) [OF x] f(3) [OF y] split: if_splits)
    with g x y show "x = y" by (auto simp: growing_def dest: inj_onD)
  qed
  have "0 < type_row (expand_class ct n c s) d \<and>
        type_row (expand_class ct n c s) d < next_row (expand_class ct n c s) \<and>
        length (row_of (expand_class ct n c s) d)
          = (if d \<in> B - {c} then n else bitvec_size (expand_class ct n c s)) \<and>
        (has_dtable (ct d) \<longrightarrow>
           dtable_row (expand_class ct n c s) d = Some (type_row (expand_class ct n c s) d))"
    if "d \<in> A" for d
    using g lt [OF that] lt [OF assms(2)] that
    by (simp add: f [OF that] growing_def less_Suc_eq)
  with inj show "growing ct (expand_class ct n c s) A (B - {c}) n"
    by (simp add: growing_def)
  show "row_set (expand_class ct n c s) d = row_set s d" if "d \<in> A"
    using f(1) [OF that] by simp
qed

lemma expand_list_growing:
  assumes "growing ct s A B n" and "set cl \<subseteq> B" and "B \<subseteq> A" and "distinct cl"
    and "n \<le> bitvec_size s"
  shows "growing ct (expand_binary_matrix_in_class_list ct cl n s) A (B - set cl) n \<and>
         (\<forall>d\<in>A. row_set (expand_binary_matrix_in_class_list ct cl n s) d = row_set s d)"
  using assms unfolding expand_binary_matrix_in_class_list_def
proof (induction cl arbitrary: s B)
  case Nil
  then show ?case by simp
next
  case (Cons c cl)
  have c: "c \<in> A" "c \<in> B" using Cons.prems by auto
  have b: "bitvec_size (expand_class ct n c s) = bitvec_size s"
    using expand_class_facts(6) [of s c c n ct] Cons.prems(1,5) c by (simp add: growing_def)
  note g = expand_class_growing [OF Cons.prems(1) c Cons.prems(5)]
  have B: "B - {c} - set cl = B - set (c # cl)" by auto
  have sub: "set cl \<subseteq> B - {c}" "B - {c} \<subseteq> A" "distinct cl" using Cons.prems by auto
  from Cons.IH [OF g(1) sub] b Cons.prems(5) g(2) show ?case
    by (simp add: B)
qed

lemma expand_list_frame [frame]:
  "column_idx (expand_binary_matrix_in_class_list ct cl n s) = column_idx s"
  "bitvec_size (expand_binary_matrix_in_class_list ct cl n s) = bitvec_size s"
  "NormalHead (expand_binary_matrix_in_class_list ct cl n s) = NormalHead s"
  "ArrayHead (expand_binary_matrix_in_class_list ct cl n s) = ArrayHead s"
  "type_pos (expand_binary_matrix_in_class_list ct cl n s) = type_pos s"
  unfolding expand_binary_matrix_in_class_list_def
  by (induction cl arbitrary: s)
    (simp_all add: expand_class_def alloc_row_def set_dtable_row_def write_row_def Let_def)

lemma expand_binary_matrix_frame [frame]:
  "column_idx (expand_binary_matrix ct s) = column_idx s"
  "bitvec_size (expand_binary_matrix ct s) = bitvec_size s + EXPAND_BITVEC_SIZE"
  "NormalHead (expand_binary_matrix ct s) = NormalHead s"
  "ArrayHead (expand_binary_matrix ct s) = ArrayHead s"
  "type_pos (expand_binary_matrix ct s) = type_pos s"
  by (simp_all add: expand_binary_matrix_def Let_def frame)

lemma expand_binary_matrix_ok:
  assumes ok: "rows_ok ct s A" and A: "A = set (NormalHead s) \<union> set (ArrayHead s)"
    and dist: "distinct (NormalHead s @ ArrayHead s)"
  shows "rows_ok ct (expand_binary_matrix ct s) A"
    and "\<forall>d\<in>A. row_set (expand_binary_matrix ct s) d = row_set s d"
proof -
  let ?n = "bitvec_size s" and ?s = "s\<lparr>bitvec_size := bitvec_size s + EXPAND_BITVEC_SIZE\<rparr>"
  let ?t = "expand_binary_matrix_in_class_list ct (NormalHead s) ?n ?s"
  let ?u = "expand_binary_matrix_in_class_list ct (ArrayHead s) ?n ?t"
  have r: "row_of ?s = row_of s" by (simp add: row_of_def fun_eq_iff)
  have g0: "growing ct ?s A A ?n" using ok by (simp add: rows_ok_def growing_def r)
  have t: "growing ct ?t A (A - set (NormalHead s)) ?n" "\<forall>d\<in>A. row_set ?t d = row_set ?s d"
    using expand_list_growing [OF g0, of "NormalHead s"] A dist by (auto simp: EXPAND_BITVEC_SIZE_def)
  have B: "A - set (NormalHead s) - set (ArrayHead s) = {}" using A by auto
  have sub: "set (ArrayHead s) \<subseteq> A - set (NormalHead s)" using A dist by auto
  have u: "growing ct ?u A {} ?n" "\<forall>d\<in>A. row_set ?u d = row_set ?t d"
    using expand_list_growing [OF t(1) sub] dist by (auto simp: frame B)
  have eq: "expand_binary_matrix ct s = ?u" by (simp add: expand_binary_matrix_def Let_def frame)
  show "rows_ok ct (expand_binary_matrix ct s) A"
    using u(1) by (simp add: eq rows_ok_def growing_def)
  show "\<forall>d\<in>A. row_set (expand_binary_matrix ct s) d = row_set s d"
    using t(2) u(2) by (simp add: eq row_set_def r)
qed

section \<open>The abstract specification: a relation that grows with every linked class\<close>

text \<open>
  Abstractly the test keeps the set \<open>rel\<close> of pairs of a linked class and its linked
  supertypes. Linking \<open>c\<close> adds the pairs below.
\<close>

definition abs_array_step ::
    "class_table \<Rightarrow> cid \<Rightarrow> cid \<Rightarrow> cid \<Rightarrow> (cid \<times> cid) set \<Rightarrow> (cid \<times> cid) set" where
  "abs_array_step ct obj c t rel =
     (let e = element (ct c); d = dimension (ct c); te = element (ct t); td = dimension (ct t)
      in if e = obj then (if td \<ge> d then insert (t, c) rel else rel)
         else if te = obj then (if d \<ge> td then insert (c, t) rel else rel)
         else if d = td then
           (if primitive (ct e) \<or> primitive (ct te) then rel
            else if (e, te) \<in> rel then insert (c, t) rel
            else if (te, e) \<in> rel then insert (t, c) rel
            else rel)
         else rel)"

definition abs_super :: "class_table \<Rightarrow> cid \<Rightarrow> (cid \<times> cid) set \<Rightarrow> (cid \<times> cid) set" where
  "abs_super ct c rel =
     insert (c, c) (case superclass (ct c) of None \<Rightarrow> rel
                    | Some sc \<Rightarrow> rel \<union> {c} \<times> rel `` {sc})"

definition abs_update ::
    "class_table \<Rightarrow> cid \<Rightarrow> cid \<Rightarrow> cid list \<times> (cid \<times> cid) set \<Rightarrow> cid list \<times> (cid \<times> cid) set" where
  "abs_update ct obj c = (\<lambda>(cs, rel).
     (cs @ [c],
      if Class_IsArrayType (ct c)
      then fold (abs_array_step ct obj c) (rev (filter (\<lambda>t. Class_IsArrayType (ct t)) cs))
             (abs_super ct c rel)
      else abs_super ct c rel \<union> {c} \<times> (\<Union>i\<in>set (interfaces (ct c)). rel `` {i})))"

text \<open>
  The order in which classes are linked: every class once, after its superclass, its
  interfaces and (for an array) its element and component types, as \<open>processClass\<close> and
  \<open>lookupArray\<close> call \<open>CIT_update_class_hierarchy\<close>.
\<close>

definition arr :: "class_table \<Rightarrow> cid \<Rightarrow> bool" where
  "arr ct c = Class_IsArrayType (ct c)"

definition can_link :: "class_table \<Rightarrow> cid \<Rightarrow> cid list \<Rightarrow> cid \<Rightarrow> bool" where
  "can_link ct obj cs c \<longleftrightarrow>
     c \<notin> set cs \<and> \<not> primitive (ct c) \<and>
     (case superclass (ct c) of None \<Rightarrow> c = obj | Some sc \<Rightarrow> c \<noteq> obj \<and> sc \<in> set cs \<and> \<not> arr ct sc) \<and>
     (\<forall>i\<in>set (interfaces (ct c)). c \<noteq> obj \<and> i \<in> set cs \<and> \<not> arr ct i) \<and>
     (arr ct c \<longrightarrow>
        superclass (ct c) = Some obj \<and> interfaces (ct c) = [] \<and>
        \<not> arr ct (element (ct c)) \<and> 1 \<le> dimension (ct c) \<and>
        (primitive (ct (element (ct c))) \<or> element (ct c) \<in> set cs) \<and>
        (if dimension (ct c) = 1 then component (ct c) = element (ct c)
         else component (ct c) \<in> set cs \<and> arr ct (component (ct c)) \<and>
              element (ct (component (ct c))) = element (ct c) \<and>
              dimension (ct c) = Suc (dimension (ct (component (ct c))))) \<and>
        (\<forall>a\<in>set cs. arr ct a \<longrightarrow> (element (ct a), dimension (ct a)) \<noteq> (element (ct c), dimension (ct c))))"

fun linked_in_order :: "class_table \<Rightarrow> cid \<Rightarrow> cid list \<Rightarrow> cid list \<Rightarrow> bool" where
  "linked_in_order ct obj cs [] = True"
| "linked_in_order ct obj cs (c # ds) = (can_link ct obj cs c \<and> linked_in_order ct obj (cs @ [c]) ds)"

section \<open>Refinement\<close>

text \<open>
  \<open>cit_core\<close> ties the matrix to the relation; \<open>cit_inv\<close> adds the two lists of classes, from
  which the class being linked is still missing while its row is filled.
\<close>

definition cit_core ::
    "class_table \<Rightarrow> cit \<Rightarrow> cid list \<Rightarrow> (cid \<times> cid) set \<Rightarrow> bool" where
  "cit_core ct s cs rel \<longleftrightarrow>
     distinct cs \<and> column_idx s = length cs \<and> length cs \<le> 32 * bitvec_size s \<and>
     (\<forall>i<length cs. type_pos s (cs ! i) = i) \<and>
     rows_ok ct s (set cs) \<and> rel \<subseteq> set cs \<times> set cs \<and>
     (\<forall>c\<in>set cs. row_set s c = type_pos s ` (rel `` {c}))"

definition cit_heads :: "class_table \<Rightarrow> cit \<Rightarrow> cid list \<Rightarrow> bool" where
  "cit_heads ct s cs \<longleftrightarrow> NormalHead s = rev (filter (\<lambda>c. \<not> arr ct c) cs) \<and>
     ArrayHead s = rev (filter (arr ct) cs)"

definition cit_inv ::
    "class_table \<Rightarrow> cit \<Rightarrow> cid list \<Rightarrow> (cid \<times> cid) set \<Rightarrow> bool" where
  "cit_inv ct s cs rel \<longleftrightarrow> cit_core ct s cs rel \<and> cit_heads ct s cs \<and> 0 < next_row s"

lemma cit_inv_init: "cit_inv ct cit_init [] {}"
  by (simp add: cit_inv_def cit_core_def cit_heads_def cit_init_def rows_ok_def)

lemma pos_of:
  assumes "cit_core ct s cs rel" and "c \<in> set cs"
  shows "type_pos s c < length cs" and "cs ! type_pos s c = c"
  using assms by (auto simp: cit_core_def in_set_conv_nth)

lemma pos_less_cap:
  assumes "cit_core ct s cs rel" and "c \<in> set cs"
  shows "type_pos s c < 32 * bitvec_size s"
  using assms pos_of [OF assms] by (simp add: cit_core_def)

lemma inj_pos: "cit_core ct s cs rel \<Longrightarrow> inj_on (type_pos s) (set cs)"
  by (metis inj_onI pos_of(2))

lemma is_subclass_iff_rel:
  assumes inv: "cit_core ct s cs rel" and "c \<in> set cs" and "d \<in> set cs"
  shows "CIT_is_subclass s c d \<longleftrightarrow> (c, d) \<in> rel"
proof -
  have ok: "rows_ok ct s (set cs)" and rel: "rel \<subseteq> set cs \<times> set cs"
    and bits: "row_set s c = type_pos s ` (rel `` {c})"
    using inv assms(2) by (auto simp: cit_core_def)
  have "CIT_is_subclass s c d \<longleftrightarrow> type_pos s d \<in> type_pos s ` (rel `` {c})"
    using is_subclass_row_set [OF ok assms(2) pos_less_cap [OF inv assms(3)]] bits by simp
  also have "\<dots> \<longleftrightarrow> (c, d) \<in> rel"
    using inj_pos [OF inv] assms(3) rel by (auto dest: inj_onD)
  finally show ?thesis .
qed

text \<open>One bit set in a row is one pair added to the relation.\<close>

lemma cit_core_set_bit:
  assumes inv: "cit_core ct s cs rel" and c: "c \<in> set cs" and d: "d \<in> set cs"
  shows "cit_core ct (write_row c (set_ith_bit (row_of s c) (type_pos s d)) s) cs (insert (c, d) rel)"
proof -
  have ok: "rows_ok ct s (set cs)" using inv by (simp add: cit_core_def)
  have "row_set (write_row c (set_ith_bit (row_of s c) (type_pos s d)) s) x
          = type_pos s ` (insert (c, d) rel `` {x})" if "x \<in> set cs" for x
    using inv row_set_set_bit [OF ok c that pos_less_cap [OF inv d]] that
    by (auto simp: cit_core_def)
  then show ?thesis
    using inv c d rows_ok_set_bit [OF ok c] by (auto simp: cit_core_def frame)
qed

lemma cit_core_array_step:
  assumes inv: "cit_core ct s cs rel" and "c \<in> set cs" and "t \<in> set cs"
    and "primitive (ct (element (ct c))) \<or> element (ct c) \<in> set cs"
    and "primitive (ct (element (ct t))) \<or> element (ct t) \<in> set cs"
  shows "cit_core ct (update_array_step ct obj c t s) cs (abs_array_step ct obj c t rel)"
proof -
  note sb = cit_core_set_bit [OF inv]
  have tst: "is_ith_bit_set (row_of s x) (type_pos s y) \<longleftrightarrow> (x, y) \<in> rel"
    if "x \<in> set cs" "y \<in> set cs" for x y
    using is_subclass_iff_rel [OF inv that] by (simp add: CIT_is_subclass_def)
  show ?thesis
    unfolding update_array_step_def abs_array_step_def Let_def
    using inv assms sb by (auto simp: tst)
qed

lemma cit_inv_array_fold:
  assumes "cit_core ct s cs rel" and "c \<in> set cs" and "set ts \<subseteq> set cs"
    and "\<forall>x\<in>insert c (set ts). primitive (ct (element (ct x))) \<or> element (ct x) \<in> set cs"
  shows "cit_core ct (fold (update_array_step ct obj c) ts s) cs
           (fold (abs_array_step ct obj c) ts rel)"
  using assms by (induction ts arbitrary: s rel) (auto intro: cit_core_array_step)

lemma cit_core_or_row:
  assumes inv: "cit_core ct s cs rel" and c: "c \<in> set cs" and i: "i \<in> set cs"
  shows "cit_core ct (write_row c (or_rows (row_of s c) (row_of s i) (bitvec_size s)) s) cs
           (rel \<union> {c} \<times> rel `` {i})"
proof -
  let ?r = "or_rows (row_of s c) (row_of s i) (bitvec_size s)"
  have ok: "rows_ok ct s (set cs)" using inv by (simp add: cit_core_def)
  have len: "length (row_of s c) = bitvec_size s" "length (row_of s i) = bitvec_size s"
    using ok c i by (auto simp: rows_ok_def)
  have "row_set (write_row c ?r s) x = type_pos s ` ((rel \<union> {c} \<times> rel `` {i}) `` {x})"
    if "x \<in> set cs" for x
    using inv row_set_write_row [OF ok c that, of ?r] members_or_rows [OF len] that c i
    by (auto simp: cit_core_def row_set_def)
  moreover have "rows_ok ct (write_row c ?r s) (set cs)"
    using rows_ok_write_row [OF ok c] len by simp
  ultimately show ?thesis
    using inv c by (auto simp: cit_core_def frame)
qed

lemma cit_inv_or_fold:
  assumes "cit_core ct s cs rel" and "c \<in> set cs" and "set is \<subseteq> set cs - {c}"
  shows "cit_core ct
           (fold (\<lambda>i s. write_row c (or_rows (row_of s c) (row_of s i) (bitvec_size s)) s) is s) cs
           (rel \<union> {c} \<times> (\<Union>i\<in>set is. rel `` {i}))"
  using assms
proof (induction "is" arbitrary: s rel)
  case Nil
  then show ?case by simp
next
  case (Cons i js)
  have i: "i \<in> set cs" "i \<noteq> c" using Cons.prems by auto
  let ?rel = "rel \<union> {c} \<times> rel `` {i}"
  have rel: "?rel \<union> {c} \<times> (\<Union>j\<in>set js. ?rel `` {j}) = rel \<union> {c} \<times> (\<Union>j\<in>set (i # js). rel `` {j})"
    using Cons.prems(3) by auto
  from Cons.IH [OF cit_core_or_row [OF Cons.prems(1,2) i(1)] Cons.prems(2)] Cons.prems(3)
  show ?case by (simp only: rel fold_simps) simp
qed

text \<open>The state in which a class has just received its column, an empty row and nothing else.\<close>

definition new_row :: "class_table \<Rightarrow> cid \<Rightarrow> cit \<Rightarrow> cit" where
  "new_row ct c s =
     (let s = s\<lparr>type_pos := (type_pos s)(c := column_idx s), column_idx := column_idx s + 1\<rparr>;
          (s, a) = alloc_row s
      in set_dtable_row ct c (s\<lparr>type_row := (type_row s)(c := a)\<rparr>))"

lemma new_row_fields:
  "column_idx (new_row ct c s) = column_idx s + 1"
  "bitvec_size (new_row ct c s) = bitvec_size s"
  "NormalHead (new_row ct c s) = NormalHead s"
  "ArrayHead (new_row ct c s) = ArrayHead s"
  "type_pos (new_row ct c s) = (type_pos s)(c := column_idx s)"
  "type_row (new_row ct c s) = (type_row s)(c := next_row s)"
  "next_row (new_row ct c s) = Suc (next_row s)"
  "row_store (new_row ct c s) = (row_store s)(next_row s := replicate (bitvec_size s) 0)"
  "dtable_row (new_row ct c s) =
     (if has_dtable (ct c) then (dtable_row s)(c := Some (next_row s)) else dtable_row s)"
  by (simp_all add: new_row_def alloc_row_def set_dtable_row_def Let_def)

lemma row_set_head [simp]:
  "row_set (s\<lparr>ArrayHead := h\<rparr>) = row_set s" "row_set (s\<lparr>NormalHead := h\<rparr>) = row_set s"
  "row_of (s\<lparr>ArrayHead := h\<rparr>) = row_of s" "row_of (s\<lparr>NormalHead := h\<rparr>) = row_of s"
  "rows_ok ct (s\<lparr>ArrayHead := h\<rparr>) A = rows_ok ct s A"
  "rows_ok ct (s\<lparr>NormalHead := h\<rparr>) A = rows_ok ct s A"
  by (simp_all add: row_set_def row_of_def fun_eq_iff rows_ok_def)

lemma new_row_core:
  assumes inv: "cit_core ct s cs rel" and c: "c \<notin> set cs" and room: "column_idx s < 32 * bitvec_size s"
    and pos: "0 < next_row s"
  shows "cit_core ct (new_row ct c s) (cs @ [c]) rel"
proof -
  have ok: "rows_ok ct s (set cs)" and rel: "rel \<subseteq> set cs \<times> set cs" using inv by (auto simp: cit_core_def)
  have lt: "type_row s x < next_row s" if "x \<in> set cs" for x using ok that by (simp add: rows_ok_def)
  have ne: "next_row s \<noteq> type_row s x" if "x \<in> set cs" for x using lt [OF that] by simp
  have old: "row_of (new_row ct c s) x = row_of s x" if "x \<in> set cs" for x
    using lt [OF that] c that by (auto simp: row_of_def new_row_fields)
  have new: "row_of (new_row ct c s) c = replicate (bitvec_size s) 0"
    by (simp add: row_of_def new_row_fields)
  have ok': "rows_ok ct (new_row ct c s) (set (cs @ [c]))"
    using ok c pos old new lt ne
    by (auto simp: rows_ok_def new_row_fields less_Suc_eq inj_on_def) (metis ne)+
  have bits: "row_set (new_row ct c s) x = type_pos (new_row ct c s) ` (rel `` {x})"
    if "x \<in> set (cs @ [c])" for x
  proof (cases "x = c")
    case True
    with rel c show ?thesis by (auto simp: row_set_def new)
  next
    case False
    with that inv old have "row_set (new_row ct c s) x = type_pos s ` (rel `` {x})"
      by (simp add: row_set_def cit_core_def)
    also have "\<dots> = type_pos (new_row ct c s) ` (rel `` {x})"
      using rel c by (intro image_cong) (auto simp: new_row_fields)
    finally show ?thesis .
  qed
  have "type_pos (new_row ct c s) ((cs @ [c]) ! i) = i" if "i < length (cs @ [c])" for i
    using that inv c by (auto simp: cit_core_def new_row_fields nth_append less_Suc_eq)
  then show ?thesis
    using inv c room rel ok' bits
    unfolding cit_core_def by (auto simp: new_row_fields)
qed

lemma cit_core_other_fields:
  "cit_core ct (s\<lparr>ArrayHead := h\<rparr>) cs rel = cit_core ct s cs rel"
  "cit_core ct (s\<lparr>NormalHead := h\<rparr>) cs rel = cit_core ct s cs rel"
  "cit_core ct (s\<lparr>encoding := e\<rparr>) cs rel = cit_core ct s cs rel"
  by (simp_all add: cit_core_def row_set_def row_of_def rows_ok_def)

lemma cit_core_copy_row:
  assumes inv: "cit_core ct s cs rel" and c: "c \<in> set cs" and d: "d \<in> set cs" and "rel `` {c} = {}"
  shows "cit_core ct (write_row c (memcpy_row (row_of s c) (row_of s d) (bitvec_size s)) s) cs
           (rel \<union> {c} \<times> rel `` {d})"
proof -
  have ok: "rows_ok ct s (set cs)" using inv by (simp add: cit_core_def)
  have len: "length (row_of s c) = bitvec_size s" "length (row_of s d) = bitvec_size s"
    using ok c d by (auto simp: rows_ok_def)
  have "row_set (write_row c (row_of s d) s) x = type_pos s ` ((rel \<union> {c} \<times> rel `` {d}) `` {x})"
    if "x \<in> set cs" for x
    using inv row_set_write_row [OF ok c that, of "row_of s d"] that d assms(4)
    by (auto simp: cit_core_def row_set_def)
  moreover have "rows_ok ct (write_row c (row_of s d) s) (set cs)"
    using rows_ok_write_row [OF ok c] len by simp
  ultimately show ?thesis
    using inv c d len by (auto simp: cit_core_def frame)
qed

lemma cit_inv_make_room:
  assumes "cit_inv ct s cs rel"
  defines "t \<equiv> (if column_idx s \<ge> bitvec_size s * 32 then expand_binary_matrix ct s else s)"
  shows "cit_inv ct t cs rel" and "column_idx t < 32 * bitvec_size t"
proof -
  have core: "cit_core ct s cs rel" and heads: "cit_heads ct s cs" using assms by (auto simp: cit_inv_def)
  have A: "set cs = set (NormalHead s) \<union> set (ArrayHead s)"
    and dist: "distinct (NormalHead s @ ArrayHead s)" and ok: "rows_ok ct s (set cs)"
    using core heads by (auto simp: cit_heads_def cit_core_def)
  note ex = expand_binary_matrix_ok [OF ok A dist]
  have pos: "0 < next_row (expand_binary_matrix ct s)" if "cs \<noteq> []"
    using ex(1) that by (cases cs) (auto simp: rows_ok_def)
  show "cit_inv ct t cs rel"
  proof (cases "column_idx s \<ge> bitvec_size s * 32")
    case True
    have "cs \<noteq> []" if "0 < bitvec_size s" using True core that by (auto simp: cit_core_def)
    moreover have "next_row (expand_binary_matrix ct s) = next_row s" if "cs = []"
      using A that
      by (simp add: expand_binary_matrix_def expand_binary_matrix_in_class_list_def Let_def)
    ultimately have "0 < next_row (expand_binary_matrix ct s)"
      using pos assms(1) by (cases "cs = []") (auto simp: cit_inv_def)
    with True ex core heads show ?thesis
      by (auto simp: t_def cit_inv_def cit_core_def cit_heads_def frame)
  qed (use assms in \<open>simp add: t_def\<close>)
  show "column_idx t < 32 * bitvec_size t"
    using core by (auto simp: t_def frame cit_core_def EXPAND_BITVEC_SIZE_def)
qed

text \<open>The function as a composition of the steps above.\<close>

lemma CIT_update_class_hierarchy_eq:
  "CIT_update_class_hierarchy ct obj c s =
     (let s = (if column_idx s \<ge> bitvec_size s * 32 then expand_binary_matrix ct s else s);
          s = new_row ct c s;
          s = (case superclass (ct c) of None \<Rightarrow> s
               | Some sc \<Rightarrow> write_row c (memcpy_row (row_of s c) (row_of s sc) (bitvec_size s)) s);
          s = write_row c (set_ith_bit (row_of s c) (type_pos s c)) s
      in if arr ct c then update_array_class_hierarchy ct obj c s
         else update_normal_class_hierarchy ct c s)"
  unfolding CIT_update_class_hierarchy_def new_row_def alloc_row_def arr_def Let_def prod.case
  by (rule refl)

lemma heads_fold_array [frame]:
  "NormalHead (fold (update_array_step ct obj c) ts s) = NormalHead s"
  "ArrayHead (fold (update_array_step ct obj c) ts s) = ArrayHead s"
  "next_row (fold (update_array_step ct obj c) ts s) = next_row s"
  by (induction ts arbitrary: s) (simp_all add: update_array_step_def Let_def frame)

lemma heads_fold_normal [frame]:
  "NormalHead (fold (\<lambda>i s. write_row c (f i s) s) ts s) = NormalHead s"
  "ArrayHead (fold (\<lambda>i s. write_row c (f i s) s) ts s) = ArrayHead s"
  "next_row (fold (\<lambda>i s. write_row c (f i s) s) ts s) = next_row s"
  by (induction ts arbitrary: s) (simp_all add: frame)

lemma cit_inv_update:
  assumes inv: "cit_inv ct s cs rel" and link: "can_link ct obj cs c"
    and elems: "\<forall>a\<in>set cs. arr ct a \<longrightarrow> primitive (ct (element (ct a))) \<or> element (ct a) \<in> set cs"
  shows "cit_inv ct (CIT_update_class_hierarchy ct obj c s) (cs @ [c])
           (snd (abs_update ct obj c (cs, rel)))"
proof -
  define t where "t = (if column_idx s \<ge> bitvec_size s * 32 then expand_binary_matrix ct s else s)"
  have t: "cit_inv ct t cs rel" and room: "column_idx t < 32 * bitvec_size t"
    using cit_inv_make_room [OF inv] by (auto simp: t_def)
  have new: "c \<notin> set cs" using link by (simp add: can_link_def)
  define u where "u = new_row ct c t"
  have core: "cit_core ct u (cs @ [c]) rel" and heads: "cit_heads ct u cs" and nr: "0 < next_row u"
    using new_row_core [of ct t cs rel c] t room new
    by (auto simp: u_def cit_inv_def cit_heads_def new_row_fields)
  have none: "rel `` {c} = {}" using t new by (auto simp: cit_inv_def cit_core_def)
  define v where "v = (case superclass (ct c) of None \<Rightarrow> u
     | Some sc \<Rightarrow> write_row c (memcpy_row (row_of u c) (row_of u sc) (bitvec_size u)) u)"
  define w where "w = write_row c (set_ith_bit (row_of v c) (type_pos v c)) v"
  have v: "cit_core ct v (cs @ [c])
      (case superclass (ct c) of None \<Rightarrow> rel | Some sc \<Rightarrow> rel \<union> {c} \<times> rel `` {sc})"
    using core link cit_core_copy_row [OF core _ _ none]
    by (auto simp: v_def can_link_def split: option.splits)
  have w: "cit_core ct w (cs @ [c]) (abs_super ct c rel)"
    unfolding w_def abs_super_def by (rule cit_core_set_bit [OF v]) simp_all
  have hw: "cit_heads ct w cs" "0 < next_row w"
    using heads nr by (auto simp: w_def v_def cit_heads_def frame split: option.splits)
  have eq: "CIT_update_class_hierarchy ct obj c s =
      (if arr ct c then update_array_class_hierarchy ct obj c w
       else update_normal_class_hierarchy ct c w)"
    unfolding CIT_update_class_hierarchy_eq Let_def t_def u_def v_def w_def ..
  show ?thesis
  proof (cases "arr ct c")
    case True
    let ?e = "if \<not> primitive (ct (component (ct c)))
              then w\<lparr>encoding := (encoding w)(c := make_encoding (type_pos w (component (ct c))))\<rparr>
              else w"
    have "cit_core ct (fold (update_array_step ct obj c) (ArrayHead w) ?e) (cs @ [c])
            (fold (abs_array_step ct obj c) (ArrayHead w) (abs_super ct c rel))"
      using w hw link elems True
      by (intro cit_inv_array_fold) (auto simp: cit_core_other_fields cit_heads_def can_link_def)
    then show ?thesis
      using True hw
      by (auto simp: eq update_array_class_hierarchy_def abs_update_def cit_inv_def Let_def
          cit_core_other_fields cit_heads_def frame arr_def [abs_def])
  next
    case False
    have "cit_core ct (fold (\<lambda>i s. write_row c (or_rows (row_of s c) (row_of s i) (bitvec_size s)) s)
              (interfaces (ct c)) w) (cs @ [c])
            (abs_super ct c rel \<union> {c} \<times> (\<Union>i\<in>set (interfaces (ct c)). abs_super ct c rel `` {i}))"
      using w link new by (intro cit_inv_or_fold) (auto simp: can_link_def)
    moreover have "abs_super ct c rel `` {i} = rel `` {i}" if "i \<in> set (interfaces (ct c))" for i
      using that link new by (auto simp: abs_super_def can_link_def split: option.splits)
    ultimately show ?thesis
      using False hw
      by (auto simp: eq update_normal_class_hierarchy_def abs_update_def cit_inv_def Let_def
          cit_core_other_fields cit_heads_def frame arr_def)
  qed
qed

section \<open>What the matrix answers\<close>

text \<open>
  \<open>dsup\<close> is the direct supertype relation of the class files. \<open>cit_sub\<close> is the relation the
  matrix decides: between non-array classes the reflexive transitive closure of \<open>dsup\<close>; for
  arrays what the loop over the other array classes records.
\<close>

definition dsup :: "class_table \<Rightarrow> (cid \<times> cid) set" where
  "dsup ct = {(c, d). superclass (ct c) = Some d \<or> d \<in> set (interfaces (ct c))}"

definition arr_sub :: "class_table \<Rightarrow> cid \<Rightarrow> cid \<Rightarrow> cid \<Rightarrow> bool" where
  "arr_sub ct obj c d \<longleftrightarrow>
     (if element (ct d) = obj then element (ct c) \<noteq> obj \<and> dimension (ct c) \<ge> dimension (ct d)
      else dimension (ct c) = dimension (ct d) \<and>
           \<not> primitive (ct (element (ct c))) \<and> \<not> primitive (ct (element (ct d))) \<and>
           (element (ct c), element (ct d)) \<in> (dsup ct)\<^sup>*)"

definition cit_sub :: "class_table \<Rightarrow> cid \<Rightarrow> cid \<Rightarrow> cid \<Rightarrow> bool" where
  "cit_sub ct obj c d \<longleftrightarrow>
     (if arr ct d then c = d \<or> arr ct c \<and> arr_sub ct obj c d else (c, d) \<in> (dsup ct)\<^sup>*)"

definition cit_rel :: "class_table \<Rightarrow> cid \<Rightarrow> cid list \<Rightarrow> (cid \<times> cid) set" where
  "cit_rel ct obj cs = {(c, d). c \<in> set cs \<and> d \<in> set cs \<and> cit_sub ct obj c d}"

lemma linked_in_order_snoc [simp]:
  "linked_in_order ct obj cs (ds @ [c]) \<longleftrightarrow>
     linked_in_order ct obj cs ds \<and> can_link ct obj (cs @ ds) c"
  by (induction ds arbitrary: cs) auto

text \<open>What a complete order of linking gives for every class in it.\<close>

definition linked :: "class_table \<Rightarrow> cid \<Rightarrow> cid list \<Rightarrow> bool" where
  "linked ct obj cs \<longleftrightarrow> linked_in_order ct obj [] cs"

lemma linked_Nil [simp]: "linked ct obj []"
  by (simp add: linked_def)

lemma linked_snoc [simp]: "linked ct obj (cs @ [c]) \<longleftrightarrow> linked ct obj cs \<and> can_link ct obj cs c"
  by (simp add: linked_def)

lemma linked_distinct: "linked ct obj cs \<Longrightarrow> distinct cs"
  by (induction cs rule: rev_induct) (auto simp: can_link_def)

lemma linked_not_primitive: "linked ct obj cs \<Longrightarrow> c \<in> set cs \<Longrightarrow> \<not> primitive (ct c)"
  by (induction cs rule: rev_induct) (auto simp: can_link_def)

lemma linked_dsup:
  assumes "linked ct obj cs" and "c \<in> set cs" and "(c, d) \<in> dsup ct"
  shows "d \<in> set cs \<and> \<not> arr ct d \<and> c \<noteq> obj"
  using assms
proof (induction cs rule: rev_induct)
  case Nil
  then show ?case by simp
next
  case (snoc x xs)
  show ?case
  proof (cases "c \<in> set xs")
    case True
    with snoc show ?thesis by simp
  next
    case False
    with snoc.prems show ?thesis by (auto simp: can_link_def dsup_def)
  qed
qed

lemma linked_dsup_before:
  assumes "linked ct obj cs" and "i < length cs" and "(cs ! i, d) \<in> dsup ct"
  shows "\<exists>j<i. d = cs ! j"
  using assms
proof (induction cs rule: rev_induct)
  case Nil
  then show ?case by simp
next
  case (snoc x xs)
  show ?case
  proof (cases "i < length xs")
    case True
    with snoc obtain j where "j < i" "d = xs ! j" by (auto simp: nth_append)
    with True show ?thesis by (auto simp: nth_append intro!: exI [of _ j])
  next
    case False
    with snoc.prems have i: "i = length xs" "(x, d) \<in> dsup ct" by (auto simp: nth_append)
    with snoc.prems have "d \<in> set xs" by (auto simp: can_link_def dsup_def)
    then obtain j where "j < length xs" "d = xs ! j" by (auto simp: in_set_conv_nth)
    with i show ?thesis by (auto simp: nth_append intro!: exI [of _ j])
  qed
qed

lemma linked_dsup_rtrancl:
  assumes "linked ct obj cs" and "(c, d) \<in> (dsup ct)\<^sup>*" and "c \<in> set cs"
  shows "d \<in> set cs"
  using assms(2,3) by (induction rule: converse_rtrancl_induct) (auto dest: linked_dsup [OF assms(1)])

lemma linked_obj_top:
  assumes "linked ct obj cs" and "(obj, d) \<in> (dsup ct)\<^sup>*" and "obj \<in> set cs"
  shows "d = obj"
  using assms by (metis converse_rtranclE linked_dsup)

text \<open>Supertypes have smaller positions, so the hierarchy is antisymmetric.\<close>

lemma linked_acyclic:
  assumes "linked ct obj cs" and "c \<in> set cs"
  shows "(c, c) \<notin> (dsup ct)\<^sup>+"
  using assms
proof (induction cs rule: rev_induct)
  case Nil
  then show ?case by simp
next
  case (snoc x xs)
  show ?case
  proof
    assume cyc: "(c, c) \<in> (dsup ct)\<^sup>+"
    from snoc.IH snoc.prems cyc have "c = x" by auto
    with snoc.prems have "c \<notin> set xs" and link: "can_link ct obj xs c" by (auto simp: can_link_def)
    from cyc obtain d where d: "(c, d) \<in> dsup ct" "(d, c) \<in> (dsup ct)\<^sup>*" by (meson tranclD)
    from link d(1) have "d \<in> set xs" by (auto simp: can_link_def dsup_def split: option.splits)
    with linked_dsup_rtrancl [of ct obj xs, OF _ d(2)] snoc.prems have "c \<in> set xs" by simp
    with \<open>c \<notin> set xs\<close> show False by simp
  qed
qed

lemma linked_antisym:
  assumes "linked ct obj cs" and "c \<in> set cs" and "(c, d) \<in> (dsup ct)\<^sup>*" and "(d, c) \<in> (dsup ct)\<^sup>*"
  shows "c = d"
  using linked_acyclic [OF assms(1,2)] assms(3,4) by (metis rtranclD trancl_rtrancl_trancl)

lemma linked_array:
  assumes "linked ct obj cs" and "c \<in> set cs" and "arr ct c"
  shows "superclass (ct c) = Some obj" and "interfaces (ct c) = []" and "obj \<in> set cs"
    and "\<not> arr ct (element (ct c))" and "1 \<le> dimension (ct c)"
    and "primitive (ct (element (ct c))) \<or> element (ct c) \<in> set cs"
    and "\<not> arr ct obj"
  using assms by (induction cs rule: rev_induct) (auto simp: can_link_def)

lemma linked_array_unique:
  assumes "linked ct obj cs" and "a \<in> set cs" and "b \<in> set cs" and "arr ct a" and "arr ct b"
    and "element (ct a) = element (ct b)" and "dimension (ct a) = dimension (ct b)"
  shows "a = b"
  using assms by (induction cs rule: rev_induct) (auto simp: can_link_def)

text \<open>All arrays of smaller dimension over the same element type are linked too.\<close>

lemma linked_array_lower:
  assumes "linked ct obj cs" and "a \<in> set cs" and "arr ct a" and "1 \<le> k" and "k \<le> dimension (ct a)"
  shows "\<exists>b\<in>set cs. arr ct b \<and> element (ct b) = element (ct a) \<and> dimension (ct b) = k"
  using assms
proof (induction cs arbitrary: a rule: rev_induct)
  case Nil
  then show ?case by simp
next
  case (snoc x xs)
  show ?case
  proof (cases "k = dimension (ct a)")
    case True
    with snoc.prems show ?thesis by auto
  next
    case False
    show ?thesis
    proof (cases "a = x")
      case True
      then have link: "can_link ct obj xs a" using snoc.prems by simp
      let ?b = "component (ct a)"
      have b: "?b \<in> set xs" "arr ct ?b" "element (ct ?b) = element (ct a)" "k \<le> dimension (ct ?b)"
      proof -
        from snoc.prems(4,5) False have k: "dimension (ct a) \<noteq> 1" "k < dimension (ct a)" by arith+
        with link snoc.prems(3) have b: "?b \<in> set xs" "arr ct ?b" "element (ct ?b) = element (ct a)"
          and d: "dimension (ct a) = Suc (dimension (ct ?b))"
          unfolding can_link_def by simp_all
        from b show "?b \<in> set xs" "arr ct ?b" "element (ct ?b) = element (ct a)" .
        from d k(2) show "k \<le> dimension (ct ?b)" by linarith
      qed
      have "linked ct obj xs" using snoc.prems(1) by simp
      from snoc.IH [OF this b(1,2) snoc.prems(4) b(4)] b(3) show ?thesis by auto
    next
      case False
      with snoc.prems snoc.IH [of a]
      have "\<exists>b\<in>set xs. arr ct b \<and> element (ct b) = element (ct a) \<and> dimension (ct b) = k" by simp
      then show ?thesis by auto
    qed
  qed
qed

section \<open>The abstract specification computes the relation\<close>

lemma abs_step_normal:
  assumes lnk: "linked ct obj cs" and link: "can_link ct obj cs c" and na: "\<not> arr ct c"
  shows "snd (abs_update ct obj c (cs, cit_rel ct obj cs)) = cit_rel ct obj (cs @ [c])"
proof -
  have new: "c \<notin> set cs" using link by (simp add: can_link_def)
  have sup: "d \<in> set cs \<and> \<not> arr ct d" if "(c, d) \<in> dsup ct" for d
    using that link by (auto simp: dsup_def can_link_def split: option.splits)
  have unfold: "cit_sub ct obj c d \<longleftrightarrow> c = d \<or> (\<exists>x. (c, x) \<in> dsup ct \<and> cit_sub ct obj x d)" for d
  proof (cases "arr ct d")
    case True
    with na sup show ?thesis by (auto simp: cit_sub_def)
  next
    case False
    then show ?thesis
      unfolding cit_sub_def by (auto intro: converse_rtrancl_into_rtrancl elim: converse_rtranclE)
  qed
  have old: "\<not> cit_sub ct obj x c" if "x \<in> set cs" for x
    using that na new linked_dsup_rtrancl [OF lnk] by (auto simp: cit_sub_def)
  have "snd (abs_update ct obj c (cs, cit_rel ct obj cs))
      = insert (c, c) (cit_rel ct obj cs) \<union> {c} \<times> (\<Union>x\<in>dsup ct `` {c}. cit_rel ct obj cs `` {x})"
    using na by (auto simp: abs_update_def abs_super_def arr_def dsup_def split: option.splits)
  also have "\<dots> = cit_rel ct obj (cs @ [c])"
  proof (intro set_eqI, clarify)
    fix x d
    show "(x, d) \<in> insert (c, c) (cit_rel ct obj cs)
                     \<union> {c} \<times> (\<Union>x\<in>dsup ct `` {c}. cit_rel ct obj cs `` {x})
            \<longleftrightarrow> (x, d) \<in> cit_rel ct obj (cs @ [c])"
    proof (cases "x = c")
      case True
      have "(c, d) \<notin> cit_rel ct obj cs" using new by (simp add: cit_rel_def)
      moreover have "d = c \<or> d \<in> set cs \<and> (\<exists>y. (c, y) \<in> dsup ct \<and> cit_sub ct obj y d)
          \<longleftrightarrow> d \<in> set (cs @ [c]) \<and> cit_sub ct obj c d"
        using unfold [of d] by auto
      ultimately show ?thesis using True sup by (auto simp: cit_rel_def)
    next
      case False
      with old show ?thesis by (auto simp: cit_rel_def)
    qed
  qed
  finally show ?thesis .
qed

definition step_pairs :: "class_table \<Rightarrow> cid \<Rightarrow> cid \<Rightarrow> cid \<Rightarrow> (cid \<times> cid) set" where
  "step_pairs ct obj c t = {p. p = (c, t) \<and> arr_sub ct obj c t \<or> p = (t, c) \<and> arr_sub ct obj t c}"

lemma array_step_adds:
  assumes lnk: "linked ct obj cs" and link: "can_link ct obj cs c" and c: "arr ct c"
    and t: "t \<in> set cs" "arr ct t"
    and elems: "\<And>e d. e \<in> set cs \<Longrightarrow> d \<in> set cs \<Longrightarrow> \<not> arr ct d \<Longrightarrow> (e, d) \<in> rel \<longleftrightarrow> (e, d) \<in> (dsup ct)\<^sup>*"
  shows "abs_array_step ct obj c t rel = rel \<union> step_pairs ct obj c t"
proof -
  let ?e = "element (ct c)" and ?te = "element (ct t)"
  let ?d = "dimension (ct c)" and ?td = "dimension (ct t)"
  have lc: "linked ct obj (cs @ [c])" using lnk link by simp
  have obj: "obj \<in> set cs" using linked_array(3) [OF lnk t] .
  have e: "primitive (ct ?e) \<or> ?e \<in> set cs" "\<not> arr ct ?e"
    using link c by (auto simp: can_link_def)
  have te: "primitive (ct ?te) \<or> ?te \<in> set cs" "\<not> arr ct ?te"
    using linked_array [OF lnk t] by auto
  have top: "(obj, x) \<in> (dsup ct)\<^sup>* \<Longrightarrow> x = obj" for x using linked_obj_top [OF lnk _ obj] .
  have "c \<noteq> t" using link t by (auto simp: can_link_def)
  then have ne: "\<not> (?e = ?te \<and> ?d = ?td)"
    using linked_array_unique [OF lc] c t by auto
  have low: "\<not> ?td \<ge> ?d" if "?e = ?te"
  proof
    assume "?td \<ge> ?d"
    moreover have "1 \<le> ?d" using link c by (simp add: can_link_def)
    ultimately obtain b where "b \<in> set cs" "arr ct b" "element (ct b) = ?e" "dimension (ct b) = ?d"
      using linked_array_lower [OF lnk t] \<open>?e = ?te\<close> by metis
    then show False using link c by (auto simp: can_link_def)
  qed
  have anti: "(?e, ?te) \<in> (dsup ct)\<^sup>* \<Longrightarrow> (?te, ?e) \<in> (dsup ct)\<^sup>* \<Longrightarrow> ?e \<in> set cs \<Longrightarrow> ?e = ?te"
    using linked_antisym [OF lnk] by blast
  consider "?e = obj" | "?e \<noteq> obj" "?te = obj" | "?e \<noteq> obj" "?te \<noteq> obj" by blast
  then show ?thesis
  proof cases
    case 1
    with low top [of ?te] \<open>c \<noteq> t\<close> show ?thesis
      by (auto simp: abs_array_step_def step_pairs_def arr_sub_def Let_def)
  next
    case 2
    with top [of ?e] \<open>c \<noteq> t\<close> show ?thesis
      by (auto simp: abs_array_step_def step_pairs_def arr_sub_def Let_def)
  next
    case 3
    show ?thesis
    proof (cases "?d = ?td \<and> \<not> primitive (ct ?e) \<and> \<not> primitive (ct ?te)")
      case True
      then have in_cs: "?e \<in> set cs" "?te \<in> set cs" using e te by auto
      have "(?e, ?te) \<in> rel \<longleftrightarrow> (?e, ?te) \<in> (dsup ct)\<^sup>*" "(?te, ?e) \<in> rel \<longleftrightarrow> (?te, ?e) \<in> (dsup ct)\<^sup>*"
        using elems in_cs e te by auto
      with 3 True anti ne in_cs \<open>c \<noteq> t\<close> show ?thesis
        by (auto simp: abs_array_step_def step_pairs_def arr_sub_def Let_def)
    next
      case False
      with 3 show ?thesis
        by (auto simp: abs_array_step_def step_pairs_def arr_sub_def Let_def)
    qed
  qed
qed

lemma array_fold_adds:
  assumes lnk: "linked ct obj cs" and link: "can_link ct obj cs c" and c: "arr ct c"
    and ts: "set ts \<subseteq> {t \<in> set cs. arr ct t}"
    and elems: "\<And>e d. e \<in> set cs \<Longrightarrow> d \<in> set cs \<Longrightarrow> \<not> arr ct d \<Longrightarrow>
                  (e, d) \<in> rel \<longleftrightarrow> (e, d) \<in> (dsup ct)\<^sup>*"
  shows "fold (abs_array_step ct obj c) ts rel = rel \<union> (\<Union>t\<in>set ts. step_pairs ct obj c t)"
  using ts elems
proof (induction ts arbitrary: rel)
  case Nil
  then show ?case by simp
next
  case (Cons t ts)
  have t: "t \<in> set cs" "arr ct t" and ts: "set ts \<subseteq> {t \<in> set cs. arr ct t}" using Cons.prems(1) by auto
  have c': "c \<notin> set cs" using link by (simp add: can_link_def)
  have el: "(e, d) \<in> rel \<union> step_pairs ct obj c t \<longleftrightarrow> (e, d) \<in> (dsup ct)\<^sup>*"
    if "e \<in> set cs" "d \<in> set cs" "\<not> arr ct d" for e d
    using Cons.prems(2) [OF that] that t c' by (auto simp: step_pairs_def)
  have "fold (abs_array_step ct obj c) (t # ts) rel
          = fold (abs_array_step ct obj c) ts (rel \<union> step_pairs ct obj c t)"
    using array_step_adds [OF lnk link c t, of rel] Cons.prems(2) by simp
  also have "\<dots> = rel \<union> step_pairs ct obj c t \<union> (\<Union>t\<in>set ts. step_pairs ct obj c t)"
    by (rule Cons.IH [OF ts el])
  finally show ?case by (simp add: Un_assoc)
qed

lemma abs_step_array:
  assumes lnk: "linked ct obj cs" and link: "can_link ct obj cs c" and c: "arr ct c"
  shows "snd (abs_update ct obj c (cs, cit_rel ct obj cs)) = cit_rel ct obj (cs @ [c])"
proof -
  have new: "c \<notin> set cs" and sc: "superclass (ct c) = Some obj" and ifs: "interfaces (ct c) = []"
    and obj: "obj \<in> set cs" "\<not> arr ct obj"
    using link c by (auto simp: can_link_def)
  have dsup_c: "dsup ct `` {c} = {obj}" using sc ifs by (auto simp: dsup_def)
  have c_sup: "(c, d) \<in> (dsup ct)\<^sup>* \<longleftrightarrow> d = c \<or> d = obj" for d
    using dsup_c linked_obj_top [OF lnk _ obj(1)]
    by (metis Image_singleton_iff converse_rtranclE r_into_rtrancl rtrancl.rtrancl_refl singleton_iff)
  have obj_sup: "cit_sub ct obj obj d \<longleftrightarrow> d = obj" if "d \<in> set cs" for d
    using linked_obj_top [OF lnk _ obj(1)] obj(2) that by (auto simp: cit_sub_def)
  let ?ts = "rev (filter (arr ct) cs)"
  have rel0: "abs_super ct c (cit_rel ct obj cs) = insert (c, c) (insert (c, obj) (cit_rel ct obj cs))"
    using sc obj obj_sup by (auto simp: abs_super_def cit_rel_def)
  have el: "(e, d) \<in> abs_super ct c (cit_rel ct obj cs) \<longleftrightarrow> (e, d) \<in> (dsup ct)\<^sup>*"
    if "e \<in> set cs" "d \<in> set cs" "\<not> arr ct d" for e d
    unfolding rel0 using that new by (auto simp: cit_rel_def cit_sub_def)
  have "snd (abs_update ct obj c (cs, cit_rel ct obj cs))
          = abs_super ct c (cit_rel ct obj cs) \<union> (\<Union>t\<in>set ?ts. step_pairs ct obj c t)"
    using array_fold_adds [OF lnk link c _ el, of ?ts] c
    by (simp add: abs_update_def arr_def [abs_def] subset_iff)
  also have "\<dots> = cit_rel ct obj (cs @ [c])"
  proof (intro set_eqI, clarify)
    fix x d
    consider "x \<in> set cs" "d \<in> set cs" | "x = c" "d \<in> set cs" | "x = c" "d = c"
      | "x \<in> set cs" "d = c" | "x \<notin> set (cs @ [c]) \<or> d \<notin> set (cs @ [c])" by auto
    then show "(x, d) \<in> abs_super ct c (cit_rel ct obj cs) \<union> (\<Union>t\<in>set ?ts. step_pairs ct obj c t)
        \<longleftrightarrow> (x, d) \<in> cit_rel ct obj (cs @ [c])"
    proof cases
      case 1
      with new show ?thesis unfolding rel0 by (auto simp: cit_rel_def step_pairs_def)
    next
      case 2
      with new c obj c_sup [of d] show ?thesis unfolding rel0
        by (auto simp: cit_rel_def step_pairs_def cit_sub_def)
    next
      case 3
      with c show ?thesis unfolding rel0 by (auto simp: cit_rel_def cit_sub_def)
    next
      case 4
      with new c obj show ?thesis unfolding rel0 by (auto simp: cit_rel_def step_pairs_def cit_sub_def)
    next
      case 5
      with new obj show ?thesis unfolding rel0 by (auto simp: cit_rel_def step_pairs_def)
    qed
  qed
  finally show ?thesis .
qed

definition link_all :: "class_table \<Rightarrow> cid \<Rightarrow> cid list \<Rightarrow> cit" where
  "link_all ct obj cs = fold (CIT_update_class_hierarchy ct obj) cs cit_init"

lemma link_all_inv:
  assumes "linked ct obj cs"
  shows "cit_inv ct (link_all ct obj cs) cs (cit_rel ct obj cs)"
  using assms
proof (induction cs rule: rev_induct)
  case Nil
  then show ?case using cit_inv_init by (simp add: link_all_def cit_rel_def)
next
  case (snoc c cs)
  then have lnk: "linked ct obj cs" and link: "can_link ct obj cs c" by auto
  have "cit_inv ct (CIT_update_class_hierarchy ct obj c (link_all ct obj cs)) (cs @ [c])
          (snd (abs_update ct obj c (cs, cit_rel ct obj cs)))"
    using cit_inv_update [OF snoc.IH [OF lnk] link] linked_array(6) [OF lnk] by blast
  moreover have "snd (abs_update ct obj c (cs, cit_rel ct obj cs)) = cit_rel ct obj (cs @ [c])"
    using abs_step_array [OF lnk link] abs_step_normal [OF lnk link] by blast
  ultimately show ?case by (simp add: link_all_def)
qed

lemma CIT_is_subclass_iff:
  assumes "linked ct obj cs" and "c \<in> set cs" and "d \<in> set cs"
  shows "CIT_is_subclass (link_all ct obj cs) c d \<longleftrightarrow> cit_sub ct obj c d"
  using link_all_inv [OF assms(1)] is_subclass_iff_rel [OF _ assms(2,3)] assms
  by (auto simp: cit_inv_def cit_rel_def)

end
