(* ===== verification/Type_Test.thy ===== *)
theory Type_Test
  imports Class_Inclusion
begin

text \<open>
  The run-time type tests. \<^verbatim>\<open>soft.c\<close> has a recursive \<open>instanceof\<close> (with its two users
  \<open>checkcast\<close> and the array store check); \<^verbatim>\<open>translator/functions.c\<close> has the versions that
  translated code calls, which read the bit matrix of \<^verbatim>\<open>class_inclusion_test.c\<close>. The
  recursion of \<open>instanceof_class\<close> follows superclasses and interfaces with no check for a
  cycle, so it takes fuel; for a class at position \<open>i\<close> of a legal linking order \<open>i + 2\<close>
  calls are enough. Preparing an interface on the way (\<open>processClass\<close>) is a parameter.
\<close>

section \<open>Operations\<close>

definition CSTATE_PREPARED :: nat where "CSTATE_PREPARED = 4"

fun instanceof_class ::
      "(class_table \<Rightarrow> cid \<Rightarrow> class_table result) \<Rightarrow> nat \<Rightarrow> class_table \<Rightarrow> cid \<Rightarrow> cid option
       \<Rightarrow> (bool \<times> class_table) result option"
  and instanceof_interfaces ::
      "(class_table \<Rightarrow> cid \<Rightarrow> class_table result) \<Rightarrow> nat \<Rightarrow> class_table \<Rightarrow> cid \<Rightarrow> cid list
       \<Rightarrow> (bool \<times> class_table) result option" where
  "instanceof_class process 0 ct c oc = None"
| "instanceof_class process (Suc n) ct c oc =
     (if oc = Some c then Some (Inr (True, ct))
      else case oc of
        None \<Rightarrow> Some (Inr (False, ct))
      | Some x \<Rightarrow>
          (case instanceof_class process n ct c (superclass (ct x)) of
             None \<Rightarrow> None
           | Some (Inl e) \<Rightarrow> Some (Inl e)
           | Some (Inr (True, ct)) \<Rightarrow> Some (Inr (True, ct))
           | Some (Inr (False, ct)) \<Rightarrow>
               instanceof_interfaces process n ct c (interfaces (ct x))))"
| "instanceof_interfaces process n ct c [] = Some (Inr (False, ct))"
| "instanceof_interfaces process n ct c (ic # ics) =
     (case (if cstate (ct ic) < CSTATE_PREPARED then process ct ic else Inr ct) of
        Inl e \<Rightarrow> Some (Inl e)
      | Inr ct \<Rightarrow>
          (case instanceof_class process n ct c (Some ic) of
             None \<Rightarrow> None
           | Some (Inl e) \<Rightarrow> Some (Inl e)
           | Some (Inr (True, ct)) \<Rightarrow> Some (Inr (True, ct))
           | Some (Inr (False, ct)) \<Rightarrow> instanceof_interfaces process n ct c ics))"

fun strip_arrays :: "nat \<Rightarrow> class_table \<Rightarrow> cid \<Rightarrow> cid \<Rightarrow> (cid \<times> cid) option" where
  "strip_arrays 0 ct c oc = None"
| "strip_arrays (Suc n) ct c oc =
     (if Class_IsArrayType (ct c) \<and> Class_IsArrayType (ct oc)
      then strip_arrays n ct (component (ct c)) (component (ct oc))
      else Some (c, oc))"

definition instanceof_array ::
    "(class_table \<Rightarrow> cid \<Rightarrow> class_table result) \<Rightarrow> nat \<Rightarrow> class_table \<Rightarrow> cid \<Rightarrow> cid \<Rightarrow> cid
     \<Rightarrow> (bool \<times> class_table) result option" where
  "instanceof_array process n ct ObjectClass c oc =
     (case strip_arrays n ct c oc of
        None \<Rightarrow> None
      | Some (c, oc) \<Rightarrow>
          if Class_IsArrayType (ct c) then Some (Inr (False, ct))
          else if primitive (ct c) then Some (Inr (c = oc, ct))
          else if Class_IsArrayType (ct oc) then Some (Inr (c = ObjectClass, ct))
          else if primitive (ct oc) then Some (Inr (False, ct))
          else instanceof_class process n ct c (Some oc))"

definition instanceof ::
    "(class_table \<Rightarrow> cid \<Rightarrow> class_table result) \<Rightarrow> nat \<Rightarrow> class_table \<Rightarrow> cid \<Rightarrow> cid \<Rightarrow> cid
     \<Rightarrow> (bool \<times> class_table) result option" where
  "instanceof process n ct ObjectClass c oc =
     (if Class_IsArrayType (ct c) then instanceof_array process n ct ObjectClass c oc
      else instanceof_class process n ct c (Some oc))"

text \<open>An object reference is NULL or an address; \<open>Object_GetClass\<close> reads its dispatch table.\<close>

type_synonym oref = "nat option"

definition soft_instanceof ::
    "(class_table \<Rightarrow> cid \<Rightarrow> class_table result) \<Rightarrow> nat \<Rightarrow> class_table \<Rightarrow> cid \<Rightarrow> (nat \<Rightarrow> cid)
     \<Rightarrow> cid \<Rightarrow> oref \<Rightarrow> (bool \<times> class_table) result option" where
  "soft_instanceof process n ct ObjectClass Object_GetClass c ob =
     (case ob of None \<Rightarrow> Some (Inr (False, ct))
      | Some a \<Rightarrow> instanceof process n ct ObjectClass c (Object_GetClass a))"

definition soft_checkcast ::
    "(class_table \<Rightarrow> cid \<Rightarrow> class_table result) \<Rightarrow> nat \<Rightarrow> class_table \<Rightarrow> cid \<Rightarrow> (nat \<Rightarrow> cid)
     \<Rightarrow> cid \<Rightarrow> oref \<Rightarrow> (oref \<times> class_table) result option" where
  "soft_checkcast process n ct ObjectClass Object_GetClass c ob =
     (if ob \<noteq> None then
        (case soft_instanceof process n ct ObjectClass Object_GetClass c ob of
           None \<Rightarrow> None
         | Some (Inl e) \<Rightarrow> Some (Inl e)
         | Some (Inr (True, ct)) \<Rightarrow> Some (Inr (ob, ct))
         | Some (Inr (False, ct)) \<Rightarrow> Some (Inl ClassCastException))
      else Some (Inr (ob, ct)))"

definition soft_checkarraystore ::
    "(class_table \<Rightarrow> cid \<Rightarrow> class_table result) \<Rightarrow> nat \<Rightarrow> class_table \<Rightarrow> cid \<Rightarrow> (nat \<Rightarrow> cid)
     \<Rightarrow> nat \<Rightarrow> oref \<Rightarrow> class_table result option" where
  "soft_checkarraystore process n ct ObjectClass Object_GetClass array ob =
     (if ob \<noteq> None then
        (case soft_instanceof process n ct ObjectClass Object_GetClass
                (component (ct (Object_GetClass array))) ob of
           None \<Rightarrow> None
         | Some (Inl e) \<Rightarrow> Some (Inl e)
         | Some (Inr (True, ct)) \<Rightarrow> Some (Inr ct)
         | Some (Inr (False, ct)) \<Rightarrow> Some (Inl ArrayStoreException))
      else Some (Inr ct))"

text \<open>The translated code calls these two, which ask the bit matrix instead.\<close>

definition RT_is_instanceof :: "cit \<Rightarrow> (nat \<Rightarrow> cid) \<Rightarrow> cid \<Rightarrow> oref \<Rightarrow> bool" where
  "RT_is_instanceof s Object_GetClass c ob =
     (case ob of None \<Rightarrow> False | Some a \<Rightarrow> CIT_is_subclass s (Object_GetClass a) c)"

definition RT_check_cast :: "cit \<Rightarrow> (nat \<Rightarrow> cid) \<Rightarrow> cid \<Rightarrow> oref \<Rightarrow> unit result" where
  "RT_check_cast s Object_GetClass c ob =
     (if (case ob of None \<Rightarrow> True | Some a \<Rightarrow> CIT_is_subclass s (Object_GetClass a) c)
      then Inr () else Inl ClassCastException)"

section \<open>The recursive test decides the supertype relation\<close>

definition prepared :: "class_table \<Rightarrow> cid list \<Rightarrow> bool" where
  "prepared ct cs \<longleftrightarrow> (\<forall>c\<in>set cs. CSTATE_PREPARED \<le> cstate (ct c))"

lemma instanceof_interfaces_spec:
  assumes "\<And>ic. ic \<in> set ics \<Longrightarrow> CSTATE_PREPARED \<le> cstate (ct ic)"
    and "\<And>ic. ic \<in> set ics \<Longrightarrow> instanceof_class process n ct c (Some ic) = Some (Inr (P ic, ct))"
  shows "instanceof_interfaces process n ct c ics = Some (Inr (\<exists>ic\<in>set ics. P ic, ct))"
  using assms
proof (induction ics)
  case Nil
  then show ?case by simp
next
  case (Cons ic ics)
  then have "\<not> cstate (ct ic) < CSTATE_PREPARED"
    and "instanceof_class process n ct c (Some ic) = Some (Inr (P ic, ct))"
    by (simp_all add: not_less)
  with Cons show ?case by (simp split: bool.splits)
qed

text \<open>
  Every supertype has a smaller position in the linking order, so the recursion for the class
  at position \<open>i\<close> needs no more than \<open>i + 2\<close> nested calls.
\<close>

lemma instanceof_class_spec:
  assumes lnk: "linked ct obj cs" and prep: "prepared ct cs"
    and "i < length cs" and "i + 2 \<le> n"
  shows "instanceof_class process n ct c (Some (cs ! i)) = Some (Inr ((cs ! i, c) \<in> (dsup ct)\<^sup>*, ct))"
  using assms(3,4)
proof (induction i arbitrary: n rule: less_induct)
  case (less i)
  let ?x = "cs ! i"
  obtain m where n: "n = Suc m" "i + 1 \<le> m" using less.prems by (cases n) auto
  have x: "?x \<in> set cs" using less.prems by simp
  have below: "\<exists>j<i. d = cs ! j" if "(?x, d) \<in> dsup ct" for d
    using linked_dsup_before [OF lnk less.prems(1) that] .
  have rec: "instanceof_class process m ct c (Some d) = Some (Inr ((d, c) \<in> (dsup ct)\<^sup>*, ct))"
    if "(?x, d) \<in> dsup ct" for d
  proof -
    from below [OF that] obtain j where "j < i" "d = cs ! j" by auto
    with less.IH [of j m] less.prems n show ?thesis by simp
  qed
  define P where "P d \<longleftrightarrow> (d, c) \<in> (dsup ct)\<^sup>*" for d
  have "P ?x \<longleftrightarrow> ?x = c \<or> (\<exists>d. (?x, d) \<in> dsup ct \<and> P d)"
    unfolding P_def by (auto intro: converse_rtrancl_into_rtrancl elim: converse_rtranclE)
  then have unf: "P ?x \<longleftrightarrow> ?x = c \<or> (case superclass (ct ?x) of None \<Rightarrow> False | Some d \<Rightarrow> P d)
      \<or> (\<exists>d\<in>set (interfaces (ct ?x)). P d)"
    by (auto simp: dsup_def split: option.splits)
  have sup: "instanceof_class process m ct c (superclass (ct ?x))
      = Some (Inr (case superclass (ct ?x) of None \<Rightarrow> False | Some d \<Rightarrow> P d, ct))"
  proof (cases "superclass (ct ?x)")
    case None
    with n show ?thesis by (cases m) simp_all
  next
    case (Some d)
    with rec [of d] show ?thesis by (simp add: dsup_def P_def)
  qed
  have ifs: "instanceof_interfaces process m ct c (interfaces (ct ?x))
      = Some (Inr (\<exists>d\<in>set (interfaces (ct ?x)). P d, ct))"
  proof (rule instanceof_interfaces_spec)
    fix ic assume "ic \<in> set (interfaces (ct ?x))"
    then have "(?x, ic) \<in> dsup ct" by (simp add: dsup_def)
    then show "CSTATE_PREPARED \<le> cstate (ct ic)"
      and "instanceof_class process m ct c (Some ic) = Some (Inr (P ic, ct))"
      using prep rec linked_dsup [OF lnk x] by (auto simp: prepared_def P_def)
  qed
  show ?case
  proof (cases "?x = c")
    case True
    then show ?thesis by (simp add: n)
  next
    case False
    then show ?thesis
      using unf unfolding P_def [symmetric] by (simp add: n sup ifs split: bool.splits)
  qed
qed

text \<open>Component types walk down one dimension at a time, to the element type.\<close>

lemma linked_component:
  assumes "linked ct obj cs" and "a \<in> set cs" and "arr ct a"
  shows "if dimension (ct a) = 1 then component (ct a) = element (ct a)
         else component (ct a) \<in> set cs \<and> arr ct (component (ct a)) \<and>
              element (ct (component (ct a))) = element (ct a) \<and>
              dimension (ct a) = Suc (dimension (ct (component (ct a))))"
  using assms
proof (induction cs rule: rev_induct)
  case Nil
  then show ?case by simp
next
  case (snoc x xs)
  then have "a \<in> set xs \<or> a = x \<and> can_link ct obj xs a" by auto
  with snoc show ?case by (auto simp: can_link_def split: if_splits)
qed

text \<open>
  The result of stripping the two array types in parallel, where \<open>c\<close> may be any linked class
  or an element type.
\<close>

definition stripped :: "class_table \<Rightarrow> cid \<Rightarrow> cid \<Rightarrow> cid \<Rightarrow> cid \<Rightarrow> bool" where
  "stripped ct c oc c' oc' \<longleftrightarrow>
     (if dimension (ct oc) < dimension (ct c) then arr ct c' \<and> oc' = element (ct oc)
      else c' = element (ct c) \<and>
           (if dimension (ct oc) = dimension (ct c) then oc' = element (ct oc) else arr ct oc'))"

lemma strip_arrays_spec:
  assumes lnk: "linked ct obj cs"
  shows "c \<in> set cs \<Longrightarrow> arr ct c \<Longrightarrow> oc \<in> set cs \<Longrightarrow> arr ct oc \<Longrightarrow> dimension (ct c) < n \<Longrightarrow>
    \<exists>c' oc'. strip_arrays n ct c oc = Some (c', oc') \<and> stripped ct c oc c' oc'"
proof (induction n arbitrary: c oc)
  case 0
  then show ?case by simp
next
  case (Suc n)
  let ?c = "component (ct c)" and ?o = "component (ct oc)"
  have step: "strip_arrays (Suc n) ct c oc = strip_arrays n ct ?c ?o"
    using Suc.prems by (simp add: arr_def)
  note cc = linked_component [OF lnk Suc.prems(1,2)]
  note co = linked_component [OF lnk Suc.prems(3,4)]
  note ac = linked_array [OF lnk Suc.prems(1,2)]
  note ao = linked_array [OF lnk Suc.prems(3,4)]
  obtain m where n: "n = Suc m" using Suc.prems(5) ac(5) by (cases n) auto
  show ?case
  proof (cases "dimension (ct c) = 1 \<or> dimension (ct oc) = 1")
    case True
    then have "\<not> (arr ct ?c \<and> arr ct ?o)" using cc co ac(4) ao(4) by auto
    then have "strip_arrays n ct ?c ?o = Some (?c, ?o)" by (auto simp: n arr_def)
    moreover have "stripped ct c oc ?c ?o"
    proof (cases "dimension (ct c) = 1")
      case True
      with cc co ao(5) show ?thesis by (simp add: stripped_def split: if_splits)
    next
      case False
      with True have "dimension (ct oc) = 1" by simp
      with False cc co ac(5) show ?thesis by (simp add: stripped_def)
    qed
    ultimately show ?thesis using step by simp
  next
    case False
    with cc co Suc.prems(5)
    obtain c' oc' where st: "strip_arrays n ct ?c ?o = Some (c', oc')" and "stripped ct ?c ?o c' oc'"
      using Suc.IH [of ?c ?o] by auto
    then have "stripped ct c oc c' oc'" using False cc co by (simp add: stripped_def)
    with st step show ?thesis by simp
  qed
qed

text \<open>What the test of \<^verbatim>\<open>soft.c\<close> answers for two linked classes.\<close>

definition java_sub :: "class_table \<Rightarrow> cid \<Rightarrow> cid \<Rightarrow> cid \<Rightarrow> bool" where
  "java_sub ct obj oc c \<longleftrightarrow>
     (if arr ct c then
        arr ct oc \<and> dimension (ct c) \<le> dimension (ct oc) \<and>
        (if primitive (ct (element (ct c)))
         then dimension (ct c) = dimension (ct oc) \<and> element (ct c) = element (ct oc)
         else if dimension (ct c) < dimension (ct oc) then element (ct c) = obj
         else \<not> primitive (ct (element (ct oc))) \<and>
              (element (ct oc), element (ct c)) \<in> (dsup ct)\<^sup>*)
      else (oc, c) \<in> (dsup ct)\<^sup>*)"

lemma instanceof_spec:
  assumes lnk: "linked ct obj cs" and prep: "prepared ct cs"
    and c: "c \<in> set cs" and oc: "oc \<in> set cs"
    and fuel: "length cs + 2 \<le> n" "dimension (ct c) < n"
  shows "instanceof process n ct obj c oc = Some (Inr (java_sub ct obj oc c, ct))"
proof -
  have cls: "instanceof_class process n ct d (Some x) = Some (Inr ((x, d) \<in> (dsup ct)\<^sup>*, ct))"
    if "x \<in> set cs" for x d
    using that instanceof_class_spec [OF lnk prep] fuel(1) by (auto simp: in_set_conv_nth)
  show ?thesis
  proof (cases "arr ct c")
    case False
    with cls [OF oc] show ?thesis by (simp add: instanceof_def java_sub_def arr_def)
  next
    case ac: True
    show ?thesis
    proof (cases "arr ct oc")
      case False
      with ac fuel(2) show ?thesis
        by (cases n) (auto simp: instanceof_def instanceof_array_def java_sub_def arr_def)
    next
      case ao: True
      obtain c' oc' where st: "strip_arrays n ct c oc = Some (c', oc')"
        and res: "stripped ct c oc c' oc'"
        using strip_arrays_spec [OF lnk c ac oc ao fuel(2)] by blast
      have e: "\<not> arr ct (element (ct c))" "\<not> arr ct (element (ct oc))"
        "primitive (ct (element (ct oc))) \<or> element (ct oc) \<in> set cs"
        using linked_array [OF lnk c ac] linked_array [OF lnk oc ao] by auto
      have "instanceof process n ct obj c oc = instanceof_array process n ct obj c oc"
        using ac by (simp add: instanceof_def arr_def)
      also have "\<dots> = Some (Inr (java_sub ct obj oc c, ct))"
        using res e ac ao cls
        by (auto simp: instanceof_array_def st java_sub_def stripped_def arr_def split: if_splits)
      finally show ?thesis .
    qed
  qed
qed

lemma linked_reaches_obj:
  assumes "linked ct obj cs" and "c \<in> set cs"
  shows "(c, obj) \<in> (dsup ct)\<^sup>*"
  using assms
proof (induction cs arbitrary: c rule: rev_induct)
  case Nil
  then show ?case by simp
next
  case (snoc x xs)
  show ?case
  proof (cases "c \<in> set xs")
    case True
    with snoc show ?thesis by simp
  next
    case False
    with snoc.prems have link: "can_link ct obj xs c" and lnk: "linked ct obj xs" by auto
    show ?thesis
    proof (cases "superclass (ct c)")
      case None
      with link show ?thesis by (simp add: can_link_def)
    next
      case (Some sc)
      with link have "sc \<in> set xs" and "(c, sc) \<in> dsup ct" by (auto simp: can_link_def dsup_def)
      with snoc.IH [OF lnk] show ?thesis by (meson converse_rtrancl_into_rtrancl)
    qed
  qed
qed

section \<open>Where the matrix and the recursive test differ\<close>

text \<open>
  \<open>cit_gap oc c\<close> holds for the pairs of array classes on which the loop of
  \<open>update_array_class_hierarchy\<close> records something else than the recursive test answers: both
  types are arrays, \<open>c\<close> has element type \<open>Object\<close>, and either \<open>oc\<close> is an array of \<open>Object\<close> of
  a larger dimension (the pair is missing) or \<open>oc\<close> is an array of a primitive type of the same
  dimension (the pair is recorded).
\<close>

definition cit_gap :: "class_table \<Rightarrow> cid \<Rightarrow> cid \<Rightarrow> cid \<Rightarrow> bool" where
  "cit_gap ct obj oc c \<longleftrightarrow>
     arr ct oc \<and> arr ct c \<and> element (ct c) = obj \<and>
     (if element (ct oc) = obj then dimension (ct c) < dimension (ct oc)
      else primitive (ct (element (ct oc))) \<and> dimension (ct oc) = dimension (ct c))"

lemma cit_sub_java_sub:
  assumes lnk: "linked ct obj cs" and c: "c \<in> set cs" and oc: "oc \<in> set cs"
  shows "cit_sub ct obj oc c = (java_sub ct obj oc c \<noteq> cit_gap ct obj oc c)"
proof (cases "arr ct c \<and> arr ct oc")
  case False
  then show ?thesis using c oc by (auto simp: cit_sub_def java_sub_def cit_gap_def)
next
  case True
  then have ac: "arr ct c" and ao: "arr ct oc" by auto
  have uniq: "element (ct oc) = element (ct c) \<Longrightarrow> dimension (ct oc) = dimension (ct c) \<Longrightarrow> oc = c"
    using linked_array_unique [OF lnk oc c ao ac] .
  have e: "primitive (ct (element (ct oc))) \<or> element (ct oc) \<in> set cs"
    and obj: "\<not> primitive (ct obj)"
    using linked_array [OF lnk oc ao] linked_not_primitive [OF lnk] by auto
  have top: "(element (ct oc), obj) \<in> (dsup ct)\<^sup>*" if "\<not> primitive (ct (element (ct oc)))"
    using e that linked_reaches_obj [OF lnk] by auto
  show ?thesis
  proof (cases "element (ct c) = obj")
    case True
    show ?thesis
    proof (cases "element (ct oc) = obj")
      case eo: True
      have same: "oc = c \<longleftrightarrow> dimension (ct oc) = dimension (ct c)"
        using uniq True eo by auto
      have "cit_sub ct obj oc c \<longleftrightarrow> oc = c" "cit_gap ct obj oc c \<longleftrightarrow> dimension (ct c) < dimension (ct oc)"
        "java_sub ct obj oc c \<longleftrightarrow> dimension (ct c) \<le> dimension (ct oc)"
        by (simp_all add: cit_sub_def arr_sub_def cit_gap_def java_sub_def ac ao True eo obj)
      with same show ?thesis by auto
    next
      case False
      then have "oc \<noteq> c" using True by auto
      with False top show ?thesis
        by (auto simp: cit_sub_def java_sub_def cit_gap_def arr_sub_def ac ao True obj)
    qed
  next
    case ne: False
    show ?thesis
    proof (cases "primitive (ct (element (ct c)))")
      case True
      then have "cit_sub ct obj oc c \<longleftrightarrow> oc = c" "\<not> cit_gap ct obj oc c"
        "java_sub ct obj oc c \<longleftrightarrow> dimension (ct c) = dimension (ct oc) \<and> element (ct c) = element (ct oc)"
        by (auto simp: cit_sub_def arr_sub_def cit_gap_def java_sub_def ac ao ne)
      with uniq show ?thesis by auto
    next
      case False
      with ne show ?thesis
        by (auto simp: cit_sub_def java_sub_def cit_gap_def arr_sub_def ac ao)
    qed
  qed
qed

lemma soft_instanceof_spec:
  assumes "linked ct obj cs" and "prepared ct cs" and "c \<in> set cs" and "cls a \<in> set cs"
    and "length cs + 2 \<le> n" and "dimension (ct c) < n"
  shows "soft_instanceof process n ct obj cls c (Some a)
           = Some (Inr (java_sub ct obj (cls a) c, ct))"
  using instanceof_spec [OF assms] by (simp add: soft_instanceof_def)

lemma RT_is_instanceof_spec:
  assumes "linked ct obj cs" and "c \<in> set cs" and "cls a \<in> set cs"
  shows "RT_is_instanceof (link_all ct obj cs) cls c (Some a)
           = (java_sub ct obj (cls a) c \<noteq> cit_gap ct obj (cls a) c)"
  using CIT_is_subclass_iff [OF assms(1,3,2)] cit_sub_java_sub [OF assms]
  by (simp add: RT_is_instanceof_def)

section \<open>A small class hierarchy\<close>

text \<open>
  \<open>Object\<close> (0), \<open>Number\<close> (1), the interface \<open>Cmp\<close> (2), \<open>Big\<close> extending \<open>Number\<close> and
  implementing \<open>Cmp\<close> (3), \<open>int\<close> (4), and the arrays \<open>Object[]\<close> (5), \<open>Object[][]\<close> (6),
  \<open>int[]\<close> (7), \<open>Number[]\<close> (8) and \<open>Big[]\<close> (9).
\<close>

definition mk_class :: "string \<Rightarrow> cid option \<Rightarrow> cid list \<Rightarrow> jclass" where
  "mk_class nm sc ifs = \<lparr>cname = nm, superclass = sc, interfaces = ifs, primitive = False,
     has_dtable = True, component = 0, element = 0, dimension = 0, cstate = 10\<rparr>"

definition mk_array :: "cid \<Rightarrow> cid \<Rightarrow> nat \<Rightarrow> jclass" where
  "mk_array cmp el dim = (mk_class ''['' (Some 0) [])\<lparr>component := cmp, element := el, dimension := dim\<rparr>"

definition demo_table :: class_table where
  "demo_table c =
     (if c = 0 then mk_class ''Object'' None []
      else if c = 1 then mk_class ''Number'' (Some 0) []
      else if c = 2 then mk_class ''Cmp'' (Some 0) []
      else if c = 3 then mk_class ''Big'' (Some 1) [2]
      else if c = 4 then (mk_class ''int'' None [])\<lparr>primitive := True, has_dtable := False\<rparr>
      else if c = 5 then mk_array 0 0 1
      else if c = 6 then mk_array 5 0 2
      else if c = 7 then mk_array 4 4 1
      else if c = 8 then mk_array 1 1 1
      else mk_array 3 3 1)"

definition demo_order :: "cid list" where
  "demo_order = [0, 1, 2, 3, 5, 6, 7, 8, 9]"

lemma demo_linked: "linked demo_table 0 demo_order"
  by (simp add: linked_def demo_order_def can_link_def demo_table_def mk_class_def mk_array_def
      arr_def Class_IsArrayType_def)

lemma demo_prepared: "prepared demo_table demo_order"
  by (simp add: prepared_def demo_order_def demo_table_def mk_class_def mk_array_def CSTATE_PREPARED_def)

section \<open>Properties\<close>

text \<open>
  C1. The bit matrix decides the supertype relation between classes: after any sequence of
  class linkings in a legal order (including those that made the matrix grow), the test for a
  linked class and a linked non-array class answers exactly whether the second is reached from
  the first by following superclasses and interfaces.
\<close>

theorem CIT_decides_supertypes:
  assumes "linked ct obj cs" and "c \<in> set cs" and "d \<in> set cs"
    and "\<not> Class_IsArrayType (ct d)"
  shows "CIT_is_subclass (link_all ct obj cs) c d \<longleftrightarrow> (c, d) \<in> (dsup ct)\<^sup>*"
  using CIT_is_subclass_iff [OF assms(1-3)] assms(4) by (simp add: cit_sub_def arr_def)

theorem CIT_decides_supertypes_witness:
  "CIT_is_subclass (link_all demo_table 0 demo_order) 3 2 \<longleftrightarrow> (3, 2) \<in> (dsup demo_table)\<^sup>*"
proof (rule CIT_decides_supertypes [OF demo_linked])
  show "3 \<in> set demo_order" "2 \<in> set demo_order" by (simp_all add: demo_order_def)
  show "\<not> Class_IsArrayType (demo_table 2)"
    by (simp add: demo_table_def mk_class_def Class_IsArrayType_def)
qed

text \<open>
  C2. The two implementations of \<open>instanceof\<close> in the program, the recursive one that the
  interpreter and the baseline compiler call and the matrix lookup that translated code calls,
  both return for linked, prepared classes and give the same answer except exactly on the
  pairs of \<open>cit_gap\<close>: \<open>Object[][]\<close> is not found to be an \<open>Object[]\<close>, and \<open>int[]\<close> is
  found to be one. The recursive test leaves the class table unchanged and calls
  \<open>processClass\<close> on nothing.
\<close>

theorem RT_and_soft_instanceof_agree:
  assumes "linked ct obj cs" and "prepared ct cs" and "c \<in> set cs" and "cls a \<in> set cs"
    and "length cs + 2 \<le> n" and "dimension (ct c) < n"
  shows "\<exists>b. soft_instanceof process n ct obj cls c (Some a) = Some (Inr (b, ct)) \<and>
             RT_is_instanceof (link_all ct obj cs) cls c (Some a) = (b \<noteq> cit_gap ct obj (cls a) c)"
  using soft_instanceof_spec [where cls = cls and a = a and process = process, OF assms]
    RT_is_instanceof_spec [where cls = cls and a = a, OF assms(1,3,4)] by blast

theorem RT_and_soft_instanceof_agree_witness:
  "\<exists>b. soft_instanceof (\<lambda>ct c. Inr ct) 20 demo_table 0 id 5 (Some 6) = Some (Inr (b, demo_table)) \<and>
       RT_is_instanceof (link_all demo_table 0 demo_order) id 5 (Some 6)
         = (b \<noteq> cit_gap demo_table 0 (id 6) 5)"
proof (rule RT_and_soft_instanceof_agree [OF demo_linked demo_prepared])
  show "5 \<in> set demo_order" "id 6 \<in> set demo_order" "length demo_order + 2 \<le> 20"
    by (simp_all add: demo_order_def)
  show "dimension (demo_table 5) < 20" by (simp add: demo_table_def mk_array_def)
qed

text \<open>
  C3. The class inclusion test does not recognise the subtypes of \<open>Object[]\<close> it should: an
  array of \<open>Object\<close> with more dimensions is never a subclass of one with fewer, and every
  primitive array is a subclass of the \<open>Object\<close> array of the same dimension.
\<close>

theorem CIT_object_arrays:
  assumes "linked ct obj cs" and "c \<in> set cs" and "d \<in> set cs"
    and "Class_IsArrayType (ct c)" and "Class_IsArrayType (ct d)" and "element (ct d) = obj"
  shows "(element (ct c) = obj \<and> dimension (ct d) < dimension (ct c) \<longrightarrow>
           \<not> CIT_is_subclass (link_all ct obj cs) c d) \<and>
         (primitive (ct (element (ct c))) \<and> dimension (ct c) = dimension (ct d) \<longrightarrow>
           CIT_is_subclass (link_all ct obj cs) c d)"
proof -
  have "obj \<in> set cs" using linked_array(3) [OF assms(1,2)] assms(4) by (simp add: arr_def)
  then have "\<not> primitive (ct obj)" using linked_not_primitive [OF assms(1)] by simp
  then show ?thesis
    using CIT_is_subclass_iff [OF assms(1-3)] assms(4-6)
    by (auto simp: cit_sub_def arr_sub_def arr_def)
qed

theorem CIT_object_arrays_witness:
  "\<not> CIT_is_subclass (link_all demo_table 0 demo_order) 6 5 \<and>
   CIT_is_subclass (link_all demo_table 0 demo_order) 7 5"
  using CIT_object_arrays [OF demo_linked, of 6 5] CIT_object_arrays [OF demo_linked, of 7 5]
  by (simp add: demo_order_def demo_table_def mk_array_def mk_class_def Class_IsArrayType_def)

text \<open>
  C4. The matrix stays well formed: every linked class has its own row of the current length,
  its column lies inside the rows, and the pointer in the dispatch table, which translated
  code follows, is the same row, also after the matrix was reallocated.
\<close>

theorem CIT_rows_well_formed:
  assumes "linked ct obj cs" and "c \<in> set cs"
  defines "s \<equiv> link_all ct obj cs"
  shows "length (row_of s c) = bitvec_size s \<and> type_pos s c < 32 * bitvec_size s \<and>
         (has_dtable (ct c) \<longrightarrow> dtable_row s c = Some (type_row s c)) \<and>
         inj_on (type_pos s) (set cs) \<and> inj_on (type_row s) (set cs)"
proof -
  have inv: "cit_core ct s cs (cit_rel ct obj cs)"
    using link_all_inv [OF assms(1)] by (simp add: cit_inv_def s_def)
  then show ?thesis
    using pos_less_cap [OF inv assms(2)] inj_pos [OF inv] assms(2)
    by (simp add: cit_core_def rows_ok_def)
qed

theorem CIT_rows_well_formed_witness:
  "length (row_of (link_all demo_table 0 demo_order) 6) = bitvec_size (link_all demo_table 0 demo_order)
   \<and> dtable_row (link_all demo_table 0 demo_order) 6 = Some (type_row (link_all demo_table 0 demo_order) 6)"
  using CIT_rows_well_formed [OF demo_linked, of 6]
  by (simp add: demo_order_def demo_table_def mk_array_def mk_class_def)

end
