(* ===== verification/Soft_Arith.thy ===== *)
theory Soft_Arith
  imports LaTTe_Prelude Complex_Main "HOL-Library.Signed_Division"
begin

text \<open>
  The arithmetic helpers of \<^verbatim>\<open>runtime/soft.c\<close> that the interpreter and the JIT call for
  instructions the machine has no single instruction for, and the binary search of
  \<^verbatim>\<open>translator/functions.c\<close> behind \<open>lookupswitch\<close>.

  Integers are words at their width; signed overflow of addition, subtraction and
  multiplication wraps, as on the target. A floating point value is a not-a-number, an
  infinity, negative zero or an exact rational (\<open>Fin 0\<close> is positive zero), so that
  comparisons, \<open>ceil\<close>, \<open>floor\<close> and \<open>fmod\<close>, which are exact, are definitions; the rounding
  division of the hardware is a parameter.
\<close>

section \<open>Floating point values\<close>

datatype jfp = NaN | PInf | NInf | NZero | Fin rat

fun isnan :: "jfp \<Rightarrow> bool" where
  "isnan NaN = True"
| "isnan _ = False"

fun isinf :: "jfp \<Rightarrow> bool" where
  "isinf PInf = True"
| "isinf NInf = True"
| "isinf _ = False"

fun fp_rat :: "jfp \<Rightarrow> rat option" where
  "fp_rat NZero = Some 0"
| "fp_rat (Fin r) = Some r"
| "fp_rat _ = None"

text \<open>The C operators \<open>>\<close> and \<open>==\<close>: false when an operand is not a number.\<close>

definition fp_gt :: "jfp \<Rightarrow> jfp \<Rightarrow> bool" where
  "fp_gt a b =
     (if isnan a \<or> isnan b then False
      else if a = PInf then b \<noteq> PInf
      else if b = NInf then a \<noteq> NInf
      else (case (fp_rat a, fp_rat b) of (Some x, Some y) \<Rightarrow> x > y | _ \<Rightarrow> False))"

definition fp_eq :: "jfp \<Rightarrow> jfp \<Rightarrow> bool" where
  "fp_eq a b =
     (if isnan a \<or> isnan b then False
      else if isinf a \<or> isinf b then a = b
      else fp_rat a = fp_rat b)"

definition fp_trunc :: "rat \<Rightarrow> int" where
  "fp_trunc r = (if r < 0 then \<lceil>r\<rceil> else \<lfloor>r\<rfloor>)"

fun fp_ceil :: "jfp \<Rightarrow> jfp" where
  "fp_ceil (Fin r) = (if r < 0 \<and> \<lceil>r\<rceil> = 0 then NZero else Fin (of_int \<lceil>r\<rceil>))"
| "fp_ceil v = v"

fun fp_floor :: "jfp \<Rightarrow> jfp" where
  "fp_floor (Fin r) = Fin (of_int \<lfloor>r\<rfloor>)"
| "fp_floor v = v"

text \<open>
  The C library's \<open>fmod\<close>: the exact remainder, with the sign of the first operand.
\<close>

fun fmod :: "jfp \<Rightarrow> jfp \<Rightarrow> jfp" where
  "fmod (Fin x) (Fin y) =
     (if y = 0 then NaN
      else let r = x - of_int (fp_trunc (x / y)) * y in if r = 0 \<and> x < 0 then NZero else Fin r)"
| "fmod NZero (Fin y) = (if y = 0 then NaN else NZero)"
| "fmod (Fin x) PInf = Fin x"
| "fmod (Fin x) NInf = Fin x"
| "fmod NZero PInf = NZero"
| "fmod NZero NInf = NZero"
| "fmod _ _ = NaN"

text \<open>A cast to an integer type: undefined in C when the truncated value does not fit.\<close>

definition fp_cast :: "jfp \<Rightarrow> 'a::len word result" where
  "fp_cast v =
     (case fp_rat v of
        None \<Rightarrow> Inl C_undefined
      | Some r \<Rightarrow>
          let i = fp_trunc r in
          if - (2 ^ (LENGTH('a) - 1)) \<le> i \<and> i < 2 ^ (LENGTH('a) - 1)
          then Inr (word_of_int i) else Inl C_undefined)"

section \<open>Comparison\<close>

definition soft_dcmpg :: "jfp \<Rightarrow> jfp \<Rightarrow> jint" where
  "soft_dcmpg v1 v2 =
     (if (\<not> isinf v1 \<and> isnan v1) \<or> (\<not> isinf v2 \<and> isnan v2) then 1
      else if fp_gt v1 v2 then 1
      else if fp_eq v1 v2 then 0
      else - 1)"

definition soft_dcmpl :: "jfp \<Rightarrow> jfp \<Rightarrow> jint" where
  "soft_dcmpl v1 v2 =
     (if (\<not> isinf v1 \<and> isnan v1) \<or> (\<not> isinf v2 \<and> isnan v2) then - 1
      else if fp_gt v1 v2 then 1
      else if fp_eq v1 v2 then 0
      else - 1)"

definition soft_fcmpg :: "jfp \<Rightarrow> jfp \<Rightarrow> jint" where
  "soft_fcmpg v1 v2 =
     (if (\<not> isinf v1 \<and> isnan v1) \<or> (\<not> isinf v2 \<and> isnan v2) then 1
      else if fp_gt v1 v2 then 1
      else if fp_eq v1 v2 then 0
      else - 1)"

definition soft_fcmpl :: "jfp \<Rightarrow> jfp \<Rightarrow> jint" where
  "soft_fcmpl v1 v2 =
     (if (\<not> isinf v1 \<and> isnan v1) \<or> (\<not> isinf v2 \<and> isnan v2) then - 1
      else if fp_gt v1 v2 then 1
      else if fp_eq v1 v2 then 0
      else - 1)"

definition soft_lcmp :: "jlong \<Rightarrow> jlong \<Rightarrow> jint" where
  "soft_lcmp v1 v2 =
     (let lcc = v2 - v1
      in if sint lcc < 0 then - 1 else if sint lcc > 0 then 1 else 0)"

section \<open>Multiplication and division\<close>

text \<open>
  Signed division: C has no result for a zero divisor and for the one quotient that does not
  fit. The \<open>long\<close> versions test for zero themselves; the \<open>int\<close> ones rely on the caller (the
  hardware traps).
\<close>

definition c_sdiv :: "'a::len word \<Rightarrow> 'a word \<Rightarrow> 'a word result" where
  "c_sdiv a b =
     (if b = 0 \<or> sint a = - (2 ^ (LENGTH('a) - 1)) \<and> b = - 1 then Inl C_undefined
      else Inr (word_of_int (sint a sdiv sint b)))"

definition c_smod :: "'a::len word \<Rightarrow> 'a word \<Rightarrow> 'a word result" where
  "c_smod a b =
     (if b = 0 \<or> sint a = - (2 ^ (LENGTH('a) - 1)) \<and> b = - 1 then Inl C_undefined
      else Inr (word_of_int (sint a smod sint b)))"

definition soft_lmul :: "jlong \<Rightarrow> jlong \<Rightarrow> jlong" where
  "soft_lmul v1 v2 = v1 * v2"

definition soft_ldiv :: "jlong \<Rightarrow> jlong \<Rightarrow> jlong result" where
  "soft_ldiv v1 v2 = (if v2 = 0 then Inl ArithmeticException else c_sdiv v1 v2)"

definition soft_lrem :: "jlong \<Rightarrow> jlong \<Rightarrow> jlong result" where
  "soft_lrem v1 v2 = (if v2 = 0 then Inl ArithmeticException else c_smod v1 v2)"

definition soft_mul :: "jint \<Rightarrow> jint \<Rightarrow> jint" where
  "soft_mul v1 v2 = v1 * v2"

definition soft_div :: "jint \<Rightarrow> jint \<Rightarrow> jint result" where
  "soft_div v1 v2 = c_sdiv v1 v2"

definition soft_rem :: "jint \<Rightarrow> jint \<Rightarrow> jint result" where
  "soft_rem v1 v2 = c_smod v1 v2"

text \<open>
  \<open>k*k\<close> with \<open>k = 1e300\<close> overflows to positive infinity and \<open>-k*k\<close> to negative infinity, in
  both widths.
\<close>

definition soft_fdiv :: "(jfp \<Rightarrow> jfp \<Rightarrow> jfp) \<Rightarrow> jfp \<Rightarrow> jfp \<Rightarrow> jfp" where
  "soft_fdiv hw_div v1 v2 =
     (if fp_eq v2 (Fin 0) then (if fp_gt v1 (Fin 0) then PInf else NInf) else hw_div v1 v2)"

definition soft_fdivl :: "(jfp \<Rightarrow> jfp \<Rightarrow> jfp) \<Rightarrow> jfp \<Rightarrow> jfp \<Rightarrow> jfp" where
  "soft_fdivl hw_div v1 v2 =
     (if fp_eq v2 (Fin 0) then (if fp_gt v1 (Fin 0) then PInf else NInf) else hw_div v1 v2)"

definition soft_frem :: "jfp \<Rightarrow> jfp \<Rightarrow> jfp" where
  "soft_frem v1 v2 = fmod v1 v2"

definition soft_freml :: "jfp \<Rightarrow> jfp \<Rightarrow> jfp" where
  "soft_freml v1 v2 = fmod v1 v2"

section \<open>Shifts\<close>

definition soft_lshll :: "jlong \<Rightarrow> jint \<Rightarrow> jlong" where
  "soft_lshll v1 v2 = push_bit (unat (v2 AND 63)) v1"

definition soft_ashrl :: "jlong \<Rightarrow> jint \<Rightarrow> jlong" where
  "soft_ashrl v1 v2 = signed_drop_bit (unat (v2 AND 63)) v1"

definition soft_lshrl :: "jlong \<Rightarrow> jint \<Rightarrow> jlong" where
  "soft_lshrl v1 v2 = drop_bit (unat (v2 AND 63)) v1"

section \<open>Conversion\<close>

definition soft_cvtfl :: "jfp \<Rightarrow> jlong result" where
  "soft_cvtfl v = (if fp_gt (Fin 0) v then fp_cast (fp_ceil v) else fp_cast (fp_floor v))"

definition soft_cvtdl :: "jfp \<Rightarrow> jlong result" where
  "soft_cvtdl v = (if fp_gt (Fin 0) v then fp_cast (fp_ceil v) else fp_cast (fp_floor v))"

definition soft_cvtfi :: "jfp \<Rightarrow> jint result" where
  "soft_cvtfi v = (if fp_gt (Fin 0) v then fp_cast (fp_ceil v) else fp_cast (fp_floor v))"

definition soft_cvtdi :: "jfp \<Rightarrow> jint result" where
  "soft_cvtdi v = (if fp_gt (Fin 0) v then fp_cast (fp_ceil v) else fp_cast (fp_floor v))"

section \<open>Binary search for lookupswitch\<close>

definition key_at :: "int list \<Rightarrow> int \<Rightarrow> int result" where
  "key_at key_array i =
     (if 0 \<le> i \<and> i < int (length key_array) then Inr (key_array ! nat i) else Inl C_undefined)"

partial_function (option) bin_search_loop ::
    "int list \<Rightarrow> int \<Rightarrow> int \<Rightarrow> int \<Rightarrow> int result option" where
  "bin_search_loop key_array key low high =
     (if low \<le> high then
        (let mid = wrap32 (low + high) sdiv 2 in
         case key_at key_array mid of
           Inl e \<Rightarrow> Some (Inl e)
         | Inr k \<Rightarrow>
             if k > key then bin_search_loop key_array key low (mid - 1)
             else if k < key then bin_search_loop key_array key (mid + 1) high
             else Some (Inr mid))
      else Some (Inr (- 1)))"

definition RT_bin_search :: "int list \<Rightarrow> int \<Rightarrow> int \<Rightarrow> int result option" where
  "RT_bin_search key_array len key = bin_search_loop key_array key 0 (len - 1)"

section \<open>Comparison is a total order on numbers\<close>

lemma fp_trichotomy:
  assumes "\<not> isnan a" and "\<not> isnan b"
  shows "fp_gt a b \<and> \<not> fp_eq a b \<and> \<not> fp_gt b a \<or> \<not> fp_gt a b \<and> fp_eq a b \<and> \<not> fp_gt b a \<or>
         \<not> fp_gt a b \<and> \<not> fp_eq a b \<and> fp_gt b a"
  using assms by (cases a; cases b) (auto simp: fp_gt_def fp_eq_def)

lemma fp_eq_sym: "fp_eq a b = fp_eq b a"
  by (auto simp: fp_eq_def)

lemmas fcmp_defs = soft_dcmpg_def soft_dcmpl_def soft_fcmpg_def soft_fcmpl_def

text \<open>
  The floating point comparisons: \<open>dcmpg\<close> and \<open>dcmpl\<close> (and the \<open>float\<close> pair, which computes
  the same) are mirror images of each other, answer 1 and -1 when an operand is not a number,
  and otherwise answer 1, 0 or -1 exactly when the first is greater, equal or smaller.
\<close>

theorem soft_cmp_correct:
  "soft_dcmpg a b = - soft_dcmpl b a \<and> soft_fcmpg a b = - soft_fcmpl b a \<and>
   soft_dcmpg a b = soft_fcmpg a b \<and>
   (isnan a \<or> isnan b \<longrightarrow> soft_dcmpg a b = 1 \<and> soft_dcmpl a b = - 1) \<and>
   (\<not> isnan a \<and> \<not> isnan b \<longrightarrow>
      soft_dcmpg a b = soft_dcmpl a b \<and>
      (soft_dcmpg a b = 1 \<longleftrightarrow> fp_gt a b) \<and> (soft_dcmpg a b = 0 \<longleftrightarrow> fp_eq a b) \<and>
      (soft_dcmpg a b = - 1 \<longleftrightarrow> fp_gt b a))"
proof (cases "isnan a \<or> isnan b")
  case True
  then have "\<not> isinf a \<and> isnan a \<or> \<not> isinf b \<and> isnan b" by (auto elim: isnan.elims)
  with True show ?thesis by (auto simp: fcmp_defs)
next
  case False
  then show ?thesis using fp_trichotomy [of a b] by (auto simp: fcmp_defs fp_eq_sym)
qed

theorem soft_cmp_correct_witness:
  "soft_dcmpg NaN (Fin 1) = - soft_dcmpl (Fin 1) NaN \<and> soft_dcmpg NaN (Fin 1) = 1 \<and>
   soft_dcmpg (Fin 2) (Fin 1) = 1"
  using soft_cmp_correct [of NaN "Fin 1"] soft_cmp_correct [of "Fin 2" "Fin 1"]
  by (auto simp: fp_gt_def)

section \<open>Division\<close>

lemma sint_minus_one_iff: "sint (w :: 'a::len word) = - 1 \<longleftrightarrow> w = - 1"
proof
  assume "sint w = - 1"
  then have "word_of_int (sint w) = (- 1 :: 'a word)" by simp
  then show "w = - 1" by simp
qed simp

lemma sdiv_smod_bounds:
  fixes a b :: int
  assumes "b \<noteq> 0"
  shows "\<bar>a smod b\<bar> < \<bar>b\<bar>" "a sdiv b * b + a smod b = a"
    "a smod b \<noteq> 0 \<Longrightarrow> sgn (a smod b) = sgn a" "\<bar>a sdiv b\<bar> \<le> \<bar>a\<bar>"
proof -
  have m: "0 \<le> \<bar>a\<bar> mod \<bar>b\<bar>" "\<bar>a\<bar> mod \<bar>b\<bar> < \<bar>b\<bar>" using assms by simp_all
  then show "\<bar>a smod b\<bar> < \<bar>b\<bar>"
    using assms by (simp add: signed_modulo_int_def abs_mult sgn_if)
  show "a sdiv b * b + a smod b = a" by (rule sdiv_mult_smod_eq)
  show "sgn (a smod b) = sgn a" if "a smod b \<noteq> 0"
    using that m(1) by (auto simp: signed_modulo_int_def sgn_mult sgn_if split: if_splits)
  have "0 \<le> \<bar>a\<bar> div \<bar>b\<bar>" "\<bar>a\<bar> div \<bar>b\<bar> \<le> \<bar>a\<bar>"
    using assms zdiv_mono2 [of "\<bar>a\<bar>" 1 "\<bar>b\<bar>"] by (simp_all add: pos_imp_zdiv_nonneg_iff)
  moreover have "\<bar>sgn a\<bar> \<le> 1" "\<bar>sgn b\<bar> \<le> 1" by (simp_all add: sgn_if)
  ultimately show "\<bar>a sdiv b\<bar> \<le> \<bar>a\<bar>"
    by (simp add: signed_divide_int_def abs_mult abs_sgn_eq)
qed

lemma c_sdiv_smod:
  fixes a b :: "'a::len word"
  assumes "b \<noteq> 0" and "\<not> (sint a = - (2 ^ (LENGTH('a) - 1)) \<and> b = - 1)"
  shows "\<exists>q r. c_sdiv a b = Inr q \<and> c_smod a b = Inr r \<and> sint q * sint b + sint r = sint a \<and>
    \<bar>sint r\<bar> < \<bar>sint b\<bar> \<and> (sint r \<noteq> 0 \<longrightarrow> sgn (sint r) = sgn (sint a))"
proof -
  let ?M = "2 ^ (LENGTH('a) - 1) :: int"
  have b0: "sint b \<noteq> 0" using assms(1) by (simp add: signed_eq_0_iff)
  note facts = sdiv_smod_bounds [OF b0, of "sint a"]
  have ra: "- ?M \<le> sint a" "sint a < ?M" by (rule sint_ge sint_lt)+
  have rb: "- ?M \<le> sint b" "sint b < ?M" by (rule sint_ge sint_lt)+
  have "- ?M \<le> sint a smod sint b" "sint a smod sint b < ?M" using facts(1) rb by linarith+
  then have r: "sint (word_of_int (sint a smod sint b) :: 'a word) = sint a smod sint b"
    by (rule sint_in_range)
  have "sint a sdiv sint b \<noteq> ?M"
  proof
    assume eq: "sint a sdiv sint b = ?M"
    with facts(4) ra have a: "sint a = - ?M" by linarith
    with eq have "sint b = - 1" using int_sdiv_negated_is_minus1 [of "sint a" "sint b"] by simp
    with assms(2) a show False by (simp add: sint_minus_one_iff)
  qed
  then have "- ?M \<le> sint a sdiv sint b" "sint a sdiv sint b < ?M" using facts(4) ra by linarith+
  then have q: "sint (word_of_int (sint a sdiv sint b) :: 'a word) = sint a sdiv sint b"
    by (rule sint_in_range)
  show ?thesis
    using assms facts by (auto simp: c_sdiv_def c_smod_def r q)
qed

text \<open>
  64-bit division and remainder throw \<open>ArithmeticException\<close> on a zero divisor, and on every
  other input but the smallest integer divided by -1 return the quotient rounded toward zero
  and the remainder with the sign of the dividend and a smaller absolute value than the divisor.
\<close>

theorem soft_ldiv_lrem:
  "(v2 = 0 \<longrightarrow> soft_ldiv v1 v2 = Inl ArithmeticException \<and> soft_lrem v1 v2 = Inl ArithmeticException) \<and>
   (v2 \<noteq> 0 \<and> \<not> (sint v1 = - (2 ^ 63) \<and> v2 = - 1) \<longrightarrow>
     (\<exists>q r. soft_ldiv v1 v2 = Inr q \<and> soft_lrem v1 v2 = Inr r \<and>
            sint q * sint v2 + sint r = sint v1 \<and> \<bar>sint r\<bar> < \<bar>sint v2\<bar> \<and>
            (sint r \<noteq> 0 \<longrightarrow> sgn (sint r) = sgn (sint v1))))"
  using c_sdiv_smod [of v2 v1] by (simp add: soft_ldiv_def soft_lrem_def)

theorem soft_ldiv_lrem_witness:
  "soft_ldiv 5 0 = Inl ArithmeticException \<and>
   (\<exists>q r. soft_ldiv (- 7) 2 = Inr q \<and> soft_lrem (- 7) 2 = Inr r \<and>
          sint q * 2 + sint r = - 7 \<and> \<bar>sint r\<bar> < 2)"
  using soft_ldiv_lrem [of 0 5] soft_ldiv_lrem [of 2 "- 7"] by auto

definition sign_jint :: "int \<Rightarrow> jint" where
  "sign_jint d = (if d < 0 then - 1 else if d > 0 then 1 else 0)"

lemma sint_diff_wrap:
  fixes a b :: jlong
  defines "d \<equiv> sint a - sint b"
  shows "sint (a - b) =
    (if d < - (2 ^ 63) then d + 2 ^ 64 else if 2 ^ 63 \<le> d then d - 2 ^ 64 else d)"
proof -
  have range: "- (2 ^ 64) < d" "d < 2 ^ 64"
    using sint_ge [of a] sint_lt [of a] sint_ge [of b] sint_lt [of b] by (simp_all add: d_def)
  have w: "a - b = word_of_int e" if "e mod 2 ^ 64 = d mod 2 ^ 64" for e
  proof -
    have "word_of_int e = (word_of_int d :: jlong)"
      using that by (simp add: word_of_int_eq_iff take_bit_eq_mod)
    also have "\<dots> = a - b" by (simp add: d_def)
    finally show ?thesis ..
  qed
  have rep: "sint (a - b) = e" if "e mod 2 ^ 64 = d mod 2 ^ 64" "- (2 ^ 63) \<le> e" "e < 2 ^ 63" for e
    unfolding w [OF that(1)] using that by (intro sint_in_range) simp_all
  show ?thesis
    using rep [of "d + 2 ^ 64"] rep [of "d - 2 ^ 64"] rep [of d] range by auto
qed

text \<open>
  C6. \<open>soft_lcmp\<close> answers the sign of the difference of its operands when the difference fits 64
  bits, and the opposite sign on every pair whose difference does not.
\<close>

theorem soft_lcmp_sign:
  "soft_lcmp v1 v2 =
     (let d = sint v2 - sint v1
      in if - (2 ^ 63) \<le> d \<and> d < 2 ^ 63 then sign_jint d else sign_jint (- d))"
proof -
  have "- (2 ^ 64) < sint v2 - sint v1" "sint v2 - sint v1 < 2 ^ 64"
    using sint_ge [of v1] sint_lt [of v1] sint_ge [of v2] sint_lt [of v2] by simp_all
  then show ?thesis
    using sint_diff_wrap [of v2 v1] by (auto simp: soft_lcmp_def sign_jint_def Let_def)
qed

lemma shift_count: "unat (n AND 63) = unat (n :: jint) mod 64"
proof -
  have "unat (n AND 63) = unat n AND 63" by (simp add: unsigned_and_eq)
  also have "\<dots> = take_bit 6 (unat n)" by (simp add: take_bit_eq_mask mask_eq_exp_minus_1)
  finally show ?thesis by (simp add: take_bit_eq_mod)
qed

text \<open>
  The 64-bit shifts use the count modulo 64 and multiply by, divide unsigned by and divide
  signed (rounding down) by the power of two.
\<close>

theorem soft_shifts:
  "soft_lshll v n = v * 2 ^ (unat n mod 64) \<and>
   uint (soft_lshrl v n) = uint v div 2 ^ (unat n mod 64) \<and>
   sint (soft_ashrl v n) = sint v div 2 ^ (unat n mod 64)"
proof -
  have "uint (drop_bit k v) = uint v div 2 ^ k" for k
  proof -
    have "take_bit 64 (uint v) = uint v"
      using uint_bounded [of v] by (simp add: take_bit_int_eq_self)
    then have "uint (drop_bit k v) = drop_bit k (uint v)" by (simp add: unsigned_drop_bit_eq)
    then show ?thesis by (simp only: drop_bit_eq_div [of k "uint v"])
  qed
  then show ?thesis
    by (simp add: soft_lshll_def soft_lshrl_def soft_ashrl_def shift_count push_bit_eq_mult
        drop_bit_eq_div [where 'a = int] sint_signed_drop_bit_eq)
qed

lemma fp_cast_trunc:
  "(if fp_gt (Fin 0) (Fin r) then fp_cast (fp_ceil (Fin r)) else fp_cast (fp_floor (Fin r)))
     = (if - (2 ^ (LENGTH('a::len) - 1)) \<le> fp_trunc r \<and> fp_trunc r < 2 ^ (LENGTH('a) - 1)
        then Inr (word_of_int (fp_trunc r) :: 'a word) else Inl C_undefined)"
  by (auto simp: fp_gt_def fp_cast_def fp_trunc_def Let_def)

lemma fp_trunc_bounds:
  "\<bar>of_int (fp_trunc r)\<bar> \<le> \<bar>r\<bar> \<and> \<bar>r\<bar> < \<bar>of_int (fp_trunc r)\<bar> + 1 \<and> (fp_trunc r \<noteq> 0 \<longrightarrow> (fp_trunc r < 0 \<longleftrightarrow> r < 0))"
proof (cases "r < 0")
  case True
  then have "\<lceil>r\<rceil> \<le> 0" by simp
  with True show ?thesis
    by (simp add: fp_trunc_def) linarith
next
  case False
  then have "0 \<le> \<lfloor>r\<rfloor>" by simp
  with False show ?thesis
    by (simp add: fp_trunc_def) linarith
qed

text \<open>
  Conversion of a floating point value to an integer rounds toward zero, in all four width
  combinations, whenever the result fits; \<open>float\<close> and \<open>double\<close> versions agree.
\<close>

theorem soft_cvt_truncates:
  "(- (2 ^ 31) \<le> fp_trunc r \<and> fp_trunc r < 2 ^ 31 \<longrightarrow>
      (\<exists>w. soft_cvtfi (Fin r) = Inr w \<and> soft_cvtdi (Fin r) = Inr w \<and>
           \<bar>of_int (sint w)\<bar> \<le> \<bar>r\<bar> \<and> \<bar>r\<bar> < \<bar>of_int (sint w)\<bar> + 1 \<and>
           (sint w \<noteq> 0 \<longrightarrow> (sint w < 0 \<longleftrightarrow> r < 0)))) \<and>
   (- (2 ^ 63) \<le> fp_trunc r \<and> fp_trunc r < 2 ^ 63 \<longrightarrow>
      (\<exists>w. soft_cvtfl (Fin r) = Inr w \<and> soft_cvtdl (Fin r) = Inr w \<and>
           \<bar>of_int (sint w)\<bar> \<le> \<bar>r\<bar> \<and> \<bar>r\<bar> < \<bar>of_int (sint w)\<bar> + 1 \<and>
           (sint w \<noteq> 0 \<longrightarrow> (sint w < 0 \<longleftrightarrow> r < 0))))"
proof (intro conjI impI)
  assume r: "- (2 ^ 31) \<le> fp_trunc r \<and> fp_trunc r < 2 ^ 31"
  then have "sint (word_of_int (fp_trunc r) :: jint) = fp_trunc r" by (intro sint_in_range) simp_all
  with r fp_trunc_bounds [of r] fp_cast_trunc [of r, where 'a = 32]
  show "\<exists>w. soft_cvtfi (Fin r) = Inr w \<and> soft_cvtdi (Fin r) = Inr w \<and>
           \<bar>of_int (sint w)\<bar> \<le> \<bar>r\<bar> \<and> \<bar>r\<bar> < \<bar>of_int (sint w)\<bar> + 1 \<and>
           (sint w \<noteq> 0 \<longrightarrow> (sint w < 0 \<longleftrightarrow> r < 0))"
    unfolding soft_cvtfi_def soft_cvtdi_def by (intro exI [of _ "word_of_int (fp_trunc r)"]) simp
next
  assume r: "- (2 ^ 63) \<le> fp_trunc r \<and> fp_trunc r < 2 ^ 63"
  then have "sint (word_of_int (fp_trunc r) :: jlong) = fp_trunc r" by (intro sint_in_range) simp_all
  with r fp_trunc_bounds [of r] fp_cast_trunc [of r, where 'a = 64]
  show "\<exists>w. soft_cvtfl (Fin r) = Inr w \<and> soft_cvtdl (Fin r) = Inr w \<and>
           \<bar>of_int (sint w)\<bar> \<le> \<bar>r\<bar> \<and> \<bar>r\<bar> < \<bar>of_int (sint w)\<bar> + 1 \<and>
           (sint w \<noteq> 0 \<longrightarrow> (sint w < 0 \<longleftrightarrow> r < 0))"
    unfolding soft_cvtfl_def soft_cvtdl_def by (intro exI [of _ "word_of_int (fp_trunc r)"]) simp
qed

theorem soft_cvt_truncates_witness:
  "\<exists>w. soft_cvtdi (Fin (- 7 / 2)) = Inr w \<and> \<bar>- 7 / 2 :: rat\<bar> < \<bar>of_int (sint w)\<bar> + 1"
  using soft_cvt_truncates [of "- 7 / 2"] by (auto simp: fp_trunc_def)

text \<open>Division as IEEE 754 and the Java specification define it.\<close>

fun ieee_div :: "(jfp \<Rightarrow> jfp \<Rightarrow> jfp) \<Rightarrow> jfp \<Rightarrow> jfp \<Rightarrow> jfp" where
  "ieee_div hw_div v1 v2 =
     (if fp_eq v2 (Fin 0)
      then if isnan v1 \<or> fp_eq v1 (Fin 0) then NaN
           else if fp_gt v1 (Fin 0) = (v2 = Fin 0) then PInf else NInf
      else hw_div v1 v2)"

text \<open>
  C7. The division helpers differ from IEEE division exactly on a zero divisor with a zero or
  not-a-number dividend, or with the divisor negative zero: the code returns an infinity by the
  sign of the dividend alone.
\<close>

theorem soft_fdiv_zero_divisor:
  "(soft_fdiv hw_div v1 v2 = ieee_div hw_div v1 v2 \<longleftrightarrow>
      \<not> (fp_eq v2 (Fin 0) \<and> (v2 = NZero \<or> isnan v1 \<or> fp_eq v1 (Fin 0)))) \<and>
   soft_fdivl hw_div v1 v2 = soft_fdiv hw_div v1 v2"
proof -
  have "fp_eq v2 (Fin 0) \<longleftrightarrow> v2 = NZero \<or> v2 = Fin 0" by (cases v2) (auto simp: fp_eq_def)
  then show ?thesis by (auto simp: soft_fdiv_def soft_fdivl_def)
qed

text \<open>The loop of the binary search keeps every occurrence of the key between its bounds.\<close>

definition bs_inv :: "int list \<Rightarrow> int \<Rightarrow> int \<Rightarrow> int \<Rightarrow> bool" where
  "bs_inv ks key low high \<longleftrightarrow> 0 \<le> low \<and> high < int (length ks) \<and>
     (\<forall>i<length ks. ks ! i = key \<longrightarrow> low \<le> int i \<and> int i \<le> high)"

definition bs_result :: "int list \<Rightarrow> int \<Rightarrow> int result option \<Rightarrow> bool" where
  "bs_result ks key r \<longleftrightarrow>
     (if key \<in> set ks then \<exists>i<length ks. r = Some (Inr (int i)) \<and> ks ! i = key
      else r = Some (Inr (- 1)))"

lemma mid_bounds:
  assumes "0 \<le> low" and "low \<le> high" and "high < 2 ^ 30"
  shows "wrap32 (low + high) sdiv 2 = (low + high) div 2"
proof -
  have "wrap32 (low + high) = low + high" using assms by simp
  with assms show ?thesis by (simp add: signed_divide_int_def sgn_if)
qed

lemma bin_search_loop_ok:
  assumes "sorted ks" and "length ks \<le> 2 ^ 30" and "bs_inv ks key low high"
  shows "bs_result ks key (bin_search_loop ks key low high)"
  using assms(3)
proof (induction "nat (high - low + 1)" arbitrary: low high rule: less_induct)
  case less
  note inv = less.prems
  let ?mid = "(low + high) div 2"
  show ?case
  proof (cases "low \<le> high")
    case False
    with inv have "key \<notin> set ks" by (auto simp: bs_inv_def in_set_conv_nth)
    with False show ?thesis by (simp add: bs_result_def bin_search_loop.simps)
  next
    case True
    have low: "0 \<le> low" and high: "high < int (length ks)" using inv by (auto simp: bs_inv_def)
    have m: "low \<le> ?mid" "?mid \<le> high" using True by auto
    have idx: "nat ?mid < length ks" "0 \<le> ?mid" using m low high by auto
    have step: "bin_search_loop ks key low high =
       (if ks ! nat ?mid > key then bin_search_loop ks key low (?mid - 1)
        else if ks ! nat ?mid < key then bin_search_loop ks key (?mid + 1) high
        else Some (Inr ?mid))"
    proof -
      have "int (length ks) \<le> int (2 ^ 30)" using assms(2) by (simp only: of_nat_le_iff)
      then have "high < 2 ^ 30" using high by simp
      then have mid: "wrap32 (low + high) sdiv 2 = ?mid" using mid_bounds [OF low True] by simp
      have key: "key_at ks ?mid = Inr (ks ! nat ?mid)"
        using idx by (simp add: key_at_def nat_less_iff)
      show ?thesis
        unfolding bin_search_loop.simps [of ks key low high] Let_def mid key using True by simp
    qed
    have mono: "ks ! i \<le> ks ! j" if "i \<le> j" "j < length ks" for i j
      using assms(1) that by (simp add: sorted_nth_mono)
    consider "ks ! nat ?mid > key" | "ks ! nat ?mid < key" | "ks ! nat ?mid = key" by linarith
    then show ?thesis
    proof cases
      case 1
      have "bs_inv ks key low (?mid - 1)"
        unfolding bs_inv_def
      proof (intro conjI allI impI)
        fix i assume i: "i < length ks" "ks ! i = key"
        with inv show "low \<le> int i" by (simp add: bs_inv_def)
        have "\<not> nat ?mid \<le> i" using mono [of "nat ?mid" i] i 1 by auto
        then show "int i \<le> ?mid - 1" using idx by linarith
      qed (use low high m in auto)
      with less.hyps [of "?mid - 1" low] m True 1 step show ?thesis by simp
    next
      case 2
      have "bs_inv ks key (?mid + 1) high"
        unfolding bs_inv_def
      proof (intro conjI allI impI)
        fix i assume i: "i < length ks" "ks ! i = key"
        with inv show "int i \<le> high" by (simp add: bs_inv_def)
        have "\<not> i \<le> nat ?mid" using mono [of i "nat ?mid"] i 2 idx by auto
        then show "?mid + 1 \<le> int i" using idx by linarith
      qed (use low high m in auto)
      with less.hyps [of high "?mid + 1"] m True 2 step show ?thesis by simp
    next
      case 3
      then have "key \<in> set ks" using idx by auto
      with 3 step idx show ?thesis
        by (auto simp: bs_result_def intro!: exI [of _ "nat ?mid"])
    qed
  qed
qed

text \<open>
  C5. The binary search of \<open>lookupswitch\<close> returns on every sorted key table of at most \<open>2 ^ 30\<close>
  entries (up to there \<open>low + high\<close> does not overflow), reads only inside the table, and
  answers an index of the key if the key is present and -1 otherwise.
\<close>

theorem RT_bin_search_finds:
  assumes "sorted ks" and "length ks \<le> 2 ^ 30"
  shows "if key \<in> set ks
         then \<exists>i<length ks. RT_bin_search ks (int (length ks)) key = Some (Inr (int i)) \<and> ks ! i = key
         else RT_bin_search ks (int (length ks)) key = Some (Inr (- 1))"
  using bin_search_loop_ok [OF assms, of key 0 "int (length ks) - 1"]
  by (auto simp: RT_bin_search_def bs_result_def bs_inv_def)

theorem RT_bin_search_finds_witness:
  "\<exists>i<3. RT_bin_search [-5, 2, 9] 3 9 = Some (Inr (int i)) \<and> [-5, 2, 9] ! i = (9 :: int)"
  using RT_bin_search_finds [of "[-5, 2, 9]" 9] by (simp add: numeral_3_eq_3)
end
