(* ===== verification/Object_Alloc.thy ===== *)
theory Object_Alloc
  imports Type_Test
begin

text \<open>
  Creation of objects and arrays: \<^verbatim>\<open>runtime/object.c\<close>, the allocating helpers of
  \<^verbatim>\<open>runtime/soft.c\<close> and the dispatch of \<open>gc_malloc\<close> in \<^verbatim>\<open>runtime/gc.c\<close>. Block sizes are
  computed in 32-bit arithmetic exactly as the code does. The heap maps addresses to blocks; a
  block remembers how many bytes were asked for, so that it can be compared with what the
  array needs. The block allocators themselves (\<open>gc_malloc_small\<close>, \<open>gc_malloc_large\<close>,
  \<open>gc_malloc_fixed\<close>), \<open>lookupArray\<close> and the fields of the class structure used only here are
  the fields of an environment.
\<close>

section \<open>The heap\<close>

text \<open>
  A block: the class of its dispatch table, the \<open>length\<close> and \<open>encoding\<close> of an array header,
  the words after the array header seen as references, and the number of bytes of the block
  with its \<open>gc_head\<close>.
\<close>

record jobj =
  o_class :: "cid option"
  o_length :: uint32
  o_encoding :: nat
  o_slots :: "oref list"
  o_bytes :: nat

type_synonym oheap = "nat \<rightharpoonup> jobj"

datatype gc_final = GC_OBJECT_NORMAL | GC_OBJECT_FIXED | GC_OBJECT_ROOT | GC_OBJECT_FINAL

record alloc_env =
  env_ct :: class_table
  gc_malloc_small :: "oheap \<Rightarrow> uint32 \<Rightarrow> nat result"
  gc_malloc_large :: "oheap \<Rightarrow> uint32 \<Rightarrow> nat result"
  gc_malloc_fixed :: "oheap \<Rightarrow> uint32 \<Rightarrow> nat result"
  lookupArray :: "cid \<Rightarrow> cid"
  Class_GetEncoding :: "cid \<Rightarrow> nat"
  TYPE_PRIM_SIZE :: "cid \<Rightarrow> uint32"
  CLASS_FSIZE :: "cid \<Rightarrow> uint32"
  class_final :: "cid \<Rightarrow> bool"
  ClassClass :: cid
  sizeof_Class :: uint32

definition GC_HEAD :: uint32 where "GC_HEAD = 4"
definition sizeof_Array :: uint32 where "sizeof_Array = 16"
definition PTR_TYPE_SIZE :: uint32 where "PTR_TYPE_SIZE = 4"
definition GC_MAX_SMALL_OBJECT_SIZE :: int where "GC_MAX_SMALL_OBJECT_SIZE = 1024"

definition ROUNDUPALIGN :: "uint32 \<Rightarrow> uint32" where
  "ROUNDUPALIGN v = (v + 8 - 1) AND (- 8)"

text \<open>What an allocator hands out: a zeroed block.\<close>

definition zero_block :: "uint32 \<Rightarrow> jobj" where
  "zero_block sz = \<lparr>o_class = None, o_length = 0, o_encoding = 0,
     o_slots = replicate ((unat sz - 20) div 4) None, o_bytes = unat sz\<rparr>"

definition take_block :: "(oheap \<Rightarrow> uint32 \<Rightarrow> nat result) \<Rightarrow> uint32 \<Rightarrow> oheap \<Rightarrow> (nat \<times> oheap) result" where
  "take_block malloc sz h =
     (case malloc h sz of Inl e \<Rightarrow> Inl e | Inr a \<Rightarrow> Inr (a, h(a \<mapsto> zero_block sz)))"

section \<open>Operations\<close>

text \<open>
  \<open>gc_malloc\<close>: the size handed to \<open>gc_malloc_large\<close> does not include the header here, but does
  when the functions below call it directly.
\<close>

definition gc_malloc :: "alloc_env \<Rightarrow> uint32 \<Rightarrow> gc_final \<Rightarrow> oheap \<Rightarrow> (nat \<times> oheap) result" where
  "gc_malloc E sz final h =
     (if final = GC_OBJECT_ROOT \<or> final = GC_OBJECT_FIXED
      then take_block (gc_malloc_fixed E) sz h
      else let asize = ROUNDUPALIGN (sz + GC_HEAD) in
           if uint asize < GC_MAX_SMALL_OBJECT_SIZE then take_block (gc_malloc_small E) asize h
           else take_block (gc_malloc_large E) sz h)"

text \<open>The tail that all array and object constructors share: a signed size selects the area.\<close>

definition alloc_sized :: "alloc_env \<Rightarrow> uint32 \<Rightarrow> oheap \<Rightarrow> (nat \<times> oheap) result" where
  "alloc_sized E sz h =
     (if sint sz < GC_MAX_SMALL_OBJECT_SIZE then take_block (gc_malloc_small E) sz h
      else take_block (gc_malloc_large E) sz h)"

definition newObject :: "alloc_env \<Rightarrow> cid \<Rightarrow> oheap \<Rightarrow> (nat \<times> oheap) result" where
  "newObject E c h =
     (case (if c = ClassClass E then gc_malloc E (sizeof_Class E) GC_OBJECT_ROOT h
            else if \<not> class_final E c then alloc_sized E (ROUNDUPALIGN (CLASS_FSIZE E c + GC_HEAD)) h
            else gc_malloc E (CLASS_FSIZE E c) GC_OBJECT_FINAL h) of
        Inl e \<Rightarrow> Inl e
      | Inr (a, h) \<Rightarrow> Inr (a, h(a \<mapsto> (the (h a))\<lparr>o_class := Some c\<rparr>)))"

definition TYPE_SIZE :: "alloc_env \<Rightarrow> cid \<Rightarrow> uint32" where
  "TYPE_SIZE E c = (if primitive (env_ct E c) then TYPE_PRIM_SIZE E c else PTR_TYPE_SIZE)"

definition newPrimArray :: "alloc_env \<Rightarrow> cid \<Rightarrow> jint \<Rightarrow> oheap \<Rightarrow> (nat \<times> oheap) result" where
  "newPrimArray E elclass count h =
     (if sint count < 0 then Inl NegativeArraySizeException
      else
        let sz = count * TYPE_SIZE E elclass + sizeof_Array;
            c = lookupArray E elclass;
            sz = ROUNDUPALIGN (sz + GC_HEAD)
        in if sint sz < 0 then Inl OutOfMemoryError
           else case alloc_sized E sz h of
             Inl e \<Rightarrow> Inl e
           | Inr (a, h) \<Rightarrow>
               Inr (a, h(a \<mapsto> (the (h a))\<lparr>o_class := Some c, o_length := count\<rparr>)))"

definition newRefArray :: "alloc_env \<Rightarrow> cid \<Rightarrow> jint \<Rightarrow> oheap \<Rightarrow> (nat \<times> oheap) result" where
  "newRefArray E elclass count h =
     (if sint count < 0 then Inl NegativeArraySizeException
      else
        let sz = count * PTR_TYPE_SIZE + sizeof_Array;
            c = lookupArray E elclass;
            sz = ROUNDUPALIGN (sz + GC_HEAD)
        in if sint sz < 0 then Inl OutOfMemoryError
           else case alloc_sized E sz h of
             Inl e \<Rightarrow> Inl e
           | Inr (a, h) \<Rightarrow>
               Inr (a, h(a \<mapsto> (the (h a))\<lparr>o_class := Some c, o_encoding := Class_GetEncoding E c,
                                          o_length := count\<rparr>)))"

text \<open>The variants translated code calls, which leave the dispatch table to their caller.\<close>

definition new_prim_array_shift :: "alloc_env \<Rightarrow> jint \<Rightarrow> nat \<Rightarrow> oheap \<Rightarrow> (nat \<times> oheap) result" where
  "new_prim_array_shift E count shift h =
     (if sint count < 0 then Inl NegativeArraySizeException
      else
        let sz = ROUNDUPALIGN (push_bit shift count + sizeof_Array + GC_HEAD)
        in if sint sz < 0 then Inl OutOfMemoryError
           else case alloc_sized E sz h of
             Inl e \<Rightarrow> Inl e
           | Inr (a, h) \<Rightarrow> Inr (a, h(a \<mapsto> (the (h a))\<lparr>o_length := count\<rparr>)))"

definition new_ref_array_raw :: "alloc_env \<Rightarrow> jint \<Rightarrow> oheap \<Rightarrow> (nat \<times> oheap) result" where
  "new_ref_array_raw E count h =
     (if sint count < 0 then Inl NegativeArraySizeException
      else
        let sz = ROUNDUPALIGN (count * PTR_TYPE_SIZE + sizeof_Array + GC_HEAD)
        in if sint sz < 0 then Inl OutOfMemoryError
           else case alloc_sized E sz h of
             Inl e \<Rightarrow> Inl e
           | Inr (a, h) \<Rightarrow> Inr (a, h(a \<mapsto> (the (h a))\<lparr>o_length := count\<rparr>)))"

definition newArray :: "alloc_env \<Rightarrow> cid \<Rightarrow> jint \<Rightarrow> oheap \<Rightarrow> (nat \<times> oheap) result" where
  "newArray E eltype count h =
     (if primitive (env_ct E eltype) then newPrimArray E eltype count h
      else newRefArray E eltype count h)"

text \<open>\<open>array[i] = v\<close>, undefined outside the block.\<close>

definition store_slot :: "nat \<Rightarrow> nat \<Rightarrow> oref \<Rightarrow> oheap \<Rightarrow> oheap result" where
  "store_slot a i v h =
     (case h a of
        None \<Rightarrow> Inl C_undefined
      | Some ob \<Rightarrow>
          if i < length (o_slots ob) then Inr (h(a \<mapsto> ob\<lparr>o_slots := (o_slots ob)[i := v]\<rparr>))
          else Inl C_undefined)"

text \<open>
  \<open>newMultiArray\<close> walks the array of dimensions, which ends with -1, and \<open>newMultiArray_loop\<close>
  is its \<open>for\<close> loop, with the number of iterations left.
\<close>

function (sequential) newMultiArray ::
    "alloc_env \<Rightarrow> cid \<Rightarrow> jint list \<Rightarrow> oheap \<Rightarrow> (nat \<times> oheap) result"
  and newMultiArray_loop ::
    "alloc_env \<Rightarrow> cid \<Rightarrow> jint list \<Rightarrow> nat \<Rightarrow> nat \<Rightarrow> nat \<Rightarrow> oheap \<Rightarrow> oheap result" where
  "newMultiArray E clazz (d0 # d1 # ds) h =
     (case newArray E (component (env_ct E clazz)) d0 h of
        Inl e \<Rightarrow> Inl e
      | Inr (obj, h) \<Rightarrow>
          if sint d1 \<ge> 0 then
            (case newMultiArray_loop E clazz (d1 # ds) obj 0 (nat (sint d0)) h of
               Inl e \<Rightarrow> Inl e
             | Inr h \<Rightarrow> Inr (obj, h))
          else Inr (obj, h))"
| "newMultiArray E clazz dims h = Inl C_undefined"
| "newMultiArray_loop E clazz dims obj i 0 h = Inr h"
| "newMultiArray_loop E clazz dims obj i (Suc k) h =
     (case newMultiArray E (component (env_ct E clazz)) dims h of
        Inl e \<Rightarrow> Inl e
      | Inr (b, h) \<Rightarrow>
          (case store_slot obj i (Some b) h of
             Inl e \<Rightarrow> Inl e
           | Inr h \<Rightarrow> newMultiArray_loop E clazz dims obj (Suc i) k h))"
  by pat_completeness auto
termination
  by (relation "inv_image (less_than <*lex*> less_than)
        (\<lambda>x. case x of Inl (E, c, ds, h) \<Rightarrow> (length ds, 0)
           | Inr (E, c, ds, obj, i, k, h) \<Rightarrow> (length ds, k))") auto

section \<open>The helpers of soft.c\<close>

definition soft_new ::
    "(alloc_env \<Rightarrow> cid \<Rightarrow> alloc_env result) \<Rightarrow> alloc_env \<Rightarrow> cid \<Rightarrow> oheap
     \<Rightarrow> (alloc_env \<times> nat \<times> oheap) result" where
  "soft_new processClass E c h =
     (case processClass E c of
        Inl e \<Rightarrow> Inl e
      | Inr E \<Rightarrow> (case newObject E c h of Inl e \<Rightarrow> Inl e | Inr (a, h) \<Rightarrow> Inr (E, a, h)))"

definition soft_newarray ::
    "alloc_env \<Rightarrow> (nat \<Rightarrow> cid) \<Rightarrow> nat \<Rightarrow> jint \<Rightarrow> oheap \<Rightarrow> (nat \<times> oheap) result" where
  "soft_newarray E TYPE_CLASS type sz h =
     (if sint sz < 0 then Inl NegativeArraySizeException
      else newPrimArray E (TYPE_CLASS type) sz h)"

definition soft_anewarray :: "alloc_env \<Rightarrow> cid \<Rightarrow> jint \<Rightarrow> oheap \<Rightarrow> (nat \<times> oheap) result" where
  "soft_anewarray E elclass sz h =
     (if sint sz < 0 then Inl NegativeArraySizeException else newRefArray E elclass sz h)"

text \<open>The variable arguments are a list; the loop copies them and rejects a negative one.\<close>

fun copy_dims :: "jint list \<Rightarrow> jint list result" where
  "copy_dims [] = Inr [- 1]"
| "copy_dims (arg # ap) =
     (if sint arg < 0 then Inl NegativeArraySizeException
      else case copy_dims ap of Inl e \<Rightarrow> Inl e | Inr ds \<Rightarrow> Inr (arg # ds))"

definition soft_multianewarray :: "alloc_env \<Rightarrow> cid \<Rightarrow> jint list \<Rightarrow> oheap \<Rightarrow> (nat \<times> oheap) result" where
  "soft_multianewarray E c args h =
     (case copy_dims args of Inl e \<Rightarrow> Inl e | Inr arraydims \<Rightarrow> newMultiArray E c arraydims h)"

section \<open>Block sizes\<close>

lemma unat_and_minus_8: "unat (w AND (- 8) :: uint32) = 8 * (unat w div 8)"
proof -
  have "w AND (- 8) = push_bit 3 (drop_bit 3 w)"
  proof (rule bit_word_eqI)
    fix n assume "n < LENGTH(32)"
    have "(- 8 :: uint32) = NOT (mask 3)" by (simp add: mask_eq_exp_minus_1 not_eq_complement)
    moreover have "bit (w AND NOT (mask 3)) n = bit (push_bit 3 (drop_bit 3 w)) n"
      using \<open>n < LENGTH(32)\<close>
      unfolding bit_and_iff bit_not_iff bit_mask_iff bit_push_bit_iff bit_drop_bit_eq by auto
    ultimately show "bit (w AND (- 8)) n = bit (push_bit 3 (drop_bit 3 w)) n" by (simp only:)
  qed
  also have "unat \<dots> = 8 * (unat w div 8)"
  proof -
    have lt: "8 * (unat w div 8) < 2 ^ 32" using unsigned_less [of w, where 'a = nat] by simp
    have "unat (push_bit 3 (drop_bit 3 w)) = take_bit 32 (push_bit 3 (drop_bit 3 (unat w)))"
      by (simp only: unsigned_push_bit_eq unat_drop_bit_eq) simp
    also have "\<dots> = 8 * (unat w div 8)"
      using lt by (simp add: take_bit_nat_eq_self push_bit_eq_mult drop_bit_eq_div)
    finally show ?thesis .
  qed
  finally show ?thesis .
qed

lemma unat_ROUNDUPALIGN: "unat (ROUNDUPALIGN w) = 8 * ((7 + unat w) mod 2 ^ 32 div 8)"
proof -
  have "w + 8 - 1 = 7 + w" by simp
  moreover have "unat (7 + w) = (unat (7 :: uint32) + unat w) mod 2 ^ LENGTH(32)"
    by (rule unat_word_ariths(1))
  ultimately have "unat (w + 8 - 1) = (7 + unat w) mod 2 ^ 32" by simp
  then show ?thesis by (simp add: ROUNDUPALIGN_def unat_and_minus_8)
qed

text \<open>The block size an array constructor computes: exact modulo \<open>2 ^ 32\<close>.\<close>

lemma array_block_size:
  "unat (ROUNDUPALIGN (count * k + sizeof_Array + GC_HEAD))
     = 8 * ((unat count * unat k + 27) mod 2 ^ 32 div 8)"
proof -
  have "count * k + sizeof_Array + GC_HEAD = word_of_nat (unat count * unat k + 20)"
    by (simp add: sizeof_Array_def GC_HEAD_def)
  then have "unat (count * k + sizeof_Array + GC_HEAD) = (unat count * unat k + 20) mod 2 ^ LENGTH(32)"
    by (simp only: unat_of_nat)
  then have len: "unat (count * k + sizeof_Array + GC_HEAD) = (unat count * unat k + 20) mod 2 ^ 32"
    by simp
  have "(7 + unat (count * k + sizeof_Array + GC_HEAD)) mod 2 ^ 32
      = (7 + (unat count * unat k + 20)) mod 2 ^ 32"
    unfolding len by (rule mod_add_right_eq)
  then show ?thesis by (simp add: unat_ROUNDUPALIGN add.commute)
qed

lemma round8_fits:
  fixes n :: nat
  shows "n \<le> 8 * ((n + 7) mod 2 ^ 32 div 8) \<longleftrightarrow> n + 7 < 2 ^ 32"
proof (cases "n + 7 < 2 ^ 32")
  case True
  have "n \<le> 8 * ((n + 7) div 8)" by presburger
  with True show ?thesis by simp
next
  case False
  then have "(n + 7) mod 2 ^ 32 = (n + 7 - 2 ^ 32) mod 2 ^ 32" by (simp add: le_mod_geq)
  also have "\<dots> \<le> n + 7 - 2 ^ 32" by simp
  also have "\<dots> < n" using False by simp
  finally have "(n + 7) mod 2 ^ 32 < n" .
  moreover have "8 * ((n + 7) mod 2 ^ 32 div 8) \<le> (n + 7) mod 2 ^ 32" by simp
  ultimately have "\<not> n \<le> 8 * ((n + 7) mod 2 ^ 32 div 8)" by linarith
  with False show ?thesis by simp
qed

lemma alloc_sized_result:
  assumes "alloc_sized E sz h = Inr (a, h')"
  shows "h' = h(a \<mapsto> zero_block sz)"
    and "gc_malloc_small E h sz = Inr a \<or> gc_malloc_large E h sz = Inr a"
  using assms by (auto simp: alloc_sized_def take_block_def split: if_splits sum.splits)

definition array_bytes :: "jint \<Rightarrow> uint32 \<Rightarrow> nat" where
  "array_bytes count k = 20 + unat count * unat k"

lemma newPrimArray_result:
  assumes "newPrimArray E el count h = Inr (a, h')"
  shows "\<exists>ob. h' = h(a \<mapsto> ob) \<and> o_class ob = Some (lookupArray E el) \<and> o_length ob = count \<and>
    o_slots ob = replicate ((o_bytes ob - 20) div 4) None \<and> 0 \<le> sint count \<and>
    o_bytes ob = 8 * ((array_bytes count (TYPE_SIZE E el) + 7) mod 2 ^ 32 div 8) \<and>
    (\<exists>sz. gc_malloc_small E h sz = Inr a \<or> gc_malloc_large E h sz = Inr a)"
proof -
  let ?sz = "ROUNDUPALIGN (count * TYPE_SIZE E el + sizeof_Array + GC_HEAD)"
  from assms obtain h0 where al: "alloc_sized E ?sz h = Inr (a, h0)" "0 \<le> sint count"
    "h' = h0(a \<mapsto> (the (h0 a))\<lparr>o_class := Some (lookupArray E el), o_length := count\<rparr>)"
    by (auto simp: newPrimArray_def Let_def split: if_splits sum.splits)
  show ?thesis
    using al(2,3) alloc_sized_result [OF al(1)] array_block_size [of count "TYPE_SIZE E el"]
    by (auto simp: zero_block_def array_bytes_def add.commute)
qed

lemma newRefArray_result:
  assumes "newRefArray E el count h = Inr (a, h')"
  shows "\<exists>ob. h' = h(a \<mapsto> ob) \<and> o_class ob = Some (lookupArray E el) \<and> o_length ob = count \<and>
    o_slots ob = replicate ((o_bytes ob - 20) div 4) None \<and> 0 \<le> sint count \<and>
    o_bytes ob = 8 * ((array_bytes count PTR_TYPE_SIZE + 7) mod 2 ^ 32 div 8) \<and>
    (\<exists>sz. gc_malloc_small E h sz = Inr a \<or> gc_malloc_large E h sz = Inr a)"
proof -
  let ?sz = "ROUNDUPALIGN (count * PTR_TYPE_SIZE + sizeof_Array + GC_HEAD)"
  from assms obtain h0 where al: "alloc_sized E ?sz h = Inr (a, h0)" "0 \<le> sint count"
    "h' = h0(a \<mapsto> (the (h0 a))\<lparr>o_class := Some (lookupArray E el),
        o_encoding := Class_GetEncoding E (lookupArray E el), o_length := count\<rparr>)"
    by (auto simp: newRefArray_def Let_def split: if_splits sum.splits)
  show ?thesis
    using al(2,3) alloc_sized_result [OF al(1)] array_block_size [of count PTR_TYPE_SIZE]
    by (auto simp: zero_block_def array_bytes_def add.commute)
qed

section \<open>Arrays of arrays\<close>

text \<open>
  What the constructors rely on: an allocator returns an unused address, or runs out of memory.
\<close>

definition fresh_allocators :: "alloc_env \<Rightarrow> bool" where
  "fresh_allocators E \<longleftrightarrow>
     (\<forall>h sz a. gc_malloc_small E h sz = Inr a \<or> gc_malloc_large E h sz = Inr a \<longrightarrow> h a = None)"

text \<open>
  \<open>array_tree E c ds h A a\<close>: the block at \<open>a\<close> is an array of the class of \<open>c\<close>'s component with
  the first dimension of \<open>ds\<close> as its length; if more dimensions follow, its elements are
  pairwise different arrays built the same way. All blocks of the tree lie in \<open>A\<close>.
\<close>

fun array_tree :: "alloc_env \<Rightarrow> cid \<Rightarrow> jint list \<Rightarrow> oheap \<Rightarrow> nat set \<Rightarrow> nat \<Rightarrow> bool" where
  "array_tree E c [] h A a = True"
| "array_tree E c (d # ds) h A a \<longleftrightarrow>
     a \<in> A \<and>
     (case h a of
        None \<Rightarrow> False
      | Some ob \<Rightarrow>
          o_class ob = Some (lookupArray E (component (env_ct E c))) \<and> o_length ob = d \<and>
          (ds \<noteq> [] \<longrightarrow>
             unat d \<le> length (o_slots ob) \<and> distinct (take (unat d) (o_slots ob)) \<and>
             (\<forall>v\<in>set (take (unat d) (o_slots ob)).
                case v of None \<Rightarrow> False
                | Some b \<Rightarrow> array_tree E (component (env_ct E c)) ds h A b)))"

lemma array_tree_mono:
  assumes "array_tree E c ds h A a" and "A \<subseteq> B" and "\<forall>x\<in>A. h' x = h x"
  shows "array_tree E c ds h' B a"
  using assms(1)
proof (induction ds arbitrary: c a)
  case Nil
  then show ?case by simp
next
  case (Cons d ds)
  then have a: "a \<in> A" by simp
  then have "h' a = h a" and "a \<in> B" using assms by auto
  with Cons show ?case by (fastforce split: option.splits)
qed

lemma array_tree_dom: "array_tree E c ds h A a \<Longrightarrow> array_tree E c ds h (A \<inter> dom h) a"
proof (induction ds arbitrary: c a)
  case Nil
  then show ?case by simp
next
  case (Cons d ds)
  then show ?case by (fastforce split: option.splits)
qed

lemma newArray_result:
  assumes "newArray E el count h = Inr (a, h')" and "fresh_allocators E"
  shows "h a = None" and "0 \<le> sint count"
    and "\<exists>ob. h' = h(a \<mapsto> ob) \<and> o_class ob = Some (lookupArray E el) \<and> o_length ob = count \<and>
           o_slots ob = replicate (length (o_slots ob)) None"
  using assms newPrimArray_result [of E el count h a h'] newRefArray_result [of E el count h a h']
  by (auto simp: newArray_def fresh_allocators_def split: if_splits)

definition grows :: "oheap \<Rightarrow> oheap \<Rightarrow> bool" where
  "grows h h' \<longleftrightarrow> (\<forall>x. h x \<noteq> None \<longrightarrow> h' x = h x)"

lemma multi_node:
  fixes E c d0 ds h
  assumes new: "newArray E (component (env_ct E c)) d0 h = Inr (obj, h1)"
    and fresh: "fresh_allocators E"
    and loop: "ds \<noteq> [] \<Longrightarrow> h1 obj = Some ob \<Longrightarrow>
      \<exists>bs. length bs = nat (sint d0) \<and> distinct bs \<and>
        (0 < nat (sint d0) \<longrightarrow> nat (sint d0) \<le> length (o_slots ob)) \<and>
        h' obj = Some (ob\<lparr>o_slots := map Some bs @ drop (nat (sint d0)) (o_slots ob)\<rparr>) \<and>
        (\<forall>x. x \<noteq> obj \<longrightarrow> h1 x \<noteq> None \<longrightarrow> h' x = h1 x) \<and>
        (\<forall>b\<in>set bs. h1 b = None \<and> array_tree E (component (env_ct E c)) ds h' {x. h1 x = None} b)"
    and last: "ds = [] \<Longrightarrow> h' = h1" and ob: "h1 obj = Some ob"
  shows "h obj = None \<and> grows h h' \<and> array_tree E c (d0 # ds) h' {x. h x = None} obj"
proof -
  note res = newArray_result [OF new fresh]
  from res(3) ob have h1: "h1 = h(obj \<mapsto> ob)" and cls: "o_class ob = Some (lookupArray E (component (env_ct E c)))"
    and len: "o_length ob = d0" by auto
  have d0: "nat (sint d0) = unat d0" using nonneg_sint(2) [OF res(2)] .
  show ?thesis
  proof (cases "ds = []")
    case True
    with last h1 res(1) cls len show ?thesis by (auto simp: grows_def)
  next
    case False
    from loop [OF False ob] obtain bs where bs: "length bs = unat d0" "distinct bs"
      "0 < unat d0 \<longrightarrow> unat d0 \<le> length (o_slots ob)"
      "h' obj = Some (ob\<lparr>o_slots := map Some bs @ drop (unat d0) (o_slots ob)\<rparr>)"
      "\<forall>x. x \<noteq> obj \<longrightarrow> h1 x \<noteq> None \<longrightarrow> h' x = h1 x"
      "\<forall>b\<in>set bs. h1 b = None \<and> array_tree E (component (env_ct E c)) ds h' {x. h1 x = None} b"
      unfolding d0 by (elim exE conjE) (rule that)
    have "\<forall>b\<in>set bs. array_tree E (component (env_ct E c)) ds h' {x. h x = None} b"
    proof
      fix b assume "b \<in> set bs"
      with bs(6) have t: "array_tree E (component (env_ct E c)) ds h' {x. h1 x = None} b" by blast
      show "array_tree E (component (env_ct E c)) ds h' {x. h x = None} b"
        by (rule array_tree_mono [OF t]) (auto simp: h1 split: if_splits)
    qed
    moreover have "grows h h'" unfolding grows_def
    proof (intro allI impI)
      fix x assume x: "h x \<noteq> None"
      then have "x \<noteq> obj" using res(1) by auto
      then have "h1 x = h x" by (simp add: h1)
      with x \<open>x \<noteq> obj\<close> show "h' x = h x" using bs(5) by auto
    qed
    moreover have "unat d0 \<le> length (map Some bs @ drop (unat d0) (o_slots ob))" using bs(1) by simp
    moreover have "take (unat d0) (map Some bs @ drop (unat d0) (o_slots ob)) = map Some bs"
      using bs(1) by simp
    ultimately show ?thesis using res(1) bs(2,4) cls len by (simp add: distinct_map)
  qed
qed

lemma multi_step:
  fixes E c h
  assumes sub: "h b = None" "grows h h1" "array_tree E c ds h1 {x. h x = None} b"
    and store: "store_slot obj i (Some b) h1 = Inr h2" and obj: "h obj = Some ob"
    and rest: "\<And>ob2. h2 obj = Some ob2 \<Longrightarrow> \<exists>bs. length bs = k \<and> distinct bs \<and>
        (0 < k \<longrightarrow> Suc i + k \<le> length (o_slots ob2)) \<and>
        h' obj = Some (ob2\<lparr>o_slots := take (Suc i) (o_slots ob2) @ map Some bs @ drop (Suc i + k) (o_slots ob2)\<rparr>) \<and>
        (\<forall>x. x \<noteq> obj \<longrightarrow> h2 x \<noteq> None \<longrightarrow> h' x = h2 x) \<and>
        (\<forall>b\<in>set bs. h2 b = None \<and> array_tree E c ds h' {x. h2 x = None} b)"
    and ds: "ds \<noteq> []"
  shows "\<exists>bs. length bs = Suc k \<and> distinct bs \<and> (0 < Suc k \<longrightarrow> i + Suc k \<le> length (o_slots ob)) \<and>
        h' obj = Some (ob\<lparr>o_slots := take i (o_slots ob) @ map Some bs @ drop (i + Suc k) (o_slots ob)\<rparr>) \<and>
        (\<forall>x. x \<noteq> obj \<longrightarrow> h x \<noteq> None \<longrightarrow> h' x = h x) \<and>
        (\<forall>b\<in>set bs. h b = None \<and> array_tree E c ds h' {x. h x = None} b)"
proof -
  have h1obj: "h1 obj = Some ob" using sub(2) obj by (simp add: grows_def)
  with store have i: "i < length (o_slots ob)"
    and h2: "h2 = h1(obj \<mapsto> ob\<lparr>o_slots := (o_slots ob)[i := Some b]\<rparr>)"
    by (auto simp: store_slot_def split: if_splits)
  let ?ob2 = "ob\<lparr>o_slots := (o_slots ob)[i := Some b]\<rparr>"
  have "h2 obj = Some ?ob2" by (simp add: h2)
  from rest [OF this] obtain bs where bs: "length bs = k" "distinct bs"
    "0 < k \<longrightarrow> Suc i + k \<le> length (o_slots ?ob2)"
    "h' obj = Some (?ob2\<lparr>o_slots := take (Suc i) (o_slots ?ob2) @ map Some bs @ drop (Suc i + k) (o_slots ?ob2)\<rparr>)"
    "\<forall>x. x \<noteq> obj \<longrightarrow> h2 x \<noteq> None \<longrightarrow> h' x = h2 x"
    "\<forall>b\<in>set bs. h2 b = None \<and> array_tree E c ds h' {x. h2 x = None} b"
    by (elim exE conjE) (rule that)
  have h1b: "h1 b \<noteq> None" using sub(3) ds by (cases ds) (auto split: option.splits)
  have bobj: "b \<noteq> obj" using sub(1) obj by auto
  have fresh2: "h x = None" if "h2 x = None" for x
    using that sub(2) by (auto simp: h2 grows_def split: if_splits)
  have tb: "array_tree E c ds h' {x. h x = None} b"
  proof -
    have "h' x = h1 x" if "h x = None" "h1 x \<noteq> None" for x
    proof -
      have "x \<noteq> obj" using that(1) obj by auto
      then show ?thesis using bs(5) that(2) by (auto simp: h2)
    qed
    then show ?thesis
      by (intro array_tree_mono [OF array_tree_dom [OF sub(3)]]) auto
  qed
  have tbs: "\<forall>x\<in>set bs. h x = None \<and> array_tree E c ds h' {x. h x = None} x"
    using bs(6) fresh2 by (auto intro: array_tree_mono)
  have "b \<notin> set bs" using bs(6) h1b bobj by (auto simp: h2)
  moreover have "take (Suc i) ((o_slots ob)[i := Some b]) = take i (o_slots ob) @ [Some b]"
    using i by (simp add: take_Suc_conv_app_nth)
  moreover have "drop (Suc i + k) ((o_slots ob)[i := Some b]) = drop (Suc i + k) (o_slots ob)"
    by simp
  ultimately show ?thesis
    using bs sub tb tbs i
    by (intro exI [of _ "b # bs"]) (auto simp: h2 grows_def)
qed

lemma newMultiArray_builds:
  "newMultiArray E c dims h = Inr (a, h') \<Longrightarrow> fresh_allocators E \<Longrightarrow> dims = ds @ [- 1] \<Longrightarrow> ds \<noteq> [] \<Longrightarrow>
      \<forall>d\<in>set ds. 0 \<le> sint d \<Longrightarrow>
      h a = None \<and> grows h h' \<and> array_tree E c ds h' {x. h x = None} a"
  "newMultiArray_loop E c dims obj i k h = Inr h' \<Longrightarrow> fresh_allocators E \<Longrightarrow> dims = ds @ [- 1] \<Longrightarrow> ds \<noteq> [] \<Longrightarrow>
      \<forall>d\<in>set ds. 0 \<le> sint d \<Longrightarrow> h obj = Some ob \<Longrightarrow>
      \<exists>bs. length bs = k \<and> distinct bs \<and> (0 < k \<longrightarrow> i + k \<le> length (o_slots ob)) \<and>
        h' obj = Some (ob\<lparr>o_slots := take i (o_slots ob) @ map Some bs @ drop (i + k) (o_slots ob)\<rparr>) \<and>
        (\<forall>x. x \<noteq> obj \<longrightarrow> h x \<noteq> None \<longrightarrow> h' x = h x) \<and>
        (\<forall>b\<in>set bs. h b = None \<and> array_tree E (component (env_ct E c)) ds h' {x. h x = None} b)"
proof (induction E c dims h and E c dims obj i k h arbitrary: a h' ds and h' ds ob
       rule: newMultiArray_newMultiArray_loop.induct)
  case (1 E c d0 d1 ds1 h)
  obtain ds' where ds: "ds = d0 # ds'" "d1 # ds1 = ds' @ [- 1]"
    using 1(2,4,5) by (cases ds) auto
  from 1(2) obtain h1 where new: "newArray E (component (env_ct E c)) d0 h = Inr (a, h1)"
    by (auto split: sum.splits if_splits)
  from newArray_result(3) [OF new 1(3)] obtain ob where ob: "h1 a = Some ob" by auto
  have d1: "0 \<le> sint d1 \<longleftrightarrow> ds' \<noteq> []" using ds(2) 1(6) ds(1) by (cases ds') auto
  show ?case
    unfolding ds(1)
  proof (rule multi_node [OF new 1(3) _ _ ob])
    assume ne: "ds' \<noteq> []"
    then have pos: "sint d1 \<ge> 0" using d1 by simp
    have "newMultiArray_loop E c (d1 # ds1) a 0 (nat (sint d0)) h1 = Inr h'"
      using 1(2) new pos by (auto split: sum.splits)
    from 1(1) [OF new refl pos this 1(3) ds(2) ne _ ob] 1(6) ds(1)
    show "\<exists>bs. length bs = nat (sint d0) \<and> distinct bs \<and>
        (0 < nat (sint d0) \<longrightarrow> nat (sint d0) \<le> length (o_slots ob)) \<and>
        h' a = Some (ob\<lparr>o_slots := map Some bs @ drop (nat (sint d0)) (o_slots ob)\<rparr>) \<and>
        (\<forall>x. x \<noteq> a \<longrightarrow> h1 x \<noteq> None \<longrightarrow> h' x = h1 x) \<and>
        (\<forall>b\<in>set bs. h1 b = None \<and> array_tree E (component (env_ct E c)) ds' h' {x. h1 x = None} b)"
      by simp
  next
    assume "ds' = []"
    with 1(2) new d1 show "h' = h1" by simp
  qed
next
  case (3 E c dims obj i h)
  then show ?case by (intro exI [of _ "[]"]) simp
next
  case (4 E c dims obj i k h)
  from 4(3) obtain b h1 h2 where sub: "newMultiArray E (component (env_ct E c)) dims h = Inr (b, h1)"
    and store: "store_slot obj i (Some b) h1 = Inr h2"
    and rest: "newMultiArray_loop E c dims obj (Suc i) k h2 = Inr h'"
    by (auto split: sum.splits)
  from 4(1) [OF sub 4(4-7)]
  have t: "h b = None" "grows h h1" "array_tree E (component (env_ct E c)) ds h1 {x. h x = None} b"
    by blast+
  show ?case
    by (rule multi_step [OF t store 4(8) _ 4(6)]) (rule 4(2) [OF sub refl store rest 4(4-7)])
qed simp_all

definition oom_only :: "alloc_env \<Rightarrow> bool" where
  "oom_only E \<longleftrightarrow>
     (\<forall>h sz e. gc_malloc_small E h sz = Inl e \<or> gc_malloc_large E h sz = Inl e \<longrightarrow> e = OutOfMemoryError)"

lemma newArray_error:
  assumes "newArray E el count h = Inl e" and "oom_only E" and "0 \<le> sint count"
  shows "e = OutOfMemoryError"
  using assms
  by (auto simp: newArray_def newPrimArray_def newRefArray_def Let_def alloc_sized_def
      take_block_def oom_only_def split: if_splits sum.splits)

definition dim_fits :: "jint \<Rightarrow> bool" where
  "dim_fits d \<longleftrightarrow> 0 \<le> sint d \<and> array_bytes d PTR_TYPE_SIZE + 7 < 2 ^ 32"

lemma newArray_slots:
  assumes "newArray E el d h = Inr (a, h')" and "\<not> primitive (env_ct E el)" and "dim_fits d"
  shows "\<exists>ob. h' a = Some ob \<and> unat d \<le> length (o_slots ob)"
proof -
  from assms have "newRefArray E el d h = Inr (a, h')" by (simp add: newArray_def)
  from newRefArray_result [OF this] obtain ob where ob: "h' = h(a \<mapsto> ob)"
    "o_slots ob = replicate ((o_bytes ob - 20) div 4) None"
    "o_bytes ob = 8 * ((array_bytes d PTR_TYPE_SIZE + 7) mod 2 ^ 32 div 8)" by blast
  have "array_bytes d PTR_TYPE_SIZE \<le> o_bytes ob"
    using assms(3) ob(3) round8_fits [of "array_bytes d PTR_TYPE_SIZE"] by (simp add: dim_fits_def)
  then have "unat d * 4 \<le> o_bytes ob - 20" by (simp add: array_bytes_def PTR_TYPE_SIZE_def)
  then have "unat d \<le> (o_bytes ob - 20) div 4" by simp
  with ob show ?thesis by simp
qed

text \<open>The class of an \<open>n\<close>-dimensional array has \<open>n\<close> component types, the first \<open>n - 1\<close> references.\<close>

fun array_depth :: "class_table \<Rightarrow> cid \<Rightarrow> 'x list \<Rightarrow> bool" where
  "array_depth ct c [] = True"
| "array_depth ct c (d # ds) \<longleftrightarrow>
     (ds \<noteq> [] \<longrightarrow> \<not> primitive (ct (component (ct c)))) \<and> array_depth ct (component (ct c)) ds"

lemma newMultiArray_error:
  "newMultiArray E c dims h = Inl e \<Longrightarrow> fresh_allocators E \<Longrightarrow> oom_only E \<Longrightarrow> dims = ds @ [- 1] \<Longrightarrow> ds \<noteq> [] \<Longrightarrow>
     \<forall>d\<in>set ds. dim_fits d \<Longrightarrow> array_depth (env_ct E) c ds \<Longrightarrow> e = OutOfMemoryError"
  "newMultiArray_loop E c dims obj i k h = Inl e \<Longrightarrow> fresh_allocators E \<Longrightarrow> oom_only E \<Longrightarrow> dims = ds @ [- 1] \<Longrightarrow>
     ds \<noteq> [] \<Longrightarrow> \<forall>d\<in>set ds. dim_fits d \<Longrightarrow> array_depth (env_ct E) (component (env_ct E c)) ds \<Longrightarrow>
     h obj = Some ob \<Longrightarrow> i + k \<le> length (o_slots ob) \<Longrightarrow> e = OutOfMemoryError"
proof (induction E c dims h and E c dims obj i k h arbitrary: ds and ds ob
       rule: newMultiArray_newMultiArray_loop.induct)
  case (1 E c d0 d1 ds1 h)
  obtain ds' where ds: "ds = d0 # ds'" "d1 # ds1 = ds' @ [- 1]"
    using 1(5,6) by (cases ds) auto
  have d0: "0 \<le> sint d0" "dim_fits d0" using 1(7) ds(1) by (simp_all add: dim_fits_def)
  show ?case
  proof (cases "newArray E (component (env_ct E c)) d0 h")
    case (Inl e')
    with 1(2) newArray_error [OF Inl 1(4) d0(1)] show ?thesis by simp
  next
    case (Inr r)
    obtain a h1 where new: "newArray E (component (env_ct E c)) d0 h = Inr (a, h1)"
      using Inr by (cases r) auto
    with 1(2) have pos: "0 \<le> sint d1"
      and loop: "newMultiArray_loop E c (d1 # ds1) a 0 (nat (sint d0)) h1 = Inl e"
      by (auto split: if_splits sum.splits)
    have ne: "ds' \<noteq> []" using pos ds(2) by auto
    have "\<not> primitive (env_ct E (component (env_ct E c)))" using 1(8) ds(1) ne by simp
    from newArray_slots [OF new this d0(2)] obtain ob where ob: "h1 a = Some ob"
      "unat d0 \<le> length (o_slots ob)" by blast
    then have len: "0 + nat (sint d0) \<le> length (o_slots ob)" using nonneg_sint(2) [OF d0(1)] by simp
    show ?thesis
      by (rule 1(1) [OF new refl pos loop 1(3,4) ds(2) ne _ _ ob(1) len]) (use 1(7,8) ds(1) in auto)
  qed
next
  case (4 E c dims obj i k h)
  show ?case
  proof (cases "newMultiArray E (component (env_ct E c)) dims h")
    case (Inl e')
    with 4(3) have "newMultiArray E (component (env_ct E c)) dims h = Inl e" by simp
    from 4(1) [OF this 4(4-9)] show ?thesis .
  next
    case (Inr r)
    obtain b h1 where sub: "newMultiArray E (component (env_ct E c)) dims h = Inr (b, h1)"
      using Inr by (cases r) auto
    have "\<forall>d\<in>set ds. 0 \<le> sint d" using 4(8) by (simp add: dim_fits_def)
    then have "grows h h1" using newMultiArray_builds(1) [OF sub 4(4,6,7)] by blast
    then have ob1: "h1 obj = Some ob" using 4(10) by (simp add: grows_def)
    have i: "i < length (o_slots ob)" using 4(11) by simp
    define h2 where "h2 = h1(obj \<mapsto> ob\<lparr>o_slots := (o_slots ob)[i := Some b]\<rparr>)"
    have store: "store_slot obj i (Some b) h1 = Inr h2"
      using ob1 i by (simp add: store_slot_def h2_def)
    then have loop: "newMultiArray_loop E c dims obj (Suc i) k h2 = Inl e" using 4(3) sub by simp
    have "h2 obj = Some (ob\<lparr>o_slots := (o_slots ob)[i := Some b]\<rparr>)" by (simp add: h2_def)
    from 4(2) [OF sub refl store loop 4(4-9) this] 4(11) show ?thesis by simp
  qed
qed simp_all

lemma copy_dims_eq:
  "copy_dims args = (if \<forall>d\<in>set args. 0 \<le> sint d then Inr (args @ [- 1]) else Inl NegativeArraySizeException)"
  by (induction args) auto

section \<open>Properties\<close>


text \<open>A heap of 64 addresses, and a class \<open>int[][]\<close> (2) with component \<open>int[]\<close> (1).\<close>

definition demo_malloc :: "oheap \<Rightarrow> uint32 \<Rightarrow> nat result" where
  "demo_malloc h sz =
     (case find (\<lambda>a. h a = None) [0..<64] of None \<Rightarrow> Inl OutOfMemoryError | Some a \<Rightarrow> Inr a)"

definition demo_env :: alloc_env where
  "demo_env = \<lparr>env_ct = (\<lambda>c. if c = 0 then (mk_class ''int'' None [])\<lparr>primitive := True\<rparr>
       else mk_array (c - 1) 0 c),
     gc_malloc_small = demo_malloc, gc_malloc_large = demo_malloc, gc_malloc_fixed = demo_malloc,
     lookupArray = Suc, Class_GetEncoding = (\<lambda>_. 0), TYPE_PRIM_SIZE = (\<lambda>_. 4),
     CLASS_FSIZE = (\<lambda>_. 8), class_final = (\<lambda>_. False), ClassClass = 99, sizeof_Class = 200\<rparr>"




end
