(* ===== verification/Signatures.thy ===== *)
theory Signatures
  imports LaTTe_Prelude
begin

text \<open>
  Field and method signatures: the scanner of \<^verbatim>\<open>runtime/classMethod.c\<close> that counts argument
  and result words, the return-type switch, and the resolver \<open>classFromSig\<close> of
  \<^verbatim>\<open>runtime/itypes.c\<close>. A \<open>char*\<close> into a NUL-terminated string is the list of the characters
  before the NUL; a pointer that has moved past the NUL is \<open>None\<close>, and reading there is
  undefined. The specification is the grammar of descriptors as a datatype with a printer.
\<close>

section \<open>Scanning\<close>

type_synonym cptr = "string option"

text \<open>\<open>str + 1\<close>.\<close>

definition advance :: "string \<Rightarrow> cptr" where
  "advance str = (case str of [] \<Rightarrow> None | _ # t \<Rightarrow> Some t)"

text \<open>\<open>while (*str != ';') str++;\<close> runs past the end of a string without semicolon.\<close>

fun skip_reference :: "string \<Rightarrow> string result" where
  "skip_reference [] = Inl C_undefined"
| "skip_reference (c # str) = (if c = CHR '';'' then Inr (c # str) else skip_reference str)"

text \<open>The code from the label \<open>arrayofarray\<close>, after its \<open>str++\<close>.\<close>

fun skip_array :: "string \<Rightarrow> string result" where
  "skip_array [] = Inr []"
| "skip_array (c # str) =
     (if c = CHR ''L'' then skip_reference (c # str)
      else if c = CHR ''['' then skip_array str
      else Inr (c # str))"

fun sizeofSigItem :: "bool \<Rightarrow> string \<Rightarrow> (int \<times> cptr) result" where
  "sizeofSigItem want_wide_refs [] = Inr (- 1, None)"
| "sizeofSigItem want_wide_refs (c # str) =
     (if c = CHR ''('' then sizeofSigItem want_wide_refs str
      else if c = CHR '')'' then Inr (- 1, Some str)
      else if c = CHR ''V'' then Inr (0, Some str)
      else if c \<in> {CHR ''I'', CHR ''Z'', CHR ''S'', CHR ''B'', CHR ''C'', CHR ''F''}
      then Inr (1, Some str)
      else if c = CHR ''D'' \<or> c = CHR ''J'' then Inr (2, Some str)
      else if c = CHR ''['' then
        (let count = (if want_wide_refs then 4 div 4 else 1)
         in case skip_array str of Inl e \<Rightarrow> Inl e | Inr str \<Rightarrow> Inr (count, advance str))
      else if c = CHR ''L'' then
        (let count = (if want_wide_refs then 4 div 4 else 1)
         in case skip_reference (c # str) of Inl e \<Rightarrow> Inl e | Inr str \<Rightarrow> Inr (count, advance str))
      else Inl VM_abort)"

lemma skip_reference_length: "skip_reference str = Inr str' \<Longrightarrow> length str' \<le> length str"
  by (induction str) (auto split: if_splits)

lemma skip_array_length: "skip_array str = Inr str' \<Longrightarrow> length str' \<le> length str"
  by (induction str) (auto split: if_splits dest: skip_reference_length)

lemma sizeofSigItem_length:
  "sizeofSigItem w str = Inr (n, Some str') \<Longrightarrow> length str' < length str"
  by (induction str)
     (auto simp: advance_def Let_def split: if_splits sum.splits list.splits
       dest!: skip_reference_length skip_array_length)

function sizeofSig_loop :: "bool \<Rightarrow> int \<Rightarrow> cptr \<Rightarrow> (int \<times> cptr) result" where
  "sizeofSig_loop want_wide_refs count None = Inl C_undefined"
| "sizeofSig_loop want_wide_refs count (Some str) =
     (case sizeofSigItem want_wide_refs str of
        Inl e \<Rightarrow> Inl e
      | Inr (c, strp) \<Rightarrow>
          if c = - 1 then Inr (count, strp)
          else sizeofSig_loop want_wide_refs (count + c) strp)"
  by pat_completeness auto
termination
proof (relation "measure (\<lambda>(w, n, p). case p of None \<Rightarrow> 0 | Some s \<Rightarrow> Suc (length s))")
  fix w :: bool and count str and p :: "int \<times> cptr" and c strp
  assume "sizeofSigItem w str = Inr p" and "(c, strp) = p" and "c \<noteq> - 1"
  then show "((w, count + c, strp), w, count, Some str)
      \<in> measure (\<lambda>(w, n, p). case p of None \<Rightarrow> 0 | Some s \<Rightarrow> Suc (length s))"
    using sizeofSigItem_length by (auto split: option.splits)
qed simp

definition sizeofSig :: "bool \<Rightarrow> cptr \<Rightarrow> (int \<times> cptr) result" where
  "sizeofSig want_wide_refs strp = sizeofSig_loop want_wide_refs 0 strp"

text \<open>A \<open>short\<close>.\<close>

definition to_short :: "int \<Rightarrow> int" where
  "to_short n = sint (word_of_int n :: 16 word)"

text \<open>\<open>str[0]\<close> of the return type; the NUL of an empty rest is character 0.\<close>

definition countInsAndOuts :: "string \<Rightarrow> (int \<times> int \<times> char) result" where
  "countInsAndOuts str =
     (case sizeofSig False (Some str) of
        Inl e \<Rightarrow> Inl e
      | Inr (ins, None) \<Rightarrow> Inl C_undefined
      | Inr (ins, Some str) \<Rightarrow>
          (let outtype = (case str of [] \<Rightarrow> CHR 0x00 | c # _ \<Rightarrow> c)
           in case sizeofSig False (Some str) of
                Inl e \<Rightarrow> Inl e
              | Inr (outs, _) \<Rightarrow> Inr (to_short ins, to_short outs, outtype)))"

datatype ReturnType =
    RT_NO_RETURN | RT_INTEGER | RT_LONG | RT_FLOAT | RT_DOUBLE | RT_REFERENCE

definition Method_GetRetType :: "char \<Rightarrow> ReturnType result" where
  "Method_GetRetType rettype =
     (if rettype = CHR ''V'' then Inr RT_NO_RETURN
      else if rettype \<in> {CHR ''I'', CHR ''Z'', CHR ''S'', CHR ''B'', CHR ''C''} then Inr RT_INTEGER
      else if rettype = CHR ''J'' then Inr RT_LONG
      else if rettype = CHR ''F'' then Inr RT_FLOAT
      else if rettype = CHR ''D'' then Inr RT_DOUBLE
      else if rettype = CHR ''L'' \<or> rettype = CHR ''['' then Inr RT_REFERENCE
      else Inl VM_exit)"

section \<open>Resolving\<close>

text \<open>
  \<open>classFromSig\<close> over a state \<open>'w\<close> that loading a class and creating an array class may
  change. The primitive classes are given by their signature character.
\<close>

text \<open>\<open>for (end = start; *end != 0 && *end != ';'; end++)\<close>\<close>

fun name_end :: "string \<Rightarrow> string \<times> string" where
  "name_end [] = ([], [])"
| "name_end (c # str) =
     (if c = CHR '';'' then ([], c # str) else (let (nm, rest) = name_end str in (c # nm, rest)))"

fun classFromSig ::
    "(char \<Rightarrow> 'k) \<Rightarrow> ('w \<Rightarrow> 'k \<Rightarrow> ('k \<times> 'w) result) \<Rightarrow> ('w \<Rightarrow> string \<Rightarrow> ('k \<times> 'w) result)
     \<Rightarrow> 'w \<Rightarrow> string \<Rightarrow> ('k option \<times> cptr \<times> 'w) result" where
  "classFromSig primClass lookupArray loadClass w [] = Inr (None, None, w)"
| "classFromSig primClass lookupArray loadClass w (c # str) =
     (if c \<in> {CHR ''V'', CHR ''I'', CHR ''Z'', CHR ''S'', CHR ''B'', CHR ''C'', CHR ''F'',
              CHR ''D'', CHR ''J''}
      then Inr (Some (primClass c), Some str, w)
      else if c = CHR ''['' then
        (case classFromSig primClass lookupArray loadClass w str of
           Inl e \<Rightarrow> Inl e
         | Inr (None, strp, w) \<Rightarrow> Inl C_undefined
         | Inr (Some k, strp, w) \<Rightarrow>
             (case lookupArray w k of Inl e \<Rightarrow> Inl e | Inr (a, w) \<Rightarrow> Inr (Some a, strp, w)))
      else if c = CHR ''L'' then
        (let (nm, rest) = name_end str
         in case loadClass w nm of
              Inl e \<Rightarrow> Inl e
            | Inr (k, w) \<Rightarrow> Inr (Some k, Some (case rest of [] \<Rightarrow> [] | _ # t \<Rightarrow> t), w))
      else Inr (None, Some str, w))"

section \<open>Descriptors\<close>

datatype jtype = Prim char | Ref string | Arr jtype

fun wf_jtype :: "jtype \<Rightarrow> bool" where
  "wf_jtype (Prim c) \<longleftrightarrow>
     c \<in> {CHR ''I'', CHR ''Z'', CHR ''S'', CHR ''B'', CHR ''C'', CHR ''F'', CHR ''D'', CHR ''J''}"
| "wf_jtype (Ref nm) \<longleftrightarrow> CHR '';'' \<notin> set nm"
| "wf_jtype (Arr t) \<longleftrightarrow> wf_jtype t"

fun print_type :: "jtype \<Rightarrow> string" where
  "print_type (Prim c) = [c]"
| "print_type (Ref nm) = CHR ''L'' # nm @ '';''"
| "print_type (Arr t) = CHR ''['' # print_type t"

fun type_words :: "jtype \<Rightarrow> int" where
  "type_words (Prim c) = (if c = CHR ''D'' \<or> c = CHR ''J'' then 2 else 1)"
| "type_words (Ref nm) = 1"
| "type_words (Arr t) = 1"

text \<open>A method descriptor; no result type is \<open>V\<close>.\<close>

definition print_result :: "jtype option \<Rightarrow> string" where
  "print_result ret = (case ret of None \<Rightarrow> ''V'' | Some t \<Rightarrow> print_type t)"

definition print_descriptor :: "jtype list \<Rightarrow> jtype option \<Rightarrow> string" where
  "print_descriptor args ret = ''('' @ concat (map print_type args) @ '')'' @ print_result ret"

definition result_words :: "jtype option \<Rightarrow> int" where
  "result_words ret = (case ret of None \<Rightarrow> 0 | Some t \<Rightarrow> type_words t)"

section \<open>The scanner reads what the printer writes\<close>

lemma skip_reference_name: "CHR '';'' \<notin> set nm \<Longrightarrow> skip_reference (nm @ CHR '';'' # s) = Inr (CHR '';'' # s)"
  by (induction nm) auto

lemma skip_array_type:
  "wf_jtype t \<Longrightarrow> \<exists>c. skip_array (print_type t @ s) = Inr (c # s)"
  by (induction t) (auto simp: skip_reference_name)

lemma sizeofSigItem_type:
  assumes "wf_jtype t"
  shows "sizeofSigItem w (print_type t @ s) = Inr (type_words t, Some s)"
proof (cases t)
  case (Prim c)
  with assms show ?thesis by auto
next
  case (Ref nm)
  with assms show ?thesis using skip_reference_name [of nm s] by (simp add: advance_def)
next
  case (Arr t')
  with assms obtain c where "skip_array (print_type t' @ s) = Inr (c # s)"
    using skip_array_type [of t' s] by auto
  with Arr show ?thesis by (simp add: advance_def)
qed

lemma sizeofSig_types:
  "\<forall>t\<in>set ts. wf_jtype t \<Longrightarrow>
     sizeofSig_loop w n (Some (concat (map print_type ts) @ s))
       = sizeofSig_loop w (n + sum_list (map type_words ts)) (Some s)"
proof (induction ts arbitrary: n)
  case Nil
  then show ?case by simp
next
  case (Cons t ts)
  have "type_words t \<noteq> - 1" by (cases t) auto
  then have "sizeofSig_loop w n (Some (print_type t @ concat (map print_type ts) @ s))
      = sizeofSig_loop w (n + type_words t) (Some (concat (map print_type ts) @ s))"
    using Cons.prems sizeofSigItem_type [of t w] by (simp del: sizeofSigItem.simps)
  then show ?case using Cons by (simp add: add.assoc del: sizeofSig_loop.simps)
qed

lemma skip_open_paren: "sizeofSigItem w (CHR ''('' # s) = sizeofSigItem w s"
  by simp

lemma sizeofSig_result:
  assumes "\<forall>t. ret = Some t \<longrightarrow> wf_jtype t"
  shows "sizeofSig w (Some (print_result ret)) = Inr (result_words ret, None)"
proof (cases ret)
  case None
  then show ?thesis by (simp add: sizeofSig_def print_result_def result_words_def)
next
  case (Some t)
  have "sizeofSig_loop w 0 (Some (concat (map print_type [t]) @ []))
      = sizeofSig_loop w (0 + sum_list (map type_words [t])) (Some [])"
    using assms Some by (intro sizeofSig_types) simp
  with Some show ?thesis by (simp add: sizeofSig_def print_result_def result_words_def)
qed

lemma to_short_id: "0 \<le> n \<Longrightarrow> n < 2 ^ 15 \<Longrightarrow> to_short n = n"
  unfolding to_short_def by (rule sint_in_range) simp_all

text \<open>What resolving a type means: load the named class, and build the arrays around it.\<close>

fun resolve_type ::
    "(char \<Rightarrow> 'k) \<Rightarrow> ('w \<Rightarrow> 'k \<Rightarrow> ('k \<times> 'w) result) \<Rightarrow> ('w \<Rightarrow> string \<Rightarrow> ('k \<times> 'w) result)
     \<Rightarrow> 'w \<Rightarrow> jtype \<Rightarrow> ('k \<times> 'w) result" where
  "resolve_type primClass lookupArray loadClass w (Prim c) = Inr (primClass c, w)"
| "resolve_type primClass lookupArray loadClass w (Ref nm) = loadClass w nm"
| "resolve_type primClass lookupArray loadClass w (Arr t) =
     (case resolve_type primClass lookupArray loadClass w t of
        Inl e \<Rightarrow> Inl e
      | Inr (k, w) \<Rightarrow> lookupArray w k)"

lemma name_end_reference:
  "CHR '';'' \<notin> set nm \<Longrightarrow> name_end (nm @ CHR '';'' # s) = (nm, CHR '';'' # s)"
  by (induction nm) auto

section \<open>Properties\<close>

text \<open>
  C10. Counting words: for every well-formed method descriptor (whose argument words fit a
  \<open>short\<close>) \<open>countInsAndOuts\<close> returns the number of argument words, the number of result words
  and the first character of the result type, and that character selects the kind of result
  in \<open>Method_GetRetType\<close>.
\<close>

theorem countInsAndOuts_descriptor:
  assumes "\<forall>t\<in>set args. wf_jtype t" and "\<forall>t. ret = Some t \<longrightarrow> wf_jtype t"
    and "sum_list (map type_words args) < 2 ^ 15"
  shows "countInsAndOuts (print_descriptor args ret)
           = Inr (sum_list (map type_words args), result_words ret, hd (print_result ret)) \<and>
         Method_GetRetType (hd (print_result ret))
           = Inr (case ret of None \<Rightarrow> RT_NO_RETURN
                  | Some (Prim c) \<Rightarrow> (if c = CHR ''J'' then RT_LONG else if c = CHR ''F'' then RT_FLOAT
                                    else if c = CHR ''D'' then RT_DOUBLE else RT_INTEGER)
                  | Some (Ref nm) \<Rightarrow> RT_REFERENCE
                  | Some (Arr t) \<Rightarrow> RT_REFERENCE)"
proof
  let ?n = "sum_list (map type_words args)"
  have pos: "0 \<le> type_words t" "type_words t \<le> 2" for t by (cases t; simp)+
  from pos(1) have n: "0 \<le> ?n" by (intro sum_list_nonneg) auto
  have r: "0 \<le> result_words ret" "result_words ret < 2 ^ 15"
    using pos(1) pos(2) [THEN order.strict_trans1] by (auto simp: result_words_def split: option.splits)
  have "sizeofSig False (Some (print_descriptor args ret))
      = sizeofSig_loop False 0 (Some (concat (map print_type args) @ '')'' @ print_result ret))"
    by (simp add: sizeofSig_def print_descriptor_def)
  also have "\<dots> = sizeofSig_loop False ?n (Some ('')'' @ print_result ret))"
    using sizeofSig_types [OF assms(1), of False 0 "'')'' @ print_result ret"] by simp
  also have "\<dots> = Inr (?n, Some (print_result ret))" by simp
  finally have ins: "sizeofSig False (Some (print_descriptor args ret)) = Inr (?n, Some (print_result ret))" .
  have "print_result ret \<noteq> []"
    by (auto simp: print_result_def split: option.splits jtype.splits elim: print_type.elims)
  then have "(case print_result ret of [] \<Rightarrow> CHR 0x00 | c # _ \<Rightarrow> c) = hd (print_result ret)"
    by (cases "print_result ret") auto
  with ins sizeofSig_result [OF assms(2)] n r assms(3)
  show "countInsAndOuts (print_descriptor args ret)
           = Inr (?n, result_words ret, hd (print_result ret))"
    by (simp add: countInsAndOuts_def to_short_id)
  show "Method_GetRetType (hd (print_result ret))
           = Inr (case ret of None \<Rightarrow> RT_NO_RETURN
                  | Some (Prim c) \<Rightarrow> (if c = CHR ''J'' then RT_LONG else if c = CHR ''F'' then RT_FLOAT
                                    else if c = CHR ''D'' then RT_DOUBLE else RT_INTEGER)
                  | Some (Ref nm) \<Rightarrow> RT_REFERENCE
                  | Some (Arr t) \<Rightarrow> RT_REFERENCE)"
    using assms(2) by (auto simp: Method_GetRetType_def print_result_def split: option.splits jtype.splits)
qed

theorem countInsAndOuts_descriptor_witness:
  "countInsAndOuts ''(I[[Ljava/lang/String;D)J'' = Inr (4, 2, CHR ''J'')"
  using countInsAndOuts_descriptor
    [of "[Prim CHR ''I'', Arr (Arr (Ref ''java/lang/String'')), Prim CHR ''D'']" "Some (Prim CHR ''J'')"]
  by (simp add: print_descriptor_def print_result_def result_words_def)

text \<open>
  Resolving a signature: on the printed form of a well-formed type \<open>classFromSig\<close> consumes
  exactly that form, loads the named class and creates the array classes around it, and
  raises what loading raises.
\<close>

theorem classFromSig_resolves:
  assumes "wf_jtype t"
  shows "classFromSig primClass lookupArray loadClass w (print_type t @ s) =
    (case resolve_type primClass lookupArray loadClass w t of
       Inl e \<Rightarrow> Inl e
     | Inr (k, w') \<Rightarrow> Inr (Some k, Some s, w'))"
  using assms
proof (induction t)
  case (Prim c)
  then show ?case by auto
next
  case (Ref nm)
  then show ?case by (simp add: name_end_reference split: sum.splits)
next
  case (Arr t)
  then show ?case by (simp split: sum.splits)
qed

theorem classFromSig_resolves_witness:
  "classFromSig (\<lambda>c. [c]) (\<lambda>w k. Inr (CHR ''['' # k, w)) (\<lambda>w nm. Inr (nm, nm # w)) [] ''[[LA;I''
     = Inr (Some ''[[A'', Some ''I'', [''A''])"
  using classFromSig_resolves [of "Arr (Arr (Ref ''A''))" "\<lambda>c. [c]" "\<lambda>w k. Inr (CHR ''['' # k, w)"
      "\<lambda>w nm. Inr (nm, nm # w)" "[]" "''I''"]
  by simp

end
