(* ===== verification/Constant_Pool.thy ===== *)
theory Constant_Pool
  imports LaTTe_Prelude
begin

text \<open>
  Reading the constant pool of a class file (\<^verbatim>\<open>runtime/constants.c\<close>) and the second verification
  pass over it (\<^verbatim>\<open>runtime/verify.c\<close>). The file is a list of bytes; the readers of
  \<^verbatim>\<open>runtime/file.h\<close> test no bound, so reading past the end is undefined, and so is an access to
  \<open>tags\<close> or \<open>data\<close> outside the arrays. A slot is a machine word, a pointer to an interned
  \<open>Utf8Const\<close>, given by its characters, or a pointer to a resolved class or string object.
\<close>

section \<open>Readers\<close>

type_synonym bytes = "uint8 list"

fun readu1 :: "bytes \<Rightarrow> (uint32 \<times> bytes) result" where
  "readu1 (a # bs) = Inr (ucast a, bs)"
| "readu1 _ = Inl C_undefined"

fun readu2 :: "bytes \<Rightarrow> (uint32 \<times> bytes) result" where
  "readu2 (a # b # bs) = Inr (push_bit 8 (ucast a) OR ucast b, bs)"
| "readu2 _ = Inl C_undefined"

fun readu4 :: "bytes \<Rightarrow> (uint32 \<times> bytes) result" where
  "readu4 (a # b # c # d # bs) =
     Inr (push_bit 24 (ucast a) OR push_bit 16 (ucast b) OR push_bit 8 (ucast c) OR ucast d, bs)"
| "readu4 _ = Inl C_undefined"

section \<open>The pool\<close>

datatype cslot = SWord uint32 | SUtf8 string | SPtr nat

record cpool =
  pool_size :: nat
  tags :: "nat list"
  pdata :: "cslot list"

definition CONSTANT_Utf8 :: nat where "CONSTANT_Utf8 = 1"
definition CONSTANT_Integer :: nat where "CONSTANT_Integer = 3"
definition CONSTANT_Float :: nat where "CONSTANT_Float = 4"
definition CONSTANT_Long :: nat where "CONSTANT_Long = 5"
definition CONSTANT_Double :: nat where "CONSTANT_Double = 6"
definition CONSTANT_Class :: nat where "CONSTANT_Class = 7"
definition CONSTANT_String :: nat where "CONSTANT_String = 8"
definition CONSTANT_Fieldref :: nat where "CONSTANT_Fieldref = 9"
definition CONSTANT_Methodref :: nat where "CONSTANT_Methodref = 10"
definition CONSTANT_InterfaceMethodref :: nat where "CONSTANT_InterfaceMethodref = 11"
definition CONSTANT_NameAndType :: nat where "CONSTANT_NameAndType = 12"
definition CONSTANT_Unknown :: nat where "CONSTANT_Unknown = 0"
definition CONSTANT_ResolvedString :: nat where "CONSTANT_ResolvedString = 24"
definition CONSTANT_ResolvedClass :: nat where "CONSTANT_ResolvedClass = 23"

lemmas const_tags = CONSTANT_Utf8_def CONSTANT_Integer_def CONSTANT_Float_def CONSTANT_Long_def
  CONSTANT_Double_def CONSTANT_Class_def CONSTANT_String_def CONSTANT_Fieldref_def
  CONSTANT_Methodref_def CONSTANT_InterfaceMethodref_def CONSTANT_NameAndType_def
  CONSTANT_Unknown_def CONSTANT_ResolvedString_def CONSTANT_ResolvedClass_def

definition set_slot :: "nat \<Rightarrow> cslot \<Rightarrow> cpool \<Rightarrow> cpool result" where
  "set_slot i v p =
     (if i < length (pdata p) then Inr (p\<lparr>pdata := (pdata p)[i := v]\<rparr>) else Inl C_undefined)"

definition set_tag :: "nat \<Rightarrow> nat \<Rightarrow> cpool \<Rightarrow> cpool result" where
  "set_tag i t p =
     (if i < length (tags p) then Inr (p\<lparr>tags := (tags p)[i := t]\<rparr>) else Inl C_undefined)"

text \<open>\<open>tags[i]\<close>\<close>

definition pool_tag :: "nat \<Rightarrow> cpool \<Rightarrow> nat result" where
  "pool_tag i p = (if i < length (tags p) then Inr (tags p ! i) else Inl C_undefined)"

text \<open>The macro of \<^verbatim>\<open>runtime/constants.h\<close>, which does test the index.\<close>

definition CONST_TAG :: "nat \<Rightarrow> cpool \<Rightarrow> nat result" where
  "CONST_TAG i p = (if 0 < i \<and> i < pool_size p then pool_tag i p else Inr CONSTANT_Unknown)"

text \<open>The two halves of a reference slot; a pointer in the slot is never taken apart.\<close>

definition METHODREF_CLASS :: "nat \<Rightarrow> cpool \<Rightarrow> nat result" where
  "METHODREF_CLASS i p =
     (if i < length (pdata p) then
        (case pdata p ! i of SWord w \<Rightarrow> Inr (unat (w AND 0xFFFF)) | _ \<Rightarrow> Inl C_undefined)
      else Inl C_undefined)"

definition METHODREF_NAMEANDTYPE :: "nat \<Rightarrow> cpool \<Rightarrow> nat result" where
  "METHODREF_NAMEANDTYPE i p =
     (if i < length (pdata p) then
        (case pdata p ! i of SWord w \<Rightarrow> Inr (unat (drop_bit 16 w)) | _ \<Rightarrow> Inl C_undefined)
      else Inl C_undefined)"

definition utf8_string :: "bytes \<Rightarrow> string" where
  "utf8_string bs = map (\<lambda>b. char_of (unat b)) bs"

section \<open>Reading\<close>

text \<open>
  One iteration of the first loop: the new index, pool and input. A long or double constant
  takes two slots.
\<close>

definition read_entry :: "nat \<Rightarrow> cpool \<Rightarrow> bytes \<Rightarrow> (nat \<times> cpool \<times> bytes) result" where
  "read_entry i p fp =
     bind_result (readu1 fp) (\<lambda>(type, fp).
     bind_result (set_tag i (unat type) p) (\<lambda>p.
     let t = unat type in
     if t = CONSTANT_Utf8 then
       bind_result (readu2 fp) (\<lambda>(len, fp).
       if unat len \<le> length fp then
         bind_result (set_slot i (SUtf8 (utf8_string (take (unat len) fp))) p) (\<lambda>p.
         Inr (i, p, drop (unat len) fp))
       else Inl C_undefined)
     else if t = CONSTANT_Class \<or> t = CONSTANT_String then
       bind_result (readu2 fp) (\<lambda>(d2, fp).
       bind_result (set_slot i (SWord d2) p) (\<lambda>p. Inr (i, p, fp)))
     else if t = CONSTANT_Fieldref \<or> t = CONSTANT_Methodref \<or> t = CONSTANT_InterfaceMethodref
          \<or> t = CONSTANT_NameAndType then
       bind_result (readu2 fp) (\<lambda>(d2, fp).
       bind_result (readu2 fp) (\<lambda>(d2b, fp).
       bind_result (set_slot i (SWord (push_bit 16 d2b OR d2)) p) (\<lambda>p. Inr (i, p, fp))))
     else if t = CONSTANT_Integer \<or> t = CONSTANT_Float then
       bind_result (readu4 fp) (\<lambda>(d4, fp).
       bind_result (set_slot i (SWord d4) p) (\<lambda>p. Inr (i, p, fp)))
     else if t = CONSTANT_Long \<or> t = CONSTANT_Double then
       bind_result (readu4 fp) (\<lambda>(d4, fp).
       bind_result (readu4 fp) (\<lambda>(d4b, fp).
       bind_result (set_slot i (SWord d4) p) (\<lambda>p.
       bind_result (set_slot (i + 1) (SWord d4b) p) (\<lambda>p.
       bind_result (set_tag (i + 1) CONSTANT_Unknown p) (\<lambda>p. Inr (i + 1, p, fp))))))
     else Inl ClassFormatError))"

lemma read_entry_index: "read_entry i p fp = Inr (j, q, fp') \<Longrightarrow> i \<le> j"
  by (auto simp: read_entry_def bind_result_def Let_def split: sum.splits if_splits)

function read_entries :: "nat \<Rightarrow> nat \<Rightarrow> cpool \<Rightarrow> bytes \<Rightarrow> (cpool \<times> bytes) result" where
  "read_entries sz i p fp =
     (if i < sz then
        bind_result (read_entry i p fp) (\<lambda>(j, p, fp). read_entries sz (j + 1) p fp)
      else Inr (p, fp))"
  by pat_completeness auto
termination
  by (relation "measure (\<lambda>(sz, i, _). sz - i)") (auto dest: read_entry_index)

text \<open>The second loop: class and string constants are made to point at their characters.\<close>

definition rewrite_entry :: "nat \<Rightarrow> cpool \<Rightarrow> cpool result" where
  "rewrite_entry i p =
     bind_result (pool_tag i p) (\<lambda>t.
     if t = CONSTANT_Class \<or> t = CONSTANT_String then
       bind_result (METHODREF_CLASS i p) (\<lambda>j.
       bind_result (pool_tag j p) (\<lambda>tj.
       if tj = CONSTANT_Utf8 then set_slot i (pdata p ! j) p
       else set_tag i CONSTANT_Unknown p))
     else Inr p)"

fun rewrite_entries :: "nat list \<Rightarrow> cpool \<Rightarrow> cpool result" where
  "rewrite_entries [] p = Inr p"
| "rewrite_entries (i # ks) p = bind_result (rewrite_entry i p) (rewrite_entries ks)"

definition readConstantPool :: "bytes \<Rightarrow> (cpool \<times> bytes) result" where
  "readConstantPool fp =
     bind_result (readu2 fp) (\<lambda>(sz, fp).
     let n = unat sz;
         p = \<lparr>pool_size = n, tags = replicate n 0, pdata = replicate n (SWord 0)\<rparr>
     in bind_result (set_slot 0 (SWord 0) p) (\<lambda>p.
        bind_result (set_tag 0 CONSTANT_Unknown p) (\<lambda>p.
        bind_result (read_entries n 1 p fp) (\<lambda>(p, fp).
        bind_result (rewrite_entries [1..<n] p) (\<lambda>p. Inr (p, fp))))))"

section \<open>Verification pass 2\<close>

text \<open>The entry at \<open>i\<close>: whether it is in error, and the index of the next entry.\<close>

definition verify_entry :: "nat \<Rightarrow> cpool \<Rightarrow> (bool \<times> nat) result" where
  "verify_entry i p =
     bind_result (pool_tag i p) (\<lambda>t.
     if t \<in> {CONSTANT_Utf8, CONSTANT_Integer, CONSTANT_Float, CONSTANT_ResolvedString,
             CONSTANT_ResolvedClass} then Inr (False, i + 1)
     else if t = CONSTANT_Long \<or> t = CONSTANT_Double then Inr (False, i + 2)
     else if t = CONSTANT_Class \<or> t = CONSTANT_String then Inr (False, i + 1)
     else if t \<in> {CONSTANT_Fieldref, CONSTANT_Methodref, CONSTANT_InterfaceMethodref} then
       bind_result (METHODREF_CLASS i p) (\<lambda>c.
       bind_result (CONST_TAG c p) (\<lambda>tc.
       bind_result (METHODREF_NAMEANDTYPE i p) (\<lambda>n.
       bind_result (CONST_TAG n p) (\<lambda>tn.
       Inr ((tc \<noteq> CONSTANT_Class \<and> tc \<noteq> CONSTANT_ResolvedClass) \<or> tn \<noteq> CONSTANT_NameAndType, i + 1)))))
     else if t = CONSTANT_NameAndType then
       bind_result (METHODREF_CLASS i p) (\<lambda>nm.
       bind_result (CONST_TAG nm p) (\<lambda>tn.
       bind_result (METHODREF_NAMEANDTYPE i p) (\<lambda>sg.
       bind_result (CONST_TAG sg p) (\<lambda>ts.
       Inr (tn \<noteq> CONSTANT_Utf8 \<or> ts \<noteq> CONSTANT_Utf8, i + 1)))))
     else Inr (True, i + 1))"

lemma verify_entry_index: "verify_entry i p = Inr (b, j) \<Longrightarrow> i < j"
  by (auto simp: verify_entry_def bind_result_def split: sum.splits if_splits)

function verify_entries :: "nat \<Rightarrow> cpool \<Rightarrow> bool \<Rightarrow> bool result" where
  "verify_entries i p err =
     (if i < pool_size p then
        bind_result (verify_entry i p) (\<lambda>(b, j). verify_entries j p (err \<or> b))
      else Inr err)"
  by pat_completeness auto
termination
  by (relation "measure (\<lambda>(i, p, _). pool_size p - i)") (auto dest: verify_entry_index)

definition verify2 :: "string \<Rightarrow> bool \<Rightarrow> string \<Rightarrow> cpool \<Rightarrow> unit result" where
  "verify2 OBJECTCLASS has_superclass nm p =
     (let err = (\<not> has_superclass \<and> nm \<noteq> OBJECTCLASS)
      in bind_result (verify_entries 1 p err) (\<lambda>err.
         if err then Inl ClassFormatError else Inr ()))"

section \<open>Encoding\<close>

datatype centry =
    EUtf8 bytes
  | EName nat uint16
  | ERef nat uint16 uint16
  | EInt nat uint32
  | ELong nat uint32 uint32

fun wf_entry :: "centry \<Rightarrow> bool" where
  "wf_entry (EUtf8 bs) \<longleftrightarrow> length bs < 2 ^ 16"
| "wf_entry (EName t n) \<longleftrightarrow> t = CONSTANT_Class \<or> t = CONSTANT_String"
| "wf_entry (ERef t a b) \<longleftrightarrow> t = CONSTANT_Fieldref \<or> t = CONSTANT_Methodref
     \<or> t = CONSTANT_InterfaceMethodref \<or> t = CONSTANT_NameAndType"
| "wf_entry (EInt t w) \<longleftrightarrow> t = CONSTANT_Integer \<or> t = CONSTANT_Float"
| "wf_entry (ELong t a b) \<longleftrightarrow> t = CONSTANT_Long \<or> t = CONSTANT_Double"

definition enc_u2 :: "uint16 \<Rightarrow> bytes" where
  "enc_u2 w = [ucast (drop_bit 8 w), ucast w]"

definition enc_u4 :: "uint32 \<Rightarrow> bytes" where
  "enc_u4 w = [ucast (drop_bit 24 w), ucast (drop_bit 16 w), ucast (drop_bit 8 w), ucast w]"

fun encode_entry :: "centry \<Rightarrow> bytes" where
  "encode_entry (EUtf8 bs) = of_nat CONSTANT_Utf8 # enc_u2 (of_nat (length bs)) @ bs"
| "encode_entry (EName t n) = of_nat t # enc_u2 n"
| "encode_entry (ERef t a b) = of_nat t # enc_u2 a @ enc_u2 b"
| "encode_entry (EInt t w) = of_nat t # enc_u4 w"
| "encode_entry (ELong t a b) = of_nat t # enc_u4 a @ enc_u4 b"

text \<open>The slots an entry fills.\<close>

fun cells :: "centry \<Rightarrow> (nat \<times> cslot) list" where
  "cells (EUtf8 bs) = [(CONSTANT_Utf8, SUtf8 (utf8_string bs))]"
| "cells (EName t n) = [(t, SWord (ucast n))]"
| "cells (ERef t a b) = [(t, SWord (push_bit 16 (ucast b) OR ucast a))]"
| "cells (EInt t w) = [(t, SWord w)]"
| "cells (ELong t a b) = [(t, SWord a), (CONSTANT_Unknown, SWord b)]"

definition all_cells :: "centry list \<Rightarrow> (nat \<times> cslot) list" where
  "all_cells es = (CONSTANT_Unknown, SWord 0) # concat (map cells es)"

definition encode_pool :: "centry list \<Rightarrow> bytes" where
  "encode_pool es = enc_u2 (of_nat (length (all_cells es))) @ concat (map encode_entry es)"

lemma readu2_enc: "readu2 (enc_u2 w @ bs) = Inr (ucast w, bs)"
proof -
  have "push_bit 8 (ucast (ucast (drop_bit 8 w) :: uint8)) OR ucast (ucast w :: uint8) = (ucast w :: uint32)"
    by (rule bit_word_eqI) (auto simp: bit_simps dest: bit_imp_le_length)
  then show ?thesis by (simp add: enc_u2_def)
qed

lemma readu4_enc: "readu4 (enc_u4 w @ bs) = Inr (w, bs)"
proof -
  have "push_bit 24 (ucast (ucast (drop_bit 24 w) :: uint8)) OR push_bit 16 (ucast (ucast (drop_bit 16 w) :: uint8))
      OR push_bit 8 (ucast (ucast (drop_bit 8 w) :: uint8)) OR ucast (ucast w :: uint8) = (w :: uint32)" (is "?l = w")
  proof (rule bit_word_eqI)
    fix n assume "n < LENGTH(32)"
    then consider "n < 8" | "8 \<le> n" "n < 16" | "16 \<le> n" "n < 24" | "24 \<le> n" "n < 32" by fastforce
    then show "bit ?l n = bit w n"
      by cases (auto simp: bit_simps)
  qed
  then show ?thesis by (simp add: enc_u4_def)
qed

text \<open>One entry fills its cells.\<close>

definition pool_cells :: "nat \<Rightarrow> (nat \<times> cslot) list \<Rightarrow> cpool \<Rightarrow> bool" where
  "pool_cells n cs p \<longleftrightarrow> pool_size p = n \<and> length cs \<le> n \<and>
     tags p = map fst cs @ replicate (n - length cs) 0 \<and>
     pdata p = map snd cs @ replicate (n - length cs) (SWord 0)"

lemma set_tag_slot_next:
  assumes "pool_cells n cs p" and "length cs < n"
  shows "\<exists>p1 p2. set_tag (length cs) t p = Inr p1 \<and> set_slot (length cs) v p1 = Inr p2 \<and>
           pool_cells n (cs @ [(t, v)]) p2"
proof -
  obtain m where m: "n - length cs = Suc m" "n - Suc (length cs) = m" using assms(2) by (cases "n - length cs") auto
  show ?thesis
    using assms m by (auto simp: pool_cells_def set_tag_def set_slot_def list_update_append)
qed

lemma set_slot_tag_next:
  assumes "pool_cells n cs p" and "length cs < n"
  shows "\<exists>p1 p2. set_slot (length cs) v p = Inr p1 \<and> set_tag (length cs) t p1 = Inr p2 \<and>
           pool_cells n (cs @ [(t, v)]) p2"
proof -
  obtain m where m: "n - length cs = Suc m" "n - Suc (length cs) = m" using assms(2) by (cases "n - length cs") auto
  show ?thesis
    using assms m by (auto simp: pool_cells_def set_tag_def set_slot_def list_update_append)
qed

lemma read_entry_cells:
  assumes wf: "wf_entry e" and p: "pool_cells n cs p" and len: "length cs + length (cells e) \<le> n"
  shows "\<exists>q. read_entry (length cs) p (encode_entry e @ rest) = Inr (length cs + length (cells e) - 1, q, rest) \<and>
             pool_cells n (cs @ cells e) q"
proof -
  have l: "length cs < n" using len by (cases e) auto
  have nxt: "\<exists>p1 p2. set_tag (length cs) t p = Inr p1 \<and> set_slot (length cs) v p1 = Inr p2 \<and>
           pool_cells n (cs @ [(t, v)]) p2" for t v
    using set_tag_slot_next [OF p l] .
  show ?thesis
  proof (cases e)
    case (EUtf8 bs)
    with wf have bs: "unat (ucast (of_nat (length bs) :: uint16) :: uint32) = length bs"
      by (simp add: unsigned_ucast_eq take_bit_eq_mod unat_of_nat)
    from nxt [of CONSTANT_Utf8 "SUtf8 (utf8_string bs)"] obtain p1 p2 where
      "set_tag (length cs) CONSTANT_Utf8 p = Inr p1" "set_slot (length cs) (SUtf8 (utf8_string bs)) p1 = Inr p2"
      "pool_cells n (cs @ [(CONSTANT_Utf8, SUtf8 (utf8_string bs))]) p2" by blast
    with EUtf8 bs show ?thesis
      by (simp add: read_entry_def readu2_enc const_tags)
  next
    case (EName t m)
    from nxt [of t "SWord (ucast m)"] obtain p1 p2 where
      "set_tag (length cs) t p = Inr p1" "set_slot (length cs) (SWord (ucast m)) p1 = Inr p2"
      "pool_cells n (cs @ [(t, SWord (ucast m))]) p2" by blast
    with EName wf show ?thesis by (auto simp: read_entry_def readu2_enc const_tags)
  next
    case (ERef t a b)
    let ?v = "SWord (push_bit 16 (ucast b) OR ucast a)"
    from nxt [of t ?v] obtain p1 p2 where
      "set_tag (length cs) t p = Inr p1" "set_slot (length cs) ?v p1 = Inr p2"
      "pool_cells n (cs @ [(t, ?v)]) p2" by blast
    with ERef wf show ?thesis by (auto simp: read_entry_def readu2_enc const_tags)
  next
    case (EInt t w)
    from nxt [of t "SWord w"] obtain p1 p2 where
      "set_tag (length cs) t p = Inr p1" "set_slot (length cs) (SWord w) p1 = Inr p2"
      "pool_cells n (cs @ [(t, SWord w)]) p2" by blast
    with EInt wf show ?thesis by (auto simp: read_entry_def readu4_enc const_tags)
  next
    case (ELong t a b)
    from nxt [of t "SWord a"] obtain p1 p2 where 1:
      "set_tag (length cs) t p = Inr p1" "set_slot (length cs) (SWord a) p1 = Inr p2"
      "pool_cells n (cs @ [(t, SWord a)]) p2" by blast
    have "length (cs @ [(t, SWord a)]) < n" using len ELong by simp
    from set_slot_tag_next [OF 1(3) this, of "SWord b" CONSTANT_Unknown] obtain p3 p4 where
      "set_slot (Suc (length cs)) (SWord b) p2 = Inr p3" "set_tag (Suc (length cs)) CONSTANT_Unknown p3 = Inr p4"
      "pool_cells n (cs @ [(t, SWord a), (CONSTANT_Unknown, SWord b)]) p4" by auto
    with 1 ELong wf show ?thesis by (auto simp: read_entry_def readu4_enc const_tags)
  qed
qed

declare read_entries.simps [simp del] verify_entries.simps [simp del]

lemma cells_nonempty: "0 < length (cells e)"
  by (cases e) auto

lemma read_entries_prefix:
  assumes "\<forall>e\<in>set es. wf_entry e" and "pool_cells n cs p"
    and "length cs + length (concat (map cells es)) \<le> n"
  shows "\<exists>q. read_entries n (length cs) p (concat (map encode_entry es) @ rest)
               = read_entries n (length (cs @ concat (map cells es))) q rest \<and>
             pool_cells n (cs @ concat (map cells es)) q"
  using assms
proof (induction es arbitrary: cs p)
  case Nil
  then show ?case by (intro exI [of _ p]) simp
next
  case (Cons e es)
  have "length cs + length (cells e) \<le> n" using Cons.prems(3) by simp
  with read_entry_cells [of e n cs p "concat (map encode_entry es) @ rest"] Cons.prems
  obtain q where q: "read_entry (length cs) p (encode_entry e @ concat (map encode_entry es) @ rest)
      = Inr (length cs + length (cells e) - 1, q, concat (map encode_entry es) @ rest)"
    "pool_cells n (cs @ cells e) q" by auto
  have lt: "length cs < n" using Cons.prems(3) cells_nonempty [of e]
    by (simp only: list.map concat.simps length_append)
  have idx: "length cs + length (cells e) - 1 + 1 = length (cs @ cells e)"
    using cells_nonempty [of e] by simp
  from Cons.IH [of "cs @ cells e" q] Cons.prems q(2) obtain q' where
    "read_entries n (length (cs @ cells e)) q (concat (map encode_entry es) @ rest)
       = read_entries n (length ((cs @ cells e) @ concat (map cells es))) q' rest"
    "pool_cells n ((cs @ cells e) @ concat (map cells es)) q'" by auto
  moreover have "read_entries n (length cs) p (concat (map encode_entry (e # es)) @ rest)
      = read_entries n (length (cs @ cells e)) q (concat (map encode_entry es) @ rest)"
    using q(1) lt idx by (simp add: read_entries.simps [of n "length cs"])
  ultimately show ?case by (intro exI [of _ q']) simp
qed

lemma read_entries_cells:
  assumes "\<forall>e\<in>set es. wf_entry e" and "pool_cells n cs p"
    and "length cs + length (concat (map cells es)) = n"
  shows "\<exists>q. read_entries n (length cs) p (concat (map encode_entry es) @ rest) = Inr (q, rest) \<and>
             pool_cells n (cs @ concat (map cells es)) q"
proof -
  obtain q where "read_entries n (length cs) p (concat (map encode_entry es) @ rest)
      = read_entries n (length (cs @ concat (map cells es))) q rest"
    "pool_cells n (cs @ concat (map cells es)) q"
    using read_entries_prefix [OF assms(1,2)] assms(3) by (meson order.refl)
  moreover have "length (cs @ concat (map cells es)) = n" using assms(3) by simp
  ultimately show ?thesis by (intro exI [of _ q]) (simp add: read_entries.simps [of n n])
qed

text \<open>
  The pool a class file describes when every class and string constant names a \<open>Utf8\<close> entry:
  such a constant gets the characters.
\<close>

definition name_cell :: "(nat \<times> cslot) list \<Rightarrow> nat \<times> cslot \<Rightarrow> cslot" where
  "name_cell cs c =
     (if fst c = CONSTANT_Class \<or> fst c = CONSTANT_String then
        (case snd c of SWord w \<Rightarrow> snd (cs ! unat (w AND 0xFFFF)) | v \<Rightarrow> v)
      else snd c)"

definition names_ok :: "(nat \<times> cslot) list \<Rightarrow> bool" where
  "names_ok cs \<longleftrightarrow> (\<forall>c\<in>set cs. fst c = CONSTANT_Class \<or> fst c = CONSTANT_String \<longrightarrow>
     (case snd c of SWord w \<Rightarrow> unat (w AND 0xFFFF) < length cs \<and> fst (cs ! unat (w AND 0xFFFF)) = CONSTANT_Utf8
      | _ \<Rightarrow> False))"

lemma rewrite_entries_names:
  assumes ok: "names_ok cs" and i: "i \<le> length cs" "1 \<le> i"
  shows "rewrite_entries [i..<length cs]
           \<lparr>pool_size = n, tags = map fst cs,
            pdata = map (name_cell cs) (take i cs) @ map snd (drop i cs)\<rparr>
         = Inr \<lparr>pool_size = n, tags = map fst cs, pdata = map (name_cell cs) cs\<rparr>"
  using i
proof (induction "length cs - i" arbitrary: i)
  case 0
  then show ?case by simp
next
  case (Suc k)
  then have lt: "i < length cs" by simp
  let ?p = "\<lparr>pool_size = n, tags = map fst cs, pdata = map (name_cell cs) (take i cs) @ map snd (drop i cs)\<rparr>"
  let ?q = "\<lparr>pool_size = n, tags = map fst cs, pdata = map (name_cell cs) (take (Suc i) cs) @ map snd (drop (Suc i) cs)\<rparr>"
  have pd: "pdata ?p ! j = (if j < i then name_cell cs (cs ! j) else snd (cs ! j))" if "j < length cs" for j
    using that by (auto simp: nth_append)
  have upd: "(pdata ?p)[i := name_cell cs (cs ! i)] = pdata ?q"
  proof -
    have "drop i cs = cs ! i # drop (Suc i) cs" using lt by (rule Cons_nth_drop_Suc [symmetric])
    then show ?thesis using lt by (simp add: take_Suc_conv_app_nth list_update_append)
  qed
  have "rewrite_entry i ?p = Inr ?q"
  proof (cases "fst (cs ! i) = CONSTANT_Class \<or> fst (cs ! i) = CONSTANT_String")
    case False
    then have "name_cell cs (cs ! i) = snd (cs ! i)" by (simp add: name_cell_def)
    then have "(pdata ?p)[i := name_cell cs (cs ! i)] = pdata ?p" using pd [OF lt] by (metis list_update_id order.irrefl)
    with upd have "pdata ?p = pdata ?q" by simp
    then show ?thesis using False lt by (simp add: rewrite_entry_def pool_tag_def)
  next
    case True
    have "cs ! i \<in> set cs" using lt by simp
    with ok True have "case snd (cs ! i) of SWord w \<Rightarrow> unat (w AND 0xFFFF) < length cs \<and>
        fst (cs ! unat (w AND 0xFFFF)) = CONSTANT_Utf8 | _ \<Rightarrow> False"
      unfolding names_ok_def by blast
    then obtain w where w: "snd (cs ! i) = SWord w" "unat (w AND 0xFFFF) < length cs"
      "fst (cs ! unat (w AND 0xFFFF)) = CONSTANT_Utf8"
      by (auto split: cslot.splits)
    let ?j = "unat (w AND 0xFFFF)"
    have "name_cell cs (cs ! i) = snd (cs ! ?j)" using True w by (simp add: name_cell_def)
    moreover have "pdata ?p ! ?j = snd (cs ! ?j)" using pd [OF w(2)] w(3) by (simp add: name_cell_def const_tags)
    ultimately have val: "(pdata ?p)[i := pdata ?p ! ?j] = pdata ?q" using upd by simp
    have "METHODREF_CLASS i ?p = Inr ?j" using pd [OF lt] w(1) lt by (simp add: METHODREF_CLASS_def)
    with True w lt val show ?thesis
      by (simp add: rewrite_entry_def pool_tag_def set_slot_def)
  qed
  then have "rewrite_entries [i..<length cs] ?p = rewrite_entries [Suc i..<length cs] ?q"
    using lt by (simp add: upt_conv_Cons)
  also have "\<dots> = Inr \<lparr>pool_size = n, tags = map fst cs, pdata = map (name_cell cs) cs\<rparr>"
    using Suc.hyps(1) [of "Suc i"] Suc.hyps(2) lt by simp
  finally show ?case .
qed

lemma readConstantPool_encoded:
  assumes "\<forall>e\<in>set es. wf_entry e" and "length (all_cells es) < 2 ^ 16" and "names_ok (all_cells es)"
  shows "readConstantPool (encode_pool es @ rest) =
    Inr (\<lparr>pool_size = length (all_cells es), tags = map fst (all_cells es),
          pdata = map (name_cell (all_cells es)) (all_cells es)\<rparr>, rest)"
proof -
  let ?cs = "all_cells es" and ?n = "length (all_cells es)"
  have sz: "unat (ucast (of_nat ?n :: uint16) :: uint32) = ?n"
    using assms(2) by (simp add: unsigned_ucast_eq take_bit_eq_mod unat_of_nat)
  have len: "?n = Suc (length (concat (map cells es)))" by (simp add: all_cells_def)
  let ?p0 = "\<lparr>pool_size = ?n, tags = replicate ?n 0, pdata = replicate ?n (SWord 0)\<rparr>"
  have p0: "set_slot 0 (SWord 0) ?p0 = Inr ?p0" "set_tag 0 CONSTANT_Unknown ?p0 = Inr ?p0"
    by (simp_all add: len set_slot_def set_tag_def const_tags)
  have "pool_cells ?n [(CONSTANT_Unknown, SWord 0)] ?p0"
    by (simp add: pool_cells_def len const_tags)
  from read_entries_cells [OF assms(1) this] len obtain q where
    q: "read_entries ?n 1 ?p0 (concat (map encode_entry es) @ rest) = Inr (q, rest)"
    "pool_cells ?n ?cs q" by (auto simp: all_cells_def)
  then have qeq: "q = \<lparr>pool_size = ?n, tags = map fst ?cs,
      pdata = map (name_cell ?cs) (take 1 ?cs) @ map snd (drop 1 ?cs)\<rparr>"
    by (cases q) (simp add: pool_cells_def all_cells_def name_cell_def const_tags)
  have "rewrite_entries [1..<?n] q = Inr \<lparr>pool_size = ?n, tags = map fst ?cs, pdata = map (name_cell ?cs) ?cs\<rparr>"
    unfolding qeq by (rule rewrite_entries_names [OF assms(3)]) (simp_all add: len)
  then show ?thesis
    using q(1) p0 sz
    by (simp add: readConstantPool_def encode_pool_def readu2_enc Let_def del: rewrite_entries.simps)
qed

section \<open>Properties\<close>

text \<open>
  C11. Round trip: reading the encoding of any list of well-formed constants, in which class and
  string constants name \<open>Utf8\<close> constants and which has fewer than 65536 slots, returns the rest
  of the input and the pool with every constant in its slots, long and double constants in two,
  and class and string constants rewritten to their characters.
\<close>

theorem readConstantPool_roundtrip:
  assumes "\<forall>e\<in>set es. wf_entry e" and "length (all_cells es) < 2 ^ 16" and "names_ok (all_cells es)"
  shows "readConstantPool (encode_pool es @ rest) =
    Inr (\<lparr>pool_size = length (all_cells es), tags = map fst (all_cells es),
          pdata = map (name_cell (all_cells es)) (all_cells es)\<rparr>, rest)"
  using assms by (rule readConstantPool_encoded)

theorem readConstantPool_roundtrip_witness:
  "readConstantPool (encode_pool [EUtf8 [65], EName CONSTANT_Class 1, ELong CONSTANT_Long 0 7] @ []) =
    Inr (\<lparr>pool_size = 5, tags = [0, 1, 7, 5, 0],
          pdata = [SWord 0, SUtf8 ''A'', SUtf8 ''A'', SWord 0, SWord 7]\<rparr>, [])"
proof -
  let ?es = "[EUtf8 [65], EName CONSTANT_Class 1, ELong CONSTANT_Long 0 7]"
  have c: "all_cells ?es = [(0, SWord 0), (1, SUtf8 ''A''), (7, SWord 1), (5, SWord 0), (0, SWord 7)]"
    by (simp add: all_cells_def const_tags utf8_string_def char_of_def bit_0)
  have "names_ok (all_cells ?es)" unfolding c by (simp add: names_ok_def const_tags)
  moreover have "length (all_cells ?es) < 2 ^ 16" by (simp add: c)
  moreover have "\<forall>e\<in>set ?es. wf_entry e" by (simp add: const_tags)
  ultimately have "readConstantPool (encode_pool ?es @ []) =
    Inr (\<lparr>pool_size = length (all_cells ?es), tags = map fst (all_cells ?es),
          pdata = map (name_cell (all_cells ?es)) (all_cells ?es)\<rparr>, [])"
    by (intro readConstantPool_roundtrip)
  then show ?thesis unfolding c by (simp add: name_cell_def const_tags)
qed

section \<open>What every pool read from a file satisfies\<close>

definition ref_tag :: "nat \<Rightarrow> bool" where
  "ref_tag t \<longleftrightarrow> t = CONSTANT_Fieldref \<or> t = CONSTANT_Methodref \<or> t = CONSTANT_InterfaceMethodref
     \<or> t = CONSTANT_NameAndType"

text \<open>The slot at \<open>i\<close> holds what its tag says; \<open>named\<close> tells whether names are rewritten already.\<close>

definition slot_ok :: "bool \<Rightarrow> cpool \<Rightarrow> nat \<Rightarrow> bool" where
  "slot_ok named p i \<longleftrightarrow>
     (tags p ! i = CONSTANT_Utf8 \<longrightarrow> (\<exists>s. pdata p ! i = SUtf8 s)) \<and>
     (ref_tag (tags p ! i) \<longrightarrow> (\<exists>w. pdata p ! i = SWord w)) \<and>
     (tags p ! i = CONSTANT_Class \<or> tags p ! i = CONSTANT_String \<longrightarrow>
        (if named then \<exists>s. pdata p ! i = SUtf8 s else \<exists>w. pdata p ! i = SWord w)) \<and>
     (tags p ! i = CONSTANT_Long \<or> tags p ! i = CONSTANT_Double \<longrightarrow>
        i + 1 < length (tags p) \<and> tags p ! (i + 1) = CONSTANT_Unknown)"

definition pool_read :: "nat \<Rightarrow> nat \<Rightarrow> cpool \<Rightarrow> bool" where
  "pool_read n i p \<longleftrightarrow> pool_size p = n \<and> length (tags p) = n \<and> length (pdata p) = n \<and>
     (\<forall>k<n. if k < i then slot_ok False p k else tags p ! k = CONSTANT_Unknown) \<and>
     (\<forall>k<i. tags p ! k = CONSTANT_Long \<or> tags p ! k = CONSTANT_Double \<longrightarrow> k + 1 < i)"

lemma read_entry_cases:
  assumes "read_entry i p fp = Inr (j, q, fp')"
  obtains (one) t v where "i < length (tags p)" "i < length (pdata p)" "j = i"
      "q = p\<lparr>tags := (tags p)[i := t], pdata := (pdata p)[i := v]\<rparr>"
      "t \<noteq> CONSTANT_Long" "t \<noteq> CONSTANT_Double" "if t = CONSTANT_Utf8 then \<exists>s. v = SUtf8 s else \<exists>w. v = SWord w"
    | (two) t a b where "i + 1 < length (tags p)" "i + 1 < length (pdata p)" "j = i + 1"
      "q = p\<lparr>tags := (tags p)[i := t, i + 1 := CONSTANT_Unknown],
           pdata := (pdata p)[i := SWord a, i + 1 := SWord b]\<rparr>"
      "t = CONSTANT_Long \<or> t = CONSTANT_Double"
proof -
  from assms obtain ty fp1 where ty: "readu1 fp = Inr (ty, fp1)" "i < length (tags p)"
    by (auto simp: read_entry_def bind_result_Inr set_tag_def split: if_splits)
  let ?t = "unat ty" and ?p = "p\<lparr>tags := (tags p)[i := unat ty]\<rparr>"
  note un = read_entry_def set_tag_def set_slot_def bind_result_Inr Let_def
  consider "?t = CONSTANT_Utf8" | "?t = CONSTANT_Class \<or> ?t = CONSTANT_String" | "ref_tag ?t"
    | "?t = CONSTANT_Integer \<or> ?t = CONSTANT_Float" | "?t = CONSTANT_Long \<or> ?t = CONSTANT_Double"
    using assms ty by (auto simp: un ref_tag_def split: if_splits)
  then show thesis
  proof cases
    case 1
    then show thesis using assms ty
      by (intro one [where t = ?t and v = "pdata q ! i"]) (auto simp: un const_tags split: if_splits)
  next
    case 2
    then show thesis using assms ty
      by (intro one [where t = ?t and v = "pdata q ! i"]) (auto simp: un const_tags split: if_splits)
  next
    case 3
    then show thesis using assms ty
      by (intro one [where t = ?t and v = "pdata q ! i"]) (auto simp: un const_tags ref_tag_def split: if_splits)
  next
    case 4
    then show thesis using assms ty
      by (intro one [where t = ?t and v = "pdata q ! i"]) (auto simp: un const_tags split: if_splits)
  next
    case 5
    obtain a fp2 where a: "readu4 fp1 = Inr (a, fp2)"
      using assms ty 5 by (cases "readu4 fp1") (auto simp: un const_tags split: if_splits)
    obtain b fp3 where b: "readu4 fp2 = Inr (b, fp3)"
      using assms ty 5 a by (cases "readu4 fp2") (auto simp: un const_tags split: if_splits)
    show thesis
      by (rule two [where t = ?t and a = a and b = b])
         (use assms ty 5 a b in \<open>auto simp: un const_tags split: if_splits\<close>)
  qed
qed

lemma read_entry_ok:
  assumes r: "read_entry i p fp = Inr (j, q, fp')" and p: "pool_read n i p" and i: "i < n"
  shows "pool_read n (j + 1) q"
proof -
  have len: "pool_size p = n" "length (tags p) = n" "length (pdata p) = n"
    and past: "\<And>k. k < i \<Longrightarrow> slot_ok False p k"
    and todo: "\<And>k. i \<le> k \<Longrightarrow> k < n \<Longrightarrow> tags p ! k = CONSTANT_Unknown"
    and long: "\<And>k. k < i \<Longrightarrow> tags p ! k = CONSTANT_Long \<or> tags p ! k = CONSTANT_Double \<Longrightarrow> k + 1 < i"
    using p i by (auto simp: pool_read_def split: if_splits)
  have old: "slot_ok False q' k" if "k < i" "length (tags q') = n"
    "\<And>m. m < i \<Longrightarrow> tags q' ! m = tags p ! m \<and> pdata q' ! m = pdata p ! m" for q' k
    using past [OF that(1)] long [OF that(1)] that len i unfolding slot_ok_def by auto
  show ?thesis using r
  proof (cases rule: read_entry_cases)
    case (one t v)
    have "slot_ok False q i" using one i len by (cases v) (auto simp: slot_ok_def ref_tag_def const_tags)
    moreover have "slot_ok False q k" if "k < i" for k
      by (rule old [OF that]) (use one len in auto)
    moreover have "k + 1 < i + 1" if "k < i + 1" "tags q ! k = CONSTANT_Long \<or> tags q ! k = CONSTANT_Double" for k
      using that one len i long [of k] by (cases "k = i") auto
    moreover have "tags q ! k = CONSTANT_Unknown" if "i < k" "k < n" for k
      using one todo [of k] that by simp
    ultimately show ?thesis using one(3,4) len by (auto simp: pool_read_def less_Suc_eq)
  next
    case (two t a b)
    have "slot_ok False q i" "slot_ok False q (i + 1)"
      using two i len by (auto simp: slot_ok_def ref_tag_def const_tags nth_list_update)
    moreover have "slot_ok False q k" if "k < i" for k
      by (rule old [OF that]) (use two len in auto)
    moreover have "k + 1 < i + 2" if "k < i + 2" "tags q ! k = CONSTANT_Long \<or> tags q ! k = CONSTANT_Double" for k
      using that two len i long [of k] by (cases "k = i + 1") (auto simp: const_tags)
    moreover have "tags q ! k = CONSTANT_Unknown" if "i + 1 < k" "k < n" for k
      using two todo [of k] that by simp
    ultimately show ?thesis using two(3,4) len by (auto simp: pool_read_def less_Suc_eq)
  qed
qed

lemma read_entries_ok:
  assumes "read_entries n i p fp = Inr (q, fp')" and "pool_read n i p"
  shows "\<exists>j. n \<le> j \<and> pool_read n j q"
  using assms
proof (induction n i p fp rule: read_entries.induct)
  case (1 n i p fp)
  show ?case
  proof (cases "i < n")
    case False
    with 1 show ?thesis by (auto simp: not_less read_entries.simps [of n i])
  next
    case True
    with 1(2) obtain j r fp1 where "read_entry i p fp = Inr (j, r, fp1)"
      "read_entries n (j + 1) r fp1 = Inr (q, fp')"
      by (auto simp: bind_result_Inr read_entries.simps [of n i])
    with 1 True read_entry_ok [OF _ 1(3) True] show ?thesis by blast
  qed
qed

definition pool_named :: "nat \<Rightarrow> nat \<Rightarrow> cpool \<Rightarrow> bool" where
  "pool_named n i p \<longleftrightarrow> pool_size p = n \<and> length (tags p) = n \<and> length (pdata p) = n \<and>
     (\<forall>k<n. slot_ok (k < i) p k)"

lemma rewrite_entry_ok:
  assumes r: "rewrite_entry i p = Inr q" and p: "pool_named n i p" and i: "i < n"
  shows "pool_named n (Suc i) q"
proof -
  have len: "pool_size p = n" "length (tags p) = n" "length (pdata p) = n"
    and ok: "\<And>k. k < n \<Longrightarrow> slot_ok (k < i) p k" using p by (auto simp: pool_named_def)
  show ?thesis
  proof (cases "tags p ! i = CONSTANT_Class \<or> tags p ! i = CONSTANT_String")
    case False
    then have "q = p" using r i len by (simp add: rewrite_entry_def pool_tag_def)
    moreover have "slot_ok True p i" using ok [OF i] False by (simp add: slot_ok_def)
    ultimately have "slot_ok (k < Suc i) q k" if "k < n" for k
      using ok [OF that] by (cases "k = i") (auto simp: less_Suc_eq)
    with \<open>q = p\<close> len show ?thesis by (simp add: pool_named_def)
  next
    case True
    with r i len obtain j where j: "METHODREF_CLASS i p = Inr j" "j < n"
      and q: "(if tags p ! j = CONSTANT_Utf8 then set_slot i (pdata p ! j) p else set_tag i CONSTANT_Unknown p) = Inr q"
      by (auto simp: rewrite_entry_def pool_tag_def bind_result_Inr split: if_splits)
    show ?thesis
    proof (cases "tags p ! j = CONSTANT_Utf8")
      case utf: True
      with ok [OF j(2)] obtain s where "pdata p ! j = SUtf8 s" by (auto simp: slot_ok_def)
      with utf q i len have q': "q = p\<lparr>pdata := (pdata p)[i := SUtf8 s]\<rparr>" by (simp add: set_slot_def)
      have "slot_ok (k < Suc i) q k" if "k < n" for k
      proof (cases "k = i")
        case True
        with \<open>tags p ! i = _ \<or> _\<close> i len show ?thesis by (auto simp: q' slot_ok_def ref_tag_def const_tags)
      next
        case False
        with ok [OF that] len show ?thesis by (auto simp: q' slot_ok_def less_Suc_eq)
      qed
      then show ?thesis using len by (simp add: pool_named_def q')
    next
      case utf: False
      with q i len have q': "q = p\<lparr>tags := (tags p)[i := CONSTANT_Unknown]\<rparr>" by (simp add: set_tag_def)
      have "slot_ok (k < Suc i) q k" if "k < n" for k
      proof (cases "k = i")
        case True
        with i len show ?thesis by (auto simp: q' slot_ok_def ref_tag_def const_tags)
      next
        case False
        with ok [OF that] len that i show ?thesis
          by (auto simp: q' slot_ok_def less_Suc_eq nth_list_update const_tags)
      qed
      then show ?thesis using len by (simp add: pool_named_def q')
    qed
  qed
qed

lemma rewrite_entries_ok:
  "rewrite_entries [i..<n] p = Inr q \<Longrightarrow> pool_named n i p \<Longrightarrow> i \<le> n \<Longrightarrow> pool_named n n q"
proof (induction "n - i" arbitrary: i p)
  case 0
  then show ?case by simp
next
  case (Suc k)
  then have lt: "i < n" by simp
  with Suc.prems(1) obtain r where "rewrite_entry i p = Inr r" "rewrite_entries [Suc i..<n] r = Inr q"
    by (auto simp: upt_conv_Cons bind_result_Inr)
  with Suc.hyps(1) [of "Suc i" r] Suc.hyps(2) rewrite_entry_ok [OF _ Suc.prems(2) lt, of r] lt
  show ?case by simp
qed

lemma read_entries_tag0:
  assumes "read_entries n i p fp = Inr (q, fp')" and "1 \<le> i"
  shows "tags q ! 0 = tags p ! 0"
  using assms
proof (induction n i p fp rule: read_entries.induct)
  case (1 n i p fp)
  show ?case
  proof (cases "i < n")
    case False
    with 1 show ?thesis by (simp add: read_entries.simps [of n i])
  next
    case True
    with 1(2) obtain j r fp1 where r: "read_entry i p fp = Inr (j, r, fp1)"
      "read_entries n (j + 1) r fp1 = Inr (q, fp')"
      by (auto simp: bind_result_Inr read_entries.simps [of n i])
    from r(1) have "tags r ! 0 = tags p ! 0"
      by (cases rule: read_entry_cases) (use 1(3) in auto)
    with 1(1) [OF True r(1) refl refl] r show ?thesis by simp
  qed
qed

lemma readConstantPool_named:
  assumes "readConstantPool fp = Inr (p, fp')"
  shows "pool_named (pool_size p) (pool_size p) p"
proof -
  have same: "(replicate m x)[0 := x] = replicate m x" for m and x :: 'x by (cases m) auto
  from assms obtain sz :: uint32 and fp1 q where sz: "0 < unat sz"
    and rd: "read_entries (unat sz) 1 \<lparr>pool_size = unat sz, tags = replicate (unat sz) 0,
        pdata = replicate (unat sz) (SWord 0)\<rparr> fp1 = Inr (q, fp')"
    and rw: "rewrite_entries [1..<unat sz] q = Inr p"
    by (auto simp: readConstantPool_def bind_result_Inr set_slot_def set_tag_def Let_def const_tags
        same split: if_splits)
  let ?n = "unat sz"
  have "pool_read ?n 1 \<lparr>pool_size = ?n, tags = replicate ?n 0, pdata = replicate ?n (SWord 0)\<rparr>"
    using sz by (auto simp: pool_read_def slot_ok_def ref_tag_def const_tags)
  from read_entries_ok [OF rd this] obtain j where j: "?n \<le> j" "pool_read ?n j q" by blast
  have "tags q ! 0 = CONSTANT_Unknown"
    using read_entries_tag0 [OF rd] sz by (simp add: const_tags)
  then have "slot_ok True q 0" by (simp add: slot_ok_def ref_tag_def const_tags)
  then have "slot_ok (k < 1) q k" if "k < ?n" for k
    using j that by (cases k) (auto simp: pool_read_def)
  then have "pool_named ?n 1 q" using j by (auto simp: pool_read_def pool_named_def)
  from rewrite_entries_ok [OF rw this] sz have "pool_named ?n ?n p" by simp
  then show ?thesis by (simp add: pool_named_def)
qed

section \<open>Verified pools\<close>

text \<open>What the resolution of references relies on.\<close>

definition entry_verified :: "cpool \<Rightarrow> nat \<Rightarrow> bool" where
  "entry_verified p i \<longleftrightarrow>
     (tags p ! i \<in> {CONSTANT_Fieldref, CONSTANT_Methodref, CONSTANT_InterfaceMethodref} \<longrightarrow>
        (\<exists>c n. METHODREF_CLASS i p = Inr c \<and> METHODREF_NAMEANDTYPE i p = Inr n \<and>
           (pool_tag c p = Inr CONSTANT_Class \<or> pool_tag c p = Inr CONSTANT_ResolvedClass) \<and>
           pool_tag n p = Inr CONSTANT_NameAndType)) \<and>
     (tags p ! i = CONSTANT_NameAndType \<longrightarrow>
        (\<exists>n s nm sg. METHODREF_CLASS i p = Inr n \<and> METHODREF_NAMEANDTYPE i p = Inr s \<and>
           n < pool_size p \<and> s < pool_size p \<and>
           pdata p ! n = SUtf8 nm \<and> pdata p ! s = SUtf8 sg))"

lemma CONST_TAG_known: "CONST_TAG i p = Inr t \<Longrightarrow> t \<noteq> CONSTANT_Unknown \<Longrightarrow> pool_tag i p = Inr t"
  by (simp add: CONST_TAG_def split: if_splits)

lemma verify_entry_sound:
  assumes "verify_entry i p = Inr (False, j)" and "pool_named n n p" and "i < n"
  shows "entry_verified p i"
    and "j = (if tags p ! i = CONSTANT_Long \<or> tags p ! i = CONSTANT_Double then i + 2 else i + 1)"
proof -
  have utf: "\<exists>s. pdata p ! k = SUtf8 s" if "k < length (tags p)" "tags p ! k = CONSTANT_Utf8" for k
    using assms(2) that by (auto simp: pool_named_def slot_ok_def)
  have len: "length (tags p) = n" "length (pdata p) = n" "pool_size p = n"
    using assms(2) by (auto simp: pool_named_def)
  have tag: "pool_tag i p = Inr (tags p ! i)" using assms(3) len by (simp add: pool_tag_def)
  let ?ref = "tags p ! i \<in> {CONSTANT_Fieldref, CONSTANT_Methodref, CONSTANT_InterfaceMethodref}"
  let ?nt = "tags p ! i = CONSTANT_NameAndType"
  have "\<exists>c n. METHODREF_CLASS i p = Inr c \<and> METHODREF_NAMEANDTYPE i p = Inr n \<and>
      (pool_tag c p = Inr CONSTANT_Class \<or> pool_tag c p = Inr CONSTANT_ResolvedClass) \<and>
      pool_tag n p = Inr CONSTANT_NameAndType" if ?ref
    using assms(1) that tag by (auto simp: verify_entry_def bind_result_Inr const_tags dest!: CONST_TAG_known)
  moreover have "\<exists>a b nm sg. METHODREF_CLASS i p = Inr a \<and> METHODREF_NAMEANDTYPE i p = Inr b \<and>
      a < pool_size p \<and> b < pool_size p \<and> pdata p ! a = SUtf8 nm \<and> pdata p ! b = SUtf8 sg" if ?nt
  proof -
    have "\<exists>a b. METHODREF_CLASS i p = Inr a \<and> METHODREF_NAMEANDTYPE i p = Inr b \<and>
        pool_tag a p = Inr CONSTANT_Utf8 \<and> pool_tag b p = Inr CONSTANT_Utf8"
      using assms(1) that tag by (auto simp: verify_entry_def bind_result_Inr const_tags dest!: CONST_TAG_known)
    then obtain a b where ab: "METHODREF_CLASS i p = Inr a" "METHODREF_NAMEANDTYPE i p = Inr b"
      "pool_tag a p = Inr CONSTANT_Utf8" "pool_tag b p = Inr CONSTANT_Utf8" by blast
    then have "a < n" "tags p ! a = CONSTANT_Utf8" "b < n" "tags p ! b = CONSTANT_Utf8"
      using len by (auto simp: pool_tag_def split: if_splits)
    with ab utf [of a] utf [of b] len show ?thesis by auto
  qed
  ultimately show "entry_verified p i" unfolding entry_verified_def by blast
  show "j = (if tags p ! i = CONSTANT_Long \<or> tags p ! i = CONSTANT_Double then i + 2 else i + 1)"
    using assms(1,2,3)
    by (auto simp: verify_entry_def bind_result_Inr pool_tag_def const_tags pool_named_def split: if_splits)
qed

lemma verify_entries_err: "verify_entries i p True \<noteq> Inr False"
proof (induction "pool_size p - i" arbitrary: i rule: less_induct)
  case less
  show ?case
  proof
    assume v: "verify_entries i p True = Inr False"
    then have i: "i < pool_size p" by (simp add: verify_entries.simps [of i] split: if_splits)
    with v have "bind_result (verify_entry i p) (\<lambda>(b, j). verify_entries j p True) = Inr False"
      by (simp add: verify_entries.simps [of i])
    then obtain b j where "verify_entry i p = Inr (b, j)" "verify_entries j p True = Inr False"
      by (auto simp: bind_result_Inr)
    with less.hyps [of j] verify_entry_index [of i p b j] i show False by (simp add: diff_less_mono2)
  qed
qed

lemma verify_entries_sound:
  assumes "verify_entries i p False = Inr False" and "pool_named n n p"
  shows "\<forall>k. i \<le> k \<and> k < n \<longrightarrow> entry_verified p k"
  using assms(1)
proof (induction "n - i" arbitrary: i rule: less_induct)
  case less
  have sz: "pool_size p = n" using assms(2) by (simp add: pool_named_def)
  show ?case
  proof (cases "i < n")
    case False
    then show ?thesis by auto
  next
    case True
    with less.prems sz have "bind_result (verify_entry i p) (\<lambda>(b, j). verify_entries j p b) = Inr False"
      by (simp add: verify_entries.simps [of i])
    then obtain b j where e: "verify_entry i p = Inr (b, j)" "verify_entries j p b = Inr False"
      by (auto simp: bind_result_Inr)
    then have b: "\<not> b" using verify_entries_err by auto
    with e have e': "verify_entry i p = Inr (False, j)" "verify_entries j p False = Inr False" by auto
    note s = verify_entry_sound [OF e'(1) assms(2) True]
    have rest: "\<forall>k. j \<le> k \<and> k < n \<longrightarrow> entry_verified p k"
      using less.hyps [of j] e'(2) verify_entry_index [OF e'(1)] True by simp
    have "entry_verified p (i + 1)" if "tags p ! i = CONSTANT_Long \<or> tags p ! i = CONSTANT_Double"
    proof -
      have "slot_ok True p i" using assms(2) True by (auto simp: pool_named_def)
      with that have "tags p ! (i + 1) = CONSTANT_Unknown" by (auto simp: slot_ok_def)
      then show ?thesis by (simp add: entry_verified_def const_tags)
    qed
    then show ?thesis
      using s rest by (auto split: if_splits) (metis Suc_leI le_eq_less_or_eq)+
  qed
qed

text \<open>
  C12. A pool that was read from any input and passed \<open>verify2\<close> is safe to resolve: every field
  and method reference names a class entry and a name-and-type entry, and every name-and-type
  entry names two \<open>Utf8\<close> slots, all inside the arrays.
\<close>

theorem verify2_safe:
  assumes "readConstantPool fp = Inr (p, fp')" and "verify2 OBJECTCLASS has_superclass nm p = Inr ()"
    and "1 \<le> i" and "i < pool_size p"
  shows "entry_verified p i"
proof -
  from assms(2) have "verify_entries 1 p (\<not> has_superclass \<and> nm \<noteq> OBJECTCLASS) = Inr False"
    by (auto simp: verify2_def bind_result_Inr split: if_splits)
  then have "verify_entries 1 p False = Inr False"
    using verify_entries_err [of 1 p] by (cases "\<not> has_superclass \<and> nm \<noteq> OBJECTCLASS") simp_all
  from verify_entries_sound [OF this readConstantPool_named [OF assms(1)]] assms(3,4) show ?thesis by simp
qed

definition demo_consts :: "centry list" where
  "demo_consts = [EUtf8 [65], EName CONSTANT_Class 1, ERef CONSTANT_NameAndType 1 1,
     ERef CONSTANT_Methodref 2 3]"

lemma demo_consts_cells:
  "all_cells demo_consts = [(0, SWord 0), (1, SUtf8 ''A''), (7, SWord 1), (12, SWord 0x10001),
     (10, SWord 0x30002)]"
  by (simp add: all_cells_def demo_consts_def const_tags utf8_string_def char_of_def bit_0 push_bit_eq_mult)

definition demo_pool :: cpool where
  "demo_pool = \<lparr>pool_size = 5, tags = [0, 1, 7, 12, 10],
     pdata = [SWord 0, SUtf8 ''A'', SUtf8 ''A'', SWord 0x10001, SWord 0x30002]\<rparr>"

lemma demo_pool_read: "readConstantPool (encode_pool demo_consts @ []) = Inr (demo_pool, [])"
proof -
  have "names_ok (all_cells demo_consts)" by (simp add: demo_consts_cells names_ok_def const_tags)
  moreover have "length (all_cells demo_consts) < 2 ^ 16" by (simp add: demo_consts_cells)
  moreover have "\<forall>e\<in>set demo_consts. wf_entry e" by (simp add: demo_consts_def const_tags)
  ultimately show ?thesis
    by (subst readConstantPool_encoded) (simp_all add: demo_consts_cells demo_pool_def name_cell_def const_tags)
qed

lemma demo_pool_verified: "verify2 ''java/lang/Object'' True ''A'' demo_pool = Inr ()"
proof -
  have step: "verify_entries i demo_pool False = verify_entries j demo_pool False"
    if "verify_entry i demo_pool = Inr (False, j)" "i < 5" for i j
    using that by (simp add: verify_entries.simps [of i] demo_pool_def)
  have e: "verify_entry 1 demo_pool = Inr (False, 2)" "verify_entry 2 demo_pool = Inr (False, 3)"
    "verify_entry 3 demo_pool = Inr (False, 4)" "verify_entry 4 demo_pool = Inr (False, 5)"
    by (simp_all add: verify_entry_def CONST_TAG_def pool_tag_def METHODREF_CLASS_def METHODREF_NAMEANDTYPE_def
        demo_pool_def const_tags)
  have "verify_entries 1 demo_pool False = verify_entries 5 demo_pool False"
    using step [OF e(1)] step [OF e(2)] step [OF e(3)] step [OF e(4)] by simp
  then show ?thesis by (simp add: verify2_def verify_entries.simps [of 5] demo_pool_def)
qed

theorem verify2_safe_witness: "entry_verified demo_pool 4"
  by (rule verify2_safe [OF demo_pool_read demo_pool_verified]) (simp_all add: demo_pool_def)

text \<open>
  C13. A long or double constant in the last slot makes the reader write past the end of the
  pool: for every pool of \<open>n\<close> slots whose constants fill the slots up to the last one, a
  following long or double constant has no defined result.
\<close>

theorem last_slot_long_overflows:
  assumes "\<forall>e\<in>set es. wf_entry e" and "Suc (length (all_cells es)) < 2 ^ 16"
    and "t = CONSTANT_Long \<or> t = CONSTANT_Double"
  shows "readConstantPool (enc_u2 (of_nat (Suc (length (all_cells es)))) @
           concat (map encode_entry es) @ encode_entry (ELong t a b) @ rest) = Inl C_undefined"
proof -
  let ?cs = "all_cells es" and ?n = "Suc (length (all_cells es))"
  have sz: "unat (ucast (of_nat ?n :: uint16) :: uint32) = ?n"
    using assms(2) by (simp add: unsigned_ucast_eq take_bit_eq_mod unat_of_nat del: of_nat_Suc)
  let ?p0 = "\<lparr>pool_size = ?n, tags = replicate ?n 0, pdata = replicate ?n (SWord 0)\<rparr>"
  have p0: "set_slot 0 (SWord 0) ?p0 = Inr ?p0" "set_tag 0 CONSTANT_Unknown ?p0 = Inr ?p0"
    by (simp_all add: set_slot_def set_tag_def const_tags)
  have "pool_cells ?n [(CONSTANT_Unknown, SWord 0)] ?p0"
    by (simp add: pool_cells_def const_tags all_cells_def)
  from read_entries_prefix [OF assms(1) this, of "encode_entry (ELong t a b) @ rest"] obtain q where
    q: "read_entries ?n 1 ?p0 (concat (map encode_entry es) @ encode_entry (ELong t a b) @ rest)
        = read_entries ?n (length ?cs) q (encode_entry (ELong t a b) @ rest)" "pool_cells ?n ?cs q"
    by (auto simp: all_cells_def)
  have "read_entry (length ?cs) q (encode_entry (ELong t a b) @ rest) = Inl C_undefined"
    using q(2) assms(3)
    by (auto simp: read_entry_def set_tag_def set_slot_def pool_cells_def readu4_enc const_tags)
  then have "read_entries ?n (length ?cs) q (encode_entry (ELong t a b) @ rest) = Inl C_undefined"
    by (simp add: read_entries.simps [of ?n])
  with q(1) p0 sz show ?thesis
    by (simp add: readConstantPool_def readu2_enc Let_def del: of_nat_Suc replicate.simps)
qed

theorem last_slot_long_overflows_witness:
  "readConstantPool (enc_u2 2 @ encode_entry (ELong CONSTANT_Long 0 7)) = Inl C_undefined"
  using last_slot_long_overflows [of "[]" CONSTANT_Long 0 7 "[]"] by (simp add: all_cells_def)

end
