(* ===== verification/Method_Lookup.thy ===== *)
theory Method_Lookup
  imports Signatures Constant_Pool Class_Inclusion
begin

text \<open>
  Lookup of classes, methods and exception handlers: \<^verbatim>\<open>runtime/lookup.c\<close>, the lookup helpers of
  \<^verbatim>\<open>runtime/soft.c\<close> and the handler search of \<^verbatim>\<open>runtime/classMethod.c\<close>. A method is referred to
  by its class and its position in the class's \<open>methods\<close> array, or is one of the dummy methods
  made for a missing one. Names are interned, so comparing \<open>Utf8Const\<close> pointers is comparing
  strings. Loops that follow \<open>superclass\<close> take fuel and return \<open>None\<close> when it runs out.
  \<open>processClass\<close>, \<open>loadClass\<close>, \<open>lookupArray\<close> and the class inclusion test are the fields of an
  environment.
\<close>

section \<open>Classes and methods\<close>

datatype code = Tramp nat | Throw_AbstractMethodError | Throw_NoSuchMethodError | Compiled nat

datatype mref = MRef cid nat | MDummy cid nat

datatype dentry = DNull | DCode code | DMeth mref

record exc_entry =
  start_pc :: nat
  end_pc :: nat
  handler_pc :: nat
  catch_idx :: nat
  catch_type :: "cid option"

record jmeth =
  m_name :: string
  m_sig :: string
  m_acc :: uint16
  m_class :: cid
  m_idx :: int
  m_iidx :: int
  m_ncode :: "code option"
  m_in :: int
  m_out :: int
  m_rettype :: char
  m_etable :: "exc_entry list option"

text \<open>
  The dispatch table of a class: its class pointer, the slots \<open>method[0..]\<close> and, at negative
  offsets, the interface slots \<open>-1, -2, ...\<close>; \<open>methodsInDtable\<close> has the same shape.
\<close>

record kclass =
  k_name :: string
  k_super :: "cid option"
  k_ifaces :: "cid list"
  k_acc :: uint16
  k_state :: nat
  k_methods :: "jmeth list"
  k_dummies :: "jmeth list"
  k_pool :: cpool
  k_msize :: nat
  k_ITsize :: nat
  dt_class :: "cid option"
  dt_method :: "dentry list"
  dt_iface :: "dentry list"
  mtab :: "mref option list"
  imtab :: "mref option list"
  subclass_head :: "cid option"
  subclass_next :: "cid option"

record kworld =
  cls :: "cid \<Rightarrow> kclass"
  total_interface :: nat
  next_tramp :: nat

definition ACC_PUBLIC :: uint16 where "ACC_PUBLIC = 0x1"
definition ACC_PRIVATE :: uint16 where "ACC_PRIVATE = 0x2"
definition ACC_PROTECTED :: uint16 where "ACC_PROTECTED = 0x4"
definition ACC_STATIC :: uint16 where "ACC_STATIC = 0x8"
definition ACC_NATIVE :: uint16 where "ACC_NATIVE = 0x100"
definition ACC_INTERFACE :: uint16 where "ACC_INTERFACE = 0x200"
definition ACC_ABSTRACT :: uint16 where "ACC_ABSTRACT = 0x400"

definition has_flag :: "uint16 \<Rightarrow> uint16 \<Rightarrow> bool" where
  "has_flag acc f \<longleftrightarrow> acc AND f \<noteq> 0"

definition CSTATE_LINKED :: nat where "CSTATE_LINKED = 6"
definition CSTATE_OK :: nat where "CSTATE_OK = 10"

definition upd_class :: "cid \<Rightarrow> (kclass \<Rightarrow> kclass) \<Rightarrow> kworld \<Rightarrow> kworld" where
  "upd_class c f w = w\<lparr>cls := (cls w)(c := f (cls w c))\<rparr>"

definition method_at :: "kworld \<Rightarrow> mref \<Rightarrow> jmeth" where
  "method_at w m = (case m of MRef c k \<Rightarrow> k_methods (cls w c) ! k | MDummy c k \<Rightarrow> k_dummies (cls w c) ! k)"

definition upd_method :: "mref \<Rightarrow> (jmeth \<Rightarrow> jmeth) \<Rightarrow> kworld \<Rightarrow> kworld" where
  "upd_method m f w =
     (case m of
        MRef c k \<Rightarrow> upd_class c (\<lambda>x. x\<lparr>k_methods := (k_methods x)[k := f (k_methods x ! k)]\<rparr>) w
      | MDummy c k \<Rightarrow> upd_class c (\<lambda>x. x\<lparr>k_dummies := (k_dummies x)[k := f (k_dummies x ! k)]\<rparr>) w)"

record lookup_env =
  le_translator :: bool
  processClass :: "kworld \<Rightarrow> cid \<Rightarrow> nat \<Rightarrow> kworld result"
  loadClass :: "cid \<Rightarrow> kworld \<Rightarrow> string \<Rightarrow> (cid \<times> kworld) result"
  lookup_array :: "kworld \<Rightarrow> cid \<Rightarrow> (cid \<times> kworld) result"
  prim_class :: "char \<Rightarrow> cid"
  element_type :: "kworld \<Rightarrow> cid \<Rightarrow> cid"
  is_subclass :: "cid \<Rightarrow> cid \<Rightarrow> bool"

section \<open>Finding a method\<close>

text \<open>The search of one \<open>methods\<close> array: the first method with the name and the signature.\<close>

fun find_method :: "jmeth list \<Rightarrow> nat \<Rightarrow> string \<Rightarrow> string \<Rightarrow> nat option" where
  "find_method [] k nm sg = None"
| "find_method (m # ms) k nm sg =
     (if m_name m = nm \<and> m_sig m = sg then Some k else find_method ms (Suc k) nm sg)"

definition findMethodLocal :: "kworld \<Rightarrow> cid \<Rightarrow> string \<Rightarrow> string \<Rightarrow> mref option" where
  "findMethodLocal w c nm sg = map_option (MRef c) (find_method (k_methods (cls w c)) 0 nm sg)"

fun findMethod_loop :: "nat \<Rightarrow> kworld \<Rightarrow> cid option \<Rightarrow> string \<Rightarrow> string \<Rightarrow> mref option option" where
  "findMethod_loop n w None nm sg = Some None"
| "findMethod_loop 0 w (Some c) nm sg = None"
| "findMethod_loop (Suc n) w (Some c) nm sg =
     (case findMethodLocal w c nm sg of
        Some m \<Rightarrow> Some (Some m)
      | None \<Rightarrow> findMethod_loop n w (k_super (cls w c)) nm sg)"

definition findMethod ::
    "lookup_env \<Rightarrow> nat \<Rightarrow> kworld \<Rightarrow> cid \<Rightarrow> string \<Rightarrow> string \<Rightarrow> (mref option \<times> kworld) result option" where
  "findMethod E n w c nm sg =
     (case (if k_state (cls w c) < CSTATE_OK then processClass E w c CSTATE_OK else Inr w) of
        Inl e \<Rightarrow> Some (Inl e)
      | Inr w \<Rightarrow> map_option (\<lambda>r. Inr (r, w)) (findMethod_loop n w (Some c) nm sg))"

definition soft_lookupmethod ::
    "lookup_env \<Rightarrow> nat \<Rightarrow> kworld \<Rightarrow> cid \<Rightarrow> mref \<Rightarrow> (code option \<times> kworld) result option" where
  "soft_lookupmethod E n w c meth =
     (case findMethod E n w c (m_name (method_at w meth)) (m_sig (method_at w meth)) of
        None \<Rightarrow> None
      | Some (Inl e) \<Rightarrow> Some (Inl e)
      | Some (Inr (None, w)) \<Rightarrow> Some (Inl NoSuchMethodError)
      | Some (Inr (Some m, w)) \<Rightarrow> Some (Inr (m_ncode (method_at w m), w)))"

fun lookupinterface_loop :: "nat \<Rightarrow> kworld \<Rightarrow> cid option \<Rightarrow> string \<Rightarrow> string \<Rightarrow> code option result option" where
  "lookupinterface_loop n w None nm sg = Some (Inl IncompatibleClassChangeError)"
| "lookupinterface_loop 0 w (Some c) nm sg = None"
| "lookupinterface_loop (Suc n) w (Some c) nm sg =
     (case findMethodLocal w c nm sg of
        Some m \<Rightarrow>
          Some (let acc = m_acc (method_at w m) in
                if has_flag acc ACC_STATIC then Inl IncompatibleClassChangeError
                else if has_flag acc ACC_ABSTRACT then Inl AbstractMethodError
                else if \<not> has_flag acc ACC_PUBLIC then Inl IllegalAccessError
                else Inr (m_ncode (method_at w m)))
      | None \<Rightarrow> lookupinterface_loop n w (k_super (cls w c)) nm sg)"

definition soft_lookupinterfacemethod ::
    "lookup_env \<Rightarrow> nat \<Rightarrow> kworld \<Rightarrow> cid \<Rightarrow> string \<Rightarrow> string \<Rightarrow> (code option \<times> kworld) result option" where
  "soft_lookupinterfacemethod E n w c nm sg =
     (case processClass E w c CSTATE_LINKED of
        Inl e \<Rightarrow> Some (Inl e)
      | Inr w \<Rightarrow> map_option (\<lambda>r. map_sum id (\<lambda>x. (x, w)) r) (lookupinterface_loop n w (Some c) nm sg))"

section \<open>Access control\<close>

text \<open>
  \<open>strrchr(name, '/')\<close> as the length of the part before the last slash, 0 when there is none
  (the code then takes the start of the name).
\<close>

fun last_slash :: "string \<Rightarrow> nat option" where
  "last_slash [] = None"
| "last_slash (ch # nm) =
     (case last_slash nm of Some k \<Rightarrow> Some (Suc k) | None \<Rightarrow> if ch = CHR ''/'' then Some 0 else None)"

definition pkgend :: "string \<Rightarrow> nat" where
  "pkgend nm = (case last_slash nm of None \<Rightarrow> 0 | Some k \<Rightarrow> k)"

definition checkAccess :: "lookup_env \<Rightarrow> kworld \<Rightarrow> cid \<Rightarrow> cid \<Rightarrow> uint16 \<Rightarrow> unit result" where
  "checkAccess E w a b flags =
     (if le_translator E then Inr ()
      else if has_flag flags ACC_PUBLIC then Inr ()
      else if has_flag flags ACC_PRIVATE then (if a \<noteq> b then Inl IllegalAccessError else Inr ())
      else if has_flag flags ACC_PROTECTED \<and> is_subclass E a b then Inr ()
      else if a = b then Inr ()
      else let aname = k_name (cls w a); bname = k_name (cls w b)
           in if pkgend aname \<noteq> pkgend bname \<or> take (pkgend aname) aname \<noteq> take (pkgend aname) bname
              then Inl IllegalAccessError else Inr ())"

section \<open>Resolving references\<close>

definition is_array_name :: "string \<Rightarrow> bool" where
  "is_array_name nm = (case nm of [] \<Rightarrow> False | ch # _ \<Rightarrow> ch = CHR ''['')"

definition set_pool :: "cid \<Rightarrow> nat \<Rightarrow> nat \<Rightarrow> cslot \<Rightarrow> kworld \<Rightarrow> kworld" where
  "set_pool c i t v w =
     upd_class c (\<lambda>x. x\<lparr>k_pool := (k_pool x)\<lparr>tags := (tags (k_pool x))[i := t],
                                            pdata := (pdata (k_pool x))[i := v]\<rparr>\<rparr>) w"

definition getClass :: "lookup_env \<Rightarrow> kworld \<Rightarrow> nat \<Rightarrow> cid \<Rightarrow> (cid \<times> kworld) result" where
  "getClass E w i this =
     (let pool = k_pool (cls w this) in
      bind_result (pool_tag i pool) (\<lambda>t.
      if t = CONSTANT_ResolvedClass then
        (case pdata pool ! i of SPtr c \<Rightarrow> Inr (c, w) | _ \<Rightarrow> Inl C_undefined)
      else if t \<noteq> CONSTANT_Class then Inl ClassFormatError
      else case pdata pool ! i of
        SUtf8 nm \<Rightarrow>
          bind_result
            (if is_array_name nm then
               bind_result (classFromSig (prim_class E) (lookup_array E) (loadClass E this) w (tl nm))
                 (\<lambda>(el, _, w). case el of None \<Rightarrow> Inl C_undefined | Some el \<Rightarrow> lookup_array E w el)
             else loadClass E this w nm)
            (\<lambda>(c, w).
               let w = set_pool this i CONSTANT_ResolvedClass (SPtr c) w;
                   real = (if is_array_name (k_name (cls w c)) then element_type E w c else c)
               in bind_result (checkAccess E w this real (k_acc (cls w real))) (\<lambda>_. Inr (c, w)))
      | _ \<Rightarrow> Inl C_undefined))"

text \<open>The name and signature of a reference: \<open>NAMEANDTYPE_NAME\<close> and \<open>NAMEANDTYPE_SIGNATURE\<close>.\<close>

definition utf8_at :: "nat \<Rightarrow> cpool \<Rightarrow> string result" where
  "utf8_at i p =
     (if i < length (pdata p) then (case pdata p ! i of SUtf8 s \<Rightarrow> Inr s | _ \<Rightarrow> Inl C_undefined)
      else Inl C_undefined)"

definition ref_name_sig :: "nat \<Rightarrow> cpool \<Rightarrow> (string \<times> string) result" where
  "ref_name_sig i p =
     bind_result (METHODREF_NAMEANDTYPE i p) (\<lambda>ni.
     bind_result (METHODREF_CLASS ni p) (\<lambda>nin.
     bind_result (utf8_at nin p) (\<lambda>nm.
     bind_result (METHODREF_NAMEANDTYPE ni p) (\<lambda>nis.
     bind_result (utf8_at nis p) (\<lambda>sg. Inr (nm, sg))))))"

definition CLASS_CLASS :: "nat \<Rightarrow> cpool \<Rightarrow> cid result" where
  "CLASS_CLASS i p =
     (if i < length (pdata p) then (case pdata p ! i of SPtr c \<Rightarrow> Inr c | _ \<Rightarrow> Inl C_undefined)
      else Inl C_undefined)"

text \<open>
  The dummy method for a reference that is not found: a copy of the dispatch table, one slot
  longer, without class pointer and interface part, whose last slot is the dummy.
\<close>

definition add_dummy_method :: "cid \<Rightarrow> string \<Rightarrow> string \<Rightarrow> kworld \<Rightarrow> (mref \<times> kworld) result" where
  "add_dummy_method c nm sg w =
     bind_result (countInsAndOuts sg) (\<lambda>(ins, outs, rt).
     let n = k_msize (cls w c);
         m = \<lparr>m_name = nm, m_sig = sg, m_acc = ACC_NATIVE, m_class = c, m_idx = int n, m_iidx = 0,
              m_ncode = Some Throw_NoSuchMethodError, m_in = ins, m_out = outs, m_rettype = rt,
              m_etable = None\<rparr>;
         r = MDummy c (length (k_dummies (cls w c)))
     in Inr (r, upd_class c (\<lambda>x. x\<lparr>k_dummies := k_dummies x @ [m], k_msize := n + 1, dt_class := None,
                                  dt_iface := [], dt_method := take n (dt_method x) @ [DMeth r]\<rparr>) w))"

definition getMethodSignatureClass ::
    "lookup_env \<Rightarrow> nat \<Rightarrow> kworld \<Rightarrow> nat \<Rightarrow> cid \<Rightarrow> (mref \<times> kworld) result option" where
  "getMethodSignatureClass E n w i this =
     (let pool = k_pool (cls w this) in
      case pool_tag i pool of
        Inl e \<Rightarrow> Some (Inl e)
      | Inr t \<Rightarrow>
        if t \<noteq> CONSTANT_Methodref \<and> t \<noteq> CONSTANT_InterfaceMethodref then Some (Inl NoSuchMethodError)
        else case bind_result (ref_name_sig i pool) (\<lambda>(nm, sg).
                  bind_result (METHODREF_CLASS i pool) (\<lambda>ci.
                  bind_result (pool_tag ci pool) (\<lambda>tc.
                  bind_result (if tc = CONSTANT_Class then map_sum id snd (getClass E w ci this) else Inr w) (\<lambda>w.
                  bind_result (CLASS_CLASS ci (k_pool (cls w this))) (\<lambda>c.
                  bind_result (processClass E w c CSTATE_LINKED) (\<lambda>w.
                  if (t = CONSTANT_Methodref \<and> has_flag (k_acc (cls w c)) ACC_INTERFACE) \<or>
                     (t = CONSTANT_InterfaceMethodref \<and> \<not> has_flag (k_acc (cls w c)) ACC_INTERFACE)
                  then Inl IncompatibleClassChangeError
                  else Inr (nm, sg, c, w))))))) of
          Inl e \<Rightarrow> Some (Inl e)
        | Inr (nm, sg, c, w) \<Rightarrow>
            (case findMethod_loop n w (Some c) nm sg of
               None \<Rightarrow> None
             | Some (Some m) \<Rightarrow>
                 let w = (if has_flag (m_acc (method_at w m)) ACC_ABSTRACT
                          then upd_method m (\<lambda>x. x\<lparr>m_ncode := Some Throw_AbstractMethodError,
                                                   m_acc := m_acc x OR ACC_NATIVE\<rparr>) w
                          else w);
                     owner = (case m of MRef k _ \<Rightarrow> k | MDummy k _ \<Rightarrow> k)
                 in Some (bind_result (checkAccess E w this owner (m_acc (method_at w m)))
                            (\<lambda>_. Inr (m, w)))
             | Some None \<Rightarrow> Some (add_dummy_method c nm sg w)))"

definition getMethodArguments :: "kworld \<Rightarrow> nat \<Rightarrow> cid \<Rightarrow> (string \<times> int \<times> int \<times> char) result" where
  "getMethodArguments w i this =
     (let pool = k_pool (cls w this) in
      bind_result (pool_tag i pool) (\<lambda>t.
      if t \<noteq> CONSTANT_Methodref \<and> t \<noteq> CONSTANT_InterfaceMethodref then Inl NoSuchMethodError
      else bind_result (METHODREF_NAMEANDTYPE i pool) (\<lambda>ni.
           bind_result (METHODREF_NAMEANDTYPE ni pool) (\<lambda>nis.
           bind_result (utf8_at nis pool) (\<lambda>sg.
           bind_result (countInsAndOuts sg) (\<lambda>(ins, outs, rt). Inr (sg, ins, outs, rt)))))))"

section \<open>Exception handlers\<close>

text \<open>
  Both searches walk the exception table from the first entry; they differ in the test of the
  end of the range. Resolving the catch class is remembered in the entry.
\<close>

fun find_handler ::
    "(nat \<Rightarrow> exc_entry \<Rightarrow> bool) \<Rightarrow> lookup_env \<Rightarrow> mref \<Rightarrow> cid \<Rightarrow> nat \<Rightarrow> cid \<Rightarrow> nat \<Rightarrow> exc_entry list \<Rightarrow> kworld
     \<Rightarrow> (nat option \<times> kworld) result" where
  "find_handler covers E meth this pc exc i [] w = Inr (None, w)"
| "find_handler covers E meth this pc exc i (e # es) w =
     (if \<not> covers pc e then find_handler covers E meth this pc exc (Suc i) es w
      else if catch_idx e = 0 then Inr (Some i, w)
      else bind_result
             (case catch_type e of
                Some c \<Rightarrow> Inr (c, w)
              | None \<Rightarrow>
                  bind_result (getClass E w (catch_idx e) this) (\<lambda>(c, w).
                  Inr (c, upd_method meth (\<lambda>m. m\<lparr>m_etable := map_option (\<lambda>t. t[i := e\<lparr>catch_type := Some c\<rparr>])
                                                          (m_etable m)\<rparr>) w)))
             (\<lambda>(c, w).
                if is_subclass E exc c then Inr (Some i, w)
                else find_handler covers E meth this pc exc (Suc i) es w))"

text \<open>\<open>pc >= start_pc && pc < end_pc\<close>\<close>

definition covers_exclusive :: "nat \<Rightarrow> exc_entry \<Rightarrow> bool" where
  "covers_exclusive pc e \<longleftrightarrow> start_pc e \<le> pc \<and> pc < end_pc e"

text \<open>\<open>pc < start_pc || pc > end_pc\<close> skips the entry.\<close>

definition covers_inclusive :: "nat \<Rightarrow> exc_entry \<Rightarrow> bool" where
  "covers_inclusive pc e \<longleftrightarrow> \<not> (pc < start_pc e \<or> pc > end_pc e)"

definition Method_GetExceptionHandler ::
    "lookup_env \<Rightarrow> kworld \<Rightarrow> mref \<Rightarrow> nat \<Rightarrow> cid \<Rightarrow> (nat option \<times> kworld) result" where
  "Method_GetExceptionHandler E w meth pc exc =
     (case m_etable (method_at w meth) of
        None \<Rightarrow> Inr (None, w)
      | Some es \<Rightarrow> find_handler covers_exclusive E meth (m_class (method_at w meth)) pc exc 0 es w)"

definition findExceptionBlockInMethod ::
    "lookup_env \<Rightarrow> kworld \<Rightarrow> nat \<Rightarrow> cid \<Rightarrow> mref \<Rightarrow> (nat option \<times> kworld) result" where
  "findExceptionBlockInMethod E w pc exc meth =
     (case m_etable (method_at w meth) of
        None \<Rightarrow> Inr (None, w)
      | Some es \<Rightarrow>
          bind_result (find_handler covers_inclusive E meth (m_class (method_at w meth)) pc exc 0 es w)
            (\<lambda>(r, w). Inr (map_option (\<lambda>i. handler_pc (es ! i)) r, w)))"

section \<open>Superclass chains\<close>

text \<open>The classes met when following \<open>superclass\<close> to the root.\<close>

inductive super_chain :: "kworld \<Rightarrow> cid option \<Rightarrow> cid list \<Rightarrow> bool" for w where
  chain_root: "super_chain w None []"
| chain_step: "super_chain w (k_super (cls w c)) cs \<Longrightarrow> super_chain w (Some c) (c # cs)"

inductive_cases super_chain_NoneE: "super_chain w None cs"
inductive_cases super_chain_SomeE: "super_chain w (Some c) cs"

lemma super_chain_unique: "super_chain w oc cs \<Longrightarrow> super_chain w oc ds \<Longrightarrow> cs = ds"
  by (induction arbitrary: ds rule: super_chain.induct)
     (blast elim: super_chain_NoneE super_chain_SomeE)+

text \<open>The method of the nearest class of a chain.\<close>

fun nearest :: "kworld \<Rightarrow> cid list \<Rightarrow> string \<Rightarrow> string \<Rightarrow> mref option" where
  "nearest w [] nm sg = None"
| "nearest w (c # cs) nm sg =
     (case findMethodLocal w c nm sg of Some m \<Rightarrow> Some m | None \<Rightarrow> nearest w cs nm sg)"

lemma find_method_Some:
  "find_method ms k nm sg = Some j \<Longrightarrow>
     k \<le> j \<and> j - k < length ms \<and> m_name (ms ! (j - k)) = nm \<and> m_sig (ms ! (j - k)) = sg \<and>
     (\<forall>i<j - k. \<not> (m_name (ms ! i) = nm \<and> m_sig (ms ! i) = sg))"
proof (induction ms arbitrary: k)
  case Nil
  then show ?case by simp
next
  case (Cons m ms)
  show ?case
  proof (cases "m_name m = nm \<and> m_sig m = sg")
    case True
    with Cons.prems show ?thesis by simp
  next
    case False
    with Cons.prems have "find_method ms (Suc k) nm sg = Some j" by auto
    from Cons.IH [OF this] False show ?thesis
      by (auto simp: nth_Cons Suc_diff_Suc [symmetric] Suc_le_eq split: nat.splits)
  qed
qed

lemma find_method_None:
  "find_method ms k nm sg = None \<longleftrightarrow> (\<forall>m\<in>set ms. \<not> (m_name m = nm \<and> m_sig m = sg))"
  by (induction ms arbitrary: k) auto

lemma findMethodLocal_Some:
  assumes "findMethodLocal w c nm sg = Some m"
  obtains k where "m = MRef c k" "k < length (k_methods (cls w c))"
    "m_name (k_methods (cls w c) ! k) = nm" "m_sig (k_methods (cls w c) ! k) = sg"
  using assms find_method_Some [of "k_methods (cls w c)" 0 nm sg] by (auto simp: findMethodLocal_def)

lemma findMethod_loop_nearest:
  assumes "super_chain w oc cs" and "length cs \<le> n"
  shows "findMethod_loop n w oc nm sg = Some (nearest w cs nm sg)"
  using assms
proof (induction arbitrary: n rule: super_chain.induct)
  case chain_root
  then show ?case by simp
next
  case (chain_step c cs)
  then obtain m where "n = Suc m" "length cs \<le> m" by (cases n) auto
  with chain_step show ?case by (simp split: option.splits)
qed

text \<open>The outcome of an interface call on a method found in the nearest class.\<close>

definition interface_outcome :: "kworld \<Rightarrow> mref option \<Rightarrow> code option result" where
  "interface_outcome w r =
     (case r of
        None \<Rightarrow> Inl IncompatibleClassChangeError
      | Some m \<Rightarrow>
          if has_flag (m_acc (method_at w m)) ACC_STATIC then Inl IncompatibleClassChangeError
          else if has_flag (m_acc (method_at w m)) ACC_ABSTRACT then Inl AbstractMethodError
          else if \<not> has_flag (m_acc (method_at w m)) ACC_PUBLIC then Inl IllegalAccessError
          else Inr (m_ncode (method_at w m)))"

lemma lookupinterface_loop_nearest:
  assumes "super_chain w oc cs" and "length cs \<le> n"
  shows "lookupinterface_loop n w oc nm sg = Some (interface_outcome w (nearest w cs nm sg))"
  using assms
proof (induction arbitrary: n rule: super_chain.induct)
  case chain_root
  then show ?case by (simp add: interface_outcome_def)
next
  case (chain_step c cs)
  then obtain m where "n = Suc m" "length cs \<le> m" by (cases n) auto
  with chain_step show ?case by (simp add: interface_outcome_def Let_def split: option.splits)
qed

section \<open>Packages\<close>

definition package :: "string \<Rightarrow> string" where
  "package nm = rev (tl (dropWhile (\<lambda>ch. ch \<noteq> CHR ''/'') (rev nm)))"

lemma last_slash_None: "last_slash nm = None \<longleftrightarrow> CHR ''/'' \<notin> set nm"
  by (induction nm) (auto split: option.splits)

lemma last_slash_Some:
  "last_slash nm = Some k \<Longrightarrow> k < length nm \<and> nm ! k = CHR ''/'' \<and> CHR ''/'' \<notin> set (drop (Suc k) nm)"
  by (induction nm arbitrary: k) (auto simp: last_slash_None split: option.splits if_splits)

lemma package_pkgend: "package nm = take (pkgend nm) nm"
proof (cases "last_slash nm")
  case None
  then have "dropWhile (\<lambda>ch. ch \<noteq> CHR ''/'') (rev nm) = []"
    by (auto simp: last_slash_None dropWhile_eq_Nil_conv)
  then have "tl (dropWhile (\<lambda>ch. ch \<noteq> CHR ''/'') (rev nm)) = []" by (metis list.sel(2))
  with None show ?thesis by (simp add: package_def pkgend_def)
next
  case (Some k)
  note k = last_slash_Some [OF Some]
  then have "nm = take k nm @ CHR ''/'' # drop (Suc k) nm" by (metis id_take_nth_drop)
  then have "rev nm = rev (drop (Suc k) nm) @ CHR ''/'' # rev (take k nm)"
    by (metis append.assoc append_Cons append_Nil rev.simps(2) rev_append)
  moreover have "\<forall>ch\<in>set (rev (drop (Suc k) nm)). ch \<noteq> CHR ''/''" using k by auto
  ultimately have "dropWhile (\<lambda>ch. ch \<noteq> CHR ''/'') (rev nm) = CHR ''/'' # rev (take k nm)"
    by (simp only:) (subst dropWhile_append2, auto)
  with Some show ?thesis by (simp add: package_def pkgend_def)
qed

lemma length_package: "length (package nm) = pkgend nm"
  using last_slash_Some [of nm] by (auto simp: package_pkgend pkgend_def split: option.splits)

lemma same_package:
  "pkgend a = pkgend b \<and> take (pkgend a) a = take (pkgend a) b \<longleftrightarrow> package a = package b"
  by (metis length_package package_pkgend)

section \<open>Properties\<close>


definition demo_meth :: "string \<Rightarrow> uint16 \<Rightarrow> cid \<Rightarrow> jmeth" where
  "demo_meth nm acc c = \<lparr>m_name = nm, m_sig = ''()V'', m_acc = acc, m_class = c, m_idx = 0, m_iidx = - 1,
     m_ncode = Some (Compiled c), m_in = 0, m_out = 0, m_rettype = CHR ''V'', m_etable = None\<rparr>"

definition demo_kclass :: "string \<Rightarrow> cid option \<Rightarrow> jmeth list \<Rightarrow> kclass" where
  "demo_kclass nm sc ms = \<lparr>k_name = nm, k_super = sc, k_ifaces = [], k_acc = 1, k_state = 10,
     k_methods = ms, k_dummies = [], k_pool = \<lparr>pool_size = 0, tags = [], pdata = []\<rparr>, k_msize = 0,
     k_ITsize = 0, dt_class = None, dt_method = [], dt_iface = [], mtab = [], imtab = [],
     subclass_head = None, subclass_next = None\<rparr>"

text \<open>\<open>B\<close> (1) extends \<open>A\<close> (0); both declare \<open>f\<close>, only \<open>A\<close> declares \<open>g\<close>.\<close>

definition demo_world :: kworld where
  "demo_world = \<lparr>cls = (\<lambda>c. if c = 0 then demo_kclass ''p/A'' None [demo_meth ''f'' 1 0, demo_meth ''g'' 1 0]
       else demo_kclass ''p/B'' (Some 0) [demo_meth ''f'' 1 1]), total_interface = 1, next_tramp = 0\<rparr>"

definition demo_lenv :: lookup_env where
  "demo_lenv = \<lparr>le_translator = False, processClass = (\<lambda>w c s. Inr w), loadClass = (\<lambda>l w nm. Inr (0, w)),
     lookup_array = (\<lambda>w c. Inr (c, w)), prim_class = (\<lambda>_. 5), element_type = (\<lambda>w c. c),
     is_subclass = (\<lambda>a b. a = b)\<rparr>"

lemma demo_chain: "super_chain demo_world (Some 1) [1, 0]"
  by (auto intro!: super_chain.intros simp: demo_world_def demo_kclass_def)


text \<open>
  Access control: without the translator, class \<open>a\<close> may use an item of class \<open>b\<close> exactly when
  the item is public, or the classes are the same, or the item is not private and is either
  protected in a superclass of \<open>a\<close> or in the same package; with the translator (the default
  build) every access is permitted.
\<close>

theorem checkAccess_decides:
  "checkAccess E w a b flags =
     (if le_translator E \<or> has_flag flags ACC_PUBLIC \<or> a = b \<or>
         (\<not> has_flag flags ACC_PRIVATE \<and>
          (has_flag flags ACC_PROTECTED \<and> is_subclass E a b \<or>
           package (k_name (cls w a)) = package (k_name (cls w b))))
      then Inr () else Inl IllegalAccessError)"
  using same_package [of "k_name (cls w a)" "k_name (cls w b)"]
  by (auto simp: checkAccess_def Let_def)

lemma find_handler_covers:
  assumes "\<forall>e\<in>set es. covers pc e = covers' pc e"
  shows "find_handler covers E meth this pc exc i es w = find_handler covers' E meth this pc exc i es w"
  using assms
proof (induction es arbitrary: i w)
  case Nil
  then show ?case by simp
next
  case (Cons e es)
  then have *: "find_handler covers E meth this pc exc k es w' = find_handler covers' E meth this pc exc k es w'"
    for k w' by simp
  show ?case using Cons.prems by (simp add: * cong: if_cong)
qed


definition demo_handler :: exc_entry where
  "demo_handler = \<lparr>start_pc = 0, end_pc = 8, handler_pc = 20, catch_idx = 0, catch_type = None\<rparr>"

definition demo_handler_world :: kworld where
  "demo_handler_world = upd_method (MRef 0 0) (\<lambda>m. m\<lparr>m_etable := Some [demo_handler]\<rparr>) demo_world"


end
