(* ===== verification/Dispatch.thy ===== *)
theory Dispatch
  imports Method_Lookup
begin

text \<open>
  Dispatch tables: \<open>buildDispatchTable\<close>, \<open>buildInterfaceTable\<close>, the lookup by index and the
  fix-up of tables after a method was translated, all from \<^verbatim>\<open>runtime/classMethod.c\<close> in the
  configuration with \<open>NEW_INTERFACETABLE\<close>, \<open>HAVE_TRAMPOLINE\<close> and \<open>CUSTOMIZATION\<close>. The table of a
  class is \<open>dt_method\<close> (slots with index 0 and up) and \<open>dt_iface\<close> (the slots at negative offsets:
  offset \<open>-i\<close> is element \<open>i - 1\<close>); \<open>mtab\<close> and \<open>imtab\<close> are the parallel tables of method pointers.
  Trampolines are numbered in the order in which they are made. The garbage collector's walker
  that \<open>buildDispatchTable\<close> also creates is not part of the model.
\<close>

definition upd_meth :: "cid \<Rightarrow> nat \<Rightarrow> (jmeth \<Rightarrow> jmeth) \<Rightarrow> kworld \<Rightarrow> kworld" where
  "upd_meth c k f w = upd_method (MRef c k) f w"

section \<open>Interface numbers\<close>

text \<open>The innermost loops stop one method early: \<open>--k > 0\<close>.\<close>

definition inherited_iidx :: "kworld \<Rightarrow> cid \<Rightarrow> jmeth \<Rightarrow> int option" where
  "inherited_iidx w c meth =
     fold (\<lambda>j r. fold (\<lambda>mt r. if m_name meth = m_name mt \<and> m_sig meth = m_sig mt then Some (m_iidx mt) else r)
                      (butlast (k_methods (cls w j))) r)
          (k_ifaces (cls w c)) None"

definition new_iidx :: "cid \<Rightarrow> nat \<Rightarrow> kworld \<Rightarrow> kworld" where
  "new_iidx c k w =
     (let t = total_interface w
      in (upd_meth c k (\<lambda>m. m\<lparr>m_iidx := int t\<rparr>) (upd_class c (\<lambda>x. x\<lparr>k_ITsize := t\<rparr>) w))
           \<lparr>total_interface := t + 1\<rparr>)"

definition max_ITsize :: "cid \<Rightarrow> kworld \<Rightarrow> kworld" where
  "max_ITsize c w =
     fold (\<lambda>i w. if k_ITsize (cls w c) < k_ITsize (cls w i)
                 then upd_class c (\<lambda>x. x\<lparr>k_ITsize := k_ITsize (cls w i)\<rparr>) w else w)
          (k_ifaces (cls w c)) w"

definition number_interface :: "cid \<Rightarrow> kworld \<Rightarrow> kworld" where
  "number_interface c w =
     (let ks = [0..<length (k_methods (cls w c))] in
      if k_ifaces (cls w c) \<noteq> [] then
        fold (\<lambda>k w. case inherited_iidx w c (k_methods (cls w c) ! k) of
                      Some i \<Rightarrow> upd_meth c k (\<lambda>m. m\<lparr>m_iidx := i\<rparr>) w
                    | None \<Rightarrow> new_iidx c k w) ks (max_ITsize c w)
      else fold (new_iidx c) ks w)"

section \<open>Building the table of a class\<close>

definition inherit_sizes :: "cid \<Rightarrow> kworld \<Rightarrow> kworld" where
  "inherit_sizes c w =
     (let w = (case k_super (cls w c) of None \<Rightarrow> w
               | Some s \<Rightarrow> upd_class c (\<lambda>x. x\<lparr>k_ITsize := k_ITsize (cls w s)\<rparr>) w)
      in max_ITsize c w)"

definition link_subclass :: "cid \<Rightarrow> kworld \<Rightarrow> kworld" where
  "link_subclass c w =
     (case k_super (cls w c) of
        None \<Rightarrow> upd_class c (\<lambda>x. x\<lparr>k_msize := 0\<rparr>) w
      | Some s \<Rightarrow>
          let w = upd_class c (\<lambda>x. x\<lparr>subclass_next := subclass_head (cls w s)\<rparr>) w;
              w = upd_class s (\<lambda>x. x\<lparr>subclass_head := Some c\<rparr>) w
          in upd_class c (\<lambda>x. x\<lparr>k_msize := k_msize (cls w s)\<rparr>) w)"

definition assign_idx :: "nat \<Rightarrow> cid \<Rightarrow> nat \<Rightarrow> kworld \<Rightarrow> kworld result option" where
  "assign_idx n c k w =
     (let m = k_methods (cls w c) ! k in
      if has_flag (m_acc m) ACC_STATIC \<or> m_name m = ''<init>''
      then Some (Inr (upd_meth c k (\<lambda>m. m\<lparr>m_idx := - 1\<rparr>) w))
      else case findMethod_loop n w (k_super (cls w c)) (m_name m) (m_sig m) of
        None \<Rightarrow> None
      | Some (Some r) \<Rightarrow> Some (Inr (upd_meth c k (\<lambda>m. m\<lparr>m_idx := m_idx (method_at w r)\<rparr>) w))
      | Some None \<Rightarrow>
          Some (Inr (upd_class c (\<lambda>x. x\<lparr>k_msize := k_msize x + 1\<rparr>)
                       (upd_meth c k (\<lambda>m. m\<lparr>m_idx := int (k_msize (cls w c))\<rparr>) w))))"

definition alloc_tables :: "cid \<Rightarrow> kworld \<Rightarrow> kworld" where
  "alloc_tables c w =
     upd_class c (\<lambda>x. x\<lparr>dt_class := Some c, dt_method := replicate (k_msize x) DNull,
                        dt_iface := replicate (k_ITsize x) DNull, mtab := replicate (k_msize x) None,
                        imtab := replicate (k_ITsize x) None\<rparr>) w"

definition inherit_methods :: "cid \<Rightarrow> kworld \<Rightarrow> kworld" where
  "inherit_methods c w =
     (case k_super (cls w c) of
        None \<Rightarrow> w
      | Some s \<Rightarrow>
          fold (\<lambda>i w. upd_class c (\<lambda>x. x\<lparr>mtab := (mtab x)[i := mtab (cls w s) ! i]\<rparr>) w)
               [0..<k_msize (cls w s)] w)"

definition new_trampoline :: "mref \<Rightarrow> kworld \<Rightarrow> kworld" where
  "new_trampoline r w =
     (upd_method r (\<lambda>m. m\<lparr>m_ncode := Some (Tramp (next_tramp w))\<rparr>) w)\<lparr>next_tramp := next_tramp w + 1\<rparr>"

definition install_method :: "cid \<Rightarrow> nat \<Rightarrow> kworld \<Rightarrow> kworld result option" where
  "install_method c k w =
     (let idx = m_idx (k_methods (cls w c) ! k) in
      if idx \<ge> 0 then
        (if nat idx < length (mtab (cls w c))
         then Some (Inr (upd_class c (\<lambda>x. x\<lparr>mtab := (mtab x)[nat idx := Some (MRef c k)]\<rparr>) w))
         else Some (Inl C_undefined))
      else Some (Inr (new_trampoline (MRef c k) w)))"

definition fill_slot :: "cid \<Rightarrow> nat \<Rightarrow> kworld \<Rightarrow> kworld result option" where
  "fill_slot c i w =
     (case mtab (cls w c) ! i of
        None \<Rightarrow> Some (Inl C_undefined)
      | Some r \<Rightarrow>
          let w = (if m_ncode (method_at w r) \<noteq> None then w else new_trampoline r w)
          in Some (Inr (upd_class c
               (\<lambda>x. x\<lparr>dt_method := (dt_method x)[i := DCode (the (m_ncode (method_at w r)))]\<rparr>) w)))"

definition check_abstract :: "cid \<Rightarrow> kworld \<Rightarrow> kworld result option" where
  "check_abstract c w =
     (if \<not> has_flag (k_acc (cls w c)) ACC_ABSTRACT \<and> DNull \<in> set (take (k_msize (cls w c)) (dt_method (cls w c)))
      then Some (Inl AbstractMethodError) else Some (Inr w))"

definition buildDispatchTable :: "nat \<Rightarrow> cid \<Rightarrow> kworld \<Rightarrow> kworld result option" where
  "buildDispatchTable n c w =
     (if has_flag (k_acc (cls w c)) ACC_INTERFACE then Some (Inr (number_interface c w))
      else
        let ks = [0..<length (k_methods (cls w c))];
            w = link_subclass c (inherit_sizes c w)
        in and_then (each (assign_idx n c) ks w) (\<lambda>w.
           let w = inherit_methods c (alloc_tables c w)
           in and_then (each (install_method c) ks w) (\<lambda>w.
              and_then (each (fill_slot c) [0..<k_msize (cls w c)] w) (check_abstract c))))"

section \<open>Interface tables\<close>

definition set_iface_slot :: "cid \<Rightarrow> mref \<Rightarrow> int \<Rightarrow> kworld \<Rightarrow> kworld result option" where
  "set_iface_slot base r iidx w =
     (let w = upd_method r (\<lambda>m. m\<lparr>m_iidx := iidx\<rparr>) w;
          i = m_idx (method_at w r); x = cls w base
      in if 1 \<le> iidx \<and> nat iidx \<le> length (dt_iface x) \<and> 0 \<le> i \<and> nat i < length (dt_method x)
            \<and> nat i < length (mtab x)
         then Some (Inr (upd_class base
                (\<lambda>x. x\<lparr>dt_iface := (dt_iface x)[nat iidx - 1 := dt_method x ! nat i],
                       imtab := (imtab x)[nat iidx - 1 := mtab x ! nat i]\<rparr>) w))
         else Some (Inl C_undefined))"

definition implement_method :: "nat \<Rightarrow> cid \<Rightarrow> cid \<Rightarrow> nat \<Rightarrow> kworld \<Rightarrow> kworld result option" where
  "implement_method n base ic j w =
     (let im = k_methods (cls w ic) ! j in
      if m_name im = ''<clinit>'' then Some (Inr w)
      else case findMethod_loop n w (Some base) (m_name im) (m_sig im) of
        None \<Rightarrow> None
      | Some None \<Rightarrow> Some (Inr w)
      | Some (Some r) \<Rightarrow> set_iface_slot base r (m_iidx im) w)"

fun findmethod_ifaces :: "nat \<Rightarrow> cid \<Rightarrow> cid list \<Rightarrow> kworld \<Rightarrow> kworld result option" where
  "findmethod_ifaces n base [] w = Some (Inr w)"
| "findmethod_ifaces 0 base (ic # ics) w = None"
| "findmethod_ifaces (Suc n) base (ic # ics) w =
     and_then (each (implement_method (Suc n) base ic) [0..<length (k_methods (cls w ic))] w) (\<lambda>w.
     and_then (if k_ifaces (cls w ic) \<noteq> [] then findmethod_ifaces n base (k_ifaces (cls w ic)) w
               else Some (Inr w))
       (findmethod_ifaces n base ics))"

fun buildInterfaceTable_loop :: "nat \<Rightarrow> cid \<Rightarrow> cid option \<Rightarrow> kworld \<Rightarrow> kworld result option" where
  "buildInterfaceTable_loop n c None w = Some (Inr w)"
| "buildInterfaceTable_loop 0 c (Some s) w = None"
| "buildInterfaceTable_loop (Suc n) c (Some s) w =
     and_then (findmethod_ifaces (Suc n) c (k_ifaces (cls w s)) w)
       (\<lambda>w. buildInterfaceTable_loop n c (k_super (cls w s)) w)"

definition buildInterfaceTable :: "nat \<Rightarrow> cid \<Rightarrow> kworld \<Rightarrow> kworld result option" where
  "buildInterfaceTable n c w = buildInterfaceTable_loop n c (Some c) w"

definition get_method_from_class_and_index :: "kworld \<Rightarrow> cid \<Rightarrow> int \<Rightarrow> mref option" where
  "get_method_from_class_and_index w c idx =
     (if idx \<ge> 0 then mtab (cls w c) ! nat idx else imtab (cls w c) ! (nat (- idx) - 1))"

section \<open>Fixing tables after translation\<close>

fun fixup_dispatch_table :: "nat \<Rightarrow> cid \<Rightarrow> mref \<Rightarrow> code \<Rightarrow> nat \<Rightarrow> kworld \<Rightarrow> kworld option"
  and fixup_dispatch_subs :: "nat \<Rightarrow> cid option \<Rightarrow> mref \<Rightarrow> code \<Rightarrow> nat \<Rightarrow> kworld \<Rightarrow> kworld option" where
  "fixup_dispatch_table 0 c meth ncode idx w = None"
| "fixup_dispatch_table (Suc n) c meth ncode idx w =
     (if mtab (cls w c) ! idx = Some meth then
        (let w = upd_class c (\<lambda>x. x\<lparr>dt_method := (dt_method x)[idx := DCode ncode]\<rparr>) w
         in fixup_dispatch_subs n (subclass_head (cls w c)) meth ncode idx w)
      else Some w)"
| "fixup_dispatch_subs n None meth ncode idx w = Some w"
| "fixup_dispatch_subs 0 (Some c) meth ncode idx w = None"
| "fixup_dispatch_subs (Suc n) (Some c) meth ncode idx w =
     (case fixup_dispatch_table n c meth ncode idx w of
        None \<Rightarrow> None
      | Some w \<Rightarrow> fixup_dispatch_subs n (subclass_next (cls w c)) meth ncode idx w)"

fun fixup_climb :: "nat \<Rightarrow> cid \<Rightarrow> mref \<Rightarrow> nat \<Rightarrow> kworld \<Rightarrow> cid option" where
  "fixup_climb 0 c meth idx w = None"
| "fixup_climb (Suc n) c meth idx w =
     (case k_super (cls w c) of
        None \<Rightarrow> Some c
      | Some s \<Rightarrow>
          if k_msize (cls w s) > idx \<and> mtab (cls w s) ! idx = Some meth
          then fixup_climb n s meth idx w else Some c)"

definition fixupDispatchTable :: "nat \<Rightarrow> cid \<Rightarrow> mref \<Rightarrow> code \<Rightarrow> nat \<Rightarrow> kworld \<Rightarrow> kworld option" where
  "fixupDispatchTable n c meth ncode idx w =
     (case fixup_climb n c meth idx w of
        None \<Rightarrow> None
      | Some temp \<Rightarrow> fixup_dispatch_table n temp meth ncode idx w)"

text \<open>
  \<open>methodsInDtable\<close> and the dispatch table at an offset from their start, which may be negative.
  Writing the dispatch table at a non-negative offset would overwrite its header.
\<close>

definition methods_at_offset :: "kclass \<Rightarrow> int \<Rightarrow> mref option result" where
  "methods_at_offset x off =
     (if off \<ge> 0 then (if nat off < length (mtab x) then Inr (mtab x ! nat off) else Inl C_undefined)
      else (if nat (- off) \<le> length (imtab x) then Inr (imtab x ! (nat (- off) - 1)) else Inl C_undefined))"

definition write_offset :: "cid \<Rightarrow> int \<Rightarrow> code \<Rightarrow> kworld \<Rightarrow> kworld result" where
  "write_offset c off ncode w =
     (if off < 0 \<and> nat (- off) \<le> length (dt_iface (cls w c))
      then Inr (upd_class c (\<lambda>x. x\<lparr>dt_iface := (dt_iface x)[nat (- off) - 1 := DCode ncode]\<rparr>) w)
      else Inl C_undefined)"

text \<open>
  The interface part reads and writes at offset \<open>-(idx + 1)\<close>, while the tables were filled at
  offset \<open>-iidx\<close>.
\<close>

fun fixup_interface_table :: "nat \<Rightarrow> cid \<Rightarrow> mref \<Rightarrow> code \<Rightarrow> int \<Rightarrow> kworld \<Rightarrow> kworld result option"
  and fixup_interface_subs :: "nat \<Rightarrow> cid option \<Rightarrow> mref \<Rightarrow> code \<Rightarrow> int \<Rightarrow> kworld \<Rightarrow> kworld result option" where
  "fixup_interface_table 0 c meth ncode idx w = None"
| "fixup_interface_table (Suc n) c meth ncode idx w =
     (case methods_at_offset (cls w c) (- (idx + 1)) of
        Inl e \<Rightarrow> Some (Inl e)
      | Inr r \<Rightarrow>
          if r = Some meth then
            (case write_offset c (- (idx + 1)) ncode w of
               Inl e \<Rightarrow> Some (Inl e)
             | Inr w \<Rightarrow> fixup_interface_subs n (subclass_head (cls w c)) meth ncode idx w)
          else Some (Inr w))"
| "fixup_interface_subs n None meth ncode idx w = Some (Inr w)"
| "fixup_interface_subs 0 (Some c) meth ncode idx w = None"
| "fixup_interface_subs (Suc n) (Some c) meth ncode idx w =
     and_then (fixup_interface_table n c meth ncode idx w)
       (\<lambda>w. fixup_interface_subs n (subclass_next (cls w c)) meth ncode idx w)"

fun fixup_iclimb :: "nat \<Rightarrow> cid \<Rightarrow> mref \<Rightarrow> int \<Rightarrow> kworld \<Rightarrow> cid result option" where
  "fixup_iclimb 0 c meth iidx w = None"
| "fixup_iclimb (Suc n) c meth iidx w =
     (case k_super (cls w c) of
        None \<Rightarrow> Some (Inr c)
      | Some s \<Rightarrow>
          if int (k_ITsize (cls w s)) \<ge> iidx then
            (case methods_at_offset (cls w s) (- iidx) of
               Inl e \<Rightarrow> Some (Inl e)
             | Inr r \<Rightarrow> if r = Some meth then fixup_iclimb n s meth iidx w else Some (Inr c))
          else Some (Inr c))"

definition fixupInterfaceTable :: "nat \<Rightarrow> cid \<Rightarrow> mref \<Rightarrow> code \<Rightarrow> int \<Rightarrow> kworld \<Rightarrow> kworld result option" where
  "fixupInterfaceTable n c meth ncode iidx w =
     (if k_ITsize (cls w c) = 0 then Some (Inr w)
      else if iidx > int (k_ITsize (cls w c)) then Some (Inr w)
      else and_then (fixup_iclimb n c meth iidx w)
             (\<lambda>temp. fixup_interface_table n temp meth ncode iidx w))"

text \<open>
  The receiver type of a specialised translation: one class, or the two special values of
  \<^verbatim>\<open>translator/SpecializedMethod.h\<close>.
\<close>

datatype receiver = GeneralType | SpecialType | Receiver cid

definition fixupDtableItable :: "nat \<Rightarrow> mref \<Rightarrow> receiver \<Rightarrow> code \<Rightarrow> kworld \<Rightarrow> kworld result option" where
  "fixupDtableItable n meth type ncode w =
     (let m = method_at w meth in
      if type = SpecialType \<or> m_idx m < 0 then Some (Inr w)
      else case type of
        Receiver c \<Rightarrow>
          let w = (if mtab (cls w c) ! nat (m_idx m) = Some meth
                   then upd_class c (\<lambda>x. x\<lparr>dt_method := (dt_method x)[nat (m_idx m) := DCode ncode]\<rparr>) w
                   else w)
          in if k_ITsize (cls w c) > 0 \<and> m_iidx m \<noteq> - 1 then
               (case methods_at_offset (cls w c) (- m_iidx m) of
                  Inl e \<Rightarrow> Some (Inl e)
                | Inr r \<Rightarrow> if r = Some meth then Some (write_offset c (- m_iidx m) ncode w) else Some (Inr w))
             else Some (Inr w)
      | _ \<Rightarrow>
          (case fixupDispatchTable n (m_class m) meth ncode (nat (m_idx m)) w of
             None \<Rightarrow> None
           | Some w \<Rightarrow> fixupInterfaceTable n (m_class m) meth ncode (m_iidx m) w))"

section \<open>What lookup depends on\<close>

lemma cls_upd_class [simp]: "cls (upd_class c f w) d = (if d = c then f (cls w c) else cls w d)"
  by (simp add: upd_class_def)

lemma cls_upd_meth [simp]:
  "cls (upd_meth c k f w) d =
     (if d = c then (cls w c)\<lparr>k_methods := (k_methods (cls w c))[k := f (k_methods (cls w c) ! k)]\<rparr> else cls w d)"
  by (simp add: upd_meth_def upd_method_def)

definition mkey :: "jmeth \<Rightarrow> string \<times> string" where
  "mkey m = (m_name m, m_sig m)"

definition virtual :: "jmeth \<Rightarrow> bool" where
  "virtual m \<longleftrightarrow> \<not> (has_flag (m_acc m) ACC_STATIC \<or> m_name m = ''<init>'')"

text \<open>Two worlds with the same superclasses and the same methods, up to indices and code.\<close>

definition same_shape :: "kworld \<Rightarrow> kworld \<Rightarrow> bool" where
  "same_shape w w' \<longleftrightarrow> (\<forall>d. k_super (cls w' d) = k_super (cls w d) \<and>
     map (\<lambda>m. (mkey m, m_acc m)) (k_methods (cls w' d)) = map (\<lambda>m. (mkey m, m_acc m)) (k_methods (cls w d)))"

lemma same_shape_refl [simp]: "same_shape w w"
  by (simp add: same_shape_def)

lemma same_shape_trans: "same_shape w w' \<Longrightarrow> same_shape w' w'' \<Longrightarrow> same_shape w w''"
  by (simp add: same_shape_def)

lemma find_method_keys:
  "map (\<lambda>m. (mkey m, m_acc m)) ms = map (\<lambda>m. (mkey m, m_acc m)) ms' \<Longrightarrow>
     find_method ms k nm sg = find_method ms' k nm sg"
proof (induction ms arbitrary: ms' k)
  case Nil
  then show ?case by simp
next
  case (Cons m ms)
  then obtain m' ms'' where "ms' = m' # ms''" "mkey m = mkey m'"
    "map (\<lambda>m. (mkey m, m_acc m)) ms = map (\<lambda>m. (mkey m, m_acc m)) ms''" by (cases ms') auto
  with Cons.IH [of ms'' "Suc k"] show ?case by (simp add: mkey_def)
qed

lemma same_shape_local:
  "same_shape w w' \<Longrightarrow> findMethodLocal w' c nm sg = findMethodLocal w c nm sg"
  using find_method_keys [of "k_methods (cls w' c)" "k_methods (cls w c)"]
  by (simp add: same_shape_def findMethodLocal_def)

lemma same_shape_nearest: "same_shape w w' \<Longrightarrow> nearest w' cs nm sg = nearest w cs nm sg"
  by (induction cs) (simp_all add: same_shape_local split: option.splits)

lemma same_shape_chain: "super_chain w oc cs \<Longrightarrow> same_shape w w' \<Longrightarrow> super_chain w' oc cs"
  by (induction rule: super_chain.induct) (auto intro: super_chain.intros simp: same_shape_def)

lemma same_shape_length:
  assumes "same_shape w w'"
  shows "length (k_methods (cls w' c)) = length (k_methods (cls w c))"
proof -
  from assms have "map (\<lambda>m. (mkey m, m_acc m)) (k_methods (cls w' c)) = map (\<lambda>m. (mkey m, m_acc m)) (k_methods (cls w c))"
    by (simp add: same_shape_def)
  then show ?thesis by (rule map_eq_imp_length_eq)
qed

lemma same_shape_nth:
  assumes "same_shape w w'" and "k < length (k_methods (cls w c))"
  shows "mkey (k_methods (cls w' c) ! k) = mkey (k_methods (cls w c) ! k)"
    and "m_acc (k_methods (cls w' c) ! k) = m_acc (k_methods (cls w c) ! k)"
    and "virtual (k_methods (cls w' c) ! k) = virtual (k_methods (cls w c) ! k)"
proof -
  note len = same_shape_length [OF assms(1), of c]
  have "map (\<lambda>m. (mkey m, m_acc m)) (k_methods (cls w' c)) ! k
      = map (\<lambda>m. (mkey m, m_acc m)) (k_methods (cls w c)) ! k"
    using assms(1) by (simp add: same_shape_def)
  then show "mkey (k_methods (cls w' c) ! k) = mkey (k_methods (cls w c) ! k)"
    and acc: "m_acc (k_methods (cls w' c) ! k) = m_acc (k_methods (cls w c) ! k)"
    using assms(2) len by auto
  then show "virtual (k_methods (cls w' c) ! k) = virtual (k_methods (cls w c) ! k)"
    by (simp add: virtual_def mkey_def)
qed

lemma same_shape_upd_meth:
  assumes "\<And>m. mkey (f m) = mkey m \<and> m_acc (f m) = m_acc m"
  shows "same_shape w (upd_meth c k f w)"
proof -
  have "map (\<lambda>m. (mkey m, m_acc m)) ((k_methods (cls w c))[k := f (k_methods (cls w c) ! k)])
      = map (\<lambda>m. (mkey m, m_acc m)) (k_methods (cls w c))"
    using assms
    by (cases "k < length (k_methods (cls w c))") (simp_all add: map_update list_update_same_conv list_update_beyond)
  then show ?thesis by (simp add: same_shape_def)
qed

lemma nearest_Some:
  assumes "nearest w cs nm sg = Some r"
  shows "\<exists>d k. r = MRef d k \<and> d \<in> set cs \<and> k < length (k_methods (cls w d)) \<and>
           mkey (k_methods (cls w d) ! k) = (nm, sg)"
  using assms
proof (induction cs)
  case Nil
  then show ?case by simp
next
  case (Cons c cs)
  show ?case
  proof (cases "findMethodLocal w c nm sg")
    case None
    with Cons show ?thesis by auto
  next
    case (Some m)
    from findMethodLocal_Some [OF Some] obtain k where "m = MRef c k" "k < length (k_methods (cls w c))"
      "mkey (k_methods (cls w c) ! k) = (nm, sg)" by (auto simp: mkey_def)
    with Some Cons.prems show ?thesis by (intro exI [of _ c] exI [of _ k]) simp
  qed
qed

lemma nearest_None:
  "nearest w cs nm sg = None \<longleftrightarrow> (\<forall>d\<in>set cs. \<forall>m\<in>set (k_methods (cls w d)). mkey m \<noteq> (nm, sg))"
proof (induction cs)
  case Nil
  then show ?case by simp
next
  case (Cons c cs)
  have "findMethodLocal w c nm sg = None \<longleftrightarrow> (\<forall>m\<in>set (k_methods (cls w c)). mkey m \<noteq> (nm, sg))"
    by (simp add: findMethodLocal_def find_method_None mkey_def)
  with Cons show ?case by (cases "findMethodLocal w c nm sg") auto
qed

section \<open>The layout of a table\<close>

definition idx_ok :: "(string \<times> string) list \<Rightarrow> jmeth \<Rightarrow> bool" where
  "idx_ok ks m \<longleftrightarrow>
     (if virtual m then 0 \<le> m_idx m \<and> nat (m_idx m) < length ks \<and> ks ! nat (m_idx m) = mkey m
      else m_idx m = - 1)"

text \<open>
  \<open>vtable_ok w (c # cs) ks\<close>: the table of \<open>c\<close>, whose superclasses are \<open>cs\<close>, has one slot for each
  of the keys \<open>ks\<close>; every virtual method of the chain has the index of its key, and each slot
  points at the method of the nearest class.
\<close>

fun vtable_ok :: "kworld \<Rightarrow> cid list \<Rightarrow> (string \<times> string) list \<Rightarrow> bool" where
  "vtable_ok w [] ks \<longleftrightarrow> ks = []"
| "vtable_ok w (c # cs) ks \<longleftrightarrow>
     k_msize (cls w c) = length ks \<and> length (mtab (cls w c)) = length ks \<and> distinct ks \<and>
     (\<forall>d\<in>set (c # cs). \<forall>m\<in>set (k_methods (cls w d)). idx_ok ks m) \<and>
     (\<forall>i<length ks. \<exists>r. mtab (cls w c) ! i = Some r \<and> virtual (method_at w r) \<and>
        nearest w (c # cs) (fst (ks ! i)) (snd (ks ! i)) = Some r)"

lemma vtable_idx_ok:
  "vtable_ok w cs ks \<Longrightarrow> d \<in> set cs \<Longrightarrow> m \<in> set (k_methods (cls w d)) \<Longrightarrow> idx_ok ks m"
  by (cases cs) auto

lemma vtable_key:
  "vtable_ok w cs ks \<Longrightarrow> x \<in> set ks \<Longrightarrow> \<exists>r. nearest w cs (fst x) (snd x) = Some r \<and> virtual (method_at w r)"
  by (cases cs) (auto simp: in_set_conv_nth simp del: nearest.simps)

lemma vtable_distinct: "vtable_ok w cs ks \<Longrightarrow> distinct ks"
  by (cases cs) auto

section \<open>Assigning indices\<close>

text \<open>What a phase leaves alone in the other classes.\<close>

definition others :: "cid \<Rightarrow> kworld \<Rightarrow> kworld \<Rightarrow> bool" where
  "others c w w' \<longleftrightarrow> (\<forall>d. d \<noteq> c \<longrightarrow> k_methods (cls w' d) = k_methods (cls w d) \<and>
     mtab (cls w' d) = mtab (cls w d) \<and> k_msize (cls w' d) = k_msize (cls w d))"

lemma others_refl [simp]: "others c w w"
  by (simp add: others_def)

lemma others_trans: "others c w w' \<Longrightarrow> others c w' w'' \<Longrightarrow> others c w w''"
  by (simp add: others_def)

lemma others_upd [simp]: "others c w (upd_class c f w)" "others c w (upd_meth c k g w)"
  by (simp_all add: others_def)

lemma same_shape_upd_class:
  "k_super (f (cls w c)) = k_super (cls w c) \<Longrightarrow> k_methods (f (cls w c)) = k_methods (cls w c) \<Longrightarrow>
     same_shape w (upd_class c f w)"
  by (simp add: same_shape_def)

lemma idx_ok_cong:
  "(mkey m, m_acc m, m_idx m) = (mkey m', m_acc m', m_idx m') \<Longrightarrow> idx_ok ks m = idx_ok ks m'"
  by (simp add: idx_ok_def virtual_def mkey_def)

lemma idx_ok_all_cong:
  "map (\<lambda>m. (mkey m, m_acc m, m_idx m)) ms' = map (\<lambda>m. (mkey m, m_acc m, m_idx m)) ms \<Longrightarrow>
     (\<forall>m\<in>set ms'. idx_ok ks m) = (\<forall>m\<in>set ms. idx_ok ks m)"
proof (induction ms' arbitrary: ms)
  case Nil
  then show ?case by simp
next
  case (Cons m' ms')
  then obtain m ms'' where ms: "ms = m # ms''" "(mkey m', m_acc m', m_idx m') = (mkey m, m_acc m, m_idx m)"
    "map (\<lambda>m. (mkey m, m_acc m, m_idx m)) ms' = map (\<lambda>m. (mkey m, m_acc m, m_idx m)) ms''" by (cases ms) auto
  from idx_ok_cong [OF ms(2)] Cons.IH [OF ms(3)] ms(1) show ?case by simp
qed

lemma vtable_frame:
  assumes vt: "vtable_ok w cs ks" and sh: "same_shape w w'"
    and same: "\<And>d. d \<in> set cs \<Longrightarrow> mtab (cls w' d) = mtab (cls w d) \<and> k_msize (cls w' d) = k_msize (cls w d) \<and>
      map (\<lambda>m. (mkey m, m_acc m, m_idx m)) (k_methods (cls w' d))
        = map (\<lambda>m. (mkey m, m_acc m, m_idx m)) (k_methods (cls w d))"
  shows "vtable_ok w' cs ks"
proof (cases cs)
  case Nil
  with vt show ?thesis by simp
next
  case (Cons d ds)
  have virt: "virtual (method_at w' r) = virtual (method_at w r)"
    if "nearest w (d # ds) nm sg = Some r" for r nm sg
    using nearest_Some [OF that] same_shape_nth(3) [OF sh] by (auto simp: method_at_def)
  have meths: "(\<forall>m\<in>set (k_methods (cls w' e)). idx_ok ks m) = (\<forall>m\<in>set (k_methods (cls w e)). idx_ok ks m)"
    if "e \<in> set (d # ds)" for e
    using same [of e] that Cons by (intro idx_ok_all_cong) simp
  have all: "(\<forall>e\<in>set (d # ds). \<forall>m\<in>set (k_methods (cls w' e)). idx_ok ks m) \<longleftrightarrow>
      (\<forall>e\<in>set (d # ds). \<forall>m\<in>set (k_methods (cls w e)). idx_ok ks m)"
    by (rule ball_cong [OF refl meths])
  have d: "mtab (cls w' d) = mtab (cls w d)" "k_msize (cls w' d) = k_msize (cls w d)"
    using same [of d] by (simp_all add: Cons)
  show ?thesis
    using vt virt unfolding Cons vtable_ok.simps same_shape_nearest [OF sh] all d by metis
qed

lemma max_ITsize_frame:
  "same_shape w (max_ITsize c w) \<and> others c w (max_ITsize c w) \<and>
   k_methods (cls (max_ITsize c w) c) = k_methods (cls w c) \<and> k_super (cls (max_ITsize c w) c) = k_super (cls w c)
   \<and> k_acc (cls (max_ITsize c w) c) = k_acc (cls w c)"
proof -
  have "same_shape w w' \<and> others c w w' \<and> k_methods (cls w' c) = k_methods (cls w c) \<and>
      k_super (cls w' c) = k_super (cls w c) \<and> k_acc (cls w' c) = k_acc (cls w c)"
    if "w' = fold (\<lambda>i w. if k_ITsize (cls w c) < k_ITsize (cls w i)
                 then upd_class c (\<lambda>x. x\<lparr>k_ITsize := k_ITsize (cls w i)\<rparr>) w else w) is w" for "is" w'
    unfolding that
    by (rule fold_invariant) (auto simp: same_shape_def others_def)
  then show ?thesis unfolding max_ITsize_def by blast
qed

lemma link_subclass_frame:
  fixes c w
  defines "w1 \<equiv> link_subclass c (inherit_sizes c w)"
  assumes "k_super (cls w c) \<noteq> Some c"
  shows "same_shape w w1" and "others c w w1" and "k_methods (cls w1 c) = k_methods (cls w c)"
    and "k_super (cls w1 c) = k_super (cls w c)" and "k_acc (cls w1 c) = k_acc (cls w c)"
    and "k_msize (cls w1 c) = (case k_super (cls w c) of None \<Rightarrow> 0 | Some s \<Rightarrow> k_msize (cls w s))"
proof -
  let ?w0 = "case k_super (cls w c) of None \<Rightarrow> w | Some s \<Rightarrow> upd_class c (\<lambda>x. x\<lparr>k_ITsize := k_ITsize (cls w s)\<rparr>) w"
  have 0: "same_shape w ?w0" "others c w ?w0" "k_methods (cls ?w0 c) = k_methods (cls w c)"
    "k_super (cls ?w0 c) = k_super (cls w c)" "k_acc (cls ?w0 c) = k_acc (cls w c)"
    by (auto simp: same_shape_def others_def split: option.splits)
  note m = max_ITsize_frame [of ?w0 c]
  let ?wi = "inherit_sizes c w"
  have wi: "?wi = max_ITsize c ?w0" by (simp add: inherit_sizes_def)
  have i: "same_shape w ?wi" "others c w ?wi" "k_methods (cls ?wi c) = k_methods (cls w c)"
    "k_super (cls ?wi c) = k_super (cls w c)" "k_acc (cls ?wi c) = k_acc (cls w c)"
    using 0 m by (auto simp: wi intro: same_shape_trans others_trans)
  have l: "same_shape ?wi w1" "others c ?wi w1" "k_methods (cls w1 c) = k_methods (cls ?wi c)"
    "k_super (cls w1 c) = k_super (cls ?wi c)" "k_acc (cls w1 c) = k_acc (cls ?wi c)"
    "k_msize (cls w1 c) = (case k_super (cls w c) of None \<Rightarrow> 0 | Some s \<Rightarrow> k_msize (cls ?wi s))"
    using assms(2) i(4)
    by (auto simp: w1_def link_subclass_def Let_def same_shape_def others_def split: option.splits)
  have "k_msize (cls ?wi s) = k_msize (cls w s)" if "k_super (cls w c) = Some s" for s
    using i(2) assms(2) that by (auto simp: others_def)
  with i l show "same_shape w w1" "others c w w1" "k_methods (cls w1 c) = k_methods (cls w c)"
    "k_super (cls w1 c) = k_super (cls w c)" "k_acc (cls w1 c) = k_acc (cls w c)"
    "k_msize (cls w1 c) = (case k_super (cls w c) of None \<Rightarrow> 0 | Some s \<Rightarrow> k_msize (cls w s))"
    by (auto intro: same_shape_trans others_trans split: option.splits)
qed

text \<open>
  A class does not declare a static method with the name and signature of an instance method of
  a superclass, or the converse.
\<close>

definition no_clash :: "kworld \<Rightarrow> cid \<Rightarrow> cid list \<Rightarrow> bool" where
  "no_clash w c cs \<longleftrightarrow> (\<forall>m\<in>set (k_methods (cls w c)). \<forall>d\<in>set cs. \<forall>m'\<in>set (k_methods (cls w d)).
     mkey m = mkey m' \<longrightarrow> virtual m = virtual m')"

text \<open>The loop over the methods: after the first \<open>k\<close>, \<open>new\<close> are the keys that got a new slot.\<close>

definition assigned :: "kworld \<Rightarrow> cid \<Rightarrow> (string \<times> string) list \<Rightarrow> nat \<Rightarrow> kworld \<Rightarrow> (string \<times> string) list \<Rightarrow> bool" where
  "assigned w1 c ks k w new \<longleftrightarrow>
     same_shape w1 w \<and> others c w1 w \<and> k_msize (cls w c) = length (ks @ new) \<and> distinct (ks @ new) \<and>
     (\<forall>j<k. idx_ok (ks @ new) (k_methods (cls w c) ! j)) \<and>
     (\<forall>x\<in>set new. \<exists>j<k. mkey (k_methods (cls w1 c) ! j) = x \<and> virtual (k_methods (cls w1 c) ! j))"

lemma idx_ok_append: "idx_ok ks m \<Longrightarrow> idx_ok (ks @ new) m"
  by (auto simp: idx_ok_def nth_append)

lemma assigned_step:
  assumes inv: "assigned w1 c ks k w new" and k: "k < length (k_methods (cls w1 c))"
    and chain: "super_chain w1 (k_super (cls w1 c)) cs" and fuel: "length cs \<le> n" and c: "c \<notin> set cs"
    and vt: "vtable_ok w1 cs ks"
    and dist: "distinct (map mkey (k_methods (cls w1 c)))"
    and clash: "no_clash w1 c cs"
  shows "\<exists>w' new'. assign_idx n c k w = Some (Inr w') \<and> assigned w1 c ks (Suc k) w' new'"
proof -
  let ?m = "k_methods (cls w c) ! k" and ?m1 = "k_methods (cls w1 c) ! k"
  have sh: "same_shape w1 w" and ot: "others c w1 w" and ms: "k_msize (cls w c) = length (ks @ new)"
    and ds: "distinct (ks @ new)" and past: "\<And>j. j < k \<Longrightarrow> idx_ok (ks @ new) (k_methods (cls w c) ! j)"
    and new: "\<And>x. x \<in> set new \<Longrightarrow> \<exists>j<k. mkey (k_methods (cls w1 c) ! j) = x \<and> virtual (k_methods (cls w1 c) ! j)"
    using inv by (auto simp: assigned_def)
  have k': "k < length (k_methods (cls w c))" using k same_shape_length [OF sh] by simp
  note key = same_shape_nth [OF sh k]
  have m1: "?m1 \<in> set (k_methods (cls w1 c))" using k by simp
  have loop: "findMethod_loop n w (k_super (cls w c)) (m_name ?m) (m_sig ?m)
      = Some (nearest w1 cs (m_name ?m1) (m_sig ?m1))"
  proof -
    have "k_super (cls w c) = k_super (cls w1 c)" using sh by (simp add: same_shape_def)
    with findMethod_loop_nearest [OF same_shape_chain [OF chain sh] fuel] key(1) show ?thesis
      by (simp add: same_shape_nearest [OF sh] mkey_def)
  qed
  have upd: "same_shape w1 (upd_meth c k (\<lambda>m. m\<lparr>m_idx := i\<rparr>) w)" for i
    using sh same_shape_upd_meth [of "\<lambda>m. m\<lparr>m_idx := i\<rparr>" w c k] by (auto simp: mkey_def intro: same_shape_trans)
  have set_idx: "assigned w1 c ks (Suc k) (upd_meth c k (\<lambda>m. m\<lparr>m_idx := i\<rparr>) w) new"
    if "idx_ok (ks @ new) (?m\<lparr>m_idx := i\<rparr>)" for i
  proof -
    have "\<exists>j<Suc k. mkey (k_methods (cls w1 c) ! j) = x \<and> virtual (k_methods (cls w1 c) ! j)"
      if "x \<in> set new" for x using new [OF that] less_SucI by blast
    then show ?thesis
      using upd [of i] ot ms ds past that k' unfolding assigned_def
      by (simp add: others_def less_Suc_eq nth_list_update)
  qed
  show ?thesis
  proof (cases "virtual ?m")
    case False
    then have "idx_ok (ks @ new) (?m\<lparr>m_idx := - 1\<rparr>)" by (auto simp: idx_ok_def virtual_def)
    from set_idx [OF this] False show ?thesis by (auto simp: assign_idx_def virtual_def)
  next
    case True
    note v = True
    show ?thesis
    proof (cases "nearest w1 cs (m_name ?m1) (m_sig ?m1)")
      case None
      let ?new = "new @ [mkey ?m1]"
      let ?w' = "upd_class c (\<lambda>x. x\<lparr>k_msize := k_msize x + 1\<rparr>)
          (upd_meth c k (\<lambda>m. m\<lparr>m_idx := int (k_msize (cls w c))\<rparr>) w)"
      have "mkey ?m1 \<notin> set ks"
        using vtable_key [OF vt, of "mkey ?m1"] None by (auto simp: mkey_def)
      moreover have "mkey ?m1 \<notin> set new"
      proof
        assume "mkey ?m1 \<in> set new"
        from new [OF this] obtain j where "j < k" "mkey (k_methods (cls w1 c) ! j) = mkey ?m1" by blast
        with dist k show False by (auto simp: distinct_conv_nth)
      qed
      ultimately have "distinct (ks @ ?new)" using ds by auto
      moreover have "idx_ok (ks @ ?new) (?m\<lparr>m_idx := int (k_msize (cls w c))\<rparr>)"
      proof -
        have "(ks @ ?new) ! k_msize (cls w c) = mkey ?m1" unfolding ms by (metis append.assoc nth_append_length)
        moreover have "k_msize (cls w c) < length (ks @ ?new)" by (simp add: ms)
        ultimately show ?thesis using v key(1) by (auto simp: idx_ok_def virtual_def mkey_def)
      qed
      moreover have "idx_ok (ks @ ?new) (k_methods (cls w c) ! j)" if "j < k" for j
        using idx_ok_append [OF past [OF that], of "[mkey ?m1]"] by simp
      moreover have "\<exists>j<Suc k. mkey (k_methods (cls w1 c) ! j) = x \<and> virtual (k_methods (cls w1 c) ! j)"
        if "x \<in> set ?new" for x
        using that new [of x] v key(3) by (auto simp: less_Suc_eq)
      moreover have "same_shape w1 ?w'"
        by (rule same_shape_trans [OF upd same_shape_upd_class]) simp_all
      moreover have "others c w1 ?w'" using ot by (simp add: others_def)
      ultimately have "assigned w1 c ks (Suc k) ?w' ?new"
        using ms k' unfolding assigned_def by (simp add: less_Suc_eq nth_list_update)
      with loop None v show ?thesis by (auto simp: assign_idx_def virtual_def)
    next
      case (Some r)
      from nearest_Some [OF Some] obtain d j where r: "r = MRef d j" "d \<in> set cs"
        "j < length (k_methods (cls w1 d))" "mkey (k_methods (cls w1 d) ! j) = mkey ?m1"
        by (auto simp: mkey_def)
      have dm: "k_methods (cls w1 d) ! j \<in> set (k_methods (cls w1 d))" using r by simp
      have "virtual (k_methods (cls w1 d) ! j)" using clash m1 r(2) dm r(4) v key(3) by (auto simp: no_clash_def)
      with vtable_idx_ok [OF vt r(2) dm] r(4) key(1)
      have "idx_ok (ks @ new) (?m\<lparr>m_idx := m_idx (k_methods (cls w1 d) ! j)\<rparr>)"
        using v by (auto simp: idx_ok_def virtual_def mkey_def nth_append)
      moreover have "method_at w r = k_methods (cls w1 d) ! j"
        using ot r c by (auto simp: method_at_def others_def)
      ultimately show ?thesis using set_idx loop Some v by (auto simp: assign_idx_def virtual_def)
    qed
  qed
qed

lemma assigned_all:
  assumes chain: "super_chain w1 (k_super (cls w1 c)) cs" and fuel: "length cs \<le> n" and c: "c \<notin> set cs"
    and vt: "vtable_ok w1 cs ks" and sz: "k_msize (cls w1 c) = length ks"
    and dist: "distinct (map mkey (k_methods (cls w1 c)))"
    and clash: "no_clash w1 c cs"
  shows "k \<le> length (k_methods (cls w1 c)) \<Longrightarrow>
    \<exists>w new. each (assign_idx n c) [0..<k] w1 = Some (Inr w) \<and> assigned w1 c ks k w new"
proof (induction k)
  case 0
  then show ?case using vtable_distinct [OF vt] sz by (auto simp: assigned_def intro!: exI [of _ "[]"])
next
  case (Suc k)
  then obtain w new where w: "each (assign_idx n c) [0..<k] w1 = Some (Inr w)" "assigned w1 c ks k w new" by auto
  have k: "k < length (k_methods (cls w1 c))" using Suc.prems by simp
  from assigned_step [OF w(2) k chain fuel c vt dist clash] obtain w' new' where
    "assign_idx n c k w = Some (Inr w')" "assigned w1 c ks (Suc k) w' new'" by blast
  with w(1) show ?case by (auto simp: each_append)
qed

section \<open>Filling the table\<close>

definition same_meths :: "kworld \<Rightarrow> kworld \<Rightarrow> bool" where
  "same_meths w w' \<longleftrightarrow> (\<forall>d. k_super (cls w' d) = k_super (cls w d) \<and>
     map (\<lambda>m. (mkey m, m_acc m, m_idx m)) (k_methods (cls w' d))
       = map (\<lambda>m. (mkey m, m_acc m, m_idx m)) (k_methods (cls w d)))"

lemma same_meths_refl [simp]: "same_meths w w"
  by (simp add: same_meths_def)

lemma same_meths_trans: "same_meths w w' \<Longrightarrow> same_meths w' w'' \<Longrightarrow> same_meths w w''"
  by (simp add: same_meths_def)

lemma same_meths_shape:
  assumes "same_meths w w'"
  shows "same_shape w w'"
proof -
  have "map (\<lambda>m. (mkey m, m_acc m)) ms = map (\<lambda>x. (fst x, fst (snd x))) (map (\<lambda>m. (mkey m, m_acc m, m_idx m)) ms)" for ms
    by simp
  with assms show ?thesis by (simp only: same_meths_def same_shape_def simp_thms)
qed

lemma same_meths_idx:
  assumes "same_meths w w'" and "k < length (k_methods (cls w d))"
  shows "m_idx (k_methods (cls w' d) ! k) = m_idx (k_methods (cls w d) ! k)"
proof -
  have "map (\<lambda>m. (mkey m, m_acc m, m_idx m)) (k_methods (cls w' d)) ! k
      = map (\<lambda>m. (mkey m, m_acc m, m_idx m)) (k_methods (cls w d)) ! k"
    using assms(1) by (simp add: same_meths_def)
  with assms(2) same_shape_length [OF same_meths_shape [OF assms(1)], of d] show ?thesis by simp
qed

lemma same_meths_upd_class:
  "k_super (f (cls w c)) = k_super (cls w c) \<Longrightarrow> k_methods (f (cls w c)) = k_methods (cls w c) \<Longrightarrow>
     same_meths w (upd_class c f w)"
  by (simp add: same_meths_def)

lemma trampoline_meths:
  fixes d k w
  defines "w' \<equiv> new_trampoline (MRef d k) w"
  shows "same_meths w w'" and "mtab (cls w' e) = mtab (cls w e)" and "k_msize (cls w' e) = k_msize (cls w e)"
    and "dt_method (cls w' e) = dt_method (cls w e)" and "k_acc (cls w' e) = k_acc (cls w e)"
proof -
  let ?ms = "k_methods (cls w d)"
  have "map (\<lambda>m. (mkey m, m_acc m, m_idx m)) (?ms[k := (?ms ! k)\<lparr>m_ncode := Some (Tramp (next_tramp w))\<rparr>])
      = map (\<lambda>m. (mkey m, m_acc m, m_idx m)) ?ms"
    by (cases "k < length ?ms") (simp_all add: map_update list_update_same_conv list_update_beyond mkey_def)
  then show "same_meths w w'" by (simp add: same_meths_def w'_def new_trampoline_def upd_method_def)
qed (simp_all add: w'_def new_trampoline_def upd_method_def)

text \<open>Allocation and the copy of the superclass's slots.\<close>

lemma upd_class_cong: "f (cls w c) = g (cls w c) \<Longrightarrow> upd_class c f w = upd_class c g w"
  by (simp add: upd_class_def)

lemma upd_class_twice: "upd_class c f (upd_class c g w) = upd_class c (\<lambda>x. f (g x)) w"
  by (simp add: upd_class_def)

lemma inherit_fold:
  assumes "s \<noteq> c" and "m \<le> length (mtab (cls w c))" and "m \<le> length (mtab (cls w s))"
  shows "fold (\<lambda>i w. upd_class c (\<lambda>x. x\<lparr>mtab := (mtab x)[i := mtab (cls w s) ! i]\<rparr>) w) [0..<m] w
     = upd_class c (\<lambda>x. x\<lparr>mtab := take m (mtab (cls w s)) @ drop m (mtab x)\<rparr>) w"
  using assms(2,3)
proof (induction m)
  case 0
  then show ?case by (simp add: upd_class_def)
next
  case (Suc m)
  have "drop m (mtab (cls w c)) = mtab (cls w c) ! m # drop (Suc m) (mtab (cls w c))"
    using Suc.prems by (simp add: Cons_nth_drop_Suc)
  then have "(take m (mtab (cls w s)) @ drop m (mtab (cls w c)))[m := mtab (cls w s) ! m]
      = take (Suc m) (mtab (cls w s)) @ drop (Suc m) (mtab (cls w c))"
    using Suc.prems by (simp add: list_update_append take_Suc_conv_app_nth)
  with Suc assms(1) show ?case by (simp add: upd_class_twice) (rule upd_class_cong, simp)
qed

lemma prepared_tables:
  fixes c w
  assumes "k_super (cls w c) \<noteq> Some c"
    and "\<forall>s. k_super (cls w c) = Some s \<longrightarrow> k_msize (cls w s) = length (mtab (cls w s)) \<and> k_msize (cls w s) \<le> k_msize (cls w c)"
  defines "w3 \<equiv> inherit_methods c (alloc_tables c w)"
  shows "same_meths w w3" and "others c w w3" and "k_methods (cls w3 c) = k_methods (cls w c)"
    and "k_msize (cls w3 c) = k_msize (cls w c)" and "length (dt_method (cls w3 c)) = k_msize (cls w c)"
    and "mtab (cls w3 c) = (case k_super (cls w c) of None \<Rightarrow> replicate (k_msize (cls w c)) None
          | Some s \<Rightarrow> mtab (cls w s) @ replicate (k_msize (cls w c) - k_msize (cls w s)) None)"
proof -
  have w3: "w3 = (case k_super (cls w c) of None \<Rightarrow> alloc_tables c w
      | Some s \<Rightarrow> upd_class c (\<lambda>x. x\<lparr>mtab := mtab (cls w s) @ replicate (k_msize (cls w c) - k_msize (cls w s)) None\<rparr>)
                    (alloc_tables c w))"
  proof (cases "k_super (cls w c)")
    case None
    then show ?thesis by (simp add: w3_def inherit_methods_def alloc_tables_def)
  next
    case (Some s)
    then have ne: "s \<noteq> c" using assms(1) by auto
    have "k_msize (cls w s) = length (mtab (cls w s))" "k_msize (cls w s) \<le> k_msize (cls w c)"
      using assms(2) Some by auto
    with Some ne inherit_fold [of s c "k_msize (cls w s)" "alloc_tables c w"] show ?thesis
      by (simp add: w3_def inherit_methods_def alloc_tables_def) (rule upd_class_cong, simp)
  qed
  then show "same_meths w w3" "others c w w3" "k_methods (cls w3 c) = k_methods (cls w c)"
    "k_msize (cls w3 c) = k_msize (cls w c)" "length (dt_method (cls w3 c)) = k_msize (cls w c)"
    "mtab (cls w3 c) = (case k_super (cls w c) of None \<Rightarrow> replicate (k_msize (cls w c)) None
          | Some s \<Rightarrow> mtab (cls w s) @ replicate (k_msize (cls w c) - k_msize (cls w s)) None)"
    by (auto simp: alloc_tables_def same_meths_def others_def split: option.splits)
qed

text \<open>Installing the class's own methods over the inherited ones.\<close>

definition installed :: "kworld \<Rightarrow> cid \<Rightarrow> nat \<Rightarrow> kworld \<Rightarrow> bool" where
  "installed w3 c k w \<longleftrightarrow> same_meths w3 w \<and>
     (\<forall>d. k_msize (cls w d) = k_msize (cls w3 d) \<and> dt_method (cls w d) = dt_method (cls w3 d) \<and>
          k_acc (cls w d) = k_acc (cls w3 d)) \<and>
     (\<forall>d. d \<noteq> c \<longrightarrow> mtab (cls w d) = mtab (cls w3 d)) \<and>
     length (mtab (cls w c)) = length (mtab (cls w3 c)) \<and>
     (\<forall>j<k. 0 \<le> m_idx (k_methods (cls w3 c) ! j) \<longrightarrow>
        mtab (cls w c) ! nat (m_idx (k_methods (cls w3 c) ! j)) = Some (MRef c j)) \<and>
     (\<forall>i. (\<forall>j<k. m_idx (k_methods (cls w3 c) ! j) \<noteq> int i) \<longrightarrow> mtab (cls w c) ! i = mtab (cls w3 c) ! i)"

lemma installed_step:
  assumes inv: "installed w3 c k w" and k: "k < length (k_methods (cls w3 c))"
    and range: "nat (m_idx (k_methods (cls w3 c) ! k)) < length (mtab (cls w3 c)) \<or> m_idx (k_methods (cls w3 c) ! k) < 0"
    and inj: "\<And>j. j < k \<Longrightarrow> 0 \<le> m_idx (k_methods (cls w3 c) ! j) \<Longrightarrow>
        m_idx (k_methods (cls w3 c) ! j) \<noteq> m_idx (k_methods (cls w3 c) ! k)"
  shows "\<exists>w'. install_method c k w = Some (Inr w') \<and> installed w3 c (Suc k) w'"
proof -
  let ?i = "m_idx (k_methods (cls w3 c) ! k)"
  have sm: "same_meths w3 w" using inv by (simp add: installed_def)
  have idx: "m_idx (k_methods (cls w c) ! k) = ?i" by (rule same_meths_idx [OF sm k])
  show ?thesis
  proof (cases "?i \<ge> 0")
    case True
    then have lt: "nat ?i < length (mtab (cls w c))" using range inv by (simp add: installed_def)
    let ?w = "upd_class c (\<lambda>x. x\<lparr>mtab := (mtab x)[nat ?i := Some (MRef c k)]\<rparr>) w"
    have "same_meths w3 ?w" by (rule same_meths_trans [OF sm same_meths_upd_class]) simp_all
    moreover have "mtab (cls ?w c) ! nat (m_idx (k_methods (cls w3 c) ! j)) = Some (MRef c j)"
      if "j < Suc k" "0 \<le> m_idx (k_methods (cls w3 c) ! j)" for j
    proof (cases "j = k")
      case False
      with that have "j < k" by simp
      with inj [OF this that(2)] that inv True show ?thesis
        by (simp add: installed_def nth_list_update)
    qed (use lt in simp)
    moreover have "mtab (cls ?w c) ! i = mtab (cls w3 c) ! i"
      if "\<forall>j<Suc k. m_idx (k_methods (cls w3 c) ! j) \<noteq> int i" for i
    proof -
      have "i \<noteq> nat ?i" using that True by auto
      with that inv show ?thesis by (simp add: installed_def)
    qed
    ultimately have "installed w3 c (Suc k) ?w" using inv by (simp add: installed_def)
    with True lt idx show ?thesis by (auto simp: install_method_def)
  next
    case False
    let ?w = "new_trampoline (MRef c k) w"
    note t = trampoline_meths [where w = w and d = c and k = k]
    have "installed w3 c (Suc k) ?w"
      using inv t False same_meths_trans [OF sm t(1)] by (auto simp: installed_def less_Suc_eq)
    with False idx show ?thesis by (auto simp: install_method_def)
  qed
qed

lemma installed_all:
  assumes "\<And>k. k < length (k_methods (cls w3 c)) \<Longrightarrow>
      nat (m_idx (k_methods (cls w3 c) ! k)) < length (mtab (cls w3 c)) \<or> m_idx (k_methods (cls w3 c) ! k) < 0"
    and "\<And>j k. j < k \<Longrightarrow> k < length (k_methods (cls w3 c)) \<Longrightarrow> 0 \<le> m_idx (k_methods (cls w3 c) ! j) \<Longrightarrow>
      m_idx (k_methods (cls w3 c) ! j) \<noteq> m_idx (k_methods (cls w3 c) ! k)"
  shows "k \<le> length (k_methods (cls w3 c)) \<Longrightarrow>
    \<exists>w. each (install_method c) [0..<k] w3 = Some (Inr w) \<and> installed w3 c k w"
proof (induction k)
  case 0
  then show ?case by (simp add: installed_def)
next
  case (Suc k)
  then obtain w where w: "each (install_method c) [0..<k] w3 = Some (Inr w)" "installed w3 c k w" by auto
  have k: "k < length (k_methods (cls w3 c))" using Suc.prems by simp
  from installed_step [OF w(2) k assms(1) [OF k] assms(2) [OF _ k]] obtain w' where
    "install_method c k w = Some (Inr w')" "installed w3 c (Suc k) w'" by blast
  with w(1) show ?case by (auto simp: each_append)
qed

definition filled :: "kworld \<Rightarrow> cid \<Rightarrow> nat \<Rightarrow> kworld \<Rightarrow> bool" where
  "filled w4 c k w \<longleftrightarrow> same_meths w4 w \<and>
     (\<forall>d. mtab (cls w d) = mtab (cls w4 d) \<and> k_msize (cls w d) = k_msize (cls w4 d)) \<and>
     length (dt_method (cls w c)) = length (dt_method (cls w4 c)) \<and>
     (\<forall>i<k. dt_method (cls w c) ! i \<noteq> DNull)"

lemma filled_step:
  assumes inv: "filled w4 c k w" and k: "k < length (dt_method (cls w4 c))" and m: "mtab (cls w4 c) ! k = Some (MRef d j)"
  shows "\<exists>w'. fill_slot c k w = Some (Inr w') \<and> filled w4 c (Suc k) w'"
proof -
  define v where "v = (if m_ncode (method_at w (MRef d j)) \<noteq> None then w else new_trampoline (MRef d j) w)"
  note t = trampoline_meths [where w = w and d = d and k = j]
  have v: "filled w4 c k v"
    using inv t same_meths_trans [of w4 w] by (auto simp: v_def filled_def)
  let ?w = "upd_class c (\<lambda>x. x\<lparr>dt_method := (dt_method x)[k := DCode (the (m_ncode (method_at v (MRef d j))))]\<rparr>) v"
  have "same_meths w4 ?w"
    using v by (auto simp: filled_def intro!: same_meths_trans [OF _ same_meths_upd_class])
  then have "filled w4 c (Suc k) ?w"
    using v k by (auto simp: filled_def less_Suc_eq nth_list_update)
  moreover have "fill_slot c k w = Some (Inr ?w)"
    using inv m by (simp add: fill_slot_def filled_def v_def Let_def)
  ultimately show ?thesis by blast
qed

lemma filled_all:
  assumes "\<And>i. i < k_msize (cls w4 c) \<Longrightarrow> \<exists>d j. mtab (cls w4 c) ! i = Some (MRef d j)"
    and "length (dt_method (cls w4 c)) = k_msize (cls w4 c)"
  shows "k \<le> k_msize (cls w4 c) \<Longrightarrow> \<exists>w. each (fill_slot c) [0..<k] w4 = Some (Inr w) \<and> filled w4 c k w"
proof (induction k)
  case 0
  then show ?case by (simp add: filled_def)
next
  case (Suc k)
  then obtain w where w: "each (fill_slot c) [0..<k] w4 = Some (Inr w)" "filled w4 c k w" by auto
  have k: "k < k_msize (cls w4 c)" using Suc.prems by simp
  then obtain d j where "mtab (cls w4 c) ! k = Some (MRef d j)" using assms(1) by blast
  from filled_step [OF w(2) _ this] k assms(2) obtain w' where
    "fill_slot c k w = Some (Inr w')" "filled w4 c (Suc k) w'" by auto
  with w(1) show ?case by (auto simp: each_append)
qed

section \<open>The whole construction\<close>

lemma find_method_unique:
  assumes "distinct (map mkey ms)" and "j < length ms"
  shows "find_method ms 0 (m_name (ms ! j)) (m_sig (ms ! j)) = Some j"
proof -
  obtain i where i: "find_method ms 0 (m_name (ms ! j)) (m_sig (ms ! j)) = Some i"
    using assms(2) find_method_None [of ms 0 "m_name (ms ! j)" "m_sig (ms ! j)"] by auto
  from find_method_Some [OF this] have "i < length ms" "mkey (ms ! i) = mkey (ms ! j)" by (auto simp: mkey_def)
  with assms have "i = j" by (auto simp: distinct_conv_nth)
  with i show ?thesis by simp
qed

text \<open>The slots after installation are those of the nearest methods.\<close>

lemma installed_slots:
  assumes inst: "installed w3 c (length (k_methods (cls w3 c))) w"
    and ok: "\<And>m. m \<in> set (k_methods (cls w3 c)) \<Longrightarrow> idx_ok (ks @ new) m"
    and dist: "distinct (map mkey (k_methods (cls w3 c)))" "distinct (ks @ new)"
    and clash: "no_clash w3 c cs" and vt: "vtable_ok w3 cs ks"
    and base: "\<And>i. i < length ks \<Longrightarrow> mtab (cls w3 c) ! i = nearest w3 cs (fst (ks ! i)) (snd (ks ! i))"
    and new: "\<And>x. x \<in> set new \<Longrightarrow> \<exists>m\<in>set (k_methods (cls w3 c)). mkey m = x \<and> virtual m"
    and i: "i < length (ks @ new)"
  shows "\<exists>r. mtab (cls w c) ! i = Some r \<and> virtual (method_at w3 r) \<and>
    nearest w3 (c # cs) (fst ((ks @ new) ! i)) (snd ((ks @ new) ! i)) = Some r"
proof -
  let ?ms = "k_methods (cls w3 c)" and ?key = "(ks @ new) ! i"
  have key_new: "?key \<in> set ks \<or> ?key \<in> set new" using nth_mem [OF i] by auto
  show ?thesis
  proof (cases "\<exists>j<length ?ms. mkey (?ms ! j) = ?key")
    case True
    then obtain j where j: "j < length ?ms" "mkey (?ms ! j) = ?key" by blast
    have mem: "?ms ! j \<in> set ?ms" using j by simp
    have v: "virtual (?ms ! j)"
    proof (cases "?key \<in> set ks")
      case True
      from vtable_key [OF vt True] obtain r where r: "nearest w3 cs (fst ?key) (snd ?key) = Some r"
        "virtual (method_at w3 r)" by blast
      from nearest_Some [OF r(1)] obtain d k where "r = MRef d k" "d \<in> set cs"
        "k < length (k_methods (cls w3 d))" "mkey (k_methods (cls w3 d) ! k) = ?key" by auto
      with r(2) clash mem j(2) show ?thesis
        unfolding no_clash_def by (metis method_at_def mref.simps(5) nth_mem)
    next
      case False
      with key_new new obtain m where "m \<in> set ?ms" "mkey m = ?key" "virtual m" by blast
      then show ?thesis using j dist(1) by (metis distinct_map inj_on_eq_iff mem)
    qed
    with ok [OF mem] have idx: "0 \<le> m_idx (?ms ! j)" "nat (m_idx (?ms ! j)) < length (ks @ new)"
      "(ks @ new) ! nat (m_idx (?ms ! j)) = ?key" using j(2) by (auto simp: idx_ok_def)
    then have "nat (m_idx (?ms ! j)) = i" using dist(2) i by (metis nth_eq_iff_index_eq)
    then have "mtab (cls w c) ! i = Some (MRef c j)" using inst j(1) idx(1) by (auto simp: installed_def)
    moreover have "findMethodLocal w3 c (fst ?key) (snd ?key) = Some (MRef c j)"
      using find_method_unique [OF dist(1) j(1)] j(2) by (simp add: findMethodLocal_def mkey_def flip: j(2))
    ultimately show ?thesis using v by (simp add: method_at_def)
  next
    case False
    then have none: "findMethodLocal w3 c (fst ?key) (snd ?key) = None"
      by (auto simp: findMethodLocal_def find_method_None mkey_def in_set_conv_nth prod_eq_iff)
    have "?key \<notin> set new" using new False by (metis in_set_conv_nth)
    then have "i < length ks" using i by (metis nth_append nth_mem less_diff_conv2 add_diff_inverse_nat length_append not_less add.commute)
    then have key: "?key = ks ! i" by (simp add: nth_append)
    have "m_idx (?ms ! j) \<noteq> int i" if j: "j < length ?ms" for j
    proof
      assume idx: "m_idx (?ms ! j) = int i"
      have "idx_ok (ks @ new) (?ms ! j)" using ok j by simp
      with idx have "?key = mkey (?ms ! j)" by (simp add: idx_ok_def split: if_splits)
      with False j show False by metis
    qed
    then have "mtab (cls w c) ! i = nearest w3 cs (fst ?key) (snd ?key)"
      using inst base [OF \<open>i < length ks\<close>] key by (auto simp: installed_def)
    with none vtable_key [OF vt, of ?key] key \<open>i < length ks\<close> show ?thesis by auto
  qed
qed

lemma others_vtable:
  assumes "vtable_ok w cs ks" and "others c w w'" and "same_shape w w'" and "c \<notin> set cs"
  shows "vtable_ok w' cs ks"
proof (rule vtable_frame [OF assms(1,3)])
  fix d assume "d \<in> set cs"
  with assms(4) have "d \<noteq> c" by auto
  with assms(2) show "mtab (cls w' d) = mtab (cls w d) \<and> k_msize (cls w' d) = k_msize (cls w d) \<and>
      map (\<lambda>m. (mkey m, m_acc m, m_idx m)) (k_methods (cls w' d))
        = map (\<lambda>m. (mkey m, m_acc m, m_idx m)) (k_methods (cls w d))" by (simp add: others_def)
qed

lemma same_meths_vtable:
  assumes "vtable_ok w cs ks" and "same_meths w w'"
    and "\<And>d. d \<in> set cs \<Longrightarrow> mtab (cls w' d) = mtab (cls w d) \<and> k_msize (cls w' d) = k_msize (cls w d)"
  shows "vtable_ok w' cs ks"
  using vtable_frame [OF assms(1) same_meths_shape [OF assms(2)]] assms(2,3) by (simp add: same_meths_def)

lemma same_shape_keys:
  assumes "same_shape w w'"
  shows "map mkey (k_methods (cls w' c)) = map mkey (k_methods (cls w c))"
proof -
  have "map mkey ms = map fst (map (\<lambda>m. (mkey m, m_acc m)) ms)" for ms by simp
  with assms show ?thesis by (simp only: same_shape_def)
qed

lemma no_clash_shape:
  assumes "no_clash w c cs" and "same_shape w w'"
  shows "no_clash w' c cs"
proof -
  have old: "\<exists>m\<in>set (k_methods (cls w d)). mkey m = mkey m' \<and> virtual m = virtual m'"
    if "m' \<in> set (k_methods (cls w' d))" for d m'
    using that same_shape_nth [OF assms(2)] same_shape_length [OF assms(2)] by (metis in_set_conv_nth)
  show ?thesis unfolding no_clash_def
  proof (intro ballI impI)
    fix m d m' assume "m \<in> set (k_methods (cls w' c))" "d \<in> set cs" "m' \<in> set (k_methods (cls w' d))" "mkey m = mkey m'"
    then show "virtual m = virtual m'" using old [of m c] old [of m' d] assms(1) by (metis no_clash_def)
  qed
qed

lemma idx_ok_all_meths:
  "same_meths w w' \<Longrightarrow> (\<forall>m\<in>set (k_methods (cls w' d)). idx_ok ks m) = (\<forall>m\<in>set (k_methods (cls w d)). idx_ok ks m)"
  by (rule idx_ok_all_cong) (simp add: same_meths_def)

lemma same_meths_virtual:
  "same_meths w w' \<Longrightarrow> nearest w cs nm sg = Some r \<Longrightarrow> virtual (method_at w' r) = virtual (method_at w r)"
  using nearest_Some [of w cs nm sg r] same_shape_nth(3) [OF same_meths_shape [of w w']]
  by (auto simp: method_at_def)

text \<open>The state between the two halves: indices assigned, tables allocated and inherited.\<close>

definition prepared :: "kworld \<Rightarrow> cid \<Rightarrow> cid list \<Rightarrow> (string \<times> string) list \<Rightarrow> (string \<times> string) list \<Rightarrow> bool" where
  "prepared w c cs ks new \<longleftrightarrow> vtable_ok w cs ks \<and> no_clash w c cs \<and> distinct (ks @ new) \<and>
     distinct (map mkey (k_methods (cls w c))) \<and> k_msize (cls w c) = length (ks @ new) \<and>
     length (mtab (cls w c)) = length (ks @ new) \<and> length (dt_method (cls w c)) = length (ks @ new) \<and>
     (\<forall>m\<in>set (k_methods (cls w c)). idx_ok (ks @ new) m) \<and>
     (\<forall>x\<in>set new. \<exists>m\<in>set (k_methods (cls w c)). mkey m = x \<and> virtual m) \<and>
     (\<forall>i<length ks. mtab (cls w c) ! i = nearest w cs (fst (ks ! i)) (snd (ks ! i)))"

lemma prepare:
  assumes chain: "super_chain w (k_super (cls w c)) cs" and fuel: "length cs \<le> n" and c: "c \<notin> set cs"
    and vt: "vtable_ok w cs ks" and dist: "distinct (map mkey (k_methods (cls w c)))" and clash: "no_clash w c cs"
  shows "\<exists>w2 new. each (assign_idx n c) [0..<length (k_methods (cls w c))] (link_subclass c (inherit_sizes c w))
      = Some (Inr w2) \<and> prepared (inherit_methods c (alloc_tables c w2)) c cs ks new \<and>
     same_shape w (inherit_methods c (alloc_tables c w2)) \<and> others c w (inherit_methods c (alloc_tables c w2))"
proof -
  let ?w1 = "link_subclass c (inherit_sizes c w)"
  have self: "k_super (cls w c) \<noteq> Some c" using chain c by (auto elim: super_chain.cases)
  note l = link_subclass_frame [OF self]
  have vt1: "vtable_ok ?w1 cs ks" by (rule others_vtable [OF vt l(2,1) c])
  have sz: "k_msize (cls ?w1 c) = length ks"
    using chain vt unfolding l(6) by (cases rule: super_chain.cases) auto
  have chain1: "super_chain ?w1 (k_super (cls ?w1 c)) cs" using same_shape_chain [OF chain l(1)] l(4) by simp
  have dist1: "distinct (map mkey (k_methods (cls ?w1 c)))" using dist l(3) by simp
  from assigned_all [OF chain1 fuel c vt1 sz dist1 no_clash_shape [OF clash l(1)], of "length (k_methods (cls w c))"]
  obtain w2 new where w2: "each (assign_idx n c) [0..<length (k_methods (cls w c))] ?w1 = Some (Inr w2)"
    and as: "assigned ?w1 c ks (length (k_methods (cls w c))) w2 new" using l(3) by auto
  have sh2: "same_shape w w2" and ot2: "others c w w2"
    using as l(1,2) by (auto simp: assigned_def intro: same_shape_trans others_trans)
  have len2: "length (k_methods (cls w2 c)) = length (k_methods (cls w c))" by (rule same_shape_length [OF sh2])
  have vt2: "vtable_ok w2 cs ks" by (rule others_vtable [OF vt ot2 sh2 c])
  have self2: "k_super (cls w2 c) = k_super (cls w c)" using sh2 by (simp add: same_shape_def)
  have sup: "\<exists>cs'. cs = s # cs'" if "k_super (cls w c) = Some s" for s
    using chain that by (auto elim: super_chain.cases)
  let ?w3 = "inherit_methods c (alloc_tables c w2)"
  have sizes: "\<forall>s. k_super (cls w2 c) = Some s \<longrightarrow>
      k_msize (cls w2 s) = length (mtab (cls w2 s)) \<and> k_msize (cls w2 s) \<le> k_msize (cls w2 c)"
    using sup self2 vt2 as by (auto simp: assigned_def)
  have self': "k_super (cls w2 c) \<noteq> Some c" using self self2 by simp
  note p = prepared_tables [OF self' sizes]
  have sh3: "same_shape w ?w3" and ot3: "others c w ?w3"
    using same_shape_trans [OF sh2 same_meths_shape [OF p(1)]] others_trans [OF ot2 p(2)] by auto
  have sz3: "k_msize (cls w2 c) = length (ks @ new)" and dks: "distinct (ks @ new)" using as by (simp_all add: assigned_def)
  have vt3: "vtable_ok ?w3 cs ks" by (rule others_vtable [OF vt ot3 sh3 c])
  have ok: "\<forall>m\<in>set (k_methods (cls ?w3 c)). idx_ok (ks @ new) m"
    using as len2 unfolding p(3) by (auto simp: assigned_def in_set_conv_nth)
  have nw: "\<exists>m\<in>set (k_methods (cls ?w3 c)). mkey m = x \<and> virtual m" if "x \<in> set new" for x
  proof -
    from as that obtain j where "j < length (k_methods (cls w c))" "mkey (k_methods (cls w c) ! j) = x"
      "virtual (k_methods (cls w c) ! j)" using l(3) by (auto simp: assigned_def)
    then show ?thesis unfolding p(3) using same_shape_nth [OF sh2] len2 by (metis nth_mem)
  qed
  have base: "mtab (cls ?w3 c) ! i = nearest ?w3 cs (fst (ks ! i)) (snd (ks ! i))" if i: "i < length ks" for i
  proof (cases "k_super (cls w c)")
    case None
    then have "ks = []" using chain vt by (auto elim: super_chain.cases)
    with i show ?thesis by simp
  next
    case (Some s)
    with sup obtain cs' where cs: "cs = s # cs'" by blast
    then have "s \<noteq> c" using c by auto
    then have m: "mtab (cls w2 s) = mtab (cls ?w3 s)" "length (mtab (cls w2 s)) = length ks"
      using p(2) vt2 cs by (auto simp: others_def)
    then have "mtab (cls ?w3 c) ! i = mtab (cls ?w3 s) ! i" unfolding p(6) self2 Some using i by (simp add: nth_append)
    with vt3 i show ?thesis unfolding cs vtable_ok.simps by metis
  qed
  have "length (mtab (cls ?w3 c)) = length (ks @ new)"
  proof (cases "k_super (cls w c)")
    case (Some s)
    then obtain cs' where "cs = s # cs'" using sup by blast
    with vt2 have "length (mtab (cls w2 s)) = length ks" "k_msize (cls w2 s) = length ks" by auto
    with Some sz3 show ?thesis unfolding p(6) self2 by simp
  qed (simp add: p(6) self2 sz3)
  with vt3 no_clash_shape [OF clash sh3] dks dist sz3 ok nw base p(4,5) same_shape_keys [OF sh3]
  have "prepared ?w3 c cs ks new" by (simp add: prepared_def)
  with w2 sh3 ot3 show ?thesis by blast
qed

lemma finish:
  assumes pr: "prepared w3 c cs ks new"
  shows "\<exists>w4 w5. each (install_method c) [0..<length (k_methods (cls w3 c))] w3 = Some (Inr w4) \<and>
     each (fill_slot c) [0..<k_msize (cls w4 c)] w4 = Some (Inr w5) \<and> check_abstract c w5 = Some (Inr w5) \<and>
     same_meths w3 w5 \<and> vtable_ok w5 (c # cs) (ks @ new) \<and>
     (\<forall>d. d \<noteq> c \<longrightarrow> mtab (cls w5 d) = mtab (cls w3 d) \<and> k_msize (cls w5 d) = k_msize (cls w3 d))"
proof -
  let ?ms = "k_methods (cls w3 c)" and ?ks = "ks @ new"
  have ok: "\<And>m. m \<in> set ?ms \<Longrightarrow> idx_ok ?ks m" and dm: "distinct (map mkey ?ms)" and dks: "distinct ?ks"
    and len: "length (mtab (cls w3 c)) = length ?ks" "length (dt_method (cls w3 c)) = length ?ks"
      "k_msize (cls w3 c) = length ?ks"
    and vt: "vtable_ok w3 cs ks" and clash: "no_clash w3 c cs"
    using pr by (auto simp: prepared_def)
  have range: "nat (m_idx (?ms ! k)) < length (mtab (cls w3 c)) \<or> m_idx (?ms ! k) < 0" if "k < length ?ms" for k
    using ok [of "?ms ! k"] that len by (auto simp: idx_ok_def split: if_splits)
  have inj: "m_idx (?ms ! j) \<noteq> m_idx (?ms ! k)" if "j < k" "k < length ?ms" "0 \<le> m_idx (?ms ! j)" for j k
  proof
    assume "m_idx (?ms ! j) = m_idx (?ms ! k)"
    moreover have "idx_ok ?ks (?ms ! j)" "idx_ok ?ks (?ms ! k)" using ok that by auto
    ultimately have "mkey (?ms ! j) = mkey (?ms ! k)" using that(3) by (auto simp: idx_ok_def split: if_splits)
    with dm that show False by (auto simp: distinct_conv_nth)
  qed
  from installed_all [OF range inj order_refl] obtain w4 where
    w4: "each (install_method c) [0..<length ?ms] w3 = Some (Inr w4)" and inst: "installed w3 c (length ?ms) w4" by blast
  have slots: "\<exists>r. mtab (cls w4 c) ! i = Some r \<and> virtual (method_at w3 r) \<and>
      nearest w3 (c # cs) (fst (?ks ! i)) (snd (?ks ! i)) = Some r" if "i < length ?ks" for i
    using pr by (intro installed_slots [OF inst ok dm dks clash vt _ _ that]) (auto simp: prepared_def)
  have l4: "k_msize (cls w4 c) = length ?ks" "length (dt_method (cls w4 c)) = length ?ks"
    "length (mtab (cls w4 c)) = length ?ks" using inst len by (simp_all add: installed_def)
  have "\<exists>d j. mtab (cls w4 c) ! i = Some (MRef d j)" if "i < k_msize (cls w4 c)" for i
    using slots [of i] that l4(1) nearest_Some by metis
  from filled_all [OF this, of "k_msize (cls w4 c)"] l4 obtain w5 where
    w5: "each (fill_slot c) [0..<k_msize (cls w4 c)] w4 = Some (Inr w5)" and fl: "filled w4 c (k_msize (cls w4 c)) w5"
    by auto
  have s35: "same_meths w3 w5" using inst fl by (auto simp: installed_def filled_def intro: same_meths_trans)
  have "DNull \<notin> set (dt_method (cls w5 c))" using fl l4 by (auto simp: filled_def in_set_conv_nth)
  then have ca: "check_abstract c w5 = Some (Inr w5)" by (auto simp: check_abstract_def dest: in_set_takeD)
  have own: "\<forall>m\<in>set (k_methods (cls w5 c)). idx_ok ?ks m" using ok unfolding idx_ok_all_meths [OF s35] by blast
  have sup: "\<forall>m\<in>set (k_methods (cls w5 d)). idx_ok ?ks m" if "d \<in> set cs" for d
    using vtable_idx_ok [OF vt that] idx_ok_append unfolding idx_ok_all_meths [OF s35] by blast
  have slots5: "\<exists>r. mtab (cls w5 c) ! i = Some r \<and> virtual (method_at w5 r) \<and>
      nearest w5 (c # cs) (fst (?ks ! i)) (snd (?ks ! i)) = Some r" if "i < length ?ks" for i
    using slots [OF that] fl same_meths_virtual [OF s35] unfolding same_shape_nearest [OF same_meths_shape [OF s35]]
    by (auto simp: filled_def simp del: nearest.simps)
  have "vtable_ok w5 (c # cs) ?ks"
    using own sup slots5 fl l4 dks by (simp add: filled_def del: nearest.simps)
  moreover have "\<forall>d. d \<noteq> c \<longrightarrow> mtab (cls w5 d) = mtab (cls w3 d) \<and> k_msize (cls w5 d) = k_msize (cls w3 d)"
    using fl inst by (auto simp: filled_def installed_def)
  ultimately show ?thesis using w4 w5 ca s35 by blast
qed

lemma buildDispatchTable_vtable:
  assumes acc: "\<not> has_flag (k_acc (cls w c)) ACC_INTERFACE"
    and chain: "super_chain w (k_super (cls w c)) cs" and fuel: "length cs \<le> n" and c: "c \<notin> set cs"
    and vt: "vtable_ok w cs ks" and dist: "distinct (map mkey (k_methods (cls w c)))" and clash: "no_clash w c cs"
  shows "\<exists>w' new. buildDispatchTable n c w = Some (Inr w') \<and> vtable_ok w' (c # cs) (ks @ new) \<and>
     vtable_ok w' cs ks \<and> same_shape w w'"
proof -
  from prepare [OF chain fuel c vt dist clash] obtain w2 new where
    w2: "each (assign_idx n c) [0..<length (k_methods (cls w c))] (link_subclass c (inherit_sizes c w)) = Some (Inr w2)"
    and pr: "prepared (inherit_methods c (alloc_tables c w2)) c cs ks new"
    and sh: "same_shape w (inherit_methods c (alloc_tables c w2))"
    and ot: "others c w (inherit_methods c (alloc_tables c w2))" by blast
  let ?w3 = "inherit_methods c (alloc_tables c w2)"
  from finish [OF pr] obtain w4 w5 where
    w4: "each (install_method c) [0..<length (k_methods (cls ?w3 c))] ?w3 = Some (Inr w4)"
    and w5: "each (fill_slot c) [0..<k_msize (cls w4 c)] w4 = Some (Inr w5)" "check_abstract c w5 = Some (Inr w5)"
    and s: "same_meths ?w3 w5" and v: "vtable_ok w5 (c # cs) (ks @ new)"
    and fr: "\<And>d. d \<noteq> c \<Longrightarrow> mtab (cls w5 d) = mtab (cls ?w3 d) \<and> k_msize (cls w5 d) = k_msize (cls ?w3 d)" by blast
  have "vtable_ok ?w3 cs ks" by (rule others_vtable [OF vt ot sh c])
  from same_meths_vtable [OF this s] fr c have "vtable_ok w5 cs ks" by metis
  moreover have "length (k_methods (cls ?w3 c)) = length (k_methods (cls w c))" by (rule same_shape_length [OF sh])
  ultimately show ?thesis
    using acc w2 w4 w5 v same_shape_trans [OF sh same_meths_shape [OF s]]
    by (auto simp: buildDispatchTable_def Let_def)
qed

lemma vtable_dispatch:
  assumes vt: "vtable_ok w (c # cs) ks" and d: "d \<in> set (c # cs)" and m: "m \<in> set (k_methods (cls w d))" and v: "virtual m"
  shows "get_method_from_class_and_index w c (m_idx m) = nearest w (c # cs) (m_name m) (m_sig m)"
proof -
  have "idx_ok ks m" by (rule vtable_idx_ok [OF vt d m])
  with v have i: "0 \<le> m_idx m" "nat (m_idx m) < length ks" "ks ! nat (m_idx m) = mkey m" by (auto simp: idx_ok_def)
  with vt show ?thesis
    by (auto simp: get_method_from_class_and_index_def mkey_def simp del: nearest.simps)
qed


definition demo_A :: kworld where
  "demo_A = upd_class 0 (\<lambda>x. x\<lparr>k_msize := 2, mtab := [Some (MRef 0 0), Some (MRef 0 1)],
     k_methods := [(demo_meth ''f'' 1 0)\<lparr>m_idx := 0\<rparr>, (demo_meth ''g'' 1 0)\<lparr>m_idx := 1\<rparr>]\<rparr>) demo_world"

lemma demo_A_vtable: "vtable_ok demo_A [0] [(''f'', ''()V''), (''g'', ''()V'')]"
  by (simp add: demo_A_def demo_world_def demo_kclass_def upd_class_def demo_meth_def idx_ok_def virtual_def mkey_def
      findMethodLocal_def method_at_def has_flag_def ACC_STATIC_def All_less_Suc numeral_2_eq_2)



definition demo_I :: kworld where
  "demo_I = upd_class 0 (\<lambda>x. x\<lparr>k_ITsize := 2, dt_iface := [DCode (Tramp 0), DCode (Tramp 1)],
     imtab := [Some (MRef 0 0), Some (MRef 0 1)]\<rparr>) demo_world"


end
