(* ===== verification/Class_File.thy ===== *)
theory Class_File
  imports Constant_Pool Signatures
begin

text \<open>
  Reading a class file: \<open>readClass\<close> and its parts from \<^verbatim>\<open>runtime/readClass.c\<close> with the macros of
  \<^verbatim>\<open>runtime/readClassConfig.h\<close>, \<open>addCode\<close> and \<open>addLineNumbers\<close> from \<^verbatim>\<open>runtime/code.c\<close>, and the
  operations of \<^verbatim>\<open>runtime/classMethod.c\<close> that they call to fill a class. The class under
  construction is one record. Attributes are handed an untyped pointer to what they belong to; to
  use it as a pointer to something else is undefined, and so is the \<open>NULL\<close> that \<open>addField\<close> and
  \<open>addMethod\<close> return. Attributes nest through \<open>addCode\<close>; the depth of the nesting is the fuel of
  \<open>readAttributes\<close>. The counters \<open>nfields\<close>, \<open>nsfields\<close> and \<open>nmethods\<close> are of type \<open>short\<close>. Version warnings are only printed and are not modelled.
\<close>

section \<open>The class under construction\<close>

record cfield =
  cf_name :: string
  cf_sig :: string
  cf_acc :: uint16
  cf_constidx :: uint16

record exc_range =
  er_start :: uint16
  er_end :: uint16
  er_handler :: uint16
  er_catch :: uint16

record cmethod =
  cm_name :: string
  cm_sig :: string
  cm_acc :: uint16
  cm_in :: int
  cm_out :: int
  cm_rettype :: char
  cm_iidx :: int
  cm_bcode :: "bytes option"
  cm_stacksz :: uint16
  cm_localsz :: uint16
  cm_etable :: "exc_range list option"
  cm_lines :: "(uint16 \<times> uint16) list option"

record cclass =
  cc_pool :: cpool
  cc_name :: string
  cc_super :: uint16
  cc_acc :: uint16
  cc_ifaces :: "uint16 list"
  cc_fields :: "cfield option list"
  cc_bfsize :: int
  cc_nfields :: int
  cc_nsfields :: int
  cc_methods :: "cmethod list"
  cc_final :: bool
  cc_state :: nat

datatype thing = TNull | TClass | TField nat | TMethod nat

definition FIELD_UNRESOLVED_FLAG :: uint16 where "FIELD_UNRESOLVED_FLAG = 0x8000"
definition FIELD_CONSTANT_VALUE :: uint16 where "FIELD_CONSTANT_VALUE = 0x4000"
definition ACC_STATIC_FLAG :: uint16 where "ACC_STATIC_FLAG = 0x8"
definition ACC_FINAL_FLAG :: uint16 where "ACC_FINAL_FLAG = 0x10"
definition CSTATE_LOADED :: nat where "CSTATE_LOADED = 1"

section \<open>Filling it in\<close>

definition utf8_const :: "nat \<Rightarrow> cpool \<Rightarrow> string result" where
  "utf8_const i p =
     (if i < length (pdata p) then (case pdata p ! i of SUtf8 s \<Rightarrow> Inr s | _ \<Rightarrow> Inl C_undefined)
      else Inl C_undefined)"

definition addClass :: "uint16 \<Rightarrow> uint16 \<Rightarrow> uint16 \<Rightarrow> cclass \<Rightarrow> cclass option result" where
  "addClass c s flags cl =
     bind_result (pool_tag (unat c) (cc_pool cl)) (\<lambda>t.
     if t \<noteq> CONSTANT_Class then Inr None
     else bind_result (utf8_const (unat c) (cc_pool cl)) (\<lambda>name.
       Inr (Some (cl\<lparr>cc_name := name, cc_methods := [], cc_super := s, cc_fields := [], cc_bfsize := 0,
                     cc_acc := flags, cc_ifaces := [], cc_state := CSTATE_LOADED, cc_final := False\<rparr>))))"

definition addField :: "uint16 \<Rightarrow> uint16 \<Rightarrow> uint16 \<Rightarrow> cclass \<Rightarrow> (thing \<times> cclass) result" where
  "addField flags nc sc c =
     bind_result (pool_tag (unat nc) (cc_pool c)) (\<lambda>t.
     if t \<noteq> CONSTANT_Utf8 then Inr (TNull, c)
     else
       let bf = cc_bfsize c - 1;
           static = (flags AND ACC_STATIC_FLAG \<noteq> 0);
           index = (if static then cc_nsfields c else bf + cc_nsfields c);
           c = c\<lparr>cc_bfsize := bf, cc_nsfields := (if static then to_short (cc_nsfields c + 1) else cc_nsfields c)\<rparr>
       in bind_result (pool_tag (unat sc) (cc_pool c)) (\<lambda>t.
          if t \<noteq> CONSTANT_Utf8 then Inr (TNull, c)
          else bind_result (utf8_const (unat nc) (cc_pool c)) (\<lambda>nm.
               bind_result (utf8_const (unat sc) (cc_pool c)) (\<lambda>sg.
               if 0 \<le> index \<and> nat index < length (cc_fields c)
               then Inr (TField (nat index),
                      c\<lparr>cc_fields := (cc_fields c)[nat index :=
                          Some \<lparr>cf_name = nm, cf_sig = sg, cf_acc = flags OR FIELD_UNRESOLVED_FLAG, cf_constidx = 0\<rparr>]\<rparr>)
               else Inl C_undefined))))"

definition setFieldValue :: "thing \<Rightarrow> uint16 \<Rightarrow> cclass \<Rightarrow> cclass result" where
  "setFieldValue ft idx c =
     (case ft of
        TField i \<Rightarrow>
          (case cc_fields c ! i of
             Some f \<Rightarrow> Inr (c\<lparr>cc_fields := (cc_fields c)[i :=
                           Some (f\<lparr>cf_constidx := idx, cf_acc := cf_acc f OR FIELD_CONSTANT_VALUE\<rparr>)]\<rparr>)
           | None \<Rightarrow> Inl C_undefined)
      | _ \<Rightarrow> Inl C_undefined)"

text \<open>The loop that reverses the instance fields in place: \<open>fld\<close> is the position, \<open>n\<close> the count.\<close>

fun reverse_loop :: "nat \<Rightarrow> nat \<Rightarrow> 'a list \<Rightarrow> 'a list" where
  "reverse_loop fld n xs =
     (if n > 1 then reverse_loop (fld + 1) (n - 2) (xs[fld := xs ! (fld + n - 1), fld + n - 1 := xs ! fld]) else xs)"

declare reverse_loop.simps [simp del]

definition finishFields :: "cclass \<Rightarrow> cclass" where
  "finishFields cl =
     cl\<lparr>cc_fields := reverse_loop (nat (cc_nsfields cl)) (nat (cc_nfields cl - cc_nsfields cl)) (cc_fields cl)\<rparr>"

definition addMethod :: "uint16 \<Rightarrow> uint16 \<Rightarrow> uint16 \<Rightarrow> cclass \<Rightarrow> (thing \<times> cclass) result" where
  "addMethod flags nc sc c =
     bind_result (pool_tag (unat nc) (cc_pool c)) (\<lambda>t.
     if t \<noteq> CONSTANT_Utf8 then Inr (TNull, c)
     else bind_result (pool_tag (unat sc) (cc_pool c)) (\<lambda>t.
       if t \<noteq> CONSTANT_Utf8 then Inr (TNull, c)
       else bind_result (utf8_const (unat nc) (cc_pool c)) (\<lambda>nm.
            bind_result (utf8_const (unat sc) (cc_pool c)) (\<lambda>sg.
            bind_result (countInsAndOuts sg) (\<lambda>(ins, outs, rt).
            let acc = (if cc_acc c AND ACC_FINAL_FLAG \<noteq> 0 then flags OR ACC_FINAL_FLAG else flags)
            in if length (cc_methods c) \<ge> 2 ^ 15 then Inl C_undefined
               else Inr (TMethod (length (cc_methods c)),
                 c\<lparr>cc_final := (cc_final c \<or> nm = ''finalize'' \<and> sg = ''()V''),
                   cc_methods := cc_methods c @
                     [\<lparr>cm_name = nm, cm_sig = sg, cm_acc = acc, cm_in = ins, cm_out = outs, cm_rettype = rt,
                       cm_iidx = - 1, cm_bcode = None, cm_stacksz = 0, cm_localsz = 0, cm_etable = None,
                       cm_lines = None\<rparr>]\<rparr>))))))"

definition upd_cmethod :: "thing \<Rightarrow> (cmethod \<Rightarrow> cmethod) \<Rightarrow> cclass \<Rightarrow> cclass result" where
  "upd_cmethod m f c =
     (case m of
        TMethod i \<Rightarrow> if i < length (cc_methods c)
                     then Inr (c\<lparr>cc_methods := (cc_methods c)[i := f (cc_methods c ! i)]\<rparr>) else Inl C_undefined
      | _ \<Rightarrow> Inl C_undefined)"

definition addMethodCode ::
    "thing \<Rightarrow> bytes option \<Rightarrow> uint16 \<Rightarrow> uint16 \<Rightarrow> exc_range list option \<Rightarrow> cclass \<Rightarrow> cclass result" where
  "addMethodCode m bcode stack locals etable c =
     upd_cmethod m (\<lambda>x. x\<lparr>cm_bcode := bcode, cm_stacksz := stack, cm_localsz := locals, cm_etable := etable\<rparr>) c"

definition addInterfaces :: "uint16 list \<Rightarrow> cclass \<Rightarrow> cclass" where
  "addInterfaces ifs c = c\<lparr>cc_ifaces := ifs\<rparr>"

section \<open>Reading\<close>

definition read_u2 :: "bytes \<Rightarrow> (uint16 \<times> bytes) result" where
  "read_u2 fp = bind_result (readu2 fp) (\<lambda>(v, fp). Inr (ucast v, fp))"

definition readm :: "nat \<Rightarrow> bytes \<Rightarrow> (bytes \<times> bytes) result" where
  "readm n fp = (if n \<le> length fp then Inr (take n fp, drop n fp) else Inl C_undefined)"

definition seekm :: "nat \<Rightarrow> bytes \<Rightarrow> bytes result" where
  "seekm n fp = (if n \<le> length fp then Inr (drop n fp) else Inl C_undefined)"

fun read_exceptions :: "nat \<Rightarrow> bytes \<Rightarrow> (exc_range list \<times> bytes) result" where
  "read_exceptions 0 fp = Inr ([], fp)"
| "read_exceptions (Suc n) fp =
     bind_result (read_u2 fp) (\<lambda>(s, fp).
     bind_result (read_u2 fp) (\<lambda>(e, fp).
     bind_result (read_u2 fp) (\<lambda>(h, fp).
     bind_result (read_u2 fp) (\<lambda>(ct, fp).
     bind_result (read_exceptions n fp) (\<lambda>(es, fp).
     Inr (\<lparr>er_start = s, er_end = e, er_handler = h, er_catch = ct\<rparr> # es, fp))))))"

fun read_lines :: "nat \<Rightarrow> bytes \<Rightarrow> ((uint16 \<times> uint16) list \<times> bytes) result" where
  "read_lines 0 fp = Inr ([], fp)"
| "read_lines (Suc n) fp =
     bind_result (read_u2 fp) (\<lambda>(pc, fp).
     bind_result (read_u2 fp) (\<lambda>(line, fp).
     bind_result (read_lines n fp) (\<lambda>(ls, fp). Inr ((pc, line) # ls, fp))))"

definition addLineNumbers :: "thing \<Rightarrow> bytes \<Rightarrow> cclass \<Rightarrow> (cclass \<times> bytes) result" where
  "addLineNumbers m fp c =
     bind_result (read_u2 fp) (\<lambda>(nr, fp).
     bind_result (read_lines (unat nr) fp) (\<lambda>(ls, fp).
     bind_result (upd_cmethod m (\<lambda>x. x\<lparr>cm_lines := Some ls\<rparr>) c) (\<lambda>c. Inr (c, fp))))"

text \<open>\<open>addCode\<close> up to the attributes of the code; the length of the attribute is not used.\<close>

definition read_code :: "thing \<Rightarrow> bytes \<Rightarrow> cclass \<Rightarrow> (cclass \<times> bytes) result" where
  "read_code m fp c =
     bind_result (read_u2 fp) (\<lambda>(max_stack, fp).
     bind_result (read_u2 fp) (\<lambda>(max_locals, fp).
     bind_result (readu4 fp) (\<lambda>(code_length, fp).
     bind_result (if unat code_length > 0 then map_sum id (map_prod Some id) (readm (unat code_length) fp)
                  else Inr (None, fp)) (\<lambda>(code, fp).
     bind_result (read_u2 fp) (\<lambda>(elen, fp).
     bind_result (if unat elen > 0 then map_sum id (map_prod Some id) (read_exceptions (unat elen) fp)
                  else Inr (None, fp)) (\<lambda>(etable, fp).
     bind_result (addMethodCode m code max_stack max_locals etable c) (\<lambda>c. Inr (c, fp))))))))"

fun readAttributes :: "nat \<Rightarrow> thing \<Rightarrow> bytes \<Rightarrow> cclass \<Rightarrow> (cclass \<times> bytes) result option"
  and read_attribute_list :: "nat \<Rightarrow> thing \<Rightarrow> nat \<Rightarrow> bytes \<Rightarrow> cclass \<Rightarrow> (cclass \<times> bytes) result option"
  and addCode :: "nat \<Rightarrow> thing \<Rightarrow> bytes \<Rightarrow> cclass \<Rightarrow> (cclass \<times> bytes) result option" where
  "readAttributes d thing fp c =
     and_then (Some (read_u2 fp)) (\<lambda>(cnt, fp). read_attribute_list d thing (unat cnt) fp c)"
| "read_attribute_list d thing 0 fp c = Some (Inr (c, fp))"
| "read_attribute_list d thing (Suc n) fp c =
     and_then (Some (read_u2 fp)) (\<lambda>(idx, fp).
     and_then (Some (readu4 fp)) (\<lambda>(len, fp).
     and_then (Some (pool_tag (unat idx) (cc_pool c))) (\<lambda>t.
     and_then
       (if t = CONSTANT_Utf8 then
          and_then (Some (utf8_const (unat idx) (cc_pool c))) (\<lambda>name.
          if name = ''Code'' then addCode d thing fp c
          else if name = ''LineNumberTable'' then Some (addLineNumbers thing fp c)
          else if name = ''ConstantValue'' then
            and_then (Some (read_u2 fp)) (\<lambda>(v, fp).
            and_then (Some (setFieldValue thing v c)) (\<lambda>c. Some (Inr (c, fp))))
          else and_then (Some (seekm (unat len) fp)) (\<lambda>fp. Some (Inr (c, fp))))
        else and_then (Some (seekm (unat len) fp)) (\<lambda>fp. Some (Inr (c, fp))))
       (\<lambda>(c, fp). read_attribute_list d thing n fp c))))"
| "addCode 0 m fp c = None"
| "addCode (Suc d) m fp c = and_then (Some (read_code m fp c)) (\<lambda>(c, fp). readAttributes d m fp c)"

fun read_u2s :: "nat \<Rightarrow> bytes \<Rightarrow> (uint16 list \<times> bytes) result" where
  "read_u2s 0 fp = Inr ([], fp)"
| "read_u2s (Suc n) fp =
     bind_result (read_u2 fp) (\<lambda>(i, fp). bind_result (read_u2s n fp) (\<lambda>(is, fp). Inr (i # is, fp)))"

definition readInterfaces :: "bytes \<Rightarrow> cclass \<Rightarrow> (cclass \<times> bytes) result" where
  "readInterfaces fp c =
     bind_result (read_u2 fp) (\<lambda>(count, fp).
     if count = 0 then Inr (c, fp)
     else bind_result (read_u2s (unat count) fp) (\<lambda>(ifs, fp). Inr (addInterfaces ifs c, fp)))"

definition read_member ::
    "nat \<Rightarrow> (uint16 \<Rightarrow> uint16 \<Rightarrow> uint16 \<Rightarrow> cclass \<Rightarrow> (thing \<times> cclass) result) \<Rightarrow> bytes \<Rightarrow> cclass
     \<Rightarrow> (cclass \<times> bytes) result option" where
  "read_member d add fp c =
     and_then (Some (read_u2 fp)) (\<lambda>(flags, fp).
     and_then (Some (read_u2 fp)) (\<lambda>(nc, fp).
     and_then (Some (read_u2 fp)) (\<lambda>(sc, fp).
     and_then (Some (add flags nc sc c)) (\<lambda>(thing, c). readAttributes d thing fp c))))"

fun read_members ::
    "nat \<Rightarrow> (uint16 \<Rightarrow> uint16 \<Rightarrow> uint16 \<Rightarrow> cclass \<Rightarrow> (thing \<times> cclass) result) \<Rightarrow> nat \<Rightarrow> bytes \<Rightarrow> cclass
     \<Rightarrow> (cclass \<times> bytes) result option" where
  "read_members d add 0 fp c = Some (Inr (c, fp))"
| "read_members d add (Suc n) fp c =
     and_then (read_member d add fp c) (\<lambda>(c, fp). read_members d add n fp c)"

definition readFields :: "nat \<Rightarrow> bytes \<Rightarrow> cclass \<Rightarrow> (cclass \<times> bytes) result option" where
  "readFields d fp c =
     and_then (Some (read_u2 fp)) (\<lambda>(count, fp).
     let n = unat count
     in and_then (read_members d addField n fp
                    (c\<lparr>cc_nfields := to_short (int n), cc_bfsize := int n, cc_fields := replicate n None\<rparr>))
          (\<lambda>(c, fp). Some (Inr (finishFields c, fp))))"

definition readMethods :: "nat \<Rightarrow> bytes \<Rightarrow> cclass \<Rightarrow> (cclass \<times> bytes) result option" where
  "readMethods d fp c =
     and_then (Some (read_u2 fp)) (\<lambda>(count, fp). read_members d addMethod (unat count) fp (c\<lparr>cc_methods := []\<rparr>))"

definition JAVAMAGIC :: uint32 where "JAVAMAGIC = 0xCAFEBABE"

definition readClass :: "nat \<Rightarrow> bytes \<Rightarrow> cclass \<Rightarrow> (cclass \<times> bytes) result option" where
  "readClass d fp cl =
     and_then (Some (readu4 fp)) (\<lambda>(magic, fp).
     if magic \<noteq> JAVAMAGIC then Some (Inl NoClassDefFoundError)
     else
       and_then (Some (read_u2 fp)) (\<lambda>(minor, fp).
       and_then (Some (read_u2 fp)) (\<lambda>(major, fp).
       and_then (Some (readConstantPool fp)) (\<lambda>(pool, fp).
       and_then (Some (read_u2 fp)) (\<lambda>(access_flags, fp).
       and_then (Some (read_u2 fp)) (\<lambda>(this_class, fp).
       and_then (Some (read_u2 fp)) (\<lambda>(super_class, fp).
       and_then (Some (addClass this_class super_class access_flags (cl\<lparr>cc_pool := pool\<rparr>))) (\<lambda>r.
       case r of
         None \<Rightarrow> Some (Inl ClassFormatError)
       | Some cl \<Rightarrow>
           and_then (Some (readInterfaces fp cl)) (\<lambda>(cl, fp).
           and_then (readFields d fp cl) (\<lambda>(cl, fp).
           and_then (readMethods d fp cl) (\<lambda>(cl, fp).
           readAttributes d TClass fp cl)))))))))))"

section \<open>The format\<close>

datatype cattr =
    AConst uint16 uint16
  | ALines uint16 "(uint16 \<times> uint16) list"
  | ACode uint16 uint16 uint16 bytes "exc_range list" "cattr list"
  | AOther uint16 bytes

definition enc_range :: "exc_range \<Rightarrow> bytes" where
  "enc_range e = enc_u2 (er_start e) @ enc_u2 (er_end e) @ enc_u2 (er_handler e) @ enc_u2 (er_catch e)"

definition enc_line :: "uint16 \<times> uint16 \<Rightarrow> bytes" where
  "enc_line l = enc_u2 (fst l) @ enc_u2 (snd l)"

definition enc_count :: "'a list \<Rightarrow> bytes" where
  "enc_count xs = enc_u2 (of_nat (length xs))"

definition enc_attr_data :: "uint16 \<Rightarrow> bytes \<Rightarrow> bytes" where
  "enc_attr_data n bs = enc_u2 n @ enc_u4 (of_nat (length bs)) @ bs"

fun enc_attr :: "cattr \<Rightarrow> bytes" where
  "enc_attr (AConst n v) = enc_attr_data n (enc_u2 v)"
| "enc_attr (ALines n ls) = enc_attr_data n (enc_count ls @ concat (map enc_line ls))"
| "enc_attr (ACode n st lo code et as) =
     enc_attr_data n (enc_u2 st @ enc_u2 lo @ enc_u4 (of_nat (length code)) @ code @ enc_count et @
       concat (map enc_range et) @ enc_count as @ concat (map enc_attr as))"
| "enc_attr (AOther n bs) = enc_attr_data n bs"

definition enc_attrs :: "cattr list \<Rightarrow> bytes" where
  "enc_attrs as = enc_count as @ concat (map enc_attr as)"

text \<open>Attributes that fit what they belong to: a field (\<open>True\<close>) or a method (\<open>False\<close>).\<close>

definition named :: "cpool \<Rightarrow> uint16 \<Rightarrow> string \<Rightarrow> bool" where
  "named p n s \<longleftrightarrow> pool_tag (unat n) p = Inr CONSTANT_Utf8 \<and> utf8_const (unat n) p = Inr s"

fun wf_attr :: "cpool \<Rightarrow> thing \<Rightarrow> cattr \<Rightarrow> bool" where
  "wf_attr p th (AConst n v) \<longleftrightarrow> named p n ''ConstantValue'' \<and> (case th of TField _ \<Rightarrow> True | _ \<Rightarrow> False)"
| "wf_attr p th (ALines n ls) \<longleftrightarrow> named p n ''LineNumberTable'' \<and> length ls < 2 ^ 16 \<and> (case th of TMethod _ \<Rightarrow> True | _ \<Rightarrow> False)"
| "wf_attr p th (ACode n st lo code et as) \<longleftrightarrow> named p n ''Code'' \<and> length code < 2 ^ 32 \<and> length et < 2 ^ 16 \<and>
     length as < 2 ^ 16 \<and> list_all (wf_attr p th) as \<and> (case th of TMethod _ \<Rightarrow> True | _ \<Rightarrow> False)"
| "wf_attr p th (AOther n bs) \<longleftrightarrow> length bs < 2 ^ 32 \<and>
     (\<exists>t. pool_tag (unat n) p = Inr t \<and> t \<noteq> CONSTANT_Utf8 \<or>
          (\<exists>s. named p n s \<and> s \<notin> {''Code'', ''LineNumberTable'', ''ConstantValue''}))"

fun attr_depth :: "cattr \<Rightarrow> nat" where
  "attr_depth (ACode n st lo code et as) = Suc (foldr (\<lambda>a m. max (attr_depth a) m) as 0)"
| "attr_depth _ = 0"

definition attrs_depth :: "cattr list \<Rightarrow> nat" where
  "attrs_depth as = foldr (\<lambda>a m. max (attr_depth a) m) as 0"

text \<open>What an attribute does to a field and to a method.\<close>

definition non_empty :: "'a list \<Rightarrow> 'a list option" where
  "non_empty xs = (if xs = [] then None else Some xs)"

fun field_attr :: "cattr \<Rightarrow> cfield \<Rightarrow> cfield" where
  "field_attr (AConst n v) f = f\<lparr>cf_constidx := v, cf_acc := cf_acc f OR FIELD_CONSTANT_VALUE\<rparr>"
| "field_attr _ f = f"

fun method_attr :: "cattr \<Rightarrow> cmethod \<Rightarrow> cmethod" where
  "method_attr (ALines n ls) m = m\<lparr>cm_lines := Some ls\<rparr>"
| "method_attr (ACode n st lo code et as) m =
     fold method_attr as (m\<lparr>cm_bcode := non_empty code, cm_stacksz := st, cm_localsz := lo, cm_etable := non_empty et\<rparr>)"
| "method_attr _ m = m"

definition attr_effect :: "thing \<Rightarrow> cattr \<Rightarrow> cclass \<Rightarrow> cclass" where
  "attr_effect th a c =
     (case th of
        TField i \<Rightarrow> c\<lparr>cc_fields := (cc_fields c)[i := map_option (field_attr a) (cc_fields c ! i)]\<rparr>
      | TMethod i \<Rightarrow> c\<lparr>cc_methods := (cc_methods c)[i := method_attr a (cc_methods c ! i)]\<rparr>
      | _ \<Rightarrow> c)"

definition thing_ok :: "thing \<Rightarrow> cclass \<Rightarrow> bool" where
  "thing_ok th c \<longleftrightarrow>
     (case th of
        TField i \<Rightarrow> i < length (cc_fields c) \<and> cc_fields c ! i \<noteq> None
      | TMethod i \<Rightarrow> i < length (cc_methods c)
      | TClass \<Rightarrow> True
      | TNull \<Rightarrow> False)"

section \<open>Reading what was written\<close>

lemma narrow_wide: "(ucast (ucast w :: uint32) :: uint16) = w"
  by (rule bit_word_eqI) (auto simp: bit_simps)

lemma read_u2_enc [simp]: "read_u2 (enc_u2 w @ fp) = Inr (w, fp)"
  by (simp add: read_u2_def readu2_enc narrow_wide)

lemma readu4_enc' [simp]: "readu4 (enc_u4 w @ fp) = Inr (w, fp)"
  by (rule readu4_enc)

lemma unat_count16: "length xs < 2 ^ 16 \<Longrightarrow> unat (of_nat (length xs) :: uint16) = length xs"
  by (simp add: unsigned_of_nat take_bit_nat_eq_self)

lemma unat_count32: "length xs < 2 ^ 32 \<Longrightarrow> unat (of_nat (length xs) :: uint32) = length xs"
  by (simp add: unsigned_of_nat take_bit_nat_eq_self)

lemma read_lines_enc: "read_lines (length ls) (concat (map enc_line ls) @ fp) = Inr (ls, fp)"
  by (induction ls) (simp_all add: enc_line_def)

lemma read_exceptions_enc: "read_exceptions (length es) (concat (map enc_range es) @ fp) = Inr (es, fp)"
  by (induction es) (simp_all add: enc_range_def)

lemma read_u2s_enc: "read_u2s (length vs) (concat (map enc_u2 vs) @ fp) = Inr (vs, fp)"
  by (induction vs) simp_all

lemma attr_effect_pool [simp]: "cc_pool (attr_effect th a c) = cc_pool c"
  by (simp add: attr_effect_def split: thing.splits)

lemma thing_ok_effect [simp]: "thing_ok th (attr_effect th a c) = thing_ok th c"
  by (auto simp: thing_ok_def attr_effect_def split: thing.splits)

lemma fold_effect_pool [simp]: "cc_pool (fold (attr_effect th) as c) = cc_pool c"
  by (induction as arbitrary: c) simp_all

lemma fold_effect_method:
  "i < length (cc_methods c) \<Longrightarrow> fold (attr_effect (TMethod i)) as c
     = c\<lparr>cc_methods := (cc_methods c)[i := fold method_attr as (cc_methods c ! i)]\<rparr>"
  by (induction as arbitrary: c) (simp_all add: attr_effect_def)

lemma fold_effect_field:
  "i < length (cc_fields c) \<Longrightarrow> cc_fields c ! i = Some f \<Longrightarrow> fold (attr_effect (TField i)) as c
     = c\<lparr>cc_fields := (cc_fields c)[i := Some (fold field_attr as f)]\<rparr>"
proof (induction as arbitrary: c f)
  case Nil
  then have "(cc_fields c)[i := Some f] = cc_fields c" by (metis list_update_id)
  then show ?case by simp
next
  case (Cons a as)
  then show ?case by (simp add: attr_effect_def)
qed

lemma fold_effect_class: "fold (attr_effect TClass) as c = c"
  by (induction as) (simp_all add: attr_effect_def)

definition reads_attr :: "cpool \<Rightarrow> thing \<Rightarrow> cattr \<Rightarrow> bool" where
  "reads_attr p th a \<longleftrightarrow> (\<forall>d n fp c. attr_depth a \<le> d \<longrightarrow> cc_pool c = p \<longrightarrow> thing_ok th c \<longrightarrow>
     read_attribute_list d th (Suc n) (enc_attr a @ fp) c = read_attribute_list d th n fp (attr_effect th a c))"

lemma reads_attr_list:
  "list_all (reads_attr p th) as \<Longrightarrow> attrs_depth as \<le> d \<Longrightarrow> cc_pool c = p \<Longrightarrow> thing_ok th c \<Longrightarrow>
   read_attribute_list d th (length as) (concat (map enc_attr as) @ fp) c = Some (Inr (fold (attr_effect th) as c, fp))"
proof (induction as arbitrary: c)
  case (Cons a as)
  have "read_attribute_list d th (Suc (length as)) (enc_attr a @ concat (map enc_attr as) @ fp) c
      = read_attribute_list d th (length as) (concat (map enc_attr as) @ fp) (attr_effect th a c)"
    using Cons.prems unfolding reads_attr_def by (simp add: attrs_depth_def del: read_attribute_list.simps)
  with Cons.IH [of "attr_effect th a c"] Cons.prems show ?case
    by (simp add: attrs_depth_def del: read_attribute_list.simps)
qed simp

lemma reads_attrs:
  assumes "list_all (reads_attr p th) as" and "attrs_depth as \<le> d" and "cc_pool c = p" and "thing_ok th c"
    and "length as < 2 ^ 16"
  shows "readAttributes d th (enc_attrs as @ fp) c = Some (Inr (fold (attr_effect th) as c, fp))"
  using reads_attr_list [OF assms(1-4), of fp] assms(5)
  by (simp add: enc_attrs_def enc_count_def unat_count16 del: read_attribute_list.simps)

lemma read_code_enc:
  assumes "length code < 2 ^ 32" and "length et < 2 ^ 16" and "i < length (cc_methods c)"
  shows "read_code (TMethod i) (enc_u2 st @ enc_u2 lo @ enc_u4 (of_nat (length code)) @ code @ enc_count et @
       concat (map enc_range et) @ fp) c
    = Inr (c\<lparr>cc_methods := (cc_methods c)[i := (cc_methods c ! i)\<lparr>cm_bcode := non_empty code, cm_stacksz := st,
           cm_localsz := lo, cm_etable := non_empty et\<rparr>]\<rparr>, fp)"
  using assms
  by (auto simp: read_code_def unat_count32 unat_count16 readm_def enc_count_def read_exceptions_enc addMethodCode_def
      upd_cmethod_def non_empty_def)

lemma reads_attr_wf: "wf_attr p th a \<Longrightarrow> reads_attr p th a"
proof (induction a)
  case (AConst n v)
  show ?case unfolding reads_attr_def
  proof (intro allI impI)
    fix d m fp c assume c: "cc_pool c = p" "thing_ok th c"
    from AConst obtain i where th: "th = TField i" and nm: "named p n ''ConstantValue''" by (auto split: thing.splits)
    with c obtain f where f: "i < length (cc_fields c)" "cc_fields c ! i = Some f" by (auto simp: thing_ok_def)
    show "read_attribute_list d th (Suc m) (enc_attr (AConst n v) @ fp) c
        = read_attribute_list d th m fp (attr_effect th (AConst n v) c)"
      using c nm f by (simp add: th enc_attr_data_def named_def setFieldValue_def attr_effect_def)
  qed
next
  case (ALines n ls)
  show ?case unfolding reads_attr_def
  proof (intro allI impI)
    fix d m fp c assume c: "cc_pool c = p" "thing_ok th c"
    from ALines obtain i where th: "th = TMethod i" and nm: "named p n ''LineNumberTable''" "length ls < 2 ^ 16"
      by (auto split: thing.splits)
    show "read_attribute_list d th (Suc m) (enc_attr (ALines n ls) @ fp) c
        = read_attribute_list d th m fp (attr_effect th (ALines n ls) c)"
      using c nm by (simp add: th enc_attr_data_def named_def addLineNumbers_def enc_count_def unat_count16 [OF nm(2)]
          read_lines_enc upd_cmethod_def thing_ok_def attr_effect_def)
  qed
next
  case (ACode n st lo code et as)
  from ACode.prems obtain i where th: "th = TMethod i" and nm: "named p n ''Code''"
    and len: "length code < 2 ^ 32" "length et < 2 ^ 16" "length as < 2 ^ 16" and wf: "list_all (wf_attr p th) as"
    by (auto split: thing.splits)
  have ra: "list_all (reads_attr p th) as" using ACode.IH wf by (auto simp: list_all_iff)
  show ?case unfolding reads_attr_def
  proof (intro allI impI)
    fix d m fp c assume c: "cc_pool c = p" "thing_ok th c" and d: "attr_depth (ACode n st lo code et as) \<le> d"
    then obtain d' where d': "d = Suc d'" "attrs_depth as \<le> d'" by (cases d) (auto simp: attrs_depth_def)
    have i: "i < length (cc_methods c)" using c th by (simp add: thing_ok_def)
    let ?c = "c\<lparr>cc_methods := (cc_methods c)[i := (cc_methods c ! i)\<lparr>cm_bcode := non_empty code, cm_stacksz := st,
           cm_localsz := lo, cm_etable := non_empty et\<rparr>]\<rparr>"
    have "readAttributes d' th (enc_attrs as @ fp) ?c = Some (Inr (fold (attr_effect th) as ?c, fp))"
      using i c th by (intro reads_attrs [OF ra d'(2) _ _ len(3)]) (simp_all add: thing_ok_def)
    moreover have "fold (attr_effect th) as ?c = attr_effect th (ACode n st lo code et as) c"
      using i by (simp add: th fold_effect_method attr_effect_def)
    moreover have "addCode d th (enc_u2 st @ enc_u2 lo @ enc_u4 (of_nat (length code)) @ code @ enc_count et @
        concat (map enc_range et) @ enc_attrs as @ fp) c = readAttributes d' th (enc_attrs as @ fp) ?c"
      using read_code_enc [OF len(1,2) i, of st lo "enc_attrs as @ fp"] by (simp add: d'(1) th del: readAttributes.simps)
    ultimately show "read_attribute_list d th (Suc m) (enc_attr (ACode n st lo code et as) @ fp) c
        = read_attribute_list d th m fp (attr_effect th (ACode n st lo code et as) c)"
      using c nm by (simp add: enc_attr_data_def named_def enc_attrs_def del: addCode.simps readAttributes.simps)
  qed
next
  case (AOther n bs)
  show ?case unfolding reads_attr_def
  proof (intro allI impI)
    fix d m fp c assume c: "cc_pool c = p" "thing_ok th c"
    have eff: "attr_effect th (AOther n bs) c = c"
    proof (cases th)
      case (TField i)
      then have "map_option (field_attr (AOther n bs)) (cc_fields c ! i) = cc_fields c ! i"
        by (cases "cc_fields c ! i") simp_all
      with TField show ?thesis by (simp add: attr_effect_def)
    qed (simp_all add: attr_effect_def)
    from AOther show "read_attribute_list d th (Suc m) (enc_attr (AOther n bs) @ fp) c
        = read_attribute_list d th m fp (attr_effect th (AOther n bs) c)"
      using c by (auto simp: eff enc_attr_data_def named_def seekm_def unat_count32)
  qed
qed

lemma read_attrs_ok:
  assumes "list_all (wf_attr p th) as" and "attrs_depth as \<le> d" and "cc_pool c = p" and "thing_ok th c"
    and "length as < 2 ^ 16"
  shows "readAttributes d th (enc_attrs as @ fp) c = Some (Inr (fold (attr_effect th) as c, fp))"
  using assms reads_attr_wf by (intro reads_attrs) (auto simp: list_all_iff)

section \<open>Fields\<close>

lemma reverse_loop_rev: "reverse_loop (length xs) (length ys) (xs @ ys @ zs) = xs @ rev ys @ zs"
proof (induction "length ys" arbitrary: xs ys zs rule: less_induct)
  case less
  show ?case
  proof (cases "length ys > 1")
    case False
    then show ?thesis by (cases ys) (auto simp: reverse_loop.simps)
  next
    case True
    then obtain a m b where ys: "ys = a # m @ [b]" by (metis One_nat_def append_butlast_last_id length_Cons less_nat_zero_code
        list.exhaust list.size(3) nat_neq_iff)
    have l: "length xs + length ys - 1 = length (xs @ a # m)" by (simp add: ys)
    have "(xs @ ys @ zs)[length xs := (xs @ ys @ zs) ! (length xs + length ys - 1),
        length xs + length ys - 1 := (xs @ ys @ zs) ! length xs] = (xs @ [b]) @ m @ (a # zs)"
    proof -
      have e: "xs @ ys @ zs = (xs @ a # m) @ b # zs" by (simp add: ys)
      have "(xs @ ys @ zs) ! (length xs + length ys - 1) = b" unfolding l e by (rule nth_append_length)
      moreover have "(xs @ ys @ zs) ! length xs = a" by (simp add: ys)
      moreover have "(xs @ ys @ zs)[length xs := b] = (xs @ b # m) @ b # zs" by (simp add: ys)
      moreover have "((xs @ b # m) @ b # zs)[length (xs @ b # m) := a] = (xs @ b # m) @ a # zs" by (rule list_update_length)
      ultimately show ?thesis using l by simp
    qed
    moreover have "reverse_loop (length (xs @ [b])) (length m) ((xs @ [b]) @ m @ (a # zs)) = (xs @ [b]) @ rev m @ (a # zs)"
      using less [of m "xs @ [b]" "a # zs"] ys by simp
    ultimately show ?thesis using True
      by (subst reverse_loop.simps) (simp add: ys)
  qed
qed

record member_spec =
  mb_flags :: uint16
  mb_name :: uint16
  mb_sig :: uint16
  mb_attrs :: "cattr list"

definition enc_member :: "member_spec \<Rightarrow> bytes" where
  "enc_member m = enc_u2 (mb_flags m) @ enc_u2 (mb_name m) @ enc_u2 (mb_sig m) @ enc_attrs (mb_attrs m)"

definition enc_members :: "member_spec list \<Rightarrow> bytes" where
  "enc_members ms = enc_count ms @ concat (map enc_member ms)"

definition utf8_of :: "cpool \<Rightarrow> uint16 \<Rightarrow> string" where
  "utf8_of p n = (case utf8_const (unat n) p of Inr s \<Rightarrow> s | Inl _ \<Rightarrow> [])"

definition wf_member :: "cpool \<Rightarrow> thing \<Rightarrow> nat \<Rightarrow> member_spec \<Rightarrow> bool" where
  "wf_member p th d m \<longleftrightarrow> named p (mb_name m) (utf8_of p (mb_name m)) \<and> named p (mb_sig m) (utf8_of p (mb_sig m)) \<and>
     list_all (wf_attr p th) (mb_attrs m) \<and> length (mb_attrs m) < 2 ^ 16 \<and> attrs_depth (mb_attrs m) \<le> d"

definition static :: "member_spec \<Rightarrow> bool" where
  "static m \<longleftrightarrow> mb_flags m AND ACC_STATIC_FLAG \<noteq> 0"

definition new_field :: "cpool \<Rightarrow> member_spec \<Rightarrow> cfield" where
  "new_field p m = \<lparr>cf_name = utf8_of p (mb_name m), cf_sig = utf8_of p (mb_sig m),
     cf_acc = mb_flags m OR FIELD_UNRESOLVED_FLAG, cf_constidx = 0\<rparr>"

definition field_of :: "cpool \<Rightarrow> member_spec \<Rightarrow> cfield" where
  "field_of p m = fold field_attr (mb_attrs m) (new_field p m)"

lemma wf_attr_field: "wf_attr p (TField i) a = wf_attr p (TField j) a"
  by (cases a) simp_all

lemma wf_attr_method: "wf_attr p (TMethod i) a = wf_attr p (TMethod j) a"
proof (induction a)
  case (ACode n st lo code et as)
  then have "list_all (wf_attr p (TMethod i)) as = list_all (wf_attr p (TMethod j)) as" by (auto simp: list_all_iff)
  then show ?case by simp
qed simp_all

text \<open>The array while the fields are read: static fields from its start, instance fields from its end.\<close>

definition fields_state :: "cclass \<Rightarrow> cfield list \<Rightarrow> nat \<Rightarrow> cfield list \<Rightarrow> cclass" where
  "fields_state c S k I =
     c\<lparr>cc_bfsize := int k, cc_nsfields := int (length S),
       cc_fields := map Some S @ replicate k None @ rev (map Some I)\<rparr>"

lemma short_id: "0 \<le> n \<Longrightarrow> n < 2 ^ 15 \<Longrightarrow> to_short n = n"
  unfolding to_short_def by (rule sint_in_range) simp_all

lemma uint_count16: "length xs < 2 ^ 16 \<Longrightarrow> uint (of_nat (length xs) :: uint16) = int (length xs)"
  by (simp add: unsigned_of_nat take_bit_nat_eq_self)

lemma nth_middle: "length xs = n \<Longrightarrow> (xs @ y # zs) ! n = y" and upd_middle: "length xs = n \<Longrightarrow> (xs @ y # zs)[n := w] = xs @ w # zs"
  by auto

lemma read_field_step:
  assumes wf: "wf_member (cc_pool c) (TField 0) d m" and len: "length S + Suc k + length I < 2 ^ 15"
  shows "read_member d addField (enc_member m @ fp) (fields_state c S (Suc k) I) =
    Some (Inr (if static m then fields_state c (S @ [field_of (cc_pool c) m]) k I
               else fields_state c S k (I @ [field_of (cc_pool c) m]), fp))"
proof -
  let ?p = "cc_pool c" and ?f = "new_field (cc_pool c) m"
  have nm: "named ?p (mb_name m) (utf8_of ?p (mb_name m))" "named ?p (mb_sig m) (utf8_of ?p (mb_sig m))"
    and at: "\<And>i. list_all (wf_attr ?p (TField i)) (mb_attrs m)" "length (mb_attrs m) < 2 ^ 16" "attrs_depth (mb_attrs m) \<le> d"
    using wf wf_attr_field [of ?p 0] by (auto simp: wf_member_def list_all_iff)
  show ?thesis
  proof (cases "static m")
    case True
    let ?i = "length S"
    let ?c = "fields_state c (S @ [?f]) k I"
    have "addField (mb_flags m) (mb_name m) (mb_sig m) (fields_state c S (Suc k) I) = Inr (TField ?i, ?c)"
      using nm True len short_id [of "int (length S) + 1"]
      by (simp add: addField_def named_def fields_state_def static_def new_field_def nth_append upd_middle)
    moreover have "fold (attr_effect (TField ?i)) (mb_attrs m) ?c = fields_state c (S @ [field_of ?p m]) k I"
      by (subst fold_effect_field [where f = ?f]) (simp_all add: fields_state_def nth_append field_of_def upd_middle)
    moreover have "readAttributes d (TField ?i) (enc_attrs (mb_attrs m) @ fp) ?c
        = Some (Inr (fold (attr_effect (TField ?i)) (mb_attrs m) ?c, fp))"
      by (rule read_attrs_ok [OF at(1) at(3) _ _ at(2)]) (simp_all add: fields_state_def thing_ok_def nth_append)
    ultimately show ?thesis using True by (simp add: read_member_def enc_member_def del: readAttributes.simps)
  next
    case False
    let ?i = "length S + k"
    let ?c = "fields_state c S k (I @ [?f])"
    have arr: "map Some S @ replicate (Suc k) None @ rev (map Some I)
        = (map Some S @ replicate k None) @ None # rev (map Some I)"
      by (simp add: replicate_append_same [symmetric])
    have upd: "(map Some S @ replicate (Suc k) None @ rev (map Some I))[?i := Some ?f]
        = map Some S @ replicate k None @ rev (map Some (I @ [?f]))"
      unfolding arr using upd_middle [of "map Some S @ replicate k None" ?i None "rev (map Some I)" "Some ?f"] by simp
    have "addField (mb_flags m) (mb_name m) (mb_sig m) (fields_state c S (Suc k) I) = Inr (TField ?i, ?c)"
      using nm False upd
      by (simp add: addField_def named_def fields_state_def static_def new_field_def nat_add_distrib add.commute)
    moreover have at_i: "cc_fields ?c ! ?i = Some ?f" "?i < length (cc_fields ?c)"
      by (simp_all add: fields_state_def nth_append)
    moreover have "fold (attr_effect (TField ?i)) (mb_attrs m) ?c = fields_state c S k (I @ [field_of ?p m])"
    proof -
      have "(cc_fields ?c)[?i := Some (field_of ?p m)] = map Some S @ replicate k None @ rev (map Some (I @ [field_of ?p m]))"
        by (simp add: fields_state_def upd_middle [of "map Some S @ replicate k None", simplified])
      then show ?thesis by (subst fold_effect_field [OF at_i(2,1)]) (simp add: fields_state_def field_of_def)
    qed
    moreover have "readAttributes d (TField ?i) (enc_attrs (mb_attrs m) @ fp) ?c
        = Some (Inr (fold (attr_effect (TField ?i)) (mb_attrs m) ?c, fp))"
      using at_i by (intro read_attrs_ok [OF at(1) at(3) _ _ at(2)]) (simp_all add: thing_ok_def fields_state_def)
    ultimately show ?thesis using False by (simp add: read_member_def enc_member_def del: readAttributes.simps)
  qed
qed

lemma read_fields_loop:
  "list_all (wf_member (cc_pool c) (TField 0) d) fs \<Longrightarrow> length S + length fs + length I < 2 ^ 15 \<Longrightarrow>
   read_members d addField (length fs) (concat (map enc_member fs) @ fp) (fields_state c S (length fs) I) =
     Some (Inr (fields_state c (S @ map (field_of (cc_pool c)) (filter static fs)) 0
                  (I @ map (field_of (cc_pool c)) (filter (\<lambda>m. \<not> static m) fs)), fp))"
proof (induction fs arbitrary: S I)
  case (Cons m fs)
  have "read_member d addField (enc_member m @ concat (map enc_member fs) @ fp) (fields_state c S (Suc (length fs)) I) =
    Some (Inr (if static m then fields_state c (S @ [field_of (cc_pool c) m]) (length fs) I
               else fields_state c S (length fs) (I @ [field_of (cc_pool c) m]), concat (map enc_member fs) @ fp))"
    using Cons.prems by (intro read_field_step) auto
  with Cons.IH [of "S @ [field_of (cc_pool c) m]" I] Cons.IH [of S "I @ [field_of (cc_pool c) m]"] Cons.prems
  show ?case by (cases "static m") simp_all
qed simp

lemma readFields_ok:
  assumes "list_all (wf_member (cc_pool c) (TField 0) d) fs" and len: "length fs < 2 ^ 15" and ns: "cc_nsfields c = 0"
  shows "readFields d (enc_members fs @ fp) c = Some (Inr
     (c\<lparr>cc_nfields := int (length fs), cc_bfsize := 0, cc_nsfields := int (length (filter static fs)),
        cc_fields := map (Some \<circ> field_of (cc_pool c)) (filter static fs @ filter (\<lambda>m. \<not> static m) fs)\<rparr>, fp))"
proof -
  let ?N = "int (length fs)"
  let ?S = "map (field_of (cc_pool c)) (filter static fs)" and ?I = "map (field_of (cc_pool c)) (filter (\<lambda>m. \<not> static m) fs)"
  have c: "c\<lparr>cc_nfields := to_short ?N, cc_bfsize := ?N, cc_fields := replicate (length fs) None\<rparr>
      = fields_state (c\<lparr>cc_nfields := ?N\<rparr>) [] (length fs) []"
    using len ns by (simp add: fields_state_def short_id)
  have "read_members d addField (length fs) (concat (map enc_member fs) @ fp) (fields_state (c\<lparr>cc_nfields := ?N\<rparr>) [] (length fs) [])
      = Some (Inr (fields_state (c\<lparr>cc_nfields := ?N\<rparr>) ?S 0 ?I, fp))"
    using read_fields_loop [of "c\<lparr>cc_nfields := ?N\<rparr>" d fs "[]" "[]" fp] assms by simp
  moreover have "finishFields (fields_state (c\<lparr>cc_nfields := ?N\<rparr>) ?S 0 ?I)
      = c\<lparr>cc_nfields := ?N, cc_bfsize := 0, cc_nsfields := int (length ?S), cc_fields := map Some (?S @ ?I)\<rparr>"
  proof -
    have "length fs = length ?S + length ?I" using sum_length_filter_compl [of static fs] by simp
    then have "nat (?N - int (length ?S)) = length (map Some (rev ?I))" by simp
    with reverse_loop_rev [of "map Some ?S" "rev (map Some ?I)" "[]"] show ?thesis
      by (simp add: finishFields_def fields_state_def rev_map)
  qed
  ultimately show ?thesis
    using len c by (simp add: readFields_def enc_members_def enc_count_def unat_count16 uint_count16 Let_def comp_def)
qed

section \<open>Methods\<close>

definition final_method :: "cpool \<Rightarrow> member_spec \<Rightarrow> bool" where
  "final_method p m \<longleftrightarrow> utf8_of p (mb_name m) = ''finalize'' \<and> utf8_of p (mb_sig m) = ''()V''"

definition new_method :: "cpool \<Rightarrow> uint16 \<Rightarrow> member_spec \<Rightarrow> cmethod" where
  "new_method p acc m =
     (case countInsAndOuts (utf8_of p (mb_sig m)) of
        Inr (ins, outs, rt) \<Rightarrow>
          \<lparr>cm_name = utf8_of p (mb_name m), cm_sig = utf8_of p (mb_sig m),
           cm_acc = (if acc AND ACC_FINAL_FLAG \<noteq> 0 then mb_flags m OR ACC_FINAL_FLAG else mb_flags m),
           cm_in = ins, cm_out = outs, cm_rettype = rt, cm_iidx = - 1, cm_bcode = None, cm_stacksz = 0, cm_localsz = 0,
           cm_etable = None, cm_lines = None\<rparr>
      | Inl e \<Rightarrow> undefined)"

definition method_of :: "cpool \<Rightarrow> uint16 \<Rightarrow> member_spec \<Rightarrow> cmethod" where
  "method_of p acc m = fold method_attr (mb_attrs m) (new_method p acc m)"

definition wf_method :: "cpool \<Rightarrow> nat \<Rightarrow> member_spec \<Rightarrow> bool" where
  "wf_method p d m \<longleftrightarrow> wf_member p (TMethod 0) d m \<and> \<not> isl (countInsAndOuts (utf8_of p (mb_sig m)))"

definition methods_state :: "cclass \<Rightarrow> bool \<Rightarrow> cmethod list \<Rightarrow> cclass" where
  "methods_state c fin M = c\<lparr>cc_final := fin, cc_methods := M\<rparr>"

lemma read_method_step:
  assumes wf: "wf_method (cc_pool c) d m" and len: "length M < 2 ^ 15"
  shows "read_member d addMethod (enc_member m @ fp) (methods_state c fin M) =
    Some (Inr (methods_state c (fin \<or> final_method (cc_pool c) m) (M @ [method_of (cc_pool c) (cc_acc c) m]), fp))"
proof -
  let ?p = "cc_pool c" and ?m = "new_method (cc_pool c) (cc_acc c) m" and ?i = "length M"
  have nm: "named ?p (mb_name m) (utf8_of ?p (mb_name m))" "named ?p (mb_sig m) (utf8_of ?p (mb_sig m))"
    and at: "\<And>i. list_all (wf_attr ?p (TMethod i)) (mb_attrs m)" "length (mb_attrs m) < 2 ^ 16" "attrs_depth (mb_attrs m) \<le> d"
    using wf wf_attr_method [of ?p 0] by (auto simp: wf_method_def wf_member_def list_all_iff)
  obtain ins outs rt where sig: "countInsAndOuts (utf8_of ?p (mb_sig m)) = Inr (ins, outs, rt)"
    using wf by (cases "countInsAndOuts (utf8_of ?p (mb_sig m))") (auto simp: wf_method_def)
  let ?c = "methods_state c (fin \<or> final_method ?p m) (M @ [?m])"
  have "addMethod (mb_flags m) (mb_name m) (mb_sig m) (methods_state c fin M) = Inr (TMethod ?i, ?c)"
    using nm len by (simp add: addMethod_def named_def methods_state_def sig new_method_def final_method_def)
  moreover have "fold (attr_effect (TMethod ?i)) (mb_attrs m) ?c
      = methods_state c (fin \<or> final_method ?p m) (M @ [method_of ?p (cc_acc c) m])"
    by (subst fold_effect_method) (simp_all add: methods_state_def method_of_def)
  moreover have "readAttributes d (TMethod ?i) (enc_attrs (mb_attrs m) @ fp) ?c
      = Some (Inr (fold (attr_effect (TMethod ?i)) (mb_attrs m) ?c, fp))"
    by (rule read_attrs_ok [OF at(1) at(3) _ _ at(2)]) (simp_all add: methods_state_def thing_ok_def)
  ultimately show ?thesis by (simp add: read_member_def enc_member_def del: readAttributes.simps)
qed

lemma read_methods_loop:
  "list_all (wf_method (cc_pool c) d) ms \<Longrightarrow> length M + length ms \<le> 2 ^ 15 \<Longrightarrow>
   read_members d addMethod (length ms) (concat (map enc_member ms) @ fp) (methods_state c fin M) =
     Some (Inr (methods_state c (fin \<or> list_ex (final_method (cc_pool c)) ms)
                  (M @ map (method_of (cc_pool c) (cc_acc c)) ms), fp))"
proof (induction ms arbitrary: M fin)
  case (Cons m ms)
  have "read_member d addMethod (enc_member m @ concat (map enc_member ms) @ fp) (methods_state c fin M) =
    Some (Inr (methods_state c (fin \<or> final_method (cc_pool c) m) (M @ [method_of (cc_pool c) (cc_acc c) m]),
               concat (map enc_member ms) @ fp))"
    using Cons.prems by (intro read_method_step) auto
  with Cons.IH [of "M @ [method_of (cc_pool c) (cc_acc c) m]" "fin \<or> final_method (cc_pool c) m"] Cons.prems
  show ?case by (simp add: disj_assoc)
qed simp

lemma readMethods_ok:
  assumes "list_all (wf_method (cc_pool c) d) ms" and len: "length ms \<le> 2 ^ 15"
  shows "readMethods d (enc_members ms @ fp) c = Some (Inr
     (c\<lparr>cc_final := cc_final c \<or> list_ex (final_method (cc_pool c)) ms,
        cc_methods := map (method_of (cc_pool c) (cc_acc c)) ms\<rparr>, fp))"
proof -
  have "c\<lparr>cc_methods := []\<rparr> = methods_state c (cc_final c) []" by (simp add: methods_state_def)
  then show ?thesis using read_methods_loop [OF assms(1), of "[]" fp "cc_final c"] len
    by (simp add: readMethods_def enc_members_def enc_count_def unat_count16) (simp add: methods_state_def)
qed

section \<open>Classes\<close>

record class_spec =
  cs_pool :: "centry list"
  cs_minor :: uint16
  cs_major :: uint16
  cs_flags :: uint16
  cs_this :: uint16
  cs_super :: uint16
  cs_ifaces :: "uint16 list"
  cs_fields :: "member_spec list"
  cs_methods :: "member_spec list"
  cs_attrs :: "cattr list"

definition enc_class :: "class_spec \<Rightarrow> bytes" where
  "enc_class s = enc_u4 JAVAMAGIC @ enc_u2 (cs_minor s) @ enc_u2 (cs_major s) @ encode_pool (cs_pool s) @
     enc_u2 (cs_flags s) @ enc_u2 (cs_this s) @ enc_u2 (cs_super s) @ enc_count (cs_ifaces s) @
     concat (map enc_u2 (cs_ifaces s)) @ enc_members (cs_fields s) @ enc_members (cs_methods s) @ enc_attrs (cs_attrs s)"

definition pool_of :: "centry list \<Rightarrow> cpool" where
  "pool_of es = \<lparr>pool_size = length (all_cells es), tags = map fst (all_cells es),
     pdata = map (name_cell (all_cells es)) (all_cells es)\<rparr>"

definition wf_class :: "nat \<Rightarrow> class_spec \<Rightarrow> bool" where
  "wf_class d s \<longleftrightarrow>
     (\<forall>e\<in>set (cs_pool s). wf_entry e) \<and> length (all_cells (cs_pool s)) < 2 ^ 16 \<and> names_ok (all_cells (cs_pool s)) \<and>
     (let p = pool_of (cs_pool s) in
        pool_tag (unat (cs_this s)) p = Inr CONSTANT_Class \<and> utf8_const (unat (cs_this s)) p = Inr (utf8_of p (cs_this s)) \<and>
        length (cs_ifaces s) < 2 ^ 16 \<and>
        list_all (wf_member p (TField 0) d) (cs_fields s) \<and> length (cs_fields s) < 2 ^ 15 \<and>
        list_all (wf_method p d) (cs_methods s) \<and> length (cs_methods s) \<le> 2 ^ 15 \<and>
        list_all (wf_attr p TClass) (cs_attrs s) \<and> length (cs_attrs s) < 2 ^ 16 \<and> attrs_depth (cs_attrs s) \<le> d)"

text \<open>The class a file describes, in the object \<open>cl\<close>.\<close>

definition class_of :: "class_spec \<Rightarrow> cclass \<Rightarrow> cclass" where
  "class_of s cl =
     (let p = pool_of (cs_pool s) in
      cl\<lparr>cc_pool := p, cc_name := utf8_of p (cs_this s), cc_super := cs_super s, cc_acc := cs_flags s,
         cc_ifaces := cs_ifaces s,
         cc_fields := map (Some \<circ> field_of p) (filter static (cs_fields s) @ filter (\<lambda>m. \<not> static m) (cs_fields s)),
         cc_bfsize := 0, cc_nfields := int (length (cs_fields s)),
         cc_nsfields := int (length (filter static (cs_fields s))),
         cc_methods := map (method_of p (cs_flags s)) (cs_methods s),
         cc_final := list_ex (final_method p) (cs_methods s), cc_state := CSTATE_LOADED\<rparr>)"

lemma readInterfaces_ok:
  assumes "length vs < 2 ^ 16" and "cc_ifaces c = []"
  shows "readInterfaces (enc_count vs @ concat (map enc_u2 vs) @ fp) c = Inr (c\<lparr>cc_ifaces := vs\<rparr>, fp)"
proof (cases vs)
  case Nil
  have "c\<lparr>cc_ifaces := []\<rparr> = c" using assms(2) by simp
  with Nil show ?thesis by (simp add: readInterfaces_def enc_count_def)
next
  case (Cons v vs')
  have "of_nat (length vs) \<noteq> (0 :: uint16)"
    using unat_count16 [OF assms(1)] Cons by (metis length_0_conv list.discI unat_eq_zero)
  then show ?thesis using assms(1)
    by (simp add: readInterfaces_def enc_count_def unat_count16 read_u2s_enc addInterfaces_def)
qed

text \<open>
  C23. Reading inverts the class file format: from the encoding of any well-formed class (its
  constants, flags, interfaces, fields with constant values, methods with code, exception tables,
  line numbers and nested or unknown attributes), \<open>readClass\<close> builds exactly the described class in
  a fresh class object, with the static fields before the instance fields, each group in the order
  of the file, and leaves the rest of the input.
\<close>

theorem readClass_roundtrip:
  assumes "wf_class d s" and "cc_nsfields cl = 0"
  shows "readClass d (enc_class s @ rest) cl = Some (Inr (class_of s cl, rest))"
proof -
  let ?p = "pool_of (cs_pool s)" and ?fp = "rest"
  have pool: "readConstantPool (encode_pool (cs_pool s) @ fp) = Inr (?p, fp)" for fp
    using readConstantPool_encoded [of "cs_pool s" fp] assms(1) by (simp add: wf_class_def pool_of_def)
  have wf: "pool_tag (unat (cs_this s)) ?p = Inr CONSTANT_Class" "utf8_const (unat (cs_this s)) ?p = Inr (utf8_of ?p (cs_this s))"
    "length (cs_ifaces s) < 2 ^ 16" "list_all (wf_member ?p (TField 0) d) (cs_fields s)" "length (cs_fields s) < 2 ^ 15"
    "list_all (wf_method ?p d) (cs_methods s)" "length (cs_methods s) \<le> 2 ^ 15"
    "list_all (wf_attr ?p TClass) (cs_attrs s)" "length (cs_attrs s) < 2 ^ 16" "attrs_depth (cs_attrs s) \<le> d"
    using assms(1) by (simp_all add: wf_class_def Let_def)
  define c0 where "c0 = cl\<lparr>cc_pool := ?p, cc_name := utf8_of ?p (cs_this s), cc_methods := [], cc_super := cs_super s,
      cc_fields := [], cc_bfsize := 0, cc_acc := cs_flags s, cc_ifaces := [], cc_state := CSTATE_LOADED, cc_final := False\<rparr>"
  have add: "addClass (cs_this s) (cs_super s) (cs_flags s) (cl\<lparr>cc_pool := ?p\<rparr>) = Inr (Some c0)"
    using wf(1,2) by (simp add: addClass_def c0_def)
  define c1 where "c1 = c0\<lparr>cc_ifaces := cs_ifaces s\<rparr>"
  have r1: "readInterfaces (enc_count (cs_ifaces s) @ concat (map enc_u2 (cs_ifaces s)) @ fp) c0 = Inr (c1, fp)" for fp
    unfolding c1_def by (rule readInterfaces_ok [OF wf(3)]) (simp add: c0_def)
  have p1: "cc_pool c1 = ?p" "cc_nsfields c1 = 0" using assms(2) by (simp_all add: c1_def c0_def)
  note r2 = readFields_ok [OF _ wf(5) p1(2), unfolded p1(1), OF wf(4)]
  define c2 where "c2 = c1\<lparr>cc_nfields := int (length (cs_fields s)), cc_bfsize := 0,
      cc_nsfields := int (length (filter static (cs_fields s))),
      cc_fields := map (Some \<circ> field_of ?p) (filter static (cs_fields s) @ filter (\<lambda>m. \<not> static m) (cs_fields s))\<rparr>"
  have p2: "cc_pool c2 = ?p" by (simp add: c2_def p1)
  note r3 = readMethods_ok [OF _ wf(7), of c2, unfolded p2, OF wf(6)]
  have r4: "readAttributes d TClass (enc_attrs (cs_attrs s) @ fp) c = Some (Inr (c, fp))" if "cc_pool c = ?p" for c fp
    using read_attrs_ok [OF wf(8) wf(10) that _ wf(9), of fp] by (simp add: thing_ok_def fold_effect_class del: readAttributes.simps)
  have fin: "c2\<lparr>cc_final := cc_final c2 \<or> list_ex (final_method ?p) (cs_methods s),
      cc_methods := map (method_of ?p (cc_acc c2)) (cs_methods s)\<rparr> = class_of s cl"
    by (simp add: c2_def c1_def c0_def class_of_def Let_def)
  have r2': "readFields d (enc_members (cs_fields s) @ fp) c1 = Some (Inr (c2, fp))" for fp
    unfolding c2_def by (rule r2)
  have r3': "readMethods d (enc_members (cs_methods s) @ fp) c2 = Some (Inr (class_of s cl, fp))" for fp
    using r3 [of fp] unfolding fin .
  have "cc_pool (class_of s cl) = ?p" by (simp add: class_of_def Let_def)
  from r4 [OF this] pool add r1 r2' r3' show ?thesis
    by (simp add: readClass_def enc_class_def del: readAttributes.simps)
qed

text \<open>A class with a constant field, a method with code and line numbers, and an unknown attribute.\<close>

definition demo_class_spec :: class_spec where
  "demo_class_spec = \<lparr>
     cs_pool = [EUtf8 [65], EName CONSTANT_Class 1, EUtf8 [73], EUtf8 [40, 41, 86], EUtf8 [67, 111, 100, 101],
                EUtf8 [67, 111, 110, 115, 116, 97, 110, 116, 86, 97, 108, 117, 101], EInt CONSTANT_Integer 7],
     cs_minor = 3, cs_major = 45, cs_flags = 1, cs_this = 2, cs_super = 0, cs_ifaces = [],
     cs_fields = [\<lparr>mb_flags = 1, mb_name = 1, mb_sig = 3, mb_attrs = []\<rparr>,
                  \<lparr>mb_flags = 8, mb_name = 3, mb_sig = 3, mb_attrs = [AConst 6 7]\<rparr>],
     cs_methods = [\<lparr>mb_flags = 1, mb_name = 1, mb_sig = 4, mb_attrs = [ACode 5 1 1 [0xB1] [] []]\<rparr>],
     cs_attrs = [AOther 1 [0, 0]]\<rparr>"

lemma demo_class_pool:
  "pool_of (cs_pool demo_class_spec) =
     \<lparr>pool_size = 8, tags = [0, 1, 7, 1, 1, 1, 1, 3],
      pdata = [SWord 0, SUtf8 ''A'', SUtf8 ''A'', SUtf8 ''I'', SUtf8 ''()V'', SUtf8 ''Code'', SUtf8 ''ConstantValue'', SWord 7]\<rparr>"
  by (simp add: demo_class_spec_def pool_of_def all_cells_def name_cell_def const_tags utf8_string_def char_of_def bit_0)

lemma demo_class_wf: "wf_class 1 demo_class_spec"
proof -
  have "countInsAndOuts ''()V'' = Inr (0, 0, CHR ''V'')" by code_simp
  then show ?thesis
    unfolding wf_class_def Let_def demo_class_pool
    by (simp add: demo_class_spec_def all_cells_def names_ok_def const_tags pool_tag_def utf8_const_def utf8_of_def
        wf_member_def wf_method_def named_def attrs_depth_def)
qed

theorem readClass_roundtrip_witness:
  "\<exists>cl. readClass 1 (enc_class demo_class_spec @ [42]) (cl\<lparr>cc_nsfields := 0\<rparr>)
     = Some (Inr (class_of demo_class_spec (cl\<lparr>cc_nsfields := 0\<rparr>), [42])) \<and>
   map (map_option cf_constidx) (cc_fields (class_of demo_class_spec cl)) = [Some 7, Some 0]"
proof -
  have "map (map_option cf_constidx) (cc_fields (class_of demo_class_spec cl)) = [Some 7, Some 0]" for cl
    unfolding class_of_def Let_def demo_class_pool
    by (simp add: demo_class_spec_def static_def ACC_STATIC_FLAG_def field_of_def new_field_def)
  then show ?thesis using readClass_roundtrip [OF demo_class_wf, of _ "[42]"] by simp
qed

end
