(* ===== verification/Open_Addressing.thy ===== *)
theory Open_Addressing
  imports LaTTe_Prelude
begin

text \<open>
  Hash tables with open addressing, the interface the two tables of \<^verbatim>\<open>runtime/string.c\<close> share: a
  slot is \<open>NULL\<close>, the mark of a deleted entry, or a pointer. The locale fixes the sequence in
  which the slots are probed for a key; what the clients rely on (an entry stays where the search
  for its key looks) is proved once for every such sequence.
\<close>

datatype 'a slot = Null | Deleted | Live 'a

text \<open>The pointers in a table, in order, and the number of slots that are not \<open>NULL\<close>.\<close>

fun lives :: "'a slot list \<Rightarrow> 'a list" where
  "lives [] = []"
| "lives (Live x # tab) = x # lives tab"
| "lives (Null # tab) = lives tab"
| "lives (Deleted # tab) = lives tab"

definition used :: "'a slot list \<Rightarrow> nat" where
  "used tab = length (filter (\<lambda>s. s \<noteq> Null) tab)"

lemma lives_append: "lives (tab @ tab') = lives tab @ lives tab'"
  by (induction tab rule: lives.induct) simp_all

lemma lives_rev: "lives (rev tab) = rev (lives tab)"
  by (induction tab rule: lives.induct) (simp_all add: lives_append)

lemma set_lives: "set (lives tab) = {x. Live x \<in> set tab}"
  by (induction tab rule: lives.induct) auto

lemma lives_replicate [simp]: "lives (replicate n Null) = []"
  by (induction n) simp_all

lemma used_replicate [simp]: "used (replicate n Null) = 0"
  by (simp add: used_def)

lemma length_lives: "Deleted \<notin> set tab \<Longrightarrow> length (lives tab) = used tab"
  by (induction tab rule: lives.induct) (auto simp: used_def)

lemma length_lives_le: "length (lives tab) \<le> used tab"
  by (induction tab rule: lives.induct) (auto simp: used_def)

lemma used_store:
  "i < length tab \<Longrightarrow> used (tab[i := Live x]) = (if tab ! i = Null then Suc (used tab) else used tab)"
proof (induction tab arbitrary: i)
  case (Cons s tab)
  then show ?case by (cases i) (auto simp: used_def)
qed simp

lemma length_lives_store:
  "i < length tab \<Longrightarrow> tab ! i = Null \<or> tab ! i = Deleted \<Longrightarrow> length (lives (tab[i := Live x])) = Suc (length (lives tab))"
proof (induction tab arbitrary: i rule: lives.induct)
  case (2 y tab)
  then show ?case by (cases i) auto
next
  case (3 tab)
  then show ?case by (cases i) auto
next
  case (4 tab)
  then show ?case by (cases i) auto
qed simp

lemma length_lives_delete:
  "i < length tab \<Longrightarrow> tab ! i = Live x \<Longrightarrow> Suc (length (lives (tab[i := Deleted]))) = length (lives tab)"
proof (induction tab arbitrary: i rule: lives.induct)
  case (2 y tab)
  then show ?case by (cases i) auto
next
  case (3 tab)
  then show ?case by (cases i) auto
next
  case (4 tab)
  then show ?case by (cases i) auto
qed simp

lemma distinct_lives:
  assumes "\<And>i j x y. i < length tab \<Longrightarrow> j < length tab \<Longrightarrow> tab ! i = Live x \<Longrightarrow> tab ! j = Live y \<Longrightarrow> ky x = ky y \<Longrightarrow> i = j"
  shows "distinct (map ky (lives tab))"
  using assms
proof (induction tab)
  case (Cons s tab)
  have tl: "distinct (map ky (lives tab))"
  proof (rule Cons.IH)
    fix i j x y assume "i < length tab" "j < length tab" "tab ! i = Live x" "tab ! j = Live y" "ky x = ky y"
    with Cons.prems [of "Suc i" "Suc j" x y] show "i = j" by simp
  qed
  show ?case
  proof (cases s)
    case (Live x)
    have "ky y \<noteq> ky x" if "y \<in> set (lives tab)" for y
    proof
      assume "ky y = ky x"
      from that obtain j where "j < length tab" "tab ! j = Live y" by (auto simp: set_lives in_set_conv_nth)
      with Cons.prems [of 0 "Suc j" x y] Live \<open>ky y = ky x\<close> show False by simp
    qed
    then have "ky x \<notin> ky ` set (lives tab)" by (metis image_iff)
    with tl Live show ?thesis by simp
  qed (use tl in simp_all)
qed simp

locale open_addressing =
  fixes good :: "nat \<Rightarrow> bool"
    and probe :: "nat \<Rightarrow> 'k \<Rightarrow> nat \<Rightarrow> nat"
  assumes probe_less: "good s \<Longrightarrow> probe s k n < s"
begin

text \<open>The slot looked at in step \<open>n\<close>, and that steps before \<open>n\<close> neither found the key nor \<open>NULL\<close>.\<close>

definition at :: "'a slot list \<Rightarrow> 'k \<Rightarrow> nat \<Rightarrow> 'a slot" where
  "at tab k n = tab ! probe (length tab) k n"

definition passes :: "('a \<Rightarrow> 'k) \<Rightarrow> 'a slot list \<Rightarrow> 'k \<Rightarrow> nat \<Rightarrow> bool" where
  "passes ky tab k n \<longleftrightarrow> (\<forall>m<n. at tab k m \<noteq> Null \<and> (\<forall>y. at tab k m = Live y \<longrightarrow> ky y \<noteq> k))"

definition table_ok :: "('a \<Rightarrow> 'k) \<Rightarrow> 'a slot list \<Rightarrow> bool" where
  "table_ok ky tab \<longleftrightarrow> good (length tab) \<and>
     (\<forall>i<length tab. \<forall>x. tab ! i = Live x \<longrightarrow>
        (\<exists>n. probe (length tab) (ky x) n = i \<and> passes ky tab (ky x) n))"

definition entries :: "'a slot list \<Rightarrow> 'a set" where
  "entries tab = {x. Live x \<in> set tab}"

lemma in_entries: "x \<in> entries tab \<longleftrightarrow> (\<exists>i<length tab. tab ! i = Live x)"
  by (auto simp: entries_def in_set_conv_nth)

lemma probe_at: "good (length tab) \<Longrightarrow> at tab k n \<in> set tab"
  unfolding at_def by (rule nth_mem) (rule probe_less)

lemma table_ok_entry:
  assumes "table_ok ky tab" and "x \<in> entries tab"
  shows "\<exists>n. at tab (ky x) n = Live x \<and> passes ky tab (ky x) n"
  using assms unfolding table_ok_def entries_def at_def by (force simp: in_set_conv_nth)

text \<open>The step in which a search stops is unique, so two entries never have the same key.\<close>

lemma passes_stop:
  assumes "passes ky tab k n" and "passes ky tab k m"
    and "at tab k n = Null \<or> (\<exists>y. at tab k n = Live y \<and> ky y = k)"
    and "at tab k m = Null \<or> (\<exists>y. at tab k m = Live y \<and> ky y = k)"
  shows "n = m"
proof (rule ccontr)
  assume "n \<noteq> m"
  then consider "n < m" | "m < n" by linarith
  then show False
  proof cases
    case 1
    then have "at tab k n \<noteq> Null \<and> (\<forall>y. at tab k n = Live y \<longrightarrow> ky y \<noteq> k)"
      using assms(2) by (simp add: passes_def)
    with assms(3) show False by blast
  next
    case 2
    then have "at tab k m \<noteq> Null \<and> (\<forall>y. at tab k m = Live y \<longrightarrow> ky y \<noteq> k)"
      using assms(1) by (simp add: passes_def)
    with assms(4) show False by blast
  qed
qed

lemma entry_found:
  assumes "table_ok ky tab" and "x \<in> entries tab" and "passes ky tab (ky x) n"
    and "at tab (ky x) n = Null \<or> (\<exists>y. at tab (ky x) n = Live y \<and> ky y = ky x)"
  shows "at tab (ky x) n = Live x"
proof -
  from table_ok_entry [OF assms(1,2)] obtain m where m: "at tab (ky x) m = Live x" "passes ky tab (ky x) m" by blast
  then have "n = m" using passes_stop [OF assms(3) m(2) assms(4)] by blast
  with m show ?thesis by simp
qed

lemma entries_unique:
  assumes "table_ok ky tab" and "x \<in> entries tab" and "y \<in> entries tab" and "ky x = ky y"
  shows "x = y"
proof -
  from table_ok_entry [OF assms(1,3)] obtain m where m: "at tab (ky y) m = Live y" "passes ky tab (ky y) m" by blast
  with entry_found [OF assms(1,2), of m] assms(4) show ?thesis by auto
qed

lemma absent:
  assumes "table_ok ky tab" and "passes ky tab k n" and "at tab k n = Null" and "x \<in> entries tab"
  shows "ky x \<noteq> k"
  using entry_found [OF assms(1,4), of n] assms(2,3) by auto

lemma found_entry: "good (length tab) \<Longrightarrow> at tab k n = Live x \<Longrightarrow> x \<in> entries tab"
  using probe_at [of tab k n] by (simp add: entries_def)

text \<open>Storing an entry in a free slot of the sequence of its key.\<close>

lemma table_ok_store:
  assumes ok: "table_ok ky tab" and pass: "passes ky tab (ky x) n" and i: "i = probe (length tab) (ky x) n"
    and free: "tab ! i = Null \<or> tab ! i = Deleted" and new: "\<And>y. y \<in> entries tab \<Longrightarrow> ky y \<noteq> ky x"
  shows "table_ok ky (tab[i := Live x])"
proof -
  let ?t = "tab[i := Live x]"
  have g: "good (length tab)" and il: "i < length tab" using ok i probe_less by (auto simp: table_ok_def)
  have at: "at ?t k m = (if probe (length tab) k m = i then Live x else at tab k m)" for k m
    using il by (simp add: at_def nth_list_update)
  have "\<exists>n. probe (length ?t) (ky y) n = j \<and> passes ky ?t (ky y) n" if j: "j < length ?t" "?t ! j = Live y" for j y
  proof (cases "j = i")
    case True
    with j il have y: "y = x" by simp
    define n' where "n' = (LEAST m. probe (length tab) (ky x) m = i)"
    have n': "probe (length tab) (ky x) n' = i" "n' \<le> n"
      unfolding n'_def using i by (auto intro: LeastI Least_le)
    have "passes ky ?t (ky x) n'"
    proof -
      have "probe (length tab) (ky x) m \<noteq> i" if "m < n'" for m using that not_less_Least unfolding n'_def by blast
      with pass n'(2) show ?thesis unfolding passes_def at by (metis less_le_trans)
    qed
    with n'(1) y True show ?thesis by auto
  next
    case False
    with j have "tab ! j = Live y" "j < length tab" by auto
    then obtain m where m: "probe (length tab) (ky y) m = j" "passes ky tab (ky y) m"
      using ok by (auto simp: table_ok_def)
    have "ky x \<noteq> ky y" using new [of y] \<open>tab ! j = Live y\<close> \<open>j < length tab\<close> by (metis entries_def mem_Collect_eq nth_mem)
    with m(2) have "passes ky ?t (ky y) m" by (auto simp: passes_def at)
    with m(1) show ?thesis by auto
  qed
  with g show ?thesis by (simp add: table_ok_def)
qed

lemma table_ok_delete:
  assumes ok: "table_ok ky tab" and i: "i < length tab"
  shows "table_ok ky (tab[i := Deleted])"
proof -
  have at: "at (tab[i := Deleted]) k m = (if probe (length tab) k m = i then Deleted else at tab k m)" for k m
    using i by (simp add: at_def nth_list_update)
  have "passes ky (tab[i := Deleted]) k n" if "passes ky tab k n" for k n
    using that by (simp add: passes_def at)
  moreover have "tab ! j = Live y" if "j < length tab" "tab[i := Deleted] ! j = Live y" for j y
    using that by (cases "j = i") auto
  ultimately show ?thesis using ok unfolding table_ok_def by fastforce
qed

lemma table_ok_empty: "good s \<Longrightarrow> table_ok ky (replicate s Null)"
  by (simp add: table_ok_def)

text \<open>Only the keys of the entries matter.\<close>

lemma table_ok_cong:
  assumes "\<And>x. x \<in> entries tab \<Longrightarrow> ky' x = ky x" and "table_ok ky tab"
  shows "table_ok ky' tab"
proof -
  have g: "good (length tab)" using assms(2) by (simp add: table_ok_def)
  have "passes ky' tab k n" if "passes ky tab k n" for k n
    using that assms(1) found_entry [OF g] unfolding passes_def by metis
  moreover have "x \<in> entries tab" if "i < length tab" "tab ! i = Live x" for i x
    using that by (metis entries_def mem_Collect_eq nth_mem)
  ultimately show ?thesis using assms unfolding table_ok_def by metis
qed

lemma entries_store:
  assumes "i < length tab" and "tab ! i = Null \<or> tab ! i = Deleted"
  shows "entries (tab[i := Live x]) = insert x (entries tab)"
proof (rule set_eqI)
  fix y
  have "(\<exists>j<length tab. tab[i := Live x] ! j = Live y) \<longleftrightarrow> y = x \<or> (\<exists>j<length tab. tab ! j = Live y)"
  proof
    assume "\<exists>j<length tab. tab[i := Live x] ! j = Live y"
    then obtain j where "j < length tab" "tab[i := Live x] ! j = Live y" by blast
    then show "y = x \<or> (\<exists>j<length tab. tab ! j = Live y)" by (cases "j = i") auto
  next
    assume "y = x \<or> (\<exists>j<length tab. tab ! j = Live y)"
    then show "\<exists>j<length tab. tab[i := Live x] ! j = Live y"
    proof
      assume "\<exists>j<length tab. tab ! j = Live y"
      then obtain j where j: "j < length tab" "tab ! j = Live y" by blast
      with assms(2) have "j \<noteq> i" by auto
      with j show ?thesis by (auto intro!: exI [of _ j])
    qed (use assms(1) in \<open>auto intro!: exI [of _ i]\<close>)
  qed
  then show "y \<in> entries (tab[i := Live x]) \<longleftrightarrow> y \<in> insert x (entries tab)" by (simp add: in_entries)
qed

lemma entries_delete:
  assumes "table_ok ky tab" and "i < length tab" and "tab ! i = Live x"
  shows "entries (tab[i := Deleted]) = entries tab - {x}"
proof -
  have "j = i" if j: "j < length tab" "tab ! j = Live x" for j
  proof -
    from assms j obtain n m where "probe (length tab) (ky x) n = i" "passes ky tab (ky x) n"
      "probe (length tab) (ky x) m = j" "passes ky tab (ky x) m" unfolding table_ok_def by metis
    with passes_stop [of ky tab "ky x" n m] assms(3) j(2) show ?thesis by (simp add: at_def)
  qed
  then have same: "\<And>j. j < length tab \<Longrightarrow> tab ! j = Live x \<longleftrightarrow> j = i" using assms(3) by blast
  show ?thesis
  proof (rule set_eqI)
    fix y
    have "(\<exists>j<length tab. tab[i := Deleted] ! j = Live y) \<longleftrightarrow> (\<exists>j<length tab. j \<noteq> i \<and> tab ! j = Live y)"
      using assms(2) by (metis nth_list_update_eq nth_list_update_neq slot.distinct(5))
    also have "\<dots> \<longleftrightarrow> (\<exists>j<length tab. tab ! j = Live y) \<and> y \<noteq> x"
      using same assms(2,3) by (metis slot.inject)
    finally show "y \<in> entries (tab[i := Deleted]) \<longleftrightarrow> y \<in> entries tab - {x}" by (simp add: in_entries)
  qed
qed

text \<open>A search either stops in some step before the \<open>n\<close>-th or passes \<open>n\<close> slots.\<close>

definition stops :: "('a \<Rightarrow> 'k) \<Rightarrow> 'a slot list \<Rightarrow> 'k \<Rightarrow> nat \<Rightarrow> bool" where
  "stops ky tab k n \<longleftrightarrow> at tab k n = Null \<or> (\<exists>y. at tab k n = Live y \<and> ky y = k)"

lemma passes_0 [simp]: "passes ky tab k 0"
  by (simp add: passes_def)

lemma passes_Suc: "passes ky tab k (Suc n) \<longleftrightarrow> passes ky tab k n \<and> \<not> stops ky tab k n"
  by (auto simp: passes_def stops_def less_Suc_eq)

lemma passes_less:
  assumes "passes ky tab k n" and "m \<le> n"
  shows "passes ky tab k m"
  unfolding passes_def
proof (intro allI impI)
  fix j assume "j < m"
  then have "j < n" using assms(2) by simp
  with assms(1) show "at tab k j \<noteq> Null \<and> (\<forall>y. at tab k j = Live y \<longrightarrow> ky y \<noteq> k)" by (simp add: passes_def)
qed

lemma passes_or_stops: "passes ky tab k n \<or> (\<exists>j<n. passes ky tab k j \<and> stops ky tab k j)"
proof (induction n)
  case (Suc n)
  then show ?case
  proof
    assume "passes ky tab k n"
    then show ?thesis by (cases "stops ky tab k n") (auto simp: passes_Suc)
  qed auto
qed simp

lemma stops_before:
  assumes "at tab k n = Null"
  shows "\<exists>j\<le>n. passes ky tab k j \<and> stops ky tab k j"
  using assms passes_or_stops [of ky tab k "Suc n"] by (auto simp: passes_Suc stops_def less_Suc_eq_le)

lemma present_stops:
  assumes "table_ok ky tab" and "x \<in> entries tab"
  shows "\<exists>j. passes ky tab (ky x) j \<and> at tab (ky x) j = Live x"
  using table_ok_entry [OF assms] by blast

lemma positions_unique:
  assumes "table_ok ky tab" and "i < length tab" and "j < length tab" and "tab ! i = Live x" and "tab ! j = Live y"
    and "ky x = ky y"
  shows "i = j"
proof -
  from assms obtain n m where "probe (length tab) (ky x) n = i" "passes ky tab (ky x) n"
    "probe (length tab) (ky y) m = j" "passes ky tab (ky y) m" unfolding table_ok_def by metis
  with passes_stop [of ky tab "ky x" n m] assms(4,5,6) show ?thesis by (auto simp: at_def)
qed

lemma lives_distinct:
  assumes "table_ok ky tab"
  shows "distinct (map ky (lives tab))"
  by (rule distinct_lives) (rule positions_unique [OF assms])

lemma entries_lives: "entries tab = set (lives tab)"
  by (simp add: entries_def set_lives)

end

end
