(* ===== verification/Interning.thy ===== *)
theory Interning
  imports Open_Addressing "HOL-Library.Multiset"
begin

text \<open>
  Strings of the runtime, \<^verbatim>\<open>runtime/string.c\<close>: decoding of UTF-8 constants, the table of UTF-8
  constants, the table of interned Java strings, and the conversions between Java and C strings.
  A \<open>Utf8Const\<close> or a Java string object is a number, its position in the list of the objects made
  so far; two pointers are equal when the numbers are. Allocation always succeeds here, and no
  collection runs inside an operation. \<open>char\<close> is signed, as on SPARC. Loops that may not end take
  fuel and give \<open>None\<close> when it runs out; the counter of a probe sequence is exact for fewer than
  \<open>2\<^sup>3\<^sup>0\<close> probes.
\<close>

section \<open>Decoding\<close>

text \<open>
  \<open>UTF8_GET\<close> of \<^verbatim>\<open>runtime/constants.h\<close>: the bytes \<open>d\<close>, the position \<open>p\<close> and the limit. The tests
  move the pointer even when they fail, so a bad two-byte sequence is followed by the test for a
  three-byte one at the position after it.
\<close>

definition byte_at :: "uint8 list \<Rightarrow> nat \<Rightarrow> uint8 result" where
  "byte_at d p = (if p < length d then Inr (d ! p) else Inl C_undefined)"

definition utf8_get3 :: "uint8 list \<Rightarrow> nat \<Rightarrow> nat \<Rightarrow> (int \<times> nat) result" where
  "utf8_get3 d p limit =
     bind_result (byte_at d p) (\<lambda>b.
       if b AND 0xF0 = 0xE0 then
         (if p + 3 \<le> limit \<and> d ! (p + 1) AND 0xC0 = 0x80 \<and> d ! (p + 2) AND 0xC0 = 0x80
          then Inr (uint (b AND 0x1F) * 4096 + uint (d ! (p + 1) AND 0x3F) * 64 + uint (d ! (p + 2) AND 0x3F), p + 3)
          else Inr (- 1, p + 4))
       else Inr (- 1, p + 1))"

definition UTF8_GET :: "uint8 list \<Rightarrow> nat \<Rightarrow> nat \<Rightarrow> (int \<times> nat) result" where
  "UTF8_GET d p limit =
     (if p \<ge> limit then Inr (- 1, p)
      else bind_result (byte_at d p) (\<lambda>b.
        if b < 128 then Inr (uint b, p + 1)
        else if b AND 0xE0 = 0xC0 then
          (if p + 2 \<le> limit \<and> d ! (p + 1) AND 0xC0 = 0x80
           then Inr (uint (b AND 0x1F) * 64 + uint (d ! (p + 1) AND 0x3F), p + 2)
           else utf8_get3 d (p + 2) limit)
        else utf8_get3 d p limit))"

lemma UTF8_GET_moves: "p < limit \<Longrightarrow> UTF8_GET d p limit = Inr (v, q) \<Longrightarrow> p < q"
  by (auto simp: UTF8_GET_def utf8_get3_def bind_result_Inr split: if_splits)

text \<open>The loop over a constant: the values returned by \<open>UTF8_GET\<close>, in order.\<close>

function utf8_values :: "uint8 list \<Rightarrow> nat \<Rightarrow> nat \<Rightarrow> int list result" where
  "utf8_values d p limit =
     (if p < limit then
        bind_result (UTF8_GET d p limit) (\<lambda>(v, q). bind_result (utf8_values d q limit) (\<lambda>vs. Inr (v # vs)))
      else Inr [])"
  by pat_completeness auto
termination
  by (relation "measure (\<lambda>(d, p, limit). limit - p)") (auto intro!: diff_less_mono2 dest: UTF8_GET_moves)

declare utf8_values.simps [simp del]

function strLengthUtf8_loop :: "uint8 list \<Rightarrow> nat \<Rightarrow> nat \<Rightarrow> int \<Rightarrow> int result" where
  "strLengthUtf8_loop d p limit str_length =
     (if p < limit then
        bind_result (UTF8_GET d p limit) (\<lambda>(v, q). if v < 0 then Inr (- 1) else strLengthUtf8_loop d q limit (str_length + 1))
      else Inr str_length)"
  by pat_completeness auto
termination
  by (relation "measure (\<lambda>(d, p, limit, n). limit - p)") (auto intro!: diff_less_mono2 dest: UTF8_GET_moves)

declare strLengthUtf8_loop.simps [simp del]

definition strLengthUtf8 :: "uint8 list \<Rightarrow> nat \<Rightarrow> int result" where
  "strLengthUtf8 d len = strLengthUtf8_loop d 0 len 0"

section \<open>Hash functions\<close>

definition hashUtf8String :: "uint8 list \<Rightarrow> jint" where
  "hashUtf8String s = fold (\<lambda>b hash. hash * 37 + scast b) s 0"

text \<open>
  \<open>hashChars\<close> reads the first character even of an empty string; \<open>junk\<close> is the halfword found
  there.
\<close>

definition hashChars :: "uint16 \<Rightarrow> uint16 list \<Rightarrow> jint" where
  "hashChars junk cs =
     (let first = ucast (case cs of [] \<Rightarrow> junk | c # _ \<Rightarrow> c) in
      if length cs \<le> 15 then fold (\<lambda>c hash. 37 * hash + ucast c) (tl cs) first
      else let skip = length cs div 8 in
           fold (\<lambda>i hash. 39 * hash + ucast (cs ! (i * skip))) [1..<Suc ((length cs - 1) div skip)] first)"

section \<open>The table of UTF-8 constants\<close>

record utf8tab =
  utf8hash :: "nat slot list option"
  utf8hash_count :: int
  utf8consts :: "uint8 list list"

definition utf8hash_size :: "utf8tab \<Rightarrow> nat" where
  "utf8hash_size u = (case utf8hash u of None \<Rightarrow> 0 | Some tab \<Rightarrow> length tab)"

text \<open>\<open>index += 2 * (++step) - 1; index %= utf8hash_size\<close>\<close>

definition next_index :: "nat \<Rightarrow> nat \<Rightarrow> nat \<Rightarrow> nat" where
  "next_index sz index step = (index + (2 * Suc step - 1)) mod sz"

fun find_utf8hash_loop :: "nat \<Rightarrow> (nat \<Rightarrow> uint8 list) \<Rightarrow> nat slot list \<Rightarrow> uint8 list \<Rightarrow> nat \<Rightarrow> nat \<Rightarrow> nat option" where
  "find_utf8hash_loop 0 data tab s index step = None"
| "find_utf8hash_loop (Suc n) data tab s index step =
     (case tab ! index of
        Null \<Rightarrow> Some index
      | Deleted \<Rightarrow> find_utf8hash_loop n data tab s (next_index (length tab) index step) (Suc step)
      | Live m \<Rightarrow> if data m = s then Some index
                  else find_utf8hash_loop n data tab s (next_index (length tab) index step) (Suc step))"

definition find_utf8hash :: "nat \<Rightarrow> (nat \<Rightarrow> uint8 list) \<Rightarrow> nat slot list \<Rightarrow> uint8 list \<Rightarrow> nat option" where
  "find_utf8hash n data tab s =
     find_utf8hash_loop n data tab s (unat (hashUtf8String s) mod length tab) 0"

text \<open>The search of \<open>finalizeUtf8const\<close> does not test for \<open>NULL\<close>.\<close>

fun finalize_loop :: "nat \<Rightarrow> (nat \<Rightarrow> uint8 list) \<Rightarrow> nat slot list \<Rightarrow> uint8 list \<Rightarrow> nat \<Rightarrow> nat \<Rightarrow> nat result option" where
  "finalize_loop 0 data tab s index step = None"
| "finalize_loop (Suc n) data tab s index step =
     (case tab ! index of
        Null \<Rightarrow> Some (Inl C_undefined)
      | Deleted \<Rightarrow> finalize_loop n data tab s (next_index (length tab) index step) (Suc step)
      | Live m \<Rightarrow> if data m = s then Some (Inr index)
                  else finalize_loop n data tab s (next_index (length tab) index step) (Suc step))"

definition finalizeUtf8const :: "nat \<Rightarrow> nat \<Rightarrow> utf8tab \<Rightarrow> utf8tab result option" where
  "finalizeUtf8const n m u =
     (case utf8hash u of
        None \<Rightarrow> Some (Inl C_undefined)
      | Some tab \<Rightarrow>
          let s = utf8consts u ! m in
          case finalize_loop n (\<lambda>x. utf8consts u ! x) tab s (unat (hashUtf8String s) mod length tab) 0 of
            None \<Rightarrow> None
          | Some (Inl e) \<Rightarrow> Some (Inl e)
          | Some (Inr index) \<Rightarrow>
              Some (Inr (u\<lparr>utf8hash_count := utf8hash_count u - 1, utf8hash := Some (tab[index := Deleted])\<rparr>)))"

text \<open>\<open>get_next_prime\<close> of \<^verbatim>\<open>runtime/prime.h\<close> with the table of \<^verbatim>\<open>runtime/prime.c\<close>.\<close>

definition primes :: "nat list" where
  "primes = [0, 127, 251, 509, 1021, 2039, 4093, 8191, 16381, 32749, 65521, 131071, 262139, 524287, 1048573,
     2097143, 4194301, 8388593, 16777213, 33554393, 67108859, 400000001]"

definition num_of_primes :: int where "num_of_primes = 22"

function get_next_prime_loop :: "nat \<Rightarrow> int \<Rightarrow> int \<Rightarrow> int \<Rightarrow> (nat + int \<times> int \<times> int)" where
  "get_next_prime_loop val mid low high =
     (if low \<le> high then
        let mid = (low + high) div 2 in
        if primes ! nat mid > val then get_next_prime_loop val mid low (mid - 1)
        else if primes ! nat mid < val then get_next_prime_loop val mid (mid + 1) high
        else Inl (primes ! nat mid)
      else Inr (mid, low, high))"
  by pat_completeness auto
termination
  by (relation "measure (\<lambda>(val, mid, low, high). nat (high - low + 1))") auto

declare get_next_prime_loop.simps [simp del]

definition get_next_prime :: "nat \<Rightarrow> nat" where
  "get_next_prime val =
     (case get_next_prime_loop val 0 1 (num_of_primes - 2) of
        Inl p \<Rightarrow> p
      | Inr (mid, low, high) \<Rightarrow>
          let p = (\<lambda>i. primes ! nat i) in
          if high \<le> 1 \<or> low \<ge> num_of_primes - 2 then val - 1
          else if p mid > val then (if p mid - val > val - p (mid - 1) then p (mid - 1) else p mid)
          else (if val - p mid \<ge> p (mid + 1) - val then p (mid + 1) else p mid))"

text \<open>
  Re-hashing walks the old table from its end. The test \<open>*--ptr > 0\<close> is true for the mark of a
  deleted entry, which is then dereferenced.
\<close>

fun rehash_utf8 :: "nat \<Rightarrow> (nat \<Rightarrow> uint8 list) \<Rightarrow> nat slot list \<Rightarrow> nat slot list \<Rightarrow> nat slot list result option" where
  "rehash_utf8 n data [] tab = Some (Inr tab)"
| "rehash_utf8 n data (Null # old) tab = rehash_utf8 n data old tab"
| "rehash_utf8 n data (Deleted # old) tab = Some (Inl C_undefined)"
| "rehash_utf8 n data (Live m # old) tab =
     (case find_utf8hash n data tab (data m) of
        None \<Rightarrow> None
      | Some i \<Rightarrow> rehash_utf8 n data old (tab[i := Live m]))"

definition utf8_make_room :: "nat \<Rightarrow> utf8tab \<Rightarrow> nat slot list result option" where
  "utf8_make_room n u =
     (if 3 * utf8hash_count u \<ge> 2 * int (utf8hash_size u) then
        (case utf8hash u of
           None \<Rightarrow> Some (Inr (replicate 1021 Null))
         | Some old \<Rightarrow>
             rehash_utf8 n (\<lambda>x. utf8consts u ! x) (rev old) (replicate (get_next_prime (length old * 2)) Null))
      else case utf8hash u of None \<Rightarrow> Some (Inl C_undefined) | Some tab \<Rightarrow> Some (Inr tab))"

text \<open>The bytes a C call names: \<open>len\<close> of them, or up to the terminating zero when \<open>len < 0\<close>.\<close>

definition c_bytes :: "uint8 list \<Rightarrow> int \<Rightarrow> uint8 list result" where
  "c_bytes buf len =
     (if len < 0 then (if 0 \<in> set buf then Inr (takeWhile (\<lambda>b. b \<noteq> 0) buf) else Inl C_undefined)
      else if nat len \<le> length buf then Inr (take (nat len) buf) else Inl C_undefined)"

definition makeUtf8Const :: "nat \<Rightarrow> uint8 list \<Rightarrow> int \<Rightarrow> utf8tab \<Rightarrow> (nat \<times> utf8tab) result option" where
  "makeUtf8Const n buf len u =
     (case c_bytes buf len of
        Inl e \<Rightarrow> Some (Inl e)
      | Inr s \<Rightarrow>
        (case utf8_make_room n u of
           None \<Rightarrow> None
         | Some (Inl e) \<Rightarrow> Some (Inl e)
         | Some (Inr tab) \<Rightarrow>
             (case find_utf8hash n (\<lambda>x. utf8consts u ! x) tab s of
                None \<Rightarrow> None
              | Some i \<Rightarrow>
                  (case tab ! i of
                     Live m \<Rightarrow> Some (Inr (m, u\<lparr>utf8hash := Some tab\<rparr>))
                   | _ \<Rightarrow>
                       let m = length (utf8consts u)
                       in Some (Inr (m, u\<lparr>utf8hash := Some (tab[i := Live m]), utf8hash_count := utf8hash_count u + 1,
                                          utf8consts := utf8consts u @ [s]\<rparr>))))))"

section \<open>The table of interned strings\<close>

record strtab =
  strhash :: "nat slot list option"
  strhash_count :: int
  jstrings :: "uint16 list list"

definition strhash_size :: "strtab \<Rightarrow> nat" where
  "strhash_size t = (case strhash t of None \<Rightarrow> 0 | Some tab \<Rightarrow> length tab)"

definition intern_step :: "jint \<Rightarrow> jint" where
  "intern_step hash = 8 * hash + 7"

definition mask_index :: "nat \<Rightarrow> jint \<Rightarrow> jint" where
  "mask_index sz i = i AND (of_nat sz - 1)"

fun findInternSlot_loop ::
    "nat \<Rightarrow> (nat \<Rightarrow> uint16 list) \<Rightarrow> nat slot list \<Rightarrow> uint16 list \<Rightarrow> jint \<Rightarrow> jint \<Rightarrow> jint \<Rightarrow> nat option \<Rightarrow> nat result option" where
  "findInternSlot_loop 0 data tab cs start step index deleted = None"
| "findInternSlot_loop (Suc n) data tab cs start step index deleted =
     (let i = unat index;
          go = (\<lambda>deleted. let index = mask_index (length tab) (index + step)
                          in if index = start then Some (Inl VM_abort)
                             else findInternSlot_loop n data tab cs start step index deleted)
      in case tab ! i of
           Null \<Rightarrow> Some (Inr (case deleted of Some d \<Rightarrow> d | None \<Rightarrow> i))
         | Deleted \<Rightarrow> go (Some i)
         | Live x \<Rightarrow> if data x = cs then Some (Inr i) else go deleted)"

definition findInternSlot ::
    "nat \<Rightarrow> (nat \<Rightarrow> uint16 list) \<Rightarrow> nat slot list \<Rightarrow> uint16 list \<Rightarrow> jint \<Rightarrow> nat result option" where
  "findInternSlot n data tab cs hash =
     (let start = mask_index (length tab) hash
      in findInternSlot_loop n data tab cs start (intern_step hash) start None)"

text \<open>Re-hashing puts each string in the first empty slot, walking the old table from its end.\<close>

fun rehash_place :: "nat \<Rightarrow> nat \<Rightarrow> jint \<Rightarrow> jint \<Rightarrow> nat slot list \<Rightarrow> nat slot list option" where
  "rehash_place 0 x step index tab = None"
| "rehash_place (Suc n) x step index tab =
     (if tab ! unat index = Null then Some (tab[unat index := Live x])
      else rehash_place n x step (mask_index (length tab) (index + step)) tab)"

fun rehash_slots :: "nat \<Rightarrow> uint16 \<Rightarrow> (nat \<Rightarrow> uint16 list) \<Rightarrow> nat slot list \<Rightarrow> nat slot list \<Rightarrow> nat slot list option" where
  "rehash_slots n junk data [] tab = Some tab"
| "rehash_slots n junk data (Live x # old) tab =
     (let hash = hashChars junk (data x) in
      case rehash_place n x (intern_step hash) (mask_index (length tab) hash) tab of
        None \<Rightarrow> None
      | Some tab \<Rightarrow> rehash_slots n junk data old tab)"
| "rehash_slots n junk data (_ # old) tab = rehash_slots n junk data old tab"

definition rehashStrings :: "nat \<Rightarrow> uint16 \<Rightarrow> strtab \<Rightarrow> strtab option" where
  "rehashStrings n junk t =
     (case strhash t of
        None \<Rightarrow> Some (t\<lparr>strhash := Some (replicate 1024 Null)\<rparr>)
      | Some old \<Rightarrow>
          map_option (\<lambda>tab. t\<lparr>strhash := Some tab\<rparr>)
            (rehash_slots n junk (\<lambda>x. jstrings t ! x) (rev old) (replicate (length old * 2) Null)))"

definition str_make_room :: "nat \<Rightarrow> uint16 \<Rightarrow> strtab \<Rightarrow> strtab option" where
  "str_make_room n junk t =
     (if 4 * strhash_count t \<ge> 3 * int (strhash_size t) then rehashStrings n junk t else Some t)"

definition findInternSlotFromString :: "nat \<Rightarrow> uint16 \<Rightarrow> nat \<Rightarrow> strtab \<Rightarrow> nat result option" where
  "findInternSlotFromString n junk str t =
     (case strhash t of
        None \<Rightarrow> Some (Inl C_undefined)
      | Some tab \<Rightarrow>
          findInternSlot n (\<lambda>x. jstrings t ! x) tab (jstrings t ! str) (hashChars junk (jstrings t ! str)))"

definition internJavaString :: "nat \<Rightarrow> uint16 \<Rightarrow> nat \<Rightarrow> strtab \<Rightarrow> (nat \<times> strtab) result option" where
  "internJavaString n junk str t =
     (case str_make_room n junk t of
        None \<Rightarrow> None
      | Some t \<Rightarrow>
        (case findInternSlotFromString n junk str t of
           None \<Rightarrow> None
         | Some (Inl e) \<Rightarrow> Some (Inl e)
         | Some (Inr i) \<Rightarrow>
             let tab = the (strhash t) in
             (case tab ! i of
                Live x \<Rightarrow> Some (Inr (x, t))
              | _ \<Rightarrow> Some (Inr (str, t\<lparr>strhash_count := strhash_count t + 1, strhash := Some (tab[i := Live str])\<rparr>)))))"

definition uninternJavaString :: "nat \<Rightarrow> uint16 \<Rightarrow> nat \<Rightarrow> strtab \<Rightarrow> strtab result option" where
  "uninternJavaString n junk str t =
     (case findInternSlotFromString n junk str t of
        None \<Rightarrow> None
      | Some (Inl e) \<Rightarrow> Some (Inl e)
      | Some (Inr i) \<Rightarrow>
          let tab = the (strhash t) in
          (case tab ! i of
             Live x \<Rightarrow> Some (Inr (t\<lparr>strhash_count := strhash_count t - 1, strhash := Some (tab[i := Deleted])\<rparr>))
           | _ \<Rightarrow> Some (Inr t)))"

text \<open>
  A Java string from a constant: its characters are the values of \<open>UTF8_GET\<close> as halfwords, in a
  buffer of 100 characters or a new array (a negative length makes the allocation throw). When
  the string is already interned that one is returned.
\<close>

definition Utf8Const2JavaString :: "nat \<Rightarrow> uint16 \<Rightarrow> uint8 list \<Rightarrow> strtab \<Rightarrow> (nat \<times> strtab) result option" where
  "Utf8Const2JavaString n junk str t =
     (case bind_result (strLengthUtf8 (str @ [0]) (length str)) (\<lambda>len.
           if len < 0 then Inl NegativeArraySizeException
           else bind_result (utf8_values (str @ [0]) 0 (length str)) (\<lambda>vs. Inr (map word_of_int vs))) of
        Inl e \<Rightarrow> Some (Inl e)
      | Inr cs \<Rightarrow>
        (case str_make_room n junk t of
           None \<Rightarrow> None
         | Some t \<Rightarrow>
           (case strhash t of
              None \<Rightarrow> Some (Inl C_undefined)
            | Some tab \<Rightarrow>
              (case findInternSlot n (\<lambda>x. jstrings t ! x) tab cs (hashChars junk cs) of
                 None \<Rightarrow> None
               | Some (Inl e) \<Rightarrow> Some (Inl e)
               | Some (Inr i) \<Rightarrow>
                   (case tab ! i of
                      Live x \<Rightarrow> Some (Inr (x, t))
                    | _ \<Rightarrow>
                        let obj = length (jstrings t)
                        in Some (Inr (obj, t\<lparr>strhash_count := strhash_count t + 1, strhash := Some (tab[i := Live obj]),
                                             jstrings := jstrings t @ [cs]\<rparr>)))))))"

section \<open>Conversions\<close>

text \<open>\<open>makeReplaceJavaStringFromUtf8\<close>: the count and the characters stored.\<close>

definition makeReplaceJavaStringFromUtf8 :: "uint8 list \<Rightarrow> nat \<Rightarrow> int \<Rightarrow> int \<Rightarrow> (int \<times> uint16 list) result" where
  "makeReplaceJavaStringFromUtf8 d len from_ch to_ch =
     bind_result (strLengthUtf8 d len) (\<lambda>count.
     bind_result (utf8_values d 0 len) (\<lambda>vs.
     Inr (count, map (\<lambda>ch. word_of_int (if ch = from_ch then to_ch else ch)) vs)))"

fun equal_loop :: "uint8 list \<Rightarrow> nat \<Rightarrow> nat \<Rightarrow> uint16 list \<Rightarrow> bool result" where
  "equal_loop d p limit [] = Inr True"
| "equal_loop d p limit (c # cs) =
     bind_result (UTF8_GET d p limit) (\<lambda>(v, q). if uint c \<noteq> v then Inr False else equal_loop d q limit cs)"

text \<open>The lengths are compared first: bytes of the constant with characters of the string.\<close>

definition equalUtf8JavaStrings :: "uint8 list \<Rightarrow> uint16 list \<Rightarrow> bool result" where
  "equalUtf8JavaStrings a b =
     (if length b \<noteq> length a then Inr False else equal_loop (a @ [0]) 0 (length a) b)"

text \<open>
  \<open>javaString2CString\<close>: the bytes written at the start of the buffer, and the pointer returned as
  an offset into the buffer (\<open>None\<close> for \<open>NULL\<close>); the pointer has moved past the characters.
\<close>

definition javaString2CString :: "uint16 list option \<Rightarrow> int \<Rightarrow> uint8 list \<times> nat option" where
  "javaString2CString js len =
     (if len \<le> 0 then ([], None)
      else case js of
        None \<Rightarrow> ([0], Some 0)
      | Some cs \<Rightarrow>
          let k = (if nat (len - 1) > length cs then length cs else nat (len - 1))
          in (map ucast (take k cs) @ [0], Some k))"

definition makeCString :: "uint16 list \<Rightarrow> uint8 list" where
  "makeCString cs = fst (javaString2CString (Some cs) (int (length cs) + 1))"

definition makeJavaString :: "uint8 list \<Rightarrow> int \<Rightarrow> uint16 list result" where
  "makeJavaString buf len =
     (if len < 0 then Inl NegativeArraySizeException
      else if nat len \<le> length buf then Inr (map ucast (take (nat len) buf)) else Inl C_undefined)"

definition makeJavaCharArray :: "uint8 list option \<Rightarrow> int \<Rightarrow> uint16 list result" where
  "makeJavaCharArray cs len =
     (if len < 0 then Inl NegativeArraySizeException
      else case cs of
        None \<Rightarrow> Inr (replicate (nat len) 0)
      | Some buf \<Rightarrow> if nat len \<le> length buf then Inr (map ucast (take (nat len) buf)) else Inl C_undefined)"

section \<open>Encoding and decoding\<close>

text \<open>The encoding of the class file format: zero takes two bytes, no byte of an encoding is zero.\<close>

definition encode_char :: "uint16 \<Rightarrow> uint8 list" where
  "encode_char c =
     (let n = unat c in
      if 0 < n \<and> n < 128 then [of_nat n]
      else if n < 2048 then [0xC0 OR of_nat (n div 64), 0x80 OR of_nat (n mod 64)]
      else [0xE0 OR of_nat (n div 4096), 0x80 OR of_nat (n div 64 mod 64), 0x80 OR of_nat (n mod 64)])"

definition encode_utf8 :: "uint16 list \<Rightarrow> uint8 list" where
  "encode_utf8 cs = concat (map encode_char cs)"

lemma small_byte: "n < k \<Longrightarrow> (of_nat n :: uint8) \<in> set (map of_nat [0..<k])"
  by simp

lemma lead2_bits:
  "n < 32 \<Longrightarrow> \<not> (0xC0 OR of_nat n :: uint8) < 128 \<and> (0xC0 OR of_nat n :: uint8) AND 0xE0 = 0xC0 \<and>
     (0xC0 OR of_nat n :: uint8) AND 0x1F = of_nat n"
proof -
  have "list_all (\<lambda>x :: uint8. \<not> (0xC0 OR x) < 128 \<and> (0xC0 OR x) AND 0xE0 = 0xC0 \<and> (0xC0 OR x) AND 0x1F = x)
      (map of_nat [0..<32])" by code_simp
  then show "n < 32 \<Longrightarrow> ?thesis" using small_byte by (auto simp: list_all_iff)
qed

lemma lead3_bits:
  "n < 16 \<Longrightarrow> \<not> (0xE0 OR of_nat n :: uint8) < 128 \<and> (0xE0 OR of_nat n :: uint8) AND 0xE0 \<noteq> 0xC0 \<and>
     (0xE0 OR of_nat n :: uint8) AND 0xF0 = 0xE0 \<and> (0xE0 OR of_nat n :: uint8) AND 0x1F = of_nat n"
proof -
  have "list_all (\<lambda>x :: uint8. \<not> (0xE0 OR x) < 128 \<and> (0xE0 OR x) AND 0xE0 \<noteq> 0xC0 \<and> (0xE0 OR x) AND 0xF0 = 0xE0 \<and>
      (0xE0 OR x) AND 0x1F = x) (map of_nat [0..<16])" by code_simp
  then show "n < 16 \<Longrightarrow> ?thesis" using small_byte by (auto simp: list_all_iff)
qed

lemma trail_bits:
  "n < 64 \<Longrightarrow> (0x80 OR of_nat n :: uint8) AND 0xC0 = 0x80 \<and> (0x80 OR of_nat n :: uint8) AND 0x3F = of_nat n"
proof -
  have "list_all (\<lambda>x :: uint8. (0x80 OR x) AND 0xC0 = 0x80 \<and> (0x80 OR x) AND 0x3F = x) (map of_nat [0..<64])" by code_simp
  then show "n < 64 \<Longrightarrow> ?thesis" using small_byte by (auto simp: list_all_iff)
qed

lemma uint_small_byte: "n < 256 \<Longrightarrow> uint (of_nat n :: uint8) = int n"
  by (simp add: unsigned_of_nat take_bit_nat_eq_self)

lemma ascii_byte: "n < 128 \<Longrightarrow> (of_nat n :: uint8) < 128"
  by (simp add: word_less_nat_alt unsigned_of_nat take_bit_nat_eq_self)

lemma split_twelve:
  fixes n :: nat
  shows "int n = int (n div 4096) * 4096 + int (n div 64 mod 64) * 64 + int (n mod 64)"
proof -
  define q where "q = n div 64"
  define r where "r = q div 64"
  have "n div 4096 = r" unfolding q_def r_def by (simp add: div_mult2_eq [symmetric])
  moreover have "n = q * 64 + n mod 64" unfolding q_def by simp
  moreover have "q = r * 64 + q mod 64" unfolding r_def by simp
  ultimately show ?thesis unfolding q_def [symmetric] by linarith
qed

lemma UTF8_GET_encoded:
  assumes d: "d = pre @ encode_char c @ post" and limit: "length pre + length (encode_char c) \<le> limit"
  shows "UTF8_GET d (length pre) limit = Inr (uint c, length pre + length (encode_char c))"
proof -
  let ?n = "unat c"
  have n: "?n < 65536" using unsigned_less [of c, where ?'a = nat] by simp
  have u: "uint c = int ?n" by simp
  consider (one) "0 < ?n \<and> ?n < 128" | (two) "\<not> (0 < ?n \<and> ?n < 128)" "?n < 2048"
    | (three) "\<not> (0 < ?n \<and> ?n < 128)" "\<not> ?n < 2048" by blast
  then show ?thesis
  proof cases
    case one
    then have e: "encode_char c = [of_nat ?n]" by (simp add: encode_char_def)
    have "(of_nat ?n :: uint8) < 128" using one by (intro ascii_byte) simp
    moreover have "uint (of_nat ?n :: uint8) = int ?n" using one by (intro uint_small_byte) simp
    ultimately show ?thesis using limit unfolding d e u by (simp add: UTF8_GET_def byte_at_def nth_append)
  next
    case two
    then have e: "encode_char c = [0xC0 OR of_nat (?n div 64), 0x80 OR of_nat (?n mod 64)]" unfolding encode_char_def Let_def by (simp only: if_False if_True)
    have b: "?n div 64 < 32" "?n mod 64 < 64" using two by auto
    have "uint (of_nat (?n div 64) :: uint8) = int (?n div 64)" "uint (of_nat (?n mod 64) :: uint8) = int (?n mod 64)"
      by (rule uint_small_byte, use b in simp)+
    moreover have "int ?n = int (?n div 64) * 64 + int (?n mod 64)"
      by (metis div_mult_mod_eq of_nat_add of_nat_mult of_nat_numeral)
    ultimately have "uint (of_nat (?n div 64) :: uint8) * 64 + uint (of_nat (?n mod 64) :: uint8) = int ?n" by simp
    with lead2_bits [OF b(1)] trail_bits [OF b(2)] limit show ?thesis
      unfolding d e u by (simp add: UTF8_GET_def byte_at_def nth_append)
  next
    case three
    then have e: "encode_char c = [0xE0 OR of_nat (?n div 4096), 0x80 OR of_nat (?n div 64 mod 64), 0x80 OR of_nat (?n mod 64)]"
      unfolding encode_char_def Let_def by (simp only: if_False if_True)
    have b: "?n div 4096 < 16" "?n div 64 mod 64 < 64" "?n mod 64 < 64" using n by auto
    have "uint (of_nat (?n div 4096) :: uint8) = int (?n div 4096)"
      "uint (of_nat (?n div 64 mod 64) :: uint8) = int (?n div 64 mod 64)" "uint (of_nat (?n mod 64) :: uint8) = int (?n mod 64)"
      by (rule uint_small_byte, use b in simp)+
    moreover have "int ?n = int (?n div 4096) * 4096 + int (?n div 64 mod 64) * 64 + int (?n mod 64)"
      by (rule split_twelve)

    ultimately have "uint (of_nat (?n div 4096) :: uint8) * 4096 + uint (of_nat (?n div 64 mod 64) :: uint8) * 64
        + uint (of_nat (?n mod 64) :: uint8) = int ?n" by simp
    with lead3_bits [OF b(1)] trail_bits [OF b(2)] trail_bits [OF b(3)] limit show ?thesis
      unfolding d e u by (simp add: UTF8_GET_def utf8_get3_def byte_at_def nth_append)
  qed
qed

lemma length_encode_char: "0 < length (encode_char c)"
  by (simp add: encode_char_def Let_def)

lemma utf8_values_encoded:
  "d = pre @ encode_utf8 cs @ post \<Longrightarrow>
   utf8_values d (length pre) (length pre + length (encode_utf8 cs)) = Inr (map uint cs) \<and>
   strLengthUtf8_loop d (length pre) (length pre + length (encode_utf8 cs)) k = Inr (k + int (length cs))"
proof (induction cs arbitrary: pre k)
  case Nil
  then show ?case by (simp add: encode_utf8_def utf8_values.simps strLengthUtf8_loop.simps)
next
  case (Cons c cs)
  have d: "d = pre @ encode_char c @ (encode_utf8 cs @ post)" using Cons.prems by (simp add: encode_utf8_def)
  have d': "d = (pre @ encode_char c) @ encode_utf8 cs @ post" using d by simp
  have l: "length pre + length (encode_utf8 (c # cs)) = length (pre @ encode_char c) + length (encode_utf8 cs)"
    by (simp add: encode_utf8_def)
  have g: "UTF8_GET d (length pre) (length pre + length (encode_utf8 (c # cs)))
      = Inr (uint c, length (pre @ encode_char c))"
    using UTF8_GET_encoded [OF d, of "length pre + length (encode_utf8 (c # cs))"] by (simp add: encode_utf8_def)
  have lt: "length pre < length pre + length (encode_utf8 (c # cs))"
    using length_encode_char [of c] by (simp add: encode_utf8_def)
  from Cons.IH [OF d', of "k + 1"] g lt show ?case
    unfolding utf8_values.simps [of d "length pre"] strLengthUtf8_loop.simps [of d "length pre"] l by simp
qed

text \<open>
  C22. Decoding inverts the encoding of the class file format: from the encoding of any sequence
  of 16-bit characters, \<open>strLengthUtf8\<close> counts the characters, and \<open>makeReplaceJavaStringFromUtf8\<close>
  stores exactly them, with one character replaced by another.
\<close>

theorem utf8_decode_encode:
  "strLengthUtf8 (encode_utf8 cs @ rest) (length (encode_utf8 cs)) = Inr (int (length cs)) \<and>
   makeReplaceJavaStringFromUtf8 (encode_utf8 cs @ rest) (length (encode_utf8 cs)) (uint a) (uint b)
     = Inr (int (length cs), map (\<lambda>c. if c = a then b else c) cs)"
proof -
  note v = utf8_values_encoded [of "encode_utf8 cs @ rest" "[]" cs rest 0]
  then have l: "strLengthUtf8 (encode_utf8 cs @ rest) (length (encode_utf8 cs)) = Inr (int (length cs))"
    by (simp add: strLengthUtf8_def)
  have "map (\<lambda>ch. word_of_int (if ch = uint a then uint b else ch)) (map uint cs) = map (\<lambda>c. if c = a then b else c) cs"
    by (simp add: word_uint_eq_iff)
  with l v show ?thesis by (simp add: makeReplaceJavaStringFromUtf8_def)
qed

text \<open>
  Java and C strings: \<open>makeCString\<close> followed by \<open>makeJavaString\<close> gives the string back exactly
  when every character fits in a byte; \<open>javaString2CString\<close> into a buffer of positive size writes a
  zero-terminated prefix that fits in it, and returns the address of the terminating zero, not of
  the buffer.
\<close>

theorem c_string_conversions:
  "makeJavaString (makeCString cs) (int (length cs)) = Inr (map (\<lambda>c. word_of_int (uint c mod 256)) cs)
   \<and> (makeJavaString (makeCString cs) (int (length cs)) = Inr cs \<longleftrightarrow> list_all (\<lambda>c. c < 256) cs)
   \<and> javaString2CString (Some cs) (int k + 1) = (map ucast (take k cs) @ [0], Some (min k (length cs)))"
proof -
  have bytes: "(ucast (ucast c :: uint8) :: uint16) = word_of_int (uint c mod 256)" for c :: uint16
    by (rule word_uint_eqI) (simp add: unsigned_ucast_eq take_bit_eq_mod uint_word_of_int_eq uint_mod)
  have same: "word_of_int (uint c mod 256) = c \<longleftrightarrow> c < 256" for c :: uint16
  proof -
    have "uint (word_of_int (uint c mod 256) :: uint16) = uint c mod 256"
      by (simp add: uint_word_of_int_eq take_bit_eq_mod mod_mod_cancel)
    then have "word_of_int (uint c mod 256) = c \<longleftrightarrow> uint c mod 256 = uint c" by (simp add: word_uint_eq_iff)
    also have "\<dots> \<longleftrightarrow> uint c < 256" using uint_ge_0 [of c] by (metis mod_pos_pos_trivial pos_mod_bound zero_less_numeral)
    finally show ?thesis by (simp add: word_less_def)
  qed
  have j: "makeJavaString (makeCString cs) (int (length cs)) = Inr (map (\<lambda>c. word_of_int (uint c mod 256)) cs)"
    by (simp add: makeJavaString_def makeCString_def javaString2CString_def bytes)
  have "map (\<lambda>c. word_of_int (uint c mod 256)) cs = cs \<longleftrightarrow> list_all (\<lambda>c. c < 256) cs"
    by (induction cs) (simp_all add: same)
  with j show ?thesis by (auto simp: javaString2CString_def min_def)
qed

section \<open>The table of constants\<close>

fun utf8_probe :: "nat \<Rightarrow> uint8 list \<Rightarrow> nat \<Rightarrow> nat" where
  "utf8_probe sz s 0 = unat (hashUtf8String s) mod sz"
| "utf8_probe sz s (Suc n) = next_index sz (utf8_probe sz s n) n"

interpretation ut: open_addressing "\<lambda>sz. 0 < sz" utf8_probe
proof
  fix sz :: nat and k n assume "0 < sz"
  then show "utf8_probe sz k n < sz" by (cases n) (simp_all add: next_index_def)
qed

lemma find_utf8hash_loop_at:
  "ut.passes data tab s j \<Longrightarrow> ut.stops data tab s j \<Longrightarrow> m \<le> j \<Longrightarrow> j < m + n \<Longrightarrow>
   find_utf8hash_loop n data tab s (utf8_probe (length tab) s m) m = Some (utf8_probe (length tab) s j)"
proof (induction n arbitrary: m)
  case (Suc n)
  show ?case
  proof (cases "m = j")
    case True
    with Suc.prems(2) show ?thesis by (auto simp: ut.stops_def ut.at_def)
  next
    case False
    then have m: "m < j" using Suc.prems by simp
    with Suc.prems(1) have "\<not> ut.stops data tab s m" using ut.passes_less ut.passes_Suc Suc_leI by metis
    then have "find_utf8hash_loop (Suc n) data tab s (utf8_probe (length tab) s m) m
        = find_utf8hash_loop n data tab s (utf8_probe (length tab) s (Suc m)) (Suc m)"
      by (auto simp: ut.stops_def ut.at_def split: slot.split)
    with Suc.IH [of "Suc m"] Suc.prems m show ?thesis by simp
  qed
qed simp

lemma find_utf8hash_at:
  "ut.passes data tab s j \<Longrightarrow> ut.stops data tab s j \<Longrightarrow> j < n \<Longrightarrow>
   find_utf8hash n data tab s = Some (utf8_probe (length tab) s j)"
  using find_utf8hash_loop_at [of data tab s j 0 n] by (simp add: find_utf8hash_def)

lemma find_utf8hash_loop_passes:
  "ut.passes data tab s (m + n) \<Longrightarrow> find_utf8hash_loop n data tab s (utf8_probe (length tab) s m) m = None"
proof (induction n arbitrary: m)
  case (Suc n)
  have "\<not> ut.stops data tab s m" using ut.passes_less [OF Suc.prems, of "Suc m"] by (simp add: ut.passes_Suc)
  then have "find_utf8hash_loop (Suc n) data tab s (utf8_probe (length tab) s m) m
      = find_utf8hash_loop n data tab s (utf8_probe (length tab) s (Suc m)) (Suc m)"
    by (auto simp: ut.stops_def ut.at_def split: slot.split)
  with Suc.IH [of "Suc m"] Suc.prems show ?case by simp
qed simp

lemma find_utf8hash_passes: "ut.passes data tab s n \<Longrightarrow> find_utf8hash n data tab s = None"
  using find_utf8hash_loop_passes [of data tab s 0 n] by (simp add: find_utf8hash_def)

text \<open>The sequence is quadratic; over a prime size its first half has no repetition.\<close>

definition prime_size :: "nat \<Rightarrow> bool" where
  "prime_size p \<longleftrightarrow> 2 \<le> p \<and> list_all (\<lambda>d. \<not> d dvd p) [2..<p]"

lemma utf8_probe_square: "utf8_probe sz s n = (unat (hashUtf8String s) + n * n) mod sz"
proof (induction n)
  case (Suc n)
  have "2 * Suc n - 1 = 2 * n + 1" by simp
  then have "utf8_probe sz s (Suc n) = (unat (hashUtf8String s) + n * n + (2 * n + 1)) mod sz"
    unfolding utf8_probe.simps next_index_def Suc by (simp only: mod_add_left_eq)
  moreover have "unat (hashUtf8String s) + n * n + (2 * n + 1) = unat (hashUtf8String s) + Suc n * Suc n" by simp
  ultimately show ?case by (simp only:)
qed simp

lemma prime_size_dvd:
  assumes p: "prime_size p" and "p dvd a * b"
  shows "p dvd a \<or> p dvd b"
proof (rule disjCI)
  assume b: "\<not> p dvd b"
  define g where "g = gcd p b"
  have g: "g dvd p" "g dvd b" by (simp_all add: g_def)
  have "0 < p" using p by (simp add: prime_size_def)
  with g have "0 < g" "g \<le> p" "g \<noteq> p" using b by (auto simp: dvd_imp_le intro: ccontr)
  moreover have "g \<notin> {2..<p}" using p g by (auto simp: prime_size_def list_all_iff)
  ultimately have "gcd p b = 1" unfolding g_def [symmetric] by auto
  then have "coprime p b" by (simp add: coprime_iff_gcd_eq_1)
  with assms(2) show "p dvd a" by (simp add: coprime_dvd_mult_left_iff)
qed

lemma utf8_probe_inj:
  assumes p: "prime_size p"
  shows "inj_on (utf8_probe p s) {0..(p - 1) div 2}"
proof (rule linorder_inj_onI)
  fix n m assume nm: "n < m" "m \<in> {0..(p - 1) div 2}"
  show "utf8_probe p s n \<noteq> utf8_probe p s m"
  proof
    assume "utf8_probe p s n = utf8_probe p s m"
    then have "(unat (hashUtf8String s) + m * m) mod p = (unat (hashUtf8String s) + n * n) mod p"
      by (simp add: utf8_probe_square)
    moreover have "unat (hashUtf8String s) + n * n \<le> unat (hashUtf8String s) + m * m"
      using nm(1) by (simp add: mult_le_mono)
    ultimately have "p dvd (unat (hashUtf8String s) + m * m) - (unat (hashUtf8String s) + n * n)"
      by (simp only: mod_eq_dvd_iff_nat)
    then have "p dvd m * m - n * n" by simp
    moreover have "m * m - n * n = (m - n) * (m + n)" using nm(1) by (simp add: algebra_simps diff_mult_distrib)
    ultimately have "p dvd m - n \<or> p dvd m + n" using prime_size_dvd [OF p] by simp
    moreover have "0 < m - n" "m - n < p" "0 < m + n" "m + n < p" using nm by auto
    ultimately show False by (auto dest: dvd_imp_le)
  qed
qed auto

lemma prime_size_pos: "prime_size p \<Longrightarrow> 0 < p"
  by (cases p) (simp_all add: prime_size_def)

lemma used_card: "used tab = card {i. i < length tab \<and> tab ! i \<noteq> Null}"
  by (simp add: used_def length_filter_conv_card)

lemma probe_finds_null:
  assumes p: "prime_size (length tab)" and room: "2 * used tab < length tab"
  shows "\<exists>j<length tab. ut.at tab s j = Null"
proof (rule ccontr)
  assume no: "\<not> (\<exists>j<length tab. ut.at tab s j = Null)"
  let ?p = "length tab" and ?J = "{0..(length tab - 1) div 2}"
  have pos: "0 < ?p" by (rule prime_size_pos [OF p])
  have "utf8_probe ?p s j < ?p \<and> tab ! utf8_probe ?p s j \<noteq> Null" if "j \<in> ?J" for j
  proof -
    have "j \<le> (?p - 1) div 2" using that by simp
    then have "j < ?p" using pos by linarith
    with no ut.probe_less [of ?p s j] pos show ?thesis by (simp add: ut.at_def)
  qed
  then have "utf8_probe ?p s ` ?J \<subseteq> {i. i < ?p \<and> tab ! i \<noteq> Null}" by auto
  then have "card (utf8_probe ?p s ` ?J) \<le> used tab" unfolding used_card by (intro card_mono) auto
  moreover have "card (utf8_probe ?p s ` ?J) = (?p - 1) div 2 + 1"
    using card_image [OF utf8_probe_inj [OF p, of s]] by simp
  ultimately show False using room by linarith
qed

lemma find_utf8hash_returns:
  assumes "prime_size (length tab)" and "2 * used tab < length tab" and "length tab \<le> n"
  shows "\<exists>j. find_utf8hash n data tab s = Some (utf8_probe (length tab) s j) \<and>
     ut.passes data tab s j \<and> ut.stops data tab s j"
proof -
  from probe_finds_null [OF assms(1,2)] obtain i where "i < length tab" "ut.at tab s i = Null" by blast
  with ut.stops_before obtain j where "j \<le> i" "ut.passes data tab s j" "ut.stops data tab s j" by blast
  with find_utf8hash_at [of data tab s j n] \<open>i < length tab\<close> assms(3) show ?thesis by auto
qed

text \<open>What a search finds: the entry for the string, or a free slot where it may be stored.\<close>

lemma find_utf8hash_cases:
  assumes ok: "ut.table_ok data tab" and p: "prime_size (length tab)" and room: "2 * used tab < length tab"
    and n: "length tab \<le> n"
  obtains (found) i x where "find_utf8hash n data tab s = Some i" "tab ! i = Live x" "x \<in> set (lives tab)" "data x = s"
  | (free) i where "find_utf8hash n data tab s = Some i" "i < length tab" "tab ! i = Null"
      "\<And>x. x \<in> set (lives tab) \<Longrightarrow> data x \<noteq> s"
      "\<And>m data'. data' m = s \<Longrightarrow> (\<And>x. x \<in> set (lives tab) \<Longrightarrow> data' x = data x) \<Longrightarrow>
         ut.table_ok data' (tab[i := Live m])"
proof -
  from find_utf8hash_returns [OF p room n] obtain j where
    j: "find_utf8hash n data tab s = Some (utf8_probe (length tab) s j)" "ut.passes data tab s j" "ut.stops data tab s j"
    by blast
  have pos: "0 < length tab" by (rule prime_size_pos [OF p])
  let ?i = "utf8_probe (length tab) s j"
  have il: "?i < length tab" using ut.probe_less [of "length tab"] pos by blast
  from j(3) consider "ut.at tab s j = Null" | x where "ut.at tab s j = Live x" "data x = s" unfolding ut.stops_def by blast
  then show thesis
  proof cases
    case 1
    then have null: "tab ! ?i = Null" by (simp add: ut.at_def)
    have absent: "data x \<noteq> s" if "x \<in> set (lives tab)" for x
      using ut.absent [OF ok j(2) 1, of x] that by (simp add: ut.entries_lives)
    have "ut.table_ok data' (tab[?i := Live m])"
      if m: "data' m = s" and same: "\<And>x. x \<in> set (lives tab) \<Longrightarrow> data' x = data x" for m data'
    proof (rule ut.table_ok_store)
      show "ut.table_ok data' tab" using ut.table_ok_cong [OF _ ok] same by (simp add: ut.entries_lives)
      have "ut.passes data' tab s j"
        using j(2) same ut.found_entry [OF pos] unfolding ut.passes_def ut.entries_lives by metis
      then show "ut.passes data' tab (data' m) j" using m by simp
      show "?i = utf8_probe (length tab) (data' m) j" using m by simp
      show "tab ! ?i = Null \<or> tab ! ?i = Deleted" using null by simp
      show "data' y \<noteq> data' m" if "y \<in> ut.entries tab" for y
        using that same absent m by (simp add: ut.entries_lives)
    qed
    with j(1) il null absent show thesis by (rule free)
  next
    case 2
    then have "tab ! ?i = Live x" "x \<in> set (lives tab)"
      using ut.found_entry [OF pos] by (auto simp: ut.at_def ut.entries_lives)
    with j(1) 2(2) show thesis by (intro found) auto
  qed
qed

lemma not_deleted_store: "Deleted \<notin> set tab \<Longrightarrow> Deleted \<notin> set (tab[i := Live m])"
  by (meson in_mono insert_iff set_update_subset_insert slot.distinct(5))

lemma set_lives_store:
  "i < length tab \<Longrightarrow> tab ! i = Null \<or> tab ! i = Deleted \<Longrightarrow> set (lives (tab[i := Live x])) = insert x (set (lives tab))"
  using ut.entries_store [of i tab x] by (simp add: ut.entries_lives)

lemma rehash_utf8_ok:
  assumes "ut.table_ok data tab" and "prime_size (length tab)" and "Deleted \<notin> set tab" and "Deleted \<notin> set old"
    and "2 * (length (lives tab) + length (lives old)) < length tab" and "length tab \<le> n"
    and "distinct (map data (lives tab @ lives old))"
  shows "\<exists>tab'. rehash_utf8 n data old tab = Some (Inr tab') \<and> ut.table_ok data tab' \<and> length tab' = length tab \<and>
     Deleted \<notin> set tab' \<and> length (lives tab') = length (lives tab) + length (lives old) \<and>
     set (lives tab') = set (lives tab) \<union> set (lives old)"
  using assms
proof (induction n data old tab rule: rehash_utf8.induct)
  case (4 n data m old tab)
  have room: "2 * used tab < length tab" using "4.prems"(5) length_lives [OF "4.prems"(3)] by simp
  show ?case using "4.prems"(1,2) room "4.prems"(6)
  proof (cases rule: find_utf8hash_cases [where s = "data m"])
    case (found i x)
    with "4.prems"(7) have False by (auto simp: image_iff)
    then show ?thesis ..
  next
    case (free i)
    let ?t = "tab[i := Live m]"
    have ll: "length (lives ?t) = Suc (length (lives tab))" using free by (simp add: length_lives_store)
    have sl: "set (lives ?t) = insert m (set (lives tab))" using free by (simp add: set_lives_store)
    have "mset (lives ?t) = mset (m # lives tab)" if "distinct (m # lives tab)"
    proof -
      have "distinct (lives ?t)" using ll sl that by (metis card_distinct distinct_card length_Cons list.simps(15))
      with sl that show ?thesis by (metis list.simps(15) set_eq_iff_mset_eq_distinct)
    qed
    moreover have "distinct (m # lives tab)" using "4.prems"(7) by (auto simp: distinct_map)
    ultimately have ms: "mset (lives ?t) = mset (m # lives tab)" by blast
    then have "mset (map data (lives ?t @ lives old)) = mset (map data (lives tab @ lives (Live m # old)))"
      by (simp del: mset_map add: mset_map [symmetric]) (simp add: ms)
    then have dist: "distinct (map data (lives ?t @ lives old))" using "4.prems"(7) by (metis mset_eq_imp_distinct_iff)
    have "ut.table_ok data ?t" by (rule free(5)) simp_all
    with "4.IH" [OF free(1)] "4.prems" ll sl dist not_deleted_store [of tab i m] free(1)
    show ?thesis by auto
  qed
qed auto

text \<open>The sequence repeats after as many probes as there are slots.\<close>

lemma utf8_probe_period: "utf8_probe sz s (n + sz) = utf8_probe sz s n"
proof -
  have "unat (hashUtf8String s) + (n + sz) * (n + sz) = unat (hashUtf8String s) + n * n + sz * (2 * n + sz)"
    by (simp add: algebra_simps)
  then show ?thesis unfolding utf8_probe_square by (metis mod_mult_self2)
qed

lemma stops_early:
  assumes "ut.passes data tab s j" and "ut.stops data tab s j" and "0 < length tab"
  shows "j < length tab"
proof (rule ccontr)
  assume "\<not> j < length tab"
  then obtain i where i: "j = i + length tab" using le_Suc_ex [of "length tab" j] by (auto simp: add.commute)
  have "ut.stops data tab s i" using assms(2) by (simp add: ut.stops_def ut.at_def i utf8_probe_period)
  moreover have "Suc i \<le> j" using assms(3) i by linarith
  ultimately show False using ut.passes_less [OF assms(1), of "Suc i"] by (simp add: ut.passes_Suc)
qed

lemma finalize_loop_at:
  "ut.passes data tab s j \<Longrightarrow> ut.at tab s j = Live x \<Longrightarrow> data x = s \<Longrightarrow> m \<le> j \<Longrightarrow> j < m + n \<Longrightarrow>
   finalize_loop n data tab s (utf8_probe (length tab) s m) m = Some (Inr (utf8_probe (length tab) s j))"
proof (induction n arbitrary: m)
  case (Suc n)
  show ?case
  proof (cases "m = j")
    case True
    with Suc.prems(2,3) show ?thesis by (auto simp: ut.at_def)
  next
    case False
    then have m: "m < j" using Suc.prems by simp
    with Suc.prems(1) have "\<not> ut.stops data tab s m" using ut.passes_less ut.passes_Suc Suc_leI by metis
    then have "finalize_loop (Suc n) data tab s (utf8_probe (length tab) s m) m
        = finalize_loop n data tab s (utf8_probe (length tab) s (Suc m)) (Suc m)"
      by (auto simp: ut.stops_def ut.at_def split: slot.split)
    with Suc.IH [of "Suc m"] Suc.prems m show ?thesis by simp
  qed
qed simp

definition utf8_ok :: "utf8tab \<Rightarrow> bool" where
  "utf8_ok u \<longleftrightarrow> (case utf8hash u of
       None \<Rightarrow> utf8hash_count u = 0
     | Some tab \<Rightarrow> ut.table_ok (\<lambda>x. utf8consts u ! x) tab \<and> utf8hash_count u = int (length (lives tab)) \<and>
         prime_size (length tab) \<and> list_all (\<lambda>x. x < length (utf8consts u)) (lives tab))"

definition interned :: "utf8tab \<Rightarrow> nat set" where
  "interned u = (case utf8hash u of None \<Rightarrow> {} | Some tab \<Rightarrow> set (lives tab))"

text \<open>
  Room for one more constant: fewer than half of the slots are used and, where the table will be
  re-hashed, it has no mark of a deleted entry and the new size is a prime more than twice the
  number of constants.
\<close>

definition utf8_room :: "utf8tab \<Rightarrow> bool" where
  "utf8_room u \<longleftrightarrow> (case utf8hash u of
       None \<Rightarrow> True
     | Some tab \<Rightarrow>
         if 3 * utf8hash_count u \<ge> 2 * int (length tab)
         then Deleted \<notin> set tab \<and> prime_size (get_next_prime (length tab * 2)) \<and>
              2 * length (lives tab) < get_next_prime (length tab * 2)
         else 2 * used tab < length tab)"

definition utf8_capacity :: "utf8tab \<Rightarrow> nat" where
  "utf8_capacity u = (case utf8hash u of
       None \<Rightarrow> 1021
     | Some tab \<Rightarrow> if 3 * utf8hash_count u \<ge> 2 * int (length tab) then get_next_prime (length tab * 2) else length tab)"

lemma prime_size_sqrt:
  assumes "2 \<le> p" and "p < q * q" and "list_all (\<lambda>d. \<not> d dvd p) [2..<q]"
  shows "prime_size p"
  unfolding prime_size_def list_all_iff
proof (intro conjI ballI notI)
  fix d assume d: "d \<in> set [2..<p]" "d dvd p"
  then obtain e where e: "p = d * e" by auto
  have "e \<noteq> 0" "e \<noteq> 1" using e d assms(1) by auto
  then have "2 \<le> e" "e dvd p" using e by auto
  have "q \<le> d" "q \<le> e" using assms(3) d \<open>2 \<le> e\<close> \<open>e dvd p\<close> by (auto simp: list_all_iff intro: leI)
  then have "q * q \<le> p" unfolding e by (rule mult_le_mono)
  with assms(2) show False by simp
qed (rule assms(1))

lemma prime_1021: "prime_size 1021"
  by (rule prime_size_sqrt [of _ 32]) (simp_all add: upt_rec)

lemma utf8_make_room_ok:
  assumes ok: "utf8_ok u" and room: "utf8_room u" and n: "utf8_capacity u \<le> n"
  shows "\<exists>tab. utf8_make_room n u = Some (Inr tab) \<and> ut.table_ok (\<lambda>x. utf8consts u ! x) tab \<and>
     utf8hash_count u = int (length (lives tab)) \<and> prime_size (length tab) \<and> set (lives tab) = interned u \<and>
     2 * used tab < length tab \<and> length tab \<le> n"
proof (cases "utf8hash u")
  case None
  with ok n show ?thesis
    by (auto simp: utf8_make_room_def utf8_ok_def utf8hash_size_def interned_def utf8_capacity_def prime_1021
        intro: ut.table_ok_empty)
next
  case (Some old)
  note o = ok [unfolded utf8_ok_def Some, simplified]
  show ?thesis
  proof (cases "3 * utf8hash_count u \<ge> 2 * int (length old)")
    case False
    with Some o room n show ?thesis
      by (auto simp: utf8_make_room_def utf8hash_size_def interned_def utf8_capacity_def utf8_room_def)
  next
    case True
    let ?p = "get_next_prime (length old * 2)" and ?data = "\<lambda>x. utf8consts u ! x"
    have r: "Deleted \<notin> set old" "prime_size ?p" "2 * length (lives old) < ?p" "?p \<le> n"
      using True room n Some by (auto simp: utf8_room_def utf8_capacity_def)
    have "distinct (map ?data (lives (rev old)))"
      using ut.lives_distinct [of ?data old] o by (simp add: lives_rev flip: rev_map)
    then have "\<exists>tab'. rehash_utf8 n ?data (rev old) (replicate ?p Null) = Some (Inr tab') \<and> ut.table_ok ?data tab' \<and>
        length tab' = ?p \<and> Deleted \<notin> set tab' \<and> length (lives tab') = length (lives old) \<and>
        set (lives tab') = set (lives old)"
      using rehash_utf8_ok [OF ut.table_ok_empty [OF prime_size_pos [OF r(2)]], of "rev old" n ?data] r by (simp add: lives_rev)
    then obtain tab' where t: "rehash_utf8 n ?data (rev old) (replicate ?p Null) = Some (Inr tab')" "ut.table_ok ?data tab'"
      "length tab' = ?p" "Deleted \<notin> set tab'" "length (lives tab') = length (lives old)" "set (lives tab') = set (lives old)"
      by blast
    then have "2 * used tab' < length tab'" using length_lives [OF t(4)] r(3) by simp
    with True t Some o r show ?thesis by (simp add: utf8_make_room_def utf8hash_size_def interned_def)
  qed
qed

text \<open>
  C18. Interning of UTF-8 constants: when there is room, \<open>makeUtf8Const\<close> returns a constant with the
  bytes asked for, the same one for the same bytes: a constant that was in the table keeps its
  pointer and its bytes, and the result is the one with these bytes if there was one. The table
  stays well formed.
\<close>

theorem makeUtf8Const_interns:
  assumes "utf8_ok u" and "utf8_room u" and "utf8_capacity u \<le> n" and s: "c_bytes buf len = Inr s"
  shows "\<exists>p u'. makeUtf8Const n buf len u = Some (Inr (p, u')) \<and> utf8_ok u' \<and> p \<in> interned u' \<and> utf8consts u' ! p = s \<and>
     (\<forall>q\<in>interned u. q \<in> interned u' \<and> utf8consts u' ! q = utf8consts u ! q \<and> (utf8consts u ! q = s \<longrightarrow> q = p))"
proof -
  from utf8_make_room_ok [OF assms(1-3)] obtain tab where r: "utf8_make_room n u = Some (Inr tab)"
    and ok: "ut.table_ok (\<lambda>x. utf8consts u ! x) tab" and cnt: "utf8hash_count u = int (length (lives tab))"
    and p: "prime_size (length tab)" and int: "set (lives tab) = interned u"
    and room: "2 * used tab < length tab" and n: "length tab \<le> n" by blast
  have old: "x < length (utf8consts u)" if "x \<in> set (lives tab)" for x
    using that assms(1) unfolding int by (auto simp: utf8_ok_def interned_def list_all_iff split: option.splits)
  show ?thesis using ok p room n
  proof (cases rule: find_utf8hash_cases [where s = s])
    case (found i x)
    have uniq: "\<forall>q\<in>interned u. utf8consts u ! q = s \<longrightarrow> q = x"
      using ut.entries_unique [OF ok, of _ x] found(3,4) int by (simp add: ut.entries_lives)
    let ?u = "u\<lparr>utf8hash := Some tab\<rparr>"
    have ie: "interned ?u = interned u" using int by (simp add: interned_def [of ?u])
    have xi: "x \<in> interned u" using found(3) int by simp
    have uo: "utf8_ok ?u" using ok cnt p old by (simp add: utf8_ok_def list_all_iff)
    have "makeUtf8Const n buf len u = Some (Inr (x, ?u))" using found r s by (simp add: makeUtf8Const_def)
    moreover have "utf8consts ?u ! x = s" using found(4) by simp
    moreover have "q \<in> interned ?u \<and> utf8consts ?u ! q = utf8consts u ! q \<and> (utf8consts u ! q = s \<longrightarrow> q = x)"
      if "q \<in> interned u" for q using uniq ie that by simp
    ultimately show ?thesis using uo xi unfolding ie [symmetric] by blast
  next
    case (free i)
    let ?m = "length (utf8consts u)" and ?d = "\<lambda>x. (utf8consts u @ [s]) ! x"
    have same: "?d x = utf8consts u ! x" if "x \<in> set (lives tab)" for x using old [OF that] by (simp add: nth_append)
    have "ut.table_ok ?d (tab[i := Live ?m])" using same by (intro free(5)) auto
    moreover have "set (lives (tab[i := Live ?m])) = insert ?m (interned u)"
      "length (lives (tab[i := Live ?m])) = Suc (length (lives tab))"
      using free(2,3) int by (simp_all add: set_lives_store length_lives_store)
    moreover let ?u = "u\<lparr>utf8hash := Some (tab[i := Live ?m]), utf8hash_count := utf8hash_count u + 1, utf8consts := utf8consts u @ [s]\<rparr>"
    have "makeUtf8Const n buf len u = Some (Inr (?m, ?u))" using free(1,3) r s by (simp add: makeUtf8Const_def Let_def)
    moreover have "interned ?u = insert ?m (interned u)" using calculation(2) by (simp add: interned_def [of ?u])
    moreover have "utf8_ok ?u"
      using calculation(1-3) cnt p old int by (auto simp: utf8_ok_def list_all_iff less_Suc_eq)
    moreover have "utf8consts u ! q \<noteq> s" "q < ?m" if "q \<in> interned u" for q using free(4) old int that by auto
    ultimately show ?thesis by (intro exI [of _ ?m] exI [of _ ?u]) (auto simp: nth_append)
  qed
qed

definition no_utf8 :: utf8tab where
  "no_utf8 = \<lparr>utf8hash = None, utf8hash_count = 0, utf8consts = []\<rparr>"

theorem makeUtf8Const_interns_witness:
  "\<exists>p u'. makeUtf8Const 1021 [76, 97, 59, 0] (- 1) no_utf8 = Some (Inr (p, u')) \<and> utf8_ok u' \<and> utf8consts u' ! p = [76, 97, 59]"
  using makeUtf8Const_interns [of no_utf8 1021 "[76, 97, 59, 0]" "- 1" "[76, 97, 59]"]
  by (auto simp: no_utf8_def utf8_ok_def utf8_room_def utf8_capacity_def c_bytes_def)

text \<open>
  Finalisation of a UTF-8 constant that is in the table returns, within as many probes as the
  table has slots, and removes exactly that constant; the table stays well formed.
\<close>

theorem finalizeUtf8const_removes:
  assumes ok: "utf8_ok u" and m: "m \<in> interned u" and n: "utf8hash_size u \<le> n"
  shows "\<exists>u'. finalizeUtf8const n m u = Some (Inr u') \<and> utf8_ok u' \<and> interned u' = interned u - {m} \<and>
     utf8consts u' = utf8consts u"
proof -
  from m obtain tab where tab: "utf8hash u = Some tab" and ml: "m \<in> set (lives tab)"
    by (auto simp: interned_def split: option.splits)
  let ?data = "\<lambda>x. utf8consts u ! x"
  have t: "ut.table_ok ?data tab" and cnt: "utf8hash_count u = int (length (lives tab))" and p: "prime_size (length tab)"
    and bound: "list_all (\<lambda>x. x < length (utf8consts u)) (lives tab)"
    using ok tab by (auto simp: utf8_ok_def)
  have pos: "0 < length tab" by (rule prime_size_pos [OF p])
  from ut.present_stops [OF t, of m] ml obtain j where
    j: "ut.passes ?data tab (?data m) j" "ut.at tab (?data m) j = Live m" by (auto simp: ut.entries_lives)
  have "j < length tab" using stops_early [OF j(1) _ pos] j(2) by (auto simp: ut.stops_def)
  then have "j < n" using n tab by (simp add: utf8hash_size_def)
  let ?i = "utf8_probe (length tab) (?data m) j"
  have i: "?i < length tab" "tab ! ?i = Live m" using ut.probe_less [OF pos] j(2) by (simp_all add: ut.at_def)
  let ?u = "u\<lparr>utf8hash_count := utf8hash_count u - 1, utf8hash := Some (tab[?i := Deleted])\<rparr>"
  have "finalizeUtf8const n m u = Some (Inr ?u)"
    using finalize_loop_at [OF j refl, of 0 n] \<open>j < n\<close> tab by (simp add: finalizeUtf8const_def Let_def)
  moreover have lv: "set (lives (tab[?i := Deleted])) = interned u - {m}"
    using ut.entries_delete [OF t i] tab by (simp add: ut.entries_lives interned_def)
  moreover have "utf8_ok ?u"
  proof -
    have "ut.table_ok ?data (tab[?i := Deleted])" by (rule ut.table_ok_delete [OF t i(1)])
    moreover have "utf8hash_count u - 1 = int (length (lives (tab[?i := Deleted])))"
      using length_lives_delete [OF i] cnt by simp
    moreover have "list_all (\<lambda>x. x < length (utf8consts u)) (lives (tab[?i := Deleted]))"
      using lv bound tab by (auto simp: list_all_iff interned_def)
    ultimately show ?thesis using p by (simp add: utf8_ok_def)
  qed
  ultimately show ?thesis by (intro exI [of _ ?u]) (simp add: interned_def [of ?u])
qed

definition demo_utf8 :: utf8tab where
  "demo_utf8 = \<lparr>utf8hash = Some [Live 0, Live 1, Live 2, Null, Live 3, Null, Null], utf8hash_count = 4,
     utf8consts = [[7], [8], [9], [11]]\<rparr>"

lemma demo_hash [simp]:
  "unat (hashUtf8String [7]) = 7" "unat (hashUtf8String [8]) = 8" "unat (hashUtf8String [9]) = 9"
  "unat (hashUtf8String [11]) = 11" "unat (hashUtf8String [14]) = 14"
  by code_simp+

lemma prime_7: "prime_size 7"
  by (simp add: prime_size_def upt_rec)

lemma demo_utf8_ok: "utf8_ok demo_utf8"
proof -
  have "ut.table_ok (\<lambda>x. [[7], [8], [9], [11]] ! x) [Live 0, Live 1, Live (2 :: nat), Null, Live 3, Null, Null]"
    unfolding ut.table_ok_def by (auto simp: less_Suc_eq nth_Cons' intro!: exI [of _ "0 :: nat"])
  then show ?thesis using prime_7 by (simp add: utf8_ok_def demo_utf8_def eval_nat_numeral)
qed

theorem finalizeUtf8const_removes_witness:
  "\<exists>u'. finalizeUtf8const 7 2 demo_utf8 = Some (Inr u') \<and> utf8_ok u' \<and> interned u' = {0, 1, 3}"
proof -
  have "interned demo_utf8 = {0, 1, 2, 3}" "utf8hash_size demo_utf8 = 7"
    by (auto simp: interned_def demo_utf8_def utf8hash_size_def)
  then show ?thesis using finalizeUtf8const_removes [OF demo_utf8_ok, of 2 7] by auto
qed



end
