(* ===== verification/String_Table.thy ===== *)
theory String_Table
  imports Interning
begin

text \<open>
  The table of interned Java strings of \<^verbatim>\<open>runtime/string.c\<close>, as an instance of the interface for
  open addressing: the step is odd and the size a power of two, so a probe sequence visits every
  slot. The search, re-hashing, interning, and the conversion of constants to strings.
\<close>

section \<open>The table of interned strings\<close>

definition pow2_size :: "nat \<Rightarrow> bool" where
  "pow2_size sz \<longleftrightarrow> list_ex (\<lambda>k. sz = 2 ^ k) [0..<31]"

lemma pow2_sizeE:
  assumes "pow2_size sz"
  obtains k where "sz = 2 ^ k" "k \<le> 30"
  using assms by (auto simp: pow2_size_def list_ex_iff)

fun intern_index :: "nat \<Rightarrow> jint \<Rightarrow> nat \<Rightarrow> jint" where
  "intern_index sz h 0 = mask_index sz h"
| "intern_index sz h (Suc n) = mask_index sz (intern_index sz h n + intern_step h)"

definition intern_probe :: "uint16 \<Rightarrow> nat \<Rightarrow> uint16 list \<Rightarrow> nat \<Rightarrow> nat" where
  "intern_probe junk sz cs n = unat (intern_index sz (hashChars junk cs) n)"

lemma mask_index_pow2: "mask_index (2 ^ k) i = take_bit k i"
  by (simp add: mask_index_def take_bit_eq_mask mask_eq_exp_minus_1)

lemma unat_mask_add:
  assumes "k \<le> 30"
  shows "unat (mask_index (2 ^ k) (x + y)) = (unat x + unat y) mod 2 ^ k"
proof -
  have "unat (mask_index (2 ^ k) (x + y)) = unat (x + y) mod 2 ^ k"
    unfolding mask_index_pow2 unsigned_take_bit_eq by (rule take_bit_eq_mod)
  also have "unat (x + y) = (unat x + unat y) mod 2 ^ 32" by (simp add: unat_word_ariths)
  also have "(unat x + unat y) mod 2 ^ 32 mod 2 ^ k = (unat x + unat y) mod 2 ^ k"
    using assms by (intro mod_mod_cancel le_imp_power_dvd) simp
  finally show ?thesis .
qed

lemma intern_index_nat:
  assumes "k \<le> 30"
  shows "unat (intern_index (2 ^ k) h n) = (unat h + n * unat (intern_step h)) mod 2 ^ k"
proof (induction n)
  case 0
  show ?case using unat_mask_add [OF assms, of h 0] by simp
next
  case (Suc n)
  have "unat (intern_index (2 ^ k) h (Suc n)) = (unat (intern_index (2 ^ k) h n) + unat (intern_step h)) mod 2 ^ k"
    using unat_mask_add [OF assms] by simp
  also have "\<dots> = (unat h + n * unat (intern_step h) + unat (intern_step h)) mod 2 ^ k"
    unfolding Suc by (rule mod_add_left_eq)
  finally show ?case by (simp add: algebra_simps)
qed

lemma odd_intern_step: "odd (unat (intern_step h))"
proof -
  have "intern_step h = of_nat (8 * unat h + 7)" by (simp add: intern_step_def)
  then have "unat (intern_step h) = (8 * unat h + 7) mod 2 ^ 32"
    by (simp only: unsigned_of_nat take_bit_eq_mod) simp
  then have "unat (intern_step h) mod 2 = (8 * unat h + 7) mod 2" by (simp add: mod_mod_cancel)
  also have "\<dots> = 1" by presburger
  finally show ?thesis by presburger
qed

lemma intern_index_eq:
  assumes "k \<le> 30" and "n \<le> m"
  shows "intern_index (2 ^ k) h n = intern_index (2 ^ k) h m \<longleftrightarrow> 2 ^ k dvd m - n"
proof -
  let ?s = "unat (intern_step h)"
  have "intern_index (2 ^ k) h n = intern_index (2 ^ k) h m \<longleftrightarrow> (unat h + m * ?s) mod 2 ^ k = (unat h + n * ?s) mod 2 ^ k"
    unfolding word_unat_eq_iff intern_index_nat [OF assms(1)] by auto
  also have "\<dots> \<longleftrightarrow> 2 ^ k dvd (unat h + m * ?s) - (unat h + n * ?s)"
    using assms(2) by (intro mod_eq_dvd_iff_nat) (simp add: mult_le_mono)
  also have "(unat h + m * ?s) - (unat h + n * ?s) = (m - n) * ?s" by (simp add: diff_mult_distrib)
  also have "2 ^ k dvd (m - n) * ?s \<longleftrightarrow> 2 ^ k dvd m - n"
    using odd_intern_step [of h] by (intro coprime_dvd_mult_left_iff) simp
  finally show ?thesis .
qed

interpretation it: open_addressing pow2_size "intern_probe junk" for junk :: uint16
proof
  fix sz k n assume "pow2_size sz"
  then obtain j where "sz = 2 ^ j" "j \<le> 30" by (rule pow2_sizeE)
  then show "intern_probe junk sz k n < sz" by (simp add: intern_probe_def intern_index_nat)
qed

lemma intern_probe_eq:
  assumes "pow2_size sz" and "n \<le> m"
  shows "intern_probe junk sz cs n = intern_probe junk sz cs m \<longleftrightarrow> sz dvd m - n"
  using assms(1) by (rule pow2_sizeE) (use intern_index_eq [OF _ assms(2)] in \<open>simp add: intern_probe_def word_unat_eq_iff\<close>)

text \<open>The step is odd and the size a power of two: every slot is probed.\<close>

lemma intern_probe_covers:
  assumes sz: "pow2_size sz" and i: "i < sz"
  shows "\<exists>n < sz. intern_probe junk sz cs n = i"
proof -
  have inj: "inj_on (intern_probe junk sz cs) {0..<sz}"
  proof (rule linorder_inj_onI)
    fix n m assume "n < m" "m \<in> {0..<sz}"
    then show "intern_probe junk sz cs n \<noteq> intern_probe junk sz cs m"
      using intern_probe_eq [OF sz, of n m] by (auto dest: dvd_imp_le)
  qed auto
  have "intern_probe junk sz cs ` {0..<sz} \<subseteq> {0..<sz}" using it.probe_less [OF sz] by auto
  then have "intern_probe junk sz cs ` {0..<sz} = {0..<sz}" using inj by (simp add: endo_inj_surj)
  with i have "i \<in> intern_probe junk sz cs ` {0..<sz}" by simp
  then show ?thesis by auto
qed

lemma intern_stops_early:
  assumes sz: "pow2_size (length tab)" and "it.passes junk data tab cs j" and "it.stops junk data tab cs j"
  shows "j < length tab"
proof (rule ccontr)
  assume "\<not> j < length tab"
  have "intern_probe junk (length tab) cs (j - length tab) = intern_probe junk (length tab) cs j"
    using intern_probe_eq [OF sz, of "j - length tab" j] \<open>\<not> j < length tab\<close> by simp
  then have "it.stops junk data tab cs (j - length tab)" using assms(3) by (simp add: it.stops_def it.at_def)
  moreover have "0 < length tab" using sz by (auto elim: pow2_sizeE)
  then have "Suc (j - length tab) \<le> j" using \<open>\<not> j < length tab\<close> by linarith
  ultimately show False using it.passes_less [OF assms(2), of "Suc (j - length tab)"] by (simp add: it.passes_Suc)
qed

text \<open>One turn of the search.\<close>

definition deleted_before :: "uint16 \<Rightarrow> nat slot list \<Rightarrow> uint16 list \<Rightarrow> nat \<Rightarrow> nat option \<Rightarrow> bool" where
  "deleted_before junk tab cs m d \<longleftrightarrow>
     (\<forall>x. d = Some x \<longrightarrow> (\<exists>i<m. x = intern_probe junk (length tab) cs i \<and> it.at junk tab cs i = Deleted))"

definition slot_for :: "uint16 \<Rightarrow> (nat \<Rightarrow> uint16 list) \<Rightarrow> nat slot list \<Rightarrow> uint16 list \<Rightarrow> nat \<Rightarrow> nat \<Rightarrow> bool" where
  "slot_for junk data tab cs j i \<longleftrightarrow>
     (if it.at junk tab cs j = Null
      then \<exists>k\<le>j. i = intern_probe junk (length tab) cs k \<and> it.at junk tab cs k \<in> {Null, Deleted}
      else i = intern_probe junk (length tab) cs j)"

lemma intern_turn:
  fixes junk cs tab
  defines "h \<equiv> hashChars junk cs"
  assumes sz: "pow2_size (length tab)" and m: "Suc m < length tab" and st: "\<not> it.stops junk data tab cs m"
    and d: "deleted_before junk tab cs m d"
  shows "\<exists>d'. deleted_before junk tab cs (Suc m) d' \<and>
     findInternSlot_loop (Suc n) data tab cs (intern_index (length tab) h 0) (intern_step h) (intern_index (length tab) h m) d
     = findInternSlot_loop n data tab cs (intern_index (length tab) h 0) (intern_step h) (intern_index (length tab) h (Suc m)) d'"
proof -
  have "intern_index (length tab) h (Suc m) \<noteq> intern_index (length tab) h 0"
    using intern_probe_eq [OF sz, of 0 "Suc m" junk cs] m by (auto simp: intern_probe_def h_def dest: dvd_imp_le)
  then have go: "mask_index (length tab) (intern_index (length tab) h m + intern_step h) \<noteq> intern_index (length tab) h 0" by simp
  have at: "tab ! unat (intern_index (length tab) h m) = it.at junk tab cs m"
    by (simp add: it.at_def intern_probe_def h_def)
  have keep: "deleted_before junk tab cs (Suc m) d" using d by (auto simp: deleted_before_def less_Suc_eq)
  show ?thesis
  proof (cases "it.at junk tab cs m")
    case Deleted
    then have "deleted_before junk tab cs (Suc m) (Some (unat (intern_index (length tab) h m)))"
      by (auto simp: deleted_before_def intern_probe_def h_def)
    with Deleted at go show ?thesis by (intro exI conjI) (auto simp: Let_def)
  next
    case (Live x)
    with st have "data x \<noteq> cs" by (simp add: it.stops_def)
    with Live at go keep show ?thesis by (intro exI [of _ d]) (simp add: Let_def)
  qed (use st in \<open>simp add: it.stops_def\<close>)
qed

lemma intern_loop_stops:
  fixes junk cs tab
  defines "h \<equiv> hashChars junk cs"
  assumes sz: "pow2_size (length tab)" and pj: "it.passes junk data tab cs j" and sj: "it.stops junk data tab cs j"
  shows "m \<le> j \<Longrightarrow> j < m + n \<Longrightarrow> deleted_before junk tab cs m d \<Longrightarrow>
     \<exists>i. findInternSlot_loop n data tab cs (intern_index (length tab) h 0) (intern_step h) (intern_index (length tab) h m) d
           = Some (Inr i) \<and> slot_for junk data tab cs j i"
proof (induction n arbitrary: m d)
  case (Suc n)
  have at: "tab ! unat (intern_index (length tab) h k) = it.at junk tab cs k" for k
    by (simp add: it.at_def intern_probe_def h_def)
  show ?case
  proof (cases "m = j")
    case True
    note mj = True
    show ?thesis
    proof (cases "it.at junk tab cs j")
      case Null
      show ?thesis
      proof (cases d)
        case None
        with Null mj at [of m] show ?thesis
          by (auto simp: Let_def slot_for_def intern_probe_def h_def intro!: exI [of _ j])
      next
        case (Some x)
        with Suc.prems(3) obtain k where "k < m" "x = intern_probe junk (length tab) cs k" "it.at junk tab cs k = Deleted"
          by (auto simp: deleted_before_def)
        with Some Null mj at [of m] show ?thesis
          by (auto simp: Let_def slot_for_def intro!: exI [of _ k])
      qed
    next
      case (Live x)
      with sj have "data x = cs" by (auto simp: it.stops_def)
      with Live mj at [of m] show ?thesis by (auto simp: Let_def slot_for_def intern_probe_def h_def)
    qed (use sj in \<open>auto simp: it.stops_def\<close>)
  next
    case False
    then have m: "m < j" using Suc.prems by simp
    have "\<not> it.stops junk data tab cs m" using it.passes_less [OF pj, of "Suc m"] m by (simp add: it.passes_Suc)
    moreover have "Suc m < length tab" using intern_stops_early [OF sz pj sj] m by simp
    ultimately obtain d' where d': "deleted_before junk tab cs (Suc m) d'"
      "findInternSlot_loop (Suc n) data tab cs (intern_index (length tab) h 0) (intern_step h) (intern_index (length tab) h m) d
       = findInternSlot_loop n data tab cs (intern_index (length tab) h 0) (intern_step h) (intern_index (length tab) h (Suc m)) d'"
      using intern_turn [OF sz _ _ Suc.prems(3), of data n] unfolding h_def by blast
    from Suc.IH [OF _ _ d'(1)] m Suc.prems(2) obtain i where
      "findInternSlot_loop n data tab cs (intern_index (length tab) h 0) (intern_step h) (intern_index (length tab) h (Suc m)) d'
        = Some (Inr i)" "slot_for junk data tab cs j i" by auto
    with d'(2) show ?thesis by metis
  qed
qed simp

lemma intern_loop_full:
  fixes junk cs tab
  defines "h \<equiv> hashChars junk cs"
  assumes sz: "pow2_size (length tab)" and full: "it.passes junk data tab cs (length tab)"
  shows "m < length tab \<Longrightarrow> length tab \<le> m + n \<Longrightarrow> deleted_before junk tab cs m d \<Longrightarrow>
     findInternSlot_loop n data tab cs (intern_index (length tab) h 0) (intern_step h) (intern_index (length tab) h m) d
       = Some (Inl VM_abort)"
proof (induction n arbitrary: m d)
  case (Suc n)
  have st: "\<not> it.stops junk data tab cs m"
    using it.passes_less [OF full, of "Suc m"] Suc.prems(1) by (simp add: it.passes_Suc)
  show ?case
  proof (cases "Suc m = length tab")
    case True
    have "intern_index (length tab) h (Suc m) = intern_index (length tab) h 0"
      using intern_probe_eq [OF sz, of 0 "Suc m" junk cs] True
      by (simp add: intern_probe_def h_def word_unat_eq_iff del: intern_index.simps)
    then have "mask_index (length tab) (intern_index (length tab) h m + intern_step h) = intern_index (length tab) h 0" by simp
    moreover have "tab ! unat (intern_index (length tab) h m) = it.at junk tab cs m"
      by (simp add: it.at_def intern_probe_def h_def)
    ultimately show ?thesis using st
      by (cases "it.at junk tab cs m") (auto simp: Let_def it.stops_def)
  next
    case False
    then have "Suc m < length tab" using Suc.prems(1) by simp
    from intern_turn [OF sz this st Suc.prems(3), of n] obtain d' where "deleted_before junk tab cs (Suc m) d'"
      "findInternSlot_loop (Suc n) data tab cs (intern_index (length tab) h 0) (intern_step h) (intern_index (length tab) h m) d
       = findInternSlot_loop n data tab cs (intern_index (length tab) h 0) (intern_step h) (intern_index (length tab) h (Suc m)) d'"
      unfolding h_def by blast
    with Suc.IH [of "Suc m" d'] \<open>Suc m < length tab\<close> Suc.prems(2) show ?thesis by simp
  qed
qed simp

lemma pow2_size_pos: "pow2_size sz \<Longrightarrow> 0 < sz"
  by (auto elim: pow2_sizeE)

lemma it_passes_all_absent:
  assumes "it.table_ok junk data tab" and "it.passes junk data tab cs (length tab)"
  shows "Null \<notin> set tab \<and> (\<forall>x\<in>set (lives tab). data x \<noteq> cs)"
proof -
  have sz: "pow2_size (length tab)" using assms(1) by (simp add: it.table_ok_def)
  have "tab ! i \<noteq> Null" if "i < length tab" for i
  proof -
    from intern_probe_covers [OF sz that] obtain n where "n < length tab" "intern_probe junk (length tab) cs n = i" by blast
    with assms(2) show ?thesis by (auto simp: it.passes_def it.at_def)
  qed
  moreover have "data x \<noteq> cs" if "x \<in> set (lives tab)" for x
  proof
    assume "data x = cs"
    with it.present_stops [OF assms(1), of x] that obtain j where
      "it.passes junk data tab cs j" "it.at junk tab cs j = Live x" by (auto simp: it.entries_lives)
    moreover from this have "it.stops junk data tab cs j" using \<open>data x = cs\<close> by (simp add: it.stops_def)
    ultimately have "j < length tab" using intern_stops_early [OF sz] by blast
    with it.passes_less [OF assms(2), of "Suc j"] \<open>it.stops junk data tab cs j\<close> show False by (simp add: it.passes_Suc)
  qed
  ultimately show ?thesis by (auto simp: in_set_conv_nth)
qed

lemma findInternSlot_cases:
  assumes ok: "it.table_ok junk data tab" and n: "length tab \<le> n"
  obtains (found) i x where "findInternSlot n data tab cs (hashChars junk cs) = Some (Inr i)" "tab ! i = Live x" "i < length tab"
      "x \<in> set (lives tab)" "data x = cs"
  | (free) i where "findInternSlot n data tab cs (hashChars junk cs) = Some (Inr i)" "i < length tab"
      "tab ! i = Null \<or> tab ! i = Deleted" "Null \<in> set tab" "\<And>x. x \<in> set (lives tab) \<Longrightarrow> data x \<noteq> cs"
      "\<And>m data'. data' m = cs \<Longrightarrow> (\<And>x. x \<in> set (lives tab) \<Longrightarrow> data' x = data x) \<Longrightarrow>
         it.table_ok junk data' (tab[i := Live m])"
  | (full) "findInternSlot n data tab cs (hashChars junk cs) = Some (Inl VM_abort)" "Null \<notin> set tab"
      "\<And>x. x \<in> set (lives tab) \<Longrightarrow> data x \<noteq> cs"
proof -
  have sz: "pow2_size (length tab)" using ok by (simp add: it.table_ok_def)
  have start: "findInternSlot n data tab cs (hashChars junk cs) = findInternSlot_loop n data tab cs
      (intern_index (length tab) (hashChars junk cs) 0) (intern_step (hashChars junk cs)) (intern_index (length tab) (hashChars junk cs) 0) None"
    by (simp add: findInternSlot_def Let_def)
  have d0: "deleted_before junk tab cs 0 None" by (simp add: deleted_before_def)
  show thesis
  proof (cases "it.passes junk data tab cs (length tab)")
    case True
    from intern_loop_full [OF sz True pow2_size_pos [OF sz], of n None] n d0 start it_passes_all_absent [OF ok True]
    show thesis by (intro full) auto
  next
    case False
    then obtain j where j: "j < length tab" "it.passes junk data tab cs j" "it.stops junk data tab cs j"
      using it.passes_or_stops by blast
    from intern_loop_stops [OF sz j(2,3), of 0 n None] j(1) n d0 start obtain i where
      i: "findInternSlot n data tab cs (hashChars junk cs) = Some (Inr i)" "slot_for junk data tab cs j i" by auto
    show thesis
    proof (cases "it.at junk tab cs j")
      case Null
      with i(2) obtain k where k: "k \<le> j" "i = intern_probe junk (length tab) cs k" "tab ! i = Null \<or> tab ! i = Deleted"
        by (auto simp: slot_for_def it.at_def)
      have il: "i < length tab" using it.probe_less [OF sz] k(2) by simp
      have nt: "Null \<in> set tab" using it.probe_at [OF sz, of junk cs j] Null by simp
      have absent: "data x \<noteq> cs" if "x \<in> set (lives tab)" for x
        using it.absent [OF ok j(2) Null, of x] that by (simp add: it.entries_lives)
      have "it.table_ok junk data' (tab[i := Live m])"
        if m: "data' m = cs" and same: "\<And>x. x \<in> set (lives tab) \<Longrightarrow> data' x = data x" for m data'
      proof (rule it.table_ok_store)
        show "it.table_ok junk data' tab" using it.table_ok_cong [OF _ ok] same by (simp add: it.entries_lives)
        have "it.passes junk data' tab cs j"
          using j(2) same it.found_entry [OF sz] unfolding it.passes_def it.entries_lives by metis
        then show "it.passes junk data' tab (data' m) k" using it.passes_less k(1) m by blast
        show "i = intern_probe junk (length tab) (data' m) k" using m k(2) by simp
        show "tab ! i = Null \<or> tab ! i = Deleted" by (rule k(3))
        show "data' y \<noteq> data' m" if "y \<in> it.entries tab" for y
          using that same absent m by (simp add: it.entries_lives)
      qed
      with i(1) il k(3) nt absent show thesis by (rule free)
    next
      case (Live x)
      with j(3) have "data x = cs" by (auto simp: it.stops_def)
      moreover have "tab ! i = Live x" "i < length tab" using Live i(2) it.probe_less [OF sz] by (auto simp: slot_for_def it.at_def)
      moreover have "x \<in> set (lives tab)" using it.found_entry [OF sz Live] by (simp add: it.entries_lives)
      ultimately show thesis using i(1) by (intro found)
    qed (use j(3) in \<open>auto simp: it.stops_def\<close>)
  qed
qed

text \<open>
  C20. The search for the slot of a string always ends, within as many probes as the table has
  slots: it finds the string if it is there, otherwise a free slot (an empty one, or a deleted
  entry met on the way) if the table has an empty slot, and otherwise it aborts the program,
  also when the table has only deleted entries.
\<close>

theorem findInternSlot_decides:
  assumes "it.table_ok junk data tab" and "length tab \<le> n"
  shows "if \<exists>x\<in>set (lives tab). data x = cs
     then \<exists>i x. findInternSlot n data tab cs (hashChars junk cs) = Some (Inr i) \<and> tab ! i = Live x \<and> data x = cs
     else if Null \<in> set tab
     then \<exists>i<length tab. findInternSlot n data tab cs (hashChars junk cs) = Some (Inr i) \<and> tab ! i \<in> {Null, Deleted}
     else findInternSlot n data tab cs (hashChars junk cs) = Some (Inl VM_abort)"
  using assms by (cases rule: findInternSlot_cases [where cs = cs]) auto

theorem findInternSlot_decides_witness:
  "findInternSlot 4 (\<lambda>x. [5]) [Deleted, Deleted, Deleted, Deleted] [7] (hashChars 0 [7]) = Some (Inl VM_abort)"
proof -
  have "it.table_ok 0 (\<lambda>x. [5]) [Deleted, Deleted, Deleted, Deleted]"
    by (auto simp: it.table_ok_def pow2_size_def less_Suc_eq upt_rec)
  from findInternSlot_decides [OF this, of 4 "[7]"] show ?thesis by simp
qed

lemma used_less_Null: "used tab < length tab \<Longrightarrow> Null \<in> set tab"
  by (induction tab) (auto simp: used_def split: if_splits)

lemma rehash_place_at:
  fixes junk cs
  defines "h \<equiv> hashChars junk cs"
  assumes "\<And>i. i < j \<Longrightarrow> it.at junk tab cs i \<noteq> Null" and "it.at junk tab cs j = Null"
  shows "m \<le> j \<Longrightarrow> j < m + n \<Longrightarrow>
     rehash_place n x (intern_step h) (intern_index (length tab) h m) tab = Some (tab[intern_probe junk (length tab) cs j := Live x])"
proof (induction n arbitrary: m)
  case (Suc n)
  have at: "tab ! unat (intern_index (length tab) h k) = it.at junk tab cs k" for k
    by (simp add: it.at_def intern_probe_def h_def)
  show ?case
  proof (cases "m = j")
    case True
    with assms(3) at [of j] show ?thesis by (simp add: intern_probe_def h_def)
  next
    case False
    with Suc.prems assms(2) [of m] at [of m] Suc.IH [of "Suc m"] show ?thesis by simp
  qed
qed simp

lemma rehash_place_ok:
  assumes ok: "it.table_ok junk data tab" and new: "\<And>y. y \<in> set (lives tab) \<Longrightarrow> data y \<noteq> data x"
    and nt: "Null \<in> set tab" and n: "length tab \<le> n"
  shows "\<exists>i<length tab. tab ! i = Null \<and> it.table_ok junk data (tab[i := Live x]) \<and>
     rehash_place n x (intern_step (hashChars junk (data x))) (mask_index (length tab) (hashChars junk (data x))) tab
       = Some (tab[i := Live x])"
proof -
  have sz: "pow2_size (length tab)" using ok by (simp add: it.table_ok_def)
  from nt obtain i where "i < length tab" "tab ! i = Null" by (auto simp: in_set_conv_nth)
  moreover from intern_probe_covers [OF sz this(1)] obtain k where "k < length tab" "intern_probe junk (length tab) (data x) k = i" by blast
  ultimately have k: "k < length tab" "it.at junk tab (data x) k = Null" by (simp_all add: it.at_def)
  then obtain j where j: "j \<le> k" "it.passes junk data tab (data x) j" "it.stops junk data tab (data x) j"
    using it.stops_before by blast
  then have jn: "it.at junk tab (data x) j = Null"
    using new it.found_entry [OF sz] by (auto simp: it.stops_def it.entries_lives)
  let ?i = "intern_probe junk (length tab) (data x) j"
  have "it.table_ok junk data (tab[?i := Live x])"
    using jn new by (intro it.table_ok_store [OF ok j(2) refl]) (auto simp: it.at_def it.entries_lives)
  moreover have "rehash_place n x (intern_step (hashChars junk (data x))) (mask_index (length tab) (hashChars junk (data x))) tab
      = Some (tab[?i := Live x])"
    using rehash_place_at [of j junk tab "data x" 0 n x] j(1,2) jn k(1) n by (auto simp: it.passes_def)
  moreover have "?i < length tab" by (rule it.probe_less [OF sz])
  ultimately show ?thesis using jn by (auto simp: it.at_def)
qed

lemma rehash_slots_ok:
  "it.table_ok junk data tab \<Longrightarrow> Deleted \<notin> set tab \<Longrightarrow> length (lives tab) + length (lives old) < length tab \<Longrightarrow>
   length tab \<le> n \<Longrightarrow> distinct (map data (lives tab) @ map data (lives old)) \<Longrightarrow>
   \<exists>tab'. rehash_slots n junk data old tab = Some tab' \<and> it.table_ok junk data tab' \<and> length tab' = length tab \<and>
     Deleted \<notin> set tab' \<and> length (lives tab') = length (lives tab) + length (lives old) \<and>
     set (lives tab') = set (lives tab) \<union> set (lives old)"
proof (induction n junk data old tab rule: rehash_slots.induct)
  case (2 n junk data x old tab)
  have "Null \<in> set tab" using length_lives [OF "2.prems"(2)] "2.prems"(3) by (intro used_less_Null) simp
  moreover have new: "data y \<noteq> data x" if "y \<in> set (lives tab)" for y
    using "2.prems"(5) imageI [OF that, of data] by auto
  ultimately obtain i where i: "i < length tab" "tab ! i = Null" "it.table_ok junk data (tab[i := Live x])"
    "rehash_place n x (intern_step (hashChars junk (data x))) (mask_index (length tab) (hashChars junk (data x))) tab
       = Some (tab[i := Live x])" using rehash_place_ok [OF "2.prems"(1) _ _ "2.prems"(4), of x] by blast
  let ?t = "tab[i := Live x]"
  have ll: "length (lives ?t) = Suc (length (lives tab))" using i(1,2) by (simp add: length_lives_store)
  have sl: "set (lives ?t) = insert x (set (lives tab))" using i(1,2) by (simp add: set_lives_store)
  have "distinct (map data (lives ?t))" by (rule it.lives_distinct [OF i(3)])
  moreover have "set (map data (lives ?t)) \<inter> set (map data (lives old)) = {}"
    using "2.prems"(5) sl by auto
  ultimately have "distinct (map data (lives ?t) @ map data (lives old))" using "2.prems"(5) by simp
  with "2.IH" [OF refl i(4)] i "2.prems" ll sl not_deleted_store [of tab i x] show ?case by (auto simp: Let_def)
qed auto

definition str_ok :: "uint16 \<Rightarrow> strtab \<Rightarrow> bool" where
  "str_ok junk t \<longleftrightarrow> (case strhash t of
       None \<Rightarrow> strhash_count t = 0
     | Some tab \<Rightarrow> it.table_ok junk (\<lambda>x. jstrings t ! x) tab \<and> strhash_count t = int (length (lives tab)) \<and>
         list_all (\<lambda>x. x < length (jstrings t)) (lives tab))"

definition str_interned :: "strtab \<Rightarrow> nat set" where
  "str_interned t = (case strhash t of None \<Rightarrow> {} | Some tab \<Rightarrow> set (lives tab))"

text \<open>Room: an empty slot, or a table at its load limit whose double still has a size of type \<open>int\<close>.\<close>

definition str_room :: "strtab \<Rightarrow> bool" where
  "str_room t \<longleftrightarrow> (case strhash t of
       None \<Rightarrow> True
     | Some tab \<Rightarrow> if 4 * strhash_count t \<ge> 3 * int (length tab) then length tab < 2 ^ 30 else Null \<in> set tab)"

definition str_capacity :: "strtab \<Rightarrow> nat" where
  "str_capacity t = (case strhash t of
       None \<Rightarrow> 1024
     | Some tab \<Rightarrow> if 4 * strhash_count t \<ge> 3 * int (length tab) then 2 * length tab else length tab)"

lemma pow2_size_double: "pow2_size sz \<Longrightarrow> sz < 2 ^ 30 \<Longrightarrow> pow2_size (sz * 2)"
proof (erule pow2_sizeE)
  fix k :: nat assume k: "sz = 2 ^ k" "sz < 2 ^ 30" "k \<le> 30"
  then have "k \<noteq> 30" by auto
  with k show ?thesis by (auto simp: pow2_size_def list_ex_iff intro!: bexI [of _ "Suc k"])
qed

lemma str_make_room_ok:
  assumes ok: "str_ok junk t" and room: "str_room t" and n: "str_capacity t \<le> n"
  shows "\<exists>tab. str_make_room n junk t = Some (t\<lparr>strhash := Some tab\<rparr>) \<and> it.table_ok junk (\<lambda>x. jstrings t ! x) tab \<and>
     strhash_count t = int (length (lives tab)) \<and> set (lives tab) = str_interned t \<and> Null \<in> set tab \<and> length tab \<le> n"
proof (cases "strhash t")
  case None
  have "pow2_size 1024" by (simp add: pow2_size_def upt_rec)
  with None ok n show ?thesis
    by (auto simp: str_make_room_def str_ok_def strhash_size_def rehashStrings_def str_interned_def str_capacity_def
        intro: it.table_ok_empty)
next
  case (Some old)
  let ?data = "\<lambda>x. jstrings t ! x"
  have o: "it.table_ok junk ?data old" "strhash_count t = int (length (lives old))" using ok Some by (auto simp: str_ok_def)
  then have sz: "pow2_size (length old)" by (simp add: it.table_ok_def)
  show ?thesis
  proof (cases "4 * strhash_count t \<ge> 3 * int (length old)")
    case False
    have "t = t\<lparr>strhash := Some old\<rparr>" using Some by simp
    with False Some o room n show ?thesis
      by (intro exI [of _ old]) (auto simp: str_make_room_def strhash_size_def str_interned_def str_capacity_def str_room_def)
  next
    case True
    let ?new = "replicate (length old * 2) (Null :: nat slot)"
    have lt: "length (lives old) < length old * 2"
      using length_lives_le [of old, unfolded used_def] length_filter_le [of "\<lambda>s. s \<noteq> Null" old] pow2_size_pos [OF sz]
      by linarith
    have dist: "distinct (map ?data (lives (rev old)))"
      using it.lives_distinct [OF o(1)] by (simp add: lives_rev flip: rev_map)
    have "pow2_size (length old * 2)" using pow2_size_double [OF sz] room True Some by (simp add: str_room_def)
    then have emp: "it.table_ok junk ?data ?new" by (rule it.table_ok_empty)
    from rehash_slots_ok [OF emp, of "rev old" n] True n Some lt dist obtain tab' where
      t: "rehash_slots n junk ?data (rev old) ?new = Some tab'" "it.table_ok junk ?data tab'" "length tab' = length old * 2"
      "Deleted \<notin> set tab'" "length (lives tab') = length (lives old)" "set (lives tab') = set (lives old)"
      by (auto simp: lives_rev str_capacity_def mult.commute)
    have "Null \<in> set tab'" using length_lives [OF t(4)] t(3,5) lt by (intro used_less_Null) simp
    with True t Some o n show ?thesis
      by (intro exI [of _ tab']) (simp add: str_make_room_def strhash_size_def rehashStrings_def str_interned_def str_capacity_def mult.commute)
  qed
qed

lemma str_ok_old: "str_ok junk t \<Longrightarrow> x \<in> str_interned t \<Longrightarrow> x < length (jstrings t)"
  by (auto simp: str_ok_def str_interned_def list_all_iff split: option.splits)


definition demo_strings :: strtab where
  "demo_strings = \<lparr>strhash = None, strhash_count = 0, jstrings = [[104, 105], [], [104, 105]]\<rparr>"


text \<open>
  A string constant of a class becomes one interned Java string: from the encoding of any
  sequence of characters, \<open>Utf8Const2JavaString\<close> returns a string with exactly these characters, the
  one already interned if there was one and a new object otherwise.
\<close>

theorem Utf8Const2JavaString_interns:
  assumes ok: "str_ok junk t" and room: "str_room t" and n: "str_capacity t \<le> n"
  shows "\<exists>p t'. Utf8Const2JavaString n junk (encode_utf8 cs) t = Some (Inr (p, t')) \<and> str_ok junk t' \<and>
     jstrings t' ! p = cs \<and> str_interned t' = insert p (str_interned t) \<and>
     (\<forall>q\<in>str_interned t. jstrings t' ! q = jstrings t ! q \<and> (jstrings t ! q = cs \<longrightarrow> q = p)) \<and>
     (p \<notin> str_interned t \<longrightarrow> p = length (jstrings t))"
proof -
  let ?data = "\<lambda>x. jstrings t ! x"
  note v = utf8_values_encoded [of "encode_utf8 cs @ [0]" "[]" cs "[0]" 0]
  have dec: "strLengthUtf8 (encode_utf8 cs @ [0]) (length (encode_utf8 cs)) = Inr (int (length cs))"
    "utf8_values (encode_utf8 cs @ [0]) 0 (length (encode_utf8 cs)) = Inr (map uint cs)"
    using v by (simp_all add: strLengthUtf8_def)
  have cs: "map word_of_int (map uint cs) = cs" by (simp add: map_idI)
  from str_make_room_ok [OF ok room n] obtain tab where r: "str_make_room n junk t = Some (t\<lparr>strhash := Some tab\<rparr>)"
    and tok: "it.table_ok junk ?data tab" and cnt: "strhash_count t = int (length (lives tab))"
    and int: "set (lives tab) = str_interned t" and nt: "Null \<in> set tab" and len: "length tab \<le> n" by blast
  have old: "\<forall>x\<in>str_interned t. x < length (jstrings t)" using str_ok_old [OF ok] by blast
  show ?thesis using tok len
  proof (cases rule: findInternSlot_cases [where cs = cs])
    case (found i x)
    let ?t = "t\<lparr>strhash := Some tab\<rparr>"
    have "Utf8Const2JavaString n junk (encode_utf8 cs) t = Some (Inr (x, ?t))"
      using r found dec cs by (simp add: Utf8Const2JavaString_def)
    moreover have "str_ok junk ?t" using tok cnt old int by (simp add: str_ok_def list_all_iff)
    moreover have "\<forall>q\<in>str_interned t. ?data q = cs \<longrightarrow> q = x"
      using it.entries_unique [OF tok, of _ x] found(4,5) int by (simp add: it.entries_lives)
    then have "\<forall>q\<in>str_interned t. jstrings ?t ! q = ?data q \<and> (?data q = cs \<longrightarrow> q = x)" by simp
    moreover have xi: "x \<in> str_interned t" using found(4) int by simp
    moreover have "str_interned ?t = insert x (str_interned t)" using int xi by (auto simp: str_interned_def [of ?t])
    moreover have "jstrings ?t ! x = cs" using found(5) by simp
    ultimately show ?thesis by blast
  next
    case (free i)
    let ?m = "length (jstrings t)" and ?d = "\<lambda>x. (jstrings t @ [cs]) ! x"
    let ?t = "t\<lparr>strhash_count := strhash_count t + 1, strhash := Some (tab[i := Live ?m]), jstrings := jstrings t @ [cs]\<rparr>"
    have call: "Utf8Const2JavaString n junk (encode_utf8 cs) t = Some (Inr (?m, ?t))"
      using r free(1-3) dec cs by (auto simp: Utf8Const2JavaString_def Let_def)
    have "it.table_ok junk ?d (tab[i := Live ?m])" using old int by (intro free(6)) (auto simp: nth_append)
    moreover have sl: "set (lives (tab[i := Live ?m])) = insert ?m (str_interned t)"
      "length (lives (tab[i := Live ?m])) = Suc (length (lives tab))"
      using free(2,3) int by (simp_all add: set_lives_store length_lives_store)
    ultimately have ok': "str_ok junk ?t" using cnt old by (auto simp: str_ok_def list_all_iff less_Suc_eq)
    have "str_interned ?t = insert ?m (str_interned t)" using sl(1) by (simp add: str_interned_def [of ?t])
    moreover have "\<forall>q\<in>str_interned t. ?data q \<noteq> cs \<and> jstrings ?t ! q = ?data q" using free(5) int old by (auto simp: nth_append)
    ultimately show ?thesis using call ok' by (intro exI [of _ ?m] exI [of _ ?t]) auto
  next
    case full
    with nt show ?thesis by simp
  qed
qed

theorem Utf8Const2JavaString_interns_witness:
  "\<exists>p t'. Utf8Const2JavaString 1024 0 [0xE4, 0xB8, 0xAD, 65] demo_strings = Some (Inr (p, t')) \<and> jstrings t' ! p = [0x4E2D, 65]"
proof -
  have "encode_utf8 [0x4E2D, 65] = [0xE4, 0xB8, 0xAD, 65]" by (simp add: encode_utf8_def encode_char_def)
  then show ?thesis using Utf8Const2JavaString_interns [of 0 demo_strings 1024 "[0x4E2D, 65]"]
    by (auto simp: demo_strings_def str_ok_def str_capacity_def str_room_def)
qed

end
