(* ===== verification/Field_Layout.thy ===== *)
theory Field_Layout
  imports Class_File String_Table
begin

text \<open>
  The layout of fields, from \<^verbatim>\<open>runtime/classMethod.c\<close>: offsets of instance fields
  (\<open>resolveObjectFields\<close>), addresses of static fields (\<open>allocStaticFields\<close>), their constant values
  (\<open>resolveStaticFields\<close>) and the search for a field (\<open>lookupClassField\<close>). The type of a field is
  the pointer to its signature until it is resolved. Offsets are integers without a bound; the
  size of a field is the 16-bit member \<open>bsize\<close>, which \<open>allocStaticFields\<close> also uses to keep an
  offset. A \<open>Utf8Const\<close> read as a class is never taken for a primitive class.
\<close>

datatype ftype = FSig string | FPrim char | FRef nat

datatype finfo = IIdx uint16 | IOffset int | IAddr int

record lfield =
  lf_name :: string
  lf_type :: ftype
  lf_acc :: uint16
  lf_bsize :: uint16
  lf_info :: finfo

record lclass =
  lc_fields :: "lfield list"
  lc_nsfields :: nat
  lc_bfsize :: int
  lc_refField :: int
  lc_pool :: cpool

definition FIELD_RESOLVED :: "lfield \<Rightarrow> bool" where
  "FIELD_RESOLVED f \<longleftrightarrow> lf_acc f AND FIELD_UNRESOLVED_FLAG = 0"

definition FIELD_ISREF :: "lfield \<Rightarrow> bool" where
  "FIELD_ISREF f = (case lf_type f of FPrim _ \<Rightarrow> False | _ \<Rightarrow> True)"

text \<open>The primitive classes and their sizes, from \<open>initTypes\<close> of \<^verbatim>\<open>runtime/itypes.c\<close>.\<close>

definition prim_size :: "char \<Rightarrow> nat option" where
  "prim_size ch = map_of [(CHR ''B'', 1), (CHR ''S'', 2), (CHR ''I'', 4), (CHR ''J'', 8), (CHR ''Z'', 1),
     (CHR ''C'', 2), (CHR ''F'', 4), (CHR ''D'', 8), (CHR ''V'', 0)] ch"

definition SIZEOF_OBJECT :: int where "SIZEOF_OBJECT = 8"
definition PTR_SIZE :: nat where "PTR_SIZE = 4"

text \<open>
  The size a signature gives, and the field with its type resolved when the signature is that of
  a primitive type; another signature makes \<open>classFromSig\<close> return \<open>NULL\<close>.
\<close>

definition sig_size :: "lfield \<Rightarrow> (lfield \<times> nat) result" where
  "sig_size f =
     (case lf_type f of
        FSig (ch # _) \<Rightarrow>
          if ch = CHR ''L'' \<or> ch = CHR ''['' then Inr (f, PTR_SIZE)
          else (case prim_size ch of
                  None \<Rightarrow> Inl C_undefined
                | Some n \<Rightarrow> Inr (f\<lparr>lf_type := FPrim ch, lf_acc := lf_acc f AND NOT FIELD_UNRESOLVED_FLAG\<rparr>, n))
      | _ \<Rightarrow> Inl C_undefined)"

definition ALIGN :: "int \<Rightarrow> int \<Rightarrow> int" where
  "ALIGN offset align = ((offset + align - 1) div align) * align"

section \<open>Instance fields\<close>

text \<open>First loop: sizes and the largest alignment.\<close>

fun size_fields :: "lfield list \<Rightarrow> int \<Rightarrow> (lfield list \<times> int) result" where
  "size_fields [] align = Inr ([], align)"
| "size_fields (f # fs) align =
     bind_result
       (if FIELD_RESOLVED f then Inr (f, unat (lf_bsize f))
        else bind_result (sig_size f) (\<lambda>(f, n). Inr (f\<lparr>lf_bsize := of_nat n\<rparr>, n)))
       (\<lambda>(f, fsize).
          bind_result (size_fields fs (if int fsize > align then int fsize else align)) (\<lambda>(fs, align). Inr (f # fs, align)))"

text \<open>Second loop: an offset for each field; a size of zero divides by zero.\<close>

fun place_fields :: "lfield list \<Rightarrow> int \<Rightarrow> int \<Rightarrow> (lfield list \<times> int \<times> int) result" where
  "place_fields [] offset refField = Inr ([], offset, refField)"
| "place_fields (f # fs) offset refField =
     (let fsize = (if FIELD_RESOLVED f then uint (lf_bsize f) else int PTR_SIZE) in
      if fsize = 0 then Inl C_undefined
      else
        let offset = ALIGN offset fsize
        in bind_result (place_fields fs (offset + fsize) (if FIELD_ISREF f then refField + 1 else refField))
             (\<lambda>(fs, end, refField). Inr (f\<lparr>lf_info := IOffset offset\<rparr> # fs, end, refField)))"

definition resolveObjectFields :: "int \<Rightarrow> lclass \<Rightarrow> lclass result" where
  "resolveObjectFields super_refField c =
     (let offset = (if lc_bfsize c = 0 then SIZEOF_OBJECT else lc_bfsize c);
          refField = (if lc_bfsize c = 0 then lc_refField c else super_refField);
          statics = take (lc_nsfields c) (lc_fields c)
      in bind_result (size_fields (drop (lc_nsfields c) (lc_fields c)) 1) (\<lambda>(fs, align).
         bind_result (place_fields fs (ALIGN offset align) refField) (\<lambda>(fs, offset, refField).
         Inr (c\<lparr>lc_fields := statics @ fs, lc_bfsize := offset, lc_refField := refField\<rparr>))))"

section \<open>Static fields\<close>

text \<open>First loop of \<open>allocStaticFields\<close>: the offset is kept in \<open>bsize\<close>.\<close>

fun size_statics :: "lfield list \<Rightarrow> int \<Rightarrow> (lfield list \<times> int) result" where
  "size_statics [] offset = Inr ([], offset)"
| "size_statics (f # fs) offset =
     bind_result (sig_size f) (\<lambda>(f, n).
     let fsize = (if n < 4 then 4 else int n);
         offset = ALIGN offset fsize
     in bind_result (size_statics fs (offset + fsize)) (\<lambda>(fs, end). Inr (f\<lparr>lf_bsize := word_of_int offset\<rparr> # fs, end)))"

text \<open>Second loop: the constant index moves to \<open>bsize\<close> and the address takes its place.\<close>

definition place_static :: "int \<Rightarrow> lfield \<Rightarrow> lfield result" where
  "place_static mem f =
     (case lf_info f of
        IIdx i \<Rightarrow> Inr (f\<lparr>lf_bsize := i, lf_info := IAddr (mem + uint (lf_bsize f))\<rparr>)
      | _ \<Rightarrow> Inl C_undefined)"

fun place_statics :: "int \<Rightarrow> lfield list \<Rightarrow> lfield list result" where
  "place_statics mem [] = Inr []"
| "place_statics mem (f # fs) =
     bind_result (place_static mem f) (\<lambda>f. bind_result (place_statics mem fs) (\<lambda>fs. Inr (f # fs)))"

text \<open>The class and the size of the block allocated for its static data; \<open>malloc\<close> gives its address.\<close>

definition allocStaticFields :: "(int \<Rightarrow> int result) \<Rightarrow> lclass \<Rightarrow> (lclass \<times> int) result" where
  "allocStaticFields malloc c =
     (if lc_nsfields c = 0 then Inr (c, 0)
      else
        bind_result (size_statics (take (lc_nsfields c) (lc_fields c)) 0) (\<lambda>(fs, offset).
        bind_result (malloc offset) (\<lambda>mem.
        bind_result (place_statics mem fs) (\<lambda>fs.
        Inr (c\<lparr>lc_fields := fs @ drop (lc_nsfields c) (lc_fields c)\<rparr>, offset)))))"

section \<open>Constant values\<close>

text \<open>
  Memory holds words; a long takes two of them, the high one first. A string constant is made
  into an interned string the first time.
\<close>

type_synonym memory = "int \<rightharpoonup> cslot"

record rstate =
  rs_class :: lclass
  rs_mem :: memory
  rs_strings :: strtab

definition name_bytes :: "string \<Rightarrow> uint8 list" where
  "name_bytes s = map (\<lambda>c. of_nat (of_char c)) s"

definition set_bsize :: "nat \<Rightarrow> uint16 \<Rightarrow> rstate \<Rightarrow> rstate" where
  "set_bsize i v s =
     s\<lparr>rs_class := (rs_class s)\<lparr>lc_fields := (lc_fields (rs_class s))[i := (lc_fields (rs_class s) ! i)\<lparr>lf_bsize := v\<rparr>]\<rparr>\<rparr>"

definition store_word :: "int \<Rightarrow> cslot \<Rightarrow> rstate \<Rightarrow> rstate" where
  "store_word a v s = s\<lparr>rs_mem := (rs_mem s)(a \<mapsto> v)\<rparr>"

definition resolve_string :: "nat \<Rightarrow> uint16 \<Rightarrow> nat \<Rightarrow> rstate \<Rightarrow> rstate result option" where
  "resolve_string n junk idx s =
     (case pdata (lc_pool (rs_class s)) ! idx of
        SUtf8 nm \<Rightarrow>
          and_then (Utf8Const2JavaString n junk (name_bytes nm) (rs_strings s)) (\<lambda>(obj, t).
          let p = lc_pool (rs_class s) in
          Some (Inr (s\<lparr>rs_strings := t,
            rs_class := (rs_class s)\<lparr>lc_pool := p\<lparr>tags := (tags p)[idx := CONSTANT_ResolvedString],
                                              pdata := (pdata p)[idx := SPtr obj]\<rparr>\<rparr>\<rparr>)))
      | _ \<Rightarrow> Some (Inl C_undefined))"

definition resolve_static :: "nat \<Rightarrow> uint16 \<Rightarrow> nat \<Rightarrow> rstate \<Rightarrow> rstate result option" where
  "resolve_static n junk i s =
     (let f = lc_fields (rs_class s) ! i; p = lc_pool (rs_class s) in
      if lf_acc f AND FIELD_CONSTANT_VALUE = 0 then Some (Inr s)
      else case lf_info f of
        IAddr mem \<Rightarrow>
          let idx = unat (lf_bsize f) in
          and_then (Some (CONST_TAG idx p)) (\<lambda>t.
          if t = CONSTANT_Integer \<or> t = CONSTANT_Float then
            Some (Inr (set_bsize i 4 (store_word mem (pdata p ! idx) s)))
          else if t = CONSTANT_Long \<or> t = CONSTANT_Double then
            (if idx + 1 < length (pdata p)
             then Some (Inr (set_bsize i 8 (store_word (mem + 4) (pdata p ! (idx + 1)) (store_word mem (pdata p ! idx) s))))
             else Some (Inl C_undefined))
          else if t = CONSTANT_String \<or> t = CONSTANT_ResolvedString then
            and_then (if t = CONSTANT_String then resolve_string n junk idx s else Some (Inr s)) (\<lambda>s.
            Some (Inr (set_bsize i (of_nat PTR_SIZE) (store_word mem (pdata (lc_pool (rs_class s)) ! idx) s))))
          else Some (Inr s))
      | _ \<Rightarrow> Some (Inl C_undefined))"

definition resolveStaticFields :: "nat \<Rightarrow> uint16 \<Rightarrow> rstate \<Rightarrow> rstate result option" where
  "resolveStaticFields n junk s = each (resolve_static n junk) [0..<lc_nsfields (rs_class s)] s"

section \<open>Finding a field\<close>

fun find_field :: "nat \<Rightarrow> string \<Rightarrow> lfield list \<Rightarrow> nat option" where
  "find_field i name [] = None"
| "find_field i name (f # fs) = (if name = lf_name f then Some i else find_field (i + 1) name fs)"

text \<open>\<open>class_from_sig\<close> is \<open>classFromSig\<close> with the loader of the class.\<close>

definition lookupClassField ::
    "(string \<Rightarrow> 'w \<Rightarrow> (ftype \<times> 'w) result) \<Rightarrow> string \<Rightarrow> bool \<Rightarrow> lclass \<Rightarrow> 'w \<Rightarrow> (nat option \<times> lclass \<times> 'w) result" where
  "lookupClassField class_from_sig name isStatic c w =
     (let n = lc_nsfields c;
          hit = (if isStatic then find_field 0 name (take n (lc_fields c)) else find_field n name (drop n (lc_fields c)))
      in case hit of
           None \<Rightarrow> Inr (None, c, w)
         | Some i \<Rightarrow>
             let f = lc_fields c ! i in
             if FIELD_RESOLVED f then Inr (Some i, c, w)
             else (case lf_type f of
                     FSig sg \<Rightarrow>
                       bind_result (class_from_sig sg w) (\<lambda>(ty, w).
                       Inr (Some i, c\<lparr>lc_fields := (lc_fields c)[i := f\<lparr>lf_type := ty,
                              lf_acc := lf_acc f AND NOT FIELD_UNRESOLVED_FLAG\<rparr>]\<rparr>, w))
                   | _ \<Rightarrow> Inl C_undefined))"

section \<open>Sizes\<close>

text \<open>An unresolved field whose signature is that of a type other than \<open>void\<close>, and its size.\<close>

definition field_size :: "lfield \<Rightarrow> nat option" where
  "field_size f =
     (case lf_type f of
        FSig (ch # _) \<Rightarrow> if ch = CHR ''L'' \<or> ch = CHR ''['' then Some 4 else prim_size ch
      | _ \<Rightarrow> None)"

definition unresolved_ok :: "lfield \<Rightarrow> bool" where
  "unresolved_ok f \<longleftrightarrow> \<not> FIELD_RESOLVED f \<and> (case field_size f of Some n \<Rightarrow> 0 < n | None \<Rightarrow> False)"

definition fsize :: "lfield \<Rightarrow> int" where
  "fsize f = int (the (field_size f))"

definition is_ref :: "lfield \<Rightarrow> bool" where
  "is_ref f = (case lf_type f of FSig (ch # _) \<Rightarrow> ch = CHR ''L'' \<or> ch = CHR ''['' | _ \<Rightarrow> False)"

definition sized :: "lfield \<Rightarrow> lfield" where
  "sized f =
     (if is_ref f then f\<lparr>lf_bsize := 4\<rparr>
      else case lf_type f of
             FSig (ch # _) \<Rightarrow> f\<lparr>lf_type := FPrim ch, lf_acc := lf_acc f AND NOT FIELD_UNRESOLVED_FLAG,
                                 lf_bsize := of_nat (the (field_size f))\<rparr>
           | _ \<Rightarrow> f)"

definition psize :: "lfield \<Rightarrow> int" where
  "psize f = (if FIELD_RESOLVED f then uint (lf_bsize f) else int PTR_SIZE)"

lemma prim_size_le: "prim_size ch = Some n \<Longrightarrow> n \<le> 8"
  by (auto simp: prim_size_def split: if_splits)

lemma field_size_le: "field_size f = Some n \<Longrightarrow> n \<le> 8"
  by (auto simp: field_size_def split: ftype.splits list.splits if_splits dest: prim_size_le)

lemma unresolved_okE:
  assumes "unresolved_ok f"
  obtains ch r where "lf_type f = FSig (ch # r)" "\<not> FIELD_RESOLVED f" "0 < fsize f" "fsize f \<le> 8"
    "is_ref f \<Longrightarrow> fsize f = 4" "is_ref f \<longleftrightarrow> ch = CHR ''L'' \<or> ch = CHR ''[''"
    "\<not> is_ref f \<Longrightarrow> prim_size ch = Some (the (field_size f))"
proof -
  from assms obtain n where n: "field_size f = Some n" "0 < n" "\<not> FIELD_RESOLVED f"
    by (auto simp: unresolved_ok_def split: option.splits)
  from n(1) obtain ch r where t: "lf_type f = FSig (ch # r)"
    by (auto simp: field_size_def split: ftype.splits list.splits)
  show thesis by (rule that [OF t]) (use n t field_size_le [OF n(1)] in \<open>auto simp: fsize_def is_ref_def field_size_def\<close>)
qed

lemma clear_flag: "(a AND NOT b) AND b = (0 :: uint16)"
  by (rule bit_word_eqI) (auto simp: bit_simps)

lemma sized_props:
  assumes "unresolved_ok f"
  shows "psize (sized f) = fsize f" and "FIELD_ISREF (sized f) = is_ref f" and "lf_info (sized f) = lf_info f"
    and "lf_name (sized f) = lf_name f"
proof -
  from assms obtain ch r where f: "lf_type f = FSig (ch # r)" "\<not> FIELD_RESOLVED f" "0 < fsize f" "fsize f \<le> 8"
    "is_ref f \<Longrightarrow> fsize f = 4" "is_ref f \<longleftrightarrow> ch = CHR ''L'' \<or> ch = CHR ''[''"
    "\<not> is_ref f \<Longrightarrow> prim_size ch = Some (the (field_size f))" by (rule unresolved_okE) blast
  have small: "the (field_size f) < 2 ^ 16" using f(4) by (simp add: fsize_def)
  have "psize (sized f) = fsize f \<and> FIELD_ISREF (sized f) = is_ref f \<and> lf_info (sized f) = lf_info f \<and> lf_name (sized f) = lf_name f"
  proof (cases "is_ref f")
    case True
    with f show ?thesis by (simp add: sized_def psize_def FIELD_RESOLVED_def FIELD_ISREF_def PTR_SIZE_def)
  next
    case False
    with f(1) small show ?thesis
      by (simp add: sized_def psize_def FIELD_RESOLVED_def FIELD_ISREF_def clear_flag fsize_def unsigned_of_nat take_bit_nat_eq_self)
  qed
  then show "psize (sized f) = fsize f" "FIELD_ISREF (sized f) = is_ref f" "lf_info (sized f) = lf_info f"
    "lf_name (sized f) = lf_name f" by simp_all
qed

lemma sig_size_ok:
  assumes "unresolved_ok f"
  shows "\<exists>g. sig_size f = Inr (g, nat (fsize f)) \<and> g\<lparr>lf_bsize := v\<rparr> = (sized f)\<lparr>lf_bsize := v\<rparr> \<and>
    g\<lparr>lf_bsize := of_nat (nat (fsize f))\<rparr> = sized f"
proof -
  from assms obtain ch r where f: "lf_type f = FSig (ch # r)" "\<not> FIELD_RESOLVED f" "0 < fsize f" "fsize f \<le> 8"
    "is_ref f \<Longrightarrow> fsize f = 4" "is_ref f \<longleftrightarrow> ch = CHR ''L'' \<or> ch = CHR ''[''"
    "\<not> is_ref f \<Longrightarrow> prim_size ch = Some (the (field_size f))" by (rule unresolved_okE) blast
  show ?thesis
  proof (cases "is_ref f")
    case True
    with f show ?thesis by (auto simp: sig_size_def sized_def PTR_SIZE_def)
  next
    case False
    with f(1,6,7) show ?thesis by (auto simp: sig_size_def sized_def fsize_def)
  qed
qed

lemma size_fields_ok:
  "list_all unresolved_ok fs \<Longrightarrow> 0 < a \<Longrightarrow> \<exists>a'. size_fields fs a = Inr (map sized fs, a') \<and> a \<le> a'"
proof (induction fs arbitrary: a)
  case (Cons f fs)
  from Cons.prems have "unresolved_ok f" by simp
  from sig_size_ok [OF this] obtain g where g: "sig_size f = Inr (g, nat (fsize f))" "g\<lparr>lf_bsize := of_nat (nat (fsize f))\<rparr> = sized f"
    by blast
  have pos: "\<not> FIELD_RESOLVED f" using \<open>unresolved_ok f\<close> by (simp add: unresolved_ok_def)
  define b where "b = (if int (nat (fsize f)) > a then int (nat (fsize f)) else a)"
  have b: "0 < b" "a \<le> b" using Cons.prems by (auto simp: b_def)
  from Cons.prems have "list_all unresolved_ok fs" by simp
  from Cons.IH [OF this b(1)] obtain a' where "size_fields fs b = Inr (map sized fs, a')" "b \<le> a'" by blast
  with g pos b(2) show ?case unfolding b_def by auto
qed simp

section \<open>Positions\<close>

lemma ALIGN_props:
  assumes "0 < a"
  shows "n \<le> ALIGN n a" and "a dvd ALIGN n a" and "ALIGN n a < n + a"
proof -
  have "(n + a - 1) div a * a = n + a - 1 - (n + a - 1) mod a" by (simp add: minus_mod_eq_div_mult)
  moreover have "0 \<le> (n + a - 1) mod a" "(n + a - 1) mod a < a" using assms by simp_all
  ultimately show "n \<le> ALIGN n a" "a dvd ALIGN n a" "ALIGN n a < n + a" unfolding ALIGN_def by auto
qed

text \<open>Intervals (offset, size), one after the other, aligned, from \<open>lo\<close> to \<open>hi\<close>.\<close>

fun laid_out :: "int \<Rightarrow> (int \<times> int) list \<Rightarrow> int \<Rightarrow> bool" where
  "laid_out lo [] hi \<longleftrightarrow> lo \<le> hi"
| "laid_out lo ((p, s) # xs) hi \<longleftrightarrow> lo \<le> p \<and> 0 < s \<and> s dvd p \<and> laid_out (p + s) xs hi"

lemma laid_out_bounds: "laid_out lo xs hi \<Longrightarrow> lo \<le> hi \<and> (\<forall>(p, s)\<in>set xs. lo \<le> p \<and> p + s \<le> hi \<and> s dvd p \<and> 0 < s)"
  by (induction lo xs hi rule: laid_out.induct) fastforce+

lemma laid_out_disjoint:
  "laid_out lo xs hi \<Longrightarrow> i < j \<Longrightarrow> j < length xs \<Longrightarrow> fst (xs ! i) + snd (xs ! i) \<le> fst (xs ! j)"
proof (induction lo xs hi arbitrary: i j rule: laid_out.induct)
  case (2 lo p s xs hi)
  show ?case
  proof (cases i)
    case 0
    from "2.prems" obtain k where k: "j = Suc k" "k < length xs" by (cases j) auto
    have "xs ! k \<in> set xs" using k by simp
    with laid_out_bounds [of "p + s" xs hi] "2.prems"(1) have "p + s \<le> fst (xs ! k)" by fastforce
    with 0 k show ?thesis by simp
  next
    case (Suc i')
    with "2.prems" "2.IH" [of i' "j - 1"] show ?thesis by (cases j) auto
  qed
qed simp

lemma laid_out_mono: "laid_out lo xs hi \<Longrightarrow> lo' \<le> lo \<Longrightarrow> laid_out lo' xs hi"
  by (cases xs) auto

lemma place_fields_ok:
  "list_all (\<lambda>f. 0 < psize f) fs \<Longrightarrow> \<exists>os hi. length os = length fs \<and>
     place_fields fs off r = Inr (map2 (\<lambda>f p. f\<lparr>lf_info := IOffset p\<rparr>) fs os, hi, r + int (length (filter FIELD_ISREF fs))) \<and>
     laid_out off (zip os (map psize fs)) hi"
proof (induction fs arbitrary: off r)
  case (Cons f fs)
  let ?p = "ALIGN off (psize f)" and ?r = "if FIELD_ISREF f then r + 1 else r"
  from Cons.IH [of "?p + psize f" ?r] Cons.prems obtain os hi where ih: "length os = length fs"
    "place_fields fs (?p + psize f) ?r = Inr (map2 (\<lambda>f p. f\<lparr>lf_info := IOffset p\<rparr>) fs os, hi, ?r + int (length (filter FIELD_ISREF fs)))"
    "laid_out (?p + psize f) (zip os (map psize fs)) hi" by auto
  have "0 < psize f" using Cons.prems by simp
  note a = ALIGN_props [OF this, of off]
  have "place_fields (f # fs) off r = Inr (map2 (\<lambda>f p. f\<lparr>lf_info := IOffset p\<rparr>) (f # fs) (?p # os), hi,
      r + int (length (filter FIELD_ISREF (f # fs))))"
    using ih(2) \<open>0 < psize f\<close> by (simp add: Let_def flip: psize_def)
  moreover have "laid_out off (zip (?p # os) (map psize (f # fs))) hi" using ih(3) a \<open>0 < psize f\<close> by simp
  ultimately show ?case using ih(1) by (metis length_Cons)
qed simp

text \<open>
  C24. Layout of objects: when the new instance fields have signatures of types other than \<open>void\<close>,
  \<open>resolveObjectFields\<close> gives each an offset that is a multiple of its size, after the fields of the
  superclass (or the object header), inside the new object size, with no two fields overlapping
  and in the order of the class; the number of reference fields grows by the reference fields of
  the class.
\<close>

theorem resolveObjectFields_layout:
  assumes ok: "list_all unresolved_ok (drop (lc_nsfields c) (lc_fields c))" and ns: "lc_nsfields c \<le> length (lc_fields c)"
  shows "\<exists>c' os. resolveObjectFields sr c = Inr c' \<and> take (lc_nsfields c) (lc_fields c') = take (lc_nsfields c) (lc_fields c) \<and>
     map lf_info (drop (lc_nsfields c) (lc_fields c')) = map IOffset os \<and>
     length os = length (lc_fields c) - lc_nsfields c \<and>
     (\<forall>i<length os. (if lc_bfsize c = 0 then 8 else lc_bfsize c) \<le> os ! i \<and>
        fsize (lc_fields c ! (lc_nsfields c + i)) dvd os ! i \<and>
        os ! i + fsize (lc_fields c ! (lc_nsfields c + i)) \<le> lc_bfsize c') \<and>
     (\<forall>j<length os. \<forall>i<j. os ! i + fsize (lc_fields c ! (lc_nsfields c + i)) \<le> os ! j) \<and>
     lc_refField c' = (if lc_bfsize c = 0 then lc_refField c else sr) +
        int (length (filter is_ref (drop (lc_nsfields c) (lc_fields c))))"
proof -
  let ?fs = "drop (lc_nsfields c) (lc_fields c)" and ?start = "if lc_bfsize c = 0 then SIZEOF_OBJECT else lc_bfsize c"
  let ?r = "if lc_bfsize c = 0 then lc_refField c else sr"
  from size_fields_ok [OF ok, of 1] obtain a where a: "size_fields ?fs 1 = Inr (map sized ?fs, a)" "1 \<le> a" by auto
  have sz: "psize (sized f) = fsize f" "FIELD_ISREF (sized f) = is_ref f" "0 < fsize f" if "f \<in> set ?fs" for f
    using ok that sized_props [of f] unresolved_okE [of f] by (auto simp: list_all_iff)
  have "list_all (\<lambda>f. 0 < psize f) (map sized ?fs)" using sz by (simp add: list_all_iff)
  from place_fields_ok [OF this, of "ALIGN ?start a" ?r] obtain os hi where os: "length os = length (map sized ?fs)"
    "place_fields (map sized ?fs) (ALIGN ?start a) ?r = Inr (map2 (\<lambda>f p. f\<lparr>lf_info := IOffset p\<rparr>) (map sized ?fs) os, hi,
        ?r + int (length (filter FIELD_ISREF (map sized ?fs))))"
    and lo: "laid_out (ALIGN ?start a) (zip os (map psize (map sized ?fs))) hi" by blast
  let ?new = "map2 (\<lambda>f p. f\<lparr>lf_info := IOffset p\<rparr>) (map sized ?fs) os"
  have refs: "length (filter FIELD_ISREF (map sized ?fs)) = length (filter is_ref ?fs)"
    using sz(2) by (simp add: filter_map comp_def cong: filter_cong)
  let ?c = "c\<lparr>lc_fields := take (lc_nsfields c) (lc_fields c) @ ?new, lc_bfsize := hi, lc_refField := ?r + int (length (filter is_ref ?fs))\<rparr>"
  have call: "resolveObjectFields sr c = Inr ?c"
    using a(1) os(2) refs by (simp add: resolveObjectFields_def Let_def)
  have infos: "map lf_info ?new = map IOffset os" using os(1) by (intro nth_equalityI) auto
  have lens: "map psize (map sized ?fs) = map fsize ?fs" using sz(1) by simp
  have "?start \<le> ALIGN ?start a" using ALIGN_props(1) [of a] a(2) by simp
  with lo have lo': "laid_out ?start (zip os (map fsize ?fs)) hi" unfolding lens by (rule laid_out_mono)
  have n: "length os = length (lc_fields c) - lc_nsfields c" using os(1) by simp
  have fld: "map fsize ?fs ! i = fsize (lc_fields c ! (lc_nsfields c + i))" if "i < length os" for i
    using that n by (simp add: add.commute)
  have bounds: "?start \<le> os ! i \<and> fsize (lc_fields c ! (lc_nsfields c + i)) dvd os ! i \<and>
      os ! i + fsize (lc_fields c ! (lc_nsfields c + i)) \<le> hi" if "i < length os" for i
  proof -
    have "(os ! i, map fsize ?fs ! i) \<in> set (zip os (map fsize ?fs))" using that n by (force simp: set_zip)
    with laid_out_bounds [OF lo'] have "?start \<le> os ! i \<and> map fsize ?fs ! i dvd os ! i \<and> os ! i + map fsize ?fs ! i \<le> hi" by blast
    then show ?thesis unfolding fld [OF that] .
  qed
  have disj: "os ! i + fsize (lc_fields c ! (lc_nsfields c + i)) \<le> os ! j" if "i < j" "j < length os" for i j
    using laid_out_disjoint [OF lo' that(1)] that n fld [of i] by simp
  show ?thesis using call ns infos n bounds disj
    by (intro exI [of _ ?c] exI [of _ os]) (auto simp: SIZEOF_OBJECT_def)
qed

definition demo_lfield :: "string \<Rightarrow> string \<Rightarrow> uint16 \<Rightarrow> lfield" where
  "demo_lfield nm sg idx = \<lparr>lf_name = nm, lf_type = FSig sg, lf_acc = 0x8000, lf_bsize = 0, lf_info = IIdx idx\<rparr>"

definition demo_lclass :: lclass where
  "demo_lclass = \<lparr>lc_fields = [demo_lfield ''b'' ''B'' 0, demo_lfield ''j'' ''J'' 0, demo_lfield ''s'' ''LS;'' 0],
     lc_nsfields = 0, lc_bfsize = 0, lc_refField = 0, lc_pool = \<lparr>pool_size = 0, tags = [], pdata = []\<rparr>\<rparr>"

theorem resolveObjectFields_layout_witness:
  "\<exists>c' os. resolveObjectFields 0 demo_lclass = Inr c' \<and> map lf_info (lc_fields c') = map IOffset os \<and> length os = 3 \<and>
     8 dvd os ! 1 \<and> os ! 0 + 1 \<le> os ! 1 \<and> os ! 1 + 8 \<le> os ! 2 \<and> os ! 2 + 4 \<le> lc_bfsize c' \<and> lc_refField c' = 1"
proof -
  let ?f = "lc_fields demo_lclass"
  have ok: "list_all unresolved_ok (drop (lc_nsfields demo_lclass) ?f)" "lc_nsfields demo_lclass \<le> length ?f"
    by (simp_all add: demo_lclass_def demo_lfield_def unresolved_ok_def FIELD_RESOLVED_def FIELD_UNRESOLVED_FLAG_def
        field_size_def prim_size_def)
  have k: "lc_nsfields demo_lclass = 0" "length ?f = 3" "lc_bfsize demo_lclass = 0" "lc_refField demo_lclass = 0"
    "length (filter is_ref ?f) = 1"
    by (simp_all add: demo_lclass_def is_ref_def demo_lfield_def)
  have sz: "fsize (?f ! 0) = 1" "fsize (?f ! 1) = 8" "fsize (?f ! 2) = 4"
    by (simp_all add: demo_lclass_def demo_lfield_def fsize_def field_size_def prim_size_def)
  from resolveObjectFields_layout [OF ok, of 0, unfolded k] obtain c' os where r: "resolveObjectFields 0 demo_lclass = Inr c'"
    "map lf_info (drop 0 (lc_fields c')) = map IOffset os" "length os = 3 - 0"
    and b: "\<forall>i<length os. (if (0 :: int) = 0 then 8 else 0) \<le> os ! i \<and> fsize (?f ! (0 + i)) dvd os ! i \<and> os ! i + fsize (?f ! (0 + i)) \<le> lc_bfsize c'"
    and d: "\<forall>j<length os. \<forall>i<j. os ! i + fsize (?f ! (0 + i)) \<le> os ! j"
    and n: "lc_refField c' = (if (0 :: int) = 0 then 0 else 0) + int (length (filter is_ref (drop 0 ?f)))" by blast
  have "8 dvd os ! 1" using b r(3) sz(2) by (metis add_0 diff_zero one_less_numeral_iff semiring_norm(77))
  moreover have "os ! 0 + 1 \<le> os ! 1" using d [rule_format, of 1 0] r(3) sz by simp
  moreover have "os ! 1 + 8 \<le> os ! 2" using d [rule_format, of 2 1] r(3) sz by simp
  moreover have "os ! 2 + 4 \<le> lc_bfsize c'" using b [rule_format, of 2] r(3) sz(3) by (simp add: numeral_2_eq_2)
  ultimately show ?thesis using r n k by (intro exI [of _ c'] exI [of _ os]) simp
qed

section \<open>Static data\<close>

text \<open>A static field as read from the class file: a signature of a type and a constant index.\<close>

definition static_ok :: "lfield \<Rightarrow> bool" where
  "static_ok f \<longleftrightarrow> field_size f \<noteq> None \<and> (case lf_info f of IIdx _ \<Rightarrow> True | _ \<Rightarrow> False)"

definition slot_size :: "lfield \<Rightarrow> int" where
  "slot_size f = max 4 (fsize f)"

definition const_idx :: "lfield \<Rightarrow> uint16" where
  "const_idx f = (case lf_info f of IIdx i \<Rightarrow> i | _ \<Rightarrow> 0)"

lemma sig_size_static:
  assumes "static_ok f"
  shows "\<exists>g. sig_size f = Inr (g, nat (fsize f)) \<and> lf_info g = IIdx (const_idx f)"
proof -
  from assms obtain ch r i n where "lf_type f = FSig (ch # r)" "lf_info f = IIdx i" "field_size f = Some n"
    by (auto simp: static_ok_def field_size_def split: ftype.splits list.splits finfo.splits)
  then show ?thesis
    by (auto simp: sig_size_def fsize_def const_idx_def field_size_def PTR_SIZE_def split: if_splits)
qed

lemma size_statics_ok:
  "list_all static_ok fs \<Longrightarrow> \<exists>gs os hi. size_statics fs off = Inr (gs, hi) \<and> length os = length fs \<and> length gs = length fs \<and>
     (\<forall>i<length fs. lf_info (gs ! i) = IIdx (const_idx (fs ! i)) \<and> lf_bsize (gs ! i) = word_of_int (os ! i)) \<and>
     laid_out off (zip os (map slot_size fs)) hi"
proof (induction fs arbitrary: off)
  case (Cons f fs)
  let ?p = "ALIGN off (slot_size f)"
  from Cons.prems have "static_ok f" by simp
  from sig_size_static [OF this] obtain g where g: "sig_size f = Inr (g, nat (fsize f))" "lf_info g = IIdx (const_idx f)" by blast
  have sl: "(if nat (fsize f) < 4 then 4 else int (nat (fsize f))) = slot_size f" by (auto simp: slot_size_def max_def)
  have pos: "0 < slot_size f" by (simp add: slot_size_def)
  note a = ALIGN_props [OF pos, of off]
  from Cons.IH [of "?p + slot_size f"] Cons.prems obtain gs os hi where ih:
    "size_statics fs (?p + slot_size f) = Inr (gs, hi)" "length os = length fs" "length gs = length fs"
    "\<forall>i<length fs. lf_info (gs ! i) = IIdx (const_idx (fs ! i)) \<and> lf_bsize (gs ! i) = word_of_int (os ! i)"
    "laid_out (?p + slot_size f) (zip os (map slot_size fs)) hi" by auto
  have "size_statics (f # fs) off = Inr (g\<lparr>lf_bsize := word_of_int ?p\<rparr> # gs, hi)"
    using g(1) ih(1) sl by (simp add: Let_def split: if_splits)
  moreover have "laid_out off (zip (?p # os) (map slot_size (f # fs))) hi" using ih(5) a pos by simp
  moreover have "\<forall>i<length (f # fs). lf_info ((g\<lparr>lf_bsize := word_of_int ?p\<rparr> # gs) ! i) = IIdx (const_idx ((f # fs) ! i)) \<and>
      lf_bsize ((g\<lparr>lf_bsize := word_of_int ?p\<rparr> # gs) ! i) = word_of_int ((?p # os) ! i)"
    using ih(4) g(2) by (auto simp: nth_Cons split: nat.splits)
  ultimately show ?case using ih(2,3) by (intro exI [of _ "_ # gs"] exI [of _ "?p # os"] exI [of _ hi]) simp
qed simp

lemma place_statics_ok:
  "\<forall>i<length gs. \<exists>k. lf_info (gs ! i) = IIdx k \<Longrightarrow> \<exists>hs. place_statics mem gs = Inr hs \<and> length hs = length gs \<and>
     (\<forall>i<length gs. lf_info (hs ! i) = IAddr (mem + uint (lf_bsize (gs ! i))) \<and> lf_info (gs ! i) = IIdx (lf_bsize (hs ! i)))"
proof (induction gs)
  case (Cons g gs)
  from Cons.prems obtain k where k: "lf_info g = IIdx k" by fastforce
  have "\<forall>i<length gs. \<exists>k. lf_info (gs ! i) = IIdx k" using Cons.prems by fastforce
  from Cons.IH [OF this] obtain hs where "place_statics mem gs = Inr hs" "length hs = length gs"
    "\<forall>i<length gs. lf_info (hs ! i) = IAddr (mem + uint (lf_bsize (gs ! i))) \<and> lf_info (gs ! i) = IIdx (lf_bsize (hs ! i))" by blast
  with k show ?case by (auto simp: place_static_def nth_Cons split: nat.splits)
qed simp

text \<open>
  C25. Layout of static data: when the static fields have signatures of types, \<open>allocStaticFields\<close>
  gives field \<open>i\<close> an offset \<open>os ! i\<close> that is a multiple of its slot size (at least four bytes), with
  the slots in order, without overlap and inside the block it allocates, and keeps the constant
  index of the field in \<open>bsize\<close>; the address of the field is the start of the block plus the offset
  modulo 65536, since the offset passes through the 16-bit \<open>bsize\<close>, so it is the slot itself when
  the block has at most 65536 bytes.
\<close>

theorem allocStaticFields_layout:
  assumes ok: "list_all static_ok (take (lc_nsfields c) (lc_fields c))" and ns: "0 < lc_nsfields c" "lc_nsfields c \<le> length (lc_fields c)"
  shows "\<exists>c' os total. allocStaticFields (\<lambda>n. Inr (alloc n)) c = Inr (c', total) \<and> length os = lc_nsfields c \<and>
     drop (lc_nsfields c) (lc_fields c') = drop (lc_nsfields c) (lc_fields c) \<and>
     (\<forall>i<lc_nsfields c. lf_info (lc_fields c' ! i) = IAddr (alloc total + os ! i mod 65536) \<and>
        lf_bsize (lc_fields c' ! i) = const_idx (lc_fields c ! i) \<and>
        0 \<le> os ! i \<and> slot_size (lc_fields c ! i) dvd os ! i \<and> os ! i + slot_size (lc_fields c ! i) \<le> total \<and>
        (total \<le> 65536 \<longrightarrow> lf_info (lc_fields c' ! i) = IAddr (alloc total + os ! i))) \<and>
     (\<forall>j<lc_nsfields c. \<forall>i<j. os ! i + slot_size (lc_fields c ! i) \<le> os ! j)"
proof -
  let ?n = "lc_nsfields c" let ?fs = "take ?n (lc_fields c)"
  from size_statics_ok [OF ok, of 0] ns obtain gs os total where s: "size_statics ?fs 0 = Inr (gs, total)" "length os = ?n" "length gs = ?n"
    "\<forall>i<?n. lf_info (gs ! i) = IIdx (const_idx (lc_fields c ! i)) \<and> lf_bsize (gs ! i) = word_of_int (os ! i)"
    and lo: "laid_out 0 (zip os (map slot_size ?fs)) total" by (auto simp: min_absorb2)
  from place_statics_ok [of gs "alloc total"] s(3,4) obtain hs where h: "place_statics (alloc total) gs = Inr hs" "length hs = ?n"
    "\<forall>i<?n. lf_info (hs ! i) = IAddr (alloc total + uint (lf_bsize (gs ! i))) \<and> lf_info (gs ! i) = IIdx (lf_bsize (hs ! i))" by auto
  let ?c = "c\<lparr>lc_fields := hs @ drop ?n (lc_fields c)\<rparr>"
  have call: "allocStaticFields (\<lambda>n. Inr (alloc n)) c = Inr (?c, total)" using ns s(1) h(1) by (simp add: allocStaticFields_def)
  have bounds: "0 \<le> os ! i \<and> slot_size (lc_fields c ! i) dvd os ! i \<and> os ! i + slot_size (lc_fields c ! i) \<le> total \<and> 4 \<le> slot_size (lc_fields c ! i)"
    if "i < ?n" for i
  proof -
    have "(os ! i, slot_size (lc_fields c ! i)) \<in> set (zip os (map slot_size ?fs))" using that s(2) ns by (force simp: set_zip)
    with laid_out_bounds [OF lo] show ?thesis by (auto simp: slot_size_def)
  qed
  have addr: "lf_info (hs ! i) = IAddr (alloc total + os ! i mod 65536)" "lf_bsize (hs ! i) = const_idx (lc_fields c ! i)"
    if "i < ?n" for i using h(3) s(4) that by (simp_all add: take_bit_eq_mod unsigned_of_int)
  have low: "os ! i mod 65536 = os ! i" if "i < ?n" "total \<le> 65536" for i using bounds [OF that(1)] that(2) by simp
  have disj: "os ! i + slot_size (lc_fields c ! i) \<le> os ! j" if "i < j" "j < ?n" for i j
    using laid_out_disjoint [OF lo that(1)] that s(2) ns by simp
  have nth: "lc_fields ?c ! i = hs ! i" if "i < ?n" for i using that h(2) by (simp add: nth_append)
  show ?thesis using call s(2) h(2) bounds addr low disj nth by (intro exI [of _ ?c] exI [of _ os] exI [of _ total]) simp
qed

theorem allocStaticFields_layout_witness:
  "\<exists>c' os total. allocStaticFields (\<lambda>n. Inr 4096) (demo_lclass\<lparr>lc_nsfields := 2\<rparr>) = Inr (c', total) \<and>
     lf_info (lc_fields c' ! 1) = IAddr (4096 + os ! 1 mod 65536) \<and> os ! 0 + 4 \<le> os ! 1 \<and> 8 dvd os ! 1"
proof -
  let ?c = "demo_lclass\<lparr>lc_nsfields := 2\<rparr>"
  have ok: "list_all static_ok (take (lc_nsfields ?c) (lc_fields ?c))" "0 < lc_nsfields ?c" "lc_nsfields ?c \<le> length (lc_fields ?c)"
    by (simp_all add: demo_lclass_def demo_lfield_def static_ok_def field_size_def prim_size_def)
  have n: "lc_nsfields ?c = 2" by simp
  have sz: "slot_size (lc_fields ?c ! 0) = 4" "slot_size (lc_fields ?c ! 1) = 8"
    by (simp_all add: demo_lclass_def demo_lfield_def slot_size_def fsize_def field_size_def prim_size_def)
  from allocStaticFields_layout [OF ok, of "\<lambda>_. 4096", unfolded n] obtain c' os total where
    r: "allocStaticFields (\<lambda>n. Inr 4096) ?c = Inr (c', total)"
    and b: "\<forall>i<2. lf_info (lc_fields c' ! i) = IAddr (4096 + os ! i mod 65536) \<and> lf_bsize (lc_fields c' ! i) = const_idx (lc_fields ?c ! i) \<and>
        0 \<le> os ! i \<and> slot_size (lc_fields ?c ! i) dvd os ! i \<and> os ! i + slot_size (lc_fields ?c ! i) \<le> total \<and>
        (total \<le> 65536 \<longrightarrow> lf_info (lc_fields c' ! i) = IAddr (4096 + os ! i))"
    and d: "\<forall>j<2. \<forall>i<j. os ! i + slot_size (lc_fields ?c ! i) \<le> os ! j" by blast
  have "os ! 0 + 4 \<le> os ! 1" using d [rule_format, of 1 0] sz by simp
  moreover have "8 dvd os ! 1" "lf_info (lc_fields c' ! 1) = IAddr (4096 + os ! 1 mod 65536)" using b [rule_format, of 1] sz by simp_all
  ultimately show ?thesis using r by blast
qed

section \<open>A block of more than 65536 bytes\<close>

definition int_static :: lfield where
  "int_static = \<lparr>lf_name = ''x'', lf_type = FSig ''I'', lf_acc = 0x8008, lf_bsize = 0, lf_info = IIdx 0\<rparr>"

lemma int_static_slot: "slot_size int_static = 4" and int_static_ok: "static_ok int_static"
  by (simp_all add: int_static_def slot_size_def fsize_def static_ok_def field_size_def prim_size_def)

definition int_resolved :: lfield where
  "int_resolved = int_static\<lparr>lf_type := FPrim (CHR ''I''), lf_acc := 8\<rparr>"

lemma int_static_sig: "sig_size int_static = Inr (int_resolved, 4)"
  by (simp add: int_static_def int_resolved_def sig_size_def prim_size_def FIELD_UNRESOLVED_FLAG_def)

lemma ALIGN_4: "4 dvd off \<Longrightarrow> ALIGN off 4 = off"
  by (auto simp: ALIGN_def elim!: dvdE)

lemma size_statics_ints:
  "4 dvd off \<Longrightarrow> size_statics (replicate n int_static) off =
     Inr (map (\<lambda>i. int_resolved\<lparr>lf_bsize := word_of_int (off + 4 * int i)\<rparr>) [0..<n], off + 4 * int n)"
proof (induction n arbitrary: off)
  case (Suc n)
  have "map (\<lambda>i. int_resolved\<lparr>lf_bsize := word_of_int (off + 4 * int i)\<rparr>) [0..<Suc n] =
      int_resolved\<lparr>lf_bsize := word_of_int off\<rparr> # map (\<lambda>i. int_resolved\<lparr>lf_bsize := word_of_int (off + 4 + 4 * int i)\<rparr>) [0..<n]"
    by (simp add: map_upt_Suc algebra_simps del: upt_Suc)
  moreover have "4 dvd off + 4" using Suc.prems by simp
  ultimately show ?case using Suc.IH [of "off + 4"] Suc.prems by (simp add: int_static_sig Let_def ALIGN_4 del: upt_Suc)
qed simp

lemma place_statics_map:
  "\<forall>g\<in>set gs. lf_info g = IIdx 0 \<Longrightarrow> place_statics mem gs = Inr (map (\<lambda>g. g\<lparr>lf_bsize := 0, lf_info := IAddr (mem + uint (lf_bsize g))\<rparr>) gs)"
  by (induction gs) (auto simp: place_static_def)

text \<open>
  A class with 16385 static fields of type \<open>int\<close>, which is within the limit of 65535 fields of
  the format, gets a block of 65540 bytes, and its first and last static fields share an address.
\<close>

theorem allocStaticFields_overlap:
  "\<exists>c'. allocStaticFields (\<lambda>n. Inr (alloc n)) (demo_lclass\<lparr>lc_nsfields := 16385, lc_fields := replicate 16385 int_static\<rparr>) =
       Inr (c', 65540) \<and>
     length (lc_fields c') = 16385 \<and> lf_info (lc_fields c' ! 0) = lf_info (lc_fields c' ! 16384)"
proof -
  let ?n = "16385 :: nat" let ?c = "demo_lclass\<lparr>lc_nsfields := ?n, lc_fields := replicate ?n int_static\<rparr>"
  let ?g = "\<lambda>i. int_resolved\<lparr>lf_bsize := word_of_int (0 + 4 * int i)\<rparr>"
  let ?h = "\<lambda>g :: lfield. g\<lparr>lf_bsize := 0, lf_info := IAddr (alloc 65540 + uint (lf_bsize g))\<rparr>"
  have s: "size_statics (replicate ?n int_static) 0 = Inr (map ?g [0..<?n], 65540)"
    using size_statics_ints [of 0 ?n] by simp
  have p: "place_statics (alloc 65540) (map ?g [0..<?n]) = Inr (map ?h (map ?g [0..<?n]))"
    by (rule place_statics_map) (auto simp: int_resolved_def int_static_def)
  let ?c' = "?c\<lparr>lc_fields := map ?h (map ?g [0..<?n]) @ drop ?n (replicate ?n int_static)\<rparr>"
  have "lc_nsfields ?c = ?n" "lc_fields ?c = replicate ?n int_static" by simp_all
  then have "allocStaticFields (\<lambda>n. Inr (alloc n)) ?c = Inr (?c', 65540)"
    unfolding allocStaticFields_def using s p by (simp del: upt_rec_numeral)
  moreover have "lf_info (lc_fields ?c' ! 0) = lf_info (lc_fields ?c' ! 16384)"
    by (simp add: nth_append del: upt_rec_numeral)
  moreover have "length (lc_fields ?c') = ?n" by (simp del: upt_rec_numeral)
  ultimately show ?thesis by blast
qed

end
