(* ===== verification/Threads.thy ===== *)
theory Threads
  imports LaTTe_Prelude
begin

text \<open>
  The user-level thread system: \<^verbatim>\<open>runtime/thread-internal.c\<close>, the macros of
  \<^verbatim>\<open>runtime/thread-internal.h\<close> and \<^verbatim>\<open>runtime/thread.c\<close>, as built without \<^verbatim>\<open>NEW_CTX_SWITCH\<close>.
  Every queue of threads is a linked list through the member \<open>nextQ\<close> of the contexts, from a
  variable that holds its head: a ready queue per priority, the waiters and the condition queue
  of a lock, the readers and writers of a file. The alarm list and the list of live threads go
  through members of their own. All of these are pointers in the model, as in the code: a loop
  over a queue follows them and need not end.

  A context switch leaves the C frames of a thread suspended. What a frame still has to do is
  an element of the list \<open>konts\<close> of its thread, innermost first; \<open>reschedule\<close> pushes the rest of its own
  body and changes \<open>currentThread\<close>. The saved registers and the signal mask are not modelled.
  The clock is the argument \<open>now\<close>, and the answer of \<open>select\<close> is an argument too.
\<close>

section \<open>State\<close>

type_synonym tid = nat
type_synonym obj = nat

datatype qvar = Ready nat | Waiters obj | Conds obj | ReadQ nat | WriteQ nat

datatype tstatus = THREAD_SUSPENDED | THREAD_RUNNING | THREAD_DEAD

datatype kont =
    K_switched bool int
  | K_resched bool int
  | K_intsRestore
  | K_decInts
  | K_lock obj
  | K_wait obj uint32
  | K_waited obj uint32
  | K_file nat bool
  | K_kill

record ctx =
  status :: tstatus
  priority :: nat
  time :: jlong
  nextQ :: "tid option"
  nextlive :: "tid option"
  nextalarm :: "tid option"
  blockqueue :: "qvar option"
  flags :: uint8

record sched =
  tctx :: "tid \<Rightarrow> ctx"
  privateInfo :: "tid \<Rightarrow> nat"
  jpriority :: "tid \<Rightarrow> nat"
  daemon :: "tid \<Rightarrow> bool"
  qhead :: "qvar \<Rightarrow> tid option"
  threadQtail :: "nat \<Rightarrow> tid option"
  alarmList :: "tid option"
  liveThreads :: "tid option"
  currentThread :: tid
  blockInts :: int
  needReschedule :: bool
  talive :: int
  tdaemon :: int
  maxFd :: int
  readsPending :: "nat \<Rightarrow> bool"
  writesPending :: "nat \<Rightarrow> bool"
  threadContext :: "bool list"
  numberOfThreads :: nat
  ntid :: nat
  lock_info :: "obj \<Rightarrow> uint32"
  lockTable :: "nat \<Rightarrow> obj list"
  konts :: "tid \<Rightarrow> kont list"
  raised :: "tid \<Rightarrow> vm_error option"

definition MAX_PRIORITY :: nat where "MAX_PRIORITY = 10"
definition MIN_PRIORITY :: nat where "MIN_PRIORITY = 1"
definition THREAD_FLAGS_GENERAL :: uint8 where "THREAD_FLAGS_GENERAL = 0"
definition THREAD_FLAGS_KILLED :: uint8 where "THREAD_FLAGS_KILLED = 2"
definition THREAD_FLAGS_ALARM :: uint8 where "THREAD_FLAGS_ALARM = 4"
definition THREAD_FLAGS_USERSUSPEND :: uint8 where "THREAD_FLAGS_USERSUSPEND = 8"
definition THREAD_FLAGS_ERROR :: uint8 where "THREAD_FLAGS_ERROR = 16"
definition THREAD_FLAGS_STOPPED :: uint8 where "THREAD_FLAGS_STOPPED = 32"

definition upd_ctx :: "tid \<Rightarrow> (ctx \<Rightarrow> ctx) \<Rightarrow> sched \<Rightarrow> sched" where
  "upd_ctx t f s = s\<lparr>tctx := (tctx s)(t := f (tctx s t))\<rparr>"

definition has_flag :: "uint8 \<Rightarrow> tid \<Rightarrow> sched \<Rightarrow> bool" where
  "has_flag m t s \<longleftrightarrow> flags (tctx s t) AND m \<noteq> 0"

definition set_flag :: "uint8 \<Rightarrow> tid \<Rightarrow> sched \<Rightarrow> sched" where
  "set_flag m t = upd_ctx t (\<lambda>c. c\<lparr>flags := flags c OR m\<rparr>)"

definition clear_flag :: "uint8 \<Rightarrow> tid \<Rightarrow> sched \<Rightarrow> sched" where
  "clear_flag m t = upd_ctx t (\<lambda>c. c\<lparr>flags := flags c AND NOT m\<rparr>)"

definition push_kont :: "kont \<Rightarrow> sched \<Rightarrow> sched" where
  "push_kont k s = s\<lparr>konts := (konts s)(currentThread s := k # konts s (currentThread s))\<rparr>"

text \<open>\<open>throwException\<close> leaves the frames of the runtime for the handler in the Java code of the thread.\<close>

definition throw :: "vm_error \<Rightarrow> sched \<Rightarrow> sched" where
  "throw e s = s\<lparr>konts := (konts s)(currentThread s := []), raised := (raised s)(currentThread s := Some e)\<rparr>"

section \<open>Pointers to links\<close>

text \<open>The values of a variable of type \<open>Hjava_lang_Thread**\<close>.\<close>

datatype cell = Head qvar | NextQ tid | AlarmHead | NextAlarm tid | LiveHead | NextLive tid

fun read_cell :: "sched \<Rightarrow> cell \<Rightarrow> tid option" where
  "read_cell s (Head q) = qhead s q"
| "read_cell s (NextQ t) = nextQ (tctx s t)"
| "read_cell s AlarmHead = alarmList s"
| "read_cell s (NextAlarm t) = nextalarm (tctx s t)"
| "read_cell s LiveHead = liveThreads s"
| "read_cell s (NextLive t) = nextlive (tctx s t)"

fun write_cell :: "cell \<Rightarrow> tid option \<Rightarrow> sched \<Rightarrow> sched" where
  "write_cell (Head q) v s = s\<lparr>qhead := (qhead s)(q := v)\<rparr>"
| "write_cell (NextQ t) v s = upd_ctx t (\<lambda>c. c\<lparr>nextQ := v\<rparr>) s"
| "write_cell AlarmHead v s = s\<lparr>alarmList := v\<rparr>"
| "write_cell (NextAlarm t) v s = upd_ctx t (\<lambda>c. c\<lparr>nextalarm := v\<rparr>) s"
| "write_cell LiveHead v s = s\<lparr>liveThreads := v\<rparr>"
| "write_cell (NextLive t) v s = upd_ctx t (\<lambda>c. c\<lparr>nextlive := v\<rparr>) s"

text \<open>
  The loop \<open>for (p = start; *p != 0; p = &TCTX(*p)->next)\<close> with a break at the first thread that
  satisfies \<open>stop\<close>: the value of the pointer at the end, and the thread before it.
\<close>

partial_function (option) find_cell ::
    "(tid \<Rightarrow> cell) \<Rightarrow> (tid \<Rightarrow> bool) \<Rightarrow> sched \<Rightarrow> cell \<Rightarrow> tid option \<Rightarrow> (cell \<times> tid option) option" where
  [code]: "find_cell nxt stop s p lst =
     (case read_cell s p of
        None \<Rightarrow> Some (p, lst)
      | Some u \<Rightarrow> if stop u then Some (p, lst) else find_cell nxt stop s (nxt u) (Some u))"

text \<open>Sequencing for operations that may run forever but do not raise.\<close>

definition run_then :: "'a option \<Rightarrow> ('a \<Rightarrow> 'b result option) \<Rightarrow> 'b result option" where
  "run_then r f = (case r of None \<Rightarrow> None | Some x \<Rightarrow> f x)"

lemma run_then_simps [simp]: "run_then None f = None" "run_then (Some x) f = f x"
  by (simp_all add: run_then_def)

section \<open>Alarms\<close>

definition addToAlarmQ :: "jlong \<Rightarrow> tid \<Rightarrow> jlong \<Rightarrow> sched \<Rightarrow> sched result option" where
  "addToAlarmQ now t timeout s =
     (let s = set_flag THREAD_FLAGS_ALARM t s;
          s = upd_ctx t (\<lambda>c. c\<lparr>time := timeout + now\<rparr>) s
      in run_then (find_cell NextAlarm (\<lambda>u. sint (time (tctx s u)) > sint (time (tctx s t))) s AlarmHead None) (\<lambda>(p, _).
         let s = upd_ctx t (\<lambda>c. c\<lparr>nextalarm := read_cell s p\<rparr>) s
         in Some (Inr (write_cell p (Some t) s))))"

definition removeFromAlarmQ :: "tid \<Rightarrow> sched \<Rightarrow> sched result option" where
  "removeFromAlarmQ t s =
     (let s = clear_flag THREAD_FLAGS_ALARM t s
      in run_then (find_cell NextAlarm (\<lambda>u. u = t) s AlarmHead None) (\<lambda>(p, _).
         if read_cell s p = Some t
         then Some (Inr (upd_ctx t (\<lambda>c. c\<lparr>nextalarm := None\<rparr>) (write_cell p (nextalarm (tctx s t)) s)))
         else Some (Inr s)))"

section \<open>Scheduling\<close>

fun highest_ready :: "nat \<Rightarrow> sched \<Rightarrow> tid option" where
  "highest_ready i s =
     (case qhead s (Ready i) of
        Some t \<Rightarrow> Some t
      | None \<Rightarrow> if i > MIN_PRIORITY then highest_ready (i - 1) s else None)"

declare highest_ready.simps [simp del]

text \<open>
  One round of the loop of \<open>reschedule\<close> (\<open>wait = False\<close>) or \<open>reschedule_from_wait\<close>, with the saved \<open>b\<close>:
  switch to the first thread of the highest ready queue; when there is none, the thread
  stays in \<open>checkEvents\<close>, and \<open>K_resched\<close> is the next round.
\<close>

definition resched_round :: "bool \<Rightarrow> int \<Rightarrow> sched \<Rightarrow> sched" where
  "resched_round wait b s =
     (case highest_ready MAX_PRIORITY s of
        Some t \<Rightarrow>
          if t \<noteq> currentThread s then (push_kont (K_switched wait b) s)\<lparr>currentThread := t\<rparr>
          else s\<lparr>needReschedule := False\<rparr>
      | None \<Rightarrow> push_kont (K_resched wait b) (s\<lparr>needReschedule := False, blockInts := 0\<rparr>))"

definition reschedule :: "sched \<Rightarrow> sched" where
  "reschedule s = resched_round False (blockInts s) s"

definition reschedule_from_wait :: "sched \<Rightarrow> sched" where
  "reschedule_from_wait s = resched_round True (blockInts s) s"

text \<open>What follows \<open>THREADSWITCH\<close> when the thread runs again; \<open>lastThread\<close> is then the thread itself.\<close>

definition after_switch :: "bool \<Rightarrow> int \<Rightarrow> sched \<Rightarrow> sched" where
  "after_switch wait b s =
     (let s = s\<lparr>blockInts := b\<rparr>; t = currentThread s in
      if \<not> wait \<and> has_flag THREAD_FLAGS_KILLED t s \<and> blockInts s = 1
      then throw ThreadDeath ((clear_flag THREAD_FLAGS_KILLED t s)\<lparr>blockInts := 0\<rparr>)
      else s\<lparr>needReschedule := False\<rparr>)"

definition intsDisable :: "sched \<Rightarrow> sched" where
  "intsDisable s = s\<lparr>blockInts := blockInts s + 1\<rparr>"

definition intsRestore :: "sched \<Rightarrow> sched" where
  "intsRestore s =
     (if blockInts s = 1 \<and> needReschedule s then reschedule (push_kont K_decInts s)
      else s\<lparr>blockInts := blockInts s - 1\<rparr>)"

section \<open>Queues\<close>

text \<open>To the end of the ready queue of its priority.\<close>

definition enqueue_ready :: "tid \<Rightarrow> nat \<Rightarrow> sched \<Rightarrow> sched result" where
  "enqueue_ready t p s =
     (case qhead s (Ready p) of
        None \<Rightarrow> Inr (upd_ctx t (\<lambda>c. c\<lparr>nextQ := None\<rparr>)
                  (s\<lparr>qhead := (qhead s)(Ready p := Some t), threadQtail := (threadQtail s)(p := Some t)\<rparr>))
      | Some _ \<Rightarrow>
          (case threadQtail s p of
             None \<Rightarrow> Inl C_undefined
           | Some l \<Rightarrow>
               Inr (upd_ctx t (\<lambda>c. c\<lparr>nextQ := None\<rparr>)
                 ((upd_ctx l (\<lambda>c. c\<lparr>nextQ := Some t\<rparr>) s)\<lparr>threadQtail := (threadQtail s)(p := Some t)\<rparr>))))"

definition leave_blockqueue :: "tid \<Rightarrow> sched \<Rightarrow> sched result option" where
  "leave_blockqueue t s =
     (case blockqueue (tctx s t) of
        None \<Rightarrow> Some (Inr s)
      | Some q \<Rightarrow>
          run_then (find_cell NextQ (\<lambda>u. u = t) s (Head q) None) (\<lambda>(p, _).
          let s = (if read_cell s p = Some t then write_cell p (nextQ (tctx s t)) s else s)
          in Some (Inr (upd_ctx t (\<lambda>c. c\<lparr>blockqueue := None\<rparr>) s))))"

definition make_ready :: "tid \<Rightarrow> sched \<Rightarrow> sched result option" where
  "make_ready t s =
     (let s = upd_ctx t (\<lambda>c. c\<lparr>status := THREAD_RUNNING\<rparr>) s;
          p = priority (tctx s t);
          s = (if qhead s (Ready p) = None \<and> p > priority (tctx s (currentThread s)) then s\<lparr>needReschedule := True\<rparr> else s)
      in Some (enqueue_ready t p s))"

definition iresume_body :: "tid \<Rightarrow> sched \<Rightarrow> sched result option" where
  "iresume_body t s =
     (if status (tctx s t) \<noteq> THREAD_RUNNING then
        and_then (if has_flag THREAD_FLAGS_ALARM t s then removeFromAlarmQ t s else Some (Inr s)) (\<lambda>s.
        and_then (leave_blockqueue t s) (make_ready t))
      else Some (Inr s))"

definition iresumeThread :: "tid \<Rightarrow> sched \<Rightarrow> sched result option" where
  "iresumeThread t s = and_then (iresume_body t (intsDisable s)) (\<lambda>s. Some (Inr (intsRestore s)))"

definition resumeThread :: "tid \<Rightarrow> sched \<Rightarrow> sched result option" where
  "resumeThread t s =
     (let s = intsDisable s in
      and_then (if has_flag THREAD_FLAGS_USERSUSPEND t s then iresumeThread t (clear_flag THREAD_FLAGS_USERSUSPEND t s) else Some (Inr s)) (\<lambda>s.
      and_then (if has_flag THREAD_FLAGS_KILLED t s then iresumeThread t s else Some (Inr s)) (\<lambda>s.
      Some (Inr (intsRestore s)))))"

definition suspendThread :: "tid \<Rightarrow> sched \<Rightarrow> sched result option" where
  "suspendThread t s =
     (let s = intsDisable s in
      if status (tctx s t) \<noteq> THREAD_SUSPENDED then
        let s = upd_ctx t (\<lambda>c. c\<lparr>status := THREAD_SUSPENDED\<rparr>) s;
            s = set_flag THREAD_FLAGS_USERSUSPEND t s
        in run_then (find_cell NextQ (\<lambda>u. u = t) s (Head (Ready (priority (tctx s t)))) None) (\<lambda>(p, _).
           if read_cell s p = Some t then
             let s = upd_ctx t (\<lambda>c. c\<lparr>nextQ := None\<rparr>) (write_cell p (nextQ (tctx s t)) s)
             in if t = currentThread s then Some (Inr (reschedule (push_kont K_intsRestore s)))
                else Some (Inr (intsRestore s))
           else Some (Inr (intsRestore s)))
      else Some (Inr (intsRestore s)))"

text \<open>\<open>suspendOnQThread\<close> before it reschedules, and whether the thread was found in its ready queue.\<close>

definition leave_ready :: "tid \<Rightarrow> sched \<Rightarrow> (bool \<times> sched) option" where
  "leave_ready t s =
     (let pr = priority (tctx s t) in
      case find_cell NextQ (\<lambda>u. u = t) s (Head (Ready pr)) None of
        None \<Rightarrow> None
      | Some (p, lst) \<Rightarrow>
          if read_cell s p = Some t then
            let nx = nextQ (tctx s t); s = write_cell p nx s
            in Some (True, if nx = None then s\<lparr>threadQtail := (threadQtail s)(pr := lst)\<rparr> else s)
          else Some (False, s))"

definition enter_queue :: "tid \<Rightarrow> qvar \<Rightarrow> sched \<Rightarrow> sched" where
  "enter_queue t q s =
     upd_ctx t (\<lambda>c. c\<lparr>blockqueue := Some q\<rparr>) (write_cell (Head q) (Some t) (upd_ctx t (\<lambda>c. c\<lparr>nextQ := qhead s q\<rparr>) s))"

definition suspend_body :: "jlong \<Rightarrow> tid \<Rightarrow> qvar option \<Rightarrow> jlong \<Rightarrow> sched \<Rightarrow> (bool \<times> sched) result option" where
  "suspend_body now t queue timeout s =
     (if status (tctx s t) \<noteq> THREAD_SUSPENDED then
        run_then (leave_ready t (upd_ctx t (\<lambda>c. c\<lparr>status := THREAD_SUSPENDED\<rparr>) s)) (\<lambda>(found, s).
        if found then
          let s = (case queue of None \<Rightarrow> s | Some q \<Rightarrow> enter_queue t q s)
          in and_then (if sint timeout > 0 then addToAlarmQ now t timeout s else Some (Inr s)) (\<lambda>s. Some (Inr (True, s)))
        else Some (Inr (False, s)))
      else Some (Inr (False, s)))"

definition suspendOnQThread :: "jlong \<Rightarrow> tid \<Rightarrow> qvar option \<Rightarrow> jlong \<Rightarrow> bool \<Rightarrow> sched \<Rightarrow> sched result option" where
  "suspendOnQThread now t queue timeout from_wait s =
     and_then (suspend_body now t queue timeout s) (\<lambda>(found, s).
     if found \<and> t = currentThread s
     then Some (Inr (if from_wait then reschedule_from_wait s else reschedule s))
     else Some (Inr s))"

definition setPriorityThread :: "tid \<Rightarrow> nat \<Rightarrow> sched \<Rightarrow> sched result option" where
  "setPriorityThread t prio s =
     (if privateInfo s t = 0 then Some (Inr (s\<lparr>jpriority := (jpriority s)(t := prio)\<rparr>))
      else if status (tctx s t) = THREAD_SUSPENDED then Some (Inr (upd_ctx t (\<lambda>c. c\<lparr>priority := prio mod 256\<rparr>) s))
      else
        run_then (leave_ready t (intsDisable s)) (\<lambda>(_, s).
        let s = upd_ctx t (\<lambda>c. c\<lparr>priority := prio mod 256\<rparr>) (s\<lparr>jpriority := (jpriority s)(t := prio)\<rparr>)
        in if prio > MAX_PRIORITY then Some (Inl C_undefined)
           else and_then (Some (enqueue_ready t prio s)) (\<lambda>s.
                let s = (if t = currentThread s \<or> prio > priority (tctx s (currentThread s)) then s\<lparr>needReschedule := True\<rparr> else s)
                in Some (Inr (intsRestore s)))))"

definition yieldThread :: "sched \<Rightarrow> sched result" where
  "yieldThread s =
     (let s = intsDisable s; t = currentThread s; p = priority (tctx s t) in
      if qhead s (Ready p) \<noteq> threadQtail s p then
        (case threadQtail s p of
           None \<Rightarrow> Inl C_undefined
         | Some l \<Rightarrow>
             let s = s\<lparr>qhead := (qhead s)(Ready p := nextQ (tctx s t))\<rparr>;
                 s = upd_ctx l (\<lambda>c. c\<lparr>nextQ := Some t\<rparr>) s;
                 s = s\<lparr>threadQtail := (threadQtail s)(p := Some t)\<rparr>;
                 s = upd_ctx t (\<lambda>c. c\<lparr>nextQ := None\<rparr>) s
             in Inr (intsRestore (s\<lparr>needReschedule := True\<rparr>)))
      else Inr (intsRestore s))"

definition sleepThread :: "jlong \<Rightarrow> jlong \<Rightarrow> sched \<Rightarrow> sched result option" where
  "sleepThread now timeout s =
     (if timeout = 0 then Some (Inr s)
      else suspendOnQThread now (currentThread s) None timeout False (push_kont K_intsRestore (intsDisable s)))"


section \<open>Events\<close>

text \<open>The loop of \<open>alarmException\<close>: threads whose time has come.\<close>

partial_function (option) wake_alarms :: "jlong \<Rightarrow> sched \<Rightarrow> sched result option" where
  [code]: "wake_alarms now s =
     (case alarmList s of
        None \<Rightarrow> Some (Inr s)
      | Some t \<Rightarrow>
          if sint (time (tctx s t)) \<le> sint now
          then (case iresumeThread t (s\<lparr>alarmList := nextalarm (tctx s t)\<rparr>) of
                  None \<Rightarrow> None
                | Some (Inl e) \<Rightarrow> Some (Inl e)
                | Some (Inr s) \<Rightarrow> wake_alarms now s)
          else Some (Inr s))"

definition alarmException :: "jlong \<Rightarrow> sched \<Rightarrow> sched result option" where
  "alarmException now s =
     (let s = intsDisable s in
      if blockInts s > 1 then Some (Inr (intsRestore s))
      else and_then (wake_alarms now s) (\<lambda>s. Some (Inr (intsRestore s))))"

text \<open>Resume all threads of a file queue; the next pointer is read before the thread leaves the queue.\<close>

partial_function (option) resume_queue :: "bool \<Rightarrow> tid option \<Rightarrow> sched \<Rightarrow> sched result option" where
  [code]: "resume_queue err p s =
     (case p of
        None \<Rightarrow> Some (Inr s)
      | Some t \<Rightarrow>
          (case iresumeThread t (if err then set_flag THREAD_FLAGS_ERROR t s else s) of
             None \<Rightarrow> None
           | Some (Inl e) \<Rightarrow> Some (Inl e)
           | Some (Inr s') \<Rightarrow> resume_queue err (nextQ (tctx s t)) s'))"

datatype select_answer = Interrupted | Select_error | Selected "nat list" "nat list"

definition error_fd :: "nat \<Rightarrow> sched \<Rightarrow> sched result option" where
  "error_fd i s =
     and_then (resume_queue True (qhead s (ReadQ i)) s) (\<lambda>s.
     and_then (resume_queue True (qhead s (WriteQ i)) s) (\<lambda>s.
     Some (Inr (s\<lparr>qhead := (qhead s)(WriteQ i := None, ReadQ i := None)\<rparr>))))"

definition ready_fd :: "nat list \<Rightarrow> nat list \<Rightarrow> nat \<Rightarrow> int \<times> sched \<Rightarrow> (int \<times> sched) result option" where
  "ready_fd rd wr i rs =
     (case rs of (r, s) \<Rightarrow>
        if r \<le> 0 then Some (Inr (r, s))
        else
          and_then
            (if qhead s (ReadQ i) \<noteq> None \<and> i \<in> set rd
             then and_then (resume_queue False (qhead s (ReadQ i)) s) (\<lambda>s.
                  Some (Inr (r - 1, s\<lparr>qhead := (qhead s)(ReadQ i := None)\<rparr>)))
             else Some (Inr (r, s))) (\<lambda>(r, s).
          if qhead s (WriteQ i) \<noteq> None \<and> i \<in> set wr
          then and_then (resume_queue False (qhead s (WriteQ i)) s) (\<lambda>s.
               Some (Inr (r - 1, s\<lparr>qhead := (qhead s)(WriteQ i := None)\<rparr>)))
          else Some (Inr (r, s))))"

text \<open>\<open>checkEvents\<close> from the return of \<open>select\<close> on; \<open>b\<close> is its local variable.\<close>

definition checkEvents :: "int \<Rightarrow> select_answer \<Rightarrow> sched \<Rightarrow> sched result option" where
  "checkEvents b ans s =
     (let s = s\<lparr>blockInts := b\<rparr>; fds = [0..<nat (maxFd s + 1)] in
      case ans of
        Interrupted \<Rightarrow> Some (Inr s)
      | Select_error \<Rightarrow> each error_fd fds s
      | Selected rd wr \<Rightarrow>
          and_then (each (ready_fd rd wr) fds (int (length rd + length wr), s)) (\<lambda>(_, s). Some (Inr s)))"

text \<open>
  \<open>blockOnFile\<close> from the label \<open>retry\<close>: \<open>r\<close> is the answer of \<open>select\<close> for the file, which is asked again while
  it is interrupted, and the value returned when it does not block. A thread that blocks goes on with \<open>K_file\<close>.
\<close>

definition file_retry :: "jlong \<Rightarrow> nat \<Rightarrow> bool \<Rightarrow> int \<Rightarrow> sched \<Rightarrow> (int option \<times> sched) result option" where
  "file_retry now f rd r s =
     (if r \<noteq> 0 then Some (Inr (Some r, intsRestore s))
      else
        let s = (if int f > maxFd s then s\<lparr>maxFd := int f\<rparr> else s);
            s = (if rd then s\<lparr>readsPending := (readsPending s)(f := True)\<rparr> else s\<lparr>writesPending := (writesPending s)(f := True)\<rparr>)
        in and_then (suspendOnQThread now (currentThread s) (Some (if rd then ReadQ f else WriteQ f)) 0 False (push_kont (K_file f rd) s))
             (\<lambda>s. Some (Inr (None, s))))"

definition blockOnFile :: "jlong \<Rightarrow> int \<Rightarrow> bool \<Rightarrow> int \<Rightarrow> sched \<Rightarrow> (int option \<times> sched) result option" where
  "blockOnFile now fd rd r s =
     (if fd < 0 then Some (Inr (Some (- 1), s)) else file_retry now (nat fd) rd r (intsDisable s))"

text \<open>The rest of it, when the thread runs again: an error sends it back to \<open>select\<close>.\<close>

definition after_block :: "jlong \<Rightarrow> nat \<Rightarrow> bool \<Rightarrow> int \<Rightarrow> sched \<Rightarrow> (int option \<times> sched) result option" where
  "after_block now f rd r s =
     (let s = (if rd then s\<lparr>readsPending := (readsPending s)(f := False)\<rparr> else s\<lparr>writesPending := (writesPending s)(f := False)\<rparr>);
          t = currentThread s
      in if has_flag THREAD_FLAGS_ERROR t s then file_retry now f rd r (clear_flag THREAD_FLAGS_ERROR t s)
         else Some (Inr (Some 1, intsRestore s)))"

section \<open>Creating and ending threads\<close>

definition MAXTCTX :: nat where "MAXTCTX = 128"

text \<open>The search for a free context; index 0 is never used.\<close>

partial_function (option) find_context :: "bool list \<Rightarrow> nat \<Rightarrow> nat option" where
  [code]: "find_context tab n =
     (let n = n + 1; n = (if n = length tab then 1 else n)
      in if \<not> tab ! n then Some n else find_context tab n)"

definition allocThreadCtx :: "tid \<Rightarrow> sched \<Rightarrow> sched option" where
  "allocThreadCtx t s =
     (let tab = threadContext s;
          tab = (if int (numberOfThreads s) \<ge> int (length tab) - 1 then tab @ replicate MAXTCTX False else tab)
      in case find_context tab (ntid s) of
           None \<Rightarrow> None
         | Some n \<Rightarrow>
             Some (s\<lparr>threadContext := tab[n := True], numberOfThreads := numberOfThreads s + 1, ntid := n,
                     privateInfo := (privateInfo s)(t := n),
                     tctx := (tctx s)(t := \<lparr>status = THREAD_SUSPENDED, priority = 0, time = 0, nextQ = None, nextlive = None,
                        nextalarm = None, blockqueue = None, flags = 0\<rparr>)\<rparr>))"

text \<open>\<open>THREAD_CREATE\<close>: the new thread starts with interrupts disabled once and restores them first.\<close>

definition startThread :: "tid \<Rightarrow> sched \<Rightarrow> sched result option" where
  "startThread t s =
     run_then (allocThreadCtx t s) (\<lambda>s.
     let s = upd_ctx t (\<lambda>c. c\<lparr>priority := jpriority s t mod 256, status := THREAD_SUSPENDED, flags := THREAD_FLAGS_GENERAL,
                 nextlive := liveThreads s\<rparr>) s;
         s = s\<lparr>liveThreads := Some t, konts := (konts s)(t := [K_intsRestore]), talive := talive s + 1,
               tdaemon := (if daemon s t then tdaemon s + 1 else tdaemon s)\<rparr>
     in iresumeThread t s)"

definition aliveThread :: "tid \<Rightarrow> sched \<Rightarrow> bool \<times> sched" where
  "aliveThread t s =
     (let s = intsDisable s;
          st = (\<not> (privateInfo s t = 0 \<or> has_flag THREAD_FLAGS_STOPPED t s \<or> status (tctx s t) = THREAD_DEAD))
      in (st, intsRestore s))"

definition stopThread :: "tid \<Rightarrow> sched \<Rightarrow> sched result option" where
  "stopThread t s =
     (if status (tctx s t) = THREAD_DEAD \<or> has_flag THREAD_FLAGS_STOPPED t s then Some (Inr s)
      else if currentThread s = t then Some (Inr (throw ThreadDeath s))
      else resumeThread t (set_flag (THREAD_FLAGS_KILLED OR THREAD_FLAGS_STOPPED) t s))"

text \<open>\<open>THREAD_FREE\<close>.\<close>

definition freeThread :: "tid \<Rightarrow> sched \<Rightarrow> sched" where
  "freeThread t s =
     (if privateInfo s t \<noteq> 0
      then s\<lparr>threadContext := (threadContext s)[privateInfo s t := False], numberOfThreads := numberOfThreads s - 1,
             privateInfo := (privateInfo s)(t := 0)\<rparr>
      else s)"

section \<open>Linked lists of threads\<close>

text \<open>
  The contents of all links at once: a list starts at a cell, and each of its threads has a link
  to the next one. The three kinds of lists are instances of one interface.
\<close>

fun chain :: "(tid \<Rightarrow> cell) \<Rightarrow> (cell \<Rightarrow> tid option) \<Rightarrow> cell \<Rightarrow> tid list \<Rightarrow> bool" where
  "chain nxt rd p [] \<longleftrightarrow> rd p = None"
| "chain nxt rd p (x # xs) \<longleftrightarrow> rd p = Some x \<and> chain nxt rd (nxt x) xs"

definition end_cell :: "(tid \<Rightarrow> cell) \<Rightarrow> cell \<Rightarrow> tid list \<Rightarrow> cell" where
  "end_cell nxt p xs = (if xs = [] then p else nxt (last xs))"

definition last_of :: "tid option \<Rightarrow> tid list \<Rightarrow> tid option" where
  "last_of lst xs = (if xs = [] then lst else Some (last xs))"

lemma end_cell_simps [simp]: "end_cell nxt p [] = p" "end_cell nxt p (x # xs) = end_cell nxt (nxt x) xs"
  by (simp_all add: end_cell_def)

lemma last_of_simps [simp]: "last_of lst [] = lst" "last_of lst (x # xs) = last_of (Some x) xs"
  by (simp_all add: last_of_def)

lemma chain_cong:
  "rd' p = rd p \<Longrightarrow> \<forall>x\<in>set xs. rd' (nxt x) = rd (nxt x) \<Longrightarrow> chain nxt rd' p xs \<longleftrightarrow> chain nxt rd p xs"
  by (induction xs arbitrary: p) auto

lemma chain_head: "chain nxt rd p xs \<Longrightarrow> rd p = (case xs of [] \<Rightarrow> None | x # _ \<Rightarrow> Some x)"
  by (cases xs) auto

lemma chain_unique: "chain nxt rd p xs \<Longrightarrow> chain nxt rd p ys \<Longrightarrow> xs = ys"
  by (induction xs arbitrary: p ys) (case_tac ys; auto)+

lemma find_cell_chain:
  assumes "chain nxt (read_cell s) p xs"
  shows "find_cell nxt stop s p lst =
    Some (end_cell nxt p (takeWhile (\<lambda>u. \<not> stop u) xs), last_of lst (takeWhile (\<lambda>u. \<not> stop u) xs))"
  using assms
proof (induction xs arbitrary: p lst)
  case Nil
  then show ?case by (simp add: find_cell.simps)
next
  case (Cons x xs)
  then show ?case by (subst find_cell.simps) simp
qed

lemma chain_append:
  "chain nxt rd p (xs @ ys) \<Longrightarrow> chain nxt rd (end_cell nxt p xs) ys"
  by (induction xs arbitrary: p) simp_all

lemma takeWhile_split: "distinct xs \<Longrightarrow> t \<in> set xs \<Longrightarrow> \<exists>ys. xs = takeWhile (\<lambda>u. u \<noteq> t) xs @ t # ys"
  by (induction xs) auto

locale links =
  fixes nxt :: "tid \<Rightarrow> cell"
  assumes inj: "nxt t = nxt u \<Longrightarrow> t = u"
begin

lemma chain_upd:
  "c \<noteq> p \<Longrightarrow> c \<notin> nxt ` set xs \<Longrightarrow> chain nxt (rd(c := v)) p xs \<longleftrightarrow> chain nxt rd p xs"
  by (rule chain_cong) auto

text \<open>Two lists joined at the end of the first.\<close>

lemma chain_join:
  "chain nxt rd p (xs @ zs) \<Longrightarrow> distinct xs \<Longrightarrow> p \<notin> range nxt \<or> p \<notin> nxt ` set xs \<Longrightarrow> c = end_cell nxt p xs \<Longrightarrow>
   chain nxt (rd(c := v)) (if xs = [] then p else nxt (last xs)) ys \<Longrightarrow> chain nxt (rd(c := v)) p (xs @ ys)"
proof (induction xs arbitrary: p)
  case (Cons x xs)
  have p: "c \<noteq> p"
    using Cons.prems(3,4) by (cases xs rule: rev_cases) (auto simp: end_cell_def)
  from Cons.prems(2) have "nxt x \<notin> nxt ` set xs" using inj by auto
  with Cons.prems have "chain nxt (rd(c := v)) (nxt x) (xs @ ys)"
    by (intro Cons.IH) (auto simp: end_cell_def split: if_splits)
  moreover have "(rd(c := v)) p = rd p" using p by simp
  ultimately show ?case using Cons.prems(1) unfolding append_Cons chain.simps by argo
qed simp

lemma chain_remove:
  assumes "chain nxt rd p (xs @ t # ys)" "distinct (xs @ t # ys)" "p \<notin> range nxt"
  shows "chain nxt (rd(end_cell nxt p xs := rd (nxt t))) p (xs @ ys)"
proof -
  let ?c = "end_cell nxt p xs" and ?rd = "rd(end_cell nxt p xs := rd (nxt t))"
  have ys: "chain nxt rd (nxt t) ys" using chain_append [OF assms(1)] by simp
  have cy: "?c \<notin> nxt ` set ys" using assms(2,3) by (cases xs rule: rev_cases) (auto simp: end_cell_def dest!: inj)
  have "chain nxt ?rd ?c ys"
  proof (cases ys)
    case Nil
    with ys show ?thesis by simp
  next
    case (Cons y zs)
    with ys cy have "chain nxt ?rd (nxt y) zs" by (subst chain_upd) auto
    with ys Cons show ?thesis by simp
  qed
  then show ?thesis using assms by (intro chain_join [of rd p xs "t # ys"]) (auto simp: end_cell_def)
qed

lemma chain_insert:
  assumes "chain nxt rd p (xs @ ys)" "distinct (xs @ ys)" "t \<notin> set (xs @ ys)" "p \<notin> range nxt"
  shows "chain nxt (rd(nxt t := rd (end_cell nxt p xs), end_cell nxt p xs := Some t)) p (xs @ t # ys)"
proof -
  let ?c = "end_cell nxt p xs" let ?rd' = "rd(nxt t := rd ?c)" let ?rd = "?rd'(?c := Some t)"
  have ne: "?c \<noteq> nxt t" using assms(3,4) by (auto simp: end_cell_def dest!: inj split: if_splits)
  have cy: "?c \<notin> nxt ` set ys" using assms(2,4) by (cases xs rule: rev_cases) (auto simp: end_cell_def dest!: inj)
  have ty: "nxt t \<notin> nxt ` set (xs @ ys)" using assms(3) by (auto dest!: inj)
  have base: "chain nxt ?rd' p (xs @ ys)" using assms(1,4) ty by (subst chain_upd) auto
  have ys: "chain nxt rd ?c ys" by (rule chain_append [OF assms(1)])
  have "chain nxt ?rd (nxt t) ys"
  proof (cases ys)
    case Nil
    with ys ne show ?thesis by simp
  next
    case (Cons y zs)
    from ys Cons have "chain nxt rd (nxt y) zs" by simp
    moreover have "nxt y \<noteq> nxt t" "nxt t \<notin> nxt ` set zs" using ty Cons by auto
    ultimately have "chain nxt ?rd' (nxt y) zs" by (subst chain_upd) auto
    then have "chain nxt ?rd (nxt y) zs" using cy Cons by (subst chain_upd) auto
    with ys Cons ne show ?thesis by simp
  qed
  then have "chain nxt ?rd ?c (t # ys)" by simp
  then show ?thesis using base assms by (intro chain_join [of ?rd' p xs ys]) (auto simp: end_cell_def)
qed

end

interpretation ql: links NextQ by unfold_locales simp
interpretation al: links NextAlarm by unfold_locales simp
interpretation ll: links NextLive by unfold_locales simp

section \<open>Frames\<close>

lemma read_write_cell [simp]: "read_cell (write_cell c v s) = (read_cell s)(c := v)"
proof
  fix c' show "read_cell (write_cell c v s) c' = ((read_cell s)(c := v)) c'"
    by (cases c; cases c') (auto simp: upd_ctx_def)
qed

lemma tctx_upd_ctx [simp]: "tctx (upd_ctx t f s) = (tctx s)(t := f (tctx s t))"
  by (simp add: upd_ctx_def)

lemma read_cell_ctx [simp]:
  "read_cell (upd_ctx t (\<lambda>c. c\<lparr>status := v1\<rparr>) s) = read_cell s"
  "read_cell (upd_ctx t (\<lambda>c. c\<lparr>priority := v2\<rparr>) s) = read_cell s"
  "read_cell (upd_ctx t (\<lambda>c. c\<lparr>time := v3\<rparr>) s) = read_cell s"
  "read_cell (upd_ctx t (\<lambda>c. c\<lparr>blockqueue := v4\<rparr>) s) = read_cell s"
  "read_cell (upd_ctx t (\<lambda>c. c\<lparr>flags := f c\<rparr>) s) = read_cell s"
  by (rule ext, case_tac x; simp add: upd_ctx_def)+

section \<open>Queues as lists\<close>

text \<open>All queues at once: what their links spell, without repetition and without overlap.\<close>

definition queues :: "(cell \<Rightarrow> tid option) \<Rightarrow> (qvar \<Rightarrow> tid list) \<Rightarrow> bool" where
  "queues rd Q \<longleftrightarrow> (\<forall>q. chain NextQ rd (Head q) (Q q) \<and> distinct (Q q)) \<and>
     (\<forall>q q'. q \<noteq> q' \<longrightarrow> set (Q q) \<inter> set (Q q') = {})"

lemma queuesD:
  assumes "queues rd Q"
  shows "chain NextQ rd (Head q) (Q q)" "distinct (Q q)" "t \<in> set (Q q) \<Longrightarrow> t \<in> set (Q q') \<Longrightarrow> q = q'"
  using assms unfolding queues_def by blast+

lemma queues_head: "queues rd Q \<Longrightarrow> rd (Head q) = (case Q q of [] \<Rightarrow> None | x # _ \<Rightarrow> Some x)"
  by (rule chain_head [OF queuesD(1)])

lemma queues_head_None [simp]: "queues rd Q \<Longrightarrow> rd (Head q) = None \<longleftrightarrow> Q q = []"
  by (simp add: queues_head split: list.splits)

text \<open>An operation on one queue that touches only its head and the links of its members.\<close>

lemma queues_update:
  assumes "queues rd Q" and "chain NextQ rd' (Head q) xs" "distinct xs"
    and "\<forall>q'. q' \<noteq> q \<longrightarrow> set xs \<inter> set (Q q') = {}"
    and "\<forall>c. rd' c \<noteq> rd c \<longrightarrow> (\<forall>q'. q' \<noteq> q \<longrightarrow> c \<noteq> Head q' \<and> c \<notin> NextQ ` set (Q q'))"
  shows "queues rd' (Q(q := xs))"
proof -
  have "chain NextQ rd' (Head q') (Q q')" if "q' \<noteq> q" for q'
  proof -
    have "rd' (Head q') = rd (Head q')" "\<forall>x\<in>set (Q q'). rd' (NextQ x) = rd (NextQ x)" using assms(5) that by blast+
    with queuesD(1) [OF assms(1)] show ?thesis using chain_cong [of rd' "Head q'" rd "Q q'" NextQ] by blast
  qed
  with assms(1-4) show ?thesis unfolding queues_def by (auto split: if_splits)
qed

lemma queues_same:
  assumes "queues rd Q" and "\<forall>q. rd' (Head q) = rd (Head q)" and "\<forall>t q. t \<in> set (Q q) \<longrightarrow> rd' (NextQ t) = rd (NextQ t)"
  shows "queues rd' Q"
proof -
  have "chain NextQ rd' (Head q) (Q q)" for q
    using queuesD(1) [OF assms(1)] assms(2,3) chain_cong [of rd' "Head q" rd "Q q" NextQ] by blast
  with assms(1) show ?thesis unfolding queues_def by blast
qed

lemma end_cell_cases: "end_cell nxt p xs = p \<or> (\<exists>x\<in>set xs. end_cell nxt p xs = nxt x)"
  by (cases "xs = []") (auto simp: end_cell_def)

lemma queues_insert:
  assumes "queues rd Q" and "Q q = xs @ ys" and "\<forall>q. t \<notin> set (Q q)"
  shows "queues (rd(NextQ t := rd (end_cell NextQ (Head q) xs), end_cell NextQ (Head q) xs := Some t)) (Q(q := xs @ t # ys))"
proof (rule queues_update [OF assms(1)])
  have d: "distinct (Q q)" "chain NextQ rd (Head q) (Q q)" using queuesD [OF assms(1)] by blast+
  show "chain NextQ (rd(NextQ t := rd (end_cell NextQ (Head q) xs), end_cell NextQ (Head q) xs := Some t)) (Head q) (xs @ t # ys)"
    using d assms(2) assms(3) [rule_format, of q] by (intro ql.chain_insert) auto
  show "distinct (xs @ t # ys)" using d(1) assms(2) assms(3) [rule_format, of q] by auto
  show "\<forall>q'. q' \<noteq> q \<longrightarrow> set (xs @ t # ys) \<inter> set (Q q') = {}"
    using assms queuesD(3) [OF assms(1)] by (fastforce simp: assms(2))
  show "\<forall>c. (rd(NextQ t := rd (end_cell NextQ (Head q) xs), end_cell NextQ (Head q) xs := Some t)) c \<noteq> rd c \<longrightarrow>
      (\<forall>q'. q' \<noteq> q \<longrightarrow> c \<noteq> Head q' \<and> c \<notin> NextQ ` set (Q q'))"
    using end_cell_cases [of NextQ "Head q" xs] assms(2,3) queuesD(3) [OF assms(1), of _ q] by (auto split: if_splits, blast+)
qed

lemma queues_remove:
  assumes "queues rd Q" and "Q q = xs @ t # ys"
  shows "queues (rd(end_cell NextQ (Head q) xs := rd (NextQ t))) (Q(q := xs @ ys))"
proof (rule queues_update [OF assms(1)])
  have d: "distinct (Q q)" "chain NextQ rd (Head q) (Q q)" using queuesD [OF assms(1)] by blast+
  show "chain NextQ (rd(end_cell NextQ (Head q) xs := rd (NextQ t))) (Head q) (xs @ ys)"
    using d assms(2) by (intro ql.chain_remove) auto
  show "distinct (xs @ ys)" using d(1) assms(2) by simp
  show "\<forall>q'. q' \<noteq> q \<longrightarrow> set (xs @ ys) \<inter> set (Q q') = {}"
    using queuesD(3) [OF assms(1), of _ q] by (fastforce simp: assms(2))
  show "\<forall>c. (rd(end_cell NextQ (Head q) xs := rd (NextQ t))) c \<noteq> rd c \<longrightarrow>
      (\<forall>q'. q' \<noteq> q \<longrightarrow> c \<noteq> Head q' \<and> c \<notin> NextQ ` set (Q q'))"
    using end_cell_cases [of NextQ "Head q" xs] assms(2) queuesD(3) [OF assms(1), of _ q] by (auto split: if_splits, blast)
qed

text \<open>The three forms the code uses.\<close>

lemma queues_push:
  assumes "queues rd Q" "\<forall>q. t \<notin> set (Q q)"
  shows "queues (rd(NextQ t := rd (Head q), Head q := Some t)) (Q(q := t # Q q))"
  using queues_insert [OF assms(1) _ assms(2), of q "[]" "Q q"] by simp

lemma queues_append:
  assumes "queues rd Q" "\<forall>q. t \<notin> set (Q q)"
  shows "queues (rd(end_cell NextQ (Head q) (Q q) := Some t, NextQ t := None)) (Q(q := Q q @ [t]))"
proof -
  let ?c = "end_cell NextQ (Head q) (Q q)"
  have n: "rd ?c = None" using chain_append [of NextQ rd "Head q" "Q q" "[]"] queuesD(1) [OF assms(1)] by simp
  have "?c \<noteq> NextQ t" using end_cell_cases [of NextQ "Head q" "Q q"] assms(2) by auto
  then show ?thesis using queues_insert [OF assms(1) _ assms(2), of q "Q q" "[]"] n by (simp add: fun_upd_twist)
qed

lemma queues_pop:
  assumes "queues rd Q" "Q q = t # ys"
  shows "queues (rd(Head q := rd (NextQ t))) (Q(q := ys))"
  using queues_remove [OF assms(1), of q "[]" t ys] assms(2) by simp

lemma remove1_split: "distinct (xs @ t # ys) \<Longrightarrow> remove1 t (xs @ t # ys) = xs @ ys"
  by (simp add: remove1_append)

text \<open>The loop that looks for a thread, and what it finds.\<close>

lemma find_thread:
  assumes "queues (read_cell s) Q"
  obtains xs where "find_cell NextQ (\<lambda>u. u = t) s (Head q) None = Some (end_cell NextQ (Head q) xs, last_of None xs)"
    "t \<in> set (Q q) \<Longrightarrow> \<exists>ys. Q q = xs @ t # ys \<and> read_cell s (end_cell NextQ (Head q) xs) = Some t \<and> remove1 t (Q q) = xs @ ys"
    "t \<notin> set (Q q) \<Longrightarrow> xs = Q q \<and> read_cell s (end_cell NextQ (Head q) xs) = None"
proof -
  let ?xs = "takeWhile (\<lambda>u. u \<noteq> t) (Q q)"
  note c = queuesD(1) [OF assms, of q] and d = queuesD(2) [OF assms, of q]
  show thesis
  proof (rule that [of ?xs])
    show "find_cell NextQ (\<lambda>u. u = t) s (Head q) None = Some (end_cell NextQ (Head q) ?xs, last_of None ?xs)"
      by (rule find_cell_chain [OF c])
    assume "t \<in> set (Q q)"
    from takeWhile_split [OF d this] obtain ys where ys: "Q q = ?xs @ t # ys" by blast
    with c have "chain NextQ (read_cell s) (end_cell NextQ (Head q) ?xs) (t # ys)" by (metis chain_append)
    with ys d show "\<exists>ys. Q q = ?xs @ t # ys \<and> read_cell s (end_cell NextQ (Head q) ?xs) = Some t \<and> remove1 t (Q q) = ?xs @ ys"
      by (metis chain.simps(2) remove1_split)
  next
    assume "t \<notin> set (Q q)"
    then have e: "?xs = Q q" by (simp add: takeWhile_eq_all_conv) blast
    show "?xs = Q q \<and> read_cell s (end_cell NextQ (Head q) ?xs) = None"
      unfolding e using c chain_append [of NextQ "read_cell s" "Head q" "Q q" "[]"] by simp
  qed
qed

end
