(* ===== verification/Scheduler.thy ===== *)
theory Scheduler
  imports Threads
begin

text \<open>
  The effect of the operations of \<^verbatim>\<open>runtime/thread-internal.c\<close> on the queues. A function \<open>Q\<close> gives the
  list of threads behind every queue variable and \<open>A\<close> the alarm list; \<open>queues_ok\<close> and \<open>alarms_ok\<close> relate them
  to the pointers, and each operation has a lemma that gives the lists after it.
\<close>

section \<open>The invariant of the scheduler\<close>

fun is_ready :: "qvar \<Rightarrow> bool" where
  "is_ready (Ready _) = True" | "is_ready _ = False"

text \<open>
  The ready queues hold exactly the running threads, by priority, with their tails; a thread in
  another queue knows its queue, except that \<open>notify\<close> moves it to the waiters of the same object
  without telling it. The alarm list is sorted and holds sleeping threads.
\<close>

definition queues_ok :: "(qvar \<Rightarrow> tid list) \<Rightarrow> sched \<Rightarrow> bool" where
  "queues_ok Q s \<longleftrightarrow> queues (read_cell s) Q \<and>
     (\<forall>p. Q (Ready p) \<noteq> [] \<longrightarrow> threadQtail s p = Some (last (Q (Ready p)))) \<and>
     (\<forall>t p. t \<in> set (Q (Ready p)) \<longleftrightarrow> status (tctx s t) = THREAD_RUNNING \<and> priority (tctx s t) = p) \<and>
     (\<forall>t q. t \<in> set (Q q) \<longrightarrow> \<not> is_ready q \<longrightarrow>
        blockqueue (tctx s t) = Some q \<or> (\<exists>ob. q = Waiters ob \<and> blockqueue (tctx s t) = Some (Conds ob))) \<and>
     (\<forall>t q. blockqueue (tctx s t) = Some q \<longrightarrow> \<not> is_ready q)"

definition alarms_ok :: "(qvar \<Rightarrow> tid list) \<Rightarrow> tid list \<Rightarrow> sched \<Rightarrow> bool" where
  "alarms_ok Q A s \<longleftrightarrow> chain NextAlarm (read_cell s) AlarmHead A \<and> distinct A \<and>
     sorted_wrt (\<lambda>t u. sint (time (tctx s t)) \<le> sint (time (tctx s u))) A \<and>
     (\<forall>t\<in>set A. has_flag THREAD_FLAGS_ALARM t s \<and> status (tctx s t) = THREAD_SUSPENDED \<and> (\<forall>q. t \<notin> set (Q q)))"

text \<open>What the queue operations leave alone.\<close>

definition same_rest :: "sched \<Rightarrow> sched \<Rightarrow> bool" where
  "same_rest s s' \<longleftrightarrow> privateInfo s' = privateInfo s \<and> jpriority s' = jpriority s \<and> daemon s' = daemon s \<and>
     liveThreads s' = liveThreads s \<and> currentThread s' = currentThread s \<and> blockInts s' = blockInts s \<and>
     talive s' = talive s \<and> tdaemon s' = tdaemon s \<and> maxFd s' = maxFd s \<and> readsPending s' = readsPending s \<and>
     writesPending s' = writesPending s \<and> threadContext s' = threadContext s \<and> numberOfThreads s' = numberOfThreads s \<and>
     ntid s' = ntid s \<and> lock_info s' = lock_info s \<and> lockTable s' = lockTable s \<and> konts s' = konts s \<and> raised s' = raised s"

definition same_ctx :: "tid \<Rightarrow> sched \<Rightarrow> sched \<Rightarrow> bool" where
  "same_ctx t s s' \<longleftrightarrow> (\<forall>u. u \<noteq> t \<longrightarrow> status (tctx s' u) = status (tctx s u) \<and> priority (tctx s' u) = priority (tctx s u) \<and>
     time (tctx s' u) = time (tctx s u) \<and> blockqueue (tctx s' u) = blockqueue (tctx s u) \<and> flags (tctx s' u) = flags (tctx s u))"

lemma same_rest_refl [simp]: "same_rest s s" by (simp add: same_rest_def)
lemma same_rest_trans: "same_rest s s' \<Longrightarrow> same_rest s' s'' \<Longrightarrow> same_rest s s''" by (simp add: same_rest_def)
lemma same_ctx_refl [simp]: "same_ctx t s s" by (simp add: same_ctx_def)
lemma same_ctx_trans: "same_ctx t s s' \<Longrightarrow> same_ctx t s' s'' \<Longrightarrow> same_ctx t s s''" by (simp add: same_ctx_def)

lemma same_rest_ops [simp]:
  "same_rest s (write_cell c v s') \<longleftrightarrow> (if c = LiveHead then v = liveThreads s \<and> same_rest s (s'\<lparr>liveThreads := liveThreads s\<rparr>) else same_rest s s')"
  "same_rest s (upd_ctx t f s') \<longleftrightarrow> same_rest s s'"
  "same_rest s (s'\<lparr>threadQtail := tq\<rparr>) \<longleftrightarrow> same_rest s s'"
  "same_rest s (s'\<lparr>qhead := qh\<rparr>) \<longleftrightarrow> same_rest s s'"
  "same_rest s (s'\<lparr>needReschedule := b\<rparr>) \<longleftrightarrow> same_rest s s'"
  "same_rest s (s'\<lparr>alarmList := a\<rparr>) \<longleftrightarrow> same_rest s s'"
  by (cases c; auto simp: same_rest_def upd_ctx_def)+

lemma ctx_write_cell [simp]:
  "status (tctx (write_cell c v s) t) = status (tctx s t)" "priority (tctx (write_cell c v s) t) = priority (tctx s t)"
  "time (tctx (write_cell c v s) t) = time (tctx s t)" "blockqueue (tctx (write_cell c v s) t) = blockqueue (tctx s t)"
  "flags (tctx (write_cell c v s) t) = flags (tctx s t)"
  "threadQtail (write_cell c v s) = threadQtail s" "needReschedule (write_cell c v s) = needReschedule s"
  "currentThread (write_cell c v s) = currentThread s"
  by (cases c; simp add: upd_ctx_def)+

lemma upd_ctx_fields [simp]:
  "threadQtail (upd_ctx t f s) = threadQtail s" "needReschedule (upd_ctx t f s) = needReschedule s"
  "currentThread (upd_ctx t f s) = currentThread s" "qhead (upd_ctx t f s) = qhead s"
  "alarmList (upd_ctx t f s) = alarmList s" "konts (upd_ctx t f s) = konts s" "lock_info (upd_ctx t f s) = lock_info s"
  "blockInts (upd_ctx t f s) = blockInts s" "privateInfo (upd_ctx t f s) = privateInfo s"
  by (simp_all add: upd_ctx_def)

lemma read_cell_rest [simp]:
  "read_cell (s\<lparr>threadQtail := x1\<rparr>) = read_cell s" "read_cell (s\<lparr>needReschedule := x2\<rparr>) = read_cell s"
  "read_cell (s\<lparr>currentThread := x3\<rparr>) = read_cell s" "read_cell (s\<lparr>blockInts := x4\<rparr>) = read_cell s"
  "read_cell (s\<lparr>konts := x5\<rparr>) = read_cell s" "read_cell (s\<lparr>lock_info := x6\<rparr>) = read_cell s"
  "read_cell (s\<lparr>lockTable := x7\<rparr>) = read_cell s" "read_cell (s\<lparr>raised := x8\<rparr>) = read_cell s"
  "read_cell (s\<lparr>jpriority := x9\<rparr>) = read_cell s"
  by (rule ext, case_tac x; simp)+

lemma nextQ_write: "upd_ctx t (\<lambda>c. c\<lparr>nextQ := v\<rparr>) s = write_cell (NextQ t) v s"
  and qhead_write: "s\<lparr>qhead := (qhead s)(q := v)\<rparr> = write_cell (Head q) v s"
  and nextalarm_write: "upd_ctx t (\<lambda>c. c\<lparr>nextalarm := v\<rparr>) s = write_cell (NextAlarm t) v s"
  and alarmList_write: "s\<lparr>alarmList := v\<rparr> = write_cell AlarmHead v s"
  by simp_all

lemma nextQ_read: "nextQ (tctx s t) = read_cell s (NextQ t)" and qhead_read: "qhead s q = read_cell s (Head q)"
  and nextalarm_read: "nextalarm (tctx s t) = read_cell s (NextAlarm t)"
  by simp_all

lemmas as_cells = nextQ_write qhead_write nextalarm_write alarmList_write nextQ_read qhead_read nextalarm_read

lemma flag_simps [simp]:
  "has_flag m t (set_flag m t s) \<longleftrightarrow> m \<noteq> 0" "\<not> has_flag m t (clear_flag m t s)"
  "u \<noteq> t \<Longrightarrow> has_flag m u (set_flag m' t s) = has_flag m u s" "u \<noteq> t \<Longrightarrow> has_flag m u (clear_flag m' t s) = has_flag m u s"
proof -
  have or: "(a OR m) AND m = m" for a :: uint8 by (rule bit_word_eqI) (auto simp: bit_simps)
  have nt: "(a AND NOT m) AND m = 0" for a :: uint8 by (rule bit_word_eqI) (auto simp: bit_simps)
  show "has_flag m t (set_flag m t s) \<longleftrightarrow> m \<noteq> 0" "\<not> has_flag m t (clear_flag m t s)"
    by (simp_all add: has_flag_def set_flag_def clear_flag_def or nt)
  show "u \<noteq> t \<Longrightarrow> has_flag m u (set_flag m' t s) = has_flag m u s" "u \<noteq> t \<Longrightarrow> has_flag m u (clear_flag m' t s) = has_flag m u s"
    by (simp_all add: has_flag_def set_flag_def clear_flag_def)
qed

section \<open>Alarms\<close>

lemma removeFromAlarmQ_effect:
  assumes "chain NextAlarm (read_cell s) AlarmHead A" "distinct A"
  obtains s' where "removeFromAlarmQ t s = Some (Inr s')" "same_rest s s'" "same_ctx t s s'"
    "chain NextAlarm (read_cell s') AlarmHead (remove1 t A)"
    "\<forall>q. read_cell s' (Head q) = read_cell s (Head q)" "\<forall>u. read_cell s' (NextQ u) = read_cell s (NextQ u)"
    "status (tctx s' t) = status (tctx s t)" "priority (tctx s' t) = priority (tctx s t)" "time (tctx s' t) = time (tctx s t)"
    "blockqueue (tctx s' t) = blockqueue (tctx s t)" "flags (tctx s' t) = flags (tctx s t) AND NOT THREAD_FLAGS_ALARM"
    "threadQtail s' = threadQtail s" "needReschedule s' = needReschedule s"
proof -
  let ?s = "clear_flag THREAD_FLAGS_ALARM t s"
  have rd: "read_cell ?s = read_cell s" by (simp add: clear_flag_def)
  have base: "same_rest s ?s" "same_ctx t s ?s" "status (tctx ?s t) = status (tctx s t)" "priority (tctx ?s t) = priority (tctx s t)"
    "time (tctx ?s t) = time (tctx s t)" "blockqueue (tctx ?s t) = blockqueue (tctx s t)"
    "flags (tctx ?s t) = flags (tctx s t) AND NOT THREAD_FLAGS_ALARM"
    "threadQtail ?s = threadQtail s" "needReschedule ?s = needReschedule s"
    by (simp_all add: clear_flag_def same_ctx_def)
  let ?xs = "takeWhile (\<lambda>u. u \<noteq> t) A" let ?c = "end_cell NextAlarm AlarmHead ?xs"
  have f: "find_cell NextAlarm (\<lambda>u. u = t) ?s AlarmHead None = Some (?c, last_of None ?xs)"
    by (rule find_cell_chain) (simp add: rd assms)
  show thesis
  proof (cases "t \<in> set A")
    case True
    from takeWhile_split [OF assms(2) this] obtain ys where ys: "A = ?xs @ t # ys" by blast
    with assms have c: "chain NextAlarm (read_cell s) ?c (t # ys)" by (metis chain_append)
    let ?s' = "write_cell (NextAlarm t) None (write_cell ?c (read_cell ?s (NextAlarm t)) ?s)"
    have call: "removeFromAlarmQ t s = Some (Inr ?s')" using f c by (simp add: removeFromAlarmQ_def Let_def rd as_cells del: write_cell.simps read_cell.simps)
    have ch: "chain NextAlarm ((read_cell s)(?c := read_cell s (NextAlarm t))) AlarmHead (?xs @ ys)"
      using assms ys by (intro al.chain_remove) (auto simp flip: ys)
    have "t \<notin> set (?xs @ ys)" using assms(2) ys by (metis Un_iff disjoint_iff distinct.simps(2) distinct_append list.set_intros(1) set_append)
    then have ch': "chain NextAlarm (((read_cell s)(?c := read_cell s (NextAlarm t)))(NextAlarm t := None)) AlarmHead (?xs @ ys)"
      using ch by (subst al.chain_upd) auto
    have "remove1 t A = ?xs @ ys" using assms(2) ys by (metis remove1_split)
    moreover have cell: "?c \<noteq> Head q" "?c \<noteq> NextQ u" "?c \<noteq> LiveHead" "Head q \<noteq> ?c" "NextQ u \<noteq> ?c" for q u
      by (auto simp: end_cell_def)
    ultimately show thesis
      using base ch' by (intro that [OF call]) (simp_all add: rd same_ctx_def del: write_cell.simps)
  next
    case False
    then have e: "?xs = A" by (simp add: takeWhile_eq_all_conv) blast
    have "read_cell ?s ?c = None" unfolding e rd using assms(1) chain_append [of NextAlarm "read_cell s" AlarmHead A "[]"] by simp
    with f have "removeFromAlarmQ t s = Some (Inr ?s)" by (simp add: removeFromAlarmQ_def Let_def)
    with False base rd assms show thesis by (intro that [of ?s]) (simp_all add: remove1_idem)
  qed
qed

lemma sorted_insert:
  assumes "sorted_wrt (\<lambda>x y. k x \<le> k y) xs"
  shows "sorted_wrt (\<lambda>x y. k x \<le> (k y :: int)) (takeWhile (\<lambda>u. \<not> k u > k t) xs @ t # dropWhile (\<lambda>u. \<not> k u > k t) xs)"
  using assms
proof (induction xs)
  case (Cons x xs)
  then have "sorted_wrt (\<lambda>x y. k x \<le> k y) (takeWhile (\<lambda>u. \<not> k u > k t) xs @ t # dropWhile (\<lambda>u. \<not> k u > k t) xs)" by simp
  moreover have "\<forall>y\<in>set (takeWhile (\<lambda>u. \<not> k u > k t) xs) \<union> set (dropWhile (\<lambda>u. \<not> k u > k t) xs). k x \<le> k y"
    using Cons.prems by (auto dest: set_takeWhileD set_dropWhileD)
  ultimately show ?case using Cons.prems by (auto simp: not_less)
qed simp

lemma has_flag_frame [simp]:
  "has_flag m t (write_cell c v s) = has_flag m t s" "has_flag m t (upd_ctx u (\<lambda>c. c\<lparr>time := v1\<rparr>) s) = has_flag m t s"
  "has_flag m t (upd_ctx u (\<lambda>c. c\<lparr>status := v2\<rparr>) s) = has_flag m t s"
  by (simp_all add: has_flag_def del: write_cell.simps)

lemma read_cell_flag [simp]: "read_cell (set_flag m t s) = read_cell s" "read_cell (clear_flag m t s) = read_cell s"
  by (simp_all add: set_flag_def clear_flag_def)

lemma distinct_insert_split: "distinct A \<Longrightarrow> t \<notin> set A \<Longrightarrow> distinct (takeWhile P A @ t # dropWhile P A)"
  by (induction A) (auto dest: set_takeWhileD set_dropWhileD)

lemma addToAlarmQ_effect:
  assumes c: "chain NextAlarm (read_cell s) AlarmHead A" and d: "distinct A" and n: "t \<notin> set A"
    and srt: "sorted_wrt (\<lambda>t u. sint (time (tctx s t)) \<le> sint (time (tctx s u))) A"
  obtains s' A' where "addToAlarmQ now t timeout s = Some (Inr s')" "same_rest s s'" "same_ctx t s s'"
    "chain NextAlarm (read_cell s') AlarmHead A'" "set A' = insert t (set A)" "distinct A'"
    "sorted_wrt (\<lambda>t u. sint (time (tctx s' t)) \<le> sint (time (tctx s' u))) A'"
    "\<forall>q. read_cell s' (Head q) = read_cell s (Head q)" "\<forall>u. read_cell s' (NextQ u) = read_cell s (NextQ u)"
    "status (tctx s' t) = status (tctx s t)" "priority (tctx s' t) = priority (tctx s t)" "time (tctx s' t) = timeout + now"
    "blockqueue (tctx s' t) = blockqueue (tctx s t)" "has_flag THREAD_FLAGS_ALARM t s'"
    "flags (tctx s' t) = flags (tctx s t) OR THREAD_FLAGS_ALARM"
    "threadQtail s' = threadQtail s" "needReschedule s' = needReschedule s"
proof -
  let ?s = "upd_ctx t (\<lambda>c. c\<lparr>time := timeout + now\<rparr>) (set_flag THREAD_FLAGS_ALARM t s)"
  have rd: "read_cell ?s = read_cell s" by (simp add: set_flag_def)
  let ?k = "\<lambda>u. sint (time (tctx ?s u))"
  let ?P = "\<lambda>u. \<not> ?k u > ?k t"
  let ?xs = "takeWhile ?P A" and ?ys = "dropWhile ?P A" let ?c = "end_cell NextAlarm AlarmHead ?xs"
  have f: "find_cell NextAlarm (\<lambda>u. ?k u > ?k t) ?s AlarmHead None = Some (?c, last_of None ?xs)"
    by (rule find_cell_chain) (simp only: rd c)
  let ?s' = "write_cell ?c (Some t) (write_cell (NextAlarm t) (read_cell s ?c) ?s)"
  have call: "addToAlarmQ now t timeout s = Some (Inr ?s')"
    using f by (simp add: addToAlarmQ_def Let_def as_cells rd del: write_cell.simps read_cell.simps)
  have ch: "chain NextAlarm ((read_cell s)(NextAlarm t := read_cell s ?c, ?c := Some t)) AlarmHead (?xs @ t # ?ys)"
    using c d n by (intro al.chain_insert) auto
  have "?k u = sint (time (tctx s u))" if "u \<in> set A" for u using that n by (auto simp: set_flag_def)
  then have "sorted_wrt (\<lambda>t u. ?k t \<le> ?k u) A" using srt by (metis (mono_tags, lifting) sorted_wrt_mono_rel)
  from sorted_insert [OF this, of t] have srt': "sorted_wrt (\<lambda>t u. ?k t \<le> ?k u) (?xs @ t # ?ys)" .
  have set: "set (?xs @ t # ?ys) = insert t (set A)" by (metis Un_insert_right list.simps(15) set_append takeWhile_dropWhile_id)
  have dis: "distinct (?xs @ t # ?ys)" by (rule distinct_insert_split [OF d n])
  have cell: "?c \<noteq> Head q" "?c \<noteq> NextQ u" "?c \<noteq> LiveHead" "Head q \<noteq> ?c" "NextQ u \<noteq> ?c" for q u by (auto simp: end_cell_def)
  have fl: "has_flag THREAD_FLAGS_ALARM t ?s'" using flag_simps(1) [of THREAD_FLAGS_ALARM t s]
    by (simp add: THREAD_FLAGS_ALARM_def del: write_cell.simps flag_simps)
  show thesis
    by (rule that [OF call, of "?xs @ t # ?ys"])
      (use ch set dis srt' fl cell in \<open>simp_all add: rd same_ctx_def set_flag_def del: write_cell.simps\<close>)
qed

section \<open>Leaving and entering queues\<close>

lemma leave_blockqueue_effect:
  assumes q: "queues (read_cell s) Q" and blk: "\<forall>q. t \<in> set (Q q) \<longrightarrow> blockqueue (tctx s t) = Some q"
  obtains s' where "leave_blockqueue t s = Some (Inr s')" "same_rest s s'" "same_ctx t s s'"
    "queues (read_cell s') (\<lambda>q. remove1 t (Q q))" "\<forall>u. read_cell s' (NextAlarm u) = read_cell s (NextAlarm u)"
    "read_cell s' AlarmHead = read_cell s AlarmHead"
    "status (tctx s' t) = status (tctx s t)" "priority (tctx s' t) = priority (tctx s t)" "time (tctx s' t) = time (tctx s t)"
    "flags (tctx s' t) = flags (tctx s t)" "blockqueue (tctx s' t) = None" "threadQtail s' = threadQtail s" "needReschedule s' = needReschedule s"
proof (cases "blockqueue (tctx s t)")
  case None
  with blk have "(\<lambda>q. remove1 t (Q q)) = Q" by (auto simp: remove1_idem)
  with None q show thesis by (intro that [of s]) (simp_all add: leave_blockqueue_def)
next
  case (Some q0)
  have off: "remove1 t (Q q) = Q q" if "q \<noteq> q0" for q using that blk Some by (auto intro: remove1_idem)
  from find_thread [OF q, of t q0] obtain xs where f: "find_cell NextQ (\<lambda>u. u = t) s (Head q0) None = Some (end_cell NextQ (Head q0) xs, last_of None xs)"
    and i: "t \<in> set (Q q0) \<Longrightarrow> \<exists>ys. Q q0 = xs @ t # ys \<and> read_cell s (end_cell NextQ (Head q0) xs) = Some t \<and> remove1 t (Q q0) = xs @ ys"
    and o: "t \<notin> set (Q q0) \<Longrightarrow> xs = Q q0 \<and> read_cell s (end_cell NextQ (Head q0) xs) = None" by blast
  let ?c = "end_cell NextQ (Head q0) xs"
  have cell: "?c \<noteq> AlarmHead" "?c \<noteq> NextAlarm u" "?c \<noteq> LiveHead" "AlarmHead \<noteq> ?c" "NextAlarm u \<noteq> ?c" for u by (auto simp: end_cell_def)
  show thesis
  proof (cases "t \<in> set (Q q0)")
    case True
    with i obtain ys where ys: "Q q0 = xs @ t # ys" "read_cell s ?c = Some t" "remove1 t (Q q0) = xs @ ys" by blast
    let ?s' = "upd_ctx t (\<lambda>c. c\<lparr>blockqueue := None\<rparr>) (write_cell ?c (read_cell s (NextQ t)) s)"
    have call: "leave_blockqueue t s = Some (Inr ?s')"
      using f Some ys(2) by (simp add: leave_blockqueue_def Let_def as_cells del: write_cell.simps read_cell.simps)
    have "(\<lambda>q. remove1 t (Q q)) = Q(q0 := xs @ ys)" using off ys(3) by auto
    with queues_remove [OF q ys(1)] have "queues (read_cell ?s') (\<lambda>q. remove1 t (Q q))" by (simp del: write_cell.simps)
    with cell show thesis by (intro that [OF call]) (simp_all add: same_ctx_def del: write_cell.simps)
  next
    case False
    let ?s' = "upd_ctx t (\<lambda>c. c\<lparr>blockqueue := None\<rparr>) s"
    have call: "leave_blockqueue t s = Some (Inr ?s')" using f Some o [OF False] by (auto simp add: leave_blockqueue_def)
    have "(\<lambda>q. remove1 t (Q q)) = Q" using off False by (auto simp: remove1_idem fun_eq_iff) (metis remove1_idem)
    with q show thesis by (intro that [OF call]) (simp_all add: same_ctx_def)
  qed
qed

lemma enqueue_ready_effect:
  assumes q: "queues (read_cell s) Q" and n: "\<forall>q. t \<notin> set (Q q)"
    and tl: "Q (Ready p) \<noteq> [] \<longrightarrow> threadQtail s p = Some (last (Q (Ready p)))"
  obtains s' where "enqueue_ready t p s = Inr s'" "same_rest s s'"
    "\<forall>u. status (tctx s' u) = status (tctx s u) \<and> priority (tctx s' u) = priority (tctx s u) \<and> time (tctx s' u) = time (tctx s u) \<and>
       blockqueue (tctx s' u) = blockqueue (tctx s u) \<and> flags (tctx s' u) = flags (tctx s u)"
    "queues (read_cell s') (Q(Ready p := Q (Ready p) @ [t]))" "\<forall>u. read_cell s' (NextAlarm u) = read_cell s (NextAlarm u)"
    "read_cell s' AlarmHead = read_cell s AlarmHead" "threadQtail s' = (threadQtail s)(p := Some t)" "needReschedule s' = needReschedule s"
proof -
  let ?c = "end_cell NextQ (Head (Ready p)) (Q (Ready p))"
  let ?s' = "write_cell (NextQ t) None ((write_cell ?c (Some t) s)\<lparr>threadQtail := (threadQtail s)(p := Some t)\<rparr>)"
  have hd: "qhead s (Ready p) = (case Q (Ready p) of [] \<Rightarrow> None | x # _ \<Rightarrow> Some x)" using queues_head [OF q, of "Ready p"] by simp
  have call: "enqueue_ready t p s = Inr ?s'"
  proof (cases "Q (Ready p)")
    case Nil
    with hd show ?thesis by (simp add: enqueue_ready_def)
  next
    case (Cons x xs)
    with hd tl show ?thesis by (simp add: enqueue_ready_def end_cell_def)
  qed
  have cell: "?c \<noteq> AlarmHead" "?c \<noteq> NextAlarm u" "?c \<noteq> LiveHead" "AlarmHead \<noteq> ?c" "NextAlarm u \<noteq> ?c" for u by (auto simp: end_cell_def)
  show thesis
    by (rule that [OF call]) (use queues_append [OF q n] cell in \<open>simp_all del: write_cell.simps\<close>)
qed

section \<open>Resuming\<close>

definition resumed :: "tid \<Rightarrow> nat \<Rightarrow> (qvar \<Rightarrow> tid list) \<Rightarrow> qvar \<Rightarrow> tid list" where
  "resumed t p Q = (\<lambda>q. if q = Ready p then Q q @ [t] else remove1 t (Q q))"

lemma resumed_set: "t \<notin> set (Q (Ready p)) \<Longrightarrow> distinct (Q q) \<Longrightarrow>
    set (resumed t p Q q) = (if q = Ready p then insert t (set (Q q)) else set (Q q) - {t})"
  by (simp add: resumed_def)

lemma queues_okD:
  assumes "queues_ok Q s"
  shows "queues (read_cell s) Q" "Q (Ready p) \<noteq> [] \<Longrightarrow> threadQtail s p = Some (last (Q (Ready p)))"
    "t \<in> set (Q (Ready p)) \<longleftrightarrow> status (tctx s t) = THREAD_RUNNING \<and> priority (tctx s t) = p"
    "t \<in> set (Q q) \<Longrightarrow> \<not> is_ready q \<Longrightarrow> blockqueue (tctx s t) = Some q \<or> (\<exists>ob. q = Waiters ob \<and> blockqueue (tctx s t) = Some (Conds ob))"
    "blockqueue (tctx s t) = Some q \<Longrightarrow> \<not> is_ready q"
  using assms unfolding queues_ok_def by blast+

lemma alarms_okD:
  assumes "alarms_ok Q A s"
  shows "chain NextAlarm (read_cell s) AlarmHead A" "distinct A"
    "sorted_wrt (\<lambda>t u. sint (time (tctx s t)) \<le> sint (time (tctx s u))) A"
    "t \<in> set A \<Longrightarrow> has_flag THREAD_FLAGS_ALARM t s" "t \<in> set A \<Longrightarrow> status (tctx s t) = THREAD_SUSPENDED" "t \<in> set A \<Longrightarrow> t \<notin> set (Q q)"
  using assms unfolding alarms_ok_def by blast+

lemma not_running_not_ready: "queues_ok Q s \<Longrightarrow> status (tctx s t) \<noteq> THREAD_RUNNING \<Longrightarrow> t \<notin> set (Q (Ready p))"
  by (simp add: queues_okD(3))

lemma remove1_sorted: "sorted_wrt P xs \<Longrightarrow> sorted_wrt P (remove1 t xs)"
  by (induction xs) (auto dest: notin_set_remove1 set_mp [OF set_remove1_subset])

text \<open>The alarm half: the thread is taken off the alarm list.\<close>

lemma alarm_off:
  assumes a: "alarms_ok Q A s"
  obtains s' where "(if has_flag THREAD_FLAGS_ALARM t s then removeFromAlarmQ t s else Some (Inr s)) = Some (Inr s')"
    "same_rest s s'" "same_ctx t s s'" "chain NextAlarm (read_cell s') AlarmHead (remove1 t A)"
    "\<forall>q. read_cell s' (Head q) = read_cell s (Head q)" "\<forall>u. read_cell s' (NextQ u) = read_cell s (NextQ u)"
    "status (tctx s' t) = status (tctx s t)" "priority (tctx s' t) = priority (tctx s t)" "time (tctx s' t) = time (tctx s t)"
    "blockqueue (tctx s' t) = blockqueue (tctx s t)" "has_flag THREAD_FLAGS_KILLED t s' \<Longrightarrow> has_flag THREAD_FLAGS_KILLED t s"
    "threadQtail s' = threadQtail s" "needReschedule s' = needReschedule s"
proof (cases "has_flag THREAD_FLAGS_ALARM t s")
  case True
  from alarms_okD(1,2) [OF a] obtain s' where s': "removeFromAlarmQ t s = Some (Inr s')" "same_rest s s'" "same_ctx t s s'"
    "chain NextAlarm (read_cell s') AlarmHead (remove1 t A)"
    "\<forall>q. read_cell s' (Head q) = read_cell s (Head q)" "\<forall>u. read_cell s' (NextQ u) = read_cell s (NextQ u)"
    "status (tctx s' t) = status (tctx s t)" "priority (tctx s' t) = priority (tctx s t)" "time (tctx s' t) = time (tctx s t)"
    "blockqueue (tctx s' t) = blockqueue (tctx s t)" "flags (tctx s' t) = flags (tctx s t) AND NOT THREAD_FLAGS_ALARM"
    "threadQtail s' = threadQtail s" "needReschedule s' = needReschedule s" by (rule removeFromAlarmQ_effect) blast
  have "(a AND NOT THREAD_FLAGS_ALARM) AND THREAD_FLAGS_KILLED = a AND THREAD_FLAGS_KILLED" for a :: uint8
    by (rule bit_word_eqI) (auto simp: bit_simps THREAD_FLAGS_ALARM_def THREAD_FLAGS_KILLED_def)
  with s'(11) have "has_flag THREAD_FLAGS_KILLED t s' = has_flag THREAD_FLAGS_KILLED t s" by (simp add: has_flag_def)
  with True s' show thesis by (intro that [of s']) auto
next
  case False
  then have "t \<notin> set A" using alarms_okD(4) [OF a] by blast
  with False show thesis using alarms_okD(1) [OF a] by (intro that [of s]) (simp_all add: remove1_idem)
qed

lemma iresume_effect:
  assumes q: "queues_ok Q s" and a: "alarms_ok Q A s" and st: "status (tctx s t) \<noteq> THREAD_RUNNING"
    and blk: "\<forall>q. t \<in> set (Q q) \<longrightarrow> blockqueue (tctx s t) = Some q"
  obtains s' where "iresume_body t s = Some (Inr s')" "same_rest s s'"
    "queues_ok (resumed t (priority (tctx s t)) Q) s'" "alarms_ok (resumed t (priority (tctx s t)) Q) (remove1 t A) s'"
    "\<forall>u. status (tctx s' u) = (if u = t then THREAD_RUNNING else status (tctx s u)) \<and> priority (tctx s' u) = priority (tctx s u) \<and> time (tctx s' u) = time (tctx s u)"
    "\<forall>u. has_flag THREAD_FLAGS_KILLED u s' \<longrightarrow> has_flag THREAD_FLAGS_KILLED u s"
    "needReschedule s' \<longleftrightarrow> needReschedule s \<or> Q (Ready (priority (tctx s t))) = [] \<and> priority (tctx s t) > priority (tctx s (currentThread s))"
proof -
  let ?p = "priority (tctx s t)"
  from alarm_off [OF a, of t] obtain s1 where s1: "(if has_flag THREAD_FLAGS_ALARM t s then removeFromAlarmQ t s else Some (Inr s)) = Some (Inr s1)"
    "same_rest s s1" "same_ctx t s s1" "chain NextAlarm (read_cell s1) AlarmHead (remove1 t A)"
    "\<forall>q. read_cell s1 (Head q) = read_cell s (Head q)" "\<forall>u. read_cell s1 (NextQ u) = read_cell s (NextQ u)"
    "status (tctx s1 t) = status (tctx s t)" "priority (tctx s1 t) = ?p" "time (tctx s1 t) = time (tctx s t)"
    "blockqueue (tctx s1 t) = blockqueue (tctx s t)" "has_flag THREAD_FLAGS_KILLED t s1 \<Longrightarrow> has_flag THREAD_FLAGS_KILLED t s"
    "threadQtail s1 = threadQtail s" "needReschedule s1 = needReschedule s" by blast
  have q1: "queues (read_cell s1) Q" using queues_same [OF queues_okD(1) [OF q]] s1(5,6) by blast
  have blk1: "\<forall>q. t \<in> set (Q q) \<longrightarrow> blockqueue (tctx s1 t) = Some q" using blk s1(10) by simp
  from leave_blockqueue_effect [OF q1 blk1] obtain s2 where s2: "leave_blockqueue t s1 = Some (Inr s2)" "same_rest s1 s2" "same_ctx t s1 s2"
    "queues (read_cell s2) (\<lambda>q. remove1 t (Q q))" "\<forall>u. read_cell s2 (NextAlarm u) = read_cell s1 (NextAlarm u)"
    "read_cell s2 AlarmHead = read_cell s1 AlarmHead" "status (tctx s2 t) = status (tctx s1 t)"
    "priority (tctx s2 t) = priority (tctx s1 t)" "time (tctx s2 t) = time (tctx s1 t)"
    "flags (tctx s2 t) = flags (tctx s1 t)" "blockqueue (tctx s2 t) = None" "threadQtail s2 = threadQtail s1" "needReschedule s2 = needReschedule s1" by blast
  let ?s3 = "upd_ctx t (\<lambda>c. c\<lparr>status := THREAD_RUNNING\<rparr>) s2"
  define s3 where "s3 = (if qhead ?s3 (Ready ?p) = None \<and> ?p > priority (tctx ?s3 (currentThread ?s3)) then ?s3\<lparr>needReschedule := True\<rparr> else ?s3)"
  have s3: "read_cell s3 = read_cell s2" "threadQtail s3 = threadQtail s2" "same_rest s2 s3"
    "status (tctx s3 u) = (if u = t then THREAD_RUNNING else status (tctx s2 u))" "priority (tctx s3 u) = priority (tctx s2 u)"
    "time (tctx s3 u) = time (tctx s2 u)" "blockqueue (tctx s3 u) = blockqueue (tctx s2 u)" "flags (tctx s3 u) = flags (tctx s2 u)" for u
    by (simp_all add: s3_def)
  let ?Q = "\<lambda>q. remove1 t (Q q)"
  have dist: "distinct (Q q)" for q using queuesD(2) [OF queues_okD(1) [OF q]] .
  have q3: "queues (read_cell s3) ?Q" using s2(4) by (simp add: s3)
  have out: "\<forall>q. t \<notin> set (?Q q)" using dist by simp
  have nr: "t \<notin> set (Q (Ready p))" for p using not_running_not_ready [OF q st] .
  have rdy: "?Q (Ready p) = Q (Ready p)" for p using nr by (rule remove1_idem)
  have "threadQtail s3 p = threadQtail s p" for p using s1(12) s2(12) by (simp add: s3)
  then have tl: "?Q (Ready ?p) \<noteq> [] \<longrightarrow> threadQtail s3 ?p = Some (last (?Q (Ready ?p)))"
    unfolding rdy using queues_okD(2) [OF q] by metis
  from enqueue_ready_effect [OF q3 out tl] obtain s' where s': "enqueue_ready t ?p s3 = Inr s'" "same_rest s3 s'"
    "\<forall>u. status (tctx s' u) = status (tctx s3 u) \<and> priority (tctx s' u) = priority (tctx s3 u) \<and> time (tctx s' u) = time (tctx s3 u) \<and>
       blockqueue (tctx s' u) = blockqueue (tctx s3 u) \<and> flags (tctx s' u) = flags (tctx s3 u)"
    "queues (read_cell s') (?Q(Ready ?p := ?Q (Ready ?p) @ [t]))" "\<forall>u. read_cell s' (NextAlarm u) = read_cell s3 (NextAlarm u)"
    "read_cell s' AlarmHead = read_cell s3 AlarmHead" "threadQtail s' = (threadQtail s3)(?p := Some t)" "needReschedule s' = needReschedule s3"
    by (rule enqueue_ready_effect [OF q3 out tl]) (rule that)
  let ?R = "resumed t ?p Q"
  have R: "?R = ?Q(Ready ?p := ?Q (Ready ?p) @ [t])" using rdy by (auto simp: resumed_def)
  have mk: "make_ready t s2 = Some (Inr s')" using s'(1) s2(8) s1(8) by (simp add: make_ready_def Let_def s3_def)
  have call: "iresume_body t s = Some (Inr s')" using st s1(1) s2(1) mk by (simp add: iresume_body_def)
  have rest: "same_rest s s'" using s1(2) s2(2) s3(3) s'(2) by (blast intro: same_rest_trans)
  have ctx: "status (tctx s' u) = (if u = t then THREAD_RUNNING else status (tctx s u)) \<and> priority (tctx s' u) = priority (tctx s u) \<and>
      time (tctx s' u) = time (tctx s u) \<and> blockqueue (tctx s' u) = (if u = t then None else blockqueue (tctx s u)) \<and>
      (u \<noteq> t \<longrightarrow> flags (tctx s' u) = flags (tctx s u))" for u
    using s'(3) s2(3,7-11) s1(3,7-10) by (simp add: same_ctx_def s3)
  have kil: "has_flag THREAD_FLAGS_KILLED u s' \<longrightarrow> has_flag THREAD_FLAGS_KILLED u s" for u
    using s1(11) s2(10) s'(3) ctx [of u] by (cases "u = t") (auto simp: has_flag_def s3)
  have qs: "queues (read_cell s') ?R" unfolding R by (rule s'(4))
  have sets: "set (?R q) = (if q = Ready ?p then insert t (set (Q q)) else set (Q q) - {t})" for q
    using resumed_set [of t Q ?p q] nr dist by blast
  have tails: "threadQtail s' p = Some (last (?R (Ready p)))" if "?R (Ready p) \<noteq> []" for p
  proof (cases "p = ?p")
    case False
    then have "?R (Ready p) = Q (Ready p)" using rdy by (simp add: resumed_def)
    with that False s'(7) s1(12) s2(12) queues_okD(2) [OF q, of p] show ?thesis by (simp add: s3)
  qed (simp add: s'(7) resumed_def)
  have ready: "u \<in> set (?R (Ready p)) \<longleftrightarrow> status (tctx s' u) = THREAD_RUNNING \<and> priority (tctx s' u) = p" for u p
    using ctx [of u] queues_okD(3) [OF q, of u p] nr [of p] sets [of "Ready p"] by auto
  have blkd: "blockqueue (tctx s' u) = Some q \<or> (\<exists>ob. q = Waiters ob \<and> blockqueue (tctx s' u) = Some (Conds ob))"
    if "u \<in> set (?R q)" "\<not> is_ready q" for u q
  proof -
    from that sets [of q] have "u \<in> set (Q q)" "u \<noteq> t" by (auto split: if_splits)
    with queues_okD(4) [OF q this(1) that(2)] ctx [of u] show ?thesis by auto
  qed
  have bq: "\<not> is_ready q'" if "blockqueue (tctx s' u) = Some q'" for u q'
    using that ctx [of u] queues_okD(5) [OF q, of u q'] by (auto split: if_splits)
  have Qok: "queues_ok ?R s'" unfolding queues_ok_def using qs tails ready blkd bq by blast
  have "chain NextAlarm (read_cell s') AlarmHead (remove1 t A)"
  proof -
    have "\<forall>u\<in>set (remove1 t A). read_cell s' (NextAlarm u) = read_cell s1 (NextAlarm u)" "read_cell s' AlarmHead = read_cell s1 AlarmHead"
      using s'(5,6) s2(5,6) by (simp_all add: s3)
    then show ?thesis using s1(4) chain_cong [of "read_cell s'" AlarmHead "read_cell s1"] by blast
  qed
  moreover have "has_flag THREAD_FLAGS_ALARM u s' \<and> status (tctx s' u) = THREAD_SUSPENDED \<and> (\<forall>q. u \<notin> set (?R q))" if "u \<in> set (remove1 t A)" for u
  proof -
    have u: "u \<in> set A" "u \<noteq> t" using that alarms_okD(2) [OF a] by auto
    then show ?thesis using alarms_okD(4-6) [OF a u(1)] ctx [of u] sets by (auto simp: has_flag_def)
  qed
  moreover have "sorted_wrt (\<lambda>t u. sint (time (tctx s' t)) \<le> sint (time (tctx s' u))) (remove1 t A)"
    using alarms_okD(3) [OF a] ctx by (simp add: remove1_sorted)
  ultimately have Aok: "alarms_ok ?R (remove1 t A) s'" unfolding alarms_ok_def using alarms_okD(2) [OF a] by simp
  have "qhead s2 (Ready ?p) = None \<longleftrightarrow> Q (Ready ?p) = []" using queues_head_None [OF s2(4), of "Ready ?p"] rdy [of ?p] by simp
  moreover have "currentThread s2 = currentThread s" "priority (tctx s2 (currentThread s)) = priority (tctx s (currentThread s))"
    using s1(2,3,8) s2(2,3,8) by (auto simp: same_rest_def same_ctx_def)
  ultimately have "needReschedule s' \<longleftrightarrow> needReschedule s \<or> Q (Ready ?p) = [] \<and> ?p > priority (tctx s (currentThread s))"
    using s'(8) s2(13) s1(13) by (auto simp: s3_def)
  then show thesis using that [OF call rest Qok Aok] ctx kil by blast
qed

section \<open>Suspending\<close>

lemma leave_ready_effect:
  assumes q: "queues (read_cell s) Q" and p: "priority (tctx s t) = p"
    and tl: "Q (Ready p) \<noteq> [] \<longrightarrow> threadQtail s p = Some (last (Q (Ready p)))" and m: "t \<in> set (Q (Ready p))"
  obtains s' where "leave_ready t s = Some (True, s')" "same_rest s s'"
    "\<forall>u. status (tctx s' u) = status (tctx s u) \<and> priority (tctx s' u) = priority (tctx s u) \<and> time (tctx s' u) = time (tctx s u) \<and>
       blockqueue (tctx s' u) = blockqueue (tctx s u) \<and> flags (tctx s' u) = flags (tctx s u)"
    "queues (read_cell s') (Q(Ready p := remove1 t (Q (Ready p))))" "\<forall>u. read_cell s' (NextAlarm u) = read_cell s (NextAlarm u)"
    "read_cell s' AlarmHead = read_cell s AlarmHead" "\<forall>r. r \<noteq> p \<longrightarrow> threadQtail s' r = threadQtail s r"
    "remove1 t (Q (Ready p)) \<noteq> [] \<longrightarrow> threadQtail s' p = Some (last (remove1 t (Q (Ready p))))" "needReschedule s' = needReschedule s"
proof -
  from find_thread [OF q, of t "Ready p"] m obtain xs ys where f: "find_cell NextQ (\<lambda>u. u = t) s (Head (Ready p)) None =
      Some (end_cell NextQ (Head (Ready p)) xs, last_of None xs)"
    and ys: "Q (Ready p) = xs @ t # ys" "read_cell s (end_cell NextQ (Head (Ready p)) xs) = Some t" "remove1 t (Q (Ready p)) = xs @ ys" by metis
  let ?c = "end_cell NextQ (Head (Ready p)) xs"
  have "chain NextQ (read_cell s) ?c (t # ys)" using queuesD(1) [OF q, of "Ready p"] unfolding ys(1) by (rule chain_append)
  then have nx: "read_cell s (NextQ t) = None \<longleftrightarrow> ys = []" by (cases ys) auto
  let ?s = "write_cell ?c (read_cell s (NextQ t)) s"
  let ?s' = "if ys = [] then ?s\<lparr>threadQtail := (threadQtail ?s)(p := last_of None xs)\<rparr> else ?s"
  have call: "leave_ready t s = Some (True, ?s')"
    using f ys(2) nx p by (simp add: leave_ready_def Let_def as_cells del: write_cell.simps read_cell.simps)
  have cell: "?c \<noteq> AlarmHead" "?c \<noteq> NextAlarm u" "?c \<noteq> LiveHead" "AlarmHead \<noteq> ?c" "NextAlarm u \<noteq> ?c" for u by (auto simp: end_cell_def)
  have tail: "remove1 t (Q (Ready p)) \<noteq> [] \<longrightarrow> threadQtail ?s' p = Some (last (remove1 t (Q (Ready p))))"
    using tl ys(1) unfolding ys(3) by (simp add: last_of_def)
  show thesis
    by (rule that [OF call])
      (use queues_remove [OF q ys(1)] cell tail in \<open>auto simp: ys(3) simp del: write_cell.simps read_cell.simps\<close>)
qed

definition suspended :: "tid \<Rightarrow> nat \<Rightarrow> qvar option \<Rightarrow> (qvar \<Rightarrow> tid list) \<Rightarrow> qvar \<Rightarrow> tid list" where
  "suspended t p queue Q =
     (let Q = Q(Ready p := remove1 t (Q (Ready p))) in case queue of None \<Rightarrow> Q | Some q \<Rightarrow> Q(q := t # Q q))"

lemma suspended_set:
  assumes "distinct (Q (Ready p))" "\<forall>q. queue = Some q \<longrightarrow> \<not> is_ready q"
  shows "set (suspended t p queue Q q) = (if q = Ready p then set (Q q) - {t} else if queue = Some q then insert t (set (Q q)) else set (Q q))"
  using assms by (auto simp: suspended_def Let_def split: option.splits)

lemma enter_opt_effect:
  fixes queue :: "qvar option"
  assumes q: "queues (read_cell s) R" and out: "\<forall>q. t \<notin> set (R q)"
  defines "s' \<equiv> (case queue of None \<Rightarrow> s | Some q \<Rightarrow> enter_queue t q s)"
  shows "same_rest s s'" "queues (read_cell s') (case queue of None \<Rightarrow> R | Some q \<Rightarrow> R(q := t # R q))"
    "\<forall>u. read_cell s' (NextAlarm u) = read_cell s (NextAlarm u)" "read_cell s' AlarmHead = read_cell s AlarmHead"
    "threadQtail s' = threadQtail s" "needReschedule s' = needReschedule s"
    "\<forall>u. status (tctx s' u) = status (tctx s u) \<and> priority (tctx s' u) = priority (tctx s u) \<and> time (tctx s' u) = time (tctx s u) \<and>
       blockqueue (tctx s' u) = (if u = t \<and> queue \<noteq> None then queue else blockqueue (tctx s u)) \<and> flags (tctx s' u) = flags (tctx s u)"
proof -
  have e: "enter_queue t q0 s = upd_ctx t (\<lambda>c. c\<lparr>blockqueue := Some q0\<rparr>) (write_cell (Head q0) (Some t) (write_cell (NextQ t) (read_cell s (Head q0)) s))"
    for q0 by (simp add: enter_queue_def)
  have "queues (read_cell (enter_queue t q0 s)) (R(q0 := t # R q0))" for q0
    by (simp only: e read_cell_ctx read_write_cell) (rule queues_push [OF q out])
  with q show "queues (read_cell s') (case queue of None \<Rightarrow> R | Some q \<Rightarrow> R(q := t # R q))" unfolding s'_def by (cases queue) auto
  show "same_rest s s'" "\<forall>u. read_cell s' (NextAlarm u) = read_cell s (NextAlarm u)"
    "read_cell s' AlarmHead = read_cell s AlarmHead" "threadQtail s' = threadQtail s" "needReschedule s' = needReschedule s"
    "\<forall>u. status (tctx s' u) = status (tctx s u) \<and> priority (tctx s' u) = priority (tctx s u) \<and> time (tctx s' u) = time (tctx s u) \<and>
       blockqueue (tctx s' u) = (if u = t \<and> queue \<noteq> None then queue else blockqueue (tctx s u)) \<and> flags (tctx s' u) = flags (tctx s u)"
    unfolding s'_def by (cases queue; simp add: e del: write_cell.simps read_cell.simps)+
qed

lemma suspend_effect:
  assumes q: "queues_ok Q s" and a: "alarms_ok Q A s" and st: "status (tctx s t) = THREAD_RUNNING"
    and qu: "\<forall>q. queue = Some q \<longrightarrow> \<not> is_ready q \<and> \<not> sint timeout > 0"
  obtains s' A' where "suspend_body now t queue timeout s = Some (Inr (True, s'))" "same_rest s s'"
    "queues_ok (suspended t (priority (tctx s t)) queue Q) s'" "alarms_ok (suspended t (priority (tctx s t)) queue Q) A' s'"
    "\<forall>u. status (tctx s' u) = (if u = t then THREAD_SUSPENDED else status (tctx s u)) \<and> priority (tctx s' u) = priority (tctx s u)"
    "\<forall>u. has_flag THREAD_FLAGS_KILLED u s' \<longrightarrow> has_flag THREAD_FLAGS_KILLED u s" "set A' \<subseteq> insert t (set A)"
    "needReschedule s' = needReschedule s"
proof -
  let ?p = "priority (tctx s t)" let ?R = "Q(Ready ?p := remove1 t (Q (Ready ?p)))" let ?S = "suspended t ?p queue Q"
  let ?s1 = "upd_ctx t (\<lambda>c. c\<lparr>status := THREAD_SUSPENDED\<rparr>) s"
  have tm: "t \<in> set (Q (Ready ?p))" using queues_okD(3) [OF q] st by simp
  have dist: "distinct (Q q)" for q using queuesD(2) [OF queues_okD(1) [OF q]] .
  have one: "q = Ready ?p" if "t \<in> set (Q q)" for q using queuesD(3) [OF queues_okD(1) [OF q] that tm] .
  have tA: "t \<notin> set A" using alarms_okD(5) [OF a, of t] st by auto
  have q1: "queues (read_cell ?s1) Q" "priority (tctx ?s1 t) = ?p" "Q (Ready ?p) \<noteq> [] \<longrightarrow> threadQtail ?s1 ?p = Some (last (Q (Ready ?p)))"
    using queues_okD(1,2) [OF q] by simp_all
  obtain s2 where s2: "leave_ready t ?s1 = Some (True, s2)" "same_rest ?s1 s2"
    "\<forall>u. status (tctx s2 u) = status (tctx ?s1 u) \<and> priority (tctx s2 u) = priority (tctx ?s1 u) \<and> time (tctx s2 u) = time (tctx ?s1 u) \<and>
       blockqueue (tctx s2 u) = blockqueue (tctx ?s1 u) \<and> flags (tctx s2 u) = flags (tctx ?s1 u)"
    "queues (read_cell s2) ?R" "\<forall>u. read_cell s2 (NextAlarm u) = read_cell ?s1 (NextAlarm u)"
    "read_cell s2 AlarmHead = read_cell ?s1 AlarmHead" "\<forall>r. r \<noteq> ?p \<longrightarrow> threadQtail s2 r = threadQtail ?s1 r"
    "remove1 t (Q (Ready ?p)) \<noteq> [] \<longrightarrow> threadQtail s2 ?p = Some (last (remove1 t (Q (Ready ?p))))" "needReschedule s2 = needReschedule ?s1"
    by (rule leave_ready_effect [OF q1 tm]) (rule that)
  define s3 where "s3 = (case queue of None \<Rightarrow> s2 | Some q \<Rightarrow> enter_queue t q s2)"
  have out: "\<forall>q. t \<notin> set (?R q)" using one dist by auto
  note s3 = enter_opt_effect [OF s2(4) out, of queue, folded s3_def suspended_def [unfolded Let_def]]
  have chA: "chain NextAlarm (read_cell s3) AlarmHead A"
    using alarms_okD(1) [OF a] s3(3,4) s2(5,6) by (subst chain_cong [of _ _ "read_cell s"]) auto
  have srt: "sorted_wrt (\<lambda>t u. sint (time (tctx s3 t)) \<le> sint (time (tctx s3 u))) A"
    using alarms_okD(3) [OF a] s3(7) s2(3) by (auto elim!: sorted_wrt_mono_rel [rotated])
  obtain s' A' where s': "(if sint timeout > 0 then addToAlarmQ now t timeout s3 else Some (Inr s3)) = Some (Inr s')" "same_rest s3 s'" "same_ctx t s3 s'"
    "chain NextAlarm (read_cell s') AlarmHead A'" "distinct A'" "set A' = (if sint timeout > 0 then insert t (set A) else set A)"
    "sorted_wrt (\<lambda>t u. sint (time (tctx s' t)) \<le> sint (time (tctx s' u))) A'"
    "\<forall>q. read_cell s' (Head q) = read_cell s3 (Head q)" "\<forall>u. read_cell s' (NextQ u) = read_cell s3 (NextQ u)"
    "status (tctx s' t) = status (tctx s3 t)" "priority (tctx s' t) = priority (tctx s3 t)" "blockqueue (tctx s' t) = blockqueue (tctx s3 t)"
    "sint timeout > 0 \<Longrightarrow> has_flag THREAD_FLAGS_ALARM t s'" "has_flag THREAD_FLAGS_KILLED t s' \<Longrightarrow> has_flag THREAD_FLAGS_KILLED t s3"
    "threadQtail s' = threadQtail s3" "needReschedule s' = needReschedule s3"
  proof (cases "sint timeout > 0")
    case True
    obtain s' A' where x: "addToAlarmQ now t timeout s3 = Some (Inr s')" "same_rest s3 s'" "same_ctx t s3 s'"
      "chain NextAlarm (read_cell s') AlarmHead A'" "set A' = insert t (set A)" "distinct A'"
      "sorted_wrt (\<lambda>t u. sint (time (tctx s' t)) \<le> sint (time (tctx s' u))) A'"
      "\<forall>q. read_cell s' (Head q) = read_cell s3 (Head q)" "\<forall>u. read_cell s' (NextQ u) = read_cell s3 (NextQ u)"
      "status (tctx s' t) = status (tctx s3 t)" "priority (tctx s' t) = priority (tctx s3 t)" "time (tctx s' t) = timeout + now"
      "blockqueue (tctx s' t) = blockqueue (tctx s3 t)" "has_flag THREAD_FLAGS_ALARM t s'"
      "flags (tctx s' t) = flags (tctx s3 t) OR THREAD_FLAGS_ALARM"
      "threadQtail s' = threadQtail s3" "needReschedule s' = needReschedule s3"
      by (rule addToAlarmQ_effect [OF chA alarms_okD(2) [OF a] tA srt]) (rule that)
    have "(a OR THREAD_FLAGS_ALARM) AND THREAD_FLAGS_KILLED = a AND THREAD_FLAGS_KILLED" for a :: uint8
      by (rule bit_word_eqI) (auto simp: bit_simps THREAD_FLAGS_ALARM_def THREAD_FLAGS_KILLED_def)
    with x(15) have k: "has_flag THREAD_FLAGS_KILLED t s' = has_flag THREAD_FLAGS_KILLED t s3" by (simp add: has_flag_def)
    show thesis by (rule that [of s' A']) (use True x k in simp_all)
  next
    case False
    show thesis by (rule that [of s3 A]) (use False chA srt alarms_okD(2) [OF a] in simp_all)
  qed
  have call: "suspend_body now t queue timeout s = Some (Inr (True, s'))"
    using st s2(1) s'(1) by (auto simp: suspend_body_def Let_def simp flip: s3_def split: if_splits)
  have "same_rest s ?s1" by simp
  then have rest: "same_rest s s'" using s2(2) s3(1) s'(2) by (blast intro: same_rest_trans)
  have ctx: "status (tctx s' u) = (if u = t then THREAD_SUSPENDED else status (tctx s u)) \<and> priority (tctx s' u) = priority (tctx s u) \<and>
      blockqueue (tctx s' u) = (if u = t \<and> queue \<noteq> None then queue else blockqueue (tctx s u)) \<and>
      (u \<noteq> t \<longrightarrow> time (tctx s' u) = time (tctx s u) \<and> flags (tctx s' u) = flags (tctx s u))" for u
    using s2(3) s3(7) s'(3,10-12) by (cases "u = t") (simp_all add: same_ctx_def)
  have kil: "has_flag THREAD_FLAGS_KILLED u s' \<longrightarrow> has_flag THREAD_FLAGS_KILLED u s" for u
    using s'(14) s3(7) s2(3) ctx [of u] by (cases "u = t") (auto simp: has_flag_def)
  have sets: "set (?S q) = (if q = Ready ?p then set (Q q) - {t} else if queue = Some q then insert t (set (Q q)) else set (Q q))" for q
    using suspended_set [of Q ?p queue t q] dist qu by blast
  have rdy: "?S (Ready p) = (if p = ?p then remove1 t (Q (Ready p)) else Q (Ready p))" for p
    using qu by (auto simp: suspended_def Let_def split: option.splits)
  have qs: "queues (read_cell s') ?S" using queues_same [OF s3(2)] s'(8,9) by blast
  have tails: "threadQtail s' p = Some (last (?S (Ready p)))" if "?S (Ready p) \<noteq> []" for p
    using that s'(15) s3(5) s2(7,8) queues_okD(2) [OF q, of p] unfolding rdy by (auto split: if_splits)
  have ready: "u \<in> set (?S (Ready p)) \<longleftrightarrow> status (tctx s' u) = THREAD_RUNNING \<and> priority (tctx s' u) = p" for u p
    using ctx [of u] queues_okD(3) [OF q, of u p] one [of "Ready p"] sets [of "Ready p"] qu by auto
  have blkd: "blockqueue (tctx s' u) = Some q \<or> (\<exists>ob. q = Waiters ob \<and> blockqueue (tctx s' u) = Some (Conds ob))"
    if "u \<in> set (?S q)" "\<not> is_ready q" for u q
  proof (cases "u = t")
    case True
    with that one [of q] sets [of q] have "queue = Some q" by (auto split: if_splits)
    with True ctx [of u] show ?thesis by simp
  next
    case False
    with that sets [of q] have "u \<in> set (Q q)" by (auto split: if_splits)
    with queues_okD(4) [OF q this that(2)] ctx [of u] False show ?thesis by auto
  qed
  have bq: "\<not> is_ready q'" if "blockqueue (tctx s' u) = Some q'" for u q'
    using that ctx [of u] queues_okD(5) [OF q, of u q'] qu by (auto split: if_splits)
  have Qok: "queues_ok ?S s'" unfolding queues_ok_def using qs tails ready blkd bq by blast
  have "has_flag THREAD_FLAGS_ALARM u s' \<and> status (tctx s' u) = THREAD_SUSPENDED \<and> (\<forall>q. u \<notin> set (?S q))" if "u \<in> set A'" for u
  proof (cases "u = t")
    case True
    with that s'(6) tA have to: "sint timeout > 0" by (auto split: if_splits)
    then have "queue = None" using qu by auto
    with True to s'(13) ctx [of u] sets one show ?thesis by auto
  next
    case False
    with that s'(6) have u: "u \<in> set A" by (auto split: if_splits)
    with False show ?thesis using alarms_okD(4-6) [OF a u] ctx [of u] sets by (auto simp: has_flag_def)
  qed
  with s'(4,5,7) have Aok: "alarms_ok ?S A' s'" unfolding alarms_ok_def by blast
  have "set A' \<subseteq> insert t (set A)" using s'(6) by auto
  moreover have "needReschedule s' = needReschedule s" using s'(16) s3(6) s2(9) by simp
  ultimately show thesis using that [OF call rest Qok Aok] ctx kil by blast
qed

section \<open>The choice of the next thread\<close>

lemma highest_ready_SomeD:
  "highest_ready i s = Some t \<Longrightarrow> \<exists>p. (p = i \<or> MIN_PRIORITY \<le> p \<and> p < i) \<and> qhead s (Ready p) = Some t \<and> (\<forall>r. p < r \<and> r \<le> i \<longrightarrow> qhead s (Ready r) = None)"
proof (induction i s rule: highest_ready.induct)
  case (1 i s)
  show ?case
  proof (cases "qhead s (Ready i)")
    case None
    with "1.prems" have i: "i > MIN_PRIORITY" "highest_ready (i - 1) s = Some t"
      by (auto simp: highest_ready.simps [of i] split: if_splits)
    from "1.IH" [OF None i] obtain p where p: "p = i - 1 \<or> MIN_PRIORITY \<le> p \<and> p < i - 1" "qhead s (Ready p) = Some t"
      "\<forall>r. p < r \<and> r \<le> i - 1 \<longrightarrow> qhead s (Ready r) = None" by blast
    have "MIN_PRIORITY \<le> p \<and> p < i" using p(1) i(1) by auto
    moreover have "qhead s (Ready r) = None" if "p < r" "r \<le> i" for r
      using that None p(3) by (cases "r = i") auto
    ultimately show ?thesis using p(2) by blast
  qed (use "1.prems" in \<open>auto simp: highest_ready.simps [of i]\<close>)
qed

lemma highest_ready_NoneD: "highest_ready i s = None \<Longrightarrow> MIN_PRIORITY \<le> p \<Longrightarrow> p \<le> i \<Longrightarrow> qhead s (Ready p) = None"
proof (induction i s rule: highest_ready.induct)
  case (1 i s)
  from "1.prems"(1) have n: "qhead s (Ready i) = None" by (auto simp: highest_ready.simps [of i] split: option.splits)
  show ?case
  proof (cases "p = i")
    case False
    with "1.prems" have i: "i > MIN_PRIORITY" "p \<le> i - 1" by auto
    with "1.prems"(1) n have "highest_ready (i - 1) s = None" by (simp add: highest_ready.simps [of i])
    from "1.IH" [OF n i(1) this "1.prems"(2) i(2)] show ?thesis .
  qed (use n in simp)
qed

definition prios_ok :: "sched \<Rightarrow> bool" where
  "prios_ok s \<longleftrightarrow> (\<forall>t. status (tctx s t) = THREAD_RUNNING \<longrightarrow> MIN_PRIORITY \<le> priority (tctx s t) \<and> priority (tctx s t) \<le> MAX_PRIORITY)"

text \<open>The current thread is the first of the highest ready queue.\<close>

definition top_ready :: "(qvar \<Rightarrow> tid list) \<Rightarrow> sched \<Rightarrow> bool" where
  "top_ready Q s \<longleftrightarrow> status (tctx s (currentThread s)) = THREAD_RUNNING \<and>
     hd (Q (Ready (priority (tctx s (currentThread s))))) = currentThread s \<and>
     (\<forall>p. p > priority (tctx s (currentThread s)) \<longrightarrow> Q (Ready p) = [])"

lemma ready_empty:
  assumes "queues_ok Q s" "prios_ok s" "\<not> (MIN_PRIORITY \<le> p \<and> p \<le> MAX_PRIORITY)"
  shows "Q (Ready p) = []"
  using assms by (metis hd_in_set prios_ok_def queues_okD(3))

lemma highest_ready_top:
  assumes q: "queues_ok Q s" and p: "prios_ok s" and h: "highest_ready MAX_PRIORITY s = Some t"
  shows "top_ready Q (s\<lparr>currentThread := t\<rparr>)"
proof -
  from highest_ready_SomeD [OF h] obtain r where r: "qhead s (Ready r) = Some t" "\<forall>r'. r < r' \<and> r' \<le> MAX_PRIORITY \<longrightarrow> qhead s (Ready r') = None" by blast
  have hd: "Q (Ready r) \<noteq> []" "hd (Q (Ready r)) = t"
    using queues_head [OF queues_okD(1) [OF q], of "Ready r"] r(1) by (auto split: list.splits)
  then have "t \<in> set (Q (Ready r))" by (metis hd_in_set)
  then have st: "status (tctx s t) = THREAD_RUNNING" "priority (tctx s t) = r" using queues_okD(3) [OF q] by blast+
  moreover have "Q (Ready r') = []" if "r < r'" for r'
  proof (cases "r' \<le> MAX_PRIORITY")
    case True
    with r(2) that have "read_cell s (Head (Ready r')) = None" by simp
    with queues_head_None [OF queues_okD(1) [OF q]] show ?thesis by blast
  qed (use ready_empty [OF q p] in blast)
  ultimately show ?thesis using hd unfolding top_ready_def by simp
qed

lemma highest_ready_none:
  assumes q: "queues_ok Q s" and p: "prios_ok s" and h: "highest_ready MAX_PRIORITY s = None"
  shows "status (tctx s t) \<noteq> THREAD_RUNNING"
proof
  assume "status (tctx s t) = THREAD_RUNNING"
  with p have t: "MIN_PRIORITY \<le> priority (tctx s t)" "priority (tctx s t) \<le> MAX_PRIORITY" "t \<in> set (Q (Ready (priority (tctx s t))))"
    using queues_okD(3) [OF q] by (auto simp: prios_ok_def)
  from highest_ready_NoneD [OF h t(1,2)] have "Q (Ready (priority (tctx s t))) = []"
    using queues_head_None [OF queues_okD(1) [OF q], of "Ready (priority (tctx s t))"] by simp
  with t(3) show False by simp
qed

section \<open>Fields that do not matter to the queues\<close>

lemma queues_ok_frame [simp]:
  "queues_ok Q (s\<lparr>needReschedule := x2\<rparr>) = queues_ok Q s" "queues_ok Q (s\<lparr>currentThread := x3\<rparr>) = queues_ok Q s"
  "queues_ok Q (s\<lparr>blockInts := x4\<rparr>) = queues_ok Q s" "queues_ok Q (s\<lparr>konts := x5\<rparr>) = queues_ok Q s"
  "queues_ok Q (s\<lparr>lock_info := x6\<rparr>) = queues_ok Q s" "queues_ok Q (s\<lparr>lockTable := x7\<rparr>) = queues_ok Q s"
  "queues_ok Q (s\<lparr>raised := x8\<rparr>) = queues_ok Q s" "queues_ok Q (s\<lparr>jpriority := x9\<rparr>) = queues_ok Q s"
  by (simp_all add: queues_ok_def)

lemma alarms_ok_frame [simp]:
  "alarms_ok Q A (s\<lparr>needReschedule := x2\<rparr>) = alarms_ok Q A s" "alarms_ok Q A (s\<lparr>currentThread := x3\<rparr>) = alarms_ok Q A s"
  "alarms_ok Q A (s\<lparr>blockInts := x4\<rparr>) = alarms_ok Q A s" "alarms_ok Q A (s\<lparr>konts := x5\<rparr>) = alarms_ok Q A s"
  "alarms_ok Q A (s\<lparr>lock_info := x6\<rparr>) = alarms_ok Q A s" "alarms_ok Q A (s\<lparr>lockTable := x7\<rparr>) = alarms_ok Q A s"
  "alarms_ok Q A (s\<lparr>raised := x8\<rparr>) = alarms_ok Q A s" "alarms_ok Q A (s\<lparr>jpriority := x9\<rparr>) = alarms_ok Q A s"
  by (simp_all add: alarms_ok_def has_flag_def)

lemma prios_ok_frame [simp]:
  "prios_ok (s\<lparr>needReschedule := x2\<rparr>) = prios_ok s" "prios_ok (s\<lparr>currentThread := x3\<rparr>) = prios_ok s"
  "prios_ok (s\<lparr>blockInts := x4\<rparr>) = prios_ok s" "prios_ok (s\<lparr>konts := x5\<rparr>) = prios_ok s"
  "prios_ok (s\<lparr>lock_info := x6\<rparr>) = prios_ok s" "prios_ok (s\<lparr>lockTable := x7\<rparr>) = prios_ok s"
  "prios_ok (s\<lparr>raised := x8\<rparr>) = prios_ok s" "prios_ok (s\<lparr>jpriority := x9\<rparr>) = prios_ok s"
  by (simp_all add: prios_ok_def)

lemma top_ready_frame [simp]:
  "top_ready Q (s\<lparr>needReschedule := x2\<rparr>) = top_ready Q s"
  "top_ready Q (s\<lparr>blockInts := x4\<rparr>) = top_ready Q s" "top_ready Q (s\<lparr>konts := x5\<rparr>) = top_ready Q s"
  "top_ready Q (s\<lparr>lock_info := x6\<rparr>) = top_ready Q s" "top_ready Q (s\<lparr>lockTable := x7\<rparr>) = top_ready Q s"
  "top_ready Q (s\<lparr>raised := x8\<rparr>) = top_ready Q s" "top_ready Q (s\<lparr>alarmList := x1\<rparr>) = top_ready Q s" "top_ready Q (s\<lparr>jpriority := x9\<rparr>) = top_ready Q s"
  by (simp_all add: top_ready_def)

lemma has_flag_rest [simp]:
  "has_flag m t (s\<lparr>needReschedule := x2\<rparr>) = has_flag m t s" "has_flag m t (s\<lparr>currentThread := x3\<rparr>) = has_flag m t s"
  "has_flag m t (s\<lparr>blockInts := x4\<rparr>) = has_flag m t s" "has_flag m t (s\<lparr>konts := x5\<rparr>) = has_flag m t s"
  "has_flag m t (s\<lparr>lock_info := x6\<rparr>) = has_flag m t s" "has_flag m t (s\<lparr>lockTable := x7\<rparr>) = has_flag m t s"
  by (simp_all add: has_flag_def)

section \<open>Nested resumption\<close>

text \<open>The current thread stays the first of the highest queue, or a reschedule is due.\<close>

definition runs_next :: "(qvar \<Rightarrow> tid list) \<Rightarrow> sched \<Rightarrow> bool" where
  "runs_next Q s \<longleftrightarrow> status (tctx s (currentThread s)) = THREAD_RUNNING \<and> (needReschedule s \<or> top_ready Q s)"

lemma iresume_body_effect:
  assumes q: "queues_ok Q s" and a: "alarms_ok Q A s" and st: "status (tctx s t) \<noteq> THREAD_RUNNING"
    and blk: "\<forall>q. t \<in> set (Q q) \<longrightarrow> blockqueue (tctx s t) = Some q"
  obtains s' where "iresume_body t s = Some (Inr s')" "same_rest s s'"
    "queues_ok (resumed t (priority (tctx s t)) Q) s'" "alarms_ok (resumed t (priority (tctx s t)) Q) (remove1 t A) s'"
    "\<forall>u. status (tctx s' u) = (if u = t then THREAD_RUNNING else status (tctx s u)) \<and> priority (tctx s' u) = priority (tctx s u) \<and> time (tctx s' u) = time (tctx s u)"
    "\<forall>u. has_flag THREAD_FLAGS_KILLED u s' \<longrightarrow> has_flag THREAD_FLAGS_KILLED u s"
    "runs_next Q s \<Longrightarrow> runs_next (resumed t (priority (tctx s t)) Q) s'"
proof -
  let ?p = "priority (tctx s t)" let ?R = "resumed t ?p Q" let ?c = "currentThread s"
  obtain s' where s': "iresume_body t s = Some (Inr s')" "same_rest s s'" "queues_ok ?R s'" "alarms_ok ?R (remove1 t A) s'"
    "\<forall>u. status (tctx s' u) = (if u = t then THREAD_RUNNING else status (tctx s u)) \<and> priority (tctx s' u) = priority (tctx s u) \<and> time (tctx s' u) = time (tctx s u)"
    "\<forall>u. has_flag THREAD_FLAGS_KILLED u s' \<longrightarrow> has_flag THREAD_FLAGS_KILLED u s"
    "needReschedule s' \<longleftrightarrow> needReschedule s \<or> Q (Ready ?p) = [] \<and> ?p > priority (tctx s ?c)"
    by (rule iresume_effect [OF assms]) (rule that)
  have cur: "currentThread s' = ?c" using s'(2) by (simp add: same_rest_def)
  have nxt: "runs_next ?R s'" if r: "runs_next Q s"
  proof -
    have c: "status (tctx s ?c) = THREAD_RUNNING" "needReschedule s \<or> top_ready Q s" using r by (auto simp: runs_next_def)
    then have ne: "?c \<noteq> t" using st by auto
    have "top_ready ?R s'" if "\<not> needReschedule s'"
    proof -
      have tr: "top_ready Q s" and le: "Q (Ready ?p) = [] \<longrightarrow> ?p \<le> priority (tctx s ?c)" using that c(2) s'(7) by auto
      then have pc: "?p \<le> priority (tctx s ?c)" unfolding top_ready_def by (meson not_le)
      have "?c \<in> set (Q (Ready (priority (tctx s ?c))))" using queues_okD(3) [OF q] c(1) by simp
      then have hd: "hd (?R (Ready (priority (tctx s ?c)))) = ?c" using tr ne
        by (cases "Q (Ready (priority (tctx s ?c)))") (auto simp: resumed_def top_ready_def)
      have "?R (Ready p) = []" if "p > priority (tctx s ?c)" for p using that pc tr by (auto simp: resumed_def top_ready_def)
      with hd c(1) ne s'(5) cur show ?thesis by (simp add: top_ready_def)
    qed
    with c(1) ne s'(5) cur show ?thesis by (auto simp: runs_next_def)
  qed
  show thesis by (rule that [OF s'(1-6) nxt])
qed

lemma blockInts_runs_next [simp]: "runs_next Q (s\<lparr>blockInts := b\<rparr>) = runs_next Q s"
  by (simp add: runs_next_def)

lemma iresumeThread_effect:
  assumes q: "queues_ok Q s" and a: "alarms_ok Q A s" and st: "status (tctx s t) \<noteq> THREAD_RUNNING"
    and blk: "\<forall>q. t \<in> set (Q q) \<longrightarrow> blockqueue (tctx s t) = Some q" and b: "1 \<le> blockInts s"
  obtains s' where "iresumeThread t s = Some (Inr s')" "same_rest s s'"
    "queues_ok (resumed t (priority (tctx s t)) Q) s'" "alarms_ok (resumed t (priority (tctx s t)) Q) (remove1 t A) s'"
    "\<forall>u. status (tctx s' u) = (if u = t then THREAD_RUNNING else status (tctx s u)) \<and> priority (tctx s' u) = priority (tctx s u) \<and> time (tctx s' u) = time (tctx s u)"
    "\<forall>u. has_flag THREAD_FLAGS_KILLED u s' \<longrightarrow> has_flag THREAD_FLAGS_KILLED u s"
    "runs_next Q s \<Longrightarrow> runs_next (resumed t (priority (tctx s t)) Q) s'"
proof -
  let ?s = "s\<lparr>blockInts := blockInts s + 1\<rparr>" let ?R = "resumed t (priority (tctx s t)) Q"
  have pre: "queues_ok Q ?s" "alarms_ok Q A ?s" "status (tctx ?s t) \<noteq> THREAD_RUNNING" "\<forall>q. t \<in> set (Q q) \<longrightarrow> blockqueue (tctx ?s t) = Some q"
    using assms by simp_all
  obtain s' where s': "iresume_body t ?s = Some (Inr s')" "same_rest ?s s'" "queues_ok ?R s'" "alarms_ok ?R (remove1 t A) s'"
    "\<forall>u. status (tctx s' u) = (if u = t then THREAD_RUNNING else status (tctx s u)) \<and> priority (tctx s' u) = priority (tctx s u) \<and> time (tctx s' u) = time (tctx s u)"
    "\<forall>u. has_flag THREAD_FLAGS_KILLED u s' \<longrightarrow> has_flag THREAD_FLAGS_KILLED u s" "runs_next Q s \<Longrightarrow> runs_next ?R s'"
    by (rule iresume_body_effect [OF pre]) (rule that, simp_all)
  let ?t = "s'\<lparr>blockInts := blockInts s\<rparr>"
  have bi: "blockInts s' = blockInts s + 1" using s'(2) by (simp add: same_rest_def)
  have call: "iresumeThread t s = Some (Inr ?t)" using s'(1) bi b by (simp add: iresumeThread_def intsDisable_def intsRestore_def)
  have rest: "same_rest s ?t" using s'(2) by (simp add: same_rest_def)
  show thesis by (rule that [OF call rest]) (use s' in simp_all)
qed

section \<open>Yielding and priorities\<close>

definition same_ctxs :: "sched \<Rightarrow> sched \<Rightarrow> bool" where
  "same_ctxs s s' \<longleftrightarrow> (\<forall>u. status (tctx s' u) = status (tctx s u) \<and> priority (tctx s' u) = priority (tctx s u) \<and>
     time (tctx s' u) = time (tctx s u) \<and> blockqueue (tctx s' u) = blockqueue (tctx s u) \<and> flags (tctx s' u) = flags (tctx s u))"

lemma same_ctxs_flag: "same_ctxs s s' \<Longrightarrow> has_flag m u s' = has_flag m u s"
  by (simp add: same_ctxs_def has_flag_def)

text \<open>A move of threads between ready queues, seen from the invariants.\<close>

lemma queues_ok_ready_change:
  assumes q: "queues_ok Q s" and c: "\<forall>u. status (tctx s' u) = status (tctx s u) \<and> blockqueue (tctx s' u) = blockqueue (tctx s u)"
    and qs: "queues (read_cell s') R" and o: "\<forall>q. \<not> is_ready q \<longrightarrow> R q = Q q"
    and tl: "\<forall>p. R (Ready p) \<noteq> [] \<longrightarrow> threadQtail s' p = Some (last (R (Ready p)))"
    and r: "\<forall>u p. u \<in> set (R (Ready p)) \<longleftrightarrow> status (tctx s' u) = THREAD_RUNNING \<and> priority (tctx s' u) = p"
  shows "queues_ok R s'"
proof -
  have "\<forall>t q. t \<in> set (R q) \<longrightarrow> \<not> is_ready q \<longrightarrow>
      blockqueue (tctx s' t) = Some q \<or> (\<exists>ob. q = Waiters ob \<and> blockqueue (tctx s' t) = Some (Conds ob))"
    using o c queues_okD(4) [OF q] by metis
  with qs tl r c queues_okD(5) [OF q] show ?thesis unfolding queues_ok_def by metis
qed

lemma alarms_ok_ready_change:
  assumes a: "alarms_ok Q A s"
    and c: "\<forall>u. u \<in> set A \<longrightarrow> status (tctx s' u) = status (tctx s u) \<and> time (tctx s' u) = time (tctx s u) \<and> flags (tctx s' u) = flags (tctx s u)"
    and n: "\<forall>u. read_cell s' (NextAlarm u) = read_cell s (NextAlarm u)" "read_cell s' AlarmHead = read_cell s AlarmHead"
    and m: "\<forall>u q. u \<in> set A \<longrightarrow> u \<notin> set (R q)"
  shows "alarms_ok R A s'"
proof -
  have "chain NextAlarm (read_cell s') AlarmHead A" using alarms_okD(1) [OF a] n chain_cong [of "read_cell s'" AlarmHead "read_cell s"] by blast
  moreover have "sorted_wrt (\<lambda>t u. sint (time (tctx s' t)) \<le> sint (time (tctx s' u))) A"
    using alarms_okD(3) [OF a] c by (auto elim!: sorted_wrt_mono_rel [rotated])
  ultimately show ?thesis using alarms_okD(2,4,5) [OF a] c m unfolding alarms_ok_def by (auto simp: has_flag_def)
qed

definition yielded :: "nat \<Rightarrow> (qvar \<Rightarrow> tid list) \<Rightarrow> qvar \<Rightarrow> tid list" where
  "yielded p Q = Q(Ready p := tl (Q (Ready p)) @ [hd (Q (Ready p))])"

lemma yield_effect:
  assumes q: "queues_ok Q s" and a: "alarms_ok Q A s" and t: "top_ready Q s"
  obtains s' Q' where "yieldThread s = Inr (intsRestore s')" "same_rest (s\<lparr>blockInts := blockInts s + 1\<rparr>) s'"
    "queues_ok Q' s'" "alarms_ok Q' A s'" "same_ctxs s s'" "runs_next Q' s'" "\<forall>q. \<not> is_ready q \<longrightarrow> Q' q = Q q"
    "\<forall>q. set (Q' q) = set (Q q)"
proof -
  let ?c = "currentThread s" let ?p = "priority (tctx s ?c)" let ?s = "s\<lparr>blockInts := blockInts s + 1\<rparr>"
  from t have run: "status (tctx s ?c) = THREAD_RUNNING" "hd (Q (Ready ?p)) = ?c" by (auto simp: top_ready_def)
  then have "?c \<in> set (Q (Ready ?p))" using queues_okD(3) [OF q] by simp
  with run(2) obtain xs where xs: "Q (Ready ?p) = ?c # xs" by (cases "Q (Ready ?p)") auto
  have hd: "qhead s (Ready ?p) = Some ?c" using queues_head [OF queues_okD(1) [OF q], of "Ready ?p"] xs by simp
  have tl: "threadQtail s ?p = Some (last (Q (Ready ?p)))" using queues_okD(2) [OF q, of ?p] xs by simp
  have dist: "distinct (?c # xs)" using queuesD(2) [OF queues_okD(1) [OF q], of "Ready ?p"] xs by simp
  show thesis
  proof (cases "xs = []")
    case True
    with hd tl xs have "yieldThread s = Inr (intsRestore ?s)" by (simp add: yieldThread_def intsDisable_def Let_def)
    then show thesis using q a t run by (intro that [of ?s Q]) (simp_all add: runs_next_def same_ctxs_def)
  next
    case False
    then have last: "last (Q (Ready ?p)) = last xs" "last xs \<noteq> ?c"
      using dist xs by (simp, metis distinct.simps(2) last_in_set)
    let ?s1 = "write_cell (Head (Ready ?p)) (read_cell s (NextQ ?c)) ?s"
    let ?s2 = "write_cell (NextQ (last xs)) (Some ?c) ?s1"
    let ?s3 = "write_cell (NextQ ?c) None (?s2\<lparr>threadQtail := (threadQtail s)(?p := Some ?c)\<rparr>)"
    let ?s' = "?s3\<lparr>needReschedule := True\<rparr>"
    have call: "yieldThread s = Inr (intsRestore ?s')"
      using hd tl last by (simp add: yieldThread_def intsDisable_def Let_def upd_ctx_def)
    let ?R = "Q(Ready ?p := xs)" let ?Q' = "?R(Ready ?p := ?R (Ready ?p) @ [?c])"
    have r1: "queues ((read_cell s)(Head (Ready ?p) := read_cell s (NextQ ?c))) ?R" by (rule queues_pop [OF queues_okD(1) [OF q] xs])
    have out: "\<forall>q. ?c \<notin> set (?R q)" using queuesD(3) [OF queues_okD(1) [OF q], of ?c "Ready ?p"] dist xs by auto
    have e: "end_cell NextQ (Head (Ready ?p)) (?R (Ready ?p)) = NextQ (last xs)" using False by (simp add: end_cell_def)
    have qs: "queues (read_cell ?s') ?Q'" using queues_append [OF r1 out, of "Ready ?p"] unfolding e
      by (simp only: read_cell_rest read_write_cell)
    have sets: "set (?Q' q) = set (Q q)" for q using xs by auto
    have ctxs: "same_ctxs s ?s'" unfolding same_ctxs_def by (simp del: write_cell.simps)
    have ready: "u \<in> set (?Q' (Ready p)) \<longleftrightarrow> status (tctx ?s' u) = THREAD_RUNNING \<and> priority (tctx ?s' u) = p" for u p
      unfolding sets using queues_okD(3) [OF q, of u p] ctxs unfolding same_ctxs_def by metis
    have tails: "threadQtail ?s' p = Some (last (?Q' (Ready p)))" if "?Q' (Ready p) \<noteq> []" for p
      using that queues_okD(2) [OF q, of p] by (cases "p = ?p") (simp_all del: write_cell.simps)
    have Qok: "queues_ok ?Q' ?s'"
      by (rule queues_ok_ready_change [OF q _ qs]) (use ctxs ready tails in \<open>simp_all add: same_ctxs_def del: write_cell.simps fun_upd_apply\<close>, auto)
    have Aok: "alarms_ok ?Q' A ?s'"
      by (rule alarms_ok_ready_change [OF a]) (use ctxs sets alarms_okD(6) [OF a] in \<open>auto simp: same_ctxs_def simp del: write_cell.simps read_cell.simps\<close>)
    have "runs_next ?Q' ?s'" using run ctxs by (simp add: runs_next_def same_ctxs_def del: write_cell.simps)
    moreover have "same_rest ?s ?s'" by (simp add: same_rest_def upd_ctx_def)
    ultimately show thesis using that [OF call _ Qok Aok ctxs] sets by auto
  qed
qed

definition reprioritised :: "tid \<Rightarrow> nat \<Rightarrow> nat \<Rightarrow> (qvar \<Rightarrow> tid list) \<Rightarrow> qvar \<Rightarrow> tid list" where
  "reprioritised t p prio Q = (let R = Q(Ready p := remove1 t (Q (Ready p))) in R(Ready prio := R (Ready prio) @ [t]))"

lemma setPriority_effect:
  assumes q: "queues_ok Q s" and a: "alarms_ok Q A s" and t: "top_ready Q s" and st: "status (tctx s t) = THREAD_RUNNING"
    and pi: "privateInfo s t \<noteq> 0" and pr: "prio \<le> MAX_PRIORITY"
  obtains s' where "setPriorityThread t prio s = Some (Inr (intsRestore s'))"
    "same_rest (s\<lparr>blockInts := blockInts s + 1, jpriority := (jpriority s)(t := prio)\<rparr>) s'"
    "queues_ok (reprioritised t (priority (tctx s t)) prio Q) s'" "alarms_ok (reprioritised t (priority (tctx s t)) prio Q) A s'"
    "\<forall>u. status (tctx s' u) = status (tctx s u) \<and> priority (tctx s' u) = (if u = t then prio else priority (tctx s u)) \<and> flags (tctx s' u) = flags (tctx s u)"
    "runs_next (reprioritised t (priority (tctx s t)) prio Q) s'"
proof -
  let ?p = "priority (tctx s t)" let ?s = "s\<lparr>blockInts := blockInts s + 1\<rparr>" let ?R = "Q(Ready ?p := remove1 t (Q (Ready ?p)))"
  let ?S = "reprioritised t ?p prio Q" let ?c = "currentThread s"
  have S: "?S = ?R(Ready prio := ?R (Ready prio) @ [t])" by (simp add: reprioritised_def Let_def)
  have tm: "t \<in> set (Q (Ready ?p))" using queues_okD(3) [OF q] st by simp
  have dist: "distinct (Q q)" for q using queuesD(2) [OF queues_okD(1) [OF q]] .
  have one: "q = Ready ?p" if "t \<in> set (Q q)" for q using queuesD(3) [OF queues_okD(1) [OF q] that tm] .
  have q1: "queues (read_cell ?s) Q" "priority (tctx ?s t) = ?p" "Q (Ready ?p) \<noteq> [] \<longrightarrow> threadQtail ?s ?p = Some (last (Q (Ready ?p)))"
    using queues_okD(1,2) [OF q] by simp_all
  obtain s2 where s2: "leave_ready t ?s = Some (True, s2)" "same_rest ?s s2"
    "\<forall>u. status (tctx s2 u) = status (tctx ?s u) \<and> priority (tctx s2 u) = priority (tctx ?s u) \<and> time (tctx s2 u) = time (tctx ?s u) \<and>
       blockqueue (tctx s2 u) = blockqueue (tctx ?s u) \<and> flags (tctx s2 u) = flags (tctx ?s u)"
    "queues (read_cell s2) ?R" "\<forall>u. read_cell s2 (NextAlarm u) = read_cell ?s (NextAlarm u)"
    "read_cell s2 AlarmHead = read_cell ?s AlarmHead" "\<forall>r. r \<noteq> ?p \<longrightarrow> threadQtail s2 r = threadQtail ?s r"
    "remove1 t (Q (Ready ?p)) \<noteq> [] \<longrightarrow> threadQtail s2 ?p = Some (last (remove1 t (Q (Ready ?p))))" "needReschedule s2 = needReschedule ?s"
    by (rule leave_ready_effect [OF q1 tm]) (rule that)
  let ?s3 = "upd_ctx t (\<lambda>c. c\<lparr>priority := prio mod 256\<rparr>) (s2\<lparr>jpriority := (jpriority s2)(t := prio)\<rparr>)"
  have out: "\<forall>q. t \<notin> set (?R q)" using one dist by auto
  have tails2: "?R (Ready p) \<noteq> [] \<longrightarrow> threadQtail s2 p = Some (last (?R (Ready p)))" for p
    using s2(7,8) queues_okD(2) [OF q, of p] by auto
  have q3: "queues (read_cell ?s3) ?R" "?R (Ready prio) \<noteq> [] \<longrightarrow> threadQtail ?s3 prio = Some (last (?R (Ready prio)))"
    using s2(4) tails2 by simp_all
  obtain s4 where s4: "enqueue_ready t prio ?s3 = Inr s4" "same_rest ?s3 s4"
    "\<forall>u. status (tctx s4 u) = status (tctx ?s3 u) \<and> priority (tctx s4 u) = priority (tctx ?s3 u) \<and> time (tctx s4 u) = time (tctx ?s3 u) \<and>
       blockqueue (tctx s4 u) = blockqueue (tctx ?s3 u) \<and> flags (tctx s4 u) = flags (tctx ?s3 u)"
    "queues (read_cell s4) (?R(Ready prio := ?R (Ready prio) @ [t]))" "\<forall>u. read_cell s4 (NextAlarm u) = read_cell ?s3 (NextAlarm u)"
    "read_cell s4 AlarmHead = read_cell ?s3 AlarmHead" "threadQtail s4 = (threadQtail ?s3)(prio := Some t)" "needReschedule s4 = needReschedule ?s3"
    by (rule enqueue_ready_effect [OF q3(1) out q3(2)]) (rule that)
  define s' where "s' = (if t = currentThread s4 \<or> prio > priority (tctx s4 (currentThread s4)) then s4\<lparr>needReschedule := True\<rparr> else s4)"
  have "prio mod 256 = prio" using pr by (simp add: MAX_PRIORITY_def)
  then have ctx: "status (tctx s' u) = status (tctx s u) \<and> priority (tctx s' u) = (if u = t then prio else priority (tctx s u)) \<and>
      time (tctx s' u) = time (tctx s u) \<and> blockqueue (tctx s' u) = blockqueue (tctx s u) \<and> flags (tctx s' u) = flags (tctx s u)" for u
    using s2(3) s4(3) by (simp add: s'_def)
  have "\<not> prio > MAX_PRIORITY" using pr by simp
  then have call: "setPriorityThread t prio s = Some (Inr (intsRestore s'))"
    using pi st s2(1) s4(1) by (simp add: setPriorityThread_def Let_def intsDisable_def s'_def)
  have rest: "same_rest (s\<lparr>blockInts := blockInts s + 1, jpriority := (jpriority s)(t := prio)\<rparr>) s'"
    using s2(2) s4(2) by (simp add: s'_def same_rest_def upd_ctx_def)
  have cur: "currentThread s' = ?c" "currentThread s4 = ?c" using s2(2) s4(2) by (simp_all add: s'_def same_rest_def upd_ctx_def)
  have sets: "set (?S q) = (if q = Ready prio then insert t (set (Q q)) else set (Q q) - {t})" for q
    unfolding S using one dist [of "Ready ?p"] by auto
  have qs: "queues (read_cell s') ?S" unfolding S using s4(4) by (simp add: s'_def)
  have tails: "threadQtail s' p = Some (last (?S (Ready p)))" if "?S (Ready p) \<noteq> []" for p
    using that tails2 [of p] s4(7) unfolding S by (cases "p = prio") (auto simp: s'_def)
  have ready: "u \<in> set (?S (Ready p)) \<longleftrightarrow> status (tctx s' u) = THREAD_RUNNING \<and> priority (tctx s' u) = p" for u p
    using ctx [of u] queues_okD(3) [OF q, of u p] sets [of "Ready p"] st by auto
  have Qok: "queues_ok ?S s'"
    by (rule queues_ok_ready_change [OF q _ qs]) (use ctx tails ready in \<open>auto simp: S\<close>)
  have Aok: "alarms_ok ?S A s'"
  proof (rule alarms_ok_ready_change [OF a])
    have "t \<notin> set A" using alarms_okD(5) [OF a, of t] st by auto
    then show "\<forall>u q. u \<in> set A \<longrightarrow> u \<notin> set (?S q)" using sets alarms_okD(6) [OF a] by auto
  qed (use ctx s2(5,6) s4(5,6) in \<open>auto simp: s'_def\<close>)
  have run: "status (tctx s ?c) = THREAD_RUNNING" using t by (simp add: top_ready_def)
  have "needReschedule s' \<or> top_ready ?S s'"
  proof (cases "t = ?c \<or> prio > priority (tctx s4 ?c)")
    case True
    then show ?thesis by (auto simp: s'_def cur)
  next
    case False
    let ?pc = "priority (tctx s ?c)"
    have le: "prio \<le> ?pc" "t \<noteq> ?c" using False s4(3) s2(3) by auto
    have "?c \<in> set (Q (Ready ?pc))" using queues_okD(3) [OF q] run by simp
    with t obtain xs where xs: "Q (Ready ?pc) = ?c # xs" by (cases "Q (Ready ?pc)") (auto simp: top_ready_def)
    then have "hd (?S (Ready ?pc)) = ?c" using le by (auto simp: S)
    moreover have "?S (Ready p) = []" if "p > ?pc" for p
      using that le t tm by (auto simp: S top_ready_def)
    ultimately show ?thesis using ctx [of ?c] run le by (simp add: top_ready_def cur)
  qed
  then have "runs_next ?S s'" using run ctx [of ?c] by (simp add: runs_next_def cur)
  then show thesis using that [OF call rest Qok Aok] ctx by blast
qed

section \<open>Alarms that go off\<close>

lemma alarmList_frame [simp]:
  "has_flag m t (s\<lparr>alarmList := x\<rparr>) = has_flag m t s" "runs_next Q (s\<lparr>alarmList := x\<rparr>) = runs_next Q s"
  by (simp_all add: has_flag_def runs_next_def)

lemma resumed_same: "\<forall>q. t \<notin> set (Q q) \<Longrightarrow> \<not> is_ready q \<Longrightarrow> resumed t p Q q = Q q"
  by (auto simp: resumed_def remove1_idem)

lemma alarms_ok_tl:
  assumes "alarms_ok Q (t # A) s"
  shows "alarms_ok Q A (s\<lparr>alarmList := nextalarm (tctx s t)\<rparr>)"
proof -
  from alarms_okD(1,2) [OF assms] have c: "chain NextAlarm (read_cell s) (NextAlarm t) A" "distinct (t # A)" by simp_all
  have e: "s\<lparr>alarmList := nextalarm (tctx s t)\<rparr> = write_cell AlarmHead (read_cell s (NextAlarm t)) s" by simp
  have "chain NextAlarm ((read_cell s)(AlarmHead := read_cell s (NextAlarm t))) AlarmHead A"
    using al.chain_remove [of "read_cell s" AlarmHead "[]" t A] alarms_okD(1,2) [OF assms] by auto
  with assms show ?thesis unfolding alarms_ok_def e by (simp add: has_flag_def del: write_cell.simps read_cell.simps)
qed

lemma wake_alarms_effect:
  "queues_ok Q s \<Longrightarrow> alarms_ok Q A s \<Longrightarrow> 1 \<le> blockInts s \<Longrightarrow>
   \<exists>Q' s'. wake_alarms now s = Some (Inr s') \<and> same_rest s s' \<and> queues_ok Q' s' \<and>
     alarms_ok Q' (dropWhile (\<lambda>t. sint (time (tctx s t)) \<le> sint now) A) s' \<and>
     (\<forall>q. \<not> is_ready q \<longrightarrow> Q' q = Q q) \<and>
     (\<forall>u. status (tctx s' u) = (if u \<in> set (takeWhile (\<lambda>t. sint (time (tctx s t)) \<le> sint now) A) then THREAD_RUNNING else status (tctx s u)) \<and>
        priority (tctx s' u) = priority (tctx s u)) \<and>
     (\<forall>u. has_flag THREAD_FLAGS_KILLED u s' \<longrightarrow> has_flag THREAD_FLAGS_KILLED u s) \<and> (runs_next Q s \<longrightarrow> runs_next Q' s')"
proof (induction A arbitrary: Q s)
  case Nil
  then have "alarmList s = None" using alarms_okD(1) [OF Nil(2)] by simp
  then have "wake_alarms now s = Some (Inr s)" by (subst wake_alarms.simps) simp
  with Nil show ?case by (intro exI [of _ Q] exI [of _ s]) simp
next
  case (Cons t A)
  note a = alarms_okD [OF Cons.prems(2)]
  have hd: "alarmList s = Some t" using a(1) by simp
  show ?case
  proof (cases "sint (time (tctx s t)) \<le> sint now")
    case False
    then have "wake_alarms now s = Some (Inr s)" using hd by (subst wake_alarms.simps) simp
    with Cons.prems False show ?thesis by (intro exI [of _ Q] exI [of _ s]) simp
  next
    case True
    let ?s = "s\<lparr>alarmList := nextalarm (tctx s t)\<rparr>" let ?R = "resumed t (priority (tctx s t)) Q"
    have tq: "\<forall>q. t \<notin> set (Q q)" using a(6) by simp
    have qs: "queues_ok Q ?s"
    proof -
      have e: "?s = write_cell AlarmHead (read_cell s (NextAlarm t)) s" by simp
      have "queues (read_cell ?s) Q" unfolding e by (rule queues_same [OF queues_okD(1) [OF Cons.prems(1)]]) (simp_all del: write_cell.simps read_cell.simps)
      with Cons.prems(1) show ?thesis unfolding queues_ok_def by simp
    qed
    have pre: "status (tctx ?s t) \<noteq> THREAD_RUNNING" "\<forall>q. t \<in> set (Q q) \<longrightarrow> blockqueue (tctx ?s t) = Some q" "1 \<le> blockInts ?s"
      using a(5) [of t] tq Cons.prems(3) by simp_all
    have rm: "remove1 t A = A" using a(2) by (simp add: remove1_idem)
    obtain s1 where s1: "iresumeThread t ?s = Some (Inr s1)" "same_rest ?s s1" "queues_ok ?R s1" "alarms_ok ?R A s1"
      "\<forall>u. status (tctx s1 u) = (if u = t then THREAD_RUNNING else status (tctx s u)) \<and> priority (tctx s1 u) = priority (tctx s u) \<and>
         time (tctx s1 u) = time (tctx s u)"
      "\<forall>u. has_flag THREAD_FLAGS_KILLED u s1 \<longrightarrow> has_flag THREAD_FLAGS_KILLED u s" "runs_next Q s \<Longrightarrow> runs_next ?R s1"
      by (rule iresumeThread_effect [OF qs alarms_ok_tl [OF Cons.prems(2)] pre])
        (rule that, simp_all add: rm)
    have r: "same_rest s s1" using s1(2) by (simp add: same_rest_def)
    have b: "1 \<le> blockInts s1" using r Cons.prems(3) by (simp add: same_rest_def)
    have call: "wake_alarms now s = wake_alarms now s1" using hd True s1(1) by (subst wake_alarms.simps) simp
    let ?P = "\<lambda>t. sint (time (tctx s t)) \<le> sint now" and ?P1 = "\<lambda>t. sint (time (tctx s1 t)) \<le> sint now"
    have P: "?P1 = ?P" using s1(5) by simp
    from Cons.IH [OF s1(3,4) b] obtain Q' s' where ih: "wake_alarms now s1 = Some (Inr s')" "same_rest s1 s'" "queues_ok Q' s'"
      "alarms_ok Q' (dropWhile ?P A) s'" "\<forall>q. \<not> is_ready q \<longrightarrow> Q' q = ?R q"
      "\<forall>u. status (tctx s' u) = (if u \<in> set (takeWhile ?P A) then THREAD_RUNNING else status (tctx s1 u)) \<and> priority (tctx s' u) = priority (tctx s1 u)"
      "\<forall>u. has_flag THREAD_FLAGS_KILLED u s' \<longrightarrow> has_flag THREAD_FLAGS_KILLED u s1" "runs_next ?R s1 \<longrightarrow> runs_next Q' s'"
      unfolding P by blast
    have "\<forall>q. \<not> is_ready q \<longrightarrow> Q' q = Q q" using ih(5) resumed_same [OF tq] by simp
    moreover have "same_rest s s'" using r ih(2) by (rule same_rest_trans)
    moreover have "\<forall>u. status (tctx s' u) = (if u \<in> set (takeWhile ?P (t # A)) then THREAD_RUNNING else status (tctx s u)) \<and> priority (tctx s' u) = priority (tctx s u)"
      using ih(6) s1(5) True by simp
    moreover have "dropWhile ?P (t # A) = dropWhile ?P A" using True by simp
    moreover have "\<forall>u. has_flag THREAD_FLAGS_KILLED u s' \<longrightarrow> has_flag THREAD_FLAGS_KILLED u s" using ih(7) s1(6) by blast
    moreover have "runs_next Q s \<longrightarrow> runs_next Q' s'" using ih(8) s1(7) by blast
    ultimately show ?thesis unfolding call using ih(1,3,4) by (intro exI [of _ Q'] exI [of _ s'] conjI) simp_all
  qed
qed

end
