(* ===== verification/Locks.thy ===== *)
theory Locks
  imports Scheduler
begin

text \<open>
  Monitors, from \<^verbatim>\<open>runtime/locks.c\<close> (built with \<^verbatim>\<open>LOCK_OPT\<close> and \<^verbatim>\<open>PRECISE_MONITOREXIT\<close>), the end of a thread
  (\<open>killThread\<close>), and the machine in which threads call them. The lock word of an object has the
  semaphore in the bits 17 to 31, the waiter bit 16 and the thread index of the owner below. The code
  reaches the two halves as \<open>unsigned short\<close>; on the big-endian target the first is the upper one,
  and adding 2 to it adds \<open>0x20000\<close> to the word modulo \<open>2^32\<close>.
\<close>

definition OWNER_ID_MASK :: uint32 where "OWNER_ID_MASK = 0xffff"
definition SEMAPHORE_MASK :: uint32 where "SEMAPHORE_MASK = 0xfffe0000"
definition HAS_WAITERS_MASK :: uint32 where "HAS_WAITERS_MASK = 0x10000"
definition MAXLOCK :: nat where "MAXLOCK = 256"

definition HASHLOCK :: "obj \<Rightarrow> nat" where
  "HASHLOCK a = (a div 8) mod MAXLOCK"

definition set_lock :: "obj \<Rightarrow> uint32 \<Rightarrow> sched \<Rightarrow> sched" where
  "set_lock ob w s = s\<lparr>lock_info := (lock_info s)(ob := w)\<rparr>"

definition set_owner :: "uint16 \<Rightarrow> uint32 \<Rightarrow> uint32" where
  "set_owner i w = (w AND NOT OWNER_ID_MASK) OR ucast i"

definition currentThreadID :: "sched \<Rightarrow> uint16" where
  "currentThreadID s = of_nat (privateInfo s (currentThread s))"

definition is_owner :: "sched \<Rightarrow> obj \<Rightarrow> bool" where
  "is_owner s ob \<longleftrightarrow> lock_info s ob AND OWNER_ID_MASK = ucast (currentThreadID s)"

text \<open>The lock record of an object; a new one has empty queues.\<close>

definition getLock :: "obj \<Rightarrow> sched \<Rightarrow> sched" where
  "getLock ob s =
     (let h = HASHLOCK ob in
      if ob \<in> set (lockTable s h) then s
      else s\<lparr>lockTable := (lockTable s)(h := ob # lockTable s h),
             qhead := (qhead s)(Waiters ob := None, Conds ob := None)\<rparr>)"

definition wait_in_queue :: "jlong \<Rightarrow> obj \<Rightarrow> sched \<Rightarrow> sched result option" where
  "wait_in_queue now ob s =
     (let s = intsDisable s;
          s = set_lock ob (lock_info s ob OR HAS_WAITERS_MASK) s;
          s = getLock ob s
      in suspendOnQThread now (currentThread s) (Some (Waiters ob)) 0 False (push_kont K_intsRestore s))"

text \<open>One round of the loop of \<open>_lockMutex\<close>, and whether it ends with the lock taken.\<close>

definition lockMutex :: "jlong \<Rightarrow> obj \<Rightarrow> sched \<Rightarrow> (bool \<times> sched) result option" where
  "lockMutex now ob s =
     (if lock_info s ob AND SEMAPHORE_MASK = 0
      then Some (Inr (True, set_lock ob (set_owner (currentThreadID s) (lock_info s ob) + 0x20000) s))
      else if is_owner s ob then Some (Inr (True, set_lock ob (lock_info s ob + 0x20000) s))
      else and_then (wait_in_queue now ob (push_kont (K_lock ob) s)) (\<lambda>s. Some (Inr (False, s))))"

text \<open>Take the first waiter out of the queue.\<close>

definition pop_waiter :: "obj \<Rightarrow> sched \<Rightarrow> (tid \<times> sched) result" where
  "pop_waiter ob s =
     (case qhead s (Waiters ob) of
        None \<Rightarrow> Inl C_undefined
      | Some t \<Rightarrow> Inr (t, s\<lparr>qhead := (qhead s)(Waiters ob := nextQ (tctx s t))\<rparr>))"

definition wakeup_waiter :: "obj \<Rightarrow> sched \<Rightarrow> sched result option" where
  "wakeup_waiter ob s =
     (let s = getLock ob (intsDisable s) in
      and_then (Some (pop_waiter ob s)) (\<lambda>(t, s).
      and_then (iresumeThread t (if qhead s (Waiters ob) = None then set_lock ob 0 s else s)) (\<lambda>s.
      Some (Inr (intsRestore s)))))"

text \<open>\<open>_unlockMutex\<close>, and whether it raised no exception.\<close>

definition unlockMutex :: "obj \<Rightarrow> sched \<Rightarrow> (bool \<times> sched) result option" where
  "unlockMutex ob s =
     (if drop_bit 16 (lock_info s ob) \<ge> 2 then
        let s = set_lock ob (lock_info s ob - 0x20000) s
        in if drop_bit 16 (lock_info s ob) \<noteq> 1 then Some (Inr (True, s))
           else and_then (wakeup_waiter ob s) (\<lambda>s. Some (Inr (True, s)))
      else Some (Inr (False, throw IllegalMonitorStateException s)))"

text \<open>\<open>_waitCond\<close> up to the first suspension.\<close>

definition waitCond :: "jlong \<Rightarrow> obj \<Rightarrow> jlong \<Rightarrow> sched \<Rightarrow> (bool \<times> sched) result option" where
  "waitCond now ob timeout s =
     (if \<not> is_owner s ob then Some (Inr (False, throw IllegalMonitorStateException s))
      else
        let w = lock_info s ob;
            s = set_lock ob (w AND NOT (SEMAPHORE_MASK OR OWNER_ID_MASK)) s;
            s = getLock ob (intsDisable s)
        in and_then
             (if qhead s (Waiters ob) \<noteq> None then
                and_then (Some (pop_waiter ob s)) (\<lambda>(t, s).
                iresumeThread t (set_lock ob (if qhead s (Waiters ob) = None then 0 else HAS_WAITERS_MASK) s))
              else Some (Inr s)) (\<lambda>s.
           and_then (suspendOnQThread now (currentThread s) (Some (Conds ob)) timeout True (push_kont (K_wait ob w) s)) (\<lambda>s.
           Some (Inr (True, s)))))"

text \<open>
  The rest of \<open>_waitCond\<close> when the thread runs again: the loop, and after the interrupts are restored
  the lock word.
\<close>

definition after_wait :: "jlong \<Rightarrow> obj \<Rightarrow> uint32 \<Rightarrow> sched \<Rightarrow> sched result option" where
  "after_wait now ob w s =
     (if lock_info s ob AND SEMAPHORE_MASK > 0 then
        let s = set_lock ob (lock_info s ob OR HAS_WAITERS_MASK) s
        in suspendOnQThread now (currentThread s) (Some (Waiters ob)) 0 True (push_kont (K_wait ob w) s)
      else Some (Inr (intsRestore (push_kont (K_waited ob w) s))))"

definition finish_wait :: "obj \<Rightarrow> uint32 \<Rightarrow> sched \<Rightarrow> sched" where
  "finish_wait ob w s =
     (let s = set_lock ob w s; t = currentThread s in
      if has_flag THREAD_FLAGS_KILLED t s \<and> blockInts s = 0
      then throw ThreadDeath ((clear_flag THREAD_FLAGS_KILLED t s)\<lparr>blockInts := 0\<rparr>)
      else if qhead s (Waiters ob) \<noteq> None then set_lock ob (lock_info s ob OR HAS_WAITERS_MASK) s
      else set_lock ob (lock_info s ob AND NOT HAS_WAITERS_MASK) s)"

definition signalCond :: "obj \<Rightarrow> sched \<Rightarrow> (bool \<times> sched) result" where
  "signalCond ob s =
     (if \<not> is_owner s ob then Inr (False, throw IllegalMonitorStateException s)
      else
        let s = getLock ob (intsDisable s) in
        case qhead s (Conds ob) of
          None \<Rightarrow> Inr (True, intsRestore s)
        | Some t \<Rightarrow>
            let s = s\<lparr>qhead := (qhead s)(Conds ob := nextQ (tctx s t))\<rparr>;
                s = upd_ctx t (\<lambda>c. c\<lparr>nextQ := qhead s (Waiters ob)\<rparr>) s;
                s = s\<lparr>qhead := (qhead s)(Waiters ob := Some t)\<rparr>
            in Inr (True, intsRestore (set_lock ob (lock_info s ob OR HAS_WAITERS_MASK) s)))"

definition broadcastCond :: "obj \<Rightarrow> sched \<Rightarrow> (bool \<times> sched) result option" where
  "broadcastCond ob s =
     (if \<not> is_owner s ob then Some (Inr (False, throw IllegalMonitorStateException s))
      else
        let s = getLock ob (intsDisable s) in
        if qhead s (Conds ob) \<noteq> None then
          run_then (find_cell NextQ (\<lambda>_. False) s (Head (Conds ob)) None) (\<lambda>(p, _).
          let s = write_cell p (qhead s (Waiters ob)) s;
              s = s\<lparr>qhead := (qhead s)(Waiters ob := qhead s (Conds ob))\<rparr>;
              s = s\<lparr>qhead := (qhead s)(Conds ob := None)\<rparr>
          in Some (Inr (True, intsRestore (set_lock ob (lock_info s ob OR HAS_WAITERS_MASK) s))))
        else Some (Inr (True, intsRestore s)))"

section \<open>The end of a thread\<close>

text \<open>
  \<open>killThread\<close>: the thread locks its own object first; \<open>K_kill\<close> is what follows. The removal from the
  thread group is a call of Java code and is left out.
\<close>

definition killThread :: "jlong \<Rightarrow> sched \<Rightarrow> (bool \<times> sched) result option" where
  "killThread now s = lockMutex now (currentThread s) (push_kont K_kill (intsDisable s))"

definition leave_runq :: "sched \<Rightarrow> sched option" where
  "leave_runq s =
     (let t = currentThread s in
      if status (tctx s t) = THREAD_RUNNING then
        (case find_cell NextQ (\<lambda>u. u = t) s (Head (Ready (priority (tctx s t)))) None of
           None \<Rightarrow> None
         | Some (p, _) \<Rightarrow> Some (if read_cell s p = Some t then write_cell p (nextQ (tctx s t)) s else s))
      else Some s)"

definition leave_live :: "sched \<Rightarrow> sched option" where
  "leave_live s =
     (let t = currentThread s in
      case find_cell NextLive (\<lambda>u. u = t) s LiveHead None of
        None \<Rightarrow> None
      | Some (p, _) \<Rightarrow> Some (if read_cell s p = Some t then write_cell p (nextlive (tctx s t)) s else s))"

definition kill_rest :: "sched \<Rightarrow> sched result option" where
  "kill_rest s =
     (let t = currentThread s in
      if status (tctx s t) \<noteq> THREAD_DEAD then
        run_then (leave_runq s) (\<lambda>s.
        let s = s\<lparr>talive := talive s - 1, tdaemon := (if daemon s t then tdaemon s - 1 else tdaemon s)\<rparr>
        in if talive s = tdaemon s then Some (Inl VM_exit)
           else run_then (leave_live s) (\<lambda>s.
                Some (Inr (intsRestore (upd_ctx t (\<lambda>c. c\<lparr>status := THREAD_DEAD\<rparr>) (s\<lparr>needReschedule := True, blockInts := 1\<rparr>))))))
      else Some (Inr (intsRestore s)))"


section \<open>The machine\<close>

text \<open>
  Threads in Java code call the runtime; a thread with suspended frames goes on with the innermost
  one. A signal of the alarm clock arrives while the current thread runs Java code or waits
  in \<open>select\<close>, not inside the runtime. The second component of a machine state is not part of the
  program: it counts for each thread and object the monitor entries the thread has made and not left.
\<close>

datatype op =
    OLock obj | OUnlock obj | OWait obj jlong | OSignal obj | OBroadcast obj
  | OYield | OSleep jlong | OSetPriority tid nat | OStart tid

type_synonym holds = "tid \<Rightarrow> obj \<Rightarrow> nat"

definition set_hold :: "tid \<Rightarrow> obj \<Rightarrow> nat \<Rightarrow> holds \<Rightarrow> holds" where
  "set_hold t ob n h = h(t := (h t)(ob := n))"

definition sem :: "uint32 \<Rightarrow> nat" where
  "sem w = unat w div 131072"

definition locking :: "jlong \<Rightarrow> obj \<Rightarrow> sched \<times> holds \<Rightarrow> (sched \<times> holds) result option" where
  "locking now ob sh =
     (case sh of (s, h) \<Rightarrow>
        let c = currentThread s in
        and_then (lockMutex now ob s) (\<lambda>(got, s).
        Some (Inr (s, if got then set_hold c ob (h c ob + 1) h else h))))"

fun perform :: "jlong \<Rightarrow> op \<Rightarrow> sched \<times> holds \<Rightarrow> (sched \<times> holds) result option" where
  "perform now (OLock ob) sh = locking now ob sh"
| "perform now (OUnlock ob) (s, h) =
     (let c = currentThread s in
      and_then (unlockMutex ob s) (\<lambda>(ok, s). Some (Inr (s, if ok then set_hold c ob (h c ob - 1) h else h))))"
| "perform now (OWait ob timeout) (s, h) =
     (let c = currentThread s in
      and_then (waitCond now ob timeout s) (\<lambda>(ok, s). Some (Inr (s, if ok then set_hold c ob 0 h else h))))"
| "perform now (OSignal ob) (s, h) = and_then (Some (signalCond ob s)) (\<lambda>(_, s). Some (Inr (s, h)))"
| "perform now (OBroadcast ob) (s, h) = and_then (broadcastCond ob s) (\<lambda>(_, s). Some (Inr (s, h)))"
| "perform now OYield (s, h) = and_then (Some (yieldThread s)) (\<lambda>s. Some (Inr (s, h)))"
| "perform now (OSleep timeout) (s, h) = and_then (sleepThread now timeout s) (\<lambda>s. Some (Inr (s, h)))"
| "perform now (OSetPriority t p) (s, h) = and_then (setPriorityThread t p s) (\<lambda>s. Some (Inr (s, h)))"
| "perform now (OStart t) (s, h) = and_then (startThread t s) (\<lambda>s. Some (Inr (s, h)))"

fun run_kont :: "jlong \<Rightarrow> select_answer \<Rightarrow> int \<Rightarrow> kont \<Rightarrow> sched \<times> holds \<Rightarrow> (sched \<times> holds) result option" where
  "run_kont now ans r (K_switched wait b) (s, h) = Some (Inr (after_switch wait b s, h))"
| "run_kont now ans r (K_resched wait b) (s, h) =
     and_then (checkEvents b ans s) (\<lambda>s. Some (Inr (resched_round wait b s, h)))"
| "run_kont now ans r K_intsRestore (s, h) = Some (Inr (intsRestore s, h))"
| "run_kont now ans r K_decInts (s, h) = Some (Inr (s\<lparr>blockInts := blockInts s - 1\<rparr>, h))"
| "run_kont now ans r (K_lock ob) sh = locking now ob sh"
| "run_kont now ans r (K_wait ob w) (s, h) = and_then (after_wait now ob w s) (\<lambda>s. Some (Inr (s, h)))"
| "run_kont now ans r (K_waited ob w) (s, h) = Some (Inr (finish_wait ob w s, set_hold (currentThread s) ob (sem w) h))"
| "run_kont now ans r (K_file f rd) (s, h) = and_then (after_block now f rd r s) (\<lambda>(_, s). Some (Inr (s, h)))"
| "run_kont now ans r K_kill (s, h) =
     (let c = currentThread s in
      and_then (broadcastCond c s) (\<lambda>(ok, s).
      if \<not> ok then Some (Inr (s, h))
      else and_then (unlockMutex c s) (\<lambda>(ok, s).
           if \<not> ok then Some (Inr (s, h))
           else and_then (kill_rest s) (\<lambda>s. Some (Inr (s, set_hold c c (h c c - 1) h))))))"

text \<open>
  Programs that use monitors as compiled Java code does: they leave and wait on monitors they have
  entered, with fewer than \<open>2^15\<close> nested entries, wait without a timeout, set priorities in the legal
  range, and start fresh threads. Threads are not stopped or suspended by others and do not end.
\<close>

fun allowed :: "op \<Rightarrow> sched \<times> holds \<Rightarrow> bool" where
  "allowed (OLock ob) (s, h) \<longleftrightarrow> h (currentThread s) ob < 32767"
| "allowed (OUnlock ob) (s, h) \<longleftrightarrow> 0 < h (currentThread s) ob"
| "allowed (OWait ob timeout) (s, h) \<longleftrightarrow> 0 < h (currentThread s) ob \<and> \<not> sint timeout > 0"
| "allowed (OSignal ob) (s, h) \<longleftrightarrow> 0 < h (currentThread s) ob"
| "allowed (OBroadcast ob) (s, h) \<longleftrightarrow> 0 < h (currentThread s) ob"
| "allowed OYield (s, h) \<longleftrightarrow> True"
| "allowed (OSleep timeout) (s, h) \<longleftrightarrow> True"
| "allowed (OSetPriority t p) (s, h) \<longleftrightarrow> privateInfo s t \<noteq> 0 \<and> MIN_PRIORITY \<le> p \<and> p \<le> MAX_PRIORITY"
| "allowed (OStart t) (s, h) \<longleftrightarrow> privateInfo s t = 0 \<and> MIN_PRIORITY \<le> jpriority s t \<and> jpriority s t \<le> MAX_PRIORITY \<and>
     numberOfThreads s < 65000"

inductive step :: "sched \<times> holds \<Rightarrow> sched \<times> holds \<Rightarrow> bool" where
  user: "konts s (currentThread s) = [] \<Longrightarrow> allowed op (s, h) \<Longrightarrow> perform now op (s, h) = Some (Inr sh') \<Longrightarrow> step (s, h) sh'"
| frame: "konts s (currentThread s) = k # ks \<Longrightarrow>
    run_kont now ans r k (s\<lparr>konts := (konts s)(currentThread s := ks)\<rparr>, h) = Some (Inr sh') \<Longrightarrow> step (s, h) sh'"
| alarm: "konts s (currentThread s) = [] \<or> (\<exists>w b ks. konts s (currentThread s) = K_resched w b # ks) \<Longrightarrow>
    alarmException now s = Some (Inr s') \<Longrightarrow> step (s, h) (s', h)"

text \<open>The first thread, as \<open>createInitialThread\<close> makes it.\<close>

definition blank :: sched where
  "blank = \<lparr>tctx = (\<lambda>_. \<lparr>status = THREAD_SUSPENDED, priority = 0, time = 0, nextQ = None, nextlive = None, nextalarm = None,
       blockqueue = None, flags = 0\<rparr>),
     privateInfo = (\<lambda>_. 0), jpriority = (\<lambda>_. 5), daemon = (\<lambda>_. False), qhead = (\<lambda>_. None), threadQtail = (\<lambda>_. None),
     alarmList = None, liveThreads = None, currentThread = 0, blockInts = 0, needReschedule = False, talive = 0, tdaemon = 0,
     maxFd = - 1, readsPending = (\<lambda>_. False), writesPending = (\<lambda>_. False), threadContext = [], numberOfThreads = 0, ntid = 0,
     lock_info = (\<lambda>_. 0), lockTable = (\<lambda>_. []), konts = (\<lambda>_. []), raised = (\<lambda>_. None)\<rparr>"

definition createInitialThread :: "tid \<Rightarrow> sched \<Rightarrow> sched result option" where
  "createInitialThread t s =
     run_then (allocThreadCtx t (s\<lparr>currentThread := t, jpriority := (jpriority s)(t := 5)\<rparr>)) (\<lambda>s.
     let s = upd_ctx t (\<lambda>c. c\<lparr>priority := jpriority s t mod 256, status := THREAD_SUSPENDED, flags := 1, nextlive := liveThreads s\<rparr>) s;
         s = s\<lparr>liveThreads := Some t, talive := talive s + 1\<rparr>
     in iresumeThread t s)"

definition reachable :: "sched \<times> holds \<Rightarrow> bool" where
  "reachable sh \<longleftrightarrow> (\<exists>t s0. createInitialThread t blank = Some (Inr s0) \<and> step\<^sup>*\<^sup>* (s0, \<lambda>_ _. 0) sh)"

section \<open>Lock words\<close>

definition waiter_bit :: "uint32 \<Rightarrow> bool" where
  "waiter_bit w \<longleftrightarrow> bit w 16"

definition owner :: "uint32 \<Rightarrow> uint16" where
  "owner w = ucast w"

lemma sem_drop_bit: "sem w = unat (drop_bit 17 w)"
  unfolding sem_def unat_drop_bit_eq by (simp add: drop_bit_eq_div)

lemma sem_lt: "sem w < 32768"
proof -
  have "unat w < 2 ^ LENGTH(32)" by (rule unsigned_less)
  then show ?thesis by (simp add: sem_def)
qed

lemma masks: "SEMAPHORE_MASK = NOT (mask 17)" "OWNER_ID_MASK = mask 16" "HAS_WAITERS_MASK = push_bit 16 1"
  by (simp_all add: SEMAPHORE_MASK_def OWNER_ID_MASK_def HAS_WAITERS_MASK_def mask_eq_exp_minus_1)

lemma sem_eqI: "(\<And>n. 17 \<le> n \<Longrightarrow> n < 32 \<Longrightarrow> bit v n = bit w n) \<Longrightarrow> sem v = sem w"
  unfolding sem_drop_bit
proof (rule arg_cong [where f = unat], rule bit_word_eqI)
  fix n assume h: "\<And>n. 17 \<le> n \<Longrightarrow> n < 32 \<Longrightarrow> bit v n = bit w n"
  show "bit (drop_bit 17 v) n = bit (drop_bit 17 w) n"
    using h [of "17 + n"] by (cases "17 + n < 32") (auto simp: bit_simps dest: bit_imp_le_length)
qed

lemma owner_eqI: "(\<And>n. n < 16 \<Longrightarrow> bit v n = bit w n) \<Longrightarrow> owner v = owner w"
  unfolding owner_def by (rule bit_word_eqI) (simp add: bit_simps)

lemma sem_mask: "w AND SEMAPHORE_MASK = 0 \<longleftrightarrow> sem w = 0"
proof -
  have "w AND NOT (mask 17) = 0 \<longleftrightarrow> drop_bit 17 w = 0"
  proof
    assume z: "w AND NOT (mask 17) = 0"
    have "bit (w AND NOT (mask 17)) (n + 17) = bit w (n + 17)" for n by (auto simp: bit_simps dest: bit_imp_le_length)
    with z show "drop_bit 17 w = 0" by (intro bit_word_eqI) (simp add: bit_simps add.commute)
  next
    assume z: "drop_bit 17 w = 0"
    have "\<not> bit w n" if "17 \<le> n" for n using that arg_cong [OF z, of "\<lambda>v. bit v (n - 17)"] by (simp add: bit_simps)
    then show "w AND NOT (mask 17) = 0" by (intro bit_word_eqI) (auto simp: bit_simps, meson not_less)
  qed
  then show ?thesis by (simp add: masks sem_drop_bit unsigned_eq_0_iff)
qed

lemma sem_mask_pos: "w AND SEMAPHORE_MASK > 0 \<longleftrightarrow> sem w > 0"
  using sem_mask [of w] by (metis word_gt_0 gr0I less_irrefl)

lemma waiter_unat: "waiter_bit w \<longleftrightarrow> odd (unat w div 65536)"
proof -
  have "bit w 16 = bit (unat w) 16" by (simp add: bit_unsigned_iff)
  then show ?thesis by (simp add: waiter_bit_def bit_iff_odd [of "unat w"])
qed

lemma high_half: "unat (drop_bit 16 w) = 2 * sem w + of_bool (waiter_bit w)"
proof -
  have "unat w div 131072 = unat w div 65536 div 2" by (simp add: div_mult2_eq [symmetric])
  then have "unat w div 65536 = 2 * (unat w div 131072) + of_bool (odd (unat w div 65536))" by simp
  then show ?thesis unfolding sem_def unat_drop_bit_eq waiter_unat by (simp add: drop_bit_eq_div)
qed

lemma unlock_test: "drop_bit 16 w \<ge> 2 \<longleftrightarrow> sem w > 0"
  using high_half [of w] by (simp add: word_le_nat_alt Suc_le_eq)

lemma last_unlock: "drop_bit 16 w = 1 \<longleftrightarrow> sem w = 0 \<and> waiter_bit w"
  using high_half [of w] by (auto simp: word_unat_eq_iff)

lemma owner_mask: "w AND OWNER_ID_MASK = ucast i \<longleftrightarrow> owner w = (i :: uint16)"
proof
  assume "w AND OWNER_ID_MASK = ucast i"
  then have "bit (w AND OWNER_ID_MASK) n = bit (ucast i :: uint32) n" for n by simp
  then have h: "(bit w n \<and> n < 32 \<and> n < 16) = (n < 32 \<and> bit i n)" for n by (simp add: masks bit_simps)
  have "bit w n = bit i n" if "n < 16" for n using that h [of n] by linarith
  then show "owner w = i" unfolding owner_def by (intro bit_word_eqI) (simp add: bit_simps)
next
  assume "owner w = i"
  then show "w AND OWNER_ID_MASK = ucast i" unfolding owner_def masks by (intro bit_word_eqI) (auto simp: bit_simps)
qed

lemma set_owner_fields: "owner (set_owner i w) = i" "sem (set_owner i w) = sem w" "waiter_bit (set_owner i w) = waiter_bit w"
proof -
  show "owner (set_owner i w) = i" unfolding owner_def set_owner_def masks by (rule bit_word_eqI) (auto simp: bit_simps)
  show "sem (set_owner i w) = sem w" unfolding set_owner_def masks by (rule sem_eqI) (auto simp: bit_simps dest: bit_imp_le_length)
  show "waiter_bit (set_owner i w) = waiter_bit w" unfolding set_owner_def masks waiter_bit_def by (auto simp: bit_simps dest: bit_imp_le_length)
qed

lemma owner_unat: "owner w = of_nat (unat w mod 65536)"
  unfolding owner_def by (simp add: word_unat_eq_iff unsigned_ucast_eq take_bit_eq_mod unsigned_of_nat)

lemma plus_fields:
  assumes "sem w < 32767"
  shows "sem (w + 0x20000) = sem w + 1" "owner (w + 0x20000) = owner w" "waiter_bit (w + 0x20000) = waiter_bit w"
proof -
  have "unat w < 32767 * 131072" using assms by (simp add: sem_def div_less_iff_less_mult)
  then have u: "unat (w + 0x20000) = unat w + 131072" by (simp add: unat_word_ariths)
  show "sem (w + 0x20000) = sem w + 1" by (simp add: sem_def u)
  show "owner (w + 0x20000) = owner w" by (simp add: owner_unat u mod_add_eq [symmetric, of "unat w"])
  have "(unat w + 131072) div 65536 = unat w div 65536 + 2" using div_mult_self1 [of 65536 "unat w" 2] by simp
  then show "waiter_bit (w + 0x20000) = waiter_bit w" by (simp add: waiter_unat u)
qed

lemma minus_fields:
  assumes "0 < sem w"
  shows "sem (w - 0x20000) = sem w - 1" "owner (w - 0x20000) = owner w" "waiter_bit (w - 0x20000) = waiter_bit w"
proof -
  have s: "sem (w - 0x20000) < 32767 \<and> w = (w - 0x20000) + 0x20000"
  proof -
    have "131072 \<le> unat w" using assms by (simp add: sem_def div_greater_zero_iff)
    then have "(0x20000 :: uint32) \<le> w" by (simp add: word_le_nat_alt)
    then have "unat (w - 0x20000) = unat w - 131072" by (simp add: unat_sub)
    moreover have "unat w < 2 ^ LENGTH(32)" by (rule unsigned_less)
    ultimately show ?thesis by (simp add: sem_def div_less_iff_less_mult)
  qed
  then show "sem (w - 0x20000) = sem w - 1" "owner (w - 0x20000) = owner w" "waiter_bit (w - 0x20000) = waiter_bit w"
    using plus_fields [of "w - 0x20000"] by simp_all
qed

lemma bit_waiters: "bit HAS_WAITERS_MASK n \<longleftrightarrow> n = 16"
  unfolding masks(3) by (simp only: bit_push_bit_iff bit_1_iff) auto

lemma or_waiters_fields: "sem (w OR HAS_WAITERS_MASK) = sem w" "owner (w OR HAS_WAITERS_MASK) = owner w" "waiter_bit (w OR HAS_WAITERS_MASK)"
  by (rule sem_eqI owner_eqI; simp add: bit_simps bit_waiters)+ (simp add: waiter_bit_def bit_simps bit_waiters)

lemma clear_waiters_fields:
  "sem (w AND NOT HAS_WAITERS_MASK) = sem w" "owner (w AND NOT HAS_WAITERS_MASK) = owner w" "\<not> waiter_bit (w AND NOT HAS_WAITERS_MASK)"
  by (rule sem_eqI owner_eqI; simp add: bit_simps bit_waiters)+ (simp add: waiter_bit_def bit_simps bit_waiters)

lemma release_fields:
  "sem (w AND NOT (SEMAPHORE_MASK OR OWNER_ID_MASK)) = 0" "waiter_bit (w AND NOT (SEMAPHORE_MASK OR OWNER_ID_MASK)) = waiter_bit w"
proof -
  have "sem (w AND NOT (SEMAPHORE_MASK OR OWNER_ID_MASK)) = sem 0" by (rule sem_eqI) (auto simp: masks bit_simps)
  then show "sem (w AND NOT (SEMAPHORE_MASK OR OWNER_ID_MASK)) = 0" by (simp add: sem_def)
  show "waiter_bit (w AND NOT (SEMAPHORE_MASK OR OWNER_ID_MASK)) = waiter_bit w" by (simp add: masks waiter_bit_def bit_simps)
qed

lemma const_fields: "sem 0 = 0" "\<not> waiter_bit 0" "sem HAS_WAITERS_MASK = 0" "waiter_bit HAS_WAITERS_MASK"
  by (simp_all add: sem_def waiter_bit_def HAS_WAITERS_MASK_def)

end
