(* ===== verification/Monitors.thy ===== *)
theory Monitors
  imports Locks
begin

text \<open>
  The machine of threads and monitors: the invariant of its reachable states and what follows from it. The invariant
  has the queues of the scheduler, the lock words against the entries each thread has made, and for every
  thread the frames it can have left suspended. \<open>runs_well\<close> says of a call that it returns into a state with the
  invariant; there is one such lemma per call, per kind of frame, and for the alarm signal.
\<close>

section \<open>The invariant of the machine\<close>

text \<open>The frames a thread leaves behind when it is switched away from, below \<open>K_switched\<close>.\<close>

fun stack_ok :: "kont list \<Rightarrow> bool" where
  "stack_ok [K_intsRestore] = True"
| "stack_ok [K_intsRestore, K_lock _] = True"
| "stack_ok [K_decInts] = True"
| "stack_ok [K_wait _ _] = True"
| "stack_ok (K_decInts # K_resched _ b # ks) = (b = 1 \<and> stack_ok ks)"
| "stack_ok _ = False"

fun other_ok :: "kont list \<Rightarrow> bool" where
  "other_ok [K_intsRestore] = True"
| "other_ok (K_switched _ b # ks) = (b = 1 \<and> stack_ok ks)"
| "other_ok _ = False"

text \<open>Where the current thread is.\<close>

definition phase :: "(qvar \<Rightarrow> tid list) \<Rightarrow> sched \<Rightarrow> bool" where
  "phase Q s \<longleftrightarrow>
     (case konts s (currentThread s) of
        [] \<Rightarrow> blockInts s = 0 \<and> \<not> needReschedule s \<and> top_ready Q s
      | K_switched _ b # ks \<Rightarrow> b = 1 \<and> stack_ok ks \<and> top_ready Q s
      | K_resched _ b # ks \<Rightarrow> b = 1 \<and> stack_ok ks \<and> blockInts s = 0
      | K_lock _ # ks \<Rightarrow> ks = [] \<and> blockInts s = 0 \<and> \<not> needReschedule s \<and> top_ready Q s
      | K_waited ob _ # ks \<Rightarrow> ks = [] \<and> blockInts s = 0 \<and> \<not> needReschedule s \<and> top_ready Q s \<and> sem (lock_info s ob) = 0
      | k # ks \<Rightarrow> stack_ok (k # ks) \<and> blockInts s = 1 \<and> top_ready Q s \<and> (needReschedule s \<longrightarrow> k # ks = [K_intsRestore]))"

definition others_ok :: "sched \<Rightarrow> bool" where
  "others_ok s \<longleftrightarrow> (\<forall>t. t \<noteq> currentThread s \<longrightarrow> privateInfo s t \<noteq> 0 \<longrightarrow> other_ok (konts s t))"

text \<open>
  The monitors: the semaphore of an object is the number of entries of the one thread that holds
  it, whose index is in the word, and the waiter bit is set exactly when a thread waits.
\<close>

definition thread_id :: "sched \<Rightarrow> tid \<Rightarrow> uint16" where
  "thread_id s t = of_nat (privateInfo s t)"

definition lock_ok :: "(qvar \<Rightarrow> tid list) \<Rightarrow> holds \<Rightarrow> sched \<Rightarrow> obj \<Rightarrow> bool" where
  "lock_ok Q h s ob \<longleftrightarrow> (waiter_bit (lock_info s ob) \<longleftrightarrow> Q (Waiters ob) \<noteq> []) \<and>
     (if sem (lock_info s ob) = 0 then \<forall>t. h t ob = 0
      else \<exists>t. privateInfo s t \<noteq> 0 \<and> owner (lock_info s ob) = thread_id s t \<and> h t ob = sem (lock_info s ob) \<and> (\<forall>u. u \<noteq> t \<longrightarrow> h u ob = 0))"

definition table_ok :: "(qvar \<Rightarrow> tid list) \<Rightarrow> sched \<Rightarrow> bool" where
  "table_ok Q s \<longleftrightarrow> (\<forall>ob. ob \<notin> set (lockTable s (HASHLOCK ob)) \<longrightarrow> Q (Waiters ob) = [] \<and> Q (Conds ob) = []) \<and>
     (\<forall>i. Q (ReadQ i) = [] \<and> Q (WriteQ i) = [])"

definition started_ok :: "(qvar \<Rightarrow> tid list) \<Rightarrow> tid list \<Rightarrow> sched \<Rightarrow> bool" where
  "started_ok Q A s \<longleftrightarrow> (\<forall>t. (status (tctx s t) = THREAD_RUNNING \<or> t \<in> set A \<or> (\<exists>q. t \<in> set (Q q)) \<or> konts s t \<noteq> [] \<longrightarrow> privateInfo s t \<noteq> 0) \<and>
     (privateInfo s t \<noteq> 0 \<longrightarrow> MIN_PRIORITY \<le> priority (tctx s t) \<and> priority (tctx s t) \<le> MAX_PRIORITY) \<and>
     status (tctx s t) \<noteq> THREAD_DEAD \<and> \<not> has_flag THREAD_FLAGS_KILLED t s)"

definition frames_ok :: "holds \<Rightarrow> sched \<Rightarrow> bool" where
  "frames_ok h s \<longleftrightarrow> (\<forall>t ob w. (K_wait ob w \<in> set (konts s t) \<or> K_waited ob w \<in> set (konts s t) \<longrightarrow>
       owner w = thread_id s t \<and> 0 < sem w \<and> ob \<in> set (lockTable s (HASHLOCK ob))) \<and>
     (K_lock ob \<in> set (konts s t) \<longrightarrow> h t ob < 32767))"

definition ids_ok :: "sched \<Rightarrow> bool" where
  "ids_ok s \<longleftrightarrow> (\<forall>t. privateInfo s t \<noteq> 0 \<longrightarrow> privateInfo s t < length (threadContext s) \<and> threadContext s ! privateInfo s t) \<and>
     (\<forall>t u. privateInfo s t \<noteq> 0 \<longrightarrow> privateInfo s t = privateInfo s u \<longrightarrow> t = u) \<and>
     length (threadContext s) \<le> numberOfThreads s + 129 \<and> length (filter id (threadContext s)) = numberOfThreads s \<and> \<not> threadContext s ! 0 \<and> numberOfThreads s \<le> 65000 \<and>
     (ntid s < length (threadContext s))"

definition core :: "(qvar \<Rightarrow> tid list) \<Rightarrow> tid list \<Rightarrow> holds \<Rightarrow> sched \<Rightarrow> bool" where
  "core Q A h s \<longleftrightarrow> queues_ok Q s \<and> alarms_ok Q A s \<and> (\<forall>ob. lock_ok Q h s ob) \<and> table_ok Q s \<and> started_ok Q A s \<and> frames_ok h s \<and> ids_ok s"

definition machine_ok :: "(qvar \<Rightarrow> tid list) \<Rightarrow> tid list \<Rightarrow> sched \<times> holds \<Rightarrow> bool" where
  "machine_ok Q A sh \<longleftrightarrow> (case sh of (s, h) \<Rightarrow> core Q A h s \<and> others_ok s \<and> phase Q s \<and> privateInfo s (currentThread s) \<noteq> 0)"

text \<open>A call that returns, into a state with the invariant.\<close>

definition runs_well :: "(sched \<times> holds) result option \<Rightarrow> bool" where
  "runs_well r \<longleftrightarrow> (\<exists>sh Q A. r = Some (Inr sh) \<and> machine_ok Q A sh)"

lemma runs_wellI: "machine_ok Q A sh \<Longrightarrow> r = Some (Inr sh) \<Longrightarrow> runs_well r"
  by (auto simp: runs_well_def)

lemma coreD:
  assumes "core Q A h s"
  shows "queues_ok Q s" "alarms_ok Q A s" "lock_ok Q h s ob" "table_ok Q s" "started_ok Q A s" "frames_ok h s" "ids_ok s" "prios_ok s"
  using assms unfolding core_def started_ok_def prios_ok_def by blast+

lemma core_frame [simp]:
  "core Q A h (s\<lparr>needReschedule := x2\<rparr>) = core Q A h s" "core Q A h (s\<lparr>currentThread := x3\<rparr>) = core Q A h s"
  "core Q A h (s\<lparr>blockInts := x4\<rparr>) = core Q A h s"
  by (simp_all add: core_def lock_ok_def table_ok_def started_ok_def frames_ok_def ids_ok_def thread_id_def)

text \<open>Frames that carry no monitor state.\<close>

fun plain :: "kont \<Rightarrow> bool" where
  "plain (K_wait _ _) = False" | "plain (K_waited _ _) = False" | "plain (K_lock _) = False" | "plain _ = True"

lemma push_kont_fields [simp]:
  "currentThread (push_kont k s) = currentThread s" "blockInts (push_kont k s) = blockInts s" "needReschedule (push_kont k s) = needReschedule s"
  "tctx (push_kont k s) = tctx s" "qhead (push_kont k s) = qhead s" "privateInfo (push_kont k s) = privateInfo s"
  "lock_info (push_kont k s) = lock_info s" "lockTable (push_kont k s) = lockTable s"
  "konts (push_kont k s) = (konts s)(currentThread s := k # konts s (currentThread s))"
  by (simp_all add: push_kont_def)

lemma queues_push_kont [simp]: "queues_ok Q (push_kont k s) = queues_ok Q s" "alarms_ok Q A (push_kont k s) = alarms_ok Q A s"
  "prios_ok (push_kont k s) = prios_ok s" "top_ready Q (push_kont k s) = top_ready Q s"
  by (simp_all add: push_kont_def)

lemma core_push_plain [simp]:
  assumes "plain k" "privateInfo s (currentThread s) \<noteq> 0"
  shows "core Q A h (push_kont k s) = core Q A h s"
proof -
  have "x \<in> set (konts (push_kont k s) t) \<longleftrightarrow> x \<in> set (konts s t)" if "\<not> plain x" for x t using assms(1) that by auto
  then have "frames_ok h (push_kont k s) = frames_ok h s" unfolding frames_ok_def thread_id_def by simp
  moreover have "started_ok Q A (push_kont k s) = started_ok Q A s" unfolding started_ok_def
  proof (rule arg_cong [where f = All], rule ext, goal_cases)
    case (1 t)
    show ?case using assms(2) by (cases "t = currentThread s") (simp_all add: has_flag_def)
  qed
  moreover have "lock_ok Q h (push_kont k s) = lock_ok Q h s" by (rule ext) (simp add: lock_ok_def thread_id_def)
  moreover have "table_ok Q (push_kont k s) = table_ok Q s" "ids_ok (push_kont k s) = ids_ok s" by (simp_all add: table_ok_def ids_ok_def push_kont_def)
  ultimately show ?thesis unfolding core_def by simp
qed

lemma highest_cong: "qhead s = qhead s' \<Longrightarrow> highest_ready i s = highest_ready i s'"
proof (induction i)
  case 0
  then show ?case by (simp add: highest_ready.simps [of 0])
next
  case (Suc i)
  then show ?case by (simp add: highest_ready.simps [of "Suc i"] split: option.splits)
qed

lemma highest_push [simp]: "highest_ready i (push_kont k s) = highest_ready i s"
  "highest_ready i (s\<lparr>needReschedule := x\<rparr>) = highest_ready i s" "highest_ready i (s\<lparr>blockInts := y\<rparr>) = highest_ready i s"
  by (rule highest_cong, simp)+

lemma stack_ok_phase:
  assumes "konts s (currentThread s) = ks" "stack_ok ks" "blockInts s = 1" "top_ready Q s" "\<not> needReschedule s"
  shows "phase Q s"
  using assms by (cases ks rule: stack_ok.cases) (auto simp: phase_def)

text \<open>A round of the scheduler.\<close>

lemma resched_round_ok:
  assumes c: "core Q A h s" and o: "others_ok s" and p: "privateInfo s (currentThread s) \<noteq> 0"
    and ks: "stack_ok (konts s (currentThread s))" and b: "blockInts s = 1"
  shows "machine_ok Q A (resched_round w 1 s, h)"
proof (cases "highest_ready MAX_PRIORITY s")
  case None
  let ?s = "push_kont (K_resched w 1) (s\<lparr>needReschedule := False, blockInts := 0\<rparr>)"
  have e: "resched_round w 1 s = ?s" by (simp add: resched_round_def None)
  have "phase Q ?s" using ks by (simp add: phase_def)
  moreover have "others_ok ?s" using o by (simp add: others_ok_def)
  ultimately show ?thesis unfolding e machine_ok_def using c p by simp
next
  case (Some t)
  have top: "top_ready Q (s\<lparr>currentThread := t\<rparr>)" by (rule highest_ready_top [OF coreD(1,8) [OF c] Some])
  show ?thesis
  proof (cases "t = currentThread s")
    case True
    with Some have e: "resched_round w 1 s = s\<lparr>needReschedule := False\<rparr>" by (simp add: resched_round_def)
    have "top_ready Q s" using top True by simp
    then have "phase Q (s\<lparr>needReschedule := False\<rparr>)" using ks b by (intro stack_ok_phase) simp_all
    with c o p show ?thesis unfolding e machine_ok_def by (simp add: others_ok_def)
  next
    case False
    let ?c = "currentThread s" let ?s = "(push_kont (K_switched w 1) s)\<lparr>currentThread := t\<rparr>"
    have e: "resched_round w 1 s = ?s" using Some False by (simp add: resched_round_def)
    have st: "privateInfo s t \<noteq> 0" using top coreD(5) [OF c] by (auto simp: top_ready_def started_ok_def)
    then have ot: "other_ok (konts s t)" using o False by (auto simp: others_ok_def)
    have tr: "top_ready Q ?s" using top by (simp add: top_ready_def)
    have "phase Q ?s"
      using ot b False tr by (cases "konts s t" rule: other_ok.cases) (auto simp: phase_def)
    moreover have "others_ok ?s" using o ks False by (auto simp: others_ok_def)
    ultimately show ?thesis unfolding e machine_ok_def using c p st by simp
  qed
qed

text \<open>The end of a call from Java code.\<close>

lemma intsRestore_ok:
  assumes c: "core Q A h s" and o: "others_ok s" and p: "privateInfo s (currentThread s) \<noteq> 0"
    and ks: "konts s (currentThread s) = []" and b: "blockInts s = 1" and r: "runs_next Q s"
  shows "machine_ok Q A (intsRestore s, h)"
proof (cases "needReschedule s")
  case True
  have "machine_ok Q A (resched_round False 1 (push_kont K_decInts s), h)"
    using c o p ks b by (intro resched_round_ok) (simp_all add: others_ok_def)
  with True b show ?thesis by (simp add: intsRestore_def reschedule_def)
next
  case False
  with r have "top_ready Q s" by (simp add: runs_next_def)
  with False b c o p ks show ?thesis by (simp add: intsRestore_def machine_ok_def phase_def others_ok_def)
qed

section \<open>The invariant while some monitors are being changed\<close>

definition core_but :: "obj set \<Rightarrow> (qvar \<Rightarrow> tid list) \<Rightarrow> tid list \<Rightarrow> holds \<Rightarrow> sched \<Rightarrow> bool" where
  "core_but X Q A h s \<longleftrightarrow> queues_ok Q s \<and> alarms_ok Q A s \<and> (\<forall>ob. ob \<notin> X \<longrightarrow> lock_ok Q h s ob) \<and> table_ok Q s \<and> started_ok Q A s \<and>
     frames_ok h s \<and> ids_ok s"

lemma core_but_empty: "core Q A h s = core_but {} Q A h s"
  by (simp add: core_def core_but_def)

lemma core_but_mono: "core Q A h s \<Longrightarrow> core_but X Q A h s"
  by (simp add: core_def core_but_def)

lemma core_but_lock: "core_but {ob} Q A h s \<Longrightarrow> lock_ok Q h s ob \<Longrightarrow> core Q A h s"
  unfolding core_def core_but_def by auto

lemma core_butD:
  assumes "core_but X Q A h s"
  shows "queues_ok Q s" "alarms_ok Q A s" "ob \<notin> X \<Longrightarrow> lock_ok Q h s ob" "table_ok Q s" "started_ok Q A s" "frames_ok h s" "ids_ok s" "prios_ok s"
  using assms unfolding core_but_def started_ok_def prios_ok_def by blast+

lemma started_okD:
  assumes "started_ok Q A s"
  shows "status (tctx s t) = THREAD_RUNNING \<Longrightarrow> privateInfo s t \<noteq> 0" "t \<in> set A \<Longrightarrow> privateInfo s t \<noteq> 0" "t \<in> set (Q q) \<Longrightarrow> privateInfo s t \<noteq> 0"
    "konts s t \<noteq> [] \<Longrightarrow> privateInfo s t \<noteq> 0" "privateInfo s t \<noteq> 0 \<Longrightarrow> MIN_PRIORITY \<le> priority (tctx s t) \<and> priority (tctx s t) \<le> MAX_PRIORITY"
    "status (tctx s t) \<noteq> THREAD_DEAD" "\<not> has_flag THREAD_FLAGS_KILLED t s"
  using assms unfolding started_ok_def by blast+

lemma core_but_frame [simp]:
  "core_but X Q A h (s\<lparr>needReschedule := x2\<rparr>) = core_but X Q A h s" "core_but X Q A h (s\<lparr>currentThread := x3\<rparr>) = core_but X Q A h s"
  "core_but X Q A h (s\<lparr>blockInts := x4\<rparr>) = core_but X Q A h s"
  by (simp_all add: core_but_def lock_ok_def table_ok_def started_ok_def frames_ok_def ids_ok_def thread_id_def)

lemma same_restD:
  assumes "same_rest s s'"
  shows "privateInfo s' = privateInfo s" "currentThread s' = currentThread s" "blockInts s' = blockInts s" "lock_info s' = lock_info s"
    "lockTable s' = lockTable s" "konts s' = konts s" "thread_id s' = thread_id s"
  using assms by (auto simp: same_rest_def thread_id_def fun_eq_iff)

lemma core_but_change:
  assumes c: "core_but X Q A h s" and r: "same_rest s s'" and q: "queues_ok Q' s'" "alarms_ok Q' A' s'" and st: "started_ok Q' A' s'"
    and w: "\<forall>ob. ob \<notin> X \<longrightarrow> Q' (Waiters ob) = [] \<longleftrightarrow> Q (Waiters ob) = []" and tb: "table_ok Q' s'"
  shows "core_but X Q' A' h s'"
proof -
  have "lock_ok Q' h s' ob" if "ob \<notin> X" for ob
  proof -
    have "Q' (Waiters ob) = [] \<longleftrightarrow> Q (Waiters ob) = []" using w that by blast
    then show ?thesis using core_butD(3) [OF c that] unfolding lock_ok_def same_restD [OF r] by blast
  qed
  moreover have "frames_ok h s'" "ids_ok s'"
    using core_butD(6,7) [OF c] r unfolding frames_ok_def same_restD [OF r] by (simp_all add: ids_ok_def same_rest_def)
  ultimately show ?thesis unfolding core_but_def using q st tb by blast
qed

lemma started_change:
  assumes st: "started_ok Q A s" and r: "same_rest s s'" and k: "\<forall>u. has_flag THREAD_FLAGS_KILLED u s' \<longrightarrow> has_flag THREAD_FLAGS_KILLED u s"
    and p: "\<forall>u. priority (tctx s' u) = priority (tctx s u)" and n: "privateInfo s t \<noteq> 0"
    and c: "\<forall>u. u \<noteq> t \<longrightarrow> status (tctx s' u) = status (tctx s u)" "status (tctx s' t) \<noteq> THREAD_DEAD"
    and q: "\<forall>q. set (Q' q) \<subseteq> insert t (set (Q q))" and a: "set A' \<subseteq> insert t (set A)"
  shows "started_ok Q' A' s'"
proof -
  have e: "privateInfo s' = privateInfo s" "konts s' = konts s" using r by (simp_all add: same_rest_def)
  have "privateInfo s u \<noteq> 0" if "status (tctx s' u) = THREAD_RUNNING \<or> u \<in> set A' \<or> (\<exists>q. u \<in> set (Q' q)) \<or> konts s u \<noteq> []" for u
  proof (cases "u = t")
    case False
    with that c(1) q a have "status (tctx s u) = THREAD_RUNNING \<or> u \<in> set A \<or> (\<exists>q. u \<in> set (Q q)) \<or> konts s u \<noteq> []" by (metis insertE subset_iff)
    with started_okD(1-4) [OF st] show ?thesis by blast
  qed (simp add: n)
  moreover have "status (tctx s' u) \<noteq> THREAD_DEAD" for u using c started_okD(6) [OF st, of u] by (cases "u = t") simp_all
  ultimately show ?thesis using p k started_okD(5,7) [OF st] unfolding started_ok_def e by metis
qed

lemma suspend_core:
  assumes c: "core_but X Q A h s" and st: "status (tctx s t) = THREAD_RUNNING"
    and qu: "\<forall>q. queue = Some q \<longrightarrow> \<not> sint timeout > 0 \<and>
      (\<exists>ob. (q = Waiters ob \<and> ob \<in> X \<or> q = Conds ob) \<and> ob \<in> set (lockTable s (HASHLOCK ob)))"
  obtains s' A' where "suspend_body now t queue timeout s = Some (Inr (True, s'))" "same_rest s s'"
    "core_but X (suspended t (priority (tctx s t)) queue Q) A' h s'"
proof -
  let ?S = "suspended t (priority (tctx s t)) queue Q"
  have qr: "\<forall>q. queue = Some q \<longrightarrow> \<not> is_ready q \<and> \<not> sint timeout > 0" using qu by auto
  obtain s' A' where s': "suspend_body now t queue timeout s = Some (Inr (True, s'))" "same_rest s s'" "queues_ok ?S s'" "alarms_ok ?S A' s'"
    "\<forall>u. status (tctx s' u) = (if u = t then THREAD_SUSPENDED else status (tctx s u)) \<and> priority (tctx s' u) = priority (tctx s u)"
    "\<forall>u. has_flag THREAD_FLAGS_KILLED u s' \<longrightarrow> has_flag THREAD_FLAGS_KILLED u s" "set A' \<subseteq> insert t (set A)"
    "needReschedule s' = needReschedule s"
    by (rule suspend_effect [OF core_butD(1,2) [OF c] st qr]) (rule that)
  have sets: "set (?S q) = (if q = Ready (priority (tctx s t)) then set (Q q) - {t} else if queue = Some q then insert t (set (Q q)) else set (Q q))" for q
    using suspended_set [of Q "priority (tctx s t)" queue t q] queuesD(2) [OF queues_okD(1) [OF core_butD(1) [OF c]]] qr by blast
  have so: "started_ok ?S A' s'"
    by (rule started_change [OF core_butD(5) [OF c] s'(2)]) (use s'(5-7) sets started_okD(1) [OF core_butD(5) [OF c] st] in auto)
  have same: "?S q = Q q" if "\<not> is_ready q" "queue \<noteq> Some q" for q using that by (auto simp: suspended_def Let_def split: option.splits)
  have tab: "table_ok ?S s'"
  proof -
    have "lockTable s' = lockTable s" using s'(2) by (simp add: same_rest_def)
    with core_butD(4) [OF c] qu same show ?thesis unfolding table_ok_def by (metis is_ready.simps(2-5) qvar.distinct qvar.inject(2,3))
  qed
  have "core_but X ?S A' h s'"
    by (rule core_but_change [OF c s'(2-4) so _ tab]) (use same qu in \<open>metis is_ready.simps(2) qvar.distinct(9) qvar.inject(2)\<close>)
  with s'(1,2) show thesis by (rule that)
qed

lemma resumed_core:
  assumes c: "core_but X Q A h s" and out: "\<forall>q. t \<notin> set (Q q)" and p: "privateInfo s t \<noteq> 0" and r: "same_rest s s'"
    and q: "queues_ok (resumed t pr Q) s'" "alarms_ok (resumed t pr Q) (remove1 t A) s'"
    and x: "\<forall>u. status (tctx s' u) = (if u = t then THREAD_RUNNING else status (tctx s u)) \<and> priority (tctx s' u) = priority (tctx s u) \<and> time (tctx s' u) = time (tctx s u)"
    and k: "\<forall>u. has_flag THREAD_FLAGS_KILLED u s' \<longrightarrow> has_flag THREAD_FLAGS_KILLED u s"
  shows "core_but X (resumed t pr Q) (remove1 t A) h s'"
proof -
  let ?R = "resumed t pr Q"
  have same: "?R q = Q q" if "\<not> is_ready q" for q using resumed_same [OF out that] .
  have so: "started_ok ?R (remove1 t A) s'"
    by (rule started_change [OF core_butD(5) [OF c] r k _ p])
      (use x out in \<open>auto simp: resumed_def dest: notin_set_remove1 set_mp [OF set_remove1_subset]\<close>)
  have tab: "table_ok ?R s'" using core_butD(4) [OF c] r same by (simp add: table_ok_def same_rest_def)
  show ?thesis by (rule core_but_change [OF c r q so _ tab]) (simp add: same)
qed

lemma iresume_core:
  assumes c: "core_but X Q A h s" and st: "status (tctx s t) \<noteq> THREAD_RUNNING" and b: "1 \<le> blockInts s" and out: "\<forall>q. t \<notin> set (Q q)"
    and p: "privateInfo s t \<noteq> 0"
  obtains s' where "iresumeThread t s = Some (Inr s')" "same_rest s s'"
    "core_but X (resumed t (priority (tctx s t)) Q) (remove1 t A) h s'" "runs_next Q s \<Longrightarrow> runs_next (resumed t (priority (tctx s t)) Q) s'"
proof -
  have blk: "\<forall>q. t \<in> set (Q q) \<longrightarrow> blockqueue (tctx s t) = Some q" using out by blast
  show thesis by (rule iresumeThread_effect [OF core_butD(1,2) [OF c] st blk b]) (rule that, assumption, assumption, rule resumed_core [OF c out p])
qed

lemma iresume_body_core:
  assumes c: "core_but X Q A h s" and st: "status (tctx s t) \<noteq> THREAD_RUNNING" and out: "\<forall>q. t \<notin> set (Q q)" and p: "privateInfo s t \<noteq> 0"
  obtains s' where "iresume_body t s = Some (Inr s')" "same_rest s s'"
    "core_but X (resumed t (priority (tctx s t)) Q) (remove1 t A) h s'" "runs_next Q s \<Longrightarrow> runs_next (resumed t (priority (tctx s t)) Q) s'"
proof -
  have blk: "\<forall>q. t \<in> set (Q q) \<longrightarrow> blockqueue (tctx s t) = Some q" using out by blast
  show thesis by (rule iresume_body_effect [OF core_butD(1,2) [OF c] st blk]) (rule that, assumption, assumption, rule resumed_core [OF c out p])
qed

section \<open>Operations on monitors\<close>

lemma thread_id_inj:
  assumes "ids_ok s" "privateInfo s t \<noteq> 0" "privateInfo s u \<noteq> 0" "thread_id s t = thread_id s u"
  shows "t = u"
proof -
  have lt: "privateInfo s v < 65536" if "privateInfo s v \<noteq> 0" for v
  proof -
    have "privateInfo s v < length (threadContext s)" using assms(1) that by (simp add: ids_ok_def)
    also have "\<dots> \<le> 65129" using assms(1) by (simp add: ids_ok_def)
    finally show ?thesis by simp
  qed
  have "privateInfo s t = privateInfo s u"
    using assms(4) lt [OF assms(2)] lt [OF assms(3)] by (simp add: thread_id_def word_unat_eq_iff unsigned_of_nat take_bit_nat_eq_self)
  with assms(1,2) show ?thesis unfolding ids_ok_def by blast
qed

lemma lockTable_frame [simp]:
  "lock_ok Q h (s\<lparr>lockTable := x\<rparr>) = lock_ok Q h s" "started_ok Q A (s\<lparr>lockTable := x\<rparr>) = started_ok Q A s"
  "ids_ok (s\<lparr>lockTable := x\<rparr>) = ids_ok s"
  by (simp_all add: lock_ok_def started_ok_def ids_ok_def thread_id_def fun_eq_iff)

lemma getLock_core:
  assumes "core_but X Q A h s"
  shows "core_but X Q A h (getLock ob s)" "ob \<in> set (lockTable (getLock ob s) (HASHLOCK ob))"
    "\<exists>lt. getLock ob s = s\<lparr>lockTable := lt\<rparr>"
proof -
  show e: "\<exists>lt. getLock ob s = s\<lparr>lockTable := lt\<rparr>" and m: "ob \<in> set (lockTable (getLock ob s) (HASHLOCK ob))"
  proof -
    have "qhead s (Waiters ob) = None" "qhead s (Conds ob) = None" if "ob \<notin> set (lockTable s (HASHLOCK ob))"
      using core_butD(4) [OF assms] that queues_head_None [OF queues_okD(1) [OF core_butD(1) [OF assms]]]
      by (auto simp: table_ok_def dest!: spec [of _ ob])
    then have "(qhead s)(Waiters ob := None, Conds ob := None) = qhead s" if "ob \<notin> set (lockTable s (HASHLOCK ob))"
      using that by (simp add: fun_eq_iff)
    then have "getLock ob s = s\<lparr>lockTable := if ob \<in> set (lockTable s (HASHLOCK ob)) then lockTable s
        else (lockTable s)(HASHLOCK ob := ob # lockTable s (HASHLOCK ob))\<rparr>" by (simp add: getLock_def Let_def)
    then show "\<exists>lt. getLock ob s = s\<lparr>lockTable := lt\<rparr>" by blast
    show "ob \<in> set (lockTable (getLock ob s) (HASHLOCK ob))" by (simp add: getLock_def Let_def)
  qed
  have grow: "set (lockTable s i) \<subseteq> set (lockTable (getLock ob s) i)" for i by (auto simp: getLock_def Let_def)
  from e obtain lt where lt: "getLock ob s = s\<lparr>lockTable := lt\<rparr>" by blast
  have "table_ok Q (getLock ob s)" using core_butD(4) [OF assms] grow unfolding table_ok_def by blast
  moreover have "frames_ok h (getLock ob s)" using core_butD(6) [OF assms] grow
    unfolding frames_ok_def lt thread_id_def by simp (metis subsetD lt sched.simps(21))
  ultimately show "core_but X Q A h (getLock ob s)" using assms unfolding core_but_def lt by simp
qed


lemma set_lock_fields [simp]:
  "currentThread (set_lock ob w s) = currentThread s" "blockInts (set_lock ob w s) = blockInts s" "needReschedule (set_lock ob w s) = needReschedule s"
  "tctx (set_lock ob w s) = tctx s" "qhead (set_lock ob w s) = qhead s" "privateInfo (set_lock ob w s) = privateInfo s"
  "lock_info (set_lock ob w s) = (lock_info s)(ob := w)" "lockTable (set_lock ob w s) = lockTable s" "konts (set_lock ob w s) = konts s"
  "top_ready Q (set_lock ob w s) = top_ready Q s" "thread_id (set_lock ob w s) = thread_id s" "others_ok (set_lock ob w s) = others_ok s"
  by (simp_all add: set_lock_def top_ready_def thread_id_def others_ok_def fun_eq_iff)

lemma set_lock_core [simp]: "core_but {ob} Q A h (set_lock ob w s) = core_but {ob} Q A h s"
  by (simp add: core_but_def set_lock_def lock_ok_def table_ok_def started_ok_def frames_ok_def ids_ok_def thread_id_def)

lemma set_hold_core:
  assumes "core_but {ob} Q A h s" and "K_lock ob \<notin> set (konts s c)"
  shows "core_but {ob} Q A (set_hold c ob n h) s"
proof -
  have "frames_ok (set_hold c ob n h) s" using core_butD(6) [OF assms(1)] assms(2) by (auto simp: frames_ok_def set_hold_def)
  moreover have "lock_ok Q (set_hold c ob n h) s ob'" if "ob' \<noteq> ob" for ob'
  proof -
    have "set_hold c ob n h t ob' = h t ob'" for t using that by (simp add: set_hold_def)
    then show ?thesis using core_butD(3) [OF assms(1), of ob'] that unfolding lock_ok_def by (simp only: singleton_iff) blast
  qed
  ultimately show ?thesis using assms(1) unfolding core_but_def by simp
qed

text \<open>A thread in Java code.\<close>

definition in_user :: "(qvar \<Rightarrow> tid list) \<Rightarrow> tid list \<Rightarrow> holds \<Rightarrow> sched \<Rightarrow> bool" where
  "in_user Q A h s \<longleftrightarrow> core Q A h s \<and> others_ok s \<and> konts s (currentThread s) = [] \<and> blockInts s = 0 \<and> \<not> needReschedule s \<and>
     top_ready Q s \<and> privateInfo s (currentThread s) \<noteq> 0"

lemma in_userD:
  assumes "in_user Q A h s"
  shows "core Q A h s" "others_ok s" "konts s (currentThread s) = []" "blockInts s = 0" "\<not> needReschedule s" "top_ready Q s"
    "privateInfo s (currentThread s) \<noteq> 0" "status (tctx s (currentThread s)) = THREAD_RUNNING"
  using assms unfolding in_user_def top_ready_def by blast+

lemma in_user_machine: "in_user Q A h s \<Longrightarrow> machine_ok Q A (s, h)"
  by (simp add: in_user_def machine_ok_def phase_def)

lemma machine_in_user: "machine_ok Q A (s, h) \<Longrightarrow> konts s (currentThread s) = [] \<Longrightarrow> in_user Q A h s"
  by (simp add: in_user_def machine_ok_def phase_def)

lemma is_owner_iff: "is_owner s ob \<longleftrightarrow> owner (lock_info s ob) = thread_id s (currentThread s)"
  by (simp add: is_owner_def owner_mask currentThreadID_def thread_id_def)

lemma holder_is_current:
  assumes u: "in_user Q A h s" and s: "0 < h (currentThread s) ob \<or> 0 < sem (lock_info s ob) \<and> is_owner s ob"
  shows "0 < sem (lock_info s ob)" "is_owner s ob" "h (currentThread s) ob = sem (lock_info s ob)"
    "u \<noteq> currentThread s \<Longrightarrow> h u ob = 0" "waiter_bit (lock_info s ob) \<longleftrightarrow> Q (Waiters ob) \<noteq> []"
proof -
  note l = coreD(3) [OF in_userD(1) [OF u], of ob, unfolded lock_ok_def]
  show pos: "0 < sem (lock_info s ob)" using l s by (metis gr0I less_irrefl)
  then obtain t where t: "privateInfo s t \<noteq> 0" "owner (lock_info s ob) = thread_id s t" "h t ob = sem (lock_info s ob)" "\<forall>u. u \<noteq> t \<longrightarrow> h u ob = 0"
    using l by auto
  have "t = currentThread s"
  proof (cases "0 < h (currentThread s) ob")
    case True
    then show ?thesis using t(4) by (metis less_irrefl)
  next
    case False
    with s is_owner_iff t(2) have "thread_id s t = thread_id s (currentThread s)" by simp
    then show ?thesis using thread_id_inj [OF coreD(7) [OF in_userD(1) [OF u]] t(1) in_userD(7) [OF u]] by blast
  qed
  with t l show "is_owner s ob" "h (currentThread s) ob = sem (lock_info s ob)" "u \<noteq> currentThread s \<Longrightarrow> h u ob = 0"
    "waiter_bit (lock_info s ob) \<longleftrightarrow> Q (Waiters ob) \<noteq> []" by (auto simp: is_owner_iff)
qed

text \<open>A change of the lock word in place.\<close>

lemma in_user_lock:
  assumes u: "in_user Q A h s" and w: "waiter_bit w \<longleftrightarrow> Q (Waiters ob) \<noteq> []"
    and o: "if n = 0 then sem w = 0 else sem w = n \<and> owner w = thread_id s (currentThread s)"
    and z: "\<forall>u. u \<noteq> currentThread s \<longrightarrow> h u ob = 0"
  shows "in_user Q A (set_hold (currentThread s) ob n h) (set_lock ob w s)"
proof -
  let ?c = "currentThread s" let ?h = "set_hold ?c ob n h"
  note c = in_userD [OF u]
  have "core_but {ob} Q A h (set_lock ob w s)" using core_but_mono [OF c(1)] by simp
  then have "core_but {ob} Q A ?h (set_lock ob w s)" by (rule set_hold_core) (simp add: c(3))
  moreover have "lock_ok Q ?h (set_lock ob w s) ob"
    unfolding lock_ok_def using w o z c(7) by (auto simp: set_hold_def split: if_splits)
  ultimately have "core Q A ?h (set_lock ob w s)" by (rule core_but_lock)
  with c show ?thesis unfolding in_user_def by simp
qed

lemma getLock_fields [simp]:
  "currentThread (getLock ob s) = currentThread s" "blockInts (getLock ob s) = blockInts s" "needReschedule (getLock ob s) = needReschedule s"
  "tctx (getLock ob s) = tctx s" "privateInfo (getLock ob s) = privateInfo s" "lock_info (getLock ob s) = lock_info s"
  "konts (getLock ob s) = konts s" "top_ready Q (getLock ob s) = top_ready Q s" "thread_id (getLock ob s) = thread_id s"
  "others_ok (getLock ob s) = others_ok s"
  by (simp_all add: getLock_def Let_def top_ready_def thread_id_def others_ok_def fun_eq_iff)

lemma intsDisable_fields [simp]:
  "currentThread (intsDisable s) = currentThread s" "blockInts (intsDisable s) = blockInts s + 1" "needReschedule (intsDisable s) = needReschedule s"
  "tctx (intsDisable s) = tctx s" "privateInfo (intsDisable s) = privateInfo s" "lock_info (intsDisable s) = lock_info s"
  "konts (intsDisable s) = konts s" "lockTable (intsDisable s) = lockTable s" "qhead (intsDisable s) = qhead s"
  "top_ready Q (intsDisable s) = top_ready Q s" "thread_id (intsDisable s) = thread_id s"
  "others_ok (intsDisable s) = others_ok s" "core_but X Q A h (intsDisable s) = core_but X Q A h s" "core Q A h (intsDisable s) = core Q A h s"
  by (simp_all add: intsDisable_def top_ready_def thread_id_def others_ok_def fun_eq_iff)

lemma frames_push:
  assumes "frames_ok h s" and "\<forall>ob w. k = K_wait ob w \<or> k = K_waited ob w \<longrightarrow> owner w = thread_id s (currentThread s) \<and> 0 < sem w \<and> ob \<in> set (lockTable s (HASHLOCK ob))"
    and "\<forall>ob. k = K_lock ob \<longrightarrow> h (currentThread s) ob < 32767"
  shows "frames_ok h (push_kont k s)"
  using assms by (auto simp: frames_ok_def thread_id_def)

lemma core_but_push:
  assumes "core_but X Q A h s" "privateInfo s (currentThread s) \<noteq> 0" "frames_ok h (push_kont k s)"
  shows "core_but X Q A h (push_kont k s)"
proof -
  have "started_ok Q A (push_kont k s)" using core_butD(5) [OF assms(1)] assms(2) by (auto simp: started_ok_def has_flag_def)
  moreover have "lock_ok Q h (push_kont k s) ob = lock_ok Q h s ob" for ob by (simp add: lock_ok_def thread_id_def)
  moreover have "table_ok Q (push_kont k s) = table_ok Q s" "ids_ok (push_kont k s) = ids_ok s" by (simp_all add: table_ok_def ids_ok_def push_kont_def)
  ultimately show ?thesis using assms unfolding core_but_def by simp
qed

text \<open>Suspension of the current thread on a queue of the object, and the switch that follows.\<close>

lemma suspend_switch:
  assumes c: "core_but {ob} Q A h s" and o: "others_ok s" and run: "status (tctx s (currentThread s)) = THREAD_RUNNING"
    and ks: "stack_ok (konts s (currentThread s))" and b: "blockInts s = 1" and p: "privateInfo s (currentThread s) \<noteq> 0"
    and q: "q = Waiters ob \<or> q = Conds ob" and tab: "ob \<in> set (lockTable s (HASHLOCK ob))" and to: "\<not> sint timeout > 0"
    and l: "lock_ok (suspended (currentThread s) (priority (tctx s (currentThread s))) (Some q) Q) h s ob"
  obtains s' Q' A' where "suspendOnQThread now (currentThread s) (Some q) timeout w s = Some (Inr s')" "machine_ok Q' A' (s', h)"
proof -
  let ?c = "currentThread s" let ?S = "suspended ?c (priority (tctx s ?c)) (Some q) Q"
  have qu: "\<forall>q'. Some q = Some q' \<longrightarrow> \<not> sint timeout > 0 \<and> (\<exists>x. (q' = Waiters x \<and> x \<in> {ob} \<or> q' = Conds x) \<and> x \<in> set (lockTable s (HASHLOCK x)))"
    using q tab to by auto
  obtain s' A' where s': "suspend_body now ?c (Some q) timeout s = Some (Inr (True, s'))" "same_rest s s'" "core_but {ob} ?S A' h s'"
    by (rule suspend_core [OF c run qu]) (rule that)
  have "lock_ok ?S h s' ob" using l unfolding lock_ok_def same_restD [OF s'(2)] .
  with s'(3) have core: "core ?S A' h s'" by (rule core_but_lock)
  have "machine_ok ?S A' (resched_round w 1 s', h)"
    using core o p ks b by (intro resched_round_ok) (simp_all add: others_ok_def same_restD [OF s'(2)])
  moreover have "suspendOnQThread now ?c (Some q) timeout w s = Some (Inr (resched_round w 1 s'))"
    using s'(1) b by (simp add: suspendOnQThread_def same_restD [OF s'(2)] reschedule_def reschedule_from_wait_def)
  ultimately show thesis by (rule that [rotated])
qed

lemma suspended_Waiters: "suspended t p (Some (Waiters ob)) Q (Waiters ob) = t # Q (Waiters ob)"
  "suspended t p (Some (Conds ob)) Q (Waiters ob) = Q (Waiters ob)" "suspended t p (Some (Conds ob)) Q (Conds ob) = t # Q (Conds ob)"
  by (simp_all add: suspended_def)

lemma locking_ok:
  assumes u: "in_user Q A h s" and n: "h (currentThread s) ob < 32767"
  shows "runs_well (locking now ob (s, h))"
proof -
  let ?c = "currentThread s" let ?w = "lock_info s ob"
  note cu = in_userD [OF u]
  note l = coreD(3) [OF cu(1), of ob, unfolded lock_ok_def]
  consider (free) "sem ?w = 0" | (own) "0 < sem ?w" "is_owner s ob" | (busy) "0 < sem ?w" "\<not> is_owner s ob" by blast
  then show ?thesis
  proof cases
    case free
    then have z: "\<forall>t. h t ob = 0" and b: "waiter_bit ?w \<longleftrightarrow> Q (Waiters ob) \<noteq> []" using l by auto
    let ?w' = "set_owner (currentThreadID s) ?w + 0x20000"
    have "sem (set_owner (currentThreadID s) ?w) < 32767" using free by (simp add: set_owner_fields)
    note f = plus_fields [OF this, unfolded set_owner_fields]
    have "in_user Q A (set_hold ?c ob 1 h) (set_lock ob ?w' s)"
      by (rule in_user_lock [OF u]) (use f b z free in \<open>simp_all add: currentThreadID_def thread_id_def\<close>)
    moreover have "locking now ob (s, h) = Some (Inr (set_lock ob ?w' s, set_hold ?c ob 1 h))" using free z by (simp add: locking_def lockMutex_def sem_mask Let_def)
    ultimately show ?thesis by (intro runs_wellI [OF in_user_machine])
  next
    case own
    note hc = holder_is_current [OF u disjI2 [OF conjI [OF own]]]
    have "sem ?w < 32767" using n hc(3) by simp
    note f = plus_fields [OF this]
    have "in_user Q A (set_hold ?c ob (h ?c ob + 1) h) (set_lock ob (?w + 0x20000) s)"
      by (rule in_user_lock [OF u]) (use f hc own in \<open>simp_all add: is_owner_iff\<close>)
    moreover have "locking now ob (s, h) = Some (Inr (set_lock ob (?w + 0x20000) s, set_hold ?c ob (h ?c ob + 1) h))"
      using own by (simp add: locking_def lockMutex_def sem_mask Let_def)
    ultimately show ?thesis by (intro runs_wellI [OF in_user_machine])
  next
    case busy
    let ?s1 = "push_kont (K_lock ob) s"
    let ?s2 = "set_lock ob (?w OR HAS_WAITERS_MASK) (intsDisable ?s1)"
    let ?s4 = "push_kont K_intsRestore (getLock ob ?s2)"
    have "core_but {ob} Q A h ?s1"
      using cu(1,7) n by (intro core_but_push core_but_mono frames_push) (simp_all add: coreD(6))
    then have c2: "core_but {ob} Q A h ?s2" by simp
    have c4: "core_but {ob} Q A h ?s4"
      using getLock_core(1) [OF c2, of ob] cu(7) by (intro core_but_push frames_push) (simp_all add: core_butD(6))
    have tab: "ob \<in> set (lockTable ?s4 (HASHLOCK ob))" using getLock_core(2) [OF c2, of ob] by simp
    have f: "currentThread ?s4 = ?c" "tctx ?s4 = tctx s" "privateInfo ?s4 = privateInfo s" "blockInts ?s4 = 1"
      "konts ?s4 = (konts s)(?c := [K_intsRestore, K_lock ob])" "lock_info ?s4 = (lock_info s)(ob := ?w OR HAS_WAITERS_MASK)"
      using cu(3,4) by simp_all
    let ?S = "suspended ?c (priority (tctx s ?c)) (Some (Waiters ob)) Q"
    have lk: "lock_ok ?S h ?s4 ob"
      using l busy(1) unfolding lock_ok_def f(3,6) by (simp add: suspended_Waiters or_waiters_fields thread_id_def f(3))
    have oth: "others_ok ?s4" using cu(2) by (simp add: others_ok_def f)
    obtain s' Q' A' where "suspendOnQThread now (currentThread ?s4) (Some (Waiters ob)) 0 False ?s4 = Some (Inr s')" "machine_ok Q' A' (s', h)"
      by (rule suspend_switch [OF c4 oth, of "Waiters ob" 0]) (use cu(3,4,7,8) tab lk in \<open>simp_all add: f\<close>)
    moreover have "lockMutex now ob s = and_then (suspendOnQThread now (currentThread ?s4) (Some (Waiters ob)) 0 False ?s4) (\<lambda>s. Some (Inr (False, s)))"
      using busy by (simp add: lockMutex_def sem_mask wait_in_queue_def Let_def)
    ultimately show ?thesis by (intro runs_wellI [of Q' A' "(s', h)"]) (simp_all add: locking_def Let_def)
  qed
qed

text \<open>A change of the queues of one object.\<close>

lemma blocked_change:
  assumes c: "core_but {ob} Q A h s" and r: "same_rest s s'" and x: "same_ctxs s s'" "threadQtail s' = threadQtail s" "needReschedule s' = needReschedule s"
    and al: "\<forall>u. read_cell s' (NextAlarm u) = read_cell s (NextAlarm u)" "read_cell s' AlarmHead = read_cell s AlarmHead"
    and q: "queues (read_cell s') Q'" and o: "\<forall>q. q \<noteq> Waiters ob \<longrightarrow> q \<noteq> Conds ob \<longrightarrow> Q' q = Q q"
    and m: "\<forall>t. t \<in> set (Q' (Waiters ob)) \<longrightarrow> t \<in> set (Q (Waiters ob)) \<or> t \<in> set (Q (Conds ob))" "set (Q' (Conds ob)) \<subseteq> set (Q (Conds ob))"
    and tab: "ob \<in> set (lockTable s (HASHLOCK ob))"
  shows "core_but {ob} Q' A h s'" "top_ready Q' s' = top_ready Q s" "runs_next Q' s' = runs_next Q s"
proof -
  note cd = core_butD [OF c]
  have cx: "status (tctx s' u) = status (tctx s u)" "priority (tctx s' u) = priority (tctx s u)" "blockqueue (tctx s' u) = blockqueue (tctx s u)"
    "time (tctx s' u) = time (tctx s u)" "flags (tctx s' u) = flags (tctx s u)" for u using x(1) by (simp_all add: same_ctxs_def)
  have mem: "\<exists>q'. t \<in> set (Q q')" if "t \<in> set (Q' q)" for t q using that o m by (cases "q = Waiters ob"; cases "q = Conds ob") auto
  have blkd: "blockqueue (tctx s' t) = Some q \<or> (\<exists>x. q = Waiters x \<and> blockqueue (tctx s' t) = Some (Conds x))"
    if t: "t \<in> set (Q' q)" "\<not> is_ready q" for t q
  proof -
    have w: "blockqueue (tctx s t) = Some (Waiters ob) \<or> blockqueue (tctx s t) = Some (Conds ob)" if "t \<in> set (Q (Waiters ob))"
      using queues_okD(4) [OF cd(1) that] by auto
    have cn: "blockqueue (tctx s t) = Some (Conds ob)" if "t \<in> set (Q (Conds ob))" using queues_okD(4) [OF cd(1) that] by auto
    consider "q = Waiters ob" | "q = Conds ob" | "q \<noteq> Waiters ob" "q \<noteq> Conds ob" by blast
    then show ?thesis
    proof cases
      case 1
      with t(1) m(1) w cn show ?thesis unfolding cx by blast
    next
      case 2
      with t(1) m(2) cn show ?thesis unfolding cx by blast
    next
      case 3
      with t o have "t \<in> set (Q q)" by auto
      from queues_okD(4) [OF cd(1) this t(2)] show ?thesis unfolding cx .
    qed
  qed
  have "Q' (Ready p) = Q (Ready p)" for p using o by simp
  then have Qok: "queues_ok Q' s'" using q blkd queues_okD(2,3,5) [OF cd(1)] unfolding queues_ok_def cx x(2) by simp
  have Aok: "alarms_ok Q' A s'" by (rule alarms_ok_ready_change [OF cd(2) _ al]) (use cx alarms_okD(6) [OF cd(2)] mem in blast)+
  have so: "started_ok Q' A s'"
    using cd(5) mem unfolding started_ok_def cx same_restD [OF r] has_flag_def by blast
  have "lockTable s' = lockTable s" by (rule same_restD [OF r])
  then have tb: "table_ok Q' s'" using cd(4) o tab unfolding table_ok_def by (metis qvar.distinct qvar.inject(2,3))
  show "core_but {ob} Q' A h s'" by (rule core_but_change [OF c r Qok Aok so _ tb]) (use o in auto)
  show tr: "top_ready Q' s' = top_ready Q s" using \<open>\<And>p. Q' (Ready p) = Q (Ready p)\<close> by (simp add: top_ready_def cx same_restD [OF r])
  show "runs_next Q' s' = runs_next Q s" by (simp add: runs_next_def cx same_restD [OF r] tr x(3))
qed

lemma in_queue_facts:
  assumes c: "core_but X Q A h s" and t: "t \<in> set (Q q)" "\<not> is_ready q"
  shows "status (tctx s t) \<noteq> THREAD_RUNNING" "privateInfo s t \<noteq> 0" "t \<in> set (Q q') \<Longrightarrow> q' = q"
proof -
  note cd = core_butD [OF c]
  show one: "t \<in> set (Q q') \<Longrightarrow> q' = q" for q' using queuesD(3) [OF queues_okD(1) [OF cd(1)] _ t(1)] by blast
  show "status (tctx s t) \<noteq> THREAD_RUNNING"
  proof
    assume "status (tctx s t) = THREAD_RUNNING"
    then have "t \<in> set (Q (Ready (priority (tctx s t))))" using queues_okD(3) [OF cd(1)] by simp
    from one [OF this] t(2) show False by auto
  qed
  show "privateInfo s t \<noteq> 0" by (rule started_okD(3) [OF cd(5) t(1)])
qed

lemma pop_core:
  assumes c: "core_but {ob} Q A h s" and w: "Q (Waiters ob) = t # ys" and tab: "ob \<in> set (lockTable s (HASHLOCK ob))"
  obtains s' where "pop_waiter ob s = Inr (t, s')" "same_rest s s'" "core_but {ob} (Q(Waiters ob := ys)) A h s'"
    "runs_next (Q(Waiters ob := ys)) s' = runs_next Q s" "\<forall>q. t \<notin> set ((Q(Waiters ob := ys)) q)" "status (tctx s' t) \<noteq> THREAD_RUNNING"
    "privateInfo s' t \<noteq> 0" "qhead s' (Waiters ob) = None \<longleftrightarrow> ys = []"
proof -
  let ?s = "write_cell (Head (Waiters ob)) (read_cell s (NextQ t)) s" let ?Q = "Q(Waiters ob := ys)"
  note cd = core_butD [OF c]
  have "qhead s (Waiters ob) = Some t" using queues_head [OF queues_okD(1) [OF cd(1)], of "Waiters ob"] w by simp
  then have call: "pop_waiter ob s = Inr (t, ?s)" by (simp add: pop_waiter_def)
  have qs: "queues (read_cell ?s) ?Q" unfolding read_write_cell by (rule queues_pop [OF queues_okD(1) [OF cd(1)] w])
  have rest: "same_rest s ?s" by (simp del: write_cell.simps)
  have ctxs: "same_ctxs s ?s" by (simp add: same_ctxs_def del: write_cell.simps)
  have tl: "threadQtail ?s = threadQtail s" "needReschedule ?s = needReschedule s"
    "\<forall>u. read_cell ?s (NextAlarm u) = read_cell s (NextAlarm u)" "read_cell ?s AlarmHead = read_cell s AlarmHead"
    by (simp_all del: write_cell.simps read_cell.simps)
  have mem: "\<forall>q. q \<noteq> Waiters ob \<longrightarrow> q \<noteq> Conds ob \<longrightarrow> ?Q q = Q q"
    "\<forall>t. t \<in> set (?Q (Waiters ob)) \<longrightarrow> t \<in> set (Q (Waiters ob)) \<or> t \<in> set (Q (Conds ob))" "set (?Q (Conds ob)) \<subseteq> set (Q (Conds ob))"
    using w by simp_all
  note bc = blocked_change [OF c rest ctxs tl qs mem tab]
  have tm: "t \<in> set (Q (Waiters ob))" using w by simp
  note f = in_queue_facts [OF c tm]
  have d: "distinct (t # ys)" using queuesD(2) [OF queues_okD(1) [OF cd(1)], of "Waiters ob"] w by simp
  have out: "\<forall>q. t \<notin> set (?Q q)" using f(3) d by auto
  have "read_cell ?s (Head (Waiters ob)) = None \<longleftrightarrow> ys = []" using queues_head_None [OF qs, of "Waiters ob"] by simp
  then have hd: "qhead ?s (Waiters ob) = None \<longleftrightarrow> ys = []" by (simp only: read_cell.simps)
  have pi: "privateInfo ?s t \<noteq> 0" using f(2) same_restD(1) [OF rest] by simp
  have st: "status (tctx ?s t) \<noteq> THREAD_RUNNING" using f(1) by (simp del: write_cell.simps)
  show thesis by (rule that [OF call rest bc(1,3) out st pi hd])
qed

lemma unlock_ok:
  assumes u: "in_user Q A h s" and n: "0 < h (currentThread s) ob"
  shows "runs_well (perform now (OUnlock ob) (s, h))"
proof -
  let ?c = "currentThread s" let ?w = "lock_info s ob" let ?w' = "?w - 0x20000" let ?h = "set_hold ?c ob (h ?c ob - 1) h" let ?s1 = "set_lock ob ?w' s"
  note cu = in_userD [OF u]
  note hc = holder_is_current [OF u disjI1 [OF n]]
  note f = minus_fields [OF hc(1)]
  have u1: "in_user Q A ?h ?s1"
    by (rule in_user_lock [OF u]) (use f hc in \<open>auto simp: is_owner_iff\<close>)
  have ge: "drop_bit 16 ?w \<ge> 2" using hc(1) by (simp add: unlock_test)
  show ?thesis
  proof (cases "drop_bit 16 ?w' = 1")
    case False
    with ge have "perform now (OUnlock ob) (s, h) = Some (Inr (?s1, ?h))" by (simp add: unlockMutex_def Let_def)
    then show ?thesis by (rule runs_wellI [OF in_user_machine [OF u1]])
  next
    case True
    then have z: "sem ?w' = 0" "waiter_bit ?w'" by (simp_all add: last_unlock)
    then have "Q (Waiters ob) \<noteq> []" using f hc(5) by simp
    then obtain t ys where w: "Q (Waiters ob) = t # ys" by (cases "Q (Waiters ob)") auto
    note c1 = in_userD [OF u1]
    let ?s2 = "getLock ob (intsDisable ?s1)"
    have c2: "core_but {ob} Q A ?h (intsDisable ?s1)" using core_but_mono [OF c1(1), of "{ob}"] by simp
    obtain s3 where s3: "pop_waiter ob ?s2 = Inr (t, s3)" "same_rest ?s2 s3" "core_but {ob} (Q(Waiters ob := ys)) A ?h s3"
      "runs_next (Q(Waiters ob := ys)) s3 = runs_next Q ?s2" "\<forall>q. t \<notin> set ((Q(Waiters ob := ys)) q)" "status (tctx s3 t) \<noteq> THREAD_RUNNING"
      "privateInfo s3 t \<noteq> 0" "qhead s3 (Waiters ob) = None \<longleftrightarrow> ys = []"
      by (rule pop_core [OF getLock_core(1) [OF c2] w getLock_core(2) [OF c2]]) (rule that)
    define s4 where "s4 = (if qhead s3 (Waiters ob) = None then set_lock ob 0 s3 else s3)"
    note r3 = same_restD [OF s3(2)]
    have i4: "core_but {ob} (Q(Waiters ob := ys)) A ?h s4" "status (tctx s4 t) \<noteq> THREAD_RUNNING" "1 \<le> blockInts s4" "privateInfo s4 t \<noteq> 0"
      using s3(3,6,7) c1(4) r3 by (simp_all add: s4_def)
    let ?R = "resumed t (priority (tctx s4 t)) (Q(Waiters ob := ys))"
    obtain s5 where s5: "iresumeThread t s4 = Some (Inr s5)" "same_rest s4 s5" "core_but {ob} ?R (remove1 t A) ?h s5"
      "runs_next (Q(Waiters ob := ys)) s4 \<Longrightarrow> runs_next ?R s5"
      by (rule iresume_core [OF i4(1,2,3) s3(5) i4(4)]) (rule that)
    have run4: "runs_next (Q(Waiters ob := ys)) s4" using s3(4) c1(6,8) by (simp add: s4_def runs_next_def)
    note r5 = same_restD [OF s5(2)]
    have li: "lock_info s4 ob = (if ys = [] then 0 else ?w')" using r3(4) s3(8) by (simp add: s4_def)
    have Rw: "?R (Waiters ob) = ys" by (subst resumed_same [OF s3(5)]) simp_all
    have "lock_ok ?R ?h s5 ob"
      unfolding lock_ok_def r5 li Rw using z const_fields hc(4) f(1) z(1) hc(3) by (simp add: set_hold_def)
    with s5(3) have c5: "core ?R (remove1 t A) ?h s5" by (rule core_but_lock)
    have "machine_ok ?R (remove1 t A) (intsRestore s5, ?h)"
      using c5 s5(4) [OF run4] c1(2,3,4,7) r3 r5 by (intro intsRestore_ok) (simp_all add: s4_def others_ok_def)
    moreover have "perform now (OUnlock ob) (s, h) = Some (Inr (intsRestore s5, ?h))"
      using ge True s3(1) s5(1) by (simp add: unlockMutex_def wakeup_waiter_def Let_def s4_def)
    ultimately show ?thesis by (rule runs_wellI)
  qed
qed

lemma set_lock_twice [simp]: "set_lock ob x (set_lock ob y s) = set_lock ob x s"
  by (simp add: set_lock_def)

text \<open>The part of \<open>_waitCond\<close> that passes the monitor on.\<close>

lemma pass_on:
  assumes c: "core_but {ob} Q A h s" and tab: "ob \<in> set (lockTable s (HASHLOCK ob))" and r: "runs_next Q s" and b: "1 \<le> blockInts s"
    and w: "sem (lock_info s ob) = 0" "waiter_bit (lock_info s ob) \<longleftrightarrow> Q (Waiters ob) \<noteq> []"
  obtains s' Q' A' where "(if qhead s (Waiters ob) \<noteq> None then
        and_then (Some (pop_waiter ob s)) (\<lambda>(t, s). iresumeThread t (set_lock ob (if qhead s (Waiters ob) = None then 0 else HAS_WAITERS_MASK) s))
      else Some (Inr s)) = Some (Inr s')"
    "core_but {ob} Q' A' h s'" "runs_next Q' s'" "sem (lock_info s' ob) = 0" "waiter_bit (lock_info s' ob) \<longleftrightarrow> Q' (Waiters ob) \<noteq> []"
    "privateInfo s' = privateInfo s" "currentThread s' = currentThread s" "blockInts s' = blockInts s" "lockTable s' = lockTable s" "konts s' = konts s"
proof (cases "Q (Waiters ob)")
  case Nil
  then have "qhead s (Waiters ob) = None" using queues_head [OF queues_okD(1) [OF core_butD(1) [OF c]], of "Waiters ob"] by simp
  with c r w show thesis by (intro that [of s Q A]) simp_all
next
  case (Cons t ys)
  let ?Q = "Q(Waiters ob := ys)"
  have hd: "qhead s (Waiters ob) = Some t" using queues_head [OF queues_okD(1) [OF core_butD(1) [OF c]], of "Waiters ob"] Cons by simp
  obtain s3 where s3: "pop_waiter ob s = Inr (t, s3)" "same_rest s s3" "core_but {ob} ?Q A h s3"
    "runs_next ?Q s3 = runs_next Q s" "\<forall>q. t \<notin> set (?Q q)" "status (tctx s3 t) \<noteq> THREAD_RUNNING"
    "privateInfo s3 t \<noteq> 0" "qhead s3 (Waiters ob) = None \<longleftrightarrow> ys = []"
    by (rule pop_core [OF c Cons tab]) (rule that)
  let ?w = "if qhead s3 (Waiters ob) = None then 0 else HAS_WAITERS_MASK" let ?s4 = "set_lock ob ?w s3"
  note r3 = same_restD [OF s3(2)]
  have i4: "core_but {ob} ?Q A h ?s4" "status (tctx ?s4 t) \<noteq> THREAD_RUNNING" "1 \<le> blockInts ?s4" "privateInfo ?s4 t \<noteq> 0"
    using s3(3,6,7) b r3 by simp_all
  let ?R = "resumed t (priority (tctx ?s4 t)) ?Q"
  obtain s5 where s5: "iresumeThread t ?s4 = Some (Inr s5)" "same_rest ?s4 s5" "core_but {ob} ?R (remove1 t A) h s5" "runs_next ?Q ?s4 \<Longrightarrow> runs_next ?R s5"
    by (rule iresume_core [OF i4(1,2,3) s3(5) i4(4)]) (rule that)
  note r5 = same_restD [OF s5(2)]
  have run: "runs_next ?Q ?s4" using s3(4) r by (simp add: runs_next_def)
  have Rw: "?R (Waiters ob) = ys" by (subst resumed_same [OF s3(5)]) simp_all
  have li: "lock_info s5 ob = ?w" by (simp add: r5)
  show thesis
  proof (rule that [of s5 ?R "remove1 t A"])
    show "sem (lock_info s5 ob) = 0" unfolding li by (simp add: const_fields)
    show "waiter_bit (lock_info s5 ob) \<longleftrightarrow> ?R (Waiters ob) \<noteq> []" unfolding li Rw using s3(8) by (simp add: const_fields)
  qed (use s3(1) s5(1,3) s5(4) [OF run] hd r3 r5 in simp_all)
qed

lemma wait_ok:
  assumes u: "in_user Q A h s" and n: "0 < h (currentThread s) ob" and to: "\<not> sint timeout > 0"
  shows "runs_well (perform now (OWait ob timeout) (s, h))"
proof -
  let ?c = "currentThread s" let ?w = "lock_info s ob" let ?w' = "?w AND NOT (SEMAPHORE_MASK OR OWNER_ID_MASK)"
  let ?h = "set_hold ?c ob 0 h" let ?s1 = "intsDisable (set_lock ob ?w' s)" let ?s2 = "getLock ob ?s1"
  note cu = in_userD [OF u]
  note hc = holder_is_current [OF u disjI1 [OF n]]
  have "core_but {ob} Q A ?h s" using core_but_mono [OF cu(1), of "{ob}"] by (rule set_hold_core) (simp add: cu(3))
  then have c1: "core_but {ob} Q A ?h ?s1" by simp
  have p2: "runs_next Q ?s2" "1 \<le> blockInts ?s2" "sem (lock_info ?s2 ob) = 0" "waiter_bit (lock_info ?s2 ob) \<longleftrightarrow> Q (Waiters ob) \<noteq> []"
    using cu(4,6,8) hc(5) release_fields [of ?w] by (simp_all add: runs_next_def)
  obtain s5 Q5 A5 where s5: "(if qhead ?s2 (Waiters ob) \<noteq> None then
        and_then (Some (pop_waiter ob ?s2)) (\<lambda>(t, s). iresumeThread t (set_lock ob (if qhead s (Waiters ob) = None then 0 else HAS_WAITERS_MASK) s))
      else Some (Inr ?s2)) = Some (Inr s5)"
    "core_but {ob} Q5 A5 ?h s5" "runs_next Q5 s5" "sem (lock_info s5 ob) = 0" "waiter_bit (lock_info s5 ob) \<longleftrightarrow> Q5 (Waiters ob) \<noteq> []"
    "privateInfo s5 = privateInfo ?s2" "currentThread s5 = currentThread ?s2" "blockInts s5 = blockInts ?s2" "lockTable s5 = lockTable ?s2" "konts s5 = konts ?s2"
    by (rule pass_on [OF getLock_core(1,2) [OF c1] p2]) (rule that)
  let ?s6 = "push_kont (K_wait ob ?w) s5"
  have f: "currentThread s5 = ?c" "privateInfo s5 = privateInfo s" "blockInts s5 = 1" "konts s5 = konts s" "ob \<in> set (lockTable s5 (HASHLOCK ob))"
    "thread_id s5 = thread_id s" "status (tctx s5 ?c) = THREAD_RUNNING"
    using s5(3,6-10) cu(4) getLock_core(2) [OF c1] by (simp_all add: thread_id_def fun_eq_iff runs_next_def)
  have "owner ?w = thread_id s ?c" using hc(2) by (simp add: is_owner_iff)
  then have c6: "core_but {ob} Q5 A5 ?h ?s6"
    using s5(2) cu(7) f hc(1) by (intro core_but_push frames_push) (simp_all add: core_butD(6))
  have z: "\<forall>t. ?h t ob = 0" using hc(4) by (simp add: set_hold_def)
  let ?S = "suspended ?c (priority (tctx s5 ?c)) (Some (Conds ob)) Q5"
  have lk: "lock_ok ?S ?h ?s6 ob" unfolding lock_ok_def using s5(4,5) z by (simp add: suspended_Waiters)
  have oth: "others_ok ?s6" using cu(2) by (simp add: others_ok_def f)
  obtain s' Q' A' where "suspendOnQThread now (currentThread ?s6) (Some (Conds ob)) timeout True ?s6 = Some (Inr s')" "machine_ok Q' A' (s', ?h)"
    by (rule suspend_switch [OF c6 oth, of "Conds ob" timeout]) (use cu(3,7) f to lk in simp_all)
  moreover have "waitCond now ob timeout s = and_then (suspendOnQThread now (currentThread ?s6) (Some (Conds ob)) timeout True ?s6) (\<lambda>s. Some (Inr (True, s)))"
    using hc(2) unfolding waitCond_def Let_def s5(1) by (simp add: f(1))
  ultimately show ?thesis by (intro runs_wellI [of Q' A' "(s', ?h)"]) simp_all
qed

lemma after_wait_ok:
  assumes c: "core Q A h s" "others_ok s" "konts s (currentThread s) = []" "blockInts s = 1" "\<not> needReschedule s" "top_ready Q s"
      "privateInfo s (currentThread s) \<noteq> 0"
    and w: "owner w = thread_id s (currentThread s)" "0 < sem w" "ob \<in> set (lockTable s (HASHLOCK ob))"
  shows "runs_well (and_then (after_wait now ob w s) (\<lambda>s. Some (Inr (s, h))))"
proof (cases "sem (lock_info s ob) = 0")
  case True
  let ?s1 = "push_kont (K_waited ob w) s"
  have "core_but {} Q A h ?s1" using c(1,7) w by (intro core_but_push frames_push) (simp_all add: core_but_empty [symmetric] coreD(6))
  moreover have "after_wait now ob w s = Some (Inr (?s1\<lparr>blockInts := 0\<rparr>))"
    using True c(4,5) by (simp add: after_wait_def sem_mask_pos intsRestore_def)
  moreover have "others_ok ?s1" using c(2) by (simp add: others_ok_def)
  ultimately show ?thesis
    using c True by (intro runs_wellI [of Q A "(?s1\<lparr>blockInts := 0\<rparr>, h)"]) (simp_all add: machine_ok_def phase_def core_but_empty others_ok_def)
next
  case False
  let ?c = "currentThread s"
  let ?s1 = "set_lock ob (lock_info s ob OR HAS_WAITERS_MASK) s" let ?s2 = "push_kont (K_wait ob w) ?s1"
  note l = coreD(3) [OF c(1), of ob, unfolded lock_ok_def]
  have c1: "core_but {ob} Q A h ?s1" using core_but_mono [OF c(1), of "{ob}"] by simp
  then have c2: "core_but {ob} Q A h ?s2" using c(7) w core_butD(6) [OF c1] by (intro core_but_push frames_push) simp_all
  let ?S = "suspended ?c (priority (tctx s ?c)) (Some (Waiters ob)) Q"
  have lk: "lock_ok ?S h ?s2 ob"
    using l False unfolding lock_ok_def by (simp add: suspended_Waiters or_waiters_fields thread_id_def)
  have oth: "others_ok ?s2" using c(2) by (simp add: others_ok_def)
  have run: "status (tctx s ?c) = THREAD_RUNNING" using c(6) by (simp add: top_ready_def)
  obtain s3 Q' A' where "suspendOnQThread now (currentThread ?s2) (Some (Waiters ob)) 0 True ?s2 = Some (Inr s3)" "machine_ok Q' A' (s3, h)"
    by (rule suspend_switch [OF c2 oth, of "Waiters ob" 0]) (use c w run lk in simp_all)
  moreover have "after_wait now ob w s = suspendOnQThread now (currentThread ?s2) (Some (Waiters ob)) 0 True ?s2"
    using False by (simp add: after_wait_def sem_mask_pos Let_def)
  ultimately show ?thesis by (intro runs_wellI [of Q' A' "(s3, h)"]) simp_all
qed

lemma finish_wait_ok:
  assumes u: "in_user Q A h s" and z: "sem (lock_info s ob) = 0" and w: "owner w = thread_id s (currentThread s)" "0 < sem w"
  shows "machine_ok Q A (finish_wait ob w s, set_hold (currentThread s) ob (sem w) h)"
proof -
  note cu = in_userD [OF u]
  have hz: "\<forall>t. h t ob = 0" using coreD(3) [OF cu(1), of ob] z by (simp add: lock_ok_def)
  have k: "\<not> has_flag THREAD_FLAGS_KILLED (currentThread s) (set_lock ob w s)"
    using started_okD(7) [OF coreD(5) [OF cu(1)]] by (simp add: has_flag_def)
  have q: "qhead s (Waiters ob) \<noteq> None \<longleftrightarrow> Q (Waiters ob) \<noteq> []"
    using queues_head_None [OF queues_okD(1) [OF coreD(1) [OF cu(1)]], of "Waiters ob"] by simp
  let ?w = "if qhead s (Waiters ob) \<noteq> None then w OR HAS_WAITERS_MASK else w AND NOT HAS_WAITERS_MASK"
  have e: "finish_wait ob w s = set_lock ob ?w s" using k by (simp add: finish_wait_def Let_def)
  have "in_user Q A (set_hold (currentThread s) ob (sem w) h) (set_lock ob ?w s)"
    by (rule in_user_lock [OF u]) (use w q hz in \<open>auto simp: or_waiters_fields clear_waiters_fields\<close>)
  then show ?thesis unfolding e by (rule in_user_machine)
qed

text \<open>The splice of one queue before another.\<close>

lemma queues_splice:
  assumes q: "queues rd Q" and ne: "Q a \<noteq> []" "a \<noteq> b"
  shows "queues (rd(end_cell NextQ (Head a) (Q a) := rd (Head b), Head b := rd (Head a), Head a := None)) (Q(b := Q a @ Q b, a := []))"
proof -
  let ?l = "NextQ (last (Q a))" let ?rd1 = "rd(?l := rd (Head b))" let ?rd2 = "?rd1(Head b := rd (Head a))" let ?rd = "?rd2(Head a := None)"
  have e: "end_cell NextQ (Head a) (Q a) = ?l" using ne by (simp add: end_cell_def)
  note ch = queuesD(1) [OF q] and di = queuesD(2) [OF q] and ex = queuesD(3) [OF q]
  have lin: "last (Q a) \<in> set (Q a)" using ne(1) by simp
  have notb: "last (Q a) \<notin> set (Q b)" using ex [OF lin] ne(2) by blast
  have wb: "chain NextQ ?rd1 ?l (Q b)"
  proof (cases "Q b")
    case Nil
    then show ?thesis using ch [of b] by simp
  next
    case (Cons y ys)
    then have "?l \<noteq> NextQ y" "?l \<notin> NextQ ` set ys" using notb by auto
    then have "chain NextQ ?rd1 (NextQ y) ys" using ch [of b] Cons by (subst ql.chain_upd) auto
    then show ?thesis using ch [of b] Cons by simp
  qed
  have all1: "chain NextQ ?rd1 (Head a) (Q a @ Q b)"
    using ch [of a] di [of a] wb ne(1) by (intro ql.chain_join [of rd "Head a" "Q a" "[]"]) (auto simp: e)
  obtain x xs where xs: "Q a @ Q b = x # xs" using ne(1) by (cases "Q a") auto
  have hx: "rd (Head a) = Some x" using all1 xs by simp
  have "chain NextQ ?rd (Head b) (x # xs)"
  proof -
    have "chain NextQ ?rd1 (NextQ x) xs" using all1 xs by simp
    then have "chain NextQ ?rd (NextQ x) xs" by (subst ql.chain_upd, force, force, subst ql.chain_upd) auto
    with hx ne(2) show ?thesis by simp
  qed
  then have cb: "chain NextQ ?rd (Head b) (Q a @ Q b)" unfolding xs .
  have ca: "chain NextQ ?rd (Head a) []" by simp
  have other: "chain NextQ ?rd (Head c) (Q c)" if "c \<noteq> a" "c \<noteq> b" for c
  proof -
    have "last (Q a) \<notin> set (Q c)" using ex [OF lin] that by blast
    then have "\<forall>z\<in>set (Q c). ?rd (NextQ z) = rd (NextQ z)" "?rd (Head c) = rd (Head c)" using that by auto
    from chain_cong [of ?rd "Head c" rd "Q c" NextQ, OF this(2,1)] show ?thesis using ch [of c] by blast
  qed
  have "chain NextQ ?rd (Head c) ((Q(b := Q a @ Q b, a := [])) c)" for c using ca cb other ne(2) by (cases "c = a"; cases "c = b") auto
  moreover have "distinct ((Q(b := Q a @ Q b, a := [])) c)" for c using di ex ne(2) by auto
  moreover have "set ((Q(b := Q a @ Q b, a := [])) c) \<inter> set ((Q(b := Q a @ Q b, a := [])) c') = {}" if "c \<noteq> c'" for c c'
    using that ex ne(2) by (auto split: if_splits)
  ultimately show ?thesis unfolding queues_def e by blast
qed

lemma cond_queue_ok:
  assumes u: "in_user Q A h s" and n: "0 < h (currentThread s) ob" and s2: "s2 = getLock ob (intsDisable s)"
    and r: "same_rest s2 s3" "same_ctxs s2 s3" "threadQtail s3 = threadQtail s2" "needReschedule s3 = needReschedule s2"
      "\<forall>u. read_cell s3 (NextAlarm u) = read_cell s2 (NextAlarm u)" "read_cell s3 AlarmHead = read_cell s2 AlarmHead"
    and q: "queues (read_cell s3) Q'" "\<forall>q. q \<noteq> Waiters ob \<longrightarrow> q \<noteq> Conds ob \<longrightarrow> Q' q = Q q"
      "\<forall>t. t \<in> set (Q' (Waiters ob)) \<longrightarrow> t \<in> set (Q (Waiters ob)) \<or> t \<in> set (Q (Conds ob))" "set (Q' (Conds ob)) \<subseteq> set (Q (Conds ob))"
      "Q' (Waiters ob) \<noteq> []"
  shows "machine_ok Q' A (intsRestore (set_lock ob (lock_info s3 ob OR HAS_WAITERS_MASK) s3), h)"
proof -
  note cu = in_userD [OF u]
  have c1: "core_but {ob} Q A h (intsDisable s)" using core_but_mono [OF cu(1), of "{ob}"] by simp
  note c2 = getLock_core(1,2) [OF c1, of ob, folded s2]
  note bc = blocked_change [OF c2(1) r q(1-4) c2(2)]
  note rr = same_restD [OF r(1)]
  let ?s4 = "set_lock ob (lock_info s3 ob OR HAS_WAITERS_MASK) s3"
  have li: "lock_info s3 = lock_info s" "privateInfo s3 = privateInfo s" "thread_id s3 = thread_id s" using rr by (simp_all add: s2)
  have lk: "lock_ok Q' h ?s4 ob"
    using coreD(3) [OF cu(1), of ob] q(5) unfolding lock_ok_def by (auto simp: or_waiters_fields li split: if_splits)
  have "core_but {ob} Q' A h ?s4" using bc(1) by simp
  then have core: "core Q' A h ?s4" using lk by (rule core_but_lock)
  have "runs_next Q s2" using cu(6,8) by (simp add: runs_next_def s2)
  then have run: "runs_next Q' ?s4" using bc(3) by (simp add: runs_next_def)
  show ?thesis using core run cu(2,3,4,7) rr by (intro intsRestore_ok) (simp_all add: s2 others_ok_def)
qed

lemma no_cond_ok:
  assumes u: "in_user Q A h s"
  shows "machine_ok Q A (intsRestore (getLock ob (intsDisable s)), h)"
proof -
  note cu = in_userD [OF u]
  have "core_but {} Q A h (intsDisable s)" using cu(1) by (simp add: core_but_empty)
  from getLock_core(1) [OF this, of ob] have "core Q A h (getLock ob (intsDisable s))" by (simp add: core_but_empty)
  then show ?thesis using cu by (intro intsRestore_ok) (simp_all add: runs_next_def)
qed

lemma signal_ok:
  assumes u: "in_user Q A h s" and n: "0 < h (currentThread s) ob"
  shows "runs_well (perform now (OSignal ob) (s, h))"
proof -
  define s2 where "s2 = getLock ob (intsDisable s)"
  note cu = in_userD [OF u]
  have own: "is_owner s ob" by (rule holder_is_current(2) [OF u disjI1 [OF n]])
  have c1: "core_but {ob} Q A h (intsDisable s)" using core_but_mono [OF cu(1), of "{ob}"] by simp
  have qs: "queues (read_cell s2) Q" using queues_okD(1) [OF core_butD(1) [OF getLock_core(1) [OF c1, of ob]]] by (simp add: s2_def)
  show ?thesis
  proof (cases "Q (Conds ob)")
    case Nil
    then have "qhead s2 (Conds ob) = None" using queues_head [OF qs, of "Conds ob"] by simp
    then have "perform now (OSignal ob) (s, h) = Some (Inr (intsRestore s2, h))" using own by (simp add: signalCond_def Let_def flip: s2_def)
    with no_cond_ok [OF u, of ob] show ?thesis unfolding s2_def by (rule runs_wellI)
  next
    case (Cons t ys)
    let ?Q1 = "Q(Conds ob := ys)" let ?Q' = "?Q1(Waiters ob := t # ?Q1 (Waiters ob))"
    have hd: "qhead s2 (Conds ob) = Some t" using queues_head [OF qs, of "Conds ob"] Cons by simp
    let ?s3 = "write_cell (Head (Conds ob)) (read_cell s2 (NextQ t)) s2"
    let ?s4 = "write_cell (NextQ t) (read_cell ?s3 (Head (Waiters ob))) ?s3"
    let ?s5 = "write_cell (Head (Waiters ob)) (Some t) ?s4"
    have q1: "queues (read_cell ?s3) ?Q1" unfolding read_write_cell by (rule queues_pop [OF qs Cons])
    have tm: "t \<in> set (Q (Conds ob))" using Cons by simp
    have "t \<notin> set ys" using queuesD(2) [OF qs, of "Conds ob"] Cons by simp
    then have out: "\<forall>q. t \<notin> set (?Q1 q)" using queuesD(3) [OF qs tm] by auto
    have q2: "queues (read_cell ?s5) ?Q'"
      using queues_push [OF q1 out, of "Waiters ob"] by (simp only: read_write_cell)
    have x: "same_rest s2 ?s5" "same_ctxs s2 ?s5" "threadQtail ?s5 = threadQtail s2" "needReschedule ?s5 = needReschedule s2"
      "\<forall>u. read_cell ?s5 (NextAlarm u) = read_cell s2 (NextAlarm u)" "read_cell ?s5 AlarmHead = read_cell s2 AlarmHead"
      by (simp_all add: same_ctxs_def del: write_cell.simps read_cell.simps)
    have mem: "\<forall>q. q \<noteq> Waiters ob \<longrightarrow> q \<noteq> Conds ob \<longrightarrow> ?Q' q = Q q"
      "\<forall>t. t \<in> set (?Q' (Waiters ob)) \<longrightarrow> t \<in> set (Q (Waiters ob)) \<or> t \<in> set (Q (Conds ob))" "set (?Q' (Conds ob)) \<subseteq> set (Q (Conds ob))"
      "?Q' (Waiters ob) \<noteq> []" using Cons by auto
    have "perform now (OSignal ob) (s, h) = Some (Inr (intsRestore (set_lock ob (lock_info ?s5 ob OR HAS_WAITERS_MASK) ?s5), h))"
      using own hd by (simp add: signalCond_def Let_def flip: s2_def)
    with cond_queue_ok [OF u n s2_def x q2 mem] show ?thesis by (rule runs_wellI)
  qed
qed

lemma broadcast_ok:
  assumes u: "in_user Q A h s" and n: "0 < h (currentThread s) ob"
  shows "runs_well (perform now (OBroadcast ob) (s, h))"
proof -
  define s2 where "s2 = getLock ob (intsDisable s)"
  note cu = in_userD [OF u]
  have own: "is_owner s ob" by (rule holder_is_current(2) [OF u disjI1 [OF n]])
  have c1: "core_but {ob} Q A h (intsDisable s)" using core_but_mono [OF cu(1), of "{ob}"] by simp
  have qs: "queues (read_cell s2) Q" using queues_okD(1) [OF core_butD(1) [OF getLock_core(1) [OF c1, of ob]]] by (simp add: s2_def)
  show ?thesis
  proof (cases "Q (Conds ob) = []")
    case True
    then have "qhead s2 (Conds ob) = None" using queues_head [OF qs, of "Conds ob"] by simp
    then have "perform now (OBroadcast ob) (s, h) = Some (Inr (intsRestore s2, h))" using own by (simp add: broadcastCond_def Let_def flip: s2_def)
    with no_cond_ok [OF u, of ob] show ?thesis unfolding s2_def by (rule runs_wellI)
  next
    case False
    let ?c = "end_cell NextQ (Head (Conds ob)) (Q (Conds ob))"
    have hd: "qhead s2 (Conds ob) \<noteq> None" using queues_head_None [OF qs, of "Conds ob"] False by simp
    have f: "find_cell NextQ (\<lambda>_. False) s2 (Head (Conds ob)) None = Some (?c, last_of None (Q (Conds ob)))"
      using find_cell_chain [OF queuesD(1) [OF qs, of "Conds ob"], of "\<lambda>_. False" None] by (simp add: takeWhile_eq_all_conv [THEN iffD2])
    have cell: "?c \<noteq> Head q" "Head q \<noteq> ?c" "?c \<noteq> LiveHead" "NextAlarm u \<noteq> ?c" "AlarmHead \<noteq> ?c" for q u using False by (auto simp: end_cell_def)
    let ?s3 = "write_cell ?c (read_cell s2 (Head (Waiters ob))) s2"
    let ?s4 = "write_cell (Head (Waiters ob)) (read_cell ?s3 (Head (Conds ob))) ?s3"
    let ?s5 = "write_cell (Head (Conds ob)) None ?s4"
    let ?Q' = "Q(Waiters ob := Q (Conds ob) @ Q (Waiters ob), Conds ob := [])"
    have "read_cell ?s3 (Head (Conds ob)) = read_cell s2 (Head (Conds ob))" unfolding read_write_cell using cell by simp
    then have q2: "queues (read_cell ?s5) ?Q'"
      using queues_splice [OF qs False, of "Waiters ob"] by (simp only: read_write_cell) simp
    have x: "same_rest s2 ?s5" "same_ctxs s2 ?s5" "threadQtail ?s5 = threadQtail s2" "needReschedule ?s5 = needReschedule s2"
      "\<forall>u. read_cell ?s5 (NextAlarm u) = read_cell s2 (NextAlarm u)" "read_cell ?s5 AlarmHead = read_cell s2 AlarmHead"
      using cell by (simp_all add: same_ctxs_def del: write_cell.simps read_cell.simps)
    have mem: "\<forall>q. q \<noteq> Waiters ob \<longrightarrow> q \<noteq> Conds ob \<longrightarrow> ?Q' q = Q q"
      "\<forall>t. t \<in> set (?Q' (Waiters ob)) \<longrightarrow> t \<in> set (Q (Waiters ob)) \<or> t \<in> set (Q (Conds ob))" "set (?Q' (Conds ob)) \<subseteq> set (Q (Conds ob))"
      "?Q' (Waiters ob) \<noteq> []" using False by auto
    have "perform now (OBroadcast ob) (s, h) = Some (Inr (intsRestore (set_lock ob (lock_info ?s5 ob OR HAS_WAITERS_MASK) ?s5), h))"
      using own hd f by (simp add: broadcastCond_def Let_def as_cells flip: s2_def del: write_cell.simps read_cell.simps)
    with cond_queue_ok [OF u n s2_def x q2 mem] show ?thesis by (rule runs_wellI)
  qed
qed

section \<open>Calls that only move threads\<close>

lemma jpriority_frame [simp]: "core_but X Q A h (s\<lparr>jpriority := x\<rparr>) = core_but X Q A h s"
  by (simp add: core_but_def lock_ok_def table_ok_def started_ok_def frames_ok_def ids_ok_def thread_id_def has_flag_def)

lemma table_ok_same:
  assumes "table_ok Q s" "\<forall>q. \<not> is_ready q \<longrightarrow> Q' q = Q q" "lockTable s' = lockTable s"
  shows "table_ok Q' s'"
  using assms by (simp add: table_ok_def)

text \<open>The end of an operation that rearranges the ready queues.\<close>

lemma moved_ok:
  assumes u: "in_user Q A h s" and e: "s1 = s\<lparr>blockInts := 1, jpriority := jp\<rparr>" and r: "same_rest s1 s'"
    and q: "queues_ok Q' s'" "alarms_ok Q' A' s'" and st: "started_ok Q' A' s'" and n: "\<forall>q. \<not> is_ready q \<longrightarrow> Q' q = Q q"
    and x: "runs_next Q' s'"
  shows "machine_ok Q' A' (intsRestore s', h)"
proof -
  have c: "core_but {} Q A h s1" using in_userD(1) [OF u] e by (simp add: core_but_empty)
  have f: "privateInfo s' = privateInfo s" "currentThread s' = currentThread s" "blockInts s' = 1" "konts s' = konts s"
    using r e by (simp_all add: same_rest_def)
  have "core_but {} Q' A' h s'"
    by (rule core_but_change [OF c r q st _ table_ok_same [OF core_butD(4) [OF c] n]]) (use n same_restD(5) [OF r] in auto)
  moreover have "others_ok s'" using in_userD(2) [OF u] by (simp add: others_ok_def f)
  ultimately show ?thesis
    by (intro intsRestore_ok) (use in_userD [OF u] x in \<open>simp_all add: core_but_empty f\<close>)
qed

lemma yield_ok:
  assumes u: "in_user Q A h s"
  shows "runs_well (perform now OYield (s, h))"
proof -
  note cu = in_userD [OF u]
  obtain s' Q' where y: "yieldThread s = Inr (intsRestore s')" "same_rest (s\<lparr>blockInts := blockInts s + 1\<rparr>) s'"
    "queues_ok Q' s'" "alarms_ok Q' A s'" "same_ctxs s s'" "runs_next Q' s'" "\<forall>q. \<not> is_ready q \<longrightarrow> Q' q = Q q" "\<forall>q. set (Q' q) = set (Q q)"
    by (rule yield_effect [OF coreD(1,2) [OF cu(1)] cu(6)]) (rule that)
  have rr: "same_rest (s\<lparr>blockInts := 1, jpriority := jpriority s\<rparr>) s'" using y(2) cu(4) by simp
  have st: "started_ok Q A (s\<lparr>blockInts := 1, jpriority := jpriority s\<rparr>)" using coreD(5) [OF cu(1)] by (simp add: started_ok_def)
  have "started_ok Q' A s'"
    by (rule started_change [OF st rr, where t = "currentThread s"])
      (use y(5,8) cu(7,8) same_ctxs_flag [OF y(5)] in \<open>auto simp: same_ctxs_def\<close>)
  then have "machine_ok Q' A (intsRestore s', h)" by (rule moved_ok [OF u refl rr y(3,4) _ y(7,6)])
  then show ?thesis by (rule runs_wellI) (simp add: y(1))
qed

lemma sleep_ok:
  assumes u: "in_user Q A h s"
  shows "runs_well (perform now (OSleep timeout) (s, h))"
proof (cases "timeout = 0")
  case True
  then show ?thesis by (intro runs_wellI [OF in_user_machine [OF u]]) (simp add: sleepThread_def)
next
  case False
  note cu = in_userD [OF u]
  let ?s = "push_kont K_intsRestore (intsDisable s)" let ?c = "currentThread s"
  let ?S = "suspended ?c (priority (tctx s ?c)) None Q"
  have "core Q A h ?s" using cu(1,7) by (simp add: core_push_plain)
  then have c: "core_but {} Q A h ?s" by (simp add: core_but_empty)
  have run: "status (tctx ?s ?c) = THREAD_RUNNING" using cu(8) by simp
  obtain s' A' where s': "suspend_body now ?c None timeout ?s = Some (Inr (True, s'))" "same_rest ?s s'" "core_but {} ?S A' h s'"
    by (rule suspend_core [OF c run, of None timeout now]) (simp, rule that, simp_all)
  have f: "privateInfo s' = privateInfo s" "currentThread s' = ?c" "blockInts s' = 1" "konts s' = (konts s)(?c := [K_intsRestore])"
    using s'(2) cu(3,4) by (simp_all add: same_rest_def)
  have "machine_ok ?S A' (resched_round False 1 s', h)"
    by (rule resched_round_ok) (use s'(3) cu(2,7) f in \<open>auto simp: core_but_empty others_ok_def\<close>)
  moreover have "perform now (OSleep timeout) (s, h) = Some (Inr (resched_round False 1 s', h))"
    using False s'(1) f by (simp add: sleepThread_def suspendOnQThread_def reschedule_def)
  ultimately show ?thesis by (rule runs_wellI)
qed

lemma reprioritised_same: "\<not> is_ready q \<Longrightarrow> reprioritised t p prio Q q = Q q"
  by (auto simp: reprioritised_def Let_def)

lemma reprioritised_subset: "set (reprioritised t p prio Q q) \<subseteq> insert t (set (Q q))"
  by (auto simp: reprioritised_def Let_def dest: set_mp [OF set_remove1_subset])

lemma priority_only_ok:
  assumes c: "core Q A h s" and st: "status (tctx s t) \<noteq> THREAD_RUNNING" and p: "MIN_PRIORITY \<le> prio" "prio \<le> MAX_PRIORITY"
  shows "core Q A h (upd_ctx t (\<lambda>c. c\<lparr>priority := prio\<rparr>) s)"
proof -
  let ?s = "upd_ctx t (\<lambda>c. c\<lparr>priority := prio\<rparr>) s"
  have x: "status (tctx ?s u) = status (tctx s u)" "time (tctx ?s u) = time (tctx s u)" "blockqueue (tctx ?s u) = blockqueue (tctx s u)"
    "flags (tctx ?s u) = flags (tctx s u)" "u \<noteq> t \<Longrightarrow> priority (tctx ?s u) = priority (tctx s u)" "priority (tctx ?s t) = prio" for u
    by (simp_all add: upd_ctx_def)
  have rc: "read_cell ?s = read_cell s" by (rule ext, case_tac x) (simp_all add: upd_ctx_def)
  have fl: "has_flag m u ?s = has_flag m u s" for m u by (simp add: has_flag_def x)
  have r: "same_rest s ?s" by simp
  have rd: "u \<in> set (Q (Ready p)) \<longleftrightarrow> status (tctx ?s u) = THREAD_RUNNING \<and> priority (tctx ?s u) = p" for u p
    using queues_okD(3) [OF coreD(1) [OF c], of u p] st by (cases "u = t") (auto simp: x)
  have q: "queues_ok Q ?s" using coreD(1) [OF c] rd unfolding queues_ok_def rc by (simp add: x(3))
  have a: "alarms_ok Q A ?s" using coreD(2) [OF c] unfolding alarms_ok_def rc x(1,2) fl .
  have so: "started_ok Q A ?s" unfolding started_ok_def
  proof (intro allI conjI impI, goal_cases)
    case (1 u) then show ?case unfolding x(1) using started_okD(1-4) [OF coreD(5) [OF c], of u] by auto
  next
    case (2 u) then show ?case using started_okD(5) [OF coreD(5) [OF c], of u] p by (cases "u = t") (simp_all add: x)
  next
    case (3 u) then show ?case using started_okD(5) [OF coreD(5) [OF c], of u] p by (cases "u = t") (simp_all add: x)
  qed (use started_okD(6,7) [OF coreD(5) [OF c]] in \<open>simp_all add: x fl\<close>)
  have tb: "table_ok Q ?s" using coreD(4) [OF c] by (simp add: table_ok_def upd_ctx_def)
  show ?thesis using core_but_change [OF _ r q a so _ tb, where X = "{}" and Q = Q and A = A] c by (simp add: core_but_empty)
qed

lemma setPriority_ok:
  assumes u: "in_user Q A h s" and al: "privateInfo s t \<noteq> 0" "MIN_PRIORITY \<le> prio" "prio \<le> MAX_PRIORITY"
  shows "runs_well (perform now (OSetPriority t prio) (s, h))"
proof (cases "status (tctx s t) = THREAD_RUNNING")
  case False
  note cu = in_userD [OF u]
  let ?s = "upd_ctx t (\<lambda>c. c\<lparr>priority := prio\<rparr>) s"
  have "status (tctx s t) = THREAD_SUSPENDED" using False started_okD(6) [OF coreD(5) [OF cu(1)]] by (cases "status (tctx s t)") auto
  then have e: "perform now (OSetPriority t prio) (s, h) = Some (Inr (?s, h))" using al by (simp add: setPriorityThread_def MAX_PRIORITY_def)
  have ne: "t \<noteq> currentThread s" using False cu(8) by auto
  then have "top_ready Q ?s" using cu(6) by (auto simp: top_ready_def upd_ctx_def)
  then have "in_user Q A h ?s"
    using cu priority_only_ok [OF cu(1) False al(2,3)] by (simp add: in_user_def others_ok_def)
  then show ?thesis using e by (rule runs_wellI [OF in_user_machine])
next
  case True
  note cu = in_userD [OF u]
  let ?R = "reprioritised t (priority (tctx s t)) prio Q"
  obtain s' where s': "setPriorityThread t prio s = Some (Inr (intsRestore s'))"
    "same_rest (s\<lparr>blockInts := blockInts s + 1, jpriority := (jpriority s)(t := prio)\<rparr>) s'" "queues_ok ?R s'" "alarms_ok ?R A s'"
    "\<forall>u. status (tctx s' u) = status (tctx s u) \<and> priority (tctx s' u) = (if u = t then prio else priority (tctx s u)) \<and> flags (tctx s' u) = flags (tctx s u)"
    "runs_next ?R s'"
    by (rule setPriority_effect [OF coreD(1,2) [OF cu(1)] cu(6) True al(1,3)]) (rule that)
  have rr: "same_rest (s\<lparr>blockInts := 1, jpriority := (jpriority s)(t := prio)\<rparr>) s'" using s'(2) cu(4) by simp
  have st: "started_ok ?R A s'" unfolding started_ok_def
  proof (intro allI conjI impI, goal_cases)
    case (1 v)
    have e: "privateInfo s' = privateInfo s" "konts s' = konts s" using rr by (simp_all add: same_rest_def)
    from 1 s'(5) have "v = t \<or> status (tctx s v) = THREAD_RUNNING \<or> v \<in> set A \<or> (\<exists>q. v \<in> set (Q q)) \<or> konts s v \<noteq> []"
      using reprioritised_subset e(2) by (metis insertE subset_iff)
    then show ?case using started_okD(1-4) [OF coreD(5) [OF cu(1)], of v] al(1) e(1) by auto
  next
    case (2 v)
    then show ?case using s'(5) al started_okD(5) [OF coreD(5) [OF cu(1)], of v] rr by (simp add: same_rest_def)
  next
    case (3 v)
    then show ?case using s'(5) al started_okD(5) [OF coreD(5) [OF cu(1)], of v] rr by (simp add: same_rest_def)
  next
    case (4 v) then show ?case using s'(5) started_okD(6) [OF coreD(5) [OF cu(1)], of v] by simp
  next
    case (5 v) then show ?case using s'(5) started_okD(7) [OF coreD(5) [OF cu(1)], of v] by (simp add: has_flag_def)
  qed
  have "machine_ok ?R A (intsRestore s', h)" by (rule moved_ok [OF u refl rr s'(3,4) st _ s'(6)]) (simp add: reprioritised_same)
  then show ?thesis by (rule runs_wellI) (simp add: s'(1))
qed

section \<open>A new thread\<close>

lemma find_context_free:
  assumes "find_context tab n = Some m" "n < length tab" "2 \<le> length tab"
  shows "\<not> tab ! m \<and> 1 \<le> m \<and> m < length tab"
proof -
  have "n < length tab \<longrightarrow> 2 \<le> length tab \<longrightarrow> \<not> tab ! m \<and> 1 \<le> m \<and> m < length tab"
  proof (rule find_context.raw_induct [OF _ assms(1)], goal_cases)
    case (1 fc tab n m)
    let ?n = "if n + 1 = length tab then 1 else n + 1"
    show ?case
    proof (intro impI)
      assume l: "n < length tab" "2 \<le> length tab"
      then have n: "1 \<le> ?n" "?n < length tab" by auto
      show "\<not> tab ! m \<and> 1 \<le> m \<and> m < length tab"
      proof (cases "tab ! ?n")
        case True
        then have "fc tab ?n = Some m" using 1(2) unfolding Let_def by (simp only: not_True_eq_False if_False)
        with 1(1) n l show ?thesis by blast
      next
        case False
        then have "m = ?n" using 1(2) unfolding Let_def by (simp only: not_False_eq_True if_True option.inject)
        with False n show ?thesis by simp
      qed
    qed
  qed
  with assms show ?thesis by blast
qed

text \<open>A context of its own for a thread that has none.\<close>

definition fresh :: "tid \<Rightarrow> nat \<Rightarrow> bool list \<Rightarrow> sched \<Rightarrow> sched \<Rightarrow> bool" where
  "fresh t n tab s s' \<longleftrightarrow> (\<forall>u. u \<noteq> t \<longrightarrow> tctx s' u = tctx s u \<and> konts s' u = konts s u \<and> privateInfo s' u = privateInfo s u) \<and>
     privateInfo s' t = n \<and> threadContext s' = tab \<and> numberOfThreads s' = numberOfThreads s + 1 \<and> ntid s' = n \<and> konts s' t = [K_intsRestore] \<and>
     status (tctx s' t) = THREAD_SUSPENDED \<and> flags (tctx s' t) = 0 \<and> blockqueue (tctx s' t) = None \<and>
     priority (tctx s' t) = jpriority s t mod 256 \<and>
     qhead s' = qhead s \<and> threadQtail s' = threadQtail s \<and> alarmList s' = alarmList s \<and> lock_info s' = lock_info s \<and> lockTable s' = lockTable s \<and>
     currentThread s' = currentThread s \<and> blockInts s' = blockInts s \<and> needReschedule s' = needReschedule s"

text \<open>The table the search of \<open>allocThreadCtx\<close> goes through.\<close>

definition search_table :: "sched \<Rightarrow> bool list" where
  "search_table s = (if int (numberOfThreads s) \<ge> int (length (threadContext s)) - 1 then threadContext s @ replicate MAXTCTX False else threadContext s)"

lemma start_fresh:
  assumes n: "find_context (search_table s) (ntid s) = Some n"
  obtains s' where "fresh t n ((search_table s)[n := True]) s s'" "startThread t s = iresumeThread t s'"
proof -
  define s' where "s' = s\<lparr>threadContext := (search_table s)[n := True], numberOfThreads := numberOfThreads s + 1, ntid := n,
    privateInfo := (privateInfo s)(t := n), tctx := (tctx s)(t := \<lparr>status = THREAD_SUSPENDED, priority = jpriority s t mod 256, time = 0,
      nextQ = None, nextlive = liveThreads s, nextalarm = None, blockqueue = None, flags = 0\<rparr>),
    liveThreads := Some t, konts := (konts s)(t := [K_intsRestore]), talive := talive s + 1,
    tdaemon := (if daemon s t then tdaemon s + 1 else tdaemon s)\<rparr>"
  have "startThread t s = iresumeThread t s'"
    using n unfolding search_table_def
    by (simp add: startThread_def allocThreadCtx_def s'_def Let_def upd_ctx_def THREAD_FLAGS_GENERAL_def search_table_def del: if_split)
  moreover have "fresh t n ((search_table s)[n := True]) s s'" by (simp add: fresh_def s'_def)
  ultimately show thesis by (intro that)
qed

lemma find_context_total:
  assumes "\<not> tab ! j" "1 \<le> j" "j < length tab" "n < length tab"
  shows "\<exists>m. find_context tab n = Some m"
  using assms(4)
proof (induction "if n < j then j - n else length tab - n + j" arbitrary: n rule: less_induct)
  case less
  let ?n = "if n + 1 = length tab then 1 else n + 1"
  have step: "find_context tab n = (if \<not> tab ! ?n then Some ?n else find_context tab ?n)"
    by (subst find_context.simps) (simp only: Let_def)
  show ?case
  proof (cases "tab ! ?n")
    case True
    then have "?n \<noteq> j" using assms(1) by metis
    then have "(if ?n < j then j - ?n else length tab - ?n + j) < (if n < j then j - n else length tab - n + j)" and "?n < length tab"
      using assms(2,3) less(2) by (auto split: if_splits)
    from less(1) [OF this] True show ?thesis using step by (simp only: not_True_eq_False if_False)
  qed (simp only: step not_False_eq_True if_True, blast)
qed

text \<open>There is always a free context besides the unused first one.\<close>

lemma search_succeeds:
  assumes "ids_ok s"
  obtains n where "find_context (search_table s) (ntid s) = Some n"
proof -
  note i = assms [unfolded ids_ok_def]
  let ?t = "search_table s"
  have cnt: "length (filter id ?t) = numberOfThreads s" using i by (simp add: search_table_def)
  have len: "numberOfThreads s + 1 < length ?t" "ntid s < length ?t" using i length_filter_le [of id "threadContext s"] by (auto simp: search_table_def MAXTCTX_def)
  have hd: "\<not> ?t ! 0" using i by (auto simp: search_table_def nth_append)
  have "\<exists>j. 1 \<le> j \<and> j < length ?t \<and> \<not> ?t ! j"
  proof (rule ccontr)
    assume "\<not> ?thesis"
    then have all: "\<forall>j. 1 \<le> j \<longrightarrow> j < length ?t \<longrightarrow> ?t ! j" by blast
    then have "{j. j < length ?t \<and> ?t ! j} = {1..<length ?t}" using hd by (auto simp: Suc_le_eq intro!: gr0I)
    then have "length (filter id ?t) = length ?t - 1" by (simp add: length_filter_conv_card)
    with cnt len show False by simp
  qed
  then obtain j where j: "1 \<le> j" "j < length ?t" "\<not> ?t ! j" by blast
  from find_context_total [OF j(3,1,2) len(2)] show thesis using that by blast
qed

lemma filter_fresh:
  assumes "n < length tab" "\<not> tab ! n"
  shows "length (filter id (tab[n := True])) = length (filter id tab) + 1"
proof -
  have "{j. j < length (tab[n := True]) \<and> tab[n := True] ! j} = insert n {j. j < length tab \<and> tab ! j}"
    using assms(1) by (auto simp: nth_list_update)
  then show ?thesis using assms by (simp add: length_filter_conv_card)
qed

lemma fresh_ids:
  assumes f: "fresh t n (tab[n := True]) s s'" and i: "ids_ok s" and z: "privateInfo s t = 0" and nn: "numberOfThreads s < 65000"
    and tab: "tab = search_table s" and n: "find_context tab (ntid s) = Some n"
  shows "ids_ok s'" "n \<noteq> 0" "\<forall>u. privateInfo s u \<noteq> n"
proof -
  note i = i [unfolded ids_ok_def] and tab = tab [unfolded search_table_def]
  have "length (threadContext s) \<le> length tab" and old: "j < length (threadContext s) \<Longrightarrow> tab ! j = threadContext s ! j" for j
    using tab by (auto simp: nth_append)
  then have len: "ntid s < length tab" "2 \<le> length tab" using i tab by (auto simp: MAXTCTX_def split: if_splits)
  note fc = find_context_free [OF n this]
  then show nz: "n \<noteq> 0" by simp
  have fr: "privateInfo s u \<noteq> n" for u
  proof
    assume e: "privateInfo s u = n"
    with i nz have "privateInfo s u < length (threadContext s)" "threadContext s ! privateInfo s u" by blast+
    with old [of "privateInfo s u"] e fc show False by simp
  qed
  then show "\<forall>u. privateInfo s u \<noteq> n" by simp
  have p: "privateInfo s' u = (if u = t then n else privateInfo s u)" for u using f by (auto simp: fresh_def)
  have th: "threadContext s' = tab[n := True]" "numberOfThreads s' = numberOfThreads s + 1" "ntid s' = n" using f by (auto simp: fresh_def)
  have "privateInfo s' u < length tab \<and> tab[n := True] ! privateInfo s' u" if "privateInfo s' u \<noteq> 0" for u
  proof (cases "u = t")
    case True
    then show ?thesis using p fc by simp
  next
    case False
    with that p have "privateInfo s u \<noteq> 0" by simp
    with i have "privateInfo s u < length (threadContext s)" "threadContext s ! privateInfo s u" by blast+
    with old [of "privateInfo s u"] \<open>length (threadContext s) \<le> length tab\<close> False p fr [of u] show ?thesis by (simp add: nth_list_update)
  qed
  moreover have "u = v" if "privateInfo s' u \<noteq> 0" "privateInfo s' u = privateInfo s' v" for u v
    using that p fr i by (metis (full_types))
  moreover have "length tab \<le> numberOfThreads s + 1 + 129" using i tab by (auto simp: MAXTCTX_def split: if_splits)
  moreover have "length (filter id (tab[n := True])) = numberOfThreads s + 1" using fc i tab by (subst filter_fresh) auto
  moreover have "\<not> tab[n := True] ! 0" using i tab fc by (auto simp: nth_append)
  ultimately show "ids_ok s'" unfolding ids_ok_def th using nn fc by auto
qed

lemma fresh_queues:
  assumes f: "fresh t n tab s s'" and q: "queues_ok Q s" and a: "alarms_ok Q A s" and o: "\<forall>q. t \<notin> set (Q q)" "t \<notin> set A"
  shows "queues_ok Q s'" "alarms_ok Q A s'"
proof -
  have x: "u \<noteq> t \<Longrightarrow> tctx s' u = tctx s u" for u using f by (simp add: fresh_def)
  have h: "read_cell s' (Head q) = read_cell s (Head q)" "read_cell s' AlarmHead = read_cell s AlarmHead" for q
    using f by (simp_all add: fresh_def)
  have m: "u \<noteq> t \<Longrightarrow> read_cell s' (NextQ u) = read_cell s (NextQ u)" "u \<noteq> t \<Longrightarrow> read_cell s' (NextAlarm u) = read_cell s (NextAlarm u)" for u
    using x [of u] by simp_all
  have qs: "queues (read_cell s') Q" by (rule queues_same [OF queues_okD(1) [OF q]]) (use h m o in metis)+
  have rd: "u \<in> set (Q (Ready p)) \<longleftrightarrow> status (tctx s' u) = THREAD_RUNNING \<and> priority (tctx s' u) = p" for u p
    using queues_okD(3) [OF q, of u p] o f x [of u] by (cases "u = t") (auto simp: fresh_def)
  have bq: "u \<in> set (Q q) \<Longrightarrow> blockqueue (tctx s' u) = blockqueue (tctx s u)" "blockqueue (tctx s' u) = Some q \<Longrightarrow> blockqueue (tctx s u) = Some q" for u q
    using o f x [of u] by (cases "u = t"; auto simp: fresh_def)+
  have tl: "threadQtail s' = threadQtail s" using f by (simp add: fresh_def)
  show "queues_ok Q s'" unfolding queues_ok_def tl using qs rd bq queues_okD [OF q] by metis
  have fl: "u \<noteq> t \<Longrightarrow> has_flag k u s' = has_flag k u s" for k u using x [of u] by (simp add: has_flag_def)
  have ch: "chain NextAlarm (read_cell s') AlarmHead A" using alarms_okD(1) [OF a] o(2) h m chain_cong [of "read_cell s'" AlarmHead "read_cell s" A NextAlarm] by metis
  have so: "sorted_wrt (\<lambda>t u. sint (time (tctx s' t)) \<le> sint (time (tctx s' u))) A"
    using alarms_okD(3) [OF a] by (rule sorted_wrt_mono_rel [rotated]) (use o(2) x in metis)
  have mem: "\<forall>u\<in>set A. u \<noteq> t" using o(2) by blast
  show "alarms_ok Q A s'" unfolding alarms_ok_def using ch so alarms_okD [OF a] mem x fl by metis
qed

lemma fresh_core:
  assumes f: "fresh t n (tab[n := True]) s s'" and c: "core Q A h s" and i: "ids_ok s'" "n \<noteq> 0" and z: "privateInfo s t = 0"
    and p: "MIN_PRIORITY \<le> jpriority s t" "jpriority s t \<le> MAX_PRIORITY"
  shows "core Q A h s'" "\<forall>q. t \<notin> set (Q q)" "t \<notin> set A"
proof -
  note st = started_okD [OF coreD(5) [OF c], of t] z
  show o: "\<forall>q. t \<notin> set (Q q)" "t \<notin> set A" using st by blast+
  have e: "lock_info s' = lock_info s" "lockTable s' = lockTable s" using f by (simp_all add: fresh_def)
  have k: "u \<noteq> t \<Longrightarrow> konts s' u = konts s u" "konts s' t = [K_intsRestore]" for u using f by (simp_all add: fresh_def)
  have x: "u \<noteq> t \<Longrightarrow> tctx s' u = tctx s u" "u \<noteq> t \<Longrightarrow> privateInfo s' u = privateInfo s u" "u \<noteq> t \<Longrightarrow> thread_id s' u = thread_id s u" for u
    using f by (simp_all add: fresh_def thread_id_def)
  have fl: "u \<noteq> t \<Longrightarrow> has_flag m u s' = has_flag m u s" for m u using x [of u] by (simp add: has_flag_def)
  have lk: "lock_ok Q h s' ob" for ob
  proof (cases "sem (lock_info s ob) = 0")
    case False
    then obtain v where v: "privateInfo s v \<noteq> 0" "owner (lock_info s ob) = thread_id s v" "h v ob = sem (lock_info s ob)" "\<forall>u. u \<noteq> v \<longrightarrow> h u ob = 0"
      using coreD(3) [OF c, of ob] by (auto simp: lock_ok_def)
    then have "v \<noteq> t" using z by auto
    then have "privateInfo s' v \<noteq> 0" "owner (lock_info s ob) = thread_id s' v" using v(1,2) x [of v] by simp_all
    moreover have "waiter_bit (lock_info s ob) \<longleftrightarrow> Q (Waiters ob) \<noteq> []" using coreD(3) [OF c, of ob] by (simp add: lock_ok_def)
    ultimately show ?thesis unfolding lock_ok_def e using v(3,4) False by (simp only: if_False) blast
  qed (use coreD(3) [OF c, of ob] in \<open>simp add: lock_ok_def e\<close>)
  have fr: "frames_ok h s'" unfolding frames_ok_def e
  proof (intro allI, goal_cases)
    case (1 u ob w)
    show ?case
    proof (cases "u = t")
      case False
      then show ?thesis using coreD(6) [OF c] unfolding frames_ok_def k(1) [OF False] x(3) [OF False] by blast
    qed (simp add: k(2))
  qed
  have so: "started_ok Q A s'" unfolding started_ok_def
  proof (rule allI, goal_cases)
    case (1 u)
    show ?case
    proof (cases "u = t")
      case True
      have "priority (tctx s' t) = jpriority s t mod 256" "flags (tctx s' t) = 0" "status (tctx s' t) = THREAD_SUSPENDED" "privateInfo s' t = n"
        using f by (simp_all add: fresh_def)
      then show ?thesis using True p i(2) by (simp add: has_flag_def MAX_PRIORITY_def)
    next
      case False
      then show ?thesis using coreD(5) [OF c] fl [OF False] unfolding started_ok_def x(1,2) [OF False] k(1) [OF False] by metis
    qed
  qed
  have tb: "table_ok Q s'" using coreD(4) [OF c] by (simp add: table_ok_def e)
  show "core Q A h s'" unfolding core_def using fresh_queues [OF f coreD(1,2) [OF c] o] lk fr so i(1) tb by blast
qed

lemma start_ok:
  assumes u: "in_user Q A h s" and al: "allowed (OStart t) (s, h)"
  shows "runs_well (perform now (OStart t) (s, h))"
proof -
  note cu = in_userD [OF u]
  have z: "privateInfo s t = 0" and p: "MIN_PRIORITY \<le> jpriority s t" "jpriority s t \<le> MAX_PRIORITY" and nn: "numberOfThreads s < 65000"
    using al by simp_all
  obtain n where n: "find_context (search_table s) (ntid s) = Some n" by (rule search_succeeds [OF coreD(7) [OF cu(1)]])
  obtain s' where f: "fresh t n ((search_table s)[n := True]) s s'" "startThread t s = iresumeThread t s'" by (rule start_fresh [OF n])
  note ids = fresh_ids [OF f(1) coreD(7) [OF cu(1)] z nn refl n]
  note fc = fresh_core [OF f(1) cu(1) ids(1,2) z p]
  have ne: "t \<noteq> currentThread s" using z cu(7) by auto
  have e: "currentThread s' = currentThread s" "blockInts s' = 0" "needReschedule s' = needReschedule s" "konts s' t = [K_intsRestore]"
    "privateInfo s' t \<noteq> 0" "status (tctx s' t) \<noteq> THREAD_RUNNING"
    using f(1) cu(4) ids(2) by (simp_all add: fresh_def)
  have ot: "v \<noteq> t \<Longrightarrow> tctx s' v = tctx s v" "v \<noteq> t \<Longrightarrow> konts s' v = konts s v" "v \<noteq> t \<Longrightarrow> privateInfo s' v = privateInfo s v" for v
    using f(1) by (simp_all add: fresh_def)
  have rn: "runs_next Q (intsDisable s')"
    using cu(6,8) ne ot(1) [of "currentThread s"] e(1) by (auto simp: runs_next_def top_ready_def intsDisable_def)
  have c0: "core_but {} Q A h (intsDisable s')" using fc(1) by (simp add: core_but_empty)
  have st: "status (tctx (intsDisable s') t) \<noteq> THREAD_RUNNING" "privateInfo (intsDisable s') t \<noteq> 0" using e(5,6) by simp_all
  let ?R = "resumed t (priority (tctx (intsDisable s') t)) Q"
  obtain s3 where s3: "iresume_body t (intsDisable s') = Some (Inr s3)" "same_rest (intsDisable s') s3" "core_but {} ?R (remove1 t A) h s3"
    "runs_next Q (intsDisable s') \<Longrightarrow> runs_next ?R s3"
    by (rule iresume_body_core [OF c0 st(1) fc(2) st(2)]) (rule that)
  have g: "currentThread s3 = currentThread s" "blockInts s3 = 1" "konts s3 = konts s'" "privateInfo s3 = privateInfo s'"
    using s3(2) e by (simp_all add: same_rest_def)
  have "others_ok s3" unfolding others_ok_def g
  proof (intro allI impI)
    fix v assume v: "v \<noteq> currentThread s" "privateInfo s' v \<noteq> 0"
    show "other_ok (konts s' v)" using v cu(2) e(4) ot(2,3) [of v] by (cases "v = t") (simp_all add: others_ok_def)
  qed
  then have "machine_ok ?R (remove1 t A) (intsRestore s3, h)"
    using s3(3) s3(4) [OF rn] cu(3,7) ot(2,3) [of "currentThread s"] ne by (intro intsRestore_ok) (simp_all add: core_but_empty g)
  moreover have "perform now (OStart t) (s, h) = Some (Inr (intsRestore s3, h))" using f(2) s3(1) by (simp add: iresumeThread_def)
  ultimately show ?thesis by (rule runs_wellI)
qed

section \<open>The alarm clock and the suspended frames\<close>

lemma wake_core:
  assumes c: "core Q A h s" and b: "1 \<le> blockInts s"
  obtains Q' A' s' where "wake_alarms now s = Some (Inr s')" "same_rest s s'" "core Q' A' h s'" "runs_next Q s \<Longrightarrow> runs_next Q' s'"
proof -
  let ?due = "\<lambda>t. sint (time (tctx s t)) \<le> sint now"
  obtain Q' s' where w: "wake_alarms now s = Some (Inr s')" "same_rest s s'" "queues_ok Q' s'" "alarms_ok Q' (dropWhile ?due A) s'"
    "\<forall>q. \<not> is_ready q \<longrightarrow> Q' q = Q q"
    "\<forall>u. status (tctx s' u) = (if u \<in> set (takeWhile ?due A) then THREAD_RUNNING else status (tctx s u)) \<and> priority (tctx s' u) = priority (tctx s u)"
    "\<forall>u. has_flag THREAD_FLAGS_KILLED u s' \<longrightarrow> has_flag THREAD_FLAGS_KILLED u s" "runs_next Q s \<longrightarrow> runs_next Q' s'"
    using wake_alarms_effect [OF coreD(1,2) [OF c] b, of now] by blast
  note st = coreD(5) [OF c]
  have e: "privateInfo s' = privateInfo s" "konts s' = konts s" using w(2) by (simp_all add: same_rest_def)
  have run: "privateInfo s u \<noteq> 0" if "status (tctx s' u) = THREAD_RUNNING" for u
    using that w(6) started_okD(1,2) [OF st, of u] set_takeWhileD by (metis (full_types))
  have so: "started_ok Q' (dropWhile ?due A) s'" unfolding started_ok_def e
  proof (intro allI conjI impI, goal_cases)
    case (1 u)
    then consider "status (tctx s' u) = THREAD_RUNNING" | "u \<in> set A" | q where "u \<in> set (Q' q)" "\<not> is_ready q" | p where "u \<in> set (Q' (Ready p))" | "konts s u \<noteq> []"
      using set_dropWhileD by (metis is_ready.elims(2))
    then show ?case
    proof cases
      case 3
      with w(5) started_okD(3) [OF st, of u q] show ?thesis by simp
    next
      case 4
      with queues_okD(3) [OF w(3), of u] run show ?thesis by blast
    qed (use run started_okD [OF st, of u] in blast)+
  qed (use w(6,7) started_okD(5-7) [OF st] in \<open>auto split: if_splits\<close>)
  have "core_but {} Q' (dropWhile ?due A) h s'"
    by (rule core_but_change [OF _ w(2-4) so _ table_ok_same [OF coreD(4) [OF c] w(5)]]) (use c w(5) same_restD(5) [OF w(2)] in \<open>auto simp: core_but_empty\<close>)
  then show thesis using w(1,2,8) by (intro that) (simp_all add: core_but_empty)
qed

lemma alarm_ok:
  assumes m: "machine_ok Q A (s, h)"
    and k: "konts s (currentThread s) = [] \<or> (\<exists>w b ks. konts s (currentThread s) = K_resched w b # ks)"
  shows "runs_well (and_then (alarmException now s) (\<lambda>s. Some (Inr (s, h))))"
proof -
  let ?c = "currentThread s"
  have mo: "core Q A h s" "others_ok s" "phase Q s" "privateInfo s ?c \<noteq> 0" using m by (simp_all add: machine_ok_def)
  have b0: "blockInts s = 0" using mo(3) k by (auto simp: phase_def)
  have c1: "core Q A h (intsDisable s)" using mo(1) by simp
  have b1: "1 \<le> blockInts (intsDisable s)" using b0 by simp
  obtain Q' A' s1 where w: "wake_alarms now (intsDisable s) = Some (Inr s1)" "same_rest (intsDisable s) s1" "core Q' A' h s1"
    "runs_next Q (intsDisable s) \<Longrightarrow> runs_next Q' s1"
    by (rule wake_core [OF c1 b1]) (rule that)
  have f: "privateInfo s1 = privateInfo s" "currentThread s1 = ?c" "blockInts s1 = 1" "konts s1 = konts s"
    using w(2) b0 by (simp_all add: same_rest_def)
  have o1: "others_ok s1" using mo(2) by (simp add: others_ok_def f)
  have e: "alarmException now s = Some (Inr (intsRestore s1))" using w(1) b0 by (simp add: alarmException_def)
  show ?thesis
  proof (cases "konts s ?c = []")
    case True
    then have "runs_next Q (intsDisable s)" using mo(3) by (simp add: phase_def runs_next_def top_ready_def)
    then have "machine_ok Q' A' (intsRestore s1, h)" using w(3,4) o1 mo(4) True by (intro intsRestore_ok) (simp_all add: f)
    then show ?thesis by (rule runs_wellI) (simp add: e)
  next
    case False
    with k obtain wt b ks where ks: "konts s ?c = K_resched wt b # ks" by blast
    with mo(3) have sk: "b = 1" "stack_ok ks" by (simp_all add: phase_def)
    show ?thesis
    proof (cases "needReschedule s1")
      case True
      have "machine_ok Q' A' (resched_round False 1 (push_kont K_decInts s1), h)"
        by (rule resched_round_ok) (use w(3) o1 mo(4) ks sk in \<open>simp_all add: f others_ok_def\<close>)
      then show ?thesis by (rule runs_wellI) (use True f(3) in \<open>simp add: e intsRestore_def reschedule_def\<close>)
    next
      case False
      then have "intsRestore s1 = s1\<lparr>blockInts := 0\<rparr>" using f(3) by (simp add: intsRestore_def)
      moreover have "machine_ok Q' A' (s1\<lparr>blockInts := 0\<rparr>, h)"
        using w(3) o1 mo(4) ks sk by (simp add: machine_ok_def phase_def f others_ok_def)
      ultimately show ?thesis by (intro runs_wellI) (simp_all add: e)
    qed
  qed
qed

lemma error_fd_empty: "qhead s (ReadQ i) = None \<Longrightarrow> qhead s (WriteQ i) = None \<Longrightarrow> error_fd i s = Some (Inr s)"
  by (simp add: error_fd_def resume_queue.simps fun_upd_idem)

lemma ready_fd_empty: "qhead s (ReadQ i) = None \<Longrightarrow> qhead s (WriteQ i) = None \<Longrightarrow> ready_fd rd wr i (r, s) = Some (Inr (r, s))"
  by (simp add: ready_fd_def)

lemma checkEvents_empty:
  assumes "\<forall>i. qhead s (ReadQ i) = None \<and> qhead s (WriteQ i) = None"
  shows "checkEvents b ans s = Some (Inr (s\<lparr>blockInts := b\<rparr>))"
proof -
  let ?s = "s\<lparr>blockInts := b\<rparr>"
  have "each error_fd fds ?s = Some (Inr ?s)" for fds by (induction fds) (use assms in \<open>simp_all add: error_fd_empty\<close>)
  moreover have "each (ready_fd rd wr) fds (r, ?s) = Some (Inr (r, ?s))" for rd wr fds r
    by (induction fds) (use assms in \<open>simp_all add: ready_fd_empty\<close>)
  ultimately show ?thesis by (simp add: checkEvents_def Let_def split: select_answer.split)
qed

lemma pop_frame_core:
  assumes "core Q A h s" "konts s (currentThread s) = k # ks"
  shows "core Q A h (s\<lparr>konts := (konts s)(currentThread s := ks)\<rparr>)"
proof -
  let ?s = "s\<lparr>konts := (konts s)(currentThread s := ks)\<rparr>"
  have sub: "x \<in> set (konts ?s t) \<Longrightarrow> x \<in> set (konts s t)" for x t using assms(2) by (auto split: if_splits)
  have "frames_ok h ?s" unfolding frames_ok_def
  proof (intro allI, goal_cases)
    case (1 t ob w)
    show ?case using coreD(6) [OF assms(1), unfolded frames_ok_def, rule_format, of ob w t] sub [of _ t] by (auto simp: thread_id_def)
  qed
  moreover have "started_ok Q A ?s" unfolding started_ok_def
  proof (rule allI, goal_cases)
    case (1 t)
    show ?case using coreD(5) [OF assms(1), unfolded started_ok_def, rule_format, of t] assms(2) by (cases "t = currentThread s") auto
  qed
  moreover have "lock_ok Q h ?s ob" for ob using coreD(3) [OF assms(1), of ob] unfolding lock_ok_def thread_id_def by (simp split: if_splits)
  moreover have "queues_ok Q ?s" "alarms_ok Q A ?s" "table_ok Q ?s" "ids_ok ?s"
    using coreD(1,2,4,7) [OF assms(1)] by (simp_all add: table_ok_def ids_ok_def)
  ultimately show ?thesis unfolding core_def by blast
qed

lemma frame_ok:
  assumes m: "machine_ok Q A (s, h)" and k: "konts s (currentThread s) = k # ks"
  shows "runs_well (run_kont now ans i k (s\<lparr>konts := (konts s)(currentThread s := ks)\<rparr>, h))"
proof -
  let ?c = "currentThread s" let ?s = "s\<lparr>konts := (konts s)(?c := ks)\<rparr>"
  have mo: "core Q A h s" "others_ok s" "phase Q s" "privateInfo s ?c \<noteq> 0" using m by (simp_all add: machine_ok_def)
  note c = pop_frame_core [OF mo(1) k]
  note ph = mo(3) [unfolded phase_def k, simplified]
  have o: "others_ok ?s" using mo(2) by (simp add: others_ok_def)
  have p: "privateInfo ?s (currentThread ?s) \<noteq> 0" "konts ?s (currentThread ?s) = ks" using mo(4) by simp_all
  show ?thesis
  proof (cases k)
    case (K_switched w b)
    let ?t = "?s\<lparr>blockInts := 1, needReschedule := False\<rparr>"
    have "phase Q ?t" by (rule stack_ok_phase [of ?t ks]) (use ph K_switched in simp_all)
    then have "machine_ok Q A (?t, h)" using c o p by (simp add: machine_ok_def others_ok_def)
    moreover have "run_kont now ans i k (?s, h) = Some (Inr (?t, h))"
      using K_switched ph started_okD(7) [OF coreD(5) [OF mo(1)], of ?c] by (simp add: after_switch_def Let_def)
    ultimately show ?thesis by (rule runs_wellI)
  next
    case (K_resched w b)
    have "\<forall>i. qhead ?s (ReadQ i) = None \<and> qhead ?s (WriteQ i) = None"
      using coreD(1,4) [OF mo(1)] queues_head [OF queues_okD(1) [OF coreD(1) [OF mo(1)]]] by (auto simp: table_ok_def qhead_read simp del: read_cell.simps)
    then have "run_kont now ans i k (?s, h) = Some (Inr (resched_round w 1 (?s\<lparr>blockInts := 1\<rparr>), h))" using K_resched ph by (simp add: checkEvents_empty)
    moreover have "machine_ok Q A (resched_round w 1 (?s\<lparr>blockInts := 1\<rparr>), h)"
      by (rule resched_round_ok) (use c o p ph K_resched in \<open>simp_all add: others_ok_def\<close>)
    ultimately show ?thesis by (intro runs_wellI)
  next
    case K_intsRestore
    then have e: "run_kont now ans i k (?s, h) = Some (Inr (intsRestore ?s, h))" by simp
    have x: "stack_ok (K_intsRestore # ks)" "blockInts s = 1" "top_ready Q s" "needReschedule s \<longrightarrow> ks = []" using ph K_intsRestore by auto
    show ?thesis
    proof (cases "ks = []")
      case True
      have "machine_ok Q A (intsRestore ?s, h)"
        by (rule intsRestore_ok) (use c o p x True in \<open>simp_all add: runs_next_def top_ready_def\<close>)
      then show ?thesis using e by (rule runs_wellI)
    next
      case False
      with x(1) obtain ob where "ks = [K_lock ob]" by (cases "K_intsRestore # ks" rule: stack_ok.cases) auto
      then have "machine_ok Q A (intsRestore ?s, h)" using c o p x False
        by (simp add: intsRestore_def machine_ok_def phase_def others_ok_def)
      then show ?thesis using e by (rule runs_wellI)
    qed
  next
    case K_decInts
    then have x: "stack_ok (K_decInts # ks)" "blockInts s = 1" "top_ready Q s" "\<not> needReschedule s" using ph by auto
    from x(1) have "ks = [] \<or> (\<exists>w ks'. ks = K_resched w 1 # ks' \<and> stack_ok ks')" by (cases "K_decInts # ks" rule: stack_ok.cases) auto
    then have "machine_ok Q A (?s\<lparr>blockInts := 0\<rparr>, h)" using c o p x by (auto simp: machine_ok_def phase_def others_ok_def)
    then show ?thesis by (rule runs_wellI) (simp add: K_decInts x(2))
  next
    case (K_lock ob)
    then have "in_user Q A h ?s" using ph c o p by (simp add: in_user_def)
    moreover have "h (currentThread ?s) ob < 32767" using coreD(6) [OF mo(1)] k K_lock by (simp add: frames_ok_def)
    ultimately show ?thesis using K_lock locking_ok by simp
  next
    case (K_wait ob w)
    then have ks: "ks = []" and x: "blockInts s = 1" "top_ready Q s" "\<not> needReschedule s"
      using ph by (cases "K_wait ob w # ks" rule: stack_ok.cases; auto)+
    have fr: "owner w = thread_id ?s (currentThread ?s)" "0 < sem w" "ob \<in> set (lockTable ?s (HASHLOCK ob))"
      using coreD(6) [OF mo(1), unfolded frames_ok_def, rule_format, of ob w ?c] k K_wait by (simp_all add: thread_id_def)
    show ?thesis using after_wait_ok [of Q A h ?s w ob now] c o p ks x fr K_wait by simp
  next
    case (K_waited ob w)
    then have u: "in_user Q A h ?s" "sem (lock_info ?s ob) = 0" using ph c o p by (simp_all add: in_user_def)
    have fr: "owner w = thread_id ?s (currentThread ?s)" "0 < sem w"
      using coreD(6) [OF mo(1), unfolded frames_ok_def, rule_format, of ob w ?c] k K_waited by (simp_all add: thread_id_def)
    show ?thesis by (rule runs_wellI [OF finish_wait_ok [OF u fr]]) (simp add: K_waited)
  qed (use ph in \<open>auto elim: stack_ok.elims\<close>)
qed

section \<open>Every reachable state\<close>

lemma user_ok:
  assumes m: "machine_ok Q A (s, h)" and k: "konts s (currentThread s) = []" and a: "allowed op (s, h)"
  shows "runs_well (perform now op (s, h))"
proof -
  note u = machine_in_user [OF m k]
  show ?thesis
  proof (cases op)
    case (OWait ob timeout)
    with a show ?thesis by (simp only: allowed.simps) (rule wait_ok [OF u], auto)
  next
    case (OSetPriority t p)
    with a show ?thesis by (simp only: allowed.simps) (rule setPriority_ok [OF u], auto)
  qed (use a yield_ok [OF u] sleep_ok [OF u] in \<open>simp_all only: perform.simps(1) allowed.simps locking_ok [OF u] unlock_ok [OF u]
      signal_ok [OF u] broadcast_ok [OF u] start_ok [OF u]\<close>)
qed

lemma step_ok: "step sh sh' \<Longrightarrow> machine_ok Q A sh \<Longrightarrow> \<exists>Q A. machine_ok Q A sh'"
proof (induction rule: step.induct)
  case (user s op h now sh')
  then show ?case using user_ok [of Q A s h op now] by (auto simp: runs_well_def)
next
  case (frame s k ks now ans r h sh')
  then show ?case using frame_ok [of Q A s h k ks now ans r] by (auto simp: runs_well_def)
next
  case (alarm s now s' h)
  then show ?case using alarm_ok [of Q A s h now] by (auto simp: runs_well_def)
qed

text \<open>The state after \<open>createInitialThread\<close>.\<close>

definition boot :: "tid \<Rightarrow> sched" where
  "boot t = blank\<lparr>currentThread := t, threadContext := (replicate MAXTCTX False)[1 := True], numberOfThreads := 1, ntid := 1,
    privateInfo := (\<lambda>_. 0)(t := 1), liveThreads := Some t, talive := 1,
    tctx := (tctx blank)(t := \<lparr>status = THREAD_RUNNING, priority = 5, time = 0, nextQ = None, nextlive = None, nextalarm = None, blockqueue = None, flags = 1\<rparr>),
    qhead := (\<lambda>_. None)(Ready 5 := Some t), threadQtail := (\<lambda>_. None)(5 := Some t)\<rparr>"

lemma createInitialThread_boot: "createInitialThread t blank = Some (Inr (boot t))"
proof -
  have "find_context (replicate MAXTCTX False) 0 = Some 1" by (simp add: find_context.simps MAXTCTX_def)
  then show ?thesis
    by (simp add: createInitialThread_def allocThreadCtx_def blank_def Let_def iresumeThread_def iresume_body_def has_flag_def THREAD_FLAGS_ALARM_def
      leave_blockqueue_def make_ready_def enqueue_ready_def upd_ctx_def intsDisable_def intsRestore_def boot_def fun_upd_idem)
qed

lemma boot_ok: "machine_ok (\<lambda>q. if q = Ready 5 then [t] else []) [] (boot t, \<lambda>_ _. 0)"
proof -
  let ?Q = "\<lambda>q. if q = Ready 5 then [t] else []"
  have q: "queues_ok ?Q (boot t)" "alarms_ok ?Q [] (boot t)" by (auto simp: queues_ok_def queues_def alarms_ok_def boot_def blank_def)
  have cnt: "length (filter id ((replicate 128 False)[Suc 0 := True])) = Suc 0" by (subst filter_fresh) simp_all
  have "core ?Q [] (\<lambda>_ _. 0) (boot t)"
    using q by (auto simp: core_def lock_ok_def table_ok_def started_ok_def frames_ok_def ids_ok_def boot_def blank_def sem_def waiter_bit_def has_flag_def
      MIN_PRIORITY_def MAX_PRIORITY_def THREAD_FLAGS_KILLED_def MAXTCTX_def cnt)
  then show ?thesis by (auto simp: machine_ok_def others_ok_def phase_def top_ready_def boot_def blank_def)
qed

lemma reachable_ok: "reachable sh \<Longrightarrow> \<exists>Q A. machine_ok Q A sh"
proof -
  assume "reachable sh"
  then obtain t where r: "step\<^sup>*\<^sup>* (boot t, \<lambda>_ _. 0) sh" by (auto simp: reachable_def createInitialThread_boot)
  from r show ?thesis
  proof induction
    case base
    then show ?case using boot_ok by blast
  next
    case (step x y)
    then show ?case using step_ok by blast
  qed
qed

lemma reachable_core:
  assumes "reachable (s, h)"
  obtains Q A where "machine_ok Q A (s, h)" "core Q A h s"
  using reachable_ok [OF assms] by (auto simp: machine_ok_def)

lemma reachable_user:
  assumes "reachable (s, h)" "konts s (currentThread s) = []"
  obtains Q A where "in_user Q A h s"
  using reachable_ok [OF assms(1)] machine_in_user [OF _ assms(2)] by blast

lemma waiters_mask: "w AND HAS_WAITERS_MASK \<noteq> 0 \<longleftrightarrow> waiter_bit w"
  using and_exp_eq_0_iff_not_bit [of w 16] by (simp add: HAS_WAITERS_MASK_def waiter_bit_def)

lemma reachable_boot: "reachable (boot t, \<lambda>_ _. 0)"
  by (auto simp: reachable_def createInitialThread_boot)

lemma reachable_step: "reachable sh \<Longrightarrow> step sh sh' \<Longrightarrow> reachable sh'"
  by (auto simp: reachable_def intro: rtranclp.rtrancl_into_rtrancl)

text \<open>The first thread enters a monitor, or goes to sleep.\<close>

lemma boot_lock: "reachable (set_lock ob 0x20001 (boot t), set_hold t ob 1 (\<lambda>_ _. 0))"
proof (rule reachable_step [OF reachable_boot [of t] step.user [where op = "OLock ob" and now = 0]])
  show "perform 0 (OLock ob) (boot t, \<lambda>_ _. 0) = Some (Inr (set_lock ob 0x20001 (boot t), set_hold t ob 1 (\<lambda>_ _. 0)))"
    by (simp add: locking_def lockMutex_def set_owner_def currentThreadID_def boot_def blank_def OWNER_ID_MASK_def)
qed (simp_all add: boot_def blank_def)

section \<open>Properties\<close>




lemma sorted_take_filter:
  "sorted_wrt (\<lambda>t u. f t \<le> f u) A \<Longrightarrow> set (takeWhile (\<lambda>t. f t \<le> (n :: int)) A) = {t \<in> set A. f t \<le> n} \<and> dropWhile (\<lambda>t. f t \<le> n) A = filter (\<lambda>t. n < f t) A"
proof (induction A)
  case (Cons a A)
  show ?case
  proof (cases "f a \<le> n")
    case False
    with Cons.prems have "\<forall>u\<in>set A. n < f u" by (meson dual_order.strict_trans2 not_le sorted_wrt.simps(2))
    with False show ?thesis by auto
  qed (use Cons in auto)
qed simp

lemma intsRestore_tctx [simp]: "tctx (intsRestore s) = tctx s" "read_cell (intsRestore s) = read_cell s"
proof -
  have "\<exists>ks cu bi nr. intsRestore s = s\<lparr>konts := ks, currentThread := cu, blockInts := bi, needReschedule := nr\<rparr>"
    unfolding intsRestore_def reschedule_def resched_round_def push_kont_def Let_def
    by (cases s) (auto split: option.split)
  then show "tctx (intsRestore s) = tctx s" "read_cell (intsRestore s) = read_cell s" by (auto simp: fun_eq_iff)
qed

text \<open>
  C29. The alarm clock wakes exactly the sleepers whose time has come: when the signal arrives at time \<open>now\<close>, the threads of the
  alarm list with an earlier or equal time become runnable, no other thread changes its status, and the alarm list
  afterwards holds the remaining ones in their order.
\<close>

theorem alarm_wakes_sleepers:
  assumes "reachable (s, h)" "konts s (currentThread s) = [] \<or> (\<exists>w b ks. konts s (currentThread s) = K_resched w b # ks)"
    and "chain NextAlarm (read_cell s) AlarmHead A"
  shows "\<exists>s'. alarmException now s = Some (Inr s') \<and>
    (\<forall>t. status (tctx s' t) = (if t \<in> set A \<and> sint (time (tctx s t)) \<le> sint now then THREAD_RUNNING else status (tctx s t))) \<and>
    chain NextAlarm (read_cell s') AlarmHead (filter (\<lambda>t. sint now < sint (time (tctx s t))) A)"
proof -
  obtain Q A' where m: "machine_ok Q A' (s, h)" and c: "core Q A' h s" by (rule reachable_core [OF assms(1)])
  have A: "A' = A" using chain_unique [OF alarms_okD(1) [OF coreD(2) [OF c]] assms(3)] .
  have b: "blockInts s = 0" using m assms(2) by (auto simp: machine_ok_def phase_def)
  have pre: "queues_ok Q (intsDisable s)" "alarms_ok Q A (intsDisable s)" "1 \<le> blockInts (intsDisable s)"
    using coreD(1,2) [OF c] A b by (simp_all add: intsDisable_def)
  note st = sorted_take_filter [OF alarms_okD(3) [OF pre(2)], of "sint now"]
  obtain Q' s' where w: "wake_alarms now (intsDisable s) = Some (Inr s')"
    "alarms_ok Q' (dropWhile (\<lambda>t. sint (time (tctx s t)) \<le> sint now) A) s'"
    "\<forall>u. status (tctx s' u) = (if u \<in> set (takeWhile (\<lambda>t. sint (time (tctx s t)) \<le> sint now) A) then THREAD_RUNNING else status (tctx s u))"
    using wake_alarms_effect [OF pre, of now] by (auto simp: intsDisable_def)
  show ?thesis
    by (intro exI [of _ "intsRestore s'"] conjI)
      (use w b st alarms_okD(1) [OF w(2)] in \<open>simp_all add: alarmException_def\<close>)
qed

text \<open>
  C30. Monitor operations without the monitor, by a thread that is in Java code: when no thread holds the monitor, leaving it raises
  \<open>IllegalMonitorStateException\<close>; when another thread holds it, waiting on it and both notifications raise it.
  The exception is all that changes.
\<close>

theorem illegal_monitor_operations:
  assumes "reachable (s, h)" "konts s (currentThread s) = []" "h (currentThread s) ob = 0"
  shows "if \<exists>u. 0 < h u ob
    then waitCond now ob timeout s = Some (Inr (False, throw IllegalMonitorStateException s)) \<and>
      signalCond ob s = Inr (False, throw IllegalMonitorStateException s) \<and>
      broadcastCond ob s = Some (Inr (False, throw IllegalMonitorStateException s))
    else unlockMutex ob s = Some (Inr (False, throw IllegalMonitorStateException s))"
proof -
  let ?c = "currentThread s"
  obtain Q A where u: "in_user Q A h s" by (rule reachable_user [OF assms(1,2)])
  note cu = in_userD [OF u]
  note l = coreD(3) [OF cu(1), of ob, unfolded lock_ok_def]
  show ?thesis
  proof (cases "\<exists>u. 0 < h u ob")
    case True
    then have "sem (lock_info s ob) \<noteq> 0" using l by (metis less_irrefl)
    then have "\<not> is_owner s ob" using holder_is_current(3) [OF u] assms(3) by (metis gr0I)
    with True show ?thesis by (simp add: waitCond_def signalCond_def broadcastCond_def)
  next
    case False
    then have "sem (lock_info s ob) = 0" using l by (metis gr0I)
    then have "\<not> drop_bit 16 (lock_info s ob) \<ge> 2" by (simp add: unlock_test)
    with False show ?thesis by (simp add: unlockMutex_def)
  qed
qed

text \<open>
  \<open>_unlockMutex\<close> does not look at the owner: a thread that does not hold the monitor takes one entry off the thread
  that does.
\<close>

theorem unlock_by_stranger:
  assumes "reachable (s, h)" "2 \<le> h u ob"
  shows "\<exists>s'. unlockMutex ob s = Some (Inr (True, s')) \<and> sem (lock_info s' ob) = h u ob - 1"
proof -
  obtain Q A where c: "core Q A h s" by (rule reachable_core [OF assms(1)])
  note l = coreD(3) [OF c, of ob, unfolded lock_ok_def]
  let ?w = "lock_info s ob"
  have "sem ?w = h u ob" using l assms(2) by (metis not_numeral_le_zero)
  with assms(2) have pos: "2 \<le> sem ?w" "0 < sem ?w" by simp_all
  note f = minus_fields [OF pos(2)]
  then have "drop_bit 16 (?w - 0x20000) \<noteq> 1" using pos by (auto simp: last_unlock)
  moreover have "drop_bit 16 ?w \<ge> 2" using pos(2) by (simp add: unlock_test)
  ultimately show ?thesis using f \<open>sem ?w = h u ob\<close> by (simp add: unlockMutex_def Let_def)
qed

lemma blockInts_write: "blockInts (write_cell c v s) = blockInts s"
  by (cases c) (simp_all add: upd_ctx_def)

text \<open>
  \<open>suspendThread\<close> takes a thread out of its ready queue without moving the tail of the queue. When it was the last
  one, the next thread that becomes ready is linked behind the suspended thread: it is runnable and in no queue.
\<close>

theorem suspendThread_loses_thread:
  assumes q: "queues_ok Q s" and t: "Q (Ready p) = xs @ [t]" "xs \<noteq> []" "t \<noteq> currentThread s" and n: "blockInts s = 0" "\<not> needReschedule s"
    and v: "status (tctx s v) = THREAD_SUSPENDED" "priority (tctx s v) = p" "\<forall>q. v \<notin> set (Q q)" "blockqueue (tctx s v) = None" "\<not> has_flag THREAD_FLAGS_ALARM v s"
  shows "\<exists>s1 s2. suspendThread t s = Some (Inr s1) \<and> iresumeThread v s1 = Some (Inr s2) \<and>
    status (tctx s2 v) = THREAD_RUNNING \<and> chain NextQ (read_cell s2) (Head (Ready p)) xs \<and> v \<notin> set xs"
proof -
  note qs = queues_okD(1) [OF q]
  have mem: "t \<in> set (Q (Ready p))" using t by simp
  then have st: "status (tctx s t) = THREAD_RUNNING" "priority (tctx s t) = p" using queues_okD(3) [OF q] by blast+
  have vt: "v \<noteq> t" "v \<notin> set xs" using v(3) t(1) mem by (metis, metis UnCI set_append)
  have tx: "t \<notin> set xs" using queuesD(2) [OF qs, of "Ready p"] t(1) by simp
  let ?s0 = "set_flag THREAD_FLAGS_USERSUSPEND t (upd_ctx t (\<lambda>c. c\<lparr>status := THREAD_SUSPENDED\<rparr>) (intsDisable s))"
  have rc0: "read_cell ?s0 = read_cell s" by (simp add: set_flag_def intsDisable_def)
  have ch0: "chain NextQ (read_cell ?s0) (Head (Ready p)) (xs @ [t])" unfolding rc0 t(1) [symmetric] by (rule queuesD(1) [OF qs])
  have tw: "takeWhile (\<lambda>u. u \<noteq> t) (xs @ [t]) = xs" using tx by (simp add: takeWhile_append takeWhile_eq_all_conv)
  let ?e = "end_cell NextQ (Head (Ready p)) xs"
  have f: "find_cell NextQ (\<lambda>u. u = t) ?s0 (Head (Ready p)) None = Some (?e, last_of None xs)" using find_cell_chain [OF ch0] tw by simp
  have rd: "read_cell ?s0 ?e = Some t" "read_cell ?s0 (NextQ t) = None" using chain_append [OF ch0] by simp_all
  have c0: "currentThread ?s0 = currentThread s" "priority (tctx ?s0 t) = p" "blockInts ?s0 = 1" "needReschedule ?s0 = needReschedule s"
    "threadQtail ?s0 = threadQtail s" "tctx ?s0 v = tctx s v"
    using st(2) n(1) vt(1) by (simp_all add: set_flag_def intsDisable_def)
  define a where "a = write_cell (NextQ t) None (write_cell ?e None ?s0)"
  have ca: "currentThread a = currentThread s" "blockInts a = 1" "\<not> needReschedule a" "threadQtail a = threadQtail s" "status (tctx a v) = status (tctx s v)"
    "priority (tctx a v) = p" "blockqueue (tctx a v) = None" "flags (tctx a v) = flags (tctx s v)"
    using c0 n v by (simp_all add: a_def blockInts_write del: write_cell.simps)
  have ra: "read_cell a = (read_cell s)(?e := None, NextQ t := None)" by (simp only: a_def read_write_cell rc0)
  have "chain NextQ ((read_cell s)(?e := read_cell s (NextQ t))) (Head (Ready p)) (xs @ [])"
    using ch0 tx queuesD(2) [OF qs, of "Ready p"] t(1) unfolding rc0 by (intro ql.chain_remove) auto
  then have cha: "chain NextQ (read_cell a) (Head (Ready p)) xs"
    using rd(2) tx unfolding ra rc0 by (subst ql.chain_upd) auto
  have s1: "suspendThread t s = Some (Inr (a\<lparr>blockInts := 0\<rparr>))"
    using f rd c0 ca t(3) st(1) by (simp add: suspendThread_def Let_def as_cells a_def intsRestore_def del: write_cell.simps read_cell.simps)
  have hd: "qhead a (Ready p) \<noteq> None" using chain_head [OF cha] t(2) by (auto split: list.splits)
  have tl: "threadQtail a p = Some t" using queues_okD(2) [OF q, of p] t(1) ca(4) by simp
  let ?b = "upd_ctx v (\<lambda>c. c\<lparr>status := THREAD_RUNNING\<rparr>) a"
  let ?s2 = "write_cell (NextQ v) None ((write_cell (NextQ t) (Some v) ?b)\<lparr>threadQtail := (threadQtail a)(p := Some v)\<rparr>)\<lparr>blockInts := 0\<rparr>"
  have "iresumeThread v (a\<lparr>blockInts := 0\<rparr>) = Some (Inr ?s2)"
    using ca hd tl v vt by (auto simp: iresumeThread_def iresume_body_def has_flag_def leave_blockqueue_def make_ready_def enqueue_ready_def intsDisable_def
      intsRestore_def Let_def upd_ctx_def)
  moreover have "chain NextQ (read_cell ?s2) (Head (Ready p)) xs"
    using cha tx vt by (simp add: ql.chain_upd image_iff del: write_cell.simps)
  moreover have "status (tctx ?s2 v) = THREAD_RUNNING" by (simp del: write_cell.simps)
  ultimately show ?thesis using s1 vt(2) by blast
qed

section \<open>Witnesses\<close>




lemma boot_sleep:
  "\<exists>s. reachable (s, \<lambda>_ _. 0) \<and> konts s (currentThread s) = [K_resched False 1, K_intsRestore] \<and> chain NextAlarm (read_cell s) AlarmHead [0] \<and>
     time (tctx s 0) = 5 \<and> status (tctx s 0) = THREAD_SUSPENDED"
proof -
  let ?b = "push_kont K_intsRestore (intsDisable (boot 0))"
  let ?s1 = "?b\<lparr>tctx := (tctx ?b)(0 := (tctx ?b 0)\<lparr>status := THREAD_SUSPENDED, time := 5, flags := 5\<rparr>), alarmList := Some 0,
     qhead := (\<lambda>_. None), threadQtail := (\<lambda>_. None)\<rparr>"
  have "sleepThread 0 5 (boot 0) = Some (Inr (reschedule ?s1))"
    by (simp add: sleepThread_def suspendOnQThread_def suspend_body_def leave_ready_def find_cell.simps boot_def blank_def addToAlarmQ_def set_flag_def upd_ctx_def
      intsDisable_def push_kont_def THREAD_FLAGS_ALARM_def Let_def)
  then have "step (boot 0, \<lambda>_ _. 0) (reschedule ?s1, \<lambda>_ _. 0)"
    by (intro step.user [where op = "OSleep 5" and now = 0]) (simp_all add: boot_def blank_def)
  with reachable_boot have "reachable (reschedule ?s1, \<lambda>_ _. 0)" by (rule reachable_step)
  moreover have "highest_ready n ?s1 = None" for n by (induction n) (simp_all add: highest_ready.simps)
  then have "reschedule ?s1 = push_kont (K_resched False 1) (?s1\<lparr>needReschedule := False, blockInts := 0\<rparr>)"
    by (simp add: reschedule_def resched_round_def boot_def blank_def)
  ultimately show ?thesis by (intro exI [of _ "reschedule ?s1"]) (simp add: boot_def blank_def push_kont_def intsDisable_def)
qed

theorem alarm_wakes_sleepers_witness:
  "\<exists>s s' h. reachable (s, h) \<and> status (tctx s 0) = THREAD_SUSPENDED \<and> alarmException 10 s = Some (Inr s') \<and> status (tctx s' 0) = THREAD_RUNNING"
proof -
  obtain s where s: "reachable (s, \<lambda>_ _. 0)" "konts s (currentThread s) = [K_resched False 1, K_intsRestore]" "chain NextAlarm (read_cell s) AlarmHead [0]"
    "time (tctx s 0) = 5" "status (tctx s 0) = THREAD_SUSPENDED" using boot_sleep by blast
  with alarm_wakes_sleepers [OF s(1) _ s(3), of 10] show ?thesis by fastforce
qed

theorem illegal_monitor_operations_witness:
  "unlockMutex 8 (boot 0) = Some (Inr (False, throw IllegalMonitorStateException (boot 0)))"
proof -
  have "konts (boot 0) (currentThread (boot 0)) = []" by (simp add: boot_def blank_def)
  from illegal_monitor_operations [OF reachable_boot [of 0] this, where ob = 8] show ?thesis by simp
qed

end
