(* ===== verification/GC_Memory.thy ===== *)
theory GC_Memory
  imports LaTTe_Prelude
begin

text \<open>
  The memory of the collector (\<^verbatim>\<open>runtime/gc.c\<close>): words at byte addresses, with the header macros and
  the region manager. Addresses and words are natural numbers; a header holds the size in its upper bits and three flags
  in bits 0 to 2. Linked lists whose links are embedded in the memory they link are lists of addresses in the model.
\<close>

section \<open>Headers\<close>

type_synonym memory = "nat \<Rightarrow> nat"

definition MEMALIGN :: nat where "MEMALIGN = 8"
definition GC_HEAD :: nat where "GC_HEAD = 4"
definition GC_BLOCKSIZE :: nat where "GC_BLOCKSIZE = 4096"
definition GC_REGIONSIZE :: nat where "GC_REGIONSIZE = 2 * 1024 * 1024"

lemmas gc_consts = MEMALIGN_def GC_HEAD_def GC_BLOCKSIZE_def GC_REGIONSIZE_def

text \<open>\<open>MARK_BIT\<close>, \<open>FREE_BIT\<close>, \<open>PREV_BIT\<close> and the size of a header word.\<close>

definition marked_word :: "nat \<Rightarrow> bool" where "marked_word h \<longleftrightarrow> bit h 0"
definition free_word :: "nat \<Rightarrow> bool" where "free_word h \<longleftrightarrow> bit h 1"
definition prev_word :: "nat \<Rightarrow> bool" where "prev_word h \<longleftrightarrow> bit h 2"
definition size_word :: "nat \<Rightarrow> nat" where "size_word h = push_bit 3 (drop_bit 3 h)"

definition HEADER :: "nat \<Rightarrow> nat" where "HEADER p = p - GC_HEAD"

definition SIZE :: "memory \<Rightarrow> nat \<Rightarrow> nat" where "SIZE m p = size_word (m (HEADER p))"

definition marked :: "memory \<Rightarrow> nat \<Rightarrow> bool" where "marked m p \<longleftrightarrow> marked_word (m (HEADER p))"

definition set_mark :: "nat \<Rightarrow> memory \<Rightarrow> memory" where
  "set_mark p m = m(HEADER p := set_bit 0 (m (HEADER p)))"

definition clear_mark :: "nat \<Rightarrow> memory \<Rightarrow> memory" where
  "clear_mark p m = m(HEADER p := unset_bit 0 (m (HEADER p)))"

lemma size_word_alt: "size_word h = 8 * (h div 8)"
  by (simp add: size_word_def push_bit_eq_mult drop_bit_eq_div)

lemma flag_words [simp]:
  "marked_word (set_bit 0 h)" "\<not> marked_word (unset_bit 0 h)" "free_word (set_bit 0 h) = free_word h" "free_word (unset_bit 0 h) = free_word h"
  "prev_word (set_bit 0 h) = prev_word h" "prev_word (unset_bit 0 h) = prev_word h"
  by (simp_all add: marked_word_def free_word_def prev_word_def bit_set_bit_iff bit_unset_bit_iff)

lemma size_words [simp]: "size_word (set_bit 0 h) = size_word h" "size_word (unset_bit 0 h) = size_word h"
proof -
  have "drop_bit 3 (set_bit 0 h) = drop_bit 3 h" "drop_bit 3 (unset_bit 0 h) = drop_bit 3 h"
    by (rule bit_eqI, simp add: bit_drop_bit_eq bit_set_bit_iff bit_unset_bit_iff)+
  then show "size_word (set_bit 0 h) = size_word h" "size_word (unset_bit 0 h) = size_word h" by (simp_all add: size_word_def)
qed

section \<open>Regions\<close>

datatype region_type = GC_REGION_DUMMY | GC_REGION_SMALL | GC_REGION_LARGE | GC_REGION_FIXED

record region =
  rstart :: nat
  rend :: nat
  rtype :: region_type

text \<open>The binary search of \<open>region_find\<close>.\<close>

function region_search :: "region list \<Rightarrow> nat \<Rightarrow> int \<Rightarrow> int \<Rightarrow> int" where
  "region_search rs p lo hi =
     (if lo < hi then
        let mid = (lo + hi + 1) div 2
        in if p < rstart (rs ! nat mid) then region_search rs p lo (mid - 1) else region_search rs p mid hi
      else lo)"
  by pat_completeness auto
termination by (relation "measure (\<lambda>(rs, p, lo, hi). nat (hi - lo))") auto

declare region_search.simps [simp del]

definition region_find :: "region list \<Rightarrow> nat \<Rightarrow> region option result" where
  "region_find rs p =
     (if rs = [] then Inl C_undefined
      else
        let r = rs ! nat (region_search rs p 0 (int (length rs) - 1))
        in Inr (if rstart r \<le> p \<and> p < rend r then Some r else None))"

text \<open>
  \<open>sbrk\<close> of the C library: the break moves unless it would pass the limit of the system. The two are the components
  of \<open>os\<close>.
\<close>

record os =
  brk :: nat
  brk_limit :: nat

definition sbrk :: "nat \<Rightarrow> os \<Rightarrow> nat option \<times> os" where
  "sbrk n s = (if brk s + n \<le> brk_limit s then (Some (brk s), s\<lparr>brk := brk s + n\<rparr>) else (None, s))"

text \<open>The loop of \<open>region_allocate\<close>: give back what does not start on a block boundary, except for the part up to the next one.\<close>

definition sbrk_aligned :: "nat \<Rightarrow> os \<Rightarrow> nat option \<times> os" where
  "sbrk_aligned sz s =
     (case sbrk sz s of
        (None, s) \<Rightarrow> (None, s)
      | (Some r, s) \<Rightarrow>
          let miss = GC_BLOCKSIZE - r mod GC_BLOCKSIZE
          in if miss = GC_BLOCKSIZE then (Some r, s)
             else sbrk sz (s\<lparr>brk := brk s - sz + miss\<rparr>))"

definition GC_REGION_TABLE_SIZE :: nat where "GC_REGION_TABLE_SIZE = 1024"

fun shift_regions :: "region list \<Rightarrow> nat \<Rightarrow> nat \<Rightarrow> nat" where
  "shift_regions rs a 0 = 0"
| "shift_regions rs a (Suc i) = (if rstart (rs ! i) > a then shift_regions rs a i else Suc i)"

definition region_insert :: "region \<Rightarrow> region list \<Rightarrow> region list" where
  "region_insert e rs = (let i = shift_regions rs (rstart e) (length rs) in take i rs @ e # drop i rs)"

text \<open>\<open>used\<close> is the memory obtained from the system so far. The pool of entries is exhausted with the table.\<close>

definition region_allocate ::
    "nat \<Rightarrow> nat \<Rightarrow> nat \<Rightarrow> region_type \<Rightarrow> region list \<times> os \<Rightarrow> (region option \<times> region list \<times> os) result" where
  "region_allocate gc_heap_limit used sz type rso =
     (case rso of (rs, s) \<Rightarrow>
        if sz + used > gc_heap_limit then Inr (None, rs, s)
        else case sbrk_aligned sz s of
          (None, s) \<Rightarrow> Inr (None, rs, s)
        | (Some a, s) \<Rightarrow>
            if length rs \<ge> GC_REGION_TABLE_SIZE then Inl C_undefined
            else let e = \<lparr>rstart = a, rend = a + sz, rtype = type\<rparr> in Inr (Some e, region_insert e rs, s))"

section \<open>The region table\<close>

text \<open>Regions do not overlap and are sorted by address; all of them are below the break.\<close>

definition regions_ok :: "region list \<Rightarrow> os \<Rightarrow> bool" where
  "regions_ok rs s \<longleftrightarrow> sorted_wrt (\<lambda>a b. rend a \<le> rstart b) rs \<and> (\<forall>r\<in>set rs. rstart r < rend r \<and> rend r \<le> brk s \<and> rstart r mod GC_BLOCKSIZE = 0)"

lemma regions_nth:
  assumes "regions_ok rs s" "i < length rs" "j < length rs"
  shows "i < j \<Longrightarrow> rend (rs ! i) \<le> rstart (rs ! j)" "rstart (rs ! i) < rend (rs ! i)" "i \<le> j \<Longrightarrow> rstart (rs ! i) \<le> rstart (rs ! j)"
proof -
  show a: "i < j \<Longrightarrow> rend (rs ! i) \<le> rstart (rs ! j)" "rstart (rs ! i) < rend (rs ! i)"
    using assms by (auto simp: regions_ok_def sorted_wrt_iff_nth_less)
  then show "i \<le> j \<Longrightarrow> rstart (rs ! i) \<le> rstart (rs ! j)" by (cases "i = j") auto
qed

text \<open>The search ends at the last region that starts at or below the address, if there is one.\<close>

lemma region_search_bounds:
  "0 \<le> lo \<Longrightarrow> lo \<le> hi \<Longrightarrow> hi < int (length rs) \<Longrightarrow>
   (\<forall>j. hi < int j \<longrightarrow> j < length rs \<longrightarrow> p < rstart (rs ! j)) \<Longrightarrow> lo = 0 \<or> rstart (rs ! nat lo) \<le> p \<Longrightarrow> regions_ok rs s \<Longrightarrow>
   (let k = region_search rs p lo hi in lo \<le> k \<and> k \<le> hi \<and> (k = 0 \<or> rstart (rs ! nat k) \<le> p) \<and> (\<forall>j. k < int j \<longrightarrow> j < length rs \<longrightarrow> p < rstart (rs ! j)))"
proof (induction rs p lo hi rule: region_search.induct)
  case (1 rs p lo hi)
  show ?case
  proof (cases "lo < hi")
    case True
    let ?m = "(lo + hi + 1) div 2"
    have m: "lo < ?m" "?m \<le> hi" using True by auto
    show ?thesis
    proof (cases "p < rstart (rs ! nat ?m)")
      case low: True
      have up: "p < rstart (rs ! j)" if "?m - 1 < int j" "j < length rs" for j
      proof -
        have "nat ?m \<le> j" "nat ?m < length rs" using that m "1.prems" by auto
        then have "rstart (rs ! nat ?m) \<le> rstart (rs ! j)" using regions_nth(3) [OF "1.prems"(6)] that by blast
        with low show ?thesis by simp
      qed
      have e: "region_search rs p lo hi = region_search rs p lo (?m - 1)" using True low by (subst region_search.simps) (simp add: Let_def)
      show ?thesis unfolding e using "1.IH"(1) [OF True refl low] "1.prems" m up by (auto simp: Let_def)
    next
      case False
      then have "rstart (rs ! nat ?m) \<le> p" by simp
      moreover have e: "region_search rs p lo hi = region_search rs p ?m hi" using True False by (subst region_search.simps) (simp add: Let_def)
      ultimately show ?thesis unfolding e using "1.IH"(2) [OF True refl False] "1.prems" m by (auto simp: Let_def)
    qed
  next
    case False
    with "1.prems" show ?thesis by (auto simp: region_search.simps Let_def)
  qed
qed

lemma region_find_correct:
  assumes ok: "regions_ok rs s" and ne: "rs \<noteq> []"
  shows "region_find rs p = Inr (Some r) \<longleftrightarrow> r \<in> set rs \<and> rstart r \<le> p \<and> p < rend r"
    and "\<exists>x. region_find rs p = Inr x"
proof -
  let ?k = "region_search rs p 0 (int (length rs) - 1)"
  have k: "0 \<le> ?k" "?k \<le> int (length rs) - 1" "\<forall>j. ?k < int j \<longrightarrow> j < length rs \<longrightarrow> p < rstart (rs ! j)"
    using region_search_bounds [of 0 "int (length rs) - 1" rs p s] ok ne by (auto simp: Let_def)
  have uniq: "r = rs ! nat ?k" if r: "r \<in> set rs" "rstart r \<le> p" "p < rend r"
  proof -
    obtain j where j: "j < length rs" "rs ! j = r" using r(1) by (auto simp: in_set_conv_nth)
    have "\<not> ?k < int j" using k(3) j r(2) by (metis not_le)
    moreover have "\<not> j < nat ?k"
    proof
      assume lt: "j < nat ?k"
      then have "rend r \<le> rstart (rs ! nat ?k)" using regions_nth(1) [OF ok j(1), of "nat ?k"] j(2) k by auto
      have "?k = 0 \<or> rstart (rs ! nat ?k) \<le> p"
        using region_search_bounds [of 0 "int (length rs) - 1" rs p s] ok ne by (auto simp: Let_def)
      with lt \<open>rend r \<le> rstart (rs ! nat ?k)\<close> r(3) show False by auto
    qed
    ultimately have "j = nat ?k" using k(1) by linarith
    with j show ?thesis by simp
  qed
  have mem: "rs ! nat ?k \<in> set rs" using k(1,2) by (intro nth_mem) linarith
  show "region_find rs p = Inr (Some r) \<longleftrightarrow> r \<in> set rs \<and> rstart r \<le> p \<and> p < rend r"
    using ne mem uniq by (auto simp: region_find_def Let_def)
  show "\<exists>x. region_find rs p = Inr x" using ne by (simp add: region_find_def Let_def)
qed

lemma sbrk_aligned_fresh:
  assumes "sbrk_aligned sz s = (Some a, s')"
  shows "brk s \<le> a" "brk s' = a + sz" "a mod GC_BLOCKSIZE = 0"
proof -
  have al: "(x + (GC_BLOCKSIZE - x mod GC_BLOCKSIZE)) mod GC_BLOCKSIZE = 0" for x
  proof -
    have "x + (GC_BLOCKSIZE - x mod GC_BLOCKSIZE) = GC_BLOCKSIZE * (x div GC_BLOCKSIZE + 1)"
      using mult_div_mod_eq [of 4096 x] mod_less_divisor [of 4096 x] unfolding distrib_left GC_BLOCKSIZE_def by linarith
    then show ?thesis by (metis mod_mult_self1_is_0)
  qed
  have miss: "GC_BLOCKSIZE - x mod GC_BLOCKSIZE = GC_BLOCKSIZE \<longleftrightarrow> x mod GC_BLOCKSIZE = 0" for x
    using mod_less_divisor [of 4096 x] unfolding GC_BLOCKSIZE_def by linarith
  have "brk s \<le> brk s + GC_BLOCKSIZE - brk s mod GC_BLOCKSIZE"
    using mod_less_divisor [of 4096 "brk s"] unfolding GC_BLOCKSIZE_def by linarith
  then show "brk s \<le> a" "brk s' = a + sz" "a mod GC_BLOCKSIZE = 0"
    using assms al [of "brk s"] miss [of "brk s"] by (auto simp: sbrk_aligned_def sbrk_def Let_def split: if_splits prod.splits)
qed

lemma region_allocate_ok:
  assumes ok: "regions_ok rs s" and r: "region_allocate lim used sz ty (rs, s) = Inr (Some e, rs', s')" and sz: "0 < sz"
  shows "regions_ok rs' s'" "rs' = rs @ [e]" "\<forall>r\<in>set rs. rend r \<le> rstart e" "rend e = rstart e + sz" "rtype e = ty" "rstart e mod GC_BLOCKSIZE = 0"
proof -
  obtain a where a: "sbrk_aligned sz s = (Some a, s')" "e = \<lparr>rstart = a, rend = a + sz, rtype = ty\<rparr>" "rs' = region_insert e rs"
    using r by (auto simp: region_allocate_def Let_def split: if_splits prod.splits option.splits)
  note f = sbrk_aligned_fresh [OF a(1)]
  have below: "\<forall>r\<in>set rs. rend r \<le> a" using ok f(1) by (auto simp: regions_ok_def)
  have "shift_regions rs a n = n" if "n \<le> length rs" for n
  proof (cases n)
    case (Suc i)
    then have "rs ! i \<in> set rs" using that by simp
    then have "rstart (rs ! i) \<le> a" using below ok by (fastforce simp: regions_ok_def)
    with Suc show ?thesis by simp
  qed simp
  then show e: "rs' = rs @ [e]" using a(2,3) by (simp add: region_insert_def Let_def)
  show "\<forall>r\<in>set rs. rend r \<le> rstart e" "rend e = rstart e + sz" "rtype e = ty" "rstart e mod GC_BLOCKSIZE = 0" using below a(2) f(3) by simp_all
  show "regions_ok rs' s'" unfolding e regions_ok_def
    using ok below a(2) f sz by (fastforce simp: regions_ok_def sorted_wrt_append)
qed

end
