(* ===== verification/GC_Mark.thy ===== *)
theory GC_Mark
  imports GC_Memory
begin

text \<open>
  The mark phase of the collector, from \<^verbatim>\<open>runtime/gc.c\<close>: the test for object addresses, the walk functions, the mark
  stack with its three states, and the objects with finalizers.
\<close>

section \<open>State\<close>

datatype mstate = MARK_STATE_COLLECT | MARK_STATE_NORMAL | MARK_STATE_OVERFLOW

text \<open>
  \<open>usage\<close> is the block usage table of the region that starts at an address. A node of the finalizer lists is
  its own address and the object. \<open>mark_top\<close>, \<open>mark_cursor\<close>, \<open>mark_bound\<close> and \<open>mark_save_cursor\<close> are pointers into the stack, as indices.
\<close>

record gcs =
  mem :: memory
  regions :: "region list"
  usage :: "nat \<Rightarrow> uint32 list"
  small_regions :: "region list"
  large_objects :: "nat \<Rightarrow> nat list"
  mark_stack :: "nat list"
  mark_top :: int
  mark_cursor :: int
  mark_bound :: int
  mark_save_cursor :: int
  mark_state :: mstate
  has_final :: "(nat \<times> nat) list"
  do_final :: "(nat \<times> nat) list"

section \<open>Is it an object?\<close>

definition block_used :: "uint32 list \<Rightarrow> nat \<Rightarrow> bool" where
  "block_used tab pos \<longleftrightarrow> tab ! (pos div 32) AND push_bit (pos mod 32) 1 \<noteq> 0"

definition ROUNDDOWNBLOCKSIZE :: "nat \<Rightarrow> nat" where
  "ROUNDDOWNBLOCKSIZE v = v div GC_BLOCKSIZE * GC_BLOCKSIZE"

partial_function (option) find_header :: "memory \<Rightarrow> nat \<Rightarrow> nat \<Rightarrow> nat option" where
  [code]: "find_header m header bound =
     (if header < bound then find_header m (header + size_word (m header)) bound else Some header)"

definition is_small_object :: "gcs \<Rightarrow> nat \<Rightarrow> region \<Rightarrow> bool option" where
  "is_small_object s p r =
     (if p = 0 \<or> p mod MEMALIGN \<noteq> 0 then Some False
      else if \<not> block_used (usage s (rstart r)) ((p - rstart r) div GC_BLOCKSIZE) then Some False
      else case find_header (mem s) (ROUNDDOWNBLOCKSIZE p + (MEMALIGN - GC_HEAD)) (p - GC_HEAD) of
        None \<Rightarrow> None
      | Some header \<Rightarrow> Some (header = p - GC_HEAD \<and> \<not> free_word (mem s header)))"

definition LARGE_SET_SIZE :: nat where "LARGE_SET_SIZE = 16381"

definition large_set_hash :: "nat \<Rightarrow> nat" where
  "large_set_hash p = p div MEMALIGN"

definition large_set_exists :: "gcs \<Rightarrow> nat \<Rightarrow> bool" where
  "large_set_exists s p \<longleftrightarrow> p \<in> set (large_objects s (large_set_hash p mod LARGE_SET_SIZE))"

definition is_object :: "gcs \<Rightarrow> nat \<Rightarrow> bool result option" where
  "is_object s p =
     (case region_find (regions s) p of
        Inl e \<Rightarrow> Some (Inl e)
      | Inr None \<Rightarrow> Some (Inr False)
      | Inr (Some r) \<Rightarrow>
          (case rtype r of
             GC_REGION_SMALL \<Rightarrow> map_option Inr (is_small_object s p r)
           | GC_REGION_LARGE \<Rightarrow> Some (Inr (large_set_exists s p))
           | _ \<Rightarrow> Some (Inr False)))"

section \<open>Marking\<close>

definition push_mark :: "nat \<Rightarrow> gcs \<Rightarrow> gcs result" where
  "push_mark p s =
     (let t = mark_top s + 1
      in if 0 \<le> t \<and> nat t < length (mark_stack s)
         then Inr (s\<lparr>mark_top := t, mark_stack := (mark_stack s)[nat t := p]\<rparr>)
         else Inl C_undefined)"

definition mark :: "nat \<Rightarrow> gcs \<Rightarrow> gcs result" where
  "mark p s =
     (if p = 0 \<or> marked (mem s) p then Inr s
      else
        let s = s\<lparr>mem := set_mark p (mem s)\<rparr>
        in if mark_top s < mark_bound s then push_mark p s
           else if mark_state s = MARK_STATE_COLLECT then
             push_mark p (s\<lparr>mark_save_cursor := mark_cursor s, mark_cursor := mark_top s + 2,
                mark_bound := int (length (mark_stack s)) - 1, mark_state := MARK_STATE_NORMAL\<rparr>)
           else Inr (s\<lparr>mark_state := MARK_STATE_OVERFLOW\<rparr>))"

definition mark_potential :: "nat \<Rightarrow> gcs \<Rightarrow> gcs result option" where
  "mark_potential p s = and_then (is_object s p) (\<lambda>b. Some (if b then mark p s else Inr s))"

section \<open>Walk functions\<close>

text \<open>
  A class has its instance fields (is it a reference, and its offset) and its superclass. What a walk function passes to
  \<open>mark\<close> are the contents of some words of the object: the slots.
\<close>

datatype gclass = GClass "(bool \<times> nat) list" "gclass option"

fun object_walker :: "gclass \<Rightarrow> nat \<Rightarrow> nat list" where
  "object_walker (GClass fs sc) p =
     map (\<lambda>f. p + snd f) (filter fst (rev fs)) @ (case sc of None \<Rightarrow> [] | Some c \<Rightarrow> object_walker c p)"

definition ARRAY_SIZE_OFFSET :: nat where "ARRAY_SIZE_OFFSET = 8"
definition ARRAY_DATA_OFFSET :: nat where "ARRAY_DATA_OFFSET = 16"

definition gc_walk_ref_array :: "memory \<Rightarrow> nat \<Rightarrow> nat list" where
  "gc_walk_ref_array m p = map (\<lambda>i. p + ARRAY_DATA_OFFSET + 4 * i) [0..<m (p + ARRAY_SIZE_OFFSET)]"

datatype walkfn = Gc_walk_null | Gc_walk_ref_array | Object_walker gclass

text \<open>\<open>WALK(p)\<close>: the walk function of the class in the dispatch table of the object.\<close>

definition walk_slots :: "(nat \<Rightarrow> walkfn) \<Rightarrow> memory \<Rightarrow> nat \<Rightarrow> nat list" where
  "walk_slots ct m p =
     (case ct (m (m p)) of
        Gc_walk_null \<Rightarrow> []
      | Gc_walk_ref_array \<Rightarrow> gc_walk_ref_array m p
      | Object_walker c \<Rightarrow> object_walker c p)"

fun mark_slots :: "nat list \<Rightarrow> gcs \<Rightarrow> gcs result" where
  "mark_slots [] s = Inr s"
| "mark_slots (a # as) s = bind_result (mark (mem s a) s) (mark_slots as)"

definition WALK :: "(nat \<Rightarrow> walkfn) \<Rightarrow> nat \<Rightarrow> gcs \<Rightarrow> gcs result" where
  "WALK ct p s = mark_slots (walk_slots ct (mem s) p) s"

text \<open>
  The roots: class objects (their loader, constant strings and static reference fields), the preallocated exception, and the
  stacks of the threads.
\<close>

record class_root =
  cr_loader :: nat
  cr_state :: nat
  cr_tags :: "nat list"
  cr_data :: nat
  cr_sfields :: "(bool \<times> bool \<times> nat) list"

definition gc_walk_class :: "class_root \<Rightarrow> nat list" where
  "gc_walk_class c =
     cr_loader c #
       (if cr_state c \<ge> 4
        then map (\<lambda>i. cr_data c + 4 * i) (filter (\<lambda>i. cr_tags c ! i = 24) [1..<length (cr_tags c)]) @
          map (\<lambda>f. snd (snd f)) (filter (\<lambda>f. fst f \<and> \<not> fst (snd f)) (cr_sfields c))
        else [])"

record gthread =
  gt_tid :: nat
  gt_private :: nat
  gt_restore :: nat
  gt_end :: nat

record groots =
  root_classes :: "class_root list"
  out_of_memory :: nat
  live_threads :: "gthread list"

definition gc_walk_conservative :: "nat \<Rightarrow> nat \<Rightarrow> gcs \<Rightarrow> gcs result option" where
  "gc_walk_conservative base lim s = each (\<lambda>i s. mark_potential (mem s (base + 4 * i)) s) [0..<(lim - base + 3) div 4] s"

definition gc_walk_thread :: "gthread \<Rightarrow> gcs \<Rightarrow> gcs result option" where
  "gc_walk_thread t s = (if gt_private t \<noteq> 0 then gc_walk_conservative (gt_restore t) (gt_end t) s else Some (Inr s))"

definition walk_roots :: "groots \<Rightarrow> gcs \<Rightarrow> gcs result option" where
  "walk_roots r s =
     and_then (each (\<lambda>c s. Some (mark_slots (gc_walk_class c) s)) (root_classes r) s) (\<lambda>s.
     and_then (Some (mark (out_of_memory r) s)) (\<lambda>s.
     each (\<lambda>t s. and_then (Some (mark (gt_tid t) s)) (gc_walk_thread t)) (live_threads r) s))"

section \<open>The mark stack\<close>

partial_function (option) collect_loop :: "(nat \<Rightarrow> walkfn) \<Rightarrow> gcs \<Rightarrow> gcs result option" where
  [code]: "collect_loop ct s =
     (if mark_cursor s \<le> mark_top s then
        if 0 \<le> mark_cursor s \<and> nat (mark_cursor s) < length (mark_stack s) then
          (case WALK ct (mark_stack s ! nat (mark_cursor s)) s of
             Inl e \<Rightarrow> Some (Inl e)
           | Inr s \<Rightarrow> collect_loop ct (s\<lparr>mark_cursor := mark_cursor s + 1\<rparr>))
        else Some (Inl C_undefined)
      else Some (Inr s))"

partial_function (option) drain_loop :: "(nat \<Rightarrow> walkfn) \<Rightarrow> gcs \<Rightarrow> gcs result option" where
  [code]: "drain_loop ct s =
     (if mark_top s \<ge> 0 then
        if nat (mark_top s) < length (mark_stack s) then
          (case WALK ct (mark_stack s ! nat (mark_top s)) (s\<lparr>mark_top := mark_top s - 1\<rparr>) of
             Inl e \<Rightarrow> Some (Inl e)
           | Inr s \<Rightarrow> drain_loop ct s)
        else Some (Inl C_undefined)
      else Some (Inr s))"

text \<open>The marked objects of the whole heap are walked after an overflow.\<close>

definition walk_if_marked :: "(nat \<Rightarrow> walkfn) \<Rightarrow> nat \<Rightarrow> gcs \<Rightarrow> gcs result" where
  "walk_if_marked ct p s = (if marked (mem s) p then WALK ct p s else Inr s)"

definition walk_large_objects :: "(nat \<Rightarrow> walkfn) \<Rightarrow> gcs \<Rightarrow> gcs result option" where
  "walk_large_objects ct s =
     each (\<lambda>i s. each (\<lambda>p s. Some (walk_if_marked ct p s)) (large_objects s i) s) [0..<LARGE_SET_SIZE] s"

partial_function (option) walk_block :: "(nat \<Rightarrow> walkfn) \<Rightarrow> nat \<Rightarrow> nat \<Rightarrow> gcs \<Rightarrow> gcs result option" where
  [code]: "walk_block ct header bound s =
     (if header < bound then
        (case walk_if_marked ct (header + GC_HEAD) s of
           Inl e \<Rightarrow> Some (Inl e)
         | Inr s' \<Rightarrow> walk_block ct (header + size_word (mem s header)) bound s')
      else Some (Inr s))"

definition walk_small_region :: "(nat \<Rightarrow> walkfn) \<Rightarrow> region \<Rightarrow> gcs \<Rightarrow> gcs result option" where
  "walk_small_region ct r s =
     each (\<lambda>pos s.
       if block_used (usage s (rstart r)) pos
       then let block = rstart r + pos * GC_BLOCKSIZE
            in walk_block ct (block + (MEMALIGN - GC_HEAD)) (block + (GC_BLOCKSIZE - GC_HEAD)) s
       else Some (Inr s)) [0..<(rend r - rstart r + GC_BLOCKSIZE - 1) div GC_BLOCKSIZE] s"

definition walk_small_objects :: "(nat \<Rightarrow> walkfn) \<Rightarrow> gcs \<Rightarrow> gcs result option" where
  "walk_small_objects ct s = each (walk_small_region ct) (small_regions s) s"

definition handle_stack_overflow :: "(nat \<Rightarrow> walkfn) \<Rightarrow> gcs \<Rightarrow> gcs result option" where
  "handle_stack_overflow ct s = and_then (walk_large_objects ct s) (walk_small_objects ct)"

partial_function (option) normal_loop :: "(nat \<Rightarrow> walkfn) \<Rightarrow> gcs \<Rightarrow> gcs result option" where
  [code]: "normal_loop ct s =
     (case drain_loop ct s of
        None \<Rightarrow> None
      | Some (Inl e) \<Rightarrow> Some (Inl e)
      | Some (Inr s) \<Rightarrow>
          if mark_state s = MARK_STATE_OVERFLOW then
            (case handle_stack_overflow ct (s\<lparr>mark_state := MARK_STATE_NORMAL\<rparr>) of
               None \<Rightarrow> None
             | Some (Inl e) \<Rightarrow> Some (Inl e)
             | Some (Inr s) \<Rightarrow> normal_loop ct s)
          else Some (Inr s))"

text \<open>\<open>memmove\<close> of the entries from the saved cursor to the bottom of the stack.\<close>

definition move_down :: "gcs \<Rightarrow> gcs result" where
  "move_down s =
     (let k = mark_save_cursor s; n = mark_top s - k + 1
      in if 0 \<le> k \<and> 0 \<le> n \<and> nat (mark_top s) < length (mark_stack s)
         then Inr (s\<lparr>mark_stack := take (nat n) (drop (nat k) (mark_stack s)) @ drop (nat n) (mark_stack s), mark_top := mark_top s - k\<rparr>)
         else Inl C_undefined)"

definition walk_mark_stack :: "(nat \<Rightarrow> walkfn) \<Rightarrow> gcs \<Rightarrow> gcs result option" where
  "walk_mark_stack ct s =
     (if mark_state s = MARK_STATE_COLLECT then
        and_then (collect_loop ct s) (\<lambda>s.
        if mark_state s = MARK_STATE_COLLECT then Some (Inr s)
        else and_then (Some (move_down s)) (normal_loop ct))
      else normal_loop ct s)"

section \<open>Finalizers\<close>

text \<open>The loop of \<open>walk_finals\<close> over the nodes of \<open>has_final\<close>.\<close>

fun split_finals :: "memory \<Rightarrow> (nat \<times> nat) list \<Rightarrow> (nat \<times> nat) list \<Rightarrow> (nat \<times> nat) list \<Rightarrow> (nat \<times> nat) list \<times> (nat \<times> nat) list" where
  "split_finals m [] has fin = (has, fin)"
| "split_finals m (node # ns) has fin =
     (if marked m (fst node) then split_finals m ns (node # has) fin else split_finals m ns has (node # fin))"

definition walk_finals :: "(nat \<Rightarrow> walkfn) \<Rightarrow> gcs \<Rightarrow> gcs result option" where
  "walk_finals ct s =
     (let (has, fin) = split_finals (mem s) (has_final s) [] (do_final s);
          s = s\<lparr>has_final := has, do_final := fin\<rparr>
      in and_then (each (\<lambda>node s. Some (mark (snd node) s)) (do_final s) s) (walk_mark_stack ct))"

section \<open>The mark phase\<close>

definition mark_stack_suggest_bound :: "nat \<Rightarrow> nat \<Rightarrow> nat" where
  "mark_stack_suggest_bound stack_size heap_size =
     (let b = heap_size div 128 in if 2 * b \<ge> stack_size then stack_size div 2 else b)"

definition mark_phase :: "(nat \<Rightarrow> walkfn) \<Rightarrow> groots \<Rightarrow> nat \<Rightarrow> gcs \<Rightarrow> gcs result option" where
  "mark_phase ct r heap_size s =
     (let s = s\<lparr>mark_state := MARK_STATE_NORMAL, mark_top := - 1, mark_bound := int (length (mark_stack s)) - 1\<rparr>
      in and_then (walk_roots r s) (\<lambda>s.
         let bound = int (mark_stack_suggest_bound (length (mark_stack s)) heap_size);
             s = (if mark_top s < bound then s\<lparr>mark_cursor := 0, mark_bound := bound, mark_state := MARK_STATE_COLLECT\<rparr> else s)
         in and_then (walk_mark_stack ct s) (walk_finals ct)))"

section \<open>The objects of the heap\<close>

text \<open>
  A used block is a chain of chunks that ends four bytes before the end of the block. \<open>gc_objects\<close> are the
  addresses after the headers of the chunks that are not free, and the members of the large object table.
\<close>

function block_ok :: "memory \<Rightarrow> nat \<Rightarrow> nat \<Rightarrow> bool" where
  "block_ok m h b = (if h < b then (if size_word (m h) = 0 then False else block_ok m (h + size_word (m h)) b) else h = b)"
  by pat_completeness auto
termination by (relation "measure (\<lambda>(m, h, b). b - h)") auto

function chunk_headers :: "memory \<Rightarrow> nat \<Rightarrow> nat \<Rightarrow> nat list" where
  "chunk_headers m h b = (if h < b \<and> size_word (m h) \<noteq> 0 then h # chunk_headers m (h + size_word (m h)) b else [])"
  by pat_completeness auto
termination by (relation "measure (\<lambda>(m, h, b). b - h)") auto

declare block_ok.simps [simp del] chunk_headers.simps [simp del]

definition region_blocks :: "region \<Rightarrow> nat" where
  "region_blocks r = (rend r - rstart r + GC_BLOCKSIZE - 1) div GC_BLOCKSIZE"

definition used_blocks :: "gcs \<Rightarrow> region \<Rightarrow> nat list" where
  "used_blocks s r = filter (block_used (usage s (rstart r))) [0..<region_blocks r]"

definition first_header :: "region \<Rightarrow> nat \<Rightarrow> nat" where
  "first_header r pos = rstart r + pos * GC_BLOCKSIZE + (MEMALIGN - GC_HEAD)"

definition last_header :: "region \<Rightarrow> nat \<Rightarrow> nat" where
  "last_header r pos = rstart r + pos * GC_BLOCKSIZE + (GC_BLOCKSIZE - GC_HEAD)"

definition region_headers :: "gcs \<Rightarrow> region \<Rightarrow> nat list" where
  "region_headers s r = concat (map (\<lambda>pos. chunk_headers (mem s) (first_header r pos) (last_header r pos)) (used_blocks s r))"

definition small_objects :: "gcs \<Rightarrow> nat set" where
  "small_objects s = (\<Union>r\<in>set (small_regions s). {h + GC_HEAD | h. h \<in> set (region_headers s r) \<and> \<not> free_word (mem s h)})"

definition large_set :: "gcs \<Rightarrow> nat set" where
  "large_set s = (\<Union>i<LARGE_SET_SIZE. set (large_objects s i))"

definition gc_objects :: "gcs \<Rightarrow> nat set" where
  "gc_objects s = small_objects s \<union> large_set s"

definition heap_ok :: "gcs \<Rightarrow> bool" where
  "heap_ok s \<longleftrightarrow>
     regions s \<noteq> [] \<and> (\<exists>os. regions_ok (regions s) os) \<and>
     set (small_regions s) = {r \<in> set (regions s). rtype r = GC_REGION_SMALL} \<and>
     (\<forall>r\<in>set (small_regions s). (rend r - rstart r) mod GC_BLOCKSIZE = 0) \<and>
     (\<forall>r\<in>set (small_regions s). \<forall>pos\<in>set (used_blocks s r). block_ok (mem s) (first_header r pos) (last_header r pos)) \<and>
     (\<forall>i<LARGE_SET_SIZE. \<forall>p\<in>set (large_objects s i). large_set_hash p mod LARGE_SET_SIZE = i \<and> p mod MEMALIGN = 0 \<and> 0 < p \<and>
        (\<exists>r\<in>set (regions s). rtype r = GC_REGION_LARGE \<and> rstart r \<le> p \<and> p < rend r))"

lemma size_word_mod [simp]: "size_word h mod 8 = 0"
  by (simp add: size_word_alt)

lemma size_word_dvd [simp]: "8 dvd size_word h"
  by (simp add: size_word_alt)

lemma chunk_headers_bounds: "x \<in> set (chunk_headers m h b) \<Longrightarrow> h \<le> x \<and> x < b \<and> x mod 8 = h mod 8"
proof (induction m h b rule: chunk_headers.induct)
  case (1 m h b)
  have "(h + size_word (m h)) mod 8 = h mod 8" by (simp add: mod_add_eq [symmetric, of h])
  with 1 show ?case by (subst (asm) (2) chunk_headers.simps) (fastforce split: if_splits)
qed

text \<open>\<open>find_header\<close> stops at the bound exactly for the headers of the chain.\<close>

lemma find_header_correct:
  "block_ok m h b \<Longrightarrow> h \<le> b \<Longrightarrow> q \<le> b \<Longrightarrow> \<exists>x. find_header m h q = Some x \<and> (q < b \<longrightarrow> (x = q \<longleftrightarrow> q \<in> set (chunk_headers m h b)))"
proof (induction m h b rule: block_ok.induct)
  case (1 m h b)
  show ?case
  proof (cases "h < q")
    case True
    then have hb: "h < b" using "1.prems" by simp
    then have z: "size_word (m h) \<noteq> 0" and ok: "block_ok m (h + size_word (m h)) b"
      using "1.prems"(1) by (subst (asm) block_ok.simps, simp split: if_splits)+
    have le: "h + size_word (m h) \<le> b" using ok by (subst (asm) block_ok.simps) (simp split: if_splits)
    have f: "find_header m h q = find_header m (h + size_word (m h)) q" using True by (subst find_header.simps) simp
    have c: "set (chunk_headers m h b) = insert h (set (chunk_headers m (h + size_word (m h)) b))"
      using hb z by (subst chunk_headers.simps) simp
    show ?thesis using "1.IH" [OF hb z ok le "1.prems"(3)] True unfolding f c by fastforce
  next
    case False
    have f: "find_header m h q = Some h" using False by (subst find_header.simps) simp
    have "h = q \<longleftrightarrow> q \<in> set (chunk_headers m h b)" if "q < b"
    proof (cases "h = q")
      case True
      with that have "size_word (m h) \<noteq> 0" using "1.prems"(1) by (subst (asm) block_ok.simps) (simp split: if_splits)
      with True that show ?thesis by (subst chunk_headers.simps) simp
    next
      case no: False
      with False have "q \<notin> set (chunk_headers m h b)" using chunk_headers_bounds [of q m h b] by auto
      with no show ?thesis by simp
    qed
    with f show ?thesis by auto
  qed
qed

section \<open>The test for object addresses is exact\<close>

text \<open>The block of an address in a region.\<close>

lemma block_of:
  assumes p: "rstart r \<le> p" "p < rend r" and al: "rstart r mod GC_BLOCKSIZE = 0" "(rend r - rstart r) mod GC_BLOCKSIZE = 0"
  shows "ROUNDDOWNBLOCKSIZE p = rstart r + (p - rstart r) div GC_BLOCKSIZE * GC_BLOCKSIZE" (is ?R)
    "(p - rstart r) div GC_BLOCKSIZE < region_blocks r" (is ?B)
    "ROUNDDOWNBLOCKSIZE p \<le> p" "p < ROUNDDOWNBLOCKSIZE p + GC_BLOCKSIZE"
proof -
  obtain a where a: "rstart r = a * GC_BLOCKSIZE" using al(1) by (metis mod_0_imp_dvd dvd_def mult.commute)
  define d where "d = p - rstart r"
  have "p = d + a * GC_BLOCKSIZE" using p a d_def by simp
  then have "p div GC_BLOCKSIZE = d div GC_BLOCKSIZE + a" by (simp add: GC_BLOCKSIZE_def)
  then show ?R unfolding ROUNDDOWNBLOCKSIZE_def d_def [symmetric] by (simp add: a algebra_simps)
  obtain n where n: "rend r - rstart r = n * GC_BLOCKSIZE" using al(2) by (metis mod_0_imp_dvd dvd_def mult.commute)
  have "region_blocks r = n" unfolding region_blocks_def n by (simp add: GC_BLOCKSIZE_def)
  moreover have "d < n * GC_BLOCKSIZE" using p n d_def by linarith
  ultimately show ?B unfolding d_def [symmetric] by (simp add: less_mult_imp_div_less)
  show "ROUNDDOWNBLOCKSIZE p \<le> p" "p < ROUNDDOWNBLOCKSIZE p + GC_BLOCKSIZE"
    using mult_div_mod_eq [of 4096 p] mod_less_divisor [of 4096 p] unfolding ROUNDDOWNBLOCKSIZE_def GC_BLOCKSIZE_def by linarith+
qed

lemma region_headers_iff:
  "h \<in> set (region_headers s r) \<longleftrightarrow> (\<exists>pos<region_blocks r. block_used (usage s (rstart r)) pos \<and> h \<in> set (chunk_headers (mem s) (first_header r pos) (last_header r pos)))"
  by (auto simp: region_headers_def used_blocks_def)

lemma header_block:
  assumes h: "h \<in> set (chunk_headers m (first_header r pos) (last_header r pos))"
  shows "(h + GC_HEAD - rstart r) div GC_BLOCKSIZE = pos" "h + GC_HEAD < rstart r + (pos + 1) * GC_BLOCKSIZE" "rstart r < h"
    "rstart r mod GC_BLOCKSIZE = 0 \<Longrightarrow> (h + GC_HEAD) mod MEMALIGN = 0"
proof -
  note b = chunk_headers_bounds [OF h]
  have r: "rstart r + pos * 4096 + 8 \<le> h + 4" "h + 4 < rstart r + pos * 4096 + 4096"
    using b by (simp_all add: first_header_def last_header_def gc_consts)
  have "(h + 4 - rstart r) div 4096 = pos" by (rule div_nat_eqI) (use r in \<open>simp_all add: algebra_simps\<close>)
  then show "(h + GC_HEAD - rstart r) div GC_BLOCKSIZE = pos" by (simp add: gc_consts)
  show "h + GC_HEAD < rstart r + (pos + 1) * GC_BLOCKSIZE" "rstart r < h" using r by (simp_all add: gc_consts)
  assume "rstart r mod GC_BLOCKSIZE = 0"
  then obtain a where a: "rstart r = 4096 * a" by (auto simp: GC_BLOCKSIZE_def)
  have "(h + 4) mod 8 = (first_header r pos + 4) mod 8" using b by (metis mod_add_cong)
  also have "first_header r pos + 4 = 8 * (512 * a + 512 * pos + 1)" by (simp add: first_header_def gc_consts a)
  finally show "(h + GC_HEAD) mod MEMALIGN = 0" by (simp add: gc_consts)
qed

lemma heap_okD:
  assumes "heap_ok s" and "r \<in> set (regions s)"
  shows "rstart r mod GC_BLOCKSIZE = 0" "rtype r = GC_REGION_SMALL \<Longrightarrow> r \<in> set (small_regions s)" "rtype r = GC_REGION_SMALL \<Longrightarrow> (rend r - rstart r) mod GC_BLOCKSIZE = 0"
  using assms by (auto simp: heap_ok_def regions_ok_def)

lemma is_small_object_correct:
  assumes ok: "heap_ok s" and r: "r \<in> set (regions s)" "rtype r = GC_REGION_SMALL" and p: "rstart r \<le> p" "p < rend r"
  shows "is_small_object s p r = Some (\<exists>h\<in>set (region_headers s r). p = h + GC_HEAD \<and> \<not> free_word (mem s h))"
proof -
  note al = heap_okD [OF ok r(1)]
  note bl = block_of [OF p al(1) al(3) [OF r(2)]]
  let ?pos = "(p - rstart r) div GC_BLOCKSIZE"
  have hd: "h \<in> set (region_headers s r) \<and> p = h + GC_HEAD \<longleftrightarrow>
      p = h + GC_HEAD \<and> block_used (usage s (rstart r)) ?pos \<and> h \<in> set (chunk_headers (mem s) (first_header r ?pos) (last_header r ?pos))" for h
    using header_block(1) bl(2) unfolding region_headers_iff by (metis)
  show ?thesis
  proof (cases "p \<noteq> 0 \<and> p mod MEMALIGN = 0 \<and> block_used (usage s (rstart r)) ?pos")
    case False
    have good: "p \<noteq> 0 \<and> p mod MEMALIGN = 0 \<and> block_used (usage s (rstart r)) ?pos" if "h \<in> set (region_headers s r)" "p = h + GC_HEAD" for h
    proof -
      from that hd have u: "block_used (usage s (rstart r)) ?pos" "h \<in> set (chunk_headers (mem s) (first_header r ?pos) (last_header r ?pos))" by blast+
      from header_block(4) [OF u(2) al(1)] u(1) that(2) show ?thesis by (simp add: gc_consts)
    qed
    have no: "\<not> (\<exists>h\<in>set (region_headers s r). p = h + GC_HEAD \<and> \<not> free_word (mem s h))"
    proof
      assume "\<exists>h\<in>set (region_headers s r). p = h + GC_HEAD \<and> \<not> free_word (mem s h)"
      then obtain h where "h \<in> set (region_headers s r)" "p = h + GC_HEAD" by (elim bexE conjE)
      from good [OF this] False show False by (elim notE)
    qed
    show ?thesis unfolding is_small_object_def using False no by auto
  next
    case True
    let ?h = "first_header r ?pos" and ?b = "last_header r ?pos"
    have start: "ROUNDDOWNBLOCKSIZE p + (MEMALIGN - GC_HEAD) = ?h" unfolding bl(1) first_header_def ..
    have okb: "block_ok (mem s) ?h ?b"
      using ok al(2) [OF r(2)] True bl(2) unfolding heap_ok_def used_blocks_def by simp
    have "?h \<le> ?b" by (simp add: first_header_def last_header_def gc_consts)
    have "p < ROUNDDOWNBLOCKSIZE p + 4096" using bl(4) by (simp add: gc_consts)
    moreover have "?b = ROUNDDOWNBLOCKSIZE p + 4092" unfolding last_header_def bl(1) by (simp add: gc_consts)
    ultimately have q: "p - GC_HEAD < ?b" unfolding GC_HEAD_def by linarith
    obtain x where x: "find_header (mem s) ?h (p - GC_HEAD) = Some x" "x = p - GC_HEAD \<longleftrightarrow> p - GC_HEAD \<in> set (chunk_headers (mem s) ?h ?b)"
      using find_header_correct [OF okb \<open>?h \<le> ?b\<close>, of "p - GC_HEAD"] q by auto
    have "p \<ge> 8" using True by (auto simp: gc_consts)
    then have ph: "p = h + GC_HEAD \<longleftrightarrow> h = p - GC_HEAD" for h by (auto simp: gc_consts)
    have "is_small_object s p r = Some (x = p - GC_HEAD \<and> \<not> free_word (mem s x))"
      unfolding is_small_object_def start x(1) using True by simp
    also have "x = p - GC_HEAD \<and> \<not> free_word (mem s x) \<longleftrightarrow> (\<exists>h\<in>set (region_headers s r). p = h + GC_HEAD \<and> \<not> free_word (mem s h))"
      using hd x(2) True ph by (metis)
    finally show ?thesis .
  qed
qed

lemma small_object_region:
  assumes ok: "heap_ok s" and r: "r \<in> set (regions s)" "rtype r = GC_REGION_SMALL" and h: "h \<in> set (region_headers s r)"
  shows "rstart r \<le> h + GC_HEAD" "h + GC_HEAD < rend r" "(h + GC_HEAD) mod MEMALIGN = 0" "rstart r \<le> h"
proof -
  obtain pos where pos: "pos < region_blocks r" "h \<in> set (chunk_headers (mem s) (first_header r pos) (last_header r pos))"
    using h unfolding region_headers_iff by blast
  note al = heap_okD [OF ok r(1)] and b = header_block [OF pos(2)]
  obtain n where n: "rend r - rstart r = n * GC_BLOCKSIZE" using al(3) [OF r(2)] by (metis mod_0_imp_dvd dvd_def mult.commute)
  have "region_blocks r = n" unfolding region_blocks_def n by (simp add: GC_BLOCKSIZE_def)
  with pos(1) have "(pos + 1) * GC_BLOCKSIZE \<le> rend r - rstart r" unfolding n by (intro mult_le_mono) simp_all
  then show "h + GC_HEAD < rend r" using b(2) by (simp add: GC_BLOCKSIZE_def)
  show "rstart r \<le> h + GC_HEAD" "rstart r \<le> h" using b(3) by simp_all
  show "(h + GC_HEAD) mod MEMALIGN = 0" by (rule b(4) [OF al(1)])
qed

lemma region_unique:
  assumes "regions_ok rs os" "r \<in> set rs" "r' \<in> set rs" "rstart r \<le> p" "p < rend r" "rstart r' \<le> p" "p < rend r'"
  shows "r = r'"
proof -
  have "rs \<noteq> []" using assms by auto
  then show ?thesis using region_find_correct(1) [OF assms(1), of p] assms by (metis Inr_inject option.inject)
qed

lemma is_object_correct:
  assumes ok: "heap_ok s"
  shows "is_object s p = Some (Inr (p \<in> gc_objects s))"
proof -
  obtain os where rs: "regions s \<noteq> []" "regions_ok (regions s) os"
    and sm: "set (small_regions s) = {r \<in> set (regions s). rtype r = GC_REGION_SMALL}" using ok by (auto simp: heap_ok_def)
  obtain x where x: "region_find (regions s) p = Inr x" using region_find_correct(2) [OF rs(2,1)] by blast
  have small: "p \<in> small_objects s \<longleftrightarrow> (\<exists>r\<in>set (regions s). rtype r = GC_REGION_SMALL \<and> (\<exists>h\<in>set (region_headers s r). p = h + GC_HEAD \<and> \<not> free_word (mem s h)))"
    unfolding small_objects_def sm by auto
  have large: "p \<in> large_set s \<longleftrightarrow> large_set_exists s p"
    using ok unfolding large_set_def large_set_exists_def heap_ok_def by (auto simp: LARGE_SET_SIZE_def)
  have lr: "\<exists>r\<in>set (regions s). rtype r = GC_REGION_LARGE \<and> rstart r \<le> p \<and> p < rend r" if "p \<in> large_set s"
    using ok that unfolding large_set_def heap_ok_def by blast
  show ?thesis
  proof (cases x)
    case None
    have no: "\<not> (rstart r \<le> p \<and> p < rend r)" if "r \<in> set (regions s)" for r
      using region_find_correct(1) [OF rs(2,1), of p r] that x None by auto
    have "p \<notin> small_objects s" unfolding small using no small_object_region(1,2) [OF ok] by blast
    moreover have "p \<notin> large_set s" using no lr by blast
    ultimately show ?thesis using x None by (simp add: is_object_def gc_objects_def)
  next
    case (Some r)
    then have r: "r \<in> set (regions s)" "rstart r \<le> p" "p < rend r"
      using region_find_correct(1) [OF rs(2,1), of p r] x by auto
    have same: "r' = r" if "r' \<in> set (regions s)" "rstart r' \<le> p" "p < rend r'" for r'
      by (rule region_unique [OF rs(2) that(1) r(1) that(2,3) r(2,3)])
    have s1: "p \<in> small_objects s \<longleftrightarrow> rtype r = GC_REGION_SMALL \<and> (\<exists>h\<in>set (region_headers s r). p = h + GC_HEAD \<and> \<not> free_word (mem s h))"
      unfolding small using same small_object_region(1,2) [OF ok] r(1) by blast
    have l1: "p \<in> large_set s \<Longrightarrow> rtype r = GC_REGION_LARGE" using lr same by blast
    have sm1: "rtype r = GC_REGION_SMALL \<Longrightarrow> is_small_object s p r = Some (p \<in> small_objects s)"
      using is_small_object_correct [OF ok r(1) _ r(2,3)] s1 by simp
    show ?thesis
      using x Some s1 l1 large sm1 by (cases "rtype r") (auto simp: is_object_def gc_objects_def)
  qed
qed

end
