(* ===== verification/GC_Sort.thy ===== *)
theory GC_Sort
  imports LaTTe_Prelude "HOL-Library.Multiset"
begin

text \<open>
  The radix sort of the live objects, \<open>sort_objects\<close> of \<^verbatim>\<open>runtime/gc.c\<close>. The objects lie in the mark stack; the passes
  copy them between its first and its second \<open>n\<close> entries. The table of counts is a function; its index is masked.
\<close>

definition RADIX_BITS :: nat where "RADIX_BITS = 11"
definition RADIX_SIZE :: nat where "RADIX_SIZE = 2048"

definition radix :: "nat \<Rightarrow> nat \<Rightarrow> nat" where
  "radix sh x = drop_bit sh x AND (RADIX_SIZE - 1)"

fun count_radices :: "nat \<Rightarrow> nat list \<Rightarrow> (nat \<Rightarrow> nat) \<Rightarrow> nat \<Rightarrow> nat" where
  "count_radices sh [] c = c"
| "count_radices sh (x # xs) c = count_radices sh xs (c(radix sh x := c (radix sh x) + 1))"

fun set_positions :: "nat list \<Rightarrow> nat \<Rightarrow> (nat \<Rightarrow> nat) \<Rightarrow> nat \<Rightarrow> nat" where
  "set_positions [] m c = c"
| "set_positions (j # js) m c = set_positions js (m + c j) (c(j := m))"

fun distribute :: "nat \<Rightarrow> nat \<Rightarrow> nat \<Rightarrow> nat list \<Rightarrow> (nat \<Rightarrow> nat) \<Rightarrow> nat list \<Rightarrow> nat list result" where
  "distribute sh src dst [] c arr = Inr arr"
| "distribute sh src dst (j # js) c arr =
     (if src + j < length arr then
        let x = arr ! (src + j); r = radix sh x
        in if dst + c r < length arr
           then distribute sh src dst js (c(r := c r + 1)) (arr[dst + c r := x])
           else Inl C_undefined
      else Inl C_undefined)"

definition radix_pass :: "nat \<Rightarrow> nat \<Rightarrow> nat \<Rightarrow> nat \<Rightarrow> nat list \<Rightarrow> nat list result" where
  "radix_pass n sh src dst arr =
     (if src + n \<le> length arr then
        let c = count_radices sh (take n (drop src arr)) (\<lambda>_. 0);
            c = set_positions [0..<RADIX_SIZE] 0 c
        in distribute sh src dst [0..<n] c arr
      else Inl C_undefined)"

fun radix_passes :: "nat \<Rightarrow> nat list \<Rightarrow> nat \<Rightarrow> nat \<Rightarrow> nat list \<Rightarrow> (nat \<times> nat list) result" where
  "radix_passes n [] src dst arr = Inr (src, arr)"
| "radix_passes n (sh # shs) src dst arr = bind_result (radix_pass n sh src dst arr) (radix_passes n shs dst src)"

text \<open>The index of the sorted array and the contents of the mark stack.\<close>

definition sort_objects :: "nat \<Rightarrow> nat list \<Rightarrow> (nat \<times> nat list) result" where
  "sort_objects n arr = radix_passes n [0, RADIX_BITS, 2 * RADIX_BITS] 0 n arr"

section \<open>A pass is a stable sort\<close>

definition bucket :: "nat \<Rightarrow> nat list \<Rightarrow> nat \<Rightarrow> nat list" where
  "bucket sh xs r = filter (\<lambda>x. radix sh x = r) xs"

definition buckets :: "nat \<Rightarrow> nat list \<Rightarrow> nat list" where
  "buckets sh xs = concat (map (bucket sh xs) [0..<RADIX_SIZE])"

definition bucket_start :: "nat \<Rightarrow> nat list \<Rightarrow> nat \<Rightarrow> nat" where
  "bucket_start sh xs r = (\<Sum>k<r. length (bucket sh xs k))"

lemma radix_alt: "radix sh x = x div 2 ^ sh mod 2048"
proof -
  have "radix sh x = take_bit 11 (drop_bit sh x)" unfolding radix_def RADIX_SIZE_def take_bit_eq_mask mask_eq_exp_minus_1 by simp
  then show ?thesis by (simp add: drop_bit_eq_div take_bit_eq_mod)
qed

lemma radix_less: "radix sh x < RADIX_SIZE"
  by (simp add: radix_alt RADIX_SIZE_def)

lemma count_radices_length: "count_radices sh xs c r = c r + length (bucket sh xs r)"
  by (induction xs arbitrary: c) (auto simp: bucket_def)

lemma set_positions_other: "r \<notin> set js \<Longrightarrow> set_positions js m c r = c r"
  by (induction js arbitrary: m c) auto

lemma set_positions_sum:
  "r \<in> {a..<b} \<Longrightarrow> set_positions [a..<b] m c r = m + (\<Sum>k=a..<r. c k)"
proof (induction "b - a" arbitrary: a m c)
  case (Suc d)
  then have ab: "a < b" by simp
  then have u: "[a..<b] = a # [Suc a..<b]" by (rule upt_conv_Cons)
  show ?case
  proof (cases "r = a")
    case True
    then show ?thesis using u by (simp add: set_positions_other)
  next
    case False
    then have r: "r \<in> {Suc a..<b}" "d = b - Suc a" using Suc.prems Suc.hyps(2) by auto
    have "(\<Sum>k=Suc a..<r. (c(a := m)) k) = (\<Sum>k=Suc a..<r. c k)" by (rule sum.cong) auto
    moreover have "(\<Sum>k=a..<r. c k) = c a + (\<Sum>k=Suc a..<r. c k)" using r by (simp add: sum.atLeast_Suc_lessThan)
    ultimately show ?thesis using Suc.hyps(1) [OF r(2,1), of "m + c a" "c(a := m)"] u by simp
  qed
qed simp

lemma positions_start: "r < RADIX_SIZE \<Longrightarrow> set_positions [0..<RADIX_SIZE] 0 (count_radices sh xs (\<lambda>_. 0)) r = bucket_start sh xs r"
  by (subst set_positions_sum) (auto simp: count_radices_length bucket_start_def atLeast0LessThan)

lemma bucket_start_mono: "r < r' \<Longrightarrow> bucket_start sh xs r + length (bucket sh xs r) \<le> bucket_start sh xs r'"
proof -
  assume "r < r'"
  then have "{..<Suc r} \<subseteq> {..<r'}" by auto
  then have "(\<Sum>k<Suc r. length (bucket sh xs k)) \<le> bucket_start sh xs r'" unfolding bucket_start_def by (intro sum_mono2) auto
  then show ?thesis by (simp add: bucket_start_def)
qed

lemma concat_buckets_length: "length (concat (map (bucket sh xs) [0..<k])) = bucket_start sh xs k"
  by (induction k) (simp_all add: bucket_start_def)

lemma concat_buckets_nth:
  "r < k \<Longrightarrow> i < length (bucket sh xs r) \<Longrightarrow> concat (map (bucket sh xs) [0..<k]) ! (bucket_start sh xs r + i) = bucket sh xs r ! i"
proof (induction k)
  case (Suc k)
  show ?case
  proof (cases "r = k")
    case True
    then show ?thesis using Suc.prems by (simp add: nth_append concat_buckets_length)
  next
    case False
    then have "r < k" using Suc.prems by simp
    then have "bucket_start sh xs r + i < bucket_start sh xs k" using bucket_start_mono [of r k sh xs] Suc.prems by linarith
    then show ?thesis using Suc \<open>r < k\<close> by (simp add: nth_append concat_buckets_length)
  qed
qed simp

lemma concat_buckets_cover:
  "a < bucket_start sh xs k \<Longrightarrow> \<exists>r<k. \<exists>i<length (bucket sh xs r). a = bucket_start sh xs r + i"
proof (induction k)
  case 0
  then show ?case by (simp add: bucket_start_def)
next
  case (Suc k)
  show ?case
  proof (cases "a < bucket_start sh xs k")
    case True
    then show ?thesis using Suc.IH by (auto intro: less_SucI)
  next
    case False
    then show ?thesis using Suc.prems by (intro exI [of _ k] conjI exI [of _ "a - bucket_start sh xs k"]) (auto simp: bucket_start_def)
  qed
qed

lemma mset_buckets: "mset (buckets sh xs) = mset xs"
proof -
  have "mset (concat (map (bucket sh xs) [0..<k])) = mset (filter (\<lambda>x. radix sh x < k) xs)" for k
  proof (induction k)
    case (Suc k)
    have "mset (filter (\<lambda>x. radix sh x < Suc k) xs) = mset (filter (\<lambda>x. radix sh x < k) xs) + mset (bucket sh xs k)"
      unfolding bucket_def by (induction xs) (auto simp: less_Suc_eq)
    then show ?case using Suc by simp
  qed simp
  from this [of RADIX_SIZE] show ?thesis by (simp add: buckets_def radix_less)
qed

lemma length_buckets: "bucket_start sh xs RADIX_SIZE = length xs"
  using mset_buckets [of sh xs] by (metis buckets_def concat_buckets_length size_mset)


text \<open>The loop that fills the buckets: entry \<open>i\<close> of a bucket is in place once that many members have been met.\<close>

definition filled :: "nat \<Rightarrow> nat list \<Rightarrow> nat \<Rightarrow> nat \<Rightarrow> nat list \<Rightarrow> bool" where
  "filled sh xs dst j arr \<longleftrightarrow> (\<forall>r<RADIX_SIZE. \<forall>i<length (bucket sh (take j xs) r). arr ! (dst + bucket_start sh xs r + i) = bucket sh xs r ! i)"

definition apart :: "nat \<Rightarrow> nat \<Rightarrow> nat \<Rightarrow> bool" where
  "apart n src dst \<longleftrightarrow> src + n \<le> dst \<or> dst + n \<le> src"

lemma bucket_take_Suc:
  assumes "j < length xs"
  shows "bucket sh (take (Suc j) xs) r = bucket sh (take j xs) r @ (if radix sh (xs ! j) = r then [xs ! j] else [])"
  using assms by (simp add: bucket_def take_Suc_conv_app_nth)

lemma bucket_nth_take:
  assumes "j < length xs"
  shows "bucket sh xs (radix sh (xs ! j)) ! length (bucket sh (take j xs) (radix sh (xs ! j))) = xs ! j"
    "length (bucket sh (take j xs) (radix sh (xs ! j))) < length (bucket sh xs (radix sh (xs ! j)))"
proof -
  have "xs = take j xs @ xs ! j # drop (Suc j) xs" using assms by (simp add: id_take_nth_drop)
  then have "bucket sh xs (radix sh (xs ! j)) = bucket sh (take j xs) (radix sh (xs ! j)) @ xs ! j # bucket sh (drop (Suc j) xs) (radix sh (xs ! j))"
    unfolding bucket_def by (metis (mono_tags, lifting) filter.simps(2) filter_append)
  then show "bucket sh xs (radix sh (xs ! j)) ! length (bucket sh (take j xs) (radix sh (xs ! j))) = xs ! j"
    "length (bucket sh (take j xs) (radix sh (xs ! j))) < length (bucket sh xs (radix sh (xs ! j)))" by (simp_all add: nth_append)
qed

lemma bucket_take_le: "length (bucket sh (take j xs) r) \<le> length (bucket sh xs r)"
  by (metis append_take_drop_id bucket_def filter_append le_add1 length_append)

lemma distribute_ok:
  assumes n: "length xs = n" and ap: "apart n src dst"
  shows "j \<le> n \<Longrightarrow> src + n \<le> length arr \<Longrightarrow> dst + n \<le> length arr \<Longrightarrow> take n (drop src arr) = xs \<Longrightarrow> filled sh xs dst j arr \<Longrightarrow>
    \<forall>r<RADIX_SIZE. c r = bucket_start sh xs r + length (bucket sh (take j xs) r) \<Longrightarrow>
    \<exists>arr'. distribute sh src dst [j..<n] c arr = Inr arr' \<and> filled sh xs dst n arr' \<and> length arr' = length arr \<and> (\<forall>a. a < dst \<or> dst + n \<le> a \<longrightarrow> arr' ! a = arr ! a)"
proof (induction "n - j" arbitrary: j c arr)
  case 0
  then show ?case by auto
next
  case (Suc d)
  then have jn: "j < n" by simp
  let ?x = "xs ! j" let ?r = "radix sh ?x" let ?b = "bucket_start sh xs"
  have x: "arr ! (src + j) = ?x" using Suc.prems(2,4) jn n by (metis nth_drop nth_take add_leD1)
  have r: "?r < RADIX_SIZE" by (rule radix_less)
  have cr: "c ?r = ?b ?r + length (bucket sh (take j xs) ?r)" using Suc.prems(6) r by blast
  note bn = bucket_nth_take [of j xs sh, unfolded n, OF jn]
  have "?b ?r + length (bucket sh xs ?r) \<le> n" using bucket_start_mono [OF r, of sh xs] length_buckets [of sh xs] n by simp
  then have cn: "c ?r < n" using cr bn(2) by linarith
  let ?arr = "arr[dst + c ?r := ?x]" and ?c = "c(?r := c ?r + 1)"
  have step: "distribute sh src dst [j..<n] c arr = distribute sh src dst [Suc j..<n] ?c ?arr"
    using jn Suc.prems(2,3) cn by (simp add: upt_conv_Cons x Let_def)
  have src': "take n (drop src ?arr) = xs"
  proof (rule nth_equalityI)
    show "length (take n (drop src ?arr)) = length xs" using Suc.prems(2) n by simp
    fix i assume "i < length (take n (drop src ?arr))"
    then have i: "i < n" by simp
    then have "src + i \<noteq> dst + c ?r" using ap cn unfolding apart_def by linarith
    moreover have "arr ! (src + i) = xs ! i" using Suc.prems(2,4) i by (metis nth_drop nth_take add_leD1)
    ultimately show "take n (drop src ?arr) ! i = xs ! i" using i Suc.prems(2) by simp
  qed
  have fil: "filled sh xs dst (Suc j) ?arr" unfolding filled_def
  proof (intro allI impI)
    fix r' i assume r': "r' < RADIX_SIZE" and i: "i < length (bucket sh (take (Suc j) xs) r')"
    show "?arr ! (dst + ?b r' + i) = bucket sh xs r' ! i"
    proof (cases "r' = ?r \<and> i = length (bucket sh (take j xs) ?r)")
      case True
      then show ?thesis using bn(1) cr cn Suc.prems(3) by (simp add: add.assoc)
    next
      case False
      then have i': "i < length (bucket sh (take j xs) r')" using i bucket_take_Suc [of j xs sh r'] jn n by (auto split: if_splits)
      have "?b r' + i \<noteq> c ?r"
      proof (cases "r' = ?r")
        case True
        then show ?thesis using i' cr by simp
      next
        case ne: False
        have il: "i < length (bucket sh xs r')" using i' bucket_take_le [of sh j xs r'] by linarith
        show ?thesis
        proof (cases "r' < ?r")
          case True
          then show ?thesis using bucket_start_mono [OF True, of sh xs] il cr by linarith
        next
          case False
          then have "?r < r'" using ne by simp
          then show ?thesis using bucket_start_mono [of ?r r' sh xs] cr bn(2) by linarith
        qed
      qed
      then have "?arr ! (dst + ?b r' + i) = arr ! (dst + ?b r' + i)" by (simp add: nth_list_update_neq)
      then show ?thesis using Suc.prems(5) r' i' unfolding filled_def by simp
    qed
  qed
  have cs: "\<forall>r<RADIX_SIZE. ?c r = ?b r + length (bucket sh (take (Suc j) xs) r)"
    using Suc.prems(6) bucket_take_Suc [of j xs sh] jn n by auto
  have dj: "d = n - Suc j" "Suc j \<le> n" and pl: "src + n \<le> length ?arr" "dst + n \<le> length ?arr" using Suc.hyps(2) Suc.prems(2,3) jn by simp_all
  obtain arr' where "distribute sh src dst [Suc j..<n] ?c ?arr = Inr arr'" "filled sh xs dst n arr'" "length arr' = length ?arr" "\<forall>a. a < dst \<or> dst + n \<le> a \<longrightarrow> arr' ! a = ?arr ! a"
    using Suc.hyps(1) [OF dj pl src' fil cs] by (elim exE conjE) (rule that)
  then show ?case unfolding step using cn by auto
qed

lemma radix_pass_ok:
  assumes s: "src + n \<le> length arr" "dst + n \<le> length arr" and ap: "apart n src dst"
  shows "\<exists>arr'. radix_pass n sh src dst arr = Inr arr' \<and> length arr' = length arr \<and> take n (drop dst arr') = buckets sh (take n (drop src arr)) \<and>
    (\<forall>a. a < dst \<or> dst + n \<le> a \<longrightarrow> arr' ! a = arr ! a)"
proof -
  let ?xs = "take n (drop src arr)"
  have n: "length ?xs = n" using s(1) by simp
  have f0: "filled sh ?xs dst 0 arr" by (simp add: filled_def bucket_def)
  let ?c = "set_positions [0..<RADIX_SIZE] 0 (count_radices sh ?xs (\<lambda>_. 0))"
  have c0: "\<forall>r<RADIX_SIZE. ?c r = bucket_start sh ?xs r + length (bucket sh (take 0 ?xs) r)" by (simp add: positions_start bucket_def)
  obtain arr' where a: "distribute sh src dst [0..<n] ?c arr = Inr arr'" "filled sh ?xs dst n arr'" "length arr' = length arr" "\<forall>a. a < dst \<or> dst + n \<le> a \<longrightarrow> arr' ! a = arr ! a"
    using distribute_ok [OF n ap _ s refl f0 c0] by blast
  have "take n (drop dst arr') = buckets sh ?xs"
  proof (rule nth_equalityI)
    have lb: "length (buckets sh ?xs) = n" using concat_buckets_length [of sh ?xs RADIX_SIZE] length_buckets [of sh ?xs] n unfolding buckets_def by simp
    then show "length (take n (drop dst arr')) = length (buckets sh ?xs)" using s(2) a(3) by simp
    fix i assume "i < length (take n (drop dst arr'))"
    then have i: "i < n" by simp
    then have "i < bucket_start sh ?xs RADIX_SIZE" unfolding length_buckets n .
    then obtain r k where r: "r < RADIX_SIZE" "k < length (bucket sh ?xs r)" "i = bucket_start sh ?xs r + k"
      using concat_buckets_cover by blast
    have "arr' ! (dst + i) = bucket sh ?xs r ! k" using a(2) r n unfolding filled_def by (simp add: add.assoc)
    moreover have "buckets sh ?xs ! i = bucket sh ?xs r ! k" unfolding buckets_def r(3) by (rule concat_buckets_nth [OF r(1,2)])
    ultimately show "take n (drop dst arr') ! i = buckets sh ?xs ! i" using i s(2) a(3) by simp
  qed
  then show ?thesis using a s(1) by (auto simp: radix_pass_def Let_def)
qed

section \<open>The passes together sort\<close>

text \<open>The order after the passes up to bit \<open>k\<close>: the lists are sorted by their low \<open>k\<close> bits.\<close>

definition low_sorted :: "nat \<Rightarrow> nat list \<Rightarrow> bool" where
  "low_sorted k xs \<longleftrightarrow> sorted_wrt (\<lambda>x y. x mod 2 ^ k \<le> y mod 2 ^ k) xs"

lemma low_split: "(x::nat) mod 2 ^ (sh + RADIX_BITS) = 2 ^ sh * radix sh x + x mod 2 ^ sh"
  by (simp add: radix_alt RADIX_BITS_def power_add mod_mult2_eq)

lemma low_less:
  assumes "radix sh x < radix sh y"
  shows "x mod 2 ^ (sh + RADIX_BITS) \<le> y mod 2 ^ (sh + RADIX_BITS)"
proof -
  have "x mod 2 ^ (sh + RADIX_BITS) \<le> 2 ^ sh * radix sh x + 2 ^ sh" unfolding low_split by simp
  also have "\<dots> = 2 ^ sh * Suc (radix sh x)" by simp
  also have "\<dots> \<le> 2 ^ sh * radix sh y" using assms by (intro mult_le_mono2) simp
  finally show ?thesis unfolding low_split [of y] by simp
qed

lemma low_sorted_buckets:
  assumes "low_sorted sh xs"
  shows "low_sorted (sh + RADIX_BITS) (buckets sh xs)"
proof -
  let ?P = "\<lambda>x y. x mod 2 ^ (sh + RADIX_BITS) \<le> y mod (2::nat) ^ (sh + RADIX_BITS)"
  have b: "sorted_wrt ?P (bucket sh xs r)" for r
  proof -
    have "sorted_wrt (\<lambda>x y. x mod 2 ^ sh \<le> y mod 2 ^ sh) (bucket sh xs r)"
      using assms unfolding low_sorted_def bucket_def by (rule sorted_wrt_filter)
    then show ?thesis by (rule sorted_wrt_mono_rel [rotated]) (auto simp: bucket_def low_split)
  qed
  have "sorted_wrt ?P (concat (map (bucket sh xs) [0..<k]))" for k
  proof (induction k)
    case (Suc k)
    have "?P x y" if "x \<in> set (concat (map (bucket sh xs) [0..<k]))" "y \<in> set (bucket sh xs k)" for x y
      using that by (intro low_less) (auto simp: bucket_def)
    then show ?case using Suc b by (simp add: sorted_wrt_append)
  qed simp
  then show ?thesis by (simp add: low_sorted_def buckets_def)
qed

lemma radix_passes_ok:
  assumes "src + n \<le> length arr" "dst + n \<le> length arr" "apart n src dst" "low_sorted k (take n (drop src arr))"
    "shs = map (\<lambda>i. k + i * RADIX_BITS) [0..<m]" "src \<le> n" "dst \<le> n"
  shows "\<exists>p arr'. radix_passes n shs src dst arr = Inr (p, arr') \<and> p = (if even m then src else dst) \<and> length arr' = length arr \<and>
    low_sorted (k + m * RADIX_BITS) (take n (drop p arr')) \<and> mset (take n (drop p arr')) = mset (take n (drop src arr)) \<and>
    (\<forall>a. 2 * n \<le> a \<longrightarrow> arr' ! a = arr ! a)"
  using assms
proof (induction m arbitrary: k shs src dst arr)
  case (Suc m)
  let ?xs = "take n (drop src arr)"
  obtain arr1 where a1: "radix_pass n k src dst arr = Inr arr1" "length arr1 = length arr" "take n (drop dst arr1) = buckets k ?xs"
    "\<forall>a. a < dst \<or> dst + n \<le> a \<longrightarrow> arr1 ! a = arr ! a"
    using radix_pass_ok [OF Suc.prems(1-3), of k] by blast
  let ?shs = "map (\<lambda>i. k + RADIX_BITS + i * RADIX_BITS) [0..<m]"
  have shs: "shs = k # ?shs" unfolding Suc.prems(5) by (simp add: upt_conv_Cons map_Suc_upt [symmetric] comp_def del: upt_Suc)
  have "low_sorted (k + RADIX_BITS) (take n (drop dst arr1))" unfolding a1(3) by (rule low_sorted_buckets [OF Suc.prems(4)])
  note so = this
  have ap: "apart n dst src" using Suc.prems(3) by (auto simp: apart_def)
  have ls: "dst + n \<le> length arr1" "src + n \<le> length arr1" using Suc.prems(1,2) a1(2) by simp_all
  obtain p arr' where a2: "radix_passes n ?shs dst src arr1 = Inr (p, arr')" "p = (if even m then dst else src)" "length arr' = length arr1"
    "low_sorted (k + RADIX_BITS + m * RADIX_BITS) (take n (drop p arr'))" "mset (take n (drop p arr')) = mset (take n (drop dst arr1))"
    "\<forall>a. 2 * n \<le> a \<longrightarrow> arr' ! a = arr1 ! a"
    using Suc.IH [OF ls ap so refl Suc.prems(7,6)] by (elim exE conjE) (rule that)
  have far: "\<forall>a. 2 * n \<le> a \<longrightarrow> arr' ! a = arr ! a" using a1(4) a2(6) Suc.prems(7) by simp
  have "low_sorted (k + Suc m * RADIX_BITS) (take n (drop p arr'))" using a2(4) by (simp add: algebra_simps)
  moreover have "mset (take n (drop p arr')) = mset ?xs" unfolding a2(5) a1(3) by (rule mset_buckets)
  moreover have "radix_passes n shs src dst arr = Inr (p, arr')" "p = (if even (Suc m) then src else dst)" using a1(1) a2(1,2) by (simp_all add: shs)
  moreover have "length arr' = length arr" using a1(2) a2(3) by simp
  ultimately show ?case using far by blast
qed (auto)

lemma sort_objects_effect:
  assumes "2 * n \<le> length arr" "\<forall>x\<in>set (take n arr). x < 2 ^ 32"
  shows "\<exists>arr'. sort_objects n arr = Inr (n, arr') \<and> length arr' = length arr \<and> sorted (take n (drop n arr')) \<and>
    mset (take n (drop n arr')) = mset (take n arr) \<and> drop (2 * n) arr' = drop (2 * n) arr"
proof -
  have shs: "[0, RADIX_BITS, 2 * RADIX_BITS] = map (\<lambda>i. 0 + i * RADIX_BITS) [0..<3]" by (simp add: numeral_3_eq_3)
  have ap0: "apart n 0 n" by (simp add: apart_def)
  have ls0: "low_sorted 0 (take n (drop 0 arr))" by (induction "take n (drop 0 arr)") (simp_all add: low_sorted_def sorted_wrt_iff_nth_less)
  obtain p arr' where a: "sort_objects n arr = Inr (p, arr')" "p = (if even (3::nat) then 0 else n)" "length arr' = length arr"
    "low_sorted (0 + 3 * RADIX_BITS) (take n (drop p arr'))" "mset (take n (drop p arr')) = mset (take n (drop 0 arr))" "\<forall>a. 2 * n \<le> a \<longrightarrow> arr' ! a = arr ! a"
    unfolding sort_objects_def using radix_passes_ok [OF _ _ ap0 ls0 shs] assms(1) by (auto simp del: radix_passes.simps)
  have p: "p = n" using a(2) by simp
  have "set (take n (drop n arr')) = set (take n arr)" using a(5) p by (metis drop0 set_mset_mset)
  then have "x < 2 ^ 33" if "x \<in> set (take n (drop n arr'))" for x using that assms(2) by fastforce
  then have "sorted_wrt (\<le>) (take n (drop n arr'))" using a(4) unfolding p low_sorted_def
    by (auto simp: RADIX_BITS_def elim!: sorted_wrt_mono_rel [rotated])
  moreover have "drop (2 * n) arr' = drop (2 * n) arr" using a(3,6) by (intro nth_equalityI) auto
  ultimately show ?thesis using a p by auto
qed

text \<open>C40. Sorting the live objects: with room for every object twice, the loops index the mark stack within its bounds, the returned array
  is its second half, holds the same objects in increasing order of their addresses, and what lies beyond is untouched.\<close>

theorem sort_objects_sorts:
  assumes "2 * n \<le> length arr" "\<forall>x\<in>set (take n arr). x < 2 ^ 32"
  shows "\<exists>arr'. sort_objects n arr = Inr (n, arr') \<and> length arr' = length arr \<and> sorted (take n (drop n arr')) \<and>
    mset (take n (drop n arr')) = mset (take n arr) \<and> drop (2 * n) arr' = drop (2 * n) arr"
  using assms by (rule sort_objects_effect)

theorem sort_objects_sorts_witness:
  "\<exists>arr'. sort_objects 3 [70000, 5, 4096, 0, 0, 0, 9] = Inr (3, arr') \<and> length arr' = length [70000, 5, 4096, 0, 0, 0, 9::nat] \<and> sorted (take 3 (drop 3 arr')) \<and>
    mset (take 3 (drop 3 arr')) = {#70000, 5, 4096#} \<and> drop 6 arr' = [9]"
  using sort_objects_sorts [of 3 "[70000, 5, 4096, 0, 0, 0, 9]"] by simp

end
