(* ===== verification/GC_Sweep.thy ===== *)
theory GC_Sweep
  imports GC_Mark GC_Sort
begin

text \<open>
  The sweep of the small object area, from \<^verbatim>\<open>runtime/gc.c\<close>: the index of free chunks, the division of a free range
  into chunks and blocks, and the two sweeping algorithms. The links of the lists of free chunks and free blocks lie in the free memory; here
  the lists are lists of addresses, and the sizes are in the memory.
\<close>

section \<open>Free chunks and blocks\<close>

definition SMALL_CHUNKS_LIST_INDEX_SIZE :: nat where "SMALL_CHUNKS_LIST_INDEX_SIZE = GC_BLOCKSIZE div MEMALIGN"

lemmas sweep_consts = gc_consts SMALL_CHUNKS_LIST_INDEX_SIZE_def

text \<open>The memory, the index with the chunks of each size, the free blocks found so far, and the two counters of the statistics.\<close>

record sweeping =
  sw_mem :: memory
  sw_index :: "nat \<Rightarrow> nat list"
  sw_blocks :: "nat list"
  small_freed :: nat
  small_marked :: nat

definition init_freeindex :: "nat \<Rightarrow> nat list" where
  "init_freeindex = (\<lambda>_. [])"

definition insert_freechunk :: "nat \<Rightarrow> nat \<Rightarrow> sweeping \<Rightarrow> sweeping result" where
  "insert_freechunk chunk sz s =
     (let index = sz div MEMALIGN
      in if index < SMALL_CHUNKS_LIST_INDEX_SIZE
         then Inr (s\<lparr>sw_index := (sw_index s)(index := sw_index s index @ [chunk]), sw_mem := (sw_mem s)(chunk := set_bit 1 sz)\<rparr>)
         else Inl C_undefined)"

definition merge_freeindex :: "(nat \<Rightarrow> nat list) \<Rightarrow> nat list" where
  "merge_freeindex idx = concat (map idx (rev [1..<SMALL_CHUNKS_LIST_INDEX_SIZE]))"

definition add_free_block :: "nat \<Rightarrow> nat \<Rightarrow> sweeping \<Rightarrow> sweeping" where
  "add_free_block block sz s = s\<lparr>sw_mem := (sw_mem s)(block := sz), sw_blocks := sw_blocks s @ [block]\<rparr>"

definition ROUNDUPBLOCKSIZE :: "nat \<Rightarrow> nat" where
  "ROUNDUPBLOCKSIZE v = (v + GC_BLOCKSIZE - 1) div GC_BLOCKSIZE * GC_BLOCKSIZE"

definition to_boundary :: "nat \<Rightarrow> nat" where
  "to_boundary a =
     (if a mod GC_BLOCKSIZE = MEMALIGN - GC_HEAD then a - (MEMALIGN - GC_HEAD)
      else if a mod GC_BLOCKSIZE = GC_BLOCKSIZE - GC_HEAD then a + GC_HEAD else a)"

definition insert_freemem :: "nat \<Rightarrow> nat \<Rightarrow> sweeping \<Rightarrow> sweeping result" where
  "insert_freemem a e s =
     (let start = to_boundary a; en = to_boundary e
      in if start = en then Inr s
         else
           let (first_start, first_end, cursor) =
                 (if start mod GC_BLOCKSIZE \<noteq> 0
                  then (start, if en < ROUNDUPBLOCKSIZE start then en else ROUNDUPBLOCKSIZE start - GC_HEAD, ROUNDUPBLOCKSIZE start)
                  else (0, 0, start));
               (middle_start, middle_end, cursor) =
                 (if cursor < ROUNDDOWNBLOCKSIZE en then (cursor, ROUNDDOWNBLOCKSIZE en, ROUNDDOWNBLOCKSIZE en) else (0, 0, cursor));
               (last_start, last_end) = (if cursor < en then (cursor + GC_HEAD, en) else (0, 0))
           in bind_result (if first_start < first_end then insert_freechunk first_start (first_end - first_start) s else Inr s) (\<lambda>s.
              let s = (if middle_start < middle_end then add_free_block middle_start (middle_end - middle_start) s else s)
              in if last_start < last_end then insert_freechunk last_start (last_end - last_start) s else Inr s))"

section \<open>Selective sweeping\<close>

definition unmark :: "nat \<Rightarrow> sweeping \<Rightarrow> sweeping" where
  "unmark p s = s\<lparr>sw_mem := clear_mark p (sw_mem s)\<rparr>"

definition free_between :: "nat \<Rightarrow> nat \<Rightarrow> sweeping \<Rightarrow> sweeping result" where
  "free_between a e s =
     (if a < e then bind_result (insert_freemem a e s) (\<lambda>s. Inr (s\<lparr>small_freed := small_freed s + (e - a)\<rparr>)) else Inr s)"

text \<open>The loops over the sorted objects; \<open>i\<close> is the index of the current object.\<close>

function skip_objects :: "nat list \<Rightarrow> nat \<Rightarrow> nat \<Rightarrow> nat result" where
  "skip_objects objects region_start i =
     (if i < length objects then if objects ! i < region_start then skip_objects objects region_start (i + 1) else Inr i
      else Inl C_undefined)"
  by pat_completeness auto
termination by (relation "measure (\<lambda>(objects, r, i). length objects - i)") auto

function sweep_between :: "nat list \<Rightarrow> nat \<Rightarrow> nat \<Rightarrow> sweeping \<Rightarrow> (nat \<times> sweeping) result" where
  "sweep_between objects region_end i s =
     (if i + 1 < length objects then
        if objects ! (i + 1) < region_end then
          let s = unmark (objects ! (i + 1)) s;
              sz = SIZE (sw_mem s) (objects ! i)
          in bind_result (free_between (HEADER (objects ! i) + sz) (HEADER (objects ! (i + 1))) s) (\<lambda>s.
             sweep_between objects region_end (i + 1) (s\<lparr>small_marked := small_marked s + sz\<rparr>))
        else Inr (i, s)
      else Inl C_undefined)"
  by pat_completeness auto
termination by (relation "measure (\<lambda>(objects, r, i, s). length objects - i)") auto

declare skip_objects.simps [simp del] sweep_between.simps [simp del]

definition sweep_region_selective :: "nat list \<Rightarrow> region \<Rightarrow> nat \<times> sweeping \<Rightarrow> (nat \<times> sweeping) result" where
  "sweep_region_selective objects r is =
     (case is of (i, s) \<Rightarrow>
        bind_result (skip_objects objects (rstart r) i) (\<lambda>i.
        if objects ! i > rend r
        then let sz = rend r - rstart r; s = add_free_block (rstart r) sz s in Inr (i, s\<lparr>small_freed := small_freed s + sz\<rparr>)
        else
          let region_first = rstart r + (MEMALIGN - GC_HEAD);
              region_last = rend r - GC_HEAD;
              s = unmark (objects ! i) s
          in bind_result (free_between region_first (HEADER (objects ! i)) s) (\<lambda>s.
             bind_result (sweep_between objects (rend r) i s) (\<lambda>(i, s).
             let sz = SIZE (sw_mem s) (objects ! i)
             in bind_result (free_between (HEADER (objects ! i) + sz) region_last s) (\<lambda>s.
                Inr (i, s\<lparr>small_marked := small_marked s + sz\<rparr>))))))"

fun sweep_regions_selective :: "nat list \<Rightarrow> region list \<Rightarrow> nat \<times> sweeping \<Rightarrow> (nat \<times> sweeping) result" where
  "sweep_regions_selective objects [] is = Inr is"
| "sweep_regions_selective objects (r # rs) is = bind_result (sweep_region_selective objects r is) (sweep_regions_selective objects rs)"

definition start_sweep :: "memory \<Rightarrow> sweeping" where
  "start_sweep m = \<lparr>sw_mem = m, sw_index = init_freeindex, sw_blocks = [], small_freed = 0, small_marked = 0\<rparr>"

text \<open>The result is the state of the sweep, with the new lists \<open>small_chunks\<close> and \<open>small_blocks\<close>, and the contents of the mark stack.\<close>

record swept =
  swept_mem :: memory
  small_chunks :: "nat list"
  small_blocks :: "nat list"
  freed :: nat
  kept :: nat

definition finish_sweep :: "sweeping \<Rightarrow> swept" where
  "finish_sweep s =
     \<lparr>swept_mem = sw_mem s, small_chunks = merge_freeindex (sw_index s), small_blocks = sw_blocks s, freed = small_freed s, kept = small_marked s\<rparr>"

definition sweep_small_selective :: "region list \<Rightarrow> memory \<Rightarrow> nat list \<Rightarrow> nat \<Rightarrow> (swept \<times> nat list) result" where
  "sweep_small_selective regs m stack n =
     (if n + 1 < length stack then
        bind_result (sort_objects (n + 2) (stack[n := 0, n + 1 := 2 ^ 32 - 1])) (\<lambda>(set, stack).
        bind_result (sweep_regions_selective (drop set stack) regs (0, start_sweep m)) (\<lambda>(i, s).
        Inr (finish_sweep s, stack)))
      else Inl C_undefined)"

section \<open>Normal sweeping\<close>

definition insert_slack :: "nat \<Rightarrow> nat \<Rightarrow> sweeping \<Rightarrow> sweeping result" where
  "insert_slack slack slack_size s =
     (if slack_size > 0 then bind_result (insert_freechunk slack slack_size s) (\<lambda>s. Inr (s\<lparr>small_freed := small_freed s + slack_size\<rparr>)) else Inr s)"

definition insert_slack_block :: "nat \<Rightarrow> nat \<Rightarrow> sweeping \<Rightarrow> sweeping" where
  "insert_slack_block slack_block sz s =
     (if sz > 0 then let s = add_free_block slack_block sz s in s\<lparr>small_freed := small_freed s + sz\<rparr> else s)"

partial_function (option) sweep_chunks ::
    "nat \<Rightarrow> nat \<Rightarrow> nat \<Rightarrow> nat \<Rightarrow> sweeping \<Rightarrow> (nat \<times> nat \<times> sweeping) result option" where
  [code]: "sweep_chunks header bound slack slack_size s =
     (if header < bound then
        let sz = size_word (sw_mem s header)
        in if marked_word (sw_mem s header) then
             (case insert_slack slack slack_size s of
                Inl e \<Rightarrow> Some (Inl e)
              | Inr s \<Rightarrow>
                  sweep_chunks (header + sz) bound (header + sz) 0
                    (s\<lparr>small_marked := small_marked s + sz, sw_mem := (sw_mem s)(header := unset_bit 0 (sw_mem s header))\<rparr>))
           else sweep_chunks (header + sz) bound slack (slack_size + sz) s
      else Some (Inr (slack, slack_size, s)))"

definition sweep_block :: "uint32 list \<Rightarrow> nat \<Rightarrow> nat \<Rightarrow> nat \<times> nat \<times> sweeping \<Rightarrow> (nat \<times> nat \<times> sweeping) result option" where
  "sweep_block tab start pos st =
     (case st of (slack_block, slack_block_size, s) \<Rightarrow>
        if \<not> block_used tab pos then Some (Inr (slack_block, slack_block_size + GC_BLOCKSIZE, s))
        else
          let block = start + pos * GC_BLOCKSIZE;
              header = block + (MEMALIGN - GC_HEAD)
          in and_then (sweep_chunks header (block + (GC_BLOCKSIZE - GC_HEAD)) header 0 s) (\<lambda>(slack, slack_size, s).
             if slack_size > 0 \<and> slack = header then Some (Inr (slack_block, slack_block_size + GC_BLOCKSIZE, s))
             else and_then (Some (insert_slack slack slack_size s)) (\<lambda>s.
               Some (Inr (block + GC_BLOCKSIZE, 0, insert_slack_block slack_block slack_block_size s)))))"

definition sweep_region_normal :: "(nat \<Rightarrow> uint32 list) \<Rightarrow> region \<Rightarrow> sweeping \<Rightarrow> sweeping result option" where
  "sweep_region_normal us r s =
     and_then (each (sweep_block (us (rstart r)) (rstart r)) [0..<(rend r - rstart r + GC_BLOCKSIZE - 1) div GC_BLOCKSIZE] (rstart r, 0, s))
       (\<lambda>(slack_block, slack_block_size, s). Some (Inr (insert_slack_block slack_block slack_block_size s)))"

definition sweep_small_normal :: "region list \<Rightarrow> (nat \<Rightarrow> uint32 list) \<Rightarrow> memory \<Rightarrow> swept result option" where
  "sweep_small_normal regs us m = and_then (each (sweep_region_normal us) regs (start_sweep m)) (\<lambda>s. Some (Inr (finish_sweep s)))"

text \<open>\<open>sweep_small\<close> with the arguments of \<open>sweep_phase\<close>.\<close>

definition sweep_small :: "gcs \<Rightarrow> (swept \<times> gcs) result option" where
  "sweep_small s =
     (let done = (\<lambda>(w, stack). (w, s\<lparr>mem := swept_mem w, mark_stack := stack\<rparr>))
      in case mark_state s of
           MARK_STATE_COLLECT \<Rightarrow>
             and_then (Some (sweep_small_selective (small_regions s) (mem s) (mark_stack s) (nat (mark_top s + 1)))) (\<lambda>r. Some (Inr (done r)))
         | _ \<Rightarrow> and_then (sweep_small_normal (small_regions s) (usage s) (mem s)) (\<lambda>w. Some (Inr (done (w, mark_stack s)))))"

end
