(* ===== verification/GC_Reclaim.thy ===== *)
theory GC_Reclaim
  imports GC_Sweep
begin

text \<open>
  The two sweeps of the small object area compute the same memory, free chunks and free blocks: those determined by the
  gaps between the live objects of each region.
\<close>

section \<open>What a sweep leaves behind\<close>

text \<open>
  \<open>hs\<close> are the headers whose mark is cleared, \<open>cs\<close> the free chunks and \<open>bs\<close> the runs of free blocks, with their sizes, in the order of
  their addresses.
\<close>

definition swept_memory :: "memory \<Rightarrow> nat set \<Rightarrow> (nat \<times> nat) list \<Rightarrow> (nat \<times> nat) list \<Rightarrow> memory" where
  "swept_memory m hs cs bs a =
     (case map_of cs a of Some n \<Rightarrow> set_bit 1 n
      | None \<Rightarrow> (case map_of bs a of Some n \<Rightarrow> n | None \<Rightarrow> if a \<in> hs then unset_bit 0 (m a) else m a))"

definition sw_rel :: "memory \<Rightarrow> nat set \<Rightarrow> (nat \<times> nat) list \<Rightarrow> (nat \<times> nat) list \<Rightarrow> nat \<Rightarrow> sweeping \<Rightarrow> bool" where
  "sw_rel m hs cs bs k s \<longleftrightarrow>
     sw_mem s = swept_memory m hs cs bs \<and> sw_index s = (\<lambda>i. map fst (filter (\<lambda>c. snd c div MEMALIGN = i) cs)) \<and> sw_blocks s = map fst bs \<and> small_marked s = k"

definition keys :: "(nat \<times> nat) list \<Rightarrow> nat set" where
  "keys cs = fst ` set cs"

lemma keys_simps [simp]: "keys [] = {}" "keys (c # cs) = insert (fst c) (keys cs)" "keys (cs @ ds) = keys cs \<union> keys ds"
  by (auto simp: keys_def)

lemma map_of_keys: "map_of cs a = None \<longleftrightarrow> a \<notin> keys cs"
  by (simp add: keys_def map_of_eq_None_iff)

definition span :: "nat \<Rightarrow> nat \<Rightarrow> (nat \<times> nat) list" where
  "span a e = (if a < e then [(a, e - a)] else [])"

lemma span_keys: "x \<in> keys (span a e) \<longleftrightarrow> x = a \<and> a < e"
  by (auto simp: span_def)

lemma insert_freechunk_rel:
  assumes r: "sw_rel m hs cs bs k s" and f: "a \<notin> keys cs" and n: "n < GC_BLOCKSIZE"
  shows "\<exists>s'. insert_freechunk a n s = Inr s' \<and> sw_rel m hs (cs @ [(a, n)]) bs k s'"
proof -
  have "n div MEMALIGN < SMALL_CHUNKS_LIST_INDEX_SIZE" using n by (simp add: sweep_consts)
  moreover have "(swept_memory m hs cs bs)(a := set_bit 1 n) = swept_memory m hs (cs @ [(a, n)]) bs"
    using f map_of_keys [of cs a] by (auto simp: swept_memory_def fun_eq_iff map_add_def split: option.splits)
  moreover have "(sw_index s)(n div MEMALIGN := sw_index s (n div MEMALIGN) @ [a]) = (\<lambda>i. map fst (filter (\<lambda>c. snd c div MEMALIGN = i) (cs @ [(a, n)])))"
    using r by (auto simp: sw_rel_def)
  ultimately show ?thesis using r unfolding insert_freechunk_def sw_rel_def Let_def by simp
qed

lemma insert_span_rel:
  assumes r: "sw_rel m hs cs bs k s" and f: "a \<notin> keys cs" and n: "e - a < GC_BLOCKSIZE"
  shows "\<exists>s'. (if a < e then insert_freechunk a (e - a) s else Inr s) = Inr s' \<and> sw_rel m hs (cs @ span a e) bs k s'"
  using insert_freechunk_rel [OF r f n] r by (simp add: span_def)

lemma add_span_rel:
  assumes r: "sw_rel m hs cs bs k s" and f: "a \<notin> keys cs" "a \<notin> keys bs"
  shows "sw_rel m hs cs (bs @ span a e) k (if a < e then add_free_block a (e - a) s else s)"
proof -
  have "(swept_memory m hs cs bs)(a := n) = swept_memory m hs cs (bs @ [(a, n)])" for n
    using f map_of_keys [of cs a] map_of_keys [of bs a] by (auto simp: swept_memory_def fun_eq_iff map_add_def split: option.splits)
  then show ?thesis using r by (simp add: add_free_block_def sw_rel_def span_def)
qed

lemma unmark_rel:
  assumes r: "sw_rel m hs cs bs k s" and f: "h \<notin> keys cs" "h \<notin> keys bs" "h \<notin> hs"
  shows "sw_mem s h = m h" "sw_rel m (insert h hs) cs bs k (s\<lparr>sw_mem := (sw_mem s)(h := unset_bit 0 (sw_mem s h))\<rparr>)"
proof -
  show h: "sw_mem s h = m h" using r f map_of_keys [of cs h] map_of_keys [of bs h] by (simp add: sw_rel_def swept_memory_def)
  have "(swept_memory m hs cs bs)(h := unset_bit 0 (m h)) = swept_memory m (insert h hs) cs bs"
    using f map_of_keys [of cs h] map_of_keys [of bs h] by (auto simp: swept_memory_def fun_eq_iff split: option.splits)
  then show "sw_rel m (insert h hs) cs bs k (s\<lparr>sw_mem := (sw_mem s)(h := unset_bit 0 (sw_mem s h))\<rparr>)"
    using r h by (simp add: sw_rel_def)
qed

lemma swept_size: "sw_rel m hs cs bs k s \<Longrightarrow> h \<notin> keys cs \<Longrightarrow> h \<notin> keys bs \<Longrightarrow> size_word (sw_mem s h) = size_word (m h)"
  using map_of_keys [of cs h] map_of_keys [of bs h] by (simp add: sw_rel_def swept_memory_def)

lemma sw_rel_counters [simp]:
  "sw_rel m hs cs bs k (s\<lparr>small_freed := x\<rparr>) = sw_rel m hs cs bs k s"
  "sw_rel m hs cs bs k (s\<lparr>small_marked := y\<rparr>) = (sw_rel m hs cs bs (small_marked s) s \<and> y = k)"
  by (auto simp: sw_rel_def)

section \<open>Gaps\<close>

text \<open>
  The free memory between two live objects, from the end \<open>g\<close> of the one to the header \<open>h\<close> of the other: a chunk up to the end of the block
  of \<open>g\<close>, a run of blocks, and a chunk from the beginning of the block of \<open>h\<close>.
\<close>

definition block_base :: "nat \<Rightarrow> nat" where
  "block_base a = a div GC_BLOCKSIZE * GC_BLOCKSIZE"

definition at_first :: "nat \<Rightarrow> bool" where
  "at_first a \<longleftrightarrow> a mod GC_BLOCKSIZE = MEMALIGN - GC_HEAD"

definition slack_start :: "nat \<Rightarrow> nat" where
  "slack_start g = (if at_first g then block_base g else block_base g + GC_BLOCKSIZE)"

definition first_part :: "nat \<Rightarrow> (nat \<times> nat) list" where
  "first_part g = (if at_first g then [] else span g (block_base g + (GC_BLOCKSIZE - GC_HEAD)))"

definition gap_chunks :: "nat \<Rightarrow> nat \<Rightarrow> (nat \<times> nat) list" where
  "gap_chunks g h = (if slack_start g \<le> block_base h then first_part g @ span (block_base h + GC_HEAD) h else span g h)"

definition gap_blocks :: "nat \<Rightarrow> nat \<Rightarrow> (nat \<times> nat) list" where
  "gap_blocks g h = (if slack_start g \<le> block_base h then span (slack_start g) (block_base h) else [])"

lemmas gap_defs = block_base_def at_first_def slack_start_def first_part_def gap_chunks_def gap_blocks_def to_boundary_def ROUNDUPBLOCKSIZE_def ROUNDDOWNBLOCKSIZE_def

lemma block_parts:
  obtains A x where "a = A * 4096 + x" "x < (4096::nat)"
  by (metis div_mult_mod_eq mod_less_divisor zero_less_numeral)

lemma block_parts_simps [simp]:
  "x < 4096 \<Longrightarrow> (A * 4096 + x) div 4096 = (A::nat)" "x < 4096 \<Longrightarrow> (A * 4096 + x) mod 4096 = (x::nat)"
  by (simp_all add: div_mult_self3)

lemma mod_8_block: "((A::nat) * 4096 + x) mod 8 = x mod 8"
proof -
  have "A * 4096 + x = x + 8 * (512 * A)" by simp
  then show ?thesis by (metis mod_mult_self2)
qed

lemma aligned_offset: "x < 4096 \<Longrightarrow> x mod 8 = (4::nat) \<Longrightarrow> 4 \<le> x \<and> x \<le> 4092"
proof
  assume "x < 4096" "x mod 8 = 4"
  then show "4 \<le> x" using mod_less_eq_dividend [of x 8] by simp
  show "x \<le> 4092" using \<open>x < 4096\<close> \<open>x mod 8 = 4\<close> by presburger
qed

lemma header_parts:
  assumes "a mod 8 = (4::nat)"
  obtains A x where "a = A * 4096 + x" "x < 4096" "4 \<le> x" "x \<le> 4092"
proof -
  obtain A x where a: "a = A * 4096 + x" "x < 4096" by (rule block_parts)
  then show ?thesis using aligned_offset [of x] assms mod_8_block [of A x] that by simp
qed

text \<open>Addresses as a block and an offset.\<close>

lemma parts_boundary:
  assumes "x < 4096"
  shows "to_boundary (A * 4096 + x) = (if x = 4 then A * 4096 else if x = 4092 then (A + 1) * 4096 else A * 4096 + x)"
  using assms by (simp add: to_boundary_def gc_consts)

lemma parts_round:
  assumes "x < 4096"
  shows "ROUNDDOWNBLOCKSIZE (A * 4096 + x) = A * 4096" "0 < x \<Longrightarrow> ROUNDUPBLOCKSIZE (A * 4096 + x) = (A + 1) * 4096"
proof -
  have "(A * 4096 + x + 4096 - 1) div 4096 = A + 1" if "0 < x"
  proof -
    have "A * 4096 + x + 4096 - 1 = (A + 1) * 4096 + (x - 1)" using that by simp
    then show ?thesis using assms by (metis block_parts_simps(1) less_imp_diff_less)
  qed
  then show "0 < x \<Longrightarrow> ROUNDUPBLOCKSIZE (A * 4096 + x) = (A + 1) * 4096" by (simp add: ROUNDUPBLOCKSIZE_def gc_consts)
qed (use assms in \<open>simp_all add: ROUNDDOWNBLOCKSIZE_def gc_consts\<close>)

lemma rounddown_block: "ROUNDDOWNBLOCKSIZE (A * 4096) = A * 4096"
  by (simp add: ROUNDDOWNBLOCKSIZE_def gc_consts)

lemma bind_Inr: "bind_result r Inr = r"
  by (cases r) simp_all

lemmas parts = parts_boundary parts_round rounddown_block bind_Inr

lemma parts_gap:
  assumes "x < 4096"
  shows "block_base (A * 4096 + x) = A * 4096" "at_first (A * 4096 + x) \<longleftrightarrow> x = 4"
    "slack_start (A * 4096 + x) = (if x = 4 then A * 4096 else (A + 1) * 4096)"
    "first_part (A * 4096 + x) = (if x = 4 then [] else span (A * 4096 + x) (A * 4096 + 4092))"
  using assms by (simp_all add: block_base_def at_first_def slack_start_def first_part_def gc_consts)

definition fresh :: "(nat \<times> nat) list \<Rightarrow> (nat \<times> nat) list \<Rightarrow> nat \<Rightarrow> bool" where
  "fresh cs bs g \<longleftrightarrow> (\<forall>x\<in>keys cs. x mod 8 = 4 \<and> x < g) \<and> (\<forall>x\<in>keys bs. x mod 8 = 0 \<and> x < (if at_first g then block_base g else g))"

lemma freshD: "fresh cs bs g \<Longrightarrow> g \<le> a \<Longrightarrow> a \<notin> keys cs" "fresh cs bs g \<Longrightarrow> a mod 8 = 0 \<Longrightarrow> a \<notin> keys cs" "fresh cs bs g \<Longrightarrow> a mod 8 = 4 \<Longrightarrow> a \<notin> keys bs"
  by (fastforce simp: fresh_def)+

lemma fresh_block: "fresh cs bs g \<Longrightarrow> slack_start g \<le> a \<Longrightarrow> a \<notin> keys bs"
proof -
  assume f: "fresh cs bs g" and a: "slack_start g \<le> a"
  have "g \<le> g div 4096 * 4096 + 4096" using div_mult_mod_eq [of g 4096] mod_less_divisor [of 4096 g] by linarith
  then have "(if at_first g then block_base g else g) \<le> slack_start g" by (simp add: slack_start_def block_base_def gc_consts)
  then have "(if at_first g then block_base g else g) \<le> a" using a by (rule order_trans)
  then show ?thesis using f unfolding fresh_def by (meson leD)
qed

lemma first_part_keys: "x \<in> keys (first_part g) \<Longrightarrow> x = g" "x \<in> keys (first_part g) \<Longrightarrow> \<not> at_first g \<and> g < block_base g + 4092"
  by (auto simp: first_part_def span_keys gc_consts split: if_splits)

lemma fresh_append: "fresh (cs @ cs') (bs @ bs') g \<longleftrightarrow> fresh cs bs g \<and> fresh cs' bs' g"
  by (auto simp: fresh_def)

lemma mod8_block [simp]: "(A::nat) * 4096 mod 8 = 0" "((A::nat) * 4096 + 4) mod 8 = 4"
  using mod_8_block [of A 0] mod_8_block [of A 4] by simp_all

lemma insert_freemem_same_block:
  assumes "x < y" "4 \<le> x" "y < 4092"
  shows "insert_freemem (A * 4096 + x) (A * 4096 + y) s = insert_freechunk (A * 4096 + x) (y - x) s"
  using assms by (cases "x = 4") (simp_all add: insert_freemem_def parts Let_def gc_consts)

lemma insert_freemem_blocks:
  assumes "A < B" "4 \<le> x" "x \<le> 4092" "4 \<le> y" "y < 4092"
  shows "insert_freemem (A * 4096 + x) (B * 4096 + y) s =
    bind_result (if x \<noteq> 4 \<and> A * 4096 + x < A * 4096 + 4092 then insert_freechunk (A * 4096 + x) (A * 4096 + 4092 - (A * 4096 + x)) s else Inr s) (\<lambda>s.
      let s = (if slack_start (A * 4096 + x) < B * 4096 then add_free_block (slack_start (A * 4096 + x)) (B * 4096 - slack_start (A * 4096 + x)) s else s)
      in if B * 4096 + 4 < B * 4096 + y then insert_freechunk (B * 4096 + 4) (B * 4096 + y - (B * 4096 + 4)) s else Inr s)"
proof -
  consider (first) "x = 4" | (last) "x = 4092" | (mid) "x \<noteq> 4" "x < 4092" using assms(3) by linarith
  then show ?thesis
  proof cases
    case first
    then show ?thesis using assms by (simp add: insert_freemem_def parts parts_gap Let_def gc_consts)
  next
    case last
    then show ?thesis using assms by (cases "Suc A = B") (auto simp: insert_freemem_def parts parts_gap Let_def gc_consts)
  next
    case mid
    then show ?thesis using assms by (cases "Suc A = B") (auto simp: insert_freemem_def parts parts_gap Let_def gc_consts)
  qed
qed

lemma insert_freemem_end:
  assumes "A < B" "4 \<le> x" "x < 4092 \<or> Suc A < B"
  assumes "x \<le> 4092" 
  shows "insert_freemem (A * 4096 + x) (B * 4096 - 4) s =
    bind_result (if x \<noteq> 4 \<and> A * 4096 + x < A * 4096 + 4092 then insert_freechunk (A * 4096 + x) (A * 4096 + 4092 - (A * 4096 + x)) s else Inr s) (\<lambda>s.
      Inr (if slack_start (A * 4096 + x) < B * 4096 then add_free_block (slack_start (A * 4096 + x)) (B * 4096 - slack_start (A * 4096 + x)) s else s))"
proof -
  obtain C where B: "B = Suc C" using assms(1) by (cases B) auto
  have e: "B * 4096 - 4 = C * 4096 + 4092" using B by simp
  have tb: "to_boundary (B * 4096 - 4) = B * 4096" unfolding e using B by (simp add: parts_boundary)
  consider (first) "x = 4" | (last) "x = 4092" | (mid) "x \<noteq> 4" "x < 4092" using assms(4) by linarith
  then show ?thesis
  proof cases
    case first
    then show ?thesis using assms by (simp add: insert_freemem_def tb parts parts_gap Let_def gc_consts)
  next
    case last
    then show ?thesis using assms by (simp add: insert_freemem_def tb parts parts_gap Let_def gc_consts)
  next
    case mid
    then show ?thesis using assms by (simp add: insert_freemem_def tb parts parts_gap Let_def gc_consts)
  qed
qed

lemma first_part_rel:
  assumes r: "sw_rel m hs cs bs k s" and f: "fresh cs bs g" and g: "g = A * 4096 + x" "x < 4096" "4 \<le> x"
  shows "\<exists>s'. (if x \<noteq> 4 \<and> g < A * 4096 + 4092 then insert_freechunk g (A * 4096 + 4092 - g) s else Inr s) = Inr s' \<and> sw_rel m hs (cs @ first_part g) bs k s'"
proof (cases "x = 4")
  case True
  then show ?thesis using r g by (simp add: parts_gap)
next
  case False
  have "A * 4096 + 4092 - g < GC_BLOCKSIZE" using g by (simp add: gc_consts)
  from insert_span_rel [OF r freshD(1) [OF f order_refl] this] show ?thesis using False g by (simp add: parts_gap)
qed

lemma insert_freemem_rel:
  assumes r: "sw_rel m hs cs bs k s" and f: "fresh cs bs g" and al: "g mod 8 = 4" "h mod 8 = 4" and lt: "g < h" and nl: "h mod 4096 \<noteq> 4092"
  shows "\<exists>s'. insert_freemem g h s = Inr s' \<and> sw_rel m hs (cs @ gap_chunks g h) (bs @ gap_blocks g h) k s'"
proof -
  obtain A x where g: "g = A * 4096 + x" "x < 4096" "4 \<le> x" "x \<le> 4092" by (rule header_parts [OF al(1)])
  obtain B y where h: "h = B * 4096 + y" "y < 4096" "4 \<le> y" "y \<le> 4092" by (rule header_parts [OF al(2)])
  have y: "y < 4092" using h nl by (metis block_parts_simps(2) le_neq_implies_less)
  have "A \<le> B" using lt g h by (metis block_parts_simps(1) div_le_mono less_imp_le)
  show ?thesis
  proof (cases "A = B")
    case True
    then have xy: "x < y" using lt g h by simp
    have gc: "gap_chunks g h = span g h" "gap_blocks g h = []"
      using True g h by (auto simp: gap_chunks_def gap_blocks_def parts_gap span_def gc_consts)
    have hg: "h - g = y - x" using True g h by simp
    have "insert_freemem g h s = insert_freechunk g (h - g) s" unfolding hg unfolding g h True using insert_freemem_same_block [OF xy g(3) y, of B s] .
    moreover have "h - g < GC_BLOCKSIZE" using hg h by (simp add: gc_consts)
    ultimately show ?thesis using insert_span_rel [OF r freshD(1) [OF f order_refl], of h] lt gc by simp
  next
    case False
    then have AB: "A < B" using \<open>A \<le> B\<close> by simp
    have ss: "slack_start g \<le> block_base h" using AB g h by (auto simp: parts_gap)
    let ?a = "slack_start g"
    obtain s1 where s1: "(if x \<noteq> 4 \<and> g < A * 4096 + 4092 then insert_freechunk g (A * 4096 + 4092 - g) s else Inr s) = Inr s1" "sw_rel m hs (cs @ first_part g) bs k s1"
      using first_part_rel [OF r f g(1,2,3)] by blast
    have am: "?a mod 8 = 0" using g mod_8_block [of "Suc A" 0] by (simp add: parts_gap)
    then have na: "?a \<notin> keys (cs @ first_part g)" using freshD(2) [OF f] first_part_keys(1) [of ?a g] al(1) by auto
    let ?s2 = "if ?a < B * 4096 then add_free_block ?a (B * 4096 - ?a) s1 else s1"
    have s2: "sw_rel m hs (cs @ first_part g) (bs @ span ?a (B * 4096)) k ?s2"
      by (rule add_span_rel [OF s1(2) na fresh_block [OF f order_refl]])
    have "g < B * 4096 + 4" using AB g lt by simp
    then have nb: "B * 4096 + 4 \<notin> keys (cs @ first_part g)" using freshD(1) [OF f, of "B * 4096 + 4"] first_part_keys(1) [of "B * 4096 + 4" g] by auto
    have "h - (B * 4096 + 4) < GC_BLOCKSIZE" using h by (simp add: gc_consts)
    from insert_span_rel [OF s2 nb this]
    obtain s3 where s3: "(if B * 4096 + 4 < h then insert_freechunk (B * 4096 + 4) (h - (B * 4096 + 4)) ?s2 else Inr ?s2) = Inr s3"
      "sw_rel m hs ((cs @ first_part g) @ span (B * 4096 + 4) h) (bs @ span ?a (B * 4096)) k s3" by blast
    have gp: "gap_chunks g h = first_part g @ span (B * 4096 + 4) h" "gap_blocks g h = span ?a (B * 4096)"
      using ss h by (simp_all add: gap_chunks_def gap_blocks_def parts_gap gc_consts)
    have "insert_freemem g h s = Inr s3"
      using insert_freemem_blocks [OF AB g(3,4) h(3) y, of s, folded g(1) h(1)] s1(1) s3(1) by (simp add: Let_def)
    then show ?thesis using s3(2) gp by simp
  qed
qed

lemma insert_freemem_end_rel:
  assumes r: "sw_rel m hs cs bs k s" and f: "fresh cs bs g" and al: "g mod 8 = 4" and lt: "g < e - 4" and e: "e mod 4096 = 0"
  shows "\<exists>s'. insert_freemem g (e - 4) s = Inr s' \<and> sw_rel m hs (cs @ first_part g) (bs @ span (slack_start g) e) k s'"
proof -
  obtain A x where g: "g = A * 4096 + x" "x < 4096" "4 \<le> x" "x \<le> 4092" by (rule header_parts [OF al])
  obtain B where B: "e = B * 4096" using e by (metis div_mult_mod_eq add_0_right)
  have AB: "A < B" using lt g B by (cases "A < B") auto
  have xx: "x < 4092 \<or> Suc A < B" using lt g B AB by (cases "B = Suc A") auto
  let ?a = "slack_start g"
  obtain s1 where s1: "(if x \<noteq> 4 \<and> g < A * 4096 + 4092 then insert_freechunk g (A * 4096 + 4092 - g) s else Inr s) = Inr s1" "sw_rel m hs (cs @ first_part g) bs k s1"
    using first_part_rel [OF r f g(1,2,3)] by blast
  have "?a mod 8 = 0" using g mod_8_block [of "Suc A" 0] by (simp add: parts_gap)
  then have na: "?a \<notin> keys (cs @ first_part g)" using freshD(2) [OF f] first_part_keys(1) [of ?a g] al by auto
  have "sw_rel m hs (cs @ first_part g) (bs @ span ?a e) k (if ?a < e then add_free_block ?a (e - ?a) s1 else s1)"
    by (rule add_span_rel [OF s1(2) na fresh_block [OF f order_refl]])
  then show ?thesis using insert_freemem_end [OF AB g(3) xx g(4), of s, folded g(1) B] s1(1) by simp
qed

text \<open>Freshness moves on with the sweep.\<close>

lemma gap_fresh:
  assumes f: "fresh cs bs g" and al: "g mod 8 = 4" "h mod 8 = 4" and le: "g \<le> h" and q: "h < q" "\<not> at_first q"
  shows "fresh (cs @ gap_chunks g h) (bs @ gap_blocks g h) q"
proof -
  obtain A x where g: "g = A * 4096 + x" "x < 4096" "4 \<le> x" "x \<le> 4092" by (rule header_parts [OF al(1)])
  obtain B y where h: "h = B * 4096 + y" "y < 4096" "4 \<le> y" "y \<le> 4092" by (rule header_parts [OF al(2)])
  have AB: "A \<le> B" using le g h by (metis block_parts_simps(1) div_le_mono)
  have "(if at_first g then block_base g else g) \<le> h" using le g by (auto simp: parts_gap)
  then have "fresh cs bs q" using f q le unfolding fresh_def by (auto intro: less_trans order.strict_trans2)
  moreover have "fresh (gap_chunks g h) (gap_blocks g h) q" unfolding fresh_def
  proof (intro conjI ballI)
    fix a assume a: "a \<in> keys (gap_chunks g h)"
    then have "a = g \<or> a = B * 4096 + 4 \<and> a < h" unfolding gap_chunks_def using first_part_keys(1) [of a g] h by (auto simp: span_keys gc_consts parts_gap split: if_splits)
    then show "a mod 8 = 4" "a < q" using al q le by auto
  next
    fix a assume "a \<in> keys (gap_blocks g h)"
    then have "a = slack_start g" "a < block_base h" unfolding gap_blocks_def by (auto simp: span_keys split: if_splits)
    then show "a mod 8 = 0" "a < (if at_first q then block_base q else q)" using q g h mod_8_block [of "Suc A" 0] by (auto simp: parts_gap)
  qed
  ultimately show ?thesis by (simp add: fresh_append)
qed

lemma end_fresh:
  assumes f: "fresh cs bs g" and al: "g mod 8 = 4" and lt: "g < e" and e: "e mod 4096 = 0" and q: "e \<le> block_base q" "at_first q"
  shows "fresh (cs @ first_part g) (bs @ span (slack_start g) e) q"
proof -
  obtain A x where g: "g = A * 4096 + x" "x < 4096" "4 \<le> x" "x \<le> 4092" by (rule header_parts [OF al])
  have qe: "e < q" using q div_mult_mod_eq [of q 4096] by (simp add: at_first_def block_base_def gc_consts)
  have "(if at_first g then block_base g else g) \<le> e" using lt g by (auto simp: parts_gap)
  then have "fresh cs bs q" using f q qe lt unfolding fresh_def by (auto intro: less_trans order.strict_trans2)
  moreover have "fresh (first_part g) (span (slack_start g) e) q" unfolding fresh_def
  proof (intro conjI ballI)
    fix a assume "a \<in> keys (first_part g)"
    then show "a mod 8 = 4" "a < q" using first_part_keys(1) [of a g] al qe lt by auto
  next
    fix a assume "a \<in> keys (span (slack_start g) e)"
    then have "a = slack_start g" "a < e" by (simp_all add: span_keys)
    then show "a mod 8 = 0" "a < (if at_first q then block_base q else q)" using q g mod_8_block [of "Suc A" 0] by (auto simp: parts_gap)
  qed
  ultimately show ?thesis by (simp add: fresh_append)
qed

section \<open>The free memory of a region\<close>

text \<open>
  \<open>g\<close> is where the memory before the next live object begins: the first header of the region, or the end of the last live object; the other
  arguments are the headers of the live objects from there on, and the end of the region.
\<close>

fun free_chunks :: "memory \<Rightarrow> nat \<Rightarrow> nat list \<Rightarrow> (nat \<times> nat) list" where
  "free_chunks m g [] = first_part g"
| "free_chunks m g (h # L) = gap_chunks g h @ free_chunks m (h + size_word (m h)) L"

fun free_blocks :: "memory \<Rightarrow> nat \<Rightarrow> nat list \<Rightarrow> nat \<Rightarrow> (nat \<times> nat) list" where
  "free_blocks m g [] e = span (slack_start g) e"
| "free_blocks m g (h # L) e = gap_blocks g h @ free_blocks m (h + size_word (m h)) L e"

definition in_block :: "memory \<Rightarrow> nat \<Rightarrow> bool" where
  "in_block m h \<longleftrightarrow> h mod 8 = 4 \<and> 0 < size_word (m h) \<and> h mod GC_BLOCKSIZE + size_word (m h) \<le> GC_BLOCKSIZE - GC_HEAD"

fun live_ok :: "memory \<Rightarrow> nat \<Rightarrow> nat list \<Rightarrow> nat \<Rightarrow> bool" where
  "live_ok m g [] e \<longleftrightarrow> g < e"
| "live_ok m g (h # L) e \<longleftrightarrow> g \<le> h \<and> h + GC_HEAD < e \<and> in_block m h \<and> live_ok m (h + size_word (m h)) L e"

definition live_size :: "memory \<Rightarrow> nat list \<Rightarrow> nat" where
  "live_size m L = sum_list (map (\<lambda>h. size_word (m h)) L)"

lemma live_size_simps [simp]: "live_size m [] = 0" "live_size m (h # L) = size_word (m h) + live_size m L" "live_size m (L @ L') = live_size m L + live_size m L'"
  by (simp_all add: live_size_def)

lemma in_blockD:
  assumes "in_block m h"
  shows "h mod 8 = 4" "(h + size_word (m h)) mod 8 = 4" "\<not> at_first (h + size_word (m h))" "h < h + size_word (m h)" "h mod 4096 \<noteq> 4092"
    "block_base (h + size_word (m h)) = block_base h" "h + size_word (m h) \<le> block_base h + 4092"
proof -
  obtain A x where h: "h = A * 4096 + x" "x < 4096" "4 \<le> x" "x \<le> 4092" using assms by (auto simp: in_block_def intro: header_parts)
  let ?n = "size_word (m h)"
  have i: "h mod 8 = 4" "0 < ?n" "x + ?n \<le> 4092" using assms h by (simp_all add: in_block_def gc_consts)
  have e: "h + ?n = A * 4096 + (x + ?n)" "x + ?n < 4096" using i h by simp_all
  show "h mod 8 = 4" "h < h + ?n" using i by simp_all
  show "(h + ?n) mod 8 = 4" using i(1) by (simp add: mod_add_eq [symmetric, of h])
  show "h mod 4096 \<noteq> 4092" using i h by simp
  show "\<not> at_first (h + ?n)" unfolding e(1) parts_gap(2) [OF e(2)] using h(3) i(2) by simp
  show "block_base (h + ?n) = block_base h" unfolding e(1) unfolding parts_gap(1) [OF e(2)] using h by (simp add: parts_gap)
  then show "h + ?n \<le> block_base h + 4092" using i h by (simp add: parts_gap)
qed

lemma gap_chunks_less:
  assumes "g mod 8 = 4" "h mod 8 = 4" "g \<le> h" "a \<in> keys (gap_chunks g h)"
  shows "a < h"
proof -
  obtain A x where g: "g = A * 4096 + x" "x < 4096" "4 \<le> x" "x \<le> 4092" by (rule header_parts [OF assms(1)])
  obtain B y where h: "h = B * 4096 + y" "y < 4096" "4 \<le> y" "y \<le> 4092" by (rule header_parts [OF assms(2)])
  show ?thesis
  proof (cases "slack_start g \<le> block_base h")
    case True
    then consider "a \<in> keys (first_part g)" | "a < h" using assms(4) by (auto simp: gap_chunks_def span_keys)
    then show ?thesis
    proof cases
      case 1
      then have "a = g" "x \<noteq> 4" using first_part_keys [of a g] g by (auto simp: parts_gap)
      then show ?thesis using True g h by (simp add: parts_gap)
    qed
  next
    case False
    then show ?thesis using assms(4) by (simp add: gap_chunks_def span_keys)
  qed
qed

lemma gap_self:
  assumes "h mod 8 = 4"
  shows "gap_chunks h h = []" "gap_blocks h h = []"
proof -
  obtain B y where h: "h = B * 4096 + y" "y < 4096" "4 \<le> y" "y \<le> 4092" by (rule header_parts [OF assms])
  show "gap_chunks h h = []" "gap_blocks h h = []" unfolding h(1) gap_chunks_def gap_blocks_def parts_gap(1) [OF h(2)] unfolding parts_gap(3,4) [OF h(2)]
    by (simp_all add: span_def gc_consts)
qed

lemma free_between_rel:
  assumes r: "sw_rel m hs cs bs k s" and f: "fresh cs bs g" and al: "g mod 8 = 4" "h mod 8 = 4" and le: "g \<le> h" and nl: "h mod 4096 \<noteq> 4092"
  shows "\<exists>s'. free_between g h s = Inr s' \<and> sw_rel m hs (cs @ gap_chunks g h) (bs @ gap_blocks g h) k s'"
proof (cases "g < h")
  case True
  from insert_freemem_rel [OF r f al True nl] show ?thesis using True by (auto simp: free_between_def)
next
  case False
  then have "gap_chunks g h = []" "gap_blocks g h = []" using le gap_self [OF al(2)] by auto
  then show ?thesis using r False by (simp add: free_between_def)
qed

lemma free_last_rel:
  assumes r: "sw_rel m hs cs bs k s" and f: "fresh cs bs g" and al: "g mod 8 = 4" and lt: "g < e" and e: "e mod 4096 = 0"
  shows "\<exists>s'. free_between g (e - GC_HEAD) s = Inr s' \<and> sw_rel m hs (cs @ first_part g) (bs @ span (slack_start g) e) k s'"
proof (cases "g < e - 4")
  case True
  from insert_freemem_end_rel [OF r f al True e] show ?thesis using True by (auto simp: free_between_def gc_consts)
next
  case False
  obtain A x where g: "g = A * 4096 + x" "x < 4096" "4 \<le> x" "x \<le> 4092" by (rule header_parts [OF al])
  obtain B where B: "e = B * 4096" using e by (metis div_mult_mod_eq add_0_right)
  have AB: "A < B" using lt g B by (cases "A < B") auto
  then have "e = (A + 1) * 4096 \<and> x = 4092" using False g B by (cases "B = Suc A") auto
  then have "first_part g = []" "span (slack_start g) e = []" using g by (simp_all add: parts_gap span_def)
  then show ?thesis using r False by (simp add: free_between_def gc_consts)
qed

lemma header_of [simp]: "HEADER (h + GC_HEAD) = h"
  by (simp add: HEADER_def)

lemma free_fresh:
  "fresh cs bs g \<Longrightarrow> g mod 8 = 4 \<Longrightarrow> live_ok m g L e \<Longrightarrow> e mod 4096 = 0 \<Longrightarrow> e \<le> block_base q \<Longrightarrow> at_first q \<Longrightarrow>
   fresh (cs @ free_chunks m g L) (bs @ free_blocks m g L e) q"
proof (induction L arbitrary: g cs bs)
  case Nil
  then show ?case by (simp add: end_fresh)
next
  case (Cons h L)
  then have i: "in_block m h" "g \<le> h" by simp_all
  note d = in_blockD [OF i(1)]
  have "fresh (cs @ gap_chunks g h) (bs @ gap_blocks g h) (h + size_word (m h))" by (rule gap_fresh [OF Cons.prems(1,2) d(1) i(2) d(4,3)])
  from Cons.IH [OF this d(2)] show ?case using Cons.prems by simp
qed

section \<open>The selective sweep\<close>

text \<open>From a live object at index \<open>i\<close>: the loop over the following objects of the region, and the memory after the last one.\<close>

definition sweep_last :: "nat list \<Rightarrow> nat \<Rightarrow> nat \<times> sweeping \<Rightarrow> (nat \<times> sweeping) result" where
  "sweep_last objects e is = (case is of (i, s) \<Rightarrow>
     let sz = SIZE (sw_mem s) (objects ! i)
     in bind_result (free_between (HEADER (objects ! i) + sz) (e - GC_HEAD) s) (\<lambda>s. Inr (i, s\<lparr>small_marked := small_marked s + sz\<rparr>)))"

lemma drop_nth:
  assumes "drop i xs = y # ys"
  shows "i < length xs" "xs ! i = y" "drop (Suc i) xs = ys"
proof -
  show i: "i < length xs" using assms by (metis drop_eq_Nil linorder_not_le list.distinct(1))
  then show "xs ! i = y" "drop (Suc i) xs = ys" using assms Cons_nth_drop_Suc [OF i] by simp_all
qed

lemma SIZE_rel: "sw_rel m hs cs bs k s \<Longrightarrow> fresh cs bs g \<Longrightarrow> h mod 8 = 4 \<Longrightarrow> h \<notin> keys cs \<Longrightarrow> SIZE (sw_mem s) (h + GC_HEAD) = size_word (m h)"
  using swept_size [of m hs cs bs k s h] freshD(3) [of cs bs g h] by (simp add: SIZE_def)

lemma sweep_between_rel:
  "drop i objects = (h + GC_HEAD) # map (\<lambda>h. h + GC_HEAD) L @ y # ys \<Longrightarrow> e \<le> y \<Longrightarrow> in_block m h \<Longrightarrow> live_ok m (h + size_word (m h)) L e \<Longrightarrow> e mod 4096 = 0 \<Longrightarrow>
   sw_rel m hs cs bs k s \<Longrightarrow> fresh cs bs (h + size_word (m h)) \<Longrightarrow> h \<notin> keys cs \<Longrightarrow> \<forall>x\<in>hs. x < h + size_word (m h) \<Longrightarrow>
   \<exists>i' s'. bind_result (sweep_between objects e i s) (sweep_last objects e) = Inr (i', s') \<and> drop i' objects = (last (h # L) + GC_HEAD) # y # ys \<and>
     sw_rel m (hs \<union> set L) (cs @ free_chunks m (h + size_word (m h)) L) (bs @ free_blocks m (h + size_word (m h)) L e) (k + live_size m (h # L)) s'"
proof (induction L arbitrary: h i hs cs bs k s)
  case Nil
  note d = in_blockD [OF Nil.prems(3)]
  have y: "i < length objects" "objects ! i = h + GC_HEAD" "Suc i < length objects" "objects ! Suc i = y"
    using drop_nth [of i objects "h + GC_HEAD" "y # ys"] drop_nth [of "Suc i" objects y ys] Nil.prems(1) by simp_all
  have "sweep_between objects e i s = Inr (i, s)" using y Nil.prems(2) by (subst sweep_between.simps) simp
  moreover have sz: "SIZE (sw_mem s) (h + GC_HEAD) = size_word (m h)" by (rule SIZE_rel [OF Nil.prems(6,7) d(1) Nil.prems(8)])
  moreover obtain s' where s': "free_between (h + size_word (m h)) (e - GC_HEAD) s = Inr s'"
    "sw_rel m hs (cs @ first_part (h + size_word (m h))) (bs @ span (slack_start (h + size_word (m h))) e) k s'"
    using free_last_rel [OF Nil.prems(6,7) d(2) _ Nil.prems(5)] Nil.prems(4) by auto
  moreover have "small_marked s' = k" using s'(2) by (simp add: sw_rel_def)
  ultimately show ?case using y(2) Nil.prems(1) by (simp add: sweep_last_def Let_def)
next
  case (Cons h' L)
  note d = in_blockD [OF Cons.prems(3)]
  let ?g = "h + size_word (m h)" and ?g' = "h' + size_word (m h')"
  have l: "?g \<le> h'" "h' + GC_HEAD < e" "in_block m h'" "live_ok m ?g' L e" using Cons.prems(4) by simp_all
  note d' = in_blockD [OF l(3)]
  have y: "i < length objects" "objects ! i = h + GC_HEAD" "Suc i < length objects" "objects ! Suc i = h' + GC_HEAD"
    "drop (Suc i) objects = (h' + GC_HEAD) # map (\<lambda>h. h + GC_HEAD) L @ y # ys"
    using drop_nth [of i objects "h + GC_HEAD"] drop_nth [of "Suc i" objects "h' + GC_HEAD"] Cons.prems(1) by simp_all
  let ?s = "unmark (h' + GC_HEAD) s"
  have nk: "h' \<notin> keys cs" "h' \<notin> keys bs" "h' \<notin> hs" using freshD(1,3) [OF Cons.prems(7)] l(1) d'(1) Cons.prems(9) by auto
  have u: "sw_rel m (insert h' hs) cs bs k ?s" using unmark_rel(2) [OF Cons.prems(6) nk] by (simp add: unmark_def clear_mark_def)
  have sz: "SIZE (sw_mem ?s) (h + GC_HEAD) = size_word (m h)" by (rule SIZE_rel [OF u Cons.prems(7) d(1) Cons.prems(8)])
  obtain s' where s': "free_between ?g h' ?s = Inr s'" "sw_rel m (insert h' hs) (cs @ gap_chunks ?g h') (bs @ gap_blocks ?g h') k s'"
    using free_between_rel [OF u Cons.prems(7) d(2) d'(1) l(1) d'(5)] by blast
  let ?s' = "s'\<lparr>small_marked := small_marked s' + size_word (m h)\<rparr>"
  have r': "sw_rel m (insert h' hs) (cs @ gap_chunks ?g h') (bs @ gap_blocks ?g h') (k + size_word (m h)) ?s'" using s'(2) by (auto simp: sw_rel_def)
  have f': "fresh (cs @ gap_chunks ?g h') (bs @ gap_blocks ?g h') ?g'" by (rule gap_fresh [OF Cons.prems(7) d(2) d'(1) l(1) d'(4,3)])
  have nk': "h' \<notin> keys (cs @ gap_chunks ?g h')" using nk(1) gap_chunks_less [OF d(2) d'(1) l(1)] by auto
  have hs': "\<forall>x\<in>insert h' hs. x < ?g'" using Cons.prems(9) l(1) d'(4) by auto
  have "sweep_between objects e i s = sweep_between objects e (Suc i) ?s'"
    using y l(2) sz s'(1) by (subst sweep_between.simps) (simp add: Let_def)
  then show ?case using Cons.IH [OF y(5) Cons.prems(2) l(3,4) Cons.prems(5) r' f' nk' hs'] by (simp add: ac_simps)
qed

lemma skip_objects_rel:
  "drop i objects = us @ y # ys \<Longrightarrow> \<forall>u\<in>set us. u < a \<Longrightarrow> a \<le> y \<Longrightarrow> \<exists>i'. skip_objects objects a i = Inr i' \<and> drop i' objects = y # ys"
proof (induction us arbitrary: i)
  case Nil
  then show ?case using drop_nth [of i objects y ys] by (subst skip_objects.simps) simp
next
  case (Cons u us)
  then show ?case using drop_nth [of i objects u "us @ y # ys"] by (subst skip_objects.simps) simp
qed

definition region_first :: "region \<Rightarrow> nat" where
  "region_first r = rstart r + (MEMALIGN - GC_HEAD)"

definition region_aligned :: "region \<Rightarrow> bool" where
  "region_aligned r \<longleftrightarrow> rstart r mod 4096 = 0 \<and> rend r mod 4096 = 0 \<and> rstart r < rend r"

lemma region_first:
  assumes "region_aligned r"
  shows "at_first (region_first r)" "block_base (region_first r) = rstart r" "region_first r mod 8 = 4" "region_first r < rend r" "slack_start (region_first r) = rstart r" "first_part (region_first r) = []"
proof -
  obtain A where A: "rstart r = A * 4096" using assms unfolding region_aligned_def by (metis div_mult_mod_eq add_0_right)
  obtain B where B: "rend r = B * 4096" using assms unfolding region_aligned_def by (metis div_mult_mod_eq add_0_right)
  have f: "region_first r = A * 4096 + 4" using A by (simp add: region_first_def gc_consts)
  show "at_first (region_first r)" "block_base (region_first r) = rstart r" "region_first r mod 8 = 4" "slack_start (region_first r) = rstart r" "first_part (region_first r) = []"
    unfolding f A by (simp_all add: parts_gap)
  show "region_first r < rend r" unfolding f B using assms A B by (simp add: region_aligned_def)
qed

lemma sweep_region_selective_rel:
  assumes o: "drop i objects = us @ map (\<lambda>h. h + GC_HEAD) L @ y # ys" "\<forall>u\<in>set us. u < rstart r" "rend r < y" and ra: "region_aligned r"
    and l: "live_ok m (region_first r) L (rend r)" and s: "sw_rel m hs cs bs k s" and f: "fresh cs bs (region_first r)" and hs: "\<forall>x\<in>hs. x < rstart r"
  shows "\<exists>i' s'. sweep_region_selective objects r (i, s) = Inr (i', s') \<and> drop i' objects = (if L = [] then [] else [last L + GC_HEAD]) @ y # ys \<and>
    sw_rel m (hs \<union> set L) (cs @ free_chunks m (region_first r) L) (bs @ free_blocks m (region_first r) L (rend r)) (k + live_size m L) s'"
proof (cases L)
  case Nil
  then obtain i' where i': "skip_objects objects (rstart r) i = Inr i'" "drop i' objects = y # ys"
    using skip_objects_rel [of i objects us y ys "rstart r"] o ra by (auto simp: region_aligned_def)
  note rf = region_first [OF ra]
  let ?s = "add_free_block (rstart r) (rend r - rstart r) s"
  have "sw_rel m hs cs (bs @ span (rstart r) (rend r)) k ?s"
    using add_span_rel [OF s freshD(2) [OF f] fresh_block [OF f], of "rstart r" "rend r"] ra rf(5) mod8_block(1) [of "rstart r div 4096"]
    by (auto simp: region_aligned_def)
  moreover have "sweep_region_selective objects r (i, s) = Inr (i', ?s\<lparr>small_freed := small_freed ?s + (rend r - rstart r)\<rparr>)"
    using i' drop_nth(2) [OF i'(2)] o(3) by (simp add: sweep_region_selective_def Let_def)
  ultimately show ?thesis using Nil i'(2) rf by simp
next
  case (Cons h L')
  have i: "region_first r \<le> h" "h + GC_HEAD < rend r" "in_block m h" "live_ok m (h + size_word (m h)) L' (rend r)" using l Cons by simp_all
  have rs: "rstart r \<le> h" using i(1) by (simp add: region_first_def)
  obtain i' where i': "skip_objects objects (rstart r) i = Inr i'" "drop i' objects = (h + GC_HEAD) # map (\<lambda>h. h + GC_HEAD) L' @ y # ys"
    using skip_objects_rel [of i objects us "h + GC_HEAD" "map (\<lambda>h. h + GC_HEAD) L' @ y # ys" "rstart r"] o(1,2) rs Cons by auto
  have oi: "objects ! i' = h + GC_HEAD" using drop_nth(2) [OF i'(2)] .
  note rf = region_first [OF ra] and d = in_blockD [OF i(3)]
  have nk: "h \<notin> keys cs" "h \<notin> keys bs" "h \<notin> hs" using freshD(1,3) [OF f] i(1) d(1) hs rs by auto
  have u: "sw_rel m (insert h hs) cs bs k (unmark (h + GC_HEAD) s)" using unmark_rel(2) [OF s nk] by (simp add: unmark_def clear_mark_def)
  obtain s1 where s1: "free_between (region_first r) h (unmark (h + GC_HEAD) s) = Inr s1"
    "sw_rel m (insert h hs) (cs @ gap_chunks (region_first r) h) (bs @ gap_blocks (region_first r) h) k s1"
    using free_between_rel [OF u f rf(3) d(1) i(1) d(5)] by blast
  have f1: "fresh (cs @ gap_chunks (region_first r) h) (bs @ gap_blocks (region_first r) h) (h + size_word (m h))" by (rule gap_fresh [OF f rf(3) d(1) i(1) d(4,3)])
  have nk1: "h \<notin> keys (cs @ gap_chunks (region_first r) h)" using nk(1) gap_chunks_less [OF rf(3) d(1) i(1)] by auto
  have hs1: "\<forall>x\<in>insert h hs. x < h + size_word (m h)" using hs rs d(4) by auto
  have em: "rend r mod 4096 = 0" using ra by (simp add: region_aligned_def)
  have ey: "rend r \<le> y" using o(3) by simp
  from sweep_between_rel [OF i'(2) ey i(3,4) em s1(2) f1 nk1 hs1]
  obtain j s' where j: "bind_result (sweep_between objects (rend r) i' s1) (sweep_last objects (rend r)) = Inr (j, s')" "drop j objects = (last (h # L') + GC_HEAD) # y # ys"
    "sw_rel m (insert h hs \<union> set L') ((cs @ gap_chunks (region_first r) h) @ free_chunks m (h + size_word (m h)) L') ((bs @ gap_blocks (region_first r) h) @ free_blocks m (h + size_word (m h)) L' (rend r)) (k + live_size m (h # L')) s'"
    by (elim exE conjE) (rule that)
  have "sweep_region_selective objects r (i, s) = bind_result (sweep_between objects (rend r) i' s1) (sweep_last objects (rend r))"
    using i'(1) oi i(2) s1(1) by (simp add: sweep_region_selective_def sweep_last_def [abs_def] Let_def region_first_def)
  then show ?thesis using j Cons by (simp add: insert_commute)
qed

lemma sorted_cut:
  assumes "sorted_wrt (<) zs" "\<exists>z\<in>set zs. b < z" "a \<le> (b::nat)"
  shows "\<exists>us y ys. zs = us @ filter (\<lambda>x. a \<le> x \<and> x \<le> b) zs @ y # ys \<and> (\<forall>u\<in>set us. u < a) \<and> b < y"
proof -
  let ?P = "\<lambda>x. a \<le> x \<and> x \<le> b"
  define us where "us = takeWhile (\<lambda>x. x < a) zs"
  define ws where "ws = dropWhile (\<lambda>x. x < a) zs"
  have z: "zs = us @ ws" by (simp add: us_def ws_def)
  have us: "\<forall>u\<in>set us. u < a" by (auto simp: us_def dest: set_takeWhileD)
  have s: "sorted_wrt (<) ws" using assms(1) z by (simp add: sorted_wrt_append)
  have "\<forall>w\<in>set ws. a \<le> w"
  proof (cases ws)
    case (Cons w ws')
    then have "\<not> w < a" unfolding ws_def by (metis dropWhile_eq_Cons_conv)
    then show ?thesis using s Cons by (auto intro: order_trans less_imp_le)
  qed simp
  moreover from s have "filter (\<lambda>x. x \<le> b) ws = takeWhile (\<lambda>x. x \<le> b) ws"
  proof (induction ws)
    case (Cons w ws)
    then show ?case by (cases ws) auto
  qed simp
  ultimately have f: "filter ?P zs = takeWhile (\<lambda>x. x \<le> b) ws" using us z by (auto simp: filter_empty_conv cong: filter_cong)
  have "dropWhile (\<lambda>x. x \<le> b) ws \<noteq> []" using assms(2,3) us z by (auto simp: dropWhile_eq_Nil_conv not_le)
  then obtain y ys where y: "dropWhile (\<lambda>x. x \<le> b) ws = y # ys" by (meson list.exhaust)
  then have "\<not> y \<le> b" by (metis dropWhile_eq_Cons_conv)
  moreover have "ws = filter ?P zs @ y # ys" unfolding f y [symmetric] by simp
  ultimately show ?thesis using z us by (intro exI [of _ us] exI [of _ y] exI [of _ ys]) simp
qed

definition in_region :: "region \<Rightarrow> nat \<Rightarrow> bool" where
  "in_region r x \<longleftrightarrow> rstart r \<le> x \<and> x \<le> rend r"

definition regions_sorted :: "region list \<Rightarrow> bool" where
  "regions_sorted rs \<longleftrightarrow> sorted_wrt (\<lambda>a b. rend a \<le> rstart b) rs \<and> (\<forall>r\<in>set rs. region_aligned r)"

definition all_chunks :: "memory \<Rightarrow> (region \<Rightarrow> nat list) \<Rightarrow> region list \<Rightarrow> (nat \<times> nat) list" where
  "all_chunks m L rs = concat (map (\<lambda>r. free_chunks m (region_first r) (L r)) rs)"

definition all_blocks :: "memory \<Rightarrow> (region \<Rightarrow> nat list) \<Rightarrow> region list \<Rightarrow> (nat \<times> nat) list" where
  "all_blocks m L rs = concat (map (\<lambda>r. free_blocks m (region_first r) (L r) (rend r)) rs)"

definition all_live :: "(region \<Rightarrow> nat list) \<Rightarrow> region list \<Rightarrow> nat list" where
  "all_live L rs = concat (map L rs)"

lemma all_simps [simp]:
  "all_chunks m L [] = []" "all_chunks m L (r # rs) = free_chunks m (region_first r) (L r) @ all_chunks m L rs"
  "all_blocks m L [] = []" "all_blocks m L (r # rs) = free_blocks m (region_first r) (L r) (rend r) @ all_blocks m L rs"
  "all_live L [] = []" "all_live L (r # rs) = L r @ all_live L rs"
  by (simp_all add: all_chunks_def all_blocks_def all_live_def)

lemma live_ok_bound: "live_ok m g L e \<Longrightarrow> h \<in> set L \<Longrightarrow> g \<le> h \<and> h + GC_HEAD < e \<and> in_block m h"
proof (induction L arbitrary: g)
  case (Cons x L)
  then show ?case using in_blockD(4) [of m x] by (cases "h = x") fastforce+
qed simp

text \<open>What both sweeps carry from region to region: everything found so far lies below the next one.\<close>

definition below :: "nat set \<Rightarrow> (nat \<times> nat) list \<Rightarrow> (nat \<times> nat) list \<Rightarrow> region list \<Rightarrow> bool" where
  "below hs cs bs rs \<longleftrightarrow> (\<forall>r\<in>set rs. fresh cs bs (region_first r) \<and> (\<forall>x\<in>hs. x < rstart r))"

lemma below_next:
  assumes "regions_sorted (r # rs)" "below hs cs bs (r # rs)" "live_ok m (region_first r) L (rend r)"
  shows "below (hs \<union> set L) (cs @ free_chunks m (region_first r) L) (bs @ free_blocks m (region_first r) L (rend r)) rs"
  unfolding below_def
proof (intro ballI conjI)
  fix r' assume r': "r' \<in> set rs"
  have ra: "region_aligned r" "region_aligned r'" and le: "rend r \<le> rstart r'" using assms(1) r' by (auto simp: regions_sorted_def)
  have f: "fresh cs bs (region_first r)" using assms(2) by (simp add: below_def)
  have em: "rend r mod 4096 = 0" using ra(1) by (simp add: region_aligned_def)
  show "fresh (cs @ free_chunks m (region_first r) L) (bs @ free_blocks m (region_first r) L (rend r)) (region_first r')"
    using free_fresh [OF f region_first(3) [OF ra(1)] assms(3) em _ region_first(1) [OF ra(2)]] region_first(2) [OF ra(2)] le by simp
  fix x assume "x \<in> hs \<union> set L"
  then show "x < rstart r'" using live_ok_bound [OF assms(3)] assms(2) le r' by (fastforce simp: below_def)
qed

lemma sweep_regions_selective_rel:
  assumes "regions_sorted rs" "drop i objects = zs @ junk" "sorted_wrt (<) zs" "\<exists>z\<in>set zs. \<forall>r\<in>set rs. rend r < z"
    "\<forall>r\<in>set rs. filter (in_region r) zs = map (\<lambda>h. h + GC_HEAD) (L r) \<and> live_ok m (region_first r) (L r) (rend r)"
    "sw_rel m hs cs bs k s" "below hs cs bs rs"
  shows "\<exists>i' s'. sweep_regions_selective objects rs (i, s) = Inr (i', s') \<and>
    sw_rel m (hs \<union> set (all_live L rs)) (cs @ all_chunks m L rs) (bs @ all_blocks m L rs) (k + live_size m (all_live L rs)) s'"
  using assms
proof (induction rs arbitrary: i zs hs cs bs k s)
  case (Cons r rs)
  have ra: "region_aligned r" and so: "regions_sorted rs" using Cons.prems(1) by (simp_all add: regions_sorted_def)
  have lr: "live_ok m (region_first r) (L r) (rend r)" "filter (in_region r) zs = map (\<lambda>h. h + GC_HEAD) (L r)" using Cons.prems(5) by simp_all
  have "\<exists>z\<in>set zs. rend r < z" "rstart r \<le> rend r" using Cons.prems(4) ra by (auto simp: region_aligned_def)
  from sorted_cut [OF Cons.prems(3) this] obtain us y ys where u: "zs = us @ map (\<lambda>h. h + GC_HEAD) (L r) @ y # ys" "\<forall>u\<in>set us. u < rstart r" "rend r < y"
    using lr(2) unfolding in_region_def by auto
  have "drop i objects = us @ map (\<lambda>h. h + GC_HEAD) (L r) @ y # (ys @ junk)" using Cons.prems(2) u(1) by simp
  moreover have "fresh cs bs (region_first r)" "\<forall>x\<in>hs. x < rstart r" using Cons.prems(7) by (simp_all add: below_def)
  ultimately obtain i' s' where s': "sweep_region_selective objects r (i, s) = Inr (i', s')" "drop i' objects = (if L r = [] then [] else [last (L r) + GC_HEAD]) @ y # ys @ junk"
    "sw_rel m (hs \<union> set (L r)) (cs @ free_chunks m (region_first r) (L r)) (bs @ free_blocks m (region_first r) (L r) (rend r)) (k + live_size m (L r)) s'"
    using sweep_region_selective_rel [OF _ u(2,3) ra lr(1) Cons.prems(6)] by metis
  let ?zs = "(if L r = [] then [] else [last (L r) + GC_HEAD]) @ y # ys"
  have lb: "x < rend r" if "x \<in> set (map (\<lambda>h. h + GC_HEAD) (L r))" for x using that live_ok_bound [OF lr(1)] by auto
  have so': "sorted_wrt (<) ?zs"
  proof (cases "L r = []")
    case False
    then have "last (L r) + GC_HEAD \<in> set (map (\<lambda>h. h + GC_HEAD) (L r))" by simp
    then show ?thesis using Cons.prems(3) u(1) False by (auto simp: sorted_wrt_append)
  qed (use Cons.prems(3) u(1) in \<open>simp add: sorted_wrt_append\<close>)
  have out: "\<not> in_region r' x" if "r' \<in> set rs" "x < rend r" for r' x using that Cons.prems(1) by (auto simp: in_region_def regions_sorted_def)
  have fl: "filter (in_region r') ?zs = filter (in_region r') zs" if r': "r' \<in> set rs" for r'
  proof -
    have "filter (in_region r') us = []" "filter (in_region r') (map (\<lambda>h. h + GC_HEAD) (L r)) = []" "L r \<noteq> [] \<Longrightarrow> \<not> in_region r' (last (L r) + GC_HEAD)"
      using out [OF r'] u(2) lb ra by (auto simp: filter_empty_conv region_aligned_def)
    then show ?thesis unfolding u(1) by simp
  qed
  obtain z where z: "z \<in> set zs" "\<forall>r\<in>set (r # rs). rend r < z" using Cons.prems(4) by blast
  then have "z \<in> set (y # ys)" using u(1,2) lb ra by (fastforce simp: region_aligned_def)
  then have zz: "\<exists>z\<in>set ?zs. \<forall>r\<in>set rs. rend r < z" using z(2) by auto
  have fl': "\<forall>r\<in>set rs. filter (in_region r) ?zs = map (\<lambda>h. h + GC_HEAD) (L r) \<and> live_ok m (region_first r) (L r) (rend r)" using Cons.prems(5) fl by auto
  have d': "drop i' objects = ?zs @ junk" using s'(2) by simp
  from Cons.IH [OF so d' so' zz fl' s'(3) below_next [OF Cons.prems(1,7) lr(1)]] s'(1)
  show ?case by (simp add: ac_simps)
qed simp

section \<open>The normal sweep\<close>

text \<open>The live objects of a block and of a region, and the free memory between objects of one block.\<close>

definition block_live :: "memory \<Rightarrow> region \<Rightarrow> nat \<Rightarrow> nat list" where
  "block_live m r pos = filter (\<lambda>h. marked_word (m h)) (chunk_headers m (first_header r pos) (last_header r pos))"

definition used_live :: "memory \<Rightarrow> uint32 list \<Rightarrow> region \<Rightarrow> nat \<Rightarrow> nat list" where
  "used_live m tab r pos = (if block_used tab pos then block_live m r pos else [])"

definition region_live :: "memory \<Rightarrow> (nat \<Rightarrow> uint32 list) \<Rightarrow> region \<Rightarrow> nat list" where
  "region_live m us r = concat (map (used_live m (us (rstart r)) r) [0..<region_blocks r])"

fun end_of :: "memory \<Rightarrow> nat \<Rightarrow> nat list \<Rightarrow> nat" where
  "end_of m g [] = g"
| "end_of m g (h # L) = end_of m (h + size_word (m h)) L"

fun inner :: "memory \<Rightarrow> nat \<Rightarrow> nat list \<Rightarrow> (nat \<times> nat) list" where
  "inner m g [] = []"
| "inner m g (h # L) = span g h @ inner m (h + size_word (m h)) L"

lemma insert_slack_rel:
  assumes r: "sw_rel m hs cs bs k s" and f: "a \<notin> keys cs" and n: "e - a < GC_BLOCKSIZE"
  shows "\<exists>s'. insert_slack a (e - a) s = Inr s' \<and> sw_rel m hs (cs @ span a e) bs k s'"
proof (cases "a < e")
  case True
  then show ?thesis using insert_span_rel [OF r f n] by (auto simp: insert_slack_def)
next
  case False
  then show ?thesis using r by (simp add: insert_slack_def span_def)
qed

lemma insert_slack_block_rel:
  assumes r: "sw_rel m hs cs bs k s" and f: "a \<notin> keys cs" "a \<notin> keys bs"
  shows "sw_rel m hs cs (bs @ span a e) k (insert_slack_block a (e - a) s)"
  using add_span_rel [OF r f, of e] r by (cases "a < e") (auto simp: insert_slack_block_def span_def Let_def)

definition keys_ok :: "nat set \<Rightarrow> (nat \<times> nat) list \<Rightarrow> (nat \<times> nat) list \<Rightarrow> nat \<Rightarrow> bool" where
  "keys_ok hs cs bs g \<longleftrightarrow> (\<forall>x\<in>keys cs. x mod 8 = 4 \<and> x < g) \<and> (\<forall>x\<in>keys bs. x mod 8 = 0) \<and> (\<forall>x\<in>hs. x < g)"

lemma keys_okD: "keys_ok hs cs bs g \<Longrightarrow> g \<le> a \<Longrightarrow> a \<notin> keys cs \<and> a \<notin> hs" "keys_ok hs cs bs g \<Longrightarrow> a mod 8 = 4 \<Longrightarrow> a \<notin> keys bs"
  "keys_ok hs cs bs g \<Longrightarrow> a mod 8 = 0 \<Longrightarrow> a \<notin> keys cs"
  by (fastforce simp: keys_ok_def)+

lemma sweep_chunks_rel:
  "block_ok m header b \<Longrightarrow> header \<le> b \<Longrightarrow> header mod 8 = 4 \<Longrightarrow> slack \<le> header \<Longrightarrow> slack mod 8 = 4 \<Longrightarrow> b - slack < GC_BLOCKSIZE \<Longrightarrow>
   sw_rel m hs cs bs k s \<Longrightarrow> keys_ok hs cs bs slack \<Longrightarrow>
   let L = filter (\<lambda>h. marked_word (m h)) (chunk_headers m header b)
   in \<exists>s'. sweep_chunks header b slack (header - slack) s = Some (Inr (end_of m slack L, b - end_of m slack L, s')) \<and>
     sw_rel m (hs \<union> set L) (cs @ inner m slack L) bs (k + live_size m L) s'"
proof (induction m header b arbitrary: slack hs cs k s rule: chunk_headers.induct)
  case (1 m header b)
  show ?case
  proof (cases "header < b")
    case False
    then show ?thesis using "1.prems" by (subst sweep_chunks.simps) (simp add: chunk_headers.simps)
  next
    case True
    let ?n = "size_word (m header)" let ?t = "header + size_word (m header)"
    have n0: "?n \<noteq> 0" "block_ok m ?t b" using "1.prems"(1) True by (subst (asm) block_ok.simps, simp split: if_splits)+
    have tb: "?t \<le> b" using n0(2) by (subst (asm) block_ok.simps) (auto split: if_splits)
    have t4: "?t mod 8 = 4" using "1.prems"(3) by (simp add: mod_add_eq [symmetric, of header])
    have ch: "chunk_headers m header b = header # chunk_headers m ?t b" using True n0(1) by (subst chunk_headers.simps) simp
    have nk: "header \<notin> keys cs" "header \<notin> keys bs" "header \<notin> hs" using keys_okD(1) [OF "1.prems"(8,4)] keys_okD(2) [OF "1.prems"(8,3)] by simp_all
    have mh: "sw_mem s header = m header" by (rule unmark_rel(1) [OF "1.prems"(7) nk])
    note IH = "1.IH" [OF conjI [OF True n0(1)] n0(2) tb t4]
    show ?thesis
    proof (cases "marked_word (m header)")
      case True
      have "header - slack < GC_BLOCKSIZE" using "1.prems"(2,6) by simp
      from insert_slack_rel [OF "1.prems"(7) _ this] keys_okD(1) [OF "1.prems"(8) order_refl]
      obtain s1 where s1: "insert_slack slack (header - slack) s = Inr s1" "sw_rel m hs (cs @ span slack header) bs k s1" by blast
      have nk1: "header \<notin> keys (cs @ span slack header)" using nk(1) by (auto simp: span_keys)
      note u = unmark_rel [OF s1(2) nk1 nk(2,3)]
      let ?s2 = "s1\<lparr>small_marked := small_marked s1 + ?n, sw_mem := (sw_mem s1)(header := unset_bit 0 (sw_mem s1 header))\<rparr>"
      have r2: "sw_rel m (insert header hs) (cs @ span slack header) bs (k + ?n) ?s2" using u(2) by (auto simp: sw_rel_def)
      have k2: "keys_ok (insert header hs) (cs @ span slack header) bs ?t"
        using "1.prems"(4,5,8) n0(1) unfolding keys_ok_def by (fastforce simp: span_keys)
      have bt: "b - ?t < GC_BLOCKSIZE" using "1.prems"(4,6) by simp
      have "sweep_chunks header b slack (header - slack) s = sweep_chunks ?t b ?t 0 ?s2"
        using \<open>header < b\<close> True mh s1(1) u(1) by (subst sweep_chunks.simps) (simp add: Let_def)
      then show ?thesis using IH [OF order_refl t4 bt r2 k2] True by (simp add: ch Let_def ac_simps)
    next
      case False
      have "sweep_chunks header b slack (header - slack) s = sweep_chunks ?t b slack (?t - slack) s"
        using \<open>header < b\<close> False mh "1.prems"(4) by (subst sweep_chunks.simps) (simp add: Let_def)
      moreover have "slack \<le> ?t" using "1.prems"(4) by simp
      ultimately show ?thesis using IH [OF _ "1.prems"(5-8)] False by (simp add: ch Let_def)
    qed
  qed
qed

lemma chunk_headers_live:
  assumes "block_ok m h b" "h \<le> b" "h mod 8 = 4" "b = B * 4096 + 4092" "B * 4096 \<le> h" "live_ok m b M e" "b + 4 \<le> e"
  shows "live_ok m h (filter P (chunk_headers m h b) @ M) e"
  using assms
proof (induction m h b rule: chunk_headers.induct)
  case (1 m h b)
  show ?case
  proof (cases "h < b")
    case False
    then show ?thesis using "1.prems" by (simp add: chunk_headers.simps)
  next
    case True
    let ?t = "h + size_word (m h)"
    have n0: "size_word (m h) \<noteq> 0" "block_ok m ?t b" using "1.prems"(1) True by (subst (asm) block_ok.simps, simp split: if_splits)+
    have tb: "?t \<le> b" using n0(2) by (subst (asm) block_ok.simps) (auto split: if_splits)
    have t4: "?t mod 8 = 4" using "1.prems"(3) by (simp add: mod_add_eq [symmetric, of h])
    have ch: "chunk_headers m h b = h # chunk_headers m ?t b" using True n0(1) by (subst chunk_headers.simps) simp
    have IH: "live_ok m ?t (filter P (chunk_headers m ?t b) @ M) e" using "1.IH" [OF conjI [OF True n0(1)] n0(2) tb t4] "1.prems" by simp
    obtain x where x: "h = B * 4096 + x" using "1.prems"(5) le_Suc_ex by blast
    then have "x < 4096" using True "1.prems"(4) by simp
    then have ib: "in_block m h" using x "1.prems"(3,4) n0(1) tb by (simp add: in_block_def gc_consts)
    have mono: "live_ok m h N e" if "live_ok m ?t N e" for N using that True "1.prems"(7) by (cases N) auto
    show ?thesis using IH ib mono [OF IH] True "1.prems"(7) by (simp add: ch gc_consts)
  qed
qed

lemma chunk_headers_bases:
  assumes "x \<in> set (chunk_headers m h b)" "b = B * 4096 + 4092" "B * 4096 \<le> h"
  shows "block_base x = B * 4096"
proof -
  have "h \<le> x" "x < b" using chunk_headers_bounds [OF assms(1)] by simp_all
  then have "x = B * 4096 + (x - B * 4096)" "x - B * 4096 < 4096" using assms(2,3) by simp_all
  then show ?thesis by (metis parts_gap(1))
qed

text \<open>Within a block, the gaps are the ranges between the objects.\<close>

lemma inner_chunks:
  "block_base g = b \<Longrightarrow> \<not> at_first g \<Longrightarrow> \<forall>h\<in>set L. block_base h = b \<and> in_block m h \<Longrightarrow>
   free_chunks m g (L @ M) = inner m g L @ free_chunks m (end_of m g L) M \<and> free_blocks m g (L @ M) e = free_blocks m (end_of m g L) M e"
proof (induction L arbitrary: g)
  case (Cons h L)
  have "\<not> slack_start g \<le> block_base h" using Cons.prems by (simp add: slack_start_def gc_consts)
  then have "gap_chunks g h = span g h" "gap_blocks g h = []" by (simp_all add: gap_chunks_def gap_blocks_def)
  moreover have "block_base (h + size_word (m h)) = b" "\<not> at_first (h + size_word (m h))" using in_blockD(3,6) [of m h] Cons.prems(3) by simp_all
  ultimately show ?case using Cons.IH [of "h + size_word (m h)"] Cons.prems(3) by simp
qed simp

lemma block_chunks:
  assumes "slack_start g \<le> b" "L \<noteq> []" "\<forall>h\<in>set L. block_base h = b \<and> in_block m h"
  shows "free_chunks m g (L @ M) = first_part g @ inner m (b + 4) L @ free_chunks m (end_of m (b + 4) L) M"
    "free_blocks m g (L @ M) e = span (slack_start g) b @ free_blocks m (end_of m (b + 4) L) M e"
proof -
  obtain h L' where L: "L = h # L'" using assms(2) by (cases L) auto
  have h: "block_base h = b" "in_block m h" using assms(3) L by simp_all
  then have "gap_chunks g h = first_part g @ span (b + 4) h" "gap_blocks g h = span (slack_start g) b" using assms(1) by (simp_all add: gap_chunks_def gap_blocks_def gc_consts)
  moreover have "block_base (h + size_word (m h)) = b" "\<not> at_first (h + size_word (m h))" using in_blockD(3,6) [OF h(2)] h(1) by simp_all
  ultimately show "free_chunks m g (L @ M) = first_part g @ inner m (b + 4) L @ free_chunks m (end_of m (b + 4) L) M"
    "free_blocks m g (L @ M) e = span (slack_start g) b @ free_blocks m (end_of m (b + 4) L) M e"
    using inner_chunks [of "h + size_word (m h)" b L' m M e] assms(3) L by simp_all
qed

lemma end_of_block:
  assumes "\<forall>h\<in>set L. block_base h = b \<and> in_block m h" "L \<noteq> []"
  shows "block_base (end_of m g L) = b \<and> \<not> at_first (end_of m g L) \<and> end_of m g L mod 8 = 4 \<and> end_of m g L \<le> b + 4092"
  using assms
proof (induction L arbitrary: g)
  case (Cons h L)
  then show ?case using in_blockD [of m h] by (cases "L = []") auto
qed simp

lemma end_of_mono: "live_ok m g L e \<Longrightarrow> g \<le> end_of m g L"
proof (induction L arbitrary: g)
  case (Cons h L)
  then have "h + size_word (m h) \<le> end_of m (h + size_word (m h)) L" "g \<le> h" by simp_all
  then show ?case by simp
qed simp

lemma live_below_end: "live_ok m g L e \<Longrightarrow> x \<in> set L \<Longrightarrow> x < end_of m g L"
proof (induction L arbitrary: g)
  case (Cons h L)
  then show ?case using in_blockD(4) [of m h] end_of_mono [of m "h + size_word (m h)" L e] by (cases "x = h") auto
qed simp

lemma inner_keys:
  assumes "x \<in> keys (inner m g L)" "live_ok m g L e" "g mod 8 = 4"
  shows "x mod 8 = 4 \<and> g \<le> x \<and> x < end_of m g L"
proof -
  show ?thesis using assms
  proof (induction L arbitrary: g)
    case (Cons h L)
    let ?t = "h + size_word (m h)"
    have l: "g \<le> h" "in_block m h" "live_ok m ?t L e" using Cons.prems(2) by simp_all
    note d = in_blockD [OF l(2)]
    show ?case
    proof (cases "x \<in> keys (span g h)")
      case True
      then show ?thesis using end_of_mono [OF l(3)] Cons.prems(3) d(4) by (auto simp: span_keys)
    next
      case False
      then have "x \<in> keys (inner m ?t L)" using Cons.prems(1) by simp
      from Cons.IH [OF this l(3) d(2)] show ?thesis using l(1) d(4) by auto
    qed
  qed simp
qed

text \<open>
  Between blocks, the free memory before the next live object begins at \<open>g\<close>; its first chunk has been inserted, and its blocks up to the block
  at \<open>b\<close> are the slack.
\<close>

definition pending :: "memory \<Rightarrow> nat \<Rightarrow> nat \<Rightarrow> nat set \<Rightarrow> (nat \<times> nat) list \<Rightarrow> (nat \<times> nat) list \<Rightarrow> nat \<Rightarrow> nat \<times> nat \<times> sweeping \<Rightarrow> bool" where
  "pending m b g hs cs bs k st \<longleftrightarrow>
     (\<exists>s. st = (slack_start g, b - slack_start g, s) \<and> slack_start g \<le> b \<and> g mod 8 = 4 \<and> sw_rel m hs (cs @ first_part g) bs k s \<and>
        keys_ok hs (cs @ first_part g) bs (b + 4) \<and> (\<forall>x\<in>keys bs. x < slack_start g))"

lemma slack_start_mod: "g mod 8 = 4 \<Longrightarrow> slack_start g mod 8 = 0"
proof -
  assume "g mod 8 = 4"
  then obtain A x where "g = A * 4096 + x" "x < 4096" "4 \<le> x" "x \<le> 4092" by (rule header_parts)
  then show ?thesis using mod_8_block [of "Suc A" 0] by (simp add: parts_gap)
qed

lemma keys_ok_mono: "keys_ok hs cs bs g \<Longrightarrow> g \<le> g' \<Longrightarrow> keys_ok hs cs bs g'"
  by (fastforce simp: keys_ok_def)

lemma keys_ok_append: "keys_ok hs (cs @ ds) bs g \<longleftrightarrow> keys_ok hs cs bs g \<and> (\<forall>x\<in>keys ds. x mod 8 = 4 \<and> x < g)"
  by (auto simp: keys_ok_def)

lemma pending_skip:
  assumes "pending m b g hs cs bs k (a, n, s)"
  shows "pending m (b + 4096) g hs cs bs k (a, n + 4096, s)"
  using assms keys_ok_mono [of hs "cs @ first_part g" bs "b + 4" "b + 4096 + 4"] by (auto simp: pending_def)

lemma pending_block:
  assumes p: "pending m b g hs cs bs k (a, n, s)" and b: "b = B * 4096" and L: "L \<noteq> []" "\<forall>h\<in>set L. block_base h = b \<and> in_block m h"
    and lo: "live_ok m (b + 4) L e"
    and s1: "sw_rel m (hs \<union> set L) ((cs @ first_part g) @ inner m (b + 4) L) bs (k + live_size m L) s1"
  shows "\<exists>s2. insert_slack (end_of m (b + 4) L) (b + 4092 - end_of m (b + 4) L) s1 = Inr s2 \<and>
    pending m (b + 4096) (end_of m (b + 4) L) (hs \<union> set L) (cs @ first_part g @ inner m (b + 4) L) (bs @ span a b) (k + live_size m L) (b + 4096, 0, insert_slack_block a n s2)"
proof -
  let ?t = "end_of m (b + 4) L" let ?cs = "(cs @ first_part g) @ inner m (b + 4) L"
  have pd: "a = slack_start g" "n = b - slack_start g" "slack_start g \<le> b" "g mod 8 = 4" "keys_ok hs (cs @ first_part g) bs (b + 4)" "\<forall>x\<in>keys bs. x < slack_start g"
    using p by (auto simp: pending_def)
  note t = end_of_block [OF L(2,1), of "b + 4"]
  have b4: "(b + 4) mod 8 = 4" using b by simp
  have bt: "b + 4 \<le> ?t" by (rule end_of_mono [OF lo])
  have k1: "keys_ok (hs \<union> set L) ?cs bs ?t" unfolding keys_ok_def
  proof (intro conjI ballI)
    fix x assume x: "x \<in> keys ?cs"
    have "x mod 8 = 4 \<and> x < ?t"
    proof (cases "x \<in> keys (inner m (b + 4) L)")
      case False
      then have "x mod 8 = 4" "x < b + 4" using x pd(5) by (simp_all add: keys_ok_def)
      then show ?thesis using bt by simp
    qed (use inner_keys [OF _ lo b4] in blast)
    then show "x mod 8 = 4" "x < ?t" by simp_all
  next
    fix x assume "x \<in> keys bs" then show "x mod 8 = 0" using pd(5) unfolding keys_ok_def by auto
  next
    show "x < ?t" if "x \<in> hs \<union> set L" for x using that live_below_end [OF lo] pd(5) bt unfolding keys_ok_def by fastforce
  qed
  have "b + 4092 - ?t < GC_BLOCKSIZE" using bt by (simp add: gc_consts)
  from insert_slack_rel [OF s1 _ this] keys_okD(1) [OF k1 order_refl]
  obtain s2 where s2: "insert_slack ?t (b + 4092 - ?t) s1 = Inr s2" "sw_rel m (hs \<union> set L) (?cs @ span ?t (b + 4092)) bs (k + live_size m L) s2" by blast
  have fp: "first_part ?t = span ?t (b + 4092)" using t by (simp add: first_part_def gc_consts)
  have ss: "slack_start ?t = b + 4096" using t by (simp add: slack_start_def gc_consts)
  have k2: "keys_ok (hs \<union> set L) (?cs @ span ?t (b + 4092)) bs (b + 4096 + 4)"
    using keys_ok_mono [OF k1, of "b + 4096 + 4"] t by (auto simp: keys_ok_append span_keys)
  have a8: "a mod 8 = 0" using slack_start_mod [OF pd(4)] pd(1) by simp
  have "sw_rel m (hs \<union> set L) (?cs @ span ?t (b + 4092)) (bs @ span a b) (k + live_size m L) (insert_slack_block a n s2)"
    using insert_slack_block_rel [OF s2(2) keys_okD(3) [OF k2 a8], of b] pd(1,2,6) by auto
  moreover have "keys_ok (hs \<union> set L) (?cs @ span ?t (b + 4092)) (bs @ span a b) (b + 4096 + 4)" using k2 a8 unfolding keys_ok_def by (auto simp: span_keys)
  moreover have "\<forall>x\<in>keys (bs @ span a b). x < b + 4096" using pd(1,3,6) by (auto simp: span_keys)
  ultimately show ?thesis using s2(1) t fp ss by (auto simp: pending_def)
qed

lemma block_live_facts:
  assumes ok: "block_ok m (first_header r pos) (last_header r pos)" and b: "rstart r + pos * GC_BLOCKSIZE = B * 4096"
  shows "live_ok m (B * 4096 + 4) (block_live m r pos) (B * 4096 + 4096)" "\<forall>h\<in>set (block_live m r pos). block_base h = B * 4096 \<and> in_block m h"
proof -
  have f: "first_header r pos = B * 4096 + 4" "last_header r pos = B * 4096 + 4092" using b by (simp_all add: first_header_def last_header_def gc_consts)
  have "live_ok m (first_header r pos) (block_live m r pos @ []) (B * 4096 + 4096)" unfolding block_live_def
    by (rule chunk_headers_live [OF ok, of B]) (simp_all add: f)
  then show lo: "live_ok m (B * 4096 + 4) (block_live m r pos) (B * 4096 + 4096)" by (simp add: f)
  show "\<forall>h\<in>set (block_live m r pos). block_base h = B * 4096 \<and> in_block m h"
    using live_ok_bound [OF lo] chunk_headers_bases [of _ m "first_header r pos" "last_header r pos" B] f by (auto simp: block_live_def)
qed

lemma sweep_block_rel:
  assumes p: "pending m b g hs cs bs k (a, n, s)" and b: "rstart r + pos * GC_BLOCKSIZE = b" "b = B * 4096"
    and ok: "block_used tab pos \<longrightarrow> block_ok m (first_header r pos) (last_header r pos)"
  shows "\<exists>st. sweep_block tab (rstart r) pos (a, n, s) = Some (Inr st) \<and>
    (let L = used_live m tab r pos
     in if L = [] then pending m (b + 4096) g hs cs bs k st
        else pending m (b + 4096) (end_of m (b + 4) L) (hs \<union> set L) (cs @ first_part g @ inner m (b + 4) L) (bs @ span (slack_start g) b) (k + live_size m L) st)"
proof (cases "block_used tab pos")
  case False
  then show ?thesis using pending_skip [OF p] by (simp add: sweep_block_def used_live_def gc_consts)
next
  case True
  let ?L = "block_live m r pos"
  have f: "first_header r pos = b + 4" "last_header r pos = b + 4092" "rstart r + pos * GC_BLOCKSIZE + (MEMALIGN - GC_HEAD) = b + 4" "rstart r + pos * GC_BLOCKSIZE + (GC_BLOCKSIZE - GC_HEAD) = b + 4092"
    using b(1) by (simp_all add: first_header_def last_header_def gc_consts)
  have bok: "block_ok m (first_header r pos) (last_header r pos)" using ok True by simp
  note lf = block_live_facts [OF bok b(1) [unfolded b(2)], folded b(2)]
  have pd: "a = slack_start g" "sw_rel m hs (cs @ first_part g) bs k s" "keys_ok hs (cs @ first_part g) bs (b + 4)" using p by (auto simp: pending_def)
  have b4: "(b + 4) mod 8 = 4" using b(2) by simp
  have small: "b + 4092 - (b + 4) < GC_BLOCKSIZE" by (simp add: gc_consts)
  obtain s1 where s1: "sweep_chunks (b + 4) (b + 4092) (b + 4) 0 s = Some (Inr (end_of m (b + 4) ?L, b + 4092 - end_of m (b + 4) ?L, s1))"
    "sw_rel m (hs \<union> set ?L) ((cs @ first_part g) @ inner m (b + 4) ?L) bs (k + live_size m ?L) s1"
    using sweep_chunks_rel [OF bok [unfolded f(1,2)] _ b4 order_refl b4 small pd(2,3)] by (auto simp: block_live_def f Let_def)
  show ?thesis
  proof (cases "?L = []")
    case e: True
    then have "sweep_block tab (rstart r) pos (a, n, s) = Some (Inr (a, n + 4096, s1))" using True s1(1) by (simp add: sweep_block_def f Let_def) (simp add: gc_consts)
    moreover have "pending m b g hs cs bs k (a, n, s1)" using p s1(2) e by (auto simp: pending_def)
    ultimately show ?thesis using pending_skip e True by (auto simp: used_live_def Let_def)
  next
    case ne: False
    then have "hd ?L \<in> set ?L" by simp
    then have "b + 4 < end_of m (b + 4) ?L" using live_below_end [OF lf(1)] live_ok_bound [OF lf(1)] by (meson le_less_trans)
    then have nt: "\<not> (b + 4092 - end_of m (b + 4) ?L > 0 \<and> end_of m (b + 4) ?L = b + 4)" by simp
    from pending_block [OF p b(2) ne lf(2,1) s1(2)]
    obtain s2 where s2: "insert_slack (end_of m (b + 4) ?L) (b + 4092 - end_of m (b + 4) ?L) s1 = Inr s2"
      "pending m (b + 4096) (end_of m (b + 4) ?L) (hs \<union> set ?L) (cs @ first_part g @ inner m (b + 4) ?L) (bs @ span a b) (k + live_size m ?L) (b + 4096, 0, insert_slack_block a n s2)" by blast
    have "sweep_block tab (rstart r) pos (a, n, s) = Some (Inr (b + 4096, 0, insert_slack_block a n s2))"
      using True s1(1) s2(1) nt b(1) by (simp add: sweep_block_def f Let_def) (simp add: gc_consts)
    then show ?thesis using s2(2) ne True pd(1) by (simp add: used_live_def Let_def)
  qed
qed

lemma sweep_blocks_rel:
  "pending m (rstart r + p * 4096) g hs cs bs k st \<Longrightarrow> p \<le> N \<Longrightarrow> rstart r = A * 4096 \<Longrightarrow>
   \<forall>pos<N. block_used tab pos \<longrightarrow> block_ok m (first_header r pos) (last_header r pos) \<Longrightarrow>
   let L = concat (map (used_live m tab r) [p..<N])
   in \<exists>st' g' cs' bs'. each (sweep_block tab (rstart r)) [p..<N] st = Some (Inr st') \<and> pending m (rstart r + N * 4096) g' (hs \<union> set L) cs' bs' (k + live_size m L) st' \<and>
     cs' @ first_part g' = cs @ free_chunks m g L \<and> (\<forall>e. bs' @ span (slack_start g') e = bs @ free_blocks m g L e)"
proof (induction "N - p" arbitrary: p g hs cs bs k st)
  case 0
  then show ?case by auto
next
  case (Suc d)
  then have pN: "p < N" by simp
  let ?b = "rstart r + p * 4096" let ?L = "used_live m tab r p" let ?M = "concat (map (used_live m tab r) [Suc p..<N])"
  obtain a n s where st: "st = (a, n, s)" by (cases st) auto
  have b: "rstart r + p * GC_BLOCKSIZE = ?b" "?b = (A + p) * 4096" using Suc.prems(3) by (simp_all add: gc_consts)
  have ok: "block_used tab p \<longrightarrow> block_ok m (first_header r p) (last_header r p)" using Suc.prems(4) pN by blast
  have u: "[p..<N] = p # [Suc p..<N]" using pN by (rule upt_conv_Cons)
  have next_b: "?b + 4096 = rstart r + Suc p * 4096" by simp
  have dN: "d = N - Suc p" "Suc p \<le> N" using Suc.hyps(2) pN by simp_all
  from sweep_block_rel [OF Suc.prems(1) [unfolded st] b ok]
  obtain st1 where st1: "sweep_block tab (rstart r) p st = Some (Inr st1)" "let L = ?L
     in if L = [] then pending m (?b + 4096) g hs cs bs k st1
        else pending m (?b + 4096) (end_of m (?b + 4) L) (hs \<union> set L) (cs @ first_part g @ inner m (?b + 4) L) (bs @ span (slack_start g) ?b) (k + live_size m L) st1"
    unfolding st by blast
  show ?case
  proof (cases "?L = []")
    case True
    then have "pending m (rstart r + Suc p * 4096) g hs cs bs k st1" using st1(2) unfolding next_b by simp
    from Suc.hyps(1) [OF dN(1) this dN(2) Suc.prems(3,4)] True st1(1) show ?thesis by (simp add: u Let_def del: mult_Suc upt_Suc)
  next
    case False
    let ?g = "end_of m (?b + 4) ?L"
    have pn: "pending m (rstart r + Suc p * 4096) ?g (hs \<union> set ?L) (cs @ first_part g @ inner m (?b + 4) ?L) (bs @ span (slack_start g) ?b) (k + live_size m ?L) st1"
      using False st1(2) unfolding next_b by (simp add: Let_def)
    have "block_used tab p" using False by (auto simp: used_live_def split: if_splits)
    then have "\<forall>h\<in>set ?L. block_base h = ?b \<and> in_block m h"
      using block_live_facts(2) [OF mp [OF ok] trans [OF b]] b(2) by (simp add: used_live_def)
    moreover have "slack_start g \<le> ?b" using Suc.prems(1) by (auto simp: pending_def)
    ultimately have fc: "free_chunks m g (?L @ ?M) = first_part g @ inner m (?b + 4) ?L @ free_chunks m ?g ?M" "free_blocks m g (?L @ ?M) e = span (slack_start g) ?b @ free_blocks m ?g ?M e" for e
      using block_chunks [of g ?b ?L m ?M] False by blast+
    obtain st' g' cs' bs' where r: "each (sweep_block tab (rstart r)) [Suc p..<N] st1 = Some (Inr st')" "pending m (rstart r + N * 4096) g' (hs \<union> set ?L \<union> set ?M) cs' bs' (k + live_size m ?L + live_size m ?M) st'"
      "cs' @ first_part g' = (cs @ first_part g @ inner m (?b + 4) ?L) @ free_chunks m ?g ?M" "\<forall>e. bs' @ span (slack_start g') e = (bs @ span (slack_start g) ?b) @ free_blocks m ?g ?M e"
      using Suc.hyps(1) [OF dN(1) pn dN(2) Suc.prems(3,4)] unfolding Let_def by (elim exE conjE) (rule that)
    have "each (sweep_block tab (rstart r)) [p..<N] st = Some (Inr st')" using st1(1) r(1) by (simp add: u del: upt_Suc)
    moreover have "pending m (rstart r + N * 4096) g' (hs \<union> set (?L @ ?M)) cs' bs' (k + live_size m (?L @ ?M)) st'" using r(2) by (simp add: Un_assoc add.assoc)
    moreover have "cs' @ first_part g' = cs @ free_chunks m g (?L @ ?M)" "\<forall>e. bs' @ span (slack_start g') e = bs @ free_blocks m g (?L @ ?M) e" using r(3,4) fc by simp_all
    moreover have "concat (map (used_live m tab r) [p..<N]) = ?L @ ?M" by (simp add: u del: upt_Suc)
    ultimately show ?thesis unfolding Let_def by metis
  qed
qed

definition blocks_ok :: "memory \<Rightarrow> (nat \<Rightarrow> uint32 list) \<Rightarrow> region \<Rightarrow> bool" where
  "blocks_ok m us r \<longleftrightarrow> (\<forall>pos<region_blocks r. block_used (us (rstart r)) pos \<longrightarrow> block_ok m (first_header r pos) (last_header r pos))"

lemma region_blocks_end:
  assumes "region_aligned r"
  shows "rstart r + region_blocks r * 4096 = rend r" "0 < region_blocks r"
proof -
  obtain A where A: "rstart r = A * 4096" using assms unfolding region_aligned_def by (metis div_mult_mod_eq add_0_right)
  obtain B where B: "rend r = B * 4096" using assms unfolding region_aligned_def by (metis div_mult_mod_eq add_0_right)
  have AB: "A < B" using assms A B by (simp add: region_aligned_def)
  have "rend r - rstart r + 4096 - 1 = (B - A) * 4096 + 4095" unfolding A B by (simp add: diff_mult_distrib)
  then have "region_blocks r = B - A" unfolding region_blocks_def GC_BLOCKSIZE_def by simp
  then show "rstart r + region_blocks r * 4096 = rend r" "0 < region_blocks r" using A B AB by (simp_all add: diff_mult_distrib)
qed

lemma region_live_ok:
  assumes ra: "region_aligned r" and ok: "blocks_ok m us r"
  shows "live_ok m (region_first r) (region_live m us r) (rend r)"
proof -
  let ?u = "used_live m (us (rstart r)) r" let ?N = "region_blocks r"
  obtain A where A: "rstart r = A * 4096" using ra unfolding region_aligned_def by (metis div_mult_mod_eq add_0_right)
  note e = region_blocks_end [OF ra]
  have "p \<le> ?N \<Longrightarrow> g \<le> rstart r + p * 4096 + 4 \<Longrightarrow> g < rend r \<Longrightarrow> live_ok m g (concat (map ?u [p..<?N])) (rend r)" for p g
  proof (induction "?N - p" arbitrary: p g)
    case 0
    then show ?case by simp
  next
    case (Suc d)
    then have pN: "p < ?N" by simp
    let ?b = "rstart r + p * 4096" let ?M = "concat (map ?u [Suc p..<?N])"
    have u: "[p..<?N] = p # [Suc p..<?N]" using pN by (rule upt_conv_Cons)
    have be: "?b + 4096 \<le> rend r" using mult_le_mono1 [of "Suc p" ?N 4096] pN e(1) by simp
    have "live_ok m g' ?M (rend r)" if "g' \<le> ?b + 4092" for g'
      using Suc.hyps(1) [of "Suc p" g'] Suc.hyps(2) pN that be by simp
    note M = this
    have mono: "live_ok m g L (rend r)" if "live_ok m (?b + 4) L (rend r)" for L using that Suc.prems(2,3) by (cases L) auto
    show ?case
    proof (cases "block_used (us (rstart r)) p")
      case False
      then show ?thesis using mono [OF M [of "?b + 4"]] by (simp add: u used_live_def del: upt_Suc)
    next
      case True
      have f: "first_header r p = ?b + 4" "last_header r p = ?b + 4092" by (simp_all add: first_header_def last_header_def gc_consts)
      have "block_ok m (first_header r p) (last_header r p)" using ok True pN by (simp add: blocks_ok_def)
      moreover have "?b + 4 \<le> ?b + 4092" "(?b + 4) mod 8 = 4" "?b + 4092 = (A + p) * 4096 + 4092" "(A + p) * 4096 \<le> ?b + 4"
        using A mod8_block(2) [of "A + p"] by (simp_all add: add_mult_distrib)
      ultimately have "live_ok m (?b + 4) (block_live m r p @ ?M) (rend r)" unfolding block_live_def f
        using chunk_headers_live [of m "?b + 4" "?b + 4092" "A + p" ?M "rend r"] M [of "?b + 4092"] be by simp
      then show ?thesis using mono True by (simp add: u used_live_def del: upt_Suc)
    qed
  qed
  from this [of 0 "region_first r"] show ?thesis using region_first(4) [OF ra] by (simp add: region_live_def region_first_def gc_consts)
qed

lemma sweep_region_normal_rel:
  assumes ra: "region_aligned r" and ok: "blocks_ok m us r" and s: "sw_rel m hs cs bs k s" and f: "fresh cs bs (region_first r)" and hs: "\<forall>x\<in>hs. x < rstart r"
  shows "\<exists>s'. sweep_region_normal us r s = Some (Inr s') \<and>
    (let L = region_live m us r in sw_rel m (hs \<union> set L) (cs @ free_chunks m (region_first r) L) (bs @ free_blocks m (region_first r) L (rend r)) (k + live_size m L) s')"
proof -
  let ?N = "region_blocks r" let ?L = "region_live m us r"
  obtain A where A: "rstart r = A * 4096" using ra unfolding region_aligned_def by (metis div_mult_mod_eq add_0_right)
  note rf = region_first [OF ra] and e = region_blocks_end [OF ra]
  have "keys_ok hs cs bs (rstart r + 4)" "\<forall>x\<in>keys bs. x < rstart r"
    using f hs rf(1,2) by (auto simp: keys_ok_def fresh_def region_first_def gc_consts intro: less_trans)
  then have p0: "pending m (rstart r + 0 * 4096) (region_first r) hs cs bs k (rstart r, 0, s)" using s rf by (simp add: pending_def)
  have "\<forall>pos<?N. block_used (us (rstart r)) pos \<longrightarrow> block_ok m (first_header r pos) (last_header r pos)" using ok by (simp add: blocks_ok_def)
  from sweep_blocks_rel [OF p0 _ A this]
  obtain st g cs' bs' where st: "each (sweep_block (us (rstart r)) (rstart r)) [0..<?N] (rstart r, 0, s) = Some (Inr st)" "pending m (rend r) g (hs \<union> set ?L) cs' bs' (k + live_size m ?L) st"
    "cs' @ first_part g = cs @ free_chunks m (region_first r) ?L" "\<forall>e. bs' @ span (slack_start g) e = bs @ free_blocks m (region_first r) ?L e"
    unfolding Let_def region_live_def e(1) by (auto simp: e(1))
  obtain s' where s': "st = (slack_start g, rend r - slack_start g, s')" "g mod 8 = 4" "sw_rel m (hs \<union> set ?L) (cs' @ first_part g) bs' (k + live_size m ?L) s'"
    "keys_ok (hs \<union> set ?L) (cs' @ first_part g) bs' (rend r + 4)" "\<forall>x\<in>keys bs'. x < slack_start g"
    using st(2) by (auto simp: pending_def)
  have "sw_rel m (hs \<union> set ?L) (cs' @ first_part g) (bs' @ span (slack_start g) (rend r)) (k + live_size m ?L) (insert_slack_block (slack_start g) (rend r - slack_start g) s')"
    using insert_slack_block_rel [OF s'(3) keys_okD(3) [OF s'(4) slack_start_mod [OF s'(2)]]] s'(5) by blast
  then show ?thesis using st(1,3,4) s'(1) unfolding sweep_region_normal_def region_blocks_def [symmetric] by (simp add: Let_def)
qed

lemma sweep_regions_normal_rel:
  assumes "regions_sorted rs" "\<forall>r\<in>set rs. blocks_ok m us r" "sw_rel m hs cs bs k s" "below hs cs bs rs"
  shows "\<exists>s'. each (sweep_region_normal us) rs s = Some (Inr s') \<and>
    sw_rel m (hs \<union> set (all_live (region_live m us) rs)) (cs @ all_chunks m (region_live m us) rs) (bs @ all_blocks m (region_live m us) rs) (k + live_size m (all_live (region_live m us) rs)) s'"
  using assms
proof (induction rs arbitrary: hs cs bs k s)
  case (Cons r rs)
  have ra: "region_aligned r" and so: "regions_sorted rs" and ok: "blocks_ok m us r" "\<forall>r\<in>set rs. blocks_ok m us r"
    using Cons.prems(1,2) by (simp_all add: regions_sorted_def)
  have "fresh cs bs (region_first r)" "\<forall>x\<in>hs. x < rstart r" using Cons.prems(4) by (simp_all add: below_def)
  from sweep_region_normal_rel [OF ra ok(1) Cons.prems(3) this]
  obtain s1 where s1: "sweep_region_normal us r s = Some (Inr s1)" "let L = region_live m us r in sw_rel m (hs \<union> set L) (cs @ free_chunks m (region_first r) L) (bs @ free_blocks m (region_first r) L (rend r)) (k + live_size m L) s1" by blast
  from Cons.IH [OF so ok(2) s1(2) [unfolded Let_def] below_next [OF Cons.prems(1,4) region_live_ok [OF ra ok(1)]]] s1(1)
  show ?case by (simp add: ac_simps)
qed simp

section \<open>The two sweeps agree\<close>

text \<open>The small object area as the sweep needs it: its regions in order, inside the address space, and no marks on free chunks.\<close>

definition area_ok :: "gcs \<Rightarrow> bool" where
  "area_ok s \<longleftrightarrow> regions_sorted (small_regions s) \<and> (\<forall>r\<in>set (small_regions s). 0 < rstart r \<and> rend r < 2 ^ 32 - 1) \<and>
     (\<forall>p\<in>large_set s. p < 2 ^ 32 - 1 \<and> (\<forall>r\<in>set (regions s). p \<noteq> rstart r)) \<and>
     (\<forall>r\<in>set (small_regions s). \<forall>h\<in>set (region_headers s r). free_word (mem s h) \<longrightarrow> \<not> marked_word (mem s h))"

definition live_objects :: "gcs \<Rightarrow> nat set" where
  "live_objects s = {p \<in> gc_objects s. marked (mem s) p}"

definition collected :: "gcs \<Rightarrow> nat \<Rightarrow> bool" where
  "collected s n \<longleftrightarrow> distinct (take n (mark_stack s)) \<and> set (take n (mark_stack s)) = live_objects s"

lemma live_ok_sorted: "live_ok m g L e \<Longrightarrow> sorted_wrt (<) L"
proof (induction L arbitrary: g)
  case (Cons h L)
  then show ?case using in_blockD(4) [of m h] live_ok_bound [of m "h + size_word (m h)" L e] by fastforce
qed simp

lemma region_live_set: "set (region_live (mem s) (usage s) r) = {h \<in> set (region_headers s r). marked_word (mem s h)}"
  by (auto simp: region_live_def used_live_def block_live_def region_headers_def used_blocks_def split: if_splits)

lemma heap_blocks_ok: "heap_ok s \<Longrightarrow> r \<in> set (small_regions s) \<Longrightarrow> blocks_ok (mem s) (usage s) r"
  by (auto simp: heap_ok_def blocks_ok_def used_blocks_def)

lemma region_headers_in:
  assumes "heap_ok s" "area_ok s" "r \<in> set (small_regions s)" "h \<in> set (region_headers s r)"
  shows "rstart r < h + GC_HEAD" "h + GC_HEAD < rend r"
proof -
  have ra: "region_aligned r" using assms(2,3) by (simp add: area_ok_def regions_sorted_def)
  obtain pos where pos: "pos < region_blocks r" "h \<in> set (chunk_headers (mem s) (first_header r pos) (last_header r pos))"
    using assms(4) by (auto simp: region_headers_def used_blocks_def)
  then have b: "first_header r pos \<le> h" "h < last_header r pos" using chunk_headers_bounds by blast+
  show "rstart r < h + GC_HEAD" using b(1) by (simp add: first_header_def gc_consts)
  have "rstart r + pos * 4096 + 4096 \<le> rend r" using mult_le_mono1 [of "Suc pos" "region_blocks r" 4096] pos(1) region_blocks_end(1) [OF ra] by simp
  then show "h + GC_HEAD < rend r" using b(2) by (simp add: last_header_def gc_consts)
qed

lemma regions_sorted_disjoint:
  assumes "regions_sorted rs" "r \<in> set rs" "r' \<in> set rs" "r \<noteq> r'"
  shows "rend r \<le> rstart r' \<or> rend r' \<le> rstart r"
proof -
  obtain i j where ij: "i < length rs" "j < length rs" "rs ! i = r" "rs ! j = r'" using assms(2,3) by (auto simp: in_set_conv_nth)
  then have "i \<noteq> j" using assms(4) by auto
  then show ?thesis using assms(1) ij by (auto simp: regions_sorted_def sorted_wrt_iff_nth_less neq_iff)
qed

lemma live_in_region:
  assumes h: "heap_ok s" and a: "area_ok s" and r: "r \<in> set (small_regions s)" and x: "x \<in> live_objects s"
  shows "in_region r x \<longleftrightarrow> (\<exists>h\<in>set (region_live (mem s) (usage s) r). x = h + GC_HEAD)"
proof
  assume "\<exists>h\<in>set (region_live (mem s) (usage s) r). x = h + GC_HEAD"
  then show "in_region r x" using region_headers_in [OF h a r] unfolding region_live_set by (force simp: in_region_def)
next
  assume ir: "in_region r x"
  have so: "regions_sorted (small_regions s)" using a by (simp add: area_ok_def)
  from x consider (small) "x \<in> small_objects s" | (large) "x \<in> large_set s" by (auto simp: live_objects_def gc_objects_def)
  then show "\<exists>h\<in>set (region_live (mem s) (usage s) r). x = h + GC_HEAD"
  proof cases
    case small
    then obtain r' g where g: "r' \<in> set (small_regions s)" "g \<in> set (region_headers s r')" "x = g + GC_HEAD" by (auto simp: small_objects_def)
    have "r' = r"
    proof (rule ccontr)
      assume "r' \<noteq> r"
      then have "rend r \<le> rstart r' \<or> rend r' \<le> rstart r" using regions_sorted_disjoint [OF so r g(1)] by auto
      then show False using region_headers_in [OF h a g(1,2)] ir g(3) unfolding in_region_def by linarith
    qed
    moreover have "marked_word (mem s g)" using x g(3) by (simp add: live_objects_def marked_def)
    ultimately show ?thesis using g region_live_set by auto
  next
    case large
    obtain os where os: "regions_ok (regions s) os" using h by (auto simp: heap_ok_def)
    obtain i where "i < LARGE_SET_SIZE" "x \<in> set (large_objects s i)" using large by (auto simp: large_set_def)
    then obtain R where R: "R \<in> set (regions s)" "rtype R = GC_REGION_LARGE" "rstart R \<le> x" "x < rend R"
      using h unfolding heap_ok_def by blast
    have r': "r \<in> set (regions s)" "rtype r = GC_REGION_SMALL" using h r by (auto simp: heap_ok_def)
    have ne: "x \<noteq> rstart R" using a large R(1) by (auto simp: area_ok_def)
    obtain i j where ij: "i < length (regions s)" "j < length (regions s)" "regions s ! i = R" "regions s ! j = r" using R(1) r'(1) by (auto simp: in_set_conv_nth)
    have "i \<noteq> j" using ij R(2) r'(2) by auto
    then have "rend R \<le> rstart r \<or> rend r \<le> rstart R" using regions_nth(1) [OF os ij(1,2)] regions_nth(1) [OF os ij(2,1)] ij(3,4) by (cases "i < j") auto
    then show ?thesis using ir R(3,4) ne unfolding in_region_def by linarith
  qed
qed

definition swept_state :: "gcs \<Rightarrow> swept \<Rightarrow> bool" where
  "swept_state s w \<longleftrightarrow>
     (let L = region_live (mem s) (usage s); rs = small_regions s; cs = all_chunks (mem s) L rs; bs = all_blocks (mem s) L rs
      in swept_mem w = swept_memory (mem s) (set (all_live L rs)) cs bs \<and> small_chunks w = merge_freeindex (\<lambda>i. map fst (filter (\<lambda>c. snd c div MEMALIGN = i) cs)) \<and>
         small_blocks w = map fst bs \<and> kept w = live_size (mem s) (all_live L rs))"

lemma start_rel: "sw_rel m {} [] [] 0 (start_sweep m)"
  by (simp add: sw_rel_def start_sweep_def init_freeindex_def swept_memory_def fun_eq_iff)

lemma finish_rel: "sw_rel (mem s) (set (all_live (region_live (mem s) (usage s)) (small_regions s))) (all_chunks (mem s) (region_live (mem s) (usage s)) (small_regions s))
    (all_blocks (mem s) (region_live (mem s) (usage s)) (small_regions s)) (live_size (mem s) (all_live (region_live (mem s) (usage s)) (small_regions s))) w \<Longrightarrow> swept_state s (finish_sweep w)"
  by (simp add: sw_rel_def swept_state_def finish_sweep_def Let_def)

lemma sweep_small_normal_rel:
  assumes "heap_ok s" "area_ok s"
  shows "\<exists>w. sweep_small_normal (small_regions s) (usage s) (mem s) = Some (Inr w) \<and> swept_state s w"
proof -
  have "regions_sorted (small_regions s)" "\<forall>r\<in>set (small_regions s). blocks_ok (mem s) (usage s) r" "below {} [] [] (small_regions s)"
    using assms heap_blocks_ok by (auto simp: area_ok_def below_def fresh_def)
  from sweep_regions_normal_rel [OF this(1,2) start_rel this(3)]
  obtain w where w: "each (sweep_region_normal (usage s)) (small_regions s) (start_sweep (mem s)) = Some (Inr w)" "swept_state s (finish_sweep w)"
    using finish_rel [of s] by auto
  then show ?thesis by (simp add: sweep_small_normal_def)
qed

lemma take_two: "n + 1 < length xs \<Longrightarrow> take 2 (drop n xs) = [xs ! n, xs ! (n + 1)]"
  by (rule nth_equalityI) (auto simp: less_Suc_eq numeral_2_eq_2)

lemma sorted_objects:
  assumes n: "2 * (n + 2) \<le> length (mark_stack s)" and c: "collected s n" and le: "\<forall>p\<in>live_objects s. 0 < p \<and> p < 2 ^ 32 - 1"
  shows "\<exists>zs junk stack. sort_objects (n + 2) ((mark_stack s)[n := 0, n + 1 := 2 ^ 32 - 1]) = Inr (n + 2, stack) \<and> drop (n + 2) stack = zs @ junk \<and>
    sorted_wrt (<) zs \<and> set zs = insert 0 (insert (2 ^ 32 - 1) (live_objects s))"
proof -
  let ?arr = "(mark_stack s)[n := 0, n + 1 := 2 ^ 32 - 1]"
  have ta: "take (n + 2) ?arr = take n (mark_stack s) @ [0, 2 ^ 32 - 1]"
  proof -
    have "take (n + 2) ?arr = take n ?arr @ take 2 (drop n ?arr)" by (rule take_add)
    moreover have "take 2 (drop n ?arr) = [?arr ! n, ?arr ! (n + 1)]"
      using n by (intro take_two) simp
    ultimately show ?thesis using n by simp
  qed
  have st: "set (take n (mark_stack s)) = live_objects s" "distinct (take n (mark_stack s))" using c by (simp_all add: collected_def)
  have "\<forall>x\<in>set (take (n + 2) ?arr). x < 2 ^ 32" unfolding ta using le st(1) by fastforce
  from sort_objects_effect [of "n + 2" ?arr] this n
  obtain stack where a: "sort_objects (n + 2) ?arr = Inr (n + 2, stack)" "sorted (take (n + 2) (drop (n + 2) stack))" "mset (take (n + 2) (drop (n + 2) stack)) = mset (take (n + 2) ?arr)"
    by auto
  let ?zs = "take (n + 2) (drop (n + 2) stack)"
  have "set ?zs = set (take (n + 2) ?arr)" using arg_cong [OF a(3), of set_mset] by (simp only: set_mset_mset)
  also have "\<dots> = insert 0 (insert (2 ^ 32 - 1) (live_objects s))" unfolding ta set_append st(1) by auto
  finally have z: "set ?zs = insert 0 (insert (2 ^ 32 - 1) (live_objects s))" .
  have "0 \<notin> live_objects s" "2 ^ 32 - 1 \<notin> live_objects s" using le by auto
  then have "distinct (take (n + 2) ?arr)" unfolding ta using st by auto
  then have "distinct ?zs" using a(3) mset_eq_imp_distinct_iff by blast
  then have "sorted_wrt (<) ?zs" using a(2) strict_sorted_iff by blast
  moreover have "drop (n + 2) stack = ?zs @ drop (n + 2) (drop (n + 2) stack)" by (rule append_take_drop_id [symmetric])
  ultimately show ?thesis using a(1) z by blast
qed

lemma live_object_bounds:
  assumes h: "heap_ok s" and a: "area_ok s" and p: "p \<in> live_objects s"
  shows "0 < p \<and> p < 2 ^ 32 - 1"
proof -
  from p consider (small) "p \<in> small_objects s" | (large) "p \<in> large_set s" by (auto simp: live_objects_def gc_objects_def)
  then show ?thesis
  proof cases
    case small
    then obtain r g where g: "r \<in> set (small_regions s)" "g \<in> set (region_headers s r)" "p = g + GC_HEAD" by (auto simp: small_objects_def)
    have "rend r < 2 ^ 32 - 1" using a g(1) unfolding area_ok_def by blast
    then show ?thesis using region_headers_in [OF h a g(1,2)] g(3) by linarith
  next
    case large
    then obtain i where "i < LARGE_SET_SIZE" "p \<in> set (large_objects s i)" by (auto simp: large_set_def)
    then show ?thesis using h a large unfolding heap_ok_def area_ok_def by blast
  qed
qed

lemma sweep_small_selective_rel:
  assumes h: "heap_ok s" and a: "area_ok s" and c: "collected s n" and n: "2 * (n + 2) \<le> length (mark_stack s)"
  shows "\<exists>w stack. sweep_small_selective (small_regions s) (mem s) (mark_stack s) n = Inr (w, stack) \<and> swept_state s w"
proof -
  let ?rs = "small_regions s" and ?L = "region_live (mem s) (usage s)"
  have so: "regions_sorted ?rs" and bd: "\<forall>r\<in>set ?rs. 0 < rstart r \<and> rend r < 2 ^ 32 - 1" using a by (simp_all add: area_ok_def)
  obtain zs junk stack where z: "sort_objects (n + 2) ((mark_stack s)[n := 0, n + 1 := 2 ^ 32 - 1]) = Inr (n + 2, stack)" "drop (n + 2) stack = zs @ junk"
    "sorted_wrt (<) zs" "set zs = insert 0 (insert (2 ^ 32 - 1) (live_objects s))"
    using sorted_objects [OF n c] live_object_bounds [OF h a] by blast
  have lo: "live_ok (mem s) (region_first r) (?L r) (rend r)" if "r \<in> set ?rs" for r
    using region_live_ok heap_blocks_ok [OF h that] so that by (auto simp: regions_sorted_def)
  have fl: "filter (in_region r) zs = map (\<lambda>h. h + GC_HEAD) (?L r)" if r: "r \<in> set ?rs" for r
  proof -
    have "\<not> in_region r 0" "\<not> in_region r (2 ^ 32 - 1)" using bd r by (auto simp: in_region_def)
    then have "set (filter (in_region r) zs) = {x \<in> live_objects s. in_region r x}" using z(4) by auto
    also have "\<dots> = (\<lambda>h. h + GC_HEAD) ` set (?L r)"
    proof (intro set_eqI iffI)
      fix x assume "x \<in> (\<lambda>h. h + GC_HEAD) ` set (?L r)"
      then obtain g where g: "g \<in> set (region_headers s r)" "marked_word (mem s g)" "x = g + GC_HEAD" by (auto simp: region_live_set)
      then have "\<not> free_word (mem s g)" using a r unfolding area_ok_def by blast
      then have "x \<in> live_objects s" using g r by (auto simp: live_objects_def gc_objects_def small_objects_def marked_def)
      then show "x \<in> {x \<in> live_objects s. in_region r x}" using live_in_region [OF h a r] g region_live_set by auto
    qed (use live_in_region [OF h a r] in auto)
    finally have "set (filter (in_region r) zs) = set (map (\<lambda>h. h + GC_HEAD) (?L r))" by simp
    moreover have "sorted_wrt (<) (map (\<lambda>h. h + GC_HEAD) (?L r))" using live_ok_sorted [OF lo [OF r]] by (simp add: sorted_wrt_map)
    ultimately show ?thesis using strict_sorted_equal [of "filter (in_region r) zs"] z(3) by (simp add: sorted_wrt_filter)
  qed
  have zz: "\<exists>z\<in>set zs. \<forall>r\<in>set ?rs. rend r < z" using bd z(4) by (intro bexI [of _ "2 ^ 32 - 1"]) auto
  have fl': "\<forall>r\<in>set ?rs. filter (in_region r) zs = map (\<lambda>h. h + GC_HEAD) (?L r) \<and> live_ok (mem s) (region_first r) (?L r) (rend r)" using fl lo by blast
  have d0: "drop 0 (drop (n + 2) stack) = zs @ junk" using z(2) by simp
  have be: "below {} [] [] ?rs" by (simp add: below_def fresh_def)
  from sweep_regions_selective_rel [OF so d0 z(3) zz fl' start_rel be]
  obtain i' w where w: "sweep_regions_selective (drop (n + 2) stack) ?rs (0, start_sweep (mem s)) = Inr (i', w)" "swept_state s (finish_sweep w)"
    unfolding Un_empty_left append_Nil add_0 using finish_rel [of s] by blast
  moreover have "n + 1 < length (mark_stack s)" using n by simp
  ultimately show ?thesis using z(1) by (simp add: sweep_small_selective_def)
qed

end
