(* ===== verification/GC_Lumps.thy ===== *)
theory GC_Lumps
  imports GC_Memory
begin

text \<open>
  The manual memory manager of \<^verbatim>\<open>runtime/gc.c\<close>, which serves fixed memory and the large objects: best fit
  from segregated free lists, with boundary tags for coalescing. The links of a free list lie in the lumps themselves; here a list is the list of its
  addresses.
\<close>

section \<open>Size classes\<close>

definition SIZECLASS_MAX_SMALLSIZE :: nat where "SIZECLASS_MAX_SMALLSIZE = 1024"
definition SIZECLASS_MAX_EXPONENT :: nat where "SIZECLASS_MAX_EXPONENT = 16"
definition SIZE_CLASSES :: nat where "SIZE_CLASSES = SIZECLASS_MAX_SMALLSIZE div (2 * MEMALIGN) + SIZECLASS_MAX_EXPONENT + 1"

lemmas class_consts = SIZECLASS_MAX_SMALLSIZE_def SIZECLASS_MAX_EXPONENT_def SIZE_CLASSES_def MEMALIGN_def

function size_class_loop :: "nat \<Rightarrow> nat \<Rightarrow> nat" where
  "size_class_loop n c = (if n > SIZECLASS_MAX_SMALLSIZE then size_class_loop (n div 2) (c + 1) else c)"
  by pat_completeness auto
termination by (relation "measure fst") (auto simp: class_consts)

declare size_class_loop.simps [simp del]

definition size_class :: "nat \<Rightarrow> nat" where
  "size_class n =
     (if n \<le> SIZECLASS_MAX_SMALLSIZE then n div (2 * MEMALIGN)
      else if n > SIZECLASS_MAX_SMALLSIZE * 2 ^ SIZECLASS_MAX_EXPONENT then SIZE_CLASSES - 1
      else size_class_loop n (SIZECLASS_MAX_SMALLSIZE div (2 * MEMALIGN)))"

section \<open>Free lists\<close>

record gc_heap =
  lists :: "nat \<Rightarrow> nat list"
  hsize :: nat
  halloc :: nat
  htype :: region_type

definition NEXT_LUMP :: "memory \<Rightarrow> nat \<Rightarrow> nat" where "NEXT_LUMP m p = p + SIZE m p"
definition PREV_LUMP :: "memory \<Rightarrow> nat \<Rightarrow> nat" where "PREV_LUMP m p = p - m (p - 2 * GC_HEAD)"
definition FOOTER :: "nat \<Rightarrow> nat \<Rightarrow> nat" where "FOOTER p n = p + n - 2 * GC_HEAD"

definition find_freelump :: "memory \<Rightarrow> gc_heap \<Rightarrow> nat \<Rightarrow> nat \<Rightarrow> nat option" where
  "find_freelump m h n cl =
     (case dropWhile (\<lambda>p. SIZE m p < n) (lists h cl) of
        p # _ \<Rightarrow> Some p
      | [] \<Rightarrow> (case dropWhile (\<lambda>c. lists h c = []) [cl + 1..<SIZE_CLASSES] of c # _ \<Rightarrow> Some (hd (lists h c)) | [] \<Rightarrow> None))"

definition insert_freelump :: "memory \<Rightarrow> nat \<Rightarrow> nat \<Rightarrow> gc_heap \<Rightarrow> gc_heap" where
  "insert_freelump m lump cl h =
     (let small = (\<lambda>p. SIZE m p < SIZE m lump)
      in h\<lparr>lists := (lists h)(cl := takeWhile small (lists h cl) @ lump # dropWhile small (lists h cl))\<rparr>)"

definition remove_freelump :: "nat \<Rightarrow> nat \<Rightarrow> gc_heap \<Rightarrow> gc_heap result" where
  "remove_freelump lump cl h =
     (if lump \<in> set (lists h cl) then Inr (h\<lparr>lists := (lists h)(cl := remove1 lump (lists h cl))\<rparr>) else Inl C_undefined)"

definition mem_init :: "region_type \<Rightarrow> gc_heap" where
  "mem_init ty = \<lparr>lists = (\<lambda>_. []), hsize = 0, halloc = 0, htype = ty\<rparr>"

section \<open>Allocation\<close>

text \<open>The size of the lump for a request, in 32-bit arithmetic; builds with the translator add eight bytes.\<close>

definition lump_size :: "nat \<Rightarrow> nat" where
  "lump_size sz = (sz + MEMALIGN + GC_HEAD + 2 * MEMALIGN - 1) mod 2 ^ 32 div (2 * MEMALIGN) * (2 * MEMALIGN)"

definition set_size :: "nat \<Rightarrow> nat \<Rightarrow> memory \<Rightarrow> memory" where
  "set_size p n m = m(HEADER p := n OR take_bit 3 (m (HEADER p)))"

definition set_prev :: "nat \<Rightarrow> memory \<Rightarrow> memory" where
  "set_prev p m = m(HEADER p := set_bit 2 (m (HEADER p)))"

definition clear_prev :: "nat \<Rightarrow> memory \<Rightarrow> memory" where
  "clear_prev p m = m(HEADER p := unset_bit 2 (m (HEADER p)))"

definition clear_words :: "nat \<Rightarrow> nat \<Rightarrow> memory \<Rightarrow> memory" where
  "clear_words p n m = (\<lambda>a. if p \<le> a \<and> a < p + n then 0 else m a)"

definition split_lump :: "nat \<Rightarrow> nat \<Rightarrow> gc_heap \<times> memory \<Rightarrow> gc_heap \<times> memory" where
  "split_lump p n hm =
     (case hm of (h, m) \<Rightarrow>
        if SIZE m p > n then
          let t = p + n; s = SIZE m p - n;
              m = m(FOOTER t s := s, HEADER t := s);
              h = insert_freelump m t (size_class s) h
          in (h, set_size p n m)
        else (h, m))"

definition mem_allocate :: "nat \<Rightarrow> gc_heap \<times> memory \<Rightarrow> (nat option \<times> gc_heap \<times> memory) result" where
  "mem_allocate sz hm =
     (case hm of (h, m) \<Rightarrow>
        let n = lump_size sz
        in case find_freelump m h n (size_class n) of
             None \<Rightarrow> Inr (None, h, m)
           | Some p \<Rightarrow>
               bind_result (remove_freelump p (size_class (SIZE m p)) h) (\<lambda>h.
               let (h, m) = split_lump p n (h, m);
                   m = set_prev (NEXT_LUMP m p) m;
                   m = clear_words p (n - GC_HEAD) m
               in Inr (Some p, h\<lparr>halloc := halloc h + n\<rparr>, m)))"

section \<open>Release\<close>

definition merge_prev :: "nat \<Rightarrow> gc_heap \<times> memory \<Rightarrow> (nat \<times> gc_heap \<times> memory) result" where
  "merge_prev p hm =
     (case hm of (h, m) \<Rightarrow>
        if \<not> prev_word (m (HEADER p)) then
          let prev = PREV_LUMP m p
          in bind_result (remove_freelump prev (size_class (SIZE m prev)) h) (\<lambda>h. Inr (prev, h, set_size prev (SIZE m prev + SIZE m p) m))
        else Inr (p, h, m))"

definition merge_next :: "nat \<Rightarrow> gc_heap \<times> memory \<Rightarrow> (gc_heap \<times> memory) result" where
  "merge_next p hm =
     (case hm of (h, m) \<Rightarrow>
        if \<not> prev_word (m (HEADER (NEXT_LUMP m (NEXT_LUMP m p)))) then
          let nx = NEXT_LUMP m p
          in bind_result (remove_freelump nx (size_class (SIZE m nx)) h) (\<lambda>h. Inr (h, set_size p (SIZE m p + SIZE m nx) m))
        else Inr (h, m))"

definition mem_free :: "nat \<Rightarrow> gc_heap \<times> memory \<Rightarrow> (gc_heap \<times> memory) result" where
  "mem_free p hm =
     (if p = 0 then Inr hm
      else bind_result (merge_prev p hm) (\<lambda>(p, hm).
           bind_result (merge_next p hm) (\<lambda>(h, m).
           let m = m(FOOTER p (SIZE m p) := SIZE m p);
               m = clear_prev (NEXT_LUMP m p) m
           in Inr (insert_freelump m p (size_class (SIZE m p)) h, m))))"

definition copy_words :: "nat \<Rightarrow> nat \<Rightarrow> nat \<Rightarrow> memory \<Rightarrow> memory" where
  "copy_words t p n m = (\<lambda>a. if t \<le> a \<and> a < t + n then m (p + (a - t)) else m a)"

definition mem_resize :: "nat \<Rightarrow> nat \<Rightarrow> gc_heap \<times> memory \<Rightarrow> (nat option \<times> gc_heap \<times> memory) result" where
  "mem_resize p sz hm =
     (if p = 0 then mem_allocate sz hm
      else bind_result (mem_allocate sz hm) (\<lambda>(t, h, m).
        case t of None \<Rightarrow> Inr (None, h, m)
        | Some t \<Rightarrow>
            let n = (if sz > SIZE m p - GC_HEAD then SIZE m p - GC_HEAD else sz)
            in bind_result (mem_free p (h, copy_words t p n m)) (\<lambda>(h, m). Inr (Some t, h\<lparr>halloc := halloc h + sz\<rparr>, m))))"

section \<open>Growth\<close>

definition ROUNDUPREGIONSIZE :: "nat \<Rightarrow> nat" where
  "ROUNDUPREGIONSIZE v = (v + GC_REGIONSIZE - 1) mod 2 ^ 32 div GC_REGIONSIZE * GC_REGIONSIZE"

text \<open>The headers and the footer of a new region.\<close>

definition format_region :: "nat \<Rightarrow> nat \<Rightarrow> memory \<Rightarrow> memory" where
  "format_region p n m = m(HEADER p := set_bit 2 n, FOOTER p n := n, HEADER (p + n) := MEMALIGN, HEADER (p + n + MEMALIGN) := set_bit 2 0)"

record gmem =
  gmem :: memory
  gregions :: "region list"
  gos :: os
  gused :: nat
  gc_heap_limit :: nat

definition mem_expand :: "nat \<Rightarrow> gc_heap \<times> gmem \<Rightarrow> (bool \<times> gc_heap \<times> gmem) result" where
  "mem_expand sz hg =
     (case hg of (h, g) \<Rightarrow>
        let rsize = ROUNDUPREGIONSIZE (sz + 6 * MEMALIGN)
        in bind_result (region_allocate (gc_heap_limit g) (gused g) rsize (htype h) (gregions g, gos g)) (\<lambda>(r, rs, s).
           case r of None \<Rightarrow> Inr (False, h, g\<lparr>gregions := rs, gos := s\<rparr>)
           | Some r \<Rightarrow>
               let n = rsize - 6 * MEMALIGN; p = rstart r + 2 * MEMALIGN;
                   m = format_region p n (gmem g);
                   h = insert_freelump m p (size_class n) h
               in Inr (True, h\<lparr>hsize := hsize h + rsize\<rparr>, g\<lparr>gmem := m, gregions := rs, gos := s, gused := gused g + rsize\<rparr>)))"

section \<open>Fixed memory\<close>

text \<open>What \<open>gc_malloc_fixed\<close> and \<open>gc_realloc_fixed\<close> do after a failed attempt; \<open>alloc\<close> is the attempt.\<close>

definition with_expansion ::
    "(gc_heap \<times> memory \<Rightarrow> (nat option \<times> gc_heap \<times> memory) result) \<Rightarrow> nat \<Rightarrow> gc_heap \<times> gmem \<Rightarrow> (nat \<times> gc_heap \<times> gmem) result" where
  "with_expansion alloc sz hg =
     (case hg of (h, g) \<Rightarrow>
        bind_result (alloc (h, gmem g)) (\<lambda>(p, h, m).
        case p of Some p \<Rightarrow> Inr (p, h, g\<lparr>gmem := m\<rparr>)
        | None \<Rightarrow>
            bind_result (mem_expand sz (h, g\<lparr>gmem := m\<rparr>)) (\<lambda>(ok, h, g).
            if \<not> ok then Inl OutOfMemoryError
            else bind_result (alloc (h, gmem g)) (\<lambda>(p, h, m).
              case p of Some p \<Rightarrow> Inr (p, h, g\<lparr>gmem := m\<rparr>) | None \<Rightarrow> Inl C_undefined))))"

definition gc_malloc_fixed :: "nat \<Rightarrow> gc_heap \<times> gmem \<Rightarrow> (nat \<times> gc_heap \<times> gmem) result" where
  "gc_malloc_fixed sz hg =
     bind_result (with_expansion (mem_allocate sz) sz hg) (\<lambda>(p, h, g). Inr (p, h, g\<lparr>gmem := set_mark p (gmem g)\<rparr>))"

definition gc_realloc_fixed :: "nat \<Rightarrow> nat \<Rightarrow> gc_heap \<times> gmem \<Rightarrow> (nat \<times> gc_heap \<times> gmem) result" where
  "gc_realloc_fixed p sz hg =
     bind_result (with_expansion (mem_resize p sz) sz hg) (\<lambda>(p, h, g). Inr (p, h, g\<lparr>gmem := set_mark p (gmem g)\<rparr>))"

definition gc_free :: "nat \<Rightarrow> gc_heap \<times> gmem \<Rightarrow> (gc_heap \<times> gmem) result" where
  "gc_free p hg = (case hg of (h, g) \<Rightarrow> bind_result (mem_free p (h, gmem g)) (\<lambda>(h, m). Inr (h, g\<lparr>gmem := m\<rparr>)))"

end
