(* ===== verification/GC_Heap.thy ===== *)
theory GC_Heap
  imports GC_Sweep GC_Lumps
begin

text \<open>
  The memory manager as a whole, from \<^verbatim>\<open>runtime/gc.c\<close>: allocation of small and of large objects, the preparation of a
  collection, the sweep of the large objects, the growth of the heap, and one collection of the collector thread. \<open>gc_invoke\<close> blocks its
  caller until the collector thread has run; here the collection takes place in the call, with collection enabled,
  and the roots are a parameter.
\<close>

section \<open>State\<close>

text \<open>
  \<open>core\<close> is the memory with the region table, the large object table and the mark stack. The statistics that decide about growth are kept
  with the heaps they count; the sizes are natural numbers.
\<close>

record gcheap =
  core :: gcs
  hos :: os
  limit :: nat
  heap_size :: nat
  small_cursor :: nat
  small_bound :: nat
  chunk_list :: "nat list"
  block_list :: "nat list"
  small_size :: nat
  small_alloc :: int
  table_pos :: nat
  fixed_heap :: gc_heap
  large_heap :: gc_heap

definition hmem :: "gcheap \<Rightarrow> memory" where
  "hmem g = mem (core g)"

definition set_mem :: "memory \<Rightarrow> gcheap \<Rightarrow> gcheap" where
  "set_mem m g = g\<lparr>core := (core g)\<lparr>mem := m\<rparr>\<rparr>"

definition HEAPSIZE :: "gcheap \<Rightarrow> nat" where
  "HEAPSIZE g = small_size g + hsize (large_heap g)"

definition MEMORYSIZE :: "gcheap \<Rightarrow> nat" where
  "MEMORYSIZE g = small_size g + hsize (large_heap g) + hsize (fixed_heap g)"

text \<open>What the manual memory manager sees, and the state after it has worked.\<close>

definition view :: "gcheap \<Rightarrow> gmem" where
  "view g = \<lparr>gmem = hmem g, gregions = regions (core g), gos = hos g, gused = MEMORYSIZE g, gc_heap_limit = limit g\<rparr>"

definition update :: "gmem \<Rightarrow> gcheap \<Rightarrow> gcheap" where
  "update v g = g\<lparr>core := (core g)\<lparr>mem := gmem v, regions := gregions v\<rparr>, hos := gos v\<rparr>"

section \<open>The small object area\<close>

definition SMALL_BLOCKS_TABLE_SIZE :: nat where
  "SMALL_BLOCKS_TABLE_SIZE = 128 * (GC_REGIONSIZE div (GC_BLOCKSIZE * 4 * 8))"

definition insert_small_region :: "region \<Rightarrow> region list \<Rightarrow> region list" where
  "insert_small_region r rs =
     (let after = takeWhile (\<lambda>n. \<not> rstart n < rstart r) (rev rs); before = dropWhile (\<lambda>n. \<not> rstart n < rstart r) (rev rs)
      in rev before @ r # rev after)"

text \<open>The block usage tables are cut from a static array and, when it is used up, from fixed memory.\<close>

definition new_table :: "gcheap \<Rightarrow> gcheap result" where
  "new_table g =
     (if table_pos g \<ge> SMALL_BLOCKS_TABLE_SIZE
      then bind_result (gc_malloc_fixed (SMALL_BLOCKS_TABLE_SIZE * 4) (fixed_heap g, view g)) (\<lambda>(p, h, v).
           Inr ((update v g)\<lparr>fixed_heap := h, table_pos := 0\<rparr>))
      else Inr g)"

definition expand_small_area :: "gcheap \<Rightarrow> gcheap result" where
  "expand_small_area g =
     bind_result (region_allocate (limit g) (MEMORYSIZE g) GC_REGIONSIZE GC_REGION_SMALL (regions (core g), hos g)) (\<lambda>(r, rs, s).
     let g = g\<lparr>core := (core g)\<lparr>regions := rs\<rparr>, hos := s\<rparr>
     in case r of None \<Rightarrow> Inr g
        | Some r \<Rightarrow>
            bind_result (new_table g) (\<lambda>g.
            Inr (g\<lparr>table_pos := table_pos g + GC_REGIONSIZE div (GC_BLOCKSIZE * 8),
                   core := (core g)\<lparr>small_regions := insert_small_region r (small_regions (core g)), mem := (hmem g)(rstart r := GC_REGIONSIZE)\<rparr>,
                   block_list := [rstart r], small_size := small_size g + GC_REGIONSIZE\<rparr>)))"

definition get_small_block :: "gcheap \<Rightarrow> nat \<times> gcheap" where
  "get_small_block g =
     (let block = hd (block_list g)
      in (block,
          if hmem g block = GC_BLOCKSIZE then g\<lparr>block_list := tl (block_list g)\<rparr>
          else (set_mem ((hmem g)(block + GC_BLOCKSIZE := hmem g block - GC_BLOCKSIZE)) g)
            \<lparr>block_list := (block + GC_BLOCKSIZE) # tl (block_list g)\<rparr>))"

definition use_area :: "nat \<Rightarrow> nat \<Rightarrow> nat \<Rightarrow> gcheap \<Rightarrow> gcheap" where
  "use_area cursor bound sz g =
     g\<lparr>small_cursor := cursor + sz, small_bound := bound, small_alloc := small_alloc g + (int bound - int cursor)\<rparr>"

definition get_small_chunk :: "nat \<Rightarrow> gcheap \<Rightarrow> nat option \<times> gcheap" where
  "get_small_chunk sz g =
     (if chunk_list g \<noteq> [] \<and> unset_bit 1 (hmem g (hd (chunk_list g))) \<ge> sz then
        let cursor = hd (chunk_list g); bound = cursor + unset_bit 1 (hmem g cursor)
        in (Some cursor, use_area cursor bound sz (g\<lparr>chunk_list := tl (chunk_list g)\<rparr>))
      else if block_list g \<noteq> [] then
        let (block, g) = get_small_block g; cursor = block + (MEMALIGN - GC_HEAD); bound = block + (GC_BLOCKSIZE - GC_HEAD)
        in (Some cursor, use_area cursor bound sz g)
      else (None, g))"

text \<open>The header that makes the rest of the current area a free chunk.\<close>

definition close_area :: "gcheap \<Rightarrow> gcheap" where
  "close_area g =
     (if small_cursor g < small_bound g
      then (set_mem ((hmem g)(small_cursor g := set_bit 1 (small_bound g - small_cursor g))) g)
        \<lparr>small_alloc := small_alloc g - (int (small_bound g) - int (small_cursor g))\<rparr>
      else g)"

section \<open>Collection\<close>

definition set_unused :: "nat \<Rightarrow> uint32 list \<Rightarrow> uint32 list result" where
  "set_unused pos tab =
     (if pos div 32 < length tab then Inr (tab[pos div 32 := tab ! (pos div 32) AND NOT (push_bit (pos mod 32) 1)]) else Inl C_undefined)"

fun clear_blocks :: "region \<Rightarrow> nat list \<Rightarrow> uint32 list \<Rightarrow> uint32 list result" where
  "clear_blocks r [] tab = Inr tab"
| "clear_blocks r (a # as) tab = bind_result (set_unused ((a - rstart r) div GC_BLOCKSIZE) tab) (clear_blocks r as)"

text \<open>The loop over the free blocks of one region: the blocks that remain and the usage table.\<close>

fun prepare_region :: "memory \<Rightarrow> region \<Rightarrow> nat list \<Rightarrow> uint32 list \<Rightarrow> (nat list \<times> uint32 list) result" where
  "prepare_region m r [] tab = Inr ([], tab)"
| "prepare_region m r (b # bs) tab =
     (if rstart r \<le> b \<and> b < rend r
      then bind_result (clear_blocks r (map (\<lambda>i. b + i * GC_BLOCKSIZE) [0..<(m b + GC_BLOCKSIZE - 1) div GC_BLOCKSIZE]) tab) (prepare_region m r bs)
      else Inr (b # bs, tab))"

fun prepare_regions :: "memory \<Rightarrow> region list \<Rightarrow> nat list \<Rightarrow> (nat \<Rightarrow> uint32 list) \<Rightarrow> (nat \<Rightarrow> uint32 list) result" where
  "prepare_regions m [] bs us = Inr us"
| "prepare_regions m (r # rs) bs us =
     bind_result (prepare_region m r bs (replicate (GC_REGIONSIZE div (GC_BLOCKSIZE * 32)) (- 1))) (\<lambda>(bs, tab).
     prepare_regions m rs bs (us(rstart r := tab)))"

definition prepare_gc_small :: "gcheap \<Rightarrow> gcheap result" where
  "prepare_gc_small g =
     (let g = (close_area g)\<lparr>small_cursor := 0, small_bound := 0\<rparr>
      in bind_result (prepare_regions (hmem g) (small_regions (core g)) (block_list g) (usage (core g))) (\<lambda>us.
         Inr (g\<lparr>core := (core g)\<lparr>usage := us\<rparr>\<rparr>)))"

text \<open>The sweep of one chain of the large object table: the objects that stay, and the heap.\<close>

fun sweep_chain :: "nat list \<Rightarrow> gc_heap \<times> memory \<Rightarrow> (nat list \<times> gc_heap \<times> memory) result" where
  "sweep_chain [] hm = Inr ([], hm)"
| "sweep_chain (p # ps) hm =
     (case hm of (h, m) \<Rightarrow>
        if marked m p then bind_result (sweep_chain ps (h, clear_mark p m)) (\<lambda>(qs, hm). Inr (p # qs, hm))
        else bind_result (mem_free p (h, m)) (sweep_chain ps))"

fun sweep_chains :: "nat list \<Rightarrow> (nat \<Rightarrow> nat list) \<times> gc_heap \<times> memory \<Rightarrow> ((nat \<Rightarrow> nat list) \<times> gc_heap \<times> memory) result" where
  "sweep_chains [] st = Inr st"
| "sweep_chains (i # is) st =
     (case st of (tab, hm) \<Rightarrow> bind_result (sweep_chain (tab i) hm) (\<lambda>(ps, hm). sweep_chains is (tab(i := ps), hm)))"

definition sweep_large :: "gcheap \<Rightarrow> gcheap result" where
  "sweep_large g =
     bind_result (sweep_chains [0..<LARGE_SET_SIZE] (large_objects (core g), large_heap g, hmem g)) (\<lambda>(tab, h, m).
     Inr (g\<lparr>core := (core g)\<lparr>large_objects := tab, mem := m\<rparr>, large_heap := h\<rparr>))"

definition sweep_phase :: "gcheap \<Rightarrow> (nat \<times> gcheap) result option" where
  "sweep_phase g =
     and_then (sweep_small (core g)) (\<lambda>(w, c).
     and_then (Some (sweep_large (g\<lparr>core := c, chunk_list := small_chunks w, block_list := small_blocks w\<rparr>))) (\<lambda>g. Some (Inr (kept w, g))))"

definition expand_heap :: "nat \<Rightarrow> gcheap \<Rightarrow> gcheap" where
  "expand_heap bytes g =
     (let amount = int bytes - small_alloc g;
          target = (if amount > 0 then ROUNDUPREGIONSIZE (nat amount) + heap_size g else heap_size g);
          lim = ROUNDUPREGIONSIZE (limit g)
      in g\<lparr>limit := lim, heap_size := (if target + hsize (fixed_heap g) > lim then lim - hsize (fixed_heap g) else target)\<rparr>)"

text \<open>One turn of the loop of \<open>gc_main\<close>; \<open>lack\<close> says that space ran out. The mark phase is told the size of the heap. The finalizer thread, which is woken at the end, is not part of the state.\<close>

definition gc_collect :: "(nat \<Rightarrow> walkfn) \<Rightarrow> groots \<Rightarrow> bool \<Rightarrow> gcheap \<Rightarrow> gcheap result option" where
  "gc_collect ct r lack g =
     and_then (Some (prepare_gc_small g)) (\<lambda>g.
     and_then (mark_phase ct r (HEAPSIZE g) (core g)) (\<lambda>c.
     and_then (sweep_phase (g\<lparr>core := c\<rparr>)) (\<lambda>(bytes, g).
     let g = (if lack then expand_heap bytes g else g)
     in Some (Inr (g\<lparr>small_alloc := 0, large_heap := (large_heap g)\<lparr>halloc := 0\<rparr>, fixed_heap := (fixed_heap g)\<lparr>halloc := 0\<rparr>\<rparr>)))))"

section \<open>Allocation of objects\<close>

definition slow_small_allocate :: "(nat \<Rightarrow> walkfn) \<Rightarrow> groots \<Rightarrow> nat \<Rightarrow> gcheap \<Rightarrow> (nat \<times> gcheap) result option" where
  "slow_small_allocate ct r sz g =
     (let expand_and_get = (\<lambda>g. and_then (Some (expand_small_area g)) (\<lambda>g.
            case get_small_chunk sz g of (Some p, g) \<Rightarrow> Some (Inr (p, g)) | (None, _) \<Rightarrow> Some (Inl OutOfMemoryError)))
      in case get_small_chunk sz (close_area g) of
           (Some p, g) \<Rightarrow> Some (Inr (p, g))
         | (None, g) \<Rightarrow>
             if HEAPSIZE g + GC_REGIONSIZE \<le> heap_size g then expand_and_get g
             else
               and_then (gc_collect ct r True (g\<lparr>small_cursor := 0, small_bound := 0\<rparr>)) (\<lambda>g.
               case get_small_chunk sz (close_area g) of
                 (Some p, g) \<Rightarrow> Some (Inr (p, g))
               | (None, g) \<Rightarrow> expand_and_get g))"

definition gc_malloc_small :: "(nat \<Rightarrow> walkfn) \<Rightarrow> groots \<Rightarrow> nat \<Rightarrow> gcheap \<Rightarrow> (nat \<times> gcheap) result option" where
  "gc_malloc_small ct r sz g =
     (let tmp = small_cursor g
      in and_then (if tmp + sz > small_bound g then slow_small_allocate ct r sz g else Some (Inr (tmp, g\<lparr>small_cursor := tmp + sz\<rparr>))) (\<lambda>(tmp, g).
         Some (Inr (tmp + GC_HEAD, set_mem ((clear_words tmp sz (hmem g))(tmp := sz)) g))))"

definition large_set_add :: "nat \<Rightarrow> gcs \<Rightarrow> gcs" where
  "large_set_add p c = (let i = large_set_hash p mod LARGE_SET_SIZE in c\<lparr>large_objects := (large_objects c)(i := p # large_objects c i)\<rparr>)"

text \<open>The node of the table lies behind the object, in twelve more bytes.\<close>

definition gc_malloc_large :: "(nat \<Rightarrow> walkfn) \<Rightarrow> groots \<Rightarrow> nat \<Rightarrow> gcheap \<Rightarrow> (nat \<times> gcheap) result option" where
  "gc_malloc_large ct r sz g =
     (let n = sz + 12;
          try = (\<lambda>g. bind_result (mem_allocate n (large_heap g, hmem g)) (\<lambda>(p, h, m). Inr (p, (set_mem m g)\<lparr>large_heap := h\<rparr>)));
          expand = (\<lambda>g. bind_result (mem_expand n (large_heap g, view g)) (\<lambda>(ok, h, v).
            if \<not> ok then Inl OutOfMemoryError
            else bind_result (try ((update v g)\<lparr>large_heap := h\<rparr>)) (\<lambda>(p, g). case p of None \<Rightarrow> Inl C_undefined | Some p \<Rightarrow> Inr (p, g))))
      in and_then (Some (try g)) (\<lambda>(p, g).
         and_then
           (case p of
              Some p \<Rightarrow> Some (Inr (p, g))
            | None \<Rightarrow>
                if HEAPSIZE g + sz < heap_size g then Some (expand g)
                else
                  and_then (gc_collect ct r True g) (\<lambda>g.
                  and_then (Some (try g)) (\<lambda>(p, g). Some (case p of Some p \<Rightarrow> Inr (p, g) | None \<Rightarrow> expand g))))
           (\<lambda>(p, g). Some (Inr (p, g\<lparr>core := large_set_add p (core g)\<rparr>)))))"

end
