(* ===== verification/GC_Regions.thy ===== *)
theory GC_Regions
  imports GC_Reclaim GC_Heap
begin

text \<open>
  The small object area after a sweep: its blocks are chains of the live objects and of free chunks again, and the usage tables that the next
  preparation computes from the free blocks say which blocks are in use.
\<close>

section \<open>The structure of the free memory\<close>

definition increasing :: "(nat \<times> nat) list \<Rightarrow> bool" where
  "increasing cs \<longleftrightarrow> sorted_wrt (<) (map fst cs)"

lemma increasing_append: "increasing (cs @ ds) \<longleftrightarrow> increasing cs \<and> increasing ds \<and> (\<forall>x\<in>keys cs. \<forall>y\<in>keys ds. x < y)"
  by (auto simp: increasing_def sorted_wrt_append keys_def)

lemma increasing_simps [simp]: "increasing []" "increasing (span a e)"
  by (simp_all add: increasing_def span_def)

lemma increasing_map_of: "increasing cs \<Longrightarrow> (a, n) \<in> set cs \<Longrightarrow> map_of cs a = Some n"
  by (rule map_of_is_SomeI) (auto simp: increasing_def strict_sorted_iff)

lemma first_part_increasing [simp]: "increasing (first_part g)"
  by (simp add: first_part_def)

lemma keys_first_part: "x \<in> keys (first_part g) \<longleftrightarrow> x = g \<and> \<not> at_first g \<and> g < block_base g + 4092"
  by (auto simp: first_part_def span_keys gc_consts)

lemma gap_chunks_facts:
  assumes "g mod 8 = 4" "h mod 8 = 4" "g \<le> h"
  shows "increasing (gap_chunks g h)" "a \<in> keys (gap_chunks g h) \<Longrightarrow> g \<le> a \<and> a < h \<and> a mod 8 = 4"
proof -
  obtain A x where g: "g = A * 4096 + x" "x < 4096" "4 \<le> x" "x \<le> 4092" by (rule header_parts [OF assms(1)])
  obtain B y where h: "h = B * 4096 + y" "y < 4096" "4 \<le> y" "y \<le> 4092" by (rule header_parts [OF assms(2)])
  have AB: "A \<le> B" using assms(3) g h by (metis block_parts_simps(1) div_le_mono)
  have lt: "g < B * 4096 + 4" if "slack_start g \<le> block_base h" "\<not> at_first g" using that g h by (auto simp: parts_gap)
  show "increasing (gap_chunks g h)" unfolding gap_chunks_def increasing_append
    using lt h by (auto simp: increasing_append span_keys keys_first_part parts_gap gc_consts)
  assume a: "a \<in> keys (gap_chunks g h)"
  have "a = g \<or> a = B * 4096 + 4 \<and> slack_start g \<le> block_base h" using a h unfolding gap_chunks_def
    by (auto simp: span_keys keys_first_part parts_gap gc_consts split: if_splits)
  moreover have "g \<le> B * 4096 + 4" if "slack_start g \<le> block_base h" using that g h by (auto simp: parts_gap split: if_splits)
  ultimately show "g \<le> a \<and> a < h \<and> a mod 8 = 4" using gap_chunks_less [OF assms a] assms by auto
qed

definition inside :: "memory \<Rightarrow> nat list \<Rightarrow> nat \<Rightarrow> bool" where
  "inside m L a \<longleftrightarrow> (\<exists>h\<in>set L. h \<le> a \<and> a < h + size_word (m h))"

lemma free_chunks_facts:
  "live_ok m g L e \<Longrightarrow> g mod 8 = 4 \<Longrightarrow> increasing (free_chunks m g L) \<and> (\<forall>a\<in>keys (free_chunks m g L). g \<le> a \<and> a < e \<and> a mod 8 = 4 \<and> \<not> inside m L a)"
proof (induction L arbitrary: g)
  case Nil
  then show ?case by (auto simp: keys_first_part inside_def)
next
  case (Cons h L)
  let ?t = "h + size_word (m h)"
  have l: "g \<le> h" "h + GC_HEAD < e" "in_block m h" "live_ok m ?t L e" using Cons.prems(1) by simp_all
  note d = in_blockD [OF l(3)] and gf = gap_chunks_facts [OF Cons.prems(2) d(1) l(1)] and IH = Cons.IH [OF l(4) d(2)]
  have "x < y" if "x \<in> keys (gap_chunks g h)" "y \<in> keys (free_chunks m ?t L)" for x y
    using that gf(2) [of x] IH d(4) by fastforce
  then have "increasing (free_chunks m g (h # L))" using gf(1) IH by (simp add: increasing_append)
  moreover have "g \<le> a \<and> a < e \<and> a mod 8 = 4 \<and> \<not> inside m (h # L) a" if a: "a \<in> keys (free_chunks m g (h # L))" for a
  proof (cases "a \<in> keys (gap_chunks g h)")
    case True
    then have "g \<le> a" "a < h" "a mod 8 = 4" using gf(2) by simp_all
    moreover have "\<not> inside m L a" using live_ok_bound [OF l(4)] \<open>a < h\<close> d(4) by (fastforce simp: inside_def)
    ultimately show ?thesis using l(2) by (auto simp: inside_def)
  next
    case False
    then have "a \<in> keys (free_chunks m ?t L)" using a by simp
    then have "?t \<le> a" "a < e" "a mod 8 = 4" "\<not> inside m L a" using IH by blast+
    then show ?thesis using l(1) d(4) by (auto simp: inside_def)
  qed
  ultimately show ?case by blast
qed

definition run_ok :: "nat \<Rightarrow> nat \<Rightarrow> nat \<times> nat \<Rightarrow> bool" where
  "run_ok lo e c \<longleftrightarrow> lo \<le> fst c \<and> fst c + snd c \<le> e \<and> fst c mod 4096 = 0 \<and> snd c mod 4096 = 0 \<and> 0 < snd c"

lemma span_run_ok:
  assumes "c \<in> set (span a e)" "a mod 4096 = 0" "e mod 4096 = 0"
  shows "run_ok a e c"
proof -
  have "(e - a) mod 4096 = 0" using assms(2,3) by (metis dvd_diff_nat dvd_eq_mod_eq_0)
  then show ?thesis using assms by (auto simp: span_def run_ok_def split: if_splits)
qed

lemma slack_start_block: "slack_start g mod 4096 = 0"
  by (simp add: slack_start_def block_base_def gc_consts)

lemma slack_start_le:
  assumes "g mod 8 = 4" "h mod 8 = 4" "g \<le> h"
  shows "slack_start g \<le> block_base h + 4096"
proof -
  have "block_base g \<le> block_base h" using assms(3) unfolding block_base_def gc_consts by (intro mult_le_mono1 div_le_mono)
  then show ?thesis by (simp add: slack_start_def gc_consts)
qed

lemma free_blocks_facts:
  "live_ok m g L e \<Longrightarrow> g mod 8 = 4 \<Longrightarrow> e mod 4096 = 0 \<Longrightarrow> increasing (free_blocks m g L e) \<and> (\<forall>c\<in>set (free_blocks m g L e). run_ok (slack_start g) e c)"
proof (induction L arbitrary: g)
  case Nil
  then show ?case using span_run_ok slack_start_block by simp
next
  case (Cons h L)
  let ?t = "h + size_word (m h)"
  have l: "g \<le> h" "h + GC_HEAD < e" "in_block m h" "live_ok m ?t L e" using Cons.prems(1) by simp_all
  note d = in_blockD [OF l(3)] and IH = Cons.IH [OF l(4) in_blockD(2) [OF l(3)] Cons.prems(3)]
  have ts: "slack_start ?t = block_base h + 4096" using d(3,6) by (simp add: slack_start_def gc_consts)
  have he: "block_base h < e" using l(2) by (simp add: block_base_def gc_consts)
  have gb: "run_ok (slack_start g) (block_base h) c" if "c \<in> set (gap_blocks g h)" for c
  proof (rule span_run_ok)
    show "c \<in> set (span (slack_start g) (block_base h))" using that by (auto simp: gap_blocks_def split: if_splits)
    show "block_base h mod 4096 = 0" by (simp add: block_base_def gc_consts)
  qed (rule slack_start_block)
  have "increasing (gap_blocks g h)" by (simp add: gap_blocks_def)
  moreover have "x < y" if "x \<in> keys (gap_blocks g h)" "y \<in> keys (free_blocks m ?t L e)" for x y
  proof -
    have "x < block_base h" using that(1) gb by (fastforce simp: keys_def run_ok_def)
    moreover have "block_base h + 4096 \<le> y" using that(2) IH ts by (fastforce simp: keys_def run_ok_def)
    ultimately show ?thesis by linarith
  qed
  moreover have "run_ok (slack_start g) e c" if "c \<in> set (free_blocks m g (h # L) e)" for c
    using that gb [of c] IH ts slack_start_le [OF Cons.prems(2) d(1) l(1)] he by (fastforce simp: run_ok_def)
  ultimately show ?case using IH by (simp add: increasing_append)
qed

definition covered :: "(nat \<times> nat) list \<Rightarrow> nat \<Rightarrow> bool" where
  "covered bs b \<longleftrightarrow> (\<exists>c\<in>set bs. fst c \<le> b \<and> b < fst c + snd c)"

lemma covered_simps [simp]: "covered [] b = False" "covered (cs @ ds) b \<longleftrightarrow> covered cs b \<or> covered ds b" "covered (span a e) b \<longleftrightarrow> a \<le> b \<and> b < e"
  by (auto simp: covered_def span_def)

lemma free_blocks_covered:
  "live_ok m g L e \<Longrightarrow> g mod 8 = 4 \<Longrightarrow> b mod 4096 = 0 \<Longrightarrow> covered (free_blocks m g L e) b \<longleftrightarrow> slack_start g \<le> b \<and> b < e \<and> (\<forall>h\<in>set L. block_base h \<noteq> b)"
proof (induction L arbitrary: g)
  case (Cons h L)
  let ?t = "h + size_word (m h)"
  have l: "g \<le> h" "h + GC_HEAD < e" "in_block m h" "live_ok m ?t L e" using Cons.prems(1) by simp_all
  note d = in_blockD [OF l(3)] and IH = Cons.IH [OF l(4) in_blockD(2) [OF l(3)] Cons.prems(3)]
  have ts: "slack_start ?t = block_base h + 4096" using d(3,6) by (simp add: slack_start_def gc_consts)
  have he: "block_base h < e" using l(2) by (simp add: block_base_def gc_consts)
  have later: "block_base h \<le> block_base x" if "x \<in> set L" for x
  proof -
    have "h \<le> x" using live_ok_bound [OF l(4) that] by simp
    then show ?thesis unfolding block_base_def gc_consts by (intro mult_le_mono1 div_le_mono)
  qed
  have gb: "covered (gap_blocks g h) b \<longleftrightarrow> slack_start g \<le> b \<and> b < block_base h" by (auto simp: gap_blocks_def)
  have next_b: "block_base h + 4096 \<le> b \<longleftrightarrow> block_base h < b"
  proof -
    obtain B where B: "b = B * 4096" using Cons.prems(3) by (metis div_mult_mod_eq add_0_right)
    show ?thesis unfolding B block_base_def gc_consts by auto
  qed
  show ?case using IH ts gb next_b he later slack_start_le [OF Cons.prems(2) d(1) l(1)] by fastforce
qed simp

lemma size_word_free: "n mod 8 = 0 \<Longrightarrow> size_word (set_bit 1 n) = n" "free_word (set_bit 1 n)" "n mod 8 = 0 \<Longrightarrow> \<not> marked_word (set_bit 1 n)"
proof -
  show "free_word (set_bit 1 n)" by (simp add: free_word_def bit_set_bit_iff)
  assume n: "n mod 8 = 0"
  then have b: "\<not> bit n i" if "i < 3" for i
  proof -
    have "take_bit 3 n = 0" using n by (simp add: take_bit_eq_mod)
    then show ?thesis using that by (metis bit_0_eq bit_take_bit_iff bot_apply bot_bool_def)
  qed
  then show "\<not> marked_word (set_bit 1 n)" by (simp add: marked_word_def bit_set_bit_iff)
  have "drop_bit 3 (set_bit 1 n) = drop_bit 3 n" by (rule bit_eqI) (simp add: bit_drop_bit_eq bit_set_bit_iff)
  then have "size_word (set_bit 1 n) = size_word n" by (simp add: size_word_def)
  then show "size_word (set_bit 1 n) = n" using n mult_div_mod_eq [of 8 n] by (simp add: size_word_alt)
qed

text \<open>The chunks of a block after the sweep: its live objects and the chunks between them.\<close>

fun tiles :: "memory \<Rightarrow> nat \<Rightarrow> nat list \<Rightarrow> nat \<Rightarrow> nat list" where
  "tiles m g [] e = map fst (span g e)"
| "tiles m g (h # L) e = map fst (span g h) @ h # tiles m (h + size_word (m h)) L e"

definition chunks_at :: "memory \<Rightarrow> (nat \<times> nat) list \<Rightarrow> bool" where
  "chunks_at m cs \<longleftrightarrow> (\<forall>c\<in>set cs. m (fst c) = set_bit 1 (snd c))"

lemma span_chain:
  assumes "chunks_at m' (span g e)" "g mod 8 = 4" "e mod 8 = 4" "g \<le> e" "e \<le> b"
  shows "chunk_headers m' g b = map fst (span g e) @ chunk_headers m' e b" "block_ok m' e b \<Longrightarrow> block_ok m' g b"
proof -
  have "(e - g) mod 8 = 0" if "g < e"
  proof -
    have "e mod 8 = g mod 8" using assms(2,3) by simp
    then show ?thesis using that by (simp add: mod_eq_dvd_iff_nat less_imp_le dvd_eq_mod_eq_0 [symmetric])
  qed
  then have sz: "size_word (m' g) = e - g" if "g < e" using assms(1) that size_word_free(1) by (simp add: chunks_at_def span_def)
  show "chunk_headers m' g b = map fst (span g e) @ chunk_headers m' e b"
  proof (cases "g < e")
    case True
    then show ?thesis using sz assms(5) by (subst chunk_headers.simps) (simp add: span_def)
  qed (use assms(4) in \<open>simp add: span_def\<close>)
  show "block_ok m' g b" if "block_ok m' e b"
  proof (cases "g < e")
    case True
    then show ?thesis using sz assms(5) that by (subst block_ok.simps) simp
  qed (use assms(4) that in simp)
qed

lemma tiles_chain:
  "live_ok m g L (b + 4) \<Longrightarrow> g mod 8 = 4 \<Longrightarrow> b mod 8 = 4 \<Longrightarrow> g \<le> b \<Longrightarrow> end_of m g L \<le> b \<Longrightarrow> chunks_at m' (inner m g L @ span (end_of m g L) b) \<Longrightarrow>
   \<forall>h\<in>set L. size_word (m' h) = size_word (m h) \<Longrightarrow> chunk_headers m' g b = tiles m g L b \<and> block_ok m' g b"
proof (induction L arbitrary: g)
  case Nil
  have "block_ok m' b b" "chunk_headers m' b b = []" by (simp_all add: block_ok.simps chunk_headers.simps)
  then show ?case using span_chain [of m' g b b] Nil by simp
next
  case (Cons h L)
  let ?t = "h + size_word (m h)"
  have l: "g \<le> h" "in_block m h" "live_ok m ?t L (b + 4)" using Cons.prems(1) by simp_all
  note d = in_blockD [OF l(2)]
  have tb: "?t \<le> b" using end_of_mono [OF l(3)] Cons.prems(5) by simp
  have ca: "chunks_at m' (span g h)" "chunks_at m' (inner m ?t L @ span (end_of m ?t L) b)" using Cons.prems(6) by (auto simp: chunks_at_def)
  have IH: "chunk_headers m' ?t b = tiles m ?t L b" "block_ok m' ?t b" using Cons.IH [OF l(3) d(2) Cons.prems(3) tb _ ca(2)] Cons.prems(5,7) by auto
  have hb: "h < b" using tb d(4) by linarith
  have sz: "size_word (m' h) = size_word (m h)" "size_word (m h) \<noteq> 0" using Cons.prems(7) d(4) by auto
  have "chunk_headers m' h b = h # tiles m ?t L b" using hb sz IH(1) by (subst chunk_headers.simps) simp
  moreover have "block_ok m' h b" using hb sz IH(2) by (subst block_ok.simps) simp
  ultimately show ?case using span_chain [OF ca(1) Cons.prems(2) d(1) l(1), of b] hb by simp
qed

lemma set_tiles: "set (tiles m g L b) = set L \<union> keys (inner m g L @ span (end_of m g L) b)"
  by (induction L arbitrary: g) (auto simp: keys_def)

text \<open>The chunks of a block are among the chunks of the region.\<close>

lemma free_chunks_append: "set (free_chunks m (end_of m g L) M) \<subseteq> set (free_chunks m g (L @ M))"
  by (induction L arbitrary: g) auto

lemma first_part_free:
  assumes "\<forall>h\<in>set M. slack_start g \<le> block_base h"
  shows "set (first_part g) \<subseteq> set (free_chunks m g M)"
  using assms by (cases M) (auto simp: gap_chunks_def)

lemma block_chunks_free:
  assumes "slack_start (end_of m g K) \<le> b" "L \<noteq> []" "\<forall>h\<in>set L. block_base h = b \<and> in_block m h" "\<forall>h\<in>set M. b < block_base h" "b mod 4096 = 0"
  shows "set (inner m (b + 4) L @ span (end_of m (b + 4) L) (b + 4092)) \<subseteq> set (free_chunks m g (K @ L @ M))"
proof -
  let ?t = "end_of m (b + 4) L"
  note t = end_of_block [OF assms(3,2), of "b + 4"]
  have fc: "free_chunks m (end_of m g K) (L @ M) = first_part (end_of m g K) @ inner m (b + 4) L @ free_chunks m ?t M"
    by (rule block_chunks(1) [OF assms(1-3)])
  have "slack_start ?t \<le> block_base h" if "h \<in> set M" for h
  proof -
    have "b < block_base h" using assms(4) that by blast
    moreover obtain B where B: "b = B * 4096" using assms(5) by (metis div_mult_mod_eq add_0_right)
    ultimately have "b + 4096 \<le> block_base h" unfolding B block_base_def gc_consts by auto
    then show ?thesis using t by (simp add: slack_start_def gc_consts)
  qed
  then have "set (first_part ?t) \<subseteq> set (free_chunks m ?t M)" by (intro first_part_free) blast
  moreover have "first_part ?t = span ?t (b + 4092)" using t by (simp add: first_part_def gc_consts)
  ultimately have "set (inner m (b + 4) L @ span ?t (b + 4092)) \<subseteq> set (free_chunks m (end_of m g K) (L @ M))" unfolding fc by auto
  then show ?thesis using free_chunks_append [of m g K "L @ M"] by blast
qed

section \<open>The memory after the sweep\<close>

definition swept_by :: "gcs \<Rightarrow> memory" where
  "swept_by s = (let L = region_live (mem s) (usage s); rs = small_regions s
     in swept_memory (mem s) (set (all_live L rs)) (all_chunks (mem s) L rs) (all_blocks (mem s) L rs))"

abbreviation lives :: "gcs \<Rightarrow> region \<Rightarrow> nat list" where
  "lives s \<equiv> region_live (mem s) (usage s)"

lemma lives_ok: "heap_ok s \<Longrightarrow> area_ok s \<Longrightarrow> r \<in> set (small_regions s) \<Longrightarrow> live_ok (mem s) (region_first r) (lives s r) (rend r) \<and> region_aligned r"
  using region_live_ok heap_blocks_ok by (auto simp: area_ok_def regions_sorted_def)

lemma swept_memory_other: "a \<notin> keys cs \<Longrightarrow> a \<notin> keys bs \<Longrightarrow> swept_memory m hs cs bs a = (if a \<in> hs then unset_bit 0 (m a) else m a)"
  using map_of_keys [of cs a] map_of_keys [of bs a] by (simp add: swept_memory_def)

lemma keys_concat: "keys (concat (map f rs)) = (\<Union>r\<in>set rs. keys (f r))"
  by (induction rs) simp_all

lemma all_chunks_facts:
  assumes "regions_sorted rs" "\<forall>r\<in>set rs. live_ok m (region_first r) (L r) (rend r)"
  shows "increasing (all_chunks m L rs)" "increasing (all_blocks m L rs)"
    "a \<in> keys (all_chunks m L rs) \<Longrightarrow> \<exists>r\<in>set rs. rstart r \<le> a \<and> a < rend r" "a \<in> keys (all_blocks m L rs) \<Longrightarrow> \<exists>r\<in>set rs. rstart r \<le> a \<and> a < rend r"
  using assms
proof (induction rs arbitrary: a)
  case (Cons r rs)
  case 1
  have ra: "region_aligned r" "rend r mod 4096 = 0" using "1.prems"(1) by (simp_all add: regions_sorted_def region_aligned_def)
  have lo: "live_ok m (region_first r) (L r) (rend r)" using "1.prems"(2) by simp
  note fc = free_chunks_facts [OF lo region_first(3) [OF ra(1)]]
  have "x < y" if xy: "x \<in> keys (free_chunks m (region_first r) (L r))" "y \<in> keys (all_chunks m L rs)" for x y
  proof -
    have "x < rend r" using fc xy(1) by blast
    moreover obtain r' where "r' \<in> set rs" "rstart r' \<le> y" using Cons.IH(3) [of y] "1.prems" xy(2) by (auto simp: regions_sorted_def)
    ultimately show ?thesis using "1.prems"(1) by (fastforce simp: regions_sorted_def)
  qed
  then show ?case using fc Cons.IH(1) "1.prems" by (simp add: increasing_append regions_sorted_def)
next
  case (Cons r rs)
  case 2
  have ra: "region_aligned r" "rend r mod 4096 = 0" using "2.prems"(1) by (simp_all add: regions_sorted_def region_aligned_def)
  have lo: "live_ok m (region_first r) (L r) (rend r)" using "2.prems"(2) by simp
  note fb = free_blocks_facts [OF lo region_first(3) [OF ra(1)] ra(2)]
  have "x < y" if xy: "x \<in> keys (free_blocks m (region_first r) (L r) (rend r))" "y \<in> keys (all_blocks m L rs)" for x y
  proof -
    have "x < rend r" using fb xy(1) by (fastforce simp: keys_def run_ok_def)
    moreover obtain r' where "r' \<in> set rs" "rstart r' \<le> y" using Cons.IH(4) [of y] "2.prems" xy(2) by (auto simp: regions_sorted_def)
    ultimately show ?thesis using "2.prems"(1) by (fastforce simp: regions_sorted_def)
  qed
  then show ?case using fb Cons.IH(2) "2.prems" by (simp add: increasing_append regions_sorted_def)
next
  case (Cons r rs)
  case 3
  have ra: "region_aligned r" using "3.prems"(2) by (simp add: regions_sorted_def)
  show ?case
  proof (cases "a \<in> keys (free_chunks m (region_first r) (L r))")
    case True
    then have "region_first r \<le> a" "a < rend r" using free_chunks_facts [OF _ region_first(3) [OF ra], of m "L r" "rend r"] "3.prems"(3) by auto
    then show ?thesis by (auto simp: region_first_def)
  next
    case False
    then show ?thesis using Cons.IH(3) [of a] "3.prems" by (auto simp: regions_sorted_def)
  qed
next
  case (Cons r rs)
  case 4
  have ra: "region_aligned r" "rend r mod 4096 = 0" using "4.prems"(2) by (simp_all add: regions_sorted_def region_aligned_def)
  show ?case
  proof (cases "a \<in> keys (free_blocks m (region_first r) (L r) (rend r))")
    case True
    then have "rstart r \<le> a" "a < rend r" using free_blocks_facts [OF _ region_first(3) [OF ra(1)] ra(2), of m "L r"] "4.prems"(3) region_first(5) [OF ra(1)]
      by (fastforce simp: keys_def run_ok_def)+
    then show ?thesis by auto
  next
    case False
    then show ?thesis using Cons.IH(4) [of a] "4.prems" by (auto simp: regions_sorted_def)
  qed
qed simp_all

lemma in_one_region:
  assumes "regions_sorted rs" "r \<in> set rs" "r' \<in> set rs" "rstart r \<le> a" "a < rend r" "rstart r' \<le> a" "a < rend r'"
  shows "r = r'"
  using regions_sorted_disjoint [OF assms(1-3)] assms(4-7) by (metis leD le_trans)

lemma all_keys_region:
  assumes "regions_sorted rs" "\<forall>r\<in>set rs. live_ok m (region_first r) (L r) (rend r)" "r \<in> set rs" "rstart r \<le> a" "a < rend r"
  shows "a \<in> keys (all_chunks m L rs) \<longleftrightarrow> a \<in> keys (free_chunks m (region_first r) (L r))"
    "a \<in> keys (all_blocks m L rs) \<longleftrightarrow> a \<in> keys (free_blocks m (region_first r) (L r) (rend r))"
proof -
  have *: "r' = r" if "r' \<in> set rs" "a \<in> keys (free_chunks m (region_first r') (L r')) \<or> a \<in> keys (free_blocks m (region_first r') (L r') (rend r'))" for r'
  proof (rule in_one_region [OF assms(1) that(1) assms(3) _ _ assms(4,5)])
    have "a \<in> keys (all_chunks m L [r']) \<or> a \<in> keys (all_blocks m L [r'])" using that(2) by simp
    moreover have "regions_sorted [r']" "\<forall>r\<in>set [r']. live_ok m (region_first r) (L r) (rend r)" using assms(1,2) that(1) by (simp_all add: regions_sorted_def)
    ultimately show "rstart r' \<le> a" "a < rend r'" using all_chunks_facts(3,4) [of "[r']" m L a] by auto
  qed
  show "a \<in> keys (all_chunks m L rs) \<longleftrightarrow> a \<in> keys (free_chunks m (region_first r) (L r))"
    unfolding all_chunks_def keys_concat using * assms(3) by blast
  show "a \<in> keys (all_blocks m L rs) \<longleftrightarrow> a \<in> keys (free_blocks m (region_first r) (L r) (rend r))"
    unfolding all_blocks_def keys_concat using * assms(3) by blast
qed

lemma swept_values:
  assumes h: "heap_ok s" and a: "area_ok s" and r: "r \<in> set (small_regions s)"
  shows "(x, n) \<in> set (free_chunks (mem s) (region_first r) (lives s r)) \<Longrightarrow> swept_by s x = set_bit 1 n"
    "g \<in> set (lives s r) \<Longrightarrow> swept_by s g = unset_bit 0 (mem s g)"
    "g \<in> set (lives s r) \<Longrightarrow> g < x \<Longrightarrow> x < g + size_word (mem s g) \<Longrightarrow> x \<notin> set (all_live (lives s) (small_regions s)) \<Longrightarrow> swept_by s x = mem s x"
proof -
  let ?rs = "small_regions s" and ?m = "mem s"
  have so: "regions_sorted ?rs" using a by (simp add: area_ok_def)
  have lo: "\<forall>r\<in>set ?rs. live_ok ?m (region_first r) (lives s r) (rend r)" using lives_ok [OF h a] by blast
  have ra: "region_aligned r" "rend r mod 4096 = 0" using lives_ok [OF h a r] by (auto simp: region_aligned_def)
  note lr = bspec [OF lo r] and ac = all_chunks_facts [OF so lo]
  show "swept_by s x = set_bit 1 n" if "(x, n) \<in> set (free_chunks ?m (region_first r) (lives s r))"
  proof -
    have "(x, n) \<in> set (all_chunks ?m (lives s) ?rs)" using that r by (auto simp: all_chunks_def)
    then show ?thesis using increasing_map_of [OF ac(1)] by (simp add: swept_by_def swept_memory_def Let_def)
  qed
  have nk: "x \<notin> keys (all_chunks ?m (lives s) ?rs) \<and> x \<notin> keys (all_blocks ?m (lives s) ?rs)"
    if g: "g \<in> set (lives s r)" "g \<le> x" "x < g + size_word (?m g)" for g x
  proof -
    have b: "region_first r \<le> g" "g + GC_HEAD < rend r" "in_block ?m g" using live_ok_bound [OF lr g(1)] by blast+
    note d = in_blockD [OF b(3)]
    have gb: "g + size_word (?m g) \<le> rend r"
    proof -
      have "block_base g < rend r" using b(2) by (simp add: block_base_def gc_consts)
      moreover obtain B where B: "rend r = B * 4096" using ra(2) by (metis div_mult_mod_eq add_0_right)
      ultimately have "block_base g + 4096 \<le> rend r" unfolding B block_base_def gc_consts by auto
      then show ?thesis using d(7) by simp
    qed
    have xr: "rstart r \<le> x" "x < rend r" using b(1) g gb by (simp_all add: region_first_def)
    have "inside ?m (lives s r) x" using g by (auto simp: inside_def)
    then have "x \<notin> keys (free_chunks ?m (region_first r) (lives s r))" using free_chunks_facts [OF lr region_first(3) [OF ra(1)]] by blast
    moreover have "x \<notin> keys (free_blocks ?m (region_first r) (lives s r) (rend r))"
    proof
      assume "x \<in> keys (free_blocks ?m (region_first r) (lives s r) (rend r))"
      then have x0: "x mod 4096 = 0" using free_blocks_facts [OF lr region_first(3) [OF ra(1)] ra(2)] by (fastforce simp: keys_def run_ok_def)
      obtain A y where gp: "g = A * 4096 + y" "y < 4096" "4 \<le> y" "y \<le> 4092" by (rule header_parts [OF d(1)])
      obtain B where B: "x = B * 4096" using x0 by (metis div_mult_mod_eq add_0_right)
      have "x < A * 4096 + 4096" using g(3) d(7) gp by (simp add: parts_gap)
      then have "B \<le> A" using B by auto
      then have "B * 4096 \<le> A * 4096" by (rule mult_le_mono1)
      then show False using g(2) gp B by linarith
    qed
    ultimately show ?thesis using all_keys_region [OF so lo r xr] by simp
  qed
  show "swept_by s g = unset_bit 0 (?m g)" if g: "g \<in> set (lives s r)" for g
  proof -
    have "g < g + size_word (?m g)" using in_blockD(4) live_ok_bound [OF lr g] by blast
    then have "g \<notin> keys (all_chunks ?m (lives s) ?rs)" "g \<notin> keys (all_blocks ?m (lives s) ?rs)" using nk [OF g order_refl] by simp_all
    moreover have "g \<in> set (all_live (lives s) ?rs)" using g r by (auto simp: all_live_def)
    ultimately show ?thesis by (simp add: swept_by_def swept_memory_other Let_def)
  qed
  show "swept_by s x = ?m x" if "g \<in> set (lives s r)" "g < x" "x < g + size_word (?m g)" "x \<notin> set (all_live (lives s) ?rs)" for g x
    using nk [OF that(1) less_imp_le [OF that(2)] that(3)] that(4) by (simp add: swept_by_def swept_memory_other Let_def)
qed

section \<open>The block usage tables\<close>

lemma block_used_bit: "block_used tab pos \<longleftrightarrow> bit (tab ! (pos div 32)) (pos mod 32)"
  unfolding block_used_def by (rule and_push_bit_one)

lemma set_unused_ok:
  assumes "length tab = 16" "pos < 512"
  shows "\<exists>tab'. set_unused pos tab = Inr tab' \<and> length tab' = 16 \<and> (\<forall>q<512. block_used tab' q \<longleftrightarrow> block_used tab q \<and> q \<noteq> pos)"
proof -
  have i: "pos div 32 < 16" using assms(2) by (simp add: div_less_iff_less_mult)
  let ?tab = "tab[pos div 32 := tab ! (pos div 32) AND NOT (push_bit (pos mod 32) 1)]"
  have "block_used ?tab q \<longleftrightarrow> block_used tab q \<and> q \<noteq> pos" for q
  proof (cases "q div 32 = pos div 32")
    case True
    then have "q = pos \<longleftrightarrow> q mod 32 = pos mod 32" by (metis div_mult_mod_eq)
    then show ?thesis using True i assms(1) unfolding block_used_bit by (auto simp: bit_simps)
  next
    case False
    then show ?thesis using i assms(1) unfolding block_used_bit by auto
  qed
  then show ?thesis using i assms(1) by (simp add: set_unused_def)
qed

lemma clear_blocks_ok:
  "length tab = 16 \<Longrightarrow> \<forall>a\<in>set as. (a - rstart r) div 4096 < 512 \<Longrightarrow>
   \<exists>tab'. clear_blocks r as tab = Inr tab' \<and> length tab' = 16 \<and> (\<forall>q<512. block_used tab' q \<longleftrightarrow> block_used tab q \<and> (\<forall>a\<in>set as. q \<noteq> (a - rstart r) div 4096))"
proof (induction as arbitrary: tab)
  case (Cons a as)
  then obtain t1 where t1: "set_unused ((a - rstart r) div 4096) tab = Inr t1" "length t1 = 16" "\<forall>q<512. block_used t1 q \<longleftrightarrow> block_used tab q \<and> q \<noteq> (a - rstart r) div 4096"
    using set_unused_ok [of tab "(a - rstart r) div 4096"] by auto
  obtain t2 where "clear_blocks r as t1 = Inr t2" "length t2 = 16" "\<forall>q<512. block_used t2 q \<longleftrightarrow> block_used t1 q \<and> (\<forall>a\<in>set as. q \<noteq> (a - rstart r) div 4096)"
    using Cons.IH [OF t1(2)] Cons.prems(2) by auto
  then show ?case using t1 by (auto simp: gc_consts)
qed simp

definition runs :: "memory \<Rightarrow> nat list \<Rightarrow> (nat \<times> nat) list" where
  "runs m bs = map (\<lambda>b. (b, m b)) bs"

lemma runs_simps [simp]: "runs m [] = []" "runs m (b # bs) = (b, m b) # runs m bs" "runs m (bs @ cs) = runs m bs @ runs m cs" "keys (runs m bs) = set bs"
  by (auto simp: runs_def keys_def image_image)

lemma covered_Cons: "covered (c # cs) b \<longleftrightarrow> fst c \<le> b \<and> b < fst c + snd c \<or> covered cs b"
  by (auto simp: covered_def)

definition full_region :: "region \<Rightarrow> bool" where
  "full_region r \<longleftrightarrow> rstart r mod 4096 = 0 \<and> rend r = rstart r + GC_REGIONSIZE"

lemma run_positions:
  assumes r: "full_region r" and b: "run_ok (rstart r) (rend r) (b, n)"
  shows "((\<exists>i<(n + 4096 - 1) div 4096. q = (b + i * 4096 - rstart r) div 4096) \<longleftrightarrow> b \<le> rstart r + q * 4096 \<and> rstart r + q * 4096 < b + n)"
    "i < (n + 4096 - 1) div 4096 \<Longrightarrow> (b + i * 4096 - rstart r) div 4096 < 512"
proof -
  obtain A where A: "rstart r = A * 4096" using r unfolding full_region_def by (metis div_mult_mod_eq add_0_right)
  have "b mod 4096 = 0" "n mod 4096 = 0" using b by (simp_all add: run_ok_def)
  then obtain B N where BN: "b = B * 4096" "n = N * 4096" by (metis div_mult_mod_eq add_0_right)
  have le: "A \<le> B" "B + N \<le> A + 512" using b r A BN by (simp_all add: run_ok_def full_region_def gc_consts)
  have cnt: "(n + 4096 - 1) div 4096 = N" using BN(2) by simp
  have pos: "(b + i * 4096 - rstart r) div 4096 = B + i - A" for i
  proof -
    have "b + i * 4096 - rstart r = (B + i - A) * 4096" unfolding A BN by (simp add: diff_mult_distrib add_mult_distrib)
    then show ?thesis by simp
  qed
  show "i < (n + 4096 - 1) div 4096 \<Longrightarrow> (b + i * 4096 - rstart r) div 4096 < 512" unfolding cnt pos using le by linarith
  have "(\<exists>i<N. q = B + i - A) \<longleftrightarrow> B \<le> A + q \<and> A + q < B + N"
  proof
    assume "B \<le> A + q \<and> A + q < B + N"
    then show "\<exists>i<N. q = B + i - A" by (intro exI [of _ "A + q - B"]) auto
  qed (use le in auto)
  moreover have e: "B * 4096 \<le> A * 4096 + q * 4096 \<longleftrightarrow> B \<le> A + q" "A * 4096 + q * 4096 < B * 4096 + N * 4096 \<longleftrightarrow> A + q < B + N" by linarith+
  ultimately show "((\<exists>i<(n + 4096 - 1) div 4096. q = (b + i * 4096 - rstart r) div 4096) \<longleftrightarrow> b \<le> rstart r + q * 4096 \<and> rstart r + q * 4096 < b + n)"
    unfolding cnt pos unfolding A BN e by simp
qed

lemma prepare_region_ok:
  "length tab = 16 \<Longrightarrow> full_region r \<Longrightarrow> \<forall>b\<in>set bs. run_ok (rstart r) (rend r) (b, m b) \<Longrightarrow> \<forall>b\<in>set cs. rend r \<le> b \<Longrightarrow>
   \<exists>tab'. prepare_region m r (bs @ cs) tab = Inr (cs, tab') \<and> length tab' = 16 \<and>
     (\<forall>q<512. block_used tab' q \<longleftrightarrow> block_used tab q \<and> \<not> covered (runs m bs) (rstart r + q * 4096))"
proof (induction bs arbitrary: tab)
  case Nil
  then show ?case by (cases cs) auto
next
  case (Cons b bs)
  let ?as = "map (\<lambda>i. b + i * 4096) [0..<(m b + 4096 - 1) div 4096]"
  have rb: "run_ok (rstart r) (rend r) (b, m b)" using Cons.prems(3) by simp
  note rp = run_positions [OF Cons.prems(2) rb]
  have inr: "rstart r \<le> b \<and> b < rend r" using rb by (auto simp: run_ok_def)
  obtain t1 where t1: "clear_blocks r ?as tab = Inr t1" "length t1 = 16" "\<forall>q<512. block_used t1 q \<longleftrightarrow> block_used tab q \<and> (\<forall>a\<in>set ?as. q \<noteq> (a - rstart r) div 4096)"
    using clear_blocks_ok [OF Cons.prems(1), of ?as r] rp(2) by auto
  obtain t2 where t2: "prepare_region m r (bs @ cs) t1 = Inr (cs, t2)" "length t2 = 16" "\<forall>q<512. block_used t2 q \<longleftrightarrow> block_used t1 q \<and> \<not> covered (runs m bs) (rstart r + q * 4096)"
    using Cons.IH [OF t1(2) Cons.prems(2)] Cons.prems(3,4) by auto
  have "(\<forall>a\<in>set ?as. q \<noteq> (a - rstart r) div 4096) \<longleftrightarrow> \<not> (b \<le> rstart r + q * 4096 \<and> rstart r + q * 4096 < b + m b)" for q
    unfolding rp(1) [symmetric, of q] by auto
  then have "\<forall>q<512. block_used t2 q \<longleftrightarrow> block_used tab q \<and> \<not> covered (runs m (b # bs)) (rstart r + q * 4096)" using t1(3) t2(3) by (auto simp: covered_Cons)
  then show ?case using t1(1) t2(1,2) inr by (auto simp: gc_consts)
qed

definition blocks_inv :: "memory \<Rightarrow> region list \<Rightarrow> nat list \<Rightarrow> bool" where
  "blocks_inv m rs bs \<longleftrightarrow> increasing (runs m bs) \<and> (\<forall>b\<in>set bs. \<exists>r\<in>set rs. run_ok (rstart r) (rend r) (b, m b))"

lemma prepare_regions_ok:
  "regions_sorted rs \<Longrightarrow> \<forall>r\<in>set rs. full_region r \<Longrightarrow> blocks_inv m rs bs \<Longrightarrow>
   \<exists>us'. prepare_regions m rs bs us = Inr us' \<and> (\<forall>r\<in>set rs. \<forall>q<512. block_used (us' (rstart r)) q \<longleftrightarrow> \<not> covered (runs m bs) (rstart r + q * 4096)) \<and>
     (\<forall>a. a \<notin> rstart ` set rs \<longrightarrow> us' a = us a)"
proof (induction rs arbitrary: bs us)
  case (Cons r rs)
  have so: "regions_sorted rs" and fr: "full_region r" "\<forall>r\<in>set rs. full_region r" using Cons.prems(1,2) by (simp_all add: regions_sorted_def)
  have lt: "\<forall>r'\<in>set rs. rend r \<le> rstart r'" using Cons.prems(1) by (simp add: regions_sorted_def)
  let ?b1 = "takeWhile (\<lambda>b. b < rend r) bs" and ?b2 = "dropWhile (\<lambda>b. b < rend r) bs"
  have inc: "sorted_wrt (<) bs" using Cons.prems(3) by (simp add: blocks_inv_def increasing_def runs_def comp_def)
  have b1: "\<forall>b\<in>set ?b1. run_ok (rstart r) (rend r) (b, m b)"
  proof
    fix b assume b: "b \<in> set ?b1"
    then have bb: "b \<in> set bs" "b < rend r" by (auto dest: set_takeWhileD)
    then obtain r' where r': "r' \<in> set (r # rs)" "run_ok (rstart r') (rend r') (b, m b)" using Cons.prems(3) by (auto simp: blocks_inv_def)
    then have "r' = r" using lt bb(2) by (fastforce simp: run_ok_def)
    then show "run_ok (rstart r) (rend r) (b, m b)" using r'(2) by simp
  qed
  have b2: "\<forall>b\<in>set ?b2. rend r \<le> b"
  proof (cases ?b2)
    case (Cons x xs)
    then have "\<not> x < rend r" by (metis dropWhile_eq_Cons_conv)
    moreover have "sorted_wrt (<) ?b2" using inc by (metis sorted_wrt_append takeWhile_dropWhile_id)
    ultimately show ?thesis unfolding Cons by auto
  next
    case Nil
    show ?thesis unfolding Nil by simp
  qed
  have sp: "bs = ?b1 @ ?b2" by simp
  let ?n = "replicate 16 (- 1) :: uint32 list"
  obtain tab where tab: "prepare_region m r bs ?n = Inr (?b2, tab)" "length tab = 16" "\<forall>q<512. block_used tab q \<longleftrightarrow> block_used ?n q \<and> \<not> covered (runs m ?b1) (rstart r + q * 4096)"
    using prepare_region_ok [of ?n r ?b1 m ?b2] fr(1) b1 b2 unfolding sp [symmetric] by auto
  have used: "block_used ?n q" if "q < 512" for q
    using that unfolding block_used_bit by (simp add: div_less_iff_less_mult)
  have bi: "blocks_inv m rs ?b2" unfolding blocks_inv_def
  proof (intro conjI ballI)
    show "increasing (runs m ?b2)" using Cons.prems(3) sp by (metis blocks_inv_def increasing_append runs_simps(3))
    fix b assume b: "b \<in> set ?b2"
    then have "b \<in> set bs" "rend r \<le> b" using b2 by (auto dest: set_dropWhileD)
    then show "\<exists>r\<in>set rs. run_ok (rstart r) (rend r) (b, m b)" using Cons.prems(3) by (fastforce simp: blocks_inv_def run_ok_def)
  qed
  obtain us' where us': "prepare_regions m rs ?b2 (us(rstart r := tab)) = Inr us'" "\<forall>r\<in>set rs. \<forall>q<512. block_used (us' (rstart r)) q \<longleftrightarrow> \<not> covered (runs m ?b2) (rstart r + q * 4096)"
    "\<forall>a. a \<notin> rstart ` set rs \<longrightarrow> us' a = (us(rstart r := tab)) a"
    using Cons.IH [OF so fr(2) bi] by blast
  have rlt: "rstart r < rend r" using fr(1) by (simp add: full_region_def gc_consts)
  have c1: "\<not> covered (runs m ?b2) (rstart r + q * 4096)" if "q < 512" for q
    using that b2 fr(1) by (auto simp: covered_def runs_def full_region_def gc_consts)
  have c2: "\<not> covered (runs m ?b1) (rstart r' + q * 4096)" if "r' \<in> set rs" for r' q
    using b1 lt that by (fastforce simp: covered_def runs_def run_ok_def)
  have cv: "covered (runs m bs) x \<longleftrightarrow> covered (runs m ?b1) x \<or> covered (runs m ?b2) x" for x by (metis sp runs_simps(3) covered_simps(2))
  have "rstart r \<notin> rstart ` set rs" using lt rlt by auto
  then have "us' (rstart r) = tab" using us'(3) by simp
  then have "\<forall>r'\<in>set (r # rs). \<forall>q<512. block_used (us' (rstart r')) q \<longleftrightarrow> \<not> covered (runs m bs) (rstart r' + q * 4096)"
    using tab(3) us'(2) used c1 c2 cv by auto
  moreover have "prepare_regions m (r # rs) bs us = Inr us'" using tab(1) us'(1) by (simp add: gc_consts)
  ultimately show ?case using us'(3) by auto
qed simp

section \<open>The heap after the sweep\<close>

text \<open>The chunks of a region, block by block.\<close>

definition block_pieces :: "memory \<Rightarrow> nat \<Rightarrow> nat list \<Rightarrow> (nat \<times> nat) list" where
  "block_pieces m b L = (if L = [] then [] else inner m (b + 4) L @ span (end_of m (b + 4) L) (b + 4092))"

lemma region_pieces:
  "p \<le> N \<Longrightarrow> rstart r = A * 4096 \<Longrightarrow> slack_start g \<le> rstart r + p * 4096 \<Longrightarrow>
   \<forall>pos<N. block_used tab pos \<longrightarrow> block_ok m (first_header r pos) (last_header r pos) \<Longrightarrow>
   set (free_chunks m g (concat (map (used_live m tab r) [p..<N]))) =
     set (first_part g) \<union> (\<Union>pos\<in>{p..<N}. set (block_pieces m (rstart r + pos * 4096) (used_live m tab r pos)))"
proof (induction "N - p" arbitrary: p g)
  case 0
  then show ?case by simp
next
  case (Suc d)
  then have pN: "p < N" by simp
  let ?b = "rstart r + p * 4096" let ?L = "used_live m tab r p" let ?M = "concat (map (used_live m tab r) [Suc p..<N])"
  have u: "concat (map (used_live m tab r) [p..<N]) = ?L @ ?M" using pN by (simp add: upt_conv_Cons del: upt_Suc)
  have iv: "{p..<N} = insert p {Suc p..<N}" using pN by auto
  have dN: "d = N - Suc p" "Suc p \<le> N" using Suc.hyps(2) pN by simp_all
  show ?case
  proof (cases "?L = []")
    case True
    then show ?thesis unfolding u iv using Suc.hyps(1) [OF dN Suc.prems(2) _ Suc.prems(4), of g] Suc.prems(3) by (simp add: block_pieces_def)
  next
    case False
    let ?g = "end_of m (?b + 4) ?L"
    have "block_used tab p" using False by (auto simp: used_live_def split: if_splits)
    moreover have "rstart r + p * GC_BLOCKSIZE = (A + p) * 4096" "?b = (A + p) * 4096" using Suc.prems(2) by (simp_all add: gc_consts)
    ultimately have lb: "\<forall>h\<in>set ?L. block_base h = ?b \<and> in_block m h"
      using block_live_facts(2) [of m r p "A + p"] Suc.prems(4) pN by (simp add: used_live_def)
    note t = end_of_block [OF lb False, of "?b + 4"]
    have fp: "first_part ?g = span ?g (?b + 4092)" "slack_start ?g = rstart r + Suc p * 4096" using t by (simp_all add: first_part_def slack_start_def gc_consts)
    have "set (free_chunks m ?g ?M) = set (first_part ?g) \<union> (\<Union>pos\<in>{Suc p..<N}. set (block_pieces m (rstart r + pos * 4096) (used_live m tab r pos)))"
      by (rule Suc.hyps(1) [OF dN Suc.prems(2) _ Suc.prems(4)]) (simp add: fp)
    then show ?thesis unfolding u iv block_chunks(1) [OF Suc.prems(3) False lb] using False fp(1) by (auto simp: block_pieces_def)
  qed
qed

lemma region_pieces_all:
  assumes "heap_ok s" "area_ok s" "r \<in> set (small_regions s)"
  shows "set (free_chunks (mem s) (region_first r) (lives s r)) = (\<Union>pos<region_blocks r. set (block_pieces (mem s) (rstart r + pos * 4096) (used_live (mem s) (usage s (rstart r)) r pos)))"
proof -
  have ra: "region_aligned r" using lives_ok [OF assms] by blast
  obtain A where A: "rstart r = A * 4096" using ra unfolding region_aligned_def by (metis div_mult_mod_eq add_0_right)
  have "\<forall>pos<region_blocks r. block_used (usage s (rstart r)) pos \<longrightarrow> block_ok (mem s) (first_header r pos) (last_header r pos)"
    using heap_blocks_ok [OF assms(1,3)] by (simp add: blocks_ok_def)
  from region_pieces [OF _ A _ this, of 0 "region_first r"] show ?thesis using region_first(5,6) [OF ra] by (simp add: region_live_def atLeast0LessThan)
qed

lemma swept_block:
  assumes h: "heap_ok s" and a: "area_ok s" and r: "r \<in> set (small_regions s)" and pos: "pos < region_blocks r"
    and L: "L = used_live (mem s) (usage s (rstart r)) r pos" "L \<noteq> []"
  shows "block_ok (swept_by s) (first_header r pos) (last_header r pos)"
    "set (chunk_headers (swept_by s) (first_header r pos) (last_header r pos)) = set L \<union> keys (block_pieces (mem s) (rstart r + pos * 4096) L)"
proof -
  let ?b = "rstart r + pos * 4096"
  have ra: "region_aligned r" using lives_ok [OF h a r] by blast
  obtain A where A: "rstart r = A * 4096" using ra unfolding region_aligned_def by (metis div_mult_mod_eq add_0_right)
  have B: "rstart r + pos * GC_BLOCKSIZE = (A + pos) * 4096" "?b = (A + pos) * 4096" using A by (simp_all add: gc_consts)
  have used: "block_used (usage s (rstart r)) pos" "L = block_live (mem s) r pos" using L by (auto simp: used_live_def split: if_splits)
  have bok: "block_ok (mem s) (first_header r pos) (last_header r pos)" using heap_blocks_ok [OF h r] used(1) pos by (simp add: blocks_ok_def)
  note lf = block_live_facts [OF bok B(1), folded B(2) used(2)]
  note t = end_of_block [OF lf(2) L(2), of "?b + 4"]
  have sub: "set (block_pieces (mem s) ?b L) \<subseteq> set (free_chunks (mem s) (region_first r) (lives s r))"
    using region_pieces_all [OF h a r] pos L(1) by auto
  have ca: "chunks_at (swept_by s) (inner (mem s) (?b + 4) L @ span (end_of (mem s) (?b + 4) L) (?b + 4092))"
    unfolding chunks_at_def using swept_values(1) [OF h a r] sub L(2) by (fastforce simp: block_pieces_def)
  have "g \<in> set (lives s r)" if "g \<in> set L" for g using that pos L(1) by (auto simp: region_live_def)
  then have sz: "\<forall>g\<in>set L. size_word (swept_by s g) = size_word (mem s g)" using swept_values(2) [OF h a r] by simp
  have al: "(?b + 4) mod 8 = 4" "(?b + 4092) mod 8 = 4" using mod_8_block [of "A + pos" 4] mod_8_block [of "A + pos" 4092] unfolding B(2) by simp_all
  have "?b + 4 \<le> ?b + 4092" by simp
  then have "chunk_headers (swept_by s) (?b + 4) (?b + 4092) = tiles (mem s) (?b + 4) L (?b + 4092) \<and> block_ok (swept_by s) (?b + 4) (?b + 4092)"
    using tiles_chain [OF _ al _ _ ca sz] lf(1) t by (simp add: add.assoc)
  moreover have "first_header r pos = ?b + 4" "last_header r pos = ?b + 4092" by (simp_all add: first_header_def last_header_def gc_consts)
  ultimately show "block_ok (swept_by s) (first_header r pos) (last_header r pos)"
    "set (chunk_headers (swept_by s) (first_header r pos) (last_header r pos)) = set L \<union> keys (block_pieces (mem s) ?b L)"
    using L(2) by (simp_all add: set_tiles block_pieces_def)
qed

text \<open>The tables that the next preparation computes from the free blocks of the sweep.\<close>

definition tables_match :: "gcs \<Rightarrow> (nat \<Rightarrow> uint32 list) \<Rightarrow> bool" where
  "tables_match s us \<longleftrightarrow> (\<forall>r\<in>set (small_regions s). \<forall>pos<region_blocks r. block_used (us (rstart r)) pos \<longleftrightarrow> used_live (mem s) (usage s (rstart r)) r pos \<noteq> [])"

lemma used_live_base:
  assumes h: "heap_ok s" and a: "area_ok s" and r: "r \<in> set (small_regions s)" and pos: "pos < region_blocks r"
  shows "used_live (mem s) (usage s (rstart r)) r pos = [] \<longleftrightarrow> (\<forall>g\<in>set (lives s r). block_base g \<noteq> rstart r + pos * 4096)"
proof -
  let ?u = "used_live (mem s) (usage s (rstart r)) r"
  have ra: "region_aligned r" using lives_ok [OF h a r] by blast
  obtain A where A: "rstart r = A * 4096" using ra unfolding region_aligned_def by (metis div_mult_mod_eq add_0_right)
  have base: "block_base g = rstart r + q * 4096" if g: "g \<in> set (?u q)" "q < region_blocks r" for g q
  proof -
    have "block_used (usage s (rstart r)) q" "g \<in> set (block_live (mem s) r q)" using g by (auto simp: used_live_def split: if_splits)
    moreover from this have "block_ok (mem s) (first_header r q) (last_header r q)" using heap_blocks_ok [OF h r] g(2) by (simp add: blocks_ok_def)
    moreover have "rstart r + q * GC_BLOCKSIZE = (A + q) * 4096" "rstart r + q * 4096 = (A + q) * 4096" using A by (simp_all add: gc_consts)
    ultimately show ?thesis using block_live_facts(2) [of "mem s" r q "A + q"] by simp
  qed
  show ?thesis
  proof
    assume e: "?u pos = []"
    show "\<forall>g\<in>set (lives s r). block_base g \<noteq> rstart r + pos * 4096"
    proof
      fix g assume "g \<in> set (lives s r)"
      then obtain q where q: "g \<in> set (?u q)" "q < region_blocks r" by (auto simp: region_live_def)
      then show "block_base g \<noteq> rstart r + pos * 4096" using base [OF q] e by auto
    qed
  next
    assume all: "\<forall>g\<in>set (lives s r). block_base g \<noteq> rstart r + pos * 4096"
    have "set (?u pos) \<subseteq> set (lives s r)" using pos by (auto simp: region_live_def)
    then show "?u pos = []" using base pos all by (metis hd_in_set subsetD)
  qed
qed

lemma all_blocks_inv:
  assumes h: "heap_ok s" and a: "area_ok s" and f: "\<forall>r\<in>set (small_regions s). full_region r"
  shows "runs (swept_by s) (map fst (all_blocks (mem s) (lives s) (small_regions s))) = all_blocks (mem s) (lives s) (small_regions s)"
    "blocks_inv (swept_by s) (small_regions s) (map fst (all_blocks (mem s) (lives s) (small_regions s)))"
    "r \<in> set (small_regions s) \<Longrightarrow> q < 512 \<Longrightarrow> covered (all_blocks (mem s) (lives s) (small_regions s)) (rstart r + q * 4096) \<longleftrightarrow> used_live (mem s) (usage s (rstart r)) r q = []"
proof -
  let ?rs = "small_regions s" let ?bs = "all_blocks (mem s) (lives s) ?rs"
  have so: "regions_sorted ?rs" using a by (simp add: area_ok_def)
  have lo: "\<forall>r\<in>set ?rs. live_ok (mem s) (region_first r) (lives s r) (rend r)" and ra: "\<forall>r\<in>set ?rs. region_aligned r" using lives_ok [OF h a] by blast+
  have run: "\<exists>r\<in>set ?rs. run_ok (rstart r) (rend r) c \<and> c \<in> set (free_blocks (mem s) (region_first r) (lives s r) (rend r))" if "c \<in> set ?bs" for c
  proof -
    obtain r where r: "r \<in> set ?rs" "c \<in> set (free_blocks (mem s) (region_first r) (lives s r) (rend r))" using \<open>c \<in> set ?bs\<close> by (auto simp: all_blocks_def)
    have "region_aligned r" using ra r(1) by blast
    then show ?thesis using r free_blocks_facts [OF bspec [OF lo r(1)] region_first(3)] region_first(5) [of r] by (auto simp: region_aligned_def)
  qed
  have val: "swept_by s (fst c) = snd c" if "c \<in> set ?bs" for c
  proof -
    have "fst c mod 8 = 0" using run [OF that] mod8_block(1) [of "fst c div 4096"] by (auto simp: run_ok_def)
    then have "fst c \<notin> keys (all_chunks (mem s) (lives s) ?rs)"
      using free_chunks_facts [OF bspec [OF lo] region_first(3)] ra unfolding all_chunks_def keys_concat by fastforce
    then have "map_of (all_chunks (mem s) (lives s) ?rs) (fst c) = None" by (simp add: map_of_keys)
    moreover have "map_of ?bs (fst c) = Some (snd c)" using increasing_map_of [OF all_chunks_facts(2) [OF so lo]] that by simp
    ultimately show ?thesis by (simp add: swept_by_def swept_memory_def Let_def)
  qed
  show rn: "runs (swept_by s) (map fst ?bs) = ?bs" unfolding runs_def map_map by (rule map_idI) (simp add: val)
  show "blocks_inv (swept_by s) ?rs (map fst ?bs)" unfolding blocks_inv_def rn using all_chunks_facts(2) [OF so lo] run val by fastforce
  assume r: "r \<in> set ?rs" and q: "q < 512"
  have fr: "full_region r" "region_aligned r" using f ra r by blast+
  have e: "rend r = rstart r + 512 * 4096" using fr(1) by (simp add: full_region_def gc_consts)
  then have rb: "region_blocks r = 512" using region_blocks_end(1) [OF fr(2)] by simp
  have "covered ?bs (rstart r + q * 4096) \<longleftrightarrow> covered (free_blocks (mem s) (region_first r) (lives s r) (rend r)) (rstart r + q * 4096)"
  proof
    assume "covered ?bs (rstart r + q * 4096)"
    then obtain c where c: "c \<in> set ?bs" "fst c \<le> rstart r + q * 4096" "rstart r + q * 4096 < fst c + snd c" by (auto simp: covered_def)
    obtain r' where r': "r' \<in> set ?rs" "run_ok (rstart r') (rend r') c" "c \<in> set (free_blocks (mem s) (region_first r') (lives s r') (rend r'))" using run [OF c(1)] by blast
    have "r' = r" by (rule in_one_region [OF so r'(1) r, of "rstart r + q * 4096"]) (use r'(2) c e q in \<open>auto simp: run_ok_def\<close>)
    then show "covered (free_blocks (mem s) (region_first r) (lives s r) (rend r)) (rstart r + q * 4096)" using c r'(3) by (auto simp: covered_def)
  qed (use r in \<open>auto simp: covered_def all_blocks_def\<close>)
  also have "\<dots> \<longleftrightarrow> (\<forall>g\<in>set (lives s r). block_base g \<noteq> rstart r + q * 4096)"
  proof -
    have "(rstart r + q * 4096) mod 4096 = 0" using fr(1) by (simp add: full_region_def)
    then show ?thesis using free_blocks_covered [OF bspec [OF lo r] region_first(3) [OF fr(2)], of "rstart r + q * 4096"] region_first(5) [OF fr(2)] e q by simp
  qed
  also have "\<dots> \<longleftrightarrow> used_live (mem s) (usage s (rstart r)) r q = []" using used_live_base [OF h a r, of q] rb q by simp
  finally show "covered ?bs (rstart r + q * 4096) \<longleftrightarrow> used_live (mem s) (usage s (rstart r)) r q = []" .
qed

definition next_heap :: "gcs \<Rightarrow> (nat \<Rightarrow> uint32 list) \<Rightarrow> gcs" where
  "next_heap s us = s\<lparr>mem := swept_by s, usage := us\<rparr>"

lemma next_heap_simps [simp]:
  "mem (next_heap s us) = swept_by s" "usage (next_heap s us) = us" "regions (next_heap s us) = regions s" "small_regions (next_heap s us) = small_regions s"
  "large_objects (next_heap s us) = large_objects s" "large_set (next_heap s us) = large_set s"
  by (simp_all add: next_heap_def large_set_def)

lemma next_heap_ok:
  assumes h: "heap_ok s" and a: "area_ok s" and t: "tables_match s us"
  shows "heap_ok (next_heap s us)"
proof -
  have "block_ok (swept_by s) (first_header r pos) (last_header r pos)" if "r \<in> set (small_regions s)" "pos \<in> set (used_blocks (next_heap s us) r)" for r pos
  proof -
    have "pos < region_blocks r" "used_live (mem s) (usage s (rstart r)) r pos \<noteq> []" using that t by (auto simp: used_blocks_def tables_match_def)
    then show ?thesis using swept_block(1) [OF h a that(1)] by blast
  qed
  then show ?thesis using h by (simp add: heap_ok_def)
qed

lemma union_nonempty:
  assumes "\<And>p. \<not> Q p \<Longrightarrow> B p = {} \<and> A p = {}"
  shows "(\<Union>p\<in>{p. p < (n::nat) \<and> Q p}. A p \<union> B p) = (\<Union>p<n. A p) \<union> (\<Union>p<n. B p)"
  using assms by blast

lemma next_headers:
  assumes h: "heap_ok s" and a: "area_ok s" and t: "tables_match s us" and r: "r \<in> set (small_regions s)"
  shows "set (region_headers (next_heap s us) r) = set (lives s r) \<union> keys (free_chunks (mem s) (region_first r) (lives s r))"
proof -
  let ?u = "used_live (mem s) (usage s (rstart r)) r" let ?p = "\<lambda>pos. block_pieces (mem s) (rstart r + pos * 4096) (?u pos)"
  have ub: "set (used_blocks (next_heap s us) r) = {pos. pos < region_blocks r \<and> ?u pos \<noteq> []}" using t r by (auto simp: used_blocks_def tables_match_def)
  have "set (region_headers (next_heap s us) r) = (\<Union>pos\<in>{pos. pos < region_blocks r \<and> ?u pos \<noteq> []}. set (?u pos) \<union> keys (?p pos))"
    unfolding region_headers_def using swept_block(2) [OF h a r] by (auto simp: ub)
  also have "\<dots> = (\<Union>pos<region_blocks r. set (?u pos)) \<union> (\<Union>pos<region_blocks r. keys (?p pos))"
  proof -
    have "keys (?p pos) = {} \<and> set (?u pos) = {}" if "\<not> ?u pos \<noteq> []" for pos using that by (simp add: block_pieces_def)
    then show ?thesis by (rule union_nonempty)
  qed
  also have "(\<Union>pos<region_blocks r. keys (?p pos)) = keys (free_chunks (mem s) (region_first r) (lives s r))"
    unfolding keys_def region_pieces_all [OF h a r] by blast
  also have "(\<Union>pos<region_blocks r. set (?u pos)) = set (lives s r)" by (auto simp: region_live_def)
  finally show ?thesis .
qed

lemma keys_pair: "x \<in> keys cs \<Longrightarrow> \<exists>n. (x, n) \<in> set cs"
  by (auto simp: keys_def)

lemma span_aligned:
  assumes "(x, n) \<in> set (span a b)" "a mod 8 = 4" "b mod 8 = (4::nat)"
  shows "n mod 8 = 0 \<and> 0 < n"
proof -
  have n: "n = b - a" "a < b" using assms(1) by (auto simp: span_def split: if_splits)
  have "b mod 8 = a mod 8" using assms(2,3) by simp
  then have "8 dvd b - a" using n(2) by (simp add: mod_eq_dvd_iff_nat)
  then show ?thesis using n by (simp add: dvd_eq_mod_eq_0)
qed

lemma free_chunk_aligned:
  "live_ok m g L e \<Longrightarrow> g mod 8 = 4 \<Longrightarrow> (x, n) \<in> set (free_chunks m g L) \<Longrightarrow> n mod 8 = 0 \<and> 0 < n"
proof (induction L arbitrary: g)
  case Nil
  obtain A y where g: "g = A * 4096 + y" "y < 4096" "4 \<le> y" "y \<le> 4092" by (rule header_parts [OF Nil.prems(2)])
  have "(A * 4096 + 4092) mod 8 = 4" using mod_8_block [of A 4092] by simp
  then show ?case using Nil.prems span_aligned [of x n g "A * 4096 + 4092"] g by (auto simp: parts_gap split: if_splits)
next
  case (Cons h L)
  let ?t = "h + size_word (m h)"
  have l: "g \<le> h" "in_block m h" "live_ok m ?t L e" using Cons.prems(1) by simp_all
  note d = in_blockD [OF l(2)]
  show ?case
  proof (cases "(x, n) \<in> set (gap_chunks g h)")
    case False
    then show ?thesis using Cons.IH [OF l(3) d(2)] Cons.prems(3) by simp
  next
    case True
    note sp = span_aligned [of x n]
    obtain A y where g: "g = A * 4096 + y" "y < 4096" "4 \<le> y" "y \<le> 4092" by (rule header_parts [OF Cons.prems(2)])
    obtain B z where h: "h = B * 4096 + z" "z < 4096" "4 \<le> z" "z \<le> 4092" by (rule header_parts [OF d(1)])
    have "(A * 4096 + 4092) mod 8 = 4" using mod_8_block [of A 4092] by simp
    then show ?thesis using True sp [of g h] sp [of g "A * 4096 + 4092"] sp [of "B * 4096 + 4" h] Cons.prems(2) d(1) g h
      by (auto simp: gap_chunks_def parts_gap gc_consts split: if_splits)
  qed
qed

lemma next_header_words:
  assumes h: "heap_ok s" and a: "area_ok s" and t: "tables_match s us" and r: "r \<in> set (small_regions s)" and x: "x \<in> set (region_headers (next_heap s us) r)"
  shows "\<not> marked_word (swept_by s x)" "free_word (swept_by s x) \<longleftrightarrow> x \<notin> set (lives s r)" "x \<in> set (lives s r) \<Longrightarrow> size_word (swept_by s x) = size_word (mem s x)"
proof -
  note lr = lives_ok [OF h a r]
  have lr1: "live_ok (mem s) (region_first r) (lives s r) (rend r)" and rf: "region_first r mod 8 = 4" using lr region_first(3) by blast+
  have live: "\<not> marked_word (swept_by s x) \<and> \<not> free_word (swept_by s x) \<and> size_word (swept_by s x) = size_word (mem s x)" if "x \<in> set (lives s r)"
  proof -
    have "x \<in> set (region_headers s r)" "marked_word (mem s x)" using that region_live_set by auto
    then have "\<not> free_word (mem s x)" using a r unfolding area_ok_def by blast
    then show ?thesis using swept_values(2) [OF h a r that] by simp
  qed
  have chunk: "\<not> marked_word (swept_by s x) \<and> free_word (swept_by s x)" if xk: "x \<in> keys (free_chunks (mem s) (region_first r) (lives s r))"
  proof -
    obtain n where n: "(x, n) \<in> set (free_chunks (mem s) (region_first r) (lives s r))" using keys_pair [OF xk] by blast
    have "n mod 8 = 0" using free_chunk_aligned [OF lr1 rf n] by blast
    then show ?thesis using swept_values(1) [OF h a r n] size_word_free(2,3) by simp
  qed
  show "\<not> marked_word (swept_by s x)" "free_word (swept_by s x) \<longleftrightarrow> x \<notin> set (lives s r)" "x \<in> set (lives s r) \<Longrightarrow> size_word (swept_by s x) = size_word (mem s x)"
    using live chunk x next_headers [OF h a t r] by blast+
qed

lemma next_area_ok:
  assumes h: "heap_ok s" and a: "area_ok s" and t: "tables_match s us"
  shows "area_ok (next_heap s us)"
  using a next_header_words(1) [OF h a t] by (simp add: area_ok_def)

lemma next_small_objects:
  assumes h: "heap_ok s" and a: "area_ok s" and t: "tables_match s us"
  shows "small_objects (next_heap s us) = {p \<in> small_objects s. marked (mem s) p}"
proof (intro set_eqI iffI)
  fix p assume "p \<in> small_objects (next_heap s us)"
  then obtain r x where x: "r \<in> set (small_regions s)" "x \<in> set (region_headers (next_heap s us) r)" "\<not> free_word (swept_by s x)" "p = x + GC_HEAD" by (auto simp: small_objects_def)
  then have "x \<in> set (lives s r)" using next_header_words(2) [OF h a t x(1,2)] by blast
  then have "x \<in> set (region_headers s r)" "marked_word (mem s x)" using region_live_set by auto
  moreover from this have "\<not> free_word (mem s x)" using a x(1) unfolding area_ok_def by blast
  ultimately show "p \<in> {p \<in> small_objects s. marked (mem s) p}" using x(1,4) by (auto simp: small_objects_def marked_def)
next
  fix p assume p: "p \<in> {p \<in> small_objects s. marked (mem s) p}"
  then obtain r x where x: "r \<in> set (small_regions s)" "x \<in> set (region_headers s r)" "p = x + GC_HEAD" by (auto simp: small_objects_def)
  then have xl: "x \<in> set (lives s r)" using p region_live_set by (auto simp: marked_def)
  then have "x \<in> set (region_headers (next_heap s us) r)" using next_headers [OF h a t x(1)] by blast
  then show "p \<in> small_objects (next_heap s us)" using next_header_words(2) [OF h a t x(1)] xl x(1,3) by (auto simp: small_objects_def)
qed

end
