(* ===== verification/GC_Arena.thy ===== *)
theory GC_Arena
  imports GC_Lumps
begin

text \<open>
  The manual memory manager refines an abstract heap: regions as sequences of lumps in use or free, without two free ones next to each other. The boundary
  tags in memory and the segregated free lists describe that heap, and allocation, release, resizing and growth keep it so.
\<close>

section \<open>Size classes are monotone\<close>

lemma size_class_loop_mono: "a \<le> b \<Longrightarrow> c \<le> d \<Longrightarrow> size_class_loop a c \<le> size_class_loop b d"
proof (induction a c arbitrary: b d rule: size_class_loop.induct)
  case (1 a c)
  have ge: "d \<le> size_class_loop b d" for b d
    by (induction b d rule: size_class_loop.induct) (subst size_class_loop.simps, auto dest: Suc_leD)
  show ?case
  proof (cases "a > SIZECLASS_MAX_SMALLSIZE")
    case True
    then have "b > SIZECLASS_MAX_SMALLSIZE" using "1.prems"(1) by simp
    then show ?thesis using True "1.IH" [OF True, of "b div 2" "d + 1"] "1.prems" by (subst (1 2) size_class_loop.simps) (simp add: div_le_mono)
  next
    case False
    then have "size_class_loop a c = c" by (subst size_class_loop.simps) simp
    then show ?thesis using ge [of d b] "1.prems"(2) by simp
  qed
qed

lemma size_class_loop_bound: "n \<le> 1024 * 2 ^ k \<Longrightarrow> size_class_loop n c \<le> c + k"
proof (induction k arbitrary: n c)
  case 0
  then show ?case by (subst size_class_loop.simps) (simp add: class_consts)
next
  case (Suc k)
  have "n div 2 \<le> 1024 * 2 ^ k" using Suc.prems by simp
  from Suc.IH [OF this, of "c + 1"] show ?case by (subst size_class_loop.simps) simp
qed

lemma size_class_bound: "size_class n < SIZE_CLASSES"
proof -
  have "n \<le> 1024 * 2 ^ 16 \<Longrightarrow> size_class_loop n 64 \<le> 80" using size_class_loop_bound [of n 16 64] by simp
  moreover have "n \<le> 1024 \<Longrightarrow> n div 16 < 81" by auto
  ultimately show ?thesis by (auto simp: size_class_def class_consts)
qed

lemma size_class_mono: "a \<le> b \<Longrightarrow> size_class a \<le> size_class b"
proof -
  assume ab: "a \<le> b"
  have lo: "64 \<le> size_class_loop b 64" using size_class_loop_mono [of 0 b 64 64] size_class_loop.simps [of 0 64] by simp
  have hi: "size_class a \<le> 80" using size_class_bound [of a] by (simp add: class_consts)
  have lin: "a \<le> 1024 \<Longrightarrow> a div 16 \<le> 64" using div_le_mono [of a 1024 16] by simp
  consider "b \<le> 1024" | "1024 < b" "b \<le> 1024 * 2 ^ 16" | "1024 * 2 ^ 16 < b" by linarith
  then show ?thesis
  proof cases
    case 1
    then show ?thesis using ab by (simp add: size_class_def class_consts div_le_mono)
  next
    case 2
    then have e: "size_class b = size_class_loop b 64" by (simp add: size_class_def class_consts)
    show ?thesis
    proof (cases "a \<le> 1024")
      case True
      then show ?thesis unfolding e using lin lo by (simp add: size_class_def class_consts)
    next
      case False
      then have "size_class a = size_class_loop a 64" using 2 ab by (simp add: size_class_def class_consts)
      then show ?thesis unfolding e using size_class_loop_mono [OF ab] by simp
    qed
  next
    case 3
    then have "size_class b = 80" by (simp add: size_class_def class_consts)
    then show ?thesis using hi by simp
  qed
qed

section \<open>Free lists and the lumps they hold\<close>

text \<open>\<open>F\<close> are the free lumps, with their sizes.\<close>

definition lists_ok :: "memory \<Rightarrow> gc_heap \<Rightarrow> (nat \<times> nat) set \<Rightarrow> bool" where
  "lists_ok m h F \<longleftrightarrow> (\<forall>(x, n)\<in>F. SIZE m x = n) \<and>
     (\<forall>c<SIZE_CLASSES. sorted (map (SIZE m) (lists h c)) \<and> distinct (lists h c) \<and> set (lists h c) = {x. \<exists>n. (x, n) \<in> F \<and> size_class n = c})"

lemma lists_ok_cong: "lists_ok m h F \<Longrightarrow> \<forall>(x, n)\<in>F. SIZE m' x = n \<Longrightarrow> lists_ok m' h F"
proof -
  assume ok: "lists_ok m h F" and new: "\<forall>(x, n)\<in>F. SIZE m' x = n"
  have "map (SIZE m') (lists h c) = map (SIZE m) (lists h c)" if c: "c < SIZE_CLASSES" for c
  proof (rule map_cong [OF refl])
    fix x assume "x \<in> set (lists h c)"
    then obtain n where "(x, n) \<in> F" using ok c unfolding lists_ok_def by blast
    then show "SIZE m' x = SIZE m x" using ok new unfolding lists_ok_def by auto
  qed
  then have "sorted (map (SIZE m') (lists h c))" if "c < SIZE_CLASSES" for c using ok that unfolding lists_ok_def by metis
  then show ?thesis using ok new unfolding lists_ok_def by blast
qed

lemma lists_ok_size: "lists_ok m h F \<Longrightarrow> (x, n) \<in> F \<Longrightarrow> SIZE m x = n"
  unfolding lists_ok_def by auto

lemma lists_ok_halloc [simp]: "lists_ok m (h\<lparr>halloc := x\<rparr>) F = lists_ok m h F" "lists_ok m (h\<lparr>hsize := y\<rparr>) F = lists_ok m h F"
  by (simp_all add: lists_ok_def)

lemma find_freelump_best:
  assumes ok: "lists_ok m h F"
  shows "case find_freelump m h n (size_class n) of
      None \<Rightarrow> \<forall>(x, k)\<in>F. k < n
    | Some p \<Rightarrow> (p, SIZE m p) \<in> F \<and> n \<le> SIZE m p \<and> (\<forall>(x, k)\<in>F. n \<le> k \<longrightarrow> SIZE m p \<le> k)"
proof -
  let ?c = "size_class n" and ?small = "\<lambda>p. SIZE m p < n"
  have mem: "x \<in> set (lists h c) \<longleftrightarrow> (x, SIZE m x) \<in> F \<and> size_class (SIZE m x) = c" if "c < SIZE_CLASSES" for x c
  proof -
    have "set (lists h c) = {x. \<exists>n. (x, n) \<in> F \<and> size_class n = c}" using ok that unfolding lists_ok_def by blast
    then show ?thesis using ok unfolding lists_ok_def by auto
  qed
  have st: "sorted (map (SIZE m) (lists h c))" if "c < SIZE_CLASSES" for c using ok that unfolding lists_ok_def by blast
  have F: "x \<in> set (lists h (size_class k)) \<and> SIZE m x = k" if "(x, k) \<in> F" for x k
    using that ok mem [OF size_class_bound] unfolding lists_ok_def by auto
  have up: "?c < c \<Longrightarrow> x \<in> set (lists h c) \<Longrightarrow> c < SIZE_CLASSES \<Longrightarrow> n \<le> SIZE m x" for c x
    using mem [of c x] size_class_mono [of "SIZE m x" n] by linarith
  show ?thesis
  proof (cases "dropWhile ?small (lists h ?c)")
    case (Cons p ps)
    have e: "find_freelump m h n ?c = Some p" using Cons by (simp add: find_freelump_def)
    have in_set: "p \<in> set (lists h ?c)" using Cons by (metis list.set_intros(1) set_dropWhileD)
    have ge: "n \<le> SIZE m p" using Cons hd_dropWhile [of ?small "lists h ?c"] by force
    have least: "SIZE m p \<le> k" if x: "(x, k) \<in> F" "n \<le> k" for x k
    proof (cases "size_class k = ?c")
      case True
      then have xl: "x \<in> set (lists h ?c)" "SIZE m x = k" using F [OF x(1)] by auto
      have "x \<notin> set (takeWhile ?small (lists h ?c))" using xl(2) x(2) by (auto dest: set_takeWhileD)
      then have "x \<in> set (p # ps)" using xl(1) Cons by (metis UnE set_append takeWhile_dropWhile_id)
      moreover have "sorted (map (SIZE m) (p # ps))" using st [OF size_class_bound] Cons sorted_dropWhile
        by (metis (mono_tags, lifting) append.right_neutral sorted_append takeWhile_dropWhile_id map_append)
      ultimately show ?thesis using xl(2) by auto
    next
      case False
      then have "?c < size_class k" using size_class_mono [OF x(2)] by linarith
      moreover have "size_class (SIZE m p) = ?c" using in_set mem [OF size_class_bound] by blast
      ultimately show ?thesis using size_class_mono [of k "SIZE m p"] by linarith
    qed
    show ?thesis unfolding e using in_set mem [OF size_class_bound] ge least by auto
  next
    case Nil
    then have none: "\<forall>x\<in>set (lists h ?c). SIZE m x < n" by (simp add: dropWhile_eq_Nil_conv)
    show ?thesis
    proof (cases "dropWhile (\<lambda>c. lists h c = []) [?c + 1..<SIZE_CLASSES]")
      case empty: Nil
      have e: "find_freelump m h n ?c = None" unfolding find_freelump_def Nil empty by simp
      have "k < n" if x: "(x, k) \<in> F" for x k
      proof (rule ccontr)
        assume "\<not> k < n"
        then have "?c \<le> size_class k" by (intro size_class_mono) simp
        moreover have "size_class k \<noteq> ?c" using none F [OF x] \<open>\<not> k < n\<close> by metis
        moreover have "\<forall>c\<in>set [?c + 1..<SIZE_CLASSES]. lists h c = []" using empty by (simp add: dropWhile_eq_Nil_conv)
        ultimately have "lists h (size_class k) = []" using size_class_bound [of k] by auto
        then show False using F [OF x] by simp
      qed
      then show ?thesis unfolding e by auto
    next
      case (Cons c cs)
      have e: "find_freelump m h n ?c = Some (hd (lists h c))" unfolding find_freelump_def Nil Cons by simp
      have split: "[?c + 1..<SIZE_CLASSES] = takeWhile (\<lambda>c. lists h c = []) [?c + 1..<SIZE_CLASSES] @ c # cs" using Cons by (metis takeWhile_dropWhile_id)
      then have "c \<in> set [?c + 1..<SIZE_CLASSES]" by (metis in_set_conv_decomp)
      then have c: "?c < c" "c < SIZE_CLASSES" by auto
      have ne: "lists h c \<noteq> []" using Cons hd_dropWhile [of "\<lambda>c. lists h c = []" "[?c + 1..<SIZE_CLASSES]"] by force
      have before: "lists h d = []" if "?c < d" "d < c" for d
      proof -
        let ?t = "takeWhile (\<lambda>c. lists h c = []) [?c + 1..<SIZE_CLASSES]"
        have "d \<in> set (?t @ c # cs)" using that c split [symmetric] by simp
        moreover have "sorted (?t @ c # cs)" using split [symmetric] by simp
        ultimately have "d \<in> set ?t" using that by (auto simp: sorted_append)
        then show ?thesis by (auto dest: set_takeWhileD)
      qed
      let ?p = "hd (lists h c)"
      have pl: "?p \<in> set (lists h c)" using ne by simp
      have least: "SIZE m ?p \<le> k" if x: "(x, k) \<in> F" "n \<le> k" for x k
      proof -
        note xl = F [OF x(1)]
        have "?c \<le> size_class k" by (rule size_class_mono [OF x(2)])
        moreover have "size_class k \<noteq> ?c" using none xl x(2) by (metis not_le)
        ultimately have "c \<le> size_class k" using before [of "size_class k"] xl by force
        then consider "c = size_class k" | "c < size_class k" by linarith
        then show ?thesis
        proof cases
          case 1
          then show ?thesis using xl st [OF c(2)] ne by (cases "lists h c") auto
        next
          case 2
          then show ?thesis using mem [OF c(2), of ?p] pl size_class_mono [of k "SIZE m ?p"] by linarith
        qed
      qed
      show ?thesis unfolding e using pl mem [OF c(2)] up [OF c(1) pl c(2)] least by auto
    qed
  qed
qed

lemma sorted_insort_While:
  assumes "sorted (map f xs)"
  shows "sorted (map f (takeWhile (\<lambda>p. f p < f x) xs @ x # dropWhile (\<lambda>p. f p < f x) xs))"
  using assms by (induction xs) (auto dest!: set_takeWhileD, (metis dual_order.trans less_imp_le not_le set_dropWhileD)?)

lemma insert_freelump_ok:
  assumes ok: "lists_ok m h F" and x: "SIZE m x = n" and new: "x \<notin> fst ` F"
  shows "lists_ok m (insert_freelump m x (size_class n) h) (insert (x, n) F)"
proof -
  let ?l = "lists h (size_class n)" and ?s = "\<lambda>p. SIZE m p < SIZE m x"
  let ?new = "takeWhile ?s ?l @ x # dropWhile ?s ?l"
  have l: "sorted (map (SIZE m) ?l)" "distinct ?l" "set ?l = {y. \<exists>k. (y, k) \<in> F \<and> size_class k = size_class n}"
    using ok size_class_bound unfolding lists_ok_def by auto
  have set_new: "set ?new = insert x (set ?l)" by (metis (no_types, lifting) Un_insert_right list.simps(15) set_append takeWhile_dropWhile_id)
  have xn: "x \<notin> set ?l" using l(3) new by force
  have "set (takeWhile ?s ?l) \<inter> set (dropWhile ?s ?l) = {}" using l(2) by (metis distinct_append takeWhile_dropWhile_id)
  then have "distinct ?new" using xn l(2) by (auto dest: set_takeWhileD set_dropWhileD)
  moreover have "sorted (map (SIZE m) ?new)" by (rule sorted_insort_While [OF l(1)])
  moreover have "set ?new = {y. \<exists>k. (y, k) \<in> insert (x, n) F \<and> size_class k = size_class n}" unfolding set_new l(3) by auto
  moreover have "set (lists h c) = {y. \<exists>k. (y, k) \<in> insert (x, n) F \<and> size_class k = c}" if "c < SIZE_CLASSES" "c \<noteq> size_class n" for c
    using ok that unfolding lists_ok_def by auto
  ultimately show ?thesis using ok x unfolding lists_ok_def insert_freelump_def Let_def by auto
qed

lemma remove_freelump_ok:
  assumes ok: "lists_ok m h F" and x: "(x, n) \<in> F"
  shows "\<exists>h'. remove_freelump x (size_class (SIZE m x)) h = Inr h' \<and> lists_ok m h' (F - {(x, n)})"
proof -
  let ?l = "lists h (size_class n)" and ?h = "h\<lparr>lists := (lists h)(size_class n := remove1 x (lists h (size_class n)))\<rparr>"
  have sx: "SIZE m x = n" by (rule lists_ok_size [OF ok x])
  have l: "sorted (map (SIZE m) ?l)" "distinct ?l" "set ?l = {y. \<exists>k. (y, k) \<in> F \<and> size_class k = size_class n}"
    using ok size_class_bound unfolding lists_ok_def by auto
  have xl: "x \<in> set ?l" using l(3) x by blast
  then have e: "remove_freelump x (size_class (SIZE m x)) h = Inr ?h" by (simp add: remove_freelump_def sx)
  have fn: "(y, k) \<in> F \<Longrightarrow> k = SIZE m y" for y k using lists_ok_size [OF ok] by auto
  have "sorted (map (SIZE m) (remove1 x ?l))"
  proof -
    obtain as bs where ab: "?l = as @ x # bs" "x \<notin> set as" using split_list_first [OF xl] by blast
    then show ?thesis using l(1) by (simp add: remove1_append sorted_append)
  qed
  moreover have "set (remove1 x ?l) = {y. \<exists>k. (y, k) \<in> F - {(x, n)} \<and> size_class k = size_class n}"
    unfolding set_remove1_eq [OF l(2)] l(3) using fn sx x by auto
  moreover have "set (lists h c) = {y. \<exists>k. (y, k) \<in> F - {(x, n)} \<and> size_class k = c}" if "c < SIZE_CLASSES" "c \<noteq> size_class n" for c
    using ok that unfolding lists_ok_def by auto
  ultimately have "lists_ok m ?h (F - {(x, n)})" using ok l(2) unfolding lists_ok_def by auto
  with e show ?thesis by blast
qed

section \<open>Arenas\<close>

text \<open>
  Abstractly a region is a sequence of lumps, each with its size and whether it is free. \<open>seg\<close> says that the headers
  and footers in memory from \<open>p\<close> on describe such a sequence; \<open>pf\<close> is whether the lump before is free. The sequence ends with the two dummy headers.
\<close>

type_synonym lump = "nat \<times> bool"

definition extent :: "lump list \<Rightarrow> nat" where "extent ls = sum_list (map fst ls)"

lemma extent_simps [simp]: "extent [] = 0" "extent (l # ls) = fst l + extent ls" "extent (xs @ ys) = extent xs + extent ys"
  by (simp_all add: extent_def)

definition end_free :: "bool \<Rightarrow> lump list \<Rightarrow> bool" where "end_free pf ls = (if ls = [] then pf else snd (last ls))"

lemma end_free_simps [simp]: "end_free pf [] = pf" "end_free pf ((n, f) # ls) = end_free f ls" "end_free pf (xs @ ys) = end_free (end_free pf xs) ys"
  by (auto simp: end_free_def)

fun seg :: "memory \<Rightarrow> nat \<Rightarrow> bool \<Rightarrow> lump list \<Rightarrow> bool" where
  "seg m p pf [] \<longleftrightarrow> True"
| "seg m p pf ((n, f) # ls) \<longleftrightarrow> SIZE m p = n \<and> 0 < n \<and> 16 dvd n \<and> prev_word (m (HEADER p)) = (\<not> pf) \<and> \<not> (pf \<and> f) \<and> (f \<longrightarrow> m (FOOTER p n) = n) \<and> seg m (p + n) f ls"

definition dummy :: "memory \<Rightarrow> nat \<Rightarrow> bool \<Rightarrow> bool" where
  "dummy m p pf \<longleftrightarrow> SIZE m p = MEMALIGN \<and> prev_word (m (HEADER p)) = (\<not> pf) \<and> prev_word (m (HEADER (p + MEMALIGN)))"

definition tiled :: "memory \<Rightarrow> nat \<Rightarrow> bool \<Rightarrow> lump list \<Rightarrow> bool" where
  "tiled m p pf ls \<longleftrightarrow> seg m p pf ls \<and> dummy m (p + extent ls) (end_free pf ls)"

fun lumps :: "nat \<Rightarrow> lump list \<Rightarrow> (nat \<times> nat \<times> bool) list" where
  "lumps p [] = []"
| "lumps p ((n, f) # ls) = (p, n, f) # lumps (p + n) ls"

lemma lumps_append [simp]: "lumps p (xs @ ys) = lumps p xs @ lumps (p + extent xs) ys"
  by (induction xs arbitrary: p) (auto simp: add.assoc)

lemma seg_append [simp]: "seg m p pf (xs @ ys) \<longleftrightarrow> seg m p pf xs \<and> seg m (p + extent xs) (end_free pf xs) ys"
  by (induction xs arbitrary: p pf) (auto simp: add.assoc)

lemma tiled_append: "tiled m p pf (xs @ ys) \<longleftrightarrow> seg m p pf xs \<and> tiled m (p + extent xs) (end_free pf xs) ys"
  by (auto simp: tiled_def add.assoc)

lemma tiled_Cons: "tiled m p pf ((n, f) # ls) \<longleftrightarrow> seg m p pf [(n, f)] \<and> tiled m (p + n) f ls"
  using tiled_append [of m p pf "[(n, f)]" ls] by simp

lemma seg_lumps: "seg m p pf ls \<Longrightarrow> (x, n, f) \<in> set (lumps p ls) \<Longrightarrow> SIZE m x = n \<and> 0 < n \<and> 16 dvd n \<and> p \<le> x \<and> x + n \<le> p + extent ls"
  by (induction ls arbitrary: p pf) (auto, fastforce+)

text \<open>Only the words of its own footprint matter to a sequence.\<close>

lemma seg_cong:
  "seg m p pf ls \<Longrightarrow> 4 \<le> p \<Longrightarrow> \<forall>a. p - 4 \<le> a \<longrightarrow> a < p + extent ls - 4 \<longrightarrow> m' a = m a \<Longrightarrow> seg m' p pf ls"
proof (induction ls arbitrary: p pf)
  case (Cons l ls)
  obtain n f where l: "l = (n, f)" by fastforce
  have n: "0 < n" "16 dvd n" "seg m (p + n) f ls" using Cons.prems(1) l by auto
  then have n16: "16 \<le> n" by (auto dest: dvd_imp_le)
  have "m' (HEADER p) = m (HEADER p)" "m' (FOOTER p n) = m (FOOTER p n)"
    using Cons.prems(2) n16 l by (auto intro!: Cons.prems(3) [rule_format] simp: HEADER_def FOOTER_def GC_HEAD_def)
  moreover have "seg m' (p + n) f ls"
    by (rule Cons.IH [OF n(3)]) (use Cons.prems(2,3) l in auto)
  ultimately show ?case using Cons.prems(1) l by (simp add: SIZE_def)
qed simp

lemma tiled_cong:
  assumes t: "tiled m p pf ls" and p: "4 \<le> p" and eq: "\<forall>a. p - 4 \<le> a \<longrightarrow> a < p + extent ls + 8 \<longrightarrow> m' a = m a"
  shows "tiled m' p pf ls"
proof -
  have "seg m' p pf ls" by (rule seg_cong [of m]) (use t p eq in \<open>auto simp: tiled_def\<close>)
  moreover have "m' (HEADER (p + extent ls)) = m (HEADER (p + extent ls))" "m' (HEADER (p + extent ls + MEMALIGN)) = m (HEADER (p + extent ls + MEMALIGN))"
    using p by (auto intro!: eq [rule_format] simp: HEADER_def gc_consts)
  ultimately show ?thesis using t by (simp add: tiled_def dummy_def SIZE_def)
qed

text \<open>The previous-in-use bit at the start of a sequence is independent of the rest.\<close>

lemma prev_flags [simp]: "marked_word (set_bit 2 h) = marked_word h" "free_word (set_bit 2 h) = free_word h" "prev_word (set_bit 2 h)" "\<not> prev_word (unset_bit 2 h)"
  "marked_word (unset_bit 2 h) = marked_word h"
  by (simp_all add: marked_word_def free_word_def prev_word_def bit_set_bit_iff bit_unset_bit_iff)

lemma prev_size [simp]: "size_word (set_bit 2 h) = size_word h" "size_word (unset_bit 2 h) = size_word h"
proof -
  have "drop_bit 3 (set_bit 2 h) = drop_bit 3 h" "drop_bit 3 (unset_bit 2 h) = drop_bit 3 h"
    by (rule bit_eqI, simp add: bit_drop_bit_eq bit_set_bit_iff bit_unset_bit_iff)+
  then show "size_word (set_bit 2 h) = size_word h" "size_word (unset_bit 2 h) = size_word h" by (simp_all add: size_word_def)
qed

lemma seg_elsewhere:
  assumes s: "seg m p pf ls" and p: "4 \<le> p" and a: "a < p - 4 \<or> p + extent ls - 4 \<le> a"
  shows "seg (m(a := v)) p pf ls"
  by (rule seg_cong [OF s p]) (use a in auto)

lemma tiled_set_prev:
  assumes t: "tiled m p True ls" and p: "4 \<le> p"
  shows "tiled (set_prev p m) p False ls"
proof (cases ls)
  case Nil
  then show ?thesis using t p by (auto simp: tiled_def dummy_def set_prev_def SIZE_def HEADER_def gc_consts)
next
  case (Cons l ls')
  obtain n f where l: "l = (n, f)" by fastforce
  have s: "seg m p True [(n, f)]" and r: "tiled m (p + n) f ls'" using t unfolding Cons l tiled_Cons by blast+
  then have "0 < n" "16 dvd n" by auto
  then have n16: "16 \<le> n" by (auto dest: dvd_imp_le)
  have "tiled (set_prev p m) (p + n) f ls'" unfolding set_prev_def
    by (rule tiled_cong [OF r]) (use p n16 in \<open>auto simp: HEADER_def GC_HEAD_def\<close>)
  moreover have "seg (set_prev p m) p False [(n, f)]" using s p n16 by (auto simp: set_prev_def SIZE_def FOOTER_def HEADER_def GC_HEAD_def)
  ultimately show ?thesis unfolding Cons l tiled_Cons by blast
qed

lemma tiled_clear_prev:
  assumes t: "tiled m p False ls" and p: "4 \<le> p" and nf: "\<forall>n f ls'. ls = (n, f) # ls' \<longrightarrow> \<not> f"
  shows "tiled (clear_prev p m) p True ls"
proof (cases ls)
  case Nil
  then show ?thesis using t p by (auto simp: tiled_def dummy_def clear_prev_def SIZE_def HEADER_def gc_consts)
next
  case (Cons l ls')
  obtain n f where l: "l = (n, f)" by fastforce
  have s: "seg m p False [(n, f)]" and r: "tiled m (p + n) f ls'" using t unfolding Cons l tiled_Cons by blast+
  then have "0 < n" "16 dvd n" by auto
  then have n16: "16 \<le> n" by (auto dest: dvd_imp_le)
  have "tiled (clear_prev p m) (p + n) f ls'" unfolding clear_prev_def
    by (rule tiled_cong [OF r]) (use p n16 in \<open>auto simp: HEADER_def GC_HEAD_def\<close>)
  moreover have "seg (clear_prev p m) p True [(n, f)]" using s p n16 nf Cons l by (auto simp: clear_prev_def SIZE_def FOOTER_def HEADER_def GC_HEAD_def)
  ultimately show ?thesis unfolding Cons l tiled_Cons by blast
qed

lemma tiled_size:
  assumes "tiled m p pf ((n, f) # ls)" shows "SIZE m p = n" "16 \<le> n" "16 dvd n" "prev_word (m (HEADER p)) = (\<not> pf)"
  using assms by (auto simp: tiled_def dest: dvd_imp_le)

lemma or_flags:
  assumes "8 dvd n"
  shows "size_word (n OR take_bit 3 h) = n" "prev_word (n OR take_bit 3 h) = prev_word h" "marked_word (n OR take_bit 3 h) = marked_word h" "free_word (n OR take_bit 3 h) = free_word h"
proof -
  obtain k where k: "n = push_bit 3 k" using assms by (auto simp: push_bit_eq_mult mult.commute)
  have "drop_bit 3 (push_bit 3 k OR take_bit 3 h) = k" for k :: nat by (rule bit_eqI) (simp add: bit_simps)
  then show "size_word (n OR take_bit 3 h) = n" by (simp add: size_word_def k)
  show "prev_word (n OR take_bit 3 h) = prev_word h" "marked_word (n OR take_bit 3 h) = marked_word h" "free_word (n OR take_bit 3 h) = free_word h"
    by (simp_all add: k prev_word_def marked_word_def free_word_def bit_simps)
qed

lemma set_size_simps:
  assumes "8 dvd n"
  shows "SIZE (set_size p n m) p = n" "prev_word (set_size p n m (HEADER p)) = prev_word (m (HEADER p))" "marked_word (set_size p n m (HEADER p)) = marked_word (m (HEADER p))"
  using or_flags [OF assms] by (simp_all add: SIZE_def set_size_def)

lemma plain_size: "8 dvd n \<Longrightarrow> size_word n = n" "8 dvd n \<Longrightarrow> \<not> prev_word n" "8 dvd n \<Longrightarrow> \<not> marked_word n"
  using or_flags [of n 0] by (simp_all add: prev_word_def marked_word_def)

section \<open>The heap of the manual memory manager\<close>

type_synonym arena = "nat \<times> lump list"

definition footprint :: "arena \<Rightarrow> nat set" where
  "footprint A = (case A of (q, ls) \<Rightarrow> {q - 4..<q + extent ls + 8})"

definition places :: "arena list \<Rightarrow> bool" where
  "places As \<longleftrightarrow> (\<forall>(q, ls)\<in>set As. 16 dvd q \<and> 16 \<le> q) \<and> sorted_wrt (\<lambda>A B. footprint A \<inter> footprint B = {}) As"

definition all_lumps :: "arena list \<Rightarrow> (nat \<times> nat \<times> bool) set" where
  "all_lumps As = (\<Union>(q, ls)\<in>set As. set (lumps q ls))"

definition frees :: "(nat \<times> nat \<times> bool) set \<Rightarrow> (nat \<times> nat) set" where
  "frees L = {(x, n). (x, n, True) \<in> L}"

definition useds :: "arena list \<Rightarrow> (nat \<times> nat) set" where
  "useds As = {(x, n). (x, n, False) \<in> all_lumps As}"

text \<open>
  Every region is described by its arena, and the free lists have exactly the free lumps. No two free lumps are adjacent.
\<close>

definition tilings :: "memory \<Rightarrow> arena list \<Rightarrow> bool" where
  "tilings m As \<longleftrightarrow> (\<forall>(q, ls)\<in>set As. tiled m q False ls)"

definition heap_inv :: "memory \<Rightarrow> gc_heap \<Rightarrow> arena list \<Rightarrow> bool" where
  "heap_inv m h As \<longleftrightarrow> places As \<and> tilings m As \<and> lists_ok m h (frees (all_lumps As))"

text \<open>The words a program may use in the lumps it was given.\<close>

definition payload :: "nat \<Rightarrow> nat \<Rightarrow> nat set" where
  "payload x n = {x..<x + n - GC_HEAD}"

definition area :: "nat \<Rightarrow> nat \<Rightarrow> nat set" where
  "area x n = {x - GC_HEAD..<x + n - GC_HEAD}"

definition keeps :: "(nat \<times> nat) set \<Rightarrow> memory \<Rightarrow> memory \<Rightarrow> bool" where
  "keeps U m m' \<longleftrightarrow> (\<forall>(x, n)\<in>U. (\<forall>a\<in>payload x n. m' a = m a) \<and> marked m' x = marked m x)"

lemma all_lumps_simps [simp]: "all_lumps [] = {}" "all_lumps (A # As) = set (lumps (fst A) (snd A)) \<union> all_lumps As"
  "all_lumps (As @ Bs) = all_lumps As \<union> all_lumps Bs"
  by (auto simp: all_lumps_def split: prod.splits)

lemma frees_simps [simp]: "frees (L \<union> M) = frees L \<union> frees M" "frees {} = {}" "frees (insert (x, n, True) L) = insert (x, n) (frees L)"
  "frees (insert (x, n, False) L) = frees L"
  by (auto simp: frees_def)

lemma focus:
  assumes "(x, n, f) \<in> all_lumps As"
  shows "\<exists>A1 q l1 l2 A2. As = A1 @ (q, l1 @ (n, f) # l2) # A2 \<and> x = q + extent l1"
proof -
  obtain q ls where q: "(q, ls) \<in> set As" "(x, n, f) \<in> set (lumps q ls)" using assms by (auto simp: all_lumps_def)
  obtain A1 A2 where A: "As = A1 @ (q, ls) # A2" using split_list [OF q(1)] by blast
  have "\<exists>l1 l2. ls = l1 @ (n, f) # l2 \<and> x = q + extent l1" using q(2)
  proof (induction ls arbitrary: q)
    case (Cons l ls)
    obtain k g where l: "l = (k, g)" by fastforce
    show ?case
    proof (cases "(x, n, f) = (q, k, g)")
      case True
      then show ?thesis using l by (intro exI [of _ "[]"] exI [of _ ls]) auto
    next
      case False
      then obtain l1 l2 where "ls = l1 @ (n, f) # l2" "x = q + k + extent l1" using Cons.IH [of "q + k"] Cons.prems l by auto
      then show ?thesis using l by (intro exI [of _ "l # l1"] exI [of _ l2]) auto
    qed
  qed simp
  then show ?thesis using A by blast
qed

lemma lump_facts:
  assumes "tilings m As" "(x, n, f) \<in> all_lumps As"
  shows "SIZE m x = n" "16 \<le> n" "16 dvd n"
proof -
  obtain q ls where "(q, ls) \<in> set As" "(x, n, f) \<in> set (lumps q ls)" using assms(2) by (auto simp: all_lumps_def)
  then have "SIZE m x = n \<and> 0 < n \<and> 16 dvd n" using assms(1) seg_lumps [of m q False ls x n f] by (auto simp: tilings_def tiled_def)
  then show "SIZE m x = n" "16 \<le> n" "16 dvd n" by (auto dest: dvd_imp_le)
qed

lemma places_replace: "places (A1 @ (q, ls) # A2) \<Longrightarrow> extent ls' = extent ls \<Longrightarrow> places (A1 @ (q, ls') # A2)"
  by (auto simp: places_def sorted_wrt_append footprint_def)

text \<open>What is outside the arena in focus is not there.\<close>

lemma others_apart:
  assumes pl: "places (A1 @ (q, ls) # A2)" and t: "tilings m (A1 @ A2)" and x: "(x, n, f) \<in> all_lumps (A1 @ A2)"
  shows "x + n \<le> q - 4 \<or> q + extent ls + 8 \<le> x - 4"
proof -
  obtain r ks where r: "(r, ks) \<in> set (A1 @ A2)" "(x, n, f) \<in> set (lumps r ks)" using x by (auto simp: all_lumps_def)
  have s: "seg m r False ks" using t r(1) by (auto simp: tilings_def tiled_def)
  note b = seg_lumps [OF s r(2)]
  have d: "footprint (r, ks) \<inter> footprint (q, ls) = {}" using pl r(1) by (auto simp: places_def sorted_wrt_append)
  have "16 \<le> r" "16 \<le> q" using pl r(1) by (auto simp: places_def)
  show ?thesis
  proof (rule ccontr)
    assume n: "\<not> ?thesis"
    have "max (r - 4) (q - 4) \<in> footprint (r, ks) \<inter> footprint (q, ls)"
      using n b \<open>16 \<le> r\<close> \<open>16 \<le> q\<close> by (auto simp: footprint_def)
    with d show False by blast
  qed
qed

lemma tilings_frame:
  assumes pl: "places (A1 @ (q, ls) # A2)" and t: "tilings m (A1 @ A2)" and eq: "\<And>a. a \<notin> footprint (q, ls) \<Longrightarrow> m' a = m a"
  shows "tilings m' (A1 @ A2)"
  unfolding tilings_def
proof (intro ballI, clarify)
  fix r ks assume r: "(r, ks) \<in> set (A1 @ A2)"
  have d: "footprint (r, ks) \<inter> footprint (q, ls) = {}" using pl r by (auto simp: places_def sorted_wrt_append)
  have r16: "16 \<le> r" using pl r by (auto simp: places_def)
  have tr: "tiled m r False ks" using t r by (auto simp: tilings_def)
  have "\<forall>a. r - 4 \<le> a \<longrightarrow> a < r + extent ks + 8 \<longrightarrow> m' a = m a"
  proof (intro allI impI)
    fix a assume "r - 4 \<le> a" "a < r + extent ks + 8"
    then have "a \<in> footprint (r, ks)" by (simp add: footprint_def)
    then show "m' a = m a" using d by (intro eq) blast
  qed
  with r16 show "tiled m' r False ks" by (intro tiled_cong [OF tr]) simp_all
qed

lemma tilings_split [simp]: "tilings m (A1 @ (q, ls) # A2) \<longleftrightarrow> tilings m (A1 @ A2) \<and> tiled m q False ls"
  by (auto simp: tilings_def)

section \<open>Allocation keeps the heap\<close>

lemma lump_size_facts:
  assumes "sz < 2 ^ 31"
  shows "16 dvd lump_size sz" "sz + 12 \<le> lump_size sz" "lump_size sz \<le> sz + 27" "16 \<le> lump_size sz"
proof -
  have "lump_size sz = (sz + 27) div 16 * 16" using assms by (simp add: lump_size_def gc_consts)
  moreover have "(sz + 27) div 16 * 16 + (sz + 27) mod 16 = sz + 27" "(sz + 27) mod 16 < 16" by (simp_all add: div_mult_mod_eq)
  ultimately show a: "16 dvd lump_size sz" "sz + 12 \<le> lump_size sz" "lump_size sz \<le> sz + 27" by (simp, linarith+)
  show "16 \<le> lump_size sz" using dvd_imp_le [OF a(1)] a(2) by simp
qed

text \<open>The memory after a lump of \<open>n0\<close> bytes was given out for \<open>n\<close>.\<close>

definition carve :: "nat \<Rightarrow> nat \<Rightarrow> nat \<Rightarrow> memory \<Rightarrow> memory" where
  "carve p n0 n m = clear_words p (n - GC_HEAD) (set_prev (p + n)
     (if n0 > n then set_size p n (m(FOOTER (p + n) (n0 - n) := n0 - n, HEADER (p + n) := n0 - n)) else m))"

definition carved :: "nat \<Rightarrow> nat \<Rightarrow> lump list" where
  "carved n0 n = (n, False) # (if n0 > n then [(n0 - n, True)] else [])"

lemma carved_extent: "n \<le> n0 \<Longrightarrow> extent (carved n0 n) = n0"
  by (simp add: carved_def)

lemma carve_at:
  assumes "16 \<le> p" "16 \<le> n" "n < n0 \<longrightarrow> n + 16 \<le> n0"
  shows "carve p n0 n m a =
    (if p \<le> a \<and> a < p + n - 4 then 0
     else if a = p + n - 4 then set_bit 2 (if n < n0 then n0 - n else m a)
     else if n < n0 \<and> a = p - 4 then n OR take_bit 3 (m a)
     else if n < n0 \<and> a = p + n0 - 8 then n0 - n
     else m a)"
proof -
  define A B C where ABC: "A = p - 4" "B = p + n - 4" "C = p + n0 - 8"
  have e: "HEADER (p + n) = B" "HEADER p = A" "p + (n - GC_HEAD) = B" using assms by (simp_all add: HEADER_def GC_HEAD_def ABC)
  have o: "A < p" "p < B" "n < n0 \<Longrightarrow> B < C" using assms by (auto simp: ABC)
  show ?thesis
  proof (cases "n < n0")
    case True
    then have f: "FOOTER (p + n) (n0 - n) = C" by (simp add: FOOTER_def GC_HEAD_def ABC)
    show ?thesis unfolding carve_def clear_words_def set_prev_def set_size_def e f ABC [symmetric] using True o by auto
  next
    case False
    then show ?thesis unfolding carve_def clear_words_def set_prev_def e ABC [symmetric] using o by auto
  qed
qed

lemma eight_dvd: "16 dvd n \<Longrightarrow> 8 dvd (n::nat)"
  by presburger

lemma tiled_carve:
  assumes t: "tiled m p pf ((n0, True) # l2)" and p: "16 \<le> p" and n: "16 \<le> n" "n \<le> n0" "16 dvd n"
  shows "tiled (carve p n0 n m) p pf (carved n0 n @ l2)" "SIZE (carve p n0 n m) p = n" "marked (carve p n0 n m) p = marked m p"
proof -
  note s = tiled_size [OF t]
  have r: "tiled m (p + n0) True l2" and pf: "\<not> pf" using t by (auto simp: tiled_Cons)
  have hp: "HEADER p = p - 4" "HEADER (p + n) = p + n - 4" using p by (simp_all add: HEADER_def GC_HEAD_def)
  have gap: "n + 16 \<le> n0" "16 dvd n0 - n" if "n < n0"
  proof -
    show "16 dvd n0 - n" using s(3) n(3) by simp
    then show "n + 16 \<le> n0" using that dvd_imp_le [of 16 "n0 - n"] by simp
  qed
  then have "n < n0 \<longrightarrow> n + 16 \<le> n0" by blast
  note at = carve_at [OF p n(1) this]
  have h1: "carve p n0 n m (p - 4) = (if n < n0 then n OR take_bit 3 (m (p - 4)) else m (p - 4))" 
  proof -
    have "\<not> p \<le> p - 4" "p - 4 \<noteq> p + n - 4" "p - 4 \<noteq> p + n0 - 8" using p n by linarith+
    then show ?thesis unfolding at by simp
  qed
  have head: "size_word (carve p n0 n m (p - 4)) = n" "prev_word (carve p n0 n m (p - 4))" "marked_word (carve p n0 n m (p - 4)) = marked_word (m (p - 4))"
    unfolding h1 using or_flags [OF eight_dvd [OF n(3)], of "m (p - 4)"] s(1,4) pf n(2) by (auto simp: SIZE_def hp)
  then show sz: "SIZE (carve p n0 n m) p = n" "marked (carve p n0 n m) p = marked m p" by (simp_all add: SIZE_def marked_def hp)
  have first: "seg (carve p n0 n m) p pf [(n, False)]" using head sz n pf by (simp add: hp)
  show "tiled (carve p n0 n m) p pf (carved n0 n @ l2)"
  proof (cases "n < n0")
    case True
    let ?s = "n0 - n"
    have "tiled (carve p n0 n m) (p + n0) True l2" by (rule tiled_cong [OF r]) (use p n gap(1) [OF True] in \<open>auto simp: at\<close>)
    moreover have "carve p n0 n m (p + n - 4) = set_bit 2 ?s" "carve p n0 n m (p + n0 - 8) = ?s"
    proof -
      have o: "\<not> p + n - 4 < p + n - 4" "\<not> p + n0 - 8 < p + n - 4" "p + n0 - 8 \<noteq> p + n - 4" "p + n0 - 8 \<noteq> p - 4" using p n gap(1) [OF True] by linarith+
      show "carve p n0 n m (p + n - 4) = set_bit 2 ?s" unfolding at using o(1) True by simp
      show "carve p n0 n m (p + n0 - 8) = ?s" unfolding at if_not_P [OF o(3)] using o True by simp
    qed
    moreover have "FOOTER (p + n) ?s = p + n0 - 8" using True by (simp add: FOOTER_def GC_HEAD_def)
    ultimately have "tiled (carve p n0 n m) (p + n) False ((?s, True) # l2)"
      using True gap(2) [OF True] plain_size(1) [OF eight_dvd [OF gap(2) [OF True]]] n(2) by (simp add: tiled_Cons SIZE_def hp)
    then show ?thesis using first True by (simp add: carved_def tiled_Cons)
  next
    case False
    then have e: "n0 = n" using n(2) by simp
    have "tiled (set_prev (p + n) m) (p + n) False l2" by (rule tiled_set_prev) (use r e p in auto)
    have agree: "carve p n0 n m a = set_prev (p + n) m a" if "p + n - 4 \<le> a" for a
      unfolding at set_prev_def hp using that False by (cases "a = p + n - 4") auto
    have "4 \<le> p + n" using p by linarith
    with \<open>tiled (set_prev (p + n) m) (p + n) False l2\<close> agree have "tiled (carve p n0 n m) (p + n) False l2" using tiled_cong by blast
    then show ?thesis using first False by (simp add: carved_def tiled_Cons)
  qed
qed

text \<open>The lumps around a position: \<open>mid\<close> covers \<open>n0\<close> bytes from there.\<close>

definition around :: "arena list \<Rightarrow> nat \<Rightarrow> lump list \<Rightarrow> nat \<Rightarrow> lump list \<Rightarrow> arena list \<Rightarrow> (nat \<times> nat \<times> bool) set" where
  "around A1 q l1 n0 l2 A2 = all_lumps (A1 @ A2) \<union> set (lumps q l1) \<union> set (lumps (q + extent l1 + n0) l2)"

lemma all_lumps_around:
  assumes "extent mid = n0"
  shows "all_lumps (A1 @ (q, l1 @ mid @ l2) # A2) = around A1 q l1 n0 l2 A2 \<union> set (lumps (q + extent l1) mid)"
  using assms by (auto simp: around_def)

lemma around_apart:
  assumes pl: "places (A1 @ (q, l1 @ mid @ l2) # A2)" and t: "tilings m (A1 @ A2)" and s: "seg m q False l1" "seg m (q + extent l1 + n0) pf l2" and e: "extent mid = n0"
    and x: "(x, k, f) \<in> around A1 q l1 n0 l2 A2"
  shows "x + k \<le> q + extent l1 \<or> q + extent l1 + n0 \<le> x" "16 \<le> k" "SIZE m x = k"
proof -
  consider "(x, k, f) \<in> all_lumps (A1 @ A2)" | "(x, k, f) \<in> set (lumps q l1)" | "(x, k, f) \<in> set (lumps (q + extent l1 + n0) l2)"
    using x unfolding around_def by blast
  then have "(x + k \<le> q + extent l1 \<or> q + extent l1 + n0 \<le> x) \<and> 0 < k \<and> 16 dvd k \<and> SIZE m x = k"
  proof cases
    case 1
    have q: "16 \<le> q" using pl by (auto simp: places_def)
    have "x + k \<le> q - 4 \<or> q + extent (l1 @ mid @ l2) + 8 \<le> x - 4" by (rule others_apart [OF pl t 1])
    then have "x + k \<le> q + extent l1 \<or> q + extent l1 + n0 \<le> x" using q e by auto
    then show ?thesis using lump_facts [OF t 1] by auto
  next
    case 2
    then show ?thesis using seg_lumps [OF s(1) 2] by auto
  next
    case 3
    then show ?thesis using seg_lumps [OF s(2) 3] by auto
  qed
  then show "x + k \<le> q + extent l1 \<or> q + extent l1 + n0 \<le> x" "16 \<le> k" "SIZE m x = k" by (auto dest: dvd_imp_le)
qed

lemma seg_extent: "seg m p pf ls \<Longrightarrow> 16 dvd extent ls"
  by (induction ls arbitrary: p pf) auto

lemma keeps_frame:
  assumes ap: "\<And>x k. (x, k) \<in> U \<Longrightarrow> (x + k \<le> p \<or> p + n0 \<le> x) \<and> 16 \<le> k" and p: "16 \<le> p" "16 \<le> n0"
    and out: "\<And>a. a < p - 4 \<or> p + n0 - 4 < a \<Longrightarrow> m' a = m a" and edge: "marked_word (m' (p + n0 - 4)) = marked_word (m (p + n0 - 4))"
  shows "keeps U m m'"
  unfolding keeps_def
proof (clarify)
  fix x k assume "(x, k) \<in> U"
  then have r: "x + k \<le> p \<or> p + n0 \<le> x" "16 \<le> k" using ap by blast+
  have "m' a = m a" if "a \<in> payload x k" for a using r that p by (intro out) (auto simp: payload_def GC_HEAD_def)
  moreover have "marked m' x = marked m x"
  proof (cases "x = p + n0")
    case True
    then show ?thesis using edge by (simp add: marked_def HEADER_def GC_HEAD_def)
  next
    case False
    then have "m' (HEADER x) = m (HEADER x)" using r p by (intro out) (auto simp: HEADER_def GC_HEAD_def)
    then show ?thesis by (simp add: marked_def)
  qed
  ultimately show "(\<forall>a\<in>payload x k. m' a = m a) \<and> marked m' x = marked m x" by blast
qed

lemma mem_allocate_eq:
  assumes f: "find_freelump m h n (size_class n) = Some p" and rm: "remove_freelump p (size_class (SIZE m p)) h = Inr h1"
    and n: "n = lump_size sz" "16 \<le> n" "16 dvd n" "n \<le> SIZE m p"
  shows "mem_allocate sz (h, m) = Inr (Some p,
      (if n < SIZE m p then insert_freelump (m(FOOTER (p + n) (SIZE m p - n) := SIZE m p - n, HEADER (p + n) := SIZE m p - n)) (p + n) (size_class (SIZE m p - n)) h1 else h1)\<lparr>halloc := halloc h1 + n\<rparr>,
      carve p (SIZE m p) n m)"
proof (cases "n < SIZE m p")
  case True
  let ?m1 = "m(FOOTER (p + n) (SIZE m p - n) := SIZE m p - n, HEADER (p + n) := SIZE m p - n)"
  have "SIZE (set_size p n ?m1) p = n" by (rule set_size_simps(1) [OF eight_dvd [OF n(3)]])
  then have nl: "NEXT_LUMP (set_size p n ?m1) p = p + n" by (simp add: NEXT_LUMP_def)
  have ha: "halloc (insert_freelump ?m1 (p + n) (size_class (SIZE m p - n)) h1) = halloc h1" by (simp add: insert_freelump_def Let_def)
  show ?thesis using True f rm nl ha unfolding mem_allocate_def n(1) [symmetric] carve_def by (simp add: split_lump_def Let_def)
next
  case False
  then have "SIZE m p = n" using n(4) by simp
  then have "NEXT_LUMP m p = p + n" by (simp add: NEXT_LUMP_def)
  then show ?thesis using False f rm unfolding mem_allocate_def n(1) [symmetric] carve_def by (simp add: split_lump_def Let_def)
qed

theorem mem_allocate_ok:
  assumes inv: "heap_inv m h As" and sz: "sz < 2 ^ 31"
  shows "\<exists>r h' m'. mem_allocate sz (h, m) = Inr (r, h', m') \<and>
    (case r of
       None \<Rightarrow> h' = h \<and> m' = m \<and> (\<forall>(x, n)\<in>frees (all_lumps As). n < lump_size sz)
     | Some p \<Rightarrow>
         (\<exists>As'. heap_inv m' h' As' \<and> useds As' = insert (p, lump_size sz) (useds As) \<and> map (\<lambda>(q, ls). (q, extent ls)) As' = map (\<lambda>(q, ls). (q, extent ls)) As) \<and>
         (\<exists>n0. (p, n0) \<in> frees (all_lumps As) \<and> lump_size sz \<le> n0 \<and> (\<forall>(x, k)\<in>frees (all_lumps As). lump_size sz \<le> k \<longrightarrow> n0 \<le> k)) \<and>
         keeps (useds As) m m' \<and> (\<forall>(x, k)\<in>useds As. area x k \<inter> area p (lump_size sz) = {}) \<and> (\<forall>a\<in>payload p (lump_size sz). m' a = 0) \<and>
         marked m' p = marked m p \<and> 16 \<le> p \<and> 16 dvd p)"
proof -
  let ?n = "lump_size sz" and ?F = "frees (all_lumps As)"
  have pl: "places As" and ti: "tilings m As" and lo: "lists_ok m h ?F" using inv unfolding heap_inv_def by blast+
  note nf = lump_size_facts [OF sz]
  show ?thesis
  proof (cases "find_freelump m h ?n (size_class ?n)")
    case None
    then have "mem_allocate sz (h, m) = Inr (None, h, m)" by (simp add: mem_allocate_def Let_def)
    then show ?thesis using find_freelump_best [OF lo, of ?n] None by auto
  next
    case (Some p)
    define n0 where "n0 = SIZE m p"
    have best: "(p, n0) \<in> ?F" "?n \<le> n0" "\<forall>(x, k)\<in>?F. ?n \<le> k \<longrightarrow> n0 \<le> k" using find_freelump_best [OF lo, of ?n] Some unfolding n0_def by auto
    then have pin: "(p, n0, True) \<in> all_lumps As" by (simp add: frees_def)
    obtain A1 q l1 l2 A2 where A: "As = A1 @ (q, l1 @ (n0, True) # l2) # A2" and p: "p = q + extent l1" using focus [OF pin] by blast
    have A': "As = A1 @ (q, l1 @ [(n0, True)] @ l2) # A2" using A by simp
    obtain h1 where h1: "remove_freelump p (size_class (SIZE m p)) h = Inr h1" "lists_ok m h1 (?F - {(p, n0)})" using remove_freelump_ok [OF lo best(1)] by blast
    have ti': "tilings m (A1 @ A2)" and tq: "tiled m q False (l1 @ (n0, True) # l2)" using ti unfolding A by simp_all
    have s1: "seg m q False l1" and tp: "tiled m p (end_free False l1) ((n0, True) # l2)" using tq unfolding tiled_append p by blast+
    then have t2: "tiled m (p + n0) True l2" and ef: "\<not> end_free False l1" by (auto simp: tiled_Cons)
    then have s2: "seg m (q + extent l1 + n0) True l2" unfolding p tiled_def by blast
    have q16: "16 \<le> q" "16 dvd q" using pl A by (auto simp: places_def)
    have p16: "16 \<le> p" using q16 p by simp
    let ?m' = "carve p n0 ?n m" and ?s = "n0 - ?n" and ?t = "p + ?n"
    let ?As' = "A1 @ (q, l1 @ carved n0 ?n @ l2) # A2"
    have n0d: "16 dvd n0" using lump_facts(3) [OF ti pin] .
    have gap: "?n < n0 \<longrightarrow> ?n + 16 \<le> n0" using n0d nf(1) dvd_imp_le [of 16 "n0 - ?n"] by (auto simp: dvd_diff_nat)
    note at = carve_at [OF p16 nf(4) gap]
    have out: "?m' a = m a" if "a < p - 4 \<or> p + n0 - 4 < a" for a
    proof -
      have "\<not> (p \<le> a \<and> a < p + ?n - 4)" "a \<noteq> p + ?n - 4" "a \<noteq> p - 4" "a \<noteq> p + n0 - 8" using that p16 nf(4) best(2) by linarith+
      then show ?thesis unfolding at by auto
    qed
    have edge: "marked_word (?m' (p + n0 - 4)) = marked_word (m (p + n0 - 4))"
    proof (cases "?n < n0")
      case True
      have "\<not> p + n0 - 4 < p + ?n - 4" "p + n0 - 4 \<noteq> p + ?n - 4" "p + n0 - 4 \<noteq> p - 4" "p + n0 - 4 \<noteq> p + n0 - 8" using True p16 nf(4) by linarith+
      then show ?thesis unfolding at by simp
    next
      case False
      then have "n0 = ?n" using best(2) by simp
      then show ?thesis unfolding at by simp
    qed
    let ?R = "around A1 q l1 n0 l2 A2"
    have pl': "places (A1 @ (q, l1 @ [(n0, True)] @ l2) # A2)" using pl unfolding A' .
    have apart: "x + k \<le> p \<or> p + n0 \<le> x" "16 \<le> k" "SIZE m x = k" if "(x, k, f) \<in> ?R" for x k f
      using around_apart [OF pl' ti' s1 s2 _ that] unfolding p by simp_all
    have n0_pos: "16 \<le> n0" using nf(4) best(2) by simp
    have all: "all_lumps As = insert (p, n0, True) ?R" unfolding A' by (subst all_lumps_around [of _ n0]) (simp_all add: p)
    have notin: "(x, k, f) \<notin> ?R" if "p \<le> x" "x < p + n0" for x k f using apart(1,2) [of x k f] that by force
    have F: "?F - {(p, n0)} = frees ?R" using notin [of p] n0_pos unfolding all by (auto simp: frees_def)
    have U: "useds As = {(x, k). (x, k, False) \<in> ?R}" unfolding useds_def all by auto
    have all': "all_lumps ?As' = insert (p, ?n, False) (if ?n < n0 then {(?t, ?s, True)} else {}) \<union> ?R"
      using all_lumps_around [OF carved_extent [OF best(2)], of A1 q l1 l2 A2] unfolding p [symmetric] by (auto simp: carved_def)
    have "useds ?As' = insert (p, ?n) {(x, k). (x, k, False) \<in> ?R}" unfolding useds_def all' by auto
    then have U': "useds ?As' = insert (p, ?n) (useds As)" unfolding U .
    have F': "frees (all_lumps ?As') = (if ?n < n0 then {(?t, ?s)} else {}) \<union> frees ?R" unfolding all' by (auto simp: frees_def)
    have places': "places ?As'" by (rule places_replace [OF pl [unfolded A]]) (simp add: carved_extent [OF best(2)])
    have foot: "?m' a = m a" if "a \<notin> footprint (q, l1 @ (n0, True) # l2)" for a
      using that p q16 n0_pos by (intro out) (auto simp: footprint_def)
    have "tilings ?m' (A1 @ A2)" by (rule tilings_frame [OF pl [unfolded A] ti' foot])
    moreover have "seg ?m' q False l1" by (rule seg_cong [OF s1]) (use q16 p out in auto)
    moreover have "tiled ?m' p (end_free False l1) (carved n0 ?n @ l2)" by (rule tiled_carve(1) [OF tp p16 nf(4) best(2) nf(1)])
    ultimately have til': "tilings ?m' ?As'" unfolding tilings_split tiled_append p by blast
    let ?m1 = "m(FOOTER ?t ?s := ?s, HEADER ?t := ?s)"
    let ?h' = "(if ?n < n0 then insert_freelump ?m1 ?t (size_class ?s) h1 else h1)\<lparr>halloc := halloc h1 + ?n\<rparr>"
    have ret: "mem_allocate sz (h, m) = Inr (Some p, ?h', ?m')" using mem_allocate_eq [OF Some h1(1) refl nf(4,1)] best(2) unfolding n0_def by simp
    have sizes: "\<forall>(x, k)\<in>frees (all_lumps ?As'). SIZE ?m' x = k" using lump_facts(1) [OF til'] by (auto simp: frees_def)
    have "\<exists>m2. lists_ok m2 ?h' (frees (all_lumps ?As'))"
    proof (cases "?n < n0")
      case True
      have ft: "FOOTER ?t ?s = p + n0 - 8" "HEADER ?t = p + ?n - 4" using True p16 by (simp_all add: FOOTER_def HEADER_def GC_HEAD_def)
      have sm: "SIZE ?m1 x = k" if "(x, k) \<in> frees ?R" for x k
      proof -
        have r: "(x, k, True) \<in> ?R" using that by (simp add: frees_def)
        have "x - 4 \<noteq> p + n0 - 8" "x - 4 \<noteq> p + ?n - 4" using apart(1,2) [OF r] True gap p16 by auto
        then show ?thesis using apart(3) [OF r] unfolding SIZE_def ft by (simp add: HEADER_def GC_HEAD_def)
      qed
      have l1: "lists_ok ?m1 h1 (frees ?R)" by (rule lists_ok_cong [OF h1(2) [unfolded F]]) (use sm in blast)
      have "SIZE ?m1 ?t = ?s" using plain_size(1) [of ?s] nf(1) n0d by (simp add: SIZE_def eight_dvd dvd_diff_nat)
      moreover have "?t \<notin> fst ` frees ?R" using notin [of ?t] True by (auto simp: frees_def)
      ultimately have "lists_ok ?m1 (insert_freelump ?m1 ?t (size_class ?s) h1) (insert (?t, ?s) (frees ?R))" by (rule insert_freelump_ok [OF l1])
      then show ?thesis unfolding F' using True by auto
    next
      case False
      then show ?thesis using h1(2) unfolding F F' by auto
    qed
    then have "lists_ok ?m' ?h' (frees (all_lumps ?As'))" using lists_ok_cong sizes by blast
    then have inv': "heap_inv ?m' ?h' ?As'" using places' til' unfolding heap_inv_def by blast
    have keep: "keeps (useds As) m ?m'"
    proof (rule keeps_frame [of _ p n0])
      show "(x + k \<le> p \<or> p + n0 \<le> x) \<and> 16 \<le> k" if "(x, k) \<in> useds As" for x k using that apart(1,2) unfolding U by blast
    qed (fact p16 n0_pos out edge)+
    have disj: "\<forall>(x, k)\<in>useds As. area x k \<inter> area p ?n = {}" unfolding U
    proof (clarify)
      fix x k assume r: "(x, k, False) \<in> ?R"
      show "area x k \<inter> area p ?n = {}" using apart(1,2) [OF r] best(2) by (auto simp: area_def GC_HEAD_def)
    qed
    have zero: "\<forall>a\<in>payload p ?n. ?m' a = 0" unfolding at by (auto simp: payload_def GC_HEAD_def)
    have pd: "16 dvd p" unfolding p using q16(2) seg_extent [OF s1] by simp
    have mp: "map (\<lambda>(q, ls). (q, extent ls)) ?As' = map (\<lambda>(q, ls). (q, extent ls)) As" unfolding A by (simp add: carved_extent [OF best(2)])
    have mk: "marked ?m' p = marked m p" by (rule tiled_carve(3) [OF tp p16 nf(4) best(2) nf(1)])
    show ?thesis
      by (intro exI [of _ "Some p"] exI [of _ ?h'] exI [of _ ?m'] conjI, rule ret, simp only: option.case,
          intro conjI exI [of _ ?As'] exI [of _ n0], rule inv', rule U', rule mp, rule best(1), rule best(2), rule best(3), rule keep, rule disj, rule zero, rule mk, rule p16, rule pd)
  qed
qed

section \<open>Release keeps the heap\<close>

text \<open>The state while a lump of \<open>n\<close> bytes is neither in use nor in a free list.\<close>

definition hole :: "memory \<Rightarrow> gc_heap \<Rightarrow> arena list \<Rightarrow> nat \<Rightarrow> lump list \<Rightarrow> nat \<Rightarrow> bool \<Rightarrow> lump list \<Rightarrow> arena list \<Rightarrow> bool" where
  "hole m h A1 q l0 n pf l2 A2 \<longleftrightarrow>
     places (A1 @ (q, l0 @ [(n, False)] @ l2) # A2) \<and> tilings m (A1 @ A2) \<and> seg m q False l0 \<and> \<not> end_free False l0 \<and>
     SIZE m (q + extent l0) = n \<and> 16 dvd n \<and> 16 \<le> n \<and> prev_word (m (HEADER (q + extent l0))) \<and> tiled m (q + extent l0 + n) pf l2 \<and>
     lists_ok m h (frees (around A1 q l0 n l2 A2))"

definition used_around :: "arena list \<Rightarrow> nat \<Rightarrow> lump list \<Rightarrow> nat \<Rightarrow> lump list \<Rightarrow> arena list \<Rightarrow> (nat \<times> nat) set" where
  "used_around A1 q l0 n l2 A2 = {(x, k). (x, k, False) \<in> around A1 q l0 n l2 A2}"

lemma hole_apart:
  assumes "hole m h A1 q l0 n pf l2 A2" "(x, k, f) \<in> around A1 q l0 n l2 A2"
  shows "x + k \<le> q + extent l0 \<or> q + extent l0 + n \<le> x" "16 \<le> k" "SIZE m x = k"
proof -
  have h: "places (A1 @ (q, l0 @ [(n, False)] @ l2) # A2)" "tilings m (A1 @ A2)" "seg m q False l0" "seg m (q + extent l0 + n) pf l2"
    using assms(1) unfolding hole_def tiled_def by blast+
  show "x + k \<le> q + extent l0 \<or> q + extent l0 + n \<le> x" "16 \<le> k" "SIZE m x = k"
    using around_apart [OF h _ assms(2)] by simp_all
qed

lemma hole_place: "hole m h A1 q l0 n pf l2 A2 \<Longrightarrow> 16 \<le> q"
  by (auto simp: hole_def places_def)

text \<open>The size of the hole is changed in its header, together with the lists.\<close>

lemma hole_set_size:
  assumes pl: "places (A1 @ (q, l0 @ [(n, False)] @ l2) # A2)" and ti: "tilings m (A1 @ A2)" and s: "seg m q False l0" "\<not> end_free False l0"
    and n: "16 dvd n" "16 \<le> n" and pw: "prev_word (m (HEADER (q + extent l0)))" and t2: "tiled m (q + extent l0 + n) pf l2"
    and lo: "lists_ok m h (frees (around A1 q l0 n l2 A2))"
  shows "hole (set_size (q + extent l0) n m) h A1 q l0 n pf l2 A2"
proof -
  let ?p = "q + extent l0" and ?m = "set_size (q + extent l0) n m"
  have q16: "16 \<le> q" using pl by (auto simp: places_def)
  have out: "?m a = m a" if "a \<noteq> ?p - 4" for a using that by (simp add: set_size_def HEADER_def GC_HEAD_def)
  have "tilings ?m (A1 @ A2)" by (rule tilings_frame [OF pl ti]) (use q16 n in \<open>auto simp: footprint_def intro!: out\<close>)
  moreover have "seg ?m q False l0" by (rule seg_cong [OF s(1)]) (use q16 in \<open>auto intro!: out\<close>)
  moreover have "tiled ?m (?p + n) pf l2" by (rule tiled_cong [OF t2]) (use q16 n in \<open>auto intro!: out\<close>)
  moreover have "lists_ok ?m h (frees (around A1 q l0 n l2 A2))"
  proof (rule lists_ok_cong [OF lo], clarify)
    fix x k assume "(x, k) \<in> frees (around A1 q l0 n l2 A2)"
    then have x: "(x, k, True) \<in> around A1 q l0 n l2 A2" by (simp add: frees_def)
    have "seg m (?p + n) pf l2" using t2 unfolding tiled_def by blast
    from around_apart [OF pl ti s(1) this _ x] have "x + k \<le> ?p \<or> ?p + n \<le> x" "16 \<le> k" "SIZE m x = k" by simp_all
    then show "SIZE ?m x = k" using q16 n by (auto simp: SIZE_def HEADER_def GC_HEAD_def out)
  qed
  ultimately show ?thesis using pl s n pw set_size_simps [OF eight_dvd [OF n(1)], of ?p m] unfolding hole_def by blast
qed

lemma merge_prev_ok:
  assumes inv: "heap_inv m h As" and x: "(p, n, False) \<in> all_lumps As"
  shows "\<exists>p1 h1 m1 A1 q l0 n1 l2 A2. merge_prev p (h, m) = Inr (p1, h1, m1) \<and> hole m1 h1 A1 q l0 n1 False l2 A2 \<and> p1 = q + extent l0 \<and>
    used_around A1 q l0 n1 l2 A2 = useds As - {(p, n)} \<and> (\<forall>a. a \<noteq> p1 - 4 \<longrightarrow> m1 a = m a) \<and>
    map (\<lambda>(q, ls). (q, extent ls)) As = map (\<lambda>(q, ls). (q, extent ls)) (A1 @ (q, l0 @ [(n1, False)] @ l2) # A2)"
proof -
  have pl: "places As" and ti: "tilings m As" and lo: "lists_ok m h (frees (all_lumps As))" using inv unfolding heap_inv_def by blast+
  note nf = lump_facts [OF ti x]
  obtain A1 q l1 l2 A2 where A: "As = A1 @ (q, l1 @ [(n, False)] @ l2) # A2" and p: "p = q + extent l1" using focus [OF x] by auto
  have ti': "tilings m (A1 @ A2)" and s1: "seg m q False l1" and tp: "tiled m p (end_free False l1) ((n, False) # l2)"
    using ti unfolding A tilings_split tiled_append p by (simp_all add: tiled_Cons)
  then have t2: "tiled m (p + n) False l2" and pw: "prev_word (m (HEADER p)) = (\<not> end_free False l1)" by (auto simp: tiled_Cons)
  have s2: "seg m (q + extent l1 + n) False l2" using t2 unfolding tiled_def p by blast
  let ?R = "around A1 q l1 n l2 A2"
  have all: "all_lumps As = insert (p, n, False) ?R" unfolding A by (subst all_lumps_around [of _ n]) (simp_all add: p)
  have notin: "(p, k, f) \<notin> ?R" for k f using around_apart(1,2) [OF pl [unfolded A] ti' s1 s2, of p k f] nf(2) unfolding p by force
  have U: "used_around A1 q l1 n l2 A2 = useds As - {(p, n)}" unfolding used_around_def useds_def all using notin by auto
  have F: "frees (all_lumps As) = frees ?R" unfolding all by simp
  show ?thesis
  proof (cases "end_free False l1")
    case False
    then have "merge_prev p (h, m) = Inr (p, h, m)" using pw by (simp add: merge_prev_def)
    moreover have "hole m h A1 q l1 n False l2 A2" using pl lo s1 t2 pw False nf ti' unfolding hole_def A [symmetric] F p by blast
    ultimately show ?thesis using U A p by blast
  next
    case True
    then obtain l0 k where l1: "l1 = l0 @ [(k, True)]" unfolding end_free_def by (metis append_butlast_last_id prod.collapse)
    have sk: "seg m (q + extent l0) (end_free False l0) [(k, True)]" and s0: "seg m q False l0" using s1 unfolding l1 by auto
    have pk: "p = q + extent l0 + k" unfolding p l1 by simp
    have kf: "16 dvd k" "0 < k" "SIZE m (q + extent l0) = k" "m (p - 8) = k" "\<not> end_free False l0" "prev_word (m (HEADER (q + extent l0)))"
      using sk by (auto simp: FOOTER_def GC_HEAD_def pk)
    have k16: "16 \<le> k" using kf by (auto dest: dvd_imp_le)
    have prev: "PREV_LUMP m p = q + extent l0" unfolding PREV_LUMP_def using kf(4) by (simp add: GC_HEAD_def pk)
    let ?w = "q + extent l0" and ?R' = "around A1 q l0 (k + n) l2 A2"
    have R: "?R = insert (?w, k, True) ?R'" unfolding around_def l1 by (auto simp: add.assoc)
    have "(?w, k) \<in> frees (all_lumps As)" unfolding F R by simp
    then obtain h1 where h1: "remove_freelump ?w (size_class (SIZE m ?w)) h = Inr h1" "lists_ok m h1 (frees (all_lumps As) - {(?w, k)})"
      using remove_freelump_ok [OF lo] by blast
    have mp: "merge_prev p (h, m) = Inr (?w, h1, set_size ?w (k + n) m)"
      using pw True h1(1) kf(3) nf(1) unfolding merge_prev_def by (simp add: prev Let_def)
    have pl': "places (A1 @ (q, l0 @ [(k + n, False)] @ l2) # A2)" by (rule places_replace [OF pl [unfolded A]]) (simp add: l1)
    have "seg m (q + extent l0 + (k + n)) False l2" using s2 unfolding l1 by (simp add: add.assoc)
    from around_apart(1,2) [OF pl' ti' s0 this] have w: "(?w, j, f) \<notin> ?R'" for j f using nf(2) k16 by force
    have "frees (all_lumps As) - {(?w, k)} = frees ?R'" unfolding F R using w by (auto simp: frees_def)
    with h1(2) have lo1: "lists_ok m h1 (frees ?R')" by simp
    have "hole (set_size ?w (k + n) m) h1 A1 q l0 (k + n) False l2 A2"
      by (rule hole_set_size [OF pl' ti' s0 kf(5) _ _ kf(6) _ lo1]) (use kf(1) nf k16 t2 pk in \<open>auto simp: add.assoc\<close>)
    moreover have "used_around A1 q l0 (k + n) l2 A2 = useds As - {(p, n)}" using U unfolding used_around_def R by auto
    moreover have "map (\<lambda>(q, ls). (q, extent ls)) As = map (\<lambda>(q, ls). (q, extent ls)) (A1 @ (q, l0 @ [(k + n, False)] @ l2) # A2)" unfolding A l1 by simp
    moreover have "\<forall>a. a \<noteq> ?w - 4 \<longrightarrow> set_size ?w (k + n) m a = m a" by (simp add: set_size_def HEADER_def GC_HEAD_def)
    ultimately show ?thesis using mp by blast
  qed
qed

lemma merge_next_ok:
  assumes hl: "hole m h A1 q l0 n False l2 A2"
  shows "\<exists>h' m' n' pf l3. merge_next (q + extent l0) (h, m) = Inr (h', m') \<and> hole m' h' A1 q l0 n' pf l3 A2 \<and> (\<forall>k f ls. l3 = (k, f) # ls \<longrightarrow> \<not> f) \<and>
    n' + extent l3 = n + extent l2 \<and> used_around A1 q l0 n' l3 A2 = used_around A1 q l0 n l2 A2 \<and> (\<forall>a. a \<noteq> q + extent l0 - 4 \<longrightarrow> m' a = m a)"
proof -
  let ?p = "q + extent l0"
  have pl: "places (A1 @ (q, l0 @ [(n, False)] @ l2) # A2)" and ti: "tilings m (A1 @ A2)" and s0: "seg m q False l0" "\<not> end_free False l0"
    and n: "SIZE m ?p = n" "16 dvd n" "16 \<le> n" and pw: "prev_word (m (HEADER ?p))" and t2: "tiled m (?p + n) False l2"
    and lo: "lists_ok m h (frees (around A1 q l0 n l2 A2))" using hl unfolding hole_def by blast+
  have nl: "NEXT_LUMP m ?p = ?p + n" by (simp add: NEXT_LUMP_def n)
  show ?thesis
  proof (cases "\<exists>k ls. l2 = (k, True) # ls")
    case False
    have "prev_word (m (HEADER (NEXT_LUMP m (?p + n))))"
    proof (cases l2)
      case Nil
      then show ?thesis using t2 by (simp add: tiled_def dummy_def NEXT_LUMP_def)
    next
      case (Cons l ls)
      then obtain k where l: "l2 = (k, False) # ls" using False by (cases l) auto
      have "tiled m (?p + n + k) False ls" using t2 unfolding l tiled_Cons by blast
      moreover have "SIZE m (?p + n) = k" using t2 tiled_size(1) unfolding l by blast
      ultimately show ?thesis by (cases ls) (auto simp: tiled_def dummy_def NEXT_LUMP_def)
    qed
    then have "merge_next ?p (h, m) = Inr (h, m)" by (simp add: merge_next_def nl)
    moreover have "\<forall>k f ls. l2 = (k, f) # ls \<longrightarrow> \<not> f" using False by auto
    ultimately show ?thesis using hl by blast
  next
    case True
    then obtain k l3 where l2: "l2 = (k, True) # l3" by blast
    have sk: "seg m (?p + n) False [(k, True)]" and t3: "tiled m (?p + n + k) True l3" using t2 unfolding l2 tiled_Cons by blast+
    note kf = tiled_size [OF t2 [unfolded l2]]
    have nf: "\<forall>j f ls. l3 = (j, f) # ls \<longrightarrow> \<not> f" using t3 by (auto simp: tiled_def)
    have pw2: "\<not> prev_word (m (HEADER (?p + n + k)))" using t3 by (cases l3) (auto simp: tiled_def dummy_def)
    let ?x = "?p + n" and ?R = "around A1 q l0 n l2 A2" and ?R' = "around A1 q l0 (n + k) l3 A2"
    have R: "?R = insert (?x, k, True) ?R'" unfolding around_def l2 by (auto simp: add.assoc)
    have "(?x, k) \<in> frees ?R" unfolding R by simp
    then obtain h1 where h1: "remove_freelump ?x (size_class (SIZE m ?x)) h = Inr h1" "lists_ok m h1 (frees ?R - {(?x, k)})" using remove_freelump_ok [OF lo] by blast
    have pl': "places (A1 @ (q, l0 @ [(n + k, False)] @ l3) # A2)" by (rule places_replace [OF pl]) (simp add: l2)
    have s3: "seg m (?p + (n + k)) True l3" using t3 unfolding tiled_def by (simp add: add.assoc)
    from around_apart(1,2) [OF pl' ti s0(1) s3] have "(?x, j, f) \<notin> ?R'" for j f using n(3) kf(2) by force
    then have "frees ?R - {(?x, k)} = frees ?R'" unfolding R by (auto simp: frees_def)
    with h1(2) have lo1: "lists_ok m h1 (frees ?R')" by simp
    have mn: "merge_next ?p (h, m) = Inr (h1, set_size ?p (n + k) m)"
      using pw2 h1(1) kf(1) n(1) unfolding merge_next_def nl by (simp add: Let_def NEXT_LUMP_def)
    have "hole (set_size ?p (n + k) m) h1 A1 q l0 (n + k) True l3 A2"
      by (rule hole_set_size [OF pl' ti s0 _ _ pw _ lo1]) (use n kf t3 in \<open>auto simp: add.assoc\<close>)
    moreover have "used_around A1 q l0 (n + k) l3 A2 = used_around A1 q l0 n l2 A2" unfolding used_around_def R by auto
    moreover have "\<forall>a. a \<noteq> ?p - 4 \<longrightarrow> set_size ?p (n + k) m a = m a" by (simp add: set_size_def HEADER_def GC_HEAD_def)
    ultimately show ?thesis using mn nf unfolding l2 by (intro exI [of _ h1] exI [of _ "set_size ?p (n + k) m"] exI [of _ "n + k"] exI [of _ True] exI [of _ l3]) simp
  qed
qed

lemma clear_prev_id: "tiled m p True ls \<Longrightarrow> clear_prev p m = m"
proof -
  assume "tiled m p True ls"
  then have "\<not> prev_word (m (HEADER p))" by (cases ls) (auto simp: tiled_def dummy_def)
  then have "unset_bit 2 (m (HEADER p)) = m (HEADER p)" by (intro bit_eqI) (auto simp: bit_unset_bit_iff prev_word_def)
  then show ?thesis by (simp add: clear_prev_def)
qed

lemma close_hole:
  assumes hl: "hole m h A1 q l0 n pf l3 A2" and nf: "\<forall>k f ls. l3 = (k, f) # ls \<longrightarrow> \<not> f"
  defines "p \<equiv> q + extent l0"
  defines "m1 \<equiv> m(FOOTER p (SIZE m p) := SIZE m p)"
  defines "m2 \<equiv> clear_prev (NEXT_LUMP m1 p) m1"
  shows "heap_inv m2 (insert_freelump m2 p (size_class (SIZE m2 p)) h) (A1 @ (q, l0 @ [(n, True)] @ l3) # A2)"
    "a < p - 4 \<or> p + n - 4 < a \<Longrightarrow> m2 a = m a" "marked_word (m2 (p + n - 4)) = marked_word (m (p + n - 4))"
proof -
  have pl: "places (A1 @ (q, l0 @ [(n, False)] @ l3) # A2)" and ti: "tilings m (A1 @ A2)" and s0: "seg m q False l0" "\<not> end_free False l0"
    and n: "SIZE m p = n" "16 dvd n" "16 \<le> n" and pw: "prev_word (m (HEADER p))" and t3: "tiled m (p + n) pf l3"
    and lo: "lists_ok m h (frees (around A1 q l0 n l3 A2))" using hl unfolding hole_def p_def by blast+
  have q16: "16 \<le> q" by (rule hole_place [OF hl])
  then have p16: "16 \<le> p" by (simp add: p_def)
  have addr: "HEADER p = p - 4" "FOOTER p n = p + n - 8" "HEADER (p + n) = p + n - 4" using p16 by (simp_all add: HEADER_def FOOTER_def GC_HEAD_def)
  have ne: "p - 4 \<noteq> p + n - 8" "p - 4 \<noteq> p + n - 4" "p + n - 8 \<noteq> p + n - 4" using n(3) p16 by linarith+
  have m1: "m1 = m(p + n - 8 := n)" unfolding m1_def n(1) addr ..
  have "SIZE m1 p = n" unfolding m1 SIZE_def addr(1) using n(1) ne(1) by (simp add: SIZE_def addr(1))
  then have m2: "m2 = clear_prev (p + n) m1" by (simp add: m2_def NEXT_LUMP_def)
  have at: "m2 a = (if a = p + n - 4 then unset_bit 2 (m a) else if a = p + n - 8 then n else m a)" for a
    unfolding m2 m1 clear_prev_def addr(3) using ne(3) by auto
  show out: "m2 a = m a" if "a < p - 4 \<or> p + n - 4 < a" for a
  proof -
    have "a \<noteq> p + n - 4" "a \<noteq> p + n - 8" using that n(3) p16 by linarith+
    then show ?thesis unfolding at by simp
  qed
  show "marked_word (m2 (p + n - 4)) = marked_word (m (p + n - 4))" unfolding at by simp
  have hd: "m2 (p - 4) = m (p - 4)" unfolding at using ne by simp
  have sz: "SIZE m2 p = n" using n(1) unfolding SIZE_def addr(1) hd .
  have "m2 (p + n - 8) = n" unfolding at using ne by simp
  then have mid: "seg m2 p False [(n, True)]" using sz n pw by (simp add: addr hd)
  have "tiled m1 (p + n) pf l3" unfolding m1 by (rule tiled_cong [OF t3]) (use p16 n(3) in auto)
  then have t3': "tiled m2 (p + n) True l3" unfolding m2
    using clear_prev_id [of m1 "p + n" l3] tiled_clear_prev [OF _ _ nf, of m1 "p + n"] p16 by (cases pf) auto
  have s0': "seg m2 q False l0" by (rule seg_cong [OF s0(1)]) (use q16 out in \<open>auto simp: p_def\<close>)
  have pl': "places (A1 @ (q, l0 @ [(n, True)] @ l3) # A2)" by (rule places_replace [OF pl]) simp
  have ti': "tilings m2 (A1 @ A2)" by (rule tilings_frame [OF pl ti]) (use q16 n(3) in \<open>auto simp: footprint_def p_def intro!: out\<close>)
  have til: "tilings m2 (A1 @ (q, l0 @ [(n, True)] @ l3) # A2)"
    unfolding tilings_split tiled_append using ti' s0' s0(2) mid t3' tiled_Cons [of m2 p False n True l3] by (simp add: p_def tiled_append)
  let ?R = "around A1 q l0 n l3 A2"
  have all: "all_lumps (A1 @ (q, l0 @ [(n, True)] @ l3) # A2) = insert (p, n, True) ?R" by (subst all_lumps_around [of _ n]) (simp_all add: p_def)
  have "\<forall>(x, k)\<in>frees ?R. SIZE m2 x = k" using lump_facts(1) [OF til] unfolding all by (auto simp: frees_def)
  then have lo': "lists_ok m2 h (frees ?R)" by (rule lists_ok_cong [OF lo])
  have "p \<notin> fst ` frees ?R" using hole_apart(1,2) [OF hl, of p] n(3) by (force simp: frees_def p_def)
  from insert_freelump_ok [OF lo' sz this] show "heap_inv m2 (insert_freelump m2 p (size_class (SIZE m2 p)) h) (A1 @ (q, l0 @ [(n, True)] @ l3) # A2)"
    using pl' til unfolding heap_inv_def all sz by simp
qed

theorem mem_free_ok:
  assumes inv: "heap_inv m h As" and x: "(p, n) \<in> useds As"
  shows "\<exists>h' m' As'. mem_free p (h, m) = Inr (h', m') \<and> heap_inv m' h' As' \<and> useds As' = useds As - {(p, n)} \<and> keeps (useds As - {(p, n)}) m m' \<and>
    map (\<lambda>(q, ls). (q, extent ls)) As' = map (\<lambda>(q, ls). (q, extent ls)) As \<and> (\<forall>a. (\<forall>A\<in>set As. a \<notin> footprint A) \<longrightarrow> m' a = m a)"
proof -
  have xl: "(p, n, False) \<in> all_lumps As" using x by (simp add: useds_def)
  obtain p1 h1 m1 A1 q l0 n1 l2 A2 where mp: "merge_prev p (h, m) = Inr (p1, h1, m1)" and hl1: "hole m1 h1 A1 q l0 n1 False l2 A2" and p1: "p1 = q + extent l0"
    and U1: "used_around A1 q l0 n1 l2 A2 = useds As - {(p, n)}" and f1: "\<forall>a. a \<noteq> p1 - 4 \<longrightarrow> m1 a = m a"
    and e1: "map (\<lambda>(q, ls). (q, extent ls)) As = map (\<lambda>(q, ls). (q, extent ls)) (A1 @ (q, l0 @ [(n1, False)] @ l2) # A2)"
    using merge_prev_ok [OF inv xl] by (elim exE conjE) (rule that)
  obtain h2 m2 n2 pf l3 where mn: "merge_next p1 (h1, m1) = Inr (h2, m2)" and hl2: "hole m2 h2 A1 q l0 n2 pf l3 A2" and nf: "\<forall>k f ls. l3 = (k, f) # ls \<longrightarrow> \<not> f"
    and e2: "n2 + extent l3 = n1 + extent l2" and U2: "used_around A1 q l0 n2 l3 A2 = used_around A1 q l0 n1 l2 A2" and f2: "\<forall>a. a \<noteq> p1 - 4 \<longrightarrow> m2 a = m1 a"
    using merge_next_ok [OF hl1, folded p1] by (elim exE conjE) (rule that)
  define m3 where "m3 = m2(FOOTER p1 (SIZE m2 p1) := SIZE m2 p1)"
  define m4 where "m4 = clear_prev (NEXT_LUMP m3 p1) m3"
  note cl = close_hole [OF hl2 nf, folded p1, folded m3_def, folded m4_def]
  let ?h = "insert_freelump m4 p1 (size_class (SIZE m4 p1)) h2" and ?As' = "A1 @ (q, l0 @ [(n2, True)] @ l3) # A2"
  have q16: "16 \<le> q" by (rule hole_place [OF hl2])
  have "p \<noteq> 0"
  proof
    assume "p = 0"
    obtain r ks where r: "(r, ks) \<in> set As" "(p, n, False) \<in> set (lumps r ks)" using xl by (auto simp: all_lumps_def)
    have s: "seg m r False ks" "16 \<le> r" using inv r(1) by (auto simp: heap_inv_def tilings_def tiled_def places_def)
    from seg_lumps [OF s(1) r(2)] have "r \<le> p" by blast
    with s(2) \<open>p = 0\<close> show False by simp
  qed
  then have ret: "mem_free p (h, m) = Inr (?h, m4)" using mp mn unfolding mem_free_def m3_def m4_def by (simp add: Let_def)
  have n2: "16 \<le> n2" using hl2 unfolding hole_def by blast
  have p16: "16 \<le> p1" using q16 p1 by simp
  have same: "m2 a = m a" if "a \<noteq> p1 - 4" for a using that f1 f2 by simp
  have keep: "keeps (useds As - {(p, n)}) m m4"
  proof (rule keeps_frame [of _ p1 n2])
    show "(x + k \<le> p1 \<or> p1 + n2 \<le> x) \<and> 16 \<le> k" if "(x, k) \<in> useds As - {(p, n)}" for x k
    proof -
      have "(x, k, False) \<in> around A1 q l0 n2 l3 A2" using that unfolding U1 [symmetric] U2 [symmetric] by (simp add: used_around_def)
      from hole_apart(1,2) [OF hl2 this] show ?thesis unfolding p1 by blast
    qed
    show "m4 a = m a" if "a < p1 - 4 \<or> p1 + n2 - 4 < a" for a
    proof -
      have "a \<noteq> p1 - 4" using that n2 p16 by linarith
      then show ?thesis using cl(2) [OF that] same by simp
    qed
    have "p1 + n2 - 4 \<noteq> p1 - 4" using n2 p16 by linarith
    then show "marked_word (m4 (p1 + n2 - 4)) = marked_word (m (p1 + n2 - 4))" using cl(3) same by simp
  qed (fact p16 n2)+
  have "useds ?As' = used_around A1 q l0 n2 l3 A2" unfolding useds_def used_around_def by (subst all_lumps_around [of _ n2]) auto
  then have "useds ?As' = useds As - {(p, n)}" using U1 U2 by simp
  moreover have "map (\<lambda>(q, ls). (q, extent ls)) ?As' = map (\<lambda>(q, ls). (q, extent ls)) As" unfolding e1 using e2 by simp
  moreover have "m4 a = m a" if a: "\<forall>A\<in>set As. a \<notin> footprint A" for a
  proof -
    have "(q, extent (l0 @ [(n1, False)] @ l2)) \<in> set (map (\<lambda>(q, ls). (q, extent ls)) As)" unfolding e1 by simp
    then obtain ls where ls: "(q, ls) \<in> set As" "extent ls = extent l0 + n1 + extent l2" by auto
    have "a < q - 4 \<or> q + extent ls + 8 \<le> a" using a ls(1) by (fastforce simp: footprint_def)
    then have out: "a < p1 - 4 \<or> p1 + n2 - 4 < a" using p1 e2 ls(2) q16 by linarith
    then have "a \<noteq> p1 - 4" using n2 p16 by linarith
    then show ?thesis using cl(2) [OF out] same by simp
  qed
  ultimately show ?thesis using ret cl(1) keep by blast
qed

section \<open>Growth\<close>

lemma round_region:
  assumes "sz < 2 ^ 31"
  shows "GC_REGIONSIZE dvd ROUNDUPREGIONSIZE (sz + 48)" "sz + 48 \<le> ROUNDUPREGIONSIZE (sz + 48)" "2097152 \<le> ROUNDUPREGIONSIZE (sz + 48)"
proof -
  have e: "ROUNDUPREGIONSIZE (sz + 48) = (sz + 2097199) div 2097152 * 2097152" using assms by (simp add: ROUNDUPREGIONSIZE_def GC_REGIONSIZE_def)
  show "GC_REGIONSIZE dvd ROUNDUPREGIONSIZE (sz + 48)" unfolding e by (simp add: GC_REGIONSIZE_def)
  have "(sz + 2097199) div 2097152 * 2097152 + (sz + 2097199) mod 2097152 = sz + 2097199" by (rule div_mult_mod_eq)
  moreover have "(sz + 2097199) mod 2097152 < 2097152" by simp
  ultimately show a: "sz + 48 \<le> ROUNDUPREGIONSIZE (sz + 48)" unfolding e by linarith
  have "1 \<le> (sz + 2097199) div 2097152" using div_le_mono [of 2097152 "sz + 2097199" 2097152] by simp
  then show "2097152 \<le> ROUNDUPREGIONSIZE (sz + 48)" unfolding e by simp
qed

lemma tiled_format:
  assumes p: "16 \<le> p" and n: "16 dvd n" "16 \<le> n"
  shows "tiled (format_region p n m) p False [(n, True)]" "a < p - 4 \<or> p + n + 4 < a \<Longrightarrow> format_region p n m a = m a"
proof -
  have addr: "HEADER p = p - 4" "FOOTER p n = p + n - 8" "HEADER (p + n) = p + n - 4" "HEADER (p + n + MEMALIGN) = p + n + 4"
    using p by (simp_all add: HEADER_def FOOTER_def gc_consts)
  have ne: "p - 4 \<noteq> p + n - 8" "p - 4 \<noteq> p + n - 4" "p - 4 \<noteq> p + n + 4" "p + n - 8 \<noteq> p + n - 4" "p + n - 8 \<noteq> p + n + 4" "p + n - 4 \<noteq> p + n + 4" using n(2) p by linarith+
  have at: "format_region p n m a = (if a = p + n + 4 then set_bit 2 0 else if a = p + n - 4 then 8 else if a = p + n - 8 then n else if a = p - 4 then set_bit 2 n else m a)" for a
    unfolding format_region_def addr unfolding MEMALIGN_def fun_upd_apply ..
  have v: "format_region p n m (p - 4) = set_bit 2 n" "format_region p n m (p + n - 8) = n" "format_region p n m (p + n - 4) = 8" "format_region p n m (p + n + 4) = set_bit 2 0"
    unfolding at using ne by simp_all
  have "size_word n = n" "size_word (8::nat) = 8" "\<not> prev_word (8::nat)" using plain_size [OF eight_dvd [OF n(1)]] plain_size [of 8] by simp_all
  then show "tiled (format_region p n m) p False [(n, True)]"
    unfolding tiled_def dummy_def SIZE_def using n v by (simp add: addr SIZE_def) (simp add: MEMALIGN_def prev_word_def bit_iff_odd)
  show "a < p - 4 \<or> p + n + 4 < a \<Longrightarrow> format_region p n m a = m a" unfolding at using n(2) p by auto
qed

text \<open>The regions of the heap are below the break.\<close>

definition gmem_inv :: "gc_heap \<Rightarrow> gmem \<Rightarrow> arena list \<Rightarrow> bool" where
  "gmem_inv h g As \<longleftrightarrow> heap_inv (gmem g) h As \<and> regions_ok (gregions g) (gos g) \<and> (\<forall>(q, ls)\<in>set As. q + extent ls + 8 \<le> brk (gos g))"

lemma gmem_inv_update:
  assumes "gmem_inv h g As" "heap_inv m h' As'" "map (\<lambda>(q, ls). (q, extent ls)) As' = map (\<lambda>(q, ls). (q, extent ls)) As"
  shows "gmem_inv h' (g\<lparr>gmem := m\<rparr>) As'"
proof -
  let ?f = "\<lambda>(q, ls). (q, extent ls)" and ?ok = "\<lambda>y. fst y + snd y + 8 \<le> brk (gos g)"
  have "\<forall>y\<in>set (map ?f As). ?ok y" using assms(1) unfolding gmem_inv_def by auto
  then have "\<forall>y\<in>set (map ?f As'). ?ok y" using assms(3) by simp
  then show ?thesis using assms(1,2) unfolding gmem_inv_def by auto
qed

lemma region_allocate_returns: "length rs < GC_REGION_TABLE_SIZE \<Longrightarrow> \<exists>x rs' s'. region_allocate lim used n ty (rs, s) = Inr (x, rs', s')"
  by (cases "sbrk_aligned n s"; cases "fst (sbrk_aligned n s)") (auto simp: region_allocate_def Let_def)

lemma mem_expand_ok:
  assumes inv: "gmem_inv h g As" and sz: "sz < 2 ^ 31" and len: "length (gregions g) < GC_REGION_TABLE_SIZE"
  shows "\<exists>ok h' g'. mem_expand sz (h, g) = Inr (ok, h', g') \<and>
    (ok \<longleftrightarrow> (\<exists>r rs s. region_allocate (gc_heap_limit g) (gused g) (ROUNDUPREGIONSIZE (sz + 48)) (htype h) (gregions g, gos g) = Inr (Some r, rs, s))) \<and>
    (if ok then \<exists>q. gmem_inv h' g' (As @ [(q, [(ROUNDUPREGIONSIZE (sz + 48) - 48, True)])]) \<and> keeps (useds As) (gmem g) (gmem g') else h' = h \<and> gmem g' = gmem g)"
proof -
  let ?r = "ROUNDUPREGIONSIZE (sz + 48)"
  note rr = round_region [OF sz]
  have m48: "6 * MEMALIGN = 48" "2 * MEMALIGN = 16" by (simp_all add: MEMALIGN_def)
  obtain x rs s where ra: "region_allocate (gc_heap_limit g) (gused g) ?r (htype h) (gregions g, gos g) = Inr (x, rs, s)"
    using region_allocate_returns [OF len] by blast
  show ?thesis
  proof (cases x)
    case None
    then have "mem_expand sz (h, g) = Inr (False, h, g\<lparr>gregions := rs, gos := s\<rparr>)" using ra by (simp add: mem_expand_def Let_def m48)
    then show ?thesis using ra None by auto
  next
    case (Some r)
    let ?n = "?r - 48" and ?p = "rstart r + 16"
    let ?m = "format_region ?p ?n (gmem g)"
    let ?h = "insert_freelump ?m ?p (size_class ?n) h"
    let ?B = "(?p, [(?n, True)])"
    have hi: "heap_inv (gmem g) h As" and ro: "regions_ok (gregions g) (gos g)" and below: "\<forall>(q, ls)\<in>set As. q + extent ls + 8 \<le> brk (gos g)" using inv unfolding gmem_inv_def by blast+
    note rk = region_allocate_ok [OF ro ra [unfolded Some]]
    have rpos: "0 < ?r" using rr(3) by simp
    have fresh: "brk (gos g) \<le> rstart r" "rend r \<le> brk s"
    proof -
      obtain a where a: "sbrk_aligned ?r (gos g) = (Some a, s)" "r = \<lparr>rstart = a, rend = a + ?r, rtype = htype h\<rparr>"
        using ra Some by (auto simp: region_allocate_def Let_def split: if_splits prod.splits option.splits)
      show "brk (gos g) \<le> rstart r" "rend r \<le> brk s" using sbrk_aligned_fresh [OF a(1)] a(2) by simp_all
    qed
    have re: "rend r = rstart r + ?r" "rstart r mod GC_BLOCKSIZE = 0" using rk(4,6) rpos by simp_all
    have "GC_BLOCKSIZE dvd rstart r" "16 dvd GC_BLOCKSIZE" using re(2) by (auto simp: GC_BLOCKSIZE_def)
    then have r16: "16 dvd rstart r" using dvd_trans by blast
    have "16 dvd GC_REGIONSIZE" by (simp add: GC_REGIONSIZE_def)
    then have "16 dvd ?r" using rr(1) dvd_trans by blast
    then have n: "16 dvd ?n" "16 \<le> ?n" using rr(3) by (simp_all add: dvd_diff_nat)
    have p16: "16 \<le> ?p" by simp
    have out: "?m a = gmem g a" if "a < brk (gos g)" for a using tiled_format(2) [OF p16 n] that fresh(1) by simp
    have tiledB: "tiled ?m ?p False [(?n, True)]" by (rule tiled_format(1) [OF p16 n])
    have pl: "places (As @ [?B])"
    proof -
      have "footprint A \<inter> footprint ?B = {}" if "A \<in> set As" for A using below that fresh(1) by (cases A) (fastforce simp: footprint_def)
      then show ?thesis using hi r16 unfolding heap_inv_def places_def by (auto simp: sorted_wrt_append)
    qed
    have ti: "tilings ?m (As @ [?B])"
    proof -
      have "tiled ?m q False ls" if "(q, ls) \<in> set As" for q ls
      proof (rule tiled_cong [of "gmem g"])
        show "tiled (gmem g) q False ls" "4 \<le> q" using hi that unfolding heap_inv_def tilings_def places_def by auto
        show "\<forall>a. q - 4 \<le> a \<longrightarrow> a < q + extent ls + 8 \<longrightarrow> ?m a = gmem g a" using below that by (fastforce intro!: out)
      qed
      then show ?thesis using tiledB unfolding tilings_def by auto
    qed
    have apart: "x < brk (gos g)" if xl: "(x, k, f) \<in> all_lumps As" for x k f
    proof -
      obtain q ls where q: "(q, ls) \<in> set As" "(x, k, f) \<in> set (lumps q ls)" using xl by (auto simp: all_lumps_def)
      have "seg (gmem g) q False ls" using hi q(1) unfolding heap_inv_def tilings_def tiled_def by blast
      from seg_lumps [OF this q(2)] show ?thesis using below q(1) by fastforce
    qed
    have "lists_ok ?m h (frees (all_lumps As))"
    proof (rule lists_ok_cong)
      show "lists_ok (gmem g) h (frees (all_lumps As))" using hi unfolding heap_inv_def by blast
      show "\<forall>(x, k)\<in>frees (all_lumps As). SIZE ?m x = k" using lump_facts(1) [OF ti] by (auto simp: frees_def)
    qed
    moreover have "SIZE ?m ?p = ?n" using tiled_size(1) [OF tiledB] .
    moreover have "?p \<notin> fst ` frees (all_lumps As)" using apart fresh(1) by (force simp: frees_def)
    ultimately have lo: "lists_ok ?m ?h (insert (?p, ?n) (frees (all_lumps As)))" by (rule insert_freelump_ok)
    have all: "frees (all_lumps (As @ [?B])) = insert (?p, ?n) (frees (all_lumps As))" by (simp only: all_lumps_simps) simp
    have regs: "regions_ok rs s" using rk(1) rpos by simp
    have "\<forall>(q, ls)\<in>set (As @ [?B]). q + extent ls + 8 \<le> brk s" using below fresh re(1) rr(3) by fastforce
    then have g': "gmem_inv (?h\<lparr>hsize := hsize ?h + ?r\<rparr>) (g\<lparr>gmem := ?m, gregions := rs, gos := s, gused := gused g + ?r\<rparr>) (As @ [?B])"
      using pl ti lo regs unfolding gmem_inv_def heap_inv_def all by simp
    have keep: "keeps (useds As) (gmem g) ?m"
      unfolding keeps_def
    proof (clarify)
      fix x k assume "(x, k) \<in> useds As"
      then have "(x, k, False) \<in> all_lumps As" by (simp add: useds_def)
      then obtain q ls where q: "(q, ls) \<in> set As" "(x, k, False) \<in> set (lumps q ls)" by (auto simp: all_lumps_def)
      have "seg (gmem g) q False ls" using hi q(1) unfolding heap_inv_def tilings_def tiled_def by blast
      then have "x + k \<le> brk (gos g)" using seg_lumps [OF _ q(2)] below q(1) by fastforce
      then show "(\<forall>a\<in>payload x k. ?m a = gmem g a) \<and> marked ?m x = marked (gmem g) x"
        using apart [OF \<open>(x, k, False) \<in> all_lumps As\<close>] by (auto simp: payload_def marked_def HEADER_def out)
    qed
    have "mem_expand sz (h, g) = Inr (True, ?h\<lparr>hsize := hsize ?h + ?r\<rparr>, g\<lparr>gmem := ?m, gregions := rs, gos := s, gused := gused g + ?r\<rparr>)"
      using ra Some by (simp add: mem_expand_def Let_def m48 insert_freelump_def)
    then show ?thesis using g' keep ra Some by auto
  qed
qed

section \<open>Fixed memory\<close>

text \<open>The mark bit of a lump does not matter to the manager.\<close>

lemma set_mark_words [simp]: "SIZE (set_mark p m) x = SIZE m x" "prev_word (set_mark p m a) = prev_word (m a)" "a \<noteq> HEADER p \<Longrightarrow> set_mark p m a = m a"
  by (simp_all add: set_mark_def SIZE_def)

lemma seg_set_mark:
  "seg m q pf ls \<Longrightarrow> 16 dvd q \<Longrightarrow> 16 \<le> q \<Longrightarrow> 16 dvd p \<Longrightarrow> 16 \<le> p \<Longrightarrow> seg (set_mark p m) q pf ls"
proof (induction ls arbitrary: q pf)
  case (Cons l ls)
  obtain n f where l: "l = (n, f)" by fastforce
  have n: "16 dvd n" "0 < n" "seg m (q + n) f ls" using Cons.prems(1) l by auto
  have "16 \<le> n" using n by (auto dest: dvd_imp_le)
  have "HEADER p \<noteq> FOOTER q n"
  proof
    assume "HEADER p = FOOTER q n"
    then have "p + 4 = q + n" using Cons.prems(5) \<open>16 \<le> n\<close> by (simp add: HEADER_def FOOTER_def GC_HEAD_def)
    moreover have "16 dvd q + n" using Cons.prems(2) n(1) by simp
    ultimately have "16 dvd p + 4" by simp
    with Cons.prems(4) have "16 dvd (4::nat)" by (metis dvd_add_right_iff)
    then show False by simp
  qed
  moreover have "seg (set_mark p m) (q + n) f ls" by (rule Cons.IH [OF n(3)]) (use Cons.prems n(1) in simp_all)
  ultimately show ?case using Cons.prems(1) l by simp
qed simp

lemma heap_inv_set_mark:
  assumes inv: "heap_inv m h As" and p: "16 dvd p" "16 \<le> p"
  shows "heap_inv (set_mark p m) h As"
proof -
  have "tiled (set_mark p m) q False ls" if "(q, ls) \<in> set As" for q ls
  proof -
    have "seg m q False ls" "dummy m (q + extent ls) (end_free False ls)" "16 dvd q" "16 \<le> q"
      using inv that by (auto simp: heap_inv_def tilings_def tiled_def places_def)
    then show ?thesis using seg_set_mark [OF _ _ _ p] by (simp add: tiled_def dummy_def)
  qed
  then have ti: "tilings (set_mark p m) As" by (auto simp: tilings_def)
  have "lists_ok (set_mark p m) h (frees (all_lumps As))"
    by (rule lists_ok_cong [of m]) (use inv lump_facts(1) [OF ti] in \<open>auto simp: heap_inv_def frees_def\<close>)
  then show ?thesis using inv ti unfolding heap_inv_def by blast
qed

text \<open>What a successful allocation promises; \<open>p\<close> is fresh and cleared, and every other lump is as it was.\<close>

definition allocated :: "nat \<Rightarrow> nat \<Rightarrow> arena list \<Rightarrow> gmem \<Rightarrow> arena list \<Rightarrow> gmem \<Rightarrow> bool" where
  "allocated p n As g As' g' \<longleftrightarrow> useds As' = insert (p, n) (useds As) \<and> keeps (useds As) (gmem g) (gmem g') \<and>
     (\<forall>(x, k)\<in>useds As. area x k \<inter> area p n = {}) \<and> (\<forall>a\<in>payload p n. gmem g' a = 0) \<and> 16 \<le> p \<and> 16 dvd p"

lemma allocate_step:
  assumes inv: "gmem_inv h g As" and sz: "sz < 2 ^ 31" and r: "mem_allocate sz (h, gmem g) = Inr (Some p, h', m')"
  shows "\<exists>As'. gmem_inv h' (g\<lparr>gmem := m'\<rparr>) As' \<and> allocated p (lump_size sz) As g As' (g\<lparr>gmem := m'\<rparr>)"
proof -
  have hi: "heap_inv (gmem g) h As" using inv unfolding gmem_inv_def by blast
  have ok: "\<exists>As'. heap_inv m' h' As' \<and> useds As' = insert (p, lump_size sz) (useds As) \<and> map (\<lambda>(q, ls). (q, extent ls)) As' = map (\<lambda>(q, ls). (q, extent ls)) As"
    "keeps (useds As) (gmem g) m'" "\<forall>(x, k)\<in>useds As. area x k \<inter> area p (lump_size sz) = {}" "\<forall>a\<in>payload p (lump_size sz). m' a = 0" "16 \<le> p" "16 dvd p"
    using mem_allocate_ok [OF hi sz] r by simp_all
  obtain As' where As': "heap_inv m' h' As'" "useds As' = insert (p, lump_size sz) (useds As)" "map (\<lambda>(q, ls). (q, extent ls)) As' = map (\<lambda>(q, ls). (q, extent ls)) As"
    using ok(1) by blast
  have "gmem_inv h' (g\<lparr>gmem := m'\<rparr>) As'" by (rule gmem_inv_update [OF inv As'(1,3)])
  moreover have "allocated p (lump_size sz) As g As' (g\<lparr>gmem := m'\<rparr>)" unfolding allocated_def using As'(2) ok(2-6) by simp
  ultimately show ?thesis by blast
qed

lemma keepsD: "keeps U m m' \<Longrightarrow> (x, n) \<in> U \<Longrightarrow> (\<forall>a\<in>payload x n. m' a = m a) \<and> marked m' x = marked m x"
  unfolding keeps_def by blast

lemma keeps_trans: "keeps U m m' \<Longrightarrow> keeps U m' m'' \<Longrightarrow> keeps U m m''"
proof -
  assume a: "keeps U m m'" "keeps U m' m''"
  have "(\<forall>a\<in>payload x n. m'' a = m a) \<and> marked m'' x = marked m x" if "(x, n) \<in> U" for x n
    using keepsD [OF a(1) that] keepsD [OF a(2) that] by simp
  then show ?thesis unfolding keeps_def by blast
qed

lemma allocated_grow: "allocated p n As g1 As' g' \<Longrightarrow> useds As = useds As0 \<Longrightarrow> keeps (useds As0) (gmem g) (gmem g1) \<Longrightarrow> allocated p n As0 g As' g'"
  unfolding allocated_def using keeps_trans [of "useds As0" "gmem g" "gmem g1" "gmem g'"] by simp

lemma allocated_mark:
  assumes inv: "gmem_inv h g' As'" and al: "allocated p n As g As' g'"
  shows "gmem_inv h (g'\<lparr>gmem := set_mark p (gmem g')\<rparr>) As'" "allocated p n As g As' (g'\<lparr>gmem := set_mark p (gmem g')\<rparr>)"
proof -
  have p: "16 dvd p" "16 \<le> p" "useds As' = insert (p, n) (useds As)" "\<forall>(x, k)\<in>useds As. area x k \<inter> area p n = {}" using al unfolding allocated_def by blast+
  have hi: "heap_inv (gmem g') h As'" using inv unfolding gmem_inv_def by blast
  show "gmem_inv h (g'\<lparr>gmem := set_mark p (gmem g')\<rparr>) As'" using gmem_inv_update [OF inv heap_inv_set_mark [OF hi p(1,2)] refl] .
  have k: "keeps (useds As) (gmem g') (set_mark p (gmem g'))" unfolding keeps_def
  proof (clarify)
    fix x k assume x: "(x, k) \<in> useds As"
    then have "(x, k, False) \<in> all_lumps As'" using p(3) unfolding useds_def by blast
    then have k: "16 \<le> k" using lump_facts(2) hi unfolding heap_inv_def by blast
    have "area x k \<inter> area p n = {}" using p(4) x by blast
    moreover have "(p, n, False) \<in> all_lumps As'" using p(3) unfolding useds_def by blast
    then have "16 \<le> n" using lump_facts(2) hi unfolding heap_inv_def by blast
    then have "p - 4 \<in> area p n" using p(2) by (simp add: area_def GC_HEAD_def)
    ultimately have out: "p - 4 \<notin> area x k" by blast
    have "a \<noteq> HEADER p" if "a \<in> payload x k" for a using out that by (auto simp: payload_def area_def HEADER_def GC_HEAD_def)
    moreover have "HEADER x \<noteq> HEADER p" using out k by (auto simp: area_def HEADER_def GC_HEAD_def)
    ultimately show "(\<forall>a\<in>payload x k. set_mark p (gmem g') a = gmem g' a) \<and> marked (set_mark p (gmem g')) x = marked (gmem g') x" by (simp add: marked_def)
  qed
  have "a \<noteq> HEADER p" if "a \<in> payload p n" for a using that p(2) by (auto simp: payload_def HEADER_def GC_HEAD_def)
  then show "allocated p n As g As' (g'\<lparr>gmem := set_mark p (gmem g')\<rparr>)" using al keeps_trans [OF _ k] unfolding allocated_def by simp
qed

text \<open>
  The allocation of fixed memory succeeds, or raises \<open>OutOfMemoryError\<close> when the region manager refuses; but if
  the new region is too small for the request the null pointer is dereferenced.
\<close>

lemma with_expansion_ok:
  assumes inv: "gmem_inv h g As" and sz: "sz < 2 ^ 31" and len: "length (gregions g) < GC_REGION_TABLE_SIZE"
  shows "case with_expansion (mem_allocate sz) sz (h, g) of
      Inr (p, h', g') \<Rightarrow> \<exists>As'. gmem_inv h' g' As' \<and> allocated p (lump_size sz) As g As' g'
    | Inl e \<Rightarrow> (\<forall>(x, n)\<in>frees (all_lumps As). n < lump_size sz) \<and> (e = OutOfMemoryError \<or> e = C_undefined \<and> ROUNDUPREGIONSIZE (sz + 48) < lump_size sz + 48)"
proof -
  have hi: "heap_inv (gmem g) h As" using inv unfolding gmem_inv_def by blast
  obtain r h1 m1 where r: "mem_allocate sz (h, gmem g) = Inr (r, h1, m1)" using mem_allocate_ok [OF hi sz] by blast
  show ?thesis
  proof (cases r)
    case (Some p)
    then show ?thesis using r allocate_step [OF inv sz] by (simp add: with_expansion_def)
  next
    case None
    then have n: "h1 = h" "m1 = gmem g" and nf: "\<forall>(x, n)\<in>frees (all_lumps As). n < lump_size sz" using mem_allocate_ok [OF hi sz] r by auto
    obtain ok h2 g2 where e: "mem_expand sz (h, g) = Inr (ok, h2, g2)"
      "if ok then \<exists>q. gmem_inv h2 g2 (As @ [(q, [(ROUNDUPREGIONSIZE (sz + 48) - 48, True)])]) \<and> keeps (useds As) (gmem g) (gmem g2) else h2 = h \<and> gmem g2 = gmem g"
      using mem_expand_ok [OF inv sz len] by (elim exE conjE) (rule that)
    show ?thesis
    proof (cases ok)
      case False
      then show ?thesis using r None n nf e by (simp add: with_expansion_def)
    next
      case True
      then obtain q where q: "gmem_inv h2 g2 (As @ [(q, [(ROUNDUPREGIONSIZE (sz + 48) - 48, True)])])" "keeps (useds As) (gmem g) (gmem g2)" using e(2) by auto
      let ?A = "As @ [(q, [(ROUNDUPREGIONSIZE (sz + 48) - 48, True)])]"
      have hi2: "heap_inv (gmem g2) h2 ?A" using q(1) unfolding gmem_inv_def by blast
      obtain r2 h3 m3 where r2: "mem_allocate sz (h2, gmem g2) = Inr (r2, h3, m3)" using mem_allocate_ok [OF hi2 sz] by blast
      have U: "useds ?A = useds As" by (auto simp: useds_def)
      show ?thesis
      proof (cases r2)
        case None2: None
        have "\<forall>(x, n)\<in>frees (all_lumps ?A). n < lump_size sz" using mem_allocate_ok [OF hi2 sz] r2 None2 by auto
        then have "ROUNDUPREGIONSIZE (sz + 48) - 48 < lump_size sz" by simp
        then show ?thesis using r None n nf e True r2 None2 by (simp add: with_expansion_def less_diff_conv2)
      next
        case (Some p)
        then have "\<exists>As'. gmem_inv h3 (g2\<lparr>gmem := m3\<rparr>) As' \<and> allocated p (lump_size sz) As g As' (g2\<lparr>gmem := m3\<rparr>)"
          using allocate_step [OF q(1) sz] r2 allocated_grow [OF _ U q(2)] by blast
        then show ?thesis using r None n e True r2 Some by (simp add: with_expansion_def)
      qed
    qed
  qed
qed

lemma gc_malloc_fixed_ok:
  assumes inv: "gmem_inv h g As" and sz: "sz < 2 ^ 31" and len: "length (gregions g) < GC_REGION_TABLE_SIZE"
  shows "case gc_malloc_fixed sz (h, g) of
      Inr (p, h', g') \<Rightarrow> marked (gmem g') p \<and> (\<exists>As'. gmem_inv h' g' As' \<and> allocated p (lump_size sz) As g As' g')
    | Inl e \<Rightarrow> (\<forall>(x, n)\<in>frees (all_lumps As). n < lump_size sz) \<and> (e = OutOfMemoryError \<or> e = C_undefined \<and> ROUNDUPREGIONSIZE (sz + 48) < lump_size sz + 48)"
proof (cases "with_expansion (mem_allocate sz) sz (h, g)")
  case (Inl e)
  then show ?thesis using with_expansion_ok [OF assms] by (simp add: gc_malloc_fixed_def)
next
  case (Inr y)
  obtain p h' g' where y: "y = (p, h', g')" by (cases y)
  then obtain As' where As': "gmem_inv h' g' As'" "allocated p (lump_size sz) As g As' g'" using with_expansion_ok [OF assms] Inr by auto
  have "marked (set_mark p (gmem g')) p" by (simp add: marked_def set_mark_def)
  then show ?thesis using Inr y allocated_mark [OF As'] by (auto simp: gc_malloc_fixed_def)
qed

section \<open>The empty heap\<close>

definition no_memory :: gmem where
  "no_memory = \<lparr>gmem = (\<lambda>_. 0), gregions = [], gos = \<lparr>brk = 4096, brk_limit = 2 ^ 30\<rparr>, gused = 0, gc_heap_limit = 512 * 1024 * 1024\<rparr>"

lemma no_memory_inv: "gmem_inv (mem_init GC_REGION_FIXED) no_memory []"
  by (auto simp: gmem_inv_def heap_inv_def places_def tilings_def lists_ok_def regions_ok_def no_memory_def mem_init_def frees_def)

lemma mem_allocate_none:
  assumes inv: "heap_inv m h As" and nf: "\<forall>(x, n)\<in>frees (all_lumps As). n < lump_size sz"
  shows "mem_allocate sz (h, m) = Inr (None, h, m)"
proof -
  have "lists_ok m h (frees (all_lumps As))" using inv unfolding heap_inv_def by blast
  from find_freelump_best [OF this, of "lump_size sz"] have "find_freelump m h (lump_size sz) (size_class (lump_size sz)) = None"
    using nf by (auto split: option.splits)
  then show ?thesis by (simp add: mem_allocate_def Let_def)
qed

lemma gc_malloc_fixed_crash:
  assumes inv: "gmem_inv h g As" and sz: "sz < 2 ^ 31" and len: "length (gregions g) < GC_REGION_TABLE_SIZE"
    and nf: "\<forall>(x, n)\<in>frees (all_lumps As). n < lump_size sz"
    and ra: "\<exists>r rs s. region_allocate (gc_heap_limit g) (gused g) (ROUNDUPREGIONSIZE (sz + 48)) (htype h) (gregions g, gos g) = Inr (Some r, rs, s)"
    and small: "ROUNDUPREGIONSIZE (sz + 48) < lump_size sz + 48"
  shows "gc_malloc_fixed sz (h, g) = Inl C_undefined"
proof -
  have hi: "heap_inv (gmem g) h As" using inv unfolding gmem_inv_def by blast
  obtain ok h2 g2 where e: "mem_expand sz (h, g) = Inr (ok, h2, g2)"
    and k: "ok \<longleftrightarrow> (\<exists>r rs s. region_allocate (gc_heap_limit g) (gused g) (ROUNDUPREGIONSIZE (sz + 48)) (htype h) (gregions g, gos g) = Inr (Some r, rs, s))"
    and x: "if ok then \<exists>q. gmem_inv h2 g2 (As @ [(q, [(ROUNDUPREGIONSIZE (sz + 48) - 48, True)])]) \<and> keeps (useds As) (gmem g) (gmem g2) else h2 = h \<and> gmem g2 = gmem g"
    using mem_expand_ok [OF inv sz len] by (elim exE conjE) (rule that)
  have ok: "ok = True" using k ra by simp
  obtain q where q: "gmem_inv h2 g2 (As @ [(q, [(ROUNDUPREGIONSIZE (sz + 48) - 48, True)])])" using x unfolding ok by auto
  have hi2: "heap_inv (gmem g2) h2 (As @ [(q, [(ROUNDUPREGIONSIZE (sz + 48) - 48, True)])])" using q unfolding gmem_inv_def by blast
  have "mem_allocate sz (h2, gmem g2) = Inr (None, h2, gmem g2)"
    by (rule mem_allocate_none [OF hi2]) (use nf small round_region(2) [OF sz] in auto)
  then show ?thesis using mem_allocate_none [OF hi nf] e ok by (simp add: gc_malloc_fixed_def with_expansion_def)
qed

lemma no_memory_region: "\<exists>r rs s. region_allocate (gc_heap_limit no_memory) (gused no_memory) 2097152 GC_REGION_FIXED (gregions no_memory, gos no_memory) = Inr (Some r, rs, s)"
  by (simp add: no_memory_def region_allocate_def sbrk_aligned_def sbrk_def GC_BLOCKSIZE_def GC_REGION_TABLE_SIZE_def Let_def)

section \<open>The program and its memory\<close>

text \<open>What a program writes into the lumps it was given does not disturb the manager.\<close>

lemma heap_inv_payload:
  assumes inv: "heap_inv m h As" and u: "(t, n) \<in> useds As" and eq: "\<And>a. a \<notin> payload t n \<Longrightarrow> m' a = m a"
  shows "heap_inv m' h As"
proof -
  have pl: "places As" and ti: "tilings m As" and lo: "lists_ok m h (frees (all_lumps As))" using inv unfolding heap_inv_def by blast+
  have x: "(t, n, False) \<in> all_lumps As" using u by (simp add: useds_def)
  note nf = lump_facts [OF ti x]
  obtain A1 q l1 l2 A2 where A: "As = A1 @ (q, l1 @ (n, False) # l2) # A2" and t: "t = q + extent l1" using focus [OF x] by blast
  have ti': "tilings m (A1 @ A2)" and s1: "seg m q False l1" and tp: "tiled m t (end_free False l1) ((n, False) # l2)"
    using ti unfolding A tilings_split tiled_append t by (simp_all add: tiled_Cons)
  have q16: "16 \<le> q" using pl A by (auto simp: places_def)
  have out: "m' a = m a" if "a < t \<or> t + n - 4 \<le> a" for a using that by (intro eq) (auto simp: payload_def GC_HEAD_def)
  have "tilings m' (A1 @ A2)"
    by (rule tilings_frame [OF pl [unfolded A] ti']) (use q16 t in \<open>auto simp: footprint_def intro!: out\<close>)
  moreover have "seg m' q False l1" by (rule seg_cong [OF s1]) (use q16 t in \<open>auto intro!: out\<close>)
  moreover have "tiled m' t (end_free False l1) ((n, False) # l2)"
  proof -
    have r: "tiled m (t + n) False l2" using tp unfolding tiled_Cons by blast
    have "tiled m' (t + n) False l2" by (rule tiled_cong [OF r]) (use q16 t nf in \<open>auto intro!: out\<close>)
    moreover have "m' (HEADER t) = m (HEADER t)" using q16 t by (intro out) (simp add: HEADER_def GC_HEAD_def)
    ultimately show ?thesis using tp unfolding tiled_Cons by (simp add: SIZE_def)
  qed
  ultimately have til: "tilings m' As" unfolding A tilings_split tiled_append t by blast
  then have "lists_ok m' h (frees (all_lumps As))" using lo lump_facts(1) [OF til] by (intro lists_ok_cong [OF lo]) (auto simp: frees_def)
  then show ?thesis using pl til unfolding heap_inv_def by blast
qed

lemma payload_subset_area: "16 \<le> x \<Longrightarrow> payload x n \<subseteq> area x n"
  by (auto simp: payload_def area_def GC_HEAD_def)

lemma used_place:
  assumes "heap_inv m h As" "(p, k) \<in> useds As" shows "16 \<le> p" "16 \<le> k" "SIZE m p = k"
proof -
  have pl: "(p, k, False) \<in> all_lumps As" "tilings m As" using assms by (auto simp: useds_def heap_inv_def)
  obtain q ls where q: "(q, ls) \<in> set As" "(p, k, False) \<in> set (lumps q ls)" using pl(1) by (auto simp: all_lumps_def)
  have "seg m q False ls" "16 \<le> q" using assms(1) q(1) by (auto simp: heap_inv_def tilings_def tiled_def places_def)
  then show "16 \<le> p" using seg_lumps [OF _ q(2)] by (meson le_trans)
  show "16 \<le> k" "SIZE m p = k" using lump_facts [OF pl(2,1)] by simp_all
qed

lemma mem_resize_ok:
  assumes inv: "heap_inv m h As" and u: "(p, k) \<in> useds As" and sz: "sz < 2 ^ 31"
  shows "\<exists>r h' m'. mem_resize p sz (h, m) = Inr (r, h', m') \<and>
    (case r of
       None \<Rightarrow> h' = h \<and> m' = m
     | Some t \<Rightarrow> \<exists>As'. heap_inv m' h' As' \<and> useds As' = insert (t, lump_size sz) (useds As - {(p, k)}) \<and> keeps (useds As - {(p, k)}) m m' \<and>
         (\<forall>i<min sz (k - 4). m' (t + i) = m (p + i)))"
proof -
  note pk = used_place [OF inv u]
  let ?n = "lump_size sz"
  note nf = lump_size_facts [OF sz]
  obtain r h1 m1 where r: "mem_allocate sz (h, m) = Inr (r, h1, m1)" using mem_allocate_ok [OF inv sz] by blast
  show ?thesis
  proof (cases r)
    case None
    then have "h1 = h" "m1 = m" using mem_allocate_ok [OF inv sz] r by auto
    then show ?thesis using None r pk by (intro exI [of _ None]) (simp add: mem_resize_def)
  next
    case (Some t)
    have ok: "\<exists>As'. heap_inv m1 h1 As' \<and> useds As' = insert (t, ?n) (useds As)" "keeps (useds As) m m1" "\<forall>(x, k)\<in>useds As. area x k \<inter> area t ?n = {}" "16 \<le> t"
      using mem_allocate_ok [OF inv sz] r Some by auto
    obtain As1 where As1: "heap_inv m1 h1 As1" "useds As1 = insert (t, ?n) (useds As)" using ok(1) by blast
    have sp: "SIZE m1 p = k" using used_place(3) [OF As1(1), of p k] As1(2) u by simp
    let ?c = "if sz > SIZE m1 p - GC_HEAD then SIZE m1 p - GC_HEAD else sz"
    have c: "?c = min sz (k - 4)" by (auto simp: sp GC_HEAD_def)
    let ?m2 = "copy_words t p ?c m1"
    have out2: "?m2 a = m1 a" if "a \<notin> payload t ?n" for a using that nf unfolding c by (auto simp: copy_words_def payload_def GC_HEAD_def)
    have inv2: "heap_inv ?m2 h1 As1" by (rule heap_inv_payload [OF As1(1) _ out2]) (simp_all add: As1(2))
    have u1: "(p, k) \<in> useds As1" using u As1(2) by simp
    obtain h3 m3 As3 where f: "mem_free p (h1, ?m2) = Inr (h3, m3)" "heap_inv m3 h3 As3" "useds As3 = useds As1 - {(p, k)}" "keeps (useds As1 - {(p, k)}) ?m2 m3"
      using mem_free_ok [OF inv2 u1] by blast
    have area_p: "area p k \<inter> area t ?n = {}" using ok(3) u by blast
    have ne: "t \<noteq> p"
    proof
      assume "t = p"
      then have "p - 4 \<in> area p k \<inter> area t ?n" using pk nf by (auto simp: area_def GC_HEAD_def)
      with area_p show False by blast
    qed
    then have U: "useds As3 = insert (t, ?n) (useds As - {(p, k)})" using f(3) As1(2) by auto
    have keep: "keeps (useds As - {(p, k)}) m m3"
    proof (rule keeps_trans)
      have "(\<forall>a\<in>payload x j. ?m2 a = m a) \<and> marked ?m2 x = marked m x" if x: "(x, j) \<in> useds As" for x j
      proof -
        have d: "area x j \<inter> area t ?n = {}" using ok(3) x by blast
        note xp = used_place [OF inv x]
        have "a \<notin> payload t ?n" if "a \<in> area x j" for a using d that payload_subset_area [OF ok(4)] by blast
        moreover have "HEADER x \<in> area x j" using xp by (simp add: area_def HEADER_def GC_HEAD_def)
        ultimately have "?m2 (HEADER x) = m1 (HEADER x)" "\<forall>a\<in>payload x j. ?m2 a = m1 a" using out2 payload_subset_area [OF xp(1)] by blast+
        then show ?thesis using keepsD [OF ok(2) x] by (simp add: marked_def)
      qed
      then show "keeps (useds As - {(p, k)}) m ?m2" unfolding keeps_def by blast
      show "keeps (useds As - {(p, k)}) ?m2 m3" using f(4) unfolding As1(2) keeps_def by blast
    qed
    have "(t, ?n) \<in> useds As1 - {(p, k)}" using As1(2) ne by simp
    note kt = keepsD [OF f(4) this]
    have "m3 (t + i) = m (p + i)" if "i < min sz (k - 4)" for i
    proof -
      have "t + i \<in> payload t ?n" using that nf by (auto simp: payload_def GC_HEAD_def)
      then have "m3 (t + i) = ?m2 (t + i)" using kt by blast
      also have "\<dots> = m1 (p + i)" unfolding c using that by (simp add: copy_words_def)
      also have "\<dots> = m (p + i)" using keepsD [OF ok(2) u] that by (auto simp: payload_def GC_HEAD_def)
      finally show ?thesis .
    qed
    then show ?thesis using r Some pk f(1,2) U keep by (intro exI [of _ "Some t"] exI [of _ "h3\<lparr>halloc := halloc h3 + sz\<rparr>"] exI [of _ m3])
      (auto simp: mem_resize_def Let_def heap_inv_def intro!: exI [of _ As3])
  qed
qed

section \<open>A heap with one region\<close>

text \<open>One lump of 64 bytes is in use, the rest of the region is free.\<close>

definition example_memory :: memory where
  "example_memory = carve 4112 2097104 64 (format_region 4112 2097104 (\<lambda>_. 0))"

definition example_arenas :: "arena list" where
  "example_arenas = [(4112, [(64, False), (2097040, True)])]"

definition example_heap :: gc_heap where
  "example_heap = insert_freelump example_memory 4176 (size_class 2097040) (mem_init GC_REGION_FIXED)"

lemma example_lumps: "all_lumps example_arenas = {(4112, 64, False), (4176, 2097040, True)}"
  by (auto simp: example_arenas_def all_lumps_def)

lemma example_inv: "heap_inv example_memory example_heap example_arenas"
proof -
  have f: "tiled (format_region 4112 2097104 (\<lambda>_. 0)) 4112 False [(2097104, True)]" by (rule tiled_format(1)) simp_all
  have "tiled example_memory 4112 False (carved 2097104 64 @ [])" unfolding example_memory_def
    by (rule tiled_carve(1) [OF f]) simp_all
  then have ti: "tilings example_memory example_arenas" by (simp add: tilings_def example_arenas_def carved_def)
  have "SIZE example_memory 4176 = 2097040" using lump_facts(1) [OF ti, of 4176 2097040 True] by (simp add: example_lumps)
  moreover have "lists_ok example_memory (mem_init GC_REGION_FIXED) {}" by (simp add: lists_ok_def mem_init_def)
  ultimately have "lists_ok example_memory example_heap (insert (4176, 2097040) {})" unfolding example_heap_def by (intro insert_freelump_ok) simp_all
  then show ?thesis using ti by (simp add: heap_inv_def places_def example_lumps) (simp add: example_arenas_def)
qed

lemma example_used: "(4112, 64) \<in> useds example_arenas"
  by (simp add: useds_def example_lumps)

section \<open>Properties\<close>

text \<open>
  C34. Allocation refines the abstract heap of lumps: it returns a smallest free lump that is large enough, split if it is larger, and fails only
  if there is none. The new lump is aligned, cleared and apart from every lump in use; contents and mark bits of those stay,
  and the boundary tags and free lists again describe the heap.
\<close>
theorem mem_allocate_best_fit:
  assumes "heap_inv m h As" and "sz < 2 ^ 31"
  shows "\<exists>r h' m'. mem_allocate sz (h, m) = Inr (r, h', m') \<and>
    (case r of
       None \<Rightarrow> h' = h \<and> m' = m \<and> (\<forall>(x, n)\<in>frees (all_lumps As). n < lump_size sz)
     | Some p \<Rightarrow>
         (\<exists>As'. heap_inv m' h' As' \<and> useds As' = insert (p, lump_size sz) (useds As) \<and> map (\<lambda>(q, ls). (q, extent ls)) As' = map (\<lambda>(q, ls). (q, extent ls)) As) \<and>
         (\<exists>n0. (p, n0) \<in> frees (all_lumps As) \<and> lump_size sz \<le> n0 \<and> (\<forall>(x, k)\<in>frees (all_lumps As). lump_size sz \<le> k \<longrightarrow> n0 \<le> k)) \<and>
         keeps (useds As) m m' \<and> (\<forall>(x, k)\<in>useds As. area x k \<inter> area p (lump_size sz) = {}) \<and> (\<forall>a\<in>payload p (lump_size sz). m' a = 0) \<and>
         marked m' p = marked m p \<and> 16 \<le> p \<and> 16 dvd p)"
  by (rule mem_allocate_ok [OF assms])

theorem mem_allocate_best_fit_witness:
  "\<exists>p h' m'. mem_allocate 100 (example_heap, example_memory) = Inr (Some p, h', m') \<and> (\<forall>a\<in>payload p 112. m' a = 0) \<and> area 4112 64 \<inter> area p 112 = {}"
proof -
  have l: "lump_size 100 = 112" by (simp add: lump_size_def gc_consts)
  obtain r h' m' where r: "mem_allocate 100 (example_heap, example_memory) = Inr (r, h', m')"
    and c: "case r of None \<Rightarrow> \<forall>(x, n)\<in>frees (all_lumps example_arenas). n < lump_size 100
      | Some p \<Rightarrow> (\<forall>(x, k)\<in>useds example_arenas. area x k \<inter> area p (lump_size 100) = {}) \<and> (\<forall>a\<in>payload p (lump_size 100). m' a = 0)"
    using mem_allocate_best_fit [OF example_inv, of 100] by (auto split: option.splits)
  then show ?thesis using example_used by (cases r) (auto simp: l example_lumps frees_def)
qed

text \<open>
  C35. Release refines the abstract heap: exactly the lump given back is no longer in use, contents and mark bits of all others stay,
  and the invariant holds again, so the lump was merged with its free neighbours.
\<close>
theorem mem_free_coalesces:
  assumes "heap_inv m h As" and "(p, n) \<in> useds As"
  shows "\<exists>h' m' As'. mem_free p (h, m) = Inr (h', m') \<and> heap_inv m' h' As' \<and> useds As' = useds As - {(p, n)} \<and> keeps (useds As - {(p, n)}) m m' \<and>
    map (\<lambda>(q, ls). (q, extent ls)) As' = map (\<lambda>(q, ls). (q, extent ls)) As"
  using mem_free_ok [OF assms] by blast

theorem mem_free_coalesces_witness:
  "\<exists>h' m' As'. mem_free 4112 (example_heap, example_memory) = Inr (h', m') \<and> heap_inv m' h' As' \<and> useds As' = {}"
proof -
  have "useds example_arenas - {(4112, 64)} = {}" by (auto simp: useds_def example_lumps)
  then show ?thesis using mem_free_coalesces [OF example_inv example_used] by metis
qed



text \<open>
  C37. \<open>mem_expand\<close> reserves 48 bytes beyond the request and uses all of them for headers, so the new lump may be smaller than the rounded size with its header and padding:
  if the request lies within 12 bytes below such a limit, the second attempt fails too and \<open>gc_malloc_fixed\<close> sets the mark bit of the null pointer.
\<close>
theorem gc_malloc_fixed_dereferences_null:
  assumes "gmem_inv h g As" and "sz < 2 ^ 31" and "length (gregions g) < GC_REGION_TABLE_SIZE"
    and "\<forall>(x, n)\<in>frees (all_lumps As). n < lump_size sz"
    and "\<exists>r rs s. region_allocate (gc_heap_limit g) (gused g) (ROUNDUPREGIONSIZE (sz + 48)) (htype h) (gregions g, gos g) = Inr (Some r, rs, s)"
    and "ROUNDUPREGIONSIZE (sz + 48) < lump_size sz + 48"
  shows "gc_malloc_fixed sz (h, g) = Inl C_undefined"
  by (rule gc_malloc_fixed_crash [OF assms])

theorem gc_malloc_fixed_dereferences_null_witness:
  "gc_malloc_fixed 2097104 (mem_init GC_REGION_FIXED, no_memory) = Inl C_undefined"
  by (rule gc_malloc_fixed_dereferences_null [OF no_memory_inv])
    (use no_memory_region in \<open>simp_all add: no_memory_def mem_init_def GC_REGION_TABLE_SIZE_def lump_size_def ROUNDUPREGIONSIZE_def gc_consts\<close>)

end
