(* ===== verification/GC_Large.thy ===== *)
theory GC_Large
  imports GC_Arena GC_Heap
begin

text \<open>
  The sweep of the large objects gives exactly the unmarked ones back to the manual memory manager and clears the marks of the others.
\<close>

section \<open>The sweep of the large objects\<close>

definition reserved :: "arena list \<Rightarrow> nat set" where
  "reserved As = (\<Union>A\<in>set As. footprint A)"

text \<open>Two memories that agree in the regions of a heap but for flags in headers that do not matter to the manager.\<close>

definition same_tags :: "arena list \<Rightarrow> memory \<Rightarrow> memory \<Rightarrow> bool" where
  "same_tags As m m' \<longleftrightarrow> (\<forall>a\<in>reserved As. m' a = m a \<or>
     (\<exists>p. 16 dvd p \<and> 16 \<le> p \<and> a = HEADER p \<and> size_word (m' a) = size_word (m a) \<and> prev_word (m' a) = prev_word (m a)))"

lemma same_tags_header: "same_tags As m m' \<Longrightarrow> HEADER x \<in> reserved As \<Longrightarrow> SIZE m' x = SIZE m x \<and> prev_word (m' (HEADER x)) = prev_word (m (HEADER x))"
  unfolding same_tags_def SIZE_def by fastforce

lemma same_tags_footer:
  assumes "same_tags As m m'" "a \<in> reserved As" "a mod 16 \<noteq> 12"
  shows "m' a = m a"
proof (rule ccontr)
  assume "m' a \<noteq> m a"
  then obtain p where p: "16 dvd p" "16 \<le> p" "a = p - 4" using assms(1,2) unfolding same_tags_def HEADER_def GC_HEAD_def by blast
  obtain k where k: "p = 16 * k" using p(1) by (rule dvdE)
  have "a = 16 * (k - 1) + 12" using p k by (cases k) auto
  then have "a mod 16 = 12" by simp
  with assms(3) show False by simp
qed

lemma seg_same_tags:
  assumes st: "same_tags As m m'"
  shows "seg m q pf ls \<Longrightarrow> 16 dvd q \<Longrightarrow> 16 \<le> q \<Longrightarrow> {q - 4..<q + extent ls - 4} \<subseteq> reserved As \<Longrightarrow> seg m' q pf ls"
proof (induction ls arbitrary: q pf)
  case (Cons l ls)
  obtain n f where l: "l = (n, f)" by fastforce
  have n: "16 dvd n" "0 < n" "seg m (q + n) f ls" using Cons.prems(1) l by auto
  then have n16: "16 \<le> n" by (auto dest: dvd_imp_le)
  have "HEADER q \<in> {q - 4..<q + extent (l # ls) - 4}" "FOOTER q n \<in> {q - 4..<q + extent (l # ls) - 4}"
    using Cons.prems(3) n16 l by (simp_all add: HEADER_def FOOTER_def GC_HEAD_def) linarith
  then have hq: "HEADER q \<in> reserved As" "FOOTER q n \<in> reserved As" using Cons.prems(4) by blast+
  obtain k where k: "q + n = 16 * k" using Cons.prems(2) n(1) by (metis dvd_add dvdE)
  have "FOOTER q n = 16 * (k - 1) + 8" using k Cons.prems(3) by (cases k) (auto simp: FOOTER_def GC_HEAD_def)
  then have "FOOTER q n mod 16 \<noteq> 12" by simp
  then have ft: "m' (FOOTER q n) = m (FOOTER q n)" by (rule same_tags_footer [OF st hq(2)])
  have "{q + n - 4..<q + n + extent ls - 4} \<subseteq> {q - 4..<q + extent (l # ls) - 4}" using l by auto
  then have "{q + n - 4..<q + n + extent ls - 4} \<subseteq> reserved As" using Cons.prems(4) by (rule subset_trans)
  then have "seg m' (q + n) f ls" using Cons.IH [OF n(3)] Cons.prems(2,3) n(1) by simp
  then show ?case using Cons.prems(1) l same_tags_header [OF st hq(1)] ft by simp
qed simp

lemma heap_inv_same_tags:
  assumes inv: "heap_inv m h As" and st: "same_tags As m m'"
  shows "heap_inv m' h As"
proof -
  have "tiled m' q False ls" if A: "(q, ls) \<in> set As" for q ls
  proof -
    have s: "seg m q False ls" "dummy m (q + extent ls) (end_free False ls)" "16 dvd q" "16 \<le> q"
      using inv A by (auto simp: heap_inv_def tilings_def tiled_def places_def)
    have fp: "{q - 4..<q + extent ls + 8} \<subseteq> reserved As" using A by (force simp: reserved_def footprint_def)
    have "{q - 4..<q + extent ls - 4} \<subseteq> {q - 4..<q + extent ls + 8}" by auto
    then have "seg m' q False ls" using seg_same_tags [OF st s(1,3,4)] fp by blast
    moreover have "HEADER (q + extent ls) \<in> {q - 4..<q + extent ls + 8}" "HEADER (q + extent ls + MEMALIGN) \<in> {q - 4..<q + extent ls + 8}"
      using s(4) by (simp_all add: HEADER_def gc_consts) linarith
    then have hd: "HEADER (q + extent ls) \<in> reserved As" "HEADER (q + extent ls + MEMALIGN) \<in> reserved As" using fp by blast+
    ultimately show ?thesis using hd s(2) same_tags_header [OF st hd(1)] same_tags_header [OF st hd(2)] by (simp add: tiled_def dummy_def)
  qed
  then have ti: "tilings m' As" by (auto simp: tilings_def)
  have "lists_ok m' h (frees (all_lumps As))"
    by (rule lists_ok_cong [of m]) (use inv lump_facts(1) [OF ti] in \<open>auto simp: heap_inv_def frees_def\<close>)
  then show ?thesis using inv ti unfolding heap_inv_def by blast
qed

lemma used_facts:
  assumes inv: "heap_inv m h As" and u: "(p, n) \<in> useds As"
  shows "16 dvd p" "16 \<le> p" "area p n \<subseteq> reserved As" "HEADER p \<in> reserved As"
proof -
  obtain q ls where q: "(q, ls) \<in> set As" "(p, n, False) \<in> set (lumps q ls)" using u by (auto simp: useds_def all_lumps_def)
  have s: "seg m q False ls" "16 dvd q" "16 \<le> q" using inv q(1) by (auto simp: heap_inv_def tilings_def tiled_def places_def)
  have "(p, n, False) \<in> set (lumps q ls) \<Longrightarrow> seg m q pf ls \<Longrightarrow> 16 dvd q \<Longrightarrow> 16 dvd p" for q pf ls
  proof (induction ls arbitrary: q pf)
    case (Cons l ls)
    obtain k f where l: "l = (k, f)" by fastforce
    then show ?case using Cons.prems Cons.IH [of "q + k" f] by auto
  qed simp
  then show "16 dvd p" using q(2) s by blast
  have b: "q \<le> p" "p + n \<le> q + extent ls" "0 < n" using seg_lumps [OF s(1) q(2)] by blast+
  then show "16 \<le> p" using s(3) by simp
  have "area p n \<subseteq> footprint (q, ls)" using b s(3) by (auto simp: area_def footprint_def GC_HEAD_def)
  then show "area p n \<subseteq> reserved As" using q(1) by (auto simp: reserved_def)
  have "HEADER p \<in> footprint (q, ls)" using b s(3) by (auto simp: HEADER_def footprint_def GC_HEAD_def)
  then show "HEADER p \<in> reserved As" using q(1) by (auto simp: reserved_def)
qed

lemma used_unique: "heap_inv m h As \<Longrightarrow> (p, n) \<in> useds As \<Longrightarrow> (p, k) \<in> useds As \<Longrightarrow> n = k"
  using used_place(3) by metis

lemma clear_mark_tags: "16 dvd p \<Longrightarrow> 16 \<le> p \<Longrightarrow> same_tags As m (clear_mark p m)"
  unfolding same_tags_def
proof
  fix a assume p: "16 dvd p" "16 \<le> p"
  show "clear_mark p m a = m a \<or> (\<exists>p'. 16 dvd p' \<and> 16 \<le> p' \<and> a = HEADER p' \<and> size_word (clear_mark p m a) = size_word (m a) \<and> prev_word (clear_mark p m a) = prev_word (m a))"
  proof (cases "a = HEADER p")
    case True
    then have "size_word (clear_mark p m a) = size_word (m a)" "prev_word (clear_mark p m a) = prev_word (m a)" by (simp_all add: clear_mark_def)
    then show ?thesis using p True by blast
  qed (simp add: clear_mark_def)
qed

lemma same_map_footprints:
  assumes "map (\<lambda>(q, ls). (q, extent ls)) As' = map (\<lambda>(q, ls). (q, extent ls)) As"
  shows "reserved As' = reserved As"
proof -
  define f :: "arena \<Rightarrow> nat \<times> nat" where "f = (\<lambda>(q, ls). (q, extent ls))"
  define g :: "nat \<times> nat \<Rightarrow> nat set" where "g = (\<lambda>(q, e). {q - 4..<q + e + 8})"
  have fp: "footprint A = g (f A)" for A by (simp add: footprint_def f_def g_def split: prod.split)
  have r: "reserved Bs = \<Union> (g ` set (map f Bs))" for Bs by (simp add: reserved_def fp image_image)
  have m: "map f As' = map f As" using assms unfolding f_def .
  show ?thesis by (simp only: r m)
qed

text \<open>
  What the sweep of the objects \<open>X\<close> does: the unmarked ones are given back, the others lose their mark, contents stay, and nothing outside the regions of
  the heap changes.
\<close>

definition swept_lumps :: "nat set \<Rightarrow> memory \<Rightarrow> arena list \<Rightarrow> memory \<Rightarrow> gc_heap \<Rightarrow> arena list \<Rightarrow> bool" where
  "swept_lumps X m As m' h' As' \<longleftrightarrow> heap_inv m' h' As' \<and> useds As' = {u \<in> useds As. \<not> (fst u \<in> X \<and> \<not> marked m (fst u))} \<and>
     (\<forall>u\<in>useds As'. (\<forall>a\<in>payload (fst u) (snd u). m' a = m a) \<and> marked m' (fst u) = (marked m (fst u) \<and> fst u \<notin> X)) \<and>
     reserved As' = reserved As \<and> (\<forall>a. a \<notin> reserved As \<longrightarrow> m' a = m a)"

lemma swept_lumps_none: "heap_inv m h As \<Longrightarrow> swept_lumps {} m As m h As"
  by (simp add: swept_lumps_def)

lemma marked_header_eq: "HEADER x \<noteq> HEADER p \<Longrightarrow> marked (clear_mark p m) x = marked m x" "\<not> marked (clear_mark p m) p"
  by (simp_all add: marked_def clear_mark_def)

lemma headers_apart: "heap_inv m h As \<Longrightarrow> (x, n) \<in> useds As \<Longrightarrow> (p, k) \<in> useds As \<Longrightarrow> x \<noteq> p \<Longrightarrow> HEADER x \<noteq> HEADER p"
  using used_facts(2) [of m h As x n] used_facts(2) [of m h As p k] by (simp add: HEADER_def GC_HEAD_def)

lemma payload_not_header:
  assumes inv: "heap_inv m h As" and u: "(x, n) \<in> useds As" and p: "(p, k) \<in> useds As"
  shows "HEADER p \<notin> payload x n"
proof
  assume a: "HEADER p \<in> payload x n"
  have pl: "places As" and ti: "tilings m As" using inv unfolding heap_inv_def by blast+
  have xl: "(x, n, False) \<in> all_lumps As" and pm: "(p, k, False) \<in> all_lumps As" using u p by (auto simp: useds_def)
  obtain A1 q l1 l2 A2 where A: "As = A1 @ (q, l1 @ (n, False) # l2) # A2" and x: "x = q + extent l1" using focus [OF xl] by blast
  have xp: "x + 4 \<le> p" "p < x + n" using a used_facts(2) [OF inv p] by (auto simp: payload_def HEADER_def GC_HEAD_def)
  have "p \<noteq> q + extent l1" using xp(1) x by simp
  then have ar: "(p, k, False) \<in> around A1 q l1 n l2 A2" using pm unfolding A by (auto simp: around_def)
  have "tilings m (A1 @ A2)" "seg m q False l1" "tiled m (q + extent l1) (end_free False l1) ((n, False) # l2)" using ti unfolding A tilings_split tiled_append by blast+
  then have "seg m (q + extent l1 + n) False l2" "tilings m (A1 @ A2)" "seg m q False l1" unfolding tiled_Cons by (auto simp: tiled_def)
  moreover have "places (A1 @ (q, l1 @ [(n, False)] @ l2) # A2)" using pl unfolding A by simp
  ultimately have "p + k \<le> q + extent l1 \<or> q + extent l1 + n \<le> p" using around_apart(1) [OF _ _ _ _ _ ar, where mid = "[(n, False)]"] by simp
  then show False using xp x by linarith
qed

lemma swept_lumps_trans:
  assumes a: "swept_lumps X m As m1 h1 As1" and b: "swept_lumps Y m1 As1 m2 h2 As2" and d: "X \<inter> Y = {}"
  shows "swept_lumps (X \<union> Y) m As m2 h2 As2"
proof -
  have u1: "useds As1 = {u \<in> useds As. \<not> (fst u \<in> X \<and> \<not> marked m (fst u))}" "reserved As1 = reserved As" "\<forall>a. a \<notin> reserved As \<longrightarrow> m1 a = m a"
    and k1: "\<forall>u\<in>useds As1. (\<forall>a\<in>payload (fst u) (snd u). m1 a = m a) \<and> marked m1 (fst u) = (marked m (fst u) \<and> fst u \<notin> X)" using a unfolding swept_lumps_def by blast+
  have u2: "heap_inv m2 h2 As2" "useds As2 = {u \<in> useds As1. \<not> (fst u \<in> Y \<and> \<not> marked m1 (fst u))}" "reserved As2 = reserved As1" "\<forall>a. a \<notin> reserved As1 \<longrightarrow> m2 a = m1 a"
    and k2: "\<forall>u\<in>useds As2. (\<forall>a\<in>payload (fst u) (snd u). m2 a = m1 a) \<and> marked m2 (fst u) = (marked m1 (fst u) \<and> fst u \<notin> Y)" using b unfolding swept_lumps_def by blast+
  have mk: "marked m1 (fst u) = (marked m (fst u) \<and> fst u \<notin> X)" if "u \<in> useds As1" for u using k1 that by blast
  have "useds As2 = {u \<in> useds As. \<not> (fst u \<in> X \<union> Y \<and> \<not> marked m (fst u))}"
  proof (intro set_eqI iffI)
    fix u assume "u \<in> useds As2"
    then have "u \<in> useds As1" "\<not> (fst u \<in> Y \<and> \<not> marked m1 (fst u))" unfolding u2(2) by simp_all
    then show "u \<in> {u \<in> useds As. \<not> (fst u \<in> X \<union> Y \<and> \<not> marked m (fst u))}" using mk [of u] unfolding u1(1) by blast
  next
    fix u assume u: "u \<in> {u \<in> useds As. \<not> (fst u \<in> X \<union> Y \<and> \<not> marked m (fst u))}"
    then have "u \<in> useds As1" unfolding u1(1) by blast
    then show "u \<in> useds As2" using mk [of u] u d unfolding u2(2) by blast
  qed
  moreover have "(\<forall>a\<in>payload (fst u) (snd u). m2 a = m a) \<and> marked m2 (fst u) = (marked m (fst u) \<and> fst u \<notin> X \<union> Y)" if u: "u \<in> useds As2" for u
  proof -
    have "u \<in> useds As1" using u unfolding u2(2) by blast
    then show ?thesis using k1 k2 u by auto
  qed
  ultimately show ?thesis unfolding swept_lumps_def using u2(1,3,4) u1(2,3) by auto
qed

lemma swept_lumps_one:
  assumes inv: "heap_inv m h As" and u: "(p, n) \<in> useds As"
  shows "marked m p \<Longrightarrow> swept_lumps {p} m As (clear_mark p m) h As"
    "\<not> marked m p \<Longrightarrow> \<exists>h' m' As'. mem_free p (h, m) = Inr (h', m') \<and> swept_lumps {p} m As m' h' As'"
proof -
  note uf = used_facts [OF inv u]
  show "swept_lumps {p} m As (clear_mark p m) h As" if mk: "marked m p"
  proof -
    have "heap_inv (clear_mark p m) h As" by (rule heap_inv_same_tags [OF inv clear_mark_tags [OF uf(1,2)]])
    moreover have "(\<forall>a\<in>payload x k. clear_mark p m a = m a) \<and> marked (clear_mark p m) x = (marked m x \<and> x \<notin> {p})" if x: "(x, k) \<in> useds As" for x k
    proof -
      have "HEADER p \<notin> payload x k" by (rule payload_not_header [OF inv x u])
      then have "\<forall>a\<in>payload x k. clear_mark p m a = m a" by (auto simp: clear_mark_def)
      moreover have "marked (clear_mark p m) x = (marked m x \<and> x \<notin> {p})"
        using marked_header_eq(1) [OF headers_apart [OF inv x u], of m] marked_header_eq(2) [of p m] by (cases "x = p") auto
      ultimately show ?thesis by blast
    qed
    moreover have "\<forall>a. a \<notin> reserved As \<longrightarrow> clear_mark p m a = m a" using uf(4) by (auto simp: clear_mark_def)
    ultimately show ?thesis unfolding swept_lumps_def using mk by auto
  qed
  show "\<exists>h' m' As'. mem_free p (h, m) = Inr (h', m') \<and> swept_lumps {p} m As m' h' As'" if nm: "\<not> marked m p"
  proof -
    from mem_free_ok [OF inv u] obtain h' m' As' where f: "mem_free p (h, m) = Inr (h', m')" "heap_inv m' h' As'" "useds As' = useds As - {(p, n)}" "keeps (useds As - {(p, n)}) m m'"
      "map (\<lambda>(q, ls). (q, extent ls)) As' = map (\<lambda>(q, ls). (q, extent ls)) As" "\<forall>a. (\<forall>A\<in>set As. a \<notin> footprint A) \<longrightarrow> m' a = m a"
      by (elim exE conjE) (rule that, assumption+)
    have "useds As' = {u \<in> useds As. \<not> (fst u \<in> {p} \<and> \<not> marked m (fst u))}" 
    proof (intro set_eqI iffI)
      fix v assume "v \<in> useds As'"
      then show "v \<in> {u \<in> useds As. \<not> (fst u \<in> {p} \<and> \<not> marked m (fst u))}" unfolding f(3) using used_unique [OF inv u] by (cases v) auto
    next
      fix v assume "v \<in> {u \<in> useds As. \<not> (fst u \<in> {p} \<and> \<not> marked m (fst u))}"
      then have "v \<in> useds As" "fst v \<noteq> p" using nm by blast+
      then show "v \<in> useds As'" unfolding f(3) by (metis Diff_iff empty_iff fst_conv insert_iff)
    qed
    moreover have "(\<forall>a\<in>payload (fst v) (snd v). m' a = m a) \<and> marked m' (fst v) = (marked m (fst v) \<and> fst v \<notin> {p})" if v: "v \<in> useds As'" for v
    proof -
      have "fst v \<noteq> p" using v nm calculation by auto
      then show ?thesis using keepsD [OF f(4), of "fst v" "snd v"] v f(3) by simp
    qed
    moreover have "\<forall>a. a \<notin> reserved As \<longrightarrow> m' a = m a" using f(6) by (auto simp: reserved_def)
    ultimately show ?thesis using f(1,2) same_map_footprints [OF f(5)] unfolding swept_lumps_def by blast
  qed
qed

lemma sweep_chain_ok:
  "heap_inv m h As \<Longrightarrow> distinct ps \<Longrightarrow> \<forall>p\<in>set ps. \<exists>n. (p, n) \<in> useds As \<Longrightarrow>
   \<exists>h' m' As'. sweep_chain ps (h, m) = Inr (filter (marked m) ps, h', m') \<and> swept_lumps (set ps) m As m' h' As'"
proof (induction ps arbitrary: m h As)
  case Nil
  then show ?case using swept_lumps_none by auto
next
  case (Cons p ps)
  obtain n where n: "(p, n) \<in> useds As" using Cons.prems(3) by auto
  have step: "\<exists>h' m' As'. swept_lumps {p} m As m' h' As' \<and> sweep_chain (p # ps) (h, m) =
      (if marked m p then bind_result (sweep_chain ps (h', m')) (\<lambda>(qs, hm). Inr (p # qs, hm)) else sweep_chain ps (h', m'))"
  proof (cases "marked m p")
    case True
    then show ?thesis using swept_lumps_one(1) [OF Cons.prems(1) n True] by auto
  next
    case False
    then obtain h' m' As' where f: "mem_free p (h, m) = Inr (h', m')" "swept_lumps {p} m As m' h' As'" using swept_lumps_one(2) [OF Cons.prems(1) n] by blast
    have "sweep_chain (p # ps) (h, m) = sweep_chain ps (h', m')" using False f(1) by simp
    then show ?thesis using False f(2) by auto
  qed
  then obtain h1 m1 As1 where s1: "swept_lumps {p} m As m1 h1 As1" "sweep_chain (p # ps) (h, m) =
      (if marked m p then bind_result (sweep_chain ps (h1, m1)) (\<lambda>(qs, hm). Inr (p # qs, hm)) else sweep_chain ps (h1, m1))" by blast
  have inv1: "heap_inv m1 h1 As1" and us1: "\<forall>u\<in>useds As. fst u \<noteq> p \<longrightarrow> u \<in> useds As1 \<and> marked m1 (fst u) = marked m (fst u)"
    using s1(1) unfolding swept_lumps_def by auto
  have in1: "(x, k) \<in> useds As1 \<and> marked m1 x = marked m x" if "x \<in> set ps" "(x, k) \<in> useds As" for x k using that us1 Cons.prems(2) by fastforce
  have "\<forall>p\<in>set ps. \<exists>n. (p, n) \<in> useds As1" using in1 Cons.prems(3) by (meson list.set_intros(2))
  then obtain h' m' As' where s2: "sweep_chain ps (h1, m1) = Inr (filter (marked m1) ps, h', m')" "swept_lumps (set ps) m1 As1 m' h' As'"
    using Cons.IH [OF inv1] Cons.prems(2) by auto
  have "filter (marked m1) ps = filter (marked m) ps" by (rule filter_cong [OF refl]) (use in1 Cons.prems(3) in auto)
  moreover have "swept_lumps (set (p # ps)) m As m' h' As'" using swept_lumps_trans [OF s1(1) s2(2)] Cons.prems(2) by simp
  ultimately show ?case using s1(2) s2(1) by auto
qed

lemma sweep_chains_ok:
  "heap_inv m h As \<Longrightarrow> distinct is \<Longrightarrow> \<forall>i\<in>set is. distinct (tab i) \<and> (\<forall>p\<in>set (tab i). \<exists>n. (p, n) \<in> useds As) \<Longrightarrow>
   \<forall>i\<in>set is. \<forall>j\<in>set is. i \<noteq> j \<longrightarrow> set (tab i) \<inter> set (tab j) = {} \<Longrightarrow>
   \<exists>h' m' As'. sweep_chains is (tab, h, m) = Inr (\<lambda>i. if i \<in> set is then filter (marked m) (tab i) else tab i, h', m') \<and>
     swept_lumps (\<Union>i\<in>set is. set (tab i)) m As m' h' As'"
proof (induction "is" arbitrary: m h As tab)
  case Nil
  then show ?case using swept_lumps_none by auto
next
  case (Cons i "is")
  obtain h1 m1 As1 where s1: "sweep_chain (tab i) (h, m) = Inr (filter (marked m) (tab i), h1, m1)" "swept_lumps (set (tab i)) m As m1 h1 As1"
    using sweep_chain_ok [OF Cons.prems(1), of "tab i"] Cons.prems(3) by auto
  let ?tab = "tab(i := filter (marked m) (tab i))"
  have ni: "i \<notin> set is" using Cons.prems(2) by simp
  have inv1: "heap_inv m1 h1 As1" and us1: "\<forall>u\<in>useds As. fst u \<notin> set (tab i) \<longrightarrow> u \<in> useds As1 \<and> marked m1 (fst u) = marked m (fst u)"
    using s1(2) unfolding swept_lumps_def by auto
  have in1: "(x, k) \<in> useds As1 \<and> marked m1 x = marked m x" if j: "j \<in> set is" "x \<in> set (tab j)" "(x, k) \<in> useds As" for x k j
  proof -
    have "x \<notin> set (tab i)" using Cons.prems(4) j ni by (metis disjoint_iff list.set_intros(1,2))
    then show ?thesis using us1 j(3) by fastforce
  qed
  have "distinct (?tab j) \<and> (\<forall>p\<in>set (?tab j). \<exists>n. (p, n) \<in> useds As1)" if "j \<in> set is" for j
  proof -
    have "?tab j = tab j" using that ni by auto
    then show ?thesis using in1 [OF that] Cons.prems(3) that by (metis list.set_intros(2))
  qed
  then have t1: "\<forall>j\<in>set is. distinct (?tab j) \<and> (\<forall>p\<in>set (?tab j). \<exists>n. (p, n) \<in> useds As1)" by blast
  have "set (?tab j) \<inter> set (?tab k) = {}" if "j \<in> set is" "k \<in> set is" "j \<noteq> k" for j k using that ni Cons.prems(4) by auto
  then have t2: "\<forall>j\<in>set is. \<forall>k\<in>set is. j \<noteq> k \<longrightarrow> set (?tab j) \<inter> set (?tab k) = {}" by blast
  have di: "distinct is" using Cons.prems(2) by simp
  obtain h' m' As' where s2: "sweep_chains is (?tab, h1, m1) = Inr (\<lambda>j. if j \<in> set is then filter (marked m1) (?tab j) else ?tab j, h', m')"
    "swept_lumps (\<Union>j\<in>set is. set (?tab j)) m1 As1 m' h' As'"
    using Cons.IH [OF inv1 di t1 t2] by blast
  have ut: "(\<Union>j\<in>set is. set (?tab j)) = (\<Union>j\<in>set is. set (tab j))" by (rule SUP_cong) (use ni in auto)
  have "filter (marked m1) (tab j) = filter (marked m) (tab j)" if "j \<in> set is" for j
    by (rule filter_cong [OF refl]) (use in1 [OF that] Cons.prems(3) that in fastforce)
  then have "(\<lambda>j. if j \<in> set is then filter (marked m1) (?tab j) else ?tab j) = (\<lambda>j. if j \<in> set (i # is) then filter (marked m) (tab j) else tab j)" using ni by auto
  moreover have "swept_lumps (\<Union>j\<in>set (i # is). set (tab j)) m As m' h' As'"
    using swept_lumps_trans [OF s1(2) s2(2)] Cons.prems(4) ni unfolding ut by fastforce
  ultimately show ?case using s1(1) s2(1) by auto
qed

end
