(* ===== verification/GC_Trace.thy ===== *)
theory GC_Trace
  imports GC_Mark
begin

text \<open>
  The mark phase is correct: it returns, and it marks the objects that are reachable from the roots, whatever the size of the
  mark stack. The proof follows the three states of the stack. While the live objects are collected the part
  of the stack above the cursor is grey; in the normal state the whole stack is; after an overflow nothing is known until
  the heap has been visited, and the measure of that loop is the number of unmarked objects.
\<close>

section \<open>What marking does\<close>

definition entries :: "gcs \<Rightarrow> nat list" where
  "entries s = take (nat (mark_top s + 1)) (mark_stack s)"

definition stack_ok :: "gcs \<Rightarrow> bool" where
  "stack_ok s \<longleftrightarrow> - 1 \<le> mark_top s \<and> mark_top s \<le> mark_bound s \<and> mark_bound s < int (length (mark_stack s)) \<and>
     (mark_state s = MARK_STATE_COLLECT \<longrightarrow> mark_bound s + 1 < int (length (mark_stack s)))"

definition same_heap :: "gcs \<Rightarrow> gcs \<Rightarrow> bool" where
  "same_heap s s' \<longleftrightarrow> regions s' = regions s \<and> usage s' = usage s \<and> small_regions s' = small_regions s \<and> large_objects s' = large_objects s \<and>
     has_final s' = has_final s \<and> do_final s' = do_final s \<and> length (mark_stack s') = length (mark_stack s)"

definition only_marks :: "nat set \<Rightarrow> memory \<Rightarrow> memory \<Rightarrow> bool" where
  "only_marks V m m' \<longleftrightarrow> (\<forall>a. m' a = m a \<or> (\<exists>p\<in>V. a = HEADER p \<and> m' a = set_bit 0 (m a)))"

definition newly :: "nat set \<Rightarrow> gcs \<Rightarrow> gcs \<Rightarrow> nat set" where
  "newly V s s' = {p \<in> V. marked (mem s') p \<and> \<not> marked (mem s) p}"

definition state_rel :: "gcs \<Rightarrow> gcs \<Rightarrow> bool" where
  "state_rel s s' \<longleftrightarrow>
     (mark_state s' = mark_state s \<or> mark_state s = MARK_STATE_NORMAL \<and> mark_state s' = MARK_STATE_OVERFLOW) \<and>
       mark_cursor s' = mark_cursor s \<and> mark_save_cursor s' = mark_save_cursor s \<and> mark_bound s' = mark_bound s \<or>
     mark_state s = MARK_STATE_COLLECT \<and> mark_state s' \<noteq> MARK_STATE_COLLECT \<and> mark_save_cursor s' = mark_cursor s \<and>
       mark_top s + 2 \<le> mark_cursor s' \<and> mark_cursor s' \<le> mark_top s' + 1 \<and> mark_bound s' = int (length (mark_stack s)) - 1"

text \<open>
  \<open>mrel V\<close> relates the states before and after marking objects of \<open>V\<close>: what is marked on the way is pushed, unless
  the stack overflows.
\<close>

definition mrel :: "nat set \<Rightarrow> gcs \<Rightarrow> gcs \<Rightarrow> bool" where
  "mrel V s s' \<longleftrightarrow> same_heap s s' \<and> only_marks V (mem s) (mem s') \<and> state_rel s s' \<and> stack_ok s' \<and>
     (mark_state s' = MARK_STATE_OVERFLOW \<longrightarrow> mark_state s \<noteq> MARK_STATE_OVERFLOW \<longrightarrow> mark_top s' = mark_bound s') \<and>
     (mark_state s' \<noteq> mark_state s \<longrightarrow> newly V s s' \<noteq> {}) \<and>
     (\<exists>ps. entries s' = entries s @ ps \<and> distinct ps \<and> set ps \<subseteq> newly V s s' \<and> (mark_state s' \<noteq> MARK_STATE_OVERFLOW \<longrightarrow> newly V s s' \<subseteq> set ps))"

definition addresses :: "nat set \<Rightarrow> bool" where
  "addresses V \<longleftrightarrow> (\<forall>p\<in>V. 8 \<le> p)"

lemma HEADER_inj: "addresses V \<Longrightarrow> p \<in> V \<Longrightarrow> q \<in> V \<Longrightarrow> HEADER p = HEADER q \<Longrightarrow> p = q"
  by (auto simp: addresses_def HEADER_def GC_HEAD_def)

lemma only_marks_refl [simp]: "only_marks V m m"
  by (simp add: only_marks_def)

lemma set_bit_idem [simp]: "set_bit 0 (set_bit 0 (h::nat)) = set_bit 0 h"
  by (rule bit_eqI) (simp add: bit_set_bit_iff)

lemma only_marks_trans: "only_marks V m m' \<Longrightarrow> only_marks V m' m'' \<Longrightarrow> only_marks V m m''"
  unfolding only_marks_def by (metis set_bit_idem)

lemma only_marks_mono: "only_marks V m m' \<Longrightarrow> V \<subseteq> W \<Longrightarrow> only_marks W m m'"
  unfolding only_marks_def by blast

lemma only_marks_marked: "only_marks V m m' \<Longrightarrow> marked m p \<Longrightarrow> marked m' p"
  unfolding only_marks_def marked_def by (metis flag_words(1))

lemma only_marks_words:
  assumes "only_marks V m m'"
  shows "free_word (m' a) = free_word (m a)" "size_word (m' a) = size_word (m a)"
  using assms unfolding only_marks_def by (metis flag_words(3), metis size_words(1))

lemma only_marks_other: "only_marks V m m' \<Longrightarrow> a \<notin> HEADER ` V \<Longrightarrow> m' a = m a"
  unfolding only_marks_def by blast

lemma only_marks_subset:
  assumes "only_marks W m m'" "addresses W" "p \<in> W" "\<not> marked m p" "marked m' p" "only_marks V m m'" "V \<subseteq> W"
  shows "p \<in> V"
proof -
  have "m' (HEADER p) \<noteq> m (HEADER p)" using assms(4,5) by (auto simp: marked_def)
  then obtain q where "q \<in> V" "HEADER p = HEADER q" using assms(6) unfolding only_marks_def by blast
  then show ?thesis using HEADER_inj [OF assms(2,3)] assms(7) by blast
qed

lemma same_heap_refl [simp]: "same_heap s s" by (simp add: same_heap_def)

lemma same_heap_trans: "same_heap s s' \<Longrightarrow> same_heap s' s'' \<Longrightarrow> same_heap s s''"
  unfolding same_heap_def by simp

lemma newly_trans:
  assumes "only_marks V (mem s) (mem s')" "only_marks V (mem s') (mem s'')"
  shows "newly V s s'' = newly V s s' \<union> newly V s' s''" "newly V s s' \<inter> newly V s' s'' = {}"
  using only_marks_marked [OF assms(1)] only_marks_marked [OF assms(2)] unfolding newly_def by blast+

lemma newly_refl [simp]: "newly V s s = {}" by (auto simp: newly_def)

lemma entries_length: "stack_ok s \<Longrightarrow> int (length (entries s)) = mark_top s + 1"
  by (auto simp: entries_def stack_ok_def min_def)

lemma mrel_refl: "stack_ok s \<Longrightarrow> mrel V s s"
  by (simp add: mrel_def state_rel_def)

lemma mrel_top: "mrel V s s' \<Longrightarrow> stack_ok s \<Longrightarrow> mark_top s \<le> mark_top s'"
proof -
  assume r: "mrel V s s'" and ok: "stack_ok s"
  then obtain ps where "entries s' = entries s @ ps" "stack_ok s'" unfolding mrel_def by blast
  then show ?thesis using entries_length [OF ok] entries_length [of s'] by simp
qed

lemma state_rel_trans:
  assumes "state_rel s s'" "state_rel s' s''" "mark_top s \<le> mark_top s'" "mark_top s' \<le> mark_top s''" "length (mark_stack s') = length (mark_stack s)"
  shows "state_rel s s''"
  using assms unfolding state_rel_def by (cases "mark_state s"; cases "mark_state s'"; cases "mark_state s''") auto

lemma mrel_trans:
  assumes 1: "mrel V s s'" and 2: "mrel V s' s''" and ok: "stack_ok s"
  shows "mrel V s s''"
proof -
  have m: "only_marks V (mem s) (mem s')" "only_marks V (mem s') (mem s'')" and ok': "stack_ok s'" "stack_ok s''"
    and st: "state_rel s s'" "state_rel s' s''" and h: "same_heap s s'" "same_heap s' s''" using 1 2 unfolding mrel_def by blast+
  note n = newly_trans [OF m]
  have t: "mark_top s \<le> mark_top s'" "mark_top s' \<le> mark_top s''" using mrel_top [OF 1 ok] mrel_top [OF 2 ok'(1)] .
  obtain ps where ps: "entries s' = entries s @ ps" "distinct ps" "set ps \<subseteq> newly V s s'" "mark_state s' \<noteq> MARK_STATE_OVERFLOW \<longrightarrow> newly V s s' \<subseteq> set ps"
    using 1 unfolding mrel_def by blast
  obtain qs where qs: "entries s'' = entries s' @ qs" "distinct qs" "set qs \<subseteq> newly V s' s''" "mark_state s'' \<noteq> MARK_STATE_OVERFLOW \<longrightarrow> newly V s' s'' \<subseteq> set qs"
    using 2 unfolding mrel_def by blast
  have stay: "mark_state s' = MARK_STATE_OVERFLOW \<Longrightarrow> mark_state s'' = MARK_STATE_OVERFLOW \<and> mark_bound s'' = mark_bound s'"
    using st(2) unfolding state_rel_def by auto
  have top: "mark_state s'' = MARK_STATE_OVERFLOW \<longrightarrow> mark_state s \<noteq> MARK_STATE_OVERFLOW \<longrightarrow> mark_top s'' = mark_bound s''"
  proof (cases "mark_state s' = MARK_STATE_OVERFLOW")
    case True
    moreover have "mark_state s \<noteq> MARK_STATE_OVERFLOW \<longrightarrow> mark_top s' = mark_bound s'" using 1 True unfolding mrel_def by blast
    ultimately show ?thesis using stay t(2) ok'(2) unfolding stack_ok_def by auto
  next
    case False
    then show ?thesis using 2 unfolding mrel_def by blast
  qed
  have ch: "mark_state s'' \<noteq> mark_state s \<longrightarrow> newly V s s'' \<noteq> {}"
  proof
    assume "mark_state s'' \<noteq> mark_state s"
    then have "mark_state s' \<noteq> mark_state s \<or> mark_state s'' \<noteq> mark_state s'" by auto
    then have "newly V s s' \<noteq> {} \<or> newly V s' s'' \<noteq> {}" using 1 2 unfolding mrel_def by blast
    then show "newly V s s'' \<noteq> {}" unfolding n by blast
  qed
  have "entries s'' = entries s @ (ps @ qs) \<and> distinct (ps @ qs) \<and> set (ps @ qs) \<subseteq> newly V s s'' \<and>
      (mark_state s'' \<noteq> MARK_STATE_OVERFLOW \<longrightarrow> newly V s s'' \<subseteq> set (ps @ qs))"
    unfolding n using ps qs n(2) stay by auto
  then show ?thesis unfolding mrel_def
    using same_heap_trans [OF h] only_marks_trans [OF m] state_rel_trans [OF st t] h(1) ok'(2) top ch
    by (auto simp: same_heap_def)
qed

lemma mrel_mono:
  assumes r: "mrel V s s'" and sub: "V \<subseteq> W" and ad: "addresses W"
  shows "mrel W s s'"
proof -
  have m: "only_marks V (mem s) (mem s')" using r unfolding mrel_def by blast
  have "newly W s s' = newly V s s'"
    using only_marks_subset [OF only_marks_mono [OF m sub] ad _ _ _ m sub] sub unfolding newly_def by blast
  then show ?thesis using r only_marks_mono [OF m sub] unfolding mrel_def by simp
qed

text \<open>The push of one entry.\<close>

lemma push_mark_ok:
  assumes "- 1 \<le> mark_top s" "mark_top s + 1 < int (length (mark_stack s))"
  shows "push_mark p s = Inr (s\<lparr>mark_top := mark_top s + 1, mark_stack := (mark_stack s)[nat (mark_top s + 1) := p]\<rparr>)"
    "entries (s\<lparr>mark_top := mark_top s + 1, mark_stack := (mark_stack s)[nat (mark_top s + 1) := p]\<rparr>) = entries s @ [p]"
proof -
  have lt: "nat (mark_top s + 1) < length (mark_stack s)" using assms by linarith
  show "push_mark p s = Inr (s\<lparr>mark_top := mark_top s + 1, mark_stack := (mark_stack s)[nat (mark_top s + 1) := p]\<rparr>)"
    using assms lt by (simp add: push_mark_def Let_def)
  have "nat (mark_top s + 1 + 1) = Suc (nat (mark_top s + 1))" using assms(1) by linarith
  then show "entries (s\<lparr>mark_top := mark_top s + 1, mark_stack := (mark_stack s)[nat (mark_top s + 1) := p]\<rparr>) = entries s @ [p]"
    using lt by (simp add: entries_def take_Suc_conv_app_nth)
qed

lemma marked_set_mark: "marked (set_mark p m) p"
  by (simp add: marked_def set_mark_def)

lemma marked_set_mark_other: "HEADER q \<noteq> HEADER p \<Longrightarrow> marked (set_mark p m) q = marked m q"
  by (simp add: marked_def set_mark_def)

lemma only_marks_set_mark: "only_marks {p} m (set_mark p m)"
  by (simp add: only_marks_def set_mark_def)

lemma mark_effect:
  assumes ok: "stack_ok s" and p: "p = 0 \<or> marked (mem s) p \<or> p \<in> V" and V: "addresses V"
  shows "\<exists>s'. mark p s = Inr s' \<and> mrel V s s' \<and> (p \<noteq> 0 \<longrightarrow> marked (mem s') p)"
proof (cases "p = 0 \<or> marked (mem s) p")
  case True
  then show ?thesis using mrel_refl [OF ok] by (auto simp: mark_def)
next
  case False
  with p have pV: "p \<in> V" by simp
  let ?s = "s\<lparr>mem := set_mark p (mem s)\<rparr>"
  let ?n = "?s\<lparr>mark_save_cursor := mark_cursor s, mark_cursor := mark_top s + 2, mark_bound := int (length (mark_stack s)) - 1, mark_state := MARK_STATE_NORMAL\<rparr>"
  have om: "only_marks V (mem s) (set_mark p (mem s))" by (rule only_marks_mono [OF only_marks_set_mark]) (use pV in simp)
  have newly: "newly V s s' = {p}" if "mem s' = set_mark p (mem s)" for s'
  proof -
    have "q = p" if "q \<in> V" "marked (set_mark p (mem s)) q" "\<not> marked (mem s) q" for q
      using marked_set_mark_other [of q p "mem s"] that HEADER_inj [OF V that(1) pV] by blast
    then show ?thesis using that False pV marked_set_mark unfolding newly_def by auto
  qed
  have b: "- 1 \<le> mark_top s" "mark_top s \<le> mark_bound s" "mark_bound s < int (length (mark_stack s))"
    "mark_state s = MARK_STATE_COLLECT \<Longrightarrow> mark_bound s + 1 < int (length (mark_stack s))" using ok by (auto simp: stack_ok_def)
  show ?thesis
  proof (cases "mark_top s < mark_bound s \<or> mark_state s = MARK_STATE_COLLECT")
    case True
    define u where "u = (if mark_top s < mark_bound s then ?s else ?n)"
    have mk: "mark p s = push_mark p u" using False True by (auto simp: mark_def Let_def u_def)
    have uu: "mark_top u = mark_top s" "mark_stack u = mark_stack s" "mem u = set_mark p (mem s)" by (simp_all add: u_def)
    have lt: "mark_top u + 1 < int (length (mark_stack u))" unfolding uu using True b by auto
    let ?v = "u\<lparr>mark_top := mark_top u + 1, mark_stack := (mark_stack u)[nat (mark_top u + 1) := p]\<rparr>"
    have mv: "mark p s = Inr ?v" unfolding mk by (rule push_mark_ok(1)) (use b lt uu in simp_all)
    have ent: "entries ?v = entries s @ [p]" using push_mark_ok(2) [of u p] b lt uu by (simp add: entries_def)
    have sv: "same_heap s ?v" by (simp add: same_heap_def u_def)
    have so: "stack_ok ?v" "state_rel s ?v" "mark_state ?v \<noteq> MARK_STATE_OVERFLOW \<or> mark_state s = MARK_STATE_OVERFLOW"
      using b True by (auto simp: stack_ok_def state_rel_def u_def)
    have "mrel V s ?v" unfolding mrel_def newly [of ?v, simplified, OF uu(3)] ent
      using sv so om uu(3) by auto
    then show ?thesis using mv uu(3) marked_set_mark by auto
  next
    case F: False
    let ?v = "?s\<lparr>mark_state := MARK_STATE_OVERFLOW\<rparr>"
    have mv: "mark p s = Inr ?v" using False F by (simp add: mark_def Let_def)
    have ent: "entries ?v = entries s" by (simp add: entries_def)
    have st: "mark_state s = MARK_STATE_NORMAL \<or> mark_state s = MARK_STATE_OVERFLOW" using F by (cases "mark_state s") simp_all
    have "state_rel s ?v" "stack_ok ?v" "same_heap s ?v" using b st by (auto simp: state_rel_def stack_ok_def same_heap_def)
    then have "mrel V s ?v" unfolding mrel_def ent using om F b newly [of ?v] by auto
    then show ?thesis using mv marked_set_mark by auto
  qed
qed

section \<open>Walking an object\<close>

text \<open>The words the walk function of an object reads, and the references it finds there.\<close>

definition walk_reads :: "(nat \<Rightarrow> walkfn) \<Rightarrow> memory \<Rightarrow> nat \<Rightarrow> nat set" where
  "walk_reads ct m p = {p, m p} \<union> (if ct (m (m p)) = Gc_walk_ref_array then {p + ARRAY_SIZE_OFFSET} else {}) \<union> set (walk_slots ct m p)"

definition refs :: "(nat \<Rightarrow> walkfn) \<Rightarrow> memory \<Rightarrow> nat \<Rightarrow> nat set" where
  "refs ct m p = m ` set (walk_slots ct m p) - {0}"

text \<open>
  The object graph: no walk function reads a header, and every reference is an object or has its mark bit set
  already, as what \<open>gc_malloc_fixed\<close> returns has.
\<close>

definition ref_ok :: "gcs \<Rightarrow> nat \<Rightarrow> bool" where
  "ref_ok s v \<longleftrightarrow> v = 0 \<or> v \<in> gc_objects s \<or> marked (mem s) v"

definition graph_ok :: "(nat \<Rightarrow> walkfn) \<Rightarrow> gcs \<Rightarrow> bool" where
  "graph_ok ct s \<longleftrightarrow> heap_ok s \<and>
     (\<forall>p\<in>gc_objects s. walk_reads ct (mem s) p \<inter> HEADER ` gc_objects s = {} \<and> (\<forall>v\<in>refs ct (mem s) p. ref_ok s v))"

definition base :: "gcs \<Rightarrow> gcs \<Rightarrow> bool" where
  "base s0 s \<longleftrightarrow> regions s = regions s0 \<and> usage s = usage s0 \<and> small_regions s = small_regions s0 \<and> large_objects s = large_objects s0 \<and>
     only_marks (gc_objects s0) (mem s0) (mem s)"

definition closed :: "(nat \<Rightarrow> walkfn) \<Rightarrow> gcs \<Rightarrow> gcs \<Rightarrow> nat \<Rightarrow> bool" where
  "closed ct s0 s p \<longleftrightarrow> (\<forall>v\<in>refs ct (mem s0) p. marked (mem s) v)"

definition live :: "gcs \<Rightarrow> gcs \<Rightarrow> nat set" where
  "live s0 s = {p \<in> gc_objects s0. marked (mem s) p}"

lemma gc_objects_aligned:
  assumes ok: "heap_ok s" and p: "p \<in> gc_objects s"
  shows "p mod MEMALIGN = 0" "8 \<le> p"
proof -
  have "p mod MEMALIGN = 0 \<and> 0 < p"
  proof (cases "p \<in> large_set s")
    case True
    then show ?thesis using ok by (auto simp: large_set_def heap_ok_def)
  next
    case False
    then obtain r h where r: "r \<in> set (small_regions s)" "h \<in> set (region_headers s r)" "p = h + GC_HEAD"
      using p by (auto simp: gc_objects_def small_objects_def)
    then have "r \<in> set (regions s)" "rtype r = GC_REGION_SMALL" using ok by (auto simp: heap_ok_def)
    from small_object_region(3) [OF ok this r(2)] r(3) show ?thesis by (simp add: GC_HEAD_def)
  qed
  then show "p mod MEMALIGN = 0" "8 \<le> p" by (auto simp: MEMALIGN_def)
qed

lemma addresses_objects: "heap_ok s \<Longrightarrow> addresses (gc_objects s)"
  using gc_objects_aligned(2) unfolding addresses_def by blast

lemma finite_gc_objects: "finite (gc_objects s)"
proof -
  have "{h + GC_HEAD | h. h \<in> set (region_headers s r) \<and> \<not> free_word (mem s h)} \<subseteq> (\<lambda>h. h + GC_HEAD) ` set (region_headers s r)" for r by auto
  then have "finite {h + GC_HEAD | h. h \<in> set (region_headers s r) \<and> \<not> free_word (mem s h)}" for r using finite_subset by blast
  then show ?thesis by (simp add: gc_objects_def small_objects_def large_set_def)
qed

lemma mark_slots_effect:
  "stack_ok s \<Longrightarrow> addresses V \<Longrightarrow> \<forall>a\<in>set as. a \<notin> HEADER ` V \<and> (mem s a = 0 \<or> marked (mem s) (mem s a) \<or> mem s a \<in> V) \<Longrightarrow>
   \<exists>s'. mark_slots as s = Inr s' \<and> mrel V s s' \<and> (\<forall>a\<in>set as. mem s a \<noteq> 0 \<longrightarrow> marked (mem s') (mem s a))"
proof (induction as arbitrary: s)
  case Nil
  then show ?case using mrel_refl by auto
next
  case (Cons a as)
  obtain s1 where s1: "mark (mem s a) s = Inr s1" "mrel V s s1" "mem s a \<noteq> 0 \<longrightarrow> marked (mem s1) (mem s a)"
    using mark_effect [OF Cons.prems(1) _ Cons.prems(2), of "mem s a"] Cons.prems(3) by auto
  then have om: "only_marks V (mem s) (mem s1)" and ok1: "stack_ok s1" unfolding mrel_def by blast+
  have same: "mem s1 b = mem s b" if "b \<in> set as" for b using only_marks_other [OF om, of b] Cons.prems(3) that by simp
  have pre: "\<forall>b\<in>set as. b \<notin> HEADER ` V \<and> (mem s1 b = 0 \<or> marked (mem s1) (mem s1 b) \<or> mem s1 b \<in> V)"
    using Cons.prems(3) same only_marks_marked [OF om] by auto
  obtain s2 where s2: "mark_slots as s1 = Inr s2" "mrel V s1 s2" "\<forall>b\<in>set as. mem s1 b \<noteq> 0 \<longrightarrow> marked (mem s2) (mem s1 b)"
    using Cons.IH [OF ok1 Cons.prems(2) pre] by blast
  then have om2: "only_marks V (mem s1) (mem s2)" unfolding mrel_def by blast
  show ?case using s1 s2 same mrel_trans [OF s1(2) s2(2) Cons.prems(1)] only_marks_marked [OF om2] by auto
qed

lemma walk_slots_base:
  assumes b: "base s0 s" and g: "graph_ok ct s0" and p: "p \<in> gc_objects s0"
  shows "walk_slots ct (mem s) p = walk_slots ct (mem s0) p" "a \<in> walk_reads ct (mem s0) p \<Longrightarrow> mem s a = mem s0 a"
proof -
  have disj: "walk_reads ct (mem s0) p \<inter> HEADER ` gc_objects s0 = {}" using g p unfolding graph_ok_def by blast
  have same: "mem s a = mem s0 a" if "a \<in> walk_reads ct (mem s0) p" for a
    using only_marks_other [of "gc_objects s0" "mem s0" "mem s" a] b disj that unfolding base_def by blast
  then show "a \<in> walk_reads ct (mem s0) p \<Longrightarrow> mem s a = mem s0 a" .
  have 1: "mem s p = mem s0 p" "mem s (mem s0 p) = mem s0 (mem s0 p)" using same [of p] same [of "mem s0 p"] by (auto simp: walk_reads_def)
  show "walk_slots ct (mem s) p = walk_slots ct (mem s0) p"
  proof (cases "ct (mem s0 (mem s0 p)) = Gc_walk_ref_array")
    case True
    then have "mem s (p + ARRAY_SIZE_OFFSET) = mem s0 (p + ARRAY_SIZE_OFFSET)" by (intro same) (simp add: walk_reads_def)
    then show ?thesis using 1 True by (simp add: walk_slots_def gc_walk_ref_array_def)
  next
    case False
    then show ?thesis using 1 by (simp add: walk_slots_def split: walkfn.split)
  qed
qed

lemma base_mrel: "base s0 s \<Longrightarrow> mrel V s s' \<Longrightarrow> V \<subseteq> gc_objects s0 \<Longrightarrow> base s0 s'"
  unfolding base_def mrel_def same_heap_def using only_marks_trans only_marks_mono by metis

lemma live_mrel: "mrel V s s' \<Longrightarrow> live s0 s \<subseteq> live s0 s'"
  unfolding live_def mrel_def using only_marks_marked by blast

lemma live_mrel_new:
  assumes h: "heap_ok s0" and r: "mrel V s s'" and V: "V \<subseteq> gc_objects s0"
  shows "live s0 s' = live s0 s \<union> newly V s s'"
proof -
  have m: "only_marks V (mem s) (mem s')" using r unfolding mrel_def by blast
  have "p \<in> V" if "p \<in> gc_objects s0" "marked (mem s') p" "\<not> marked (mem s) p" for p
    by (rule only_marks_subset [OF only_marks_mono [OF m V] addresses_objects [OF h] that(1,3,2) m V])
  then show ?thesis using V only_marks_marked [OF m] unfolding live_def newly_def by blast
qed

lemma closed_mrel: "closed ct s0 s p \<Longrightarrow> mrel V s s' \<Longrightarrow> closed ct s0 s' p"
  unfolding closed_def mrel_def using only_marks_marked by blast

lemma WALK_effect:
  assumes g: "graph_ok ct s0" and b: "base s0 s" and ok: "stack_ok s" and p: "p \<in> gc_objects s0"
  shows "\<exists>s'. WALK ct p s = Inr s' \<and> mrel (refs ct (mem s0) p \<inter> gc_objects s0) s s' \<and> closed ct s0 s' p"
proof -
  let ?V = "refs ct (mem s0) p \<inter> gc_objects s0" and ?as = "walk_slots ct (mem s0) p"
  have hp: "heap_ok s0" using g unfolding graph_ok_def by blast
  have V: "addresses ?V" using addresses_objects [OF hp] unfolding addresses_def by blast
  have om: "only_marks (gc_objects s0) (mem s0) (mem s)" using b unfolding base_def by blast
  have rd: "a \<in> walk_reads ct (mem s0) p" if "a \<in> set ?as" for a using that by (simp add: walk_reads_def)
  have dis: "a \<notin> HEADER ` gc_objects s0" if "a \<in> set ?as" for a using rd [OF that] g p unfolding graph_ok_def by blast
  have val: "mem s a = 0 \<or> marked (mem s) (mem s a) \<or> mem s a \<in> ?V" if "a \<in> set ?as" for a
  proof -
    have e: "mem s a = mem s0 a" by (rule walk_slots_base(2) [OF b g p rd [OF that]])
    have "mem s0 a = 0 \<or> mem s0 a \<in> refs ct (mem s0) p" using that by (auto simp: refs_def)
    moreover have "\<forall>v\<in>refs ct (mem s0) p. ref_ok s0 v" using g p unfolding graph_ok_def by blast
    ultimately show ?thesis unfolding e ref_ok_def using only_marks_marked [OF om] by blast
  qed
  have pre: "\<forall>a\<in>set ?as. a \<notin> HEADER ` ?V \<and> (mem s a = 0 \<or> marked (mem s) (mem s a) \<or> mem s a \<in> ?V)" using dis val by blast
  obtain s' where s': "mark_slots ?as s = Inr s'" "mrel ?V s s'" "\<forall>a\<in>set ?as. mem s a \<noteq> 0 \<longrightarrow> marked (mem s') (mem s a)"
    using mark_slots_effect [OF ok V pre] by blast
  have "closed ct s0 s' p" unfolding closed_def refs_def using s'(3) walk_slots_base(2) [OF b g p rd] by auto
  then show ?thesis using s' unfolding WALK_def walk_slots_base(1) [OF b g p] by blast
qed

section \<open>The tricolour invariant\<close>

text \<open>
  What holds in every state of the mark phase: \<open>R\<close> is a set closed under references that has every marked object;
  the entries of the stack are marked.
\<close>

definition closed_set :: "(nat \<Rightarrow> walkfn) \<Rightarrow> gcs \<Rightarrow> nat set \<Rightarrow> bool" where
  "closed_set ct s0 R \<longleftrightarrow> R \<subseteq> gc_objects s0 \<and> (\<forall>p\<in>R. refs ct (mem s0) p \<inter> gc_objects s0 \<subseteq> R)"

definition common :: "gcs \<Rightarrow> nat set \<Rightarrow> gcs \<Rightarrow> bool" where
  "common s0 R s \<longleftrightarrow> base s0 s \<and> stack_ok s \<and> set (entries s) \<subseteq> live s0 s \<and> live s0 s \<subseteq> R"

text \<open>Every marked object is closed or in \<open>L\<close>, unless the stack has overflowed.\<close>

definition tricolour :: "(nat \<Rightarrow> walkfn) \<Rightarrow> gcs \<Rightarrow> nat set \<Rightarrow> gcs \<Rightarrow> bool" where
  "tricolour ct s0 L s \<longleftrightarrow> mark_state s = MARK_STATE_OVERFLOW \<or> (\<forall>p\<in>live s0 s. closed ct s0 s p \<or> p \<in> L)"

lemma common_mrel:
  assumes c: "common s0 R s" and r: "mrel V s s'" and V: "V \<subseteq> R" "R \<subseteq> gc_objects s0" and h: "heap_ok s0"
  shows "common s0 R s'"
proof -
  obtain ps where ps: "entries s' = entries s @ ps" "set ps \<subseteq> newly V s s'" using r unfolding mrel_def by blast
  have l: "live s0 s' = live s0 s \<union> newly V s s'" using live_mrel_new [OF h r] V by blast
  have "newly V s s' \<subseteq> V" by (auto simp: newly_def)
  then show ?thesis using c ps V base_mrel [OF _ r] r unfolding common_def l mrel_def by auto
qed

text \<open>After marking, what was grey or became marked is on the stack.\<close>

lemma tricolour_mrel:
  assumes t: "tricolour ct s0 L s" and r: "mrel V s s'" and V: "V \<subseteq> gc_objects s0" and h: "heap_ok s0" and K: "newly V s s' \<subseteq> K" "L \<subseteq> K"
  shows "tricolour ct s0 K s'"
proof -
  have l: "live s0 s' = live s0 s \<union> newly V s s'" by (rule live_mrel_new [OF h r V])
  have ov: "mark_state s = MARK_STATE_OVERFLOW \<Longrightarrow> mark_state s' = MARK_STATE_OVERFLOW" using r by (auto simp: mrel_def state_rel_def)
  show ?thesis using t closed_mrel [OF _ r] K ov unfolding tricolour_def l by blast
qed

lemma pushed:
  assumes "mrel V s s'" "mark_state s' \<noteq> MARK_STATE_OVERFLOW"
  shows "\<exists>ps. entries s' = entries s @ ps \<and> distinct ps \<and> set ps = newly V s s'"
  using assms unfolding mrel_def by blast

lemma tricolour_entries:
  assumes t: "tricolour ct s0 (set (drop k (entries s))) s" and r: "mrel V s s'" and V: "V \<subseteq> gc_objects s0" and h: "heap_ok s0" and k: "k \<le> length (entries s)"
  shows "tricolour ct s0 (set (drop k (entries s'))) s'"
proof (cases "mark_state s' = MARK_STATE_OVERFLOW")
  case False
  obtain ps where "entries s' = entries s @ ps" "set ps = newly V s s'" using pushed [OF r False] by blast
  then show ?thesis using tricolour_mrel [OF t r V h, of "set (drop k (entries s'))"] k by simp
qed (simp add: tricolour_def)

section \<open>Collecting the live objects\<close>

text \<open>
  While the set of live objects is being collected the stack has exactly the marked objects and those below the cursor are
  closed. After the attempt was given up the entries from the saved cursor on have every object that is not.
\<close>

definition collecting :: "(nat \<Rightarrow> walkfn) \<Rightarrow> gcs \<Rightarrow> nat set \<Rightarrow> gcs \<Rightarrow> bool" where
  "collecting ct s0 R s \<longleftrightarrow> common s0 R s \<and> 0 \<le> mark_cursor s \<and>
     (if mark_state s = MARK_STATE_COLLECT
      then mark_cursor s \<le> mark_top s + 1 \<and> set (entries s) = live s0 s \<and> distinct (entries s) \<and>
        (\<forall>p\<in>set (take (nat (mark_cursor s)) (entries s)). closed ct s0 s p)
      else 0 \<le> mark_save_cursor s \<and> mark_save_cursor s \<le> mark_top s \<and> tricolour ct s0 (set (drop (nat (mark_save_cursor s)) (entries s))) s)"

lemma entries_nth: "stack_ok s \<Longrightarrow> 0 \<le> i \<Longrightarrow> i \<le> mark_top s \<Longrightarrow> nat i < length (mark_stack s) \<and> mark_stack s ! nat i = entries s ! nat i \<and> nat i < length (entries s)"
  by (auto simp: entries_def stack_ok_def)

lemma entries_cursor [simp]: "entries (s\<lparr>mark_cursor := x\<rparr>) = entries s" "entries (s\<lparr>mark_state := y\<rparr>) = entries s"
    "entries (s\<lparr>mark_bound := z\<rparr>) = entries s" "entries (s\<lparr>has_final := u\<rparr>) = entries s" "entries (s\<lparr>do_final := v\<rparr>) = entries s"
  by (simp_all add: entries_def)

lemma live_cong: "mem s = mem s' \<Longrightarrow> live s0 s = live s0 s'" by (simp add: live_def)

lemma closed_cong: "mem s = mem s' \<Longrightarrow> closed ct s0 s p = closed ct s0 s' p" by (simp add: closed_def)

lemma common_cursor: "common s0 R (s\<lparr>mark_cursor := x\<rparr>) = common s0 R s"
  by (simp add: common_def base_def stack_ok_def live_def)

lemma tricolour_cursor: "tricolour ct s0 L (s\<lparr>mark_cursor := x\<rparr>) = tricolour ct s0 L s"
  by (simp add: tricolour_def live_def closed_def)

text \<open>One object less to collect.\<close>

lemma collect_step:
  assumes c: "collecting ct s0 R s" and g: "graph_ok ct s0" and R: "closed_set ct s0 R" and le: "mark_cursor s \<le> mark_top s"
  shows "nat (mark_cursor s) < length (mark_stack s) \<and>
    (\<exists>s'. WALK ct (mark_stack s ! nat (mark_cursor s)) s = Inr s' \<and> collecting ct s0 R (s'\<lparr>mark_cursor := mark_cursor s' + 1\<rparr>) \<and>
      mark_cursor s \<le> mark_cursor s' \<and> length (mark_stack s') = length (mark_stack s) \<and> mrel (gc_objects s0) s s')"
proof -
  let ?i = "nat (mark_cursor s)"
  have h: "heap_ok s0" using g unfolding graph_ok_def by blast
  have com: "common s0 R s" and c0: "0 \<le> mark_cursor s" using c unfolding collecting_def by blast+
  then have ok: "stack_ok s" and b: "base s0 s" unfolding common_def by blast+
  note i = entries_nth [OF ok c0 le]
  define p where "p = entries s ! ?i"
  have pl: "p \<in> live s0 s" using com i unfolding common_def p_def by (meson nth_mem subsetD)
  then have pO: "p \<in> gc_objects s0" and pR: "p \<in> R" using com unfolding live_def common_def by blast+
  let ?V = "refs ct (mem s0) p \<inter> gc_objects s0"
  obtain s' where s': "WALK ct p s = Inr s'" "mrel ?V s s'" "closed ct s0 s' p" using WALK_effect [OF g b ok pO] by blast
  have V: "?V \<subseteq> R" "?V \<subseteq> gc_objects s0" "R \<subseteq> gc_objects s0" using R pR unfolding closed_set_def by blast+
  have com': "common s0 R s'" by (rule common_mrel [OF com s'(2) V(1,3) h])
  have sr: "state_rel s s'" and len: "length (mark_stack s') = length (mark_stack s)" using s'(2) unfolding mrel_def same_heap_def by blast+
  have top: "mark_top s \<le> mark_top s'" by (rule mrel_top [OF s'(2) ok])
  have il: "?i < length (entries s)" using i by blast
  have cur: "mark_cursor s \<le> mark_cursor s'" using sr le by (auto simp: state_rel_def)
  have next_state: "collecting ct s0 R (s'\<lparr>mark_cursor := mark_cursor s' + 1\<rparr>)"
  proof (cases "mark_state s = MARK_STATE_COLLECT")
    case True
    then have e: "set (entries s) = live s0 s" "distinct (entries s)" "\<forall>p\<in>set (take ?i (entries s)). closed ct s0 s p"
      using c unfolding collecting_def by auto
    show ?thesis
    proof (cases "mark_state s' = MARK_STATE_COLLECT")
      case same: True
      obtain ps where ps: "entries s' = entries s @ ps" "distinct ps" "set ps = newly ?V s s'" using pushed [OF s'(2)] same by auto
      have cs: "mark_cursor s' = mark_cursor s" using sr same by (auto simp: state_rel_def)
      have l: "live s0 s' = set (entries s')" using live_mrel_new [OF h s'(2) V(2)] e(1) ps by auto
      have d: "distinct (entries s')" using ps e by (auto simp: newly_def live_def)
      have "take (nat (mark_cursor s' + 1)) (entries s') = take ?i (entries s) @ [p]"
        using il c0 unfolding cs ps(1) p_def by (simp add: nat_add_distrib take_Suc_conv_app_nth)
      then have "\<forall>q\<in>set (take (nat (mark_cursor s' + 1)) (entries s')). closed ct s0 s' q" using e(3) closed_mrel [OF _ s'(2)] s'(3) by auto
      then show ?thesis using com' l d same cs le top c0 unfolding collecting_def common_cursor
        by (simp add: live_cong [of "s'\<lparr>mark_cursor := mark_cursor s + 1\<rparr>" s'] closed_def)
    next
      case False
      have sv: "mark_save_cursor s' = mark_cursor s" using sr False True by (auto simp: state_rel_def)
      have "tricolour ct s0 (set (drop ?i (entries s))) s" unfolding tricolour_def e(1) [symmetric]
        using e(3) by (metis UnE append_take_drop_id set_append)
      then have "tricolour ct s0 (set (drop ?i (entries s'))) s'" by (rule tricolour_entries [OF _ s'(2) V(2) h]) (use il in simp)
      then show ?thesis using com' False sv c0 cur le top unfolding collecting_def common_cursor tricolour_cursor by simp
    qed
  next
    case False
    then have e: "0 \<le> mark_save_cursor s" "mark_save_cursor s \<le> mark_top s" "tricolour ct s0 (set (drop (nat (mark_save_cursor s)) (entries s))) s"
      using c unfolding collecting_def by auto
    have st: "mark_state s' \<noteq> MARK_STATE_COLLECT" "mark_save_cursor s' = mark_save_cursor s" using sr False by (auto simp: state_rel_def)
    have "nat (mark_save_cursor s) \<le> length (entries s)" using entries_length [OF ok] e by linarith
    then have "tricolour ct s0 (set (drop (nat (mark_save_cursor s)) (entries s'))) s'" by (rule tricolour_entries [OF e(3) s'(2) V(2) h])
    then show ?thesis using com' st e cur c0 top unfolding collecting_def common_cursor tricolour_cursor by simp
  qed
  have "mrel (gc_objects s0) s s'" by (rule mrel_mono [OF s'(2) V(2) addresses_objects [OF h]])
  then show ?thesis using i s'(1) next_state cur len unfolding p_def by auto
qed

lemma collect_loop_returns:
  assumes g: "graph_ok ct s0" and R: "closed_set ct s0 R"
  shows "collecting ct s0 R s \<Longrightarrow> \<exists>s'. collect_loop ct s = Some (Inr s') \<and> collecting ct s0 R s' \<and> mark_top s' < mark_cursor s' \<and>
    live s0 s \<subseteq> live s0 s' \<and> has_final s' = has_final s \<and> do_final s' = do_final s \<and> length (mark_stack s') = length (mark_stack s)"
proof (induction "nat (int (length (mark_stack s)) - mark_cursor s)" arbitrary: s rule: less_induct)
  case less
  show ?case
  proof (cases "mark_cursor s \<le> mark_top s")
    case False
    then show ?thesis using less.prems by (subst collect_loop.simps) simp
  next
    case True
    note st = collect_step [OF less.prems g R True]
    then obtain s1 where s1: "WALK ct (mark_stack s ! nat (mark_cursor s)) s = Inr s1" "collecting ct s0 R (s1\<lparr>mark_cursor := mark_cursor s1 + 1\<rparr>)"
      "mark_cursor s \<le> mark_cursor s1" "length (mark_stack s1) = length (mark_stack s)" "mrel (gc_objects s0) s s1" by blast
    let ?s = "s1\<lparr>mark_cursor := mark_cursor s1 + 1\<rparr>"
    have c0: "0 \<le> mark_cursor s" "nat (mark_cursor s) < length (mark_stack s)" using less.prems st unfolding collecting_def by blast+
    then have lt: "nat (int (length (mark_stack ?s)) - mark_cursor ?s) < nat (int (length (mark_stack s)) - mark_cursor s)" using s1(3,4) by simp
    have e: "collect_loop ct s = collect_loop ct ?s" using True c0 s1(1) by (subst collect_loop.simps) simp
    have f: "has_final s1 = has_final s" "do_final s1 = do_final s" using s1(5) unfolding mrel_def same_heap_def by blast+
    have "live s0 s \<subseteq> live s0 ?s" using live_mrel [OF s1(5)] by (simp add: live_def)
    then show ?thesis unfolding e using less.hyps [OF lt s1(2)] f s1(4) by fastforce
  qed
qed

section \<open>Emptying the stack\<close>

definition draining :: "(nat \<Rightarrow> walkfn) \<Rightarrow> gcs \<Rightarrow> nat set \<Rightarrow> gcs \<Rightarrow> bool" where
  "draining ct s0 R s \<longleftrightarrow> common s0 R s \<and> mark_state s \<noteq> MARK_STATE_COLLECT \<and> tricolour ct s0 (set (entries s)) s"

definition unmarked :: "gcs \<Rightarrow> gcs \<Rightarrow> nat" where
  "unmarked s0 s = card (gc_objects s0 - live s0 s)"

definition progress :: "gcs \<Rightarrow> gcs \<Rightarrow> gcs \<Rightarrow> bool" where
  "progress s0 s s' \<longleftrightarrow> same_heap s s' \<and> live s0 s \<subseteq> live s0 s' \<and> (live s0 s \<subset> live s0 s' \<or> mark_state s' = mark_state s)"

lemma progress_refl [simp]: "progress s0 s s" by (simp add: progress_def)

lemma progress_trans: "progress s0 s s' \<Longrightarrow> progress s0 s' s'' \<Longrightarrow> progress s0 s s''"
  unfolding progress_def using same_heap_trans by (metis psubset_subset_trans subset_psubset_trans subset_trans)

lemma unmarked_mono: "live s0 s \<subseteq> live s0 s' \<Longrightarrow> unmarked s0 s' \<le> unmarked s0 s"
  unfolding unmarked_def by (rule card_mono) (auto simp: finite_gc_objects)

lemma unmarked_less: "live s0 s \<subset> live s0 s' \<Longrightarrow> unmarked s0 s' < unmarked s0 s"
  unfolding unmarked_def by (rule psubset_card_mono) (auto simp: finite_gc_objects live_def)

lemma mrel_progress:
  assumes h: "heap_ok s0" and r: "mrel V s s'" and V: "V \<subseteq> gc_objects s0" and ne: "newly V s s' \<noteq> {}"
  shows "live s0 s \<subset> live s0 s'"
  using live_mrel_new [OF h r V] ne V unfolding newly_def live_def by blast

lemma mrel_no_progress:
  assumes h: "heap_ok s0" and r: "mrel V s s'" and V: "V \<subseteq> gc_objects s0" and e: "\<not> live s0 s \<subset> live s0 s'" and ok: "stack_ok s"
  shows "entries s' = entries s" "mark_state s' = mark_state s" "mark_top s' = mark_top s"
proof -
  have "newly V s s' = {}" using mrel_progress [OF h r V] e by blast
  then show a: "entries s' = entries s" "mark_state s' = mark_state s" using r unfolding mrel_def by auto
  have "stack_ok s'" using r unfolding mrel_def by blast
  then show "mark_top s' = mark_top s" using entries_length [OF ok] entries_length [of s'] a(1) by simp
qed

lemma entries_pop:
  assumes ok: "stack_ok s" and t: "0 \<le> mark_top s"
  shows "entries s = entries (s\<lparr>mark_top := mark_top s - 1\<rparr>) @ [mark_stack s ! nat (mark_top s)]" "stack_ok (s\<lparr>mark_top := mark_top s - 1\<rparr>)"
    "nat (mark_top s) < length (mark_stack s)"
proof -
  show l: "nat (mark_top s) < length (mark_stack s)" using ok t unfolding stack_ok_def by linarith
  have "nat (mark_top s + 1) = Suc (nat (mark_top s))" using t by linarith
  then show "entries s = entries (s\<lparr>mark_top := mark_top s - 1\<rparr>) @ [mark_stack s ! nat (mark_top s)]"
    using l by (simp add: entries_def take_Suc_conv_app_nth)
  show "stack_ok (s\<lparr>mark_top := mark_top s - 1\<rparr>)" using ok t by (auto simp: stack_ok_def)
qed

lemma drain_step:
  assumes d: "draining ct s0 R s" and g: "graph_ok ct s0" and R: "closed_set ct s0 R" and t: "0 \<le> mark_top s"
  shows "\<exists>s'. WALK ct (mark_stack s ! nat (mark_top s)) (s\<lparr>mark_top := mark_top s - 1\<rparr>) = Inr s' \<and> draining ct s0 R s' \<and> same_heap s s' \<and>
    live s0 s \<subseteq> live s0 s' \<and> (live s0 s \<subset> live s0 s' \<or> mark_top s' = mark_top s - 1 \<and> mark_state s' = mark_state s)"
proof -
  let ?p = "mark_stack s ! nat (mark_top s)" and ?u = "s\<lparr>mark_top := mark_top s - 1\<rparr>"
  have h: "heap_ok s0" using g unfolding graph_ok_def by blast
  have com: "common s0 R s" and tri: "tricolour ct s0 (set (entries s)) s" using d unfolding draining_def by blast+
  then have ok: "stack_ok s" and b: "base s0 s" unfolding common_def by blast+
  note pop = entries_pop [OF ok t]
  have lu: "live s0 ?u = live s0 s" by (simp add: live_def)
  have pl: "?p \<in> live s0 s" and sub: "set (entries ?u) \<subseteq> live s0 s" using com pop(1) unfolding common_def by auto
  then have p: "?p \<in> gc_objects s0" "?p \<in> R" using com unfolding live_def common_def by blast+
  have comu: "common s0 R ?u" using com pop(2) sub lu unfolding common_def by (simp add: base_def)
  then have bu: "base s0 ?u" unfolding common_def by blast
  let ?V = "refs ct (mem s0) ?p \<inter> gc_objects s0"
  obtain s' where s': "WALK ct ?p ?u = Inr s'" "mrel ?V ?u s'" "closed ct s0 s' ?p" using WALK_effect [OF g bu pop(2) p(1)] by blast
  have V: "?V \<subseteq> R" "?V \<subseteq> gc_objects s0" "R \<subseteq> gc_objects s0" using R p unfolding closed_set_def by blast+
  have com': "common s0 R s'" by (rule common_mrel [OF comu s'(2) V(1,3) h])
  have "tricolour ct s0 (insert ?p (set (entries ?u))) ?u" using tri pop(1) unfolding tricolour_def lu by (auto simp: closed_def)
  then have "tricolour ct s0 (insert ?p (set (entries ?u) \<union> newly ?V ?u s')) s'" by (rule tricolour_mrel [OF _ s'(2) V(2) h]) auto
  then have tri': "tricolour ct s0 (set (entries s')) s'"
  proof (cases "mark_state s' = MARK_STATE_OVERFLOW")
    case False
    obtain ps where "entries s' = entries ?u @ ps" "set ps = newly ?V ?u s'" using pushed [OF s'(2) False] by blast
    with \<open>tricolour ct s0 (insert ?p (set (entries ?u) \<union> newly ?V ?u s')) s'\<close> s'(3) False show ?thesis unfolding tricolour_def by auto
  qed (simp add: tricolour_def)
  have ns: "mark_state s' \<noteq> MARK_STATE_COLLECT" using s'(2) d unfolding mrel_def state_rel_def draining_def by auto
  have sh: "same_heap s s'" using s'(2) unfolding mrel_def same_heap_def by simp
  have "live s0 s \<subset> live s0 s' \<or> mark_top s' = mark_top s - 1 \<and> mark_state s' = mark_state s"
    using mrel_no_progress [OF h s'(2) V(2) _ pop(2)] unfolding lu by auto
  then show ?thesis using s'(1) com' tri' ns sh live_mrel [OF s'(2), of s0] unfolding draining_def lu by blast
qed

lemma drain_loop_returns:
  assumes g: "graph_ok ct s0" and R: "closed_set ct s0 R"
  shows "draining ct s0 R s \<Longrightarrow> \<exists>s'. drain_loop ct s = Some (Inr s') \<and> draining ct s0 R s' \<and> mark_top s' = - 1 \<and> progress s0 s s'"
proof (induction "(unmarked s0 s, nat (mark_top s + 1))" arbitrary: s rule: wf_induct_rule [OF wf_lex_prod [OF wf_less_than wf_less_than]])
  case (1 s)
  have ok: "stack_ok s" using "1.prems" unfolding draining_def common_def by blast
  show ?case
  proof (cases "0 \<le> mark_top s")
    case False
    then have "mark_top s = - 1" using ok unfolding stack_ok_def by linarith
    then show ?thesis using "1.prems" by (subst drain_loop.simps) simp
  next
    case True
    obtain s1 where s1: "WALK ct (mark_stack s ! nat (mark_top s)) (s\<lparr>mark_top := mark_top s - 1\<rparr>) = Inr s1" "draining ct s0 R s1" "same_heap s s1"
      "live s0 s \<subseteq> live s0 s1" "live s0 s \<subset> live s0 s1 \<or> mark_top s1 = mark_top s - 1 \<and> mark_state s1 = mark_state s"
      using drain_step [OF "1.prems" g R True] by blast
    have "unmarked s0 s1 < unmarked s0 s \<or> unmarked s0 s1 = unmarked s0 s \<and> nat (mark_top s1 + 1) < nat (mark_top s + 1)"
      using s1(5) unmarked_less [of s0 s s1] unmarked_mono [OF s1(4)] True by linarith
    then have lt: "((unmarked s0 s1, nat (mark_top s1 + 1)), (unmarked s0 s, nat (mark_top s + 1))) \<in> less_than <*lex*> less_than" by auto
    have e: "drain_loop ct s = drain_loop ct s1" using True s1(1) entries_pop(3) [OF ok True] by (subst drain_loop.simps) simp
    obtain s2 where s2: "drain_loop ct s1 = Some (Inr s2)" "draining ct s0 R s2" "mark_top s2 = - 1" "progress s0 s1 s2" using "1.hyps" [OF lt s1(2)] by blast
    have "progress s0 s s1" using s1(3-5) unfolding progress_def by blast
    then show ?thesis unfolding e using s2 progress_trans by blast
  qed
qed

section \<open>Recovery from an overflow\<close>

text \<open>
  The whole heap is visited; \<open>D\<close> are the addresses visited already. What is marked behind the visit is pushed or
  the stack overflows again.
\<close>

definition scanning :: "(nat \<Rightarrow> walkfn) \<Rightarrow> gcs \<Rightarrow> nat set \<Rightarrow> nat set \<Rightarrow> gcs \<Rightarrow> bool" where
  "scanning ct s0 R D s \<longleftrightarrow> common s0 R s \<and> mark_state s \<noteq> MARK_STATE_COLLECT \<and> tricolour ct s0 (set (entries s) \<union> - D) s"

definition no_marks :: "gcs \<Rightarrow> bool" where
  "no_marks s \<longleftrightarrow> (\<forall>p\<in>gc_objects s. \<not> marked (mem s) p) \<and>
     (\<forall>r\<in>set (small_regions s). \<forall>h\<in>set (region_headers s r). \<not> marked_word (mem s h))"

lemma visit:
  assumes sc: "scanning ct s0 R D s" and g: "graph_ok ct s0" and R: "closed_set ct s0 R" and p: "p \<in> gc_objects s0 \<or> \<not> marked (mem s) p"
  shows "\<exists>s'. walk_if_marked ct p s = Inr s' \<and> scanning ct s0 R (insert p D) s' \<and> progress s0 s s'"
proof (cases "marked (mem s) p")
  case False
  then have "p \<notin> live s0 s" by (simp add: live_def)
  then have "scanning ct s0 R (insert p D) s" using sc unfolding scanning_def tricolour_def by auto
  then show ?thesis using False by (auto simp: walk_if_marked_def)
next
  case True
  with p have pO: "p \<in> gc_objects s0" by simp
  have h: "heap_ok s0" using g unfolding graph_ok_def by blast
  have com: "common s0 R s" and tri: "tricolour ct s0 (set (entries s) \<union> - D) s" using sc unfolding scanning_def by blast+
  then have ok: "stack_ok s" and b: "base s0 s" unfolding common_def by blast+
  have pR: "p \<in> R" using com pO True unfolding common_def live_def by blast
  let ?V = "refs ct (mem s0) p \<inter> gc_objects s0"
  obtain s' where s': "WALK ct p s = Inr s'" "mrel ?V s s'" "closed ct s0 s' p" using WALK_effect [OF g b ok pO] by blast
  have V: "?V \<subseteq> R" "?V \<subseteq> gc_objects s0" "R \<subseteq> gc_objects s0" using R pR unfolding closed_set_def by blast+
  have t2: "tricolour ct s0 (set (entries s) \<union> - D \<union> newly ?V s s') s'" by (rule tricolour_mrel [OF tri s'(2) V(2) h]) auto
  have tri': "tricolour ct s0 (set (entries s') \<union> - insert p D) s'"
  proof (cases "mark_state s' = MARK_STATE_OVERFLOW")
    case False
    obtain ps where "entries s' = entries s @ ps" "set ps = newly ?V s s'" using pushed [OF s'(2) False] by blast
    then show ?thesis using t2 s'(3) False unfolding tricolour_def by auto
  qed (simp add: tricolour_def)
  have ns: "mark_state s' \<noteq> MARK_STATE_COLLECT" using s'(2) sc unfolding mrel_def state_rel_def scanning_def by auto
  have sh: "same_heap s s'" using s'(2) unfolding mrel_def by blast
  have "live s0 s \<subset> live s0 s' \<or> mark_state s' = mark_state s" using mrel_no_progress(2) [OF h s'(2) V(2) _ ok] by blast
  then have "progress s0 s s'" using sh live_mrel [OF s'(2)] unfolding progress_def by blast
  then show ?thesis using True s'(1) common_mrel [OF com s'(2) V(1,3) h] tri' ns unfolding scanning_def by (auto simp: walk_if_marked_def)
qed

lemma each_scanning:
  assumes "\<And>x D s. x \<in> set xs \<Longrightarrow> scanning ct s0 R D s \<Longrightarrow> \<exists>s'. f x s = Some (Inr s') \<and> scanning ct s0 R (D \<union> F x) s' \<and> progress s0 s s'"
  shows "scanning ct s0 R D s \<Longrightarrow> \<exists>s'. each f xs s = Some (Inr s') \<and> scanning ct s0 R (D \<union> (\<Union>x\<in>set xs. F x)) s' \<and> progress s0 s s'"
  using assms
proof (induction xs arbitrary: D s)
  case (Cons x xs)
  obtain s1 where s1: "f x s = Some (Inr s1)" "scanning ct s0 R (D \<union> F x) s1" "progress s0 s s1" using Cons.prems(2) [of x] Cons.prems(1) by auto
  obtain s2 where s2: "each f xs s1 = Some (Inr s2)" "scanning ct s0 R (D \<union> F x \<union> (\<Union>x\<in>set xs. F x)) s2" "progress s0 s1 s2"
    using Cons.IH [OF s1(2)] Cons.prems(2) by auto
  have "D \<union> F x \<union> (\<Union>x\<in>set xs. F x) = D \<union> (\<Union>x\<in>set (x # xs). F x)" by auto
  then show ?case using s1 s2 progress_trans [OF s1(3) s2(3)] by auto
qed simp

lemma scanning_base: "scanning ct s0 R D s \<Longrightarrow> base s0 s"
  unfolding scanning_def common_def by blast

lemma walk_large_objects_returns:
  assumes sc: "scanning ct s0 R D s" and g: "graph_ok ct s0" and R: "closed_set ct s0 R"
  shows "\<exists>s'. walk_large_objects ct s = Some (Inr s') \<and> scanning ct s0 R (D \<union> large_set s0) s' \<and> progress s0 s s'"
proof -
  have one: "\<exists>s'. each (\<lambda>p s. Some (walk_if_marked ct p s)) (large_objects s i) s = Some (Inr s') \<and> scanning ct s0 R (D \<union> set (large_objects s0 i)) s' \<and> progress s0 s s'"
    if "i \<in> set [0..<LARGE_SET_SIZE]" "scanning ct s0 R D s" for i D s
  proof -
    have e: "large_objects s i = large_objects s0 i" using scanning_base [OF that(2)] unfolding base_def by simp
    have "p \<in> gc_objects s0" if "p \<in> set (large_objects s0 i)" for p using that \<open>i \<in> _\<close> by (auto simp: gc_objects_def large_set_def)
    then have "\<exists>s'. Some (walk_if_marked ct p s) = Some (Inr s') \<and> scanning ct s0 R (D \<union> {p}) s' \<and> progress s0 s s'"
      if "p \<in> set (large_objects s0 i)" "scanning ct s0 R D s" for p D s using visit [OF that(2) g R, of p] that(1) by simp
    then have "\<exists>s'. each (\<lambda>p s. Some (walk_if_marked ct p s)) (large_objects s0 i) s = Some (Inr s') \<and> scanning ct s0 R (D \<union> (\<Union>p\<in>set (large_objects s0 i). {p})) s' \<and> progress s0 s s'"
      by (rule each_scanning [OF _ that(2)])
    then show ?thesis unfolding e by simp
  qed
  have "(\<Union>i\<in>set [0..<LARGE_SET_SIZE]. set (large_objects s0 i)) = large_set s0" unfolding large_set_def by (simp add: atLeast0LessThan)
  moreover have "\<exists>s'. each (\<lambda>i s. each (\<lambda>p s. Some (walk_if_marked ct p s)) (large_objects s i) s) [0..<LARGE_SET_SIZE] s = Some (Inr s') \<and>
      scanning ct s0 R (D \<union> (\<Union>i\<in>set [0..<LARGE_SET_SIZE]. set (large_objects s0 i))) s' \<and> progress s0 s s'"
    by (rule each_scanning [OF _ sc]) (rule one)
  ultimately show ?thesis unfolding walk_large_objects_def by simp
qed

text \<open>A free chunk is not an object, and stays unmarked.\<close>

lemma free_chunk_not_object:
  assumes ok: "heap_ok s" and r: "r \<in> set (small_regions s)" and h: "h \<in> set (region_headers s r)" "free_word (mem s h)"
  shows "h + GC_HEAD \<notin> gc_objects s"
proof
  assume o: "h + GC_HEAD \<in> gc_objects s"
  have r': "r \<in> set (regions s)" "rtype r = GC_REGION_SMALL" using ok r by (auto simp: heap_ok_def)
  note b = small_object_region [OF ok r' h(1)]
  obtain os where rs: "regions s \<noteq> []" "regions_ok (regions s) os" using ok by (auto simp: heap_ok_def)
  have f: "region_find (regions s) (h + GC_HEAD) = Inr (Some r)" using region_find_correct(1) [OF rs(2,1)] r'(1) b(1,2) by blast
  have "is_object s (h + GC_HEAD) = map_option Inr (is_small_object s (h + GC_HEAD) r)" using f r'(2) by (simp add: is_object_def)
  also have "is_small_object s (h + GC_HEAD) r = Some False" using is_small_object_correct [OF ok r' b(1,2)] h(2) by auto
  finally show False using is_object_correct [OF ok, of "h + GC_HEAD"] o by simp
qed

lemma chunk_visited:
  assumes g: "graph_ok ct s0" and nm: "no_marks s0" and b: "base s0 s" and r: "r \<in> set (small_regions s0)" "h \<in> set (region_headers s0 r)"
  shows "h + GC_HEAD \<in> gc_objects s0 \<or> \<not> marked (mem s) (h + GC_HEAD)"
proof (cases "free_word (mem s0 h)")
  case False
  then show ?thesis using r by (auto simp: gc_objects_def small_objects_def)
next
  case True
  have hp: "heap_ok s0" using g unfolding graph_ok_def by blast
  have n: "h + GC_HEAD \<notin> gc_objects s0" by (rule free_chunk_not_object [OF hp r True])
  have "h \<notin> HEADER ` gc_objects s0"
  proof
    assume "h \<in> HEADER ` gc_objects s0"
    then obtain q where q: "q \<in> gc_objects s0" "h = HEADER q" by blast
    then have "h + GC_HEAD = q" using gc_objects_aligned(2) [OF hp q(1)] by (simp add: HEADER_def GC_HEAD_def)
    with q n show False by simp
  qed
  then have "mem s h = mem s0 h" using only_marks_other b unfolding base_def by blast
  then show ?thesis using nm r by (simp add: no_marks_def marked_def HEADER_def)
qed

lemma walk_block_returns:
  assumes g: "graph_ok ct s0" and R: "closed_set ct s0 R"
    and vis: "\<And>s x. base s0 s \<Longrightarrow> x \<in> set (chunk_headers (mem s0) h b) \<Longrightarrow> x + GC_HEAD \<in> gc_objects s0 \<or> \<not> marked (mem s) (x + GC_HEAD)"
  shows "block_ok (mem s0) h b \<Longrightarrow> scanning ct s0 R D s \<Longrightarrow>
    \<exists>s'. walk_block ct h b s = Some (Inr s') \<and> scanning ct s0 R (D \<union> (\<lambda>x. x + GC_HEAD) ` set (chunk_headers (mem s0) h b)) s' \<and> progress s0 s s'"
  using vis
proof (induction "mem s0" h b arbitrary: D s rule: block_ok.induct)
  case (1 h b)
  show ?case
  proof (cases "h < b")
    case False
    then have "chunk_headers (mem s0) h b = []" by (subst chunk_headers.simps) simp
    then show ?thesis using False "1.prems"(2) by (subst walk_block.simps) simp
  next
    case True
    then have z: "size_word (mem s0 h) \<noteq> 0" and ok: "block_ok (mem s0) (h + size_word (mem s0 h)) b"
      using "1.prems"(1) by (subst (asm) block_ok.simps, simp split: if_splits)+
    have c: "set (chunk_headers (mem s0) h b) = insert h (set (chunk_headers (mem s0) (h + size_word (mem s0 h)) b))"
      using True z by (subst chunk_headers.simps) simp
    have om: "only_marks (gc_objects s0) (mem s0) (mem s)" using scanning_base [OF "1.prems"(2)] unfolding base_def by blast
    have sz: "size_word (mem s h) = size_word (mem s0 h)" by (rule only_marks_words(2) [OF om])
    have "h + GC_HEAD \<in> gc_objects s0 \<or> \<not> marked (mem s) (h + GC_HEAD)"
      by (rule "1.prems"(3) [OF scanning_base [OF "1.prems"(2)]]) (simp add: c)
    then obtain s1 where s1: "walk_if_marked ct (h + GC_HEAD) s = Inr s1" "scanning ct s0 R (insert (h + GC_HEAD) D) s1" "progress s0 s s1"
      using visit [OF "1.prems"(2) g R] by blast
    obtain s2 where s2: "walk_block ct (h + size_word (mem s0 h)) b s1 = Some (Inr s2)"
      "scanning ct s0 R (insert (h + GC_HEAD) D \<union> (\<lambda>x. x + GC_HEAD) ` set (chunk_headers (mem s0) (h + size_word (mem s0 h)) b)) s2" "progress s0 s1 s2"
      using "1.hyps" [OF True z ok s1(2)] "1.prems"(3) c by blast
    have "walk_block ct h b s = Some (Inr s2)" using True s1(1) s2(1) sz by (subst walk_block.simps) simp
    then show ?thesis using s2(2) progress_trans [OF s1(3) s2(3)] unfolding c by (simp add: insert_commute)
  qed
qed

lemma walk_small_region_returns:
  assumes sc: "scanning ct s0 R D s" and g: "graph_ok ct s0" and nm: "no_marks s0" and R: "closed_set ct s0 R" and r: "r \<in> set (small_regions s0)"
  shows "\<exists>s'. walk_small_region ct r s = Some (Inr s') \<and> scanning ct s0 R (D \<union> (\<lambda>h. h + GC_HEAD) ` set (region_headers s0 r)) s' \<and> progress s0 s s'"
proof -
  let ?F = "\<lambda>pos. if block_used (usage s0 (rstart r)) pos then (\<lambda>h. h + GC_HEAD) ` set (chunk_headers (mem s0) (first_header r pos) (last_header r pos)) else {}"
  let ?f = "\<lambda>pos s. if block_used (usage s (rstart r)) pos
       then let block = rstart r + pos * GC_BLOCKSIZE
            in walk_block ct (block + (MEMALIGN - GC_HEAD)) (block + (GC_BLOCKSIZE - GC_HEAD)) s
       else Some (Inr s)"
  have one: "\<exists>s'. ?f pos s = Some (Inr s') \<and> scanning ct s0 R (D \<union> ?F pos) s' \<and> progress s0 s s'"
    if pos: "pos \<in> set [0..<region_blocks r]" and sc: "scanning ct s0 R D s" for pos D s
  proof (cases "block_used (usage s0 (rstart r)) pos")
    case False
    then show ?thesis using sc scanning_base [OF sc] unfolding base_def by simp
  next
    case True
    have u: "usage s = usage s0" using scanning_base [OF sc] unfolding base_def by blast
    have ok: "block_ok (mem s0) (first_header r pos) (last_header r pos)"
      using g r True pos unfolding graph_ok_def heap_ok_def used_blocks_def by simp
    have vis: "x + GC_HEAD \<in> gc_objects s0 \<or> \<not> marked (mem s) (x + GC_HEAD)"
      if "base s0 s" "x \<in> set (chunk_headers (mem s0) (first_header r pos) (last_header r pos))" for s x
    proof -
      have "x \<in> set (region_headers s0 r)" unfolding region_headers_iff using that(2) True pos by auto
      then show ?thesis by (rule chunk_visited [OF g nm that(1) r])
    qed
    show ?thesis using walk_block_returns [OF g R vis ok sc] True u by (simp add: Let_def first_header_def last_header_def)
  qed
  have "(\<Union>pos\<in>set [0..<region_blocks r]. ?F pos) = (\<lambda>h. h + GC_HEAD) ` set (region_headers s0 r)"
    unfolding region_headers_def used_blocks_def by (fastforce split: if_splits)
  moreover have "\<exists>s'. each ?f [0..<region_blocks r] s = Some (Inr s') \<and> scanning ct s0 R (D \<union> (\<Union>pos\<in>set [0..<region_blocks r]. ?F pos)) s' \<and> progress s0 s s'"
    by (rule each_scanning [OF _ sc]) (rule one)
  ultimately show ?thesis unfolding walk_small_region_def region_blocks_def by simp
qed

lemma handle_stack_overflow_returns:
  assumes com: "common s0 R s" "mark_state s \<noteq> MARK_STATE_COLLECT" and g: "graph_ok ct s0" and nm: "no_marks s0" and R: "closed_set ct s0 R"
  shows "\<exists>s'. handle_stack_overflow ct s = Some (Inr s') \<and> draining ct s0 R s' \<and> progress s0 s s'"
proof -
  have "scanning ct s0 R {} s" using com by (simp add: scanning_def tricolour_def)
  then obtain s1 where s1: "walk_large_objects ct s = Some (Inr s1)" "scanning ct s0 R (large_set s0) s1" "progress s0 s s1"
    using walk_large_objects_returns [OF _ g R] by fastforce
  have sm: "small_regions s1 = small_regions s0" using scanning_base [OF s1(2)] unfolding base_def by blast
  let ?D = "large_set s0 \<union> (\<Union>r\<in>set (small_regions s0). (\<lambda>h. h + GC_HEAD) ` set (region_headers s0 r))"
  have "\<exists>s2. each (walk_small_region ct) (small_regions s0) s1 = Some (Inr s2) \<and> scanning ct s0 R ?D s2 \<and> progress s0 s1 s2"
    by (rule each_scanning [OF _ s1(2)]) (rule walk_small_region_returns [OF _ g nm R])
  then obtain s2 where s2: "each (walk_small_region ct) (small_regions s0) s1 = Some (Inr s2)" "scanning ct s0 R ?D s2" "progress s0 s1 s2" by blast
  have "live s0 s2 \<subseteq> ?D" unfolding live_def gc_objects_def small_objects_def by auto
  then have "draining ct s0 R s2" using s2(2) unfolding scanning_def draining_def tricolour_def by blast
  then show ?thesis using s1(1) s2(1) sm progress_trans [OF s1(3) s2(3)] by (simp add: handle_stack_overflow_def walk_small_objects_def)
qed

section \<open>The mark stack\<close>

lemma common_state: "common s0 R s \<Longrightarrow> y \<noteq> MARK_STATE_COLLECT \<Longrightarrow> common s0 R (s\<lparr>mark_state := y\<rparr>)"
  by (simp add: common_def base_def stack_ok_def live_def)

lemma normal_loop_returns:
  assumes g: "graph_ok ct s0" and nm: "no_marks s0" and R: "closed_set ct s0 R"
  shows "draining ct s0 R s \<Longrightarrow> \<exists>s'. normal_loop ct s = Some (Inr s') \<and> draining ct s0 R s' \<and> mark_top s' = - 1 \<and> mark_state s' = MARK_STATE_NORMAL \<and>
    same_heap s s' \<and> live s0 s \<subseteq> live s0 s'"
proof (induction "2 * unmarked s0 s + (if mark_state s = MARK_STATE_OVERFLOW then 1 else 0)" arbitrary: s rule: less_induct)
  case less
  obtain s1 where s1: "drain_loop ct s = Some (Inr s1)" "draining ct s0 R s1" "mark_top s1 = - 1" "progress s0 s s1"
    using drain_loop_returns [OF g R less.prems] by blast
  show ?case
  proof (cases "mark_state s1 = MARK_STATE_OVERFLOW")
    case False
    then have "mark_state s1 = MARK_STATE_NORMAL" using s1(2) unfolding draining_def by (cases "mark_state s1") auto
    then show ?thesis using s1 unfolding progress_def by (subst normal_loop.simps) simp
  next
    case True
    let ?u = "s1\<lparr>mark_state := MARK_STATE_NORMAL\<rparr>"
    have com: "common s0 R ?u" using common_state s1(2) unfolding draining_def by simp
    obtain s2 where s2: "handle_stack_overflow ct ?u = Some (Inr s2)" "draining ct s0 R s2" "progress s0 ?u s2"
      using handle_stack_overflow_returns [OF com _ g nm R] by auto
    have lu: "live s0 ?u = live s0 s1" by (simp add: live_def)
    have p1: "live s0 s \<subseteq> live s0 s1" "live s0 s \<subset> live s0 s1 \<or> mark_state s = MARK_STATE_OVERFLOW" using s1(4) True unfolding progress_def by auto
    have p2: "live s0 s1 \<subseteq> live s0 s2" "live s0 s1 \<subset> live s0 s2 \<or> mark_state s2 = MARK_STATE_NORMAL" using s2(3) unfolding progress_def lu by auto
    have lt: "2 * unmarked s0 s2 + (if mark_state s2 = MARK_STATE_OVERFLOW then 1 else 0) < 2 * unmarked s0 s + (if mark_state s = MARK_STATE_OVERFLOW then 1 else 0)"
    proof -
      have a: "unmarked s0 s1 < unmarked s0 s \<or> mark_state s = MARK_STATE_OVERFLOW" "unmarked s0 s2 < unmarked s0 s1 \<or> mark_state s2 \<noteq> MARK_STATE_OVERFLOW"
        using p1(2) p2(2) unmarked_less [of s0 s s1] unmarked_less [of s0 s1 s2] by auto
      show ?thesis using a unmarked_mono [OF p1(1)] unmarked_mono [OF p2(1)] by auto
    qed
    have e: "normal_loop ct s = normal_loop ct s2" using s1(1) True s2(1) by (subst normal_loop.simps) simp
    have sh: "same_heap s s2" using s1(4) s2(3) unfolding progress_def same_heap_def by simp
    show ?thesis unfolding e using less.hyps [OF lt s2(2)] same_heap_trans [OF sh] p1(1) p2(1) by blast
  qed
qed

definition finished :: "(nat \<Rightarrow> walkfn) \<Rightarrow> gcs \<Rightarrow> nat set \<Rightarrow> gcs \<Rightarrow> bool" where
  "finished ct s0 R s \<longleftrightarrow> common s0 R s \<and> (\<forall>p\<in>live s0 s. closed ct s0 s p) \<and>
     (mark_state s = MARK_STATE_COLLECT \<and> collecting ct s0 R s \<and> mark_top s < mark_cursor s \<or> mark_state s = MARK_STATE_NORMAL \<and> mark_top s = - 1)"

lemma move_down_effect:
  assumes c: "collecting ct s0 R s" and st: "mark_state s \<noteq> MARK_STATE_COLLECT"
  shows "\<exists>s'. move_down s = Inr s' \<and> draining ct s0 R s' \<and> mem s' = mem s \<and> same_heap s s'"
proof -
  have com: "common s0 R s" and k: "0 \<le> mark_save_cursor s" "mark_save_cursor s \<le> mark_top s"
    and tri: "tricolour ct s0 (set (drop (nat (mark_save_cursor s)) (entries s))) s" using c st unfolding collecting_def by auto
  then have ok: "stack_ok s" unfolding common_def by blast
  let ?k = "mark_save_cursor s" and ?n = "mark_top s - mark_save_cursor s + 1"
  let ?s = "s\<lparr>mark_stack := take (nat ?n) (drop (nat ?k) (mark_stack s)) @ drop (nat ?n) (mark_stack s), mark_top := mark_top s - ?k\<rparr>"
  have lt: "nat (mark_top s) < length (mark_stack s)" using ok k unfolding stack_ok_def by linarith
  have md: "move_down s = Inr ?s" using k lt by (simp add: move_down_def Let_def)
  have le: "nat ?n + nat ?k \<le> length (mark_stack s)" using lt k by linarith
  have "nat (mark_top s + 1) - nat ?k = nat ?n" using k by linarith
  then have e: "entries ?s = drop (nat ?k) (entries s)" using le by (simp add: entries_def drop_take)
  have len: "length (mark_stack ?s) = length (mark_stack s)" using le by simp
  have "stack_ok ?s" using ok k st len unfolding stack_ok_def by auto
  moreover have "set (entries ?s) \<subseteq> live s0 s"
  proof -
    have "set (entries s) \<subseteq> live s0 s" using com unfolding common_def by simp
    then show ?thesis unfolding e by (rule subset_trans [OF set_drop_subset])
  qed
  ultimately have "common s0 R ?s" using com unfolding common_def by (simp add: base_def live_def)
  moreover have "tricolour ct s0 (set (entries ?s)) ?s" unfolding e using tri by (simp add: tricolour_def live_def closed_def)
  ultimately have "draining ct s0 R ?s" using st by (simp add: draining_def)
  then show ?thesis using md len by (auto simp: same_heap_def)
qed

lemma draining_finished: "draining ct s0 R s \<Longrightarrow> mark_top s = - 1 \<Longrightarrow> mark_state s = MARK_STATE_NORMAL \<Longrightarrow> finished ct s0 R s"
  by (simp add: draining_def finished_def tricolour_def entries_def)

lemma walk_mark_stack_returns:
  assumes g: "graph_ok ct s0" and nm: "no_marks s0" and R: "closed_set ct s0 R"
    and c: "if mark_state s = MARK_STATE_COLLECT then collecting ct s0 R s else draining ct s0 R s"
  shows "\<exists>s'. walk_mark_stack ct s = Some (Inr s') \<and> finished ct s0 R s' \<and> live s0 s \<subseteq> live s0 s' \<and> has_final s' = has_final s \<and> do_final s' = do_final s \<and>
    length (mark_stack s') = length (mark_stack s)"
proof (cases "mark_state s = MARK_STATE_COLLECT")
  case True
  with c have c: "collecting ct s0 R s" by simp
  obtain s1 where s1: "collect_loop ct s = Some (Inr s1)" "collecting ct s0 R s1" "mark_top s1 < mark_cursor s1" "live s0 s \<subseteq> live s0 s1"
    and f1: "has_final s1 = has_final s" "do_final s1 = do_final s" "length (mark_stack s1) = length (mark_stack s)"
    using collect_loop_returns [OF g R c] by blast
  show ?thesis
  proof (cases "mark_state s1 = MARK_STATE_COLLECT")
    case st: True
    then have e: "set (entries s1) = live s0 s1" "\<forall>p\<in>set (take (nat (mark_cursor s1)) (entries s1)). closed ct s0 s1 p" and com: "common s0 R s1"
      using s1(2) unfolding collecting_def by auto
    have "length (entries s1) \<le> nat (mark_cursor s1)" using entries_length [of s1] com s1(3) unfolding common_def by linarith
    then have "\<forall>p\<in>live s0 s1. closed ct s0 s1 p" using e by simp
    then have "finished ct s0 R s1" using com st s1 unfolding finished_def by blast
    then show ?thesis using True st s1 f1 by (simp add: walk_mark_stack_def)
  next
    case False
    obtain s2 where s2: "move_down s1 = Inr s2" "draining ct s0 R s2" "mem s2 = mem s1" "same_heap s1 s2" using move_down_effect [OF s1(2) False] by blast
    obtain s3 where s3: "normal_loop ct s2 = Some (Inr s3)" "draining ct s0 R s3" "mark_top s3 = - 1" "mark_state s3 = MARK_STATE_NORMAL" "same_heap s2 s3" "live s0 s2 \<subseteq> live s0 s3"
      using normal_loop_returns [OF g nm R s2(2)] by blast
    have "live s0 s1 = live s0 s2" using s2(3) by (simp add: live_def)
    then show ?thesis using True False s1 s2 s3 f1 draining_finished [OF s3(2-4)] by (auto simp: walk_mark_stack_def same_heap_def)
  qed
next
  case False
  then obtain s3 where s3: "normal_loop ct s = Some (Inr s3)" "draining ct s0 R s3" "mark_top s3 = - 1" "mark_state s3 = MARK_STATE_NORMAL" "same_heap s s3" "live s0 s \<subseteq> live s0 s3"
    using normal_loop_returns [OF g nm R] c by auto
  then show ?thesis using False draining_finished [OF s3(2-4)] by (simp add: walk_mark_stack_def same_heap_def)
qed

section \<open>The roots\<close>

lemma chunk_headers_base:
  assumes "only_marks V m m'"
  shows "chunk_headers m' h b = chunk_headers m h b \<and> block_ok m' h b = block_ok m h b"
proof (induction "b - h" arbitrary: h rule: less_induct)
  case less
  note w = only_marks_words(2) [OF assms]
  show ?case
  proof (cases "h < b \<and> size_word (m h) \<noteq> 0")
    case True
    then have "b - (h + size_word (m h)) < b - h" by linarith
    from less [OF this] True show ?thesis
      by (subst (1 2) chunk_headers.simps, subst (1 2) block_ok.simps) (simp add: w)
  next
    case False
    then show ?thesis by (subst (1 2) chunk_headers.simps, subst (1 2) block_ok.simps) (simp add: w)
  qed
qed

lemma objects_base:
  assumes "base s0 s" and "heap_ok s0"
  shows "gc_objects s = gc_objects s0" "heap_ok s"
proof -
  have om: "only_marks (gc_objects s0) (mem s0) (mem s)" and e: "regions s = regions s0" "usage s = usage s0" "small_regions s = small_regions s0" "large_objects s = large_objects s0"
    using assms(1) unfolding base_def by blast+
  note c = chunk_headers_base [OF om] and w = only_marks_words(1) [OF om]
  have u: "used_blocks s r = used_blocks s0 r" and rh: "region_headers s r = region_headers s0 r" for r
    using e(2) c by (simp_all add: used_blocks_def region_headers_def)
  show "gc_objects s = gc_objects s0" by (simp add: gc_objects_def small_objects_def large_set_def e rh w)
  show "heap_ok s" using assms(2) unfolding heap_ok_def e u using c by simp
qed

text \<open>\<open>marks V W f\<close>: the operation \<open>f\<close> returns, marks objects of \<open>V\<close> only and among them all of \<open>W\<close>.\<close>

definition marks :: "gcs \<Rightarrow> nat set \<Rightarrow> nat set \<Rightarrow> (gcs \<Rightarrow> gcs result option) \<Rightarrow> bool" where
  "marks s0 V W f \<longleftrightarrow> (\<forall>s. base s0 s \<longrightarrow> stack_ok s \<longrightarrow> (\<exists>s'. f s = Some (Inr s') \<and> mrel V s s' \<and> (\<forall>v\<in>W. marked (mem s') v)))"

lemma marksD: "marks s0 V W f \<Longrightarrow> base s0 s \<Longrightarrow> stack_ok s \<Longrightarrow> \<exists>s'. f s = Some (Inr s') \<and> mrel V s s' \<and> (\<forall>v\<in>W. marked (mem s') v)"
  unfolding marks_def by blast

lemma marks_none: "marks s0 V {} (\<lambda>s. Some (Inr s))"
  unfolding marks_def using mrel_refl by auto

lemma marks_seq:
  assumes f: "marks s0 V W f" and g: "marks s0 V W' g" and V: "V \<subseteq> gc_objects s0"
  shows "marks s0 V (W \<union> W') (\<lambda>s. and_then (f s) g)"
  unfolding marks_def
proof (intro allI impI)
  fix s assume b: "base s0 s" and ok: "stack_ok s"
  obtain s1 where s1: "f s = Some (Inr s1)" "mrel V s s1" "\<forall>v\<in>W. marked (mem s1) v" using marksD [OF f b ok] by blast
  have "stack_ok s1" using s1(2) unfolding mrel_def by blast
  then obtain s2 where s2: "g s1 = Some (Inr s2)" "mrel V s1 s2" "\<forall>v\<in>W'. marked (mem s2) v" using marksD [OF g base_mrel [OF b s1(2) V]] by blast
  have "only_marks V (mem s1) (mem s2)" using s2(2) unfolding mrel_def by blast
  then show "\<exists>s'. and_then (f s) g = Some (Inr s') \<and> mrel V s s' \<and> (\<forall>v\<in>W \<union> W'. marked (mem s') v)"
    using s1 s2 mrel_trans [OF s1(2) s2(2) ok] only_marks_marked by auto
qed

lemma marks_each:
  assumes f: "\<And>x. x \<in> set xs \<Longrightarrow> marks s0 V (W x) (f x)" and V: "V \<subseteq> gc_objects s0"
  shows "marks s0 V (\<Union>x\<in>set xs. W x) (each f xs)"
  using f
proof (induction xs)
  case Nil
  then show ?case using mrel_refl by (auto simp: marks_def)
next
  case (Cons x xs)
  have "marks s0 V (W x \<union> (\<Union>x\<in>set xs. W x)) (\<lambda>s. and_then (f x s) (each f xs))"
    by (rule marks_seq [OF Cons.prems Cons.IH V]) (use Cons.prems in auto)
  moreover have "each f (x # xs) = (\<lambda>s. and_then (f x s) (each f xs))" by (rule ext) (simp add: and_then_def)
  ultimately show ?case by simp
qed

lemma marks_mark:
  assumes h: "heap_ok s0" and p: "ref_ok s0 p" "{p} \<inter> gc_objects s0 \<subseteq> V" and V: "V \<subseteq> gc_objects s0"
  shows "marks s0 V ({p} \<inter> gc_objects s0) (\<lambda>s. Some (mark p s))"
  unfolding marks_def
proof (intro allI impI)
  fix s assume b: "base s0 s" and ok: "stack_ok s"
  have ad: "addresses V" using addresses_objects [OF h] V unfolding addresses_def by blast
  have om: "only_marks (gc_objects s0) (mem s0) (mem s)" using b unfolding base_def by blast
  have "p = 0 \<or> marked (mem s) p \<or> p \<in> V" using p only_marks_marked [OF om] unfolding ref_ok_def by blast
  then obtain s' where "mark p s = Inr s'" "mrel V s s'" "p \<noteq> 0 \<longrightarrow> marked (mem s') p" using mark_effect [OF ok _ ad] by blast
  moreover have "0 \<notin> gc_objects s0" using addresses_objects [OF h] unfolding addresses_def by force
  ultimately show "\<exists>s'. Some (mark p s) = Some (Inr s') \<and> mrel V s s' \<and> (\<forall>v\<in>{p} \<inter> gc_objects s0. marked (mem s') v)" by auto
qed

lemma marks_mark_slots:
  assumes h: "heap_ok s0" and as: "\<forall>a\<in>set as. a \<notin> HEADER ` gc_objects s0 \<and> ref_ok s0 (mem s0 a) \<and> {mem s0 a} \<inter> gc_objects s0 \<subseteq> V" and V: "V \<subseteq> gc_objects s0"
  shows "marks s0 V (mem s0 ` set as \<inter> gc_objects s0) (\<lambda>s. Some (mark_slots as s))"
  unfolding marks_def
proof (intro allI impI)
  fix s assume b: "base s0 s" and ok: "stack_ok s"
  have ad: "addresses V" using addresses_objects [OF h] V unfolding addresses_def by blast
  have om: "only_marks (gc_objects s0) (mem s0) (mem s)" using b unfolding base_def by blast
  have same: "mem s a = mem s0 a" if "a \<in> set as" for a using only_marks_other [OF om] as that by blast
  have pre: "\<forall>a\<in>set as. a \<notin> HEADER ` V \<and> (mem s a = 0 \<or> marked (mem s) (mem s a) \<or> mem s a \<in> V)"
  proof
    fix a assume a: "a \<in> set as"
    then have "a \<notin> HEADER ` V" using as V by blast
    moreover have "mem s a = 0 \<or> marked (mem s) (mem s a) \<or> mem s a \<in> V"
      using as a only_marks_marked [OF om] unfolding ref_ok_def same [OF a] by blast
    ultimately show "a \<notin> HEADER ` V \<and> (mem s a = 0 \<or> marked (mem s) (mem s a) \<or> mem s a \<in> V)" by blast
  qed
  obtain s' where s': "mark_slots as s = Inr s'" "mrel V s s'" "\<forall>a\<in>set as. mem s a \<noteq> 0 \<longrightarrow> marked (mem s') (mem s a)"
    using mark_slots_effect [OF ok ad pre] by blast
  have "0 \<notin> gc_objects s0" using addresses_objects [OF h] unfolding addresses_def by force
  then have "\<forall>v\<in>mem s0 ` set as \<inter> gc_objects s0. marked (mem s') v" using s'(3) same by auto
  then show "\<exists>s'. Some (mark_slots as s) = Some (Inr s') \<and> mrel V s s' \<and> (\<forall>v\<in>mem s0 ` set as \<inter> gc_objects s0. marked (mem s') v)" using s' by blast
qed

lemma marks_potential:
  assumes h: "heap_ok s0" and a: "a \<notin> HEADER ` gc_objects s0" "{mem s0 a} \<inter> gc_objects s0 \<subseteq> V" and V: "V \<subseteq> gc_objects s0"
  shows "marks s0 V ({mem s0 a} \<inter> gc_objects s0) (\<lambda>s. mark_potential (mem s a) s)"
  unfolding marks_def
proof (intro allI impI)
  fix s assume b: "base s0 s" and ok: "stack_ok s"
  have om: "only_marks (gc_objects s0) (mem s0) (mem s)" using b unfolding base_def by blast
  have same: "mem s a = mem s0 a" using only_marks_other [OF om a(1)] .
  note o = objects_base [OF b h]
  have e: "mark_potential (mem s a) s = Some (if mem s0 a \<in> gc_objects s0 then mark (mem s0 a) s else Inr s)"
    unfolding mark_potential_def is_object_correct [OF o(2)] o(1) same by simp
  show "\<exists>s'. mark_potential (mem s a) s = Some (Inr s') \<and> mrel V s s' \<and> (\<forall>v\<in>{mem s0 a} \<inter> gc_objects s0. marked (mem s') v)"
  proof (cases "mem s0 a \<in> gc_objects s0")
    case False
    then show ?thesis using e mrel_refl [OF ok] by auto
  next
    case True
    have "marks s0 V ({mem s0 a} \<inter> gc_objects s0) (\<lambda>s. Some (mark (mem s0 a) s))"
      by (rule marks_mark [OF h _ a(2) V]) (simp add: ref_ok_def True)
    from marksD [OF this b ok] True e show ?thesis by simp
  qed
qed

text \<open>The words the roots are read from, and the objects among their contents.\<close>

definition class_slots :: "groots \<Rightarrow> nat list" where
  "class_slots r = concat (map gc_walk_class (root_classes r))"

definition stack_slots :: "gthread \<Rightarrow> nat list" where
  "stack_slots t = (if gt_private t \<noteq> 0 then map (\<lambda>i. gt_restore t + 4 * i) [0..<(gt_end t - gt_restore t + 3) div 4] else [])"

definition root_values :: "groots \<Rightarrow> gcs \<Rightarrow> nat set" where
  "root_values r s = mem s ` set (class_slots r) \<union> {out_of_memory r} \<union> gt_tid ` set (live_threads r) \<union> mem s ` (\<Union>t\<in>set (live_threads r). set (stack_slots t))"

definition root_objects :: "groots \<Rightarrow> gcs \<Rightarrow> nat set" where
  "root_objects r s = root_values r s \<inter> gc_objects s"

definition roots_ok :: "groots \<Rightarrow> gcs \<Rightarrow> bool" where
  "roots_ok r s \<longleftrightarrow> (\<forall>a\<in>set (class_slots r). a \<notin> HEADER ` gc_objects s \<and> ref_ok s (mem s a)) \<and> ref_ok s (out_of_memory r) \<and>
     (\<forall>t\<in>set (live_threads r). ref_ok s (gt_tid t) \<and> set (stack_slots t) \<inter> HEADER ` gc_objects s = {})"

lemma marks_walk_thread:
  assumes h: "heap_ok s0" and a: "set (stack_slots t) \<inter> HEADER ` gc_objects s0 = {}" "mem s0 ` set (stack_slots t) \<inter> gc_objects s0 \<subseteq> V" and V: "V \<subseteq> gc_objects s0"
  shows "marks s0 V (mem s0 ` set (stack_slots t) \<inter> gc_objects s0) (gc_walk_thread t)"
proof (cases "gt_private t \<noteq> 0")
  case False
  then show ?thesis using marks_none by (simp add: gc_walk_thread_def [abs_def] stack_slots_def)
next
  case True
  let ?is = "[0..<(gt_end t - gt_restore t + 3) div 4]"
  have one: "marks s0 V ({mem s0 (gt_restore t + 4 * i)} \<inter> gc_objects s0) (\<lambda>s. mark_potential (mem s (gt_restore t + 4 * i)) s)" if "i \<in> set ?is" for i
  proof -
    have "gt_restore t + 4 * i \<in> set (stack_slots t)" using that True by (simp add: stack_slots_def)
    then show ?thesis using a by (intro marks_potential [OF h _ _ V]) blast+
  qed
  have "marks s0 V (\<Union>i\<in>set ?is. {mem s0 (gt_restore t + 4 * i)} \<inter> gc_objects s0) (each (\<lambda>i s. mark_potential (mem s (gt_restore t + 4 * i)) s) ?is)"
    by (rule marks_each [OF one V])
  moreover have "(\<Union>i\<in>set ?is. {mem s0 (gt_restore t + 4 * i)} \<inter> gc_objects s0) = mem s0 ` set (stack_slots t) \<inter> gc_objects s0"
    using True by (auto simp: stack_slots_def)
  moreover have "each (\<lambda>i s. mark_potential (mem s (gt_restore t + 4 * i)) s) ?is = gc_walk_thread t"
    using True by (intro ext) (simp add: gc_walk_thread_def gc_walk_conservative_def)
  ultimately show ?thesis by simp
qed

lemma marks_walk_roots:
  assumes h: "heap_ok s0" and r: "roots_ok r s0"
  shows "marks s0 (root_objects r s0) (root_objects r s0) (walk_roots r)"
proof -
  let ?V = "root_objects r s0" and ?O = "gc_objects s0"
  have V: "?V \<subseteq> ?O" by (simp add: root_objects_def)
  have slots: "a \<in> set (class_slots r)" if "c \<in> set (root_classes r)" "a \<in> set (gc_walk_class c)" for c a
    using that by (auto simp: class_slots_def)
  have "marks s0 ?V (mem s0 ` set (gc_walk_class c) \<inter> ?O) (\<lambda>s. Some (mark_slots (gc_walk_class c) s))" if c: "c \<in> set (root_classes r)" for c
    by (rule marks_mark_slots [OF h _ V]) (use r slots [OF c] in \<open>auto simp: roots_ok_def root_objects_def root_values_def\<close>)
  then have "marks s0 ?V (\<Union>c\<in>set (root_classes r). mem s0 ` set (gc_walk_class c) \<inter> ?O) (each (\<lambda>c s. Some (mark_slots (gc_walk_class c) s)) (root_classes r))"
    by (rule marks_each [OF _ V])
  moreover have "(\<Union>c\<in>set (root_classes r). mem s0 ` set (gc_walk_class c) \<inter> ?O) = mem s0 ` set (class_slots r) \<inter> ?O" by (auto simp: class_slots_def)
  ultimately have 1: "marks s0 ?V (mem s0 ` set (class_slots r) \<inter> ?O) (each (\<lambda>c s. Some (mark_slots (gc_walk_class c) s)) (root_classes r))" by simp
  have 2: "marks s0 ?V ({out_of_memory r} \<inter> ?O) (\<lambda>s. Some (mark (out_of_memory r) s))"
    by (rule marks_mark [OF h _ _ V]) (use r in \<open>auto simp: roots_ok_def root_objects_def root_values_def\<close>)
  have one: "marks s0 ?V ({gt_tid t} \<inter> ?O \<union> mem s0 ` set (stack_slots t) \<inter> ?O) (\<lambda>s. and_then (Some (mark (gt_tid t) s)) (gc_walk_thread t))" if t: "t \<in> set (live_threads r)" for t
  proof (rule marks_seq [OF _ _ V])
    show "marks s0 ?V ({gt_tid t} \<inter> ?O) (\<lambda>s. Some (mark (gt_tid t) s))"
      by (rule marks_mark [OF h _ _ V]) (use r t in \<open>auto simp: roots_ok_def root_objects_def root_values_def\<close>)
    show "marks s0 ?V (mem s0 ` set (stack_slots t) \<inter> ?O) (gc_walk_thread t)"
      by (rule marks_walk_thread [OF h _ _ V]) (use r t in \<open>auto simp: roots_ok_def root_objects_def root_values_def\<close>)
  qed
  have 3: "marks s0 ?V (\<Union>t\<in>set (live_threads r). {gt_tid t} \<inter> ?O \<union> mem s0 ` set (stack_slots t) \<inter> ?O) (each (\<lambda>t s. and_then (Some (mark (gt_tid t) s)) (gc_walk_thread t)) (live_threads r))"
    by (rule marks_each [OF one V])
  have "marks s0 ?V (mem s0 ` set (class_slots r) \<inter> ?O \<union> ({out_of_memory r} \<inter> ?O \<union> (\<Union>t\<in>set (live_threads r). {gt_tid t} \<inter> ?O \<union> mem s0 ` set (stack_slots t) \<inter> ?O))) (walk_roots r)"
    unfolding walk_roots_def [abs_def] by (rule marks_seq [OF 1 marks_seq [OF 2 3 V] V])
  moreover have "mem s0 ` set (class_slots r) \<inter> ?O \<union> ({out_of_memory r} \<inter> ?O \<union> (\<Union>t\<in>set (live_threads r). {gt_tid t} \<inter> ?O \<union> mem s0 ` set (stack_slots t) \<inter> ?O)) = ?V"
    unfolding root_objects_def root_values_def by blast
  ultimately show ?thesis by simp
qed

section \<open>Reachability\<close>

inductive_set reach :: "(nat \<Rightarrow> walkfn) \<Rightarrow> gcs \<Rightarrow> nat set \<Rightarrow> nat set" for ct s X where
  reach_root: "p \<in> X \<Longrightarrow> p \<in> gc_objects s \<Longrightarrow> p \<in> reach ct s X"
| reach_step: "p \<in> reach ct s X \<Longrightarrow> v \<in> refs ct (mem s) p \<Longrightarrow> v \<in> gc_objects s \<Longrightarrow> v \<in> reach ct s X"

lemma reach_objects: "p \<in> reach ct s X \<Longrightarrow> p \<in> gc_objects s"
  by (induction rule: reach.induct)

lemma reach_closed_set: "closed_set ct s (reach ct s X)"
  unfolding closed_set_def using reach_objects reach_step by blast

lemma reach_mono: "X \<subseteq> Y \<Longrightarrow> reach ct s X \<subseteq> reach ct s Y"
proof
  fix p assume "p \<in> reach ct s X" "X \<subseteq> Y"
  then show "p \<in> reach ct s Y" by (induction rule: reach.induct) (auto intro: reach.intros)
qed

lemma finished_live:
  assumes f: "finished ct s0 (reach ct s0 X) s" and X: "X \<inter> gc_objects s0 \<subseteq> live s0 s"
  shows "live s0 s = reach ct s0 X"
proof
  show "live s0 s \<subseteq> reach ct s0 X" using f unfolding finished_def common_def by blast
  show "reach ct s0 X \<subseteq> live s0 s"
  proof
    fix p assume "p \<in> reach ct s0 X"
    then show "p \<in> live s0 s"
    proof (induction rule: reach.induct)
      case (reach_root p)
      then show ?case using X by blast
    next
      case (reach_step p v)
      then show ?case using f unfolding finished_def closed_def live_def by blast
    qed
  qed
qed

section \<open>The mark phase\<close>

lemma suggest_bound: "4 \<le> n \<Longrightarrow> mark_stack_suggest_bound n sz + 1 < n"
  by (auto simp: mark_stack_suggest_bound_def Let_def)

lemma common_weaken: "common s0 R s \<Longrightarrow> R \<subseteq> R' \<Longrightarrow> common s0 R' s"
  unfolding common_def by blast

text \<open>What the mark stack has to do after new objects were marked from a finished state.\<close>

lemma restart:
  assumes f: "finished ct s0 R s" and r: "mrel V s s'" and V: "V \<subseteq> R'" and R: "R \<subseteq> R'" "R' \<subseteq> gc_objects s0" and h: "heap_ok s0"
  shows "if mark_state s' = MARK_STATE_COLLECT then collecting ct s0 R' s' else draining ct s0 R' s'"
proof -
  have com: "common s0 R' s" using f common_weaken [OF _ R(1)] unfolding finished_def by blast
  have com': "common s0 R' s'" by (rule common_mrel [OF com r V R(2) h])
  have VO: "V \<subseteq> gc_objects s0" using V R by blast
  have cl: "\<forall>p\<in>live s0 s. closed ct s0 s p" using f unfolding finished_def by blast
  have ok: "stack_ok s" using com unfolding common_def by blast
  show ?thesis
  proof (cases "mark_state s' = MARK_STATE_COLLECT")
    case True
    have st: "mark_state s = MARK_STATE_COLLECT" "mark_cursor s' = mark_cursor s" using True r unfolding mrel_def state_rel_def by auto
    then have c: "collecting ct s0 R s" "mark_top s < mark_cursor s" using f unfolding finished_def by auto
    then have e: "mark_cursor s = mark_top s + 1" "set (entries s) = live s0 s" "distinct (entries s)" "0 \<le> mark_cursor s"
      using st(1) unfolding collecting_def by auto
    obtain ps where ps: "entries s' = entries s @ ps" "distinct ps" "set ps = newly V s s'" using pushed [OF r] True by auto
    have l: "live s0 s' = set (entries s')" using live_mrel_new [OF h r VO] e(2) ps by auto
    have d: "distinct (entries s')" using ps e by (auto simp: newly_def live_def)
    have "nat (mark_cursor s) = length (entries s)" using entries_length [OF ok] e(1) by simp
    then have "\<forall>p\<in>set (take (nat (mark_cursor s')) (entries s')). closed ct s0 s' p" using st(2) ps(1) cl e(2) closed_mrel [OF _ r] by simp
    then show ?thesis using True com' l d e(1,4) st(2) mrel_top [OF r ok] unfolding collecting_def by simp
  next
    case False
    have "tricolour ct s0 {} s" using cl by (simp add: tricolour_def)
    then have t: "tricolour ct s0 (newly V s s') s'" by (rule tricolour_mrel [OF _ r VO h]) auto
    have "tricolour ct s0 (set (entries s')) s'"
    proof (cases "mark_state s' = MARK_STATE_OVERFLOW")
      case False
      then show ?thesis using pushed [OF r False] t unfolding tricolour_def by fastforce
    qed (simp add: tricolour_def)
    then show ?thesis using False com' by (simp add: draining_def)
  qed
qed

lemma finished_finals: "finished ct s0 R (s\<lparr>has_final := x, do_final := y\<rparr>) = finished ct s0 R s"
  by (simp add: finished_def common_def base_def stack_ok_def live_def collecting_def closed_def)

lemma split_finals_alt:
  "split_finals m ns has fin = (rev (filter (\<lambda>n. marked m (fst n)) ns) @ has, rev (filter (\<lambda>n. \<not> marked m (fst n)) ns) @ fin)"
  by (induction ns arbitrary: has fin) auto

definition finals_ok :: "gcs \<Rightarrow> bool" where
  "finals_ok s \<longleftrightarrow> (\<forall>n\<in>set (has_final s) \<union> set (do_final s). ref_ok s (snd n))"

lemma marks_finals:
  assumes h: "heap_ok s0" and f: "\<forall>n\<in>set ns. ref_ok s0 (snd n)" and V: "snd ` set ns \<inter> gc_objects s0 \<subseteq> V" "V \<subseteq> gc_objects s0"
  shows "marks s0 V (snd ` set ns \<inter> gc_objects s0) (each (\<lambda>node s. Some (mark (snd node) s)) ns)"
proof -
  have "marks s0 V (\<Union>n\<in>set ns. {snd n} \<inter> gc_objects s0) (each (\<lambda>node s. Some (mark (snd node) s)) ns)"
    by (rule marks_each [OF marks_mark [OF h _ _ V(2)] V(2)]) (use f V(1) in auto)
  moreover have "(\<Union>n\<in>set ns. {snd n} \<inter> gc_objects s0) = snd ` set ns \<inter> gc_objects s0" by auto
  ultimately show ?thesis by simp
qed

text \<open>The state of the stack when the walk of the roots is over.\<close>

lemma after_roots:
  fixes sz :: nat
  assumes g: "graph_ok ct s0" and nm: "no_marks s0" and ro: "roots_ok r s0" and len: "4 \<le> length (mark_stack s0)"
  defines "u \<equiv> s0\<lparr>mark_state := MARK_STATE_NORMAL, mark_top := - 1, mark_bound := int (length (mark_stack s0)) - 1\<rparr>"
  defines "b \<equiv> int (mark_stack_suggest_bound (length (mark_stack s0)) sz)"
  shows "\<exists>s. walk_roots r u = Some (Inr s) \<and> length (mark_stack s) = length (mark_stack s0) \<and> root_objects r s0 \<subseteq> live s0 s \<and> has_final s = has_final s0 \<and> do_final s = do_final s0 \<and>
    (let s' = (if mark_top s < b then s\<lparr>mark_cursor := 0, mark_bound := b, mark_state := MARK_STATE_COLLECT\<rparr> else s)
     in if mark_state s' = MARK_STATE_COLLECT then collecting ct s0 (reach ct s0 (root_objects r s0)) s' else draining ct s0 (reach ct s0 (root_objects r s0)) s')"
proof -
  let ?R = "reach ct s0 (root_objects r s0)" and ?V = "root_objects r s0"
  have h: "heap_ok s0" using g unfolding graph_ok_def by blast
  have bu: "base s0 u" and su: "stack_ok u" using len by (auto simp: base_def stack_ok_def u_def)
  have lu: "live s0 u = {}" "entries u = []" using nm by (auto simp: live_def no_marks_def u_def entries_def)
  obtain s where s: "walk_roots r u = Some (Inr s)" "mrel ?V u s" "\<forall>v\<in>?V. marked (mem s) v" using marksD [OF marks_walk_roots [OF h ro] bu su] by blast
  have VO: "?V \<subseteq> gc_objects s0" by (simp add: root_objects_def)
  have VR: "?V \<subseteq> ?R" using reach_root VO by blast
  have RO: "?R \<subseteq> gc_objects s0" using reach_objects by blast
  have fu: "finished ct s0 ?R u" using bu su lu by (simp add: finished_def common_def u_def)
  have rs: "if mark_state s = MARK_STATE_COLLECT then collecting ct s0 ?R s else draining ct s0 ?R s" by (rule restart [OF fu s(2) VR _ RO h]) simp
  have sr: "mark_state s \<noteq> MARK_STATE_COLLECT" "mark_bound s = int (length (mark_stack s0)) - 1" using s(2) by (auto simp: mrel_def state_rel_def u_def)
  then have dr: "draining ct s0 ?R s" using rs by simp
  have ov: "mark_state s = MARK_STATE_OVERFLOW \<Longrightarrow> mark_top s = mark_bound s" using s(2) by (simp add: mrel_def u_def)
  have hp: "length (mark_stack s) = length (mark_stack s0)" "has_final s = has_final s0" "do_final s = do_final s0" using s(2) by (auto simp: mrel_def same_heap_def u_def)
  have bl: "b + 1 < int (length (mark_stack s0))" using suggest_bound [OF len, of sz] unfolding b_def by linarith
  have "collecting ct s0 ?R (s\<lparr>mark_cursor := 0, mark_bound := b, mark_state := MARK_STATE_COLLECT\<rparr>)" (is "collecting _ _ _ ?c") if lt: "mark_top s < b"
  proof -
    have no: "mark_state s \<noteq> MARK_STATE_OVERFLOW" using ov sr(2) lt bl by auto
    obtain ps where ps: "entries s = entries u @ ps" "distinct ps" "set ps = newly ?V u s" using pushed [OF s(2) no] by blast
    have l: "live s0 s = set (entries s)" using live_mrel_new [OF h s(2) VO] lu ps by simp
    have c: "common s0 ?R s" using dr unfolding draining_def by blast
    then have so: "stack_ok s" unfolding common_def by blast
    have "stack_ok ?c" using so lt bl hp(1) by (auto simp: stack_ok_def)
    then have "common s0 ?R ?c" using c unfolding common_def by (simp add: base_def live_def)
    then show ?thesis using l ps lu so by (simp add: collecting_def live_def stack_ok_def)
  qed
  then show ?thesis using s dr sr(1) hp VO by (auto simp: Let_def live_def)
qed

lemma mark_phase_effect:
  assumes g: "graph_ok ct s" and nm: "no_marks s" and ro: "roots_ok r s" and fo: "finals_ok s" and len: "4 \<le> length (mark_stack s)"
  shows "\<exists>s' m. mark_phase ct r sz s = Some (Inr s') \<and> base s s' \<and> length (mark_stack s') = length (mark_stack s) \<and> stack_ok s' \<and>
    only_marks (gc_objects s) (mem s) m \<and> split_finals m (has_final s) [] (do_final s) = (has_final s', do_final s') \<and>
    {p \<in> gc_objects s. marked (mem s') p} = reach ct s (root_objects r s \<union> snd ` set (do_final s')) \<and>
    (mark_state s' = MARK_STATE_COLLECT \<and> distinct (entries s') \<and> set (entries s') = {p \<in> gc_objects s. marked (mem s') p} \<or>
     mark_state s' = MARK_STATE_NORMAL \<and> mark_top s' = - 1)"
proof -
  let ?X = "root_objects r s" and ?O = "gc_objects s"
  let ?R = "reach ct s ?X"
  have h: "heap_ok s" using g unfolding graph_ok_def by blast
  let ?u = "s\<lparr>mark_state := MARK_STATE_NORMAL, mark_top := - 1, mark_bound := int (length (mark_stack s)) - 1\<rparr>"
  let ?b = "int (mark_stack_suggest_bound (length (mark_stack s)) sz)"
  obtain s1 where s1: "walk_roots r ?u = Some (Inr s1)" "length (mark_stack s1) = length (mark_stack s)" "?X \<subseteq> live s s1" "has_final s1 = has_final s" "do_final s1 = do_final s"
    and c1: "let s' = (if mark_top s1 < ?b then s1\<lparr>mark_cursor := 0, mark_bound := ?b, mark_state := MARK_STATE_COLLECT\<rparr> else s1)
      in if mark_state s' = MARK_STATE_COLLECT then collecting ct s ?R s' else draining ct s ?R s'"
    using after_roots [OF g nm ro len, of sz] by blast
  define s2 where "s2 = (if mark_top s1 < ?b then s1\<lparr>mark_cursor := 0, mark_bound := ?b, mark_state := MARK_STATE_COLLECT\<rparr> else s1)"
  have c2: "if mark_state s2 = MARK_STATE_COLLECT then collecting ct s ?R s2 else draining ct s ?R s2" using c1 unfolding s2_def Let_def .
  have f2: "has_final s2 = has_final s" "do_final s2 = do_final s" "live s s2 = live s s1" using s1 by (simp_all add: s2_def live_def)
  obtain s3 where s3: "walk_mark_stack ct s2 = Some (Inr s3)" "finished ct s ?R s3" "live s s2 \<subseteq> live s s3" "has_final s3 = has_final s2" "do_final s3 = do_final s2" "length (mark_stack s3) = length (mark_stack s2)"
    using walk_mark_stack_returns [OF g nm reach_closed_set c2] by blast
  obtain has fin where sf: "split_finals (mem s3) (has_final s3) [] (do_final s3) = (has, fin)" by fastforce
  have fin: "set fin \<subseteq> set (has_final s) \<union> set (do_final s)" using sf s3(4,5) f2 by (auto simp: split_finals_alt)
  define s4 where "s4 = s3\<lparr>has_final := has, do_final := fin\<rparr>"
  let ?Y = "?X \<union> snd ` set fin" and ?V = "snd ` set fin \<inter> ?O"
  have f4: "finished ct s ?R s4" using s3(2) unfolding s4_def by (simp add: finished_finals)
  then have b4: "base s s4" "stack_ok s4" unfolding finished_def common_def by blast+
  have "marks s ?V ?V (each (\<lambda>node s. Some (mark (snd node) s)) fin)"
    by (rule marks_finals [OF h]) (use fin fo in \<open>auto simp: finals_ok_def\<close>)
  then obtain s5 where s5: "each (\<lambda>node s. Some (mark (snd node) s)) fin s4 = Some (Inr s5)" "mrel ?V s4 s5" "\<forall>v\<in>?V. marked (mem s5) v" using marksD [OF _ b4] by blast
  have RR: "?R \<subseteq> reach ct s ?Y" by (rule reach_mono) simp
  have c5: "if mark_state s5 = MARK_STATE_COLLECT then collecting ct s (reach ct s ?Y) s5 else draining ct s (reach ct s ?Y) s5"
    by (rule restart [OF f4 s5(2) _ RR _ h]) (auto intro: reach_root dest: reach_objects)
  obtain s6 where s6: "walk_mark_stack ct s5 = Some (Inr s6)" "finished ct s (reach ct s ?Y) s6" "live s s5 \<subseteq> live s s6" "do_final s6 = do_final s5" "has_final s6 = has_final s5" "length (mark_stack s6) = length (mark_stack s5)"
    using walk_mark_stack_returns [OF g nm reach_closed_set c5] by blast
  have d6: "do_final s6 = fin" "has_final s6 = has" using s6(4,5) s5(2) unfolding mrel_def same_heap_def by (simp_all add: s4_def)
  have len6: "length (mark_stack s6) = length (mark_stack s)" using s6(6) s5(2) s3(6) s1(2) unfolding mrel_def same_heap_def by (simp add: s4_def s2_def)
  have m3: "only_marks ?O (mem s) (mem s3)" using s3(2) unfolding finished_def common_def base_def by blast
  have sp: "split_finals (mem s3) (has_final s) [] (do_final s) = (has, fin)" using sf s3(4,5) f2 by simp
  have ret: "mark_phase ct r sz s = Some (Inr s6)"
    using s1(1,2) s3(1) s5(1) s6(1) sf unfolding mark_phase_def walk_finals_def Let_def s2_def s4_def by (cases "mark_top s1 < ?b") simp_all
  have X3: "?X \<subseteq> live s s4" using s1(3) s3(3) f2(3) by (auto simp: s4_def live_def)
  have "?Y \<inter> ?O \<subseteq> live s s5" using X3 live_mrel [OF s5(2), of s] s5(3) by (auto simp: live_def)
  then have l6: "live s s6 = reach ct s ?Y" using finished_live [OF s6(2)] s6(3) by blast
  have "mark_state s6 = MARK_STATE_COLLECT \<and> distinct (entries s6) \<and> set (entries s6) = live s s6 \<or> mark_state s6 = MARK_STATE_NORMAL \<and> mark_top s6 = - 1"
    using s6(2) unfolding finished_def collecting_def by auto
  moreover have "base s s6" "stack_ok s6" using s6(2) unfolding finished_def common_def by blast+
  ultimately show ?thesis using ret l6 d6 m3 sp len6 unfolding live_def by auto
qed

section \<open>A small heap\<close>

text \<open>
  A region whose first block has three objects, at 4104, 4120 and 4136, and a free chunk, and whose other blocks are one free run. The first refers to the second and the third to the first; a
  class refers to the first, and a thread with two words of stack is the second. The third has a finalizer, whose node is at 304.
\<close>

definition sample_memory :: memory where
  "sample_memory = (\<lambda>_. 0)(100 := 7, 200 := 4104, 208 := 4109, 212 := 0, 300 := 25,
     4100 := 16, 4104 := 100, 4108 := 4120, 4116 := 16, 4120 := 100, 4132 := 16, 4136 := 100, 4140 := 4104, 4148 := 4042, 8192 := 2093056)"

definition sample_region :: region where
  "sample_region = \<lparr>rstart = 4096, rend = 2101248, rtype = GC_REGION_SMALL\<rparr>"

definition sample_heap :: gcs where
  "sample_heap = \<lparr>mem = sample_memory, regions = [sample_region], usage = (\<lambda>_. 1 # replicate 15 0), small_regions = [sample_region],
     large_objects = (\<lambda>_. []), mark_stack = replicate 10 0, mark_top = 0, mark_cursor = 0, mark_bound = 0, mark_save_cursor = 0,
     mark_state = MARK_STATE_NORMAL, has_final = [(304, 4136)], do_final = []\<rparr>"

definition sample_walk :: "nat \<Rightarrow> walkfn" where
  "sample_walk c = (if c = 7 then Object_walker (GClass [(True, 4)] None) else Gc_walk_null)"

definition sample_roots :: groots where
  "sample_roots = \<lparr>root_classes = [\<lparr>cr_loader = 200, cr_state = 1, cr_tags = [], cr_data = 0, cr_sfields = []\<rparr>], out_of_memory = 0,
     live_threads = [\<lparr>gt_tid = 4120, gt_private = 1, gt_restore = 208, gt_end = 216\<rparr>]\<rparr>"

lemma sample_fields:
  "mem sample_heap = sample_memory" "regions sample_heap = [sample_region]" "usage sample_heap = (\<lambda>_. 1 # replicate 15 0)" "small_regions sample_heap = [sample_region]"
  "large_objects sample_heap = (\<lambda>_. [])" "length (mark_stack sample_heap) = 10" "has_final sample_heap = [(304, 4136)]" "do_final sample_heap = []"
  by (simp_all add: sample_heap_def)

lemma sample_chunks: "chunk_headers sample_memory 4100 8188 = [4100, 4116, 4132, 4148]"
  by (simp add: chunk_headers.simps sample_memory_def size_word_alt)

lemma sample_blocks: "used_blocks sample_heap sample_region = [0]"
proof -
  have "\<not> block_used (1 # replicate 15 0) pos" if "pos \<in> {1..<512}" for pos
  proof (cases "pos div 32")
    case 0
    then have "pos mod 32 = pos" "pos \<noteq> 0" using that by auto
    then show ?thesis using 0 by (simp add: block_used_def and_exp_eq_0_iff_not_bit bit_1_iff)
  next
    case (Suc n)
    then have "n < 15" using that by auto
    then show ?thesis using Suc by (simp add: block_used_def)
  qed
  then have "filter (block_used (1 # replicate 15 0)) [1..<512] = []" by (simp add: filter_empty_conv)
  moreover have "[0..<512] = 0 # [1..<512]" by (simp add: upt_conv_Cons)
  moreover have "block_used (1 # replicate 15 0) 0" by (simp add: block_used_def)
  ultimately show ?thesis by (simp add: used_blocks_def region_blocks_def sample_region_def sample_heap_def gc_consts)
qed

lemma sample_headers: "region_headers sample_heap sample_region = [4100, 4116, 4132, 4148]"
  unfolding region_headers_def sample_blocks
  by (simp add: first_header_def last_header_def sample_region_def sample_heap_def gc_consts sample_chunks)

lemma sample_free: "free_word (sample_memory h) \<longleftrightarrow> h \<in> {100, 4148}"
  by (simp add: sample_memory_def free_word_def bit_iff_odd)

lemma sample_objects: "gc_objects sample_heap = {4104, 4120, 4136}"
proof -
  have "small_objects sample_heap = {h + GC_HEAD | h. h \<in> set [4100, 4116, 4132, 4148] \<and> \<not> free_word (sample_memory h)}"
    unfolding small_objects_def by (simp add: sample_fields sample_headers)
  also have "\<dots> = {4104, 4120, 4136}" by (auto simp: sample_free GC_HEAD_def)
  finally show ?thesis by (simp add: gc_objects_def large_set_def sample_heap_def)
qed

lemma sample_heap_ok: "heap_ok sample_heap"
proof -
  have "\<exists>os. regions_ok [sample_region] os"
    by (rule exI [of _ "\<lparr>brk = 2101248, brk_limit = 2101248\<rparr>"]) (simp add: regions_ok_def sample_region_def gc_consts)
  moreover have "block_ok sample_memory 4100 8188"
    by (simp add: block_ok.simps sample_memory_def size_word_alt)
  ultimately show ?thesis unfolding heap_ok_def
    by (auto simp: sample_fields sample_blocks) (auto simp: sample_region_def first_header_def last_header_def gc_consts)
qed

lemma sample_walks: "p \<in> {4104, 4120, 4136} \<Longrightarrow> walk_slots sample_walk sample_memory p = [p + 4]"
  by (auto simp: walk_slots_def sample_walk_def sample_memory_def)

lemma sample_at: "sample_memory 100 = 7" "sample_memory 4104 = 100" "sample_memory 4120 = 100" "sample_memory 4136 = 100"
  "sample_memory 4108 = 4120" "sample_memory 4124 = 0" "sample_memory 4140 = 4104" "sample_memory 200 = 4104" "sample_memory 208 = 4109" "sample_memory 212 = 0"
  by (simp_all add: sample_memory_def)

lemma sample_unmarked: "h \<in> {4100, 4116, 4132, 4148} \<Longrightarrow> \<not> marked_word (sample_memory h)"
  by (auto simp: sample_memory_def marked_word_def)

lemma sample_graph_ok: "graph_ok sample_walk sample_heap"
proof -
  have rd: "walk_reads sample_walk sample_memory p = {p, 100, p + 4}" if "p \<in> {4104, 4120, 4136}" for p
    unfolding walk_reads_def sample_walks [OF that] using that by (auto simp: sample_walk_def sample_at)
  have rf: "refs sample_walk sample_memory p \<subseteq> {4120, 4104}" if "p \<in> {4104, 4120, 4136}" for p
    unfolding refs_def sample_walks [OF that] using that by (auto simp: sample_at)
  have "walk_reads sample_walk sample_memory p \<inter> HEADER ` {4104, 4120, 4136} = {} \<and> (\<forall>v\<in>refs sample_walk sample_memory p. ref_ok sample_heap v)"
    if p: "p \<in> {4104, 4120, 4136}" for p
    unfolding rd [OF p] ref_ok_def sample_objects using p rf [OF p] by (auto simp: HEADER_def GC_HEAD_def)
  then show ?thesis unfolding graph_ok_def sample_objects sample_fields using sample_heap_ok by blast
qed

lemma sample_no_marks: "no_marks sample_heap"
  unfolding no_marks_def sample_objects sample_fields marked_def by (auto simp: sample_headers HEADER_def GC_HEAD_def sample_unmarked)

lemma sample_roots_ok: "roots_ok sample_roots sample_heap"
  unfolding roots_ok_def ref_ok_def sample_objects
  by (simp add: sample_roots_def sample_fields class_slots_def gc_walk_class_def stack_slots_def HEADER_def GC_HEAD_def sample_at upt_rec)

lemma sample_finals_ok: "finals_ok sample_heap"
  unfolding finals_ok_def ref_ok_def sample_objects by (simp add: sample_fields)

lemmas sample_ok = sample_graph_ok sample_no_marks sample_roots_ok sample_finals_ok

section \<open>Properties\<close>

text \<open>
  C31. The mark phase returns, changes nothing but mark bits, and marks exactly the objects reachable from the roots and from the
  objects whose finalizers are due, even when the mark stack overflows. If the set of live objects was collected, the mark
  stack has each of them once; otherwise it is empty.
\<close>
theorem mark_phase_marks_reachable:
  assumes "graph_ok ct s" "no_marks s" "roots_ok r s" "finals_ok s" "4 \<le> length (mark_stack s)"
  shows "\<exists>s'. mark_phase ct r sz s = Some (Inr s') \<and> base s s' \<and>
    {p \<in> gc_objects s. marked (mem s') p} = reach ct s (root_objects r s \<union> snd ` set (do_final s')) \<and>
    (mark_state s' = MARK_STATE_COLLECT \<and> distinct (entries s') \<and> set (entries s') = {p \<in> gc_objects s. marked (mem s') p} \<or>
     mark_state s' = MARK_STATE_NORMAL \<and> mark_top s' = - 1)"
  using mark_phase_effect [OF assms] by blast

theorem mark_phase_marks_reachable_witness:
  "\<exists>s'. mark_phase sample_walk sample_roots 4096 sample_heap = Some (Inr s') \<and> base sample_heap s' \<and>
    {p \<in> gc_objects sample_heap. marked (mem s') p} = reach sample_walk sample_heap (root_objects sample_roots sample_heap \<union> snd ` set (do_final s')) \<and>
    (mark_state s' = MARK_STATE_COLLECT \<and> distinct (entries s') \<and> set (entries s') = {p \<in> gc_objects sample_heap. marked (mem s') p} \<or>
     mark_state s' = MARK_STATE_NORMAL \<and> mark_top s' = - 1)"
  by (rule mark_phase_marks_reachable [OF sample_ok]) (simp add: sample_fields)

text \<open>
  C32. Finalizers never become due: \<open>walk_finals\<close> tests the header of the list node, which is fixed memory and so always
  marked, instead of the header of the object. An object with a finalizer that is not otherwise reachable stays unmarked while its node stays in
  \<open>has_final\<close>, so it is swept and the node dangles.
\<close>
theorem finalizers_never_due:
  assumes "graph_ok ct s" "no_marks s" "roots_ok r s" "finals_ok s" "4 \<le> length (mark_stack s)"
    and nodes: "\<forall>n\<in>set (has_final s). marked (mem s) (fst n)"
  shows "\<exists>s'. mark_phase ct r sz s = Some (Inr s') \<and> do_final s' = do_final s \<and> set (has_final s') = set (has_final s) \<and>
    (\<forall>n\<in>set (has_final s). snd n \<in> gc_objects s - reach ct s (root_objects r s \<union> snd ` set (do_final s)) \<longrightarrow> \<not> marked (mem s') (snd n))"
proof -
  obtain s' m where s': "mark_phase ct r sz s = Some (Inr s')" "only_marks (gc_objects s) (mem s) m" "split_finals m (has_final s) [] (do_final s) = (has_final s', do_final s')"
    "{p \<in> gc_objects s. marked (mem s') p} = reach ct s (root_objects r s \<union> snd ` set (do_final s'))"
    using mark_phase_effect [OF assms(1-5)] by blast
  have "\<forall>n\<in>set (has_final s). marked m (fst n)" using nodes only_marks_marked [OF s'(2)] by blast
  then have f: "filter (\<lambda>n. marked m (fst n)) (has_final s) = has_final s" "filter (\<lambda>n. \<not> marked m (fst n)) (has_final s) = []" by (simp_all add: filter_id_conv filter_empty_conv)
  then have d: "do_final s' = do_final s" "has_final s' = rev (has_final s)" using s'(3) by (simp_all add: split_finals_alt)
  then show ?thesis using s'(1,4) by auto
qed

theorem finalizers_never_due_witness:
  "\<exists>s'. mark_phase sample_walk sample_roots 4096 sample_heap = Some (Inr s') \<and> do_final s' = [] \<and> set (has_final s') = {(304, 4136)} \<and> \<not> marked (mem s') 4136"
proof -
  let ?X = "root_objects sample_roots sample_heap"
  have X: "p \<noteq> 4136" if "p \<in> ?X" for p
    using that unfolding root_objects_def root_values_def
    by (auto simp: sample_roots_def sample_fields class_slots_def gc_walk_class_def stack_slots_def sample_at upt_rec)
  have "p \<noteq> 4136" if "p \<in> reach sample_walk sample_heap ?X" for p
    using that
  proof (induction rule: reach.induct)
    case (reach_step p v)
    then have "p \<in> {4104, 4120}" using reach_objects [of p] sample_objects by blast
    then show ?case using reach_step.hyps(2) unfolding refs_def sample_fields by (auto simp: sample_walks sample_at)
  qed (use X in blast)
  then have "4136 \<notin> reach sample_walk sample_heap ?X" by blast
  then have n: "4136 \<in> gc_objects sample_heap - reach sample_walk sample_heap (?X \<union> snd ` set (do_final sample_heap))" by (simp add: sample_objects sample_fields)
  have nodes: "\<forall>n\<in>set (has_final sample_heap). marked (mem sample_heap) (fst n)"
    by (simp add: sample_fields marked_def marked_word_def HEADER_def GC_HEAD_def sample_memory_def)
  have "4 \<le> length (mark_stack sample_heap)" by (simp add: sample_fields)
  from finalizers_never_due [OF sample_ok this nodes, of 4096] n show ?thesis unfolding sample_fields by auto
qed

text \<open>
  C33. The conservative test for object addresses is exact on a well-formed heap: it returns for every word, and answers yes
  exactly for the addresses of the objects.
\<close>
theorem is_object_exact:
  assumes "heap_ok s"
  shows "is_object s p = Some (Inr (p \<in> gc_objects s))"
  by (rule is_object_correct [OF assms])

theorem is_object_exact_witness:
  "is_object sample_heap 4120 = Some (Inr True) \<and> is_object sample_heap 4124 = Some (Inr False) \<and> is_object sample_heap 4152 = Some (Inr False)"
  using is_object_exact [OF sample_heap_ok, of 4120] is_object_exact [OF sample_heap_ok, of 4124] is_object_exact [OF sample_heap_ok, of 4152]
  by (simp add: sample_objects)

end
