(* ===== verification/GC_Cycle.thy ===== *)
theory GC_Cycle
  imports GC_Regions GC_Large GC_Trace
begin

text \<open>
  One collection from end to end (\<^verbatim>\<open>gc_main\<close>, \<^verbatim>\<open>sweep_phase\<close> of \<^verbatim>\<open>runtime/gc.c\<close>): the mark phase of \<open>GC_Trace\<close>, the sweep of the
  small object area of \<open>GC_Reclaim\<close> and the sweep of the large objects of \<open>GC_Large\<close> are put together. \<open>heap_state\<close> is the state at the beginning
  of a collection, and a collection leads from one such state to the next.
\<close>

section \<open>The memory of the small object area\<close>

definition small_memory :: "gcs \<Rightarrow> nat set" where
  "small_memory s = (\<Union>r\<in>set (small_regions s). {rstart r..<rend r})"

lemma chunk_headers_cong:
  "\<forall>a. h \<le> a \<longrightarrow> a < b \<longrightarrow> m' a = m a \<Longrightarrow> chunk_headers m' h b = chunk_headers m h b \<and> block_ok m' h b = block_ok m h b"
proof (induction "b - h" arbitrary: h rule: less_induct)
  case less
  show ?case
  proof (cases "h < b \<and> size_word (m h) \<noteq> 0")
    case True
    then have "b - (h + size_word (m h)) < b - h" by linarith
    from less(1) [OF this] True less(2) show ?thesis
      by (subst (1 2) chunk_headers.simps, subst (1 2) block_ok.simps) simp
  next
    case False
    then show ?thesis using less(2) by (subst (1 2) chunk_headers.simps, subst (1 2) block_ok.simps) auto
  qed
qed

lemma block_inside:
  assumes "region_aligned r" "pos < region_blocks r"
  shows "rstart r \<le> first_header r pos" "last_header r pos < rend r"
proof -
  have "rstart r + pos * 4096 + 4096 \<le> rend r" using mult_le_mono1 [of "Suc pos" "region_blocks r" 4096] assms(2) region_blocks_end(1) [OF assms(1)] by simp
  then show "rstart r \<le> first_header r pos" "last_header r pos < rend r" by (simp_all add: first_header_def last_header_def gc_consts)
qed

text \<open>Two heaps with the same small object area.\<close>

definition same_area :: "gcs \<Rightarrow> gcs \<Rightarrow> bool" where
  "same_area s s' \<longleftrightarrow> regions s' = regions s \<and> small_regions s' = small_regions s \<and> usage s' = usage s \<and> (\<forall>a\<in>small_memory s. mem s' a = mem s a)"

lemma same_area_headers:
  assumes "same_area s s'" "r \<in> set (small_regions s)" "region_aligned r"
  shows "region_headers s' r = region_headers s r" "pos < region_blocks r \<Longrightarrow> block_ok (mem s') (first_header r pos) (last_header r pos) = block_ok (mem s) (first_header r pos) (last_header r pos)"
    "used_blocks s' r = used_blocks s r"
proof -
  have c: "chunk_headers (mem s') (first_header r pos) (last_header r pos) = chunk_headers (mem s) (first_header r pos) (last_header r pos) \<and>
    block_ok (mem s') (first_header r pos) (last_header r pos) = block_ok (mem s) (first_header r pos) (last_header r pos)" if "pos < region_blocks r" for pos
  proof (rule chunk_headers_cong, intro allI impI)
    fix a assume "first_header r pos \<le> a" "a < last_header r pos"
    then have "a \<in> small_memory s" using block_inside [OF assms(3) that] assms(2) by (auto simp: small_memory_def intro!: bexI [of _ r])
    then show "mem s' a = mem s a" using assms(1) by (simp add: same_area_def)
  qed
  show ub: "used_blocks s' r = used_blocks s r" using assms(1) by (simp add: same_area_def used_blocks_def)
  have "\<forall>pos\<in>set (used_blocks s r). pos < region_blocks r" by (simp add: used_blocks_def)
  then show "region_headers s' r = region_headers s r" using c unfolding region_headers_def ub by (auto intro!: arg_cong [of _ _ concat])
  show "pos < region_blocks r \<Longrightarrow> block_ok (mem s') (first_header r pos) (last_header r pos) = block_ok (mem s) (first_header r pos) (last_header r pos)" using c by blast
qed

lemma region_headers_small:
  assumes "heap_ok s" "area_ok s" "r \<in> set (small_regions s)" "h \<in> set (region_headers s r)"
  shows "h \<in> small_memory s" "h mod 8 = 4"
proof -
  have ra: "region_aligned r" using assms(2,3) by (simp add: area_ok_def regions_sorted_def)
  obtain pos where pos: "pos < region_blocks r" "h \<in> set (chunk_headers (mem s) (first_header r pos) (last_header r pos))"
    using assms(4) by (auto simp: region_headers_def used_blocks_def)
  note cb = chunk_headers_bounds [OF pos(2)]
  then show "h \<in> small_memory s" using block_inside [OF ra pos(1)] assms(3) by (auto simp: small_memory_def intro!: bexI [of _ r])
  obtain A where A: "rstart r = A * 4096" using ra unfolding region_aligned_def by (metis div_mult_mod_eq add_0_right)
  have "first_header r pos = (A + pos) * 4096 + 4" using A by (simp add: first_header_def gc_consts)
  then have "first_header r pos mod 8 = 4" using mod8_block(2) [of "A + pos"] by simp
  then show "h mod 8 = 4" using cb by simp
qed

lemma same_area_ok:
  assumes sa: "same_area s s'" and h: "heap_ok s" and a: "area_ok s"
    and lo: "\<forall>i<LARGE_SET_SIZE. set (large_objects s' i) \<subseteq> set (large_objects s i)"
  shows "heap_ok s'" "area_ok s'" "small_objects s' = small_objects s"
proof -
  have e: "regions s' = regions s" "small_regions s' = small_regions s" "usage s' = usage s" using sa by (simp_all add: same_area_def)
  have ra: "\<forall>r\<in>set (small_regions s). region_aligned r" using a by (simp add: area_ok_def regions_sorted_def)
  have rh: "region_headers s' r = region_headers s r" "used_blocks s' r = used_blocks s r" if "r \<in> set (small_regions s)" for r
    using same_area_headers [OF sa that] ra that by blast+
  have mh: "mem s' x = mem s x" if "r \<in> set (small_regions s)" "x \<in> set (region_headers s r)" for r x
    using region_headers_small(1) [OF h a that] sa by (simp add: same_area_def)
  have "block_ok (mem s') (first_header r pos) (last_header r pos)" if "r \<in> set (small_regions s)" "pos \<in> set (used_blocks s r)" for r pos
  proof -
    have "pos < region_blocks r" "block_ok (mem s) (first_header r pos) (last_header r pos)" using that h by (auto simp: used_blocks_def heap_ok_def)
    then show ?thesis using same_area_headers(2) [OF sa that(1)] ra that(1) by blast
  qed
  moreover have "large_set_hash p mod LARGE_SET_SIZE = i \<and> p mod MEMALIGN = 0 \<and> 0 < p \<and> (\<exists>r\<in>set (regions s). rtype r = GC_REGION_LARGE \<and> rstart r \<le> p \<and> p < rend r)"
    if "i < LARGE_SET_SIZE" "p \<in> set (large_objects s' i)" for i p using that lo h unfolding heap_ok_def by blast
  ultimately show "heap_ok s'" using h rh(2) unfolding heap_ok_def e by auto
  have "large_set s' \<subseteq> large_set s" using lo by (auto simp: large_set_def)
  then show "area_ok s'" using a rh(1) mh unfolding area_ok_def e by auto
  show "small_objects s' = small_objects s" unfolding small_objects_def e using rh(1) mh by auto
qed

lemma live_disjoint: "live_ok m g L e \<Longrightarrow> x \<in> set L \<Longrightarrow> y \<in> set L \<Longrightarrow> x < y \<Longrightarrow> x + size_word (m x) \<le> y"
proof (induction L arbitrary: g)
  case (Cons h L)
  then have l: "live_ok m (h + size_word (m h)) L e" by simp
  show ?case
  proof (cases "x = h")
    case True
    then have "y \<in> set L" using Cons.prems(3,4) by auto
    then show ?thesis using live_ok_bound [OF l] True by auto
  next
    case False
    then have "x \<in> set L" using Cons.prems(2) by simp
    moreover have "h < x" using live_ok_bound [OF l \<open>x \<in> set L\<close>] in_blockD(4) [of m h] Cons.prems(1) by auto
    ultimately show ?thesis using Cons.IH [OF l] Cons.prems(3,4) by auto
  qed
qed simp

lemma swept_outside:
  assumes h: "heap_ok s" and a: "area_ok s" and x: "x \<notin> small_memory s"
  shows "swept_by s x = mem s x"
proof -
  let ?rs = "small_regions s"
  have so: "regions_sorted ?rs" and lo: "\<forall>r\<in>set ?rs. live_ok (mem s) (region_first r) (lives s r) (rend r)" using a lives_ok [OF h a] by (auto simp: area_ok_def)
  have out: "\<not> (rstart r \<le> x \<and> x < rend r)" if "r \<in> set ?rs" for r using x that by (auto simp: small_memory_def)
  have "x \<notin> keys (all_chunks (mem s) (lives s) ?rs)" "x \<notin> keys (all_blocks (mem s) (lives s) ?rs)" using all_chunks_facts(3,4) [OF so lo] out by blast+
  moreover have "x \<notin> set (all_live (lives s) ?rs)"
  proof
    assume "x \<in> set (all_live (lives s) ?rs)"
    then obtain r where r: "r \<in> set ?rs" "x \<in> set (lives s r)" by (auto simp: all_live_def)
    then show False using region_headers_small(1) [OF h a r(1)] region_live_set x by auto
  qed
  ultimately show ?thesis by (simp add: swept_by_def swept_memory_other Let_def)
qed

section \<open>The heap between collections\<close>

definition large_ok :: "gcs \<Rightarrow> gc_heap \<Rightarrow> arena list \<Rightarrow> bool" where
  "large_ok s h As \<longleftrightarrow> heap_inv (mem s) h As \<and> (\<forall>i<LARGE_SET_SIZE. distinct (large_objects s i) \<and> (\<forall>p\<in>set (large_objects s i). \<exists>n. (p, n) \<in> useds As)) \<and>
     reserved As \<inter> small_memory s = {}"

text \<open>The state of the heap at the beginning of a collection, after the preparation: no object is marked.\<close>

definition heap_state :: "gcheap \<Rightarrow> arena list \<Rightarrow> bool" where
  "heap_state g As \<longleftrightarrow> heap_ok (core g) \<and> area_ok (core g) \<and> no_marks (core g) \<and> (\<forall>r\<in>set (small_regions (core g)). full_region r) \<and> large_ok (core g) (large_heap g) As"

lemma large_ok_object:
  assumes "large_ok s h As" "p \<in> large_set s"
  shows "\<exists>n. (p, n) \<in> useds As"
  using assms by (auto simp: large_ok_def large_set_def)

lemma large_header:
  assumes "large_ok s h As" "p \<in> large_set s"
  shows "HEADER p \<in> reserved As" "HEADER p \<notin> small_memory s" "16 dvd p" "16 \<le> p"
proof -
  obtain n where n: "(p, n) \<in> useds As" using large_ok_object [OF assms] by blast
  have inv: "heap_inv (mem s) h As" "reserved As \<inter> small_memory s = {}" using assms(1) by (simp_all add: large_ok_def)
  show "16 dvd p" "16 \<le> p" "HEADER p \<in> reserved As" using used_facts [OF inv(1) n] by blast+
  then show "HEADER p \<notin> small_memory s" using inv(2) by blast
qed

lemma small_header:
  assumes "heap_ok s" "area_ok s" "p \<in> small_objects s"
  shows "\<exists>r\<in>set (small_regions s). HEADER p \<in> set (region_headers s r) \<and> p = HEADER p + GC_HEAD" "HEADER p \<in> small_memory s"
proof -
  obtain r x where x: "r \<in> set (small_regions s)" "x \<in> set (region_headers s r)" "p = x + GC_HEAD" using assms(3) by (auto simp: small_objects_def)
  then show "\<exists>r\<in>set (small_regions s). HEADER p \<in> set (region_headers s r) \<and> p = HEADER p + GC_HEAD" by auto
  show "HEADER p \<in> small_memory s" using region_headers_small(1) [OF assms(1,2) x(1,2)] x(3) by simp
qed

section \<open>From marking to sweeping\<close>

lemma base_headers:
  assumes "base s s'"
  shows "region_headers s' r = region_headers s r" "small_memory s' = small_memory s"
proof -
  have om: "only_marks (gc_objects s) (mem s) (mem s')" and e: "usage s' = usage s" "small_regions s' = small_regions s" using assms unfolding base_def by blast+
  show "region_headers s' r = region_headers s r" using e(1) chunk_headers_base [OF om] by (simp add: used_blocks_def region_headers_def)
  show "small_memory s' = small_memory s" by (simp add: small_memory_def e(2))
qed

lemma base_area_ok:
  assumes b: "base s s'" and h: "heap_ok s" and a: "area_ok s" and nm: "no_marks s" and lo: "large_ok s hp As"
  shows "area_ok s'"
proof -
  have om: "only_marks (gc_objects s) (mem s) (mem s')" and e: "regions s' = regions s" "small_regions s' = small_regions s" "large_set s' = large_set s"
    using b unfolding base_def large_set_def by auto
  have "\<not> marked_word (mem s' x)" if x: "r \<in> set (small_regions s)" "x \<in> set (region_headers s r)" "free_word (mem s' x)" for r x
  proof -
    have um: "\<not> marked_word (mem s x)" using nm x(1,2) by (simp add: no_marks_def)
    have fr: "free_word (mem s x)" using x(3) only_marks_words(1) [OF om] by blast
    have "x \<noteq> HEADER q" if q: "q \<in> gc_objects s" for q
    proof
      assume xq: "x = HEADER q"
      from q consider "q \<in> small_objects s" | "q \<in> large_set s" by (auto simp: gc_objects_def)
      then show False
      proof cases
        case 1
        then obtain r' y where y: "y \<in> set (region_headers s r')" "\<not> free_word (mem s y)" "q = y + GC_HEAD" by (auto simp: small_objects_def)
        then show False using fr xq by simp
      next
        case 2
        then show False using large_header(2) [OF lo] region_headers_small(1) [OF h a x(1,2)] xq by blast
      qed
    qed
    then have "mem s' x = mem s x" using only_marks_other [OF om] by blast
    then show ?thesis using um by simp
  qed
  then show ?thesis using a unfolding area_ok_def e base_headers(1) [OF b] by blast
qed

lemma swept_state_mem: "swept_state s w \<Longrightarrow> swept_mem w = swept_by s"
  by (simp add: swept_state_def swept_by_def Let_def)

lemma sweep_small_ok:
  assumes h: "heap_ok s" and a: "area_ok s"
    and c: "mark_state s = MARK_STATE_COLLECT \<longrightarrow> collected s (nat (mark_top s + 1)) \<and> 2 * (nat (mark_top s + 1) + 2) \<le> length (mark_stack s)"
  shows "\<exists>w stack. sweep_small s = Some (Inr (w, s\<lparr>mem := swept_by s, mark_stack := stack\<rparr>)) \<and> swept_state s w"
proof (cases "mark_state s = MARK_STATE_COLLECT")
  case True
  then obtain w stack where "sweep_small_selective (small_regions s) (mem s) (mark_stack s) (nat (mark_top s + 1)) = Inr (w, stack)" "swept_state s w"
    using sweep_small_selective_rel [OF h a] c by blast
  then show ?thesis using True swept_state_mem [of s w] by (auto simp: sweep_small_def Let_def)
next
  case False
  obtain w where "sweep_small_normal (small_regions s) (usage s) (mem s) = Some (Inr w)" "swept_state s w" using sweep_small_normal_rel [OF h a] by blast
  then show ?thesis using False swept_state_mem [of s w] by (intro exI [of _ w] exI [of _ "mark_stack s"], cases "mark_state s") (simp_all add: sweep_small_def Let_def)
qed

lemma marked_tags:
  assumes b: "base s s'" and h: "heap_ok s" and a: "area_ok s" and lo: "large_ok s hp As" and a': "area_ok s'" "heap_ok s'"
  shows "same_tags As (mem s) (swept_by s')"
  unfolding same_tags_def
proof
  fix x assume x: "x \<in> reserved As"
  have om: "only_marks (gc_objects s) (mem s) (mem s')" using b unfolding base_def by blast
  have ns: "x \<notin> small_memory s" using lo x by (auto simp: large_ok_def)
  then have sw: "swept_by s' x = mem s' x" using swept_outside [OF a'(2,1)] base_headers(2) [OF b] by simp
  show "swept_by s' x = mem s x \<or> (\<exists>p. 16 dvd p \<and> 16 \<le> p \<and> x = HEADER p \<and> size_word (swept_by s' x) = size_word (mem s x) \<and> prev_word (swept_by s' x) = prev_word (mem s x))"
  proof (cases "mem s' x = mem s x")
    case False
    then obtain p where p: "p \<in> gc_objects s" "x = HEADER p" "mem s' x = set_bit 0 (mem s x)" using om unfolding only_marks_def by blast
    have "p \<notin> small_objects s" using small_header(2) [OF h a, of p] ns p(2) by blast
    then have "p \<in> large_set s" using p(1) by (simp add: gc_objects_def)
    then show ?thesis using large_header(3,4) [OF lo] p(2,3) sw by auto
  qed (simp add: sw)
qed

section \<open>A collection\<close>

lemma large_chains:
  assumes h: "heap_ok s" and lo: "large_ok s hp As"
  shows "\<forall>i\<in>set [0..<LARGE_SET_SIZE]. distinct (large_objects s i) \<and> (\<forall>p\<in>set (large_objects s i). \<exists>n. (p, n) \<in> useds As)"
    "\<forall>i\<in>set [0..<LARGE_SET_SIZE]. \<forall>j\<in>set [0..<LARGE_SET_SIZE]. i \<noteq> j \<longrightarrow> set (large_objects s i) \<inter> set (large_objects s j) = {}"
    "(\<Union>i\<in>set [0..<LARGE_SET_SIZE]. set (large_objects s i)) = large_set s"
proof -
  show "\<forall>i\<in>set [0..<LARGE_SET_SIZE]. distinct (large_objects s i) \<and> (\<forall>p\<in>set (large_objects s i). \<exists>n. (p, n) \<in> useds As)" using lo by (simp add: large_ok_def)
  have hs: "large_set_hash p mod LARGE_SET_SIZE = i" if "i < LARGE_SET_SIZE" "p \<in> set (large_objects s i)" for i p using h that unfolding heap_ok_def by blast
  show "\<forall>i\<in>set [0..<LARGE_SET_SIZE]. \<forall>j\<in>set [0..<LARGE_SET_SIZE]. i \<noteq> j \<longrightarrow> set (large_objects s i) \<inter> set (large_objects s j) = {}"
  proof (intro ballI impI)
    fix i j assume ij: "i \<in> set [0..<LARGE_SET_SIZE]" "j \<in> set [0..<LARGE_SET_SIZE]" "i \<noteq> j"
    then show "set (large_objects s i) \<inter> set (large_objects s j) = {}" using hs [of i] hs [of j] by force
  qed
  show "(\<Union>i\<in>set [0..<LARGE_SET_SIZE]. set (large_objects s i)) = large_set s" by (auto simp: large_set_def)
qed

text \<open>
  The state after a sweep, with the memory \<open>m\<close> and the large objects that survived; \<open>s\<close> is the heap with its marks. The small area is
  that of \<open>next_heap\<close>, the rest that of the manual memory manager.
\<close>

definition swept_heap :: "gcs \<Rightarrow> memory \<Rightarrow> (nat \<Rightarrow> nat list) \<Rightarrow> (nat \<Rightarrow> uint32 list) \<Rightarrow> gcs \<Rightarrow> bool" where
  "swept_heap s m tab us s' \<longleftrightarrow> mem s' = m \<and> large_objects s' = tab \<and> usage s' = us \<and> regions s' = regions s \<and> small_regions s' = small_regions s"

lemma swept_heap_area:
  assumes s': "swept_heap s m tab us s'" and m: "\<forall>a\<in>small_memory s. m a = swept_by s a"
  shows "same_area (next_heap s us) s'" "small_memory s' = small_memory s" "small_memory (next_heap s us) = small_memory s"
  using assms by (auto simp: swept_heap_def same_area_def small_memory_def)

lemma swept_heap_ok:
  assumes h: "heap_ok s" and a: "area_ok s" and t: "tables_match s us" and s': "swept_heap s m tab us s'" and m: "\<forall>a\<in>small_memory s. m a = swept_by s a"
    and tab: "tab = (\<lambda>i. if i < LARGE_SET_SIZE then filter (marked (swept_by s)) (large_objects s i) else large_objects s i)"
    and lo: "large_ok s hp As"
  shows "heap_ok s'" "area_ok s'" "gc_objects s' = live_objects s" "large_set s' = {p \<in> large_set s. marked (mem s) p}"
proof -
  note sa = swept_heap_area [OF s' m]
  have "\<forall>i<LARGE_SET_SIZE. set (large_objects s' i) \<subseteq> set (large_objects (next_heap s us) i)" using s' tab by (auto simp: swept_heap_def)
  note ok = same_area_ok [OF sa(1) next_heap_ok [OF h a t] next_area_ok [OF h a t] this]
  show "heap_ok s'" "area_ok s'" by (rule ok(1), rule ok(2))
  have mk: "marked (swept_by s) p = marked (mem s) p" if "p \<in> large_set s" for p
    using swept_outside [OF h a large_header(2) [OF lo that]] by (simp add: marked_def)
  have "large_set s' = (\<Union>i<LARGE_SET_SIZE. {p \<in> set (large_objects s i). marked (swept_by s) p})" using s' tab by (auto simp: large_set_def swept_heap_def)
  also have "\<dots> = {p \<in> large_set s. marked (swept_by s) p}" by (auto simp: large_set_def)
  also have "\<dots> = {p \<in> large_set s. marked (mem s) p}" using mk by blast
  finally show ls: "large_set s' = {p \<in> large_set s. marked (mem s) p}" .
  show "gc_objects s' = live_objects s" unfolding gc_objects_def live_objects_def ok(3) next_small_objects [OF h a t] ls by blast
qed

lemma swept_heap_no_marks:
  assumes h: "heap_ok s" and a: "area_ok s" and t: "tables_match s us" and s': "swept_heap s m tab us s'" and m: "\<forall>a\<in>small_memory s. m a = swept_by s a"
    and lg: "\<forall>p\<in>large_set s'. \<not> marked m p" and a': "area_ok s'" "heap_ok s'"
  shows "no_marks s'"
proof -
  note sa = swept_heap_area [OF s' m]
  have sr: "small_regions s' = small_regions s" "mem s' = m" using s' by (simp_all add: swept_heap_def)
  have hd: "\<not> marked_word (m x)" if r: "r \<in> set (small_regions s)" and x: "x \<in> set (region_headers s' r)" for r x
  proof -
    have "region_aligned r" using lives_ok [OF h a r] by blast
    then have xn: "x \<in> set (region_headers (next_heap s us) r)" using same_area_headers(1) [OF sa(1)] r x by simp
    have "x \<in> small_memory s" using region_headers_small(1) [OF a'(2,1)] r x sr(1) sa(2) by simp
    then show ?thesis using next_header_words(1) [OF h a t r xn] m by simp
  qed
  have "\<not> marked m p" if "p \<in> gc_objects s'" for p
  proof (cases "p \<in> large_set s'")
    case False
    then have "p \<in> small_objects s'" using that by (simp add: gc_objects_def)
    then show ?thesis using small_header(1) [OF a'(2,1)] hd sr(1) by (auto simp: marked_def)
  qed (use lg in blast)
  then show ?thesis using hd unfolding no_marks_def sr by blast
qed

text \<open>Contents: a small survivor keeps its size and every word behind its header.\<close>

lemma payload_live:
  assumes h: "heap_ok s" and a: "area_ok s" and p: "p \<in> small_objects s" "marked (mem s) p" and x: "x \<in> payload p (SIZE (mem s) p)"
  shows "swept_by s x = mem s x" "x \<in> small_memory s" "\<forall>q\<in>live_objects s. q \<in> small_objects s \<longrightarrow> x \<noteq> HEADER q"
proof -
  obtain r where r: "r \<in> set (small_regions s)" "HEADER p \<in> set (region_headers s r)" "p = HEADER p + GC_HEAD" using small_header(1) [OF h a p(1)] by blast
  let ?h = "HEADER p"
  have hl: "?h \<in> set (lives s r)" using r(2) p(2) region_live_set by (simp add: marked_def)
  have lr: "live_ok (mem s) (region_first r) (lives s r) (rend r)" "region_aligned r" using lives_ok [OF h a r(1)] by blast+
  have xb: "?h < x" "x < ?h + size_word (mem s ?h)" using x r(3) unfolding payload_def SIZE_def by (auto simp: GC_HEAD_def)
  note lb = live_ok_bound [OF lr(1) hl]
  have "?h + size_word (mem s ?h) \<le> block_base ?h + 4092" using in_blockD(7) lb by blast
  moreover have "block_base ?h + 4096 \<le> rend r"
  proof -
    have "block_base ?h \<le> ?h" by (simp add: block_base_def)
    then have "block_base ?h < rend r" using lb by linarith
    moreover obtain B where B: "rend r = B * 4096" using lr(2) unfolding region_aligned_def by (metis div_mult_mod_eq add_0_right)
    ultimately show ?thesis unfolding B block_base_def gc_consts by auto
  qed
  ultimately have xr: "rstart r \<le> x" "x < rend r" using xb lb by (auto simp: region_first_def)
  then show "x \<in> small_memory s" using r(1) by (auto simp: small_memory_def intro!: bexI [of _ r])
  have nl: "x \<notin> set (lives s r')" if r': "r' \<in> set (small_regions s)" for r'
  proof
    assume xl: "x \<in> set (lives s r')"
    have "live_ok (mem s) (region_first r') (lives s r') (rend r')" using lives_ok [OF h a r'] by blast
    from live_ok_bound [OF this xl] have "rstart r' \<le> x" "x < rend r'" by (simp_all add: region_first_def)
    then have "r' = r" using in_one_region [OF _ r' r(1), of x] xr a by (auto simp: area_ok_def)
    then show False using live_disjoint [OF lr(1) hl _ xb(1)] xl xb(2) by auto
  qed
  then have "x \<notin> set (all_live (lives s) (small_regions s))" by (auto simp: all_live_def)
  then show "swept_by s x = mem s x" using swept_values(3) [OF h a r(1) hl xb] by blast
  show "\<forall>q\<in>live_objects s. q \<in> small_objects s \<longrightarrow> x \<noteq> HEADER q"
  proof (intro ballI impI)
    fix q assume q: "q \<in> live_objects s" "q \<in> small_objects s"
    obtain r' where "r' \<in> set (small_regions s)" "HEADER q \<in> set (region_headers s r')" using small_header(1) [OF h a q(2)] by blast
    then show "x \<noteq> HEADER q" using nl [of r'] region_live_set q(1) by (auto simp: live_objects_def marked_def)
  qed
qed

lemma prepare_swept:
  assumes h: "heap_ok s" and a: "area_ok s" and f: "\<forall>r\<in>set (small_regions s). full_region r" and w: "swept_state s w"
    and m: "\<forall>a\<in>small_memory s. m a = swept_by s a"
  shows "\<exists>us'. prepare_regions m (small_regions s) (small_blocks w) us = Inr us' \<and> tables_match s us'"
proof -
  let ?rs = "small_regions s" let ?bs = "all_blocks (mem s) (lives s) ?rs"
  have sb: "small_blocks w = map fst ?bs" using w by (simp add: swept_state_def Let_def)
  note ab = all_blocks_inv [OF h a f]
  have so: "regions_sorted ?rs" using a by (simp add: area_ok_def)
  have mb: "m b = swept_by s b" if b: "b \<in> set (map fst ?bs)" for b
  proof -
    obtain r where r: "r \<in> set ?rs" "run_ok (rstart r) (rend r) (b, swept_by s b)" using ab(2) b unfolding blocks_inv_def by blast
    then have "b \<in> small_memory s" by (auto simp: small_memory_def run_ok_def intro!: bexI [of _ r])
    then show ?thesis using m by blast
  qed
  have "runs m (map fst ?bs) = runs (swept_by s) (map fst ?bs)" unfolding runs_def by (rule map_cong [OF refl]) (simp only: mb)
  then have rn: "runs m (map fst ?bs) = ?bs" using ab(1) by (rule trans)
  have "blocks_inv m ?rs (map fst ?bs)"
  proof -
    have "blocks_inv m ?rs (map fst ?bs) = blocks_inv (swept_by s) ?rs (map fst ?bs)" unfolding blocks_inv_def rn ab(1) using mb by (simp cong: ball_cong)
    then show ?thesis using ab(2) by blast
  qed
  from prepare_regions_ok [OF so f this, of us]
  obtain us' where us': "prepare_regions m ?rs (map fst ?bs) us = Inr us'" "\<forall>r\<in>set ?rs. \<forall>q<512. block_used (us' (rstart r)) q \<longleftrightarrow> \<not> covered ?bs (rstart r + q * 4096)"
    unfolding rn by blast
  have "region_blocks r = 512" if "r \<in> set ?rs" for r
  proof -
    have "region_aligned r" "full_region r" using lives_ok [OF h a that] f that by blast+
    then show ?thesis using region_blocks_end(1) [of r] by (simp add: full_region_def gc_consts)
  qed
  then have "tables_match s us'" using us'(2) ab(3) by (auto simp: tables_match_def)
  then show ?thesis using us'(1) sb by auto
qed

text \<open>The contents of the objects that survive.\<close>

lemma unmarked_words:
  assumes b: "base c c2" and go: "gc_objects c2 = gc_objects c" and x: "\<forall>q\<in>live_objects c2. x \<noteq> HEADER q"
  shows "mem c2 x = mem c x"
proof (rule ccontr)
  assume "mem c2 x \<noteq> mem c x"
  moreover have "only_marks (gc_objects c) (mem c) (mem c2)" using b unfolding base_def by blast
  ultimately obtain q where q: "q \<in> gc_objects c" "x = HEADER q" "mem c2 x = set_bit 0 (mem c x)" unfolding only_marks_def by blast
  then have "q \<in> live_objects c2" by (simp add: live_objects_def go marked_def)
  then show False using x q(2) by blast
qed

lemma base_SIZE: "base c c2 \<Longrightarrow> SIZE (mem c2) q = SIZE (mem c) q"
  using only_marks_words(2) unfolding base_def SIZE_def by blast

lemma survivor_large:
  assumes b: "base c c2" and h2: "heap_ok c2" and a2: "area_ok c2" and go: "gc_objects c2 = gc_objects c" and lo2: "large_ok c2 hp0 As"
    and sl: "swept_lumps (large_set c2) (swept_by c2) As m hp As'" and n: "(p, n) \<in> useds As'" "(p, n) \<in> useds As"
  shows "SIZE m p = SIZE (mem c) p \<and> (\<forall>a\<in>payload p (SIZE (mem c) p). m a = mem c a)"
proof -
  have inv2: "heap_inv (mem c2) hp0 As" using lo2 by (simp add: large_ok_def)
  have s1: "SIZE m p = n" "SIZE (mem c2) p = n" using used_place(3) [OF _ n(1)] used_place(3) [OF inv2 n(2)] sl unfolding swept_lumps_def by blast+
  have "m x = mem c x" if x: "x \<in> payload p n" for x
  proof -
    have "x \<in> reserved As" using used_facts(2,3) [OF inv2 n(2)] payload_subset_area [of p n] x by blast
    then have ns: "x \<notin> small_memory c2" using lo2 by (auto simp: large_ok_def)
    have "x \<noteq> HEADER q" if q: "q \<in> live_objects c2" for q
    proof (cases "q \<in> large_set c2")
      case True
      then obtain k where "(q, k) \<in> useds As" using large_ok_object [OF lo2] by blast
      then show ?thesis using payload_not_header [OF inv2 n(2)] x by blast
    next
      case False
      then have "q \<in> small_objects c2" using q by (simp add: live_objects_def gc_objects_def)
      then show ?thesis using small_header(2) [OF h2 a2] ns by blast
    qed
    then have "mem c2 x = mem c x" using unmarked_words [OF b go] by blast
    moreover have "m x = swept_by c2 x" using sl n(1) x unfolding swept_lumps_def by fastforce
    ultimately show ?thesis using swept_outside [OF h2 a2 ns] by simp
  qed
  then show ?thesis using s1 base_SIZE [OF b] by simp
qed

lemma survivor_small:
  assumes b: "base c c2" and h2: "heap_ok c2" and a2: "area_ok c2" and go: "gc_objects c2 = gc_objects c" and lo2: "large_ok c2 hp0 As"
    and ms: "\<forall>x\<in>small_memory c2. m x = swept_by c2 x" and sp: "p \<in> small_objects c2" "marked (mem c2) p"
  shows "SIZE m p = SIZE (mem c) p \<and> (\<forall>a\<in>payload p (SIZE (mem c) p). m a = mem c a)"
proof -
  note pv = payload_live [OF h2 a2 sp]
  have hm: "HEADER p \<in> small_memory c2" by (rule small_header(2) [OF h2 a2 sp(1)])
  have "SIZE m p = SIZE (mem c2) p"
  proof -
    obtain r where r: "r \<in> set (small_regions c2)" "HEADER p \<in> set (region_headers c2 r)" using small_header(1) [OF h2 a2 sp(1)] by blast
    then have "HEADER p \<in> set (lives c2 r)" using sp(2) region_live_set by (simp add: marked_def)
    then have "swept_by c2 (HEADER p) = unset_bit 0 (mem c2 (HEADER p))" by (rule swept_values(2) [OF h2 a2 r(1)])
    then show ?thesis using ms hm by (simp add: SIZE_def)
  qed
  moreover have "m x = mem c x" if x: "x \<in> payload p (SIZE (mem c2) p)" for x
  proof -
    have "x \<noteq> HEADER q" if q: "q \<in> live_objects c2" for q
    proof (cases "q \<in> large_set c2")
      case True
      then show ?thesis using large_header(2) [OF lo2] pv(2) [OF x] by blast
    next
      case False
      then show ?thesis using pv(3) [OF x] q by (auto simp: live_objects_def gc_objects_def)
    qed
    then have "mem c2 x = mem c x" using unmarked_words [OF b go] by blast
    then show ?thesis using ms pv(1,2) [OF x] by simp
  qed
  ultimately show ?thesis using base_SIZE [OF b] by simp
qed

lemma marked_large_ok:
  assumes b: "base c c2" and h: "heap_ok c" and a: "area_ok c" and lo: "large_ok c hp As" and a2: "area_ok c2" and h2: "heap_ok c2"
  shows "large_ok c2 hp As" "heap_inv (swept_by c2) hp As"
proof -
  have sm: "small_memory c2 = small_memory c" by (rule base_headers(2) [OF b])
  have tg: "same_tags As (mem c) (swept_by c2)" by (rule marked_tags [OF b h a lo a2 h2])
  show "heap_inv (swept_by c2) hp As" using heap_inv_same_tags [OF _ tg] lo by (simp add: large_ok_def)
  have "swept_by c2 x = mem c2 x" if "x \<in> reserved As" for x using swept_outside [OF h2 a2, of x] that lo sm by (auto simp: large_ok_def)
  then have "same_tags As (mem c) (mem c2)" using tg by (simp add: same_tags_def)
  then have "heap_inv (mem c2) hp As" using heap_inv_same_tags lo by (auto simp: large_ok_def)
  moreover have "large_objects c2 = large_objects c" using b unfolding base_def by blast
  ultimately show "large_ok c2 hp As" using lo by (simp add: large_ok_def sm)
qed

text \<open>After the mark phase: the sweep, and the preparation of the next collection.\<close>

lemma sweep_phase_ok:
  assumes st: "heap_state g As" and c: "c = core g" and b: "base c c2" and sto: "stack_ok c2" and len: "length (mark_stack c2) = length (mark_stack c)"
    and ms: "mark_state c2 = MARK_STATE_COLLECT \<and> distinct (entries c2) \<and> set (entries c2) = {p \<in> gc_objects c. marked (mem c2) p} \<or> mark_state c2 = MARK_STATE_NORMAL \<and> mark_top c2 = - 1"
    and room: "2 * (card (gc_objects c) + 2) \<le> length (mark_stack c)"
  shows "\<exists>k g3 us As' c3. sweep_phase (g\<lparr>core := c2\<rparr>) = Some (Inr (k, g3)) \<and> prepare_regions (hmem g3) (small_regions (core g3)) (block_list g3) (usage (core g3)) = Inr us \<and>
    c3 = (core g3)\<lparr>usage := us\<rparr> \<and> heap_ok c3 \<and> area_ok c3 \<and> no_marks c3 \<and> (\<forall>r\<in>set (small_regions c3). full_region r) \<and> large_ok c3 (large_heap g3) As' \<and>
    gc_objects c3 = {p \<in> gc_objects c. marked (mem c2) p} \<and> (\<forall>p\<in>gc_objects c3. SIZE (mem c3) p = SIZE (mem c) p \<and> (\<forall>a\<in>payload p (SIZE (mem c) p). mem c3 a = mem c a)) \<and>
    small_cursor g3 = small_cursor g \<and> small_bound g3 = small_bound g \<and> do_final (core g3) = do_final c2"
proof -
  have h: "heap_ok c" and a: "area_ok c" and nm: "no_marks c" and fr: "\<forall>r\<in>set (small_regions c). full_region r" and lo: "large_ok c (large_heap g) As"
    using st unfolding heap_state_def c by blast+
  have om: "only_marks (gc_objects c) (mem c) (mem c2)" and e: "regions c2 = regions c" "small_regions c2 = small_regions c" "large_objects c2 = large_objects c" using b unfolding base_def by blast+
  have go: "gc_objects c2 = gc_objects c" and h2: "heap_ok c2" using objects_base [OF b h] by blast+
  have a2: "area_ok c2" by (rule base_area_ok [OF b h a nm lo])
  have lv: "live_objects c2 = {p \<in> gc_objects c. marked (mem c2) p}" unfolding live_objects_def go ..
  have coll: "mark_state c2 = MARK_STATE_COLLECT \<longrightarrow> collected c2 (nat (mark_top c2 + 1)) \<and> 2 * (nat (mark_top c2 + 1) + 2) \<le> length (mark_stack c2)"
  proof
    assume ct: "mark_state c2 = MARK_STATE_COLLECT"
    then have d: "distinct (entries c2)" "set (entries c2) = live_objects c2" using ms lv by auto
    have "int (length (entries c2)) = mark_top c2 + 1" by (rule entries_length [OF sto])
    then have "nat (mark_top c2 + 1) = card (live_objects c2)" using d distinct_card [of "entries c2"] by simp
    also have "\<dots> \<le> card (gc_objects c)" unfolding lv by (rule card_mono [OF finite_gc_objects]) auto
    finally show "collected c2 (nat (mark_top c2 + 1)) \<and> 2 * (nat (mark_top c2 + 1) + 2) \<le> length (mark_stack c2)"
      using d room len unfolding collected_def entries_def by simp
  qed
  obtain w stack where w: "sweep_small c2 = Some (Inr (w, c2\<lparr>mem := swept_by c2, mark_stack := stack\<rparr>))" "swept_state c2 w" using sweep_small_ok [OF h2 a2 coll] by blast
  note lo2 = marked_large_ok(1) [OF b h a lo a2 h2] and inv = marked_large_ok(2) [OF b h a lo a2 h2]
  note lc = large_chains [OF h2 lo2]
  obtain hp m As' where sl: "sweep_chains [0..<LARGE_SET_SIZE] (large_objects c2, large_heap g, swept_by c2) =
      Inr (\<lambda>i. if i \<in> set [0..<LARGE_SET_SIZE] then filter (marked (swept_by c2)) (large_objects c2 i) else large_objects c2 i, hp, m)" "swept_lumps (large_set c2) (swept_by c2) As m hp As'"
    using sweep_chains_ok [OF inv distinct_upt lc(1,2)] unfolding lc(3) by blast
  let ?tab = "\<lambda>i. if i < LARGE_SET_SIZE then filter (marked (swept_by c2)) (large_objects c2 i) else large_objects c2 i"
  let ?g3 = "g\<lparr>core := c2\<lparr>mem := m, mark_stack := stack, large_objects := ?tab\<rparr>, chunk_list := small_chunks w, block_list := small_blocks w, large_heap := hp\<rparr>"
  have sp: "sweep_phase (g\<lparr>core := c2\<rparr>) = Some (Inr (kept w, ?g3))"
    using w(1) sl(1) by (simp add: sweep_phase_def sweep_large_def hmem_def)
  have ms': "\<forall>x\<in>small_memory c2. m x = swept_by c2 x" using sl(2) lo2 unfolding swept_lumps_def large_ok_def by blast
  have fr2: "\<forall>r\<in>set (small_regions c2). full_region r" using fr e(2) by simp
  obtain us where us: "prepare_regions m (small_regions c2) (small_blocks w) (usage c2) = Inr us" "tables_match c2 us" using prepare_swept [OF h2 a2 fr2 w(2) ms'] by blast
  define c3 where "c3 = (core ?g3)\<lparr>usage := us\<rparr>"
  have sh: "swept_heap c2 m ?tab us c3" by (simp add: swept_heap_def c3_def)
  note ok = swept_heap_ok [OF h2 a2 us(2) sh ms' refl lo2]
  have mk: "marked (swept_by c2) p = marked (mem c2) p" if "p \<in> large_set c2" for p
    using swept_outside [OF h2 a2 large_header(2) [OF lo2 that]] by (simp add: marked_def)
  have surv: "\<exists>n. (p, n) \<in> useds As' \<and> (p, n) \<in> useds As" if p: "p \<in> large_set c3" for p
  proof -
    have pl: "p \<in> large_set c2" "marked (mem c2) p" using p ok(4) by auto
    obtain n where "(p, n) \<in> useds As" using large_ok_object [OF lo2 pl(1)] by blast
    then show ?thesis using sl(2) mk [OF pl(1)] pl(2) unfolding swept_lumps_def by auto
  qed
  have lg: "\<forall>p\<in>large_set c3. \<not> marked m p"
  proof
    fix p assume p: "p \<in> large_set c3"
    then obtain n where "(p, n) \<in> useds As'" using surv by blast
    moreover have "p \<in> large_set c2" using p ok(4) by auto
    ultimately show "\<not> marked m p" using sl(2) unfolding swept_lumps_def by fastforce
  qed
  have nm3: "no_marks c3" by (rule swept_heap_no_marks [OF h2 a2 us(2) sh ms' lg ok(2,1)])
  have lo3: "large_ok c3 hp As'" unfolding large_ok_def
  proof (intro conjI allI impI)
    show "heap_inv (mem c3) hp As'" using sl(2) by (simp add: swept_lumps_def c3_def)
    fix i assume i: "i < LARGE_SET_SIZE"
    then show "distinct (large_objects c3 i)" using lo2 by (simp add: large_ok_def c3_def)
    show "\<forall>p\<in>set (large_objects c3 i). \<exists>n. (p, n) \<in> useds As'"
    proof
      fix p assume "p \<in> set (large_objects c3 i)"
      then have "p \<in> large_set c3" using i by (auto simp: large_set_def)
      then show "\<exists>n. (p, n) \<in> useds As'" using surv by blast
    qed
  next
    show "reserved As' \<inter> small_memory c3 = {}" using sl(2) lo2 unfolding swept_lumps_def large_ok_def by (simp add: small_memory_def c3_def)
  qed
  have cont: "SIZE (mem c3) p = SIZE (mem c) p \<and> (\<forall>a\<in>payload p (SIZE (mem c) p). mem c3 a = mem c a)" if p: "p \<in> gc_objects c3" for p
  proof (cases "p \<in> large_set c2")
    case True
    then have "p \<in> large_set c3" using p ok(3,4) by (simp add: live_objects_def)
    then obtain n where n: "(p, n) \<in> useds As'" "(p, n) \<in> useds As" using surv by blast
    show ?thesis using survivor_large [OF b h2 a2 go lo2 sl(2) n] by (simp add: c3_def)
  next
    case False
    then have "p \<in> small_objects c2" "marked (mem c2) p" using p ok(3) by (auto simp: live_objects_def gc_objects_def)
    then show ?thesis using survivor_small [OF b h2 a2 go lo2 ms'] by (simp add: c3_def)
  qed
  have "prepare_regions (hmem ?g3) (small_regions (core ?g3)) (block_list ?g3) (usage (core ?g3)) = Inr us" using us(1) by (simp add: hmem_def)
  moreover have "\<forall>r\<in>set (small_regions c3). full_region r" using fr2 by (simp add: c3_def)
  ultimately show ?thesis using sp c3_def ok(1,2) nm3 lo3 cont ok(3) lv by (intro exI [of _ "kept w"] exI [of _ ?g3] exI [of _ us] exI [of _ As'] exI [of _ c3]) simp
qed

lemma heap_inv_halloc [simp]: "heap_inv m (h\<lparr>halloc := x\<rparr>) As = heap_inv m h As"
  by (simp add: heap_inv_def)

lemma gc_collect_effect:
  assumes p: "prepare_gc_small g = Inr g1" and st: "heap_state g1 As"
    and gr: "graph_ok ct (core g1)" "roots_ok r (core g1)" "finals_ok (core g1)" "4 \<le> length (mark_stack (core g1))"
    and room: "2 * (card (gc_objects (core g1)) + 2) \<le> length (mark_stack (core g1))"
  shows "\<exists>g' g2 As'. gc_collect ct r lack g = Some (Inr g') \<and> prepare_gc_small g' = Inr g2 \<and> heap_state g2 As' \<and>
    gc_objects (core g2) = reach ct (core g1) (root_objects r (core g1) \<union> snd ` set (do_final (core g'))) \<and>
    (\<forall>p\<in>gc_objects (core g2). SIZE (hmem g2) p = SIZE (hmem g1) p \<and> (\<forall>a\<in>payload p (SIZE (hmem g1) p). hmem g2 a = hmem g1 a))"
proof -
  have nm: "no_marks (core g1)" using st by (simp add: heap_state_def)
  obtain c2 where c2: "mark_phase ct r (HEAPSIZE g1) (core g1) = Some (Inr c2)" "base (core g1) c2" "length (mark_stack c2) = length (mark_stack (core g1))" "stack_ok c2"
    "{p \<in> gc_objects (core g1). marked (mem c2) p} = reach ct (core g1) (root_objects r (core g1) \<union> snd ` set (do_final c2))"
    "mark_state c2 = MARK_STATE_COLLECT \<and> distinct (entries c2) \<and> set (entries c2) = {p \<in> gc_objects (core g1). marked (mem c2) p} \<or>
     mark_state c2 = MARK_STATE_NORMAL \<and> mark_top c2 = - 1"
    using mark_phase_effect [OF gr(1) nm gr(2-4), of "HEAPSIZE g1"] by blast
  obtain k g3 us As' c3 where g3: "sweep_phase (g1\<lparr>core := c2\<rparr>) = Some (Inr (k, g3))"
    and pr: "prepare_regions (hmem g3) (small_regions (core g3)) (block_list g3) (usage (core g3)) = Inr us" and c3: "c3 = (core g3)\<lparr>usage := us\<rparr>"
    and ok: "heap_ok c3" "area_ok c3" "no_marks c3" "\<forall>r\<in>set (small_regions c3). full_region r" "large_ok c3 (large_heap g3) As'"
    and ob: "gc_objects c3 = {p \<in> gc_objects (core g1). marked (mem c2) p}"
    and ct: "\<forall>p\<in>gc_objects c3. SIZE (mem c3) p = SIZE (mem (core g1)) p \<and> (\<forall>a\<in>payload p (SIZE (mem (core g1)) p). mem c3 a = mem (core g1) a)"
    and cu: "small_cursor g3 = small_cursor g1" "small_bound g3 = small_bound g1" "do_final (core g3) = do_final c2"
    using sweep_phase_ok [OF st refl c2(2,4,3,6) room] by (elim exE conjE) (rule that)
  define g4 where "g4 = (if lack then expand_heap k g3 else g3)"
  define g' where "g' = g4\<lparr>small_alloc := 0, large_heap := (large_heap g4)\<lparr>halloc := 0\<rparr>, fixed_heap := (fixed_heap g4)\<lparr>halloc := 0\<rparr>\<rparr>"
  have e4: "core g4 = core g3" "large_heap g4 = large_heap g3" "block_list g4 = block_list g3" "small_cursor g4 = small_cursor g3" "small_bound g4 = small_bound g3"
    by (simp_all add: g4_def expand_heap_def Let_def)
  have z: "small_cursor g1 = 0" "small_bound g1 = 0" using p by (auto simp: prepare_gc_small_def Let_def bind_result_Inr)
  have col: "gc_collect ct r lack g = Some (Inr g')" using p c2(1) g3 by (simp add: gc_collect_def g'_def g4_def Let_def)
  have cl: "close_area g' = g'" using z cu by (simp add: close_area_def g'_def e4)
  define g2 where "g2 = g'\<lparr>small_cursor := 0, small_bound := 0, core := (core g')\<lparr>usage := us\<rparr>\<rparr>"
  have p2: "prepare_gc_small g' = Inr g2" using pr unfolding prepare_gc_small_def cl by (simp add: Let_def g2_def hmem_def) (simp add: g'_def e4 hmem_def)
  have c23: "core g2 = c3" by (simp add: g2_def g'_def e4 c3)
  have "heap_state g2 As'" using ok unfolding heap_state_def c23 by (simp add: g2_def g'_def e4 large_ok_def)
  moreover have "do_final (core g') = do_final c2" by (simp add: g'_def e4 cu(3))
  ultimately show ?thesis using col p2 ob ct c2(5) c23 by (intro exI [of _ g'] exI [of _ g2] exI [of _ As']) (simp add: hmem_def)
qed

section \<open>A sample\<close>

lemma table_eqI:
  assumes "length t = 16" "length t' = 16" "\<forall>q<512. block_used t q \<longleftrightarrow> block_used t' q"
  shows "t = t'"
proof (rule nth_equalityI)
  show "length t = length t'" using assms by simp
  fix i assume i: "i < length t"
  show "t ! i = t' ! i"
  proof (rule bit_word_eqI)
    fix n assume n: "n < LENGTH(32)"
    then have "block_used t (i * 32 + n) \<longleftrightarrow> block_used t' (i * 32 + n)" using assms(1,3) i by simp
    then show "bit (t ! i) n = bit (t' ! i) n" using n unfolding block_used_bit by simp
  qed
qed

definition sample_gcheap :: gcheap where
  "sample_gcheap = \<lparr>core = sample_heap, hos = \<lparr>brk = 2101248, brk_limit = 2101248\<rparr>, limit = 2097152, heap_size = 2097152, small_cursor = 0, small_bound = 0,
     chunk_list = [4148], block_list = [8192], small_size = 2097152, small_alloc = 48, table_pos = 512, fixed_heap = mem_init GC_REGION_FIXED, large_heap = mem_init GC_REGION_LARGE\<rparr>"

lemma sample_used: "q < 512 \<Longrightarrow> block_used (1 # replicate 15 0) q \<longleftrightarrow> q = 0"
proof -
  assume q: "q < 512"
  have "set (used_blocks sample_heap sample_region) = {0}" by (simp add: sample_blocks)
  moreover have "region_blocks sample_region = 512" by (simp add: region_blocks_def sample_region_def gc_consts)
  ultimately show ?thesis using q by (auto simp: used_blocks_def sample_fields)
qed

lemma sample_prepared: "prepare_gc_small sample_gcheap = Inr sample_gcheap"
proof -
  let ?as = "map (\<lambda>i. 8192 + i * 4096) [0..<511]"
  have m: "sample_memory 8192 = 2093056" by (simp add: sample_memory_def)
  obtain t where t: "clear_blocks sample_region ?as (replicate 16 (- 1)) = Inr t" "length t = 16"
    "\<forall>q<512. block_used t q \<longleftrightarrow> block_used (replicate 16 (- 1)) q \<and> (\<forall>a\<in>set ?as. q \<noteq> (a - rstart sample_region) div 4096)"
    using clear_blocks_ok [of "replicate 16 (- 1)" ?as sample_region] by (auto simp: sample_region_def)
  have "block_used t q \<longleftrightarrow> block_used (1 # replicate 15 0) q" if q: "q < 512" for q
  proof -
    have "block_used (replicate 16 (- 1)) q" using q unfolding block_used_bit by simp
    moreover have "(8192 + i * 4096 - 4096) div 4096 = i + 1" for i :: nat by simp
    then have "(\<forall>a\<in>set ?as. q \<noteq> (a - rstart sample_region) div 4096) \<longleftrightarrow> (\<forall>i<511. q \<noteq> i + 1)" by (auto simp: sample_region_def)
    moreover have "(\<forall>i<511. q \<noteq> i + 1) \<longleftrightarrow> q = 0" using q by (cases q) auto
    ultimately show ?thesis using t(3) q sample_used [OF q] by simp
  qed
  then have tab: "t = 1 # replicate 15 0" using table_eqI [OF t(2)] by simp
  have "prepare_region sample_memory sample_region [8192] (replicate 16 (- 1)) = Inr ([], t)" using t(1) by (simp add: sample_region_def m gc_consts)
  then have "prepare_regions sample_memory [sample_region] [8192] (\<lambda>_. t) = Inr (\<lambda>_. t)" by (simp add: gc_consts fun_upd_idem del: prepare_region.simps)
  then show ?thesis by (simp add: prepare_gc_small_def close_area_def hmem_def sample_gcheap_def sample_fields tab)
qed

lemma sample_state: "heap_state sample_gcheap []"
proof -
  have "area_ok sample_heap"
    by (auto simp: area_ok_def regions_sorted_def region_aligned_def sample_fields sample_headers large_set_def sample_unmarked) (auto simp: sample_region_def)
  moreover have "full_region sample_region" by (simp add: full_region_def sample_region_def gc_consts)
  moreover have "large_ok sample_heap (mem_init GC_REGION_LARGE) []"
    by (simp add: large_ok_def heap_inv_def places_def tilings_def lists_ok_def mem_init_def frees_def sample_fields reserved_def all_lumps_def)
  ultimately show ?thesis using sample_heap_ok sample_no_marks by (simp add: heap_state_def sample_gcheap_def sample_fields)
qed

text \<open>
  C38. A collection reclaims exactly the garbage. If the heap is well formed when a collection has been prepared, and the mark stack has room for
  sorting the objects, then the collection returns; the next one can be prepared, its heap is well formed again and has no marks, and its objects are those that
  were reachable from the roots and from the objects due for finalization. Each of them has kept its place, its size and its contents.
\<close>
theorem gc_collect_reclaims:
  assumes "prepare_gc_small g = Inr g1" "heap_state g1 As" "graph_ok ct (core g1)" "roots_ok r (core g1)" "finals_ok (core g1)" "4 \<le> length (mark_stack (core g1))"
    and "2 * (card (gc_objects (core g1)) + 2) \<le> length (mark_stack (core g1))"
  shows "\<exists>g' g2 As'. gc_collect ct r lack g = Some (Inr g') \<and> prepare_gc_small g' = Inr g2 \<and> heap_state g2 As' \<and>
    gc_objects (core g2) = reach ct (core g1) (root_objects r (core g1) \<union> snd ` set (do_final (core g'))) \<and>
    (\<forall>p\<in>gc_objects (core g2). SIZE (hmem g2) p = SIZE (hmem g1) p \<and> (\<forall>a\<in>payload p (SIZE (hmem g1) p). hmem g2 a = hmem g1 a))"
  by (rule gc_collect_effect [OF assms])

theorem gc_collect_reclaims_witness:
  "\<exists>g' g2 As'. gc_collect sample_walk sample_roots False sample_gcheap = Some (Inr g') \<and> prepare_gc_small g' = Inr g2 \<and> heap_state g2 As' \<and>
    gc_objects (core g2) = reach sample_walk sample_heap (root_objects sample_roots sample_heap \<union> snd ` set (do_final (core g'))) \<and>
    (\<forall>p\<in>gc_objects (core g2). SIZE (hmem g2) p = SIZE sample_memory p \<and> (\<forall>a\<in>payload p (SIZE sample_memory p). hmem g2 a = sample_memory a))"
proof -
  have c: "core sample_gcheap = sample_heap" by (simp add: sample_gcheap_def)
  have "2 * (card (gc_objects sample_heap) + 2) \<le> 10" by (simp add: sample_objects)
  with gc_collect_reclaims [OF sample_prepared sample_state, of sample_walk sample_roots False]
  show ?thesis using sample_ok by (simp add: hmem_def c sample_fields)
qed

definition sample_marked :: gcs where
  "sample_marked = sample_heap\<lparr>mem := sample_memory(4100 := 17, 4116 := 17), mark_stack := [4120, 4104, 0, 0, 0, 0, 0, 0, 0, 0]\<rparr>"

lemma sample_marked_base: "base sample_heap sample_marked"
proof -
  have "only_marks {4104, 4120, 4136} sample_memory (sample_memory(4100 := 17, 4116 := 17))"
    unfolding only_marks_def by (auto simp: sample_memory_def HEADER_def GC_HEAD_def set_bit_eq_or)
  then show ?thesis unfolding base_def sample_objects by (simp add: sample_marked_def sample_fields)
qed

lemma sample_marked_ok: "heap_ok sample_marked" "area_ok sample_marked" "collected sample_marked 2"
proof -
  have st: "heap_ok sample_heap" "area_ok sample_heap" "no_marks sample_heap" "large_ok sample_heap (large_heap sample_gcheap) []"
    using sample_state by (simp_all add: heap_state_def sample_gcheap_def)
  note ob = objects_base [OF sample_marked_base st(1)]
  show "heap_ok sample_marked" using ob by blast
  show "area_ok sample_marked" by (rule base_area_ok [OF sample_marked_base st])
  have "gc_objects sample_marked = {4104, 4120, 4136}" using ob sample_objects by blast
  moreover have "marked (mem sample_marked) 4104" "marked (mem sample_marked) 4120" "\<not> marked (mem sample_marked) 4136"
    by (simp_all add: sample_marked_def marked_def HEADER_def GC_HEAD_def marked_word_def sample_memory_def)
  ultimately have "live_objects sample_marked = {4104, 4120}" unfolding live_objects_def by blast
  moreover have "take 2 (mark_stack sample_marked) = [4120, 4104]" by (simp add: sample_marked_def)
  ultimately show "collected sample_marked 2" unfolding collected_def by simp blast
qed

text \<open>
  C39. The two ways of sweeping the small object area agree. The normal sweep walks over every chunk of every block in use, the
  selective sweep sorts the objects the mark phase collected on its stack and visits only those; when the stack holds the marked objects, in any
  order, both return with the same memory, the same lists of free chunks and of free blocks and the same number of live bytes.
\<close>
theorem sweeps_agree:
  assumes "heap_ok s" "area_ok s" "collected s n" "2 * (n + 2) \<le> length (mark_stack s)"
  shows "\<exists>w w' stack. sweep_small_normal (small_regions s) (usage s) (mem s) = Some (Inr w) \<and>
    sweep_small_selective (small_regions s) (mem s) (mark_stack s) n = Inr (w', stack) \<and>
    swept_mem w = swept_mem w' \<and> small_chunks w = small_chunks w' \<and> small_blocks w = small_blocks w' \<and> kept w = kept w'"
proof -
  obtain w where w: "sweep_small_normal (small_regions s) (usage s) (mem s) = Some (Inr w)" "swept_state s w" using sweep_small_normal_rel [OF assms(1,2)] by blast
  obtain w' stack where w': "sweep_small_selective (small_regions s) (mem s) (mark_stack s) n = Inr (w', stack)" "swept_state s w'" using sweep_small_selective_rel [OF assms] by blast
  show ?thesis using w w' by (auto simp: swept_state_def Let_def)
qed

theorem sweeps_agree_witness:
  "\<exists>w w' stack. sweep_small_normal [sample_region] (\<lambda>_. 1 # replicate 15 0) (sample_memory(4100 := 17, 4116 := 17)) = Some (Inr w) \<and>
    sweep_small_selective [sample_region] (sample_memory(4100 := 17, 4116 := 17)) [4120, 4104, 0, 0, 0, 0, 0, 0, 0, 0] 2 = Inr (w', stack) \<and>
    swept_mem w = swept_mem w' \<and> small_chunks w = small_chunks w' \<and> small_blocks w = small_blocks w' \<and> kept w = kept w'"
  using sweeps_agree [OF sample_marked_ok] by (simp add: sample_marked_def sample_fields)

end
