(* ===== verification/Spec2Isabelle.thy ===== *)
theory Spec2Isabelle
  imports Type_Test Soft_Arith Object_Alloc Dispatch Field_Layout Monitors GC_Cycle
begin

text \<open>
  LaTTe is a Java virtual machine with a just-in-time compiler for SPARC, written in C. A class is read from a file
  (\<^verbatim>\<open>readClass.c\<close>, \<^verbatim>\<open>constants.c\<close>, \<^verbatim>\<open>verify.c\<close>, \<^verbatim>\<open>code.c\<close>), its strings
  are interned (\<^verbatim>\<open>string.c\<close>), its fields are laid out and its dispatch tables are built
  (\<^verbatim>\<open>classMethod.c\<close>), and it enters the bit matrix for subtype tests
  (\<^verbatim>\<open>class_inclusion_test.c\<close>). Translated code then calls the runtime: lookups and resolution
  (\<^verbatim>\<open>lookup.c\<close>, \<^verbatim>\<open>soft.c\<close>, \<^verbatim>\<open>translator/functions.c\<close>), allocation
  (\<^verbatim>\<open>object.c\<close>, \<^verbatim>\<open>gc.c\<close>), threads and monitors
  (\<^verbatim>\<open>thread-internal.c\<close>, \<^verbatim>\<open>thread.c\<close>, \<^verbatim>\<open>locks.c\<close>). The development models these parts of the runtime; file names are
  below \<^verbatim>\<open>src/src\<close>, in \<^verbatim>\<open>runtime\<close> unless a directory is given.

  \<^bold>\<open>Configuration.\<close> The default build: translator with customization, inline caches and type analysis, no
  interpreter, \<^verbatim>\<open>NDEBUG\<close>, trampolines, optimised locks, precise monitor exit, the new interface tables, interned UTF-8
  constants, no translator stack. The target is 32-bit big-endian SPARC: pointers have 4 bytes, an object header 8 and an array header 16, \<^verbatim>\<open>char\<close> is signed.

  \<^bold>\<open>Conventions.\<close> An operation that may raise or abort returns \<^typ>\<open>'a result\<close>; \<open>C_undefined\<close> is behaviour C leaves undefined, such as
  an access past the end of an array or through the null pointer, so a theorem that excludes it is a memory safety statement. Loops that may run
  forever are partial functions into \<open>option\<close>, and the theorems prove that they return. Fuel is used for the chain of superclasses in \<open>Method_Lookup\<close> and \<open>Dispatch\<close> (the number of
  classes, which bounds every acyclic chain), for the nesting of attributes in \<open>Class_File\<close> (two levels occur) and for the probe counters of \<open>Interning\<close>, which the source has itself. Machine integers are words or wrapped integers where the source may overflow; memory sizes and addresses in the
  collector are natural numbers with the reductions modulo \<open>2 ^ 32\<close> written out. A linked list whose links lie in the memory it links is a list of addresses. Code outside these files is a parameter with
  its laws as hypotheses.

  \<^bold>\<open>Theories.\<close>
  \<^item> \<open>LaTTe_Prelude\<close>: errors, sequencing, loops, lemmas on lists and words, the interface \<open>bitset\<close> (a locale, interpreted for the rows of the bit matrix).
  \<^item> \<open>Class_Inclusion\<close>, \<open>Type_Test\<close>: the bit matrix with its growth, \<open>CIT_is_subclass\<close>, and the recursive \<open>instanceof\<close> of
    \<^verbatim>\<open>soft.c\<close>. The matrix decides the supertype relation for classes and interfaces; matrix and recursion agree except on listed array types.
  \<^item> \<open>Soft_Arith\<close>: comparison, division, shift and conversion helpers and the search of \<open>lookupswitch\<close>.
  \<^item> \<open>Object_Alloc\<close>: \<^verbatim>\<open>object.c\<close> and the allocation helpers of \<^verbatim>\<open>soft.c\<close> over an abstract allocator; sizes and nested arrays.
  \<^item> \<open>Signatures\<close>, \<open>Constant_Pool\<close>, \<open>Class_File\<close>: descriptors, the constant pool with its verification, and the class file reader, with round trips
    from abstract syntax through the encoding.
  \<^item> \<open>Open_Addressing\<close>, \<open>Interning\<close>, \<open>String_Table\<close>: the probing tables (a locale for probe sequences) and the interning of constants and strings.
  \<^item> \<open>Method_Lookup\<close>, \<open>Dispatch\<close>, \<open>Field_Layout\<close>: method and exception lookup, dispatch and interface tables, offsets of fields. Dispatch through a table refines
    lookup by name and signature.
  \<^item> \<open>Threads\<close>, \<open>Scheduler\<close>, \<open>Locks\<close>, \<open>Monitors\<close>: ready queues, alarms and blocking, rescheduling, lock words with waiters and conditions. The step relation of a machine
    that runs threads calling these operations has an invariant, proved by rule induction over reachable states: mutual exclusion, every runtime call returns, the highest priority runs.
  \<^item> \<open>GC_Memory\<close>, \<open>GC_Mark\<close>, \<open>GC_Trace\<close>: headers and regions, the mark phase of \<^verbatim>\<open>gc.c\<close>, and its correctness: whatever the size of the mark stack it returns and marks exactly
    the reachable objects.
  \<^item> \<open>GC_Lumps\<close>, \<open>GC_Arena\<close>: the manual memory manager behind fixed memory and large objects, and its refinement of an abstract heap of lumps.
  \<^item> \<open>GC_Sort\<close>, \<open>GC_Sweep\<close>, \<open>GC_Reclaim\<close>: the radix sort of the live objects, the selective and the normal sweep of the small object area, and that both have the same effect.
  \<^item> \<open>GC_Heap\<close>: the state of the whole memory manager, allocation of small and large objects, the preparation of a collection, one turn of the collector thread.
  \<^item> \<open>GC_Regions\<close>, \<open>GC_Large\<close>, \<open>GC_Cycle\<close>: the small object area after a sweep, the sweep of the large objects, and a whole collection: it keeps exactly the reachable
    objects with their contents and leads to a heap from which the next collection can start.

  \<^bold>\<open>Interfaces.\<close> The locales are \<open>bitset\<close> (rows of the matrix), the probe sequences of \<open>Open_Addressing\<close> (interpreted for both intern tables) and \<open>links\<close> in \<open>Threads\<close> (interpreted for the three
  link fields of a thread context).

  \<^bold>\<open>Not modelled.\<close> The translator, the just-in-time compiler of Kaffe and the interpreter: they produce or are machine code for SPARC, whose semantics the sources do not give. Class
  loading, static initialization and exception dispatch, which run Java code and unwind machine stacks; of them the runtime parts that only read tables are in \<open>Method_Lookup\<close>. The finalizer thread,
  the handshake between \<^verbatim>\<open>gc_invoke\<close> and the collector thread, saved registers and signals. Native methods, jar files and the command line, which are calls of the operating system.
\<close>

end
